(* ===== verification/Prelude.thy ===== *)
theory Prelude
  imports Main "HOL-Library.Word" "HOL-Library.While_Combinator"
begin

text \<open>
  Shared vocabulary of the development.

  \<^item> The machine types of the code: \<open>size_t\<close>/\<open>uint64_t\<close> is \<open>64 word\<close>, \<open>unsigned\<close>/\<open>uint32_t\<close> is
    \<open>32 word\<close>, \<open>uint16_t\<close> is \<open>16 word\<close> and a byte of a buffer is \<open>8 word\<close>.  Arithmetic on them wraps, as in C++.
  \<^item> Raw object storage (\<open>union maybe_item\<close>, \<open>allocator::allocate\<close>) is an \<open>'a option list\<close>: a slot
    is \<open>None\<close> while no object lives in it.  \<open>slot_get\<close> reads a slot and is \<open>None\<close> outside the
    allocation, so an out-of-range or dead access never looks like a value.
  \<^item> Exceptions are values of \<open>exn\<close>; promises are numbered and live in a \<open>promise_store\<close>, which
    records for every promise whether it is pending, was given a value or was given an exception.
  \<^item> The lemmas on masks, words and while loops that several components use.
\<close>

unbundle bit_operations_syntax

type_synonym size_t = "64 word"
type_synonym u32 = "32 word"
type_synonym u16 = "16 word"
type_synonym u8 = "8 word"

named_theorems word_nat_simps \<open>reading word arithmetic as arithmetic on natural numbers\<close>
named_theorems refine_simps \<open>equations that push an abstraction function through an operation\<close>
named_theorems inv_intros \<open>preservation of component invariants\<close>

section \<open>Raw storage\<close>

definition slot_get :: "'a option list \<Rightarrow> nat \<Rightarrow> 'a option" where
  "slot_get st i = (if i < length st then st ! i else None)"

lemma slot_get_update:
  "slot_get (st[i := v]) j = (if i = j \<and> i < length st then v else slot_get st j)"
  by (auto simp: slot_get_def nth_list_update)

lemma slot_get_update_same [simp]: "i < length st \<Longrightarrow> slot_get (st[i := v]) i = v"
  by (simp add: slot_get_update)

lemma slot_get_update_other [simp]: "i \<noteq> j \<Longrightarrow> slot_get (st[i := v]) j = slot_get st j"
  by (simp add: slot_get_update)

lemma slot_get_replicate [simp]: "slot_get (replicate n None) i = None"
  by (simp add: slot_get_def)

lemma slot_get_Nil [simp]: "slot_get [] i = None"
  by (simp add: slot_get_def)

lemma slot_get_clear [simp]:
  "slot_get (st[i := None]) j = Some y \<longleftrightarrow> j \<noteq> i \<and> slot_get st j = Some y"
  by (cases "i < length st") (auto simp: slot_get_def nth_list_update)

lemma slot_get_SomeD: "slot_get st i = Some x \<Longrightarrow> i < length st \<and> st ! i = Some x"
  by (auto simp: slot_get_def split: if_splits)

section \<open>Exceptions, promises and futures\<close>

text \<open>The exceptions thrown or stored by the modelled components.\<close>

datatype exn =
    Bad_alloc
  | Ctor_throw
  | Timed_out_error
  | Semaphore_timed_out
  | Broken_semaphore
  | Gate_closed
  | Broken_promise
  | Condition_variable_timed_out
  | Broken_condition_variable
  | Broken_pipe
  | Unread_overflow
  | Abort_requested
  | User_exn nat

text \<open>
  The state of a promise as its future sees it.  A future that a component returns is either
  already resolved (\<open>make_ready_future\<close>, \<open>make_exception_future\<close>) or refers to a promise.
\<close>

datatype fstate = Pending | Ready | Failed exn

datatype fut = Ready_fut | Exn_fut exn | Promise_fut nat

record promise_store =
  pr_next :: nat
  pr_state :: "nat \<Rightarrow> fstate"

definition empty_store :: promise_store where
  "empty_store = \<lparr>pr_next = 0, pr_state = (\<lambda>_. Pending)\<rparr>"

text \<open>Creating a promise takes the next number; resolving it records the outcome once.\<close>

definition new_promise :: "promise_store \<Rightarrow> nat \<times> promise_store" where
  "new_promise ps = (pr_next ps, ps\<lparr>pr_next := Suc (pr_next ps), pr_state := (pr_state ps)(pr_next ps := Pending)\<rparr>)"

definition resolve :: "nat \<Rightarrow> fstate \<Rightarrow> promise_store \<Rightarrow> promise_store" where
  "resolve p r ps = ps\<lparr>pr_state := (pr_state ps)(p := r)\<rparr>"

definition fut_state :: "promise_store \<Rightarrow> fut \<Rightarrow> fstate" where
  "fut_state ps f = (case f of Ready_fut \<Rightarrow> Ready | Exn_fut e \<Rightarrow> Failed e | Promise_fut p \<Rightarrow> pr_state ps p)"

lemma pr_next_resolve [simp]: "pr_next (resolve p r ps) = pr_next ps"
  by (simp add: resolve_def)

lemma pr_state_resolve [simp]: "pr_state (resolve p r ps) = (pr_state ps)(p := r)"
  by (simp add: resolve_def)

section \<open>Words\<close>

lemma unat_less_exp: "unat (x :: 'a::len word) < 2 ^ LENGTH('a)"
  by (rule unsigned_less)

lemma of_nat_unat_id [simp]: "of_nat (unat (x :: 'a::len word)) = x"
  by simp

lemma word_exp_minus_one_mask: "(2 ^ n - 1 :: 'a::len word) = mask n"
  by (simp add: mask_eq_exp_minus_1)

lemma unat_and_pow2_mask [word_nat_simps]:
  fixes x :: "'a::len word"
  assumes "n < LENGTH('a)"
  shows "unat (x AND (2 ^ n - 1)) = unat x mod 2 ^ n"
proof -
  have "x AND (2 ^ n - 1) = take_bit n x"
    by (simp add: word_exp_minus_one_mask take_bit_eq_mask)
  moreover have "unat (take_bit n x) = take_bit n (unat x)"
    by (rule unsigned_take_bit_eq)
  ultimately show ?thesis
    by (simp only: take_bit_eq_mod)
qed

lemma unat_add_mod_pow2:
  fixes x y :: "'a::len word"
  assumes "n \<le> LENGTH('a)"
  shows "unat (x + y) mod 2 ^ n = (unat x + unat y) mod 2 ^ n"
proof -
  have "(2::nat) ^ n dvd 2 ^ LENGTH('a)" using assms by (rule le_imp_power_dvd)
  then show ?thesis by (simp add: unat_word_ariths mod_mod_cancel)
qed

lemma unat_of_nat_small: "k < 2 ^ LENGTH('a) \<Longrightarrow> unat (of_nat k :: 'a::len word) = k"
  by (simp add: unat_of_nat take_bit_nat_eq_self)

lemma of_nat_eq_zero_small:
  assumes "k < 2 ^ LENGTH('a)"
  shows "(of_nat k :: 'a::len word) = 0 \<longleftrightarrow> k = 0"
proof
  assume "(of_nat k :: 'a word) = 0"
  then have "unat (of_nat k :: 'a word) = 0" by (simp only: unat_0)
  then show "k = 0" using unat_of_nat_small [OF assms] by simp
qed simp

lemma unat_exp_word [word_nat_simps]:
  assumes "n < LENGTH('a)"
  shows "unat (2 ^ n :: 'a::len word) = 2 ^ n"
proof -
  have "unat (of_nat (2 ^ n) :: 'a word) = 2 ^ n"
    using assms by (intro unat_of_nat_small) simp
  then show ?thesis by simp
qed

lemma unat_diff_le: "y \<le> x \<Longrightarrow> unat (x - y :: 'a::len word) = unat x - unat y"
  by (simp add: unat_sub_if_size word_le_nat_alt)

lemma unat_ucast_up:
  fixes x :: "'a::len word"
  assumes "LENGTH('a) \<le> LENGTH('b::len)"
  shows "unat (ucast x :: 'b word) = unat x"
proof -
  have "unat x < 2 ^ LENGTH('b)"
    using unat_less_exp [of x] assms by (meson less_le_trans one_le_numeral power_increasing)
  then show ?thesis by (simp add: unsigned_ucast_eq take_bit_nat_eq_self)
qed

lemma unat_Suc_diff:
  fixes i e :: "'a::len word"
  assumes "i \<noteq> e"
  shows "Suc (unat (e - (i + 1))) = unat (e - i)"
proof -
  have "e - i \<noteq> 0" using assms by simp
  then have "unat (e - i - 1) = unat (e - i) - 1" and "0 < unat (e - i)"
    by (simp_all add: unat_minus_one unat_gt_0)
  then show ?thesis by (simp add: diff_diff_eq)
qed

lemma unat_plus_one:
  fixes x :: "'a::len word"
  assumes "Suc (unat x) < 2 ^ LENGTH('a)"
  shows "unat (x + 1) = Suc (unat x)"
  using assms by (simp add: unat_word_ariths)

lemma mod_inj_window:
  fixes a b i j n :: nat
  assumes "(b + i) mod n = (b + j) mod n" and "i < n" and "j < n"
  shows "i = j"
proof -
  have "int i mod int n = int j mod int n"
  proof -
    have "int (b + i) mod int n = int (b + j) mod int n"
      using assms(1) by (metis zmod_int)
    then have "(int (b + i) - int b) mod int n = (int (b + j) - int b) mod int n"
      by (metis mod_diff_left_eq)
    then show ?thesis by simp
  qed
  then show ?thesis using assms(2,3) by simp
qed

section \<open>Lists\<close>

lemma dropWhile_Cons_iff: "dropWhile P (x # xs) = (if P x then dropWhile P xs else x # xs)"
  by simp

lemma filter_dropWhile_not:
  "filter P (dropWhile (\<lambda>x. \<not> P x) xs) = filter P xs"
  by (induction xs) auto

lemma takeWhile_dropWhile_split: "\<exists>n. takeWhile P xs = take n xs \<and> dropWhile P xs = drop n xs"
  by (metis append_eq_conv_conj takeWhile_dropWhile_id)

end
