(* ===== verification/Bitops.thy ===== *)
theory Bitops
  imports "Prelude"
begin

text \<open>
  \<open>core/bitops.hh\<close>, \<open>core/align.hh\<close> and \<open>core/bitset-iter.hh\<close>: bit counting, powers of two,
  alignment and the iteration over the set bits of a \<open>std::bitset\<close>.

  The compiler builtins \<open>__builtin_clz\<close> and \<open>__builtin_ctz\<close> are undefined on 0, so their models
  return \<open>None\<close> there.  A \<open>std::bitset<64>\<close> is a \<open>64 word\<close>; its \<open>>>=\<close> is \<open>drop_bit\<close>, which is 0 when
  the shift is at least 64, as for the standard bitset.
\<close>

section \<open>Definitions\<close>

fun bit_width :: "nat \<Rightarrow> nat" where
  "bit_width n = (if n = 0 then 0 else Suc (bit_width (n div 2)))"

declare bit_width.simps [simp del]

fun low_zeros :: "nat \<Rightarrow> nat" where
  "low_zeros n = (if n = 0 \<or> odd n then 0 else Suc (low_zeros (n div 2)))"

declare low_zeros.simps [simp del]

definition count_leading_zeros :: "'a::len word \<Rightarrow> nat option" where
  "count_leading_zeros x = (if x = 0 then None else Some (LENGTH('a) - bit_width (unat x)))"

definition count_trailing_zeros :: "'a::len word \<Rightarrow> nat option" where
  "count_trailing_zeros x = (if x = 0 then None else Some (low_zeros (unat x)))"

definition log2ceil :: "'a::len word \<Rightarrow> nat option" where
  "log2ceil n =
     (if n = 1 then Some 0
      else map_option (\<lambda>z. LENGTH('a) - z) (count_leading_zeros (n - 1)))"

definition log2floor :: "'a::len word \<Rightarrow> nat option" where
  "log2floor n = map_option (\<lambda>z. LENGTH('a) - z - 1) (count_leading_zeros n)"

definition align_up :: "'a::len word \<Rightarrow> 'a word \<Rightarrow> 'a word" where
  "align_up v align = (v + align - 1) AND NOT (align - 1)"

definition align_down :: "'a::len word \<Rightarrow> 'a word \<Rightarrow> 'a word" where
  "align_down v align = v AND NOT (align - 1)"

text \<open>
  \<open>timestamp_clz\<close> is the overload of \<open>bitsets::count_leading_zeros\<close> for the signed 64-bit types:
  the count over the 63 value bits.
\<close>

definition timestamp_clz :: "64 word \<Rightarrow> nat option" where
  "timestamp_clz v = map_option (\<lambda>z. z - 1) (count_leading_zeros v)"

definition get_first_set :: "64 word \<Rightarrow> nat option" where
  "get_first_set b = count_trailing_zeros b"

definition get_last_set :: "64 word \<Rightarrow> nat option" where
  "get_last_set b = map_option (\<lambda>z. 64 - 1 - z) (count_leading_zeros b)"

record set_iterator =
  si_bitset :: "64 word"
  si_index :: int

definition si_advance :: "set_iterator \<Rightarrow> set_iterator" where
  "si_advance it =
     (case get_first_set (si_bitset it) of
        None \<Rightarrow> it\<lparr>si_index := -1\<rparr>
      | Some z \<Rightarrow> it\<lparr>si_index := si_index it + int (z + 1), si_bitset := drop_bit (z + 1) (si_bitset it)\<rparr>)"

definition si_begin :: "64 word \<Rightarrow> nat \<Rightarrow> set_iterator" where
  "si_begin bitset offset =
     si_advance \<lparr>si_bitset = drop_bit offset bitset, si_index = int offset - 1\<rparr>"

definition si_eq :: "set_iterator \<Rightarrow> set_iterator \<Rightarrow> bool" where
  "si_eq a b \<longleftrightarrow> si_index a = si_index b"

lemma unat_drop_bit_div: "unat (drop_bit n (x :: 'a::len word)) = unat x div 2 ^ n"
proof -
  have "unat (drop_bit n x) = drop_bit n (take_bit LENGTH('a) (unat x))"
    by (rule unsigned_drop_bit_eq)
  then show ?thesis by (simp only: drop_bit_eq_div unsigned_take_bit_eq [symmetric]) simp
qed

lemma si_advance_measure:
  "(if si_index (si_advance it) = -1 then 0 else Suc (unat (si_bitset (si_advance it))))
     < Suc (unat (si_bitset it))"
proof (cases "si_bitset it = 0")
  case True
  then show ?thesis by (simp add: si_advance_def get_first_set_def count_trailing_zeros_def)
next
  case False
  let ?b = "si_bitset it"
  have "drop_bit (Suc n) ?b < ?b" for n
  proof -
    have "(1::nat) < 2 ^ Suc n" by (rule one_less_power) simp_all
    then have "unat ?b div 2 ^ Suc n < unat ?b"
      using False by (intro div_less_dividend) (auto simp: unat_gt_0)
    then show ?thesis unfolding word_less_nat_alt unat_drop_bit_div .
  qed
  then show ?thesis
    using False
    by (auto simp: si_advance_def get_first_set_def count_trailing_zeros_def word_less_nat_alt)
qed

text \<open>The range loop \<open>for (int i : for_each_set(bitset, offset))\<close> visits these indices.\<close>

function si_collect :: "set_iterator \<Rightarrow> int list" where
  "si_collect it = (if si_index it = -1 then [] else si_index it # si_collect (si_advance it))"
  by pat_completeness auto
termination
  using si_advance_measure
  by (relation "measure (\<lambda>it. if si_index it = -1 then 0 else Suc (unat (si_bitset it)))") auto

declare si_collect.simps [simp del]

definition for_each_set :: "64 word \<Rightarrow> nat \<Rightarrow> nat list" where
  "for_each_set bitset offset = map nat (si_collect (si_begin bitset offset))"

section \<open>Bit counting\<close>

lemma bit_width_bounds: "n < 2 ^ bit_width n \<and> (n \<noteq> 0 \<longrightarrow> 2 ^ (bit_width n - 1) \<le> n)"
proof (induction n rule: bit_width.induct)
  case (1 n)
  show ?case
  proof (cases "n = 0")
    case True
    then show ?thesis by (simp add: bit_width.simps)
  next
    case False
    note IH = "1"[OF False]
    have w: "bit_width n = Suc (bit_width (n div 2))" using False by (subst bit_width.simps) simp
    have up: "n < 2 ^ bit_width n" using IH by (simp add: w) arith
    have "2 ^ bit_width (n div 2) \<le> n"
    proof (cases "n div 2 = 0")
      case True
      then show ?thesis using False by (simp add: bit_width.simps)
    next
      case 2: False
      then have "bit_width (n div 2) \<noteq> 0" by (subst bit_width.simps) simp
      then have "2 ^ bit_width (n div 2) = 2 * 2 ^ (bit_width (n div 2) - 1)"
        by (metis Suc_pred' gr0I power_Suc)
      also have "\<dots> \<le> 2 * (n div 2)" using IH 2 by simp
      finally show ?thesis by linarith
    qed
    then show ?thesis using up by (simp add: w)
  qed
qed

lemma bit_width_le: "n < 2 ^ k \<Longrightarrow> bit_width n \<le> k"
proof (rule ccontr)
  assume "n < 2 ^ k" and "\<not> bit_width n \<le> k"
  then have "k \<le> bit_width n - 1" and "n \<noteq> 0"
    using bit_width.simps [of 0] by (auto intro: gr0I)
  then have "(2::nat) ^ k \<le> 2 ^ (bit_width n - 1)" by simp
  also have "\<dots> \<le> n" using bit_width_bounds \<open>n \<noteq> 0\<close> by blast
  finally show False using \<open>n < 2 ^ k\<close> by simp
qed

lemma bit_width_eqI: "2 ^ k \<le> n \<Longrightarrow> n < 2 ^ Suc k \<Longrightarrow> bit_width n = Suc k"
proof -
  assume a: "2 ^ k \<le> n" and b: "n < 2 ^ Suc k"
  have "bit_width n \<le> Suc k" using b by (rule bit_width_le)
  moreover have "\<not> bit_width n \<le> k"
  proof
    assume "bit_width n \<le> k"
    then have "(2::nat) ^ bit_width n \<le> 2 ^ k" by simp
    then show False using a bit_width_bounds [of n] by linarith
  qed
  ultimately show ?thesis by simp
qed

lemma bit_width_le_len: "bit_width (unat (x :: 'a::len word)) \<le> LENGTH('a)"
  by (rule bit_width_le) (rule unsigned_less)

lemma log2ceil_eq:
  fixes n :: "'a::len word"
  shows "log2ceil n = Some (if n = 1 then 0 else bit_width (unat (n - 1)))"
  using bit_width_le_len [of "n - 1"]
  by (simp add: log2ceil_def count_leading_zeros_def)

lemma log2floor_eq:
  fixes n :: "'a::len word"
  shows "log2floor n = (if n = 0 then None else Some (bit_width (unat n) - 1))"
  using bit_width_le_len [of n]
  by (simp add: log2floor_def count_leading_zeros_def)

lemma low_zeros_spec: "n \<noteq> 0 \<Longrightarrow> bit n (low_zeros n) \<and> (\<forall>j < low_zeros n. \<not> bit n j)"
proof (induction n rule: low_zeros.induct)
  case (1 n)
  show ?case
  proof (cases "odd n")
    case True
    then show ?thesis by (subst (1 2) low_zeros.simps) (simp add: bit_0)
  next
    case False
    then have "n div 2 \<noteq> 0" using "1.prems" by auto
    then have IH: "bit (n div 2) (low_zeros (n div 2))" "\<forall>j < low_zeros (n div 2). \<not> bit (n div 2) j"
      using "1.IH" "1.prems" False by auto
    have lz: "low_zeros n = Suc (low_zeros (n div 2))"
      using False "1.prems" by (subst low_zeros.simps) simp
    show ?thesis
      unfolding lz using IH False
      by (auto simp: bit_Suc bit_0 less_Suc_eq_0_disj)
  qed
qed

lemma bit_unat_iff: "bit (unat (x :: 'a::len word)) n \<longleftrightarrow> bit x n"
  by (auto simp: bit_unsigned_iff dest: bit_imp_le_length)

lemma count_trailing_zeros_spec:
  assumes "count_trailing_zeros b = Some z"
  shows "bit b z" and "\<And>j. j < z \<Longrightarrow> \<not> bit b j"
proof -
  from assms have "unat b \<noteq> 0" and z: "z = low_zeros (unat b)"
    by (auto simp: count_trailing_zeros_def unat_eq_zero split: if_splits)
  from low_zeros_spec [OF this(1)] z show "bit b z" and "\<And>j. j < z \<Longrightarrow> \<not> bit b j"
    by (auto simp: bit_unat_iff)
qed

lemma get_last_set_spec:
  assumes "get_last_set b = Some k"
  shows "bit b k" and "k < 64" and "\<And>j. k < j \<Longrightarrow> \<not> bit b j"
proof -
  let ?w = "bit_width (unat b)"
  from assms have nz: "b \<noteq> 0" and k: "k = 63 - (64 - ?w)"
    by (auto simp: get_last_set_def count_leading_zeros_def split: if_splits)
  have le: "?w \<le> 64" using bit_width_le_len [of b] by simp
  have pos: "0 < ?w" using nz by (subst bit_width.simps) (simp add: unat_eq_zero)
  have kw: "k = ?w - 1" using k le pos by simp
  have lo: "2 ^ k \<le> unat b" and hi: "unat b < 2 ^ Suc k"
    using bit_width_bounds [of "unat b"] nz pos by (simp_all add: kw unat_eq_zero)
  show "k < 64" using le pos kw by simp
  have "unat b div 2 ^ k = 1"
    using lo hi by (intro div_nat_eqI) simp_all
  then have "bit (unat b) k" by (simp add: bit_iff_odd)
  then show "bit b k" by (simp only: bit_unat_iff)
  show "\<not> bit b j" if "k < j" for j
  proof -
    have "unat b < 2 ^ j" using hi that
      by (meson Suc_leI less_le_trans one_le_numeral power_increasing)
    then have "\<not> bit (unat b) j" by (simp add: bit_iff_odd)
    then show ?thesis by (simp only: bit_unat_iff not_False_eq_True)
  qed
qed

section \<open>Iterating over a bitset\<close>

text \<open>
  The iterator's state after reaching index \<open>i\<close> is the bitset shifted right by \<open>i + 1\<close>: the
  indices still to come are the set bits above \<open>i\<close>.
\<close>

definition set_bits_from :: "64 word \<Rightarrow> nat \<Rightarrow> nat list" where
  "set_bits_from b off = filter (bit b) [off..<64]"

lemma set_bits_from_none:
  assumes "drop_bit off b = 0"
  shows "set_bits_from b off = []"
proof -
  have "\<not> bit b i" if "off \<le> i" for i
  proof -
    have "bit b i = bit (drop_bit off b) (i - off)" using that by (simp add: bit_drop_bit_eq)
    then show ?thesis using assms by simp
  qed
  then show ?thesis by (auto simp: set_bits_from_def filter_empty_conv)
qed

lemma set_bits_from_first:
  assumes "count_trailing_zeros (drop_bit off b) = Some z"
  shows "set_bits_from b off = (off + z) # set_bits_from b (off + z + 1)"
proof -
  note spec = count_trailing_zeros_spec [OF assms]
  have at: "bit b (off + z)" using spec(1) by (simp add: bit_drop_bit_eq)
  then have lt: "off + z < 64" using bit_imp_le_length [of b "off + z"] by simp
  have "[off..<64] = [off..<off + z] @ (off + z) # [off + z + 1..<64]"
    using lt upt_add_eq_append [of off "off + z" "64 - (off + z)"] by (simp add: upt_conv_Cons)
  moreover have "\<not> bit b i" if "off \<le> i" "i < off + z" for i
    using spec(2) [of "i - off"] that by (simp add: bit_drop_bit_eq)
  ultimately show ?thesis using at by (simp add: set_bits_from_def filter_empty_conv)
qed

lemma si_collect_from:
  "si_collect (si_advance \<lparr>si_bitset = drop_bit off b, si_index = int off - 1\<rparr>)
     = map int (set_bits_from b off)"
proof (induction "64 - off" arbitrary: off rule: less_induct)
  case less
  show ?case
  proof (cases "count_trailing_zeros (drop_bit off b)")
    case None
    then have "drop_bit off b = 0" by (simp add: count_trailing_zeros_def split: if_splits)
    with None show ?thesis
      by (simp add: si_advance_def get_first_set_def set_bits_from_none si_collect.simps)
  next
    case (Some z)
    let ?it = "\<lparr>si_bitset = drop_bit (off + z + 1) b, si_index = int (off + z)\<rparr>"
    have adv: "si_advance \<lparr>si_bitset = drop_bit off b, si_index = int off - 1\<rparr> = ?it"
      using Some by (simp add: si_advance_def get_first_set_def add.commute add.left_commute)
    have "bit b (off + z)"
      using count_trailing_zeros_spec(1) [OF Some] by (simp add: bit_drop_bit_eq)
    then have "off + z < 64" using bit_imp_le_length [of b "off + z"] by simp
    then have "64 - (off + z + 1) < 64 - off" by simp
    from less [OF this] have "si_collect (si_advance ?it) = map int (set_bits_from b (off + z + 1))"
      by simp
    then show ?thesis
      by (simp only: adv) (subst si_collect.simps, simp add: set_bits_from_first [OF Some])
  qed
qed

lemma for_each_set_eq: "for_each_set b off = set_bits_from b off"
  unfolding for_each_set_def si_begin_def si_collect_from by (simp add: comp_def)

lemma set_for_each_set: "set (for_each_set b off) = {i. off \<le> i \<and> i < 64 \<and> bit b i}"
  by (auto simp: for_each_set_eq set_bits_from_def)

lemma distinct_for_each_set: "distinct (for_each_set b off)"
  by (simp add: for_each_set_eq set_bits_from_def)

section \<open>Powers of two and alignment\<close>

lemma log2ceil_least:
  fixes n :: "'a::len word"
  assumes "n \<noteq> 0" and "log2ceil n = Some k"
  shows "unat n \<le> 2 ^ k" and "\<And>j. unat n \<le> 2 ^ j \<Longrightarrow> k \<le> j"
proof -
  have k: "k = (if n = 1 then 0 else bit_width (unat (n - 1)))"
    using assms(2) by (simp add: log2ceil_eq)
  have m: "unat n = Suc (unat (n - 1))"
    using assms(1) unat_minus_one [OF assms(1)] unat_gt_0 [of n] by simp
  show "unat n \<le> 2 ^ k"
  proof (cases "n = 1")
    case False
    then have "k = bit_width (unat (n - 1))" by (simp add: k)
    moreover have "unat (n - 1) < 2 ^ bit_width (unat (n - 1))" using bit_width_bounds by blast
    ultimately show ?thesis unfolding m by simp
  qed simp
  show "k \<le> j" if "unat n \<le> 2 ^ j" for j
    using that by (auto simp: k m intro: bit_width_le)
qed

lemma unat_and_not_mask:
  fixes x :: "'a::len word"
  assumes "n < LENGTH('a)"
  shows "unat (x AND NOT (2 ^ n - 1)) = unat x div 2 ^ n * 2 ^ n"
proof -
  have "x AND NOT (2 ^ n - 1) = push_bit n (drop_bit n x)"
    by (rule bit_word_eqI)
      (auto simp: word_exp_minus_one_mask bit_simps)
  then have "unat (x AND NOT (2 ^ n - 1)) = unat (push_bit n (drop_bit n x))" by simp
  also have "\<dots> = take_bit LENGTH('a) (push_bit n (unat (drop_bit n x)))"
    by (rule unsigned_push_bit_eq)
  also have "\<dots> = unat x div 2 ^ n * 2 ^ n mod 2 ^ LENGTH('a)"
    by (simp only: unat_drop_bit_div push_bit_eq_mult take_bit_eq_mod)
  also have "\<dots> = unat x div 2 ^ n * 2 ^ n"
  proof (rule mod_less)
    have "unat x div 2 ^ n * 2 ^ n \<le> unat x" by (rule div_times_less_eq_dividend)
    then show "unat x div 2 ^ n * 2 ^ n < 2 ^ LENGTH('a)"
      using unsigned_less [of x] by (rule le_less_trans)
  qed
  finally show ?thesis .
qed

lemma unat_align_down:
  fixes v :: "'a::len word"
  assumes "n < LENGTH('a)"
  shows "unat (align_down v (2 ^ n)) = unat v div 2 ^ n * 2 ^ n"
  unfolding align_down_def by (rule unat_and_not_mask [OF assms])

lemma unat_align_up:
  fixes v :: "'a::len word"
  assumes "n < LENGTH('a)" and "unat v + 2 ^ n \<le> 2 ^ LENGTH('a)"
  shows "unat (align_up v (2 ^ n)) = (unat v + (2 ^ n - 1)) div 2 ^ n * 2 ^ n"
proof -
  have "unat (2 ^ n - 1 :: 'a word) = 2 ^ n - 1"
    using assms(1) by (subst unat_minus_one) (simp_all add: unat_exp_word)
  then have "unat (v + (2 ^ n - 1)) = unat v + (2 ^ n - 1)"
    using assms(2) by (subst unat_word_ariths) (simp add: less_le_trans [OF diff_less])
  then show ?thesis
    unfolding align_up_def by (simp only: add_diff_eq [symmetric] unat_and_not_mask [OF assms(1)])
qed

text \<open>
  \<open>log2ceil(n)\<close> is the exponent of the least power of two that is not below \<open>n\<close>: for every
  non-zero \<open>n\<close> it returns a value \<open>k\<close> with \<open>n \<le> 2 ^ k\<close>, no smaller exponent will do, and it never
  exceeds the width of the type.
\<close>

theorem log2ceil_correct:
  fixes n :: "'a::len word"
  assumes "n \<noteq> 0"
  shows "\<exists>k. log2ceil n = Some k \<and> unat n \<le> 2 ^ k \<and> (\<forall>j < k. 2 ^ j < unat n) \<and> k \<le> LENGTH('a)"
proof -
  obtain k where k: "log2ceil n = Some k" by (simp add: log2ceil_eq)
  moreover have "k \<le> LENGTH('a)"
    using k bit_width_le_len [of "n - 1"] by (auto simp: log2ceil_eq split: if_splits)
  moreover have "2 ^ j < unat n" if "j < k" for j
    using log2ceil_least(2) [OF assms k, of j] that by (meson leD leI)
  ultimately show ?thesis using log2ceil_least(1) [OF assms k] by blast
qed

theorem log2ceil_correct_witness:
  "(5 :: 64 word) \<noteq> 0 \<and>
   (\<exists>k. log2ceil (5 :: 64 word) = Some k \<and> unat (5 :: 64 word) \<le> 2 ^ k \<and>
        (\<forall>j < k. 2 ^ j < unat (5 :: 64 word)) \<and> k \<le> 64)"
  using log2ceil_correct [of "5 :: 64 word"] by simp

text \<open>
  Alignment to a power of two: where the addition does not overflow, \<open>align_up\<close> returns the
  least multiple of the alignment that is at least \<open>v\<close>, and \<open>align_down\<close> the greatest that is
  at most \<open>v\<close>.
\<close>

theorem align_correct:
  fixes v :: "'a::len word"
  assumes "n < LENGTH('a)" and "unat v + 2 ^ n \<le> 2 ^ LENGTH('a)"
  shows "2 ^ n dvd unat (align_up v (2 ^ n)) \<and> unat v \<le> unat (align_up v (2 ^ n)) \<and>
         unat (align_up v (2 ^ n)) < unat v + 2 ^ n \<and>
         2 ^ n dvd unat (align_down v (2 ^ n)) \<and> unat (align_down v (2 ^ n)) \<le> unat v \<and>
         unat v < unat (align_down v (2 ^ n)) + 2 ^ n"
proof -
  let ?a = "2 ^ n :: nat"
  have pos: "0 < ?a" by simp
  have split: "(unat v + (?a - 1)) div ?a * ?a + (unat v + (?a - 1)) mod ?a = unat v + (?a - 1)"
    and split': "unat v div ?a * ?a + unat v mod ?a = unat v"
    by (rule div_mult_mod_eq)+
  have "(unat v + (?a - 1)) mod ?a < ?a" and "unat v mod ?a < ?a"
    using pos by (simp_all del: power_eq_0_iff)
  then show ?thesis
    unfolding unat_align_up [OF assms] unat_align_down [OF assms(1)]
    using split split' pos by (intro conjI dvd_triv_right; linarith)
qed

theorem align_correct_witness:
  "(4 :: nat) < LENGTH(64) \<and> unat (21 :: 64 word) + 2 ^ 4 \<le> 2 ^ LENGTH(64) \<and>
   unat (21 :: 64 word) \<le> unat (align_up (21 :: 64 word) (2 ^ 4)) \<and>
   unat (align_down (21 :: 64 word) (2 ^ 4)) \<le> unat (21 :: 64 word)"
  using align_correct [of 4 "21 :: 64 word"] by simp

text \<open>
  C31. The range loop over \<open>for_each_set(bitset, offset)\<close> ends, and visits exactly the set bits of
  the bitset at positions from \<open>offset\<close> on, in ascending order and each once.
\<close>

theorem for_each_set_correct:
  "for_each_set b off = filter (bit b) [off..<64] \<and> sorted (for_each_set b off) \<and>
   distinct (for_each_set b off)"
  unfolding for_each_set_eq set_bits_from_def by (simp add: sorted_wrt_filter)

end
