(* ===== verification/Fifo.thy ===== *)
theory Fifo
  imports Prelude
begin

text \<open>
  The interface between the queue containers of \<open>core/\<close> and their clients.

  The clients of \<open>chunked_fifo\<close>, \<open>circular_buffer\<close> and \<open>expiring_fifo\<close> use them through the same
  few operations and rely on the same laws, which the locales state over an abstraction to
  lists: \<open>fifo\<close> (test, look at and remove the front), \<open>fifo_push\<close> (append, with an exception that
  leaves the contents alone) and \<open>deque\<close> (both ends).  What the clients do with them, the loop
  that pops while a condition holds and the run of a sequence of operations, is defined here and
  proved once.
\<close>

section \<open>Loops and runs over a queue\<close>

text \<open>
  \<open>while (!q.empty() && P(q.front(), s)) { s = f(q.front(), s); q.pop_front(); }\<close>
\<close>

definition pop_guard :: "('q \<Rightarrow> bool) \<Rightarrow> ('q \<Rightarrow> 'a option) \<Rightarrow> ('a \<Rightarrow> 's \<Rightarrow> bool) \<Rightarrow> 'q \<times> 's \<Rightarrow> bool" where
  "pop_guard is_empty front P = (\<lambda>(q, s). \<not> is_empty q \<and> (case front q of None \<Rightarrow> False | Some x \<Rightarrow> P x s))"

definition pop_body :: "('q \<Rightarrow> 'a option) \<Rightarrow> ('q \<Rightarrow> 'q) \<Rightarrow> ('a \<Rightarrow> 's \<Rightarrow> 's) \<Rightarrow> 'q \<times> 's \<Rightarrow> 'q \<times> 's" where
  "pop_body front pop f = (\<lambda>(q, s). (pop q, case front q of None \<Rightarrow> s | Some x \<Rightarrow> f x s))"

definition pop_while :: "('q \<Rightarrow> bool) \<Rightarrow> ('q \<Rightarrow> 'a option) \<Rightarrow> ('q \<Rightarrow> 'q) \<Rightarrow> ('a \<Rightarrow> 's \<Rightarrow> bool) \<Rightarrow>
    ('a \<Rightarrow> 's \<Rightarrow> 's) \<Rightarrow> 'q \<Rightarrow> 's \<Rightarrow> 'q \<times> 's" where
  "pop_while is_empty front pop P f q s = while (pop_guard is_empty front P) (pop_body front pop f) (q, s)"

text \<open>The same loop on a list.\<close>

fun consume_list :: "('a \<Rightarrow> 's \<Rightarrow> bool) \<Rightarrow> ('a \<Rightarrow> 's \<Rightarrow> 's) \<Rightarrow> 'a list \<Rightarrow> 's \<Rightarrow> 'a list \<times> 's" where
  "consume_list P f [] s = ([], s)"
| "consume_list P f (x # xs) s = (if P x s then consume_list P f xs (f x s) else (x # xs, s))"

lemma consume_list_dropWhile:
  "fst (consume_list (\<lambda>x _. P x) f xs s) = dropWhile P xs"
  "snd (consume_list (\<lambda>x _. P x) f xs s) = fold f (takeWhile P xs) s"
  by (induction xs arbitrary: s) auto

lemma consume_list_suffix: "\<exists>n. fst (consume_list P f xs s) = drop n xs"
proof (induction xs arbitrary: s)
  case (Cons x xs)
  from Cons.IH [of "f x s"] obtain n where "fst (consume_list P f xs (f x s)) = drop n xs" ..
  then show ?case
    by (cases "P x s") (auto intro: exI [of _ "Suc n"] exI [of _ 0])
qed simp

lemma consume_list_stop:
  "fst (consume_list P f xs s) = y # ys \<Longrightarrow> \<not> P y (snd (consume_list P f xs s))"
  by (induction xs arbitrary: s) (auto split: if_splits)

datatype ('e, 'a) dq_op = Push_back 'e 'a | Push_front 'e 'a | Pop_front | Pop_back

text \<open>
  A run of double-ended queue operations; its outcomes are the exceptions of the pushes.  A push
  carries the environment it runs in (what the allocator and the copy constructors do).
  \<open>list_run\<close> is the specification on lists: given the outcomes, the contents it must lead to,
  and \<open>None\<close> when an operation is applied outside of its precondition.
\<close>

fun dq_step :: "('e \<Rightarrow> 'a \<Rightarrow> 'q \<Rightarrow> exn option \<times> 'q) \<Rightarrow> ('e \<Rightarrow> 'a \<Rightarrow> 'q \<Rightarrow> exn option \<times> 'q) \<Rightarrow>
    ('q \<Rightarrow> 'q) \<Rightarrow> ('q \<Rightarrow> 'q) \<Rightarrow> ('e, 'a) dq_op \<Rightarrow> 'q \<Rightarrow> exn option \<times> 'q" where
  "dq_step pb pf popf popb (Push_back e x) q = pb e x q"
| "dq_step pb pf popf popb (Push_front e x) q = pf e x q"
| "dq_step pb pf popf popb Pop_front q = (None, popf q)"
| "dq_step pb pf popf popb Pop_back q = (None, popb q)"

fun dq_run :: "('o \<Rightarrow> 'q \<Rightarrow> exn option \<times> 'q) \<Rightarrow> 'o list \<Rightarrow> 'q \<Rightarrow> exn option list \<times> 'q" where
  "dq_run step [] q = ([], q)"
| "dq_run step (a # as) q =
     (case step a q of (r, q') \<Rightarrow> (case dq_run step as q' of (rs, q'') \<Rightarrow> (r # rs, q'')))"

fun list_step :: "('e, 'a) dq_op \<Rightarrow> exn option \<Rightarrow> 'a list \<Rightarrow> 'a list option" where
  "list_step (Push_back e x) r xs = Some (if r = None then xs @ [x] else xs)"
| "list_step (Push_front e x) r xs = Some (if r = None then x # xs else xs)"
| "list_step Pop_front r xs = (if xs = [] then None else Some (tl xs))"
| "list_step Pop_back r xs = (if xs = [] then None else Some (butlast xs))"

fun list_run :: "('e, 'a) dq_op list \<Rightarrow> exn option list \<Rightarrow> 'a list \<Rightarrow> 'a list option" where
  "list_run (a # as) (r # rs) xs = Option.bind (list_step a r xs) (list_run as rs)"
| "list_run as rs xs = Some xs"

text \<open>The same for a queue that is filled at the back and emptied at the front.\<close>

datatype ('e, 'a) fq_op = Fq_push 'e 'a | Fq_pop

fun fq_step :: "('e \<Rightarrow> 'a \<Rightarrow> 'q \<Rightarrow> exn option \<times> 'q) \<Rightarrow> ('q \<Rightarrow> 'q) \<Rightarrow> ('e, 'a) fq_op \<Rightarrow> 'q \<Rightarrow> exn option \<times> 'q" where
  "fq_step push popf (Fq_push e x) q = push e x q"
| "fq_step push popf Fq_pop q = (None, popf q)"

fun fq_list :: "('e, 'a) fq_op list \<Rightarrow> exn option list \<Rightarrow> 'a list \<Rightarrow> 'a list option" where
  "fq_list (Fq_push e x # as) (r # rs) xs = fq_list as rs (if r = None then xs @ [x] else xs)"
| "fq_list (Fq_pop # as) (r # rs) xs = (if xs = [] then None else fq_list as rs (tl xs))"
| "fq_list as rs xs = Some xs"

section \<open>The interfaces\<close>

locale fifo =
  fixes is_empty :: "'q \<Rightarrow> bool"
    and front :: "'q \<Rightarrow> 'a option"
    and pop :: "'q \<Rightarrow> 'q"
    and to_list :: "'q \<Rightarrow> 'a list"
    and inv :: "'q \<Rightarrow> bool"
  assumes is_empty_iff: "inv q \<Longrightarrow> is_empty q \<longleftrightarrow> to_list q = []"
    and front_hd: "inv q \<Longrightarrow> to_list q \<noteq> [] \<Longrightarrow> front q = Some (hd (to_list q))"
    and pop_tl: "inv q \<Longrightarrow> to_list q \<noteq> [] \<Longrightarrow> inv (pop q) \<and> to_list (pop q) = tl (to_list q)"
begin

lemma pop_guard_iff:
  "inv q \<Longrightarrow> pop_guard is_empty front P (q, s) \<longleftrightarrow> (case to_list q of [] \<Rightarrow> False | x # _ \<Rightarrow> P x s)"
  using is_empty_iff front_hd by (auto simp: pop_guard_def split: list.split)

lemma pop_body_eq:
  "inv q \<Longrightarrow> to_list q = x # xs \<Longrightarrow> pop_body front pop f (q, s) = (pop q, f x s)"
  using front_hd by (simp add: pop_body_def)

lemma pop_while_option:
  assumes "inv q"
  shows "\<exists>q'. while_option (pop_guard is_empty front P) (pop_body front pop f) (q, s) =
             Some (q', snd (consume_list P f (to_list q) s)) \<and>
           inv q' \<and> to_list q' = fst (consume_list P f (to_list q) s)"
  using assms
proof (induction "to_list q" arbitrary: q s)
  case Nil
  then have "\<not> pop_guard is_empty front P (q, s)"
    by (simp add: pop_guard_iff split: list.split)
  then show ?case using Nil by (subst while_option_unfold) simp
next
  case (Cons x xs)
  note pop = pop_tl [OF Cons.prems] and list = Cons.hyps(2) [symmetric]
  show ?case
  proof (cases "P x s")
    case True
    then have "pop_guard is_empty front P (q, s)" using Cons by (simp add: pop_guard_iff list)
    then have "while_option (pop_guard is_empty front P) (pop_body front pop f) (q, s) =
        while_option (pop_guard is_empty front P) (pop_body front pop f) (pop q, f x s)"
      by (subst while_option_unfold) (simp add: pop_body_eq [OF Cons.prems list])
    moreover have "xs = to_list (pop q)" and "inv (pop q)" using pop by (simp_all add: list)
    ultimately show ?thesis using Cons.hyps(1) [of "pop q" "f x s"] True by (simp add: list)
  next
    case False
    then have "\<not> pop_guard is_empty front P (q, s)" using Cons by (simp add: pop_guard_iff list)
    then show ?thesis using False Cons.prems by (subst while_option_unfold) (simp add: list)
  qed
qed

text \<open>The loop ends, and does to the queue what the loop on lists does to its contents.\<close>

lemma pop_while_list:
  assumes "inv q"
  shows "inv (fst (pop_while is_empty front pop P f q s))"
    and "to_list (fst (pop_while is_empty front pop P f q s)) = fst (consume_list P f (to_list q) s)"
    and "snd (pop_while is_empty front pop P f q s) = snd (consume_list P f (to_list q) s)"
  using pop_while_option [OF assms, of P f s] by (auto simp: pop_while_def while_def)

lemma pop_while_stops:
  assumes "inv q"
  shows "\<exists>r. while_option (pop_guard is_empty front P) (pop_body front pop f) (q, s) = Some r"
  using pop_while_option [OF assms, of P f s] by blast

end

locale fifo_push = fifo +
  fixes push :: "'e \<Rightarrow> 'a \<Rightarrow> 'q \<Rightarrow> exn option \<times> 'q"
  assumes push_ok: "inv q \<Longrightarrow> push v x q = (None, q') \<Longrightarrow> inv q' \<and> to_list q' = to_list q @ [x]"
    and push_fail: "inv q \<Longrightarrow> push v x q = (Some e, q') \<Longrightarrow> inv q' \<and> to_list q' = to_list q"
begin

lemma push_list:
  assumes "inv q" and "push v x q = (r, q')"
  shows "inv q' \<and> to_list q' = (if r = None then to_list q @ [x] else to_list q)"
proof (cases r)
  case None
  with push_ok [OF assms(1), of v x q'] assms(2) show ?thesis by simp
next
  case (Some e)
  with push_fail [OF assms(1), of v x e q'] assms(2) show ?thesis by simp
qed

text \<open>Any run within the preconditions refines the run on lists.\<close>

lemma fq_run_list:
  assumes "inv q" and "dq_run (fq_step push pop) as q = (rs, q')"
    and "fq_list as rs (to_list q) = Some ys"
  shows "inv q' \<and> to_list q' = ys"
  using assms
proof (induction as arbitrary: q rs)
  case (Cons a as)
  obtain r q1 where s: "fq_step push pop a q = (r, q1)" by fastforce
  obtain rs1 where rs: "rs = r # rs1" and run: "dq_run (fq_step push pop) as q1 = (rs1, q')"
    using Cons.prems(2) s by (auto split: prod.splits)
  show ?case
  proof (cases a)
    case (Fq_push v x)
    then have "inv q1 \<and> to_list q1 = (if r = None then to_list q @ [x] else to_list q)"
      using s push_list [OF Cons.prems(1), of v x r q1] by simp
    then show ?thesis using Cons.IH [OF _ run] Cons.prems(3) rs Fq_push by simp
  next
    case Fq_pop
    then show ?thesis using s Cons.IH [OF _ run] Cons.prems(3) rs pop_tl [OF Cons.prems(1)]
      by (auto split: if_splits)
  qed
qed simp

end

locale deque = fifo_push is_empty front pop to_list inv push
  for is_empty :: "'q \<Rightarrow> bool"
    and front :: "'q \<Rightarrow> 'a option"
    and pop :: "'q \<Rightarrow> 'q"
    and to_list :: "'q \<Rightarrow> 'a list"
    and inv :: "'q \<Rightarrow> bool"
    and push :: "'e \<Rightarrow> 'a \<Rightarrow> 'q \<Rightarrow> exn option \<times> 'q" +
  fixes push_front :: "'e \<Rightarrow> 'a \<Rightarrow> 'q \<Rightarrow> exn option \<times> 'q"
    and rear :: "'q \<Rightarrow> 'a option"
    and pop_back :: "'q \<Rightarrow> 'q"
  assumes push_front_ok: "inv q \<Longrightarrow> push_front v x q = (None, q') \<Longrightarrow> inv q' \<and> to_list q' = x # to_list q"
    and push_front_fail: "inv q \<Longrightarrow> push_front v x q = (Some e, q') \<Longrightarrow> inv q' \<and> to_list q' = to_list q"
    and rear_last: "inv q \<Longrightarrow> to_list q \<noteq> [] \<Longrightarrow> rear q = Some (last (to_list q))"
    and pop_back_butlast: "inv q \<Longrightarrow> to_list q \<noteq> [] \<Longrightarrow> inv (pop_back q) \<and> to_list (pop_back q) = butlast (to_list q)"
begin

lemma dq_step_list:
  assumes "inv q" and "dq_step push push_front pop pop_back a q = (r, q')"
    and "list_step a r (to_list q) = Some ys"
  shows "inv q' \<and> to_list q' = ys"
proof (cases a)
  case (Push_back v x)
  then show ?thesis using assms(2,3) push_list [OF assms(1), of v x r q'] by auto
next
  case (Push_front v x)
  show ?thesis
  proof (cases r)
    case None
    with push_front_ok [OF assms(1), of v x q'] assms(2,3) Push_front show ?thesis by simp
  next
    case (Some e)
    with push_front_fail [OF assms(1), of v x e q'] assms(2,3) Push_front show ?thesis by simp
  qed
next
  case Pop_front
  then show ?thesis using assms(2,3) pop_tl [OF assms(1)] by (auto split: if_splits)
next
  case Pop_back
  then show ?thesis using assms(2,3) pop_back_butlast [OF assms(1)] by (auto split: if_splits)
qed

text \<open>Any run within the preconditions refines the run on lists.\<close>

lemma dq_run_list:
  assumes "inv q" and "dq_run (dq_step push push_front pop pop_back) as q = (rs, q')"
    and "list_run as rs (to_list q) = Some ys"
  shows "inv q' \<and> to_list q' = ys"
  using assms
proof (induction as arbitrary: q rs)
  case (Cons a as)
  let ?step = "dq_step push push_front pop pop_back"
  obtain r q1 where s: "?step a q = (r, q1)" by fastforce
  obtain rs1 where rs: "rs = r # rs1" and run: "dq_run ?step as q1 = (rs1, q')"
    using Cons.prems(2) s by (auto split: prod.splits)
  obtain xs1 where x1: "list_step a r (to_list q) = Some xs1" and r1: "list_run as rs1 xs1 = Some ys"
    using Cons.prems(3) rs by (cases "list_step a r (to_list q)") auto
  from dq_step_list [OF Cons.prems(1) s x1] have "inv q1" and "to_list q1 = xs1" by auto
  then show ?case using Cons.IH [OF _ run] r1 by simp
qed simp

end

end
