(* ===== verification/CircularBuffer.thy ===== *)
theory CircularBuffer
  imports Prelude Bitops Fifo
begin

text \<open>
  \<open>core/circular_buffer.hh\<close> and \<open>core/transfer.hh\<close>: the growable double-ended queue over one block
  of raw storage.

  The record \<open>circular_buffer\<close> is \<open>struct impl\<close>: the storage block (the empty list is the null
  pointer), the two free-running 64-bit indices, which are interpreted modulo the capacity, and
  the capacity.  The element type's traits and the allocator's behaviour are the fields of
  \<open>cb_env\<close>: which allocations succeed, whether \<open>T\<close> is nothrow-move-constructible and for which
  values its copy constructor returns.  An operation that can throw returns the exception, if
  any, with the state it leaves.  Dereferencing yields \<open>None\<close> on a slot without a live object.
\<close>

section \<open>State and operations\<close>

record 'a circular_buffer =
  cb_storage :: "'a option list"
  cb_begin :: size_t
  cb_end :: size_t
  cb_capacity :: size_t

record 'a cb_env =
  cb_alloc_ok :: "size_t \<Rightarrow> bool"
  cb_nothrow_move :: bool
  cb_ctor_ok :: "'a \<Rightarrow> bool"

definition cb_new :: "'a circular_buffer" where
  "cb_new = \<lparr>cb_storage = [], cb_begin = 0, cb_end = 0, cb_capacity = 0\<rparr>"

definition cb_mask :: "'a circular_buffer \<Rightarrow> size_t \<Rightarrow> size_t" where
  "cb_mask cb idx = idx AND (cb_capacity cb - 1)"

definition cb_slot :: "'a circular_buffer \<Rightarrow> size_t \<Rightarrow> nat" where
  "cb_slot cb idx = unat (cb_mask cb idx)"

definition cb_empty :: "'a circular_buffer \<Rightarrow> bool" where
  "cb_empty cb \<longleftrightarrow> cb_begin cb = cb_end cb"

definition cb_size :: "'a circular_buffer \<Rightarrow> size_t" where
  "cb_size cb = cb_end cb - cb_begin cb"

text \<open>The indices that \<open>for (i = begin; i != end; ++i)\<close> passes to the function of \<open>for_each\<close>.\<close>

function cb_indices :: "size_t \<Rightarrow> size_t \<Rightarrow> size_t list" where
  "cb_indices i e = (if i = e then [] else i # cb_indices (i + 1) e)"
  by pat_completeness auto
termination
proof (relation "measure (\<lambda>(i, e). unat (e - i))")
  show "((i + 1, e), i, e) \<in> measure (\<lambda>(i, e). unat (e - i))" if "i \<noteq> e" for i e :: size_t
    using unat_Suc_diff [OF that] by simp
qed simp

declare cb_indices.simps [simp del]

text \<open>
  \<open>transfer_pass1\<close> over all elements: a nothrow-movable element is moved and its source destroyed,
  any other is copied, which may throw.  \<open>transfer_pass2\<close> destroys the sources of the copies.
\<close>

fun cb_pass1 :: "'a cb_env \<Rightarrow> (size_t \<Rightarrow> nat) \<Rightarrow> size_t list \<Rightarrow> 'a option list \<Rightarrow> 'a option list \<Rightarrow> nat
    \<Rightarrow> exn option \<times> 'a option list \<times> 'a option list \<times> nat" where
  "cb_pass1 env sl [] src dst p = (None, src, dst, p)"
| "cb_pass1 env sl (i # js) src dst p =
     (if cb_nothrow_move env
      then cb_pass1 env sl js (src[sl i := None]) (dst[p := slot_get src (sl i)]) (Suc p)
      else (case slot_get src (sl i) of
              None \<Rightarrow> cb_pass1 env sl js src (dst[p := None]) (Suc p)
            | Some x \<Rightarrow>
                if cb_ctor_ok env x then cb_pass1 env sl js src (dst[p := Some x]) (Suc p)
                else (Some Ctor_throw, src, dst, p)))"

fun cb_pass2 :: "'a cb_env \<Rightarrow> (size_t \<Rightarrow> nat) \<Rightarrow> size_t list \<Rightarrow> 'a option list \<Rightarrow> 'a option list" where
  "cb_pass2 env sl [] src = src"
| "cb_pass2 env sl (i # js) src =
     cb_pass2 env sl js (if cb_nothrow_move env then src else src[sl i := None])"

text \<open>
  \<open>std::allocator::allocate(n)\<close> throws \<open>bad_alloc\<close> for sizes beyond \<open>PTRDIFF_MAX\<close>, and otherwise
  when there is no memory.
\<close>

definition cb_allocate :: "'a cb_env \<Rightarrow> size_t \<Rightarrow> bool" where
  "cb_allocate env n \<longleftrightarrow> n < 0x8000000000000000 \<and> cb_alloc_ok env n"

text \<open>
  \<open>expand(new_cap)\<close>.  The last component of the result is the content of the block that is given
  back to the allocator at the end: the new block when a copy threw, else the old one.
\<close>

definition cb_expand_blocks :: "'a cb_env \<Rightarrow> size_t \<Rightarrow> 'a circular_buffer
    \<Rightarrow> exn option \<times> 'a circular_buffer \<times> 'a option list" where
  "cb_expand_blocks env new_cap cb =
     (if \<not> cb_allocate env new_cap then (Some Bad_alloc, cb, [])
      else let js = cb_indices (cb_begin cb) (cb_end cb) in
        (case cb_pass1 env (cb_slot cb) js (cb_storage cb) (replicate (unat new_cap) None) 0 of
           (Some e, src, dst, p) \<Rightarrow>
             (Some e, cb\<lparr>cb_storage := src\<rparr>, replicate p None @ drop p dst)
         | (None, src, dst, p) \<Rightarrow>
             (None,
              \<lparr>cb_storage = dst, cb_begin = 0, cb_end = of_nat p, cb_capacity = new_cap\<rparr>,
              cb_pass2 env (cb_slot cb) js src)))"

definition cb_expand_to :: "'a cb_env \<Rightarrow> size_t \<Rightarrow> 'a circular_buffer \<Rightarrow> exn option \<times> 'a circular_buffer" where
  "cb_expand_to env new_cap cb =
     (case cb_expand_blocks env new_cap cb of (r, cb', _) \<Rightarrow> (r, cb'))"

definition cb_expand :: "'a cb_env \<Rightarrow> 'a circular_buffer \<Rightarrow> exn option \<times> 'a circular_buffer" where
  "cb_expand env cb = cb_expand_to env (max (cb_capacity cb * 2) 1) cb"

definition cb_maybe_expand :: "'a cb_env \<Rightarrow> size_t \<Rightarrow> 'a circular_buffer \<Rightarrow> exn option \<times> 'a circular_buffer" where
  "cb_maybe_expand env nr cb =
     (if cb_end cb - cb_begin cb + nr > cb_capacity cb then cb_expand env cb else (None, cb))"

text \<open>
  The block that a push for one element gives back to the allocator, with the objects still alive in it; empty
  when the push does not expand.
\<close>

definition cb_push_frees :: "'a cb_env \<Rightarrow> 'a circular_buffer \<Rightarrow> 'a option list" where
  "cb_push_frees env cb =
     (if cb_end cb - cb_begin cb + 1 > cb_capacity cb
      then snd (snd (cb_expand_blocks env (max (cb_capacity cb * 2) 1) cb)) else [])"

definition cb_reserve :: "'a cb_env \<Rightarrow> size_t \<Rightarrow> 'a circular_buffer \<Rightarrow> exn option \<times> 'a circular_buffer" where
  "cb_reserve env n cb =
     (if cb_capacity cb < n
      then (case log2ceil n of
              None \<Rightarrow> (None, cb)
            | Some k \<Rightarrow> cb_expand_to env (push_bit k 1) cb)
      else (None, cb))"

definition cb_push_front :: "'a cb_env \<Rightarrow> 'a \<Rightarrow> 'a circular_buffer \<Rightarrow> exn option \<times> 'a circular_buffer" where
  "cb_push_front env x cb =
     (case cb_maybe_expand env 1 cb of
        (Some e, cb') \<Rightarrow> (Some e, cb')
      | (None, cb') \<Rightarrow>
          if cb_ctor_ok env x
          then (None, cb'\<lparr>cb_storage := (cb_storage cb')[cb_slot cb' (cb_begin cb' - 1) := Some x],
                          cb_begin := cb_begin cb' - 1\<rparr>)
          else (Some Ctor_throw, cb'))"

definition cb_push_back :: "'a cb_env \<Rightarrow> 'a \<Rightarrow> 'a circular_buffer \<Rightarrow> exn option \<times> 'a circular_buffer" where
  "cb_push_back env x cb =
     (case cb_maybe_expand env 1 cb of
        (Some e, cb') \<Rightarrow> (Some e, cb')
      | (None, cb') \<Rightarrow>
          if cb_ctor_ok env x
          then (None, cb'\<lparr>cb_storage := (cb_storage cb')[cb_slot cb' (cb_end cb') := Some x],
                          cb_end := cb_end cb' + 1\<rparr>)
          else (Some Ctor_throw, cb'))"

definition cb_front :: "'a circular_buffer \<Rightarrow> 'a option" where
  "cb_front cb = slot_get (cb_storage cb) (cb_slot cb (cb_begin cb))"

definition cb_back :: "'a circular_buffer \<Rightarrow> 'a option" where
  "cb_back cb = slot_get (cb_storage cb) (cb_slot cb (cb_end cb - 1))"

definition cb_pop_front :: "'a circular_buffer \<Rightarrow> 'a circular_buffer" where
  "cb_pop_front cb =
     cb\<lparr>cb_storage := (cb_storage cb)[cb_slot cb (cb_begin cb) := None], cb_begin := cb_begin cb + 1\<rparr>"

definition cb_pop_back :: "'a circular_buffer \<Rightarrow> 'a circular_buffer" where
  "cb_pop_back cb =
     cb\<lparr>cb_storage := (cb_storage cb)[cb_slot cb (cb_end cb - 1) := None], cb_end := cb_end cb - 1\<rparr>"

definition cb_at :: "'a circular_buffer \<Rightarrow> size_t \<Rightarrow> 'a option" where
  "cb_at cb idx = slot_get (cb_storage cb) (cb_slot cb (cb_begin cb + idx))"

text \<open>
  \<open>erase(first, last)\<close>.  \<open>std::move\<close> and \<open>std::move_backward\<close> over the random-access iterators run
  for the signed distance of the range.  A moved-from object stays alive until the loop after
  the move destroys it; that loop compares iterators by their unsigned indices.
\<close>

fun cb_move_fwd :: "(size_t \<Rightarrow> nat) \<Rightarrow> nat \<Rightarrow> size_t \<Rightarrow> size_t \<Rightarrow> 'a option list \<Rightarrow> 'a option list" where
  "cb_move_fwd sl 0 src dst st = st"
| "cb_move_fwd sl (Suc n) src dst st =
     cb_move_fwd sl n (src + 1) (dst + 1) (st[sl dst := slot_get st (sl src)])"

fun cb_move_bwd :: "(size_t \<Rightarrow> nat) \<Rightarrow> nat \<Rightarrow> size_t \<Rightarrow> size_t \<Rightarrow> 'a option list \<Rightarrow> 'a option list" where
  "cb_move_bwd sl 0 src dst st = st"
| "cb_move_bwd sl (Suc n) src dst st =
     cb_move_bwd sl n (src - 1) (dst - 1) (st[sl (dst - 1) := slot_get st (sl (src - 1))])"

function cb_destroy_while :: "(size_t \<Rightarrow> nat) \<Rightarrow> size_t \<Rightarrow> size_t \<Rightarrow> 'a option list \<Rightarrow> 'a option list" where
  "cb_destroy_while sl i e st = (if i < e then cb_destroy_while sl (i + 1) e (st[sl i := None]) else st)"
  by pat_completeness auto
termination
proof (relation "measure (\<lambda>(sl, i, e, st). unat e - unat i)")
  show "((sl, i + 1, e, st[sl i := None]), sl, i, e, st) \<in> measure (\<lambda>(sl, i, e, st). unat e - unat i)"
    if "i < e" for sl and i e :: size_t and st :: "'a option list"
  proof -
    have "unat i < unat e" using that by (simp add: word_less_nat_alt)
    moreover have "unat (i + 1) = Suc (unat i)"
      using \<open>unat i < unat e\<close> unat_less_exp [of e] by (intro unat_plus_one) simp
    ultimately show ?thesis by simp
  qed
qed simp

declare cb_destroy_while.simps [simp del]

definition cb_erase :: "size_t \<Rightarrow> size_t \<Rightarrow> 'a circular_buffer \<Rightarrow> size_t \<times> 'a circular_buffer" where
  "cb_erase first_it last_it cb =
     (let sl = cb_slot cb; b = cb_begin cb; e = cb_end cb in
      if first_it = last_it then (last_it, cb)
      else if sint (first_it - b) < sint (e - last_it) then
        let new_start = last_it - (first_it - b);
            st = cb_move_bwd sl (nat (sint (first_it - b))) first_it last_it (cb_storage cb);
            st' = cb_destroy_while sl b new_start st
        in (last_it, cb\<lparr>cb_storage := st', cb_begin := new_start\<rparr>)
      else
        let new_end = first_it + (e - last_it);
            st = cb_move_fwd sl (nat (sint (e - last_it))) last_it first_it (cb_storage cb);
            st' = cb_destroy_while sl new_end e st
        in (first_it, cb\<lparr>cb_storage := st', cb_end := new_end\<rparr>))"

definition cb_clear :: "'a circular_buffer \<Rightarrow> 'a circular_buffer" where
  "cb_clear cb = snd (cb_erase (cb_begin cb) (cb_end cb) cb)"

text \<open>The destructor destroys the elements in order and frees the block it returns here.\<close>

definition cb_destroy :: "'a circular_buffer \<Rightarrow> 'a option list" where
  "cb_destroy cb =
     fold (\<lambda>i st. st[cb_slot cb i := None]) (cb_indices (cb_begin cb) (cb_end cb)) (cb_storage cb)"

text \<open>The move constructor takes over the block and empties its source; move assignment first
  destroys the target, unless both are the same object.\<close>

definition cb_move_construct :: "'a circular_buffer \<Rightarrow> 'a circular_buffer \<times> 'a circular_buffer" where
  "cb_move_construct x = (x, cb_new)"

definition cb_move_assign :: "bool \<Rightarrow> 'a circular_buffer \<Rightarrow> 'a circular_buffer
    \<Rightarrow> 'a circular_buffer \<times> 'a circular_buffer \<times> 'a option list" where
  "cb_move_assign same this x =
     (if same then (this, x, [])
      else case cb_move_construct x of (this', x') \<Rightarrow> (this', x', cb_destroy this))"

section \<open>Representation\<close>

definition cb_cap_ok :: "size_t \<Rightarrow> bool" where
  "cb_cap_ok c \<longleftrightarrow> c = 0 \<or> (\<exists>n < 63. c = 2 ^ n)"

definition cb_ix :: "'a circular_buffer \<Rightarrow> nat \<Rightarrow> nat" where
  "cb_ix cb k = cb_slot cb (cb_begin cb + of_nat k)"

definition cb_len :: "'a circular_buffer \<Rightarrow> nat" where
  "cb_len cb = unat (cb_size cb)"

text \<open>
  \<open>cb_rep cb xs\<close>: the buffer holds the sequence \<open>xs\<close>.  \<open>cb_tight\<close> says in addition that no object
  is alive outside of the buffer's window: what a destructor will not reach has leaked.
\<close>

definition cb_rep :: "'a circular_buffer \<Rightarrow> 'a list \<Rightarrow> bool" where
  "cb_rep cb xs \<longleftrightarrow>
     length (cb_storage cb) = unat (cb_capacity cb) \<and> cb_cap_ok (cb_capacity cb) \<and>
     length xs \<le> unat (cb_capacity cb) \<and> cb_len cb = length xs \<and>
     (\<forall>k < length xs. slot_get (cb_storage cb) (cb_ix cb k) = Some (xs ! k))"

definition cb_tight :: "'a circular_buffer \<Rightarrow> bool" where
  "cb_tight cb \<longleftrightarrow>
     (\<forall>j. slot_get (cb_storage cb) j \<noteq> None \<longrightarrow> (\<exists>k < cb_len cb. j = cb_ix cb k))"

definition cb_list :: "'a circular_buffer \<Rightarrow> 'a list" where
  "cb_list cb = map (\<lambda>k. the (slot_get (cb_storage cb) (cb_ix cb k))) [0..<cb_len cb]"

definition cb_inv :: "'a circular_buffer \<Rightarrow> bool" where
  "cb_inv cb \<longleftrightarrow> cb_rep cb (cb_list cb)"

lemma cb_rep_list: "cb_rep cb xs \<Longrightarrow> cb_list cb = xs"
  by (rule nth_equalityI) (auto simp: cb_rep_def cb_list_def)

lemma cb_rep_inv: "cb_rep cb xs \<Longrightarrow> cb_inv cb"
  by (simp add: cb_inv_def cb_rep_list)

lemma cb_rep_iff: "cb_rep cb xs \<longleftrightarrow> cb_inv cb \<and> cb_list cb = xs"
  by (auto simp: cb_inv_def cb_rep_list)

lemma cb_repI:
  assumes "length (cb_storage cb) = unat (cb_capacity cb)" and "cb_cap_ok (cb_capacity cb)"
    and "length xs \<le> unat (cb_capacity cb)" and "cb_len cb = length xs"
    and "\<And>k. k < length xs \<Longrightarrow> slot_get (cb_storage cb) (cb_ix cb k) = Some (xs ! k)"
  shows "cb_rep cb xs"
  using assms by (simp add: cb_rep_def)

lemma cb_rep_get: "cb_rep cb xs \<Longrightarrow> k < length xs \<Longrightarrow> slot_get (cb_storage cb) (cb_ix cb k) = Some (xs ! k)"
  by (simp add: cb_rep_def)

lemma cb_rep_len: "cb_rep cb xs \<Longrightarrow> cb_len cb = length xs"
  by (simp add: cb_rep_def)

lemma cb_cap_bound: "cb_cap_ok c \<Longrightarrow> unat c \<le> 2 ^ 62"
proof (auto simp: cb_cap_ok_def)
  fix n :: nat
  assume "n < 63"
  then have "(2::nat) ^ n \<le> 2 ^ 62" by (intro power_increasing) simp_all
  then show "unat (2 ^ n :: size_t) \<le> 4611686018427387904"
    using \<open>n < 63\<close> by (simp add: unat_exp_word)
qed

lemma cb_rep_bound: "cb_rep cb xs \<Longrightarrow> length xs \<le> 2 ^ 62"
  using cb_cap_bound [of "cb_capacity cb"] by (auto simp: cb_rep_def)

lemma cb_ix_eq:
  assumes "cb_cap_ok (cb_capacity cb)" and "cb_capacity cb \<noteq> 0"
  shows "cb_ix cb k = (unat (cb_begin cb) + k) mod unat (cb_capacity cb)"
proof -
  from assms obtain n where n: "n < 63" "cb_capacity cb = 2 ^ n" by (auto simp: cb_cap_ok_def)
  have "cb_ix cb k = unat (cb_begin cb + of_nat k) mod 2 ^ n"
    using n by (simp add: cb_ix_def cb_slot_def cb_mask_def unat_and_pow2_mask)
  also have "\<dots> = (unat (cb_begin cb) + unat (of_nat k :: size_t)) mod 2 ^ n"
    using n by (intro unat_add_mod_pow2) simp
  also have "unat (of_nat k :: size_t) = k mod 2 ^ 64"
    by (simp add: unat_of_nat take_bit_eq_mod)
  also have "(unat (cb_begin cb) + k mod 2 ^ 64) mod 2 ^ n = (unat (cb_begin cb) + k) mod 2 ^ n"
  proof -
    have "(2::nat) ^ n dvd 2 ^ 64" using n by (intro le_imp_power_dvd) simp
    then show ?thesis by (metis mod_add_right_eq mod_mod_cancel)
  qed
  finally show ?thesis using n by (simp add: unat_exp_word)
qed

lemma cb_ix_less:
  "cb_cap_ok (cb_capacity cb) \<Longrightarrow> cb_capacity cb \<noteq> 0 \<Longrightarrow> cb_ix cb k < unat (cb_capacity cb)"
  by (simp add: cb_ix_eq unat_gt_0)

lemma cb_ix_inj:
  assumes "cb_cap_ok (cb_capacity cb)" "cb_capacity cb \<noteq> 0"
    and "i < unat (cb_capacity cb)" "j < unat (cb_capacity cb)"
  shows "cb_ix cb i = cb_ix cb j \<longleftrightarrow> i = j"
  using assms mod_inj_window [of "unat (cb_begin cb)" i "unat (cb_capacity cb)" j]
  by (auto simp: cb_ix_eq)

lemma cb_end_ix: "cb_slot cb (cb_end cb) = cb_ix cb (cb_len cb)"
  by (simp add: cb_ix_def cb_len_def cb_size_def)

lemma cb_begin_ix: "cb_slot cb (cb_begin cb) = cb_ix cb 0"
  by (simp add: cb_ix_def)

lemma cb_empty_iff: "cb_empty cb \<longleftrightarrow> cb_len cb = 0"
  by (auto simp: cb_empty_def cb_len_def cb_size_def unat_eq_zero)

lemma cb_new_rep [simp]: "cb_rep cb_new []"
  by (simp add: cb_rep_def cb_new_def cb_cap_ok_def cb_len_def cb_size_def)

lemma cb_new_tight [simp]: "cb_tight cb_new"
  by (simp add: cb_tight_def cb_new_def)

section \<open>Access and removal at the ends\<close>

lemma cb_at_rep:
  assumes "cb_rep cb xs" and "unat i < length xs"
  shows "cb_at cb i = Some (xs ! unat i)"
proof -
  have "cb_slot cb (cb_begin cb + i) = cb_ix cb (unat i)" by (simp add: cb_ix_def)
  then show ?thesis using cb_rep_get [OF assms] by (simp add: cb_at_def)
qed

lemma cb_front_rep: "cb_rep cb xs \<Longrightarrow> xs \<noteq> [] \<Longrightarrow> cb_front cb = Some (hd xs)"
  using cb_rep_get [of cb xs 0] by (simp add: cb_front_def cb_begin_ix hd_conv_nth)

lemma cb_last_ix:
  assumes "cb_len cb = Suc n"
  shows "cb_slot cb (cb_end cb - 1) = cb_ix cb n"
proof -
  have "cb_size cb = of_nat (Suc n)"
    using assms by (metis cb_len_def of_nat_unat_id)
  then have "cb_begin cb + of_nat n = cb_end cb - 1"
    by (simp add: cb_size_def algebra_simps)
  then show ?thesis by (simp add: cb_ix_def)
qed

lemma cb_back_rep: "cb_rep cb xs \<Longrightarrow> xs \<noteq> [] \<Longrightarrow> cb_back cb = Some (last xs)"
  using cb_rep_get [of cb xs "length xs - 1"] cb_last_ix [of cb "length xs - 1"]
  by (simp add: cb_back_def cb_rep_len last_conv_nth)

lemma cb_pop_front_rep:
  assumes "cb_rep cb xs" and "xs \<noteq> []"
  shows "cb_rep (cb_pop_front cb) (tl xs) \<and> (cb_tight cb \<longrightarrow> cb_tight (cb_pop_front cb))"
proof -
  let ?c = "cb_pop_front cb"
  note r = assms(1) [unfolded cb_rep_def]
  have cap: "cb_capacity cb \<noteq> 0" "cb_cap_ok (cb_capacity cb)" using r assms(2) by auto
  have ix: "cb_ix ?c k = cb_ix cb (Suc k)" for k
    by (simp add: cb_ix_def cb_slot_def cb_mask_def cb_pop_front_def algebra_simps)
  have "cb_begin cb \<noteq> cb_end cb" using r assms(2) by (auto simp: cb_len_def cb_size_def)
  from unat_Suc_diff [OF this] have len: "Suc (cb_len ?c) = cb_len cb"
    by (simp add: cb_len_def cb_size_def cb_pop_front_def)
  have st: "cb_storage ?c = (cb_storage cb)[cb_ix cb 0 := None]"
    by (simp add: cb_pop_front_def cb_begin_ix)
  have caps: "cb_capacity ?c = cb_capacity cb" by (simp add: cb_pop_front_def)
  have ne: "cb_ix cb 0 \<noteq> cb_ix cb (Suc k)" if "Suc k < length xs" for k
    using that r cap by (subst cb_ix_inj) auto
  have "cb_rep ?c (tl xs)"
    using r len ne by (auto simp: cb_rep_def caps ix st nth_tl)
  moreover have "cb_tight ?c" if "cb_tight cb"
    unfolding cb_tight_def
  proof (intro allI impI)
    fix j
    assume a: "slot_get (cb_storage ?c) j \<noteq> None"
    then have "j \<noteq> cb_ix cb 0" and "slot_get (cb_storage cb) j \<noteq> None"
      by (auto simp: st)
    with \<open>cb_tight cb\<close> obtain k where "k < cb_len cb" "j = cb_ix cb k" "k \<noteq> 0"
      unfolding cb_tight_def by (metis gr0I)
    then show "\<exists>k < cb_len ?c. j = cb_ix ?c k"
      using len by (intro exI [of _ "k - 1"]) (auto simp: ix)
  qed
  ultimately show ?thesis by blast
qed

lemma cb_pop_back_rep:
  assumes "cb_rep cb xs" and "xs \<noteq> []"
  shows "cb_rep (cb_pop_back cb) (butlast xs) \<and> (cb_tight cb \<longrightarrow> cb_tight (cb_pop_back cb))"
proof -
  let ?c = "cb_pop_back cb"
  note r = assms(1) [unfolded cb_rep_def]
  have cap: "cb_capacity cb \<noteq> 0" "cb_cap_ok (cb_capacity cb)" using r assms(2) by auto
  obtain n where n: "cb_len cb = Suc n" using r assms(2) by (cases xs) auto
  have ix: "cb_ix ?c k = cb_ix cb k" for k
    by (simp add: cb_ix_def cb_slot_def cb_mask_def cb_pop_back_def)
  have "cb_size cb \<noteq> 0" using n by (auto simp: cb_len_def)
  from unat_minus_one [OF this] have len: "cb_len ?c = n"
    using n by (simp add: cb_len_def cb_size_def cb_pop_back_def algebra_simps)
  have st: "cb_storage ?c = (cb_storage cb)[cb_ix cb n := None]"
    using cb_last_ix [OF n] by (simp add: cb_pop_back_def)
  have caps: "cb_capacity ?c = cb_capacity cb" by (simp add: cb_pop_back_def)
  have ne: "cb_ix cb n \<noteq> cb_ix cb k" if "k < n" for k
    using that r n cap by (subst cb_ix_inj) auto
  have ln: "length xs = Suc n" using r n by simp
  have "cb_rep ?c (butlast xs)"
    using r len ne n by (auto simp: cb_rep_def caps ix st nth_butlast ln)
  moreover have "cb_tight ?c" if "cb_tight cb"
    unfolding cb_tight_def
  proof (intro allI impI)
    fix j
    assume a: "slot_get (cb_storage ?c) j \<noteq> None"
    then have "j \<noteq> cb_ix cb n" and "slot_get (cb_storage cb) j \<noteq> None"
      by (auto simp: st)
    with \<open>cb_tight cb\<close> obtain k where "k < Suc n" "j = cb_ix cb k" "k \<noteq> n"
      unfolding cb_tight_def n by metis
    then show "\<exists>k < cb_len ?c. j = cb_ix ?c k"
      by (intro exI [of _ k]) (auto simp: ix len)
  qed
  ultimately show ?thesis by blast
qed

section \<open>Growth\<close>

lemma cb_indices_eq: "cb_indices b e = map (\<lambda>k. b + of_nat k) [0..<unat (e - b)]"
proof (induction "unat (e - b)" arbitrary: b)
  case 0
  then have "b = e" by (simp add: unat_eq_zero)
  then show ?case by (simp add: cb_indices.simps)
next
  case (Suc n)
  then have ne: "b \<noteq> e" by auto
  from unat_Suc_diff [OF ne] Suc.hyps(2) have n: "n = unat (e - (b + 1))" by simp
  have "cb_indices b e = b # cb_indices (b + 1) e"
    using ne by (subst cb_indices.simps) simp
  also have "\<dots> = b # map (\<lambda>k. b + 1 + of_nat k) [0..<n]"
    using Suc.hyps(1) [OF n] n by simp
  also have "\<dots> = map (\<lambda>k. b + of_nat k) [0..<Suc n]"
    by (simp add: upt_conv_Cons map_Suc_upt [symmetric] comp_def add.assoc del: upt_Suc)
  finally show ?case using Suc.hyps(2) by simp
qed

text \<open>The first pass copies or moves the elements, in order, to the front of the new block.\<close>

lemma cb_pass1_ok:
  assumes "distinct (map sl js)" and "\<forall>i \<in> set js. slot_get src (sl i) = Some (f i)"
    and "p + length js \<le> length dst"
    and "cb_nothrow_move env \<or> (\<forall>i \<in> set js. cb_ctor_ok env (f i))"
  shows "\<exists>src'. cb_pass1 env sl js src dst p =
           (None, src', take p dst @ map (\<lambda>i. Some (f i)) js @ drop (p + length js) dst, p + length js) \<and>
         (\<forall>j y. slot_get (cb_pass2 env sl js src') j = Some y \<longleftrightarrow> j \<notin> sl ` set js \<and> slot_get src j = Some y)"
  using assms
proof (induction js arbitrary: src dst p)
  case Nil
  then show ?case by simp
next
  case (Cons i js)
  show ?case
  proof (cases "cb_nothrow_move env")
    case True
    have src: "\<forall>j \<in> set js. slot_get (src[sl i := None]) (sl j) = Some (f j)"
      using Cons.prems(1,2) by (auto simp: image_iff)
    have "p < length dst" using Cons.prems(3) by simp
    then have dst: "take (Suc p) (dst[p := Some (f i)]) = take p dst @ [Some (f i)]"
      by (simp add: take_Suc_conv_app_nth)
    from Cons.IH [of "src[sl i := None]" "Suc p" "dst[p := Some (f i)]"] Cons.prems src True
    obtain src' where "cb_pass1 env sl js (src[sl i := None]) (dst[p := Some (f i)]) (Suc p) =
        (None, src', take p dst @ Some (f i) # map (\<lambda>i. Some (f i)) js @ drop (Suc p + length js) dst, Suc p + length js)"
      and "\<forall>j y. slot_get (cb_pass2 env sl js src') j = Some y \<longleftrightarrow>
         j \<notin> sl ` set js \<and> slot_get (src[sl i := None]) j = Some y"
      by (auto simp: dst)
    with True Cons.prems(2) show ?thesis by auto
  next
    case False
    have "p < length dst" using Cons.prems(3) by simp
    then have dst: "take (Suc p) (dst[p := Some (f i)]) = take p dst @ [Some (f i)]"
      by (simp add: take_Suc_conv_app_nth)
    from Cons.IH [of src "Suc p" "dst[p := Some (f i)]"] Cons.prems False
    obtain src' where 1: "cb_pass1 env sl js src (dst[p := Some (f i)]) (Suc p) =
        (None, src', take p dst @ Some (f i) # map (\<lambda>i. Some (f i)) js @ drop (Suc p + length js) dst, Suc p + length js)"
      by (auto simp: dst)
    have same: "src' = src" using 1 False
    proof -
      have "fst (snd (cb_pass1 env sl js src d q)) = src" for d q
        using False by (induction js arbitrary: d q) (auto split: option.split)
      then show ?thesis using 1 by (metis fst_conv snd_conv)
    qed
    have p2: "slot_get (cb_pass2 env sl ks st) j = Some y \<longleftrightarrow> j \<notin> sl ` set ks \<and> slot_get st j = Some y" for ks st j y
      using False by (induction ks arbitrary: st) auto
    from 1 same False Cons.prems show ?thesis by (auto simp: p2)
  qed
qed

lemma cb_pass1_throw:
  assumes "\<not> cb_nothrow_move env"
  shows "fst (snd (cb_pass1 env sl js src dst p)) = src"
  using assms by (induction js arbitrary: dst p) (auto split: option.split)

lemma cb_pass1_nothrow_ok:
  assumes "cb_nothrow_move env"
  shows "fst (cb_pass1 env sl js src dst p) = None"
  using assms by (induction js arbitrary: src dst p) auto

lemma cb_pass1_error: "fst (cb_pass1 env sl js src dst p) \<in> {None, Some Ctor_throw}"
  by (induction js arbitrary: src dst p) (auto split: option.split)

text \<open>A failed growth leaves the buffer as it was: the strong exception guarantee.\<close>

lemma cb_expand_fail: "cb_expand_to env n cb = (Some e, cb') \<Longrightarrow> cb' = cb"
proof (cases "cb_allocate env n")
  case True
  assume ret: "cb_expand_to env n cb = (Some e, cb')"
  obtain r src dst p where p1: "cb_pass1 env (cb_slot cb) (cb_indices (cb_begin cb) (cb_end cb))
      (cb_storage cb) (replicate (unat n) None) 0 = (r, src, dst, p)"
    by (metis prod_cases4)
  with ret True have "r = Some e" and cb': "cb' = cb\<lparr>cb_storage := src\<rparr>"
    by (auto simp: cb_expand_to_def cb_expand_blocks_def split: option.splits)
  then have "\<not> cb_nothrow_move env" using cb_pass1_nothrow_ok p1 by (metis fst_conv option.distinct(1))
  then have "src = cb_storage cb" using cb_pass1_throw p1 by (metis fst_conv snd_conv)
  then show ?thesis using cb' by simp
qed (simp add: cb_expand_to_def cb_expand_blocks_def)

lemma cb_window_indices:
  assumes "cb_rep cb xs"
  shows "cb_indices (cb_begin cb) (cb_end cb) = map (\<lambda>k. cb_begin cb + of_nat k) [0..<length xs]"
    and "map (cb_slot cb) (cb_indices (cb_begin cb) (cb_end cb)) = map (cb_ix cb) [0..<length xs]"
    and "distinct (map (cb_ix cb) [0..<length xs])"
    and "map (\<lambda>i. Some (xs ! unat (i - cb_begin cb))) (cb_indices (cb_begin cb) (cb_end cb)) = map Some xs"
proof -
  note r = assms [unfolded cb_rep_def]
  show eq: "cb_indices (cb_begin cb) (cb_end cb) = map (\<lambda>k. cb_begin cb + of_nat k) [0..<length xs]"
    using r by (simp add: cb_indices_eq cb_len_def cb_size_def)
  show "map (cb_slot cb) (cb_indices (cb_begin cb) (cb_end cb)) = map (cb_ix cb) [0..<length xs]"
    by (simp add: eq cb_ix_def)
  show "distinct (map (cb_ix cb) [0..<length xs])"
  proof (cases "xs = []")
    case False
    then have "cb_capacity cb \<noteq> 0" using r by auto
    then show ?thesis using r by (auto simp: distinct_map inj_on_def cb_ix_inj)
  qed simp
  have "unat (of_nat k :: size_t) = k" if "k < length xs" for k
    using that cb_rep_bound [OF assms] by (intro unat_of_nat_small) simp
  then show "map (\<lambda>i. Some (xs ! unat (i - cb_begin cb))) (cb_indices (cb_begin cb) (cb_end cb)) = map Some xs"
    by (intro nth_equalityI) (simp_all add: eq)
qed

lemma cb_fresh_block_rep:
  assumes "cb_cap_ok c" and "length xs \<le> unat c"
  defines "cb \<equiv> \<lparr>cb_storage = map Some xs @ replicate (unat c - length xs) None,
                cb_begin = 0, cb_end = of_nat (length xs), cb_capacity = c\<rparr>"
  shows "cb_rep cb xs" and "cb_tight cb"
proof -
  have "length xs \<le> 2 ^ 62" using assms(2) cb_cap_bound [OF assms(1)] by simp
  then have len: "cb_len cb = length xs"
    by (simp add: cb_len_def cb_size_def cb_def unat_of_nat_small)
  have ix: "cb_ix cb k = k" if "k < length xs" for k
  proof -
    have "c \<noteq> 0" using that assms(2) by auto
    then show ?thesis using that assms(1,2) by (subst cb_ix_eq) (simp_all add: cb_def)
  qed
  show "cb_rep cb xs"
    using assms(1,2) len ix by (simp add: cb_rep_def) (simp add: cb_def slot_get_def nth_append)
  show "cb_tight cb"
    unfolding cb_tight_def
  proof (intro allI impI)
    fix j
    assume "slot_get (cb_storage cb) j \<noteq> None"
    then have "j < length xs" by (auto simp: cb_def slot_get_def nth_append split: if_splits)
    then show "\<exists>k < cb_len cb. j = cb_ix cb k" using len ix by auto
  qed
qed

lemma cb_expand_ok:
  assumes rep: "cb_rep cb xs" and "cb_allocate env c" and "cb_cap_ok c" and "length xs \<le> unat c"
    and "cb_nothrow_move env \<or> (\<forall>x \<in> set xs. cb_ctor_ok env x)"
  shows "\<exists>cb' blk. cb_expand_blocks env c cb = (None, cb', blk) \<and> cb_rep cb' xs \<and> cb_tight cb' \<and>
           cb_capacity cb' = c \<and> (cb_tight cb \<longrightarrow> (\<forall>j. slot_get blk j = None))"
proof -
  let ?js = "cb_indices (cb_begin cb) (cb_end cb)"
  let ?f = "\<lambda>i. xs ! unat (i - cb_begin cb)"
  let ?fresh = "replicate (unat c) None :: 'a option list"
  note win = cb_window_indices [OF rep]
  have at: "unat (cb_begin cb + of_nat k - cb_begin cb) = k" if "k < length xs" for k
    using that cb_rep_bound [OF rep] by (simp add: unat_of_nat_small)
  have len: "length ?js = length xs" by (simp add: win(1))
  have "\<exists>src'. cb_pass1 env (cb_slot cb) ?js (cb_storage cb) ?fresh 0 =
           (None, src', take 0 ?fresh @ map (\<lambda>i. Some (?f i)) ?js @ drop (0 + length ?js) ?fresh, 0 + length ?js) \<and>
         (\<forall>j y. slot_get (cb_pass2 env (cb_slot cb) ?js src') j = Some y \<longleftrightarrow>
            j \<notin> cb_slot cb ` set ?js \<and> slot_get (cb_storage cb) j = Some y)"
  proof (rule cb_pass1_ok)
    show "distinct (map (cb_slot cb) ?js)" using win(2,3) by simp
    show "\<forall>i \<in> set ?js. slot_get (cb_storage cb) (cb_slot cb i) = Some (?f i)"
      using cb_rep_get [OF rep] at by (auto simp: win(1) cb_ix_def)
    show "0 + length ?js \<le> length ?fresh" using assms(4) len by simp
    show "cb_nothrow_move env \<or> (\<forall>i \<in> set ?js. cb_ctor_ok env (?f i))"
      using assms(5) at by (auto simp: win(1))
  qed
  then obtain src' where p1: "cb_pass1 env (cb_slot cb) ?js (cb_storage cb) ?fresh 0 =
      (None, src', map Some xs @ replicate (unat c - length xs) None, length xs)"
    and p2: "\<forall>j y. slot_get (cb_pass2 env (cb_slot cb) ?js src') j = Some y \<longleftrightarrow>
            j \<notin> cb_slot cb ` set ?js \<and> slot_get (cb_storage cb) j = Some y"
    using win(4) len by auto
  let ?cb' = "\<lparr>cb_storage = map Some xs @ replicate (unat c - length xs) None,
                cb_begin = 0, cb_end = of_nat (length xs), cb_capacity = c\<rparr>"
  have "cb_expand_blocks env c cb = (None, ?cb', cb_pass2 env (cb_slot cb) ?js src')"
    using assms(2) p1 by (simp add: cb_expand_blocks_def)
  moreover have "slot_get (cb_pass2 env (cb_slot cb) ?js src') j = None" if tight: "cb_tight cb" for j
  proof (rule ccontr)
    assume "slot_get (cb_pass2 env (cb_slot cb) ?js src') j \<noteq> None"
    then have notin: "j \<notin> cb_slot cb ` set ?js" and "slot_get (cb_storage cb) j \<noteq> None"
      using p2 by auto
    then obtain k where "k < length xs" "j = cb_ix cb k"
      using tight cb_rep_len [OF rep] unfolding cb_tight_def by auto
    then show False using notin by (auto simp: win(1) cb_ix_def)
  qed
  ultimately show ?thesis
    using cb_fresh_block_rep [OF assms(3,4)] by auto
qed

lemma cb_pass1_None_ctor:
  assumes "fst (cb_pass1 env sl js src dst p) = None" and "\<not> cb_nothrow_move env"
    and "i \<in> set js" and "slot_get src (sl i) = Some x"
  shows "cb_ctor_ok env x"
  using assms by (induction js arbitrary: dst p) (auto split: option.splits if_splits)

text \<open>Doubling keeps the capacity a power of two below the allocation limit.\<close>

lemma cb_double_cap_ok:
  assumes "cb_cap_ok c" and "cb_allocate env (max (c * 2) 1)"
  shows "cb_cap_ok (max (c * 2) 1)" and "unat c < unat (max (c * 2) 1)"
proof -
  have "cb_cap_ok (max (c * 2) 1) \<and> unat c < unat (max (c * 2) 1)"
  proof (cases "c = 0")
    case True
    then show ?thesis by (simp add: cb_cap_ok_def exI [of _ 0])
  next
    case False
    then obtain n where n: "n < 63" "c = 2 ^ n" using assms(1) by (auto simp: cb_cap_ok_def)
    have u: "unat (2 ^ Suc n :: size_t) = 2 ^ Suc n" using n by (intro unat_exp_word) simp
    have c2: "c * 2 = 2 ^ Suc n" using n by simp
    have "1 \<le> (2 ^ Suc n :: size_t)" unfolding word_le_nat_alt u by simp
    then have ge: "max (c * 2) 1 = 2 ^ Suc n" unfolding c2 by (rule max_absorb1)
    have "(2::nat) ^ Suc n < 2 ^ 63" using assms(2) u by (simp add: ge cb_allocate_def word_less_nat_alt del: power_Suc)
    then have "Suc n < 63" by (simp only: power_strict_increasing_iff one_less_numeral_iff semiring_norm)
    then have "cb_cap_ok (2 ^ Suc n)" unfolding cb_cap_ok_def by blast
    moreover have "unat c < unat (2 ^ Suc n :: size_t)" unfolding u using n by (simp add: unat_exp_word)
    ultimately show ?thesis unfolding ge by blast
  qed
  then show "cb_cap_ok (max (c * 2) 1)" and "unat c < unat (max (c * 2) 1)" by blast+
qed

lemma cb_expand_blocks_ctor:
  assumes rep: "cb_rep cb xs" and ret: "fst (cb_expand_blocks env c cb) = None"
  shows "cb_allocate env c \<and> (cb_nothrow_move env \<or> (\<forall>x \<in> set xs. cb_ctor_ok env x))"
proof (intro conjI)
  show alloc: "cb_allocate env c" using ret by (auto simp: cb_expand_blocks_def split: if_splits)
  show "cb_nothrow_move env \<or> (\<forall>x \<in> set xs. cb_ctor_ok env x)"
  proof (cases "cb_nothrow_move env")
    case False
    let ?p = "cb_pass1 env (cb_slot cb) (cb_indices (cb_begin cb) (cb_end cb)) (cb_storage cb)
        (replicate (unat c) None) 0"
    have "fst ?p = None"
      using ret alloc by (auto simp: cb_expand_blocks_def Let_def split: prod.splits option.splits)
    moreover have "cb_begin cb + of_nat k \<in> set (cb_indices (cb_begin cb) (cb_end cb))" if "k < length xs" for k
      using that by (simp add: cb_window_indices(1) [OF rep])
    ultimately have "cb_ctor_ok env (xs ! k)" if "k < length xs" for k
      using that cb_pass1_None_ctor [OF _ False] cb_rep_get [OF rep] by (metis cb_ix_def)
    then show ?thesis by (auto simp: in_set_conv_nth)
  qed simp
qed

lemma cb_expand_to_rep:
  assumes rep: "cb_rep cb xs" and ret: "cb_expand_to env c cb = (None, cb')"
    and "cb_cap_ok c" and "length xs \<le> unat c"
  shows "cb_rep cb' xs \<and> cb_tight cb' \<and> cb_capacity cb' = c"
proof -
  have "fst (cb_expand_blocks env c cb) = None" using ret by (auto simp: cb_expand_to_def split: prod.splits)
  note ok = cb_expand_blocks_ctor [OF rep this]
  from cb_expand_ok [OF rep conjunct1 [OF ok] assms(3,4) conjunct2 [OF ok]] ret show ?thesis
    by (auto simp: cb_expand_to_def)
qed

text \<open>
  No object is left alive in a block that goes back to the allocator: \<open>transfer_pass2\<close> has destroyed the sources
  of all copies, and after a throw the copies made so far are destroyed.
\<close>

lemma cb_pass1_rest:
  "cb_pass1 env sl js src dst p = (r, src', dst', p') \<Longrightarrow> set (drop p dst) \<subseteq> {None} \<Longrightarrow> set (drop p' dst') \<subseteq> {None}"
proof (induction js arbitrary: src dst p)
  case (Cons i js)
  have "set (drop (Suc p) (dst[p := v])) \<subseteq> {None}" for v
    using Cons.prems(2) set_drop_subset_set_drop [of p "Suc p" dst] by simp
  then show ?case using Cons.IH Cons.prems by (auto split: if_splits option.splits)
qed simp

lemma cb_expand_blocks_freed:
  assumes rep: "cb_rep cb xs" and "cb_tight cb" and "cb_allocate env c \<Longrightarrow> cb_cap_ok c \<and> length xs \<le> unat c"
  shows "set (snd (snd (cb_expand_blocks env c cb))) \<subseteq> {None}"
proof (cases "fst (cb_expand_blocks env c cb)")
  case None
  from cb_expand_blocks_ctor [OF rep None] cb_expand_ok [OF rep] assms(2,3)
  obtain cb' blk where e: "cb_expand_blocks env c cb = (None, cb', blk)" "\<forall>j. slot_get blk j = None" by blast
  then have "blk ! j = None" if "j < length blk" for j using that by (metis slot_get_def)
  then show ?thesis using e(1) by (auto simp: in_set_conv_nth)
next
  case (Some e)
  obtain r src dst p where p1: "cb_pass1 env (cb_slot cb) (cb_indices (cb_begin cb) (cb_end cb))
      (cb_storage cb) (replicate (unat c) None) 0 = (r, src, dst, p)"
    by (metis prod_cases4)
  have "set (drop p dst) \<subseteq> {None}" by (rule cb_pass1_rest [OF p1]) auto
  then show ?thesis using Some p1 by (auto simp: cb_expand_blocks_def split: option.splits if_splits)
qed

lemma cb_push_frees_dead:
  assumes "cb_inv cb" and "cb_tight cb"
  shows "set (cb_push_frees env cb) \<subseteq> {None}"
proof (cases "cb_end cb - cb_begin cb + 1 > cb_capacity cb")
  case True
  note rep = assms(1) [unfolded cb_inv_def]
  have "cb_cap_ok (max (cb_capacity cb * 2) 1) \<and> length (cb_list cb) \<le> unat (max (cb_capacity cb * 2) 1)"
    if "cb_allocate env (max (cb_capacity cb * 2) 1)"
    using cb_double_cap_ok [OF _ that] rep [unfolded cb_rep_def] by linarith
  from cb_expand_blocks_freed [OF rep assms(2) this] True show ?thesis by (simp add: cb_push_frees_def)
qed (simp add: cb_push_frees_def)

lemma cb_maybe_expand_rep:
  assumes rep: "cb_rep cb xs" and ret: "cb_maybe_expand env 1 cb = (None, cb')"
  shows "cb_rep cb' xs \<and> length xs < unat (cb_capacity cb') \<and> (cb_tight cb \<longrightarrow> cb_tight cb')"
proof -
  note r = rep [unfolded cb_rep_def]
  have "unat (cb_end cb - cb_begin cb) = length xs" using r by (simp add: cb_len_def cb_size_def)
  then have need: "unat (cb_end cb - cb_begin cb + 1) = Suc (length xs)"
    using cb_rep_bound [OF rep] by (subst unat_plus_one) simp_all
  show ?thesis
  proof (cases "cb_end cb - cb_begin cb + 1 > cb_capacity cb")
    case False
    then show ?thesis using ret rep need by (simp add: cb_maybe_expand_def word_less_nat_alt)
  next
    case True
    let ?c = "max (cb_capacity cb * 2) 1"
    from True ret have exp: "cb_expand_to env ?c cb = (None, cb')"
      by (simp add: cb_maybe_expand_def cb_expand_def)
    then have "cb_allocate env ?c"
      by (auto simp: cb_expand_to_def cb_expand_blocks_def split: if_splits)
    from cb_double_cap_ok [OF _ this] r have ok: "cb_cap_ok ?c" "unat (cb_capacity cb) < unat ?c" by auto
    then have "length xs < unat ?c" using r by linarith
    then show ?thesis using cb_expand_to_rep [OF rep exp ok(1)] by auto
  qed
qed

lemma cb_maybe_expand_fail: "cb_maybe_expand env nr cb = (Some e, cb') \<Longrightarrow> cb' = cb"
  using cb_expand_fail by (auto simp: cb_maybe_expand_def cb_expand_def split: if_splits)

section \<open>Insertion at the ends\<close>

lemma cb_tight_insert:
  assumes tight: "cb_tight cb" and st: "cb_storage cb' = (cb_storage cb)[pos := v]"
    and len: "cb_len cb' = Suc (cb_len cb)"
    and new: "q < Suc (cb_len cb)" "cb_ix cb' q = pos"
    and old: "\<And>k. k < cb_len cb \<Longrightarrow> \<exists>k' < Suc (cb_len cb). cb_ix cb' k' = cb_ix cb k"
  shows "cb_tight cb'"
  unfolding cb_tight_def
proof (intro allI impI)
  fix j
  assume a: "slot_get (cb_storage cb') j \<noteq> None"
  show "\<exists>k < cb_len cb'. j = cb_ix cb' k"
  proof (cases "j = pos")
    case True
    then show ?thesis using new len by auto
  next
    case False
    then have "slot_get (cb_storage cb) j \<noteq> None" using a by (simp add: st)
    then obtain k where "k < cb_len cb" "j = cb_ix cb k" using tight unfolding cb_tight_def by blast
    then show ?thesis using old [of k] len by auto
  qed
qed

lemma cb_push_back_rep:
  assumes rep: "cb_rep cb xs" and ret: "cb_push_back env x cb = (None, cb')"
  shows "cb_rep cb' (xs @ [x]) \<and> (cb_tight cb \<longrightarrow> cb_tight cb')"
proof -
  obtain c where exp: "cb_maybe_expand env 1 cb = (None, c)" and
    cb': "cb' = c\<lparr>cb_storage := (cb_storage c)[cb_slot c (cb_end c) := Some x], cb_end := cb_end c + 1\<rparr>"
    using ret by (auto simp: cb_push_back_def split: prod.splits option.splits if_splits)
  from cb_maybe_expand_rep [OF rep exp] have rc: "cb_rep c xs" and room: "length xs < unat (cb_capacity c)"
    and t: "cb_tight cb \<longrightarrow> cb_tight c" by auto
  note r = rc [unfolded cb_rep_def]
  have cap: "cb_capacity c \<noteq> 0" using room by auto
  have ix: "cb_ix cb' k = cb_ix c k" for k by (simp add: cb' cb_ix_def cb_slot_def cb_mask_def)
  have sz: "cb_size cb' = cb_size c + 1" by (simp add: cb' cb_size_def)
  have len: "cb_len cb' = Suc (length xs)"
    unfolding cb_len_def sz using r cb_rep_bound [OF rc] by (subst unat_plus_one) (simp_all add: cb_len_def)
  have st: "cb_storage cb' = (cb_storage c)[cb_ix c (length xs) := Some x]"
    using r by (simp add: cb' cb_end_ix)
  have caps: "cb_capacity cb' = cb_capacity c" by (simp add: cb')
  have "cb_ix c (length xs) < length (cb_storage c)" using r cap cb_ix_less by metis
  moreover have "cb_ix c (length xs) \<noteq> cb_ix c k" if "k < length xs" for k
    using that r cap room by (subst cb_ix_inj) auto
  ultimately have "cb_rep cb' (xs @ [x])"
    using r room len by (auto simp: cb_rep_def caps ix st nth_append less_Suc_eq)
  moreover have "cb_tight cb'" if "cb_tight c"
    using that st by (rule cb_tight_insert [where q = "length xs"]) (use len r ix in \<open>auto simp: less_Suc_eq\<close>)
  ultimately show ?thesis using t by blast
qed

lemma cb_push_front_rep:
  assumes rep: "cb_rep cb xs" and ret: "cb_push_front env x cb = (None, cb')"
  shows "cb_rep cb' (x # xs) \<and> (cb_tight cb \<longrightarrow> cb_tight cb')"
proof -
  obtain c where exp: "cb_maybe_expand env 1 cb = (None, c)" and
    cb': "cb' = c\<lparr>cb_storage := (cb_storage c)[cb_slot c (cb_begin c - 1) := Some x], cb_begin := cb_begin c - 1\<rparr>"
    using ret by (auto simp: cb_push_front_def split: prod.splits option.splits if_splits)
  from cb_maybe_expand_rep [OF rep exp] have rc: "cb_rep c xs" and room: "length xs < unat (cb_capacity c)"
    and t: "cb_tight cb \<longrightarrow> cb_tight c" by auto
  note r = rc [unfolded cb_rep_def]
  have caps: "cb_capacity cb' = cb_capacity c" by (simp add: cb')
  have cap: "cb_capacity cb' \<noteq> 0" "cb_cap_ok (cb_capacity cb')" using room r caps by auto
  have ix: "cb_ix cb' (Suc k) = cb_ix c k" for k
    by (simp add: cb' cb_ix_def cb_slot_def cb_mask_def)
  have ix0: "cb_slot c (cb_begin c - 1) = cb_ix cb' 0"
    by (simp add: cb' cb_ix_def cb_slot_def cb_mask_def)
  have sz: "cb_size cb' = cb_size c + 1" by (simp add: cb' cb_size_def)
  have len: "cb_len cb' = Suc (length xs)"
    unfolding cb_len_def sz using r cb_rep_bound [OF rc] by (subst unat_plus_one) (simp_all add: cb_len_def)
  have st: "cb_storage cb' = (cb_storage c)[cb_ix cb' 0 := Some x]"
    using ix0 by (simp add: cb')
  have "cb_ix cb' 0 < length (cb_storage c)" using r cap caps cb_ix_less by metis
  moreover have "cb_ix cb' 0 \<noteq> cb_ix c k" if "k < length xs" for k
    unfolding ix [symmetric] using that cap caps room by (subst cb_ix_inj) auto
  ultimately have "cb_rep cb' (x # xs)"
    using r room len by (auto simp: cb_rep_def caps ix st nth_Cons' less_Suc_eq_0_disj)
  moreover have "cb_tight cb'" if "cb_tight c"
    using that st by (rule cb_tight_insert [where q = 0]) (use len r ix in auto)
  ultimately show ?thesis using t by blast
qed

lemma cb_push_fail:
  assumes rep: "cb_rep cb xs"
    and ret: "cb_push_back env x cb = (Some e, cb') \<or> cb_push_front env x cb = (Some e, cb')"
  shows "cb_rep cb' xs \<and> (cb_tight cb \<longrightarrow> cb_tight cb')"
  using ret rep
  by (auto simp: cb_push_back_def cb_push_front_def split: prod.splits option.splits if_splits
      dest: cb_maybe_expand_fail cb_maybe_expand_rep [OF rep])

section \<open>Erasing a range\<close>

lemma length_cb_destroy_while [simp]: "length (cb_destroy_while sl i e st) = length st"
  by (induction sl i e st rule: cb_destroy_while.induct) (subst cb_destroy_while.simps, simp)

lemma length_cb_move_fwd [simp]: "length (cb_move_fwd sl n src dst st) = length st"
  by (induction n arbitrary: src dst st) auto

lemma length_cb_move_bwd [simp]: "length (cb_move_bwd sl n src dst st) = length st"
  by (induction n arbitrary: src dst st) auto

lemma cb_destroy_while_get:
  "slot_get (cb_destroy_while sl i e st) j = Some y \<longleftrightarrow>
     (\<forall>d < unat e - unat i. sl (i + of_nat d) \<noteq> j) \<and> slot_get st j = Some y"
proof (induction sl i e st rule: cb_destroy_while.induct)
  case (1 sl i e st)
  show ?case
  proof (cases "i < e")
    case True
    then have lt: "unat i < unat e" by (simp add: word_less_nat_alt)
    then have "unat (i + 1) = Suc (unat i)"
      using unat_less_exp [of e] by (intro unat_plus_one) simp
    then have n: "unat e - unat i = Suc (unat e - unat (i + 1))" using lt by simp
    have "slot_get (cb_destroy_while sl i e st) j = Some y \<longleftrightarrow>
       (\<forall>d < unat e - unat (i + 1). sl (i + 1 + of_nat d) \<noteq> j) \<and> j \<noteq> sl i \<and> slot_get st j = Some y"
      using "1" [OF True] True by (subst cb_destroy_while.simps) simp
    also have "\<dots> \<longleftrightarrow> (\<forall>d < unat e - unat i. sl (i + of_nat d) \<noteq> j) \<and> slot_get st j = Some y"
      unfolding n by (auto simp: less_Suc_eq_0_disj add.assoc)
    finally show ?thesis .
  next
    case False
    then show ?thesis by (subst cb_destroy_while.simps) (simp add: word_less_nat_alt)
  qed
qed

text \<open>Moving a block of the window down (\<open>std::move\<close>) or up (\<open>std::move_backward\<close>).\<close>

lemma cb_move_fwd_get:
  assumes "inj_on (\<lambda>k. sl (b + of_nat k)) {..<m}" and "\<forall>k < m. sl (b + of_nat k) < length st"
    and "d < s" "s + n \<le> m" "k < m"
  shows "slot_get (cb_move_fwd sl n (b + of_nat s) (b + of_nat d) st) (sl (b + of_nat k)) =
     slot_get st (sl (b + of_nat (if d \<le> k \<and> k < d + n then k + (s - d) else k)))"
  using assms
proof (induction n arbitrary: s d st)
  case (Suc n)
  let ?F = "\<lambda>k. sl (b + of_nat k)"
  let ?st = "st[?F d := slot_get st (?F s)]"
  have ne: "?F i \<noteq> ?F d" if "i < m" "i \<noteq> d" for i
    using inj_onD [OF Suc.prems(1), of i d] that Suc.prems(3,4) by auto
  have "slot_get (cb_move_fwd sl (Suc n) (b + of_nat s) (b + of_nat d) st) (?F k) =
      slot_get ?st (?F (if Suc d \<le> k \<and> k < Suc d + n then k + (s - d) else k))"
    using Suc.IH [of ?st "Suc d" "Suc s"] Suc.prems by (simp add: algebra_simps)
  also have "\<dots> = slot_get st (?F (if d \<le> k \<and> k < d + Suc n then k + (s - d) else k))"
  proof (cases "k = d")
    case True
    then show ?thesis using Suc.prems(2,3,5) by simp
  next
    case False
    let ?k = "if Suc d \<le> k \<and> k < Suc d + n then k + (s - d) else k"
    have "?k < m" "?k \<noteq> d" using Suc.prems(3,4,5) False by auto
    from ne [OF this] have "slot_get ?st (?F ?k) = slot_get st (?F ?k)" by simp
    moreover have "?k = (if d \<le> k \<and> k < d + Suc n then k + (s - d) else k)" using False by auto
    ultimately show ?thesis by simp
  qed
  finally show ?case .
qed simp

lemma cb_move_bwd_get:
  assumes "inj_on (\<lambda>k. sl (b + of_nat k)) {..<m}" and "\<forall>k < m. sl (b + of_nat k) < length st"
    and "s < d" "n \<le> s" "d \<le> m" "k < m"
  shows "slot_get (cb_move_bwd sl n (b + of_nat s) (b + of_nat d) st) (sl (b + of_nat k)) =
     slot_get st (sl (b + of_nat (if d - n \<le> k \<and> k < d then k - (d - s) else k)))"
  using assms
proof (induction n arbitrary: s d st)
  case (Suc n)
  let ?F = "\<lambda>k. sl (b + of_nat k)"
  obtain s' d' where sd: "s = Suc s'" "d = Suc d'" using Suc.prems(3,4) by (cases s; cases d) auto
  let ?st = "st[?F d' := slot_get st (?F s')]"
  have ne: "?F i \<noteq> ?F d'" if "i < m" "i \<noteq> d'" for i
    using inj_onD [OF Suc.prems(1), of i d'] that Suc.prems(5) sd by auto
  have "slot_get (cb_move_bwd sl (Suc n) (b + of_nat s) (b + of_nat d) st) (?F k) =
      slot_get ?st (?F (if d' - n \<le> k \<and> k < d' then k - (d' - s') else k))"
    using Suc.IH [of ?st s' d'] Suc.prems sd by (simp add: algebra_simps)
  also have "\<dots> = slot_get st (?F (if d - Suc n \<le> k \<and> k < d then k - (d - s) else k))"
  proof (cases "k = d'")
    case True
    then show ?thesis using Suc.prems(2-6) sd by simp
  next
    case False
    let ?k = "if d' - n \<le> k \<and> k < d' then k - (d' - s') else k"
    have "?k < m" "?k \<noteq> d'" using Suc.prems(3-6) False sd by auto
    from ne [OF this] have "slot_get ?st (?F ?k) = slot_get st (?F ?k)" by simp
    moreover have "?k = (if d - Suc n \<le> k \<and> k < d then k - (d - s) else k)" using False sd by auto
    ultimately show ?thesis by simp
  qed
  finally show ?case .
qed simp

text \<open>Neither move makes an object appear outside of the window.\<close>

lemma cb_move_fwd_outside:
  "\<forall>i < n. sl (dst + of_nat i) \<noteq> j \<Longrightarrow> slot_get (cb_move_fwd sl n src dst st) j = slot_get st j"
proof (induction n arbitrary: src dst st)
  case (Suc n)
  have "\<forall>i < n. sl (dst + 1 + of_nat i) \<noteq> j" using Suc.prems by (auto simp: add.assoc dest: spec [of _ "Suc _"])
  moreover have "sl dst \<noteq> j" using Suc.prems by (auto dest: spec [of _ 0])
  ultimately show ?case using Suc.IH by simp
qed simp

lemma cb_move_bwd_outside:
  "\<forall>i < n. sl (dst - 1 - of_nat i) \<noteq> j \<Longrightarrow> slot_get (cb_move_bwd sl n src dst st) j = slot_get st j"
proof (induction n arbitrary: src dst st)
  case (Suc n)
  have "\<forall>i < n. sl (dst - 1 - 1 - of_nat i) \<noteq> j"
    using Suc.prems by (auto simp: diff_diff_eq dest: spec [of _ "Suc _"])
  moreover have "sl (dst - 1) \<noteq> j" using Suc.prems by (auto dest: spec [of _ 0])
  ultimately show ?case using Suc.IH by simp
qed simp

lemma sint_of_nat_small:
  assumes "k < 2 ^ 63"
  shows "sint (of_nat k :: size_t) = int k"
proof -
  have "sint (of_nat k :: size_t) = signed_take_bit 63 (int k)"
    by (simp add: signed_of_nat)
  then show ?thesis using assms by (simp add: signed_take_bit_int_eq_self)
qed

lemma cb_rep_end:
  assumes "cb_rep cb xs"
  shows "cb_end cb = cb_begin cb + of_nat (length xs)"
proof -
  have "of_nat (cb_len cb) = cb_size cb" unfolding cb_len_def by (rule of_nat_unat_id)
  then show ?thesis using cb_rep_len [OF assms] by (simp add: cb_size_def algebra_simps)
qed

lemma cb_rep_window:
  assumes "cb_rep cb xs" and "xs \<noteq> []"
  shows "inj_on (\<lambda>k. cb_slot cb (cb_begin cb + of_nat k)) {..<length xs}"
    and "\<forall>k < length xs. cb_slot cb (cb_begin cb + of_nat k) < length (cb_storage cb)"
proof -
  note r = assms(1) [unfolded cb_rep_def]
  have cap: "cb_capacity cb \<noteq> 0" using r assms(2) by auto
  show "inj_on (\<lambda>k. cb_slot cb (cb_begin cb + of_nat k)) {..<length xs}"
    unfolding cb_ix_def [symmetric]
  proof (rule inj_onI)
    show "i = j" if "i \<in> {..<length xs}" "j \<in> {..<length xs}" "cb_ix cb i = cb_ix cb j" for i j
      using that r cap cb_ix_inj [of cb i j] by simp
  qed
  show "\<forall>k < length xs. cb_slot cb (cb_begin cb + of_nat k) < length (cb_storage cb)"
    unfolding cb_ix_def [symmetric] using r cap cb_ix_less [of cb] by simp
qed

text \<open>The positions that the destruction loop clears, as window positions.\<close>

lemma cb_destroy_window:
  assumes rep: "cb_rep cb xs" and "i \<le> e" "e \<le> length xs" "k < length xs"
    and "\<not> (i \<le> k \<and> k < e)" and "slot_get st (cb_ix cb k) = Some y"
  shows "slot_get (cb_destroy_while (cb_slot cb) (cb_begin cb + of_nat i) (cb_begin cb + of_nat e) st) (cb_ix cb k) = Some y"
  unfolding cb_destroy_while_get
proof (intro conjI allI impI assms(6) notI)
  fix d
  let ?i = "cb_begin cb + of_nat i" and ?e = "cb_begin cb + of_nat e"
  assume d: "d < unat ?e - unat ?i" and eq: "cb_slot cb (?i + of_nat d) = cb_ix cb k"
  have "?i \<le> ?e" using d by (simp add: word_le_nat_alt)
  then have "unat ?e - unat ?i = unat (?e - ?i)" by (rule unat_diff_le [symmetric])
  also have "?e - ?i = of_nat (e - i)" using assms(2) by simp
  also have "unat (of_nat (e - i) :: size_t) = e - i"
    using assms(3) cb_rep_bound [OF rep] by (intro unat_of_nat_small) simp
  finally have "i + d < e" using d by simp
  moreover have "cb_ix cb (i + d) = cb_ix cb k" using eq by (simp add: cb_ix_def add.assoc)
  moreover have "xs \<noteq> []" using assms(4) by auto
  ultimately have "i + d = k"
    using inj_onD [OF cb_rep_window(1) [OF rep], of "i + d" k] assms(3,4) by (simp add: cb_ix_def)
  then show False using assms(5) \<open>i + d < e\<close> by simp
qed

lemma cb_erase_backward_rep:
  assumes rep: "cb_rep cb xs" and ab: "a < b" "b \<le> length xs" and dir: "a < length xs - b"
  defines "F \<equiv> cb_begin cb + of_nat a" and "L \<equiv> cb_begin cb + of_nat b"
  shows "cb_rep (snd (cb_erase F L cb)) (take a xs @ drop b xs)"
    and "fst (cb_erase F L cb) = cb_begin (snd (cb_erase F L cb)) + of_nat a"
proof -
  let ?b = "cb_begin cb" and ?sl = "cb_slot cb" and ?n = "length xs"
  have ne: "xs \<noteq> []" using ab by auto
  note win = cb_rep_window [OF rep ne]
  have small: "?n < 2 ^ 63" using cb_rep_bound [OF rep] by simp
  have e: "cb_end cb = ?b + of_nat ?n" by (rule cb_rep_end [OF rep])
  have d1: "F - ?b = of_nat a" and d2: "cb_end cb - L = of_nat (?n - b)"
    using ab by (simp_all add: F_def L_def e)
  have s1: "sint (F - ?b) = int a"
    unfolding d1 by (rule sint_of_nat_small) (use ab small in simp)
  have s2: "sint (cb_end cb - L) = int (?n - b)"
    unfolding d2 by (rule sint_of_nat_small) (use small in simp)
  have "unat (of_nat a :: size_t) = a" "unat (of_nat b :: size_t) = b"
    using ab small by (simp_all add: unat_of_nat_small)
  then have FL: "F \<noteq> L" using ab(1) by (auto simp: F_def L_def)
  let ?st = "cb_move_bwd ?sl a F L (cb_storage cb)"
  let ?new = "?b + of_nat (b - a)"
  let ?st' = "cb_destroy_while ?sl ?b ?new ?st"
  have new: "L - (F - ?b) = ?new" using ab by (simp add: d1 L_def)
  have res: "cb_erase F L cb = (L, cb\<lparr>cb_storage := ?st', cb_begin := ?new\<rparr>)"
    using FL dir by (simp add: cb_erase_def Let_def s1 s2 new)
  let ?c = "snd (cb_erase F L cb)"
  have ix: "cb_ix ?c k = cb_ix cb (k + (b - a))" for k
    by (simp add: res cb_ix_def cb_slot_def cb_mask_def algebra_simps)
  have len: "cb_len ?c = ?n - (b - a)"
  proof -
    have "cb_size ?c = of_nat (?n - (b - a))" using ab by (simp add: res cb_size_def e)
    then show ?thesis using small by (simp add: cb_len_def unat_of_nat_small)
  qed
  have get: "slot_get ?st' (cb_ix cb k) = Some (xs ! (if k < b then k - (b - a) else k))"
    if k: "b - a \<le> k" "k < ?n" for k
  proof -
    let ?k = "if k < b then k - (b - a) else k"
    have "slot_get ?st (cb_ix cb k) = slot_get (cb_storage cb) (cb_ix cb ?k)"
      using cb_move_bwd_get [OF win, of a b a k] ab k by (simp add: F_def L_def cb_ix_def)
    also have "\<dots> = Some (xs ! ?k)" using k by (intro cb_rep_get [OF rep]) auto
    finally have "slot_get ?st (cb_ix cb k) = Some (xs ! ?k)" .
    from cb_destroy_window [OF rep _ _ _ _ this, of 0 "b - a"] show ?thesis using ab k by simp
  qed
  have nth: "(take a xs @ drop b xs) ! k = xs ! (if k + (b - a) < b then k else k + (b - a))"
    if "k < ?n - (b - a)" for k
    using that ab by (auto simp: nth_append add.commute)
  have get': "slot_get ?st' (cb_ix cb (k + (b - a))) = Some (xs ! (if k + (b - a) < b then k else k + (b - a)))"
    if "k < ?n - (b - a)" for k
    using get [of "k + (b - a)"] that by simp
  have lx: "length (take a xs @ drop b xs) = ?n - (b - a)" using ab by simp
  have st: "cb_storage ?c = ?st'" and caps: "cb_capacity ?c = cb_capacity cb" by (simp_all add: res)
  show "cb_rep ?c (take a xs @ drop b xs)"
  proof (rule cb_repI)
    show "slot_get (cb_storage ?c) (cb_ix ?c k) = Some ((take a xs @ drop b xs) ! k)"
      if "k < length (take a xs @ drop b xs)" for k
      using that unfolding lx st ix by (simp only: get' nth)
  qed (use rep ab in \<open>auto simp: cb_rep_def caps st len lx\<close>)
  show "fst (cb_erase F L cb) = cb_begin ?c + of_nat a" unfolding res using ab by (simp add: L_def)
qed

lemma cb_erase_forward_rep:
  assumes rep: "cb_rep cb xs" and ab: "a < b" "b \<le> length xs" and dir: "\<not> a < length xs - b"
  defines "F \<equiv> cb_begin cb + of_nat a" and "L \<equiv> cb_begin cb + of_nat b"
  shows "cb_rep (snd (cb_erase F L cb)) (take a xs @ drop b xs)"
    and "fst (cb_erase F L cb) = cb_begin (snd (cb_erase F L cb)) + of_nat a"
proof -
  let ?b = "cb_begin cb" and ?sl = "cb_slot cb" and ?n = "length xs"
  have ne: "xs \<noteq> []" using ab by auto
  note win = cb_rep_window [OF rep ne]
  have small: "?n < 2 ^ 63" using cb_rep_bound [OF rep] by simp
  have e: "cb_end cb = ?b + of_nat ?n" by (rule cb_rep_end [OF rep])
  have d1: "F - ?b = of_nat a" and d2: "cb_end cb - L = of_nat (?n - b)"
    using ab by (simp_all add: F_def L_def e)
  have s1: "sint (F - ?b) = int a"
    unfolding d1 by (rule sint_of_nat_small) (use ab small in simp)
  have s2: "sint (cb_end cb - L) = int (?n - b)"
    unfolding d2 by (rule sint_of_nat_small) (use small in simp)
  have "unat (of_nat a :: size_t) = a" "unat (of_nat b :: size_t) = b"
    using ab small by (simp_all add: unat_of_nat_small)
  then have FL: "F \<noteq> L" using ab(1) by (auto simp: F_def L_def)
  let ?st = "cb_move_fwd ?sl (?n - b) L F (cb_storage cb)"
  let ?m = "a + (?n - b)"
  let ?new = "?b + of_nat ?m"
  let ?st' = "cb_destroy_while ?sl ?new (?b + of_nat ?n) ?st"
  have new: "F + (cb_end cb - L) = ?new" using ab by (simp add: d2 F_def)
  have res: "cb_erase F L cb = (F, cb\<lparr>cb_storage := ?st', cb_end := ?new\<rparr>)"
  proof -
    have "\<not> int a < int (?n - b)" and "nat (int (?n - b)) = ?n - b" using dir by simp_all
    then show ?thesis
      using FL by (simp only: cb_erase_def Let_def s1 s2 new e [symmetric] if_False)
  qed
  let ?c = "snd (cb_erase F L cb)"
  have ix: "cb_ix ?c k = cb_ix cb k" for k
    by (simp add: res cb_ix_def cb_slot_def cb_mask_def)
  have len: "cb_len ?c = ?m"
  proof -
    have "cb_size ?c = of_nat ?m" by (simp add: res cb_size_def)
    then show ?thesis using small ab unat_of_nat_small [of ?m, where 'a = 64] by (simp add: cb_len_def)
  qed
  have get: "slot_get ?st' (cb_ix cb k) = Some (xs ! (if a \<le> k then k + (b - a) else k))"
    if k: "k < ?m" for k
  proof -
    let ?k = "if a \<le> k then k + (b - a) else k"
    have "slot_get ?st (cb_ix cb k) = slot_get (cb_storage cb) (cb_ix cb ?k)"
      using cb_move_fwd_get [OF win, of a b "?n - b" k] ab k by (simp add: F_def L_def cb_ix_def)
    also have "\<dots> = Some (xs ! ?k)" using k ab by (intro cb_rep_get [OF rep]) auto
    finally have "slot_get ?st (cb_ix cb k) = Some (xs ! ?k)" .
    then show ?thesis
      by (rule cb_destroy_window [OF rep, rotated -1]) (use ab k in auto)
  qed
  have nth: "(take a xs @ drop b xs) ! k = xs ! (if a \<le> k then k + (b - a) else k)"
    if "k < ?m" for k
    using that ab by (auto simp: nth_append add.commute)
  have lx: "length (take a xs @ drop b xs) = ?m" using ab by simp
  have st: "cb_storage ?c = ?st'" and caps: "cb_capacity ?c = cb_capacity cb" by (simp_all add: res)
  show "cb_rep ?c (take a xs @ drop b xs)"
  proof (rule cb_repI)
    show "slot_get (cb_storage ?c) (cb_ix ?c k) = Some ((take a xs @ drop b xs) ! k)"
      if "k < length (take a xs @ drop b xs)" for k
      using that unfolding lx st ix by (simp only: get nth)
  qed (use rep ab in \<open>auto simp: cb_rep_def caps st len lx\<close>)
  show "fst (cb_erase F L cb) = cb_begin ?c + of_nat a" unfolding res by (simp add: F_def)
qed

lemma cb_erase_rep:
  assumes "cb_rep cb xs" and "a \<le> b" "b \<le> length xs"
  shows "cb_rep (snd (cb_erase (cb_begin cb + of_nat a) (cb_begin cb + of_nat b) cb)) (take a xs @ drop b xs)"
    and "fst (cb_erase (cb_begin cb + of_nat a) (cb_begin cb + of_nat b) cb) =
      cb_begin (snd (cb_erase (cb_begin cb + of_nat a) (cb_begin cb + of_nat b) cb)) + of_nat a"
proof -
  have "a = b \<or> a < b" using assms(2) by auto
  then show "cb_rep (snd (cb_erase (cb_begin cb + of_nat a) (cb_begin cb + of_nat b) cb)) (take a xs @ drop b xs)"
    and "fst (cb_erase (cb_begin cb + of_nat a) (cb_begin cb + of_nat b) cb) =
      cb_begin (snd (cb_erase (cb_begin cb + of_nat a) (cb_begin cb + of_nat b) cb)) + of_nat a"
    using assms cb_erase_backward_rep [of cb xs a b] cb_erase_forward_rep [of cb xs a b]
    by (auto simp: cb_erase_def)
qed

lemma cb_clear_rep:
  assumes "cb_rep cb xs"
  shows "cb_rep (cb_clear cb) []"
  using cb_erase_rep(1) [OF assms, of 0 "length xs"] cb_rep_end [OF assms]
  by (simp add: cb_clear_def)

text \<open>
  \<open>clear()\<close> destroys the whole window when the indices have not passed below zero, and
  nothing at all when they have.
\<close>

lemma cb_clear_eq:
  assumes "cb_rep cb xs"
  shows "cb_clear cb = cb\<lparr>cb_storage := cb_destroy_while (cb_slot cb) (cb_begin cb) (cb_end cb) (cb_storage cb),
                       cb_end := cb_begin cb\<rparr>"
proof (cases "cb_begin cb = cb_end cb")
  case True
  then show ?thesis by (simp add: cb_clear_def cb_erase_def Let_def cb_destroy_while.simps)
next
  case False
  then show ?thesis by (simp add: cb_clear_def cb_erase_def Let_def)
qed

lemma cb_clear_tight:
  assumes rep: "cb_rep cb xs" and "cb_tight cb" and "cb_begin cb \<le> cb_end cb"
  shows "\<forall>j. slot_get (cb_storage (cb_clear cb)) j = None"
proof (rule allI, rule ccontr)
  fix j
  assume "slot_get (cb_storage (cb_clear cb)) j \<noteq> None"
  then have out: "\<forall>d < unat (cb_end cb) - unat (cb_begin cb). cb_slot cb (cb_begin cb + of_nat d) \<noteq> j"
    and "slot_get (cb_storage cb) j \<noteq> None"
    by (auto simp: cb_clear_eq [OF rep] cb_destroy_while_get)
  then obtain k where "k < cb_len cb" "j = cb_ix cb k" using assms(2) unfolding cb_tight_def by blast
  moreover have "cb_len cb = unat (cb_end cb) - unat (cb_begin cb)"
    unfolding cb_len_def cb_size_def by (rule unat_diff_le [OF assms(3)])
  ultimately show False using out by (auto simp: cb_ix_def)
qed

lemma cb_clear_wrapped:
  assumes rep: "cb_rep cb xs" and "cb_end cb < cb_begin cb"
  shows "cb_storage (cb_clear cb) = cb_storage cb"
proof -
  have "\<not> cb_begin cb < cb_end cb" using assms(2) by simp
  then show ?thesis by (simp add: cb_clear_eq [OF rep] cb_destroy_while.simps)
qed

text \<open>The destructor's loop runs on the indices themselves and always reaches every element.\<close>

lemma cb_destroy_get:
  "slot_get (fold (\<lambda>i st. st[sl i := None]) js st) j = Some y \<longleftrightarrow> j \<notin> sl ` set js \<and> slot_get st j = Some y"
  by (induction js arbitrary: st) auto

lemma cb_destroy_complete:
  assumes rep: "cb_rep cb xs" and "cb_tight cb"
  shows "slot_get (cb_destroy cb) j = None"
proof (rule ccontr)
  assume "slot_get (cb_destroy cb) j \<noteq> None"
  then have out: "j \<notin> cb_slot cb ` set (cb_indices (cb_begin cb) (cb_end cb))" and "slot_get (cb_storage cb) j \<noteq> None"
    by (auto simp: cb_destroy_def cb_destroy_get)
  then obtain k where "k < length xs" "j = cb_ix cb k"
    using assms(2) cb_rep_len [OF rep] unfolding cb_tight_def by auto
  then show False using out by (auto simp: cb_window_indices(1) [OF rep] cb_ix_def)
qed

section \<open>The buffer as a double-ended queue\<close>

lemma cb_inv_rep: "cb_inv cb \<Longrightarrow> cb_rep cb (cb_list cb)"
  by (simp add: cb_inv_def)

lemma cb_list_empty_iff: "cb_list cb = [] \<longleftrightarrow> cb_len cb = 0"
  by (simp add: cb_list_def)

lemma cb_new_inv [simp]: "cb_inv cb_new" and cb_new_list [simp]: "cb_list cb_new = []"
  using cb_new_rep cb_rep_inv cb_rep_list by blast+

interpretation cbq: deque cb_empty cb_front cb_pop_front cb_list cb_inv cb_push_back
  cb_push_front cb_back cb_pop_back
proof unfold_locales
  fix q :: "'a circular_buffer" and q' and x :: 'a and e and env
  assume inv: "cb_inv q"
  note rep = cb_inv_rep [OF inv]
  show "cb_empty q \<longleftrightarrow> cb_list q = []" by (simp add: cb_empty_iff cb_list_empty_iff)
  show "cb_list q \<noteq> [] \<Longrightarrow> cb_front q = Some (hd (cb_list q))" by (rule cb_front_rep [OF rep])
  show "cb_list q \<noteq> [] \<Longrightarrow> cb_back q = Some (last (cb_list q))" by (rule cb_back_rep [OF rep])
  show "cb_list q \<noteq> [] \<Longrightarrow> cb_inv (cb_pop_front q) \<and> cb_list (cb_pop_front q) = tl (cb_list q)"
    using cb_pop_front_rep [OF rep] by (simp add: cb_rep_iff)
  show "cb_list q \<noteq> [] \<Longrightarrow> cb_inv (cb_pop_back q) \<and> cb_list (cb_pop_back q) = butlast (cb_list q)"
    using cb_pop_back_rep [OF rep] by (simp add: cb_rep_iff)
  show "cb_push_back env x q = (None, q') \<Longrightarrow> cb_inv q' \<and> cb_list q' = cb_list q @ [x]"
    using cb_push_back_rep [OF rep] by (simp add: cb_rep_iff)
  show "cb_push_front env x q = (None, q') \<Longrightarrow> cb_inv q' \<and> cb_list q' = x # cb_list q"
    using cb_push_front_rep [OF rep] by (simp add: cb_rep_iff)
  show "cb_push_back env x q = (Some e, q') \<Longrightarrow> cb_inv q' \<and> cb_list q' = cb_list q"
    using cb_push_fail [OF rep, of env x e q'] by (simp add: cb_rep_iff)
  show "cb_push_front env x q = (Some e, q') \<Longrightarrow> cb_inv q' \<and> cb_list q' = cb_list q"
    using cb_push_fail [OF rep, of env x e q'] by (simp add: cb_rep_iff)
qed

text \<open>A growable environment: nothing throws, so pushes only fail at the allocator's limit.\<close>

definition cb_env_ok :: "'a cb_env" where
  "cb_env_ok = \<lparr>cb_alloc_ok = (\<lambda>_. True), cb_nothrow_move = True, cb_ctor_ok = (\<lambda>_. True)\<rparr>"

text \<open>
  For requests above \<open>2 ^ 63\<close> the shift of \<open>reserve\<close> would be by 64, which C++ leaves undefined;
  no allocator can serve such a request.
\<close>

lemma cb_reserve_rep:
  assumes rep: "cb_rep cb xs" and ret: "cb_reserve env n cb = (None, cb')" and "unat n \<le> 2 ^ 63"
  shows "cb_rep cb' xs \<and> unat n \<le> unat (cb_capacity cb') \<and> (cb_tight cb \<longrightarrow> cb_tight cb')"
proof (cases "cb_capacity cb < n")
  case False
  then show ?thesis using assms by (simp add: cb_reserve_def word_less_nat_alt)
next
  case True
  then have n0: "n \<noteq> 0" by auto
  then obtain k where k: "log2ceil n = Some k" "unat n \<le> 2 ^ k" "k \<le> 63"
    using log2ceil_least [OF n0] assms(3) by (metis log2ceil_eq)
  let ?c = "push_bit k 1 :: size_t"
  have c: "?c = 2 ^ k" by (simp add: push_bit_eq_mult)
  have uc: "unat ?c = 2 ^ k" unfolding c using k by (intro unat_exp_word) simp
  have exp: "cb_expand_to env ?c cb = (None, cb')" using ret True k by (simp add: cb_reserve_def)
  then have "unat ?c < 2 ^ 63"
    by (auto simp: cb_expand_to_def cb_expand_blocks_def cb_allocate_def word_less_nat_alt split: if_splits)
  then have "k < 63" unfolding uc by (simp only: power_strict_increasing_iff one_less_numeral_iff semiring_norm)
  then have ok: "cb_cap_ok ?c" unfolding c cb_cap_ok_def by blast
  have "length xs \<le> unat ?c"
    using rep k(2) True unfolding uc by (simp add: cb_rep_def word_less_nat_alt)
  from cb_expand_to_rep [OF rep exp ok this] show ?thesis using k(2) uc by simp
qed

section \<open>Properties\<close>

text \<open>
  C11. The circular buffer implements a double-ended queue.  Starting from an empty buffer, any
  sequence of \<open>push_back\<close>, \<open>push_front\<close>, \<open>pop_front\<close> and \<open>pop_back\<close> calls in which no element is
  removed from an empty buffer leaves exactly the contents that the same sequence has on lists,
  whatever allocations or copies throw on the way (each push has an environment of its own; a
  throwing push changes nothing), across
  every reallocation and index wrap-around.
\<close>

theorem cb_run_refines_list:
  assumes "dq_run (dq_step cb_push_back cb_push_front cb_pop_front cb_pop_back) ops cb_new = (rs, cb)"
    and "list_run ops rs [] = Some ys"
  shows "cb_inv cb \<and> cb_list cb = ys"
  using cbq.dq_run_list [OF cb_new_inv assms(1)] assms(2) by simp

theorem cb_run_refines_list_witness:
  "\<exists>cb. dq_run (dq_step cb_push_back cb_push_front cb_pop_front cb_pop_back)
         [Push_back cb_env_ok (1::nat), Push_front cb_env_ok 2, Push_back cb_env_ok 3, Pop_front] cb_new = ([None, None, None, None], cb) \<and>
      cb_inv cb \<and> cb_list cb = [1, 3]"
proof -
  let ?run = "dq_run (dq_step cb_push_back cb_push_front cb_pop_front cb_pop_back)
      [Push_back cb_env_ok (1::nat), Push_front cb_env_ok 2, Push_back cb_env_ok 3, Pop_front] cb_new"
  have "fst ?run = [None, None, None, None]"
    by code_simp
  then obtain cb where run: "?run = ([None, None, None, None], cb)" by (metis prod.collapse)
  show ?thesis using run cb_run_refines_list [OF run, of "[1, 3]"] by auto
qed

lemma cb_push_keeps:
  assumes "cb_inv cb" and "cb_tight cb"
  shows "(case cb_push_back env x cb of (r, cb') \<Rightarrow>
            cb_inv cb' \<and> cb_tight cb' \<and> cb_list cb' = (if r = None then cb_list cb @ [x] else cb_list cb)) \<and>
         (case cb_push_front env x cb of (r, cb') \<Rightarrow>
            cb_inv cb' \<and> cb_tight cb' \<and> cb_list cb' = (if r = None then x # cb_list cb else cb_list cb))"
proof -
  note rep = cb_inv_rep [OF assms(1)]
  obtain r1 c1 where 1: "cb_push_back env x cb = (r1, c1)" by fastforce
  obtain r2 c2 where 2: "cb_push_front env x cb = (r2, c2)" by fastforce
  have "cb_inv c1 \<and> cb_tight c1 \<and> cb_list c1 = (if r1 = None then cb_list cb @ [x] else cb_list cb)"
    using 1 assms(2) cb_push_back_rep [OF rep, of env x c1] cb_push_fail [OF rep, of env x _ c1]
    by (cases r1) (auto simp: cb_rep_iff)
  moreover have "cb_inv c2 \<and> cb_tight c2 \<and> cb_list c2 = (if r2 = None then x # cb_list cb else cb_list cb)"
    using 2 assms(2) cb_push_front_rep [OF rep, of env x c2] cb_push_fail [OF rep, of env x _ c2]
    by (cases r2) (auto simp: cb_rep_iff)
  ultimately show ?thesis using 1 2 by simp
qed

text \<open>
  C29. Exception safety and ownership of \<open>push_back\<close> and \<open>push_front\<close>: after the call, thrown or
  not, the buffer is well formed, it holds the old contents or the old contents and the new
  element, and no object is alive outside of its window if none was before.  Nor is an object left alive in the block
  that a growing push gives back to the allocator: the old one, or the new one when a copy threw.
\<close>

theorem cb_push_safe:
  assumes "cb_inv cb" and "cb_tight cb"
  shows "(case cb_push_back env x cb of (r, cb') \<Rightarrow>
            cb_inv cb' \<and> cb_tight cb' \<and> cb_list cb' = (if r = None then cb_list cb @ [x] else cb_list cb)) \<and>
         (case cb_push_front env x cb of (r, cb') \<Rightarrow>
            cb_inv cb' \<and> cb_tight cb' \<and> cb_list cb' = (if r = None then x # cb_list cb else cb_list cb)) \<and>
         set (cb_push_frees env cb) \<subseteq> {None}"
  using cb_push_keeps [OF assms, where env = env and x = x] cb_push_frees_dead [OF assms, where env = env]
  by (simp only: simp_thms)

text \<open>A full buffer whose second element cannot be copied: the push throws, and the copy of the first element dies.\<close>

definition cb_full_two :: "nat circular_buffer" where
  "cb_full_two = snd (cb_push_back cb_env_ok 6 (snd (cb_push_back cb_env_ok 5 cb_new)))"

definition cb_env_copy :: "nat cb_env" where
  "cb_env_copy = \<lparr>cb_alloc_ok = (\<lambda>_. True), cb_nothrow_move = False, cb_ctor_ok = (\<lambda>x. x \<noteq> 6)\<rparr>"

theorem cb_push_safe_witness:
  "cb_push_frees cb_env_copy cb_full_two = [None, None, None, None] \<and>
   (case cb_push_back cb_env_copy 7 cb_full_two of (r, cb') \<Rightarrow>
      r = Some Ctor_throw \<and> cb_inv cb' \<and> cb_tight cb' \<and> cb_list cb' = [5, 6]) \<and>
   set (cb_push_frees cb_env_copy cb_full_two) \<subseteq> {None}"
proof -
  have "cb_inv cb_full_two \<and> cb_tight cb_full_two"
    using cb_push_keeps [of "cb_new :: nat circular_buffer", where env = cb_env_ok and x = 5]
      cb_push_keeps [of "snd (cb_push_back cb_env_ok (5 :: nat) cb_new)", where env = cb_env_ok and x = 6]
    by (auto simp: cb_full_two_def split: prod.splits)
  moreover have "cb_push_frees cb_env_copy cb_full_two = [None, None, None, None]"
    "fst (cb_push_back cb_env_copy 7 cb_full_two) = Some Ctor_throw" "cb_list cb_full_two = [5, 6]"
    by code_simp+
  ultimately show ?thesis using cb_push_safe [of cb_full_two, where env = cb_env_copy and x = 7] by (auto split: prod.splits)
qed

text \<open>
  C28. \<open>erase(first, last)\<close> removes exactly the elements between the two iterators, whichever end
  it moves, and returns the iterator to the element that followed them.
\<close>

theorem cb_erase_correct:
  assumes "cb_inv cb" and "a \<le> b" and "b \<le> length (cb_list cb)"
    and "cb_erase (cb_begin cb + of_nat a) (cb_begin cb + of_nat b) cb = (it, cb')"
  shows "cb_inv cb' \<and> cb_list cb' = take a (cb_list cb) @ drop b (cb_list cb) \<and>
         it = cb_begin cb' + of_nat a"
  using cb_erase_rep [OF cb_inv_rep [OF assms(1)] assms(2,3)] assms(4) by (simp add: cb_rep_iff)

theorem cb_erase_correct_witness:
  "\<exists>cb it cb'. cb_list (cb :: nat circular_buffer) = [10, 20, 30] \<and>
     cb_erase (cb_begin cb + of_nat 1) (cb_begin cb + of_nat 2) cb = (it, cb') \<and> cb_list cb' = [10, 30]"
proof -
  let ?run = "dq_run (dq_step cb_push_back cb_push_front cb_pop_front cb_pop_back)
      [Push_back cb_env_ok (10::nat), Push_back cb_env_ok 20, Push_back cb_env_ok 30] cb_new"
  have "fst ?run = [None, None, None]" by code_simp
  then obtain cb where run: "?run = ([None, None, None], cb)" by (metis prod.collapse)
  have cb: "cb_inv cb" "cb_list cb = [10, 20, 30]"
    using cbq.dq_run_list [OF cb_new_inv run, of "[10, 20, 30]"] by auto
  obtain it cb' where er: "cb_erase (cb_begin cb + of_nat 1) (cb_begin cb + of_nat 2) cb = (it, cb')"
    by fastforce
  show ?thesis using cb_erase_correct [OF cb(1) _ _ er] cb(2) er by (intro exI) (auto simp: cb(2))
qed

text \<open>
  C30. \<open>clear()\<close> can leak.  It empties the buffer, and if the 64-bit indices have not wrapped it
  destroys every element; but once a \<open>push_front\<close> has taken \<open>begin\<close> below zero, so that \<open>end < begin\<close>
  as unsigned numbers, its destruction loop does not run, and every object stays alive outside of
  the now empty window.  The destructor, which loops on \<open>i != end\<close>, has no such defect.
\<close>

theorem cb_clear_destroys_unless_wrapped:
  assumes "cb_inv cb" and "cb_tight cb"
  shows "cb_list (cb_clear cb) = [] \<and>
         (cb_begin cb \<le> cb_end cb \<longrightarrow> (\<forall>j. slot_get (cb_storage (cb_clear cb)) j = None)) \<and>
         (cb_end cb < cb_begin cb \<longrightarrow> cb_storage (cb_clear cb) = cb_storage cb) \<and>
         (\<forall>j. slot_get (cb_destroy cb) j = None)"
  using cb_inv_rep [OF assms(1)] assms(2) cb_clear_rep cb_clear_tight cb_clear_wrapped cb_destroy_complete
    cb_rep_list by blast

theorem cb_clear_destroys_unless_wrapped_witness:
  "\<exists>cb :: nat circular_buffer. cb_inv cb \<and> cb_tight cb \<and> cb_list cb = [2, 1] \<and> cb_end cb < cb_begin cb \<and>
     cb_list (cb_clear cb) = [] \<and> cb_storage (cb_clear cb) = [Some 1, Some 2]"
proof -
  let ?c1 = "snd (cb_push_back cb_env_ok (1::nat) cb_new)"
  let ?c2 = "snd (cb_push_front cb_env_ok 2 ?c1)"
  have 1: "cb_inv ?c1" "cb_tight ?c1" "cb_inv ?c2" "cb_tight ?c2"
    using cb_push_keeps [of "cb_new :: nat circular_buffer", where env = cb_env_ok and x = 1]
      cb_push_keeps [of ?c1, where env = cb_env_ok and x = 2]
    by (auto split: prod.splits)
  have 2: "cb_list ?c2 = [2, 1] \<and> cb_end ?c2 < cb_begin ?c2 \<and> cb_storage ?c2 = [Some 1, Some 2]" by code_simp
  show ?thesis using cb_clear_destroys_unless_wrapped [OF 1(3,4)] 1 2 by metis
qed

end
