(* ===== verification/ChunkedFifo.thy ===== *)
theory ChunkedFifo
  imports Prelude Fifo
begin

text \<open>
  \<open>core/chunked_fifo.hh\<close>: the unbounded queue kept as a linked list of fixed-size chunks.

  The chunks live in an explicit store \<open>cf_heap\<close> from addresses to chunks, so that the aliasing the
  code relies on (\<open>_back_chunk\<close> is the last chunk of the list that starts at \<open>_front_chunk\<close>) is
  part of what is proved; 0 is the null pointer, and a dereference of a dead address reads
  \<open>ck_dead\<close>.  \<open>operator new\<close> is an oracle in \<open>cf_env\<close>: it proposes an address for the i-th
  allocation of an operation, and the allocation throws \<open>bad_alloc\<close> when the proposal is null or in
  use.  The template parameter \<open>items_per_chunk\<close> is the argument \<open>ipc\<close>.
\<close>

section \<open>State and operations\<close>

record 'a chunk =
  ck_items :: "nat \<Rightarrow> 'a option"
  ck_next :: size_t
  ck_begin :: u32
  ck_end :: u32

record 'a chunked_fifo =
  cf_heap :: "size_t \<Rightarrow> 'a chunk option"
  cf_front_chunk :: size_t
  cf_back_chunk :: size_t
  cf_nchunks :: size_t
  cf_free_chunks :: size_t
  cf_nfree_chunks :: size_t

record 'a cf_env =
  cf_new_addr :: "nat \<Rightarrow> size_t"
  cf_ctor_ok :: "'a \<Rightarrow> bool"

definition ck_dead :: "'a chunk" where
  "ck_dead = \<lparr>ck_items = (\<lambda>_. None), ck_next = 0, ck_begin = 0, ck_end = 0\<rparr>"

definition cf_new :: "'a chunked_fifo" where
  "cf_new = \<lparr>cf_heap = (\<lambda>_. None), cf_front_chunk = 0, cf_back_chunk = 0, cf_nchunks = 0,
             cf_free_chunks = 0, cf_nfree_chunks = 0\<rparr>"

text \<open>Reading, writing, allocating and freeing a chunk of the store.\<close>

definition cf_deref :: "'a chunked_fifo \<Rightarrow> size_t \<Rightarrow> 'a chunk" where
  "cf_deref cf p = (case cf_heap cf p of None \<Rightarrow> ck_dead | Some c \<Rightarrow> c)"

definition cf_write :: "size_t \<Rightarrow> ('a chunk \<Rightarrow> 'a chunk) \<Rightarrow> 'a chunked_fifo \<Rightarrow> 'a chunked_fifo" where
  "cf_write p f cf = cf\<lparr>cf_heap := (cf_heap cf)(p := map_option f (cf_heap cf p))\<rparr>"

definition cf_delete :: "size_t \<Rightarrow> 'a chunked_fifo \<Rightarrow> 'a chunked_fifo" where
  "cf_delete p cf = cf\<lparr>cf_heap := (cf_heap cf)(p := None)\<rparr>"

definition cf_malloc :: "'a cf_env \<Rightarrow> nat \<Rightarrow> 'a chunked_fifo \<Rightarrow> size_t option \<times> 'a chunked_fifo" where
  "cf_malloc env i cf =
     (let p = cf_new_addr env i in
      if p = 0 \<or> cf_heap cf p \<noteq> None then (None, cf)
      else (Some p, cf\<lparr>cf_heap := (cf_heap cf)(p \<mapsto> ck_dead)\<rparr>))"

definition cf_mask :: "size_t \<Rightarrow> u32 \<Rightarrow> nat" where
  "cf_mask ipc idx = unat ((ucast idx :: size_t) AND (ipc - 1))"

definition cf_empty :: "'a chunked_fifo \<Rightarrow> bool" where
  "cf_empty cf \<longleftrightarrow> cf_front_chunk cf = 0"

text \<open>The differences of the \<open>unsigned\<close> chunk indices are 32-bit; the rest of the sum is 64-bit.\<close>

definition cf_size :: "size_t \<Rightarrow> 'a chunked_fifo \<Rightarrow> size_t" where
  "cf_size ipc cf =
     (let f = cf_deref cf (cf_front_chunk cf); b = cf_deref cf (cf_back_chunk cf) in
      if cf_front_chunk cf = 0 then 0
      else if cf_back_chunk cf = cf_front_chunk cf then ucast (ck_end f - ck_begin f)
      else ucast (ck_end f - ck_begin f + ck_end b - ck_begin b) + (cf_nchunks cf - 2) * ipc)"

definition cf_take_chunk :: "'a cf_env \<Rightarrow> 'a chunked_fifo \<Rightarrow> exn option \<times> 'a chunked_fifo" where
  "cf_take_chunk env cf =
     (if cf_free_chunks cf \<noteq> 0
      then (None, cf\<lparr>cf_back_chunk := cf_free_chunks cf,
                    cf_free_chunks := ck_next (cf_deref cf (cf_free_chunks cf)),
                    cf_nfree_chunks := cf_nfree_chunks cf - 1\<rparr>)
      else (case cf_malloc env 0 cf of
              (None, cf') \<Rightarrow> (Some Bad_alloc, cf')
            | (Some p, cf') \<Rightarrow> (None, cf'\<lparr>cf_back_chunk := p\<rparr>)))"

definition cf_link_back :: "size_t \<Rightarrow> 'a chunked_fifo \<Rightarrow> 'a chunked_fifo" where
  "cf_link_back old cf =
     (let p = cf_back_chunk cf;
          cf2 = cf_write p (\<lambda>c. c\<lparr>ck_next := 0, ck_begin := 0, ck_end := 0\<rparr>) cf;
          cf3 = (if old \<noteq> 0 then cf_write old (\<lambda>c. c\<lparr>ck_next := p\<rparr>) cf2 else cf2);
          cf4 = (if cf_front_chunk cf3 = 0 then cf3\<lparr>cf_front_chunk := p\<rparr> else cf3)
      in cf4\<lparr>cf_nchunks := cf_nchunks cf4 + 1\<rparr>)"

definition cf_back_chunk_new :: "'a cf_env \<Rightarrow> 'a chunked_fifo \<Rightarrow> exn option \<times> 'a chunked_fifo" where
  "cf_back_chunk_new env cf =
     (case cf_take_chunk env cf of
        (Some e, cf1) \<Rightarrow> (Some e, cf1)
      | (None, cf1) \<Rightarrow> (None, cf_link_back (cf_back_chunk cf) cf1))"

definition cf_ensure_room_back :: "size_t \<Rightarrow> 'a cf_env \<Rightarrow> 'a chunked_fifo \<Rightarrow> exn option \<times> 'a chunked_fifo" where
  "cf_ensure_room_back ipc env cf =
     (let b = cf_deref cf (cf_back_chunk cf) in
      if cf_back_chunk cf = 0 \<or> ucast (ck_end b - ck_begin b) = ipc then cf_back_chunk_new env cf
      else (None, cf))"

definition cf_undo_room_back :: "'a chunked_fifo \<Rightarrow> 'a chunked_fifo" where
  "cf_undo_room_back cf =
     (let old = cf_back_chunk cf; b = cf_deref cf old in
      if ck_begin b = ck_end b then
        let cf1 = (cf_delete old cf)\<lparr>cf_nchunks := cf_nchunks cf - 1\<rparr> in
        if cf_nchunks cf1 = 0 then cf1\<lparr>cf_back_chunk := 0, cf_front_chunk := 0\<rparr>
        else let p = while (\<lambda>p. ck_next (cf_deref cf1 p) \<noteq> old) (\<lambda>p. ck_next (cf_deref cf1 p)) (cf_front_chunk cf1)
             in cf_write p (\<lambda>c. c\<lparr>ck_next := 0\<rparr>) (cf1\<lparr>cf_back_chunk := p\<rparr>)
      else cf)"

definition cf_emplace_back :: "size_t \<Rightarrow> 'a cf_env \<Rightarrow> 'a \<Rightarrow> 'a chunked_fifo \<Rightarrow> exn option \<times> 'a chunked_fifo" where
  "cf_emplace_back ipc env x cf =
     (case cf_ensure_room_back ipc env cf of
        (Some e, cf1) \<Rightarrow> (Some e, cf1)
      | (None, cf1) \<Rightarrow>
          if cf_ctor_ok env x
          then (None, cf_write (cf_back_chunk cf1)
                  (\<lambda>c. c\<lparr>ck_items := (ck_items c)(cf_mask ipc (ck_end c) \<mapsto> x), ck_end := ck_end c + 1\<rparr>) cf1)
          else (Some Ctor_throw, cf_undo_room_back cf1))"

definition cf_back :: "size_t \<Rightarrow> 'a chunked_fifo \<Rightarrow> 'a option" where
  "cf_back ipc cf = (let b = cf_deref cf (cf_back_chunk cf) in ck_items b (cf_mask ipc (ck_end b - 1)))"

definition cf_front :: "size_t \<Rightarrow> 'a chunked_fifo \<Rightarrow> 'a option" where
  "cf_front ipc cf = (let f = cf_deref cf (cf_front_chunk cf) in ck_items f (cf_mask ipc (ck_begin f)))"

definition cf_front_chunk_delete :: "'a chunked_fifo \<Rightarrow> 'a chunked_fifo" where
  "cf_front_chunk_delete cf =
     (let front = cf_front_chunk cf; nxt = ck_next (cf_deref cf front);
          cf1 = (if cf_nfree_chunks cf < 1
                 then (cf_write front (\<lambda>c. c\<lparr>ck_next := cf_free_chunks cf\<rparr>) cf)
                        \<lparr>cf_free_chunks := front, cf_nfree_chunks := cf_nfree_chunks cf + 1\<rparr>
                 else cf_delete front cf);
          cf2 = (if cf_back_chunk cf1 = front then cf1\<lparr>cf_back_chunk := 0\<rparr> else cf1)
      in cf2\<lparr>cf_front_chunk := nxt, cf_nchunks := cf_nchunks cf2 - 1\<rparr>)"

definition cf_pop_front :: "size_t \<Rightarrow> 'a chunked_fifo \<Rightarrow> 'a chunked_fifo" where
  "cf_pop_front ipc cf =
     (let p = cf_front_chunk cf;
          cf1 = cf_write p (\<lambda>c. c\<lparr>ck_items := (ck_items c)(cf_mask ipc (ck_begin c) := None),
                                  ck_begin := ck_begin c + 1\<rparr>) cf;
          f = cf_deref cf1 p
      in if ck_begin f = ck_end f then cf_front_chunk_delete cf1 else cf1)"

definition cf_clear :: "size_t \<Rightarrow> 'a chunked_fifo \<Rightarrow> 'a chunked_fifo" where
  "cf_clear ipc cf =
     fst (pop_while cf_empty (cf_front ipc) (cf_pop_front ipc) (\<lambda>_ _. True) (\<lambda>_ _. ()) cf ())"

definition cf_shrink_to_fit :: "'a chunked_fifo \<Rightarrow> 'a chunked_fifo" where
  "cf_shrink_to_fit cf =
     (while (\<lambda>cf. cf_free_chunks cf \<noteq> 0)
        (\<lambda>cf. (cf_delete (cf_free_chunks cf) cf)\<lparr>cf_free_chunks := ck_next (cf_deref cf (cf_free_chunks cf))\<rparr>) cf)
       \<lparr>cf_nfree_chunks := 0\<rparr>"

definition cf_destroy :: "size_t \<Rightarrow> 'a chunked_fifo \<Rightarrow> 'a chunked_fifo" where
  "cf_destroy ipc cf = cf_shrink_to_fit (cf_clear ipc cf)"

text \<open>\<open>reserve\<close>: the number of chunks to allocate, in \<open>size_t\<close> arithmetic, and the loop.\<close>

definition cf_reserve_chunks :: "size_t \<Rightarrow> size_t \<Rightarrow> 'a chunked_fifo \<Rightarrow> size_t" where
  "cf_reserve_chunks ipc n cf =
     (let b = cf_deref cf (cf_back_chunk cf);
          need = n - cf_size ipc cf;
          need' = (if cf_back_chunk cf \<noteq> 0 then need - (ipc - ucast (ck_end b - ck_begin b)) else need);
          needed_chunks = (need' + ipc - 1) div ipc
      in if needed_chunks \<le> cf_nfree_chunks cf then 0 else needed_chunks - cf_nfree_chunks cf)"

fun cf_reserve_loop :: "'a cf_env \<Rightarrow> nat \<Rightarrow> nat \<Rightarrow> 'a chunked_fifo \<Rightarrow> exn option \<times> 'a chunked_fifo" where
  "cf_reserve_loop env i 0 cf = (None, cf)"
| "cf_reserve_loop env i (Suc n) cf =
     (case cf_malloc env i cf of
        (None, cf') \<Rightarrow> (Some Bad_alloc, cf')
      | (Some p, cf') \<Rightarrow>
          cf_reserve_loop env (Suc i) n
            ((cf_write p (\<lambda>c. c\<lparr>ck_next := cf_free_chunks cf'\<rparr>) cf')
               \<lparr>cf_free_chunks := p, cf_nfree_chunks := cf_nfree_chunks cf' + 1\<rparr>))"

definition cf_reserve :: "size_t \<Rightarrow> 'a cf_env \<Rightarrow> size_t \<Rightarrow> 'a chunked_fifo \<Rightarrow> exn option \<times> 'a chunked_fifo" where
  "cf_reserve ipc env n cf = cf_reserve_loop env 0 (unat (cf_reserve_chunks ipc n cf)) cf"

definition cf_move_construct :: "'a chunked_fifo \<Rightarrow> 'a chunked_fifo \<times> 'a chunked_fifo" where
  "cf_move_construct x = (x, cf_new)"

definition cf_move_assign :: "size_t \<Rightarrow> bool \<Rightarrow> 'a chunked_fifo \<Rightarrow> 'a chunked_fifo
    \<Rightarrow> 'a chunked_fifo \<times> 'a chunked_fifo \<times> 'a chunked_fifo" where
  "cf_move_assign ipc same this x =
     (if same then (this, x, cf_new)
      else case cf_move_construct x of (this', x') \<Rightarrow> (this', x', cf_destroy ipc this))"

text \<open>
  Writing through a pointer to a stored element: \<open>f\<close> is applied to every live element, so a change
  to one element is an \<open>f\<close> that is the identity on the others.
\<close>

definition cf_modify :: "('a \<Rightarrow> 'a) \<Rightarrow> 'a chunked_fifo \<Rightarrow> 'a chunked_fifo" where
  "cf_modify f cf =
     cf\<lparr>cf_heap := (\<lambda>p. map_option (\<lambda>c. c\<lparr>ck_items := (\<lambda>j. map_option f (ck_items c j))\<rparr>) (cf_heap cf p))\<rparr>"

section \<open>Chunks\<close>

definition ipc_ok :: "size_t \<Rightarrow> bool" where
  "ipc_ok ipc \<longleftrightarrow> (\<exists>m \<le> 30. ipc = 2 ^ m)"

definition ck_ix :: "size_t \<Rightarrow> 'a chunk \<Rightarrow> nat \<Rightarrow> nat" where
  "ck_ix ipc c k = cf_mask ipc (ck_begin c + of_nat k)"

definition ck_len :: "'a chunk \<Rightarrow> nat" where
  "ck_len c = unat (ck_end c - ck_begin c)"

text \<open>A chunk holds exactly the elements \<open>ys\<close>.\<close>

definition ck_rep :: "size_t \<Rightarrow> 'a chunk \<Rightarrow> 'a list \<Rightarrow> bool" where
  "ck_rep ipc c ys \<longleftrightarrow>
     ck_len c = length ys \<and> length ys \<le> unat ipc \<and>
     (\<forall>k < length ys. ck_items c (ck_ix ipc c k) = Some (ys ! k)) \<and>
     (\<forall>j. ck_items c j \<noteq> None \<longrightarrow> (\<exists>k < length ys. j = ck_ix ipc c k))"

lemma ipc_ok_bounds: "ipc_ok ipc \<Longrightarrow> 0 < unat ipc \<and> unat ipc \<le> 2 ^ 30"
proof (auto simp: ipc_ok_def unat_exp_word)
  fix m :: nat
  assume "m \<le> 30"
  then have "(2::nat) ^ m \<le> 2 ^ 30" by (rule power_increasing) simp
  then show "(2::nat) ^ m \<le> 1073741824" by simp
qed

lemma ck_ix_eq:
  assumes "ipc_ok ipc"
  shows "ck_ix ipc c k = (unat (ck_begin c) + k) mod unat ipc"
proof -
  obtain m where m: "m \<le> 30" "ipc = 2 ^ m" using assms by (auto simp: ipc_ok_def)
  have dvd: "(2::nat) ^ m dvd 2 ^ 32" using m by (intro le_imp_power_dvd) simp
  let ?i = "ck_begin c + of_nat k"
  have "ck_ix ipc c k = unat (ucast ?i :: size_t) mod 2 ^ m"
    unfolding ck_ix_def cf_mask_def m(2) using m(1) by (intro unat_and_pow2_mask) simp
  also have "unat (ucast ?i :: size_t) = unat ?i"
    by (rule unat_ucast_up) simp
  also have "unat ?i mod 2 ^ m = (unat (ck_begin c) + unat (of_nat k :: u32)) mod 2 ^ m"
    using m by (intro unat_add_mod_pow2) simp
  also have "unat (of_nat k :: u32) = k mod 2 ^ 32"
    by (simp add: unat_of_nat take_bit_eq_mod)
  also have "(unat (ck_begin c) + k mod 2 ^ 32) mod 2 ^ m = (unat (ck_begin c) + k) mod 2 ^ m"
    using dvd by (metis mod_add_right_eq mod_mod_cancel)
  also have "(2::nat) ^ m = unat ipc" using m by (simp add: unat_exp_word)
  finally show ?thesis .
qed

lemma ck_ix_inj:
  "ipc_ok ipc \<Longrightarrow> i < unat ipc \<Longrightarrow> j < unat ipc \<Longrightarrow> ck_ix ipc c i = ck_ix ipc c j \<longleftrightarrow> i = j"
  using mod_inj_window [of "unat (ck_begin c)" i "unat ipc" j] by (auto simp: ck_ix_eq)

lemma ck_end_ix: "cf_mask ipc (ck_end c) = ck_ix ipc c (ck_len c)"
  by (simp add: ck_ix_def ck_len_def)

lemma ck_begin_ix: "cf_mask ipc (ck_begin c) = ck_ix ipc c 0"
  by (simp add: ck_ix_def)

lemma ck_rep_nil_iff: "ck_rep ipc c ys \<Longrightarrow> ck_begin c = ck_end c \<longleftrightarrow> ys = []"
  by (auto simp: ck_rep_def ck_len_def unat_eq_zero)

lemma ck_rep_fresh:
  "(\<And>j. ck_items c j = None) \<Longrightarrow> ck_begin c = ck_end c \<Longrightarrow> ck_rep ipc c []"
  by (simp add: ck_rep_def ck_len_def)

lemma ck_rep_empty_items: "ck_rep ipc c [] \<Longrightarrow> ck_items c j = None"
  by (auto simp: ck_rep_def)

lemma ck_rep_push:
  assumes "ipc_ok ipc" and "ck_rep ipc c ys" and "length ys < unat ipc"
    and c': "c' = c\<lparr>ck_items := (ck_items c)(cf_mask ipc (ck_end c) \<mapsto> x), ck_end := ck_end c + 1\<rparr>"
  shows "ck_rep ipc c' (ys @ [x])"
proof -
  note r = assms(2) [unfolded ck_rep_def]
  have "length ys < 2 ^ 30" using assms(3) ipc_ok_bounds [OF assms(1)] by simp
  then have "unat (ck_end c - ck_begin c + 1) = Suc (length ys)"
    using r by (subst unat_plus_one) (simp_all add: ck_len_def)
  then have len: "ck_len c' = Suc (length ys)" by (simp add: ck_len_def c' algebra_simps)
  have ix: "ck_ix ipc c' k = ck_ix ipc c k" for k by (simp add: ck_ix_def c')
  have items: "ck_items c' = (ck_items c)(ck_ix ipc c (length ys) \<mapsto> x)"
    using r by (simp add: c' ck_end_ix)
  have "ck_ix ipc c k \<noteq> ck_ix ipc c (length ys)" if "k < length ys" for k
    using that assms(1,3) by (subst ck_ix_inj) auto
  then show ?thesis
    using r len assms(3) by (auto simp: ck_rep_def ix items nth_append less_Suc_eq)
qed

lemma ck_rep_pop:
  assumes "ipc_ok ipc" and "ck_rep ipc c (y # ys)"
    and c': "c' = c\<lparr>ck_items := (ck_items c)(cf_mask ipc (ck_begin c) := None), ck_begin := ck_begin c + 1\<rparr>"
  shows "ck_rep ipc c' ys"
proof -
  note r = assms(2) [unfolded ck_rep_def]
  have "ck_begin c \<noteq> ck_end c" using r by (auto simp: ck_len_def)
  from unat_Suc_diff [OF this] have len: "ck_len c' = length ys"
    using r by (simp add: ck_len_def c')
  have ix: "ck_ix ipc c' k = ck_ix ipc c (Suc k)" for k by (simp add: ck_ix_def c' algebra_simps)
  have items: "ck_items c' = (ck_items c)(ck_ix ipc c 0 := None)" by (simp add: c' ck_begin_ix)
  have "ck_ix ipc c (Suc k) \<noteq> ck_ix ipc c 0" if "k < length ys" for k
    using that assms(1) r by (subst ck_ix_inj) auto
  then show ?thesis
    using r len by (auto simp: ck_rep_def ix items less_Suc_eq_0_disj)
qed

lemma ck_rep_front: "ck_rep ipc c (y # ys) \<Longrightarrow> ck_items c (cf_mask ipc (ck_begin c)) = Some y"
  unfolding ck_begin_ix by (auto simp: ck_rep_def)

lemma ck_rep_back:
  assumes "ck_rep ipc c ys" and "ys \<noteq> []"
  shows "ck_items c (cf_mask ipc (ck_end c - 1)) = Some (last ys)"
proof -
  note r = assms(1) [unfolded ck_rep_def]
  obtain n where n: "length ys = Suc n" using assms(2) by (cases ys) auto
  have "ck_end c - ck_begin c = of_nat (Suc n)" using r n by (metis ck_len_def of_nat_unat_id)
  then have "ck_begin c + of_nat n = ck_end c - 1" by (simp add: algebra_simps)
  then have "cf_mask ipc (ck_end c - 1) = ck_ix ipc c n" by (simp add: ck_ix_def)
  then show ?thesis using r n assms(2) by (simp add: last_conv_nth)
qed

lemma ck_rep_map:
  assumes "ck_rep ipc c ys"
  shows "ck_rep ipc (c\<lparr>ck_items := (\<lambda>j. map_option f (ck_items c j))\<rparr>) (map f ys)"
  using assms by (simp add: ck_rep_def ck_len_def ck_ix_def)

section \<open>Lists of chunks\<close>

text \<open>
  \<open>cf_seg ipc h p ns q\<close>: following the \<open>next\<close> pointers from \<open>p\<close> one meets the chunks at the
  addresses in \<open>ns\<close>, with the contents paired with them, and then arrives at \<open>q\<close>.
\<close>

fun cf_seg :: "size_t \<Rightarrow> (size_t \<Rightarrow> 'a chunk option) \<Rightarrow> size_t \<Rightarrow> (size_t \<times> 'a list) list \<Rightarrow> size_t \<Rightarrow> bool" where
  "cf_seg ipc h p [] q \<longleftrightarrow> p = q"
| "cf_seg ipc h p ((a, ys) # ns) q \<longleftrightarrow>
     p = a \<and> a \<noteq> 0 \<and> (\<exists>c. h a = Some c \<and> ck_rep ipc c ys \<and> cf_seg ipc h (ck_next c) ns q)"

lemma cf_seg_append:
  "cf_seg ipc h p (ns @ ms) q \<longleftrightarrow> (\<exists>r. cf_seg ipc h p ns r \<and> cf_seg ipc h r ms q)"
proof (induction ns arbitrary: p)
  case (Cons n ns)
  then show ?case by (cases n) (simp, blast)
qed simp

lemma cf_seg_cong:
  "(\<And>a. a \<in> fst ` set ns \<Longrightarrow> h a = h' a) \<Longrightarrow> cf_seg ipc h p ns q \<longleftrightarrow> cf_seg ipc h' p ns q"
  by (induction ns arbitrary: p) auto

lemma cf_seg_upd [simp]:
  "a \<notin> fst ` set ns \<Longrightarrow> cf_seg ipc (h(a := v)) p ns q \<longleftrightarrow> cf_seg ipc h p ns q"
  by (rule cf_seg_cong) auto

lemma cf_seg_nonnull: "cf_seg ipc h p ns q \<Longrightarrow> 0 \<notin> fst ` set ns"
proof (induction ns arbitrary: p)
  case (Cons n ns)
  then show ?case by (cases n) (simp, blast)
qed simp

lemma cf_seg_start: "cf_seg ipc h p ns 0 \<Longrightarrow> p = 0 \<longleftrightarrow> ns = []"
  by (cases ns) auto

lemma cf_seg_start_hd: "cf_seg ipc h p ns q \<Longrightarrow> ns \<noteq> [] \<Longrightarrow> p = fst (hd ns)"
  by (cases ns) auto

lemma cf_seg_snoc:
  "cf_seg ipc h p (ns @ [(b, ys)]) q \<longleftrightarrow>
     cf_seg ipc h p ns b \<and> b \<noteq> 0 \<and> (\<exists>c. h b = Some c \<and> ck_rep ipc c ys \<and> ck_next c = q)"
  by (auto simp: cf_seg_append)

text \<open>Retargeting the last pointer of a segment.\<close>

lemma cf_seg_retarget:
  assumes "cf_seg ipc h p (ns @ [(b, ys)]) q" and "h b = Some c" and "b \<notin> fst ` set ns"
  shows "cf_seg ipc (h(b \<mapsto> c\<lparr>ck_next := r\<rparr>)) p (ns @ [(b, ys)]) r"
  using assms by (auto simp: cf_seg_snoc ck_rep_def ck_len_def ck_ix_def)

definition cf_rep :: "size_t \<Rightarrow> 'a chunked_fifo \<Rightarrow> (size_t \<times> 'a list) list \<Rightarrow> (size_t \<times> 'a list) list \<Rightarrow> bool" where
  "cf_rep ipc cf ns fs \<longleftrightarrow>
     ipc_ok ipc \<and> cf_seg ipc (cf_heap cf) (cf_front_chunk cf) ns 0 \<and>
     cf_seg ipc (cf_heap cf) (cf_free_chunks cf) fs 0 \<and> (\<forall>n \<in> set fs. snd n = []) \<and>
     distinct (map fst (ns @ fs)) \<and> dom (cf_heap cf) = fst ` set (ns @ fs) \<and>
     cf_back_chunk cf = (if ns = [] then 0 else fst (last ns)) \<and>
     cf_nchunks cf = of_nat (length ns) \<and> cf_nfree_chunks cf = of_nat (length fs) \<and>
     (\<forall>n \<in> set (tl (butlast ns)). length (snd n) = unat ipc)"

text \<open>
  The invariant: some chain of non-empty chunks represents the queue.  Its middle chunks are
  full, which is what \<open>size()\<close> relies on, and no chunk of the store is unreachable.
\<close>

definition cf_inv :: "size_t \<Rightarrow> 'a chunked_fifo \<Rightarrow> bool" where
  "cf_inv ipc cf \<longleftrightarrow> (\<exists>ns fs. cf_rep ipc cf ns fs \<and> (\<forall>n \<in> set ns. snd n \<noteq> []))"

definition ck_list :: "size_t \<Rightarrow> 'a chunk \<Rightarrow> 'a list" where
  "ck_list ipc c = map (\<lambda>k. the (ck_items c (ck_ix ipc c k))) [0..<ck_len c]"

fun cf_walk :: "size_t \<Rightarrow> (size_t \<Rightarrow> 'a chunk option) \<Rightarrow> nat \<Rightarrow> size_t \<Rightarrow> 'a list" where
  "cf_walk ipc h 0 p = []"
| "cf_walk ipc h (Suc n) p =
     (case h p of None \<Rightarrow> [] | Some c \<Rightarrow> ck_list ipc c @ cf_walk ipc h n (ck_next c))"

definition cf_list :: "size_t \<Rightarrow> 'a chunked_fifo \<Rightarrow> 'a list" where
  "cf_list ipc cf = cf_walk ipc (cf_heap cf) (unat (cf_nchunks cf)) (cf_front_chunk cf)"

lemma ck_rep_list: "ck_rep ipc c ys \<Longrightarrow> ck_list ipc c = ys"
  by (rule nth_equalityI) (auto simp: ck_rep_def ck_list_def)

lemma cf_walk_seg: "cf_seg ipc h p ns q \<Longrightarrow> cf_walk ipc h (length ns) p = concat (map snd ns)"
  by (induction ns arbitrary: p) (auto simp: ck_rep_list)

lemma distinct_addresses_bound:
  assumes "distinct (as :: size_t list)" and "0 \<notin> set as"
  shows "length as < 2 ^ 64"
proof -
  have "length as = card (set as)" using assms(1) by (simp add: distinct_card)
  also have "\<dots> < card (UNIV :: size_t set)"
    using assms(2) by (intro psubset_card_mono) auto
  also have "\<dots> = 2 ^ 64" by (simp add: card_word)
  finally show ?thesis .
qed

lemma cf_rep_bound:
  assumes "cf_rep ipc cf ns fs"
  shows "length ns < 2 ^ 64" and "length fs < 2 ^ 64"
proof -
  have seg: "cf_seg ipc (cf_heap cf) (cf_front_chunk cf) ns 0" "cf_seg ipc (cf_heap cf) (cf_free_chunks cf) fs 0"
    and dist: "distinct (map fst (ns @ fs))"
    using assms by (simp_all add: cf_rep_def)
  have "0 \<notin> set (map fst (ns @ fs))"
    using cf_seg_nonnull [OF seg(1)] cf_seg_nonnull [OF seg(2)] by (simp add: image_Un)
  with dist have "length (map fst (ns @ fs)) < 2 ^ 64"
    by (rule distinct_addresses_bound)
  then show "length ns < 2 ^ 64" and "length fs < 2 ^ 64" by auto
qed

lemma cf_rep_list:
  assumes "cf_rep ipc cf ns fs"
  shows "cf_list ipc cf = concat (map snd ns)"
proof -
  have "unat (cf_nchunks cf) = length ns"
    using assms cf_rep_bound(1) [OF assms] by (simp add: cf_rep_def unat_of_nat_small)
  then show ?thesis using assms cf_walk_seg by (auto simp: cf_list_def cf_rep_def)
qed

lemma cf_invE:
  assumes "cf_inv ipc cf"
  obtains ns fs where "cf_rep ipc cf ns fs" "\<forall>n \<in> set ns. snd n \<noteq> []" "cf_list ipc cf = concat (map snd ns)"
  using assms cf_rep_list unfolding cf_inv_def by blast

lemma cf_invI:
  "cf_rep ipc cf ns fs \<Longrightarrow> \<forall>n \<in> set ns. snd n \<noteq> [] \<Longrightarrow> cf_inv ipc cf \<and> cf_list ipc cf = concat (map snd ns)"
  using cf_rep_list unfolding cf_inv_def by blast

lemma cf_new_rep: "ipc_ok ipc \<Longrightarrow> cf_rep ipc cf_new [] []"
  by (simp add: cf_rep_def cf_new_def)

section \<open>Removing from the front\<close>

lemma cf_rep_front_cons:
  assumes "cf_rep ipc cf ((a, ys) # ns) fs"
  obtains c where "cf_front_chunk cf = a" "a \<noteq> 0" "cf_heap cf a = Some c" "ck_rep ipc c ys"
    "cf_seg ipc (cf_heap cf) (ck_next c) ns 0" "a \<notin> fst ` set ns" "a \<notin> fst ` set fs"
  using assms by (auto simp: cf_rep_def)

lemma cf_front_rep: "cf_rep ipc cf ((a, y # ys) # ns) fs \<Longrightarrow> cf_front ipc cf = Some y"
  by (erule cf_rep_front_cons) (simp add: cf_front_def cf_deref_def ck_rep_front)

lemma middle_full_tl:
  "(\<forall>n \<in> set (tl (butlast (m # ns))). P n) \<Longrightarrow> (\<forall>n \<in> set (tl (butlast ns)). P n)"
  by (cases ns) (auto dest: list.set_sel(2) [rotated] intro: list.set_sel(2))

text \<open>The parts of \<open>cf_rep\<close> by name, and the rule that puts them together.\<close>

lemma cf_repD:
  assumes "cf_rep ipc cf ns fs"
  shows "ipc_ok ipc" and "cf_seg ipc (cf_heap cf) (cf_front_chunk cf) ns 0"
    and "cf_seg ipc (cf_heap cf) (cf_free_chunks cf) fs 0" and "\<forall>n \<in> set fs. snd n = []"
    and "distinct (map fst (ns @ fs))" and "dom (cf_heap cf) = fst ` set (ns @ fs)"
    and "cf_back_chunk cf = (if ns = [] then 0 else fst (last ns))"
    and "cf_nchunks cf = of_nat (length ns)" and "cf_nfree_chunks cf = of_nat (length fs)"
    and "\<forall>n \<in> set (tl (butlast ns)). length (snd n) = unat ipc"
  using assms by (simp_all add: cf_rep_def)

lemma cf_repI:
  assumes "ipc_ok ipc" and "cf_seg ipc (cf_heap cf) (cf_front_chunk cf) ns 0"
    and "cf_seg ipc (cf_heap cf) (cf_free_chunks cf) fs 0" and "\<forall>n \<in> set fs. snd n = []"
    and "distinct (map fst (ns @ fs))" and "dom (cf_heap cf) = fst ` set (ns @ fs)"
    and "cf_back_chunk cf = (if ns = [] then 0 else fst (last ns))"
    and "cf_nchunks cf = of_nat (length ns)" and "cf_nfree_chunks cf = of_nat (length fs)"
    and "\<forall>n \<in> set (tl (butlast ns)). length (snd n) = unat ipc"
  shows "cf_rep ipc cf ns fs"
  using assms by (simp add: cf_rep_def)

lemma cf_nfree_less_1: "cf_rep ipc cf ns fs \<Longrightarrow> cf_nfree_chunks cf < 1 \<longleftrightarrow> fs = []"
  using cf_rep_bound(2) [of ipc cf ns fs] cf_repD(9) [of ipc cf ns fs]
  by (simp add: word_less_nat_alt unat_of_nat_small)

lemma cf_front_chunk_delete_rep:
  assumes rep: "cf_rep ipc cf ((a, []) # ns) fs"
  shows "\<exists>fs'. cf_rep ipc (cf_front_chunk_delete cf) ns fs'"
proof -
  obtain c where c: "cf_front_chunk cf = a" "a \<noteq> 0" "cf_heap cf a = Some c" "ck_rep ipc c []"
    "cf_seg ipc (cf_heap cf) (ck_next c) ns 0" "a \<notin> fst ` set ns" "a \<notin> fst ` set fs"
    using rep by (rule cf_rep_front_cons)
  note r = cf_repD [OF rep]
  have bk: "cf_back_chunk cf = (if ns = [] then a else fst (last ns))" "ns \<noteq> [] \<Longrightarrow> fst (last ns) \<noteq> a"
    using r(7) c(6) last_in_set [of ns] by (auto simp: image_iff)
  have mid: "\<forall>n \<in> set (tl (butlast ns)). length (snd n) = unat ipc"
    using r(10) by (rule middle_full_tl)
  have ckr: "ck_rep ipc (c\<lparr>ck_next := q\<rparr>) []" for q
    using c(4) by (simp add: ck_rep_def ck_len_def ck_ix_def)
  let ?d = "cf_front_chunk_delete cf"
  have front: "cf_front_chunk ?d = ck_next c" and n: "cf_nchunks ?d = of_nat (length ns)"
    and bk': "cf_back_chunk ?d = (if ns = [] then 0 else fst (last ns))"
    using c(1,3) bk r(8)
    by (auto simp: cf_front_chunk_delete_def Let_def cf_write_def cf_delete_def cf_deref_def)
  show ?thesis
  proof (cases "fs = []")
    case True
    then have few: "cf_nfree_chunks cf < 1" using cf_nfree_less_1 [OF rep] by simp
    have h: "cf_heap ?d = (cf_heap cf)(a \<mapsto> c\<lparr>ck_next := cf_free_chunks cf\<rparr>)"
      and f: "cf_free_chunks ?d = a" "cf_nfree_chunks ?d = 1"
      using few c(1,3) r(9) True
      by (simp_all add: cf_front_chunk_delete_def Let_def cf_write_def)
    have "cf_rep ipc ?d ns [(a, [])]"
    proof (rule cf_repI)
      show "cf_seg ipc (cf_heap ?d) (cf_free_chunks ?d) [(a, [])] 0"
        using c(2) ckr r(3) True by (simp add: h f)
      show "dom (cf_heap ?d) = fst ` set (ns @ [(a, [])])"
        using True by (simp add: h r(6) insert_absorb)
      show "distinct (map fst (ns @ [(a, [])]))" using r(5) by auto
      show "cf_seg ipc (cf_heap ?d) (cf_front_chunk ?d) ns 0" using c(5,6) by (simp add: h front)
    qed (use r(1) n bk' mid f in simp_all)
    then show ?thesis ..
  next
    case False
    then have few: "\<not> cf_nfree_chunks cf < 1" using cf_nfree_less_1 [OF rep] by simp
    have h: "cf_heap ?d = (cf_heap cf)(a := None)"
      and f: "cf_free_chunks ?d = cf_free_chunks cf" "cf_nfree_chunks ?d = cf_nfree_chunks cf"
      using few c(1) by (simp_all add: cf_front_chunk_delete_def Let_def cf_delete_def)
    have "cf_rep ipc ?d ns fs"
    proof (rule cf_repI)
      show "dom (cf_heap ?d) = fst ` set (ns @ fs)"
        using c(6,7) by (simp add: h r(6) image_Un)
      show "distinct (map fst (ns @ fs))" using r(5) by simp
      show "cf_seg ipc (cf_heap ?d) (cf_front_chunk ?d) ns 0" using c(5,6) by (simp add: h front)
      show "cf_seg ipc (cf_heap ?d) (cf_free_chunks ?d) fs 0" using r(3) c(7) by (simp add: h f)
    qed (use r(1,4,9) n bk' mid f in simp_all)
    then show ?thesis ..
  qed
qed

lemma cf_write_seg_front:
  assumes "cf_rep ipc cf ((a, ys) # ns) fs" and "cf_heap cf a = Some c"
    and "ck_rep ipc (f c) ys'" and "ck_next (f c) = ck_next c"
  shows "cf_rep ipc (cf_write a f cf) ((a, ys') # ns) fs"
proof -
  note r = cf_repD [OF assms(1)]
  have h: "cf_heap (cf_write a f cf) = (cf_heap cf)(a \<mapsto> f c)" using assms(2) by (simp add: cf_write_def)
  have same: "cf_front_chunk (cf_write a f cf) = cf_front_chunk cf" "cf_back_chunk (cf_write a f cf) = cf_back_chunk cf"
    "cf_free_chunks (cf_write a f cf) = cf_free_chunks cf" "cf_nchunks (cf_write a f cf) = cf_nchunks cf"
    "cf_nfree_chunks (cf_write a f cf) = cf_nfree_chunks cf"
    by (simp_all add: cf_write_def)
  have notin: "a \<notin> fst ` set ns" "a \<notin> fst ` set fs" using r(5) by auto
  show ?thesis
  proof (rule cf_repI)
    show "\<forall>n \<in> set (tl (butlast ((a, ys') # ns))). length (snd n) = unat ipc"
      using r(10) by (cases ns) auto
    show "cf_seg ipc (cf_heap (cf_write a f cf)) (cf_front_chunk (cf_write a f cf)) ((a, ys') # ns) 0"
      using r(2) assms notin by (simp add: h same)
    show "cf_seg ipc (cf_heap (cf_write a f cf)) (cf_free_chunks (cf_write a f cf)) fs 0"
      using r(3) notin by (simp add: h same)
    show "dom (cf_heap (cf_write a f cf)) = fst ` set (((a, ys') # ns) @ fs)"
      by (simp add: h r(6) insert_absorb)
  qed (use r in \<open>simp_all add: same\<close>)
qed

lemma cf_pop_front_rep:
  assumes rep: "cf_rep ipc cf ((a, y # ys) # ns) fs"
  shows "\<exists>fs'. cf_rep ipc (cf_pop_front ipc cf) (if ys = [] then ns else (a, ys) # ns) fs'"
proof -
  obtain c where c: "cf_front_chunk cf = a" "cf_heap cf a = Some c" "ck_rep ipc c (y # ys)"
    using rep by (rule cf_rep_front_cons)
  let ?f = "\<lambda>c. c\<lparr>ck_items := (ck_items c)(cf_mask ipc (ck_begin c) := None), ck_begin := ck_begin c + 1\<rparr>"
  let ?cf1 = "cf_write a ?f cf"
  have c': "ck_rep ipc (?f c) ys" using ck_rep_pop [OF cf_repD(1) [OF rep] c(3) refl] .
  have rep1: "cf_rep ipc ?cf1 ((a, ys) # ns) fs"
    by (rule cf_write_seg_front [OF rep c(2), where f = ?f, OF c']) simp
  have "ck_begin (cf_deref ?cf1 a) = ck_end (cf_deref ?cf1 a) \<longleftrightarrow> ys = []"
    using ck_rep_nil_iff [OF c'] c(2) by (simp add: cf_write_def cf_deref_def)
  then show ?thesis
    using rep1 cf_front_chunk_delete_rep [of ipc ?cf1 a ns fs] c(1)
    by (auto simp: cf_pop_front_def Let_def)
qed

section \<open>Appending at the back\<close>

text \<open>A well-formed list of chunks beside one unlinked, empty chunk at \<open>a\<close>.\<close>

definition cf_spare :: "size_t \<Rightarrow> 'a chunked_fifo \<Rightarrow> size_t \<Rightarrow> (size_t \<times> 'a list) list \<Rightarrow> (size_t \<times> 'a list) list \<Rightarrow> bool" where
  "cf_spare ipc cf a ns fs \<longleftrightarrow>
     ipc_ok ipc \<and> cf_back_chunk cf = a \<and> a \<noteq> 0 \<and>
     (\<exists>c. cf_heap cf a = Some c \<and> (\<forall>j. ck_items c j = None)) \<and>
     cf_seg ipc (cf_heap cf) (cf_front_chunk cf) ns 0 \<and>
     cf_seg ipc (cf_heap cf) (cf_free_chunks cf) fs 0 \<and> (\<forall>n \<in> set fs. snd n = []) \<and>
     distinct (a # map fst (ns @ fs)) \<and> dom (cf_heap cf) = insert a (fst ` set (ns @ fs)) \<and>
     cf_nchunks cf = of_nat (length ns) \<and> cf_nfree_chunks cf = of_nat (length fs)"

lemma cf_take_chunk_spare:
  assumes rep: "cf_rep ipc cf ns fs" and ret: "cf_take_chunk env cf = (None, cf1)"
  shows "\<exists>a fs'. cf_spare ipc cf1 a ns fs' \<and> length fs' = length fs - 1"
proof (cases "cf_free_chunks cf = 0")
  case True
  note r = cf_repD [OF rep]
  have fs: "fs = []" using cf_seg_start [OF r(3)] True by simp
  let ?a = "cf_new_addr env 0"
  have cf1: "?a \<noteq> 0" "cf_heap cf ?a = None"
    "cf1 = cf\<lparr>cf_heap := (cf_heap cf)(?a \<mapsto> ck_dead), cf_back_chunk := ?a\<rparr>"
    using ret True by (auto simp: cf_take_chunk_def cf_malloc_def Let_def split: if_splits)
  then have "?a \<notin> fst ` set ns" using r(6) fs by (metis append_Nil2 domIff)
  then have "cf_spare ipc cf1 ?a ns []"
    using cf1(1,2) r fs True by (simp add: cf_spare_def cf1(3) ck_dead_def)
  then show ?thesis using fs by (intro exI [of _ ?a] exI [of _ "[]"]) simp
next
  case False
  note r = cf_repD [OF rep]
  obtain a ys fs' where fs: "fs = (a, ys) # fs'" using cf_seg_start [OF r(3)] False by (cases fs) auto
  have ys: "ys = []" using r(4) fs by simp
  obtain c where c: "cf_free_chunks cf = a" "cf_heap cf a = Some c" "ck_rep ipc c []"
    "cf_seg ipc (cf_heap cf) (ck_next c) fs' 0"
    using r(3) fs ys by auto
  have cf1: "cf1 = cf\<lparr>cf_back_chunk := a, cf_free_chunks := ck_next c, cf_nfree_chunks := cf_nfree_chunks cf - 1\<rparr>"
    using ret False c(1,2) by (simp add: cf_take_chunk_def cf_deref_def)
  have "cf_spare ipc cf1 a ns fs'"
    unfolding cf_spare_def
  proof (intro conjI)
    show "\<exists>c. cf_heap cf1 a = Some c \<and> (\<forall>j. ck_items c j = None)"
      using c(2) ck_rep_empty_items [OF c(3)] by (simp add: cf1)
    show "distinct (a # map fst (ns @ fs'))" using r(5) fs by auto
    show "dom (cf_heap cf1) = insert a (fst ` set (ns @ fs'))" using r(6) fs by (simp add: cf1)
    show "cf_nfree_chunks cf1 = of_nat (length fs')" using r(9) fs by (simp add: cf1)
    show "a \<noteq> 0" using False c(1) by simp
  qed (use r c fs in \<open>simp_all add: cf1\<close>)
  then show ?thesis using fs by (intro exI [of _ a] exI [of _ fs']) simp
qed

lemma cf_take_chunk_frame:
  "cf_take_chunk env cf = (Some e, cf1) \<Longrightarrow> cf1 = cf \<and> e = Bad_alloc"
  by (auto simp: cf_take_chunk_def cf_malloc_def Let_def split: if_splits)

lemma cf_link_back_rep:
  assumes sp: "cf_spare ipc cf a ns fs" and full: "\<forall>n \<in> set (tl ns). length (snd n) = unat ipc"
    and old: "old = (if ns = [] then 0 else fst (last ns))"
  shows "cf_rep ipc (cf_link_back old cf) (ns @ [(a, [])]) fs"
proof -
  note s = sp [unfolded cf_spare_def]
  obtain c where c: "cf_heap cf a = Some c" "\<forall>j. ck_items c j = None" using s by blast
  let ?c0 = "c\<lparr>ck_next := 0, ck_begin := 0, ck_end := 0\<rparr>"
  let ?l = "cf_link_back old cf"
  have c0: "ck_rep ipc ?c0 []" using c(2) by (intro ck_rep_fresh) simp_all
  have nota: "a \<notin> fst ` set ns" "a \<notin> fst ` set fs" and dist: "distinct (map fst (ns @ [(a, [])] @ fs))"
    using s by auto
  have front0: "cf_front_chunk cf = 0 \<longleftrightarrow> ns = []" using s cf_seg_start by blast
  have same: "cf_free_chunks ?l = cf_free_chunks cf" "cf_nfree_chunks ?l = cf_nfree_chunks cf"
    "cf_back_chunk ?l = a" "cf_nchunks ?l = cf_nchunks cf + 1"
    "cf_front_chunk ?l = (if ns = [] then a else cf_front_chunk cf)"
    using s front0 by (simp_all add: cf_link_back_def Let_def cf_write_def)
  have seg_dom: "cf_seg ipc (cf_heap ?l) (cf_front_chunk ?l) (ns @ [(a, [])]) 0 \<and>
      cf_seg ipc (cf_heap ?l) (cf_free_chunks ?l) fs 0 \<and> dom (cf_heap ?l) = dom (cf_heap cf)"
  proof (cases ns rule: rev_cases)
    case Nil
    have h: "cf_heap ?l = (cf_heap cf)(a \<mapsto> ?c0)"
      using s c(1) Nil old by (simp add: cf_link_back_def Let_def cf_write_def)
    then show ?thesis using s c(1) c0 nota Nil same by (simp add: insert_absorb)
  next
    case (snoc ns' n)
    then obtain b ys where ns: "ns = ns' @ [(b, ys)]" by (cases n) auto
    have seg: "cf_seg ipc (cf_heap cf) (cf_front_chunk cf) (ns' @ [(b, ys)]) 0" using s ns by simp
    then obtain cb where cb: "cf_heap cf b = Some cb" "b \<noteq> 0" by (auto simp: cf_seg_snoc)
    have b: "b \<noteq> a" "b \<notin> fst ` set ns'" "b \<notin> fst ` set fs" using s ns by auto
    let ?h = "((cf_heap cf)(a \<mapsto> ?c0))(b \<mapsto> cb\<lparr>ck_next := a\<rparr>)"
    have h: "cf_heap ?l = ?h"
      using s c(1) ns old cb b by (simp add: cf_link_back_def Let_def cf_write_def)
    have "cf_seg ipc ((cf_heap cf)(a \<mapsto> ?c0)) (cf_front_chunk cf) (ns' @ [(b, ys)]) 0"
      using seg nota ns by simp
    then have "cf_seg ipc ?h (cf_front_chunk cf) (ns' @ [(b, ys)]) a"
      by (rule cf_seg_retarget) (use cb b in simp_all)
    moreover have "cf_seg ipc ?h a [(a, [])] 0" using b s c0 by simp
    ultimately have "cf_seg ipc ?h (cf_front_chunk cf) (ns @ [(a, [])]) 0"
      using ns cf_seg_append by blast
    moreover have "cf_seg ipc ?h (cf_free_chunks cf) fs 0" using s nota b by simp
    moreover have "dom ?h = dom (cf_heap cf)" using c(1) cb(1) by (auto simp: domIff)
    ultimately show ?thesis using h same ns by simp
  qed
  show ?thesis
  proof (rule cf_repI)
    show "distinct (map fst ((ns @ [(a, [])]) @ fs))" using dist by simp
    show "\<forall>n \<in> set (tl (butlast (ns @ [(a, [])]))). length (snd n) = unat ipc" using full by simp
    show "dom (cf_heap ?l) = fst ` set ((ns @ [(a, [])]) @ fs)" using s seg_dom by auto
  qed (use s seg_dom same in simp_all)
qed

lemma cf_rep_last:
  assumes "cf_rep ipc cf (ns @ [(b, ys)]) fs"
  obtains c where "cf_back_chunk cf = b" "b \<noteq> 0" "cf_heap cf b = Some c" "ck_rep ipc c ys" "ck_next c = 0"
    "b \<notin> fst ` set ns" "b \<notin> fst ` set fs" "cf_seg ipc (cf_heap cf) (cf_front_chunk cf) ns b"
proof -
  note r = cf_repD [OF assms]
  have n: "b \<notin> fst ` set ns" "b \<notin> fst ` set fs" using r(5) by auto
  show ?thesis using that r(2,7) n unfolding cf_seg_snoc by auto
qed

lemma ck_len_full_iff:
  assumes "ipc_ok ipc" and "ck_rep ipc c ys"
  shows "ucast (ck_end c - ck_begin c) = ipc \<longleftrightarrow> length ys = unat ipc"
proof -
  have "unat (ucast (ck_end c - ck_begin c) :: size_t) = length ys"
    using assms(2) by (simp add: unat_ucast_up ck_rep_def ck_len_def)
  then show ?thesis by (metis word_unat_eq_iff)
qed

text \<open>After \<open>ensure_room_back\<close> the last chunk has room; it may be a new, still empty one.\<close>

text \<open>The pushes that a list of chunks can take without allocating.\<close>

definition rep_room :: "size_t \<Rightarrow> (size_t \<times> 'a list) list \<Rightarrow> (size_t \<times> 'a list) list \<Rightarrow> nat" where
  "rep_room ipc ns fs = (if ns = [] then 0 else unat ipc - length (snd (last ns))) + length fs * unat ipc"

lemma rep_room_snoc [simp]:
  "rep_room ipc (ns @ [(b, ys)]) fs = unat ipc - length ys + length fs * unat ipc"
  by (simp add: rep_room_def)

lemma cf_ensure_room_back_rep:
  assumes rep: "cf_rep ipc cf ns fs" and ne: "\<forall>n \<in> set ns. snd n \<noteq> []"
    and ret: "cf_ensure_room_back ipc env cf = (None, cf1)"
  shows "\<exists>ns' b ys fs'. cf_rep ipc cf1 (ns' @ [(b, ys)]) fs' \<and> length ys < unat ipc \<and>
     (\<forall>n \<in> set ns'. snd n \<noteq> []) \<and> concat (map snd ns) = concat (map snd ns') @ ys \<and>
     (0 < rep_room ipc ns fs \<longrightarrow> rep_room ipc (ns' @ [(b, ys)]) fs' = rep_room ipc ns fs)"
proof -
  note r = cf_repD [OF rep]
  have ipc: "0 < unat ipc" using ipc_ok_bounds [OF r(1)] by simp
  have link: "?thesis" if new: "cf_back_chunk_new env cf = (None, cf1)"
    and full: "\<forall>n \<in> set (tl ns). length (snd n) = unat ipc"
    and none: "rep_room ipc ns fs = length fs * unat ipc"
  proof -
    obtain cf0 where take: "cf_take_chunk env cf = (None, cf0)" and cf1: "cf1 = cf_link_back (cf_back_chunk cf) cf0"
      using new by (auto simp: cf_back_chunk_new_def split: prod.splits option.splits)
    obtain a fs' where sp: "cf_spare ipc cf0 a ns fs'" and l: "length fs' = length fs - 1"
      using cf_take_chunk_spare [OF rep take] by blast
    from cf_link_back_rep [OF sp full r(7)] have "cf_rep ipc cf1 (ns @ [(a, [])]) fs'" by (simp add: cf1)
    moreover have "0 < rep_room ipc ns fs \<longrightarrow> rep_room ipc (ns @ [(a, [])]) fs' = rep_room ipc ns fs"
      using l none by (cases "length fs") simp_all
    ultimately show ?thesis using ne ipc
      by (intro exI [of _ ns] exI [of _ a] exI [of _ "[]"] exI [of _ fs']) simp
  qed
  show ?thesis
  proof (cases ns rule: rev_cases)
    case Nil
    then show ?thesis using link ret r(7) by (simp add: cf_ensure_room_back_def Let_def rep_room_def)
  next
    case (snoc ns' n)
    then obtain b ys where ns: "ns = ns' @ [(b, ys)]" by (cases n) auto
    obtain c where c: "cf_back_chunk cf = b" "b \<noteq> 0" "cf_heap cf b = Some c" "ck_rep ipc c ys"
      using rep unfolding ns by (rule cf_rep_last)
    note full_iff = ck_len_full_iff [OF r(1) c(4)]
    have ret': "(if length ys = unat ipc then cf_back_chunk_new env cf else (None, cf)) = (None, cf1)"
      using ret c full_iff by (simp add: cf_ensure_room_back_def Let_def cf_deref_def)
    show ?thesis
    proof (cases "length ys = unat ipc")
      case True
      then have "\<forall>n \<in> set (tl ns). length (snd n) = unat ipc"
        using r(10) ns by (cases ns') auto
      then show ?thesis using link ret' True ns by simp
    next
      case False
      then have "length ys < unat ipc" using c(4) by (simp add: ck_rep_def)
      then show ?thesis using rep ret' False ns ne
        by (intro exI [of _ ns'] exI [of _ b] exI [of _ ys] exI [of _ fs]) simp
    qed
  qed
qed

lemma cf_ensure_room_back_fail:
  "cf_ensure_room_back ipc env cf = (Some e, cf1) \<Longrightarrow> cf1 = cf"
  using cf_take_chunk_frame
  by (auto simp: cf_ensure_room_back_def cf_back_chunk_new_def Let_def split: prod.splits option.splits if_splits)

lemma cf_write_back_rep:
  assumes rep: "cf_rep ipc cf (ns @ [(b, ys)]) fs" and c: "cf_heap cf b = Some c"
    and c': "ck_rep ipc (f c) ys'" "ck_next (f c) = ck_next c"
  shows "cf_rep ipc (cf_write b f cf) (ns @ [(b, ys')]) fs"
proof -
  note r = cf_repD [OF rep]
  have h: "cf_heap (cf_write b f cf) = (cf_heap cf)(b \<mapsto> f c)" using c by (simp add: cf_write_def)
  have same: "cf_front_chunk (cf_write b f cf) = cf_front_chunk cf" "cf_back_chunk (cf_write b f cf) = cf_back_chunk cf"
    "cf_free_chunks (cf_write b f cf) = cf_free_chunks cf" "cf_nchunks (cf_write b f cf) = cf_nchunks cf"
    "cf_nfree_chunks (cf_write b f cf) = cf_nfree_chunks cf"
    by (simp_all add: cf_write_def)
  have notin: "b \<notin> fst ` set ns" "b \<notin> fst ` set fs" using r(5) by auto
  show ?thesis
  proof (rule cf_repI)
    show "\<forall>n \<in> set (tl (butlast (ns @ [(b, ys')]))). length (snd n) = unat ipc"
      using r(10) by simp
    show "cf_seg ipc (cf_heap (cf_write b f cf)) (cf_front_chunk (cf_write b f cf)) (ns @ [(b, ys')]) 0"
      using r(2) c c' notin by (auto simp: h same cf_seg_snoc)
    show "cf_seg ipc (cf_heap (cf_write b f cf)) (cf_free_chunks (cf_write b f cf)) fs 0"
      using r(3) notin by (simp add: h same)
    show "dom (cf_heap (cf_write b f cf)) = fst ` set ((ns @ [(b, ys')]) @ fs)"
      using r(6) by (simp add: h insert_absorb)
  qed (use r in \<open>simp_all add: same\<close>)
qed

text \<open>The search for the chunk before \<open>old\<close> ends at the last chunk of the segment that leads to it.\<close>

lemma cf_find_prev:
  assumes "cf_seg ipc (cf_heap cf) p ns old" and "ns \<noteq> []" and "old \<notin> fst ` set ns"
  shows "while_option (\<lambda>p. ck_next (cf_deref cf p) \<noteq> old) (\<lambda>p. ck_next (cf_deref cf p)) p = Some (fst (last ns))"
  using assms
proof (induction ns arbitrary: p)
  case (Cons n ns)
  obtain a ys where n: "n = (a, ys)" by (cases n)
  obtain c where c: "p = a" "cf_heap cf a = Some c" "cf_seg ipc (cf_heap cf) (ck_next c) ns old"
    using Cons.prems(1) n by auto
  show ?case
  proof (cases "ns = []")
    case True
    then show ?thesis using c n by (subst while_option_unfold) (simp add: cf_deref_def)
  next
    case False
    have "ck_next c \<noteq> old" using cf_seg_start_hd [OF c(3) False] Cons.prems(3) False by (cases ns) auto
    then show ?thesis
      using Cons.IH [OF c(3) False] Cons.prems(3) c False by (subst while_option_unfold) (simp add: cf_deref_def)
  qed
qed simp

lemma cf_undo_room_back_rep:
  assumes rep: "cf_rep ipc cf (ns @ [(b, ys)]) fs"
  shows "cf_rep ipc (cf_undo_room_back cf) (if ys = [] then ns else ns @ [(b, ys)]) fs"
proof -
  note r = cf_repD [OF rep]
  obtain c where c: "cf_back_chunk cf = b" "b \<noteq> 0" "cf_heap cf b = Some c" "ck_rep ipc c ys"
    "b \<notin> fst ` set ns" "b \<notin> fst ` set fs" "cf_seg ipc (cf_heap cf) (cf_front_chunk cf) ns b"
    using rep by (rule cf_rep_last)
  have nil: "ck_begin (cf_deref cf b) = ck_end (cf_deref cf b) \<longleftrightarrow> ys = []"
    using ck_rep_nil_iff [OF c(4)] c(3) by (simp add: cf_deref_def)
  show ?thesis
  proof (cases "ys = []")
    case False
    then show ?thesis using rep nil c(1) by (simp add: cf_undo_room_back_def Let_def)
  next
    case True
    let ?cf1 = "(cf_delete b cf)\<lparr>cf_nchunks := cf_nchunks cf - 1\<rparr>"
    have h1: "cf_heap ?cf1 = (cf_heap cf)(b := None)" by (simp add: cf_delete_def)
    have n1: "cf_nchunks ?cf1 = of_nat (length ns)" using r(8) by simp
    have "unat (of_nat (length ns) :: size_t) = length ns"
      by (rule unat_of_nat_small) (use cf_rep_bound(1) [OF rep] in simp)
    then have z: "cf_nchunks ?cf1 = 0 \<longleftrightarrow> ns = []"
      unfolding n1 by (metis length_0_conv unat_eq_zero)
    have segs: "cf_seg ipc (cf_heap ?cf1) (cf_front_chunk ?cf1) ns b" "cf_seg ipc (cf_heap ?cf1) (cf_free_chunks ?cf1) fs 0"
      using c r(3) by (simp_all add: cf_delete_def)
    have dom1: "dom (cf_heap ?cf1) = fst ` set (ns @ fs)"
      using r(6) c(5,6) by (simp add: cf_delete_def image_Un)
    show ?thesis
    proof (cases ns rule: rev_cases)
      case Nil
      have "cf_undo_room_back cf = ?cf1\<lparr>cf_back_chunk := 0, cf_front_chunk := 0\<rparr>"
        using nil True c(1) z Nil by (simp add: cf_undo_room_back_def Let_def)
      moreover have "cf_rep ipc (?cf1\<lparr>cf_back_chunk := 0, cf_front_chunk := 0\<rparr>) [] fs"
        by (rule cf_repI) (use r segs dom1 n1 Nil in \<open>simp_all add: cf_delete_def\<close>)
      ultimately show ?thesis using True Nil by simp
    next
      case (snoc ns' n)
      then obtain p zs where ns: "ns = ns' @ [(p, zs)]" by (cases n) auto
      have "while (\<lambda>p. ck_next (cf_deref ?cf1 p) \<noteq> b) (\<lambda>p. ck_next (cf_deref ?cf1 p)) (cf_front_chunk ?cf1) = p"
        using cf_find_prev [OF segs(1) _ c(5)] ns by (simp add: while_def)
      moreover have nz: "cf_nchunks ?cf1 \<noteq> 0" using z ns by simp
      ultimately have u: "cf_undo_room_back cf = cf_write p (\<lambda>c. c\<lparr>ck_next := 0\<rparr>) (?cf1\<lparr>cf_back_chunk := p\<rparr>)"
        using nil True c(1) by (simp add: cf_undo_room_back_def Let_def cf_delete_def cf_deref_def)
      obtain cp where cp: "cf_heap ?cf1 p = Some cp" using segs(1) by (auto simp: ns cf_seg_snoc)
      have notp: "p \<notin> fst ` set ns'" "p \<notin> fst ` set fs" using r(5) ns by auto
      have h: "cf_heap (cf_undo_room_back cf) = (cf_heap ?cf1)(p \<mapsto> cp\<lparr>ck_next := 0\<rparr>)"
        using cp by (simp add: u cf_write_def)
      have same: "cf_front_chunk (cf_undo_room_back cf) = cf_front_chunk ?cf1" "cf_back_chunk (cf_undo_room_back cf) = p"
        "cf_free_chunks (cf_undo_room_back cf) = cf_free_chunks ?cf1" "cf_nchunks (cf_undo_room_back cf) = of_nat (length ns)"
        "cf_nfree_chunks (cf_undo_room_back cf) = cf_nfree_chunks cf"
        using n1 by (simp_all add: u cf_write_def cf_delete_def)
      have "cf_rep ipc (cf_undo_room_back cf) ns fs"
      proof (rule cf_repI)
        show "cf_seg ipc (cf_heap (cf_undo_room_back cf)) (cf_front_chunk (cf_undo_room_back cf)) ns 0"
          unfolding h same ns by (rule cf_seg_retarget) (use segs cp notp ns in simp_all)
        show "cf_seg ipc (cf_heap (cf_undo_room_back cf)) (cf_free_chunks (cf_undo_room_back cf)) fs 0"
          unfolding h same using segs(2) notp by simp
        have "p \<in> dom (cf_heap ?cf1)" using cp by blast
        then show "dom (cf_heap (cf_undo_room_back cf)) = fst ` set (ns @ fs)"
          unfolding h using dom1 by (simp add: insert_absorb)
        show "\<forall>n \<in> set (tl (butlast ns)). length (snd n) = unat ipc"
          using r(10) ns by (cases ns') (auto simp: butlast_append)
        show "distinct (map fst (ns @ fs))" using r(5) by auto
      qed (use r same ns in simp_all)
      then show ?thesis using True by simp
    qed
  qed
qed

lemma cf_emplace_back_rep:
  assumes rep: "cf_rep ipc cf ns fs" and ne: "\<forall>n \<in> set ns. snd n \<noteq> []"
    and ret: "cf_emplace_back ipc env x cf = (r, cf')"
  shows "\<exists>ns' fs'. cf_rep ipc cf' ns' fs' \<and> (\<forall>n \<in> set ns'. snd n \<noteq> []) \<and>
     concat (map snd ns') = (if r = None then concat (map snd ns) @ [x] else concat (map snd ns)) \<and>
     (r = None \<and> 0 < rep_room ipc ns fs \<longrightarrow> Suc (rep_room ipc ns' fs') = rep_room ipc ns fs)"
proof (cases "cf_ensure_room_back ipc env cf")
  case (Pair r1 cf1)
  show ?thesis
  proof (cases r1)
    case (Some e)
    then have "cf' = cf" "r = Some e" using ret Pair cf_ensure_room_back_fail by (auto simp: cf_emplace_back_def)
    then show ?thesis using rep ne by auto
  next
    case None
    then obtain ns1 b ys fs1 where 1: "cf_rep ipc cf1 (ns1 @ [(b, ys)]) fs1" "length ys < unat ipc"
      "\<forall>n \<in> set ns1. snd n \<noteq> []" "concat (map snd ns) = concat (map snd ns1) @ ys"
      "0 < rep_room ipc ns fs \<longrightarrow> rep_room ipc (ns1 @ [(b, ys)]) fs1 = rep_room ipc ns fs"
      using cf_ensure_room_back_rep [OF rep ne] Pair by blast
    obtain c where c: "cf_back_chunk cf1 = b" "cf_heap cf1 b = Some c" "ck_rep ipc c ys"
      using 1(1) by (rule cf_rep_last)
    show ?thesis
    proof (cases "cf_ctor_ok env x")
      case True
      let ?f = "\<lambda>c. c\<lparr>ck_items := (ck_items c)(cf_mask ipc (ck_end c) \<mapsto> x), ck_end := ck_end c + 1\<rparr>"
      have cf': "cf' = cf_write b ?f cf1" "r = None"
        using ret Pair None True c(1) by (simp_all add: cf_emplace_back_def)
      have "ck_rep ipc (?f c) (ys @ [x])" using ck_rep_push [OF cf_repD(1) [OF rep] c(3) 1(2) refl] .
      then have "cf_rep ipc cf' (ns1 @ [(b, ys @ [x])]) fs1"
        unfolding cf' by (rule cf_write_back_rep [OF 1(1) c(2), where f = ?f]) simp
      then show ?thesis using 1 cf'(2) by (intro exI [of _ "ns1 @ [(b, ys @ [x])]"] exI [of _ fs1]) auto
    next
      case False
      have cf': "cf' = cf_undo_room_back cf1" "r = Some Ctor_throw"
        using ret Pair None False by (simp_all add: cf_emplace_back_def)
      have "cf_rep ipc cf' (if ys = [] then ns1 else ns1 @ [(b, ys)]) fs1"
        unfolding cf' by (rule cf_undo_room_back_rep [OF 1(1)])
      then show ?thesis using 1 cf'(2)
        by (intro exI [of _ "if ys = [] then ns1 else ns1 @ [(b, ys)]"] exI [of _ fs1]) auto
    qed
  qed
qed

section \<open>Size, reserved room and in-place updates\<close>

lemma ck_rep_len_word: "ck_rep ipc c ys \<Longrightarrow> ck_end c - ck_begin c = of_nat (length ys)"
  by (metis ck_len_def ck_rep_def of_nat_unat_id)

lemma ucast_of_nat_small:
  assumes "n < 2 ^ 32"
  shows "(ucast (of_nat n :: u32) :: size_t) = of_nat n"
proof (rule word_unat_eq_iff [THEN iffD2])
  have "unat (ucast (of_nat n :: u32) :: size_t) = unat (of_nat n :: u32)" by (rule unat_ucast_up) simp
  also have "\<dots> = n" using assms by (intro unat_of_nat_small) simp
  also have "\<dots> = unat (of_nat n :: size_t)" using assms by (intro unat_of_nat_small [symmetric]) simp
  finally show "unat (ucast (of_nat n :: u32) :: size_t) = unat (of_nat n :: size_t)" .
qed

lemma cf_size_rep:
  assumes rep: "cf_rep ipc cf ns fs"
  shows "cf_size ipc cf = of_nat (length (concat (map snd ns)))"
proof (cases ns)
  case Nil
  then show ?thesis using cf_seg_start [OF cf_repD(2) [OF rep]] by (simp add: cf_size_def Let_def)
next
  case (Cons n ms)
  note r = cf_repD [OF rep]
  obtain a ys where n: "n = (a, ys)" by (cases n)
  obtain c where c: "cf_front_chunk cf = a" "a \<noteq> 0" "cf_heap cf a = Some c" "ck_rep ipc c ys"
    using rep unfolding Cons n by (rule cf_rep_front_cons)
  have ipc: "unat ipc \<le> 2 ^ 30" using ipc_ok_bounds [OF r(1)] by simp
  have ys: "length ys \<le> 2 ^ 30" using c(4) ipc by (simp add: ck_rep_def)
  show ?thesis
  proof (cases ms rule: rev_cases)
    case Nil
    have "cf_back_chunk cf = a" using r(7) Cons n Nil by simp
    then show ?thesis
      using c ys Cons n Nil ck_rep_len_word [OF c(4)]
      by (simp add: cf_size_def Let_def cf_deref_def ucast_of_nat_small)
  next
    case (snoc ms' m)
    then obtain b zs where ms: "ms = ms' @ [(b, zs)]" by (cases m) auto
    have ns: "ns = ((a, ys) # ms') @ [(b, zs)]" using Cons n ms by simp
    obtain d where d: "cf_back_chunk cf = b" "cf_heap cf b = Some d" "ck_rep ipc d zs" "b \<notin> fst ` set ((a, ys) # ms')"
      using rep unfolding ns by (rule cf_rep_last)
    have zs: "length zs \<le> 2 ^ 30" using d(3) ipc by (simp add: ck_rep_def)
    have "\<forall>n \<in> set ms'. length (snd n) = unat ipc" using r(10) unfolding ns by (simp add: butlast_append)
    then have mid: "length (concat (map snd ms')) = length ms' * unat ipc"
      by (induction ms') auto
    have "ck_end c - ck_begin c + ck_end d - ck_begin d = of_nat (length ys + length zs)"
      using ck_rep_len_word [OF c(4)] ck_rep_len_word [OF d(3)] by (simp add: algebra_simps)
    then have w: "(ucast (ck_end c - ck_begin c + ck_end d - ck_begin d) :: size_t) = of_nat (length ys + length zs)"
      using ucast_of_nat_small [of "length ys + length zs"] ys zs by simp
    have "cf_nchunks cf - 2 = of_nat (length ms')" using r(8) ns by simp
    then have "cf_size ipc cf = of_nat (length ys + length zs) + of_nat (length ms') * ipc"
      using c d w by (simp add: cf_size_def Let_def cf_deref_def image_iff)
    also have "\<dots> = of_nat (length ys + length zs + length ms' * unat ipc)" by simp
    also have "length ys + length zs + length ms' * unat ipc = length (concat (map snd ns))"
      unfolding ns using mid by simp
    finally show ?thesis .
  qed
qed

text \<open>With room, a push does not allocate: it succeeds whatever the allocator does.\<close>

lemma cf_take_chunk_free:
  "cf_rep ipc cf ns fs \<Longrightarrow> fs \<noteq> [] \<Longrightarrow> \<exists>cf1. cf_take_chunk env cf = (None, cf1)"
  using cf_seg_start [OF cf_repD(3), of ipc cf ns fs] by (simp add: cf_take_chunk_def)

lemma cf_push_with_room:
  assumes rep: "cf_rep ipc cf ns fs" and ne: "\<forall>n \<in> set ns. snd n \<noteq> []"
    and room: "0 < rep_room ipc ns fs" and ctor: "cf_ctor_ok env x"
  shows "\<exists>cf'. cf_emplace_back ipc env x cf = (None, cf')"
proof -
  note r = cf_repD [OF rep]
  have "\<exists>cf1. cf_ensure_room_back ipc env cf = (None, cf1)"
  proof (cases "fs = []")
    case False
    then obtain cf0 where "cf_take_chunk env cf = (None, cf0)" using cf_take_chunk_free [OF rep] by blast
    then show ?thesis by (simp add: cf_ensure_room_back_def cf_back_chunk_new_def Let_def)
  next
    case True
    then have 1: "ns \<noteq> []" "length (snd (last ns)) < unat ipc"
      using room by (auto simp: rep_room_def split: if_splits)
    then obtain ns' b ys where ns: "ns = ns' @ [(b, ys)]" by (metis append_butlast_last_id prod.collapse)
    obtain c where c: "cf_back_chunk cf = b" "b \<noteq> 0" "cf_heap cf b = Some c" "ck_rep ipc c ys"
      using rep unfolding ns by (rule cf_rep_last)
    show ?thesis
      using c 1 ns ck_len_full_iff [OF r(1) c(4)]
      by (simp add: cf_ensure_room_back_def Let_def cf_deref_def)
  qed
  then show ?thesis using ctor by (auto simp: cf_emplace_back_def)
qed

lemma cf_modify_seg:
  "cf_seg ipc h p ns q \<Longrightarrow>
   cf_seg ipc (\<lambda>p. map_option (\<lambda>c. c\<lparr>ck_items := (\<lambda>j. map_option f (ck_items c j))\<rparr>) (h p)) p
     (map (\<lambda>(a, ys). (a, map f ys)) ns) q"
proof (induction ns arbitrary: p)
  case (Cons n ns)
  then show ?case by (cases n) (auto simp: ck_rep_map)
qed simp

lemma cf_modify_rep:
  assumes rep: "cf_rep ipc cf ns fs"
  shows "cf_rep ipc (cf_modify f cf) (map (\<lambda>(a, ys). (a, map f ys)) ns) fs"
proof -
  note r = cf_repD [OF rep]
  let ?g = "\<lambda>(a, ys). (a, map f ys)"
  have fst_g: "fst (?g n) = fst n" and snd_g: "snd (?g n) = map f (snd n)" for n :: "size_t \<times> 'a list"
    by (cases n, simp)+
  have fs: "map ?g fs = fs" using r(4) by (intro map_idI) auto
  have mf: "map fst (map ?g ns) = map fst ns" by (simp add: fst_g)
  show ?thesis
  proof (rule cf_repI)
    show "cf_seg ipc (cf_heap (cf_modify f cf)) (cf_front_chunk (cf_modify f cf)) (map ?g ns) 0"
      using cf_modify_seg [OF r(2)] by (simp add: cf_modify_def)
    show "cf_seg ipc (cf_heap (cf_modify f cf)) (cf_free_chunks (cf_modify f cf)) fs 0"
      using cf_modify_seg [OF r(3), of f] by (simp add: cf_modify_def fs)
    show "distinct (map fst (map ?g ns @ fs))" using r(5) by (simp only: map_append mf)
    have "dom (cf_heap (cf_modify f cf)) = dom (cf_heap cf)" by (simp add: cf_modify_def dom_def)
    also have "\<dots> = set (map fst (ns @ fs))" using r(6) by (simp only: set_map)
    also have "\<dots> = set (map fst (map ?g ns @ fs))" by (simp only: map_append mf)
    also have "\<dots> = fst ` set (map ?g ns @ fs)" by (simp only: set_map)
    finally show "dom (cf_heap (cf_modify f cf)) = fst ` set (map ?g ns @ fs)" .
    show "cf_back_chunk (cf_modify f cf) = (if map ?g ns = [] then 0 else fst (last (map ?g ns)))"
      using r(7) by (simp add: cf_modify_def last_map fst_g)
    have "tl (butlast (map ?g ns)) = map ?g (tl (butlast ns))" by (simp add: map_butlast map_tl)
    then show "\<forall>n \<in> set (tl (butlast (map ?g ns))). length (snd n) = unat ipc"
      using r(10) by (simp add: snd_g)
  qed (use r in \<open>simp_all add: cf_modify_def\<close>)
qed

lemma cf_modify_inv:
  assumes "cf_inv ipc cf"
  shows "cf_inv ipc (cf_modify f cf) \<and> cf_list ipc (cf_modify f cf) = map f (cf_list ipc cf)"
proof -
  obtain ns fs where ns: "cf_rep ipc cf ns fs" "\<forall>n \<in> set ns. snd n \<noteq> []" "cf_list ipc cf = concat (map snd ns)"
    using assms by (rule cf_invE)
  note rep' = cf_modify_rep [OF ns(1), of f]
  have ne': "\<forall>n \<in> set (map (\<lambda>(a, ys). (a, map f ys)) ns). snd n \<noteq> []" using ns(2) by auto
  have "concat (map snd (map (\<lambda>(a, ys). (a, map f ys)) ns)) = map f (concat (map snd ns))"
    by (induction ns) (auto split: prod.splits)
  then show ?thesis using ns(3) cf_invI [OF rep' ne'] by simp
qed

section \<open>The queue behind the fifo interface\<close>

lemma cf_new_inv [simp]: "ipc_ok ipc \<Longrightarrow> cf_inv ipc cf_new"
  and cf_new_list [simp]: "cf_list ipc cf_new = []"
  using cf_invI [OF cf_new_rep] by (auto simp: cf_list_def cf_new_def)

lemma cf_inv_cons:
  assumes "cf_inv ipc cf" and "cf_list ipc cf \<noteq> []"
  obtains a y ys ns fs where "cf_rep ipc cf ((a, y # ys) # ns) fs" "\<forall>n \<in> set ns. snd n \<noteq> []"
    "cf_list ipc cf = y # ys @ concat (map snd ns)"
proof -
  obtain ms fs where m: "cf_rep ipc cf ms fs" "\<forall>n \<in> set ms. snd n \<noteq> []" "cf_list ipc cf = concat (map snd ms)"
    using assms(1) by (rule cf_invE)
  obtain n ns where ms: "ms = n # ns" using m(3) assms(2) by (cases ms) auto
  obtain a zs where n: "n = (a, zs)" by (cases n)
  obtain y ys where zs: "zs = y # ys" using m(2) ms n by (cases zs) auto
  show ?thesis using that m ms n zs by auto
qed

lemma cf_empty_iff: "cf_inv ipc cf \<Longrightarrow> cf_empty cf \<longleftrightarrow> cf_list ipc cf = []"
proof -
  assume "cf_inv ipc cf"
  then obtain ns fs where ns: "cf_rep ipc cf ns fs" "\<forall>n \<in> set ns. snd n \<noteq> []" "cf_list ipc cf = concat (map snd ns)"
    by (rule cf_invE)
  have "cf_empty cf \<longleftrightarrow> ns = []" unfolding cf_empty_def by (rule cf_seg_start [OF cf_repD(2) [OF ns(1)]])
  then show ?thesis using ns(2,3) by (cases ns) auto
qed

lemma cf_emplace_back_inv:
  assumes "cf_inv ipc cf" and "cf_emplace_back ipc env x cf = (r, cf')"
  shows "cf_inv ipc cf' \<and> cf_list ipc cf' = (if r = None then cf_list ipc cf @ [x] else cf_list ipc cf)"
proof -
  obtain ns fs where ns: "cf_rep ipc cf ns fs" "\<forall>n \<in> set ns. snd n \<noteq> []" "cf_list ipc cf = concat (map snd ns)"
    using assms(1) by (rule cf_invE)
  obtain ns' fs' where "cf_rep ipc cf' ns' fs'" "\<forall>n \<in> set ns'. snd n \<noteq> []"
    "concat (map snd ns') = (if r = None then concat (map snd ns) @ [x] else concat (map snd ns))"
    using cf_emplace_back_rep [OF ns(1,2) assms(2)] by blast
  then show ?thesis using cf_invI ns(3) by metis
qed

lemma cf_pop_front_inv:
  assumes "cf_inv ipc cf" and "cf_list ipc cf \<noteq> []"
  shows "cf_inv ipc (cf_pop_front ipc cf) \<and> cf_list ipc (cf_pop_front ipc cf) = tl (cf_list ipc cf)"
proof -
  obtain a y ys ns fs where c: "cf_rep ipc cf ((a, y # ys) # ns) fs" "\<forall>n \<in> set ns. snd n \<noteq> []"
    "cf_list ipc cf = y # ys @ concat (map snd ns)"
    using assms by (rule cf_inv_cons)
  obtain fs' where rep': "cf_rep ipc (cf_pop_front ipc cf) (if ys = [] then ns else (a, ys) # ns) fs'"
    using cf_pop_front_rep [OF c(1)] by blast
  have "\<forall>n \<in> set (if ys = [] then ns else (a, ys) # ns). snd n \<noteq> []" using c(2) by simp
  from cf_invI [OF rep' this] show ?thesis using c(3) by simp
qed

interpretation cfq: fifo_push cf_empty "cf_front ipc" "cf_pop_front ipc" "cf_list ipc" "cf_inv ipc" "cf_emplace_back ipc"
proof unfold_locales
  fix q q' :: "'a chunked_fifo" and x e env
  assume inv: "cf_inv ipc q"
  show "cf_empty q \<longleftrightarrow> cf_list ipc q = []" by (rule cf_empty_iff [OF inv])
  show "cf_front ipc q = Some (hd (cf_list ipc q))" if ne: "cf_list ipc q \<noteq> []"
  proof -
    obtain a y ys ns fs where "cf_rep ipc q ((a, y # ys) # ns) fs" "cf_list ipc q = y # ys @ concat (map snd ns)"
      using inv ne by (rule cf_inv_cons)
    then show ?thesis using cf_front_rep by simp
  qed
  show "cf_list ipc q \<noteq> [] \<Longrightarrow> cf_inv ipc (cf_pop_front ipc q) \<and> cf_list ipc (cf_pop_front ipc q) = tl (cf_list ipc q)"
    by (rule cf_pop_front_inv [OF inv])
  show "cf_emplace_back ipc env x q = (None, q') \<Longrightarrow> cf_inv ipc q' \<and> cf_list ipc q' = cf_list ipc q @ [x]"
    using cf_emplace_back_inv [OF inv, of env x None q'] by simp
  show "cf_emplace_back ipc env x q = (Some e, q') \<Longrightarrow> cf_inv ipc q' \<and> cf_list ipc q' = cf_list ipc q"
    using cf_emplace_back_inv [OF inv, of env x "Some e" q'] by simp
qed

lemma cf_back_list:
  assumes "cf_inv ipc cf" and "cf_list ipc cf \<noteq> []"
  shows "cf_back ipc cf = Some (last (cf_list ipc cf))"
proof -
  obtain ns fs where ns: "cf_rep ipc cf ns fs" "\<forall>n \<in> set ns. snd n \<noteq> []" "cf_list ipc cf = concat (map snd ns)"
    using assms(1) by (rule cf_invE)
  obtain ns' b ys where n: "ns = ns' @ [(b, ys)]"
    using ns(3) assms(2) by (cases ns rule: rev_cases) auto
  have ys: "ys \<noteq> []" using ns(2) n by simp
  obtain c where "cf_back_chunk cf = b" "cf_heap cf b = Some c" "ck_rep ipc c ys"
    using ns(1) unfolding n by (rule cf_rep_last)
  then show ?thesis using ck_rep_back [OF _ ys] ns(3) n ys by (simp add: cf_back_def cf_deref_def)
qed

lemma consume_all: "consume_list (\<lambda>_ _. True) (\<lambda>_ _. ()) xs () = ([], ())"
  by (induction xs) auto

lemma cf_clear_inv:
  assumes "cf_inv ipc cf"
  shows "cf_inv ipc (cf_clear ipc cf) \<and> cf_list ipc (cf_clear ipc cf) = []"
  using cfq.pop_while_list [OF assms, of "\<lambda>_ _. True" "\<lambda>_ _. ()" "()"]
  by (simp add: cf_clear_def consume_all)

text \<open>\<open>shrink_to_fit\<close> frees every spare chunk, and destruction leaves no chunk at all.\<close>

lemma cf_delete_simps [simp]:
  "cf_heap (cf_delete a cf) = (cf_heap cf)(a := None)"
  "cf_front_chunk (cf_delete a cf) = cf_front_chunk cf"
  "cf_back_chunk (cf_delete a cf) = cf_back_chunk cf"
  "cf_nchunks (cf_delete a cf) = cf_nchunks cf"
  "cf_free_chunks (cf_delete a cf) = cf_free_chunks cf"
  by (simp_all add: cf_delete_def)

lemma cf_shrink_loop:
  assumes "cf_rep ipc (cf\<lparr>cf_nfree_chunks := of_nat (length fs)\<rparr>) ns fs"
  shows "\<exists>cf'. while_option (\<lambda>cf. cf_free_chunks cf \<noteq> 0)
        (\<lambda>cf. (cf_delete (cf_free_chunks cf) cf)\<lparr>cf_free_chunks := ck_next (cf_deref cf (cf_free_chunks cf))\<rparr>) cf = Some cf' \<and>
      cf_rep ipc (cf'\<lparr>cf_nfree_chunks := 0\<rparr>) ns []"
  using assms
proof (induction fs arbitrary: cf)
  case Nil
  then have "cf_free_chunks cf = 0" using cf_seg_start [OF cf_repD(3)] by fastforce
  then show ?case using Nil by (subst while_option_unfold) simp
next
  case (Cons f fs)
  note r = cf_repD [OF Cons.prems]
  obtain a where f: "f = (a, [])" using r(4) by (cases f) auto
  obtain c where c: "cf_free_chunks cf = a" "a \<noteq> 0" "cf_heap cf a = Some c" "cf_seg ipc (cf_heap cf) (ck_next c) fs 0"
    using r(3) f by auto
  have n: "a \<notin> fst ` set ns" "a \<notin> fst ` set fs" using r(5) f by auto
  let ?cf1 = "(cf_delete a cf)\<lparr>cf_free_chunks := ck_next c\<rparr>"
  let ?cf2 = "?cf1\<lparr>cf_nfree_chunks := of_nat (length fs)\<rparr>"
  have "cf_rep ipc ?cf2 ns fs"
  proof (rule cf_repI)
    have "dom (cf_heap cf) = insert a (fst ` set (ns @ fs))" using r(6) f by (simp add: insert_commute)
    then show "dom (cf_heap ?cf2) = fst ` set (ns @ fs)" using n by (simp add: image_Un)
    show "distinct (map fst (ns @ fs))" using r(5) by simp
    show "cf_seg ipc (cf_heap ?cf2) (cf_front_chunk ?cf2) ns 0" using r(2) n by simp
    show "cf_seg ipc (cf_heap ?cf2) (cf_free_chunks ?cf2) fs 0" using c n by simp
  qed (use r in simp_all)
  from Cons.IH [OF this] c show ?case
    by (subst while_option_unfold) (simp add: cf_deref_def)
qed

lemma cf_shrink_to_fit_rep:
  assumes rep: "cf_rep ipc cf ns fs"
  shows "cf_rep ipc (cf_shrink_to_fit cf) ns []"
proof -
  have "cf_rep ipc (cf\<lparr>cf_nfree_chunks := of_nat (length fs)\<rparr>) ns fs"
    using rep by (simp add: cf_rep_def)
  from cf_shrink_loop [OF this] show ?thesis
    by (auto simp: cf_shrink_to_fit_def while_def)
qed

lemma cf_shrink_to_fit_inv:
  assumes "cf_inv ipc cf"
  shows "cf_inv ipc (cf_shrink_to_fit cf) \<and> cf_list ipc (cf_shrink_to_fit cf) = cf_list ipc cf \<and>
    cf_nfree_chunks (cf_shrink_to_fit cf) = 0"
proof -
  obtain ns fs where r: "cf_rep ipc cf ns fs" "\<forall>n \<in> set ns. snd n \<noteq> []" "cf_list ipc cf = concat (map snd ns)"
    using assms by (rule cf_invE)
  note r' = cf_shrink_to_fit_rep [OF r(1)]
  show ?thesis using cf_invI [OF r' r(2)] r(3) cf_repD(9) [OF r'] by simp
qed

lemma cf_destroy_heap:
  assumes "cf_inv ipc cf"
  shows "cf_heap (cf_destroy ipc cf) = (\<lambda>_. None)"
proof -
  obtain ns fs where r: "cf_rep ipc (cf_clear ipc cf) ns fs" "\<forall>n \<in> set ns. snd n \<noteq> []"
    "cf_list ipc (cf_clear ipc cf) = concat (map snd ns)"
    by (rule cf_invE [OF conjunct1 [OF cf_clear_inv [OF assms]]])
  have "ns = []" using r(2,3) cf_clear_inv [OF assms] by (cases ns) auto
  then have "dom (cf_heap (cf_destroy ipc cf)) = {}"
    using cf_repD(6) [OF cf_shrink_to_fit_rep [OF r(1)]] by (simp add: cf_destroy_def)
  then show ?thesis by auto
qed

section \<open>Reserving\<close>

lemma cf_reserve_loop_rep:
  assumes "cf_rep ipc cf ns fs" and "cf_reserve_loop env i n cf = (r, cf')"
  shows "\<exists>fs'. cf_rep ipc cf' ns fs' \<and> (r = None \<longrightarrow> length fs' = length fs + n)"
  using assms
proof (induction n arbitrary: cf fs i)
  case 0
  then show ?case by auto
next
  case (Suc n)
  note r = cf_repD [OF Suc.prems(1)]
  let ?p = "cf_new_addr env i"
  show ?case
  proof (cases "?p = 0 \<or> cf_heap cf ?p \<noteq> None")
    case True
    then show ?thesis using Suc.prems by (auto simp: cf_malloc_def)
  next
    case False
    let ?c = "ck_dead\<lparr>ck_next := cf_free_chunks cf\<rparr>"
    let ?cf1 = "cf\<lparr>cf_heap := (cf_heap cf)(?p \<mapsto> ?c), cf_free_chunks := ?p, cf_nfree_chunks := cf_nfree_chunks cf + 1\<rparr>"
    have n: "?p \<notin> fst ` set ns" "?p \<notin> fst ` set fs"
      using False r(6) by (metis (no_types, lifting) UnCI domIff image_Un set_append)+
    have "ck_rep ipc ?c []" by (rule ck_rep_fresh) (simp_all add: ck_dead_def)
    then have "cf_rep ipc ?cf1 ns ((?p, []) # fs)"
    proof (intro cf_repI)
      show "dom (cf_heap ?cf1) = fst ` set (ns @ (?p, []) # fs)" using r(6) by simp
      show "distinct (map fst (ns @ (?p, []) # fs))" using r(5) n by simp
      show "cf_seg ipc (cf_heap ?cf1) (cf_front_chunk ?cf1) ns 0" using r(2) n by simp
    qed (use r n False in simp_all)
    moreover have "cf_reserve_loop env (Suc i) n ?cf1 = (r, cf')"
      using Suc.prems(2) False by (simp add: cf_malloc_def cf_write_def Let_def)
    ultimately obtain fs' where "cf_rep ipc cf' ns fs'" "r = None \<longrightarrow> length fs' = length ((?p, [] :: 'a list) # fs) + n"
      using Suc.IH by blast
    then show ?thesis by auto
  qed
qed

lemma ceil_div_covers:
  fixes n k :: nat
  assumes "0 < k"
  shows "n \<le> (n + k - 1) div k * k"
proof -
  have "n + k - 1 = (n + k - 1) div k * k + (n + k - 1) mod k" by simp
  moreover have "(n + k - 1) mod k < k" using assms by simp
  ultimately show ?thesis using assms by linarith
qed

text \<open>
  The number of chunks \<open>reserve\<close> computes is enough when \<open>n\<close> is not below the size.  In the second
  case the subtraction of the room of the last chunk wraps below zero, and the rounding wraps it
  back to no chunk at all.
\<close>

lemma cf_reserve_chunks_enough:
  assumes rep: "cf_rep ipc cf ns fs" and ne: "\<forall>n \<in> set ns. snd n \<noteq> []"
    and le: "length (concat (map snd ns)) \<le> unat n" and n: "unat n < 2 ^ 63"
  shows "unat n \<le> length (concat (map snd ns)) + rep_room ipc ns fs + unat (cf_reserve_chunks ipc n cf) * unat ipc"
proof -
  note r = cf_repD [OF rep]
  let ?s = "length (concat (map snd ns))"
  let ?room = "if ns = [] then 0 else unat ipc - length (snd (last ns))"
  let ?need = "n - cf_size ipc cf"
  have ipc: "0 < unat ipc" "unat ipc \<le> 2 ^ 30" using ipc_ok_bounds [OF r(1)] by auto
  have sz: "unat (cf_size ipc cf) = ?s"
    using le n by (simp add: cf_size_rep [OF rep] unat_of_nat_small)
  have need: "unat ?need = unat n - ?s"
    using le sz by (simp add: unat_diff_le word_le_nat_alt)
  have nf: "unat (cf_nfree_chunks cf) = length fs"
    using r(9) cf_rep_bound(2) [OF rep] by (simp add: unat_of_nat_small)
  show ?thesis
  proof (cases "unat n - ?s \<le> ?room")
    case True
    then show ?thesis by (simp add: rep_room_def)
  next
    case False
    let ?b = "cf_deref cf (cf_back_chunk cf)"
    let ?need' = "if cf_back_chunk cf \<noteq> 0 then ?need - (ipc - ucast (ck_end ?b - ck_begin ?b)) else ?need"
    have need': "unat ?need' = unat n - ?s - ?room"
    proof (cases ns rule: rev_cases)
      case Nil
      then show ?thesis using r(7) need by simp
    next
      case (snoc ns' m)
      then obtain b ys where ns: "ns = ns' @ [(b, ys)]" by (cases m) auto
      obtain c where c: "cf_back_chunk cf = b" "b \<noteq> 0" "cf_heap cf b = Some c" "ck_rep ipc c ys"
        using rep unfolding ns by (rule cf_rep_last)
      have len: "length ys \<le> unat ipc" using c(4) by (simp add: ck_rep_def)
      have "(ucast (ck_end c - ck_begin c) :: size_t) = of_nat (length ys)"
        using ck_rep_len_word [OF c(4)] len ipc ucast_of_nat_small [of "length ys"] by simp
      moreover have "unat (of_nat (length ys) :: size_t) = length ys"
        using len ipc by (intro unat_of_nat_small) simp
      ultimately have "unat (ipc - ucast (ck_end c - ck_begin c)) = unat ipc - length ys"
        using len by (simp add: unat_diff_le word_le_nat_alt)
      then have "unat (?need - (ipc - ucast (ck_end c - ck_begin c))) = unat n - ?s - (unat ipc - length ys)"
        using False need ns by (subst unat_diff_le) (simp_all add: word_le_nat_alt)
      then show ?thesis using c ns by (simp add: cf_deref_def)
    qed
    have sum: "unat (?need' + ipc - 1) = unat n - ?s - ?room + unat ipc - 1"
    proof -
      have small: "unat ?need' + unat ipc < 2 ^ 64" using need' n ipc by simp
      have "unat (?need' + ipc) = unat ?need' + unat ipc"
        by (rule unat_add_lem [THEN iffD1]) (use small in simp)
      moreover have "?need' + ipc \<noteq> 0"
        using calculation ipc by (metis add_is_0 less_numeral_extra(3) unat_0)
      ultimately show ?thesis using need' by (simp add: unat_minus_one)
    qed
    let ?chunks = "(?need' + ipc - 1) div ipc"
    have chunks: "unat ?chunks = (unat n - ?s - ?room + unat ipc - 1) div unat ipc"
      using sum by (simp add: unat_div)
    have cover: "unat n - ?s - ?room \<le> unat ?chunks * unat ipc"
      unfolding chunks by (rule ceil_div_covers [OF ipc(1)])
    have "unat (cf_reserve_chunks ipc n cf) = unat ?chunks - length fs"
      by (simp add: cf_reserve_chunks_def Let_def nf word_le_nat_alt unat_diff_le)
    then have "unat ?chunks \<le> unat (cf_reserve_chunks ipc n cf) + length fs" by simp
    then have "unat ?chunks * unat ipc \<le> unat (cf_reserve_chunks ipc n cf) * unat ipc + length fs * unat ipc"
      by (metis add_mult_distrib mult_le_mono1)
    then show ?thesis using cover unfolding rep_room_def by linarith
  qed
qed

lemma cf_reserve_rep:
  assumes rep: "cf_rep ipc cf ns fs" and ne: "\<forall>n \<in> set ns. snd n \<noteq> []"
    and le: "length (concat (map snd ns)) \<le> unat n" and n: "unat n < 2 ^ 63"
    and ret: "cf_reserve ipc env n cf = (None, cf')"
  shows "\<exists>fs'. cf_rep ipc cf' ns fs' \<and> unat n \<le> length (concat (map snd ns)) + rep_room ipc ns fs'"
proof -
  obtain fs' where "cf_rep ipc cf' ns fs'" "length fs' = length fs + unat (cf_reserve_chunks ipc n cf)"
    using cf_reserve_loop_rep [OF rep] ret unfolding cf_reserve_def by blast
  then show ?thesis using cf_reserve_chunks_enough [OF rep ne le n]
    by (intro exI [of _ fs']) (simp add: rep_room_def algebra_simps split: if_splits)
qed

lemma cf_pushes_with_room:
  assumes "cf_rep ipc cf ns fs" and "\<forall>n \<in> set ns. snd n \<noteq> []"
    and "length ops \<le> rep_room ipc ns fs" and "\<forall>(env, x) \<in> set ops. cf_ctor_ok env x"
  shows "\<exists>cf'. dq_run (fq_step (cf_emplace_back ipc) (cf_pop_front ipc)) (map (\<lambda>(env, x). Fq_push env x) ops) cf =
      (replicate (length ops) None, cf')"
  using assms
proof (induction ops arbitrary: cf ns fs)
  case (Cons op ops)
  obtain env x where op: "op = (env, x)" by fastforce
  have ctor: "cf_ctor_ok env x" and room: "0 < rep_room ipc ns fs" using Cons.prems(3,4) op by auto
  obtain cf1 where push: "cf_emplace_back ipc env x cf = (None, cf1)"
    using cf_push_with_room [OF Cons.prems(1,2) room ctor] by blast
  obtain ns1 fs1 where 1: "cf_rep ipc cf1 ns1 fs1" "\<forall>n \<in> set ns1. snd n \<noteq> []"
      "Suc (rep_room ipc ns1 fs1) = rep_room ipc ns fs"
    using cf_emplace_back_rep [OF Cons.prems(1,2) push] room by blast
  have "length ops \<le> rep_room ipc ns1 fs1" using 1(3) Cons.prems(3) by simp
  from Cons.IH [OF 1(1,2) this] Cons.prems(4) show ?case by (auto simp: op push)
qed simp

text \<open>
  Below the size the subtractions wrap: \<open>reserve(n)\<close> with \<open>n\<close> at least a chunk below the size asks
  for an absurd number of chunks.
\<close>

lemma cf_reserve_chunks_wrapped:
  assumes rep: "cf_rep ipc cf ns fs" and ne: "\<forall>n \<in> set ns. snd n \<noteq> []"
    and lt: "unat n + unat ipc \<le> length (concat (map snd ns))" and s: "length (concat (map snd ns)) < 2 ^ 62"
  shows "2 ^ 63 div unat ipc \<le> unat (cf_reserve_chunks ipc n cf) + unat (cf_nfree_chunks cf)"
proof -
  note r = cf_repD [OF rep]
  let ?s = "length (concat (map snd ns))"
  have ipc: "0 < unat ipc" "unat ipc \<le> 2 ^ 30" using ipc_ok_bounds [OF r(1)] by auto
  have "ns \<noteq> []" using lt ipc by auto
  then obtain ns' b ys where ns: "ns = ns' @ [(b, ys)]" by (metis append_butlast_last_id prod.collapse)
  obtain c where c: "cf_back_chunk cf = b" "b \<noteq> 0" "cf_heap cf b = Some c" "ck_rep ipc c ys"
    using rep unfolding ns by (rule cf_rep_last)
  have len: "length ys \<le> unat ipc" using c(4) by (simp add: ck_rep_def)
  let ?room = "unat ipc - length ys"
  let ?d = "?s - unat n"
  have uc: "(ucast (ck_end c - ck_begin c) :: size_t) = of_nat (length ys)"
    using ck_rep_len_word [OF c(4)] len ipc ucast_of_nat_small [of "length ys"] by simp
  have "unat (of_nat (length ys) :: size_t) = length ys"
    using len ipc by (intro unat_of_nat_small) simp
  then have room: "ipc - ucast (ck_end c - ck_begin c) = of_nat ?room"
    unfolding uc using len by (metis of_nat_diff of_nat_unat_id)
  let ?w = "n - cf_size ipc cf - of_nat ?room + ipc - 1"
  let ?k = "2 ^ 64 - ?d - ?room + unat ipc - 1"
  have d: "?d < 2 ^ 62" "unat ipc \<le> ?d" using lt s by linarith+
  then have k: "?k < 2 ^ 64" "2 ^ 63 \<le> ?k" using ipc len by simp_all
  have "(of_nat ?k :: size_t) = of_nat (2 ^ 64) - of_nat ?d - of_nat ?room + of_nat (unat ipc) - 1"
    using d ipc len by (simp add: of_nat_diff)
  also have "\<dots> = ?w"
    using lt by (simp add: cf_size_rep [OF rep] of_nat_diff)
  finally have "unat ?w = ?k" using unat_of_nat_small [of ?k, where 'a = 64] k by simp
  then have chunks: "2 ^ 63 div unat ipc \<le> unat (?w div ipc)"
    using k by (simp add: unat_div div_le_mono)
  have eq: "cf_reserve_chunks ipc n cf =
      (if ?w div ipc \<le> cf_nfree_chunks cf then 0 else ?w div ipc - cf_nfree_chunks cf)"
    by (simp only: cf_reserve_chunks_def Let_def cf_deref_def c(1-3) option.case room not_False_eq_True if_True)
  show ?thesis
  proof (cases "?w div ipc \<le> cf_nfree_chunks cf")
    case True
    then show ?thesis using chunks eq by (simp add: word_le_nat_alt)
  next
    case False
    then have "unat (?w div ipc - cf_nfree_chunks cf) = unat (?w div ipc) - unat (cf_nfree_chunks cf)"
      by (intro unat_diff_le) simp
    then show ?thesis using chunks eq False by simp
  qed
qed

section \<open>Properties\<close>

text \<open>
  C8. The chunked queue implements a queue.  Starting from an empty \<open>chunked_fifo\<close>, any sequence of
  \<open>push_back\<close>/\<open>emplace_back\<close> and \<open>pop_front\<close> calls in which nothing is removed from an empty queue
  leaves exactly the contents of the same sequence on lists, whatever allocations or constructors
  throw on the way, and no chunk of the store is lost.
\<close>

theorem cf_run_refines_list:
  assumes "ipc_ok ipc" and "dq_run (fq_step (cf_emplace_back ipc) (cf_pop_front ipc)) ops cf_new = (rs, cf)"
    and "fq_list ops rs [] = Some ys"
  shows "cf_inv ipc cf \<and> cf_list ipc cf = ys"
  using cfq.fq_run_list [OF cf_new_inv [OF assms(1)] assms(2)] assms(3) by simp

text \<open>An environment in which constructors succeed and the i-th new chunk gets the address \<open>a + i\<close>.\<close>

definition cf_env_at :: "size_t \<Rightarrow> 'a cf_env" where
  "cf_env_at a = \<lparr>cf_new_addr = (\<lambda>i. a + of_nat i), cf_ctor_ok = (\<lambda>_. True)\<rparr>"

theorem cf_run_refines_list_witness:
  "\<exists>cf. dq_run (fq_step (cf_emplace_back 2) (cf_pop_front 2))
      [Fq_push (cf_env_at 16) (1::nat), Fq_push (cf_env_at 16) 2, Fq_push (cf_env_at 16) 3,
       Fq_push (cf_env_at 32) 4, Fq_pop] cf_new = ([None, None, Some Bad_alloc, None, None], cf) \<and>
     cf_inv 2 cf \<and> cf_list 2 cf = [2, 4]"
proof -
  let ?ops = "[Fq_push (cf_env_at 16) (1::nat), Fq_push (cf_env_at 16) 2, Fq_push (cf_env_at 16) 3,
       Fq_push (cf_env_at 32) 4, Fq_pop]"
  let ?run = "dq_run (fq_step (cf_emplace_back 2) (cf_pop_front 2)) ?ops cf_new"
  have "fst ?run = [None, None, Some Bad_alloc, None, None]" by code_simp
  then obtain cf where run: "?run = ([None, None, Some Bad_alloc, None, None], cf)" by (metis prod.collapse)
  have "ipc_ok 2" unfolding ipc_ok_def by (rule exI [of _ 1]) simp
  from cf_run_refines_list [OF this run, of "[2, 4]"] show ?thesis using run by auto
qed

text \<open>
  \<open>size()\<close>, computed from the chunk count and the ends of the first and last chunk only, is the
  number of elements (modulo the width of \<open>size_t\<close>), and \<open>front()\<close>, \<open>back()\<close> and \<open>empty()\<close> agree
  with the contents.
\<close>

theorem cf_observers_correct:
  assumes "cf_inv ipc cf"
  shows "cf_size ipc cf = of_nat (length (cf_list ipc cf)) \<and> (cf_empty cf \<longleftrightarrow> cf_list ipc cf = []) \<and>
     (cf_list ipc cf \<noteq> [] \<longrightarrow>
        cf_front ipc cf = Some (hd (cf_list ipc cf)) \<and> cf_back ipc cf = Some (last (cf_list ipc cf)))"
proof -
  obtain ns fs where ns: "cf_rep ipc cf ns fs" "cf_list ipc cf = concat (map snd ns)"
    using assms by (rule cf_invE)
  then show ?thesis
    using cf_size_rep [OF ns(1)] cf_empty_iff [OF assms] cfq.front_hd [OF assms] cf_back_list [OF assms] by simp
qed

theorem cf_observers_correct_witness:
  "cf_inv 2 (cf_new :: nat chunked_fifo) \<and> cf_size 2 (cf_new :: nat chunked_fifo) = 0"
proof -
  have "ipc_ok 2" unfolding ipc_ok_def by (rule exI [of _ 1]) simp
  then have "cf_inv 2 (cf_new :: nat chunked_fifo)" by simp
  from cf_observers_correct [OF this] this show ?thesis by simp
qed

text \<open>
  C32. What the comment of \<open>reserve(n)\<close> promises: when it has returned, \<open>n - size()\<close> further pushes
  succeed, even if the allocator fails on every request from then on.
\<close>

theorem cf_reserve_guarantee:
  assumes "cf_inv ipc cf" and "length (cf_list ipc cf) \<le> unat n" and "unat n < 2 ^ 63"
    and "cf_reserve ipc env n cf = (None, cf')"
    and "length ops \<le> unat n - length (cf_list ipc cf)" and "\<forall>(env, x) \<in> set ops. cf_ctor_ok env x"
  shows "cf_list ipc cf' = cf_list ipc cf \<and>
     (\<exists>cf''. dq_run (fq_step (cf_emplace_back ipc) (cf_pop_front ipc)) (map (\<lambda>(env, x). Fq_push env x) ops) cf' =
        (replicate (length ops) None, cf''))"
proof -
  obtain ns fs where r: "cf_rep ipc cf ns fs" "\<forall>n \<in> set ns. snd n \<noteq> []" "cf_list ipc cf = concat (map snd ns)"
    using assms(1) by (rule cf_invE)
  obtain fs' where r': "cf_rep ipc cf' ns fs'" "unat n \<le> length (concat (map snd ns)) + rep_room ipc ns fs'"
    using cf_reserve_rep [OF r(1,2) _ assms(3,4)] assms(2) r(3) by auto
  have "length ops \<le> rep_room ipc ns fs'" using r'(2) assms(5) r(3) by simp
  from cf_pushes_with_room [OF r'(1) r(2) this assms(6)] show ?thesis
    using cf_invI [OF r'(1) r(2)] r(3) by simp
qed

theorem cf_reserve_guarantee_witness:
  "\<exists>cf' cf''. cf_reserve 2 (cf_env_at 16) 3 (cf_new :: nat chunked_fifo) = (None, cf') \<and>
     dq_run (fq_step (cf_emplace_back 2) (cf_pop_front 2))
       [Fq_push ((cf_env_at 0)\<lparr>cf_new_addr := (\<lambda>_. 0)\<rparr>) 7, Fq_push ((cf_env_at 0)\<lparr>cf_new_addr := (\<lambda>_. 0)\<rparr>) 8,
        Fq_push ((cf_env_at 0)\<lparr>cf_new_addr := (\<lambda>_. 0)\<rparr>) 9] cf' = ([None, None, None], cf'')"
proof -
  have ok: "ipc_ok 2" unfolding ipc_ok_def by (rule exI [of _ 1]) simp
  let ?cf = "cf_new :: nat chunked_fifo"
  let ?env = "(cf_env_at 0)\<lparr>cf_new_addr := (\<lambda>_. 0)\<rparr> :: nat cf_env"
  have "fst (cf_reserve 2 (cf_env_at 16) 3 ?cf) = None" by code_simp
  then obtain cf' where res: "cf_reserve 2 (cf_env_at 16) 3 ?cf = (None, cf')" by (metis prod.collapse)
  have "\<forall>(env, x) \<in> set [(?env, 7), (?env, 8), (?env, 9)]. cf_ctor_ok env x" by (simp add: cf_env_at_def)
  from cf_reserve_guarantee [OF cf_new_inv [OF ok] _ _ res _ this]
  obtain cf'' where "dq_run (fq_step (cf_emplace_back 2) (cf_pop_front 2))
      (map (\<lambda>(env, x). Fq_push env x) [(?env, 7), (?env, 8), (?env, 9)]) cf' =
      (replicate (length [(?env, 7 :: nat), (?env, 8), (?env, 9)]) None, cf'')" by auto
  then show ?thesis using res by (intro exI [of _ cf'] exI [of _ cf'']) simp
qed

text \<open>
  C33. \<open>reserve(n)\<close> is not a no-op when the queue already holds \<open>n\<close> elements or more.  If it holds at
  least a chunk more than \<open>n\<close>, \<open>n - size()\<close> wraps, and the loop sets out to allocate about
  \<open>2 ^ 64 / items_per_chunk\<close> chunks, which ends in \<open>bad_alloc\<close>.
\<close>

theorem cf_reserve_below_size:
  assumes "cf_inv ipc cf" and "unat n + unat ipc \<le> length (cf_list ipc cf)" and "length (cf_list ipc cf) < 2 ^ 62"
  shows "2 ^ 63 div unat ipc \<le> unat (cf_reserve_chunks ipc n cf) + unat (cf_nfree_chunks cf)"
proof -
  obtain ns fs where r: "cf_rep ipc cf ns fs" "\<forall>n \<in> set ns. snd n \<noteq> []" "cf_list ipc cf = concat (map snd ns)"
    using assms(1) by (rule cf_invE)
  then show ?thesis using cf_reserve_chunks_wrapped [OF r(1,2)] assms(2,3) by simp
qed

theorem cf_reserve_below_size_witness:
  "\<exists>cf. cf_list 1 cf = [5 :: nat] \<and> 2 ^ 63 \<le> unat (cf_reserve_chunks 1 0 cf) + unat (cf_nfree_chunks cf)"
proof -
  let ?run = "dq_run (fq_step (cf_emplace_back 1) (cf_pop_front 1)) [Fq_push (cf_env_at 16) (5::nat)] cf_new"
  have "fst ?run = [None]" by code_simp
  then obtain cf where run: "?run = ([None], cf)" by (metis prod.collapse)
  have "ipc_ok 1" unfolding ipc_ok_def by (rule exI [of _ 0]) simp
  then have cf: "cf_inv 1 cf" "cf_list 1 cf = [5]"
    using cfq.fq_run_list [OF cf_new_inv run, of "[5]"] by auto
  then show ?thesis using cf_reserve_below_size [of 1 cf 0] by (intro exI [of _ cf]) simp
qed

text \<open>
  \<open>clear()\<close> empties the queue, \<open>shrink_to_fit()\<close> frees every spare chunk and leaves the contents,
  and the destructor frees every chunk of the store.
\<close>

theorem cf_release_correct:
  assumes "cf_inv ipc cf"
  shows "cf_inv ipc (cf_clear ipc cf) \<and> cf_list ipc (cf_clear ipc cf) = [] \<and>
     cf_inv ipc (cf_shrink_to_fit cf) \<and> cf_list ipc (cf_shrink_to_fit cf) = cf_list ipc cf \<and>
     cf_nfree_chunks (cf_shrink_to_fit cf) = 0 \<and> cf_heap (cf_destroy ipc cf) = (\<lambda>_. None)"
  using cf_clear_inv [OF assms] cf_shrink_to_fit_inv [OF assms] cf_destroy_heap [OF assms] by simp

theorem cf_release_correct_witness:
  "cf_heap (cf_destroy 2 (cf_new :: nat chunked_fifo)) = (\<lambda>_. None)"
proof -
  have "ipc_ok 2" unfolding ipc_ok_def by (rule exI [of _ 1]) simp
  from cf_release_correct [OF cf_new_inv [OF this, where 'a = nat]] show ?thesis by simp
qed

end
