(* ===== verification/FixedCapacity.thy ===== *)
theory FixedCapacity
  imports CircularBuffer
begin

text \<open>
  \<open>core/circular_buffer_fixed_capacity.hh\<close>: the double-ended queue in a fixed array.

  \<open>fc_storage\<close> is the array \<open>_storage[Capacity]\<close> (a slot is \<open>None\<close> while no object lives in it), so
  \<open>Capacity\<close> is its length.  The operations are related to the growing buffer of
  \<open>core/circular_buffer.hh\<close> by the map \<open>fc_cb\<close>, through which its lemmas are reused; what differs is
  proved here: the iterators compare signed distances, so \<open>erase\<close> never leaks, while the move
  constructor and the destructor forget to reduce the index modulo the capacity.
\<close>

section \<open>State and operations\<close>

record 'a fixed_buffer =
  fc_storage :: "'a option list"
  fc_begin :: size_t
  fc_end :: size_t

definition fc_new :: "nat \<Rightarrow> 'a fixed_buffer" where
  "fc_new n = \<lparr>fc_storage = replicate n None, fc_begin = 0, fc_end = 0\<rparr>"

definition fc_capacity :: "'a fixed_buffer \<Rightarrow> size_t" where
  "fc_capacity fc = of_nat (length (fc_storage fc))"

definition fc_mask :: "'a fixed_buffer \<Rightarrow> size_t \<Rightarrow> nat" where
  "fc_mask fc idx = unat (idx mod fc_capacity fc)"

definition fc_obj :: "'a fixed_buffer \<Rightarrow> size_t \<Rightarrow> 'a option" where
  "fc_obj fc idx = slot_get (fc_storage fc) (fc_mask fc idx)"

definition fc_empty :: "'a fixed_buffer \<Rightarrow> bool" where
  "fc_empty fc \<longleftrightarrow> fc_begin fc = fc_end fc"

definition fc_size :: "'a fixed_buffer \<Rightarrow> size_t" where
  "fc_size fc = fc_end fc - fc_begin fc"

text \<open>Iterators are indices; they are ordered by the sign of their distance.\<close>

definition fc_iter_less :: "size_t \<Rightarrow> size_t \<Rightarrow> bool" where
  "fc_iter_less i e \<longleftrightarrow> sint (i - e) < 0"

definition fc_deref :: "'a fixed_buffer \<Rightarrow> size_t \<Rightarrow> 'a option" where
  "fc_deref fc i = fc_obj fc i"

text \<open>
  The loops over \<open>for (i = _begin; i != _end; ++i)\<close> of the move constructor and the destructor use
  \<open>_storage[i]\<close> with the unreduced index: \<open>None\<close> is an access outside of the array.
\<close>

function fc_raw_indices :: "nat \<Rightarrow> size_t \<Rightarrow> size_t \<Rightarrow> nat list option" where
  "fc_raw_indices cap i e =
     (if i = e then Some []
      else if unat i < cap then map_option (\<lambda>is. unat i # is) (fc_raw_indices cap (i + 1) e)
      else None)"
  by pat_completeness auto
termination
proof (relation "measure (\<lambda>(cap, i, e). unat (e - i))")
  show "((cap, i + 1, e), cap, i, e) \<in> measure (\<lambda>(cap, i, e). unat (e - i))" if "i \<noteq> e" for cap and i e :: size_t
    using unat_Suc_diff [OF that] by simp
qed simp

declare fc_raw_indices.simps [simp del]

text \<open>The new object and what is left of the source: its moved-from objects are not destroyed.\<close>

definition fc_move_construct :: "'a fixed_buffer \<Rightarrow> ('a fixed_buffer \<times> 'a fixed_buffer) option" where
  "fc_move_construct x =
     (case fc_raw_indices (length (fc_storage x)) (fc_begin x) (fc_end x) of
        None \<Rightarrow> None
      | Some js \<Rightarrow>
          Some (\<lparr>fc_storage = fold (\<lambda>i st. st[i := slot_get (fc_storage x) i]) js
                    (replicate (length (fc_storage x)) None),
                 fc_begin = fc_begin x, fc_end = fc_end x\<rparr>,
                x\<lparr>fc_begin := 0, fc_end := 0\<rparr>))"

definition fc_destroy :: "'a fixed_buffer \<Rightarrow> 'a option list option" where
  "fc_destroy fc =
     (case fc_raw_indices (length (fc_storage fc)) (fc_begin fc) (fc_end fc) of
        None \<Rightarrow> None
      | Some js \<Rightarrow> Some (fold (\<lambda>i st. st[i := None]) js (fc_storage fc)))"

definition fc_move_assign :: "bool \<Rightarrow> 'a fixed_buffer \<Rightarrow> 'a fixed_buffer \<Rightarrow> ('a fixed_buffer \<times> 'a fixed_buffer) option" where
  "fc_move_assign same this x =
     (if same then Some (this, x)
      else Option.bind (fc_destroy this) (\<lambda>_. fc_move_construct x))"

text \<open>The argument \<open>ok\<close> tells for which values the copy constructor of \<open>T\<close> does not throw.\<close>

definition fc_push_front :: "('a \<Rightarrow> bool) \<Rightarrow> 'a \<Rightarrow> 'a fixed_buffer \<Rightarrow> exn option \<times> 'a fixed_buffer" where
  "fc_push_front ok x fc =
     (if ok x
      then (None, fc\<lparr>fc_storage := (fc_storage fc)[fc_mask fc (fc_begin fc - 1) := Some x],
                     fc_begin := fc_begin fc - 1\<rparr>)
      else (Some Ctor_throw, fc))"

definition fc_push_back :: "('a \<Rightarrow> bool) \<Rightarrow> 'a \<Rightarrow> 'a fixed_buffer \<Rightarrow> exn option \<times> 'a fixed_buffer" where
  "fc_push_back ok x fc =
     (if ok x
      then (None, fc\<lparr>fc_storage := (fc_storage fc)[fc_mask fc (fc_end fc) := Some x],
                     fc_end := fc_end fc + 1\<rparr>)
      else (Some Ctor_throw, fc))"

definition fc_front :: "'a fixed_buffer \<Rightarrow> 'a option" where
  "fc_front fc = fc_obj fc (fc_begin fc)"

definition fc_back :: "'a fixed_buffer \<Rightarrow> 'a option" where
  "fc_back fc = fc_obj fc (fc_end fc - 1)"

definition fc_pop_front :: "'a fixed_buffer \<Rightarrow> 'a fixed_buffer" where
  "fc_pop_front fc =
     fc\<lparr>fc_storage := (fc_storage fc)[fc_mask fc (fc_begin fc) := None], fc_begin := fc_begin fc + 1\<rparr>"

definition fc_pop_back :: "'a fixed_buffer \<Rightarrow> 'a fixed_buffer" where
  "fc_pop_back fc =
     fc\<lparr>fc_storage := (fc_storage fc)[fc_mask fc (fc_end fc - 1) := None], fc_end := fc_end fc - 1\<rparr>"

definition fc_at :: "'a fixed_buffer \<Rightarrow> size_t \<Rightarrow> 'a option" where
  "fc_at fc idx = fc_obj fc (fc_begin fc + idx)"

function fc_destroy_while :: "(size_t \<Rightarrow> nat) \<Rightarrow> size_t \<Rightarrow> size_t \<Rightarrow> 'a option list \<Rightarrow> 'a option list" where
  "fc_destroy_while sl i e st =
     (if fc_iter_less i e then fc_destroy_while sl (i + 1) e (st[sl i := None]) else st)"
  by pat_completeness auto
termination
proof (relation "measure (\<lambda>(sl, i, e, st). unat (e - i))")
  show "((sl, i + 1, e, st[sl i := None]), sl, i, e, st) \<in> measure (\<lambda>(sl, i, e, st). unat (e - i))"
    if "fc_iter_less i e" for sl and i e :: size_t and st :: "'a option list"
  proof -
    have "i \<noteq> e" using that by (auto simp: fc_iter_less_def)
    from unat_Suc_diff [OF this] show ?thesis by simp
  qed
qed simp

declare fc_destroy_while.simps [simp del]

definition fc_erase :: "size_t \<Rightarrow> size_t \<Rightarrow> 'a fixed_buffer \<Rightarrow> size_t \<times> 'a fixed_buffer" where
  "fc_erase first_it last_it fc =
     (let sl = fc_mask fc; b = fc_begin fc; e = fc_end fc in
      if first_it = last_it then (last_it, fc)
      else if sint (first_it - b) < sint (e - last_it) then
        let new_start = last_it - (first_it - b);
            st = cb_move_bwd sl (nat (sint (first_it - b))) first_it last_it (fc_storage fc)
        in (last_it, fc\<lparr>fc_storage := fc_destroy_while sl b new_start st, fc_begin := new_start\<rparr>)
      else
        let new_end = first_it + (e - last_it);
            st = cb_move_fwd sl (nat (sint (e - last_it))) last_it first_it (fc_storage fc)
        in (first_it, fc\<lparr>fc_storage := fc_destroy_while sl new_end e st, fc_end := new_end\<rparr>))"

definition fc_clear :: "'a fixed_buffer \<Rightarrow> 'a fixed_buffer" where
  "fc_clear fc =
     fc\<lparr>fc_storage := fold (\<lambda>i st. st[fc_mask fc i := None]) (cb_indices (fc_begin fc) (fc_end fc)) (fc_storage fc),
        fc_begin := 0, fc_end := 0\<rparr>"

section \<open>Relation to the growing buffer\<close>

definition fc_cb :: "'a fixed_buffer \<Rightarrow> 'a circular_buffer" where
  "fc_cb fc = \<lparr>cb_storage = fc_storage fc, cb_begin = fc_begin fc, cb_end = fc_end fc,
               cb_capacity = fc_capacity fc\<rparr>"

text \<open>The \<open>static_assert\<close> on the capacity (and an array that fits into the address space).\<close>

definition fc_cap_ok :: "'a fixed_buffer \<Rightarrow> bool" where
  "fc_cap_ok fc \<longleftrightarrow> (\<exists>n < 63. length (fc_storage fc) = 2 ^ n)"

definition fc_inv :: "'a fixed_buffer \<Rightarrow> bool" where
  "fc_inv fc \<longleftrightarrow> fc_cap_ok fc \<and> cb_inv (fc_cb fc) \<and> cb_tight (fc_cb fc)"

definition fc_list :: "'a fixed_buffer \<Rightarrow> 'a list" where
  "fc_list fc = cb_list (fc_cb fc)"

lemma fc_cb_simps [simp]:
  "cb_storage (fc_cb fc) = fc_storage fc" "cb_begin (fc_cb fc) = fc_begin fc"
  "cb_end (fc_cb fc) = fc_end fc" "cb_capacity (fc_cb fc) = fc_capacity fc"
  by (simp_all add: fc_cb_def)

lemma fc_cap_unat:
  assumes "fc_cap_ok fc"
  shows "unat (fc_capacity fc) = length (fc_storage fc)" and "fc_capacity fc \<noteq> 0"
    and "cb_cap_ok (fc_capacity fc)"
proof -
  obtain n where n: "n < 63" "length (fc_storage fc) = 2 ^ n" using assms by (auto simp: fc_cap_ok_def)
  then have cap: "fc_capacity fc = 2 ^ n" by (simp add: fc_capacity_def)
  show 1: "unat (fc_capacity fc) = length (fc_storage fc)" using n by (simp add: cap unat_exp_word)
  show "fc_capacity fc \<noteq> 0" using 1 n by auto
  show "cb_cap_ok (fc_capacity fc)" using n cap by (auto simp: cb_cap_ok_def)
qed

lemma fc_mask_slot:
  assumes "fc_cap_ok fc"
  shows "fc_mask fc = cb_slot (fc_cb fc)"
proof
  fix idx :: size_t
  obtain n where n: "n < 63" "length (fc_storage fc) = 2 ^ n" using assms by (auto simp: fc_cap_ok_def)
  have cap: "fc_capacity fc = 2 ^ n" using n by (simp add: fc_capacity_def)
  have "unat (idx AND (2 ^ n - 1)) = unat idx mod 2 ^ n" using n by (intro unat_and_pow2_mask) simp
  moreover have "unat (idx mod 2 ^ n) = unat idx mod 2 ^ n" using n by (simp add: unat_mod unat_exp_word)
  ultimately show "fc_mask fc idx = cb_slot (fc_cb fc) idx"
    by (simp add: fc_mask_def cb_slot_def cb_mask_def cap)
qed

lemma fc_inv_rep: "fc_inv fc \<Longrightarrow> cb_rep (fc_cb fc) (fc_list fc)"
  by (simp add: fc_inv_def fc_list_def cb_rep_iff)

lemma fc_inv_cap: "fc_inv fc \<Longrightarrow> fc_cap_ok fc" and fc_inv_tight: "fc_inv fc \<Longrightarrow> cb_tight (fc_cb fc)"
  by (simp_all add: fc_inv_def)

lemma fc_invI:
  assumes "fc_cap_ok fc" and "cb_rep (fc_cb fc) xs" and "cb_tight (fc_cb fc)"
  shows "fc_inv fc \<and> fc_list fc = xs"
  using assms by (simp add: fc_inv_def fc_list_def cb_rep_iff)

lemma fc_list_bound: "fc_inv fc \<Longrightarrow> length (fc_list fc) \<le> length (fc_storage fc)"
  using fc_inv_rep [of fc] fc_cap_unat(1) [OF fc_inv_cap, of fc] by (simp add: cb_rep_def)

lemma length_fc_new [simp]: "length (fc_storage (fc_new n)) = n"
  by (simp add: fc_new_def)

lemma fc_new_inv:
  assumes "n < 63"
  shows "fc_inv (fc_new (2 ^ n) :: 'a fixed_buffer) \<and> fc_list (fc_new (2 ^ n) :: 'a fixed_buffer) = []"
proof (rule fc_invI)
  let ?fc = "fc_new (2 ^ n) :: 'a fixed_buffer"
  show cap: "fc_cap_ok ?fc" using assms by (auto simp: fc_cap_ok_def fc_new_def)
  show "cb_rep (fc_cb ?fc) []"
    using fc_cap_unat [OF cap] by (simp add: cb_rep_def cb_len_def cb_size_def) (simp add: fc_new_def)
  show "cb_tight (fc_cb ?fc)" by (simp add: cb_tight_def) (simp add: fc_new_def)
qed

text \<open>While there is room, the pushes are those of the growing buffer.\<close>

lemma fc_no_expand:
  assumes "fc_inv fc" and "length (fc_list fc) < length (fc_storage fc)"
  shows "cb_maybe_expand env 1 (fc_cb fc) = (None, fc_cb fc)"
proof -
  note cap = fc_cap_unat [OF fc_inv_cap [OF assms(1)]]
  have "cb_len (fc_cb fc) = length (fc_list fc)" by (rule cb_rep_len [OF fc_inv_rep [OF assms(1)]])
  then have len: "unat (fc_end fc - fc_begin fc) = length (fc_list fc)" by (simp add: cb_len_def cb_size_def)
  have "length (fc_storage fc) \<le> 2 ^ 62" using cb_cap_bound [OF cap(3)] cap(1) by simp
  then have "unat (fc_end fc - fc_begin fc + 1) = Suc (length (fc_list fc))"
    using len assms(2) by (subst unat_plus_one) simp_all
  then have "\<not> fc_capacity fc < fc_end fc - fc_begin fc + 1"
    using assms(2) cap(1) by (simp add: word_less_nat_alt)
  then show ?thesis by (simp add: cb_maybe_expand_def)
qed

lemma fc_push_cb:
  assumes "fc_inv fc" and "length (fc_list fc) < length (fc_storage fc)"
  shows "cb_push_back env x (fc_cb fc) =
      (case fc_push_back (cb_ctor_ok env) x fc of (r, fc') \<Rightarrow> (r, fc_cb fc'))"
    and "cb_push_front env x (fc_cb fc) =
      (case fc_push_front (cb_ctor_ok env) x fc of (r, fc') \<Rightarrow> (r, fc_cb fc'))"
  using fc_no_expand [OF assms, of env] fc_mask_slot [OF fc_inv_cap [OF assms(1)]]
  by (simp_all add: cb_push_back_def cb_push_front_def fc_push_back_def fc_push_front_def fc_cb_def fc_capacity_def)

lemma fc_push_inv:
  assumes inv: "fc_inv fc" and room: "length (fc_list fc) < length (fc_storage fc)"
  shows "fc_push_back ok x fc = (r, fc') \<Longrightarrow>
      fc_inv fc' \<and> fc_list fc' = (if r = None then fc_list fc @ [x] else fc_list fc) \<and> (r = None \<longleftrightarrow> ok x)"
    and "fc_push_front ok x fc = (r, fc') \<Longrightarrow>
      fc_inv fc' \<and> fc_list fc' = (if r = None then x # fc_list fc else fc_list fc) \<and> (r = None \<longleftrightarrow> ok x)"
proof -
  let ?env = "\<lparr>cb_alloc_ok = (\<lambda>_. True), cb_nothrow_move = True, cb_ctor_ok = ok\<rparr>"
  note rep = fc_inv_rep [OF inv] and tight = fc_inv_tight [OF inv] and cap = fc_inv_cap [OF inv]
  show "fc_inv fc' \<and> fc_list fc' = (if r = None then fc_list fc @ [x] else fc_list fc) \<and> (r = None \<longleftrightarrow> ok x)"
    if push: "fc_push_back ok x fc = (r, fc')"
  proof (cases "ok x")
    case True
    have "cb_push_back ?env x (fc_cb fc) = (None, fc_cb fc')"
      using fc_push_cb(1) [OF inv room, of ?env x] push True by (simp add: fc_push_back_def)
    from cb_push_back_rep [OF rep this] tight have "cb_rep (fc_cb fc') (fc_list fc @ [x])" "cb_tight (fc_cb fc')" by auto
    moreover have "fc_cap_ok fc'" using cap push True by (auto simp: fc_cap_ok_def fc_push_back_def)
    ultimately show ?thesis using fc_invI push True by (auto simp: fc_push_back_def)
  next
    case False
    then show ?thesis using push inv by (auto simp: fc_push_back_def)
  qed
  show "fc_inv fc' \<and> fc_list fc' = (if r = None then x # fc_list fc else fc_list fc) \<and> (r = None \<longleftrightarrow> ok x)"
    if push: "fc_push_front ok x fc = (r, fc')"
  proof (cases "ok x")
    case True
    have "cb_push_front ?env x (fc_cb fc) = (None, fc_cb fc')"
      using fc_push_cb(2) [OF inv room, of ?env x] push True by (simp add: fc_push_front_def)
    from cb_push_front_rep [OF rep this] tight have "cb_rep (fc_cb fc') (x # fc_list fc)" "cb_tight (fc_cb fc')" by auto
    moreover have "fc_cap_ok fc'" using cap push True by (auto simp: fc_cap_ok_def fc_push_front_def)
    ultimately show ?thesis using fc_invI push True by (auto simp: fc_push_front_def)
  next
    case False
    then show ?thesis using push inv by (auto simp: fc_push_front_def)
  qed
qed

lemma fc_pop_cb:
  assumes "fc_cap_ok fc"
  shows "fc_cb (fc_pop_front fc) = cb_pop_front (fc_cb fc)" and "fc_cb (fc_pop_back fc) = cb_pop_back (fc_cb fc)"
  using fc_mask_slot [OF assms]
  by (simp_all add: fc_pop_front_def fc_pop_back_def cb_pop_front_def cb_pop_back_def fc_cb_def fc_capacity_def)

lemma fc_look_cb:
  assumes "fc_cap_ok fc"
  shows "fc_front fc = cb_front (fc_cb fc)" and "fc_back fc = cb_back (fc_cb fc)" and "fc_at fc i = cb_at (fc_cb fc) i"
  using fc_mask_slot [OF assms]
  by (simp_all add: fc_front_def fc_back_def fc_at_def fc_obj_def cb_front_def cb_back_def cb_at_def)

lemma fc_pop_inv:
  assumes inv: "fc_inv fc" and ne: "fc_list fc \<noteq> []"
  shows "fc_inv (fc_pop_front fc) \<and> fc_list (fc_pop_front fc) = tl (fc_list fc)"
    and "fc_inv (fc_pop_back fc) \<and> fc_list (fc_pop_back fc) = butlast (fc_list fc)"
proof -
  note cap = fc_inv_cap [OF inv]
  have "fc_cap_ok (fc_pop_front fc)" "fc_cap_ok (fc_pop_back fc)"
    using cap by (simp_all add: fc_cap_ok_def fc_pop_front_def fc_pop_back_def)
  then show "fc_inv (fc_pop_front fc) \<and> fc_list (fc_pop_front fc) = tl (fc_list fc)"
    and "fc_inv (fc_pop_back fc) \<and> fc_list (fc_pop_back fc) = butlast (fc_list fc)"
    using cb_pop_front_rep [OF fc_inv_rep [OF inv] ne] cb_pop_back_rep [OF fc_inv_rep [OF inv] ne]
      fc_inv_tight [OF inv] fc_invI [of "fc_pop_front fc" "tl (fc_list fc)"]
      fc_invI [of "fc_pop_back fc" "butlast (fc_list fc)"]
    by (simp_all add: fc_pop_cb [OF cap])
qed

text \<open>Either end of the buffer is a queue; the back end sees the contents reversed.\<close>

lemma fc_empty_iff: "fc_inv fc \<Longrightarrow> fc_empty fc \<longleftrightarrow> fc_list fc = []"
  using cb_rep_len [OF fc_inv_rep, of fc]
  by (auto simp: fc_empty_def cb_len_def cb_size_def unat_eq_zero)

interpretation fcq: fifo fc_empty fc_front fc_pop_front fc_list fc_inv
proof unfold_locales
  fix q :: "'a fixed_buffer"
  assume inv: "fc_inv q"
  show "fc_empty q \<longleftrightarrow> fc_list q = []" by (rule fc_empty_iff [OF inv])
  show "fc_list q \<noteq> [] \<Longrightarrow> fc_front q = Some (hd (fc_list q))"
    by (simp add: fc_look_cb [OF fc_inv_cap [OF inv]] cb_front_rep [OF fc_inv_rep [OF inv]])
  show "fc_list q \<noteq> [] \<Longrightarrow> fc_inv (fc_pop_front q) \<and> fc_list (fc_pop_front q) = tl (fc_list q)"
    by (rule fc_pop_inv(1) [OF inv])
qed

interpretation fcr: fifo fc_empty fc_back fc_pop_back "\<lambda>fc. rev (fc_list fc)" fc_inv
proof unfold_locales
  fix q :: "'a fixed_buffer"
  assume inv: "fc_inv q"
  show "fc_empty q \<longleftrightarrow> rev (fc_list q) = []" using fc_empty_iff [OF inv] by simp
  show "rev (fc_list q) \<noteq> [] \<Longrightarrow> fc_back q = Some (hd (rev (fc_list q)))"
    by (simp add: fc_look_cb [OF fc_inv_cap [OF inv]] cb_back_rep [OF fc_inv_rep [OF inv]] hd_rev)
  show "rev (fc_list q) \<noteq> [] \<Longrightarrow> fc_inv (fc_pop_back q) \<and> rev (fc_list (fc_pop_back q)) = tl (rev (fc_list q))"
    using fc_pop_inv(2) [OF inv] by (metis butlast_rev rev_is_Nil_conv rev_rev_ident)
qed

section \<open>Erasing\<close>

lemma sint_minus_of_nat_small:
  assumes "k < 2 ^ 63"
  shows "sint (- of_nat k :: size_t) = - int k"
proof -
  have "sint (of_int i :: size_t) = signed_take_bit 63 i" for i
    by (simp add: signed_of_int)
  from this [of "- int k"] show ?thesis using assms by (simp add: signed_take_bit_int_eq_self)
qed

lemma fc_iter_less_iff:
  assumes "unat (e - i) < 2 ^ 63"
  shows "fc_iter_less i e \<longleftrightarrow> i \<noteq> e"
proof -
  have "i - e = - of_nat (unat (e - i))" by simp
  then have "sint (i - e) = - int (unat (e - i))" using sint_minus_of_nat_small [OF assms] by metis
  moreover have "unat (e - i) = 0 \<longleftrightarrow> i = e" by (auto simp: unat_eq_zero)
  ultimately show ?thesis unfolding fc_iter_less_def by linarith
qed

lemma fc_destroy_while_fold:
  assumes "unat (e - i) < 2 ^ 63"
  shows "fc_destroy_while sl i e st = fold (\<lambda>i st. st[sl i := None]) (cb_indices i e) st"
  using assms
proof (induction sl i e st rule: fc_destroy_while.induct)
  case (1 sl i e st)
  note iff = fc_iter_less_iff [OF "1.prems"]
  show ?case
  proof (cases "i = e")
    case True
    then show ?thesis using iff by (subst fc_destroy_while.simps, subst cb_indices.simps) simp
  next
    case False
    then have "unat (e - (i + 1)) < 2 ^ 63" using unat_Suc_diff [OF False] "1.prems" by simp
    with 1 False iff show ?thesis
      by (simp add: fc_destroy_while.simps [of sl i] cb_indices.simps [of i])
  qed
qed

text \<open>The loop destroys exactly the objects of the positions it passes.\<close>

lemma fc_destroy_while_get:
  assumes "n < 2 ^ 63"
  shows "slot_get (fc_destroy_while sl b (b + of_nat n) st) j = Some y \<longleftrightarrow>
     (\<forall>d < n. sl (b + of_nat d) \<noteq> j) \<and> slot_get st j = Some y"
proof -
  have n: "unat (b + of_nat n - b) = n" using assms by (simp add: unat_of_nat_small)
  then have "unat (b + of_nat n - b) < 2 ^ 63" using assms by simp
  from fc_destroy_while_fold [OF this] have
    eq: "fc_destroy_while sl b (b + of_nat n) st = fold (\<lambda>i st. st[sl i := None]) (map (\<lambda>k. b + of_nat k) [0..<n]) st"
    unfolding cb_indices_eq n .
  show ?thesis unfolding eq cb_destroy_get by auto
qed

lemma length_fc_destroy_while [simp]: "length (fc_destroy_while sl i e st) = length st"
  by (induction sl i e st rule: fc_destroy_while.induct) (subst fc_destroy_while.simps, simp)

text \<open>
  A window whose other slots are cleared: the destruction of the positions \<open>[i, e)\<close> beside the
  remaining window keeps what the window holds, and if nothing else was alive, nothing else is.
\<close>

lemma fc_destroy_rest:
  assumes rep: "cb_rep C zs" and st: "length st = length (cb_storage C)"
    and keep: "\<And>k y. k < length zs \<Longrightarrow> slot_get (cb_storage C) (cb_ix C k) = Some y \<Longrightarrow> slot_get st (cb_ix C k) = Some y"
    and live: "\<And>j y. slot_get st j = Some y \<Longrightarrow> \<exists>k < length zs. j = cb_ix C k"
  shows "cb_rep (C\<lparr>cb_storage := st\<rparr>) zs \<and> cb_tight (C\<lparr>cb_storage := st\<rparr>)"
proof
  have ix: "cb_ix (C\<lparr>cb_storage := st\<rparr>) k = cb_ix C k" for k
    by (simp add: cb_ix_def cb_slot_def cb_mask_def)
  have len: "cb_len (C\<lparr>cb_storage := st\<rparr>) = length zs"
    using cb_rep_len [OF rep] by (simp add: cb_len_def cb_size_def)
  show "cb_rep (C\<lparr>cb_storage := st\<rparr>) zs"
    using rep keep cb_rep_get [OF rep] len st by (auto simp: cb_rep_def ix)
  show "cb_tight (C\<lparr>cb_storage := st\<rparr>)" using live by (auto simp: cb_tight_def ix len)
qed

lemma cb_rep_ix_inj: "cb_rep cb xs \<Longrightarrow> xs \<noteq> [] \<Longrightarrow> inj_on (cb_ix cb) {..<length xs}"
  using cb_rep_window(1) [of cb xs] by (simp add: inj_on_def cb_ix_def)

lemma fc_erase_backward:
  assumes inv: "fc_inv fc" and ab: "a < b" "b \<le> length (fc_list fc)" and dir: "a < length (fc_list fc) - b"
  defines "F \<equiv> fc_begin fc + of_nat a" and "L \<equiv> fc_begin fc + of_nat b"
  shows "fc_inv (snd (fc_erase F L fc)) \<and>
      fc_list (snd (fc_erase F L fc)) = take a (fc_list fc) @ drop b (fc_list fc) \<and>
      fst (fc_erase F L fc) = fc_begin (snd (fc_erase F L fc)) + of_nat a"
proof -
  let ?b = "fc_begin fc" and ?sl = "cb_slot (fc_cb fc)" and ?xs = "fc_list fc"
  let ?n = "length ?xs"
  note rep = fc_inv_rep [OF inv] and tight = fc_inv_tight [OF inv] and cap = fc_inv_cap [OF inv]
  have ne: "?xs \<noteq> []" using ab by auto
  note win = cb_rep_window [OF rep ne]
  have small: "?n < 2 ^ 63" using cb_rep_bound [OF rep] by simp
  have e: "fc_end fc = ?b + of_nat ?n" using cb_rep_end [OF rep] by simp
  have d1: "F - ?b = of_nat a" and d2: "fc_end fc - L = of_nat (?n - b)"
    using ab by (simp_all add: F_def L_def e)
  have s1: "sint (F - ?b) = int a" unfolding d1 by (rule sint_of_nat_small) (use ab small in simp)
  have s2: "sint (fc_end fc - L) = int (?n - b)" unfolding d2 by (rule sint_of_nat_small) (use small in simp)
  have "unat (of_nat a :: size_t) = a" "unat (of_nat b :: size_t) = b"
    using ab small by (simp_all add: unat_of_nat_small)
  then have FL: "F \<noteq> L" using ab(1) by (auto simp: F_def L_def)
  let ?st = "cb_move_bwd ?sl a F L (fc_storage fc)"
  let ?new = "?b + of_nat (b - a)"
  let ?st' = "fc_destroy_while ?sl ?b ?new ?st"
  have new: "L - (F - ?b) = ?new" using ab by (simp add: d1 L_def)
  have res: "fc_erase F L fc = (L, fc\<lparr>fc_storage := ?st', fc_begin := ?new\<rparr>)"
    using FL dir by (simp add: fc_erase_def Let_def s1 s2 new fc_mask_slot [OF cap])
  let ?C = "snd (cb_erase F L (fc_cb fc))"
  have C: "?C = (fc_cb fc)\<lparr>cb_storage := cb_destroy_while ?sl ?b ?new ?st, cb_begin := ?new\<rparr>"
    using FL dir by (simp add: cb_erase_def Let_def s1 s2 new)
  have repC: "cb_rep ?C (take a ?xs @ drop b ?xs)"
    using cb_erase_rep(1) [OF rep, of a b] ab by (simp add: F_def L_def)
  have ix: "cb_ix ?C k = cb_ix (fc_cb fc) (k + (b - a))" for k
    by (simp add: C cb_ix_def cb_slot_def cb_mask_def algebra_simps)
  have lx: "length (take a ?xs @ drop b ?xs) = ?n - (b - a)" using ab by simp
  have pos: "?sl (?b + of_nat d) = cb_ix (fc_cb fc) d" for d by (simp only: cb_ix_def fc_cb_simps)
  have get: "slot_get ?st' j = Some y \<longleftrightarrow> (\<forall>d < b - a. ?sl (?b + of_nat d) \<noteq> j) \<and> slot_get ?st j = Some y" for j y
    using ab small by (intro fc_destroy_while_get) simp
  have "cb_rep (?C\<lparr>cb_storage := ?st'\<rparr>) (take a ?xs @ drop b ?xs) \<and> cb_tight (?C\<lparr>cb_storage := ?st'\<rparr>)"
  proof (rule fc_destroy_rest [OF repC])
    show "length ?st' = length (cb_storage ?C)" by (simp add: C)
    show "slot_get ?st' (cb_ix ?C k) = Some y"
      if k: "k < length (take a ?xs @ drop b ?xs)" and g: "slot_get (cb_storage ?C) (cb_ix ?C k) = Some y" for k y
    proof -
      have "slot_get ?st (cb_ix ?C k) = Some y" using g by (auto simp: C cb_destroy_while_get)
      moreover have "?sl (?b + of_nat d) \<noteq> cb_ix ?C k" if "d < b - a" for d
      proof
        assume "?sl (?b + of_nat d) = cb_ix ?C k"
        then have "cb_ix (fc_cb fc) d = cb_ix (fc_cb fc) (k + (b - a))" unfolding ix pos .
        moreover have "d < ?n" "k + (b - a) < ?n" using that k[unfolded lx] ab by linarith+
        ultimately have "d = k + (b - a)" using inj_onD [OF cb_rep_ix_inj [OF rep ne]] by blast
        then show False using that by simp
      qed
      ultimately show ?thesis by (simp add: get)
    qed
    show "\<exists>k < length (take a ?xs @ drop b ?xs). j = cb_ix ?C k" if g: "slot_get ?st' j = Some y" for j y
    proof -
      have live: "slot_get ?st j = Some y" and nd: "\<forall>d < b - a. ?sl (?b + of_nat d) \<noteq> j" using g by (auto simp: get)
      have "\<exists>k < ?n. j = cb_ix (fc_cb fc) k"
      proof (rule ccontr)
        assume out: "\<not> ?thesis"
        have "?sl (L - 1 - of_nat i) \<noteq> j" if "i < a" for i
        proof -
          have "L - 1 - of_nat i = ?b + of_nat (b - 1 - i)" using that ab by (simp add: L_def of_nat_diff)
          then have "?sl (L - 1 - of_nat i) = cb_ix (fc_cb fc) (b - 1 - i)" using pos by simp
          moreover have "b - 1 - i < ?n" using ab that by linarith
          ultimately show ?thesis using out by metis
        qed
        then have "slot_get ?st j = slot_get (fc_storage fc) j" by (intro cb_move_bwd_outside) simp
        then have "slot_get (fc_storage fc) j \<noteq> None" using live by (metis option.distinct(1))
        then show False using tight [unfolded cb_tight_def, rule_format, of j] out cb_rep_len [OF rep] by auto
      qed
      then obtain k where k: "k < ?n" "j = cb_ix (fc_cb fc) k" by blast
      have "b - a \<le> k" using nd k(2) by (auto simp: cb_ix_def not_less [symmetric])
      then show ?thesis using k lx by (intro exI [of _ "k - (b - a)"]) (simp add: ix)
    qed
  qed
  moreover have "?C\<lparr>cb_storage := ?st'\<rparr> = fc_cb (fc\<lparr>fc_storage := ?st', fc_begin := ?new\<rparr>)"
    unfolding C by (simp add: fc_cb_def fc_capacity_def)
  moreover have "fc_cap_ok (fc\<lparr>fc_storage := ?st', fc_begin := ?new\<rparr>)" using cap by (simp add: fc_cap_ok_def)
  ultimately have "fc_inv (fc\<lparr>fc_storage := ?st', fc_begin := ?new\<rparr>) \<and>
      fc_list (fc\<lparr>fc_storage := ?st', fc_begin := ?new\<rparr>) = take a ?xs @ drop b ?xs"
    using fc_invI by metis
  then show ?thesis using ab unfolding res by (simp add: L_def)
qed

lemma fc_erase_forward:
  assumes inv: "fc_inv fc" and ab: "a < b" "b \<le> length (fc_list fc)" and dir: "\<not> a < length (fc_list fc) - b"
  defines "F \<equiv> fc_begin fc + of_nat a" and "L \<equiv> fc_begin fc + of_nat b"
  shows "fc_inv (snd (fc_erase F L fc)) \<and>
      fc_list (snd (fc_erase F L fc)) = take a (fc_list fc) @ drop b (fc_list fc) \<and>
      fst (fc_erase F L fc) = fc_begin (snd (fc_erase F L fc)) + of_nat a"
proof -
  let ?b = "fc_begin fc" and ?sl = "cb_slot (fc_cb fc)" and ?xs = "fc_list fc"
  let ?n = "length ?xs"
  note rep = fc_inv_rep [OF inv] and tight = fc_inv_tight [OF inv] and cap = fc_inv_cap [OF inv]
  have ne: "?xs \<noteq> []" using ab by auto
  note win = cb_rep_window [OF rep ne]
  have small: "?n < 2 ^ 63" using cb_rep_bound [OF rep] by simp
  have e: "fc_end fc = ?b + of_nat ?n" using cb_rep_end [OF rep] by simp
  have d1: "F - ?b = of_nat a" and d2: "fc_end fc - L = of_nat (?n - b)"
    using ab by (simp_all add: F_def L_def e)
  have s1: "sint (F - ?b) = int a" unfolding d1 by (rule sint_of_nat_small) (use ab small in simp)
  have s2: "sint (fc_end fc - L) = int (?n - b)" unfolding d2 by (rule sint_of_nat_small) (use small in simp)
  have "unat (of_nat a :: size_t) = a" "unat (of_nat b :: size_t) = b"
    using ab small by (simp_all add: unat_of_nat_small)
  then have FL: "F \<noteq> L" using ab(1) by (auto simp: F_def L_def)
  let ?m = "a + (?n - b)"
  let ?st = "cb_move_fwd ?sl (?n - b) L F (fc_storage fc)"
  let ?new = "?b + of_nat ?m"
  let ?st' = "fc_destroy_while ?sl ?new (fc_end fc) ?st"
  have new: "F + (fc_end fc - L) = ?new" using ab by (simp add: d2 F_def)
  have d: "\<not> int a < int (?n - b)" and nat_nb: "nat (int (?n - b)) = ?n - b" using dir by simp_all
  have res: "fc_erase F L fc = (F, fc\<lparr>fc_storage := ?st', fc_end := ?new\<rparr>)"
    using FL d nat_nb by (simp only: fc_erase_def Let_def s1 s2 new if_False fc_mask_slot [OF cap])
  let ?C = "snd (cb_erase F L (fc_cb fc))"
  have C: "?C = (fc_cb fc)\<lparr>cb_storage := cb_destroy_while ?sl ?new (fc_end fc) ?st, cb_end := ?new\<rparr>"
    using FL d nat_nb by (simp only: cb_erase_def Let_def fc_cb_simps s1 s2 new if_False snd_conv)
  have repC: "cb_rep ?C (take a ?xs @ drop b ?xs)"
    using cb_erase_rep(1) [OF rep, of a b] ab by (simp add: F_def L_def)
  have ix: "cb_ix ?C k = cb_ix (fc_cb fc) k" for k
    by (simp add: C cb_ix_def cb_slot_def cb_mask_def)
  have lx: "length (take a ?xs @ drop b ?xs) = ?m" using ab by simp
  have end': "fc_end fc = ?new + of_nat (b - a)"
  proof -
    have "?n = ?m + (b - a)" using ab by simp
    then have "(of_nat ?n :: size_t) = of_nat ?m + of_nat (b - a)" by (metis of_nat_add)
    then show ?thesis unfolding e by (simp only: add.assoc)
  qed
  have get: "slot_get ?st' j = Some y \<longleftrightarrow> (\<forall>d < b - a. ?sl (?new + of_nat d) \<noteq> j) \<and> slot_get ?st j = Some y" for j y
    unfolding end' using ab small by (intro fc_destroy_while_get) simp
  have "?new + of_nat d = ?b + of_nat (?m + d)" for d by (simp add: add.assoc)
  then have pos: "?sl (?new + of_nat d) = cb_ix (fc_cb fc) (?m + d)" for d
    by (simp only: cb_ix_def fc_cb_simps)
  have win': "inj_on (cb_ix (fc_cb fc)) {..<?n}" by (rule cb_rep_ix_inj [OF rep ne])
  have "cb_rep (?C\<lparr>cb_storage := ?st'\<rparr>) (take a ?xs @ drop b ?xs) \<and> cb_tight (?C\<lparr>cb_storage := ?st'\<rparr>)"
  proof (rule fc_destroy_rest [OF repC])
    show "length ?st' = length (cb_storage ?C)" by (simp add: C)
    show "slot_get ?st' (cb_ix ?C k) = Some y"
      if k: "k < length (take a ?xs @ drop b ?xs)" and g: "slot_get (cb_storage ?C) (cb_ix ?C k) = Some y" for k y
    proof -
      have "slot_get ?st (cb_ix ?C k) = Some y" using g by (auto simp: C cb_destroy_while_get)
      moreover have "?sl (?new + of_nat d) \<noteq> cb_ix ?C k" if "d < b - a" for d
      proof
        assume "?sl (?new + of_nat d) = cb_ix ?C k"
        then have "cb_ix (fc_cb fc) (?m + d) = cb_ix (fc_cb fc) k" unfolding ix pos .
        moreover have "?m + d < ?n" "k < ?n" using that k[unfolded lx] ab by linarith+
        ultimately have "?m + d = k" using inj_onD [OF win'] by blast
        then show False using k[unfolded lx] by simp
      qed
      ultimately show ?thesis unfolding get by blast
    qed
    show "\<exists>k < length (take a ?xs @ drop b ?xs). j = cb_ix ?C k" if g: "slot_get ?st' j = Some y" for j y
    proof -
      have live: "slot_get ?st j = Some y" and nd: "\<forall>d < b - a. ?sl (?new + of_nat d) \<noteq> j" using g unfolding get by blast+
      have "\<exists>k < ?n. j = cb_ix (fc_cb fc) k"
      proof (rule ccontr)
        assume out: "\<not> ?thesis"
        have "?sl (F + of_nat i) \<noteq> j" if "i < ?n - b" for i
        proof -
          have "F + of_nat i = ?b + of_nat (a + i)" by (simp add: F_def add.assoc)
          then have "?sl (F + of_nat i) = cb_ix (fc_cb fc) (a + i)" by (simp only: cb_ix_def fc_cb_simps)
          moreover have "a + i < ?n" using ab that by linarith
          ultimately show ?thesis using out by metis
        qed
        then have "slot_get ?st j = slot_get (fc_storage fc) j" by (intro cb_move_fwd_outside) simp
        then have "slot_get (fc_storage fc) j \<noteq> None" using live by (metis option.distinct(1))
        then show False using tight [unfolded cb_tight_def, rule_format, of j] out cb_rep_len [OF rep] by auto
      qed
      then obtain k where k: "k < ?n" "j = cb_ix (fc_cb fc) k" by blast
      have "k < ?m"
      proof (rule ccontr)
        assume "\<not> k < ?m"
        then have "k - ?m < b - a" "?m + (k - ?m) = k" using k(1) ab by linarith+
        moreover from this(2) have "?sl (?new + of_nat (k - ?m)) = j" unfolding pos k(2) by (simp only:)
        ultimately show False using nd by blast
      qed
      then show ?thesis using k unfolding lx ix by blast
    qed
  qed
  moreover have "?C\<lparr>cb_storage := ?st'\<rparr> = fc_cb (fc\<lparr>fc_storage := ?st', fc_end := ?new\<rparr>)"
    unfolding C by (simp add: fc_cb_def fc_capacity_def)
  moreover have "fc_cap_ok (fc\<lparr>fc_storage := ?st', fc_end := ?new\<rparr>)" using cap by (simp add: fc_cap_ok_def)
  ultimately have "fc_inv (fc\<lparr>fc_storage := ?st', fc_end := ?new\<rparr>) \<and>
      fc_list (fc\<lparr>fc_storage := ?st', fc_end := ?new\<rparr>) = take a ?xs @ drop b ?xs"
    using fc_invI by metis
  then show ?thesis unfolding res by (simp add: F_def)
qed

lemma fc_erase_inv:
  assumes "fc_inv fc" and "a \<le> b" "b \<le> length (fc_list fc)"
    and "fc_erase (fc_begin fc + of_nat a) (fc_begin fc + of_nat b) fc = (it, fc')"
  shows "fc_inv fc' \<and> fc_list fc' = take a (fc_list fc) @ drop b (fc_list fc) \<and> it = fc_begin fc' + of_nat a"
proof (cases "a = b")
  case True
  then show ?thesis using assms(1,4) by (auto simp: fc_erase_def)
next
  case False
  then have "a < b" using assms(2) by simp
  then show ?thesis using fc_erase_backward [OF assms(1) _ assms(3), of a] fc_erase_forward [OF assms(1) _ assms(3), of a] assms(4)
    by (cases "a < length (fc_list fc) - b") simp_all
qed

lemma fc_clear_inv:
  assumes "fc_inv fc"
  shows "fc_inv (fc_clear fc) \<and> fc_list (fc_clear fc) = [] \<and> (\<forall>j. slot_get (fc_storage (fc_clear fc)) j = None)"
proof -
  note rep = fc_inv_rep [OF assms] and tight = fc_inv_tight [OF assms] and cap = fc_inv_cap [OF assms]
  have st: "fc_storage (fc_clear fc) = cb_destroy (fc_cb fc)"
    by (simp add: fc_clear_def cb_destroy_def fc_mask_slot [OF cap])
  have none: "slot_get (fc_storage (fc_clear fc)) j = None" for j
    unfolding st by (rule cb_destroy_complete [OF rep tight])
  have "length (fold (\<lambda>i st. st[f i := None]) js ss) = length ss" for f js and ss :: "'a option list"
    by (induction js arbitrary: ss) auto
  then have len: "length (fc_storage (fc_clear fc)) = length (fc_storage fc)" by (simp add: fc_clear_def)
  have cap': "fc_cap_ok (fc_clear fc)" using cap by (simp add: fc_cap_ok_def len)
  have zero: "fc_begin (fc_clear fc) = 0" "fc_end (fc_clear fc) = 0" by (simp_all add: fc_clear_def)
  have "cb_rep (fc_cb (fc_clear fc)) []"
    using fc_cap_unat [OF cap'] by (simp add: cb_rep_def cb_len_def cb_size_def zero)
  moreover have "cb_tight (fc_cb (fc_clear fc))" using none by (simp add: cb_tight_def)
  ultimately show ?thesis using fc_invI [OF cap'] none by blast
qed

section \<open>The loops over unreduced indices\<close>

lemma fc_raw_indices_eq:
  assumes "cap \<le> 2 ^ 62" and "unat (e - i) = n"
  shows "fc_raw_indices cap i e =
     (if n = 0 \<or> unat i + n \<le> cap then Some [unat i ..< unat i + n] else None)"
  using assms(2)
proof (induction n arbitrary: i)
  case 0
  then have "i = e" by (simp add: unat_eq_zero)
  then show ?case by (subst fc_raw_indices.simps) simp
next
  case (Suc n)
  then have ie: "i \<noteq> e" by auto
  then have n: "unat (e - (i + 1)) = n" using Suc.prems unat_Suc_diff [OF ie] by simp
  show ?case
  proof (cases "unat i < cap")
    case False
    then show ?thesis using ie by (subst fc_raw_indices.simps) simp
  next
    case True
    then have i1: "unat (i + 1) = Suc (unat i)" using assms(1) by (intro unat_plus_one) simp
    show ?thesis using Suc.IH [OF n] True ie i1
      by (subst fc_raw_indices.simps) (auto simp: upt_rec [of "unat i"])
  qed
qed

text \<open>The elements lie in one piece of the array, so that the unreduced indices are in range.\<close>

definition fc_contiguous :: "'a fixed_buffer \<Rightarrow> bool" where
  "fc_contiguous fc \<longleftrightarrow> fc_list fc = [] \<or> unat (fc_begin fc) + length (fc_list fc) \<le> length (fc_storage fc)"

lemma fc_raw_indices_window:
  assumes "fc_inv fc"
  shows "fc_raw_indices (length (fc_storage fc)) (fc_begin fc) (fc_end fc) =
     (if fc_contiguous fc then Some [unat (fc_begin fc) ..< unat (fc_begin fc) + length (fc_list fc)] else None)"
proof -
  have "unat (fc_end fc - fc_begin fc) = length (fc_list fc)"
    using cb_rep_len [OF fc_inv_rep [OF assms]] by (simp add: cb_len_def cb_size_def)
  moreover have "length (fc_storage fc) \<le> 2 ^ 62"
    using cb_cap_bound fc_cap_unat [OF fc_inv_cap [OF assms]] by metis
  ultimately show ?thesis using fc_raw_indices_eq by (auto simp: fc_contiguous_def)
qed

lemma fc_contiguous_ix:
  assumes "fc_inv fc" and "fc_contiguous fc" and "k < length (fc_list fc)"
  shows "cb_ix (fc_cb fc) k = unat (fc_begin fc) + k"
proof -
  note cap = fc_cap_unat [OF fc_inv_cap [OF assms(1)]]
  have "cb_ix (fc_cb fc) k = (unat (fc_begin fc) + k) mod length (fc_storage fc)"
    using cb_ix_eq [of "fc_cb fc" k] cap by simp
  moreover have "unat (fc_begin fc) + k < length (fc_storage fc)" using assms(2,3) by (auto simp: fc_contiguous_def)
  ultimately show ?thesis by simp
qed

lemma fold_copy_get:
  "slot_get (fold (\<lambda>i st. st[i := f i]) js st) j = (if j \<in> set js \<and> j < length st then f j else slot_get st j)"
  by (induction js arbitrary: st) (auto simp: slot_get_update)

lemma length_fold_copy: "length (fold (\<lambda>i st. st[i := f i]) js st) = length st"
  by (induction js arbitrary: st) auto

lemma fc_move_inv:
  assumes inv: "fc_inv x" and con: "fc_contiguous x"
  obtains new where "fc_move_construct x = Some (new, x\<lparr>fc_begin := 0, fc_end := 0\<rparr>)"
    and "fc_inv new" and "fc_list new = fc_list x"
proof -
  let ?js = "[unat (fc_begin x) ..< unat (fc_begin x) + length (fc_list x)]"
  let ?st = "fold (\<lambda>i st. st[i := slot_get (fc_storage x) i]) ?js (replicate (length (fc_storage x)) None)"
  let ?new = "\<lparr>fc_storage = ?st, fc_begin = fc_begin x, fc_end = fc_end x\<rparr>"
  note rep = fc_inv_rep [OF inv] and cap = fc_inv_cap [OF inv]
  have st: "length ?st = length (fc_storage x)" by (simp add: length_fold_copy)
  have get: "slot_get ?st j = (if j \<in> set ?js \<and> j < length (fc_storage x) then slot_get (fc_storage x) j else None)" for j
    by (simp only: fold_copy_get length_replicate slot_get_replicate)
  have new: "fc_move_construct x = Some (?new, x\<lparr>fc_begin := 0, fc_end := 0\<rparr>)"
    by (simp add: fc_move_construct_def fc_raw_indices_window [OF inv] con)
  have cap': "fc_cap_ok ?new" using cap st by (simp add: fc_cap_ok_def)
  have in_js: "cb_ix (fc_cb x) k \<in> set ?js \<and> cb_ix (fc_cb x) k < length (fc_storage x)" if "k < length (fc_list x)" for k
    using fc_contiguous_ix [OF inv con that] that con by (auto simp: fc_contiguous_def)
  have "cb_rep ((fc_cb x)\<lparr>cb_storage := ?st\<rparr>) (fc_list x) \<and> cb_tight ((fc_cb x)\<lparr>cb_storage := ?st\<rparr>)"
  proof (rule fc_destroy_rest [OF rep])
    show "length ?st = length (cb_storage (fc_cb x))" by (simp add: st)
    show "slot_get ?st (cb_ix (fc_cb x) k) = Some y"
      if "k < length (fc_list x)" "slot_get (cb_storage (fc_cb x)) (cb_ix (fc_cb x) k) = Some y" for k y
      using in_js [OF that(1)] that(2) unfolding get by simp
    show "\<exists>k < length (fc_list x). j = cb_ix (fc_cb x) k" if "slot_get ?st j = Some y" for j y
    proof -
      have "j \<in> set ?js" using that unfolding get by (simp split: if_splits)
      then have "j - unat (fc_begin x) < length (fc_list x)" "j = unat (fc_begin x) + (j - unat (fc_begin x))" by auto
      then show ?thesis using fc_contiguous_ix [OF inv con] by metis
    qed
  qed
  moreover have "(fc_cb x)\<lparr>cb_storage := ?st\<rparr> = fc_cb ?new" by (simp add: fc_cb_def fc_capacity_def st)
  ultimately have "fc_inv ?new \<and> fc_list ?new = fc_list x" by (intro fc_invI [OF cap']) simp_all
  then show ?thesis using that [OF new] by blast
qed

lemma fc_destroy_contiguous:
  assumes inv: "fc_inv fc" and con: "fc_contiguous fc"
  shows "\<exists>st. fc_destroy fc = Some st \<and> (\<forall>j. slot_get st j = None)"
proof -
  let ?js = "[unat (fc_begin fc) ..< unat (fc_begin fc) + length (fc_list fc)]"
  let ?st = "fold (\<lambda>i st. st[i := None]) ?js (fc_storage fc)"
  have "slot_get ?st j = None" for j
  proof (rule ccontr)
    assume "slot_get ?st j \<noteq> None"
    then have nin: "j \<notin> set ?js" and live: "slot_get (fc_storage fc) j \<noteq> None"
      using slot_get_SomeD by (fastforce simp: fold_copy_get length_fold_copy split: if_splits)+
    then obtain k where "k < cb_len (fc_cb fc)" "j = cb_ix (fc_cb fc) k"
      using fc_inv_tight [OF inv] unfolding cb_tight_def by auto
    then show False using nin fc_contiguous_ix [OF inv con, of k] cb_rep_len [OF fc_inv_rep [OF inv]] by auto
  qed
  then show ?thesis by (auto simp: fc_destroy_def fc_raw_indices_window [OF inv] con)
qed

section \<open>Properties\<close>

text \<open>
  C21. The fixed-capacity buffer is a double-ended queue as long as it is not overfilled, and indexing
  agrees with the contents: a push with room left adds one element at its end (or changes nothing
  if the copy throws), a pop removes one, and \<open>operator[]\<close>, \<open>front\<close> and \<open>back\<close> return the elements
  in order.
\<close>

theorem fc_deque_correct:
  assumes "fc_inv fc"
  shows "(length (fc_list fc) < length (fc_storage fc) \<longrightarrow>
       fc_inv (snd (fc_push_back ok x fc)) \<and> fc_inv (snd (fc_push_front ok x fc)) \<and>
       fc_list (snd (fc_push_back ok x fc)) = (if ok x then fc_list fc @ [x] else fc_list fc) \<and>
       fc_list (snd (fc_push_front ok x fc)) = (if ok x then x # fc_list fc else fc_list fc)) \<and>
     (fc_list fc \<noteq> [] \<longrightarrow>
       fc_inv (fc_pop_front fc) \<and> fc_list (fc_pop_front fc) = tl (fc_list fc) \<and>
       fc_inv (fc_pop_back fc) \<and> fc_list (fc_pop_back fc) = butlast (fc_list fc) \<and>
       fc_front fc = Some (hd (fc_list fc)) \<and> fc_back fc = Some (last (fc_list fc))) \<and>
     (unat i < length (fc_list fc) \<longrightarrow> fc_at fc i = Some (fc_list fc ! unat i)) \<and>
     fc_size fc = of_nat (length (fc_list fc))"
proof (intro conjI impI)
  note rep = fc_inv_rep [OF assms] and cap = fc_inv_cap [OF assms]
  assume room: "length (fc_list fc) < length (fc_storage fc)"
  obtain r1 c1 r2 c2 where 1: "fc_push_back ok x fc = (r1, c1)" "fc_push_front ok x fc = (r2, c2)" by fastforce
  note push = fc_push_inv(1) [OF assms room 1(1)] fc_push_inv(2) [OF assms room 1(2)]
  show "fc_inv (snd (fc_push_back ok x fc))" "fc_inv (snd (fc_push_front ok x fc))"
    "fc_list (snd (fc_push_back ok x fc)) = (if ok x then fc_list fc @ [x] else fc_list fc)"
    "fc_list (snd (fc_push_front ok x fc)) = (if ok x then x # fc_list fc else fc_list fc)"
    using push 1 by auto
qed (use fc_pop_inv [OF assms] fcq.front_hd [OF assms] fcr.front_hd [OF assms] cb_rep_end [OF fc_inv_rep [OF assms]]
      cb_at_rep [OF fc_inv_rep [OF assms]] fc_look_cb(3) [OF fc_inv_cap [OF assms]] in
    \<open>simp_all add: hd_rev fc_size_def\<close>)

theorem fc_deque_correct_witness:
  "fc_inv (fc_new 2 :: nat fixed_buffer) \<and> fc_list (snd (fc_push_front (\<lambda>_. True) 5 (fc_new 2 :: nat fixed_buffer))) = [5]"
proof -
  have "fc_inv (fc_new 2 :: nat fixed_buffer) \<and> fc_list (fc_new 2 :: nat fixed_buffer) = []"
    using fc_new_inv [of 1, where 'a = nat] by simp
  moreover have "length (fc_storage (fc_new 2 :: nat fixed_buffer)) = 2" by simp
  ultimately show ?thesis using fc_deque_correct [of "fc_new 2 :: nat fixed_buffer" "\<lambda>_. True" 5] by simp
qed

text \<open>
  \<open>erase(first, last)\<close> removes exactly the elements of the range, whichever end it moves, returns
  the iterator to the element that followed them, and, unlike the growing buffer, never leaves
  an object alive outside of the buffer (\<open>fc_inv\<close>), because its iterators compare signed distances;
  \<open>clear()\<close> destroys every element.
\<close>

theorem fc_erase_correct:
  assumes "fc_inv fc" and "a \<le> b" and "b \<le> length (fc_list fc)"
  shows "(case fc_erase (fc_begin fc + of_nat a) (fc_begin fc + of_nat b) fc of (it, fc') \<Rightarrow>
       fc_inv fc' \<and> fc_list fc' = take a (fc_list fc) @ drop b (fc_list fc) \<and> it = fc_begin fc' + of_nat a) \<and>
     fc_inv (fc_clear fc) \<and> fc_list (fc_clear fc) = [] \<and> (\<forall>j. slot_get (fc_storage (fc_clear fc)) j = None)"
  using fc_erase_inv [OF assms] fc_clear_inv [OF assms(1)] by (auto split: prod.split)

theorem fc_erase_correct_witness:
  "\<exists>fc it fc'. fc_list fc = [7, 8 :: nat] \<and>
     fc_erase (fc_begin fc + of_nat 0) (fc_begin fc + of_nat 1) fc = (it, fc') \<and> fc_list fc' = [8]"
proof -
  have n: "fc_inv (fc_new 2 :: nat fixed_buffer)" "fc_list (fc_new 2 :: nat fixed_buffer) = []"
    "length (fc_storage (fc_new 2 :: nat fixed_buffer)) = 2"
    using fc_new_inv [of 1, where 'a = nat] by simp_all
  obtain r c where c: "fc_push_front (\<lambda>_. True) 8 (fc_new 2 :: nat fixed_buffer) = (r, c)" by fastforce
  have c': "fc_inv c" "fc_list c = [8]" using fc_push_inv(2) [OF n(1) _ c] n(2,3) by auto
  have st: "length (fc_storage c) = 2" using c n(3) by (auto simp: fc_push_front_def)
  obtain r2 d where d: "fc_push_front (\<lambda>_. True) 7 c = (r2, d)" by fastforce
  have d': "fc_inv d" "fc_list d = [7, 8]" using fc_push_inv(2) [OF c'(1) _ d] c'(2) st by auto
  obtain it e where e: "fc_erase (fc_begin d + of_nat 0) (fc_begin d + of_nat 1) d = (it, e)" by fastforce
  show ?thesis using fc_erase_correct [OF d'(1), of 0 1] d'(2) e by (intro exI) auto
qed

text \<open>
  The move constructor and the destructor reach only elements whose indices have not passed the
  capacity.  If the contents lie in one piece at unreduced indices, the move constructor moves
  all elements over and the destructor destroys all; but it leaves the moved-from objects of the
  source alive behind an empty window, where no destructor will reach them.  Otherwise both
  access the array out of bounds.
\<close>

theorem fc_move_only_contiguous:
  assumes "fc_inv x"
  shows "if fc_list x = [] \<or> unat (fc_begin x) + length (fc_list x) \<le> length (fc_storage x)
     then (\<exists>new. fc_move_construct x = Some (new, x\<lparr>fc_begin := 0, fc_end := 0\<rparr>) \<and>
              fc_inv new \<and> fc_list new = fc_list x) \<and>
          (\<exists>st. fc_destroy x = Some st \<and> (\<forall>j. slot_get st j = None))
     else fc_move_construct x = None \<and> fc_destroy x = None"
proof (cases "fc_contiguous x")
  case True
  then show ?thesis using fc_move_inv [OF assms True] fc_destroy_contiguous [OF assms True]
    by (metis fc_contiguous_def)
next
  case False
  then have "fc_move_construct x = None \<and> fc_destroy x = None"
    by (simp add: fc_move_construct_def fc_destroy_def fc_raw_indices_window [OF assms])
  then show ?thesis using False by (simp add: fc_contiguous_def)
qed

theorem fc_move_only_contiguous_witness:
  "\<exists>x. fc_inv x \<and> fc_list x = [5 :: nat] \<and> fc_move_construct x = None \<and> fc_destroy x = None"
proof -
  have n: "fc_inv (fc_new 2 :: nat fixed_buffer)" "fc_list (fc_new 2 :: nat fixed_buffer) = []"
    "length (fc_storage (fc_new 2 :: nat fixed_buffer)) = 2"
    using fc_new_inv [of 1, where 'a = nat] by simp_all
  obtain r c where c: "fc_push_front (\<lambda>_. True) 5 (fc_new 2 :: nat fixed_buffer) = (r, c)" by fastforce
  have c': "fc_inv c" "fc_list c = [5]" using fc_push_inv(2) [OF n(1) _ c] n(2,3) by auto
  have "fc_begin c = - 1" "length (fc_storage c) = 2" using c n(3) by (auto simp: fc_push_front_def fc_new_def)
  moreover have "unat (- 1 :: size_t) = 2 ^ 64 - 1" by (simp add: unsigned_minus_1_eq_mask mask_eq_exp_minus_1)
  ultimately show ?thesis using fc_move_only_contiguous [OF c'(1)] c' by auto
qed

end
