(* ===== verification/ExpiringFifo.thy ===== *)
theory ExpiringFifo
  imports ChunkedFifo
begin

text \<open>
  \<open>core/expiring_fifo.hh\<close>: a queue whose entries can expire, on top of \<open>chunked_fifo\<close>.

  An entry carries a serial number \<open>ee_id\<close> (its identity: the code uses its address, which the
  lambda of its timer captures), its payload (disengaged once it has expired) and the time its
  timer is armed for.  \<open>ef_expire\<close> is the timer callback; what \<open>OnExpiry\<close> does to the outside (for
  the users in \<open>core/\<close>: fail a promise) is the function \<open>on_expiry\<close> on a state \<open>'s\<close>.
  Time points are integers below \<open>time_max\<close>, which is \<open>time_point::max()\<close>.
\<close>

section \<open>State and operations\<close>

type_synonym time_point = int

definition time_max :: time_point where
  "time_max = 2 ^ 63 - 1"

record 'a ef_entry =
  ee_id :: nat
  ee_payload :: "'a option"
  ee_timer :: "time_point option"

record 'a expiring_fifo =
  ef_list :: "'a ef_entry chunked_fifo"
  ef_size :: size_t
  ef_next :: nat

text \<open>\<open>chunked_fifo<entry>\<close> has the default of 128 items in a chunk.\<close>

abbreviation ef_ipc :: size_t where
  "ef_ipc \<equiv> 128"

definition ef_new :: "'a expiring_fifo" where
  "ef_new = \<lparr>ef_list = cf_new, ef_size = 0, ef_next = 0\<rparr>"

definition ef_drop_expired_front :: "'a expiring_fifo \<Rightarrow> 'a expiring_fifo" where
  "ef_drop_expired_front ef =
     ef\<lparr>ef_list := fst (pop_while cf_empty (cf_front ef_ipc) (cf_pop_front ef_ipc)
          (\<lambda>e _. ee_payload e = None) (\<lambda>_ _. ()) (ef_list ef) ())\<rparr>"

definition ef_empty :: "'a expiring_fifo \<Rightarrow> bool" where
  "ef_empty ef \<longleftrightarrow> ef_size ef = 0"

definition ef_front :: "'a expiring_fifo \<Rightarrow> 'a option" where
  "ef_front ef = Option.bind (cf_front ef_ipc (ef_list ef)) ee_payload"

definition ef_reserve :: "'a ef_entry cf_env \<Rightarrow> size_t \<Rightarrow> 'a expiring_fifo \<Rightarrow> exn option \<times> 'a expiring_fifo" where
  "ef_reserve env n ef =
     (case cf_reserve ef_ipc env n (ef_list ef) of (r, l) \<Rightarrow> (r, ef\<lparr>ef_list := l\<rparr>))"

definition ef_emplace :: "'a ef_entry cf_env \<Rightarrow> 'a \<Rightarrow> time_point option \<Rightarrow> 'a expiring_fifo \<Rightarrow> exn option \<times> 'a expiring_fifo" where
  "ef_emplace env x t ef =
     (case cf_emplace_back ef_ipc env \<lparr>ee_id = ef_next ef, ee_payload = Some x, ee_timer = t\<rparr> (ef_list ef) of
        (Some e, l) \<Rightarrow> (Some e, ef\<lparr>ef_list := l\<rparr>)
      | (None, l) \<Rightarrow> (None, \<lparr>ef_list = l, ef_size = ef_size ef + 1, ef_next = Suc (ef_next ef)\<rparr>))"

definition ef_push_back :: "'a ef_entry cf_env \<Rightarrow> 'a \<Rightarrow> 'a expiring_fifo \<Rightarrow> exn option \<times> 'a expiring_fifo" where
  "ef_push_back env x ef = ef_emplace env x None ef"

definition ef_push_back_until :: "'a ef_entry cf_env \<Rightarrow> 'a \<Rightarrow> time_point \<Rightarrow> 'a expiring_fifo \<Rightarrow> exn option \<times> 'a expiring_fifo" where
  "ef_push_back_until env x timeout ef =
     (if timeout < time_max then ef_emplace env x (Some timeout) ef else ef_emplace env x None ef)"

definition ef_pop_front :: "'a expiring_fifo \<Rightarrow> 'a expiring_fifo" where
  "ef_pop_front ef =
     ef_drop_expired_front (ef\<lparr>ef_list := cf_pop_front ef_ipc (ef_list ef), ef_size := ef_size ef - 1\<rparr>)"

text \<open>The entry whose timer \<open>i\<close> names, while that timer is armed; and the callback of the timer.\<close>

definition ef_armed :: "nat \<Rightarrow> 'a ef_entry \<Rightarrow> bool" where
  "ef_armed i e \<longleftrightarrow> ee_id e = i \<and> ee_payload e \<noteq> None \<and> ee_timer e \<noteq> None"

definition ef_expire :: "('a \<Rightarrow> 's \<Rightarrow> 's) \<Rightarrow> nat \<Rightarrow> 'a expiring_fifo \<Rightarrow> 's \<Rightarrow> 'a expiring_fifo \<times> 's" where
  "ef_expire on_expiry i ef s =
     (case find (ef_armed i) (cf_list ef_ipc (ef_list ef)) of
        None \<Rightarrow> (ef, s)
      | Some e \<Rightarrow>
          (ef_drop_expired_front
             (ef\<lparr>ef_list := cf_modify (\<lambda>e. if ee_id e = i then e\<lparr>ee_payload := None, ee_timer := None\<rparr> else e) (ef_list ef),
                 ef_size := ef_size ef - 1\<rparr>),
           case ee_payload e of None \<Rightarrow> s | Some x \<Rightarrow> on_expiry x s))"

section \<open>Contents and invariant\<close>

abbreviation ef_entries :: "'a expiring_fifo \<Rightarrow> 'a ef_entry list" where
  "ef_entries ef \<equiv> cf_list ef_ipc (ef_list ef)"

text \<open>What the queue holds: the entries that have not expired, as (identity, deadline, payload).\<close>

definition ef_live :: "'a ef_entry list \<Rightarrow> (nat \<times> time_point option \<times> 'a) list" where
  "ef_live es = List.map_filter (\<lambda>e. map_option (\<lambda>x. (ee_id e, ee_timer e, x)) (ee_payload e)) es"

definition ef_contents :: "'a expiring_fifo \<Rightarrow> (nat \<times> time_point option \<times> 'a) list" where
  "ef_contents ef = ef_live (ef_entries ef)"

definition ef_to_list :: "'a expiring_fifo \<Rightarrow> 'a list" where
  "ef_to_list ef = map (snd \<circ> snd) (ef_contents ef)"

text \<open>The invariant; the comment of the code states its second line.\<close>

definition ef_inv :: "'a expiring_fifo \<Rightarrow> bool" where
  "ef_inv ef \<longleftrightarrow>
     cf_inv ef_ipc (ef_list ef) \<and>
     (ef_entries ef \<noteq> [] \<longrightarrow> ee_payload (hd (ef_entries ef)) \<noteq> None) \<and>
     ef_size ef = of_nat (length (ef_contents ef)) \<and> length (ef_entries ef) < 2 ^ 64 \<and>
     distinct (map ee_id (ef_entries ef)) \<and> (\<forall>e \<in> set (ef_entries ef). ee_id e < ef_next ef)"

lemma ipc_ok_128 [simp]: "ipc_ok 128"
  unfolding ipc_ok_def by (rule exI [of _ 7]) simp

lemma ef_live_simps [simp]:
  "ef_live [] = []"
  "ef_live (e # es) = (case ee_payload e of None \<Rightarrow> ef_live es | Some x \<Rightarrow> (ee_id e, ee_timer e, x) # ef_live es)"
  "ef_live (es @ es') = ef_live es @ ef_live es'"
  by (auto simp: ef_live_def map_filter_simps map_filter_def split: option.split)

lemma ef_live_drop [simp]: "ef_live (dropWhile (\<lambda>e. ee_payload e = None) es) = ef_live es"
  by (induction es) auto

lemma ef_live_length: "length (ef_live es) \<le> length es"
  by (induction es) (auto split: option.split)

lemma ef_live_id: "(i, t, x) \<in> set (ef_live es) \<Longrightarrow> i \<in> ee_id ` set es"
  by (induction es) (auto split: option.splits)

lemma ef_live_distinct: "distinct (map ee_id es) \<Longrightarrow> distinct (map fst (ef_live es))"
proof (induction es)
  case (Cons e es)
  then show ?case using ef_live_id by (fastforce split: option.split)
qed simp

lemma ef_new_inv [simp]: "ef_inv (ef_new :: 'a expiring_fifo)" and ef_new_contents [simp]: "ef_contents ef_new = []"
  and ef_new_next [simp]: "ef_next ef_new = 0" and ef_new_entries [simp]: "ef_entries ef_new = []"
  by (simp_all add: ef_inv_def ef_new_def ef_contents_def)

lemma ef_contents_bound: "ef_inv ef \<Longrightarrow> length (ef_contents ef) < 2 ^ 64"
  using ef_live_length [of "ef_entries ef"] by (simp add: ef_inv_def ef_contents_def)

text \<open>Dropping the expired front entries establishes the invariant on the front.\<close>

lemma ef_drop_entries:
  assumes "cf_inv ef_ipc (ef_list ef)"
  shows "cf_inv ef_ipc (ef_list (ef_drop_expired_front ef)) \<and>
    ef_entries (ef_drop_expired_front ef) = dropWhile (\<lambda>e. ee_payload e = None) (ef_entries ef)"
  using cfq.pop_while_list(1,2) [OF assms, of "\<lambda>e _. ee_payload e = None" "\<lambda>_ _. ()" "()"]
  by (simp add: ef_drop_expired_front_def consume_list_dropWhile)

lemma distinct_map_dropWhile: "distinct (map f xs) \<Longrightarrow> distinct (map f (dropWhile P xs))"
  by (induction xs) auto

lemma ef_drop_inv:
  assumes "cf_inv ef_ipc (ef_list ef)" and "ef_size ef = of_nat (length (ef_contents ef))"
    and "length (ef_entries ef) < 2 ^ 64" and "distinct (map ee_id (ef_entries ef))"
    and "\<forall>e \<in> set (ef_entries ef). ee_id e < ef_next ef"
  shows "ef_inv (ef_drop_expired_front ef) \<and> ef_contents (ef_drop_expired_front ef) = ef_contents ef"
proof -
  note d = ef_drop_entries [OF assms(1)]
  have other: "ef_size (ef_drop_expired_front ef) = ef_size ef" "ef_next (ef_drop_expired_front ef) = ef_next ef"
    by (simp_all add: ef_drop_expired_front_def)
  have c: "ef_contents (ef_drop_expired_front ef) = ef_contents ef"
    using d by (simp add: ef_contents_def)
  have "length (dropWhile (\<lambda>e. ee_payload e = None) (ef_entries ef)) \<le> length (ef_entries ef)"
    by (rule length_dropWhile_le)
  then have len: "length (dropWhile (\<lambda>e. ee_payload e = None) (ef_entries ef)) < 2 ^ 64" using assms(3) by simp
  have "ef_inv (ef_drop_expired_front ef)"
    unfolding ef_inv_def conjunct2 [OF d] other c
  proof (intro conjI ballI impI)
    show "ee_payload (hd (dropWhile (\<lambda>e. ee_payload e = None) (ef_entries ef))) \<noteq> None"
      if "dropWhile (\<lambda>e. ee_payload e = None) (ef_entries ef) \<noteq> []"
      by (rule hd_dropWhile [OF that])
    show "ee_id e < ef_next ef" if "e \<in> set (dropWhile (\<lambda>e. ee_payload e = None) (ef_entries ef))" for e
      using assms(5) set_dropWhileD [OF that] by blast
  qed (use d assms(2,4) len distinct_map_dropWhile in simp_all)
  then show ?thesis using c by blast
qed

lemma ef_empty_iff:
  assumes "ef_inv ef"
  shows "ef_empty ef \<longleftrightarrow> ef_contents ef = []"
proof -
  have "(of_nat (length (ef_contents ef)) :: size_t) = 0 \<longleftrightarrow> length (ef_contents ef) = 0"
    using ef_contents_bound [OF assms] by (intro of_nat_eq_zero_small) simp
  then show ?thesis using assms by (simp add: ef_inv_def ef_empty_def)
qed

lemma ef_inv_cons:
  assumes "ef_inv ef" and "ef_contents ef = (i, t, x) # cs"
  obtains e es where "ef_entries ef = e # es" and "ee_id e = i" and "ee_timer e = t"
    and "ee_payload e = Some x" and "ef_live es = cs"
proof -
  obtain e es where e: "ef_entries ef = e # es" using assms(2) by (cases "ef_entries ef") (auto simp: ef_contents_def)
  then obtain y where "ee_payload e = Some y" using assms(1) by (auto simp: ef_inv_def)
  then show ?thesis using that [OF e] e assms(2) by (auto simp: ef_contents_def)
qed

lemma ef_front_hd:
  assumes "ef_inv ef" and "ef_contents ef = (i, t, x) # cs"
  shows "ef_front ef = Some x"
proof -
  obtain e es where e: "ef_entries ef = e # es" "ee_payload e = Some x"
    using assms by (rule ef_inv_cons)
  have "cf_front ef_ipc (ef_list ef) = Some e"
    using cfq.front_hd [of ef_ipc "ef_list ef"] assms(1) e(1) by (simp add: ef_inv_def)
  then show ?thesis using e(2) by (simp add: ef_front_def)
qed

lemma ef_pop_front_inv:
  assumes inv: "ef_inv ef" and c: "ef_contents ef = (i, t, x) # cs"
  shows "ef_inv (ef_pop_front ef) \<and> ef_contents (ef_pop_front ef) = cs \<and> ef_next (ef_pop_front ef) = ef_next ef"
proof -
  obtain e es where e: "ef_entries ef = e # es" "ee_payload e = Some x" "ef_live es = cs"
    using assms by (rule ef_inv_cons)
  let ?ef = "ef\<lparr>ef_list := cf_pop_front ef_ipc (ef_list ef), ef_size := ef_size ef - 1\<rparr>"
  have p: "cf_inv ef_ipc (ef_list ?ef) \<and> ef_entries ?ef = es"
    using cfq.pop_tl [of ef_ipc "ef_list ef"] inv e(1) by (simp add: ef_inv_def)
  have "ef_inv (ef_drop_expired_front ?ef) \<and> ef_contents (ef_drop_expired_front ?ef) = ef_contents ?ef"
  proof (rule ef_drop_inv)
    have "ef_contents ?ef = cs" using p e(3) by (simp add: ef_contents_def)
    then show "ef_size ?ef = of_nat (length (ef_contents ?ef))" using inv c by (simp add: ef_inv_def)
  qed (use p inv e(1) in \<open>auto simp: ef_inv_def\<close>)
  then show ?thesis using p e(3) by (simp add: ef_pop_front_def ef_contents_def ef_drop_expired_front_def)
qed

text \<open>The number of stored entries, expired ones included, does not grow when elements are removed.\<close>

lemma ef_drop_length:
  "cf_inv ef_ipc (ef_list ef) \<Longrightarrow> length (ef_entries (ef_drop_expired_front ef)) \<le> length (ef_entries ef)"
  using ef_drop_entries [of ef] by (simp add: length_dropWhile_le)

lemma ef_pop_front_length:
  assumes inv: "ef_inv ef" and c: "ef_contents ef = (i, t, x) # cs"
  shows "length (ef_entries (ef_pop_front ef)) \<le> length (ef_entries ef)"
proof -
  obtain e es where e: "ef_entries ef = e # es" using assms by (rule ef_inv_cons)
  let ?ef = "ef\<lparr>ef_list := cf_pop_front ef_ipc (ef_list ef), ef_size := ef_size ef - 1\<rparr>"
  have "cf_inv ef_ipc (ef_list ?ef) \<and> ef_entries ?ef = es"
    using cfq.pop_tl [of ef_ipc "ef_list ef"] inv e by (simp add: ef_inv_def)
  then show ?thesis using ef_drop_length [of ?ef] e by (simp add: ef_pop_front_def)
qed

definition ef_bounded :: "nat \<Rightarrow> 'a expiring_fifo \<Rightarrow> bool" where
  "ef_bounded n ef \<longleftrightarrow> ef_inv ef \<and> length (ef_entries ef) \<le> n"

interpretation efq: fifo ef_empty ef_front ef_pop_front ef_to_list "ef_bounded n"
proof unfold_locales
  fix q :: "'a expiring_fifo"
  assume b: "ef_bounded n q"
  then have inv: "ef_inv q" by (simp add: ef_bounded_def)
  show "ef_empty q \<longleftrightarrow> ef_to_list q = []" using ef_empty_iff [OF inv] by (simp add: ef_to_list_def)
  show "ef_to_list q \<noteq> [] \<Longrightarrow> ef_front q = Some (hd (ef_to_list q))"
    using ef_front_hd [OF inv] by (cases "ef_contents q") (auto simp: ef_to_list_def)
  show "ef_to_list q \<noteq> [] \<Longrightarrow> ef_bounded n (ef_pop_front q) \<and> ef_to_list (ef_pop_front q) = tl (ef_to_list q)"
    using ef_pop_front_inv [OF inv] ef_pop_front_length [OF inv] b
    by (cases "ef_contents q") (fastforce simp: ef_to_list_def ef_bounded_def)+
qed

lemma ef_emplace_inv:
  assumes inv: "ef_inv ef" and small: "length (ef_entries ef) < 2 ^ 64 - 1"
    and ret: "ef_emplace env x t ef = (r, ef')"
  shows "ef_inv ef' \<and> ef_contents ef' = (if r = None then ef_contents ef @ [(ef_next ef, t, x)] else ef_contents ef) \<and>
    length (ef_entries ef') \<le> Suc (length (ef_entries ef))"
proof -
  let ?e = "\<lparr>ee_id = ef_next ef, ee_payload = Some x, ee_timer = t\<rparr>"
  obtain r0 l where push: "cf_emplace_back ef_ipc env ?e (ef_list ef) = (r0, l)" by fastforce
  have l: "cf_inv ef_ipc l \<and> cf_list ef_ipc l = (if r0 = None then ef_entries ef @ [?e] else ef_entries ef)"
    using cfq.push_list [OF _ push] inv by (simp add: ef_inv_def)
  show ?thesis
  proof (cases r0)
    case None
    then have ef': "r = None" "ef' = \<lparr>ef_list = l, ef_size = ef_size ef + 1, ef_next = Suc (ef_next ef)\<rparr>"
      using ret push by (simp_all add: ef_emplace_def)
    have es: "ef_entries ef' = ef_entries ef @ [?e]" and inv': "cf_inv ef_ipc (ef_list ef')" using l None by (simp_all add: ef')
    have c: "ef_contents ef' = ef_contents ef @ [(ef_next ef, t, x)]" by (simp add: es ef_contents_def)
    have "ef_inv ef'"
      unfolding ef_inv_def es c
    proof (intro conjI ballI impI)
      show "ee_payload (hd (ef_entries ef @ [?e])) \<noteq> None"
        using inv by (cases "ef_entries ef") (auto simp: ef_inv_def)
      show "distinct (map ee_id (ef_entries ef @ [?e]))" using inv by (auto simp: ef_inv_def)
      show "ee_id e < ef_next ef'" if "e \<in> set (ef_entries ef @ [?e])" for e
        using inv that by (auto simp: ef_inv_def ef' less_SucI)
    qed (use inv inv' small in \<open>simp_all add: ef_inv_def ef'\<close>)
    then show ?thesis by (simp add: ef'(1) c es)
  next
    case (Some e)
    then have ef': "r = Some e" "ef' = ef\<lparr>ef_list := l\<rparr>" using ret push by (simp_all add: ef_emplace_def)
    then show ?thesis using inv l Some by (simp add: ef_inv_def ef_contents_def)
  qed
qed

text \<open>Expiry of an armed entry removes exactly that entry.\<close>

lemma ef_live_expire:
  "ef_live (map (\<lambda>e. if ee_id e = i then e\<lparr>ee_payload := None, ee_timer := None\<rparr> else e) es) =
     filter (\<lambda>(j, t, x). j \<noteq> i) (ef_live es)"
  by (induction es) (auto split: option.split)

lemma filter_out_one:
  assumes "distinct (map fst xs)" and "(i, y) \<in> set xs"
  shows "Suc (length (filter (\<lambda>(j, z). j \<noteq> i) xs)) = length xs"
  using assms
proof (induction xs)
  case (Cons a xs)
  obtain j z where a: "a = (j, z)" by fastforce
  show ?case
  proof (cases "j = i")
    case True
    then have "filter (\<lambda>(j, z). j \<noteq> i) xs = xs" using Cons.prems a by (force simp: filter_id_conv)
    then show ?thesis using True a by simp
  next
    case False
    then show ?thesis using Cons a by auto
  qed
qed simp

lemma ef_armed_live:
  "ef_armed i e \<Longrightarrow> e \<in> set es \<Longrightarrow> \<exists>t x. (i, Some t, x) \<in> set (ef_live es) \<and> ee_payload e = Some x"
  by (induction es) (auto simp: ef_armed_def split: option.split)

lemma ef_find_armed:
  assumes "distinct (map ee_id es)" and "(i, Some t, x) \<in> set (ef_live es)"
  shows "\<exists>e. find (ef_armed i) es = Some e \<and> ee_payload e = Some x"
  using assms
proof (induction es)
  case (Cons e es)
  show ?case
  proof (cases "ef_armed i e")
    case True
    then obtain y where "ee_payload e = Some y" by (auto simp: ef_armed_def)
    moreover have "(i, Some t, x) \<notin> set (ef_live es)"
      using Cons.prems(1) True ef_live_id by (force simp: ef_armed_def)
    ultimately show ?thesis using True Cons.prems(2) by simp
  next
    case False
    then have "(i, Some t, x) \<in> set (ef_live es)"
      using Cons.prems(2) by (auto simp: ef_armed_def split: option.splits)
    then show ?thesis using Cons False by simp
  qed
qed simp

lemma ef_expire_inv:
  assumes inv: "ef_inv ef" and live: "(i, Some t, x) \<in> set (ef_contents ef)"
    and ret: "ef_expire on_expiry i ef s = (ef', s')"
  shows "ef_inv ef' \<and> ef_contents ef' = filter (\<lambda>(j, t, y). j \<noteq> i) (ef_contents ef) \<and> s' = on_expiry x s \<and>
    ef_next ef' = ef_next ef \<and> length (ef_entries ef') \<le> length (ef_entries ef)"
proof -
  let ?f = "\<lambda>e. if ee_id e = i then e\<lparr>ee_payload := None, ee_timer := None\<rparr> else e"
  let ?ef = "ef\<lparr>ef_list := cf_modify ?f (ef_list ef), ef_size := ef_size ef - 1\<rparr>"
  have dist: "distinct (map ee_id (ef_entries ef))" using inv by (simp add: ef_inv_def)
  obtain e where e: "find (ef_armed i) (ef_entries ef) = Some e" "ee_payload e = Some x"
    using ef_find_armed [OF dist, of i t x] live unfolding ef_contents_def by blast
  have res: "ef' = ef_drop_expired_front ?ef" "s' = on_expiry x s"
    using ret e by (simp_all add: ef_expire_def)
  have m: "cf_inv ef_ipc (ef_list ?ef) \<and> ef_entries ?ef = map ?f (ef_entries ef)"
    using cf_modify_inv [of ef_ipc "ef_list ef" ?f] inv by (simp add: ef_inv_def)
  have c: "ef_contents ?ef = filter (\<lambda>(j, t, y). j \<noteq> i) (ef_contents ef)"
    using m ef_live_expire [of i "ef_entries ef"] by (simp add: ef_contents_def)
  have "Suc (length (filter (\<lambda>(j, z). j \<noteq> i) (ef_contents ef))) = length (ef_contents ef)"
    using filter_out_one [OF ef_live_distinct [OF dist]] live by (auto simp: ef_contents_def)
  moreover have "(\<lambda>(j, z). j \<noteq> i) = (\<lambda>(j, t, y). j \<noteq> i)" by auto
  ultimately have n: "of_nat (length (ef_contents ef)) = (of_nat (length (ef_contents ?ef)) + 1 :: size_t)"
    unfolding c by (metis of_nat_Suc add.commute)
  have ids: "map ee_id (map ?f (ef_entries ef)) = map ee_id (ef_entries ef)" by simp
  have "ef_inv (ef_drop_expired_front ?ef) \<and> ef_contents (ef_drop_expired_front ?ef) = ef_contents ?ef"
  proof (rule ef_drop_inv)
    show "ef_size ?ef = of_nat (length (ef_contents ?ef))" 
    proof -
      have "ef_size ef = of_nat (length (ef_contents ?ef)) + 1" using inv n unfolding ef_inv_def by metis
      then have "ef_size ef - 1 = of_nat (length (ef_contents ?ef))" by (simp only: diff_eq_eq)
      moreover have "ef_size ?ef = ef_size ef - 1" by simp
      ultimately show ?thesis by (rule back_subst [where P = "\<lambda>x. x = _", OF _ sym])
    qed
    show "distinct (map ee_id (ef_entries ?ef))" using m dist ids by (simp del: map_map)
    show "\<forall>e \<in> set (ef_entries ?ef). ee_id e < ef_next ?ef" using m inv by (auto simp: ef_inv_def)
  qed (use m inv in \<open>simp_all add: ef_inv_def\<close>)
  moreover have "length (ef_entries (ef_drop_expired_front ?ef)) \<le> length (ef_entries ef)"
    using ef_drop_length [of ?ef] m by simp
  ultimately show ?thesis using res c by (simp add: ef_drop_expired_front_def)
qed

lemma ef_expire_dead:
  assumes "\<forall>t x. (i, Some t, x) \<notin> set (ef_contents ef)"
  shows "ef_expire on_expiry i ef s = (ef, s)"
proof -
  have "find (ef_armed i) (ef_entries ef) = None"
    unfolding find_None_iff using assms ef_armed_live by (fastforce simp: ef_contents_def)
  then show ?thesis by (simp add: ef_expire_def)
qed

section \<open>Properties\<close>

text \<open>
  C20. The expiring queue implements a queue with removal by deadline.  A push appends the element with
  its deadline (and changes nothing when it throws), a pop removes the front element, and the
  expiry of an entry removes exactly that entry, wherever it is, and hands its payload to
  \<open>OnExpiry\<close>; \<open>size\<close> counts the unexpired elements and the front element is never an expired one.
\<close>

theorem ef_ops_correct:
  assumes "ef_inv ef"
  shows "(length (ef_entries ef) < 2 ^ 64 - 1 \<longrightarrow>
       (case ef_push_back_until env x t ef of (r, ef') \<Rightarrow> ef_inv ef' \<and>
          ef_contents ef' = (if r = None
            then ef_contents ef @ [(ef_next ef, if t < time_max then Some t else None, x)] else ef_contents ef))) \<and>
     (ef_contents ef \<noteq> [] \<longrightarrow>
       ef_front ef = Some (hd (ef_to_list ef)) \<and>
       ef_inv (ef_pop_front ef) \<and> ef_contents (ef_pop_front ef) = tl (ef_contents ef)) \<and>
     ((i, Some d, y) \<in> set (ef_contents ef) \<longrightarrow>
       (case ef_expire on_expiry i ef s of (ef', s') \<Rightarrow>
          ef_inv ef' \<and> ef_contents ef' = filter (\<lambda>(j, _, _). j \<noteq> i) (ef_contents ef) \<and> s' = on_expiry y s)) \<and>
     ef_size ef = of_nat (length (ef_contents ef))"
proof (intro conjI impI)
  show "case ef_push_back_until env x t ef of (r, ef') \<Rightarrow> ef_inv ef' \<and>
          ef_contents ef' = (if r = None
            then ef_contents ef @ [(ef_next ef, if t < time_max then Some t else None, x)] else ef_contents ef)"
    if small: "length (ef_entries ef) < 2 ^ 64 - 1"
    using ef_emplace_inv [OF assms small, of env x "if t < time_max then Some t else None"]
    by (auto simp: ef_push_back_until_def split: prod.split)
  show "ef_front ef = Some (hd (ef_to_list ef))" if "ef_contents ef \<noteq> []"
    using ef_front_hd [OF assms] that by (cases "ef_contents ef") (auto simp: ef_to_list_def)
  show "ef_inv (ef_pop_front ef)" "ef_contents (ef_pop_front ef) = tl (ef_contents ef)" if "ef_contents ef \<noteq> []"
    using ef_pop_front_inv [OF assms] that by (cases "ef_contents ef"; auto)+
  show "case ef_expire on_expiry i ef s of (ef', s') \<Rightarrow>
          ef_inv ef' \<and> ef_contents ef' = filter (\<lambda>(j, _, _). j \<noteq> i) (ef_contents ef) \<and> s' = on_expiry y s"
    if "(i, Some d, y) \<in> set (ef_contents ef)"
    by (cases "ef_expire on_expiry i ef s") (simp add: ef_expire_inv [OF assms that])
  show "ef_size ef = of_nat (length (ef_contents ef))" using assms by (simp add: ef_inv_def)
qed

theorem ef_ops_correct_witness:
  "\<exists>ef ef'. ef_push_back_until (cf_env_at 16) (5 :: nat) 10 ef_new = (None, ef) \<and>
      ef_contents ef = [(0, Some 10, 5)] \<and> ef_expire (\<lambda>x s. x # s) 0 ef [] = (ef', [5]) \<and> ef_contents ef' = []"
proof -
  let ?push = "ef_push_back_until (cf_env_at 16) (5 :: nat) 10 ef_new"
  have "fst ?push = None" by code_simp
  then obtain ef where ef: "?push = (None, ef)" by (metis prod.collapse)
  have c: "ef_inv ef \<and> ef_contents ef = [(0, Some 10, 5)]"
    using ef_ops_correct [where ef = "ef_new :: nat expiring_fifo" and env = "cf_env_at 16" and x = 5 and t = 10] ef
    by (simp add: time_max_def)
  obtain ef' s' where ex: "ef_expire (\<lambda>x s. x # s) 0 ef [] = (ef', s')" by fastforce
  have "ef_contents ef' = [] \<and> s' = [5]"
    using ef_expire_inv [OF _ _ ex, of 10 5] c by simp
  then show ?thesis using ef ex c by auto
qed

end
