(* ===== verification/Semaphore.thy ===== *)
theory Semaphore
  imports ExpiringFifo
begin

text \<open>
  \<open>core/semaphore.hh\<close>: the counting semaphore for futures and the units it hands out.

  The counter is a \<open>ssize_t\<close>, here a \<open>64 word\<close> that \<open>sint\<close> reads; a waiter is a promise and
  the number of units it waits for.  The waiters are in an expiring queue, whose timers fire as
  steps of their own (\<open>sm_expire\<close>).  Every operation also passes on the store of promises, in
  which the outcome of each \<open>wait\<close> is seen.
\<close>

section \<open>State and operations\<close>

type_synonym sm_waiter = "nat \<times> size_t"

record semaphore =
  sm_count :: size_t
  sm_ex :: "exn option"
  sm_wait_list :: "sm_waiter expiring_fifo"

type_synonym sm_state = "semaphore \<times> promise_store"

definition sm_new :: "size_t \<Rightarrow> semaphore" where
  "sm_new count = \<lparr>sm_count = count, sm_ex = None, sm_wait_list = ef_new\<rparr>"

definition has_units :: "size_t \<Rightarrow> size_t \<Rightarrow> bool" where
  "has_units count nr \<longleftrightarrow> 0 \<le> sint count \<and> nr \<le> count"

definition sm_may_proceed :: "size_t \<Rightarrow> semaphore \<Rightarrow> bool" where
  "sm_may_proceed nr sm \<longleftrightarrow> has_units (sm_count sm) nr \<and> ef_empty (sm_wait_list sm)"

text \<open>\<open>wait(timeout, nr)\<close>; it can throw when the waiter cannot be queued.\<close>

definition sm_wait_until :: "sm_waiter ef_entry cf_env \<Rightarrow> time_point \<Rightarrow> size_t \<Rightarrow> sm_state \<Rightarrow> (exn + fut) \<times> sm_state" where
  "sm_wait_until env timeout nr = (\<lambda>(sm, ps).
     if sm_may_proceed nr sm then (Inr Ready_fut, sm\<lparr>sm_count := sm_count sm - nr\<rparr>, ps)
     else case sm_ex sm of
       Some e \<Rightarrow> (Inr (Exn_fut e), sm, ps)
     | None \<Rightarrow>
         (case new_promise ps of (p, ps1) \<Rightarrow>
           case ef_push_back_until env (p, nr) timeout (sm_wait_list sm) of
             (Some e, wl) \<Rightarrow> (Inl e, sm\<lparr>sm_wait_list := wl\<rparr>, ps1)
           | (None, wl) \<Rightarrow> (Inr (Promise_fut p), sm\<lparr>sm_wait_list := wl\<rparr>, ps1)))"

definition sm_wait :: "sm_waiter ef_entry cf_env \<Rightarrow> size_t \<Rightarrow> sm_state \<Rightarrow> (exn + fut) \<times> sm_state" where
  "sm_wait env nr = sm_wait_until env time_max nr"

definition sm_wait_for :: "sm_waiter ef_entry cf_env \<Rightarrow> time_point \<Rightarrow> time_point \<Rightarrow> size_t \<Rightarrow> sm_state \<Rightarrow> (exn + fut) \<times> sm_state" where
  "sm_wait_for env now duration nr = sm_wait_until env (now + duration) nr"

definition sm_signal :: "size_t \<Rightarrow> sm_state \<Rightarrow> sm_state" where
  "sm_signal nr = (\<lambda>(sm, ps).
     if sm_ex sm \<noteq> None then (sm, ps)
     else (case pop_while ef_empty ef_front ef_pop_front
             (\<lambda>(p, n) (c, ps). has_units c n) (\<lambda>(p, n) (c, ps). (c - n, resolve p Ready ps))
             (sm_wait_list sm) (sm_count sm + nr, ps) of
           (wl, c, ps') \<Rightarrow> (sm\<lparr>sm_count := c, sm_wait_list := wl\<rparr>, ps')))"

definition sm_consume :: "size_t \<Rightarrow> semaphore \<Rightarrow> semaphore" where
  "sm_consume nr sm = (if sm_ex sm \<noteq> None then sm else sm\<lparr>sm_count := sm_count sm - nr\<rparr>)"

definition sm_try_wait :: "size_t \<Rightarrow> semaphore \<Rightarrow> bool \<times> semaphore" where
  "sm_try_wait nr sm =
     (if sm_may_proceed nr sm then (True, sm\<lparr>sm_count := sm_count sm - nr\<rparr>) else (False, sm))"

definition sm_current :: "semaphore \<Rightarrow> size_t" where
  "sm_current sm = (if 0 \<le> sint (sm_count sm) then sm_count sm else 0)"

definition sm_available_units :: "semaphore \<Rightarrow> int" where
  "sm_available_units sm = sint (sm_count sm)"

definition sm_waiters :: "semaphore \<Rightarrow> size_t" where
  "sm_waiters sm = ef_size (sm_wait_list sm)"

definition sm_broken :: "exn \<Rightarrow> sm_state \<Rightarrow> sm_state" where
  "sm_broken xp = (\<lambda>(sm, ps).
     case pop_while ef_empty ef_front ef_pop_front (\<lambda>_ _. True) (\<lambda>(p, n) ps. resolve p (Failed xp) ps)
       (sm_wait_list sm) ps of
       (wl, ps') \<Rightarrow> (\<lparr>sm_count = 0, sm_ex = Some xp, sm_wait_list = wl\<rparr>, ps'))"

definition sm_ensure_space :: "sm_waiter ef_entry cf_env \<Rightarrow> size_t \<Rightarrow> semaphore \<Rightarrow> exn option \<times> semaphore" where
  "sm_ensure_space env n sm =
     (case ef_reserve env n (sm_wait_list sm) of (r, wl) \<Rightarrow> (r, sm\<lparr>sm_wait_list := wl\<rparr>))"

text \<open>The timer of the waiter with identity \<open>i\<close> fires: \<open>expiry_handler\<close> fails its promise.\<close>

definition sm_expire :: "nat \<Rightarrow> sm_state \<Rightarrow> sm_state" where
  "sm_expire i = (\<lambda>(sm, ps).
     case ef_expire (\<lambda>(p, n) ps. resolve p (Failed Semaphore_timed_out) ps) i (sm_wait_list sm) ps of
       (wl, ps') \<Rightarrow> (sm\<lparr>sm_wait_list := wl\<rparr>, ps'))"

text \<open>\<open>semaphore_units\<close> is the number of units it still owns.\<close>

definition units_move :: "size_t \<Rightarrow> size_t \<times> size_t" where
  "units_move n = (n, 0)"

definition units_destroy :: "size_t \<Rightarrow> sm_state \<Rightarrow> sm_state" where
  "units_destroy n s = (if n \<noteq> 0 then sm_signal n s else s)"

definition units_release :: "size_t \<Rightarrow> size_t \<times> size_t" where
  "units_release n = (n, 0)"

definition units_assign :: "bool \<Rightarrow> size_t \<Rightarrow> size_t \<Rightarrow> sm_state \<Rightarrow> size_t \<times> size_t \<times> sm_state" where
  "units_assign same n m s =
     (if same then (n, m, s) else case units_move m of (n', m') \<Rightarrow> (n', m', units_destroy n s))"

definition consume_units :: "size_t \<Rightarrow> semaphore \<Rightarrow> size_t \<times> semaphore" where
  "consume_units units sm = (units, sm_consume units sm)"

section \<open>The waiters and the invariant\<close>

abbreviation sm_queue :: "semaphore \<Rightarrow> sm_waiter list" where
  "sm_queue sm \<equiv> ef_to_list (sm_wait_list sm)"

text \<open>
  The queued promises are distinct, pending and exist; after \<open>broken\<close> nobody waits.  The bound on
  the number of stored waiters keeps the counter of the queue below its wrap-around.
\<close>

definition sm_inv :: "nat \<Rightarrow> sm_state \<Rightarrow> bool" where
  "sm_inv n = (\<lambda>(sm, ps).
     ef_bounded n (sm_wait_list sm) \<and> distinct (map fst (sm_queue sm)) \<and>
     (\<forall>p \<in> fst ` set (sm_queue sm). p < pr_next ps \<and> pr_state ps p = Pending) \<and>
     (sm_ex sm \<noteq> None \<longrightarrow> sm_queue sm = []))"

text \<open>The grants of \<open>signal\<close>, on the list of waiters: the waiters that leave and the count left.\<close>

fun sm_grants :: "size_t \<Rightarrow> sm_waiter list \<Rightarrow> sm_waiter list" where
  "sm_grants c [] = []"
| "sm_grants c ((p, n) # ws) = (if has_units c n then (p, n) # sm_grants (c - n) ws else [])"

fun resolve_all :: "fstate \<Rightarrow> nat list \<Rightarrow> promise_store \<Rightarrow> promise_store" where
  "resolve_all r [] ps = ps"
| "resolve_all r (p # qs) ps = resolve_all r qs (resolve p r ps)"

lemma pr_next_resolve_all [simp]: "pr_next (resolve_all r qs ps) = pr_next ps"
  by (induction qs arbitrary: ps) auto

lemma pr_state_resolve_all: "pr_state (resolve_all r qs ps) p = (if p \<in> set qs then r else pr_state ps p)"
  by (induction qs arbitrary: ps) auto

lemma sm_grants_prefix: "\<exists>rest. ws = sm_grants c ws @ rest"
  by (induction c ws rule: sm_grants.induct) auto

lemma sm_grants_drop: "sm_grants c ws @ drop (length (sm_grants c ws)) ws = ws"
  using sm_grants_prefix [of ws c] by (metis append_eq_conv_conj)

lemma sm_grants_covered:
  "k < length (sm_grants c ws) \<Longrightarrow> has_units (c - sum_list (map snd (take k (sm_grants c ws)))) (snd (sm_grants c ws ! k))"
proof (induction c ws arbitrary: k rule: sm_grants.induct)
  case (2 c p n ws)
  show ?case
  proof (cases "has_units c n")
    case True
    then show ?thesis using 2(1) [OF True] 2(2) by (cases k) (simp_all add: diff_diff_eq)
  qed (use 2(2) in simp)
qed simp

lemma consume_grants:
  "consume_list (\<lambda>(p, n) (c, ps). has_units c n) (\<lambda>(p, n) (c, ps). (c - n, resolve p Ready ps)) ws (c, ps) =
     (drop (length (sm_grants c ws)) ws,
      c - sum_list (map snd (sm_grants c ws)), resolve_all Ready (map fst (sm_grants c ws)) ps)"
  by (induction c ws arbitrary: ps rule: sm_grants.induct) (auto simp: diff_diff_eq)

lemma consume_all_resolve:
  "consume_list (\<lambda>_ _. True) (\<lambda>(p, n) ps. resolve p r ps) ws ps = ([], resolve_all r (map fst ws) ps)"
  by (induction ws arbitrary: ps) auto

text \<open>Both loops over the waiters, in terms of the list of waiters.\<close>

lemma sm_signal_loop:
  assumes "ef_bounded n (sm_wait_list sm)" and "sm_ex sm = None"
    and "sm_signal nr (sm, ps) = (sm', ps')"
  defines "g \<equiv> sm_grants (sm_count sm + nr) (sm_queue sm)"
  shows "ef_bounded n (sm_wait_list sm') \<and> sm_queue sm' = drop (length g) (sm_queue sm) \<and>
     sm_count sm' = sm_count sm + nr - sum_list (map snd g) \<and> ps' = resolve_all Ready (map fst g) ps \<and>
     sm_ex sm' = None"
proof -
  let ?loop = "pop_while ef_empty ef_front ef_pop_front (\<lambda>(p, n) (c, ps). has_units c n)
     (\<lambda>(p, n) (c, ps). (c - n, resolve p Ready ps)) (sm_wait_list sm) (sm_count sm + nr, ps)"
  obtain wl c ps1 where l: "?loop = (wl, c, ps1)" by (metis prod.collapse)
  have "sm' = sm\<lparr>sm_count := c, sm_wait_list := wl\<rparr>" "ps' = ps1"
    using assms(2,3) l by (simp_all add: sm_signal_def)
  then show ?thesis
    using efq.pop_while_list [OF assms(1), of "\<lambda>(p, n) (c, ps). has_units c n"
        "\<lambda>(p, n) (c, ps). (c - n, resolve p Ready ps)" "(sm_count sm + nr, ps)"] l assms(2)
    by (simp add: consume_grants g_def)
qed

lemma sm_broken_loop:
  assumes "ef_bounded n (sm_wait_list sm)" and "sm_broken xp (sm, ps) = (sm', ps')"
  shows "ef_bounded n (sm_wait_list sm') \<and> sm_queue sm' = [] \<and> sm_count sm' = 0 \<and> sm_ex sm' = Some xp \<and>
     ps' = resolve_all (Failed xp) (map fst (sm_queue sm)) ps"
proof -
  let ?loop = "pop_while ef_empty ef_front ef_pop_front (\<lambda>_ _. True) (\<lambda>(p, n) ps. resolve p (Failed xp) ps)
       (sm_wait_list sm) ps"
  obtain wl ps1 where l: "?loop = (wl, ps1)" by (metis prod.collapse)
  have "sm' = \<lparr>sm_count = 0, sm_ex = Some xp, sm_wait_list = wl\<rparr>" "ps' = ps1"
    using assms(2) l by (simp_all add: sm_broken_def)
  then show ?thesis
    using efq.pop_while_list [OF assms(1), of "\<lambda>_ _. True" "\<lambda>(p, n) ps. resolve p (Failed xp) ps" ps] l
    by (simp add: consume_all_resolve)
qed

lemma sm_grants_stop: "sm_grants c ws @ w # rest = ws \<Longrightarrow> \<not> has_units (c - sum_list (map snd (sm_grants c ws))) (snd w)"
  by (induction c ws rule: sm_grants.induct) (auto simp: diff_diff_eq split: if_splits)

text \<open>What remains queued after a signal starts with a waiter that cannot be served.\<close>

lemma sm_grants_rest:
  assumes "drop (length (sm_grants c ws)) ws = w # rest"
  shows "\<not> has_units (c - sum_list (map snd (sm_grants c ws))) (snd w)"
  using sm_grants_stop [of c ws w rest] sm_grants_drop [of c ws] assms by simp

section \<open>Preservation of the invariant\<close>

lemma sm_new_inv: "sm_inv n (sm_new c, ps)"
  by (simp add: sm_inv_def sm_new_def ef_bounded_def ef_to_list_def)

lemma sm_inv_mono: "sm_inv n s \<Longrightarrow> n \<le> m \<Longrightarrow> sm_inv m s"
  by (auto simp: sm_inv_def ef_bounded_def)

lemma sm_inv_count [simp]: "sm_inv n (sm\<lparr>sm_count := c\<rparr>, ps) \<longleftrightarrow> sm_inv n (sm, ps)"
  by (simp add: sm_inv_def)

lemma ef_bounded_push:
  assumes "ef_bounded n wl" and "n < 2 ^ 64 - 1" and "ef_push_back_until env x t wl = (r, wl')"
  shows "ef_bounded (Suc n) wl' \<and> ef_to_list wl' = (if r = None then ef_to_list wl @ [x] else ef_to_list wl)"
  using assms ef_emplace_inv [of wl env x "if t < time_max then Some t else None" r wl']
  by (auto simp: ef_bounded_def ef_push_back_until_def ef_to_list_def split: if_splits)

lemma ef_bounded_expire:
  assumes "ef_bounded n wl" and "ef_expire f i wl s = (wl', s')"
  shows "ef_bounded n wl' \<and>
    ((wl' = wl \<and> s' = s) \<or>
     (\<exists>t x xs ys. ef_contents wl = xs @ (i, Some t, x) # ys \<and> ef_contents wl' = xs @ ys \<and> s' = f x s))"
proof (cases "\<exists>t x. (i, Some t, x) \<in> set (ef_contents wl)")
  case True
  then obtain t x where m: "(i, Some t, x) \<in> set (ef_contents wl)" by blast
  have inv: "ef_inv wl" using assms(1) by (simp add: ef_bounded_def)
  note e = ef_expire_inv [OF inv m assms(2)]
  obtain xs ys where c: "ef_contents wl = xs @ (i, Some t, x) # ys" using split_list [OF m] by blast
  have "distinct (map fst (ef_contents wl))"
    using inv ef_live_distinct by (auto simp: ef_inv_def ef_contents_def)
  then have "\<forall>a \<in> set xs \<union> set ys. fst a \<noteq> i" unfolding c by force
  then have "filter (\<lambda>(j, t, y). j \<noteq> i) xs = xs" "filter (\<lambda>(j, t, y). j \<noteq> i) ys = ys"
    by (force simp: filter_id_conv)+
  then show ?thesis using e c assms(1) by (auto simp: ef_bounded_def)
next
  case False
  then show ?thesis using ef_expire_dead [of i wl f s] assms by auto
qed

lemma sm_inv_resolve_subset:
  assumes "distinct (map fst (g @ rest))" and "\<forall>p \<in> fst ` set (g @ rest). pr_state ps p = Pending"
  shows "\<forall>p \<in> fst ` set rest. pr_state (resolve_all r (map fst g) ps) p = Pending"
  using assms by (force simp: pr_state_resolve_all)

lemma sm_signal_inv:
  assumes "sm_inv n (sm, ps)"
  shows "sm_inv n (sm_signal nr (sm, ps))"
proof (cases "sm_ex sm")
  case (Some e)
  then show ?thesis using assms by (simp add: sm_signal_def)
next
  case None
  obtain sm' ps' where s: "sm_signal nr (sm, ps) = (sm', ps')" by fastforce
  have b: "ef_bounded n (sm_wait_list sm)" using assms by (simp add: sm_inv_def)
  let ?g = "sm_grants (sm_count sm + nr) (sm_queue sm)"
  let ?rest = "drop (length ?g) (sm_queue sm)"
  note l = sm_signal_loop [OF b None s]
  have q: "?g @ ?rest = sm_queue sm" by (rule sm_grants_drop)
  have "distinct (map fst (?g @ ?rest))" "\<forall>p \<in> fst ` set (?g @ ?rest). p < pr_next ps \<and> pr_state ps p = Pending"
    using assms unfolding q by (simp_all add: sm_inv_def)
  then show ?thesis using l sm_inv_resolve_subset [of ?g ?rest ps Ready] unfolding s
    by (auto simp: sm_inv_def)
qed

lemma sm_broken_inv:
  assumes "sm_inv n (sm, ps)"
  shows "sm_inv n (sm_broken xp (sm, ps))"
proof -
  obtain sm' ps' where s: "sm_broken xp (sm, ps) = (sm', ps')" by fastforce
  have "ef_bounded n (sm_wait_list sm)" using assms by (simp add: sm_inv_def)
  from sm_broken_loop [OF this s] show ?thesis by (simp add: sm_inv_def s)
qed

lemma sm_wait_cases:
  assumes inv: "sm_inv n (sm, ps)" and n: "n < 2 ^ 64 - 1"
    and ret: "sm_wait_until env t nr (sm, ps) = (res, sm', ps')"
  shows "sm_inv (Suc n) (sm', ps') \<and>
    ((sm_may_proceed nr sm \<and> res = Inr Ready_fut \<and> sm' = sm\<lparr>sm_count := sm_count sm - nr\<rparr> \<and> ps' = ps) \<or>
     (\<not> sm_may_proceed nr sm \<and> (\<exists>e. sm_ex sm = Some e \<and> res = Inr (Exn_fut e) \<and> sm' = sm \<and> ps' = ps)) \<or>
     (\<not> sm_may_proceed nr sm \<and> sm_ex sm = None \<and> sm_count sm' = sm_count sm \<and> sm_ex sm' = None \<and>
        ps' = snd (new_promise ps) \<and>
        ((res = Inr (Promise_fut (pr_next ps)) \<and> sm_queue sm' = sm_queue sm @ [(pr_next ps, nr)]) \<or>
         ((\<exists>e. res = Inl e) \<and> sm_queue sm' = sm_queue sm))))"
proof (cases "sm_may_proceed nr sm")
  case True
  then show ?thesis using ret sm_inv_mono [OF inv, of "Suc n"] by (auto simp: sm_wait_until_def)
next
  case False
  show ?thesis
  proof (cases "sm_ex sm")
    case (Some e)
    then show ?thesis using False ret sm_inv_mono [OF inv, of "Suc n"] by (auto simp: sm_wait_until_def)
  next
    case None
    obtain r wl where p: "ef_push_back_until env (pr_next ps, nr) t (sm_wait_list sm) = (r, wl)" by fastforce
    have b: "ef_bounded n (sm_wait_list sm)" using inv by (simp add: sm_inv_def)
    note push = ef_bounded_push [OF b n p]
    have eqs: "sm' = sm\<lparr>sm_wait_list := wl\<rparr>" "ps' = snd (new_promise ps)"
      "res = (case r of Some e \<Rightarrow> Inl e | None \<Rightarrow> Inr (Promise_fut (pr_next ps)))"
      using ret False None p by (auto simp: sm_wait_until_def new_promise_def split: option.splits)
    have "sm_inv (Suc n) (sm', ps')"
      using inv push None unfolding sm_inv_def eqs new_promise_def by (fastforce simp: less_SucI split: if_splits)
    then show ?thesis using push False None eqs by (cases r) auto
  qed
qed

lemma sm_inv_remove:
  assumes "distinct (map fst (xs @ (p, nr) # ys))"
    and "\<forall>q \<in> fst ` set (xs @ (p, nr) # ys). q < pr_next ps \<and> pr_state ps q = Pending"
  shows "distinct (map fst (xs @ ys)) \<and>
    (\<forall>q \<in> fst ` set (xs @ ys). q < pr_next (resolve p r ps) \<and> pr_state (resolve p r ps) q = Pending)"
proof -
  have "p \<notin> fst ` set (xs @ ys)" using assms(1) by auto
  then show ?thesis using assms by auto
qed

lemma sm_expire_cases:
  assumes inv: "sm_inv n (sm, ps)" and ret: "sm_expire i (sm, ps) = (sm', ps')"
  shows "sm_inv n (sm', ps') \<and> sm_count sm' = sm_count sm \<and> sm_ex sm' = sm_ex sm \<and> pr_next ps' = pr_next ps \<and>
    ((sm_queue sm' = sm_queue sm \<and> ps' = ps) \<or>
     (\<exists>xs p nr ys. sm_queue sm = xs @ (p, nr) # ys \<and> sm_queue sm' = xs @ ys \<and>
        ps' = resolve p (Failed Semaphore_timed_out) ps))"
proof -
  let ?h = "\<lambda>(p, n) ps. resolve p (Failed Semaphore_timed_out) ps"
  obtain wl ps1 where e: "ef_expire ?h i (sm_wait_list sm) ps = (wl, ps1)" by fastforce
  have b: "ef_bounded n (sm_wait_list sm)" using inv by (simp add: sm_inv_def)
  have eqs: "sm' = sm\<lparr>sm_wait_list := wl\<rparr>" "ps' = ps1" using ret e by (simp_all add: sm_expire_def)
  note c = ef_bounded_expire [OF b e]
  show ?thesis
  proof (cases "wl = sm_wait_list sm \<and> ps1 = ps")
    case True
    then show ?thesis using inv eqs by simp
  next
    case False
    then obtain t x xs ys where x: "ef_contents (sm_wait_list sm) = xs @ (i, Some t, x) # ys"
      "ef_contents wl = xs @ ys" "ps1 = ?h x ps" using c by blast
    obtain p nr where pn: "x = (p, nr)" by fastforce
    let ?f = "map (snd \<circ> snd)"
    have q: "sm_queue sm = ?f xs @ (p, nr) # ?f ys" "sm_queue sm' = ?f xs @ ?f ys"
      "ps' = resolve p (Failed Semaphore_timed_out) ps"
      using x pn eqs by (simp_all add: ef_to_list_def)
    have "sm_inv n (sm', ps')"
      using sm_inv_remove [of "?f xs" p nr "?f ys" ps] inv c q eqs(1) by (simp add: sm_inv_def)
    then show ?thesis using q eqs(1) by auto
  qed
qed

section \<open>Runs\<close>

text \<open>
  A run of a semaphore: calls and timer events in any order.  The timers that may fire are
  those of queued waiters (firing anything else has no effect).
\<close>

datatype sm_op =
    Sm_wait "sm_waiter ef_entry cf_env" time_point size_t
  | Sm_try_wait size_t
  | Sm_signal size_t
  | Sm_consume size_t
  | Sm_broken exn
  | Sm_expire nat

fun sm_step :: "sm_op \<Rightarrow> sm_state \<Rightarrow> sm_state" where
  "sm_step (Sm_wait env t nr) s = snd (sm_wait_until env t nr s)"
| "sm_step (Sm_try_wait nr) (sm, ps) = (snd (sm_try_wait nr sm), ps)"
| "sm_step (Sm_signal nr) s = sm_signal nr s"
| "sm_step (Sm_consume nr) (sm, ps) = (sm_consume nr sm, ps)"
| "sm_step (Sm_broken e) s = sm_broken e s"
| "sm_step (Sm_expire i) s = sm_expire i s"

definition sm_run :: "sm_op list \<Rightarrow> sm_state \<Rightarrow> sm_state" where
  "sm_run ops s = fold sm_step ops s"

lemma sm_step_inv:
  assumes "sm_inv n s" and "n < 2 ^ 64 - 1"
  shows "sm_inv (Suc n) (sm_step op s)"
proof -
  obtain sm ps where s: "s = (sm, ps)" by fastforce
  note inv = assms(1) [unfolded s]
  have mono: "sm_inv n s' \<Longrightarrow> sm_inv (Suc n) s'" for s' by (erule sm_inv_mono) simp
  show ?thesis
  proof (cases op)
    case (Sm_wait env t nr)
    then show ?thesis
      using sm_wait_cases [OF inv assms(2), of env t nr] s by (cases "sm_wait_until env t nr (sm, ps)") auto
  next
    case (Sm_try_wait nr)
    then show ?thesis using s mono [OF inv] by (simp add: sm_try_wait_def)
  next
    case (Sm_signal nr)
    then show ?thesis using s mono [OF sm_signal_inv [OF inv]] by simp
  next
    case (Sm_consume nr)
    then show ?thesis using s mono [OF inv] by (simp add: sm_consume_def)
  next
    case (Sm_broken e)
    then show ?thesis using s mono [OF sm_broken_inv [OF inv]] by simp
  next
    case (Sm_expire i)
    then show ?thesis using s mono sm_expire_cases [OF inv, of i] by (cases "sm_expire i (sm, ps)") auto
  qed
qed

lemma sm_run_inv:
  assumes "sm_inv n s" and "n + length ops < 2 ^ 64"
  shows "sm_inv (n + length ops) (sm_run ops s)"
  using assms
proof (induction ops arbitrary: n s)
  case (Cons op ops)
  have "sm_inv (Suc n) (sm_step op s)" using Cons.prems by (intro sm_step_inv) simp_all
  from Cons.IH [OF this] Cons.prems show ?case by (simp add: sm_run_def)
qed (simp add: sm_run_def)

section \<open>The ledger of units\<close>

text \<open>The units that a step deposits and the units that it hands out.\<close>

fun sm_deposited :: "sm_op \<Rightarrow> nat" where
  "sm_deposited (Sm_signal nr) = unat nr"
| "sm_deposited _ = 0"

fun sm_taken :: "sm_op \<Rightarrow> sm_state \<Rightarrow> nat" where
  "sm_taken (Sm_wait env t nr) s = (if fst (sm_wait_until env t nr s) = Inr Ready_fut then unat nr else 0)"
| "sm_taken (Sm_try_wait nr) s = (if fst (sm_try_wait nr (fst s)) then unat nr else 0)"
| "sm_taken (Sm_signal nr) s =
     (let ws = sm_queue (fst s); ws' = sm_queue (fst (sm_signal nr s)) in
      sum_list (map (unat \<circ> snd) (take (length ws - length ws') ws)))"
| "sm_taken _ s = 0"

fun sm_total_taken :: "sm_op list \<Rightarrow> sm_state \<Rightarrow> nat" where
  "sm_total_taken [] s = 0"
| "sm_total_taken (op # ops) s = sm_taken op s + sm_total_taken ops (sm_step op s)"

text \<open>Operations that only move units between the counter and its users.\<close>

fun sm_conserving :: "sm_op \<Rightarrow> bool" where
  "sm_conserving (Sm_consume nr) = False"
| "sm_conserving (Sm_broken e) = False"
| "sm_conserving _ = True"

lemma has_units_diff: "has_units c n \<Longrightarrow> unat (c - n) + unat n = unat c"
  by (simp add: has_units_def unat_diff_le word_le_nat_alt)

lemma sm_grants_sum:
  "unat (c - sum_list (map snd (sm_grants c ws))) + sum_list (map (unat \<circ> snd) (sm_grants c ws)) = unat c"
proof (induction c ws rule: sm_grants.induct)
  case (2 c p n ws)
  show ?case
  proof (cases "has_units c n")
    case True
    then show ?thesis using 2 [OF True] has_units_diff [OF True] by (simp add: diff_diff_eq)
  qed simp
qed simp

lemma sm_step_conserves:
  assumes inv: "sm_inv n (sm, ps)" and n: "n < 2 ^ 64 - 1" and ex: "sm_ex sm = None" and op: "sm_conserving op"
    and small: "unat (sm_count sm) + sm_deposited op < 2 ^ 64"
    and step: "sm_step op (sm, ps) = (sm', ps')"
  shows "unat (sm_count sm') + sm_taken op (sm, ps) = unat (sm_count sm) + sm_deposited op \<and> sm_ex sm' = None"
proof (cases op)
  case (Sm_wait env t nr)
  obtain res where "sm_wait_until env t nr (sm, ps) = (res, sm', ps')" using step Sm_wait by (auto simp: prod_eq_iff)
  then show ?thesis using sm_wait_cases [OF inv n] Sm_wait ex
    by (fastforce simp: sm_may_proceed_def dest: has_units_diff)
next
  case (Sm_try_wait nr)
  then show ?thesis using step ex
    by (auto simp: sm_try_wait_def sm_may_proceed_def dest: has_units_diff split: if_splits)
next
  case (Sm_signal nr)
  have b: "ef_bounded n (sm_wait_list sm)" using inv by (simp add: sm_inv_def)
  have s: "sm_signal nr (sm, ps) = (sm', ps')" using step Sm_signal by simp
  let ?g = "sm_grants (sm_count sm + nr) (sm_queue sm)"
  note l = sm_signal_loop [OF b ex s]
  have "length ?g \<le> length (sm_queue sm)" using sm_grants_prefix [of "sm_queue sm"] by (metis le_add1 length_append)
  then have "length (sm_queue sm) - length (sm_queue sm') = length ?g" using l by simp
  moreover have "take (length ?g) (sm_queue sm) = ?g" using sm_grants_prefix [of "sm_queue sm"] by (metis append_eq_conv_conj)
  ultimately have "sm_taken op (sm, ps) = sum_list (map (unat \<circ> snd) ?g)"
    using s Sm_signal by simp
  moreover have "unat (sm_count sm + nr) = unat (sm_count sm) + unat nr"
    by (rule unat_add_lem [THEN iffD1]) (use small Sm_signal in simp)
  ultimately show ?thesis using l sm_grants_sum [of "sm_count sm + nr" "sm_queue sm"] Sm_signal by simp
next
  case (Sm_expire i)
  then show ?thesis using step sm_expire_cases [OF inv, of i sm' ps'] ex by simp
qed (use op in simp_all)

lemma sm_run_conserves:
  assumes "sm_inv n (sm, ps)" and "n + length ops < 2 ^ 64" and "sm_ex sm = None" and "\<forall>op \<in> set ops. sm_conserving op"
    and "unat (sm_count sm) + sum_list (map sm_deposited ops) < 2 ^ 64"
    and "sm_run ops (sm, ps) = (sm', ps')"
  shows "unat (sm_count sm') + sm_total_taken ops (sm, ps) = unat (sm_count sm) + sum_list (map sm_deposited ops)"
  using assms
proof (induction ops arbitrary: n sm ps)
  case (Cons op ops)
  obtain sm1 ps1 where s: "sm_step op (sm, ps) = (sm1, ps1)" by fastforce
  have n: "n < 2 ^ 64 - 1" using Cons.prems(2) by simp
  note c = sm_step_conserves [OF Cons.prems(1) n Cons.prems(3) _ _ s]
  have 1: "unat (sm_count sm1) + sm_taken op (sm, ps) = unat (sm_count sm) + sm_deposited op" "sm_ex sm1 = None"
    using c Cons.prems(4,5) by auto
  have inv1: "sm_inv (Suc n) (sm1, ps1)" using sm_step_inv [OF Cons.prems(1) n, of op] s by simp
  have "unat (sm_count sm') + sm_total_taken ops (sm1, ps1) = unat (sm_count sm1) + sum_list (map sm_deposited ops)"
    by (rule Cons.IH [OF inv1]) (use Cons.prems 1 s in \<open>simp_all add: sm_run_def\<close>)
  then show ?case using 1 s by simp
qed (simp add: sm_run_def)

text \<open>No waiter that could be served is left waiting.\<close>

definition sm_settled :: "semaphore \<Rightarrow> bool" where
  "sm_settled sm \<longleftrightarrow> (case sm_queue sm of [] \<Rightarrow> True | w # _ \<Rightarrow> \<not> has_units (sm_count sm) (snd w))"

text \<open>\<open>consume\<close> must not take the counter below the least \<open>ssize_t\<close>; timers do not fire.\<close>

fun sm_quiet :: "sm_op \<Rightarrow> semaphore \<Rightarrow> bool" where
  "sm_quiet (Sm_consume nr) sm \<longleftrightarrow> - (2 ^ 63) \<le> sint (sm_count sm) - uint nr"
| "sm_quiet (Sm_expire i) sm \<longleftrightarrow> False"
| "sm_quiet _ sm \<longleftrightarrow> True"

lemma sint_consume:
  assumes "- (2 ^ 63) \<le> sint c - uint (n :: size_t)"
  shows "sint (c - n) = sint c - uint n"
proof -
  have "sint (of_int i :: size_t) = signed_take_bit 63 i" for i by (simp add: signed_of_int)
  from this [of "sint c - uint n"] have "sint (c - n) = signed_take_bit 63 (sint c - uint n)" by simp
  moreover have "sint c < 2 ^ 63" using sint_lt [of c] by simp
  then have "sint c - uint n < 2 ^ 63" using uint_ge_0 [of n] by linarith
  ultimately show ?thesis using assms signed_take_bit_int_eq_self [of 63 "sint c - uint n"] by simp
qed

lemma has_units_consume:
  assumes "- (2 ^ 63) \<le> sint c - uint (nr :: size_t)" and "has_units (c - nr) n"
  shows "has_units c n"
proof -
  have s: "sint (c - nr) = sint c - uint nr" by (rule sint_consume [OF assms(1)])
  have c0: "0 \<le> sint c - uint nr" using assms(2) s by (simp add: has_units_def)
  have "0 \<le> uint nr" by simp
  then have c1: "0 \<le> sint c" using c0 by linarith
  have "sint c < 2 ^ 64" using sint_lt [of c] by simp
  with c1 have "uint c = sint c" by (simp add: uint_sint take_bit_int_eq_self)
  then have "nr \<le> c" using c0 by (simp add: word_le_def)
  then have "c - nr \<le> c" by (simp add: word_sub_le)
  then show ?thesis using assms(2) c1 by (auto simp: has_units_def)
qed

lemma sm_step_settled:
  assumes inv: "sm_inv n (sm, ps)" and n: "n < 2 ^ 64 - 1" and set: "sm_settled sm" and q: "sm_quiet op sm"
    and step: "sm_step op (sm, ps) = (sm', ps')"
  shows "sm_settled sm'"
proof (cases op)
  case (Sm_wait env t nr)
  obtain res where w: "sm_wait_until env t nr (sm, ps) = (res, sm', ps')" using step Sm_wait by (auto simp: prod_eq_iff)
  have b: "ef_bounded n (sm_wait_list sm)" using inv by (simp add: sm_inv_def)
  have mp: "sm_may_proceed nr sm \<longleftrightarrow> has_units (sm_count sm) nr \<and> sm_queue sm = []"
    using efq.is_empty_iff [OF b] by (simp add: sm_may_proceed_def)
  show ?thesis using sm_wait_cases [OF inv n w] set mp
    by (cases "sm_queue sm") (auto simp: sm_settled_def split: list.splits)
next
  case (Sm_try_wait nr)
  have b: "ef_bounded n (sm_wait_list sm)" using inv by (simp add: sm_inv_def)
  show ?thesis using step Sm_try_wait set efq.is_empty_iff [OF b]
    by (auto simp: sm_try_wait_def sm_may_proceed_def sm_settled_def split: if_splits)
next
  case (Sm_signal nr)
  show ?thesis
  proof (cases "sm_ex sm")
    case None
    have b: "ef_bounded n (sm_wait_list sm)" using inv by (simp add: sm_inv_def)
    have s: "sm_signal nr (sm, ps) = (sm', ps')" using step Sm_signal by simp
    show ?thesis using sm_signal_loop [OF b None s] sm_grants_rest [of "sm_count sm + nr" "sm_queue sm"]
      by (auto simp: sm_settled_def split: list.split)
  next
    case (Some e)
    then show ?thesis using step Sm_signal set by (simp add: sm_signal_def)
  qed
next
  case (Sm_consume nr)
  then show ?thesis using step set q has_units_consume
    by (auto simp: sm_consume_def sm_settled_def split: list.splits if_splits)
next
  case (Sm_broken e)
  have b: "ef_bounded n (sm_wait_list sm)" using inv by (simp add: sm_inv_def)
  have "sm_broken e (sm, ps) = (sm', ps')" using step Sm_broken by simp
  from sm_broken_loop [OF b this] show ?thesis by (simp add: sm_settled_def)
qed (use q in simp)

fun sm_quiet_run :: "sm_op list \<Rightarrow> sm_state \<Rightarrow> bool" where
  "sm_quiet_run [] s \<longleftrightarrow> True"
| "sm_quiet_run (op # ops) s \<longleftrightarrow> sm_quiet op (fst s) \<and> sm_quiet_run ops (sm_step op s)"

lemma sm_run_settled:
  assumes "sm_inv n s" and "n + length ops < 2 ^ 64" and "sm_settled (fst s)" and "sm_quiet_run ops s"
  shows "sm_settled (fst (sm_run ops s))"
  using assms
proof (induction ops arbitrary: n s)
  case (Cons op ops)
  obtain sm ps sm1 ps1 where s: "s = (sm, ps)" "sm_step op (sm, ps) = (sm1, ps1)" by fastforce
  have n: "n < 2 ^ 64 - 1" using Cons.prems(2) by simp
  have "sm_settled sm1" using sm_step_settled [of n sm ps op sm1 ps1] Cons.prems n s by simp
  moreover have "sm_inv (Suc n) (sm1, ps1)" using sm_step_inv [OF Cons.prems(1) n, of op] s by simp
  ultimately have "sm_settled (fst (sm_run ops (sm1, ps1)))"
    using Cons.IH [of "Suc n" "(sm1, ps1)"] Cons.prems s by simp
  then show ?case using s by (simp add: sm_run_def)
qed (simp add: sm_run_def)

section \<open>Properties\<close>

text \<open>A semaphore with one unit, on which a waiter for two units with deadline 10 and a waiter for one queue up.\<close>

definition sm_example :: sm_state where
  "sm_example = sm_run [Sm_wait (cf_env_at 16) 10 2, Sm_wait (cf_env_at 16) time_max 1] (sm_new 1, empty_store)"

lemma sm_example_inv: "sm_inv 2 sm_example"
  using sm_run_inv [OF sm_new_inv, of 0 "[Sm_wait (cf_env_at 16) 10 2, Sm_wait (cf_env_at 16) time_max 1]" 1 empty_store]
  by (simp add: sm_example_def) (simp only: numeral_2_eq_2)

lemma sm_example_contents:
  "ef_contents (sm_wait_list (fst sm_example)) = [(0, Some 10, 0, 2), (1, None, 1, 1)]"
  "sm_count (fst sm_example) = 1" "sm_ex (fst sm_example) = None"
  by code_simp+

lemma sm_example_queue: "sm_queue (fst sm_example) = [(0, 2), (1, 1)]"
  by (simp add: ef_to_list_def sm_example_contents)

text \<open>
  C18. What \<open>signal(nr)\<close> does: it serves waiters from the front of the queue, in order and none twice.  Each one
  served asks for no more than what the counter, not negative, still holds after those before it, and the waiter
  then at the front (if any) cannot be served.  The served promises were pending and become ready, no other
  promise changes, and the counter drops by what was handed out.
\<close>

theorem sm_signal_correct:
  assumes "sm_inv n (sm, ps)" and "sm_ex sm = None" and "sm_signal nr (sm, ps) = (sm', ps')"
  shows "sm_inv n (sm', ps') \<and>
     (\<exists>served. sm_queue sm = served @ sm_queue sm' \<and>
        (\<forall>k < length served. has_units (sm_count sm + nr - sum_list (map snd (take k served))) (snd (served ! k))) \<and>
        sm_count sm' = sm_count sm + nr - sum_list (map snd served) \<and>
        (\<forall>p. pr_state ps' p = (if p \<in> fst ` set served then Ready else pr_state ps p)) \<and>
        (\<forall>p \<in> fst ` set served. pr_state ps p = Pending)) \<and>
     sm_settled sm'"
proof -
  have b: "ef_bounded n (sm_wait_list sm)" using assms(1) by (simp add: sm_inv_def)
  let ?g = "sm_grants (sm_count sm + nr) (sm_queue sm)"
  note l = sm_signal_loop [OF b assms(2,3)]
  have q: "sm_queue sm = ?g @ sm_queue sm'" using l sm_grants_drop by metis
  have pending: "\<forall>p \<in> fst ` set ?g. pr_state ps p = Pending"
  proof -
    have "set ?g \<subseteq> set (sm_queue sm)" using sm_grants_prefix [of "sm_queue sm"] by (metis Un_upper1 set_append)
    then show ?thesis using assms(1) by (auto simp: sm_inv_def)
  qed
  have "sm_settled sm'"
    using l sm_grants_rest [of "sm_count sm + nr" "sm_queue sm"] by (auto simp: sm_settled_def split: list.split)
  moreover have "sm_inv n (sm', ps')" using sm_signal_inv [OF assms(1), of nr] assms(3) by simp
  ultimately show ?thesis using q pending l
    by (intro conjI exI [of _ ?g]) (simp_all add: pr_state_resolve_all sm_grants_covered)
qed

theorem sm_signal_correct_witness:
  "\<exists>sm' ps'. sm_signal 3 sm_example = (sm', ps') \<and> sm_settled sm'"
proof -
  obtain sm ps where e: "sm_example = (sm, ps)" by fastforce
  have f: "fst sm_example = sm" by (simp add: e)
  obtain sm' ps' where s: "sm_signal 3 (sm, ps) = (sm', ps')" by fastforce
  have "sm_inv 2 (sm, ps)" "sm_ex sm = None" using sm_example_inv sm_example_contents(3) unfolding f by (simp_all add: e)
  from sm_signal_correct [OF this s] show ?thesis using s e by auto
qed

text \<open>
  C13. Units are conserved.  Over any run of waits, try_waits, signals and timeouts in any order, the
  counter plus the units handed out is the initial count plus the units deposited: no unit is lost
  and never more units are out than were put in.
\<close>

theorem sm_units_conserved:
  assumes "length ops < 2 ^ 64" and "\<forall>op \<in> set ops. sm_conserving op"
    and "unat count + sum_list (map sm_deposited ops) < 2 ^ 64"
  shows "unat (sm_count (fst (sm_run ops (sm_new count, empty_store)))) + sm_total_taken ops (sm_new count, empty_store) =
     unat count + sum_list (map sm_deposited ops)"
proof -
  obtain sm' ps' where r: "sm_run ops (sm_new count, empty_store) = (sm', ps')" by fastforce
  have "sm_ex (sm_new count) = None" "sm_count (sm_new count) = count" by (simp_all add: sm_new_def)
  then show ?thesis using sm_run_conserves [OF sm_new_inv [of 0] _ _ assms(2) _ r] assms r by simp
qed

theorem sm_units_conserved_witness:
  "unat (sm_count (fst (sm_run [Sm_signal 3, Sm_try_wait 2] (sm_new 5, empty_store)))) +
     sm_total_taken [Sm_signal 3, Sm_try_wait 2] (sm_new 5, empty_store) = 8"
  using sm_units_conserved [of "[Sm_signal 3, Sm_try_wait 2]" 5] by simp

text \<open>
  C17. No lost wake-up, as long as no waiter times out: in every state that a new semaphore reaches by \<open>wait\<close>, \<open>try_wait\<close>,
  \<open>signal\<close>, \<open>broken\<close> and \<open>consume\<close>, in any order, in which no timer of a waiter has fired and no \<open>consume\<close> has taken the
  counter below the least \<open>ssize_t\<close>, the waiter at the front of the queue (if any) asks for more than the counter holds.
\<close>

theorem sm_no_lost_wakeup:
  assumes "length ops < 2 ^ 64" and "sm_quiet_run ops (sm_new count, empty_store)"
  shows "sm_settled (fst (sm_run ops (sm_new count, empty_store)))"
proof (rule sm_run_settled [OF sm_new_inv [of 0] _ _ assms(2)])
  show "sm_settled (fst (sm_new count, empty_store :: promise_store))"
    by (simp add: sm_settled_def sm_new_def ef_to_list_def)
qed (use assms(1) in simp)

theorem sm_no_lost_wakeup_witness:
  "sm_settled (fst (sm_run [Sm_wait (cf_env_at 16) 10 2, Sm_wait (cf_env_at 16) time_max 1, Sm_signal 1, Sm_consume 1] (sm_new 1, empty_store)))"
proof (rule sm_no_lost_wakeup)
  show "sm_quiet_run [Sm_wait (cf_env_at 16) 10 2, Sm_wait (cf_env_at 16) time_max 1, Sm_signal 1, Sm_consume 1] (sm_new 1, empty_store)"
    by code_simp
qed simp

text \<open>
  A timeout does lose a wake-up: when the waiter at the front times out, its promise fails and it
  leaves the queue, but nobody looks at the next waiter.  If that one asks for no more than what is
  available, it stays queued with a pending promise although \<open>wait\<close> for the same amount on a
  semaphore with that count would have returned at once.
\<close>

theorem sm_timeout_strands_next:
  assumes "sm_inv n (sm, ps)" and "ef_contents (sm_wait_list sm) = (i, Some t, p, nr) # (j, d, p', nr') # rest"
    and "has_units (sm_count sm) nr'" and "sm_expire i (sm, ps) = (sm', ps')"
  shows "pr_state ps' p = Failed Semaphore_timed_out \<and> hd (sm_queue sm') = (p', nr') \<and>
     has_units (sm_count sm') nr' \<and> pr_state ps' p' = Pending \<and> \<not> sm_settled sm'"
proof -
  let ?h = "\<lambda>(p, n) ps. resolve p (Failed Semaphore_timed_out) ps"
  obtain wl ps1 where e: "ef_expire ?h i (sm_wait_list sm) ps = (wl, ps1)" by fastforce
  have inv: "ef_inv (sm_wait_list sm)" using assms(1) by (simp add: sm_inv_def ef_bounded_def)
  have eqs: "sm' = sm\<lparr>sm_wait_list := wl\<rparr>" "ps' = ps1" using assms(4) e by (simp_all add: sm_expire_def)
  have dist: "distinct (map fst (ef_contents (sm_wait_list sm)))"
    using inv ef_live_distinct by (auto simp: ef_inv_def ef_contents_def)
  have "ef_contents wl = filter (\<lambda>(j, t, y). j \<noteq> i) (ef_contents (sm_wait_list sm)) \<and> ps1 = resolve p (Failed Semaphore_timed_out) ps"
    using ef_expire_inv [OF inv _ e, of t "(p, nr)"] assms(2) by simp
  then have c: "ef_contents wl = (j, d, p', nr') # filter (\<lambda>(j, t, y). j \<noteq> i) rest" "ps1 = resolve p (Failed Semaphore_timed_out) ps"
    using assms(2) dist by auto
  have "p \<noteq> p'" and "pr_state ps p' = Pending"
    using assms(1,2) by (simp_all add: sm_inv_def ef_to_list_def)
  then show ?thesis using c eqs assms(3) by (simp add: ef_to_list_def sm_settled_def)
qed

theorem sm_timeout_strands_next_witness:
  "\<exists>sm' ps'. sm_expire 0 sm_example = (sm', ps') \<and> pr_state ps' 0 = Failed Semaphore_timed_out \<and>
     hd (sm_queue sm') = (1, 1) \<and> has_units (sm_count sm') 1 \<and> pr_state ps' 1 = Pending"
proof -
  obtain sm ps where e: "sm_example = (sm, ps)" by fastforce
  have f: "fst sm_example = sm" by (simp add: e)
  obtain sm' ps' where s: "sm_expire 0 (sm, ps) = (sm', ps')" by fastforce
  have "sm_inv 2 (sm, ps)" using sm_example_inv e by simp
  moreover have "ef_contents (sm_wait_list sm) = [(0, Some 10, 0, 2), (1, None, 1, 1)]" "has_units (sm_count sm) 1"
    using sm_example_contents unfolding f by (simp_all add: has_units_def)
  ultimately show ?thesis using sm_timeout_strands_next [OF _ _ _ s, of 2 10 0 2 1 None 1 1 "[]"] s e by auto
qed

text \<open>
  C34. \<open>broken(ex)\<close> fails every waiter with \<open>ex\<close>, empties the queue and the counter, and is final: later
  signals and consumes change nothing, and every later wait for at least one unit fails with
  \<open>ex\<close> at once (a wait for zero units still succeeds).
\<close>

theorem sm_broken_correct:
  assumes "sm_inv n (sm, ps)" and "sm_broken xp (sm, ps) = (sm', ps')"
  shows "sm_queue sm' = [] \<and>
     (\<forall>p. pr_state ps' p = (if p \<in> fst ` set (sm_queue sm) then Failed xp else pr_state ps p)) \<and>
     sm_signal nr (sm', ps') = (sm', ps') \<and> sm_consume nr sm' = sm' \<and>
     fst (sm_wait_until env t nr (sm', ps')) = Inr (if nr = 0 then Ready_fut else Exn_fut xp)"
proof -
  have b: "ef_bounded n (sm_wait_list sm)" using assms(1) by (simp add: sm_inv_def)
  note l = sm_broken_loop [OF b assms(2)]
  have "ef_empty (sm_wait_list sm')" using efq.is_empty_iff [of n] l by blast
  then have "sm_may_proceed nr sm' \<longleftrightarrow> nr = 0" using l by (simp add: sm_may_proceed_def has_units_def)
  then show ?thesis using l
    by (simp add: pr_state_resolve_all sm_signal_def sm_consume_def sm_wait_until_def)
qed

theorem sm_broken_correct_witness:
  "\<exists>sm' ps'. sm_broken Broken_semaphore sm_example = (sm', ps') \<and> sm_queue sm' = [] \<and>
     pr_state ps' 1 = Failed Broken_semaphore"
proof -
  obtain sm ps where e: "sm_example = (sm, ps)" by fastforce
  have f: "fst sm_example = sm" by (simp add: e)
  obtain sm' ps' where s: "sm_broken Broken_semaphore (sm, ps) = (sm', ps')" by fastforce
  have "sm_inv 2 (sm, ps)" "sm_queue sm = [(0, 2), (1, 1)]" using sm_example_inv sm_example_queue unfolding f by (simp_all add: e)
  with sm_broken_correct [OF _ s, of 2] show ?thesis using s e by auto
qed

end
