(* ===== verification/Rwlock.thy ===== *)
theory Rwlock
  imports Semaphore
begin

text \<open>
  \<open>core/rwlock.hh\<close>: the reader/writer lock, a semaphore with \<open>max_ops\<close> units of which a reader
  takes one and a writer all.

  The step relation \<open>rw_step\<close> adds to the lock's state the numbers of fibers that hold it for
  reading and for writing (\<open>rw_readers\<close>, \<open>rw_writers\<close>); they are not stored in the code, they count
  the granted requests that have not been released, and a lock is only released by a holder.
\<close>

section \<open>Operations\<close>

definition max_ops :: size_t where
  "max_ops = 0x7fffffffffffffff"

definition rw_new :: semaphore where
  "rw_new = sm_new max_ops"

definition rw_read_lock :: "sm_waiter ef_entry cf_env \<Rightarrow> time_point \<Rightarrow> sm_state \<Rightarrow> (exn + fut) \<times> sm_state" where
  "rw_read_lock env timeout s = sm_wait_until env timeout 1 s"

definition rw_read_unlock :: "sm_state \<Rightarrow> sm_state" where
  "rw_read_unlock s = sm_signal 1 s"

definition rw_write_lock :: "sm_waiter ef_entry cf_env \<Rightarrow> time_point \<Rightarrow> sm_state \<Rightarrow> (exn + fut) \<times> sm_state" where
  "rw_write_lock env timeout s = sm_wait_until env timeout max_ops s"

definition rw_write_unlock :: "sm_state \<Rightarrow> sm_state" where
  "rw_write_unlock s = sm_signal max_ops s"

definition rw_try_read_lock :: "semaphore \<Rightarrow> bool \<times> semaphore" where
  "rw_try_read_lock sm = sm_try_wait 1 sm"

definition rw_try_write_lock :: "semaphore \<Rightarrow> bool \<times> semaphore" where
  "rw_try_write_lock sm = sm_try_wait max_ops sm"

text \<open>Both take a timeout and call \<open>get_units\<close> without it.\<close>

definition rw_hold_read_lock :: "sm_waiter ef_entry cf_env \<Rightarrow> time_point \<Rightarrow> sm_state \<Rightarrow> (exn + fut) \<times> sm_state" where
  "rw_hold_read_lock env timeout s = sm_wait env 1 s"

definition rw_hold_write_lock :: "sm_waiter ef_entry cf_env \<Rightarrow> time_point \<Rightarrow> sm_state \<Rightarrow> (exn + fut) \<times> sm_state" where
  "rw_hold_write_lock env timeout s = sm_wait env max_ops s"

text \<open>\<open>_sem.available_units() != max_ops\<close>: the \<open>ssize_t\<close> is converted to \<open>size_t\<close> for the comparison.\<close>

definition rw_locked :: "semaphore \<Rightarrow> bool" where
  "rw_locked sm \<longleftrightarrow> sm_count sm \<noteq> max_ops"

section \<open>The lock with its holders\<close>

record rw_state =
  rw_sem :: sm_state
  rw_readers :: nat
  rw_writers :: nat

text \<open>The waiters that a step has served, and their share of readers and writers.\<close>

definition rw_served :: "sm_state \<Rightarrow> sm_state \<Rightarrow> sm_waiter list" where
  "rw_served s s' = take (length (sm_queue (fst s)) - length (sm_queue (fst s'))) (sm_queue (fst s))"

definition rw_reads :: "sm_waiter list \<Rightarrow> nat" where
  "rw_reads ws = length (filter (\<lambda>w. snd w = 1) ws)"

definition rw_writes :: "sm_waiter list \<Rightarrow> nat" where
  "rw_writes ws = length (filter (\<lambda>w. snd w \<noteq> 1) ws)"

definition rw_granted :: "(exn + fut) \<times> sm_state \<Rightarrow> nat" where
  "rw_granted r = (if fst r = Inr Ready_fut then 1 else 0)"

inductive rw_step :: "rw_state \<Rightarrow> rw_state \<Rightarrow> bool" where
  read_lock: "r = rw_read_lock env t (rw_sem st) \<Longrightarrow>
     rw_step st (st\<lparr>rw_sem := snd r, rw_readers := rw_readers st + rw_granted r\<rparr>)"
| write_lock: "r = rw_write_lock env t (rw_sem st) \<Longrightarrow>
     rw_step st (st\<lparr>rw_sem := snd r, rw_writers := rw_writers st + rw_granted r\<rparr>)"
| hold_read_lock: "r = rw_hold_read_lock env t (rw_sem st) \<Longrightarrow>
     rw_step st (st\<lparr>rw_sem := snd r, rw_readers := rw_readers st + rw_granted r\<rparr>)"
| hold_write_lock: "r = rw_hold_write_lock env t (rw_sem st) \<Longrightarrow>
     rw_step st (st\<lparr>rw_sem := snd r, rw_writers := rw_writers st + rw_granted r\<rparr>)"
| try_read_lock: "rw_sem st = (sm, ps) \<Longrightarrow> rw_try_read_lock sm = (b, sm') \<Longrightarrow>
     rw_step st (st\<lparr>rw_sem := (sm', ps), rw_readers := rw_readers st + (if b then 1 else 0)\<rparr>)"
| try_write_lock: "rw_sem st = (sm, ps) \<Longrightarrow> rw_try_write_lock sm = (b, sm') \<Longrightarrow>
     rw_step st (st\<lparr>rw_sem := (sm', ps), rw_writers := rw_writers st + (if b then 1 else 0)\<rparr>)"
| read_unlock: "0 < rw_readers st \<Longrightarrow> s' = rw_read_unlock (rw_sem st) \<Longrightarrow>
     rw_step st \<lparr>rw_sem = s', rw_readers = rw_readers st - 1 + rw_reads (rw_served (rw_sem st) s'),
                 rw_writers = rw_writers st + rw_writes (rw_served (rw_sem st) s')\<rparr>"
| write_unlock: "0 < rw_writers st \<Longrightarrow> s' = rw_write_unlock (rw_sem st) \<Longrightarrow>
     rw_step st \<lparr>rw_sem = s', rw_readers = rw_readers st + rw_reads (rw_served (rw_sem st) s'),
                 rw_writers = rw_writers st - 1 + rw_writes (rw_served (rw_sem st) s')\<rparr>"
| timeout: "rw_step st (st\<lparr>rw_sem := sm_expire i (rw_sem st)\<rparr>)"

text \<open>States reachable in \<open>n\<close> steps.\<close>

inductive rw_reach :: "nat \<Rightarrow> rw_state \<Rightarrow> bool" where
  start: "rw_reach 0 \<lparr>rw_sem = (rw_new, empty_store), rw_readers = 0, rw_writers = 0\<rparr>"
| step: "rw_reach n st \<Longrightarrow> rw_step st st' \<Longrightarrow> rw_reach (Suc n) st'"

definition rw_inv :: "nat \<Rightarrow> rw_state \<Rightarrow> bool" where
  "rw_inv n st \<longleftrightarrow>
     sm_inv n (rw_sem st) \<and> sm_ex (fst (rw_sem st)) = None \<and>
     (\<forall>w \<in> set (sm_queue (fst (rw_sem st))). snd w = 1 \<or> snd w = max_ops) \<and>
     unat (sm_count (fst (rw_sem st))) + rw_readers st + rw_writers st * (2 ^ 63 - 1) = 2 ^ 63 - 1"

lemma unat_max_ops: "unat max_ops = 2 ^ 63 - 1"
  by (simp add: max_ops_def)

lemma rw_share:
  assumes "\<forall>w \<in> set ws. snd w = 1 \<or> snd w = max_ops"
  shows "sum_list (map (unat \<circ> snd) ws) = rw_reads ws + rw_writes ws * (2 ^ 63 - 1)"
  using assms by (induction ws) (auto simp: rw_reads_def rw_writes_def unat_max_ops max_ops_def)

lemma rw_wait_inv:
  assumes inv: "rw_inv n st" and n: "n < 2 ^ 64 - 1" and nr: "nr = 1 \<or> nr = max_ops"
    and r: "r = sm_wait_until env t nr (rw_sem st)"
  shows "sm_inv (Suc n) (snd r) \<and> sm_ex (fst (snd r)) = None \<and>
     (\<forall>w \<in> set (sm_queue (fst (snd r))). snd w = 1 \<or> snd w = max_ops) \<and>
     unat (sm_count (fst (snd r))) + rw_granted r * unat nr = unat (sm_count (fst (rw_sem st)))"
proof -
  obtain sm ps where s: "rw_sem st = (sm, ps)" by fastforce
  obtain res sm' ps' where w: "sm_wait_until env t nr (sm, ps) = (res, sm', ps')" by (metis prod.collapse)
  have i: "sm_inv n (sm, ps)" "sm_ex sm = None" "\<forall>w \<in> set (sm_queue sm). snd w = 1 \<or> snd w = max_ops"
    using inv s by (auto simp: rw_inv_def)
  have r': "r = (res, sm', ps')" using r s w by simp
  show ?thesis
    using sm_wait_cases [OF i(1) n w] i(2,3) nr has_units_diff [of "sm_count sm" nr]
    unfolding r' s by (auto simp: rw_granted_def sm_may_proceed_def)
qed

lemma rw_signal_inv:
  assumes inv: "rw_inv n st" and nr: "unat (sm_count (fst (rw_sem st))) + unat nr < 2 ^ 64"
    and s': "s' = sm_signal nr (rw_sem st)"
  shows "sm_inv n s' \<and> sm_ex (fst s') = None \<and>
     (\<forall>w \<in> set (sm_queue (fst s')). snd w = 1 \<or> snd w = max_ops) \<and>
     unat (sm_count (fst s')) + rw_reads (rw_served (rw_sem st) s') + rw_writes (rw_served (rw_sem st) s') * (2 ^ 63 - 1) =
       unat (sm_count (fst (rw_sem st))) + unat nr"
proof -
  obtain sm ps where s: "rw_sem st = (sm, ps)" by fastforce
  obtain sm' ps' where r: "s' = (sm', ps')" by fastforce
  have i: "sm_inv n (sm, ps)" "sm_ex sm = None" "\<forall>w \<in> set (sm_queue sm). snd w = 1 \<or> snd w = max_ops"
    using inv s by (auto simp: rw_inv_def)
  have b: "ef_bounded n (sm_wait_list sm)" using i(1) by (simp add: sm_inv_def)
  have sig: "sm_signal nr (sm, ps) = (sm', ps')" using s' s r by simp
  let ?g = "sm_grants (sm_count sm + nr) (sm_queue sm)"
  note l = sm_signal_loop [OF b i(2) sig]
  have q: "?g @ sm_queue sm' = sm_queue sm" using l sm_grants_drop by metis
  then have served: "rw_served (sm, ps) (sm', ps') = ?g"
    unfolding rw_served_def fst_conv by (metis append_eq_conv_conj add_diff_cancel_right' length_append)
  have sub: "set ?g \<subseteq> set (sm_queue sm)" "set (sm_queue sm') \<subseteq> set (sm_queue sm)"
    using q by (metis Un_upper1 set_append) (metis Un_upper2 q set_append)
  have "unat (sm_count sm + nr) = unat (sm_count sm) + unat nr"
    by (rule unat_add_lem [THEN iffD1]) (use nr s in simp)
  then have "unat (sm_count sm') + sum_list (map (unat \<circ> snd) ?g) = unat (sm_count sm) + unat nr"
    using l sm_grants_sum [of "sm_count sm + nr" "sm_queue sm"] by simp
  moreover have "sum_list (map (unat \<circ> snd) ?g) = rw_reads ?g + rw_writes ?g * (2 ^ 63 - 1)"
    using sub(1) i(3) by (intro rw_share) auto
  moreover have "sm_inv n (sm', ps')" using sm_signal_inv [OF i(1), of nr] sig by simp
  moreover have "\<forall>w \<in> set (sm_queue sm'). snd w = 1 \<or> snd w = max_ops" using sub(2) i(3) by blast
  ultimately show ?thesis unfolding r s fst_conv served using l by simp
qed

lemma rw_step_inv:
  assumes "rw_step st st'" and "rw_inv n st" and "n < 2 ^ 64 - 1"
  shows "rw_inv (Suc n) st'"
  using assms
proof (cases rule: rw_step.cases)
  case (read_lock r env t)
  then show ?thesis using rw_wait_inv [OF assms(2,3), of 1 r env t] assms(2)
    by (simp add: rw_read_lock_def) (simp add: rw_inv_def)
next
  case (write_lock r env t)
  then show ?thesis using rw_wait_inv [OF assms(2,3), of max_ops r env t] assms(2)
    by (simp add: rw_write_lock_def) (simp add: rw_inv_def unat_max_ops algebra_simps)
next
  case (hold_read_lock r env t)
  then show ?thesis using rw_wait_inv [OF assms(2,3), of 1 r env time_max] assms(2)
    by (simp add: rw_hold_read_lock_def sm_wait_def) (simp add: rw_inv_def)
next
  case (hold_write_lock r env t)
  then show ?thesis using rw_wait_inv [OF assms(2,3), of max_ops r env time_max] assms(2)
    by (simp add: rw_hold_write_lock_def sm_wait_def) (simp add: rw_inv_def unat_max_ops algebra_simps)
next
  case (try_read_lock sm ps b sm')
  then show ?thesis using assms(2) sm_inv_mono [of n _ "Suc n"] has_units_diff [of "sm_count sm" 1]
    by (auto simp: rw_try_read_lock_def sm_try_wait_def rw_inv_def sm_may_proceed_def split: if_splits)
next
  case (try_write_lock sm ps b sm')
  then show ?thesis using assms(2) sm_inv_mono [of n _ "Suc n"] has_units_diff [of "sm_count sm" max_ops]
    by (auto simp: rw_try_write_lock_def sm_try_wait_def rw_inv_def sm_may_proceed_def unat_max_ops split: if_splits)
next
  case (read_unlock s')
  have c: "unat (sm_count (fst (rw_sem st))) + unat (1 :: size_t) < 2 ^ 64" using assms(2) by (simp add: rw_inv_def)
  obtain k where "rw_readers st = Suc k" using read_unlock by (cases "rw_readers st") auto
  then show ?thesis using rw_signal_inv [OF assms(2) c] read_unlock assms(2)
      sm_inv_mono [of n s' "Suc n"] by (simp add: rw_read_unlock_def rw_inv_def algebra_simps)
next
  case (write_unlock s')
  have c: "unat (sm_count (fst (rw_sem st))) + unat max_ops < 2 ^ 64"
    using assms(2) by (simp add: rw_inv_def unat_max_ops)
  obtain w where "rw_writers st = Suc w" using write_unlock by (cases "rw_writers st") auto
  with rw_signal_inv [OF assms(2) c] write_unlock assms(2) show ?thesis
    using sm_inv_mono [of n s' "Suc n"] by (simp add: rw_write_unlock_def rw_inv_def unat_max_ops algebra_simps)
next
  case (timeout i)
  obtain sm ps sm' ps' where s: "rw_sem st = (sm, ps)" "sm_expire i (sm, ps) = (sm', ps')" by fastforce
  have "sm_inv n (sm, ps)" using assms(2) s by (simp add: rw_inv_def)
  from sm_expire_cases [OF this s(2)] show ?thesis
    using timeout assms(2) s sm_inv_mono [of n "(sm', ps')" "Suc n"] by (auto simp: rw_inv_def)
qed

lemma rw_reach_inv: "rw_reach n st \<Longrightarrow> n < 2 ^ 64 \<Longrightarrow> rw_inv n st"
proof (induction rule: rw_reach.induct)
  case start
  show ?case using sm_new_inv [of 0 max_ops empty_store]
    by (simp add: rw_inv_def rw_new_def) (simp add: sm_new_def ef_to_list_def unat_max_ops)
next
  case (step n st st')
  then show ?case by (intro rw_step_inv) simp_all
qed

section \<open>Properties\<close>

text \<open>
  C15. Mutual exclusion of the reader/writer lock: in every state that locks, unlocks by holders, tries
  and timeouts can reach, either nobody holds the lock for writing, or exactly one fiber does and
  nobody reads; and \<open>locked()\<close> tells whether anybody holds it.
\<close>

theorem rw_mutual_exclusion:
  assumes "rw_reach n st" and "n < 2 ^ 64"
  shows "(rw_writers st = 0 \<or> (rw_writers st = 1 \<and> rw_readers st = 0)) \<and>
     (rw_locked (fst (rw_sem st)) \<longleftrightarrow> 0 < rw_readers st \<or> 0 < rw_writers st)"
proof -
  have sum: "unat (sm_count (fst (rw_sem st))) + rw_readers st + rw_writers st * (2 ^ 63 - 1) = 2 ^ 63 - 1"
    using rw_reach_inv [OF assms] by (simp add: rw_inv_def)
  have w: "rw_writers st \<le> 1" using sum by (cases "rw_writers st") auto
  have "rw_locked (fst (rw_sem st)) \<longleftrightarrow> unat (sm_count (fst (rw_sem st))) \<noteq> 2 ^ 63 - 1"
    using unat_max_ops by (metis rw_locked_def word_unat_eq_iff)
  then show ?thesis using sum w by (cases "rw_writers st") auto
qed

theorem rw_mutual_exclusion_witness:
  "\<exists>st. rw_reach 1 st \<and> rw_writers st = 1 \<and> rw_readers st = 0"
proof -
  let ?s0 = "\<lparr>rw_sem = (rw_new, empty_store), rw_readers = 0, rw_writers = 0\<rparr>"
  let ?r = "rw_write_lock (cf_env_at 16) time_max (rw_sem ?s0)"
  let ?s1 = "?s0\<lparr>rw_sem := snd ?r, rw_writers := rw_writers ?s0 + rw_granted ?r\<rparr>"
  have "rw_granted ?r = 1" by code_simp
  then have w: "rw_writers ?s1 = 1" by simp
  have reach: "rw_reach 1 ?s1"
    using rw_reach.step [OF rw_reach.start rw_step.write_lock [OF refl, of ?s0 "cf_env_at 16" time_max]] by simp
  then show ?thesis using w rw_mutual_exclusion [OF reach] by auto
qed

end
