(* ===== verification/SharedMutex.thy ===== *)
theory SharedMutex
  imports CircularBuffer
begin

text \<open>
  \<open>core/shared_mutex.hh\<close>: the shared/exclusive lock over a circular buffer of waiters.

  A waiter is a promise and the flag \<open>for_write\<close>.  The loop of \<open>wake()\<close> is \<open>pop_while\<close> with one flag
  more in its state, the \<open>break\<close> after a writer has been served.  The step relation adds the
  numbers of fibers that hold the lock, as \<open>Rwlock\<close> does; a lock is released by a holder only.
\<close>

section \<open>State and operations\<close>

type_synonym mx_waiter = "nat \<times> bool"

record shared_mutex =
  mx_readers :: u32
  mx_writer :: bool
  mx_waiters :: "mx_waiter circular_buffer"

type_synonym mx_pair = "shared_mutex \<times> promise_store"

definition mx_new :: shared_mutex where
  "mx_new = \<lparr>mx_readers = 0, mx_writer = False, mx_waiters = cb_new\<rparr>"

definition mx_enqueue :: "mx_waiter cb_env \<Rightarrow> bool \<Rightarrow> mx_pair \<Rightarrow> (exn + fut) \<times> mx_pair" where
  "mx_enqueue env for_write = (\<lambda>(mx, ps).
     case new_promise ps of (p, ps1) \<Rightarrow>
       (case cb_push_back env (p, for_write) (mx_waiters mx) of
          (Some e, q) \<Rightarrow> (Inl e, mx\<lparr>mx_waiters := q\<rparr>, ps1)
        | (None, q) \<Rightarrow> (Inr (Promise_fut p), mx\<lparr>mx_waiters := q\<rparr>, ps1)))"

definition mx_lock_shared :: "mx_waiter cb_env \<Rightarrow> mx_pair \<Rightarrow> (exn + fut) \<times> mx_pair" where
  "mx_lock_shared env = (\<lambda>(mx, ps).
     if \<not> mx_writer mx \<and> cb_empty (mx_waiters mx)
     then (Inr Ready_fut, mx\<lparr>mx_readers := mx_readers mx + 1\<rparr>, ps)
     else mx_enqueue env False (mx, ps))"

definition mx_lock :: "mx_waiter cb_env \<Rightarrow> mx_pair \<Rightarrow> (exn + fut) \<times> mx_pair" where
  "mx_lock env = (\<lambda>(mx, ps).
     if mx_readers mx = 0 \<and> \<not> mx_writer mx then (Inr Ready_fut, mx\<lparr>mx_writer := True\<rparr>, ps)
     else mx_enqueue env True (mx, ps))"

fun mx_serves :: "mx_waiter \<Rightarrow> u32 \<times> bool \<times> bool \<times> promise_store \<Rightarrow> bool" where
  "mx_serves (p, for_write) (rd, wr, stop, ps) \<longleftrightarrow> \<not> stop \<and> (for_write \<longrightarrow> rd = 0)"

fun mx_serve :: "mx_waiter \<Rightarrow> u32 \<times> bool \<times> bool \<times> promise_store \<Rightarrow> u32 \<times> bool \<times> bool \<times> promise_store" where
  "mx_serve (p, for_write) (rd, wr, stop, ps) =
     (if for_write then (rd, True, True, resolve p Ready ps) else (rd + 1, wr, stop, resolve p Ready ps))"

definition mx_wake :: "mx_pair \<Rightarrow> mx_pair" where
  "mx_wake = (\<lambda>(mx, ps).
     case pop_while cb_empty cb_front cb_pop_front mx_serves mx_serve (mx_waiters mx)
            (mx_readers mx, mx_writer mx, False, ps) of
       (q, rd, wr, _, ps') \<Rightarrow> (\<lparr>mx_readers = rd, mx_writer = wr, mx_waiters = q\<rparr>, ps'))"

definition mx_unlock_shared :: "mx_pair \<Rightarrow> mx_pair" where
  "mx_unlock_shared = (\<lambda>(mx, ps). mx_wake (mx\<lparr>mx_readers := mx_readers mx - 1\<rparr>, ps))"

definition mx_unlock :: "mx_pair \<Rightarrow> mx_pair" where
  "mx_unlock = (\<lambda>(mx, ps). mx_wake (mx\<lparr>mx_writer := False\<rparr>, ps))"

section \<open>What wake does\<close>

abbreviation mx_queue :: "shared_mutex \<Rightarrow> mx_waiter list" where
  "mx_queue mx \<equiv> cb_list (mx_waiters mx)"

text \<open>The waiters that \<open>wake()\<close> serves with \<open>rd\<close> readers active: all leading readers, or one writer.\<close>

fun mx_grants :: "nat \<Rightarrow> mx_waiter list \<Rightarrow> mx_waiter list" where
  "mx_grants rd [] = []"
| "mx_grants rd ((p, w) # ws) =
     (if w then (if rd = 0 then [(p, w)] else []) else (p, w) # mx_grants (Suc rd) ws)"

fun mx_resolve :: "mx_waiter list \<Rightarrow> promise_store \<Rightarrow> promise_store" where
  "mx_resolve [] ps = ps"
| "mx_resolve ((p, w) # ws) ps = mx_resolve ws (resolve p Ready ps)"

lemma mx_resolve_next [simp]: "pr_next (mx_resolve ws ps) = pr_next ps"
  by (induction ws ps rule: mx_resolve.induct) auto

lemma mx_resolve_state: "pr_state (mx_resolve ws ps) p = (if p \<in> fst ` set ws then Ready else pr_state ps p)"
  by (induction ws ps rule: mx_resolve.induct) auto

lemma mx_grants_prefix: "mx_grants rd ws @ drop (length (mx_grants rd ws)) ws = ws"
  by (induction rd ws rule: mx_grants.induct) auto

lemma mx_grants_kind:
  "(\<forall>w \<in> set (mx_grants rd ws). \<not> snd w) \<or> (rd = 0 \<and> (\<exists>p. mx_grants rd ws = [(p, True)]))"
  by (induction rd ws rule: mx_grants.induct) auto

lemma mx_stopped: "consume_list mx_serves mx_serve ws (rd, wr, True, ps) = (ws, rd, wr, True, ps)"
  by (cases ws) auto

lemma mx_consume_grants:
  assumes "unat rd + length ws < 2 ^ 32"
  shows "consume_list mx_serves mx_serve ws (rd, False, False, ps) =
     (drop (length (mx_grants (unat rd) ws)) ws,
      rd + of_nat (length (filter (\<lambda>w. \<not> snd w) (mx_grants (unat rd) ws))),
      (\<exists>w \<in> set (mx_grants (unat rd) ws). snd w), (\<exists>w \<in> set (mx_grants (unat rd) ws). snd w),
      mx_resolve (mx_grants (unat rd) ws) ps)"
  using assms
proof (induction ws arbitrary: rd ps)
  case (Cons a ws)
  obtain p w where a: "a = (p, w)" by fastforce
  show ?case
  proof (cases w)
    case True
    then show ?thesis by (auto simp: a mx_stopped unat_eq_zero)
  next
    case False
    have "unat (rd + 1) = Suc (unat rd)" using Cons.prems by (intro unat_plus_one) simp
    moreover from this have "unat (rd + 1) + length ws < 2 ^ 32" using Cons.prems by simp
    ultimately show ?thesis using Cons.IH [of "rd + 1" "resolve p Ready ps"] False by (simp add: a)
  qed
qed simp

lemma mx_wake_loop:
  assumes inv: "cb_inv (mx_waiters mx)" and wr: "\<not> mx_writer mx"
    and small: "unat (mx_readers mx) + length (mx_queue mx) < 2 ^ 32"
    and ret: "mx_wake (mx, ps) = (mx', ps')"
  defines "g \<equiv> mx_grants (unat (mx_readers mx)) (mx_queue mx)"
  shows "cb_inv (mx_waiters mx') \<and> mx_queue mx' = drop (length g) (mx_queue mx) \<and>
     unat (mx_readers mx') = unat (mx_readers mx) + length (filter (\<lambda>w. \<not> snd w) g) \<and>
     (mx_writer mx' \<longleftrightarrow> (\<exists>w \<in> set g. snd w)) \<and> ps' = mx_resolve g ps"
proof -
  let ?s = "(mx_readers mx, mx_writer mx, False, ps)"
  obtain q rd w stop ps1 where l: "pop_while cb_empty cb_front cb_pop_front mx_serves mx_serve (mx_waiters mx) ?s = (q, rd, w, stop, ps1)"
    by (metis prod.collapse)
  have eqs: "mx' = \<lparr>mx_readers = rd, mx_writer = w, mx_waiters = q\<rparr>" "ps' = ps1"
    using ret l by (simp_all add: mx_wake_def)
  note c = cbq.pop_while_list [OF inv, of mx_serves mx_serve ?s]
  have k: "consume_list mx_serves mx_serve (mx_queue mx) ?s =
     (drop (length g) (mx_queue mx), mx_readers mx + of_nat (length (filter (\<lambda>w. \<not> snd w) g)),
      (\<exists>w \<in> set g. snd w), (\<exists>w \<in> set g. snd w), mx_resolve g ps)"
    using mx_consume_grants [OF small, of ps] wr by (simp add: g_def)
  have "length (filter (\<lambda>w. \<not> snd w) g) \<le> length (mx_queue mx)"
    using mx_grants_prefix [of "unat (mx_readers mx)" "mx_queue mx"] unfolding g_def
    by (metis (no_types, lifting) le_add1 le_trans length_append length_filter_le)
  then have "unat (mx_readers mx + of_nat (length (filter (\<lambda>w. \<not> snd w) g))) =
     unat (mx_readers mx) + length (filter (\<lambda>w. \<not> snd w) g)"
    using small by (simp add: unat_word_ariths unat_of_nat_small)
  then show ?thesis using c l k eqs by simp
qed

text \<open>The waiter that stays at the front is a writer behind readers, or waits for the writer just served.\<close>

lemma mx_grants_rest:
  assumes "drop (length (mx_grants rd ws)) ws = (p, w) # rest" and "\<forall>a \<in> set (mx_grants rd ws). \<not> snd a"
  shows "w \<and> 0 < rd + length (mx_grants rd ws)"
  using assms by (induction rd ws rule: mx_grants.induct) (auto split: if_splits)

section \<open>The lock with its holders\<close>

record mx_state =
  mx_pair :: mx_pair
  mx_shared :: nat
  mx_exclusive :: nat

definition mx_served :: "mx_pair \<Rightarrow> mx_pair \<Rightarrow> mx_waiter list" where
  "mx_served s s' = take (length (mx_queue (fst s)) - length (mx_queue (fst s'))) (mx_queue (fst s))"

definition mx_granted :: "(exn + fut) \<times> mx_pair \<Rightarrow> nat" where
  "mx_granted r = (if fst r = Inr Ready_fut then 1 else 0)"

inductive mx_step :: "mx_state \<Rightarrow> mx_state \<Rightarrow> bool" where
  lock_shared: "r = mx_lock_shared env (mx_pair st) \<Longrightarrow>
     mx_step st (st\<lparr>mx_pair := snd r, mx_shared := mx_shared st + mx_granted r\<rparr>)"
| lock: "r = mx_lock env (mx_pair st) \<Longrightarrow>
     mx_step st (st\<lparr>mx_pair := snd r, mx_exclusive := mx_exclusive st + mx_granted r\<rparr>)"
| unlock_shared: "0 < mx_shared st \<Longrightarrow> s' = mx_unlock_shared (mx_pair st) \<Longrightarrow>
     mx_step st \<lparr>mx_pair = s',
       mx_shared = mx_shared st - 1 + length (filter (\<lambda>w. \<not> snd w) (mx_served (mx_pair st) s')),
       mx_exclusive = mx_exclusive st + length (filter snd (mx_served (mx_pair st) s'))\<rparr>"
| unlock: "0 < mx_exclusive st \<Longrightarrow> s' = mx_unlock (mx_pair st) \<Longrightarrow>
     mx_step st \<lparr>mx_pair = s',
       mx_shared = mx_shared st + length (filter (\<lambda>w. \<not> snd w) (mx_served (mx_pair st) s')),
       mx_exclusive = mx_exclusive st - 1 + length (filter snd (mx_served (mx_pair st) s'))\<rparr>"

inductive mx_reach :: "nat \<Rightarrow> mx_state \<Rightarrow> bool" where
  start: "mx_reach 0 \<lparr>mx_pair = (mx_new, empty_store), mx_shared = 0, mx_exclusive = 0\<rparr>"
| step: "mx_reach n st \<Longrightarrow> mx_step st st' \<Longrightarrow> mx_reach (Suc n) st'"

text \<open>
  The invariant: the stored state counts the holders, a writer excludes readers, a fiber only waits
  while the lock is held, and a reader only waits at the front behind a writer.  \<open>n\<close> bounds the
  holders and waiters together, and so keeps the \<open>unsigned\<close> reader count from wrapping.
\<close>

definition mx_inv :: "nat \<Rightarrow> mx_state \<Rightarrow> bool" where
  "mx_inv n st \<longleftrightarrow>
     (case mx_pair st of (mx, ps) \<Rightarrow>
        cb_inv (mx_waiters mx) \<and> unat (mx_readers mx) = mx_shared st \<and>
        mx_exclusive st = (if mx_writer mx then 1 else 0) \<and> (mx_writer mx \<longrightarrow> mx_readers mx = 0) \<and>
        unat (mx_readers mx) + length (mx_queue mx) \<le> n \<and>
        (case mx_queue mx of [] \<Rightarrow> True | (p, w) # _ \<Rightarrow> mx_writer mx \<or> (w \<and> mx_readers mx \<noteq> 0)))"

lemma mx_enqueue_inv:
  assumes "mx_inv n st" and "mx_pair st = (mx, ps)" and r: "r = mx_enqueue env w (mx, ps)"
    and busy: "mx_writer mx \<or> mx_queue mx \<noteq> [] \<or> (w \<and> mx_readers mx \<noteq> 0)"
  shows "mx_inv (Suc n) (st\<lparr>mx_pair := snd r\<rparr>) \<and> mx_granted r = 0"
proof -
  obtain p ps1 where p: "new_promise ps = (p, ps1)" by fastforce
  obtain e q where q: "cb_push_back env (p, w) (mx_waiters mx) = (e, q)" by fastforce
  have inv: "cb_inv (mx_waiters mx)" using assms(1,2) by (simp add: mx_inv_def)
  note push = cbq.push_list [OF inv q]
  have res: "snd r = (mx\<lparr>mx_waiters := q\<rparr>, ps1)" "mx_granted r = 0"
    using r p q by (simp_all add: mx_enqueue_def mx_granted_def split: option.split)
  show ?thesis using assms(1,2) push busy res by (cases "mx_queue mx") (auto simp: mx_inv_def)
qed

lemma mx_wake_inv:
  assumes inv: "cb_inv (mx_waiters mx)" and wr: "\<not> mx_writer mx"
    and small: "unat (mx_readers mx) + length (mx_queue mx) \<le> n" "n < 2 ^ 32"
    and s: "s' = mx_wake (mx, ps)"
  shows "mx_inv n \<lparr>mx_pair = s',
     mx_shared = unat (mx_readers mx) + length (filter (\<lambda>w. \<not> snd w) (mx_served (mx, ps) s')),
     mx_exclusive = length (filter snd (mx_served (mx, ps) s'))\<rparr>"
proof -
  obtain mx' ps' where s': "s' = (mx', ps')" by fastforce
  have "unat (mx_readers mx) + length (mx_queue mx) < 2 ^ 32" using small by simp
  note l = mx_wake_loop [OF inv wr this, of ps mx' ps'] 
  let ?g = "mx_grants (unat (mx_readers mx)) (mx_queue mx)"
  have w: "mx_wake (mx, ps) = (mx', ps')" using s s' by simp
  note l = l [OF w]
  have q: "?g @ mx_queue mx' = mx_queue mx" using l mx_grants_prefix by metis
  then have served: "mx_served (mx, ps) (mx', ps') = ?g"
    unfolding mx_served_def fst_conv by (metis append_eq_conv_conj add_diff_cancel_right' length_append)
  have len: "length (filter (\<lambda>w. \<not> snd w) ?g) + length (mx_queue mx') \<le> length (mx_queue mx)"
    using q length_filter_le [of "\<lambda>w. \<not> snd w" ?g] by (metis add_le_mono1 length_append)
  consider (readers) "\<forall>w \<in> set ?g. \<not> snd w" | (writer) p where "unat (mx_readers mx) = 0" "?g = [(p, True)]"
    using mx_grants_kind [of "unat (mx_readers mx)" "mx_queue mx"] by blast
  then show ?thesis
  proof cases
    case readers
    then have f: "filter (\<lambda>w. \<not> snd w) ?g = ?g" "filter snd ?g = []" by (auto simp: filter_id_conv filter_empty_conv)
    have front: "case mx_queue mx' of [] \<Rightarrow> True | (p, w) # _ \<Rightarrow> mx_writer mx' \<or> (w \<and> mx_readers mx' \<noteq> 0)"
    proof (cases "mx_queue mx'")
      case (Cons a rest)
      obtain p w where a: "a = (p, w)" by fastforce
      have "w \<and> 0 < unat (mx_readers mx) + length ?g"
        using mx_grants_rest [OF _ readers, of p w rest] l Cons a by simp
      then have "w \<and> mx_readers mx' \<noteq> 0" using l f by auto
      then show ?thesis using Cons a by simp
    qed simp
    show ?thesis using l readers f len small front unfolding s' served mx_inv_def by auto
  next
    case writer
    then have "mx_writer mx'" "mx_readers mx' = 0" using l by (simp_all add: unat_eq_zero)
    then show ?thesis using l writer len small unfolding s' served mx_inv_def by (auto split: list.split)
  qed
qed

lemma mx_step_inv:
  assumes "mx_step st st'" and "mx_inv n st" and "n < 2 ^ 32 - 1"
  shows "mx_inv (Suc n) st'"
proof -
  obtain mx ps where s: "mx_pair st = (mx, ps)" by fastforce
  note inv = assms(2) [unfolded mx_inv_def s prod.case]
  have mono: "mx_inv n s' \<Longrightarrow> mx_inv (Suc n) s'" for s' by (auto simp: mx_inv_def)
  from assms(1) show ?thesis
  proof (cases rule: mx_step.cases)
    case (lock_shared r env)
    show ?thesis
    proof (cases "\<not> mx_writer mx \<and> cb_empty (mx_waiters mx)")
      case True
      then have q: "mx_queue mx = []" using cbq.is_empty_iff inv by blast
      have "unat (mx_readers mx + 1) = Suc (unat (mx_readers mx))" using inv assms(3) by (intro unat_plus_one) simp
      then show ?thesis using True lock_shared s inv q
        by (simp add: mx_lock_shared_def mx_granted_def mx_inv_def)
    next
      case False
      then have "mx_writer mx \<or> mx_queue mx \<noteq> []" using cbq.is_empty_iff inv by blast
      then show ?thesis using mx_enqueue_inv [OF assms(2) s, of r env False] lock_shared s False
        by (simp add: mx_lock_shared_def)
    qed
  next
    case (lock r env)
    show ?thesis
    proof (cases "mx_readers mx = 0 \<and> \<not> mx_writer mx")
      case True
      then have "mx_queue mx = []" using inv by (auto split: list.splits)
      then show ?thesis using True lock s inv by (simp add: mx_lock_def mx_granted_def mx_inv_def)
    next
      case False
      then show ?thesis using mx_enqueue_inv [OF assms(2) s, of r env True] lock s by (auto simp: mx_lock_def)
    qed
  next
    case (unlock_shared s')
    have r: "mx_readers mx \<noteq> 0" using unlock_shared inv by auto
    then have w: "\<not> mx_writer mx" using inv by blast
    have u: "unat (mx_readers mx - 1) = unat (mx_readers mx) - 1" using r by (simp add: unat_minus_one)
    let ?mx = "mx\<lparr>mx_readers := mx_readers mx - 1\<rparr>"
    have "unat (mx_readers mx) + length (mx_queue mx) \<le> n" using inv by blast
    then have small: "unat (mx_readers ?mx) + length (mx_queue ?mx) \<le> n" using u by simp
    have srv: "mx_served (mx, ps) s' = mx_served (?mx, ps) s'" by (simp add: mx_served_def)
    have "mx_inv n \<lparr>mx_pair = s',
       mx_shared = unat (mx_readers ?mx) + length (filter (\<lambda>w. \<not> snd w) (mx_served (?mx, ps) s')),
       mx_exclusive = length (filter snd (mx_served (?mx, ps) s'))\<rparr>"
      using inv w assms(3) unlock_shared s by (intro mx_wake_inv [OF _ _ small]) (simp_all add: mx_unlock_shared_def)
    then show ?thesis using mono unlock_shared s srv u inv w by simp
  next
    case (unlock s')
    have w: "mx_writer mx" using unlock inv by (simp split: if_splits)
    let ?mx = "mx\<lparr>mx_writer := False\<rparr>"
    have small: "unat (mx_readers ?mx) + length (mx_queue ?mx) \<le> n" using inv by simp
    have srv: "mx_served (mx, ps) s' = mx_served (?mx, ps) s'" by (simp add: mx_served_def)
    have "mx_inv n \<lparr>mx_pair = s',
       mx_shared = unat (mx_readers ?mx) + length (filter (\<lambda>w. \<not> snd w) (mx_served (?mx, ps) s')),
       mx_exclusive = length (filter snd (mx_served (?mx, ps) s'))\<rparr>"
      using inv assms(3) unlock s by (intro mx_wake_inv [OF _ _ small]) (simp_all add: mx_unlock_def)
    moreover have "mx_shared st = unat (mx_readers ?mx)" "mx_exclusive st = 1" using inv w by auto
    moreover have "st' = \<lparr>mx_pair = s', mx_shared = mx_shared st + length (filter (\<lambda>w. \<not> snd w) (mx_served (mx, ps) s')),
       mx_exclusive = mx_exclusive st - 1 + length (filter snd (mx_served (mx, ps) s'))\<rparr>" using unlock s by simp
    ultimately show ?thesis using mono srv by simp
  qed
qed

lemma mx_reach_inv: "mx_reach n st \<Longrightarrow> n < 2 ^ 32 \<Longrightarrow> mx_inv n st"
proof (induction rule: mx_reach.induct)
  case start
  show ?case by (simp add: mx_inv_def mx_new_def)
next
  case (step n st st')
  then show ?case by (intro mx_step_inv) simp_all
qed

section \<open>Properties\<close>

text \<open>
  C14. Mutual exclusion and progress of the shared mutex: in every reachable state at most one fiber
  holds it exclusively, and then nobody shares it; and nobody waits for a lock that is free.
\<close>

theorem mx_mutual_exclusion:
  assumes "mx_reach n st" and "n < 2 ^ 32"
  shows "(mx_exclusive st = 0 \<or> (mx_exclusive st = 1 \<and> mx_shared st = 0)) \<and>
     (mx_queue (fst (mx_pair st)) \<noteq> [] \<longrightarrow> 0 < mx_exclusive st + mx_shared st)"
proof -
  obtain mx ps where s: "mx_pair st = (mx, ps)" by fastforce
  note inv = mx_reach_inv [OF assms, unfolded mx_inv_def s prod.case]
  have "mx_queue mx \<noteq> [] \<longrightarrow> mx_writer mx \<or> mx_readers mx \<noteq> 0"
    using inv by (cases "mx_queue mx") auto
  moreover have "mx_readers mx \<noteq> 0 \<longleftrightarrow> mx_shared st \<noteq> 0" using inv by (metis unat_eq_zero)
  ultimately show ?thesis using inv s by auto
qed

theorem mx_mutual_exclusion_witness:
  "\<exists>st. mx_reach 2 st \<and> mx_exclusive st = 1 \<and> mx_shared st = 0 \<and> mx_queue (fst (mx_pair st)) = [(0, False)]"
proof -
  let ?s0 = "\<lparr>mx_pair = (mx_new, empty_store), mx_shared = 0, mx_exclusive = 0\<rparr>"
  let ?r = "mx_lock cb_env_ok (mx_pair ?s0)"
  let ?s1 = "?s0\<lparr>mx_pair := snd ?r, mx_exclusive := mx_exclusive ?s0 + mx_granted ?r\<rparr>"
  let ?r2 = "mx_lock_shared cb_env_ok (mx_pair ?s1)"
  let ?s2 = "?s1\<lparr>mx_pair := snd ?r2, mx_shared := mx_shared ?s1 + mx_granted ?r2\<rparr>"
  have e: "mx_exclusive ?s2 = 1 \<and> mx_queue (fst (mx_pair ?s2)) = [(0, False)]" by code_simp
  have "mx_step ?s0 ?s1" by (rule mx_step.lock [OF refl])
  moreover have "mx_step ?s1 ?s2" by (rule mx_step.lock_shared [OF refl])
  ultimately have "mx_reach (Suc (Suc 0)) ?s2" by (intro mx_reach.step [OF mx_reach.step [OF mx_reach.start]])
  then have reach: "mx_reach 2 ?s2" by (simp only: numeral_2_eq_2)
  show ?thesis using mx_mutual_exclusion [OF reach] e reach by auto
qed

text \<open>
  C35. Whom a release wakes: the waiters are served from the front, in order.  Either all leading readers
  are let in together, and the next waiter, if any, is a writer that still has to wait for them; or, when
  nobody shares the lock, the single writer at the front gets it.  Exactly the served promises resolve.
\<close>

theorem mx_wake_correct:
  assumes "cb_inv (mx_waiters mx)" and "\<not> mx_writer mx" and "unat (mx_readers mx) + length (mx_queue mx) < 2 ^ 32"
    and "mx_wake (mx, ps) = (mx', ps')"
  shows "\<exists>served. mx_queue mx = served @ mx_queue mx' \<and>
     (\<forall>p. pr_state ps' p = (if p \<in> fst ` set served then Ready else pr_state ps p)) \<and>
     (((\<forall>w \<in> set served. \<not> snd w) \<and> \<not> mx_writer mx' \<and>
         unat (mx_readers mx') = unat (mx_readers mx) + length served \<and>
         (mx_queue mx' \<noteq> [] \<longrightarrow> snd (hd (mx_queue mx')) \<and> mx_readers mx' \<noteq> 0)) \<or>
      (\<exists>p. served = [(p, True)] \<and> mx_writer mx' \<and> mx_readers mx = 0 \<and> mx_readers mx' = 0))"
proof -
  let ?g = "mx_grants (unat (mx_readers mx)) (mx_queue mx)"
  note l = mx_wake_loop [OF assms]
  have q: "mx_queue mx = ?g @ mx_queue mx'" using l mx_grants_prefix by metis
  consider (readers) "\<forall>w \<in> set ?g. \<not> snd w" | (writer) p where "unat (mx_readers mx) = 0" "?g = [(p, True)]"
    using mx_grants_kind [of "unat (mx_readers mx)" "mx_queue mx"] by blast
  then show ?thesis
  proof cases
    case readers
    then have f: "filter (\<lambda>w. \<not> snd w) ?g = ?g" by (auto simp: filter_id_conv)
    have front: "mx_queue mx' \<noteq> [] \<longrightarrow> snd (hd (mx_queue mx')) \<and> mx_readers mx' \<noteq> 0"
    proof
      assume "mx_queue mx' \<noteq> []"
      then obtain p w rest where c: "mx_queue mx' = (p, w) # rest" by (metis list.exhaust prod.collapse)
      then have "w \<and> 0 < unat (mx_readers mx) + length ?g" using mx_grants_rest [OF _ readers, of p w rest] l by simp
      then show "snd (hd (mx_queue mx')) \<and> mx_readers mx' \<noteq> 0" using c l f by auto
    qed
    have "\<not> mx_writer mx'" using l readers by blast
    then show ?thesis using l q readers f front by (intro exI [of _ ?g]) (simp add: mx_resolve_state)
  next
    case writer
    then have "mx_writer mx'" "mx_readers mx' = 0" "mx_readers mx = 0" using l by (simp_all add: unat_eq_zero)
    then show ?thesis using l q writer by (intro exI [of _ ?g]) (simp add: mx_resolve_state)
  qed
qed

theorem mx_wake_correct_witness:
  "\<exists>mx mx' ps'. mx_queue mx = [(4, True)] \<and> mx_wake (mx, empty_store) = (mx', ps') \<and> pr_state ps' 4 = Ready \<and> mx_writer mx'"
proof -
  obtain r q where q: "cb_push_back cb_env_ok (4 :: nat, True) cb_new = (r, q)" by fastforce
  have "fst (cb_push_back cb_env_ok (4 :: nat, True) cb_new) = None" by code_simp
  then have qi: "cb_inv q" "cb_list q = [(4, True)]" using cbq.push_list [OF cb_new_inv q] q by auto
  let ?mx = "\<lparr>mx_readers = 0, mx_writer = False, mx_waiters = q\<rparr>"
  obtain mx' ps' where w: "mx_wake (?mx, empty_store) = (mx', ps')" by fastforce
  have "mx_writer mx' \<and> pr_state ps' 4 = Ready"
    using mx_wake_correct [OF _ _ _ w] mx_wake_loop [OF _ _ _ w] qi by (auto simp: mx_resolve_state)
  then show ?thesis using w qi by (intro exI [of _ ?mx] exI [of _ mx'] exI [of _ ps']) simp
qed

end
