(* ===== verification/Gate.thy ===== *)
theory Gate
  imports Prelude
begin

text \<open>
  \<open>core/gate.hh\<close>: the gate that counts requests in progress and tells when a closed service is idle.

  \<open>gt_stopped\<close> is the promise that \<open>close()\<close> creates.  The step relation counts the fibers inside
  (\<open>gt_inside\<close>): a fiber leaves only if it entered, and the gate is closed at most once.
\<close>

record gate =
  gt_count :: size_t
  gt_stopped :: "nat option"

type_synonym gate_pair = "gate \<times> promise_store"

definition gt_new :: gate where
  "gt_new = \<lparr>gt_count = 0, gt_stopped = None\<rparr>"

definition gt_enter :: "gate \<Rightarrow> exn option \<times> gate" where
  "gt_enter g = (if gt_stopped g \<noteq> None then (Some Gate_closed, g) else (None, g\<lparr>gt_count := gt_count g + 1\<rparr>))"

definition gt_leave :: "gate_pair \<Rightarrow> gate_pair" where
  "gt_leave = (\<lambda>(g, ps).
     let g' = g\<lparr>gt_count := gt_count g - 1\<rparr> in
     case gt_stopped g' of
       Some p \<Rightarrow> if gt_count g' = 0 then (g', resolve p Ready ps) else (g', ps)
     | None \<Rightarrow> (g', ps))"

definition gt_check :: "gate \<Rightarrow> exn option" where
  "gt_check g = (if gt_stopped g \<noteq> None then Some Gate_closed else None)"

text \<open>\<open>close()\<close>; \<open>None\<close> is the failed assertion of a second call.\<close>

definition gt_close :: "gate_pair \<Rightarrow> (fut \<times> gate_pair) option" where
  "gt_close = (\<lambda>(g, ps).
     if gt_stopped g \<noteq> None then None
     else case new_promise ps of (p, ps1) \<Rightarrow>
       Some (Promise_fut p, g\<lparr>gt_stopped := Some p\<rparr>, if gt_count g = 0 then resolve p Ready ps1 else ps1))"

definition gt_get_count :: "gate \<Rightarrow> size_t" where
  "gt_get_count g = gt_count g"

definition gt_is_closed :: "gate \<Rightarrow> bool" where
  "gt_is_closed g \<longleftrightarrow> gt_stopped g \<noteq> None"

text \<open>
  \<open>with_gate\<close>: the function runs between entering and leaving, whether it fails or not; if the gate is
  closed it does not run, and the exception is thrown.
\<close>

definition gt_with_gate :: "(gate_pair \<Rightarrow> (exn + 'r) \<times> gate_pair) \<Rightarrow> gate_pair \<Rightarrow> (exn + 'r) \<times> gate_pair" where
  "gt_with_gate func = (\<lambda>(g, ps).
     case gt_enter g of
       (Some e, g') \<Rightarrow> (Inl e, g', ps)
     | (None, g') \<Rightarrow> (case func (g', ps) of (r, s) \<Rightarrow> (r, gt_leave s)))"

record gt_state =
  gt_pair :: gate_pair
  gt_inside :: nat

inductive gt_step :: "gt_state \<Rightarrow> gt_state \<Rightarrow> bool" where
  enter: "gt_pair st = (g, ps) \<Longrightarrow> gt_enter g = (r, g') \<Longrightarrow>
     gt_step st \<lparr>gt_pair = (g', ps), gt_inside = gt_inside st + (if r = None then 1 else 0)\<rparr>"
| leave: "0 < gt_inside st \<Longrightarrow> gt_step st \<lparr>gt_pair = gt_leave (gt_pair st), gt_inside = gt_inside st - 1\<rparr>"
| close: "gt_close (gt_pair st) = Some (f, s') \<Longrightarrow> gt_step st \<lparr>gt_pair = s', gt_inside = gt_inside st\<rparr>"
| other_promise: "gt_pair st = (g, ps) \<Longrightarrow> gt_step st (st\<lparr>gt_pair := (g, snd (new_promise ps))\<rparr>)"

inductive gt_reach :: "nat \<Rightarrow> gt_state \<Rightarrow> bool" where
  start: "gt_reach 0 \<lparr>gt_pair = (gt_new, empty_store), gt_inside = 0\<rparr>"
| step: "gt_reach n st \<Longrightarrow> gt_step st st' \<Longrightarrow> gt_reach (Suc n) st'"

definition gt_inv :: "nat \<Rightarrow> gt_state \<Rightarrow> bool" where
  "gt_inv n st \<longleftrightarrow>
     (case gt_pair st of (g, ps) \<Rightarrow>
        unat (gt_count g) = gt_inside st \<and> gt_inside st \<le> n \<and>
        (\<forall>p. gt_stopped g = Some p \<longrightarrow>
           p < pr_next ps \<and> pr_state ps p = (if gt_inside st = 0 then Ready else Pending)))"

lemma gt_step_inv:
  assumes "gt_step st st'" and "gt_inv n st" and "n < 2 ^ 64 - 1"
  shows "gt_inv (Suc n) st'"
  using assms(1)
proof (cases rule: gt_step.cases)
  case (enter g ps r g')
  have "unat (gt_count g + 1) = Suc (unat (gt_count g))"
    using assms(2,3) enter by (intro unat_plus_one) (simp add: gt_inv_def)
  then show ?thesis using enter assms(2) by (auto simp: gt_enter_def gt_inv_def split: if_splits)
next
  case leave
  obtain g ps where s: "gt_pair st = (g, ps)" by fastforce
  have c: "unat (gt_count g) = gt_inside st" using assms(2) s by (simp add: gt_inv_def)
  then have "gt_count g \<noteq> 0" using leave by auto
  then have u: "unat (gt_count g - 1) = gt_inside st - 1" using c by (simp add: unat_minus_one)
  then have "gt_count g - 1 = 0 \<longleftrightarrow> gt_inside st - 1 = 0" by (metis unat_eq_zero)
  then show ?thesis using leave assms(2) s u
    by (auto simp: gt_leave_def gt_inv_def Let_def split: option.splits)
next
  case (close f s')
  obtain g ps where s: "gt_pair st = (g, ps)" by fastforce
  have "gt_count g = 0 \<longleftrightarrow> gt_inside st = 0" using assms(2) s by (simp add: gt_inv_def) (metis unat_eq_zero)
  then show ?thesis using close assms(2) s
    by (auto simp: gt_close_def gt_inv_def new_promise_def split: if_splits)
next
  case (other_promise g ps)
  then show ?thesis using assms(2) by (auto simp: gt_inv_def new_promise_def less_SucI)
qed

lemma gt_reach_inv: "gt_reach n st \<Longrightarrow> n < 2 ^ 64 \<Longrightarrow> gt_inv n st"
proof (induction rule: gt_reach.induct)
  case start
  show ?case by (simp add: gt_inv_def gt_new_def)
next
  case (step n st st')
  then show ?case by (intro gt_step_inv) simp_all
qed

text \<open>
  C16. A closed gate tells exactly when it is idle: in every reachable state the counter is the number of
  fibers inside, the future that \<open>close()\<close> returned is ready if and only if nobody is inside, and
  from the close on nobody enters (\<open>enter\<close> and \<open>check\<close> throw).
\<close>

theorem gt_close_tells_idle:
  assumes "gt_reach n st" and "n < 2 ^ 64" and "gt_pair st = (g, ps)"
  shows "unat (gt_get_count g) = gt_inside st \<and>
     (\<forall>p. gt_stopped g = Some p \<longrightarrow>
        (pr_state ps p = Ready \<longleftrightarrow> gt_inside st = 0) \<and> (pr_state ps p = Pending \<longleftrightarrow> gt_inside st \<noteq> 0)) \<and>
     (gt_is_closed g \<longrightarrow> gt_enter g = (Some Gate_closed, g) \<and> gt_check g = Some Gate_closed)"
  using gt_reach_inv [OF assms(1,2)] assms(3)
  by (auto simp: gt_inv_def gt_get_count_def gt_is_closed_def gt_enter_def gt_check_def)

theorem gt_close_tells_idle_witness:
  "\<exists>st g ps. gt_reach 3 st \<and> gt_pair st = (g, ps) \<and> gt_stopped g = Some 0 \<and> pr_state ps 0 = Ready \<and> gt_inside st = 0"
proof -
  let ?s0 = "\<lparr>gt_pair = (gt_new, empty_store), gt_inside = 0\<rparr>"
  let ?s1 = "\<lparr>gt_pair = (gt_new\<lparr>gt_count := 1\<rparr>, empty_store), gt_inside = 1\<rparr>"
  let ?s2 = "\<lparr>gt_pair = (gt_new\<lparr>gt_count := 1, gt_stopped := Some 0\<rparr>, snd (new_promise empty_store)), gt_inside = 1\<rparr>"
  let ?s3 = "\<lparr>gt_pair = gt_leave (gt_pair ?s2), gt_inside = gt_inside ?s2 - 1\<rparr>"
  have "gt_step ?s0 ?s1" using gt_step.enter [of ?s0 gt_new empty_store None "gt_new\<lparr>gt_count := 1\<rparr>"]
    by (simp add: gt_enter_def gt_new_def)
  moreover have "gt_step ?s1 ?s2"
    using gt_step.close [of ?s1 "Promise_fut 0" "(gt_new\<lparr>gt_count := 1, gt_stopped := Some 0\<rparr>, snd (new_promise empty_store))"]
    by (simp add: gt_close_def gt_new_def new_promise_def empty_store_def)
  moreover have "gt_step ?s2 ?s3" by (rule gt_step.leave) simp
  ultimately have "gt_reach (Suc (Suc (Suc 0))) ?s3"
    by (intro gt_reach.step [OF gt_reach.step [OF gt_reach.step [OF gt_reach.start]]])
  then have reach: "gt_reach 3 ?s3" by (simp only: numeral_3_eq_3)
  obtain g ps where p: "gt_pair ?s3 = (g, ps)" by fastforce
  have "gt_stopped g = Some 0" using p by (auto simp: gt_leave_def gt_new_def)
  then show ?thesis using gt_close_tells_idle [OF reach _ p] p reach
    by (intro exI [of _ ?s3] exI [of _ g] exI [of _ ps]) auto
qed

end
