(* ===== verification/BoundedQueue.thy ===== *)
theory BoundedQueue
  imports CircularBuffer
begin

text \<open>
  \<open>core/queue.hh\<close>: the bounded queue between fibers, over a circular buffer.

  The optional promises \<open>_not_empty\<close> and \<open>_not_full\<close> are promise numbers.  The continuations that
  \<open>pop_eventually\<close> and \<open>push_eventually\<close> attach to these promises run later, as tasks of the
  reactor; they are operations of their own here (\<open>bq_pop_resume\<close>, \<open>bq_push_resume\<close>), so that what
  runs between the notification and the task is visible.
\<close>

section \<open>State and operations\<close>

record 'a bqueue =
  bq_q :: "'a circular_buffer"
  bq_max :: size_t
  bq_not_empty :: "nat option"
  bq_not_full :: "nat option"
  bq_ex :: "exn option"

type_synonym 'a bq_pair = "'a bqueue \<times> promise_store"

definition bq_new :: "size_t \<Rightarrow> 'a bqueue" where
  "bq_new n = \<lparr>bq_q = cb_new, bq_max = n, bq_not_empty = None, bq_not_full = None, bq_ex = None\<rparr>"

definition bq_size :: "'a bqueue \<Rightarrow> size_t" where
  "bq_size bq = cb_size (bq_q bq)"

definition bq_empty :: "'a bqueue \<Rightarrow> bool" where
  "bq_empty bq \<longleftrightarrow> cb_empty (bq_q bq)"

definition bq_full :: "'a bqueue \<Rightarrow> bool" where
  "bq_full bq \<longleftrightarrow> bq_max bq \<le> bq_size bq"

definition resolve_opt :: "nat option \<Rightarrow> fstate \<Rightarrow> promise_store \<Rightarrow> promise_store" where
  "resolve_opt w r ps = (case w of None \<Rightarrow> ps | Some p \<Rightarrow> resolve p r ps)"

definition bq_notify_not_empty :: "'a bq_pair \<Rightarrow> 'a bq_pair" where
  "bq_notify_not_empty = (\<lambda>(bq, ps). (bq\<lparr>bq_not_empty := None\<rparr>, resolve_opt (bq_not_empty bq) Ready ps))"

definition bq_notify_not_full :: "'a bq_pair \<Rightarrow> 'a bq_pair" where
  "bq_notify_not_full = (\<lambda>(bq, ps). (bq\<lparr>bq_not_full := None\<rparr>, resolve_opt (bq_not_full bq) Ready ps))"

text \<open>\<open>_q.push(data); notify_not_empty();\<close>, which throws when the buffer cannot grow.\<close>

definition bq_push_raw :: "'a cb_env \<Rightarrow> 'a \<Rightarrow> 'a bq_pair \<Rightarrow> exn option \<times> 'a bq_pair" where
  "bq_push_raw env x = (\<lambda>(bq, ps).
     case cb_push_back env x (bq_q bq) of
       (Some e, q) \<Rightarrow> (Some e, bq\<lparr>bq_q := q\<rparr>, ps)
     | (None, q) \<Rightarrow> (None, bq_notify_not_empty (bq\<lparr>bq_q := q\<rparr>, ps)))"

definition bq_push :: "'a cb_env \<Rightarrow> 'a \<Rightarrow> 'a bq_pair \<Rightarrow> (exn + bool) \<times> 'a bq_pair" where
  "bq_push env x s =
     (if bq_size (fst s) < bq_max (fst s)
      then (case bq_push_raw env x s of (Some e, s') \<Rightarrow> (Inl e, s') | (None, s') \<Rightarrow> (Inr True, s'))
      else (Inr False, s))"

definition bq_pop :: "'a bq_pair \<Rightarrow> 'a option \<times> 'a bq_pair" where
  "bq_pop s =
     (case (if bq_size (fst s) = bq_max (fst s) then bq_notify_not_full s else s) of
        (bq, ps) \<Rightarrow> (cb_front (bq_q bq), bq\<lparr>bq_q := cb_pop_front (bq_q bq)\<rparr>, ps))"

text \<open>
  Waiting: the new promise replaces the stored one, whose destructor breaks its future.
\<close>

definition bq_not_empty_wait :: "'a bq_pair \<Rightarrow> fut \<times> 'a bq_pair" where
  "bq_not_empty_wait = (\<lambda>(bq, ps).
     case bq_ex bq of
       Some e \<Rightarrow> (Exn_fut e, bq, ps)
     | None \<Rightarrow>
         if \<not> bq_empty bq then (Ready_fut, bq, ps)
         else (case new_promise ps of (p, ps1) \<Rightarrow>
           (Promise_fut p, bq\<lparr>bq_not_empty := Some p\<rparr>, resolve_opt (bq_not_empty bq) (Failed Broken_promise) ps1)))"

definition bq_not_full_wait :: "'a bq_pair \<Rightarrow> fut \<times> 'a bq_pair" where
  "bq_not_full_wait = (\<lambda>(bq, ps).
     case bq_ex bq of
       Some e \<Rightarrow> (Exn_fut e, bq, ps)
     | None \<Rightarrow>
         if \<not> bq_full bq then (Ready_fut, bq, ps)
         else (case new_promise ps of (p, ps1) \<Rightarrow>
           (Promise_fut p, bq\<lparr>bq_not_full := Some p\<rparr>, resolve_opt (bq_not_full bq) (Failed Broken_promise) ps1)))"

text \<open>
  The results of the eventual operations: a value at once, an exception, or a wait on a promise
  whose continuation is the corresponding \<open>resume\<close>.
\<close>

datatype 'a bq_result = Bq_value 'a | Bq_exn exn | Bq_wait fut | Bq_invalid

definition bq_pop_value :: "'a bq_pair \<Rightarrow> 'a bq_result \<times> 'a bq_pair" where
  "bq_pop_value s = (case bq_pop s of (None, s') \<Rightarrow> (Bq_invalid, s') | (Some x, s') \<Rightarrow> (Bq_value x, s'))"

definition bq_pop_eventually :: "'a bq_pair \<Rightarrow> 'a bq_result \<times> 'a bq_pair" where
  "bq_pop_eventually s =
     (case bq_ex (fst s) of
        Some e \<Rightarrow> (Bq_exn e, s)
      | None \<Rightarrow>
          if bq_empty (fst s) then (case bq_not_empty_wait s of (f, s') \<Rightarrow> (Bq_wait f, s'))
          else bq_pop_value s)"

definition bq_pop_resume :: "'a bq_pair \<Rightarrow> 'a bq_result \<times> 'a bq_pair" where
  "bq_pop_resume s = (case bq_ex (fst s) of Some e \<Rightarrow> (Bq_exn e, s) | None \<Rightarrow> bq_pop_value s)"

definition bq_push_eventually :: "'a cb_env \<Rightarrow> 'a \<Rightarrow> 'a bq_pair \<Rightarrow> (exn + fut) \<times> 'a bq_pair" where
  "bq_push_eventually env x s =
     (case bq_ex (fst s) of
        Some e \<Rightarrow> (Inr (Exn_fut e), s)
      | None \<Rightarrow>
          if bq_full (fst s) then (case bq_not_full_wait s of (f, s') \<Rightarrow> (Inr f, s'))
          else (case bq_push_raw env x s of (Some e, s') \<Rightarrow> (Inl e, s') | (None, s') \<Rightarrow> (Inr Ready_fut, s')))"

definition bq_push_resume :: "'a cb_env \<Rightarrow> 'a \<Rightarrow> 'a bq_pair \<Rightarrow> exn option \<times> 'a bq_pair" where
  "bq_push_resume env x s = bq_push_raw env x s"

text \<open>\<open>consume(func)\<close>: \<open>func\<close> sees each item with the caller's state and says whether to go on.\<close>

definition bq_consume :: "('a \<Rightarrow> 's \<Rightarrow> bool \<times> 's) \<Rightarrow> 's \<Rightarrow> 'a bq_pair \<Rightarrow> (exn + bool) \<times> 's \<times> 'a bq_pair" where
  "bq_consume func u = (\<lambda>(bq, ps).
     case bq_ex bq of
       Some e \<Rightarrow> (Inl e, u, bq, ps)
     | None \<Rightarrow>
         (case pop_while cb_empty cb_front cb_pop_front (\<lambda>_ (running, _). running) (\<lambda>x (_, u). func x u)
                 (bq_q bq) (True, u) of
            (q, running, u') \<Rightarrow>
              let bq' = bq\<lparr>bq_q := q\<rparr> in
              (Inr running, u', if \<not> bq_full bq' then bq_notify_not_full (bq', ps) else (bq', ps))))"

definition bq_set_max_size :: "size_t \<Rightarrow> 'a bq_pair \<Rightarrow> 'a bq_pair" where
  "bq_set_max_size n = (\<lambda>(bq, ps).
     let bq' = bq\<lparr>bq_max := n\<rparr> in if \<not> bq_full bq' then bq_notify_not_full (bq', ps) else (bq', ps))"

definition bq_abort :: "exn \<Rightarrow> 'a bq_pair \<Rightarrow> 'a bq_pair" where
  "bq_abort e = (\<lambda>(bq, ps).
     (bq\<lparr>bq_q := fst (pop_while cb_empty cb_front cb_pop_front (\<lambda>_ _. True) (\<lambda>_ _. ()) (bq_q bq) ()),
         bq_ex := Some e, bq_not_full := None, bq_not_empty := None\<rparr>,
      resolve_opt (bq_not_empty bq) (Failed e) (resolve_opt (bq_not_full bq) (Failed e) ps)))"

section \<open>Contents and invariant\<close>

abbreviation bq_list :: "'a bqueue \<Rightarrow> 'a list" where
  "bq_list bq \<equiv> cb_list (bq_q bq)"

text \<open>A reader only waits on an empty queue, a writer only on a full one; both promises are pending.\<close>

definition bq_inv :: "'a bq_pair \<Rightarrow> bool" where
  "bq_inv = (\<lambda>(bq, ps).
     cb_inv (bq_q bq) \<and>
     (\<forall>p. bq_not_empty bq = Some p \<longrightarrow> bq_list bq = [] \<and> p < pr_next ps \<and> pr_state ps p = Pending) \<and>
     (\<forall>p. bq_not_full bq = Some p \<longrightarrow> bq_full bq \<and> p < pr_next ps \<and> pr_state ps p = Pending) \<and>
     (\<forall>p. bq_not_empty bq = Some p \<longrightarrow> bq_not_full bq \<noteq> Some p) \<and>
     (bq_ex bq \<noteq> None \<longrightarrow> bq_not_empty bq = None \<and> bq_not_full bq = None))"

lemma bq_size_list: "cb_inv (bq_q bq) \<Longrightarrow> bq_size bq = of_nat (length (bq_list bq))"
  using cb_rep_end [OF cb_inv_rep, of "bq_q bq"] by (simp add: bq_size_def cb_size_def)

lemma bq_len_bound: "cb_inv (bq_q bq) \<Longrightarrow> length (bq_list bq) \<le> 2 ^ 62"
  by (rule cb_rep_bound [OF cb_inv_rep])

lemma bq_size_unat: "cb_inv (bq_q bq) \<Longrightarrow> unat (bq_size bq) = length (bq_list bq)"
  using bq_size_list [of bq] bq_len_bound [of bq] by (simp add: unat_of_nat_small)

lemma bq_full_iff: "cb_inv (bq_q bq) \<Longrightarrow> bq_full bq \<longleftrightarrow> unat (bq_max bq) \<le> length (bq_list bq)"
  using bq_size_unat [of bq] by (simp add: bq_full_def word_le_nat_alt)

lemma bq_empty_iff: "cb_inv (bq_q bq) \<Longrightarrow> bq_empty bq \<longleftrightarrow> bq_list bq = []"
  using cbq.is_empty_iff by (simp add: bq_empty_def)

lemma pr_resolve_opt [simp]:
  "pr_next (resolve_opt w r ps) = pr_next ps"
  "pr_state (resolve_opt w r ps) p = (if w = Some p then r else pr_state ps p)"
  by (auto simp: resolve_opt_def split: option.split)

lemma bq_push_raw_correct:
  assumes inv: "bq_inv (bq, ps)" and ret: "bq_push_raw env x (bq, ps) = (r, bq', ps')"
  shows "bq_inv (bq', ps') \<and> bq_list bq' = (if r = None then bq_list bq @ [x] else bq_list bq) \<and>
     ps' = (if r = None then resolve_opt (bq_not_empty bq) Ready ps else ps) \<and>
     bq_not_empty bq' = (if r = None then None else bq_not_empty bq) \<and> bq_not_full bq' = bq_not_full bq \<and>
     bq_max bq' = bq_max bq \<and> bq_ex bq' = bq_ex bq"
proof -
  obtain e q where q: "cb_push_back env x (bq_q bq) = (e, q)" by fastforce
  have ci: "cb_inv (bq_q bq)" using inv by (simp add: bq_inv_def)
  note push = cbq.push_list [OF ci q]
  let ?bq = "bq\<lparr>bq_q := q, bq_not_empty := if e = None then None else bq_not_empty bq\<rparr>"
  have res: "r = e" "bq' = ?bq"
    "ps' = (if e = None then resolve_opt (bq_not_empty bq) Ready ps else ps)"
    using ret q by (auto simp: bq_push_raw_def bq_notify_not_empty_def split: option.splits)
  have f: "bq_full bq \<longrightarrow> bq_full ?bq"
    using bq_full_iff [OF ci] bq_full_iff [of ?bq] push by auto
  show ?thesis using inv push f unfolding res by (auto simp: bq_inv_def split: if_splits)
qed

lemma bq_pop_correct:
  assumes inv: "bq_inv (bq, ps)" and ne: "bq_list bq \<noteq> []" and ret: "bq_pop (bq, ps) = (r, bq', ps')"
  shows "bq_inv (bq', ps') \<and> r = Some (hd (bq_list bq)) \<and> bq_list bq' = tl (bq_list bq) \<and>
     ps' = (if length (bq_list bq) = unat (bq_max bq) then resolve_opt (bq_not_full bq) Ready ps else ps) \<and>
     bq_not_full bq' = (if length (bq_list bq) = unat (bq_max bq) then None else bq_not_full bq) \<and>
     bq_not_empty bq' = bq_not_empty bq \<and> bq_max bq' = bq_max bq \<and> bq_ex bq' = bq_ex bq"
proof -
  have ci: "cb_inv (bq_q bq)" using inv by (simp add: bq_inv_def)
  note pop = cbq.pop_tl [OF ci ne] and front = cbq.front_hd [OF ci ne]
  have eq: "bq_size bq = bq_max bq \<longleftrightarrow> length (bq_list bq) = unat (bq_max bq)"
    using bq_size_unat [OF ci] by (metis word_unat_eq_iff)
  have nemp: "bq_not_empty bq = None" using inv ne by (cases "bq_not_empty bq") (auto simp: bq_inv_def)
  let ?w = "if length (bq_list bq) = unat (bq_max bq) then None else bq_not_full bq"
  let ?bq = "bq\<lparr>bq_q := cb_pop_front (bq_q bq), bq_not_full := ?w\<rparr>"
  have res: "r = Some (hd (bq_list bq))" "bq' = ?bq"
    "ps' = (if length (bq_list bq) = unat (bq_max bq) then resolve_opt (bq_not_full bq) Ready ps else ps)"
    using ret front eq by (auto simp: bq_pop_def bq_notify_not_full_def split: if_splits)
  have "bq_full ?bq" if w: "?w = Some p" for p
  proof -
    have "bq_full bq" using inv w by (auto simp: bq_inv_def split: if_splits)
    then have "unat (bq_max bq) < length (bq_list bq)" using w bq_full_iff [OF ci] by (auto split: if_splits)
    then show ?thesis using bq_full_iff [of ?bq] pop by auto
  qed
  then have "bq_inv (bq', ps')" using inv pop nemp unfolding res bq_inv_def by (auto split: if_splits)
  then show ?thesis using res pop by simp
qed

text \<open>\<open>consume\<close> on lists.\<close>

fun consume_spec :: "('a \<Rightarrow> 's \<Rightarrow> bool \<times> 's) \<Rightarrow> 's \<Rightarrow> 'a list \<Rightarrow> bool \<times> 's \<times> 'a list" where
  "consume_spec func u [] = (True, u, [])"
| "consume_spec func u (x # xs) =
     (case func x u of (running, u') \<Rightarrow> if running then consume_spec func u' xs else (False, u', xs))"

lemma consume_stopped: "consume_list (\<lambda>_ (running, _). running) f xs (False, u) = (xs, False, u)"
  by (cases xs) auto

lemma consume_list_spec:
  "consume_list (\<lambda>_ (running, _). running) (\<lambda>x (_, u). func x u) xs (True, u) =
     (case consume_spec func u xs of (running, u', rest) \<Rightarrow> (rest, running, u'))"
proof (induction xs arbitrary: u)
  case (Cons x xs)
  obtain b u' where f: "func x u = (b, u')" by fastforce
  then show ?case using Cons [of u'] by (cases b) (simp_all add: consume_stopped)
qed simp

lemma consume_spec_length: "consume_spec func u xs = (b, u', rest) \<Longrightarrow> length rest \<le> length xs"
  by (induction func u xs rule: consume_spec.induct) (fastforce split: prod.splits if_splits)+

lemma bq_notify_not_full_inv:
  assumes "cb_inv (bq_q bq)" and "\<forall>p. bq_not_empty bq = Some p \<longrightarrow> bq_list bq = [] \<and> p < pr_next ps \<and> pr_state ps p = Pending"
    and "\<forall>p. bq_not_full bq = Some p \<longrightarrow> p < pr_next ps \<and> pr_state ps p = Pending"
    and "\<forall>p. bq_not_empty bq = Some p \<longrightarrow> bq_not_full bq \<noteq> Some p"
    and "bq_ex bq \<noteq> None \<longrightarrow> bq_not_empty bq = None \<and> bq_not_full bq = None"
  shows "bq_inv (if \<not> bq_full bq then bq_notify_not_full (bq, ps) else (bq, ps))"
  using assms by (auto simp: bq_inv_def bq_notify_not_full_def)

section \<open>Properties\<close>

text \<open>A queue for one item that holds it.\<close>

lemma bq_new_inv: "bq_inv (bq_new n, ps)" and bq_new_list [simp]: "bq_list (bq_new n) = []"
  by (simp_all add: bq_inv_def bq_new_def)

definition bq_one :: "nat bq_pair" where
  "bq_one = snd (bq_push cb_env_ok 1 (bq_new 1, empty_store))"

lemma bq_one_facts:
  "bq_list (fst bq_one) = [1]" "bq_max (fst bq_one) = 1" "bq_ex (fst bq_one) = None"
  by code_simp+

lemma bq_one_inv: "bq_inv bq_one"
proof -
  obtain r b p where raw: "bq_push_raw cb_env_ok (1 :: nat) (bq_new 1, empty_store) = (r, b, p)" by (metis prod.collapse)
  have "bq_size (bq_new 1 :: nat bqueue) < bq_max (bq_new 1 :: nat bqueue)" by code_simp
  then have "bq_one = (b, p)" using raw by (simp add: bq_one_def bq_push_def split: option.split)
  then show ?thesis using bq_push_raw_correct [OF bq_new_inv raw] by metis
qed

text \<open>
  C36. The bounded queue.  \<open>push\<close> returns false exactly when there is no room, and then changes nothing; when it returns true
  it has appended the item and notified the waiting reader, if any; when it throws it has changed neither the items nor a
  promise.  \<open>pop\<close> on a non-empty queue removes and returns the front item, and notifies the waiting writer, if any, exactly
  if the queue was at its maximum, which includes every pop that makes room.  Nothing else changes in the members of the
  queue or in a promise, and the invariant (nobody waits on a queue that could serve it) is kept.
\<close>

theorem bq_push_pop_correct:
  assumes "bq_inv (bq, ps)"
  shows "(case bq_push env x (bq, ps) of (r, bq', ps') \<Rightarrow>
       bq_inv (bq', ps') \<and> (r = Inr False \<longleftrightarrow> unat (bq_max bq) \<le> length (bq_list bq)) \<and>
       (r = Inr False \<longrightarrow> bq' = bq \<and> ps' = ps) \<and>
       bq_list bq' = (if r = Inr True then bq_list bq @ [x] else bq_list bq) \<and>
       ps' = (if r = Inr True then resolve_opt (bq_not_empty bq) Ready ps else ps) \<and>
       bq_not_empty bq' = (if r = Inr True then None else bq_not_empty bq) \<and>
       bq_not_full bq' = bq_not_full bq \<and> bq_max bq' = bq_max bq \<and> bq_ex bq' = bq_ex bq) \<and>
     (bq_list bq \<noteq> [] \<longrightarrow> (case bq_pop (bq, ps) of (r, bq', ps') \<Rightarrow>
       bq_inv (bq', ps') \<and> r = Some (hd (bq_list bq)) \<and> bq_list bq' = tl (bq_list bq) \<and>
       ps' = (if length (bq_list bq) = unat (bq_max bq) then resolve_opt (bq_not_full bq) Ready ps else ps) \<and>
       bq_not_full bq' = (if length (bq_list bq) = unat (bq_max bq) then None else bq_not_full bq) \<and>
       bq_not_empty bq' = bq_not_empty bq \<and> bq_max bq' = bq_max bq \<and> bq_ex bq' = bq_ex bq \<and>
       (\<forall>p. bq_not_full bq = Some p \<and> \<not> bq_full bq' \<longrightarrow> pr_state ps' p = Ready)))"
proof (intro conjI impI)
  have ci: "cb_inv (bq_q bq)" using assms by (simp add: bq_inv_def)
  have lt: "bq_size bq < bq_max bq \<longleftrightarrow> \<not> unat (bq_max bq) \<le> length (bq_list bq)"
    using bq_size_unat [OF ci] by (simp add: word_less_nat_alt not_le)
  obtain r1 b1 p1 where raw: "bq_push_raw env x (bq, ps) = (r1, b1, p1)" by (metis prod.collapse)
  show "case bq_push env x (bq, ps) of (r, bq', ps') \<Rightarrow>
       bq_inv (bq', ps') \<and> (r = Inr False \<longleftrightarrow> unat (bq_max bq) \<le> length (bq_list bq)) \<and>
       (r = Inr False \<longrightarrow> bq' = bq \<and> ps' = ps) \<and>
       bq_list bq' = (if r = Inr True then bq_list bq @ [x] else bq_list bq) \<and>
       ps' = (if r = Inr True then resolve_opt (bq_not_empty bq) Ready ps else ps) \<and>
       bq_not_empty bq' = (if r = Inr True then None else bq_not_empty bq) \<and>
       bq_not_full bq' = bq_not_full bq \<and> bq_max bq' = bq_max bq \<and> bq_ex bq' = bq_ex bq"
    using bq_push_raw_correct [OF assms raw] raw lt assms
    by (cases r1) (auto simp: bq_push_def)
  show "case bq_pop (bq, ps) of (r, bq', ps') \<Rightarrow>
       bq_inv (bq', ps') \<and> r = Some (hd (bq_list bq)) \<and> bq_list bq' = tl (bq_list bq) \<and>
       ps' = (if length (bq_list bq) = unat (bq_max bq) then resolve_opt (bq_not_full bq) Ready ps else ps) \<and>
       bq_not_full bq' = (if length (bq_list bq) = unat (bq_max bq) then None else bq_not_full bq) \<and>
       bq_not_empty bq' = bq_not_empty bq \<and> bq_max bq' = bq_max bq \<and> bq_ex bq' = bq_ex bq \<and>
       (\<forall>p. bq_not_full bq = Some p \<and> \<not> bq_full bq' \<longrightarrow> pr_state ps' p = Ready)" if ne: "bq_list bq \<noteq> []"
  proof -
    obtain r2 b2 p2 where pop: "bq_pop (bq, ps) = (r2, b2, p2)" by (metis prod.collapse)
    note c = bq_pop_correct [OF assms ne pop]
    have "length (bq_list bq) = unat (bq_max bq)" if "bq_not_full bq = Some p" "\<not> bq_full b2" for p
    proof -
      have "unat (bq_max bq) \<le> length (bq_list bq)" using assms that(1) bq_full_iff [OF ci] by (simp add: bq_inv_def)
      moreover have "\<not> unat (bq_max bq) \<le> length (bq_list bq) - 1"
        using that(2) c bq_full_iff [of b2] by (auto simp: bq_inv_def)
      ultimately show ?thesis by linarith
    qed
    then show ?thesis using c pop by auto
  qed
qed

theorem bq_push_pop_correct_witness:
  "\<exists>bq ps. bq_inv (bq :: nat bqueue, ps) \<and> bq_list bq = [1] \<and> fst (bq_push cb_env_ok 2 (bq, ps)) = Inr False \<and>
     fst (bq_pop (bq, ps)) = Some 1"
proof -
  obtain bq ps where s: "bq_one = (bq, ps)" by fastforce
  have b: "bq_inv (bq, ps)" "bq_list bq = [1]" "bq_max bq = 1"
    using bq_one_inv bq_one_facts(1,2) by (simp_all add: s)
  show ?thesis using bq_push_pop_correct [OF b(1), where env = cb_env_ok and x = 2] b
    by (intro exI [of _ bq] exI [of _ ps]) (auto split: prod.splits)
qed

text \<open>
  \<open>consume(func)\<close> passes the items in order to \<open>func\<close> until it returns false or the queue is empty,
  removes exactly the items passed (the one for which \<open>func\<close> returned false included), returns
  whether \<open>func\<close> never declined, and wakes a writer if there is room; on an aborted queue it throws.
\<close>

theorem bq_consume_correct:
  assumes "bq_inv (bq, ps)"
  shows "(case bq_consume func u (bq, ps) of (r, u', bq', ps') \<Rightarrow>
       (case bq_ex bq of
          Some e \<Rightarrow> r = Inl e \<and> u' = u \<and> bq' = bq \<and> ps' = ps
        | None \<Rightarrow> bq_inv (bq', ps') \<and>
            (case consume_spec func u (bq_list bq) of (running, v, rest) \<Rightarrow>
               r = Inr running \<and> u' = v \<and> bq_list bq' = rest) \<and>
            (\<forall>p. bq_not_full bq = Some p \<and> \<not> bq_full bq' \<longrightarrow> pr_state ps' p = Ready)))"
proof (cases "bq_ex bq")
  case (Some e)
  then show ?thesis by (simp add: bq_consume_def)
next
  case None
  have ci: "cb_inv (bq_q bq)" using assms by (simp add: bq_inv_def)
  let ?loop = "pop_while cb_empty cb_front cb_pop_front (\<lambda>_ (running, _). running) (\<lambda>x (_, u). func x u) (bq_q bq) (True, u)"
  obtain q running u' where l: "?loop = (q, running, u')" by (metis prod.collapse)
  obtain running' v rest where spec: "consume_spec func u (bq_list bq) = (running', v, rest)" by (metis prod.collapse)
  have q: "cb_inv q" "cb_list q = rest" "running = running'" "u' = v"
    using cbq.pop_while_list [OF ci, of "\<lambda>_ (running, _). running" "\<lambda>x (_, u). func x u" "(True, u)"] l spec
    by (simp_all add: consume_list_spec)
  let ?bq = "bq\<lparr>bq_q := q\<rparr>"
  let ?s = "if \<not> bq_full ?bq then bq_notify_not_full (?bq, ps) else (?bq, ps)"
  have res: "bq_consume func u (bq, ps) = (Inr running, u', ?s)"
    using l None by (simp add: bq_consume_def Let_def)
  have nil: "bq_list bq = [] \<Longrightarrow> rest = []" using spec by simp
  have "bq_inv ?s"
    by (rule bq_notify_not_full_inv) (use assms q nil None in \<open>auto simp: bq_inv_def\<close>)
  moreover have "bq_list (fst ?s) = rest" "bq_full (fst ?s) = bq_full ?bq"
    using q by (simp_all add: bq_notify_not_full_def bq_full_def bq_size_def)
  moreover have "\<forall>p. bq_not_full bq = Some p \<and> \<not> bq_full ?bq \<longrightarrow> pr_state (snd ?s) p = Ready"
    by (simp add: bq_notify_not_full_def)
  ultimately show ?thesis using None q spec unfolding res by (auto split: prod.split)
qed

theorem bq_consume_correct_witness:
  "\<exists>bq ps bq' ps'. bq_one = (bq, ps) \<and>
     bq_consume (\<lambda>x u. (True, u + x)) 41 (bq, ps) = (Inr True, 42, bq', ps') \<and> bq_list bq' = []"
proof -
  obtain bq ps where s: "bq_one = (bq, ps)" by fastforce
  have b: "bq_inv (bq, ps)" "bq_list bq = [1]" "bq_ex bq = None"
    using bq_one_inv bq_one_facts(1,3) by (simp_all add: s)
  obtain r u' bq' ps' where c: "bq_consume (\<lambda>x u. (True, u + x)) 41 (bq, ps) = (r, u', bq', ps')" by (metis prod.collapse)
  show ?thesis using bq_consume_correct [OF b(1), of "\<lambda>x u. (True, u + x)" 41] b c s
    by (intro exI [of _ bq] exI [of _ ps] exI [of _ bq'] exI [of _ ps']) simp
qed

lemma bq_abort_state:
  assumes "bq_inv (bq, ps)" and "bq_abort e (bq, ps) = (bq', ps')"
  shows "bq_inv (bq', ps') \<and> bq_list bq' = [] \<and> bq_ex bq' = Some e \<and> bq_not_empty bq' = None \<and> bq_not_full bq' = None \<and>
     bq_max bq' = bq_max bq \<and> ps' = resolve_opt (bq_not_empty bq) (Failed e) (resolve_opt (bq_not_full bq) (Failed e) ps)"
proof -
  have ci: "cb_inv (bq_q bq)" using assms(1) by (simp add: bq_inv_def)
  note l = cbq.pop_while_list [OF ci, of "\<lambda>_ _. True" "\<lambda>_ _. ()" "()"]
  have nil: "fst (consume_list (\<lambda>_ _. True) (\<lambda>_ _. ()) xs ()) = []" for xs :: "'a list" by (induction xs) auto
  show ?thesis using assms(2) l nil by (auto simp: bq_abort_def bq_inv_def)
qed

text \<open>
  C37. \<open>abort(ex)\<close> empties the queue, fails the waiting reader and the waiting writer with \<open>ex\<close>, and makes every
  later \<open>not_empty\<close>, \<open>not_full\<close>, \<open>pop_eventually\<close>, \<open>push_eventually\<close> and \<open>consume\<close> fail with \<open>ex\<close>.
  But \<open>push\<close> does not look at the exception: with room it still stores the item and returns true.
\<close>

theorem bq_abort_correct:
  assumes "bq_inv (bq, ps)" and "bq_abort e (bq, ps) = (bq', ps')"
  shows "bq_inv (bq', ps') \<and> bq_list bq' = [] \<and>
     (\<forall>p. bq_not_empty bq = Some p \<or> bq_not_full bq = Some p \<longrightarrow> pr_state ps' p = Failed e) \<and>
     fst (bq_not_empty_wait (bq', ps')) = Exn_fut e \<and> fst (bq_not_full_wait (bq', ps')) = Exn_fut e \<and>
     fst (bq_pop_eventually (bq', ps')) = Bq_exn e \<and> fst (bq_push_eventually env x (bq', ps')) = Inr (Exn_fut e) \<and>
     fst (bq_consume func u (bq', ps')) = Inl e \<and>
     (bq_max bq \<noteq> 0 \<and> fst (cb_push_back env x (bq_q bq')) = None \<longrightarrow> fst (bq_push env x (bq', ps')) = Inr True)"
proof -
  note q = bq_abort_state [OF assms]
  then have ci: "cb_inv (bq_q bq')" by (simp add: bq_inv_def)
  have "bq_size bq' = 0" using bq_size_list [OF ci] q by simp
  then have "bq_max bq \<noteq> 0 \<and> fst (cb_push_back env x (bq_q bq')) = None \<longrightarrow> fst (bq_push env x (bq', ps')) = Inr True"
    using q by (auto simp: bq_push_def bq_push_raw_def word_gt_0 split: prod.splits option.splits)
  then show ?thesis using q
    by (auto simp: bq_not_empty_wait_def bq_not_full_wait_def bq_pop_eventually_def
        bq_push_eventually_def bq_consume_def)
qed

theorem bq_abort_correct_witness:
  "\<exists>bq' ps'. bq_abort Broken_pipe (bq_new 1, empty_store) = (bq' :: nat bqueue, ps') \<and>
     fst (bq_pop_eventually (bq', ps')) = Bq_exn Broken_pipe"
proof -
  obtain bq' ps' where a: "bq_abort Broken_pipe (bq_new 1, empty_store) = (bq' :: nat bqueue, ps')" by fastforce
  show ?thesis using bq_abort_correct [OF bq_new_inv a, of cb_env_ok 1 "\<lambda>_ u. (True, u)" "()"] a by auto
qed

text \<open>
  Only one reader can wait: a second wait for items on an empty queue replaces the stored promise and
  so breaks the future of the fiber that already waits.  (\<open>not_full\<close> is the same for writers.)
\<close>

theorem bq_second_waiter_breaks_first:
  assumes "bq_inv (bq, ps)" and "bq_not_empty bq = Some p" and "bq_not_empty_wait (bq, ps) = (f, bq', ps')"
  shows "pr_state ps' p = Failed Broken_promise \<and> (\<exists>p'. f = Promise_fut p' \<and> bq_not_empty bq' = Some p' \<and> p' \<noteq> p)"
proof -
  have "bq_ex bq = None" using assms(1,2) by (auto simp: bq_inv_def)
  moreover have "bq_empty bq" using assms(1,2) bq_empty_iff [of bq] by (simp add: bq_inv_def)
  moreover have "p < pr_next ps" using assms(1,2) by (simp add: bq_inv_def)
  ultimately show ?thesis using assms(2,3) by (auto simp: bq_not_empty_wait_def new_promise_def)
qed

theorem bq_second_waiter_breaks_first_witness:
  "\<exists>bq ps f bq' ps'. bq_not_empty (bq :: nat bqueue) = Some 0 \<and> bq_not_empty_wait (bq, ps) = (f, bq', ps') \<and>
     pr_state ps' 0 = Failed Broken_promise"
proof -
  let ?bq = "(bq_new 1 :: nat bqueue)\<lparr>bq_not_empty := Some 0\<rparr>" and ?ps = "snd (new_promise empty_store)"
  have inv: "bq_inv (?bq, ?ps)" by (simp add: bq_inv_def bq_new_def new_promise_def empty_store_def)
  obtain f bq' ps' where w: "bq_not_empty_wait (?bq, ?ps) = (f, bq', ps')" by (metis prod.collapse)
  have "bq_not_empty ?bq = Some 0" by simp
  then show ?thesis using bq_second_waiter_breaks_first [OF inv _ w] w by blast
qed

text \<open>
  The reader's race needs that a slot outside of the window holds no object.
\<close>

lemma bq_pop_raw_empty:
  assumes "cb_rep (bq_q bq) []" and "cb_tight (bq_q bq)" and "bq_ex bq = None"
  shows "fst (bq_pop_resume (bq, ps)) = Bq_invalid"
proof -
  have "cb_len (bq_q bq) = 0" using assms(1) by (simp add: cb_rep_def)
  then have "cb_front (bq_q bq) = None" using assms(2) unfolding cb_tight_def cb_front_def by (metis less_nat_zero_code)
  then show ?thesis using assms(3)
    by (auto simp: bq_pop_resume_def bq_pop_value_def bq_pop_def bq_notify_not_full_def split: prod.splits if_splits)
qed

lemma bq_push_tight:
  assumes "bq_inv (bq, ps)" and "cb_tight (bq_q bq)" and "bq_push env x (bq, ps) = (r, bq', ps')"
  shows "cb_tight (bq_q bq')"
proof -
  have ci: "cb_inv (bq_q bq)" using assms(1) by (simp add: bq_inv_def)
  obtain e q where q: "cb_push_back env x (bq_q bq) = (e, q)" by fastforce
  then have "cb_tight q" using cb_push_keeps [OF ci assms(2), where env = env and x = x] by simp
  then show ?thesis using assms(2,3) q
    by (auto simp: bq_push_def bq_push_raw_def bq_notify_not_empty_def split: option.splits if_splits)
qed

lemma bq_pop_tight:
  assumes "bq_inv (bq, ps)" and "bq_list bq \<noteq> []" and "cb_tight (bq_q bq)" and "bq_pop (bq, ps) = (r, bq', ps')"
  shows "cb_tight (bq_q bq')"
proof -
  have "cb_rep (bq_q bq) (bq_list bq)" using assms(1) by (simp add: bq_inv_def cb_inv_def)
  from cb_pop_front_rep [OF this assms(2)] assms(3) have "cb_tight (cb_pop_front (bq_q bq))" by blast
  then show ?thesis using assms(4) by (auto simp: bq_pop_def bq_notify_not_full_def split: if_splits)
qed

lemma bq_wait_parks:
  assumes inv: "bq_inv (bq, ps)" and "bq_ex bq = None"
  shows "bq_full bq \<Longrightarrow> \<exists>p bq1 ps1. bq_not_full_wait (bq, ps) = (Promise_fut p, bq1, ps1) \<and> bq_inv (bq1, ps1) \<and>
           bq1 = bq\<lparr>bq_not_full := Some p\<rparr> \<and> pr_state ps1 p = Pending"
    and "bq_list bq = [] \<Longrightarrow> \<exists>p bq1 ps1. bq_not_empty_wait (bq, ps) = (Promise_fut p, bq1, ps1) \<and> bq_inv (bq1, ps1) \<and>
           bq1 = bq\<lparr>bq_not_empty := Some p\<rparr> \<and> pr_state ps1 p = Pending"
proof -
  have full: "bq_full (bq\<lparr>bq_not_full := w\<rparr>) = bq_full bq" "bq_full (bq\<lparr>bq_not_empty := w\<rparr>) = bq_full bq" for w
    by (simp_all add: bq_full_def bq_size_def)
  have e: "bq_empty bq \<longleftrightarrow> bq_list bq = []" using inv bq_empty_iff [of bq] by (simp add: bq_inv_def)
  have neq: "bq_not_empty bq \<noteq> Some (pr_next ps)" "bq_not_full bq \<noteq> Some (pr_next ps)" using inv by (auto simp: bq_inv_def)
  show "\<exists>p bq1 ps1. bq_not_full_wait (bq, ps) = (Promise_fut p, bq1, ps1) \<and> bq_inv (bq1, ps1) \<and>
           bq1 = bq\<lparr>bq_not_full := Some p\<rparr> \<and> pr_state ps1 p = Pending" if "bq_full bq"
    using inv assms(2) that full neq by (auto simp: bq_not_full_wait_def new_promise_def bq_inv_def)
  show "\<exists>p bq1 ps1. bq_not_empty_wait (bq, ps) = (Promise_fut p, bq1, ps1) \<and> bq_inv (bq1, ps1) \<and>
           bq1 = bq\<lparr>bq_not_empty := Some p\<rparr> \<and> pr_state ps1 p = Pending" if "bq_list bq = []"
    using inv assms(2) that full neq e by (auto simp: bq_not_empty_wait_def new_promise_def bq_inv_def)
qed

text \<open>What the operations of the races do, one after the other.\<close>

lemma bq_writer_woken:
  assumes inv: "bq_inv (bq, ps)" and ex: "bq_ex bq = None" and max: "bq_max bq \<noteq> 0" "length (bq_list bq) = unat (bq_max bq)"
  shows "\<exists>p bq1 ps1 v bq2 ps2. bq_push_eventually env x (bq, ps) = (Inr (Promise_fut p), bq1, ps1) \<and> pr_state ps1 p = Pending \<and>
     bq_pop (bq1, ps1) = (v, bq2, ps2) \<and> pr_state ps2 p = Ready \<and> bq_inv (bq2, ps2) \<and> bq_list bq2 = tl (bq_list bq) \<and> bq_max bq2 = bq_max bq"
proof -
  have "bq_full bq" using inv max bq_full_iff [of bq] by (simp add: bq_inv_def)
  then obtain p bq1 ps1 where w: "bq_not_full_wait (bq, ps) = (Promise_fut p, bq1, ps1)" "bq_inv (bq1, ps1)"
    "bq1 = bq\<lparr>bq_not_full := Some p\<rparr>" "pr_state ps1 p = Pending" using bq_wait_parks(1) [OF inv ex] by blast
  have "bq_list bq1 \<noteq> []" using max w(3) by (auto simp: unat_eq_0)
  moreover obtain v bq2 ps2 where pop: "bq_pop (bq1, ps1) = (v, bq2, ps2)" by (metis prod.collapse)
  ultimately have c: "bq_inv (bq2, ps2)" "bq_list bq2 = tl (bq_list bq)" "bq_max bq2 = bq_max bq" "pr_state ps2 p = Ready"
    using bq_pop_correct [OF w(2) _ pop] max(2) w(3) by auto
  have "bq_push_eventually env x (bq, ps) = (Inr (Promise_fut p), bq1, ps1)"
    using w(1) \<open>bq_full bq\<close> ex by (simp add: bq_push_eventually_def)
  then show ?thesis using w(4) pop c by blast
qed

lemma bq_push_taken: "bq_push env x s = (Inr True, s') \<Longrightarrow> bq_push_raw env x s = (None, s')"
  by (auto simp: bq_push_def split: if_splits option.splits prod.splits)

lemma bq_push_resume_list:
  "bq_inv s \<Longrightarrow> bq_push_resume env x s = (None, s') \<Longrightarrow> bq_list (fst s') = bq_list (fst s) @ [x] \<and> bq_ex (fst s') = bq_ex (fst s) \<and>
     bq_max (fst s') = bq_max (fst s)"
  using bq_push_raw_correct [of "fst s" "snd s" env x None "fst s'" "snd s'"] by (simp add: bq_push_resume_def)

lemma bq_reader_woken:
  assumes inv: "bq_inv (bq, ps)" and ex: "bq_ex bq = None" and "bq_list bq = []"
    and push: "bq_push env y (snd (bq_pop_eventually (bq, ps))) = (Inr True, bq2, ps2)"
  shows "\<exists>p bq1 ps1. bq_pop_eventually (bq, ps) = (Bq_wait (Promise_fut p), bq1, ps1) \<and> pr_state ps1 p = Pending \<and>
     bq_inv (bq1, ps1) \<and> bq_q bq1 = bq_q bq \<and> pr_state ps2 p = Ready \<and> bq_inv (bq2, ps2) \<and> bq_list bq2 = [y] \<and> bq_ex bq2 = None"
proof -
  obtain p bq1 ps1 where w: "bq_not_empty_wait (bq, ps) = (Promise_fut p, bq1, ps1)" "bq_inv (bq1, ps1)"
    "bq1 = bq\<lparr>bq_not_empty := Some p\<rparr>" "pr_state ps1 p = Pending" using bq_wait_parks(2) [OF inv ex assms(3)] by blast
  have "bq_empty bq" using inv assms(3) bq_empty_iff [of bq] by (simp add: bq_inv_def)
  then have e: "bq_pop_eventually (bq, ps) = (Bq_wait (Promise_fut p), bq1, ps1)" using ex w by (simp add: bq_pop_eventually_def)
  obtain r b q where raw: "bq_push_raw env y (bq1, ps1) = (r, b, q)" by (metis prod.collapse)
  then have r: "r = None" "b = bq2" "q = ps2" using push e by (auto simp: bq_push_def split: if_splits option.splits)
  have c: "bq_inv (bq2, ps2)" "bq_list bq2 = [y]" "bq_ex bq2 = None" "pr_state ps2 p = Ready"
    using bq_push_raw_correct [OF w(2) raw [unfolded r]] assms(3) ex w(3) by auto
  have "bq_q bq1 = bq_q bq" using w(3) by simp
  then show ?thesis using e w(2,4) c by blast
qed

text \<open>
  C38. The continuations of \<open>push_eventually\<close> and \<open>pop_eventually\<close> do not look at the queue again.  On a queue at its
  maximum, a writer waits and the next \<open>pop\<close> wakes it; if it continues at once, it takes the room.  If another
  \<open>push\<close> takes the room first, the queue holds one item more than its maximum, and if an \<open>abort\<close> comes first, the
  item ends up in the aborted queue.  On an empty queue, a reader waits and the next \<open>push\<close> wakes it; if it continues at
  once, it gets the item.  If another \<open>pop\<close> takes the item first, it pops from an empty buffer.  (As far as no push throws.)
\<close>

theorem bq_resume_races:
  assumes "bq_inv (bq, ps)" and "cb_tight (bq_q bq)" and "bq_ex bq = None" and "bq_max bq \<noteq> 0"
  shows "(length (bq_list bq) = unat (bq_max bq) \<longrightarrow>
      (let (w, s1) = bq_push_eventually env x (bq, ps);
           s2 = snd (bq_pop s1);
           (e_now, now) = bq_push_resume env x s2;
           (r, s3) = bq_push env y s2;
           (e_late, late) = bq_push_resume env x s3;
           (e_dead, dead) = bq_push_resume env x (bq_abort ex s2) in
       (\<exists>p. w = Inr (Promise_fut p) \<and> pr_state (snd s1) p = Pending \<and> pr_state (snd s2) p = Ready) \<and>
       (e_now = None \<longrightarrow> bq_list (fst now) = tl (bq_list bq) @ [x]) \<and>
       (r = Inr True \<and> e_late = None \<longrightarrow> bq_list (fst late) = tl (bq_list bq) @ [y, x] \<and>
          length (bq_list (fst late)) = Suc (unat (bq_max (fst late)))) \<and>
       (e_dead = None \<longrightarrow> bq_list (fst dead) = [x] \<and> bq_ex (fst dead) = Some ex))) \<and>
    (bq_list bq = [] \<longrightarrow>
      (let (w, s1) = bq_pop_eventually (bq, ps);
           (r, s2) = bq_push env y s1;
           (v, s3) = bq_pop s2 in
       r = Inr True \<longrightarrow> (\<exists>p. w = Bq_wait (Promise_fut p) \<and> pr_state (snd s1) p = Pending \<and> pr_state (snd s2) p = Ready \<and>
         fst (bq_pop_resume s2) = Bq_value y \<and> v = Some y \<and> fst (bq_pop_resume s3) = Bq_invalid)))"
proof (intro conjI impI)
  assume full: "length (bq_list bq) = unat (bq_max bq)"
  obtain p bq1 ps1 v bq2 ps2 where w: "bq_push_eventually env x (bq, ps) = (Inr (Promise_fut p), bq1, ps1)" "pr_state ps1 p = Pending"
    "bq_pop (bq1, ps1) = (v, bq2, ps2)" "pr_state ps2 p = Ready" "bq_inv (bq2, ps2)" "bq_list bq2 = tl (bq_list bq)"
    "bq_max bq2 = bq_max bq" using bq_writer_woken [OF assms(1,3,4) full, of env x] by blast
  obtain r bq3 ps3 where push: "bq_push env y (bq2, ps2) = (r, bq3, ps3)" by (metis prod.collapse)
  have "bq_list bq \<noteq> []" using full assms(4) by (auto simp: unat_eq_0)
  then have len: "Suc (length (tl (bq_list bq))) = unat (bq_max bq)" using full by (cases "bq_list bq") simp_all
  have at_once: "bq_list (fst s4) = tl (bq_list bq) @ [x]" if "bq_push_resume env x (bq2, ps2) = (None, s4)" for s4
    using bq_push_resume_list [OF w(5) that] w(6) by simp
  have late: "bq_list (fst s4) = tl (bq_list bq) @ [y, x] \<and> length (bq_list (fst s4)) = Suc (unat (bq_max (fst s4)))"
    if t: "r = Inr True" "bq_push_resume env x (bq3, ps3) = (None, s4)" for s4
  proof -
    have c: "bq_inv (bq3, ps3)" "bq_list bq3 = tl (bq_list bq) @ [y]" "bq_max bq3 = bq_max bq"
      using bq_push_raw_correct [OF w(5) bq_push_taken [OF push [unfolded t(1)]]] w(6,7) by auto
    show ?thesis using bq_push_resume_list [OF c(1) t(2)] c(2,3) len by simp
  qed
  have aborted: "bq_list (fst s4) = [x] \<and> bq_ex (fst s4) = Some ex" if t: "bq_push_resume env x (bq_abort ex (bq2, ps2)) = (None, s4)" for s4
    using bq_abort_state [OF w(5) prod.collapse [symmetric], of ex] bq_push_resume_list [OF _ t] by simp
  obtain e_now now where now: "bq_push_resume env x (bq2, ps2) = (e_now, now)" by (metis prod.collapse)
  obtain e_late later where later: "bq_push_resume env x (bq3, ps3) = (e_late, later)" by (metis prod.collapse)
  obtain e_dead dead where dead: "bq_push_resume env x (bq_abort ex (bq2, ps2)) = (e_dead, dead)" by (metis prod.collapse)
  show "let (w, s1) = bq_push_eventually env x (bq, ps);
           s2 = snd (bq_pop s1);
           (e_now, now) = bq_push_resume env x s2;
           (r, s3) = bq_push env y s2;
           (e_late, late) = bq_push_resume env x s3;
           (e_dead, dead) = bq_push_resume env x (bq_abort ex s2) in
       (\<exists>p. w = Inr (Promise_fut p) \<and> pr_state (snd s1) p = Pending \<and> pr_state (snd s2) p = Ready) \<and>
       (e_now = None \<longrightarrow> bq_list (fst now) = tl (bq_list bq) @ [x]) \<and>
       (r = Inr True \<and> e_late = None \<longrightarrow> bq_list (fst late) = tl (bq_list bq) @ [y, x] \<and>
          length (bq_list (fst late)) = Suc (unat (bq_max (fst late)))) \<and>
       (e_dead = None \<longrightarrow> bq_list (fst dead) = [x] \<and> bq_ex (fst dead) = Some ex)"
    using w(2,4) at_once [of now] late [of later] aborted [of dead] now later dead by (auto simp: w(1,3) push Let_def)
next
  assume nil: "bq_list bq = []"
  obtain r bq2 ps2 where push: "bq_push env y (snd (bq_pop_eventually (bq, ps))) = (r, bq2, ps2)" by (metis prod.collapse)
  obtain v bq3 ps3 where pop: "bq_pop (bq2, ps2) = (v, bq3, ps3)" by (metis prod.collapse)
  have "\<exists>p s1. bq_pop_eventually (bq, ps) = (Bq_wait (Promise_fut p), s1) \<and> pr_state (snd s1) p = Pending \<and> pr_state ps2 p = Ready \<and>
      fst (bq_pop_resume (bq2, ps2)) = Bq_value y \<and> v = Some y \<and> fst (bq_pop_resume (bq3, ps3)) = Bq_invalid" if r: "r = Inr True"
  proof -
    obtain p bq1 ps1 where w: "bq_pop_eventually (bq, ps) = (Bq_wait (Promise_fut p), bq1, ps1)" "pr_state ps1 p = Pending"
      "bq_inv (bq1, ps1)" "bq_q bq1 = bq_q bq" "pr_state ps2 p = Ready" "bq_inv (bq2, ps2)" "bq_list bq2 = [y]" "bq_ex bq2 = None"
      using bq_reader_woken [OF assms(1,3) nil push [unfolded r]] by blast
    have "cb_tight (bq_q bq2)" using bq_push_tight [OF w(3), of env y r bq2 ps2] push w(1,4) assms(2) by simp
    then have tight: "cb_tight (bq_q bq3)" using bq_pop_tight [OF w(6) _ _ pop] w(7) by simp
    have c: "v = Some y" "bq_list bq3 = []" "bq_ex bq3 = None" "bq_inv (bq3, ps3)"
      using bq_pop_correct [OF w(6) _ pop] w(7,8) by force+
    then have "cb_rep (bq_q bq3) []" by (simp add: bq_inv_def cb_rep_iff)
    then have "fst (bq_pop_resume (bq3, ps3)) = Bq_invalid" using bq_pop_raw_empty tight c(3) by blast
    moreover have "fst (bq_pop_resume (bq2, ps2)) = Bq_value y" using pop c(1) w(8) by (simp add: bq_pop_resume_def bq_pop_value_def)
    ultimately show ?thesis using w(1,2,5) c(1) by simp
  qed
  then show "let (w, s1) = bq_pop_eventually (bq, ps);
           (r, s2) = bq_push env y s1;
           (v, s3) = bq_pop s2 in
       r = Inr True \<longrightarrow> (\<exists>p. w = Bq_wait (Promise_fut p) \<and> pr_state (snd s1) p = Pending \<and> pr_state (snd s2) p = Ready \<and>
         fst (bq_pop_resume s2) = Bq_value y \<and> v = Some y \<and> fst (bq_pop_resume s3) = Bq_invalid)"
    using push pop by (auto simp: split_beta Let_def)
qed

theorem bq_resume_races_witness:
  "bq_max (fst bq_one) = 1 \<and> (\<exists>s3 bq4 ps4. bq_push cb_env_ok 3 (snd (bq_pop (snd (bq_push_eventually cb_env_ok 2 bq_one)))) = (Inr True, s3) \<and>
      bq_push_resume cb_env_ok 2 s3 = (None, bq4, ps4) \<and> bq_list bq4 = [3, 2]) \<and>
   (\<exists>s2. bq_push cb_env_ok 1 (snd (bq_pop_eventually (bq_new 1 :: nat bqueue, empty_store))) = (Inr True, s2) \<and>
      fst (bq_pop s2) = Some 1 \<and> fst (bq_pop_resume (snd (bq_pop s2))) = Bq_invalid)"
proof -
  obtain bq ps where s: "bq_one = (bq, ps)" by fastforce
  have b: "bq_inv (bq, ps)" "bq_list bq = [1]" "bq_max bq = 1" "bq_ex bq = None"
    using bq_one_inv bq_one_facts by (simp_all add: s)
  have n: "bq_inv (bq_new 1 :: nat bqueue, empty_store)" "cb_tight (bq_q (bq_new 1 :: nat bqueue))"
    "bq_ex (bq_new 1 :: nat bqueue) = None" "bq_max (bq_new 1 :: nat bqueue) = 1"
    using bq_new_inv by (simp_all add: bq_new_def)
  obtain r0 s0 where push0: "bq_push cb_env_ok 1 (bq_new 1 :: nat bqueue, empty_store) = (r0, s0)" by (metis prod.collapse)
  then have "cb_tight (bq_q bq)" using bq_push_tight [OF n(1,2), of cb_env_ok 1 r0 "fst s0" "snd s0"] s by (simp add: bq_one_def)
  note t1 = bq_resume_races [OF b(1) this b(4), where env = cb_env_ok and x = 2 and y = 3]
    and t2 = bq_resume_races [OF n(1-3), where env = cb_env_ok and y = 1]
  obtain r3 s3 e bq4 ps4 where 3: "bq_push cb_env_ok 3 (snd (bq_pop (snd (bq_push_eventually cb_env_ok 2 bq_one)))) = (r3, s3)"
    "bq_push_resume cb_env_ok 2 s3 = (e, bq4, ps4)" by (metis prod.collapse)
  obtain r2 s2 where 2: "bq_push cb_env_ok 1 (snd (bq_pop_eventually (bq_new 1 :: nat bqueue, empty_store))) = (r2, s2)" by (metis prod.collapse)
  have "fst (bq_push cb_env_ok 3 (snd (bq_pop (snd (bq_push_eventually cb_env_ok 2 bq_one))))) = Inr True"
    "fst (bq_push_resume cb_env_ok 2 (snd (bq_push cb_env_ok 3 (snd (bq_pop (snd (bq_push_eventually cb_env_ok 2 bq_one))))))) = None"
    "fst (bq_push cb_env_ok 1 (snd (bq_pop_eventually (bq_new 1 :: nat bqueue, empty_store)))) = Inr True"
    by code_simp+
  then have "r3 = Inr True" "e = None" "r2 = Inr True" using 2 3 by simp_all
  then show ?thesis using t1 t2 b(2,3) n(4) 2 3 s bq_one_facts(2) by (auto simp: split_beta Let_def)
qed

end
