(* ===== verification/TimerSet.thy ===== *)
theory TimerSet
  imports Bitops "HOL-Library.Multiset"
begin

text \<open>
  \<open>core/timer-set.hh\<close>: the set of armed timers, in buckets that are sorted only when they expire.

  A timer is its identity and its timeout; an intrusive list of timers is a list of them.  A
  \<open>timestamp_t\<close> is an integer between \<open>- 2 ^ 63\<close> and \<open>2 ^ 63 - 1\<close>, and is converted to a word where
  the code counts leading zeros.  Bucket \<open>i < 63\<close> holds the timers whose timeout first differs from
  \<open>_last\<close> at value bit \<open>62 - i\<close>; bucket 63 holds those that are due.
\<close>

section \<open>State and operations\<close>

type_synonym tm = "nat \<times> int"

definition max_timestamp :: int where
  "max_timestamp = 2 ^ 63 - 1"

definition n_buckets :: nat where
  "n_buckets = 64"

record timer_set =
  ts_buckets :: "tm list list"
  ts_last :: int
  ts_next :: int
  ts_non_empty :: "64 word"

definition ts_new :: timer_set where
  "ts_new = \<lparr>ts_buckets = replicate n_buckets [], ts_last = 0, ts_next = max_timestamp, ts_non_empty = 0\<rparr>"

definition ts_get_index :: "int \<Rightarrow> int \<Rightarrow> nat" where
  "ts_get_index lst timestamp =
     (if timestamp \<le> lst then n_buckets - 1
      else case timestamp_clz (of_int timestamp XOR of_int lst) of None \<Rightarrow> n_buckets - 1 | Some i \<Rightarrow> i)"

definition put_bit :: "nat \<Rightarrow> bool \<Rightarrow> 64 word \<Rightarrow> 64 word" where
  "put_bit i b w = (if b then set_bit i w else unset_bit i w)"

definition ts_insert :: "tm \<Rightarrow> timer_set \<Rightarrow> bool \<times> timer_set" where
  "ts_insert t ts =
     (let index = ts_get_index (ts_last ts) (snd t);
          ts1 = ts\<lparr>ts_buckets := (ts_buckets ts)[index := ts_buckets ts ! index @ [t]],
                   ts_non_empty := put_bit index True (ts_non_empty ts)\<rparr>
      in if snd t < ts_next ts1 then (True, ts1\<lparr>ts_next := snd t\<rparr>) else (False, ts1))"

definition ts_remove :: "tm \<Rightarrow> timer_set \<Rightarrow> timer_set" where
  "ts_remove t ts =
     (let index = ts_get_index (ts_last ts) (snd t);
          list = remove1 t (ts_buckets ts ! index);
          ts1 = ts\<lparr>ts_buckets := (ts_buckets ts)[index := list]\<rparr>
      in if list = [] then ts1\<lparr>ts_non_empty := put_bit index False (ts_non_empty ts1)\<rparr> else ts1)"

text \<open>The parts of \<open>expire\<close>: splicing the due buckets, the loop over the bucket of \<open>now\<close>, the next timeout.\<close>

definition ts_splice :: "nat \<Rightarrow> timer_set \<times> tm list \<Rightarrow> timer_set \<times> tm list" where
  "ts_splice i = (\<lambda>(ts, exp).
     (ts\<lparr>ts_buckets := (ts_buckets ts)[i := []], ts_non_empty := put_bit i False (ts_non_empty ts)\<rparr>,
      exp @ ts_buckets ts ! i))"

definition ts_expire_step :: "nat \<Rightarrow> int \<Rightarrow> timer_set \<times> tm list \<Rightarrow> timer_set \<times> tm list" where
  "ts_expire_step index now = (\<lambda>(ts, exp).
     let t = hd (ts_buckets ts ! index);
         ts1 = ts\<lparr>ts_buckets := (ts_buckets ts)[index := tl (ts_buckets ts ! index)]\<rparr>
     in if snd t \<le> now then (ts1, exp @ [t]) else (snd (ts_insert t ts1), exp))"

definition ts_find_next :: "timer_set \<Rightarrow> timer_set" where
  "ts_find_next ts =
     (if ts_next ts = max_timestamp \<and> ts_non_empty ts \<noteq> 0
      then (case get_last_set (ts_non_empty ts) of
              None \<Rightarrow> ts
            | Some k \<Rightarrow> ts\<lparr>ts_next := fold (\<lambda>t m. min m (snd t)) (ts_buckets ts ! k) (ts_next ts)\<rparr>)
      else ts)"

text \<open>\<open>expire(now)\<close>; \<open>None\<close> is the \<open>abort()\<close> when time goes backwards.\<close>

definition ts_expire :: "int \<Rightarrow> timer_set \<Rightarrow> (tm list \<times> timer_set) option" where
  "ts_expire now ts =
     (if now < ts_last ts then None
      else
        let index = ts_get_index (ts_last ts) now;
            (ts1, exp1) = fold ts_splice (for_each_set (ts_non_empty ts) (index + 1)) (ts, []);
            ts2 = ts1\<lparr>ts_last := now, ts_next := max_timestamp\<rparr>;
            (ts3, exp3) = while (\<lambda>(ts, exp). ts_buckets ts ! index \<noteq> []) (ts_expire_step index now) (ts2, exp1);
            ts4 = ts3\<lparr>ts_non_empty := put_bit index (ts_buckets ts3 ! index \<noteq> []) (ts_non_empty ts3)\<rparr>
        in Some (exp3, ts_find_next ts4))"

definition ts_get_next_timeout :: "timer_set \<Rightarrow> int" where
  "ts_get_next_timeout ts = max (ts_last ts) (ts_next ts)"

definition ts_clear :: "timer_set \<Rightarrow> timer_set" where
  "ts_clear ts = fold (\<lambda>i ts. ts\<lparr>ts_buckets := (ts_buckets ts)[i := []]\<rparr>) (for_each_set (ts_non_empty ts) 0) ts"

definition ts_size :: "timer_set \<Rightarrow> nat" where
  "ts_size ts = sum_list (map (\<lambda>i. length (ts_buckets ts ! i)) (for_each_set (ts_non_empty ts) 0))"

definition ts_empty :: "timer_set \<Rightarrow> bool" where
  "ts_empty ts \<longleftrightarrow> ts_non_empty ts = 0"

section \<open>The bucket of a timestamp\<close>

text \<open>The number of low bits up to the highest one in which \<open>a\<close> and \<open>b\<close> differ.\<close>

definition diff_width :: "nat \<Rightarrow> nat \<Rightarrow> nat" where
  "diff_width a b = bit_width (a XOR b)"

lemma bit_width_le_iff: "bit_width n \<le> k \<longleftrightarrow> n < 2 ^ k"
proof
  assume "bit_width n \<le> k"
  then have "(2::nat) ^ bit_width n \<le> 2 ^ k" by simp
  then show "n < 2 ^ k" using bit_width_bounds [of n] by linarith
qed (rule bit_width_le)

lemma diff_width_le_iff: "diff_width a b \<le> k \<longleftrightarrow> a div 2 ^ k = b div 2 ^ k"
proof -
  have "a XOR b < 2 ^ k \<longleftrightarrow> drop_bit k (a XOR b) = 0"
    by (auto simp: drop_bit_eq_div div_eq_0_iff)
  also have "\<dots> \<longleftrightarrow> drop_bit k a XOR drop_bit k b = 0" by simp
  also have "\<dots> \<longleftrightarrow> drop_bit k a = drop_bit k b"
    by (auto simp: bit_eq_iff bit_simps)
  finally show ?thesis by (simp add: diff_width_def bit_width_le_iff drop_bit_eq_div)
qed

lemma diff_width_commute: "diff_width a b = diff_width b a"
  by (simp add: diff_width_def xor.commute)

lemma diff_width_pos: "a \<noteq> b \<Longrightarrow> 0 < diff_width a b"
  using diff_width_le_iff [of a b 0] by simp

text \<open>A time that first differs from \<open>l\<close> at a lower bit than \<open>now\<close> does is earlier than \<open>now\<close>.\<close>

lemma diff_width_less:
  assumes "diff_width t l < diff_width now l" and "l < now"
  shows "t < now"
proof -
  let ?k = "diff_width now l - 1"
  have "t div 2 ^ ?k = l div 2 ^ ?k" using assms(1) by (simp add: diff_width_le_iff [symmetric])
  moreover have "now div 2 ^ ?k \<noteq> l div 2 ^ ?k"
    using assms(1) by (simp add: diff_width_le_iff [symmetric])
  moreover have "l div 2 ^ ?k \<le> now div 2 ^ ?k" using assms(2) by (intro div_le_mono) simp
  ultimately have "t div 2 ^ ?k < now div 2 ^ ?k" by simp
  then show ?thesis by (meson div_le_mono leI leD)
qed

lemma div_pow_mono_eq:
  assumes "a div 2 ^ k = b div (2 ^ k :: nat)" and "k \<le> m"
  shows "a div 2 ^ m = b div 2 ^ m"
proof -
  have "(2::nat) ^ m = 2 ^ k * 2 ^ (m - k)" using assms(2) by (simp add: power_add [symmetric])
  then show ?thesis using assms(1) by (simp add: div_mult2_eq)
qed

text \<open>Moving the reference to \<open>now\<close> leaves the later buckets as they are.\<close>

lemma diff_width_later:
  assumes "diff_width now l < diff_width t l"
  shows "diff_width t now = diff_width t l"
proof -
  have "diff_width t now \<le> k \<longleftrightarrow> diff_width t l \<le> k" for k
  proof (cases "diff_width now l \<le> k")
    case True
    then show ?thesis by (simp add: diff_width_le_iff)
  next
    case False
    let ?m = "diff_width now l"
    have "now div 2 ^ ?m = l div 2 ^ ?m" by (simp add: diff_width_le_iff [symmetric])
    moreover have "t div 2 ^ ?m \<noteq> l div 2 ^ ?m" using assms by (simp add: diff_width_le_iff [symmetric])
    ultimately have ne: "t div 2 ^ ?m \<noteq> now div 2 ^ ?m" by simp
    have "k \<le> ?m" using False by simp
    then have "t div 2 ^ k \<noteq> now div 2 ^ k" using div_pow_mono_eq [of t k now ?m] ne by blast
    then have "\<not> diff_width t now \<le> k" by (simp add: diff_width_le_iff)
    then show ?thesis using False assms by simp
  qed
  then show ?thesis by (meson order_antisym order_refl)
qed

lemma div2_same:
  fixes x y z :: nat
  assumes "x div 2 = z div 2" "y div 2 = z div 2" "x \<noteq> z" "y \<noteq> z" "z \<le> x" "z \<le> y"
  shows "x = y"
proof -
  let ?q = "z div 2"
  have "x = 2 * ?q \<or> x = 2 * ?q + 1" using assms(1) by linarith
  moreover have "y = 2 * ?q \<or> y = 2 * ?q + 1" using assms(2) by linarith
  moreover have "z = 2 * ?q \<or> z = 2 * ?q + 1" by linarith
  ultimately show ?thesis using assms(3-6) by linarith
qed

text \<open>Timers of the same bucket as \<open>now\<close> that are not due come strictly nearer.\<close>

lemma diff_width_same:
  assumes "diff_width t l = diff_width now l" and "l < now" and "l < t"
  shows "diff_width t now < diff_width now l"
proof -
  let ?h = "diff_width now l"
  let ?k = "?h - 1"
  have pos: "0 < ?h" using assms(2) by (intro diff_width_pos) simp
  then have h: "(2::nat) ^ ?h = 2 ^ ?k * 2" by (metis Suc_pred' power_Suc2)
  have eq: "t div 2 ^ ?k div 2 = l div 2 ^ ?k div 2" "now div 2 ^ ?k div 2 = l div 2 ^ ?k div 2"
    using assms(1) diff_width_le_iff [of t l ?h] diff_width_le_iff [of now l ?h] h
    by (simp_all add: div_mult2_eq)
  have ne: "t div 2 ^ ?k \<noteq> l div 2 ^ ?k" "now div 2 ^ ?k \<noteq> l div 2 ^ ?k"
    using assms(1) pos by (simp_all add: diff_width_le_iff [symmetric])
  have "l div 2 ^ ?k \<le> t div 2 ^ ?k" "l div 2 ^ ?k \<le> now div 2 ^ ?k"
    using assms by (simp_all add: div_le_mono)
  then have "t div 2 ^ ?k = now div 2 ^ ?k" by (rule div2_same [OF eq ne])
  then have "diff_width t now \<le> ?k" by (simp add: diff_width_le_iff)
  then show ?thesis using pos by simp
qed

lemma ts_get_index_due: "t \<le> l \<Longrightarrow> ts_get_index l t = 63"
  by (simp add: ts_get_index_def n_buckets_def)

lemma ts_get_index_later:
  assumes "0 \<le> l" and "l < t" and "t < 2 ^ 63"
  shows "ts_get_index l t = 63 - diff_width (nat t) (nat l)" and "ts_get_index l t < 63"
    and "0 < diff_width (nat t) (nat l) \<and> diff_width (nat t) (nat l) \<le> 63"
proof -
  have u: "unat (of_int x :: 64 word) = nat x" if "0 \<le> x" "x < 2 ^ 63" for x
  proof -
    have "(of_int x :: 64 word) = of_nat (nat x)" using that(1) by simp
    moreover have "nat x < 2 ^ 64" using that by (simp add: nat_less_iff)
    ultimately show ?thesis using unat_of_nat_small [of "nat x", where 'a = 64] by simp
  qed
  let ?x = "of_int t XOR of_int l :: 64 word"
  have ux: "unat ?x = nat t XOR nat l" using assms by (simp add: unsigned_xor_eq u)
  have ne: "nat t \<noteq> nat l" using assms by auto
  have pos: "0 < diff_width (nat t) (nat l)" using ne by (rule diff_width_pos)
  then have nz: "?x \<noteq> 0" using ux by (auto simp: diff_width_def bit_width.simps)
  have "nat t div 2 ^ 63 = nat l div 2 ^ 63"
  proof -
    have "nat t < 2 ^ 63" "nat l < 2 ^ 63" using assms by (simp_all add: nat_less_iff)
    then show ?thesis by simp
  qed
  then have le: "diff_width (nat t) (nat l) \<le> 63" by (simp add: diff_width_le_iff)
  show "0 < diff_width (nat t) (nat l) \<and> diff_width (nat t) (nat l) \<le> 63" using pos le ..
  show "ts_get_index l t = 63 - diff_width (nat t) (nat l)"
    using assms nz le by (simp add: ts_get_index_def timestamp_clz_def count_leading_zeros_def ux diff_width_def)
  then show "ts_get_index l t < 63" using pos by simp
qed

lemma ts_get_index_sum:
  assumes "0 \<le> l" and "l < t" and "t < 2 ^ 63"
  shows "ts_get_index l t + diff_width (nat t) (nat l) = 63" and "0 < diff_width (nat t) (nat l)"
  using ts_get_index_later [OF assms] by simp_all

lemma ts_get_index_bound: "0 \<le> l \<Longrightarrow> t < 2 ^ 63 \<Longrightarrow> ts_get_index l t < 64"
  using ts_get_index_due [of t l] ts_get_index_later(2) [of l t] by (cases "t \<le> l") auto

text \<open>The three cases of \<open>expire\<close>: timers in later, earlier and the same bucket as \<open>now\<close>.\<close>

lemma ts_index_due:
  assumes "0 \<le> l" "l \<le> now" "now < 2 ^ 63" "t < 2 ^ 63" and "ts_get_index l now < ts_get_index l t"
  shows "t \<le> now"
proof (cases "t \<le> l")
  case False
  have n: "l < now"
  proof (rule ccontr)
    assume "\<not> l < now"
    then have "ts_get_index l now = 63" by (intro ts_get_index_due) simp
    then show False using assms(5) ts_get_index_bound [OF assms(1,4)] by simp
  qed
  have tl: "l < t" using False by simp
  have "diff_width (nat t) (nat l) < diff_width (nat now) (nat l)"
    using assms(5) ts_get_index_sum(1) [OF assms(1) tl assms(4)] ts_get_index_sum(1) [OF assms(1) n assms(3)]
    by linarith
  moreover have "nat l < nat now" using n assms(1) by simp
  ultimately have "nat t < nat now" by (rule diff_width_less)
  then show ?thesis by simp
qed (use assms in simp)

lemma ts_index_later:
  assumes "0 \<le> l" "l \<le> now" "now < 2 ^ 63" "t < 2 ^ 63" and "ts_get_index l t < ts_get_index l now"
  shows "now < t" and "ts_get_index now t = ts_get_index l t"
proof -
  have t: "l < t"
  proof (rule ccontr)
    assume "\<not> l < t"
    then have "ts_get_index l t = 63" by (intro ts_get_index_due) simp
    then show False using assms(5) ts_get_index_bound [OF assms(1,3)] by simp
  qed
  have d: "diff_width (nat now) (nat l) < diff_width (nat t) (nat l)"
  proof (cases "now = l")
    case True
    then have "diff_width (nat now) (nat l) = 0" using diff_width_le_iff [of "nat l" "nat l" 0] by simp
    then show ?thesis using ts_get_index_sum(2) [OF assms(1) t assms(4)] by simp
  next
    case False
    then have n: "l < now" using assms(2) by simp
    show ?thesis using assms(5) ts_get_index_sum(1) [OF assms(1) t assms(4)] ts_get_index_sum(1) [OF assms(1) n assms(3)]
      by linarith
  qed
  moreover have "nat l < nat t" using t assms(1) by simp
  ultimately have "nat now < nat t" by (rule diff_width_less)
  then show nt: "now < t" by simp
  have now: "0 \<le> now" using assms(1,2) by simp
  show "ts_get_index now t = ts_get_index l t"
    using diff_width_later [OF d] ts_get_index_sum(1) [OF assms(1) t assms(4)] ts_get_index_sum(1) [OF now nt assms(4)]
    by linarith
qed

lemma ts_index_nearer:
  assumes "0 \<le> l" "l \<le> now" "t < 2 ^ 63" "now < t" and "ts_get_index l t = ts_get_index l now"
  shows "ts_get_index l now < ts_get_index now t"
proof -
  have n: "l < now"
  proof (rule ccontr)
    assume "\<not> l < now"
    then have nl: "now = l" using assms(2) by simp
    then have "ts_get_index l now = 63" by (intro ts_get_index_due) simp
    moreover have "ts_get_index l t < 63" using ts_get_index_later(2) [of l t] assms(1,3,4) nl by simp
    ultimately show False using assms(5) by simp
  qed
  have tl: "l < t" using n assms(4) by simp
  have now: "now < 2 ^ 63" "0 \<le> now" using assms(1-4) by simp_all
  have "diff_width (nat t) (nat l) = diff_width (nat now) (nat l)"
    using assms(5) ts_get_index_sum(1) [OF assms(1) tl assms(3)] ts_get_index_sum(1) [OF assms(1) n now(1)]
    by linarith
  moreover have "nat l < nat now" "nat l < nat t" using n tl assms(1) by simp_all
  ultimately have "diff_width (nat t) (nat now) < diff_width (nat now) (nat l)" by (rule diff_width_same)
  then show ?thesis
    using ts_get_index_sum(1) [OF assms(1) n now(1)] ts_get_index_sum(1) [OF now(2) assms(4) assms(3)]
    by linarith
qed

section \<open>The invariant\<close>

definition ts_timers :: "timer_set \<Rightarrow> tm multiset" where
  "ts_timers ts = mset (concat (ts_buckets ts))"

text \<open>Every timer is in the bucket of its timeout, and the bit of a bucket says whether it has any.\<close>

definition ts_wf :: "timer_set \<Rightarrow> bool" where
  "ts_wf ts \<longleftrightarrow> length (ts_buckets ts) = 64 \<and> 0 \<le> ts_last ts \<and> ts_last ts < 2 ^ 63 \<and>
     (\<forall>i < 64. bit (ts_non_empty ts) i \<longleftrightarrow> ts_buckets ts ! i \<noteq> []) \<and>
     (\<forall>i < 64. \<forall>t \<in> set (ts_buckets ts ! i).
        ts_get_index (ts_last ts) (snd t) = i \<and> snd t < 2 ^ 63 \<and> ts_next ts \<le> snd t)"

lemma mset_concat_update:
  assumes "i < length bs"
  shows "mset (concat (bs[i := xs])) + mset (bs ! i) = mset (concat bs) + mset xs"
  using assms
proof (induction bs arbitrary: i)
  case (Cons b bs)
  then show ?case by (cases i) (auto simp: ac_simps)
qed simp

lemma bit_put_bit: "i < 64 \<Longrightarrow> bit (put_bit j b w) i = (if i = j then b else bit w i)"
  by (auto simp: put_bit_def bit_simps)

lemma set_ts_timers: "set_mset (ts_timers ts) = (\<Union>i < length (ts_buckets ts). set (ts_buckets ts ! i))"
proof -
  have "set (ts_buckets ts) = (\<lambda>i. ts_buckets ts ! i) ` {..<length (ts_buckets ts)}"
    by (auto simp: set_conv_nth)
  then show ?thesis by (simp add: ts_timers_def)
qed

lemma ts_next_le:
  assumes wf: "ts_wf ts" and t: "t \<in># ts_timers ts"
  shows "ts_next ts \<le> snd t"
proof -
  have len: "length (ts_buckets ts) = 64" using wf by (simp add: ts_wf_def)
  obtain i where "i < length (ts_buckets ts)" "t \<in> set (ts_buckets ts ! i)"
    using t unfolding set_ts_timers by blast
  then show ?thesis using wf len unfolding ts_wf_def by metis
qed

lemma ts_insert_simps:
  "ts_last (snd (ts_insert t ts)) = ts_last ts"
  "ts_buckets (snd (ts_insert t ts)) =
     (let i = ts_get_index (ts_last ts) (snd t) in (ts_buckets ts)[i := ts_buckets ts ! i @ [t]])"
  "ts_non_empty (snd (ts_insert t ts)) = put_bit (ts_get_index (ts_last ts) (snd t)) True (ts_non_empty ts)"
  "ts_next (snd (ts_insert t ts)) = min (ts_next ts) (snd t)"
  "fst (ts_insert t ts) = (snd t < ts_next ts)"
  by (auto simp: ts_insert_def Let_def)

lemma ts_wf_new: "ts_wf ts_new"
  by (simp add: ts_wf_def ts_new_def n_buckets_def)

lemma ts_wfD:
  assumes "ts_wf ts"
  shows "length (ts_buckets ts) = 64" "0 \<le> ts_last ts" "ts_last ts < 2 ^ 63"
    "\<And>i. i < 64 \<Longrightarrow> bit (ts_non_empty ts) i \<longleftrightarrow> ts_buckets ts ! i \<noteq> []"
    "\<And>i t. i < 64 \<Longrightarrow> t \<in> set (ts_buckets ts ! i) \<Longrightarrow>
        ts_get_index (ts_last ts) (snd t) = i \<and> snd t < 2 ^ 63 \<and> ts_next ts \<le> snd t"
  using assms unfolding ts_wf_def by blast+

lemma ts_wfI:
  assumes "length (ts_buckets ts) = 64" "0 \<le> ts_last ts" "ts_last ts < 2 ^ 63"
    and "\<And>i. i < 64 \<Longrightarrow> bit (ts_non_empty ts) i \<longleftrightarrow> ts_buckets ts ! i \<noteq> []"
    and "\<And>i t. i < 64 \<Longrightarrow> t \<in> set (ts_buckets ts ! i) \<Longrightarrow>
        ts_get_index (ts_last ts) (snd t) = i \<and> snd t < 2 ^ 63 \<and> ts_next ts \<le> snd t"
  shows "ts_wf ts"
  using assms unfolding ts_wf_def by blast

lemma ts_wf_insert:
  assumes wf: "ts_wf ts" and t: "snd t < 2 ^ 63"
  shows "ts_wf (snd (ts_insert t ts))"
    and "ts_timers (snd (ts_insert t ts)) = add_mset t (ts_timers ts)"
proof -
  let ?i = "ts_get_index (ts_last ts) (snd t)"
  have i: "?i < 64" using ts_get_index_bound [OF ts_wfD(2) [OF wf] t] .
  have len: "length (ts_buckets ts) = 64" using wf by (rule ts_wfD)
  show "ts_timers (snd (ts_insert t ts)) = add_mset t (ts_timers ts)"
    using mset_concat_update [of ?i "ts_buckets ts" "ts_buckets ts ! ?i @ [t]"] i len
    by (simp add: ts_timers_def ts_insert_simps Let_def)
  have b: "bit (put_bit ?i True (ts_non_empty ts)) j \<longleftrightarrow> (ts_buckets ts)[?i := ts_buckets ts ! ?i @ [t]] ! j \<noteq> []"
    if "j < 64" for j
    using that ts_wfD(4) [OF wf that] len by (simp add: bit_put_bit nth_list_update)
  have m: "ts_get_index (ts_last ts) (snd u) = j \<and> snd u < 2 ^ 63 \<and> min (ts_next ts) (snd t) \<le> snd u"
    if j: "j < 64" and u: "u \<in> set ((ts_buckets ts)[?i := ts_buckets ts ! ?i @ [t]] ! j)" for j u
  proof -
    have "u \<in> set (ts_buckets ts ! j) \<or> (u = t \<and> j = ?i)"
      using u j len by (cases "j = ?i") (auto simp: nth_list_update)
    then show ?thesis
    proof
      assume "u \<in> set (ts_buckets ts ! j)"
      then show ?thesis using ts_wfD(5) [OF wf j] by fastforce
    qed (use t in simp)
  qed
  show "ts_wf (snd (ts_insert t ts))"
  proof (rule ts_wfI; unfold ts_insert_simps Let_def)
    show "length ((ts_buckets ts)[?i := ts_buckets ts ! ?i @ [t]]) = 64" using len by simp
  qed (rule ts_wfD(2,3) [OF wf] b m; assumption)+
qed

lemma ts_wf_remove:
  assumes wf: "ts_wf ts" and t: "t \<in># ts_timers ts"
  shows "ts_wf (ts_remove t ts)" and "add_mset t (ts_timers (ts_remove t ts)) = ts_timers ts"
    and "ts_next (ts_remove t ts) = ts_next ts"
proof -
  let ?i = "ts_get_index (ts_last ts) (snd t)" and ?bs = "ts_buckets ts"
  let ?xs = "remove1 t (?bs ! ?i)"
  have len: "length ?bs = 64" using wf by (rule ts_wfD)
  obtain k where k: "k < 64" "t \<in> set (?bs ! k)" using t len by (auto simp: set_ts_timers)
  then have ki: "k = ?i" using ts_wfD(5) [OF wf k] by simp
  have i: "?i < 64" and ti: "t \<in> set (?bs ! ?i)" using k ki by simp_all
  have bs: "ts_buckets (ts_remove t ts) = ?bs[?i := ?xs]" "ts_last (ts_remove t ts) = ts_last ts"
    by (simp_all add: ts_remove_def Let_def)
  show nx: "ts_next (ts_remove t ts) = ts_next ts" by (simp add: ts_remove_def Let_def)
  have "mset ?xs = mset (?bs ! ?i) - {#t#}" by simp
  then have "add_mset t (mset ?xs) = mset (?bs ! ?i)" using ti by simp
  then show "add_mset t (ts_timers (ts_remove t ts)) = ts_timers ts"
    using mset_concat_update [of ?i ?bs ?xs] i len unfolding ts_timers_def bs
    by (metis (no_types, lifting) add_right_cancel union_mset_add_mset_left union_mset_add_mset_right)
  have ne: "?bs ! ?i \<noteq> []" using ti by auto
  have b: "bit (ts_non_empty (ts_remove t ts)) j \<longleftrightarrow> ?bs[?i := ?xs] ! j \<noteq> []" if j: "j < 64" for j
    using ts_wfD(4) [OF wf j] j len ne by (auto simp: ts_remove_def Let_def bit_put_bit nth_list_update)
  have m: "u \<in> set (?bs ! j)" if j: "j < 64" and u: "u \<in> set (?bs[?i := ?xs] ! j)" for j u
    using u j len notin_set_remove1 [of u "?bs ! ?i" t] by (cases "j = ?i") (auto simp: nth_list_update)
  show "ts_wf (ts_remove t ts)"
  proof (rule ts_wfI; unfold bs nx)
    show "ts_get_index (ts_last ts) (snd u) = j \<and> snd u < 2 ^ 63 \<and> ts_next ts \<le> snd u"
      if "j < 64" and "u \<in> set (?bs[?i := ?xs] ! j)" for j u
      by (rule ts_wfD(5) [OF wf that(1) m [OF that]])
  qed (use len ts_wfD(2,3) [OF wf] b in simp_all)
qed

section \<open>Expiry\<close>

text \<open>What the splicing loop keeps: no timer is lost, what it takes out is due.\<close>

definition ts_splice_inv :: "timer_set \<Rightarrow> nat \<Rightarrow> int \<Rightarrow> nat set \<Rightarrow> timer_set \<times> tm list \<Rightarrow> bool" where
  "ts_splice_inv ts0 index now done = (\<lambda>(ts, exp).
     length (ts_buckets ts) = 64 \<and> ts_last ts = ts_last ts0 \<and>
     mset exp + ts_timers ts = ts_timers ts0 \<and> (\<forall>t \<in> set exp. snd t \<le> now) \<and>
     (\<forall>i < 64. bit (ts_non_empty ts) i \<longleftrightarrow> ts_buckets ts ! i \<noteq> []) \<and>
     (\<forall>i < 64. ts_buckets ts ! i = (if i \<in> done then [] else ts_buckets ts0 ! i)))"

lemma ts_splice_inv_step:
  assumes inv: "ts_splice_inv ts0 index now done s" and i: "i < 64" "i \<notin> done"
    and due: "\<And>t. t \<in> set (ts_buckets ts0 ! i) \<Longrightarrow> snd t \<le> now"
  shows "ts_splice_inv ts0 index now (insert i done) (ts_splice i s)"
proof -
  obtain ts exp where s: "s = (ts, exp)" by (cases s)
  have len: "length (ts_buckets ts) = 64" using inv by (simp add: ts_splice_inv_def s)
  have "mset (ts_buckets ts ! i) + mset (concat ((ts_buckets ts)[i := []])) = ts_timers ts"
    using mset_concat_update [of i "ts_buckets ts" "[]"] i len by (simp add: ts_timers_def add.commute)
  then show ?thesis
    using inv i due len unfolding ts_splice_inv_def s ts_splice_def
    by (simp add: ts_timers_def nth_list_update bit_put_bit add.assoc ball_Un)
qed

lemma ts_splice_fold:
  assumes "ts_splice_inv ts0 index now done s" and "distinct js" and "\<forall>i \<in> set js. i < 64 \<and> i \<notin> done"
    and "\<And>i t. i \<in> set js \<Longrightarrow> t \<in> set (ts_buckets ts0 ! i) \<Longrightarrow> snd t \<le> now"
  shows "ts_splice_inv ts0 index now (set js \<union> done) (fold ts_splice js s)"
  using assms
proof (induction js arbitrary: s "done")
  case (Cons j js)
  have "ts_splice_inv ts0 index now (insert j done) (ts_splice j s)"
    using Cons.prems by (intro ts_splice_inv_step) auto
  then have "ts_splice_inv ts0 index now (set js \<union> insert j done) (fold ts_splice js (ts_splice j s))"
    using Cons.prems by (intro Cons.IH) auto
  then show ?case by simp
qed simp

text \<open>What the loop over the bucket of \<open>now\<close> keeps.  Reinserted timers land in buckets above \<open>index\<close>.\<close>

definition ts_loop_inv :: "tm multiset \<Rightarrow> nat \<Rightarrow> int \<Rightarrow> timer_set \<times> tm list \<Rightarrow> bool" where
  "ts_loop_inv all index now = (\<lambda>(ts, exp).
     length (ts_buckets ts) = 64 \<and> ts_last ts = now \<and>
     mset exp + ts_timers ts = all \<and> (\<forall>t \<in> set exp. snd t \<le> now) \<and>
     (\<forall>i < 64. i \<noteq> index \<longrightarrow> (bit (ts_non_empty ts) i \<longleftrightarrow> ts_buckets ts ! i \<noteq> [])) \<and>
     (\<forall>i < 64. \<forall>t \<in> set (ts_buckets ts ! i). snd t < 2 ^ 63 \<and>
        (i \<noteq> index \<longrightarrow> now < snd t \<and> ts_get_index now (snd t) = i) \<and>
        (i = index \<longrightarrow> now < snd t \<longrightarrow> index < ts_get_index now (snd t)) \<and>
        (index < i \<longrightarrow> ts_next ts \<le> snd t)) \<and>
     (ts_next ts = max_timestamp \<or> (\<exists>i < 64. index < i \<and> (\<exists>t \<in> set (ts_buckets ts ! i). snd t = ts_next ts))))"

lemma ts_loop_invD:
  assumes "ts_loop_inv all index now (ts, exp)"
  shows "length (ts_buckets ts) = 64" "ts_last ts = now" "mset exp + ts_timers ts = all"
    "\<And>t. t \<in> set exp \<Longrightarrow> snd t \<le> now"
    "\<And>i. i < 64 \<Longrightarrow> i \<noteq> index \<Longrightarrow> bit (ts_non_empty ts) i \<longleftrightarrow> ts_buckets ts ! i \<noteq> []"
    "\<And>i t. i < 64 \<Longrightarrow> t \<in> set (ts_buckets ts ! i) \<Longrightarrow> snd t < 2 ^ 63"
    "\<And>i t. i < 64 \<Longrightarrow> t \<in> set (ts_buckets ts ! i) \<Longrightarrow> i \<noteq> index \<Longrightarrow> now < snd t \<and> ts_get_index now (snd t) = i"
    "\<And>t. index < 64 \<Longrightarrow> t \<in> set (ts_buckets ts ! index) \<Longrightarrow> now < snd t \<Longrightarrow> index < ts_get_index now (snd t)"
    "\<And>i t. i < 64 \<Longrightarrow> t \<in> set (ts_buckets ts ! i) \<Longrightarrow> index < i \<Longrightarrow> ts_next ts \<le> snd t"
    "ts_next ts = max_timestamp \<or> (\<exists>i < 64. index < i \<and> (\<exists>t \<in> set (ts_buckets ts ! i). snd t = ts_next ts))"
  using assms unfolding ts_loop_inv_def prod.case by blast+

lemma ts_loop_invI:
  assumes "length (ts_buckets ts) = 64" "ts_last ts = now" "mset exp + ts_timers ts = all"
    "\<And>t. t \<in> set exp \<Longrightarrow> snd t \<le> now"
    "\<And>i. i < 64 \<Longrightarrow> i \<noteq> index \<Longrightarrow> bit (ts_non_empty ts) i \<longleftrightarrow> ts_buckets ts ! i \<noteq> []"
    "\<And>i t. i < 64 \<Longrightarrow> t \<in> set (ts_buckets ts ! i) \<Longrightarrow> snd t < 2 ^ 63"
    "\<And>i t. i < 64 \<Longrightarrow> t \<in> set (ts_buckets ts ! i) \<Longrightarrow> i \<noteq> index \<Longrightarrow> now < snd t \<and> ts_get_index now (snd t) = i"
    "\<And>t. index < 64 \<Longrightarrow> t \<in> set (ts_buckets ts ! index) \<Longrightarrow> now < snd t \<Longrightarrow> index < ts_get_index now (snd t)"
    "\<And>i t. i < 64 \<Longrightarrow> t \<in> set (ts_buckets ts ! i) \<Longrightarrow> index < i \<Longrightarrow> ts_next ts \<le> snd t"
    "ts_next ts = max_timestamp \<or> (\<exists>i < 64. index < i \<and> (\<exists>t \<in> set (ts_buckets ts ! i). snd t = ts_next ts))"
  shows "ts_loop_inv all index now (ts, exp)"
  using assms unfolding ts_loop_inv_def prod.case by blast

lemma ts_loop_step:
  assumes inv: "ts_loop_inv all index now (ts, exp)" and ix: "index < 64" and now: "0 \<le> now"
    and ne: "ts_buckets ts ! index \<noteq> []"
  shows "ts_loop_inv all index now (ts_expire_step index now (ts, exp))"
    and "length (ts_buckets (fst (ts_expire_step index now (ts, exp))) ! index) < length (ts_buckets ts ! index)"
proof -
  note D = ts_loop_invD [OF inv]
  let ?bs = "ts_buckets ts"
  obtain t xs where b: "?bs ! index = t # xs" using ne by (cases "?bs ! index") auto
  have tin: "t \<in> set (?bs ! index)" using b by simp
  let ?bs1 = "?bs[index := xs]"
  let ?ts1 = "ts\<lparr>ts_buckets := ?bs1\<rparr>"
  have ms: "add_mset t (mset (concat ?bs1)) = ts_timers ts"
    using mset_concat_update [of index ?bs xs] ix D(1) b by (simp add: ts_timers_def)
  have sub: "u \<in> set (?bs ! i)" if "i < 64" "u \<in> set (?bs1 ! i)" for i u
    using that b D(1) by (cases "i = index") auto
  have oth: "?bs1 ! i = ?bs ! i" if "i \<noteq> index" for i using that by simp
  have both: "ts_loop_inv all index now (ts_expire_step index now (ts, exp)) \<and>
    ts_buckets (fst (ts_expire_step index now (ts, exp))) ! index = xs"
  proof (cases "snd t \<le> now")
    case True
    then have e: "ts_expire_step index now (ts, exp) = (?ts1, exp @ [t])"
      by (simp add: ts_expire_step_def b)
    have s1: "ts_buckets ?ts1 = ?bs1" "ts_last ?ts1 = ts_last ts" "ts_non_empty ?ts1 = ts_non_empty ts"
      "ts_next ?ts1 = ts_next ts"
      by simp_all
    have "ts_loop_inv all index now (?ts1, exp @ [t])"
    proof (rule ts_loop_invI; (unfold s1)?)
      show "length ?bs1 = 64" using D(1) by simp
      show "ts_last ts = now" by (rule D(2))
      show "mset (exp @ [t]) + ts_timers ?ts1 = all" using D(3) unfolding ms [symmetric] by (simp add: ts_timers_def)
      show "\<And>u. u \<in> set (exp @ [t]) \<Longrightarrow> snd u \<le> now" using D(4) True by auto
      show "\<And>i. i < 64 \<Longrightarrow> i \<noteq> index \<Longrightarrow> bit (ts_non_empty ts) i = (?bs1 ! i \<noteq> [])"
        using D(5) by simp
      show "\<And>i t. i < 64 \<Longrightarrow> t \<in> set (?bs1 ! i) \<Longrightarrow> snd t < 2 ^ 63" using D(6) sub by blast
      show "\<And>i t. i < 64 \<Longrightarrow> t \<in> set (?bs1 ! i) \<Longrightarrow> i \<noteq> index \<Longrightarrow> now < snd t \<and> ts_get_index now (snd t) = i"
        using D(7) sub by blast
      show "\<And>t. index < 64 \<Longrightarrow> t \<in> set (?bs1 ! index) \<Longrightarrow> now < snd t \<Longrightarrow> index < ts_get_index now (snd t)"
        using D(8) sub by blast
      show "\<And>i t. i < 64 \<Longrightarrow> t \<in> set (?bs1 ! i) \<Longrightarrow> index < i \<Longrightarrow> ts_next ts \<le> snd t"
        using D(9) sub by blast
      show "ts_next ts = max_timestamp \<or> (\<exists>i < 64. index < i \<and> (\<exists>t \<in> set (?bs1 ! i). snd t = ts_next ts))"
        using D(10) oth by (metis less_irrefl)
    qed
    then show ?thesis using e ix D(1) by simp
  next
    case False
    let ?j = "ts_get_index now (snd t)"
    have t63: "snd t < 2 ^ 63" using D(6) [OF ix tin] .
    have j: "index < ?j" "?j < 64" using D(8) [OF ix tin] False ts_get_index_bound [OF now t63] by simp_all
    let ?bs2 = "?bs1[?j := ?bs ! ?j @ [t]]"
    have j1: "?bs1 ! ?j = ?bs ! ?j" using j by simp
    let ?ts2 = "snd (ts_insert t ?ts1)"
    have e: "ts_expire_step index now (ts, exp) = (?ts2, exp)"
      using False by (simp add: ts_expire_step_def b)
    have s2: "ts_buckets ?ts2 = ?bs2" "ts_last ?ts2 = now" "ts_non_empty ?ts2 = put_bit ?j True (ts_non_empty ts)"
      "ts_next ?ts2 = min (ts_next ts) (snd t)"
      using D(2) j1 by (simp_all add: ts_insert_simps Let_def)
    have mem: "u \<in> set (?bs ! i) \<or> (i = ?j \<and> u = t)" if "i < 64" "u \<in> set (?bs2 ! i)" for i u
      using that j D(1) sub [of i u] by (cases "i = ?j") auto
    have ix2: "?bs2 ! index = xs" using j D(1) ix by simp
    have "ts_loop_inv all index now (?ts2, exp)"
    proof (rule ts_loop_invI; (unfold s2)?)
      show "length ?bs2 = 64" using D(1) by simp
      show "mset exp + ts_timers ?ts2 = all"
        using D(3) ms mset_concat_update [of ?j ?bs1 "?bs1 ! ?j @ [t]"] j D(1) j1
        by (simp add: ts_timers_def s2)
      show "\<And>u. u \<in> set exp \<Longrightarrow> snd u \<le> now" by (rule D(4))
      show "bit (put_bit ?j True (ts_non_empty ts)) i = (?bs2 ! i \<noteq> [])" if "i < 64" "i \<noteq> index" for i
        using that D(5) [OF that] j D(1) by (cases "i = ?j") (simp_all add: bit_put_bit)
      show "snd u < 2 ^ 63" if "i < 64" "u \<in> set (?bs2 ! i)" for i u
        using mem [OF that] D(6) [OF that(1)] t63 by blast
      show "now < snd u \<and> ts_get_index now (snd u) = i" if "i < 64" "u \<in> set (?bs2 ! i)" "i \<noteq> index" for i u
        using mem [OF that(1,2)]
      proof
        assume "u \<in> set (?bs ! i)"
        then show ?thesis using D(7) that by blast
      qed (use False in simp)
      show "index < ts_get_index now (snd u)" if "u \<in> set (?bs2 ! index)" "now < snd u" for u
        using D(8) [OF ix _ that(2)] that(1) ix2 b by simp
      show "min (ts_next ts) (snd t) \<le> snd u" if "i < 64" "u \<in> set (?bs2 ! i)" "index < i" for i u
        using mem [OF that(1,2)]
      proof
        assume "u \<in> set (?bs ! i)"
        then have "ts_next ts \<le> snd u" by (rule D(9) [OF that(1) _ that(3)])
        then show ?thesis by simp
      qed simp
      show "min (ts_next ts) (snd t) = max_timestamp \<or>
        (\<exists>i < 64. index < i \<and> (\<exists>u \<in> set (?bs2 ! i). snd u = min (ts_next ts) (snd t)))"
      proof (cases "snd t \<le> ts_next ts")
        case True
        have "t \<in> set (?bs2 ! ?j)" using j D(1) by simp
        then show ?thesis using True j by (metis min.absorb2)
      next
        case False
        then have m: "min (ts_next ts) (snd t) = ts_next ts" by simp
        have "set (?bs ! i) \<subseteq> set (?bs2 ! i)" if "index < i" for i
          using that j D(1) by (cases "i = ?j") auto
        then show ?thesis using D(10) unfolding m by blast
      qed
    qed simp
    then show ?thesis using e ix2 s2(1) by simp
  qed
  then show "ts_loop_inv all index now (ts_expire_step index now (ts, exp))" ..
  show "length (ts_buckets (fst (ts_expire_step index now (ts, exp))) ! index) < length (?bs ! index)"
    using both b by simp
qed

lemma ts_loop_correct:
  assumes inv: "ts_loop_inv all index now (ts, exp)" and ix: "index < 64" and now: "0 \<le> now"
    and e: "while (\<lambda>(ts, exp). ts_buckets ts ! index \<noteq> []) (ts_expire_step index now) (ts, exp) = (ts', exp')"
  shows "ts_loop_inv all index now (ts', exp') \<and> ts_buckets ts' ! index = []"
proof -
  let ?f = "while (\<lambda>(ts, exp). ts_buckets ts ! index \<noteq> []) (ts_expire_step index now)"
  have "(\<lambda>s. ts_loop_inv all index now s \<and> ts_buckets (fst s) ! index = []) (?f (ts, exp))"
  proof (rule while_rule [where P = "ts_loop_inv all index now" and
        r = "measure (\<lambda>s. length (ts_buckets (fst s) ! index))"])
    show "ts_loop_inv all index now (ts, exp)" by (rule inv)
  next
    fix s assume "ts_loop_inv all index now s" and "case s of (ts, exp) \<Rightarrow> ts_buckets ts ! index \<noteq> []"
    then show "ts_loop_inv all index now (ts_expire_step index now s)"
      using ts_loop_step(1) [OF _ ix now] by (cases s) simp
  next
    fix s assume "ts_loop_inv all index now s" and "case s of (ts, exp) \<Rightarrow> ts_buckets ts ! index \<noteq> []"
    then show "(ts_expire_step index now s, s) \<in> measure (\<lambda>s. length (ts_buckets (fst s) ! index))"
      using ts_loop_step(2) [OF _ ix now] by (cases s) simp
  qed auto
  then show ?thesis using e by simp
qed

text \<open>The last bucket that is not empty holds the nearest timers.\<close>

lemma fold_min:
  "fold (\<lambda>t m. min m (snd t)) xs (n :: int) \<le> n \<and>
   (\<forall>t \<in> set xs. fold (\<lambda>t m. min m (snd t)) xs n \<le> snd t) \<and>
   (fold (\<lambda>t m. min m (snd t)) xs n = n \<or> (\<exists>t \<in> set xs. snd t = fold (\<lambda>t m. min m (snd t)) xs n))"
proof (induction xs arbitrary: n)
  case (Cons x xs)
  then show ?case
    using Cons.IH [of "min n (snd x)"] by (auto simp: min_def split: if_splits) (smt (verit))+
qed simp

lemma ts_nearest:
  assumes "0 \<le> now" "now < snd u" "snd u < 2 ^ 63" "snd t < 2 ^ 63"
    and "ts_get_index now (snd u) < ts_get_index now (snd t)"
  shows "snd t \<le> snd u"
  using assms by (intro ts_index_due [of now "snd u" "snd t"]) simp_all

lemma ts_find_next_correct:
  assumes len: "length (ts_buckets ts) = 64" and l: "0 \<le> ts_last ts" "ts_last ts < 2 ^ 63"
    and bits: "\<And>i. i < 64 \<Longrightarrow> bit (ts_non_empty ts) i \<longleftrightarrow> ts_buckets ts ! i \<noteq> []"
    and mem: "\<And>i t. i < 64 \<Longrightarrow> t \<in> set (ts_buckets ts ! i) \<Longrightarrow>
      ts_get_index (ts_last ts) (snd t) = i \<and> snd t < 2 ^ 63 \<and> ts_last ts < snd t"
    and next_le: "\<And>t. t \<in># ts_timers ts \<Longrightarrow> ts_next ts = max_timestamp \<or> ts_next ts \<le> snd t"
    and next_in: "ts_next ts = max_timestamp \<or> (\<exists>t. t \<in># ts_timers ts \<and> snd t = ts_next ts)"
  shows "ts_wf (ts_find_next ts)" and "ts_timers (ts_find_next ts) = ts_timers ts"
    and "ts_last (ts_find_next ts) = ts_last ts"
    and "ts_next (ts_find_next ts) = max_timestamp \<or> (\<exists>t. t \<in># ts_timers ts \<and> snd t = ts_next (ts_find_next ts))"
proof -
  have sel: "ts_buckets (ts_find_next ts) = ts_buckets ts" "ts_last (ts_find_next ts) = ts_last ts"
    "ts_non_empty (ts_find_next ts) = ts_non_empty ts"
    by (simp_all add: ts_find_next_def split: option.split)
  then show "ts_timers (ts_find_next ts) = ts_timers ts" "ts_last (ts_find_next ts) = ts_last ts"
    by (simp_all add: ts_timers_def)
  have inT: "t \<in># ts_timers ts \<longleftrightarrow> (\<exists>i < 64. t \<in> set (ts_buckets ts ! i))" for t
    using len by (auto simp: set_ts_timers)
  have "(\<forall>t. t \<in># ts_timers ts \<longrightarrow> ts_next (ts_find_next ts) \<le> snd t) \<and>
    (ts_next (ts_find_next ts) = max_timestamp \<or> (\<exists>t. t \<in># ts_timers ts \<and> snd t = ts_next (ts_find_next ts)))"
  proof (cases "ts_next ts = max_timestamp \<and> ts_non_empty ts \<noteq> 0")
    case False
    have "ts_next ts \<le> snd t" if "t \<in># ts_timers ts" for t
    proof -
      obtain i where "i < 64" "t \<in> set (ts_buckets ts ! i)" using \<open>t \<in># ts_timers ts\<close> inT by blast
      then have "bit (ts_non_empty ts) i" using bits by fastforce
      then have "ts_non_empty ts \<noteq> 0" by auto
      then show ?thesis using False next_le [OF that] by blast
    qed
    then show ?thesis using next_in False by (auto simp: ts_find_next_def)
  next
    case True
    then obtain k where k: "get_last_set (ts_non_empty ts) = Some k"
      by (auto simp: get_last_set_def count_leading_zeros_def)
    note K = get_last_set_spec [OF k]
    let ?n = "fold (\<lambda>t m. min m (snd t)) (ts_buckets ts ! k) max_timestamp"
    have n: "ts_next (ts_find_next ts) = ?n" using True k by (simp add: ts_find_next_def)
    note F = fold_min [of "ts_buckets ts ! k" max_timestamp]
    have nek: "ts_buckets ts ! k \<noteq> []" using K bits by blast
    then obtain t where t: "t \<in> set (ts_buckets ts ! k)" using hd_in_set by blast
    have "?n \<le> snd u" if "u \<in># ts_timers ts" for u
    proof -
      obtain i where i: "i < 64" "u \<in> set (ts_buckets ts ! i)" using \<open>u \<in># ts_timers ts\<close> inT by blast
      then have "bit (ts_non_empty ts) i" using bits by fastforce
      then have "i \<le> k" using K(3) [of i] by (meson not_le)
      show ?thesis
      proof (cases "i = k")
        case True
        then show ?thesis using i F by blast
      next
        case False
        then have "snd t \<le> snd u"
          using mem [OF i] mem [OF K(2) t] l \<open>i \<le> k\<close> by (intro ts_nearest [of "ts_last ts"]) auto
        then show ?thesis using t F by fastforce
      qed
    qed
    moreover have "?n = max_timestamp \<or> (\<exists>t. t \<in># ts_timers ts \<and> snd t = ?n)"
      using F K(2) inT by blast
    ultimately show ?thesis unfolding n by blast
  qed
  then have nx: "\<And>t. t \<in># ts_timers ts \<Longrightarrow> ts_next (ts_find_next ts) \<le> snd t"
    and "ts_next (ts_find_next ts) = max_timestamp \<or> (\<exists>t. t \<in># ts_timers ts \<and> snd t = ts_next (ts_find_next ts))"
    by blast+
  then show "ts_next (ts_find_next ts) = max_timestamp \<or> (\<exists>t. t \<in># ts_timers ts \<and> snd t = ts_next (ts_find_next ts))"
    by blast
  show "ts_wf (ts_find_next ts)"
    by (rule ts_wfI; unfold sel) (use len l bits mem nx inT in blast)+
qed

lemma mset_split_filter:
  assumes "A + B = C" and "\<forall>x \<in># A. P x" and "\<forall>x \<in># B. \<not> P x"
  shows "A = filter_mset P C" and "B = filter_mset (\<lambda>x. \<not> P x) C"
proof -
  have "filter_mset P A = A" "filter_mset P B = {#}" "filter_mset (\<lambda>x. \<not> P x) A = {#}"
    "filter_mset (\<lambda>x. \<not> P x) B = B"
    using assms(2,3) by (auto simp: multiset_eq_iff count_eq_zero_iff)
  then show "A = filter_mset P C" "B = filter_mset (\<lambda>x. \<not> P x) C"
    unfolding assms(1) [symmetric] by simp_all
qed

lemma ts_expire_aux:
  assumes wf: "ts_wf ts" and now: "ts_last ts \<le> now" "now < 2 ^ 63"
  obtains exp ts' where "ts_expire now ts = Some (exp, ts')" "ts_wf ts'" "ts_last ts' = now"
    "mset exp = {#t \<in># ts_timers ts. snd t \<le> now#}" "ts_timers ts' = {#t \<in># ts_timers ts. \<not> snd t \<le> now#}"
    "ts_next ts' = max_timestamp \<or> (\<exists>t. t \<in># ts_timers ts' \<and> snd t = ts_next ts')"
proof -
  note W = ts_wfD [OF wf]
  let ?ix = "ts_get_index (ts_last ts) now"
  let ?js = "for_each_set (ts_non_empty ts) (?ix + 1)"
  have now0: "0 \<le> now" using W(2) now(1) by simp
  have ix: "?ix < 64" by (rule ts_get_index_bound [OF W(2) now(2)])
  have js: "set ?js = {i. ?ix < i \<and> i < 64 \<and> bit (ts_non_empty ts) i}" by (auto simp: set_for_each_set)
  have "ts_splice_inv ts ?ix now {} (ts, [])" using W by (simp add: ts_splice_inv_def)
  then have sp: "ts_splice_inv ts ?ix now (set ?js \<union> {}) (fold ts_splice ?js (ts, []))"
  proof (rule ts_splice_fold)
    show "snd t \<le> now" if "i \<in> set ?js" "t \<in> set (ts_buckets ts ! i)" for i t
      using that js W(5) [of i t] by (intro ts_index_due [OF W(2) now]) auto
  qed (use js distinct_for_each_set in auto)
  obtain ts1 exp1 where f1: "fold ts_splice ?js (ts, []) = (ts1, exp1)" by (cases "fold ts_splice ?js (ts, [])")
  note sp1 = sp [unfolded f1]
  have b1: "ts_buckets ts1 ! i = (if i \<in> set ?js then [] else ts_buckets ts ! i)" if "i < 64" for i
    using sp1 that by (simp add: ts_splice_inv_def)
  have high: "ts_buckets ts1 ! i = []" if "?ix < i" "i < 64" for i
    using b1 [OF that(2)] W(4) [OF that(2)] js that by (cases "bit (ts_non_empty ts) i") auto
  have low: "ts_buckets ts1 ! i = ts_buckets ts ! i" if "i \<le> ?ix" for i
    using b1 [of i] js ix that by simp
  let ?ts2 = "ts1\<lparr>ts_last := now, ts_next := max_timestamp\<rparr>"
  have s1: "length (ts_buckets ts1) = 64" "mset exp1 + ts_timers ts1 = ts_timers ts"
    "\<And>t. t \<in> set exp1 \<Longrightarrow> snd t \<le> now" "\<And>i. i < 64 \<Longrightarrow> bit (ts_non_empty ts1) i \<longleftrightarrow> ts_buckets ts1 ! i \<noteq> []"
    using sp1 by (simp_all add: ts_splice_inv_def)
  have s2: "ts_buckets ?ts2 = ts_buckets ts1" "ts_last ?ts2 = now" "ts_non_empty ?ts2 = ts_non_empty ts1"
    "ts_next ?ts2 = max_timestamp" "ts_timers ?ts2 = ts_timers ts1"
    by (simp_all add: ts_timers_def)
  have old: "t \<in> set (ts_buckets ts ! i) \<and> i \<le> ?ix" if "i < 64" "t \<in> set (ts_buckets ts1 ! i)" for i t
    using that high [of i] low [of i] by (cases "?ix < i") auto
  have inv2: "ts_loop_inv (ts_timers ts) ?ix now (?ts2, exp1)"
  proof (rule ts_loop_invI; (unfold s2)?)
    show "length (ts_buckets ts1) = 64" by (rule s1)
    show "mset exp1 + ts_timers ts1 = ts_timers ts" by (rule s1)
    show "\<And>t. t \<in> set exp1 \<Longrightarrow> snd t \<le> now" by (rule s1)
    show "bit (ts_non_empty ts1) i = (ts_buckets ts1 ! i \<noteq> [])" if "i < 64" for i using that by (rule s1)
    show "snd t < 2 ^ 63" if "i < 64" "t \<in> set (ts_buckets ts1 ! i)" for i t
      using W(5) [OF that(1)] old [OF that] by blast
    show "now < snd t \<and> ts_get_index now (snd t) = i"
      if "i < 64" "t \<in> set (ts_buckets ts1 ! i)" "i \<noteq> ?ix" for i t
    proof -
      have t: "ts_get_index (ts_last ts) (snd t) = i" "snd t < 2 ^ 63" "i < ?ix"
        using W(5) [OF that(1)] old [OF that(1,2)] that(3) by auto
      then show ?thesis using ts_index_later [OF W(2) now t(2)] by simp
    qed
    show "?ix < ts_get_index now (snd t)" if "t \<in> set (ts_buckets ts1 ! ?ix)" "now < snd t" for t
    proof -
      have t: "ts_get_index (ts_last ts) (snd t) = ?ix" "snd t < 2 ^ 63"
        using W(5) [OF ix] old [OF ix that(1)] by auto
      then show ?thesis using ts_index_nearer [OF W(2) now(1) t(2) that(2) t(1)] by simp
    qed
    show "max_timestamp \<le> snd t" if "i < 64" "t \<in> set (ts_buckets ts1 ! i)" "?ix < i" for i t
      using old [OF that(1,2)] that(3) by simp
  qed simp_all
  obtain ts3 exp3 where w: "while (\<lambda>(ts, exp). ts_buckets ts ! ?ix \<noteq> []) (ts_expire_step ?ix now) (?ts2, exp1) = (ts3, exp3)"
    by fastforce
  have inv3: "ts_loop_inv (ts_timers ts) ?ix now (ts3, exp3)" and e3: "ts_buckets ts3 ! ?ix = []"
    using ts_loop_correct [OF inv2 ix now0 w] by simp_all
  note L = ts_loop_invD [OF inv3]
  let ?ts4 = "ts3\<lparr>ts_non_empty := put_bit ?ix False (ts_non_empty ts3)\<rparr>"
  have s4: "ts_buckets ?ts4 = ts_buckets ts3" "ts_last ?ts4 = now" "ts_next ?ts4 = ts_next ts3"
    "ts_non_empty ?ts4 = put_bit ?ix False (ts_non_empty ts3)" "ts_timers ?ts4 = ts_timers ts3"
    using L(2) by (simp_all add: ts_timers_def)
  have run: "ts_expire now ts = Some (exp3, ts_find_next ?ts4)"
    using now(1) f1 w e3 by (simp add: ts_expire_def Let_def)
  have inT: "t \<in># ts_timers ts3 \<longleftrightarrow> (\<exists>i < 64. t \<in> set (ts_buckets ts3 ! i))" for t
    using L(1) by (auto simp: set_ts_timers)
  have mem: "ts_get_index now (snd t) = i \<and> snd t < 2 ^ 63 \<and> now < snd t"
    if "i < 64" "t \<in> set (ts_buckets ts3 ! i)" for i t
  proof -
    have "i \<noteq> ?ix" using that e3 by auto
    then show ?thesis using L(6,7) [OF that] by blast
  qed
  have nle: "ts_next ts3 = max_timestamp \<or> ts_next ts3 \<le> snd t" if "t \<in># ts_timers ts3" for t
  proof (cases "ts_next ts3 = max_timestamp")
    case False
    then obtain k u where u: "k < 64" "?ix < k" "u \<in> set (ts_buckets ts3 ! k)" "snd u = ts_next ts3"
      using L(10) by blast
    obtain i where i: "i < 64" "t \<in> set (ts_buckets ts3 ! i)"
      using inT \<open>t \<in># ts_timers ts3\<close> by blast
    show ?thesis
    proof (cases "?ix < i")
      case True
      then show ?thesis using L(9) [OF i] by blast
    next
      case False
      then have "i < k" using u(2) by simp
      then have "snd u \<le> snd t"
        using mem [OF i] mem [OF u(1,3)] by (intro ts_nearest [OF now0]) auto
      then show ?thesis using u(4) by simp
    qed
  qed simp
  have a1: "length (ts_buckets ?ts4) = 64" unfolding s4 by (rule L(1))
  have a2: "0 \<le> ts_last ?ts4" unfolding s4 by (rule now0)
  have a3: "ts_last ?ts4 < 2 ^ 63" unfolding s4 by (rule now(2))
  have a4: "bit (ts_non_empty ?ts4) i = (ts_buckets ?ts4 ! i \<noteq> [])" if "i < 64" for i
    unfolding s4 bit_put_bit [OF that] using L(5) [OF that] e3 by (cases "i = ?ix") auto
  have a5: "ts_get_index (ts_last ?ts4) (snd t) = i \<and> snd t < 2 ^ 63 \<and> ts_last ?ts4 < snd t"
    if "i < 64" "t \<in> set (ts_buckets ?ts4 ! i)" for i t
    using that unfolding s4 by (rule mem)
  have a6: "ts_next ?ts4 = max_timestamp \<or> ts_next ?ts4 \<le> snd t" if "t \<in># ts_timers ?ts4" for t
    using that unfolding s4 by (rule nle)
  have a7: "ts_next ?ts4 = max_timestamp \<or> (\<exists>t. t \<in># ts_timers ?ts4 \<and> snd t = ts_next ?ts4)"
    unfolding s4 using L(10) inT by blast
  have fn: "ts_wf (ts_find_next ?ts4)" "ts_timers (ts_find_next ?ts4) = ts_timers ?ts4"
    "ts_last (ts_find_next ?ts4) = ts_last ?ts4"
    "ts_next (ts_find_next ?ts4) = max_timestamp \<or> (\<exists>t. t \<in># ts_timers ?ts4 \<and> snd t = ts_next (ts_find_next ?ts4))"
    by (rule ts_find_next_correct [OF a1 a2 a3 a4 a5 a6 a7]; assumption)+
  have fin: "mset exp3 + ts_timers (ts_find_next ?ts4) = ts_timers ts" using L(3) fn(2) s4(5) by simp
  have "\<forall>t \<in># ts_timers (ts_find_next ?ts4). \<not> snd t \<le> now"
    using mem inT fn(2) s4(5) by (metis not_le)
  moreover have "\<forall>t \<in># mset exp3. snd t \<le> now" using L(4) by simp
  ultimately have split: "mset exp3 = {#t \<in># ts_timers ts. snd t \<le> now#}"
    "ts_timers (ts_find_next ?ts4) = {#t \<in># ts_timers ts. \<not> snd t \<le> now#}"
    using mset_split_filter [OF fin] by blast+
  show ?thesis
  proof (rule that [OF run fn(1) _ split])
    show "ts_last (ts_find_next ?ts4) = now" by (simp only: fn(3) s4(2))
    show "ts_next (ts_find_next ?ts4) = max_timestamp \<or>
      (\<exists>t. t \<in># ts_timers (ts_find_next ?ts4) \<and> snd t = ts_next (ts_find_next ?ts4))"
      using fn(4) unfolding fn(2) .
  qed
qed

section \<open>Properties\<close>

text \<open>
  C22. \<open>expire(now)\<close> returns exactly the armed timers that are due at \<open>now\<close>, keeps exactly the others,
  and leaves as the next timeout the earliest of them (the largest timestamp when there is none):
  no timer fires early, late or twice, whatever buckets the timers were in.
\<close>

theorem ts_expire_correct:
  assumes "ts_wf ts" and "ts_last ts \<le> now" and "now < 2 ^ 63"
  shows "\<exists>exp ts'. ts_expire now ts = Some (exp, ts') \<and> ts_wf ts' \<and> ts_last ts' = now \<and>
    mset exp = {#t \<in># ts_timers ts. snd t \<le> now#} \<and>
    ts_timers ts' = {#t \<in># ts_timers ts. now < snd t#} \<and>
    (\<forall>t \<in># ts_timers ts'. ts_next ts' \<le> snd t) \<and>
    (ts_next ts' = max_timestamp \<or> (\<exists>t \<in># ts_timers ts'. snd t = ts_next ts'))"
proof -
  obtain exp ts' where e: "ts_expire now ts = Some (exp, ts')" "ts_wf ts'" "ts_last ts' = now"
    "mset exp = {#t \<in># ts_timers ts. snd t \<le> now#}" "ts_timers ts' = {#t \<in># ts_timers ts. \<not> snd t \<le> now#}"
    "ts_next ts' = max_timestamp \<or> (\<exists>t. t \<in># ts_timers ts' \<and> snd t = ts_next ts')"
    using ts_expire_aux [OF assms] .
  have "ts_next ts' \<le> snd t" if "t \<in># ts_timers ts'" for t
    by (rule ts_next_le [OF e(2) that])
  then show ?thesis using e by (intro exI [of _ exp] exI [of _ ts']) (auto simp: not_le)
qed

definition ts_example :: timer_set where
  "ts_example = snd (ts_insert (3, 5) (snd (ts_insert (2, 100) (snd (ts_insert (1, 5) ts_new)))))"

lemma ts_example_wf: "ts_wf ts_example" "ts_last ts_example = 0"
  "ts_timers ts_example = {#(3, 5), (2, 100), (1, 5)#}"
  unfolding ts_example_def
  by (simp_all add: ts_wf_insert ts_wf_new ts_insert_simps) (simp_all add: ts_new_def ts_timers_def n_buckets_def concat_replicate_trivial)

theorem ts_expire_correct_witness:
  "\<exists>exp ts'. ts_expire 7 ts_example = Some (exp, ts') \<and> mset exp = {#(3, 5), (1, 5)#} \<and>
     ts_timers ts' = {#(2, 100)#}"
  using ts_expire_correct [where ts = ts_example and now = 7] ts_example_wf by auto

text \<open>The operations of a client, and what they do to the set of armed timers.\<close>

datatype ts_op = Ts_insert tm | Ts_remove tm | Ts_expire int

fun ts_step :: "ts_op \<Rightarrow> timer_set \<Rightarrow> (tm list \<times> timer_set) option" where
  "ts_step (Ts_insert t) ts = Some ([], snd (ts_insert t ts))"
| "ts_step (Ts_remove t) ts = Some ([], ts_remove t ts)"
| "ts_step (Ts_expire now) ts = ts_expire now ts"

fun ts_run :: "ts_op list \<Rightarrow> timer_set \<Rightarrow> (tm list \<times> timer_set) option" where
  "ts_run [] ts = Some ([], ts)"
| "ts_run (x # xs) ts =
     (case ts_step x ts of None \<Rightarrow> None
      | Some (exp, ts1) \<Rightarrow> map_option (\<lambda>(exp', ts2). (exp @ exp', ts2)) (ts_run xs ts1))"

text \<open>The specification: the armed timers as a multiset, the time of the last expiry, the fired timers.\<close>

fun tm_run :: "ts_op list \<Rightarrow> tm multiset \<Rightarrow> int \<Rightarrow> tm multiset \<times> tm multiset" where
  "tm_run [] M l = ({#}, M)"
| "tm_run (Ts_insert t # xs) M l = tm_run xs (add_mset t M) l"
| "tm_run (Ts_remove t # xs) M l = tm_run xs (M - {#t#}) l"
| "tm_run (Ts_expire now # xs) M l =
     (let (F, M') = tm_run xs {#t \<in># M. now < snd t#} now in ({#t \<in># M. snd t \<le> now#} + F, M'))"

fun tm_ok :: "ts_op list \<Rightarrow> tm multiset \<Rightarrow> int \<Rightarrow> bool" where
  "tm_ok [] M l \<longleftrightarrow> True"
| "tm_ok (Ts_insert t # xs) M l \<longleftrightarrow> snd t < 2 ^ 63 \<and> tm_ok xs (add_mset t M) l"
| "tm_ok (Ts_remove t # xs) M l \<longleftrightarrow> t \<in># M \<and> tm_ok xs (M - {#t#}) l"
| "tm_ok (Ts_expire now # xs) M l \<longleftrightarrow> l \<le> now \<and> now < 2 ^ 63 \<and> tm_ok xs {#t \<in># M. now < snd t#} now"

lemma ts_run_aux:
  assumes "ts_wf ts" and "tm_ok xs (ts_timers ts) (ts_last ts)"
  shows "\<exists>exp ts'. ts_run xs ts = Some (exp, ts') \<and> ts_wf ts' \<and>
    (mset exp, ts_timers ts') = tm_run xs (ts_timers ts) (ts_last ts)"
  using assms
proof (induction xs arbitrary: ts)
  case (Cons x xs)
  show ?case
  proof (cases x)
    case (Ts_insert t)
    then have t: "snd t < 2 ^ 63" using Cons.prems by simp
    have "tm_ok xs (ts_timers (snd (ts_insert t ts))) (ts_last (snd (ts_insert t ts)))"
      using Cons.prems Ts_insert ts_wf_insert(2) [OF Cons.prems(1) t] by (simp add: ts_insert_simps)
    from Cons.IH [OF ts_wf_insert(1) [OF Cons.prems(1) t] this] show ?thesis
      using Ts_insert ts_wf_insert(2) [OF Cons.prems(1) t] by (auto simp: ts_insert_simps)
  next
    case (Ts_remove t)
    then have t: "t \<in># ts_timers ts" using Cons.prems by simp
    have r: "ts_timers (ts_remove t ts) = ts_timers ts - {#t#}" "ts_last (ts_remove t ts) = ts_last ts"
      using ts_wf_remove(2) [OF Cons.prems(1) t, symmetric] by (simp, simp add: ts_remove_def Let_def)
    have "tm_ok xs (ts_timers (ts_remove t ts)) (ts_last (ts_remove t ts))"
      using Cons.prems Ts_remove r by simp
    from Cons.IH [OF ts_wf_remove(1) [OF Cons.prems(1) t] this] show ?thesis
      using Ts_remove r by auto
  next
    case (Ts_expire now)
    have n: "ts_last ts \<le> now" "now < 2 ^ 63" using Cons.prems Ts_expire by simp_all
    obtain exp ts' where e: "ts_expire now ts = Some (exp, ts')" "ts_wf ts'" "ts_last ts' = now"
      "mset exp = {#t \<in># ts_timers ts. snd t \<le> now#}" "ts_timers ts' = {#t \<in># ts_timers ts. \<not> snd t \<le> now#}"
      "ts_next ts' = max_timestamp \<or> (\<exists>t. t \<in># ts_timers ts' \<and> snd t = ts_next ts')"
      using ts_expire_aux [OF Cons.prems(1) n] .
    have e5: "ts_timers ts' = {#t \<in># ts_timers ts. now < snd t#}" using e(5) by (simp add: not_le)
    have "tm_ok xs (ts_timers ts') (ts_last ts')" using Cons.prems Ts_expire e(3) e5 by simp
    from Cons.IH [OF e(2) this] obtain exp2 ts2 where
      "ts_run xs ts' = Some (exp2, ts2)" "ts_wf ts2" "(mset exp2, ts_timers ts2) = tm_run xs (ts_timers ts') now"
      using e(3) by auto
    then show ?thesis using Ts_expire e(1,4) e5
      by (intro exI [of _ "exp @ exp2"] exI [of _ ts2]) (auto split: prod.split)
  qed
qed simp

text \<open>
  C9. Any sequence of insert, remove and expire within the preconditions runs without abort, fires the
  timers that a plain multiset of timers would fire, and never lets \<open>get_next_timeout()\<close> lie after both
  the current time and an armed timer's timeout.
\<close>

theorem ts_run_refines_multiset:
  assumes "tm_ok xs {#} 0"
  shows "\<exists>exp ts. ts_run xs ts_new = Some (exp, ts) \<and> ts_wf ts \<and>
    (mset exp, ts_timers ts) = tm_run xs {#} 0 \<and>
    (\<forall>t \<in># ts_timers ts. ts_get_next_timeout ts \<le> max (ts_last ts) (snd t))"
proof -
  have "ts_timers ts_new = {#}" "ts_last ts_new = 0"
    by (simp_all add: ts_new_def ts_timers_def n_buckets_def concat_replicate_trivial)
  then obtain exp ts where r: "ts_run xs ts_new = Some (exp, ts)" "ts_wf ts"
    "(mset exp, ts_timers ts) = tm_run xs {#} 0"
    using ts_run_aux [OF ts_wf_new, of xs] assms by auto
  have "ts_get_next_timeout ts \<le> max (ts_last ts) (snd t)" if "t \<in># ts_timers ts" for t
    using ts_next_le [OF r(2) that] unfolding ts_get_next_timeout_def by linarith
  then show ?thesis using r by blast
qed

theorem ts_run_refines_multiset_witness:
  "\<exists>exp ts. ts_run [Ts_insert (1, 5), Ts_insert (2, 100), Ts_expire 7, Ts_insert (3, 50), Ts_remove (2, 100)] ts_new
     = Some (exp, ts) \<and> mset exp = {#(1, 5)#} \<and> ts_timers ts = {#(3, 50)#}"
  using ts_run_refines_multiset
    [where xs = "[Ts_insert (1, 5), Ts_insert (2, 100), Ts_expire 7, Ts_insert (3, 50), Ts_remove (2, 100)]"]
  by auto

lemma ts_clear_fold:
  "length (ts_buckets (fold (\<lambda>i ts. ts\<lparr>ts_buckets := (ts_buckets ts)[i := []]\<rparr>) js ts)) = length (ts_buckets ts) \<and>
   ts_next (fold (\<lambda>i ts. ts\<lparr>ts_buckets := (ts_buckets ts)[i := []]\<rparr>) js ts) = ts_next ts \<and>
   ts_last (fold (\<lambda>i ts. ts\<lparr>ts_buckets := (ts_buckets ts)[i := []]\<rparr>) js ts) = ts_last ts \<and>
   ts_non_empty (fold (\<lambda>i ts. ts\<lparr>ts_buckets := (ts_buckets ts)[i := []]\<rparr>) js ts) = ts_non_empty ts \<and>
   (\<forall>i < length (ts_buckets ts). ts_buckets (fold (\<lambda>i ts. ts\<lparr>ts_buckets := (ts_buckets ts)[i := []]\<rparr>) js ts) ! i
      = (if i \<in> set js then [] else ts_buckets ts ! i))"
  by (induction js arbitrary: ts) (auto simp: nth_list_update)

text \<open>
  \<open>clear()\<close> empties the buckets but not \<open>_non_empty_buckets\<close>, and leaves \<open>_next\<close>: a set that held
  timers is not \<open>empty()\<close> once cleared, and its next timeout is the one of a timer it no longer holds.
\<close>

theorem ts_clear_not_empty:
  assumes wf: "ts_wf ts" and ne: "ts_timers ts \<noteq> {#}"
  shows "ts_timers (ts_clear ts) = {#}" and "ts_size (ts_clear ts) = 0"
    and "\<not> ts_empty (ts_clear ts)" and "ts_get_next_timeout (ts_clear ts) = ts_get_next_timeout ts"
proof -
  let ?js = "for_each_set (ts_non_empty ts) 0"
  note C = ts_clear_fold [where js = ?js and ts = ts, folded ts_clear_def]
  note W = ts_wfD [OF wf]
  have b: "ts_buckets (ts_clear ts) ! i = []" if "i < 64" for i
    using C W(1) W(4) [OF that] that by (cases "bit (ts_non_empty ts) i") (auto simp: set_for_each_set)
  then show "ts_timers (ts_clear ts) = {#}"
    using C W(1) set_ts_timers [of "ts_clear ts"] by (metis (no_types, lifting) SUP_bot_conv(2) lessThan_iff list.set(1) set_mset_eq_empty_iff)
  have "length (ts_buckets (ts_clear ts) ! i) = 0" if "i \<in> set (for_each_set (ts_non_empty (ts_clear ts)) 0)" for i
    using that b by (simp add: set_for_each_set)
  then show "ts_size (ts_clear ts) = 0" unfolding ts_size_def by (simp cong: map_cong)
  obtain t where "t \<in># ts_timers ts" using ne by (meson multiset_nonemptyE)
  then obtain i where "i < 64" "t \<in> set (ts_buckets ts ! i)" using W(1) by (auto simp: set_ts_timers)
  then have "bit (ts_non_empty ts) i" using W(4) by fastforce
  then show "\<not> ts_empty (ts_clear ts)" using C by (auto simp: ts_empty_def)
  show "ts_get_next_timeout (ts_clear ts) = ts_get_next_timeout ts" using C by (simp add: ts_get_next_timeout_def)
qed

end
