(* ===== verification/Byteorder.thy ===== *)
theory Byteorder
  imports Prelude
begin

text \<open>
  \<open>core/byteorder.hh\<close>, \<open>net/byteorder.hh\<close>, \<open>core/unaligned.hh\<close>: integers as bytes in memory.

  The machine is little endian, as the x86 machines the program runs on: an integer is stored with its
  least significant byte first, \<open>htole\<close> is the identity and \<open>htobe\<close> and \<open>hton\<close> reverse the bytes.  A
  signed integer has the bytes of the unsigned one of its width.
\<close>

section \<open>Object representation\<close>

type_synonym byte = "8 word"

fun le_value :: "byte list \<Rightarrow> nat" where
  "le_value [] = 0"
| "le_value (b # bs) = unat b + 256 * le_value bs"

fun le_digits :: "nat \<Rightarrow> nat \<Rightarrow> byte list" where
  "le_digits 0 v = []"
| "le_digits (Suc n) v = of_nat v # le_digits n (v div 256)"

definition be_value :: "byte list \<Rightarrow> nat" where
  "be_value bs = le_value (rev bs)"

text \<open>An \<open>unaligned<T>\<close> at some address: its bytes as a \<open>T\<close>, and the bytes of a \<open>T\<close>.\<close>

definition unaligned_load :: "byte list \<Rightarrow> 'a::len word" where
  "unaligned_load bs = of_nat (le_value bs)"

definition unaligned_store :: "'a::len word \<Rightarrow> byte list" where
  "unaligned_store w = le_digits (LENGTH('a) div 8) (unat w)"

definition bswap :: "'a::len word \<Rightarrow> 'a word" where
  "bswap w = unaligned_load (rev (unaligned_store w))"

section \<open>Conversions\<close>

definition cpu_to_le :: "'a::len word \<Rightarrow> 'a word" where "cpu_to_le x = x"
definition le_to_cpu :: "'a::len word \<Rightarrow> 'a word" where "le_to_cpu x = x"
definition cpu_to_be :: "'a::len word \<Rightarrow> 'a word" where "cpu_to_be x = bswap x"
definition be_to_cpu :: "'a::len word \<Rightarrow> 'a word" where "be_to_cpu x = bswap x"

definition ntohq :: "64 word \<Rightarrow> 64 word" where "ntohq v = bswap v"
definition htonq :: "64 word \<Rightarrow> 64 word" where "htonq v = ntohq v"
definition ntoh :: "'a::len word \<Rightarrow> 'a word" where "ntoh x = bswap x"
definition hton :: "'a::len word \<Rightarrow> 'a word" where "hton x = bswap x"

definition read_le :: "byte list \<Rightarrow> 'a::len word" where
  "read_le p = le_to_cpu (unaligned_load (take (LENGTH('a) div 8) p))"

definition write_le :: "byte list \<Rightarrow> 'a::len word \<Rightarrow> byte list" where
  "write_le p datum = unaligned_store (cpu_to_le datum) @ drop (LENGTH('a) div 8) p"

definition read_be :: "byte list \<Rightarrow> 'a::len word" where
  "read_be p = be_to_cpu (unaligned_load (take (LENGTH('a) div 8) p))"

definition write_be :: "byte list \<Rightarrow> 'a::len word \<Rightarrow> byte list" where
  "write_be p datum = unaligned_store (cpu_to_be datum) @ drop (LENGTH('a) div 8) p"

text \<open>A pointer that advances is the rest of the memory: what has been written is kept in front of it.\<close>

definition consume_be :: "byte list \<Rightarrow> 'a::len word \<times> byte list" where
  "consume_be p = (read_be p, drop (LENGTH('a) div 8) p)"

definition produce_be :: "byte list \<times> byte list \<Rightarrow> 'a::len word \<Rightarrow> byte list \<times> byte list" where
  "produce_be = (\<lambda>(front, p) datum.
     let q = write_be p datum; n = LENGTH('a) div 8 in (front @ take n q, drop n q))"

section \<open>Properties\<close>

lemma le_value_less: "le_value bs < 256 ^ length bs"
proof (induction bs)
  case (Cons b bs)
  have "unat b < 256" using unsigned_less [of b] by simp
  then show ?case using Cons by simp
qed simp

lemma le_value_append: "le_value (xs @ ys) = le_value xs + 256 ^ length xs * le_value ys"
  by (induction xs) (simp_all add: algebra_simps)

lemma length_le_digits [simp]: "length (le_digits n v) = n"
  by (induction n arbitrary: v) simp_all

lemma le_value_digits: "le_value (le_digits n v) = v mod 256 ^ n"
proof (induction n arbitrary: v)
  case (Suc n)
  have "unat (of_nat v :: 8 word) = v mod 256" by (simp add: unat_of_nat take_bit_eq_mod)
  then show ?case using Suc by (simp add: mod_mult2_eq)
qed simp

lemma le_digits_value: "length bs = n \<Longrightarrow> le_digits n (le_value bs) = bs"
proof (induction bs arbitrary: n)
  case (Cons b bs)
  have b: "unat b < 256" using unsigned_less [of b] by simp
  have "(of_nat (unat b + 256 * le_value bs) :: 8 word) = of_nat (unat b) + of_nat 256 * of_nat (le_value bs)"
    by (simp only: of_nat_add of_nat_mult)
  also have "(of_nat 256 :: 8 word) = 0" by (simp add: of_nat_eq_0_iff)
  finally have "(of_nat (unat b + 256 * le_value bs) :: 8 word) = b" by simp
  moreover have "(unat b + 256 * le_value bs) div 256 = le_value bs" using b by simp
  ultimately show ?case using Cons by auto
qed simp

lemma be_value_Cons: "be_value (b # bs) = unat b * 256 ^ length bs + be_value bs"
  by (simp add: be_value_def le_value_append)

lemma be_value_Nil [simp]: "be_value [] = 0"
  by (simp add: be_value_def)

lemma be_value_less: "be_value bs < 256 ^ length bs"
  using le_value_less [of "rev bs"] by (simp add: be_value_def)

lemma pow256: "LENGTH('a::len) = 8 * n \<Longrightarrow> (256::nat) ^ n = 2 ^ LENGTH('a)"
  by (simp add: power_mult)

lemma unat_load:
  assumes "LENGTH('a::len) = 8 * n" and "length bs = n"
  shows "unat (unaligned_load bs :: 'a word) = le_value bs"
  using le_value_less [of bs] pow256 [OF assms(1)] assms(2)
  by (simp add: unaligned_load_def unat_of_nat_small)

lemma length_store [simp]: "length (unaligned_store (w :: 'a::len word)) = LENGTH('a) div 8"
  by (simp add: unaligned_store_def)

lemma load_store:
  assumes "8 dvd LENGTH('a::len)"
  shows "unaligned_load (unaligned_store (w :: 'a word)) = w"
proof -
  obtain n where n: "LENGTH('a) = 8 * n" using assms by blast
  have "unat w < 256 ^ n" using unsigned_less [of w] pow256 [OF n] by simp
  then show ?thesis by (simp add: unaligned_load_def unaligned_store_def le_value_digits n)
qed

lemma store_load:
  assumes "LENGTH('a::len) = 8 * n" and "length bs = n"
  shows "unaligned_store (unaligned_load bs :: 'a word) = bs"
  using assms by (simp add: unaligned_store_def unat_load le_digits_value)

lemma unat_bswap_load:
  assumes "LENGTH('a::len) = 8 * n" and "length bs = n"
  shows "unat (bswap (unaligned_load bs :: 'a word)) = be_value bs"
  using assms by (simp add: bswap_def store_load unat_load be_value_def)

lemma bswap_bswap:
  assumes "8 dvd LENGTH('a::len)"
  shows "bswap (bswap (w :: 'a word)) = w"
proof -
  obtain n where n: "LENGTH('a) = 8 * n" using assms by blast
  have "unaligned_store (bswap w) = rev (unaligned_store w)"
    unfolding bswap_def by (rule store_load [OF n]) (simp add: n)
  then have "bswap (bswap w) = unaligned_load (rev (rev (unaligned_store w)))" by (simp add: bswap_def)
  then show ?thesis using load_store [OF assms] by simp
qed

text \<open>The bytes in memory of an integer in network order, read as digits with the most significant first.\<close>

lemma be_value_store_hton:
  assumes "8 dvd LENGTH('a::len)"
  shows "be_value (unaligned_store (hton (w :: 'a word))) = unat w"
proof -
  obtain n where n: "LENGTH('a) = 8 * n" using assms by blast
  have "be_value (unaligned_store (hton w)) = unat (bswap (unaligned_load (unaligned_store (hton w))) :: 'a word)"
    by (rule unat_bswap_load [OF n, symmetric]) (simp add: n)
  then show ?thesis by (simp add: load_store [OF assms] hton_def bswap_bswap [OF assms])
qed

text \<open>
  C27. Writing an integer and reading it back in the same byte order returns it and leaves the rest of the
  memory alone, for either order and every width in whole bytes; \<open>read_be\<close> is the value of the bytes
  with the most significant first, whatever the machine; and \<open>ntoh\<close> undoes \<open>hton\<close>.
\<close>

theorem byteorder_roundtrip:
  fixes x :: "'a::len word"
  assumes "LENGTH('a) = 8 * n" and "n \<le> length p"
  shows "read_be (write_be p x) = x \<and> read_le (write_le p x) = x \<and>
    drop n (write_be p x) = drop n p \<and> length (write_be p x) = length p \<and>
    unat (read_be p :: 'a word) = be_value (take n p) \<and> ntoh (hton x) = x"
proof -
  have d: "8 dvd LENGTH('a)" and n: "LENGTH('a) div 8 = n" using assms(1) by simp_all
  have "take n (unaligned_store y @ zs) = unaligned_store y" for y :: "'a word" and zs by (simp add: n)
  then show ?thesis
    using assms(2) bswap_bswap [OF d] load_store [OF d] unat_bswap_load [OF assms(1), of "take n p"]
    by (simp add: read_be_def write_be_def read_le_def write_le_def n be_to_cpu_def cpu_to_be_def
        cpu_to_le_def le_to_cpu_def ntoh_def hton_def)
qed

theorem byteorder_roundtrip_witness:
  "read_be (write_be [0, 0, 0, 0, 7] (0x01020304 :: 32 word)) = (0x01020304 :: 32 word) \<and>
   drop 4 (write_be [0, 0, 0, 0, 7] (0x01020304 :: 32 word)) = [7] \<and>
   unat (read_be [1, 0, 0, 2] :: 32 word) = 0x01000002"
  using byteorder_roundtrip [where x = "0x01020304 :: 32 word" and n = 4 and p = "[0, 0, 0, 0, 7]"]
    byteorder_roundtrip [where x = "0 :: 32 word" and n = 4 and p = "[1, 0, 0, 2]"]
  by (simp add: be_value_Cons)

end
