(* ===== verification/Checksum.thy ===== *)
theory Checksum
  imports Prelude Byteorder
begin

text \<open>
  \<open>net/ip_checksum.hh\<close>, \<open>net/ip_checksum.cc\<close>, \<open>net/toeplitz.hh\<close>: the internet checksum and the hash
  that spreads connections over cpus.

  The accumulator is an \<open>__int128\<close> that only grows, by less than \<open>2 ^ 64\<close> for 8 bytes; it is a number
  here, because it would take more than \<open>2 ^ 63\<close> additions to overflow it.  A buffer is the list of
  its bytes.  \<open>None\<close> is a read outside the buffer.
\<close>

section \<open>The checksummer\<close>

record checksummer =
  csum :: nat
  odd_flag :: bool

definition cs_new :: checksummer where
  "cs_new = \<lparr>csum = 0, odd_flag = False\<rparr>"

text \<open>The two loops over whole words; each returns the rest of the buffer.\<close>

fun cs_loop64 :: "nat \<Rightarrow> byte list \<Rightarrow> nat \<times> byte list" where
  "cs_loop64 c data =
     (if 8 \<le> length data
      then cs_loop64 (c + unat (ntohq (unaligned_load (take 8 data)))) (drop 8 data)
      else (c, data))"

fun cs_loop16 :: "nat \<Rightarrow> byte list \<Rightarrow> nat \<times> byte list" where
  "cs_loop16 c data =
     (if 2 \<le> length data
      then cs_loop16 (c + unat (ntoh (unaligned_load (take 2 data) :: 16 word))) (drop 2 data)
      else (c, data))"

declare cs_loop64.simps [simp del] cs_loop16.simps [simp del]

definition cs_sum :: "byte list \<Rightarrow> checksummer \<Rightarrow> checksummer option" where
  "cs_sum data cs =
     (if odd_flag cs \<and> data = [] then None
      else
        let (c, p) = (if odd_flag cs then (csum cs + unat (hd data), tl data) else (csum cs, data));
            (c, p) = cs_loop64 c p;
            (c, p) = cs_loop16 c p;
            c = (if p \<noteq> [] then c + unat (hd p) * 2 ^ 8 else c)
        in Some \<lparr>csum = c, odd_flag = (odd_flag cs \<noteq> odd (length data))\<rparr>)"

definition cs_get :: "checksummer \<Rightarrow> 16 word" where
  "cs_get cs =
     (let csum1 = csum cs mod 2 ^ 64 + csum cs div 2 ^ 64;
          c = (csum1 mod 2 ^ 64 + csum1 div 2 ^ 64) mod 2 ^ 64;
          c = c mod 2 ^ 16 + c div 2 ^ 16 mod 2 ^ 16 + c div 2 ^ 32 mod 2 ^ 16 + c div 2 ^ 48;
          c = c mod 2 ^ 16 + c div 2 ^ 16;
          c = c mod 2 ^ 16 + c div 2 ^ 16
      in hton (NOT (of_nat c)))"

fun cs_sum_packet :: "byte list list \<Rightarrow> checksummer \<Rightarrow> checksummer option" where
  "cs_sum_packet [] cs = Some cs"
| "cs_sum_packet (f # fs) cs = Option.bind (cs_sum f cs) (cs_sum_packet fs)"

definition ip_checksum :: "byte list \<Rightarrow> 16 word option" where
  "ip_checksum data = map_option cs_get (cs_sum data cs_new)"

definition cs_sum8 :: "byte \<Rightarrow> checksummer \<Rightarrow> checksummer" where
  "cs_sum8 data cs =
     \<lparr>csum = (if \<not> odd_flag cs then csum cs + unat data * 2 ^ 8 else csum cs + unat data),
      odd_flag = (\<not> odd_flag cs)\<rparr>"

definition cs_sum16 :: "16 word \<Rightarrow> checksummer \<Rightarrow> checksummer" where
  "cs_sum16 data cs =
     (if odd_flag cs then cs_sum8 (ucast data) (cs_sum8 (ucast (drop_bit 8 data)) cs)
      else cs\<lparr>csum := csum cs + unat data\<rparr>)"

definition cs_sum32 :: "32 word \<Rightarrow> checksummer \<Rightarrow> checksummer" where
  "cs_sum32 data cs =
     (if odd_flag cs then cs_sum16 (ucast (drop_bit 16 data)) (cs_sum16 (ucast data) cs)
      else cs\<lparr>csum := csum cs + unat data\<rparr>)"

section \<open>The internet checksum, RFC 1071\<close>

text \<open>The sum of the 16-bit big-endian words, the last one padded with a zero byte; the flag says
  that the first byte is the second of its word.\<close>

fun word_sum :: "bool \<Rightarrow> byte list \<Rightarrow> nat" where
  "word_sum second [] = 0"
| "word_sum second (b # bs) = (if second then unat b else 256 * unat b) + word_sum (\<not> second) bs"

text \<open>Ones' complement addition: the carries are added back until 16 bits are left.\<close>

definition ones_fold :: "nat \<Rightarrow> nat" where
  "ones_fold n = (if n = 0 then 0 else (n - 1) mod 65535 + 1)"

definition rfc1071 :: "byte list \<Rightarrow> 16 word" where
  "rfc1071 bs = NOT (of_nat (ones_fold (word_sum False bs)))"

lemma pred_mod_eq:
  fixes a b :: nat
  assumes "a mod m = b mod m" and "0 < a" and "0 < b"
  shows "(a - 1) mod m = (b - 1) mod m"
proof -
  obtain x y where "a = Suc x" "b = Suc y" using assms(2,3) gr0_implies_Suc by blast
  then show ?thesis using assms(1) by (simp add: mod_Suc split: if_splits)
qed

lemma ones_fold_step: "ones_fold (n mod 2 ^ k + n div 2 ^ k) = ones_fold n" if "16 dvd k"
proof -
  have m: "(2::nat) ^ k mod 65535 = 1"
  proof -
    obtain j where "k = 16 * j" using \<open>16 dvd k\<close> by blast
    then have "(2::nat) ^ k = 65536 ^ j" by (simp add: power_mult)
    moreover have "(65536::nat) ^ j mod 65535 = (65536 mod 65535) ^ j mod 65535" by (rule power_mod [symmetric])
    ultimately show ?thesis by simp
  qed
  let ?s = "n mod 2 ^ k + n div 2 ^ k"
  have s0: "?s = 0 \<longleftrightarrow> n = 0"
  proof
    assume "?s = 0"
    then have "n mod 2 ^ k = 0" "n div 2 ^ k = 0" by simp_all
    then show "n = 0" by (metis add_0 mult_0 div_mult_mod_eq mult_zero_left)
  qed simp
  have "n = 2 ^ k * (n div 2 ^ k) + n mod 2 ^ k" by simp
  then have "n mod 65535 = (2 ^ k mod 65535 * (n div 2 ^ k) + n mod 2 ^ k) mod 65535"
    by (metis mod_add_left_eq mod_mult_left_eq)
  then have eq: "n mod 65535 = ?s mod 65535" unfolding m by (simp add: add.commute)
  show ?thesis
  proof (cases "n = 0")
    case False
    then have "?s \<noteq> 0" using s0 by simp
    have "(n - 1) mod 65535 = (?s - 1) mod 65535"
      using False \<open>?s \<noteq> 0\<close> by (intro pred_mod_eq [OF eq]) linarith+
    then show ?thesis using False \<open>?s \<noteq> 0\<close> by (simp add: ones_fold_def)
  qed simp
qed

lemma ones_fold_le: "ones_fold n \<le> 65535"
proof -
  have "(n - 1) mod 65535 < 65535" by simp
  then show ?thesis unfolding ones_fold_def by (cases "n = 0") simp_all
qed

lemma ones_fold_mod: "ones_fold n mod 65535 = n mod 65535"
proof (cases n)
  case (Suc m)
  then show ?thesis by (simp add: ones_fold_def mod_Suc_eq)
qed (simp add: ones_fold_def)

lemma ones_fold_small: "n \<le> 65535 \<Longrightarrow> ones_fold n = n"
  by (simp add: ones_fold_def)

lemma ones_fold_cong:
  assumes "a mod 65535 = b mod 65535" and "a = 0 \<longleftrightarrow> b = 0"
  shows "ones_fold a = ones_fold b"
proof (cases "a = 0")
  case False
  then have "b \<noteq> 0" using assms(2) by blast
  then have "(a - 1) mod 65535 = (b - 1) mod 65535" using False by (intro pred_mod_eq [OF assms(1)]) blast+
  then show ?thesis using False \<open>b \<noteq> 0\<close> by (simp add: ones_fold_def)
qed (use assms in simp)

lemma digits16:
  fixes x :: nat
  assumes "x < 2 ^ 64"
  shows "x = (x mod 2 ^ 16 + x div 2 ^ 16 mod 2 ^ 16 + x div 2 ^ 32 mod 2 ^ 16 + x div 2 ^ 48) +
    65535 * (x div 2 ^ 16 mod 2 ^ 16 + 65537 * (x div 2 ^ 32 mod 2 ^ 16) + 4295032833 * (x div 2 ^ 48))"
proof -
  have a: "x = x div 2 ^ 16 * 2 ^ 16 + x mod 2 ^ 16" by simp
  have b: "x div 2 ^ 16 = x div 2 ^ 32 * 2 ^ 16 + x div 2 ^ 16 mod 2 ^ 16"
    using div_mult_mod_eq [of "x div 2 ^ 16" "2 ^ 16"] by (simp add: div_mult2_eq [symmetric])
  have c: "x div 2 ^ 32 = x div 2 ^ 48 * 2 ^ 16 + x div 2 ^ 32 mod 2 ^ 16"
    using div_mult_mod_eq [of "x div 2 ^ 32" "2 ^ 16"] by (simp add: div_mult2_eq [symmetric])
  let ?a = "x mod 2 ^ 16" and ?b = "x div 2 ^ 16 mod 2 ^ 16" and ?c = "x div 2 ^ 32 mod 2 ^ 16" and ?d = "x div 2 ^ 48"
  have "x = ((?d * 65536 + ?c) * 65536 + ?b) * 65536 + ?a"
    using a b c by (simp only: power_numeral Num.pow.simps Num.sqr.simps mult_num_simps)
  also have "\<dots> = (?a + ?b + ?c + ?d) + 65535 * (?b + 65537 * ?c + 4295032833 * ?d)" by (simp add: algebra_simps)
  finally show ?thesis .
qed

lemma carry_small:
  fixes z :: nat
  assumes "z \<le> 65538"
  shows "z mod 65536 + z div 65536 \<le> 65535"
proof (cases "z < 65536")
  case False
  then have "z div 65536 = 1" using assms by (intro div_nat_eqI) simp_all
  moreover have "z mod 65536 \<le> 2" using False assms le_mod_geq [of 65536 z] by simp
  ultimately show ?thesis by simp
qed simp

lemma ones_fold_fold2:
  fixes y :: nat
  assumes "y \<le> 4 * 65535"
  shows "(y mod 2 ^ 16 + y div 2 ^ 16) mod 2 ^ 16 + (y mod 2 ^ 16 + y div 2 ^ 16) div 2 ^ 16 = ones_fold y"
proof -
  let ?z = "y mod 2 ^ 16 + y div 2 ^ 16"
  have "y div 2 ^ 16 \<le> 3" using assms by (simp add: div_le_mono [of y "4 * 65535" "2 ^ 16", simplified])
  then have "?z \<le> 65535 + 3" using mod_less_divisor [of "2 ^ 16" y] by simp
  then have "?z mod 2 ^ 16 + ?z div 2 ^ 16 \<le> 65535" using carry_small [of ?z] by simp
  then have "?z mod 2 ^ 16 + ?z div 2 ^ 16 = ones_fold (?z mod 2 ^ 16 + ?z div 2 ^ 16)" by (simp only: ones_fold_small)
  also have "\<dots> = ones_fold y" by (simp only: ones_fold_step dvd_refl)
  finally show ?thesis .
qed

lemma carry64:
  fixes c :: nat
  assumes "c < 2 ^ 64 + 2 ^ 63"
  shows "c mod 2 ^ 64 + c div 2 ^ 64 < 2 ^ 64"
proof (cases "c < 2 ^ 64")
  case False
  then have "c div 2 ^ 64 = 1" using assms by (intro div_nat_eqI) simp_all
  moreover have "c mod 2 ^ 64 < 2 ^ 63" using False assms le_mod_geq [of "2 ^ 64" c] by simp
  ultimately show ?thesis by simp
qed simp

lemma fold16:
  fixes x :: nat
  assumes x: "x < 2 ^ 64"
  defines "y \<equiv> x mod 2 ^ 16 + x div 2 ^ 16 mod 2 ^ 16 + x div 2 ^ 32 mod 2 ^ 16 + x div 2 ^ 48"
  shows "ones_fold y = ones_fold x" and "y \<le> 4 * 65535"
proof -
  have sum4: "a + b + c + d \<le> 4 * 65535" if "a \<le> 65535" "b \<le> 65535" "c \<le> 65535" "d \<le> 65535" for a b c d :: nat
    using that by simp
  have "x div 2 ^ 48 < 2 ^ 16" using x by (simp add: div_less_iff_less_mult)
  then have "x div 2 ^ 48 \<le> 65535" by simp
  moreover have "z mod 2 ^ 16 \<le> 65535" for z :: nat using mod_less_divisor [of "2 ^ 16" z] by simp
  ultimately show "y \<le> 4 * 65535" unfolding y_def by (intro sum4)
  obtain k where k: "x = y + 65535 * k" and "y = 0 \<Longrightarrow> k = 0"
  proof
    show "x = y + 65535 * (x div 2 ^ 16 mod 2 ^ 16 + 65537 * (x div 2 ^ 32 mod 2 ^ 16) + 4295032833 * (x div 2 ^ 48))"
      unfolding y_def by (rule digits16 [OF x])
    show "x div 2 ^ 16 mod 2 ^ 16 + 65537 * (x div 2 ^ 32 mod 2 ^ 16) + 4295032833 * (x div 2 ^ 48) = 0" if "y = 0"
      using that unfolding y_def by (simp only: add_is_0 mult_is_0 conj_assoc) simp
  qed
  then show "ones_fold y = ones_fold x" by (intro ones_fold_cong) auto
qed

lemma cs_get_eq:
  assumes "csum cs < 2 ^ 127"
  shows "cs_get cs = hton (NOT (of_nat (ones_fold (csum cs))))"
proof -
  let ?n = "csum cs"
  let ?c1 = "?n mod 2 ^ 64 + ?n div 2 ^ 64"
  let ?c2 = "?c1 mod 2 ^ 64 + ?c1 div 2 ^ 64"
  have h: "?n div 2 ^ 64 < 2 ^ 63" using assms by (simp add: div_less_iff_less_mult)
  then have c1: "?c1 < 2 ^ 64 + 2 ^ 63" using mod_less_divisor [of "2 ^ 64" ?n] by simp
  have c2: "?c2 < 2 ^ 64" by (rule carry64) (rule c1)
  let ?y = "?c2 mod 2 ^ 16 + ?c2 div 2 ^ 16 mod 2 ^ 16 + ?c2 div 2 ^ 32 mod 2 ^ 16 + ?c2 div 2 ^ 48"
  have st: "ones_fold (m mod 2 ^ 64 + m div 2 ^ 64) = ones_fold m" for m by (rule ones_fold_step) simp
  have of_y: "ones_fold ?y = ones_fold ?n" by (simp only: fold16(1) [OF c2] st)
  have y: "?y \<le> 4 * 65535" by (rule fold16(2) [OF c2])
  have "?c2 mod 2 ^ 64 = ?c2" using c2 by simp
  then show ?thesis
    unfolding cs_get_def Let_def using ones_fold_fold2 [OF y] of_y by (simp only:)
qed

section \<open>Correctness\<close>

text \<open>The state of a checksummer that has seen the bytes \<open>bs\<close>.\<close>

definition cs_rel :: "byte list \<Rightarrow> checksummer \<Rightarrow> bool" where
  "cs_rel bs cs \<longleftrightarrow> odd_flag cs = odd (length bs) \<and>
     csum cs mod 65535 = word_sum False bs mod 65535 \<and> (csum cs = 0 \<longleftrightarrow> word_sum False bs = 0)"

definition same_sum :: "nat \<Rightarrow> nat \<Rightarrow> bool" where
  "same_sum a b \<longleftrightarrow> a mod 65535 = b mod 65535 \<and> (a = 0 \<longleftrightarrow> b = 0)"

lemma same_sum_refl [simp]: "same_sum a a" by (simp add: same_sum_def)

lemma same_sum_add: "same_sum a b \<Longrightarrow> same_sum c d \<Longrightarrow> same_sum (a + c) (b + d)"
  by (auto simp: same_sum_def intro: mod_add_cong)

lemma same_sum_trans: "same_sum a b \<Longrightarrow> same_sum b c \<Longrightarrow> same_sum a c"
  by (auto simp: same_sum_def)

lemma word_sum_append:
  "word_sum s (xs @ ys) = word_sum s xs + word_sum (s \<noteq> odd (length xs)) ys"
proof (induction xs arbitrary: s)
  case (Cons x xs)
  then show ?case by (cases s) auto
qed simp

lemma word_sum_even: "even (length xs) \<Longrightarrow> word_sum s (xs @ ys) = word_sum s xs + word_sum s ys"
  by (simp add: word_sum_append)

lemma same_sum_scale: "same_sum (65536 * a + b) (a + b)"
proof -
  have "65536 * a + b = (a + b) + 65535 * a" by simp
  then show ?thesis unfolding same_sum_def by (metis add_is_0 mod_mult_self2 mult_is_0 zero_neq_numeral)
qed

lemma same_sum_be_value:
  assumes "even (length bs)"
  shows "same_sum (be_value bs) (word_sum False bs)"
  using assms
proof (induction bs rule: induct_list012)
  case (3 x y zs)
  let ?w = "unat x * 256 + unat y"
  obtain k where k: "length zs = 2 * k" using 3 by auto
  have pow: "same_sum (65536 ^ k * ?w) ?w"
  proof (induction k)
    case (Suc k)
    have "same_sum (65536 * (65536 ^ k * ?w) + 0) (65536 ^ k * ?w + 0)" by (rule same_sum_scale)
    then show ?case using Suc same_sum_trans by (simp add: mult.assoc)
  qed simp
  have "(256::nat) ^ length zs = 65536 ^ k" by (simp add: k power_mult)
  then have "be_value (x # y # zs) = 65536 ^ k * ?w + be_value zs"
    by (simp add: be_value_Cons algebra_simps)
  moreover have "word_sum False (x # y # zs) = ?w + word_sum False zs" by simp
  moreover have "same_sum (be_value zs) (word_sum False zs)" using 3 by simp
  ultimately show ?case using same_sum_add [OF pow] by (simp only:)
qed simp_all

lemma cs_loop64_same:
  "cs_loop64 c data = (c', rest) \<Longrightarrow>
   \<exists>pre. data = pre @ rest \<and> even (length pre) \<and> length rest < 8 \<and> same_sum c' (c + word_sum False pre)"
proof (induction c data rule: cs_loop64.induct)
  case (1 c data)
  show ?case
  proof (cases "8 \<le> length data")
    case True
    let ?v = "unat (ntohq (unaligned_load (take 8 data)))"
    have "?v = be_value (take 8 data)"
      unfolding ntohq_def by (rule unat_bswap_load [where n = 8]) (use True in simp_all)
    then have v: "same_sum ?v (word_sum False (take 8 data))" using same_sum_be_value [of "take 8 data"] True by simp
    have "cs_loop64 (c + ?v) (drop 8 data) = (c', rest)" using 1(2) True by (simp add: cs_loop64.simps [of c data])
    from 1(1) [OF True this] obtain pre where p: "drop 8 data = pre @ rest" "even (length pre)" "length rest < 8"
      "same_sum c' (c + ?v + word_sum False pre)" by blast
    have "data = (take 8 data @ pre) @ rest" using p(1) by (metis append.assoc append_take_drop_id)
    moreover have "same_sum c' (c + word_sum False (take 8 data @ pre))"
    proof (rule same_sum_trans [OF p(4)])
      have "same_sum (c + ?v + word_sum False pre) (c + word_sum False (take 8 data) + word_sum False pre)"
        using v by (intro same_sum_add) simp_all
      then show "same_sum (c + ?v + word_sum False pre) (c + word_sum False (take 8 data @ pre))"
        using True by (simp add: word_sum_even add.assoc)
    qed
    ultimately show ?thesis using p(2,3) True by (intro exI [of _ "take 8 data @ pre"]) simp
  next
    case False
    then show ?thesis using 1(2) by (auto simp: cs_loop64.simps [of c data])
  qed
qed

lemma cs_loop16_same:
  "cs_loop16 c data = (c', rest) \<Longrightarrow>
   \<exists>pre. data = pre @ rest \<and> even (length pre) \<and> length rest < 2 \<and> same_sum c' (c + word_sum False pre)"
proof (induction c data rule: cs_loop16.induct)
  case (1 c data)
  show ?case
  proof (cases "2 \<le> length data")
    case True
    let ?v = "unat (ntoh (unaligned_load (take 2 data) :: 16 word))"
    have "?v = be_value (take 2 data)"
      unfolding ntoh_def by (rule unat_bswap_load [where n = 2]) (use True in simp_all)
    then have v: "same_sum ?v (word_sum False (take 2 data))" using same_sum_be_value [of "take 2 data"] True by simp
    have "cs_loop16 (c + ?v) (drop 2 data) = (c', rest)" using 1(2) True by (simp add: cs_loop16.simps [of c data])
    from 1(1) [OF True this] obtain pre where p: "drop 2 data = pre @ rest" "even (length pre)" "length rest < 2"
      "same_sum c' (c + ?v + word_sum False pre)" by blast
    have "data = (take 2 data @ pre) @ rest" using p(1) by (metis append.assoc append_take_drop_id)
    moreover have "same_sum c' (c + word_sum False (take 2 data @ pre))"
    proof (rule same_sum_trans [OF p(4)])
      have "same_sum (c + ?v + word_sum False pre) (c + word_sum False (take 2 data) + word_sum False pre)"
        using v by (intro same_sum_add) simp_all
      then show "same_sum (c + ?v + word_sum False pre) (c + word_sum False (take 2 data @ pre))"
        using True by (simp add: word_sum_even add.assoc)
    qed
    ultimately show ?thesis using p(2,3) True by (intro exI [of _ "take 2 data @ pre"]) simp
  next
    case False
    then show ?thesis using 1(2) by (auto simp: cs_loop16.simps [of c data])
  qed
qed

text \<open>A buffer is added as its bytes one after the other, in either parity; only an empty buffer in
  the odd state makes the code read past its end.\<close>

lemma cs_sum_same:
  assumes ok: "\<not> (odd_flag cs \<and> data = [])"
  shows "\<exists>cs'. cs_sum data cs = Some cs' \<and> odd_flag cs' = (odd_flag cs \<noteq> odd (length data)) \<and>
    same_sum (csum cs') (csum cs + word_sum (odd_flag cs) data)"
proof -
  obtain c0 p0 where e0: "(if odd_flag cs then (csum cs + unat (hd data), tl data) else (csum cs, data)) = (c0, p0)"
    by (cases "if odd_flag cs then (csum cs + unat (hd data), tl data) else (csum cs, data)")
  have s0: "c0 + word_sum False p0 = csum cs + word_sum (odd_flag cs) data"
    using e0 ok by (cases data) (auto split: if_splits)
  obtain c1 p1 where e1: "cs_loop64 c0 p0 = (c1, p1)" by (cases "cs_loop64 c0 p0")
  obtain q1 where q1: "p0 = q1 @ p1" "even (length q1)" "same_sum c1 (c0 + word_sum False q1)"
    using cs_loop64_same [OF e1] by blast
  obtain c2 p2 where e2: "cs_loop16 c1 p1 = (c2, p2)" by (cases "cs_loop16 c1 p1")
  obtain q2 where q2: "p1 = q2 @ p2" "even (length q2)" "length p2 < 2" "same_sum c2 (c1 + word_sum False q2)"
    using cs_loop16_same [OF e2] by blast
  let ?c3 = "if p2 \<noteq> [] then c2 + unat (hd p2) * 2 ^ 8 else c2"
  have c3: "?c3 = c2 + word_sum False p2" using q2(3) by (cases p2) auto
  have run: "cs_sum data cs = Some \<lparr>csum = ?c3, odd_flag = (odd_flag cs \<noteq> odd (length data))\<rparr>"
    using ok unfolding cs_sum_def e0 by (simp add: e1 e2 Let_def)
  have "same_sum (c2 + word_sum False p2) (c1 + word_sum False q2 + word_sum False p2)"
    using q2(4) by (intro same_sum_add) simp_all
  also have "c1 + word_sum False q2 + word_sum False p2 = c1 + word_sum False p1"
    using q2(1,2) by (simp add: word_sum_even)
  finally have a: "same_sum ?c3 (c1 + word_sum False p1)" unfolding c3 .
  have "same_sum (c1 + word_sum False p1) (c0 + word_sum False q1 + word_sum False p1)"
    using q1(3) by (intro same_sum_add) simp_all
  also have "c0 + word_sum False q1 + word_sum False p1 = csum cs + word_sum (odd_flag cs) data"
    using q1(1,2) s0 by (simp add: word_sum_even)
  finally show ?thesis using run same_sum_trans [OF a] by simp
qed

lemma cs_rel_sum:
  assumes "cs_rel bs cs" and "\<not> (odd_flag cs \<and> data = [])"
  shows "\<exists>cs'. cs_sum data cs = Some cs' \<and> cs_rel (bs @ data) cs'"
proof -
  obtain cs' where c: "cs_sum data cs = Some cs'" "odd_flag cs' = (odd_flag cs \<noteq> odd (length data))"
    "same_sum (csum cs') (csum cs + word_sum (odd_flag cs) data)"
    using cs_sum_same [OF assms(2)] by blast
  have "same_sum (csum cs + word_sum (odd_flag cs) data) (word_sum False bs + word_sum (odd_flag cs) data)"
    using assms(1) by (intro same_sum_add) (simp_all add: cs_rel_def same_sum_def)
  from same_sum_trans [OF c(3) this] have "cs_rel (bs @ data) cs'"
    using assms(1) c(2) by (simp add: cs_rel_def same_sum_def word_sum_append)
  then show ?thesis using c(1) by blast
qed

lemma cs_loop64_bound: "cs_loop64 c data = (c', rest) \<Longrightarrow> c' + 2 ^ 64 * length rest \<le> c + 2 ^ 64 * length data"
proof (induction c data rule: cs_loop64.induct)
  case (1 c data)
  show ?case
  proof (cases "8 \<le> length data")
    case True
    let ?v = "unat (ntohq (unaligned_load (take 8 data)))"
    have v: "?v < 2 ^ 64" using unsigned_less [of "ntohq (unaligned_load (take 8 data))"] by simp
    have "cs_loop64 (c + ?v) (drop 8 data) = (c', rest)" using 1(2) True by (simp add: cs_loop64.simps [of c data])
    from 1(1) [OF True this] show ?thesis using v True by (simp add: diff_mult_distrib2)
  next
    case False
    then show ?thesis using 1(2) by (simp add: cs_loop64.simps [of c data])
  qed
qed

lemma cs_loop16_bound: "cs_loop16 c data = (c', rest) \<Longrightarrow> c' + 2 ^ 64 * length rest \<le> c + 2 ^ 64 * length data"
proof (induction c data rule: cs_loop16.induct)
  case (1 c data)
  show ?case
  proof (cases "2 \<le> length data")
    case True
    let ?v = "unat (ntoh (unaligned_load (take 2 data) :: 16 word))"
    have v: "?v < 2 ^ 16" using unsigned_less [of "ntoh (unaligned_load (take 2 data) :: 16 word)"] by simp
    have "cs_loop16 (c + ?v) (drop 2 data) = (c', rest)" using 1(2) True by (simp add: cs_loop16.simps [of c data])
    from 1(1) [OF True this] show ?thesis using v True by (simp add: diff_mult_distrib2)
  next
    case False
    then show ?thesis using 1(2) by (simp add: cs_loop16.simps [of c data])
  qed
qed

lemma cs_sum_bound:
  assumes "cs_sum data cs = Some cs'"
  shows "csum cs' \<le> csum cs + 2 ^ 64 * length data"
proof -
  have b8: "unat b \<le> 255" for b :: byte
  proof -
    have "unat b < 256" using unsigned_less [of b] by simp
    then show ?thesis by simp
  qed
  obtain c0 p0 where e0: "(if odd_flag cs then (csum cs + unat (hd data), tl data) else (csum cs, data)) = (c0, p0)"
    by (cases "if odd_flag cs then (csum cs + unat (hd data), tl data) else (csum cs, data)")
  have ok: "\<not> (odd_flag cs \<and> data = [])" using assms by (auto simp: cs_sum_def)
  have s0: "c0 + 2 ^ 64 * length p0 \<le> csum cs + 2 ^ 64 * length data"
    using e0 ok b8 [of "hd data"] by (cases data) (auto split: if_splits)
  obtain c1 p1 where e1: "cs_loop64 c0 p0 = (c1, p1)" by (cases "cs_loop64 c0 p0")
  obtain c2 p2 where e2: "cs_loop16 c1 p1 = (c2, p2)" by (cases "cs_loop16 c1 p1")
  have "csum cs' = (if p2 \<noteq> [] then c2 + unat (hd p2) * 2 ^ 8 else c2)"
    using assms ok unfolding cs_sum_def e0 by (auto simp: e1 e2 Let_def split: if_splits)
  then have "csum cs' \<le> c2 + 2 ^ 64 * length p2"
    using b8 [of "hd p2"] by (cases p2) simp_all
  then show ?thesis using cs_loop64_bound [OF e1] cs_loop16_bound [OF e2] s0 by linarith
qed

lemma cs_rel_new: "cs_rel [] cs_new"
  by (simp add: cs_rel_def cs_new_def)

lemma cs_rel_get:
  assumes "cs_rel bs cs" and "csum cs < 2 ^ 127"
  shows "cs_get cs = hton (rfc1071 bs)"
proof -
  have "ones_fold (csum cs) = ones_fold (word_sum False bs)"
    using assms(1) by (intro ones_fold_cong) (simp_all add: cs_rel_def)
  then show ?thesis using cs_get_eq [OF assms(2)] by (simp add: rfc1071_def)
qed

lemma cs_packet_aux:
  assumes "cs_rel bs cs" and "[] \<notin> set fs"
  shows "\<exists>cs'. cs_sum_packet fs cs = Some cs' \<and> cs_rel (bs @ concat fs) cs' \<and>
    csum cs' \<le> csum cs + 2 ^ 64 * length (concat fs)"
  using assms
proof (induction fs arbitrary: bs cs)
  case (Cons f fs)
  obtain c1 where c1: "cs_sum f cs = Some c1" "cs_rel (bs @ f) c1"
    using cs_rel_sum [OF Cons.prems(1), of f] Cons.prems(2) by auto
  obtain cs' where "cs_sum_packet fs c1 = Some cs'" "cs_rel ((bs @ f) @ concat fs) cs'"
    "csum cs' \<le> csum c1 + 2 ^ 64 * length (concat fs)"
    using Cons.IH [OF c1(2)] Cons.prems(2) by auto
  then show ?case using c1(1) cs_sum_bound [OF c1(1)] by (simp add: algebra_simps)
qed simp

lemma cs_packet_value:
  assumes "[] \<notin> set fs" and "length (concat fs) < 2 ^ 62"
  shows "map_option cs_get (cs_sum_packet fs cs_new) = Some (hton (rfc1071 (concat fs)))"
proof -
  obtain cs where cs: "cs_sum_packet fs cs_new = Some cs" "cs_rel (concat fs) cs"
    "csum cs \<le> csum cs_new + 2 ^ 64 * length (concat fs)"
    using cs_packet_aux [OF cs_rel_new assms(1)] by auto
  have "csum cs < 2 ^ 127" using cs(3) assms(2) by (simp add: cs_new_def)
  then show ?thesis using cs(1) cs_rel_get [OF cs(2)] by simp
qed

text \<open>
  C19. Summing a packet fragment by fragment, eight bytes at a time where possible, and folding the sum
  gives the checksum of RFC 1071 of its bytes, in network order: wherever the fragments are cut, and
  odd sizes included, as long as no fragment is empty.
\<close>

theorem cs_packet_rfc1071:
  assumes "[] \<notin> set fs" and "length (concat fs) < 2 ^ 62"
  shows "map_option cs_get (cs_sum_packet fs cs_new) = Some (hton (rfc1071 (concat fs)))"
  using assms by (rule cs_packet_value)

theorem cs_packet_rfc1071_witness:
  "map_option cs_get (cs_sum_packet [[1, 2, 3], [4], [5, 6, 7, 8, 9, 10, 11, 12, 13, 14, 15]] cs_new) =
   Some (hton (rfc1071 [1, 2, 3, 4, 5, 6, 7, 8, 9, 10, 11, 12, 13, 14, 15]))"
  using cs_packet_rfc1071 [where fs = "[[1, 2, 3], [4], [5, 6, 7, 8, 9, 10, 11, 12, 13, 14, 15]]"] by simp

text \<open>An empty fragment after an odd number of bytes: the code reads a byte that is not there, and its
  \<open>--len\<close> wraps around.\<close>

lemma cs_empty_fragment_undefined: "cs_sum_packet [[1], []] cs_new = None"
  by (simp add: cs_sum_def cs_new_def cs_loop64.simps cs_loop16.simps Let_def)

text \<open>The sums of integers are the sums of their bytes in network order.\<close>

lemma cs_rel_sum8: "cs_rel bs cs \<Longrightarrow> cs_rel (bs @ [b]) (cs_sum8 b cs)"
proof -
  assume r: "cs_rel bs cs"
  have "same_sum (csum cs + word_sum (odd_flag cs) [b]) (word_sum False bs + word_sum (odd_flag cs) [b])"
    using r by (intro same_sum_add) (simp_all add: cs_rel_def same_sum_def)
  then show ?thesis using r by (auto simp: cs_rel_def same_sum_def cs_sum8_def word_sum_append mult.commute)
qed

lemma cs_rel_sum16:
  assumes "cs_rel bs cs"
  shows "cs_rel (bs @ [ucast (drop_bit 8 d), ucast d]) (cs_sum16 d cs)"
proof (cases "odd_flag cs")
  case True
  then show ?thesis using cs_rel_sum8 [OF cs_rel_sum8 [OF assms]] by (simp add: cs_sum16_def)
next
  case False
  have "unat (ucast (drop_bit 8 d) :: byte) = unat d div 2 ^ 8"
  proof -
    have "unat d div 2 ^ 8 < 2 ^ 8" using unsigned_less [of d] by (simp add: div_less_iff_less_mult)
    moreover have "unat (ucast (drop_bit 8 d) :: byte) = take_bit 8 (drop_bit 8 (unat d))"
      by (simp only: unsigned_ucast_eq unat_drop_bit_eq) simp
    ultimately show ?thesis by (simp add: drop_bit_eq_div take_bit_eq_mod)
  qed
  moreover have "unat (ucast d :: byte) = unat d mod 2 ^ 8" by (simp add: unsigned_ucast_eq take_bit_eq_mod)
  ultimately have d: "unat d = 256 * unat (ucast (drop_bit 8 d) :: byte) + unat (ucast d :: byte)" by simp
  have "same_sum (csum cs + unat d) (word_sum False bs + unat d)"
    using assms by (intro same_sum_add) (simp_all add: cs_rel_def same_sum_def)
  then show ?thesis using assms False d
    by (simp add: cs_rel_def same_sum_def cs_sum16_def word_sum_append)
qed

lemma unat_not16: "unat (NOT w :: 16 word) = 65535 - unat w"
proof -
  have "NOT w = - 1 - w" by (simp add: not_eq_complement)
  moreover have "unat (- 1 - w) = unat (- 1 :: 16 word) - unat w" by (rule unat_diff_le) simp
  moreover have "unat (- 1 :: 16 word) = 65535" by (simp add: unsigned_minus_1_eq_mask mask_eq_exp_minus_1)
  ultimately show ?thesis by simp
qed

lemma stored_checksum_verifies:
  assumes "even (length a)" and "length a + length b < 2 ^ 60"
    and "ip_checksum (a @ [0, 0] @ b) = Some c"
  shows "ip_checksum (a @ unaligned_store c @ b) = Some 0"
proof -
  have ip: "ip_checksum bs = Some (hton (rfc1071 bs))" if "length bs < 2 ^ 62" for bs
  proof (cases "bs = []")
    case True
    then show ?thesis using cs_packet_value [of "[]"]
      by (simp add: ip_checksum_def cs_sum_def cs_new_def Let_def cs_loop64.simps cs_loop16.simps)
  next
    case False
    have "Option.bind x Some = x" for x :: "checksummer option" by (cases x) simp_all
    moreover have "cs_sum_packet [] = Some" by (rule ext) simp
    ultimately show ?thesis using cs_packet_value [of "[bs]"] False that by (simp add: ip_checksum_def)
  qed
  let ?r = "rfc1071 (a @ [0, 0] @ b)" and ?s = "word_sum False a + word_sum False b"
  have zero: "word_sum False (a @ [0, 0] @ b) = ?s" using assms(1) by (simp add: word_sum_append)
  have c: "c = hton ?r" using assms(2,3) ip [of "a @ [0, 0] @ b"] by simp
  have d: "8 dvd LENGTH(16)" by simp
  have len: "length (unaligned_store c) = 2" by simp
  have "unat (ntoh c) = be_value (unaligned_store c)"
    using unat_bswap_load [where 'a = 16 and n = 2 and bs = "unaligned_store c"] load_store [OF d, of c]
    by (simp add: ntoh_def)
  moreover have "ntoh c = ?r" unfolding c ntoh_def hton_def by (rule bswap_bswap [OF d])
  ultimately have v: "be_value (unaligned_store c) = unat ?r" by simp
  obtain x y where xy: "unaligned_store c = [x, y]" using len unfolding numeral_2_eq_2 length_Suc_conv length_0_conv by blast
  have w: "word_sum False (unaligned_store c) = unat ?r" using v by (simp add: xy be_value_Cons)
  let ?f = "ones_fold ?s"
  have f: "?f \<le> 65535" by (rule ones_fold_le)
  have "unat ?r = 65535 - ?f"
  proof -
    have "?r = NOT (of_nat ?f)" unfolding rfc1071_def zero ..
    moreover have "unat (of_nat ?f :: 16 word) = ?f" using f by (intro unat_of_nat_small) simp
    ultimately show ?thesis by (simp add: unat_not16)
  qed
  then have sum: "word_sum False (a @ unaligned_store c @ b) = ?s + (65535 - ?f)"
    using assms(1) w by (simp add: word_sum_append)
  have "ones_fold (?s + (65535 - ?f)) = 65535"
  proof (cases "?s = 0")
    case False
    have fs: "?f mod 65535 = ?s mod 65535"
      by (rule ones_fold_mod)
    have "(?s + (65535 - ?f)) mod 65535 = (?f + (65535 - ?f)) mod 65535" using fs by (metis mod_add_left_eq)
    then have "(?s + (65535 - ?f)) mod 65535 = 65535 mod 65535" using f by simp
    then have "ones_fold (?s + (65535 - ?f)) = ones_fold 65535" by (rule ones_fold_cong) (use False in linarith)
    then show ?thesis by (simp add: ones_fold_def)
  qed (simp add: ones_fold_def)
  then have "rfc1071 (a @ unaligned_store c @ b) = 0"
    unfolding rfc1071_def sum by simp
  moreover have "hton (0 :: 16 word) = 0" by (simp add: hton_def bswap_def unaligned_store_def unaligned_load_def numeral_2_eq_2)
  ultimately show ?thesis using ip [of "a @ unaligned_store c @ b"] assms(2) len by simp
qed

text \<open>
  C24. What a sender writes a receiver accepts: when the checksum of a header, computed with its checksum
  field zero, is stored in the field, the checksum of the header as received is zero.
\<close>

theorem cs_verifies:
  assumes "even (length a)" and "length a + length b < 2 ^ 60"
    and "ip_checksum (a @ [0, 0] @ b) = Some c"
  shows "ip_checksum (a @ unaligned_store c @ b) = Some 0"
  using assms by (rule stored_checksum_verifies)

theorem cs_verifies_witness:
  "\<exists>c. ip_checksum ([0x45, 0] @ [0, 0] @ [7]) = Some c \<and> ip_checksum ([0x45, 0] @ unaligned_store c @ [7]) = Some 0"
proof -
  obtain c where c: "ip_checksum ([0x45, 0] @ [0, 0] @ [7]) = Some c"
    by (cases "ip_checksum ([0x45, 0] @ [0, 0] @ [7])") (simp_all add: ip_checksum_def cs_sum_def cs_new_def Let_def split: prod.splits)
  then show ?thesis using cs_verifies [OF _ _ c] by simp
qed

section \<open>The Toeplitz hash\<close>

definition default_rsskey_40bytes :: "byte list" where
  "default_rsskey_40bytes =
    [0xd1, 0x81, 0xc6, 0x2c, 0xf7, 0xf4, 0xdb, 0x5b,
     0x19, 0x83, 0xa2, 0xfc, 0x94, 0x3e, 0x1a, 0xdb,
     0xd9, 0x38, 0x9e, 0x6b, 0xd1, 0x03, 0x9c, 0x2c,
     0xa7, 0x44, 0x99, 0xad, 0x59, 0x3d, 0x56, 0xd9,
     0xf3, 0x25, 0x3c, 0x06, 0x2a, 0xdc, 0x1f, 0xfc]"

definition default_rsskey_52bytes :: "byte list" where
  "default_rsskey_52bytes =
    [0x44, 0x39, 0x79, 0x6b, 0xb5, 0x4c, 0x50, 0x23,
     0xb6, 0x75, 0xea, 0x5b, 0x12, 0x4f, 0x9f, 0x30,
     0xb8, 0xa2, 0xc0, 0x3d, 0xdf, 0xdc, 0x4d, 0x02,
     0xa0, 0x8c, 0x9b, 0x33, 0x4a, 0xf6, 0x4a, 0x4c,
     0x05, 0xc6, 0xfa, 0x34, 0x39, 0x58, 0xd8, 0x55,
     0x7d, 0x99, 0x58, 0x3a, 0xe1, 0x38, 0xc9, 0x2e,
     0x81, 0x15, 0x03, 0x66]"

text \<open>The body of the two loops: bit \<open>b\<close>, from the most significant, of byte \<open>i\<close>.\<close>

definition toeplitz_step :: "byte list \<Rightarrow> byte list \<Rightarrow> nat \<Rightarrow> nat \<Rightarrow> 32 word \<times> 32 word \<Rightarrow> 32 word \<times> 32 word" where
  "toeplitz_step key data i b = (\<lambda>(hash, v).
     let hash = (if bit (data ! i) (7 - b) then hash XOR v else hash);
         v = push_bit 1 v;
         v = (if i + 4 < length key \<and> bit (key ! (i + 4)) (7 - b) then v OR 1 else v)
     in (hash, v))"

text \<open>\<open>None\<close>: the key has fewer than the four bytes that are read unconditionally.\<close>

definition toeplitz_hash :: "byte list \<Rightarrow> byte list \<Rightarrow> 32 word option" where
  "toeplitz_hash key data =
     (if length key < 4 then None
      else
        let v = push_bit 24 (ucast (key ! 0)) + push_bit 16 (ucast (key ! 1)) + push_bit 8 (ucast (key ! 2)) + ucast (key ! 3)
        in Some (fst (fold (\<lambda>i s. fold (toeplitz_step key data i) [0..<8] s) [0..<length data] (0, v))))"

text \<open>The definition of the hash: the exclusive or, over the bits of the data that are set, of the 32 bits
  of the key that start at the position of the bit; the key is continued with zeros.\<close>

definition msb_bit :: "byte list \<Rightarrow> nat \<Rightarrow> bool" where
  "msb_bit bs n \<longleftrightarrow> n div 8 < length bs \<and> bit (bs ! (n div 8)) (7 - n mod 8)"

definition key_window :: "byte list \<Rightarrow> nat \<Rightarrow> 32 word" where
  "key_window key n = horner_sum of_bool 2 (map (\<lambda>k. msb_bit key (n + 31 - k)) [0..<32])"

definition toeplitz_spec :: "byte list \<Rightarrow> byte list \<Rightarrow> nat \<Rightarrow> 32 word" where
  "toeplitz_spec key data m = fold (\<lambda>n h. if msb_bit data n then h XOR key_window key n else h) [0..<m] 0"

lemma bit_key_window: "bit (key_window key n) k \<longleftrightarrow> k < 32 \<and> msb_bit key (n + 31 - k)"
  by (auto simp: key_window_def bit_horner_sum_bit_word_iff)

lemma key_window_Suc:
  "key_window key (Suc n) = (if msb_bit key (n + 32) then push_bit 1 (key_window key n) OR 1 else push_bit 1 (key_window key n))"
proof (rule bit_word_eqI)
  fix k assume "k < LENGTH(32)"
  then have k: "k < 32" by simp
  have p: "bit (push_bit 1 (key_window key n)) k \<longleftrightarrow> 1 \<le> k \<and> msb_bit key (n + 31 - (k - 1))"
    unfolding bit_push_bit_iff bit_key_window possible_bit_word using k by auto
  have o: "bit (if c then w OR 1 else w) k \<longleftrightarrow> bit w k \<or> c \<and> k = 0" for c and w :: "32 word"
    by (auto simp: bit_or_iff bit_1_iff)
  show "bit (key_window key (Suc n)) k =
    bit (if msb_bit key (n + 32) then push_bit 1 (key_window key n) OR 1 else push_bit 1 (key_window key n)) k"
    unfolding o p bit_key_window using k by (cases k) (simp_all add: ac_simps)
qed

lemma div_mod_8:
  fixes i b :: nat
  assumes "b < 8"
  shows "(8 * i + b) div 8 = i" and "(8 * i + b) mod 8 = b"
  using assms by simp_all

lemma toeplitz_step_window:
  assumes "i < length data" and "b < 8"
  shows "toeplitz_step key data i b (toeplitz_spec key data (8 * i + b), key_window key (8 * i + b)) =
    (toeplitz_spec key data (Suc (8 * i + b)), key_window key (Suc (8 * i + b)))"
proof -
  have e: "8 * i + b + 32 = 8 * (i + 4) + b" by simp
  have d: "(8 * i + b) div 8 = i" "(8 * i + b) mod 8 = b" "(8 * i + b + 32) div 8 = i + 4" "(8 * i + b + 32) mod 8 = b"
    unfolding e by (rule div_mod_8 [OF assms(2)])+
  have "msb_bit data (8 * i + b) \<longleftrightarrow> bit (data ! i) (7 - b)" using assms(1) d by (simp add: msb_bit_def)
  moreover have "msb_bit key (8 * i + b + 32) \<longleftrightarrow> i + 4 < length key \<and> bit (key ! (i + 4)) (7 - b)"
    unfolding msb_bit_def d ..
  ultimately show ?thesis
    unfolding key_window_Suc by (simp add: toeplitz_step_def toeplitz_spec_def Let_def)
qed

lemma toeplitz_inner:
  assumes "i < length data" and "m \<le> 8"
  shows "fold (toeplitz_step key data i) [0..<m] (toeplitz_spec key data (8 * i), key_window key (8 * i)) =
    (toeplitz_spec key data (8 * i + m), key_window key (8 * i + m))"
  using assms(2)
proof (induction m)
  case (Suc m)
  then show ?case using toeplitz_step_window [OF assms(1), of m key] by simp
qed simp

lemma toeplitz_outer:
  assumes "m \<le> length data"
  shows "fold (\<lambda>i s. fold (toeplitz_step key data i) [0..<8] s) [0..<m] (toeplitz_spec key data 0, key_window key 0) =
    (toeplitz_spec key data (8 * m), key_window key (8 * m))"
  using assms
proof (induction m)
  case (Suc m)
  then have "fold (toeplitz_step key data m) [0..<8] (toeplitz_spec key data (8 * m), key_window key (8 * m)) =
    (toeplitz_spec key data (8 * m + 8), key_window key (8 * m + 8))"
    by (intro toeplitz_inner) simp_all
  then show ?case using Suc by (simp add: add.commute)
qed simp

lemma first_window:
  assumes "4 \<le> length key"
  shows "push_bit 24 (ucast (key ! 0)) + push_bit 16 (ucast (key ! 1)) + push_bit 8 (ucast (key ! 2)) + ucast (key ! 3) =
    key_window key 0"
proof -
  let ?k = "\<lambda>i. ucast (key ! i) :: 32 word"
  have b: "bit (?k i) n \<longleftrightarrow> n < 8 \<and> bit (key ! i) n" for i n
    using bit_imp_le_length [of "key ! i" n] by (auto simp: bit_ucast_iff)
  have p: "bit (push_bit m (?k i)) n \<longleftrightarrow> m \<le> n \<and> n < m + 8 \<and> bit (key ! i) (n - m)" if "m + 8 \<le> 32" for m i n
    using that unfolding bit_push_bit_iff b possible_bit_word by auto
  have plus: "x + y = x OR y" if "\<And>n. \<not> bit x n \<or> \<not> bit y n" for x y :: "32 word"
    using that by (intro disjunctive_add_eq_or) (auto simp: bit_eq_iff bit_and_iff)
  have 1: "push_bit 24 (?k 0) + push_bit 16 (?k 1) = push_bit 24 (?k 0) OR push_bit 16 (?k 1)"
    by (rule plus) (auto simp: p)
  have 2: "(push_bit 24 (?k 0) OR push_bit 16 (?k 1)) + push_bit 8 (?k 2) =
    (push_bit 24 (?k 0) OR push_bit 16 (?k 1)) OR push_bit 8 (?k 2)"
    by (rule plus) (auto simp: p bit_or_iff)
  have 3: "((push_bit 24 (?k 0) OR push_bit 16 (?k 1)) OR push_bit 8 (?k 2)) + ?k 3 =
    ((push_bit 24 (?k 0) OR push_bit 16 (?k 1)) OR push_bit 8 (?k 2)) OR ?k 3"
    by (rule plus) (auto simp: p b bit_or_iff)
  have w: "bit (key_window key 0) (8 * (3 - i) + m) \<longleftrightarrow> bit (key ! i) m" if "i < 4" "m < 8" for i m
  proof -
    have "8 * (3 - i) + m < 32" using that by simp
    moreover have e: "0 + 31 - (8 * (3 - i) + m) = 8 * i + (7 - m)" using that by simp
    moreover have "(8 * i + (7 - m)) div 8 = i" "(8 * i + (7 - m)) mod 8 = 7 - m" by (rule div_mod_8, simp)+
    ultimately show ?thesis using that assms unfolding bit_key_window e msb_bit_def by simp
  qed
  show ?thesis unfolding 1 2 3
  proof (rule bit_word_eqI)
    fix n assume n: "n < LENGTH(32)"
    obtain q m where n8: "n = 8 * q + m" and m: "m < 8"
      by (metis mod_less_divisor mult_div_mod_eq zero_less_numeral)
    then have "q < 4" using n by simp
    then have "q = 3 \<or> q = 2 \<or> q = 1 \<or> q = 0" by auto
    then show "bit (((push_bit 24 (?k 0) OR push_bit 16 (?k 1)) OR push_bit 8 (?k 2)) OR ?k 3) n = bit (key_window key 0) n"
      unfolding n8 using w [of 0 m] w [of 1 m] w [of 2 m] w [of 3 m] m by (elim disjE) (simp_all add: bit_or_iff p b)
  qed
qed

text \<open>
  C23. The shift-and-xor loops compute the Toeplitz hash: the exclusive or of the 32-bit windows of the key
  at the positions of the set bits of the data, the key being continued with zeros when it is too short.
\<close>

theorem toeplitz_hash_correct:
  assumes "4 \<le> length key"
  shows "toeplitz_hash key data = Some (toeplitz_spec key data (8 * length data))"
proof -
  have "toeplitz_spec key data 0 = 0" by (simp add: toeplitz_spec_def)
  then show ?thesis
    using assms toeplitz_outer [of "length data" data key] first_window [OF assms]
    by (simp add: toeplitz_hash_def Let_def)
qed

theorem toeplitz_hash_correct_witness:
  "toeplitz_hash default_rsskey_40bytes [10, 0, 0, 1] = Some (toeplitz_spec default_rsskey_40bytes [10, 0, 0, 1] 32)"
  using toeplitz_hash_correct [where key = default_rsskey_40bytes and data = "[10, 0, 0, 1]"]
  by (simp add: default_rsskey_40bytes_def)

end
