(* ===== verification/Packet.thy ===== *)
theory Packet
  imports Byteorder
begin

text \<open>
  \<open>net/packet.hh\<close>, \<open>net/packet.cc\<close>: packets made of fragments.

  A fragment is either storage outside of the packet, read as the list of its bytes, or a window of the
  packet's own array \<open>_data\<close>, given by its offset and size.  \<open>_nr_frags\<close> is the length of the list of
  fragments, \<open>_allocated_frags\<close> the size of the array that holds them.  The deleters, which free the
  storage, are not part of the state, and allocation succeeds.  \<open>None\<close> is a failed assertion or an
  access outside of an array.  Bytes that the code leaves uninitialised are zero.
\<close>

section \<open>State\<close>

datatype fragment = Ext "byte list" | Data nat nat

record offload_info =
  protocol :: "8 word"
  needs_csum :: bool
  ip_hdr_len :: "8 word"
  tcp_hdr_len :: "8 word"
  udp_hdr_len :: "8 word"
  needs_ip_csum :: bool
  reassembled :: bool
  tso_seg_size :: "16 word"
  vlan_tci :: "16 word option"

definition offload_new :: offload_info where
  "offload_new = \<lparr>protocol = 255, needs_csum = False, ip_hdr_len = 20, tcp_hdr_len = 20, udp_hdr_len = 8,
     needs_ip_csum = False, reassembled = False, tso_seg_size = 0, vlan_tci = None\<rparr>"

record packet =
  pk_len :: nat
  pk_frags :: "fragment list"
  pk_alloc :: nat
  pk_data :: "byte list"
  pk_headroom :: nat
  pk_offload :: offload_info
  pk_rss :: "32 word option"

definition internal_data_size :: nat where "internal_data_size = 128 - 16"
definition default_nr_frags :: nat where "default_nr_frags = 4"

fun frag_size :: "fragment \<Rightarrow> nat" where
  "frag_size (Ext bs) = length bs"
| "frag_size (Data off n) = n"

fun frag_bytes :: "byte list \<Rightarrow> fragment \<Rightarrow> byte list" where
  "frag_bytes dat (Ext bs) = bs"
| "frag_bytes dat (Data off n) = take n (drop off dat)"

definition pk_bytes :: "packet \<Rightarrow> byte list" where
  "pk_bytes p = concat (map (frag_bytes (pk_data p)) (pk_frags p))"

text \<open>Copying bytes into an array at an offset.\<close>

definition put_bytes :: "nat \<Rightarrow> byte list \<Rightarrow> byte list \<Rightarrow> byte list" where
  "put_bytes off bs dat = take off dat @ bs @ drop (off + length bs) dat"

section \<open>The implementation object\<close>

definition impl_new :: "nat \<Rightarrow> packet" where
  "impl_new nr_frags = \<lparr>pk_len = 0, pk_frags = [], pk_alloc = nr_frags, pk_data = replicate internal_data_size 0,
     pk_headroom = internal_data_size, pk_offload = offload_new, pk_rss = None\<rparr>"

definition impl_allocate :: "nat \<Rightarrow> packet option" where
  "impl_allocate nr = (let nr_frags = max nr default_nr_frags in if nr_frags < 2 ^ 16 then Some (impl_new nr_frags) else None)"

definition using_internal_data :: "packet \<Rightarrow> bool" where
  "using_internal_data p =
     (case pk_frags p of Data off n # fs \<Rightarrow> off < internal_data_size | _ \<Rightarrow> False)"

definition copy_internal_fragment_to :: "packet \<Rightarrow> packet \<Rightarrow> packet option" where
  "copy_internal_fragment_to p dest =
     (if \<not> using_internal_data p then Some dest
      else
        let bs = frag_bytes (pk_data p) (hd (pk_frags p)); n = frag_size (hd (pk_frags p))
        in if internal_data_size < pk_headroom p + n then None
           else Some (dest\<lparr>pk_frags := Data (pk_headroom p) n # tl (pk_frags dest),
                           pk_data := put_bytes (pk_headroom p) bs (pk_data dest)\<rparr>))"

definition impl_copy :: "packet \<Rightarrow> nat \<Rightarrow> packet option" where
  "impl_copy old nr =
     Option.bind (impl_allocate nr) (\<lambda>n.
       copy_internal_fragment_to old
         (n\<lparr>pk_len := pk_len old, pk_frags := pk_frags old, pk_headroom := pk_headroom old,
            pk_offload := pk_offload old, pk_rss := pk_rss old\<rparr>))"

definition allocate_if_needed :: "packet \<Rightarrow> nat \<Rightarrow> packet option" where
  "allocate_if_needed old extra_frags =
     (if length (pk_frags old) + extra_frags \<le> pk_alloc old then Some old
      else impl_copy old (max (length (pk_frags old) + extra_frags) (2 * length (pk_frags old))))"

definition unuse_internal_data :: "packet \<Rightarrow> packet" where
  "unuse_internal_data p =
     (if \<not> using_internal_data p then p
      else p\<lparr>pk_frags := Ext (frag_bytes (pk_data p) (hd (pk_frags p))) # tl (pk_frags p),
             pk_headroom := internal_data_size\<rparr>)"

section \<open>Construction\<close>

definition pk_empty :: "packet option" where
  "pk_empty = impl_allocate 1"

definition pk_with_frags :: "nat \<Rightarrow> packet option" where
  "pk_with_frags nr_frags = impl_allocate nr_frags"

definition pk_copy_data :: "byte list \<Rightarrow> packet" where
  "pk_copy_data bs =
     (let p = (impl_new default_nr_frags)\<lparr>pk_len := length bs\<rparr>
      in if length bs \<le> internal_data_size
         then let h = internal_data_size - length bs
              in p\<lparr>pk_headroom := h, pk_frags := [Data h (length bs)], pk_data := put_bytes h bs (pk_data p)\<rparr>
         else p\<lparr>pk_frags := [Ext bs]\<rparr>)"

definition pk_of_fragment :: "byte list \<Rightarrow> packet option" where
  "pk_of_fragment bs = map_option (\<lambda>p. p\<lparr>pk_frags := [Ext bs], pk_len := length bs\<rparr>) (impl_allocate 1)"

definition pk_of_fragments :: "byte list list \<Rightarrow> packet option" where
  "pk_of_fragments bss =
     map_option (\<lambda>p. p\<lparr>pk_frags := map Ext bss, pk_len := sum_list (map length bss)\<rparr>) (impl_allocate (length bss))"

definition pk_append_fragment :: "packet \<Rightarrow> byte list \<Rightarrow> packet option" where
  "pk_append_fragment x bs =
     map_option (\<lambda>p. p\<lparr>pk_len := pk_len p + length bs, pk_frags := pk_frags p @ [Ext bs]\<rparr>) (allocate_if_needed x 1)"

section \<open>Operations\<close>

text \<open>\<open>Some (False, _)\<close> when there is no room; \<open>None\<close> when the header would start before \<open>_data\<close>.\<close>

definition allocate_headroom :: "nat \<Rightarrow> packet \<Rightarrow> (bool \<times> packet) option" where
  "allocate_headroom sz p =
     (if pk_headroom p < sz then Some (False, p)
      else
        let p = p\<lparr>pk_len := pk_len p + sz\<rparr>
        in Option.bind
             (if using_internal_data p then Some p
              else map_option (\<lambda>p. p\<lparr>pk_frags := Data internal_data_size 0 # pk_frags p\<rparr>) (allocate_if_needed p 1))
             (\<lambda>p. let p = p\<lparr>pk_headroom := pk_headroom p - sz\<rparr>
                  in case pk_frags p of
                       Data off n # fs \<Rightarrow>
                         if off < sz then None else Some (True, p\<lparr>pk_frags := Data (off - sz) (n + sz) # fs\<rparr>)
                     | _ \<Rightarrow> None))"

text \<open>Writing through a pointer into the fragment at an index.\<close>

definition write_frag :: "nat \<Rightarrow> nat \<Rightarrow> byte list \<Rightarrow> packet \<Rightarrow> packet" where
  "write_frag i off bs p =
     (case pk_frags p ! i of
        Ext xs \<Rightarrow> p\<lparr>pk_frags := (pk_frags p)[i := Ext (put_bytes off bs xs)]\<rparr>
      | Data o1 n \<Rightarrow> p\<lparr>pk_data := put_bytes (o1 + off) bs (pk_data p)\<rparr>)"

definition pk_prepend :: "byte list \<Rightarrow> packet \<Rightarrow> packet option" where
  "pk_prepend bs x =
     Option.bind (allocate_headroom (length bs) x) (\<lambda>(ok, p).
       if ok then Some (write_frag 0 0 bs p)
       else map_option (\<lambda>p. p\<lparr>pk_len := pk_len p + length bs, pk_frags := Ext bs # pk_frags p\<rparr>)
              (allocate_if_needed (unuse_internal_data p) 1))"

definition prepend_uninitialized_header :: "nat \<Rightarrow> packet \<Rightarrow> packet option" where
  "prepend_uninitialized_header sz p =
     Option.bind (allocate_headroom sz p) (\<lambda>(ok, p).
       if ok then Some p
       else
         Option.bind (allocate_headroom sz (unuse_internal_data p)) (\<lambda>(ok, p).
           if ok then Some p
           else map_option (\<lambda>p. p\<lparr>pk_frags := Ext (replicate sz 0) # pk_frags p\<rparr>)
                  (allocate_if_needed (p\<lparr>pk_len := pk_len p + sz\<rparr>) 1)))"

text \<open>\<open>prepend_header<Header>()\<close> and the assignments to the fields of the header, whose bytes are \<open>h\<close>.\<close>

definition prepend_header :: "byte list \<Rightarrow> packet \<Rightarrow> packet option" where
  "prepend_header h p = map_option (write_frag 0 0 h) (prepend_uninitialized_header (length h) p)"

definition pk_append :: "packet \<Rightarrow> packet \<Rightarrow> packet option" where
  "pk_append this p =
     (if pk_len this = 0 then Some p
      else map_option (\<lambda>t.
             let p = unuse_internal_data p
             in t\<lparr>pk_len := pk_len t + pk_len p, pk_frags := pk_frags t @ pk_frags p\<rparr>)
             (allocate_if_needed this (length (pk_frags p))))"

text \<open>The loop shared by \<open>trim_front\<close>, \<open>trim_back\<close> and \<open>share\<close>: whole fragments are skipped.\<close>

fun skip_frags :: "nat \<Rightarrow> fragment list \<Rightarrow> nat \<times> fragment list" where
  "skip_frags n [] = (n, [])"
| "skip_frags n (f # fs) = (if 0 < n \<and> frag_size f \<le> n then skip_frags (n - frag_size f) fs else (n, f # fs))"

fun cut_front :: "nat \<Rightarrow> fragment \<Rightarrow> fragment" where
  "cut_front k (Ext bs) = Ext (drop k bs)"
| "cut_front k (Data off n) = Data (off + k) (n - k)"

fun cut_back :: "nat \<Rightarrow> fragment \<Rightarrow> fragment" where
  "cut_back k (Ext bs) = Ext (take (length bs - k) bs)"
| "cut_back k (Data off n) = Data off (n - k)"

definition pk_trim_front :: "nat \<Rightarrow> packet \<Rightarrow> packet option" where
  "pk_trim_front how_much p =
     (if pk_len p < how_much then None
      else
        let p = p\<lparr>pk_len := pk_len p - how_much\<rparr>;
            (k, fs) = skip_frags how_much (pk_frags p);
            p = p\<lparr>pk_frags := fs\<rparr>;
            p = (if using_internal_data p then p else p\<lparr>pk_headroom := internal_data_size\<rparr>)
        in if k = 0 then Some p
           else
             let p = (if using_internal_data p then p\<lparr>pk_headroom := pk_headroom p + k\<rparr> else p)
             in if fs = [] then None else Some (p\<lparr>pk_frags := cut_front k (hd fs) # tl fs\<rparr>))"

definition pk_trim_back :: "nat \<Rightarrow> packet \<Rightarrow> packet option" where
  "pk_trim_back how_much p =
     (if pk_len p < how_much then None
      else
        let p = p\<lparr>pk_len := pk_len p - how_much\<rparr>;
            (k, rfs) = skip_frags how_much (rev (pk_frags p));
            p = p\<lparr>pk_frags := rev rfs\<rparr>
        in if k = 0 then Some p
           else if rfs = [] then None
           else
             let p = p\<lparr>pk_frags := rev (cut_back k (hd rfs) # tl rfs)\<rparr>
             in Some (if tl rfs = [] \<and> using_internal_data p then p\<lparr>pk_headroom := pk_headroom p + k\<rparr> else p))"

text \<open>\<open>share(offset, len)\<close>: the new packet, and the packet itself, whose internal data has been moved out.\<close>

fun share_frags :: "nat \<Rightarrow> nat \<Rightarrow> fragment list \<Rightarrow> fragment list option" where
  "share_frags off 0 fs = Some []"
| "share_frags off (Suc m) [] = None"
| "share_frags off (Suc m) (f # fs) =
     (let fsize = min (Suc m) (frag_size f - off)
      in map_option (\<lambda>gs. cut_back (frag_size f - off - fsize) (cut_front off f) # gs) (share_frags 0 (Suc m - fsize) fs))"

definition pk_share :: "nat \<Rightarrow> nat \<Rightarrow> packet \<Rightarrow> (packet \<times> packet) option" where
  "pk_share offset len p =
     (let p = unuse_internal_data p
      in Option.bind pk_empty (\<lambda>n.
         Option.bind (allocate_if_needed n (length (pk_frags p))) (\<lambda>n.
           let (off, fs) = skip_frags offset (pk_frags p)
           in map_option (\<lambda>gs. (n\<lparr>pk_frags := gs, pk_len := sum_list (map frag_size gs), pk_offload := pk_offload p\<rparr>, p))
                (share_frags off len fs))))"

text \<open>\<open>linearize(at_frag, desired_size)\<close>: the number of fragments that hold the desired bytes, then their copy.\<close>

fun count_frags :: "nat \<Rightarrow> nat \<Rightarrow> fragment list \<Rightarrow> nat option" where
  "count_frags desired accum fs =
     (if desired \<le> accum then Some 0
      else case fs of [] \<Rightarrow> None | f # fs \<Rightarrow> map_option Suc (count_frags desired (accum + frag_size f) fs))"

definition pk_linearize_at :: "nat \<Rightarrow> nat \<Rightarrow> packet \<Rightarrow> packet option" where
  "pk_linearize_at at_frag desired_size p =
     (let p = unuse_internal_data p
      in Option.bind (count_frags desired_size 0 (drop at_frag (pk_frags p))) (\<lambda>nr.
           let new_frag = concat (map (frag_bytes (pk_data p)) (take nr (drop at_frag (pk_frags p))));
               fs = take at_frag (pk_frags p) @ Ext new_frag # drop (at_frag + nr) (pk_frags p)
           in if pk_alloc p < length fs then None else Some (p\<lparr>pk_frags := fs\<rparr>)))"

definition pk_linearize :: "packet \<Rightarrow> packet option" where
  "pk_linearize p = pk_linearize_at 0 (pk_len p) p"

fun find_frag :: "nat \<Rightarrow> nat \<Rightarrow> fragment list \<Rightarrow> (nat \<times> nat) option" where
  "find_frag i offset [] = None"
| "find_frag i offset (f # fs) = (if frag_size f \<le> offset then find_frag (Suc i) (offset - frag_size f) fs else Some (i, offset))"

text \<open>\<open>get_header(offset, size)\<close>: a pointer, as a fragment index and an offset in it, or \<open>nullptr\<close>.\<close>

definition pk_get_header :: "nat \<Rightarrow> nat \<Rightarrow> packet \<Rightarrow> ((nat \<times> nat) option \<times> packet) option" where
  "pk_get_header offset sz p =
     (if pk_len p < offset + sz then Some (None, p)
      else case find_frag 0 offset (pk_frags p) of
             None \<Rightarrow> Some (None, p)
           | Some (i, off) \<Rightarrow>
               map_option (\<lambda>p. (Some (i, off), p))
                 (if frag_size (pk_frags p ! i) < off + sz then pk_linearize_at i (off + sz) p else Some p))"

definition pk_reserve :: "nat \<Rightarrow> packet \<Rightarrow> packet option" where
  "pk_reserve n_frags p =
     (if length (pk_frags p) < n_frags then allocate_if_needed p (n_frags - length (pk_frags p)) else Some p)"

definition pk_memory :: "nat \<Rightarrow> packet \<Rightarrow> nat" where
  "pk_memory sizeof_impl p = pk_len p + sizeof_impl"

definition pk_release :: "packet \<Rightarrow> byte list list" where
  "pk_release p = map (frag_bytes (pk_data p)) (pk_frags p)"

definition free_on_cpu :: "packet \<Rightarrow> packet option" where
  "free_on_cpu p = impl_copy p (length (pk_frags p))"

section \<open>The invariant\<close>

text \<open>Only the first fragment may lie in \<open>_data\<close>, and there is a room of \<open>_headroom\<close> bytes in front of
  it; a window of \<open>_data\<close> that is not the first fragment is the empty one at its end.\<close>

definition frag_ok :: "fragment \<Rightarrow> bool" where
  "frag_ok f = (case f of Ext bs \<Rightarrow> True | Data off n \<Rightarrow> off + n \<le> internal_data_size)"

definition pk_wf :: "packet \<Rightarrow> bool" where
  "pk_wf p \<longleftrightarrow> length (pk_data p) = internal_data_size \<and> pk_len p = sum_list (map frag_size (pk_frags p)) \<and>
     length (pk_frags p) \<le> pk_alloc p \<and> pk_headroom p \<le> internal_data_size \<and>
     (case pk_frags p of [] \<Rightarrow> True | f # fs \<Rightarrow>
        (case f of Ext bs \<Rightarrow> True | Data off n \<Rightarrow> off + n \<le> internal_data_size \<and> pk_headroom p \<le> off) \<and>
        (\<forall>g \<in> set fs. case g of Ext bs \<Rightarrow> True | Data off n \<Rightarrow> off = internal_data_size \<and> n = 0))"

lemma internal_data_size_val: "internal_data_size = 112" by (simp add: internal_data_size_def)

definition ext_frag :: "fragment \<Rightarrow> bool" where
  "ext_frag g = (case g of Ext bs \<Rightarrow> True | Data off n \<Rightarrow> off = internal_data_size \<and> n = 0)"

lemma ext_frag_simps [simp]: "ext_frag (Ext bs)" "ext_frag (Data off n) \<longleftrightarrow> off = internal_data_size \<and> n = 0"
  by (simp_all add: ext_frag_def)

lemma frag_bytes_ext: "ext_frag g \<Longrightarrow> frag_bytes d g = frag_bytes d' g \<and> length (frag_bytes d g) = frag_size g"
  by (cases g) (simp_all add: ext_frag_def)

lemma pk_bytes_split:
  "pk_bytes p = (case pk_frags p of [] \<Rightarrow> [] | f # fs \<Rightarrow> frag_bytes (pk_data p) f @ concat (map (frag_bytes (pk_data p)) fs))"
  by (simp add: pk_bytes_def split: list.split)

lemma concat_ext:
  "\<forall>g \<in> set fs. ext_frag g \<Longrightarrow> concat (map (frag_bytes d) fs) = concat (map (frag_bytes d') fs)"
proof (induction fs)
  case (Cons f fs)
  then show ?case using frag_bytes_ext [of f d d'] by simp
qed simp

lemma pk_wf_def2:
  "pk_wf p \<longleftrightarrow> length (pk_data p) = internal_data_size \<and> pk_len p = sum_list (map frag_size (pk_frags p)) \<and>
     length (pk_frags p) \<le> pk_alloc p \<and> pk_headroom p \<le> internal_data_size \<and>
     (\<forall>g \<in> set (tl (pk_frags p)). ext_frag g) \<and>
     (\<forall>off n. pk_frags p \<noteq> [] \<longrightarrow> hd (pk_frags p) = Data off n \<longrightarrow> off + n \<le> internal_data_size \<and> pk_headroom p \<le> off)"
  unfolding pk_wf_def by (cases "pk_frags p") (auto simp: ext_frag_def split: fragment.split)

lemma sum_frag_size:
  assumes "\<And>f. f \<in> set fs \<Longrightarrow> length (frag_bytes d f) = frag_size f"
  shows "length (concat (map (frag_bytes d) fs)) = sum_list (map frag_size fs)"
  using assms by (induction fs) auto

lemma pk_wf_frag_len:
  assumes wf: "pk_wf p" and f: "f \<in> set (pk_frags p)"
  shows "length (frag_bytes (pk_data p) f) = frag_size f"
proof (cases "pk_frags p")
  case (Cons g gs)
  show ?thesis
  proof (cases "f = g")
    case True
    then show ?thesis using wf Cons by (cases f) (auto simp: pk_wf_def2)
  next
    case False
    then have "f \<in> set (tl (pk_frags p))" using f Cons by auto
    then show ?thesis using wf frag_bytes_ext [of f "pk_data p"] by (simp add: pk_wf_def2)
  qed
qed (use f in simp)

lemma pk_len_bytes: "pk_wf p \<Longrightarrow> pk_len p = length (pk_bytes p)"
  using sum_frag_size [of "pk_frags p" "pk_data p"] pk_wf_frag_len by (simp add: pk_bytes_def pk_wf_def2)

lemma put_bytes_length [simp]: "off + length bs \<le> length d \<Longrightarrow> length (put_bytes off bs d) = length d"
  by (simp add: put_bytes_def)

lemma put_bytes_at: "off + length bs \<le> length d \<Longrightarrow> take (length bs) (drop off (put_bytes off bs d)) = bs"
  by (simp add: put_bytes_def)

lemma put_bytes_front:
  "off + length bs \<le> length d \<Longrightarrow> n \<ge> length bs \<Longrightarrow>
   take n (drop off (put_bytes off bs d)) = bs @ take (n - length bs) (drop (off + length bs) d)"
  by (simp add: put_bytes_def)

lemma using_internal_data_iff:
  "using_internal_data p \<longleftrightarrow> (\<exists>off n fs. pk_frags p = Data off n # fs \<and> off < internal_data_size)"
  by (auto simp: using_internal_data_def split: list.splits fragment.splits)

text \<open>Without internal data every fragment is one that may be moved.\<close>

lemma pk_wf_not_internal:
  assumes "pk_wf p" and "\<not> using_internal_data p"
  shows "\<forall>g \<in> set (pk_frags p). ext_frag g"
proof
  fix g assume g: "g \<in> set (pk_frags p)"
  show "ext_frag g"
  proof (cases "pk_frags p")
    case (Cons f fs)
    show ?thesis
    proof (cases "g = f")
      case True
      then show ?thesis using assms Cons
        by (cases f) (auto simp: pk_wf_def2 using_internal_data_iff)
    qed (use assms(1) Cons g in \<open>auto simp: pk_wf_def2\<close>)
  qed (use g in simp)
qed

text \<open>\<open>unuse_internal_data\<close> and reallocation keep the contents.\<close>

lemma unuse_wf:
  assumes "pk_wf p"
  shows "pk_wf (unuse_internal_data p)" and "pk_bytes (unuse_internal_data p) = pk_bytes p"
    and "\<forall>g \<in> set (pk_frags (unuse_internal_data p)). ext_frag g"
    and "length (pk_frags (unuse_internal_data p)) = length (pk_frags p)"
    and "pk_len (unuse_internal_data p) = pk_len p" and "pk_alloc (unuse_internal_data p) = pk_alloc p"
    and "\<not> using_internal_data (unuse_internal_data p)" and "pk_offload (unuse_internal_data p) = pk_offload p"
    and "using_internal_data p \<Longrightarrow> pk_headroom (unuse_internal_data p) = internal_data_size"
proof -
  show ext: "\<forall>g \<in> set (pk_frags (unuse_internal_data p)). ext_frag g"
    using assms pk_wf_not_internal [OF assms]
    by (auto simp: unuse_internal_data_def pk_wf_def2)
  have len: "length (frag_bytes (pk_data p) (hd (pk_frags p))) = frag_size (hd (pk_frags p))" if "pk_frags p \<noteq> []"
    using pk_wf_frag_len [OF assms hd_in_set [OF that]] .
  show "pk_wf (unuse_internal_data p)"
    using assms len by (auto simp: unuse_internal_data_def pk_wf_def2 using_internal_data_iff)
  show "pk_bytes (unuse_internal_data p) = pk_bytes p"
    by (auto simp: unuse_internal_data_def pk_bytes_def using_internal_data_iff)
  show "length (pk_frags (unuse_internal_data p)) = length (pk_frags p)"
    by (auto simp: unuse_internal_data_def using_internal_data_iff)
qed (auto simp: unuse_internal_data_def using_internal_data_iff)

lemma unuse_sizes:
  assumes "pk_wf p"
  shows "map frag_size (pk_frags (unuse_internal_data p)) = map frag_size (pk_frags p)"
proof (cases "using_internal_data p")
  case True
  then obtain off n fs where f: "pk_frags p = Data off n # fs" by (auto simp: using_internal_data_iff)
  have "length (frag_bytes (pk_data p) (Data off n)) = n" using pk_wf_frag_len [OF assms, of "Data off n"] f by simp
  then show ?thesis using True f by (simp add: unuse_internal_data_def)
qed (simp add: unuse_internal_data_def)

lemma impl_allocate_some: "nr < 2 ^ 16 \<Longrightarrow> impl_allocate nr = Some (impl_new (max nr 4))"
  by (simp add: impl_allocate_def default_nr_frags_def Let_def)

lemma allocate_if_needed_wf:
  assumes wf: "pk_wf p" and small: "length (pk_frags p) + extra < 2 ^ 15"
  shows "\<exists>q. allocate_if_needed p extra = Some q \<and> pk_wf q \<and> pk_bytes q = pk_bytes p \<and> pk_len q = pk_len p \<and>
    length (pk_frags q) = length (pk_frags p) \<and> length (pk_frags q) + extra \<le> pk_alloc q \<and>
    pk_headroom q = pk_headroom p \<and> using_internal_data q = using_internal_data p \<and> pk_offload q = pk_offload p"
proof (cases "length (pk_frags p) + extra \<le> pk_alloc p")
  case True
  then show ?thesis using wf by (simp add: allocate_if_needed_def)
next
  case False
  let ?nr = "max (length (pk_frags p) + extra) (2 * length (pk_frags p))"
  let ?n = "(impl_new (max ?nr 4))\<lparr>pk_len := pk_len p, pk_frags := pk_frags p, pk_headroom := pk_headroom p,
    pk_offload := pk_offload p, pk_rss := pk_rss p\<rparr>"
  have al: "impl_allocate ?nr = Some (impl_new (max ?nr 4))" using small by (intro impl_allocate_some) auto
  show ?thesis
  proof (cases "using_internal_data p")
    case no: False
    then have "allocate_if_needed p extra = Some ?n"
      using False al by (simp add: allocate_if_needed_def impl_copy_def copy_internal_fragment_to_def)
    moreover have "pk_bytes ?n = pk_bytes p"
      unfolding pk_bytes_def using concat_ext [OF pk_wf_not_internal [OF wf no]] by simp
    ultimately show ?thesis using wf no
      by (auto simp: pk_wf_def2 impl_new_def using_internal_data_iff)
  next
    case yes: True
    then obtain off n fs where f: "pk_frags p = Data off n # fs" "off < internal_data_size"
      by (auto simp: using_internal_data_iff)
    have b: "off + n \<le> internal_data_size" "pk_headroom p \<le> off" "length (pk_data p) = internal_data_size"
      "\<forall>g \<in> set fs. ext_frag g"
      using wf f by (auto simp: pk_wf_def2)
    let ?bs = "take n (drop off (pk_data p))"
    let ?q = "?n\<lparr>pk_frags := Data (pk_headroom p) n # fs, pk_data := put_bytes (pk_headroom p) ?bs (pk_data ?n)\<rparr>"
    have bl: "length ?bs = n" using b by simp
    have d: "length (pk_data ?n) = internal_data_size" by (simp add: impl_new_def)
    have fit: "pk_headroom p + length ?bs \<le> length (pk_data ?n)" using b bl d by simp
    have "allocate_if_needed p extra = Some ?q"
      using False al yes f b by (simp add: allocate_if_needed_def impl_copy_def copy_internal_fragment_to_def Let_def)
    moreover have "pk_bytes ?q = pk_bytes p"
      using put_bytes_at [OF fit] bl concat_ext [OF b(4)] f unfolding pk_bytes_def by simp
    ultimately show ?thesis using wf f b bl d
      by (auto simp: pk_wf_def2 impl_new_def using_internal_data_iff)
  qed
qed

lemma allocate_if_needed_len:
  "allocate_if_needed (p\<lparr>pk_len := x\<rparr>) e = map_option (\<lambda>q. q\<lparr>pk_len := x\<rparr>) (allocate_if_needed p e)"
proof -
  have u: "using_internal_data (p\<lparr>pk_len := x\<rparr>) = using_internal_data p" by (simp add: using_internal_data_def)
  show ?thesis
    by (auto simp: allocate_if_needed_def impl_copy_def copy_internal_fragment_to_def u Let_def
        split: bind_split)
qed

section \<open>The operations on the contents\<close>

lemma allocate_headroom_wf:
  assumes wf: "pk_wf p" and small: "length (pk_frags p) + 1 < 2 ^ 15" and room: "sz \<le> pk_headroom p"
  shows "\<exists>q. allocate_headroom sz p = Some (True, q) \<and> length (pk_frags q) \<le> length (pk_frags p) + 1 \<and>
    pk_offload q = pk_offload p \<and>
    (\<forall>h. length h = sz \<longrightarrow> pk_wf (write_frag 0 0 h q) \<and> pk_bytes (write_frag 0 0 h q) = h @ pk_bytes p \<and>
       length (pk_frags (write_frag 0 0 h q)) = length (pk_frags q) \<and> pk_offload (write_frag 0 0 h q) = pk_offload p)"
proof (cases "using_internal_data p")
  case True
  then obtain off n fs where f: "pk_frags p = Data off n # fs" by (auto simp: using_internal_data_iff)
  have w: "off + n \<le> internal_data_size" "pk_headroom p \<le> off" "length (pk_data p) = internal_data_size"
    "pk_headroom p \<le> internal_data_size" "\<forall>g \<in> set fs. ext_frag g" "Suc (length fs) \<le> pk_alloc p"
    "pk_len p = n + sum_list (map frag_size fs)"
    using wf f by (auto simp: pk_wf_def2)
  let ?q = "p\<lparr>pk_len := pk_len p + sz, pk_headroom := pk_headroom p - sz, pk_frags := Data (off - sz) (n + sz) # fs\<rparr>"
  have u: "using_internal_data (p\<lparr>pk_len := pk_len p + sz\<rparr>)" using True by (simp add: using_internal_data_def)
  have run: "allocate_headroom sz p = Some (True, ?q)"
    using room w(2) u by (simp add: allocate_headroom_def Let_def f)
  have "pk_wf (write_frag 0 0 h ?q) \<and> pk_bytes (write_frag 0 0 h ?q) = h @ pk_bytes p" if h: "length h = sz" for h
  proof -
    have fit: "(off - sz) + length h \<le> length (pk_data p)" using w room h by simp
    have "take (n + sz) (drop (off - sz) (put_bytes (off - sz) h (pk_data p))) = h @ take n (drop off (pk_data p))"
      using put_bytes_front [OF fit, of "n + sz"] h room w(2) by simp
    then have "pk_bytes (write_frag 0 0 h ?q) = h @ pk_bytes p"
      using concat_ext [OF w(5), of "put_bytes (off - sz) h (pk_data p)" "pk_data p"] f
      by (simp add: pk_bytes_def write_frag_def)
    then show ?thesis using w room fit by (auto simp: pk_wf_def2 write_frag_def)
  qed
  then show ?thesis using run f by (intro exI [of _ ?q]) (simp add: write_frag_def)
next
  case False
  obtain r where r: "allocate_if_needed p 1 = Some r" "pk_wf r" "pk_bytes r = pk_bytes p" "pk_len r = pk_len p"
    "length (pk_frags r) = length (pk_frags p)" "length (pk_frags r) + 1 \<le> pk_alloc r"
    "pk_headroom r = pk_headroom p" "using_internal_data r = using_internal_data p" "pk_offload r = pk_offload p"
    using allocate_if_needed_wf [OF wf small] by blast
  have w: "length (pk_data r) = internal_data_size" "pk_headroom r \<le> internal_data_size"
    "pk_len r = sum_list (map frag_size (pk_frags r))" using r(2) by (simp_all add: pk_wf_def2)
  have e: "\<forall>g \<in> set (pk_frags r). ext_frag g" using pk_wf_not_internal [OF r(2)] r(8) False by simp
  let ?q = "r\<lparr>pk_len := pk_len p + sz, pk_headroom := pk_headroom p - sz,
    pk_frags := Data (internal_data_size - sz) sz # pk_frags r\<rparr>"
  have sz: "sz \<le> internal_data_size" using room w(2) r(7) by simp
  have u: "\<not> using_internal_data (p\<lparr>pk_len := pk_len p + sz\<rparr>)" using False by (simp add: using_internal_data_def)
  have run: "allocate_headroom sz p = Some (True, ?q)"
    using room u sz r(1,4,7) allocate_if_needed_len [where p = p and e = 1] by (simp add: allocate_headroom_def Let_def)
  have "pk_wf (write_frag 0 0 h ?q) \<and> pk_bytes (write_frag 0 0 h ?q) = h @ pk_bytes p" if h: "length h = sz" for h
  proof -
    have fit: "(internal_data_size - sz) + length h \<le> length (pk_data r)" using w sz h by simp
    have "pk_bytes (write_frag 0 0 h ?q) = h @ pk_bytes r"
      using put_bytes_at [OF fit] concat_ext [OF e, of "put_bytes (internal_data_size - sz) h (pk_data r)" "pk_data r"] h
      by (simp add: pk_bytes_def write_frag_def)
    then show ?thesis using w r room fit e sz by (auto simp: pk_wf_def2 write_frag_def)
  qed
  then show ?thesis using run r by (intro exI [of _ ?q]) (simp add: write_frag_def)
qed

lemma allocate_headroom_no: "pk_headroom p < sz \<Longrightarrow> allocate_headroom sz p = Some (False, p)"
  by (simp add: allocate_headroom_def)

text \<open>Putting a new fragment in front, after moving the internal data out.\<close>

lemma push_ext_wf:
  assumes wf: "pk_wf p" and ext: "\<forall>g \<in> set (pk_frags p). ext_frag g" and small: "length (pk_frags p) + 1 < 2 ^ 15"
  shows "\<exists>q. allocate_if_needed p 1 = Some q \<and>
    (\<forall>h. let r = q\<lparr>pk_len := pk_len q + length h, pk_frags := Ext h # pk_frags q\<rparr>
      in pk_wf r \<and> pk_bytes r = h @ pk_bytes p \<and> length (pk_frags r) = length (pk_frags p) + 1 \<and> pk_offload r = pk_offload p)"
proof -
  obtain q where q: "allocate_if_needed p 1 = Some q" "pk_wf q" "pk_bytes q = pk_bytes p" "pk_len q = pk_len p"
    "length (pk_frags q) = length (pk_frags p)" "length (pk_frags q) + 1 \<le> pk_alloc q"
    "using_internal_data q = using_internal_data p" "pk_offload q = pk_offload p"
    using allocate_if_needed_wf [OF wf small] by blast
  have "\<not> using_internal_data p"
    using ext by (auto simp: using_internal_data_iff)
  then have e: "\<forall>g \<in> set (pk_frags q). ext_frag g" using pk_wf_not_internal [OF q(2)] q(7) by simp
  have "pk_wf (q\<lparr>pk_len := pk_len q + length h, pk_frags := Ext h # pk_frags q\<rparr>)" for h
    using q(2,6) e by (simp add: pk_wf_def2)
  moreover have "pk_bytes (q\<lparr>pk_len := pk_len q + length h, pk_frags := Ext h # pk_frags q\<rparr>) = h @ pk_bytes p" for h
    using q(3) by (simp add: pk_bytes_def)
  ultimately show ?thesis using q by (simp add: Let_def)
qed

lemma pk_prepend_wf:
  assumes wf: "pk_wf p" and small: "length (pk_frags p) + 1 < 2 ^ 15"
  shows "\<exists>q. pk_prepend h p = Some q \<and> pk_wf q \<and> pk_bytes q = h @ pk_bytes p \<and>
    length (pk_frags q) \<le> length (pk_frags p) + 1 \<and> pk_offload q = pk_offload p"
proof (cases "length h \<le> pk_headroom p")
  case True
  then show ?thesis using allocate_headroom_wf [OF wf small True] by (auto simp: pk_prepend_def)
next
  case False
  note U = unuse_wf [OF wf]
  from push_ext_wf [OF U(1,3)] small U(4) obtain q where q: "allocate_if_needed (unuse_internal_data p) 1 = Some q"
    "\<forall>h. let r = q\<lparr>pk_len := pk_len q + length h, pk_frags := Ext h # pk_frags q\<rparr>
      in pk_wf r \<and> pk_bytes r = h @ pk_bytes (unuse_internal_data p) \<and>
         length (pk_frags r) = length (pk_frags (unuse_internal_data p)) + 1 \<and> pk_offload r = pk_offload (unuse_internal_data p)"
    by auto
  show ?thesis using False q(1) spec [OF q(2), of h] U
    by (simp add: pk_prepend_def allocate_headroom_no Let_def)
qed

lemma prepend_header_wf:
  assumes wf: "pk_wf p" and small: "length (pk_frags p) + 1 < 2 ^ 15"
  shows "\<exists>q. prepend_header h p = Some q \<and> pk_wf q \<and> pk_bytes q = h @ pk_bytes p \<and>
    length (pk_frags q) \<le> length (pk_frags p) + 1 \<and> pk_offload q = pk_offload p"
proof (cases "length h \<le> pk_headroom p")
  case True
  then show ?thesis using allocate_headroom_wf [OF wf small True]
    by (auto simp: prepend_header_def prepend_uninitialized_header_def)
next
  case no: False
  note U = unuse_wf [OF wf]
  let ?u = "unuse_internal_data p"
  have small': "length (pk_frags ?u) + 1 < 2 ^ 15" using small U(4) by simp
  show ?thesis
  proof (cases "length h \<le> pk_headroom ?u")
    case True
    then show ?thesis using allocate_headroom_wf [OF U(1) small' True] no U
      by (auto simp: prepend_header_def prepend_uninitialized_header_def allocate_headroom_no)
  next
    case False
    from push_ext_wf [OF U(1,3) small'] obtain q where q: "allocate_if_needed ?u 1 = Some q"
      "\<forall>h. let r = q\<lparr>pk_len := pk_len q + length h, pk_frags := Ext h # pk_frags q\<rparr>
        in pk_wf r \<and> pk_bytes r = h @ pk_bytes ?u \<and>
           length (pk_frags r) = length (pk_frags ?u) + 1 \<and> pk_offload r = pk_offload ?u"
      by auto
    obtain q' where "allocate_if_needed ?u 1 = Some q'" "pk_len q' = pk_len ?u"
      using allocate_if_needed_wf [OF U(1) small'] by blast
    then have l: "pk_len q = pk_len ?u" using q(1) by simp
    have "put_bytes 0 h (replicate (length h) 0) = h" by (simp add: put_bytes_def)
    then have "prepend_header h p = Some (q\<lparr>pk_len := pk_len q + length h, pk_frags := Ext h # pk_frags q\<rparr>)"
      using no False q(1) l
      by (simp add: prepend_header_def prepend_uninitialized_header_def allocate_headroom_no
          allocate_if_needed_len write_frag_def)
    then show ?thesis using spec [OF q(2), of h] U by (simp add: Let_def)
  qed
qed

lemma pk_append_wf:
  assumes p: "pk_wf p" and q: "pk_wf q" and small: "length (pk_frags p) + length (pk_frags q) < 2 ^ 15"
  shows "\<exists>r. pk_append p q = Some r \<and> pk_wf r \<and> pk_bytes r = pk_bytes p @ pk_bytes q \<and>
    length (pk_frags r) \<le> length (pk_frags p) + length (pk_frags q)"
proof (cases "pk_len p = 0")
  case True
  then have "pk_bytes p = []" using pk_len_bytes [OF p] by simp
  then show ?thesis using True q by (simp add: pk_append_def)
next
  case False
  note U = unuse_wf [OF q]
  let ?u = "unuse_internal_data q"
  obtain t where t: "allocate_if_needed p (length (pk_frags q)) = Some t" "pk_wf t" "pk_bytes t = pk_bytes p"
    "length (pk_frags t) = length (pk_frags p)" "length (pk_frags t) + length (pk_frags q) \<le> pk_alloc t"
    using allocate_if_needed_wf [OF p small] by blast
  let ?r = "t\<lparr>pk_len := pk_len t + pk_len ?u, pk_frags := pk_frags t @ pk_frags ?u\<rparr>"
  have "pk_append p q = Some ?r" using False t(1) by (simp add: pk_append_def Let_def)
  moreover have "pk_bytes ?r = pk_bytes p @ pk_bytes q"
    using t(3) U(2) concat_ext [OF U(3), of "pk_data t" "pk_data ?u"] by (simp add: pk_bytes_def)
  moreover have "pk_wf ?r"
  proof -
    have ne: "pk_frags t \<noteq> []" using False t(3) pk_len_bytes [OF p] by (auto simp: pk_bytes_def)
    have "pk_len ?u = sum_list (map frag_size (pk_frags ?u))" using U(1) by (simp add: pk_wf_def2)
    then show ?thesis using t(2,5) U(3,4) ne by (auto simp: pk_wf_def2)
  qed
  ultimately show ?thesis using t(4) U(4) by (intro exI [of _ ?r]) simp
qed

lemma pk_append_fragment_wf:
  assumes wf: "pk_wf p" and small: "length (pk_frags p) + 1 < 2 ^ 15"
  shows "\<exists>q. pk_append_fragment p bs = Some q \<and> pk_wf q \<and> pk_bytes q = pk_bytes p @ bs \<and>
    length (pk_frags q) = length (pk_frags p) + 1"
proof -
  obtain t where t: "allocate_if_needed p 1 = Some t" "pk_wf t" "pk_bytes t = pk_bytes p"
    "length (pk_frags t) = length (pk_frags p)" "length (pk_frags t) + 1 \<le> pk_alloc t"
    using allocate_if_needed_wf [OF wf small] by blast
  let ?q = "t\<lparr>pk_len := pk_len t + length bs, pk_frags := pk_frags t @ [Ext bs]\<rparr>"
  have "pk_wf ?q" using t(2,5) by (cases "pk_frags t") (auto simp: pk_wf_def2)
  moreover have "pk_bytes ?q = pk_bytes p @ bs" using t(3) by (simp add: pk_bytes_def)
  ultimately show ?thesis using t(1,4) by (simp add: pk_append_fragment_def)
qed

lemma skip_frags_split:
  "skip_frags n fs = (k, gs) \<Longrightarrow> n \<le> sum_list (map frag_size fs) \<Longrightarrow>
   \<exists>pre. fs = pre @ gs \<and> n = sum_list (map frag_size pre) + k \<and> (gs = [] \<longrightarrow> k = 0) \<and> (0 < k \<longrightarrow> k < frag_size (hd gs))"
proof (induction n fs rule: skip_frags.induct)
  case (2 n f fs)
  show ?case
  proof (cases "0 < n \<and> frag_size f \<le> n")
    case True
    have "n - frag_size f \<le> sum_list (map frag_size fs)" using 2(3) by simp
    moreover have "skip_frags (n - frag_size f) fs = (k, gs)" using 2(2) True by simp
    ultimately obtain pre where pre: "fs = pre @ gs" "n - frag_size f = sum_list (map frag_size pre) + k"
      "gs = [] \<longrightarrow> k = 0" "0 < k \<longrightarrow> k < frag_size (hd gs)"
      using 2(1) [OF True] by blast
    have "n = frag_size f + sum_list (map frag_size pre) + k" using pre(2) True by linarith
    then show ?thesis using pre by (intro exI [of _ "f # pre"]) simp
  next
    case False
    then show ?thesis using 2(2) by (intro exI [of _ "[]"]) auto
  qed
qed simp

lemma cut_front_bytes: "frag_bytes d (cut_front k f) = drop k (frag_bytes d f)"
  by (cases f) (simp_all add: drop_take add.commute)

lemma cut_front_size: "frag_size (cut_front k f) = frag_size f - k"
  by (cases f) simp_all

lemma cut_back_size: "frag_size (cut_back k f) = frag_size f - k"
  by (cases f) simp_all

lemma cut_back_bytes:
  "length (frag_bytes d f) = frag_size f \<Longrightarrow> frag_bytes d (cut_back k f) = take (frag_size f - k) (frag_bytes d f)"
  by (cases f) (simp_all add: min_def)

lemma cut_ext: "ext_frag f \<Longrightarrow> 0 < frag_size f \<Longrightarrow> ext_frag (cut_front k f) \<and> ext_frag (cut_back k f)"
  by (cases f) simp_all

lemma pk_bytes_frag_lens:
  "pk_wf p \<Longrightarrow> set fs \<subseteq> set (pk_frags p) \<Longrightarrow>
   length (concat (map (frag_bytes (pk_data p)) fs)) = sum_list (map frag_size fs)"
  using pk_wf_frag_len by (intro sum_frag_size) blast

lemma pk_trim_front_wf:
  assumes wf: "pk_wf p" and n: "n \<le> pk_len p"
  shows "\<exists>q. pk_trim_front n p = Some q \<and> pk_wf q \<and> pk_bytes q = drop n (pk_bytes p) \<and>
    length (pk_frags q) \<le> length (pk_frags p) \<and> pk_offload q = pk_offload p \<and> pk_alloc q = pk_alloc p"
proof -
  obtain k gs where s: "skip_frags n (pk_frags p) = (k, gs)" by (cases "skip_frags n (pk_frags p)")
  have W: "length (pk_data p) = internal_data_size" "pk_len p = sum_list (map frag_size (pk_frags p))"
    "length (pk_frags p) \<le> pk_alloc p" "pk_headroom p \<le> internal_data_size"
    using wf by (simp_all add: pk_wf_def2)
  obtain pre where pre: "pk_frags p = pre @ gs" "n = sum_list (map frag_size pre) + k" "gs = [] \<longrightarrow> k = 0"
    "0 < k \<longrightarrow> k < frag_size (hd gs)"
    using skip_frags_split [OF s] n W(2) by auto
  let ?d = "pk_data p"
  let ?p1 = "p\<lparr>pk_len := pk_len p - n, pk_frags := gs\<rparr>"
  let ?p2 = "if using_internal_data ?p1 then ?p1 else ?p1\<lparr>pk_headroom := internal_data_size\<rparr>"
  have gsub: "set gs \<subseteq> set (pk_frags p)" "set pre \<subseteq> set (pk_frags p)" using pre(1) by auto
  have pl: "length (concat (map (frag_bytes ?d) pre)) = sum_list (map frag_size pre)"
    using pk_bytes_frag_lens [OF wf gsub(2)] .
  have tl: "\<forall>g \<in> set (tl gs). ext_frag g" using wf pre(1) by (cases pre; cases gs) (auto simp: pk_wf_def2)
  have hdx: "pre \<noteq> [] \<Longrightarrow> gs \<noteq> [] \<Longrightarrow> ext_frag (hd gs)" using wf pre(1) by (cases pre) (auto simp: pk_wf_def2)
  have hd0: "pre = [] \<Longrightarrow> gs = pk_frags p" using pre(1) by simp
  have hdok: "off + m \<le> internal_data_size \<and> pk_headroom ?p2 \<le> off"
    if "gs \<noteq> []" "hd gs = Data off m" for off m
  proof (cases "pre = []")
    case True
    then have w: "off + m \<le> internal_data_size \<and> pk_headroom p \<le> off" using wf that hd0 by (auto simp: pk_wf_def2)
    show ?thesis
    proof (cases "using_internal_data ?p1")
      case False
      then have "\<not> off < internal_data_size" using that by (cases gs) (auto simp: using_internal_data_def)
      then show ?thesis using w False by simp
    qed (use w in simp)
  next
    case False
    then show ?thesis using hdx [OF False that(1)] that W(4) by simp
  qed
  have f2: "pk_data ?p2 = ?d" "pk_frags ?p2 = gs" "pk_len ?p2 = pk_len p - n" "pk_alloc ?p2 = pk_alloc p"
    "pk_offload ?p2 = pk_offload p" "pk_headroom ?p2 \<le> internal_data_size"
    using W(4) by simp_all
  have wf2: "pk_wf ?p2" if "k = 0"
  proof -
    have "pk_len p - n = sum_list (map frag_size gs)" using W(2) pre(1,2) that by simp
    moreover have "length gs \<le> pk_alloc p" using W(3) pre(1) by simp
    ultimately show ?thesis unfolding pk_wf_def2 f2(1-5) using W(1) f2(6) tl hdok by blast
  qed
  have b2: "pk_bytes ?p2 = concat (map (frag_bytes ?d) gs)" by (simp add: pk_bytes_def)
  have bp: "pk_bytes p = concat (map (frag_bytes ?d) pre) @ concat (map (frag_bytes ?d) gs)" by (simp add: pk_bytes_def pre(1))
  show ?thesis
  proof (cases "k = 0")
    case True
    have "pk_trim_front n p = Some ?p2" using n s True by (simp add: pk_trim_front_def Let_def)
    then show ?thesis using wf2 [OF True] b2 bp pl pre(1,2) True f2 by (intro exI [of _ ?p2]) simp
  next
    case False
    then have ne: "gs \<noteq> []" and k: "0 < k" "k < frag_size (hd gs)" using pre(3,4) by auto
    let ?p3 = "if using_internal_data ?p2 then ?p2\<lparr>pk_headroom := pk_headroom ?p2 + k\<rparr> else ?p2"
    let ?q = "?p3\<lparr>pk_frags := cut_front k (hd gs) # tl gs\<rparr>"
    have run: "pk_trim_front n p = Some ?q" using n s False ne by (simp add: pk_trim_front_def Let_def)
    have hl: "length (frag_bytes ?d (hd gs)) = frag_size (hd gs)"
      using pk_wf_frag_len [OF wf] gsub(1) hd_in_set [OF ne] by blast
    have q: "pk_data ?q = ?d" "pk_frags ?q = cut_front k (hd gs) # tl gs" "pk_len ?q = pk_len p - n"
      "pk_alloc ?q = pk_alloc p" "pk_offload ?q = pk_offload p"
      "pk_headroom ?q = (if using_internal_data ?p2 then pk_headroom ?p2 + k else pk_headroom ?p2)"
      by simp_all
    have "pk_bytes ?q = drop k (concat (map (frag_bytes ?d) gs))"
      unfolding pk_bytes_def q using k hl ne by (cases gs) (simp_all add: cut_front_bytes)
    then have "pk_bytes ?q = drop n (pk_bytes p)" using bp pl pre(2) by simp
    moreover have "pk_wf ?q"
    proof -
      have sum: "sum_list (map frag_size gs) = frag_size (hd gs) + sum_list (map frag_size (tl gs))"
        and lgs: "length gs = Suc (length (tl gs))"
        using ne by (cases gs; simp)+
      have len: "pk_len ?q = sum_list (map frag_size (pk_frags ?q))"
      proof -
        have "pk_len p = sum_list (map frag_size pre) + sum_list (map frag_size gs)" using W(2) pre(1) by simp
        then have "pk_len p - n = frag_size (hd gs) - k + sum_list (map frag_size (tl gs))"
          using pre(2) k(2) sum by linarith
        then show ?thesis unfolding q by (simp only: list.map sum_list.Cons cut_front_size)
      qed
      have al: "length (pk_frags ?q) \<le> pk_alloc ?q" 
      proof -
        have "length (pk_frags p) = length pre + length gs" using pre(1) by simp
        then have "Suc (length (tl gs)) \<le> pk_alloc p" using W(3) lgs by linarith
        then show ?thesis unfolding q by (simp only: list.size(4) One_nat_def add_Suc_right add_0_right)
      qed
      note h2 = f2(6)
      have hq: "pk_headroom ?q \<le> off \<and> off + m \<le> internal_data_size" if "cut_front k (hd gs) = Data off m" for off m
      proof (cases "hd gs")
        case (Data o1 m1)
        then have "off = o1 + k" "m = m1 - k" "k < m1" using that k by simp_all
        then show ?thesis unfolding q using hdok [OF ne Data] by auto
      qed (use that in simp)
      have hq2: "pk_headroom ?q \<le> internal_data_size"
      proof (cases "hd gs")
        case (Ext bs)
        then have "pk_frags ?p2 = Ext bs # tl gs" using ne by (cases gs) simp_all
        then have "\<not> using_internal_data ?p2" by (simp add: using_internal_data_def)
        then show ?thesis unfolding q using h2 by simp
      next
        case (Data o1 m1)
        then show ?thesis using hq [of "o1 + k" "m1 - k"] by simp
      qed
      show ?thesis unfolding pk_wf_def2 using W(1) len al hq hq2 tl q by simp
    qed
    moreover have "length (pk_frags ?q) \<le> length (pk_frags p)" unfolding q using pre(1) ne by (cases gs) simp_all
    ultimately show ?thesis using run q by (intro exI [of _ ?q]) blast
  qed
qed

lemma sum_frags_rev [simp]: "sum_list (map frag_size (rev xs)) = sum_list (map frag_size xs)"
  by (induction xs) simp_all

text \<open>\<open>trim_back\<close> keeps the contents right, but when it cuts the first fragment and that is internal, it
  adds the bytes cut off its end to the room in front of it.\<close>

lemma trim_back_bytes:
  assumes wf: "pk_wf p" and n: "n \<le> pk_len p"
  shows "\<exists>q k rfs. pk_trim_back n p = Some q \<and> skip_frags n (rev (pk_frags p)) = (k, rfs) \<and>
    pk_bytes q = take (pk_len p - n) (pk_bytes p) \<and> pk_len q = pk_len p - n \<and>
    (\<not> (0 < k \<and> tl rfs = [] \<and> using_internal_data p) \<longrightarrow> pk_wf q \<and> length (pk_frags q) \<le> length (pk_frags p) \<and>
      pk_offload q = pk_offload p)"
proof -
  obtain k rfs where s: "skip_frags n (rev (pk_frags p)) = (k, rfs)" by (cases "skip_frags n (rev (pk_frags p))")
  have W: "length (pk_data p) = internal_data_size" "pk_len p = sum_list (map frag_size (pk_frags p))"
    "length (pk_frags p) \<le> pk_alloc p" "pk_headroom p \<le> internal_data_size"
    using wf by (simp_all add: pk_wf_def2)
  have "n \<le> sum_list (map frag_size (rev (pk_frags p)))" using n W(2) by (simp add: rev_map [symmetric])
  then obtain pre where pre: "rev (pk_frags p) = pre @ rfs" "n = sum_list (map frag_size pre) + k" "rfs = [] \<longrightarrow> k = 0"
    "0 < k \<longrightarrow> k < frag_size (hd rfs)"
    using skip_frags_split [OF s] by blast
  let ?d = "pk_data p"
  have fr: "pk_frags p = rev rfs @ rev pre" using pre(1) by (metis rev_append rev_rev_ident)
  have sub: "set rfs \<subseteq> set (pk_frags p)" "set (rev pre) \<subseteq> set (pk_frags p)" using fr by auto
  have lens: "length (concat (map (frag_bytes ?d) (rev pre))) = sum_list (map frag_size pre)"
    using pk_bytes_frag_lens [OF wf sub(2)] by (simp add: rev_map [symmetric])
  have lens2: "length (concat (map (frag_bytes ?d) (rev rfs))) = sum_list (map frag_size rfs)"
    using pk_bytes_frag_lens [OF wf, of "rev rfs"] sub(1) by (simp add: rev_map [symmetric])
  have tot: "pk_len p = sum_list (map frag_size rfs) + sum_list (map frag_size pre)"
    unfolding W(2) fr by (simp add: rev_map [symmetric])
  have bp: "pk_bytes p = concat (map (frag_bytes ?d) (rev rfs)) @ concat (map (frag_bytes ?d) (rev pre))"
    unfolding pk_bytes_def fr by simp
  show ?thesis
  proof (cases "k = 0")
    case True
    let ?q = "p\<lparr>pk_len := pk_len p - n, pk_frags := rev rfs\<rparr>"
    have run: "pk_trim_back n p = Some ?q" using n s True by (simp add: pk_trim_back_def Let_def)
    have b: "pk_bytes ?q = concat (map (frag_bytes ?d) (rev rfs))" by (simp add: pk_bytes_def)
    have "pk_len p - n = sum_list (map frag_size rfs)" using tot pre(2) True by simp
    then have "pk_bytes ?q = take (pk_len p - n) (pk_bytes p)" using b bp lens2 by simp
    moreover have "pk_wf ?q"
      using wf fr pre(2) True by (cases "rev rfs") (auto simp: pk_wf_def2)
    ultimately show ?thesis using run s fr by (intro exI [of _ ?q] exI [of _ k] exI [of _ rfs]) simp
  next
    case False
    then obtain r rs where r: "rfs = r # rs" and k: "0 < k" "k < frag_size r" using pre(3,4) by (cases rfs) auto
    let ?p2 = "p\<lparr>pk_len := pk_len p - n, pk_frags := rev rs @ [cut_back k r]\<rparr>"
    let ?q = "if rs = [] \<and> using_internal_data ?p2 then ?p2\<lparr>pk_headroom := pk_headroom p + k\<rparr> else ?p2"
    have run: "pk_trim_back n p = Some ?q" using n s False r by (cases "rs = []") (simp_all add: pk_trim_back_def Let_def)
    have rl: "length (frag_bytes ?d r) = frag_size r"
      using pk_wf_frag_len [OF wf] sub(1) r by auto
    have b: "pk_bytes ?q = concat (map (frag_bytes ?d) (rev rs)) @ take (frag_size r - k) (frag_bytes ?d r)"
      using cut_back_bytes [OF rl, of k] by (simp add: pk_bytes_def)
    have len: "pk_len p - n = sum_list (map frag_size rs) + (frag_size r - k)" using tot pre(2) k r by simp
    have "length (concat (map (frag_bytes ?d) (rev rs))) = sum_list (map frag_size rs)"
      using pk_bytes_frag_lens [OF wf, of "rev rs"] sub(1) r by (simp add: rev_map [symmetric])
    then have "take (pk_len p - n) (pk_bytes p) =
      concat (map (frag_bytes ?d) (rev rs)) @ take (frag_size r - k) (frag_bytes ?d r)"
      unfolding bp r len using k rl by simp
    then have "pk_bytes ?q = take (pk_len p - n) (pk_bytes p)" using b by (simp only:)
    moreover have "pk_len ?q = pk_len p - n" by simp
    moreover have "pk_wf ?q \<and> length (pk_frags ?q) \<le> length (pk_frags p) \<and> pk_offload ?q = pk_offload p"
      if "\<not> (tl rfs = [] \<and> using_internal_data p)"
    proof -
      have q: "?q = ?p2"
      proof (cases "rs = []")
        case True
        then have "\<not> using_internal_data p" using that r by simp
        then have "\<not> using_internal_data ?p2"
          using True fr r by (cases r) (auto simp: using_internal_data_def)
        then show ?thesis by simp
      qed simp
      have "pk_wf ?p2"
      proof (cases "rev rs")
        case Nil
        then have "ext_frag r" using pk_wf_not_internal [OF wf] that r fr by auto
        then have "ext_frag (cut_back k r)" using cut_ext k by auto
        moreover have "pk_frags ?p2 = [cut_back k r]" using Nil by simp
        moreover have "length (pk_frags p) \<ge> 1" using fr r by simp
        ultimately show ?thesis using W len k Nil cut_back_size [of k r] unfolding pk_wf_def2
          by (cases "cut_back k r") auto
      next
        case (Cons f fs)
        have pf: "pk_frags p = f # fs @ r # rev pre" using fr r Cons by simp
        then have "ext_frag r" using wf by (simp add: pk_wf_def2)
        then have e: "ext_frag (cut_back k r)" using cut_ext k by auto
        have "sum_list (map frag_size rs) = sum_list (map frag_size (rev rs))" by (simp add: rev_map [symmetric])
        then have "pk_len p - n = frag_size f + sum_list (map frag_size fs) + (frag_size r - k)" using len Cons by simp
        then show ?thesis using wf pf e Cons by (auto simp: pk_wf_def2 cut_back_size)
      qed
      moreover have "length (pk_frags ?p2) \<le> length (pk_frags p)" using fr r by simp
      ultimately show ?thesis unfolding q by simp
    qed
    ultimately show ?thesis using run s k(1)
      by (intro exI [of _ ?q] exI [of _ k] exI [of _ rfs]) blast
  qed
qed

text \<open>Sharing a range.\<close>

lemma share_frags_bytes:
  assumes "off + len \<le> length (concat (map (frag_bytes d) fs))"
    and "fs = [] \<or> off = 0 \<or> off < frag_size (hd fs)"
    and "\<And>f. f \<in> set fs \<Longrightarrow> length (frag_bytes d f) = frag_size f"
    and "\<forall>f \<in> set fs. ext_frag f"
  shows "\<exists>gs. share_frags off len fs = Some gs \<and> concat (map (frag_bytes d) gs) = take len (drop off (concat (map (frag_bytes d) fs))) \<and>
    length gs \<le> length fs \<and> sum_list (map frag_size gs) = len \<and> (\<forall>g \<in> set gs. ext_frag g)"
  using assms
proof (induction off len fs rule: share_frags.induct)
  case (3 off m f fs)
  let ?k = "min (Suc m) (frag_size f - off)"
  let ?g = "cut_back (frag_size f - off - ?k) (cut_front off f)"
  have lf: "length (frag_bytes d f) = frag_size f" using 3(4) by simp
  have g: "frag_bytes d ?g = take ?k (drop off (frag_bytes d f))" "frag_size ?g = ?k"
    using lf by (simp_all add: cut_back_bytes cut_front_bytes cut_front_size cut_back_size min_def)
  have ge: "ext_frag ?g"
    using 3(3,5) by (cases f) auto
  have rest: "0 + (Suc m - ?k) \<le> length (concat (map (frag_bytes d) fs))"
    using 3(2,3) lf by auto
  from 3(1) [OF refl rest] 3(4,5) obtain gs where gs: "share_frags 0 (Suc m - ?k) fs = Some gs"
    "concat (map (frag_bytes d) gs) = take (Suc m - ?k) (concat (map (frag_bytes d) fs))"
    "length gs \<le> length fs" "sum_list (map frag_size gs) = Suc m - ?k" "\<forall>g \<in> set gs. ext_frag g"
    by auto
  have off: "off \<le> length (frag_bytes d f)" using 3(3) lf by auto
  have "take (Suc m) (drop off (frag_bytes d f @ concat (map (frag_bytes d) fs))) =
    take ?k (drop off (frag_bytes d f)) @ take (Suc m - ?k) (concat (map (frag_bytes d) fs))"
    using off lf by (simp add: min_def)
  then show ?case using gs g ge off lf by (simp add: Let_def)
qed auto

lemma pk_share_wf:
  assumes wf: "pk_wf p" and small: "length (pk_frags p) < 2 ^ 15" and len: "offset + len \<le> pk_len p"
  shows "\<exists>n q. pk_share offset len p = Some (n, q) \<and> pk_wf n \<and> pk_bytes n = take len (drop offset (pk_bytes p)) \<and>
    length (pk_frags n) \<le> length (pk_frags p) \<and> pk_offload n = pk_offload p \<and>
    pk_wf q \<and> pk_bytes q = pk_bytes p \<and> length (pk_frags q) = length (pk_frags p) \<and> pk_offload q = pk_offload p"
proof -
  note U = unuse_wf [OF wf]
  let ?u = "unuse_internal_data p"
  let ?d = "pk_data ?u"
  let ?e = "impl_new 4"
  have e: "pk_empty = Some ?e" by (simp add: pk_empty_def impl_allocate_def default_nr_frags_def)
  have ew: "pk_wf ?e" by (simp add: pk_wf_def2 impl_new_def)
  have ef: "pk_frags ?e = []" "\<not> using_internal_data ?e" by (simp_all add: impl_new_def using_internal_data_def)
  obtain m where m: "allocate_if_needed ?e (length (pk_frags ?u)) = Some m" "pk_wf m" "pk_frags m = []"
    "length (pk_frags ?u) \<le> pk_alloc m"
    using allocate_if_needed_wf [OF ew, of "length (pk_frags ?u)"] ef small U(4) by auto
  obtain off fs where s: "skip_frags offset (pk_frags ?u) = (off, fs)" by (cases "skip_frags offset (pk_frags ?u)")
  have total: "sum_list (map frag_size (pk_frags ?u)) = pk_len p" using U(1,5) by (simp add: pk_wf_def2)
  obtain pre where pre: "pk_frags ?u = pre @ fs" "offset = sum_list (map frag_size pre) + off" "fs = [] \<longrightarrow> off = 0"
    "0 < off \<longrightarrow> off < frag_size (hd fs)"
    using skip_frags_split [OF s] len total by auto
  have sub: "set fs \<subseteq> set (pk_frags ?u)" "set pre \<subseteq> set (pk_frags ?u)" using pre(1) by auto
  have lens: "length (concat (map (frag_bytes ?d) fs)) = sum_list (map frag_size fs)"
    "length (concat (map (frag_bytes ?d) pre)) = sum_list (map frag_size pre)"
    using pk_bytes_frag_lens [OF U(1)] sub by simp_all
  have b: "pk_bytes ?u = concat (map (frag_bytes ?d) pre) @ concat (map (frag_bytes ?d) fs)" by (simp add: pk_bytes_def pre(1))
  have "off + len \<le> length (concat (map (frag_bytes ?d) fs))"
    using lens(1) total pre(1,2) len by simp
  moreover have "fs = [] \<or> off = 0 \<or> off < frag_size (hd fs)" using pre(4) by auto
  moreover have "\<And>f. f \<in> set fs \<Longrightarrow> length (frag_bytes ?d f) = frag_size f" using pk_wf_frag_len [OF U(1)] sub(1) by blast
  moreover have "\<forall>f \<in> set fs. ext_frag f" using U(3) sub(1) by blast
  ultimately obtain gs where gs: "share_frags off len fs = Some gs"
    "concat (map (frag_bytes ?d) gs) = take len (drop off (concat (map (frag_bytes ?d) fs)))"
    "length gs \<le> length fs" "sum_list (map frag_size gs) = len" "\<forall>g \<in> set gs. ext_frag g"
    using share_frags_bytes by blast
  let ?n = "m\<lparr>pk_frags := gs, pk_len := sum_list (map frag_size gs), pk_offload := pk_offload ?u\<rparr>"
  have run: "pk_share offset len p = Some (?n, ?u)"
    by (simp add: pk_share_def Let_def e m(1) s gs(1))
  have "pk_bytes ?n = take len (drop offset (pk_bytes p))"
  proof -
    have "pk_bytes ?n = concat (map (frag_bytes ?d) gs)"
      using concat_ext [OF gs(5), of "pk_data m" ?d] by (simp add: pk_bytes_def)
    also have "\<dots> = take len (drop offset (pk_bytes ?u))" unfolding gs(2) b pre(2) using lens(2) by simp
    finally show ?thesis using U(2) by simp
  qed
  moreover have "pk_wf ?n"
  proof -
    have "length gs \<le> pk_alloc m" using gs(3) pre(1) m(4) by simp
    moreover have "pk_headroom m \<le> off" if "gs \<noteq> []" "hd gs = Data off n" for off n
    proof -
      have "ext_frag (hd gs)" using gs(5) hd_in_set [OF that(1)] by blast
      then show ?thesis using that m(2) by (simp add: pk_wf_def2)
    qed
    moreover have "off + n \<le> internal_data_size" if "gs \<noteq> []" "hd gs = Data off n" for off n
    proof -
      have "ext_frag (hd gs)" using gs(5) hd_in_set [OF that(1)] by blast
      then show ?thesis using that by simp
    qed
    ultimately show ?thesis using m(2) gs(5) by (cases gs) (simp_all add: pk_wf_def2)
  qed
  ultimately show ?thesis using run U gs(3) pre(1) by (intro exI [of _ ?n] exI [of _ ?u]) simp
qed

text \<open>Linearising.\<close>

lemma count_frags_some:
  assumes "desired \<le> accum + sum_list (map frag_size fs)"
  shows "\<exists>nr. count_frags desired accum fs = Some nr \<and> nr \<le> length fs \<and>
    desired \<le> accum + sum_list (map frag_size (take nr fs)) \<and> (accum < desired \<longrightarrow> 0 < nr)"
  using assms
proof (induction desired accum fs rule: count_frags.induct)
  case (1 desired accum fs)
  show ?case
  proof (cases "desired \<le> accum")
    case True
    then show ?thesis by (simp add: count_frags.simps [of desired accum fs])
  next
    case False
    then obtain f gs where fs: "fs = f # gs" using 1(2) by (cases fs) auto
    have "desired \<le> accum + frag_size f + sum_list (map frag_size gs)" using 1(2) fs by simp
    from 1(1) [OF False fs this] obtain nr where "count_frags desired (accum + frag_size f) gs = Some nr"
      "nr \<le> length gs" "desired \<le> accum + frag_size f + sum_list (map frag_size (take nr gs))" by blast
    then show ?thesis using False fs
      by (intro exI [of _ "Suc nr"]) (simp add: count_frags.simps [of desired accum fs])
  qed
qed

lemma pk_linearize_at_wf:
  assumes wf: "pk_wf p" and at: "at \<le> length (pk_frags p)"
    and d: "desired \<le> sum_list (map frag_size (drop at (pk_frags p)))"
    and room: "desired = 0 \<longrightarrow> length (pk_frags p) < pk_alloc p"
  shows "\<exists>q bs rest. pk_linearize_at at desired p = Some q \<and> pk_wf q \<and> pk_bytes q = pk_bytes p \<and>
    pk_offload q = pk_offload p \<and> pk_len q = pk_len p \<and>
    pk_frags q = take at (pk_frags (unuse_internal_data p)) @ Ext bs # rest \<and> desired \<le> length bs \<and>
    length (pk_frags q) \<le> length (pk_frags p) + (if desired = 0 then 1 else 0)"
proof -
  note U = unuse_wf [OF wf]
  let ?u = "unuse_internal_data p"
  let ?d = "pk_data ?u"
  let ?fs = "pk_frags ?u"
  note same = unuse_sizes [OF wf]
  have "desired \<le> 0 + sum_list (map frag_size (drop at ?fs))"
    using d same by (simp add: drop_map [symmetric])
  then obtain nr where nr: "count_frags desired 0 (drop at ?fs) = Some nr" "nr \<le> length (drop at ?fs)"
    "desired \<le> sum_list (map frag_size (take nr (drop at ?fs)))" "0 < desired \<longrightarrow> 0 < nr"
    using count_frags_some by (metis add_0)
  let ?new = "concat (map (frag_bytes ?d) (take nr (drop at ?fs)))"
  let ?gs = "take at ?fs @ Ext ?new # drop (at + nr) ?fs"
  have sub: "set (take nr (drop at ?fs)) \<subseteq> set ?fs" by (meson in_set_dropD in_set_takeD subsetI)
  have nl: "length ?new = sum_list (map frag_size (take nr (drop at ?fs)))"
    using pk_bytes_frag_lens [OF U(1) sub] .
  have split: "?fs = take at ?fs @ take nr (drop at ?fs) @ drop (at + nr) ?fs"
    by (metis add.commute append_take_drop_id drop_drop)
  have lg: "length ?gs \<le> length ?fs + (if desired = 0 then 1 else 0)"
    using nr(2,4) at U(4) by auto
  have fit: "length ?gs \<le> pk_alloc ?u"
  proof (cases "desired = 0")
    case True
    then show ?thesis using lg room U(4,6) by simp
  next
    case False
    then have "length ?gs \<le> length ?fs" using lg by (simp only: if_False add_0_right)
    moreover have "length ?fs \<le> pk_alloc ?u" using U(1) by (simp add: pk_wf_def2)
    ultimately show ?thesis by (rule le_trans)
  qed
  have run: "pk_linearize_at at desired p = Some (?u\<lparr>pk_frags := ?gs\<rparr>)"
    using nr(1) fit by (simp add: pk_linearize_at_def Let_def)
  have e: "\<forall>g \<in> set ?gs. ext_frag g" using U(3) by (auto dest: in_set_takeD in_set_dropD)
  have b: "pk_bytes (?u\<lparr>pk_frags := ?gs\<rparr>) = pk_bytes ?u"
  proof -
    have "pk_bytes ?u = concat (map (frag_bytes ?d) (take at ?fs @ take nr (drop at ?fs) @ drop (at + nr) ?fs))"
      unfolding pk_bytes_def by (subst split) (rule refl)
    then show ?thesis by (simp add: pk_bytes_def)
  qed
  have "pk_wf (?u\<lparr>pk_frags := ?gs\<rparr>)"
  proof -
    have "sum_list (map frag_size ?fs) = sum_list (map frag_size (take at ?fs @ take nr (drop at ?fs) @ drop (at + nr) ?fs))"
      by (subst split) (rule refl)
    then have s: "pk_len ?u = sum_list (map frag_size ?gs)" using U(1) nl by (simp add: pk_wf_def2)
    have "?gs \<noteq> []" by simp
    then have "ext_frag (hd ?gs)" "\<forall>g \<in> set (tl ?gs). ext_frag g"
      using e hd_in_set [of ?gs] list.set_sel(2) [of ?gs] by blast+
    moreover have "pk_headroom ?u \<le> internal_data_size" "length ?d = internal_data_size" using U(1) by (simp_all add: pk_wf_def2)
    ultimately show ?thesis using s fit unfolding pk_wf_def2 by auto
  qed
  then show ?thesis using run b U lg nl nr(3) by (intro exI [of _ "?u\<lparr>pk_frags := ?gs\<rparr>"] exI [of _ ?new] exI [of _ "drop (at + nr) ?fs"]) simp
qed

lemma pk_linearize_wf:
  assumes wf: "pk_wf p" and room: "pk_len p = 0 \<longrightarrow> length (pk_frags p) < pk_alloc p"
  shows "\<exists>q. pk_linearize p = Some q \<and> pk_wf q \<and> pk_bytes q = pk_bytes p \<and> pk_offload q = pk_offload p \<and>
    pk_len q = pk_len p \<and> length (pk_frags q) \<le> length (pk_frags p) + (if pk_len p = 0 then 1 else 0)"
proof -
  have "pk_len p \<le> sum_list (map frag_size (drop 0 (pk_frags p)))" using wf by (simp add: pk_wf_def2)
  from pk_linearize_at_wf [OF wf _ this room] show ?thesis unfolding pk_linearize_def by auto
qed

lemma find_frag_some:
  "find_frag i offset fs = Some (j, o') \<Longrightarrow>
   i \<le> j \<and> j - i < length fs \<and> o' < frag_size (fs ! (j - i)) \<and> offset = sum_list (map frag_size (take (j - i) fs)) + o'"
proof (induction i offset fs rule: find_frag.induct)
  case (2 i offset f fs)
  show ?case
  proof (cases "frag_size f \<le> offset")
    case True
    then have "find_frag (Suc i) (offset - frag_size f) fs = Some (j, o')" using 2(2) by simp
    from 2(1) [OF True this] have h: "Suc i \<le> j" "j - Suc i < length fs" "o' < frag_size (fs ! (j - Suc i))"
      "offset - frag_size f = sum_list (map frag_size (take (j - Suc i) fs)) + o'" by simp_all
    have e: "j - i = Suc (j - Suc i)" using h(1) by simp
    have "offset = frag_size f + sum_list (map frag_size (take (j - Suc i) fs)) + o'" using h(4) True by linarith
    then show ?thesis using h(1-3) unfolding e by simp
  next
    case False
    then show ?thesis using 2(2) by simp
  qed
qed simp

lemma pk_get_header_wf:
  assumes wf: "pk_wf p" and len: "offset + sz \<le> pk_len p" and sz: "0 < sz"
  shows "\<exists>i off q. pk_get_header offset sz p = Some (Some (i, off), q) \<and> pk_wf q \<and> pk_bytes q = pk_bytes p \<and>
    i < length (pk_frags q) \<and> off + sz \<le> frag_size (pk_frags q ! i) \<and>
    take sz (drop off (frag_bytes (pk_data q) (pk_frags q ! i))) = take sz (drop offset (pk_bytes p)) \<and>
    length (pk_frags q) \<le> length (pk_frags p) \<and> pk_offload q = pk_offload p"
proof -
  have total: "pk_len p = sum_list (map frag_size (pk_frags p))" using wf by (simp add: pk_wf_def2)
  have "find_frag i n fs \<noteq> None" if "n < sum_list (map frag_size fs)" for i n fs
    using that by (induction i n fs rule: find_frag.induct) auto
  then obtain i off where f: "find_frag 0 offset (pk_frags p) = Some (i, off)"
    using len sz total by (metis add_lessD1 less_add_same_cancel1 order_less_le_trans prod.collapse option.exhaust)
  then have F: "i < length (pk_frags p)" "off < frag_size (pk_frags p ! i)"
    "offset = sum_list (map frag_size (take i (pk_frags p))) + off"
    using find_frag_some [OF f] by simp_all
  have contents: "take sz (drop off (frag_bytes (pk_data q) (pk_frags q ! i))) = take sz (drop offset (pk_bytes q))"
    if q: "pk_wf q" "i < length (pk_frags q)" "off + sz \<le> frag_size (pk_frags q ! i)"
      "map frag_size (take i (pk_frags q)) = map frag_size (take i (pk_frags p))" for q
  proof -
    let ?fs = "pk_frags q"
    have s: "?fs = take i ?fs @ ?fs ! i # drop (Suc i) ?fs" using q(2) by (rule id_take_nth_drop)
    have "pk_bytes q = concat (map (frag_bytes (pk_data q)) (take i ?fs @ ?fs ! i # drop (Suc i) ?fs))"
      unfolding pk_bytes_def by (subst (1) s) (rule refl)
    then have b: "pk_bytes q = concat (map (frag_bytes (pk_data q)) (take i ?fs)) @
      frag_bytes (pk_data q) (?fs ! i) @ concat (map (frag_bytes (pk_data q)) (drop (Suc i) ?fs))" by simp
    have "length (concat (map (frag_bytes (pk_data q)) (take i ?fs))) = sum_list (map frag_size (take i ?fs))"
      by (rule pk_bytes_frag_lens [OF q(1)]) (rule set_take_subset)
    moreover have "length (frag_bytes (pk_data q) (?fs ! i)) = frag_size (?fs ! i)"
      using pk_wf_frag_len [OF q(1)] q(2) by simp
    ultimately show ?thesis unfolding b F(3) using q(3,4) by simp
  qed
  show ?thesis
  proof (cases "frag_size (pk_frags p ! i) < off + sz")
    case False
    then have "pk_get_header offset sz p = Some (Some (i, off), p)" using len f by (simp add: pk_get_header_def)
    then show ?thesis using contents [OF wf F(1)] False wf F(1) by (intro exI [of _ i] exI [of _ off] exI [of _ p]) simp
  next
    case True
    have "pk_frags p = take i (pk_frags p) @ drop i (pk_frags p)" by simp
    then have "sum_list (map frag_size (pk_frags p)) = sum_list (map frag_size (take i (pk_frags p))) + sum_list (map frag_size (drop i (pk_frags p)))"
      by (metis map_append sum_list_append)
    then have "off + sz \<le> sum_list (map frag_size (drop i (pk_frags p)))" using len total F(3) by simp
    from pk_linearize_at_wf [OF wf _ this] F(1) sz obtain q bs rest where
      q: "pk_linearize_at i (off + sz) p = Some q" "pk_wf q" "pk_bytes q = pk_bytes p" "pk_offload q = pk_offload p"
      "pk_frags q = take i (pk_frags (unuse_internal_data p)) @ Ext bs # rest" "off + sz \<le> length bs"
      "length (pk_frags q) \<le> length (pk_frags p)"
      by auto
    have li: "length (take i (pk_frags (unuse_internal_data p))) = i" using unuse_wf(4) [OF wf] F(1) by simp
    then have qi: "i < length (pk_frags q)" "pk_frags q ! i = Ext bs" using q(5) by (simp_all add: nth_append)
    have "map frag_size (take i (pk_frags q)) = map frag_size (take i (pk_frags p))"
    proof -
      have "take i (pk_frags q) = take i (pk_frags (unuse_internal_data p))" using q(5) li by simp
      then show ?thesis using unuse_sizes [OF wf] by (metis take_map)
    qed
    then have "take sz (drop off (frag_bytes (pk_data q) (pk_frags q ! i))) = take sz (drop offset (pk_bytes p))"
      using contents [OF q(2) qi(1)] q(3,6) qi(2) by simp
    moreover have "pk_get_header offset sz p = Some (Some (i, off), q)" using len f True q(1) by (simp add: pk_get_header_def)
    ultimately show ?thesis using q qi by (intro exI [of _ i] exI [of _ off] exI [of _ q]) simp
  qed
qed

text \<open>Construction.\<close>

lemma pk_empty_some: "pk_empty = Some (impl_new 4)"
  by (simp add: pk_empty_def impl_allocate_def default_nr_frags_def)

lemma impl_new_wf: "pk_wf (impl_new n)" "pk_bytes (impl_new n) = []" "pk_frags (impl_new n) = []"
  by (simp_all add: pk_wf_def2 impl_new_def pk_bytes_def)

lemma pk_copy_data_wf:
  "pk_wf (pk_copy_data bs)" "pk_bytes (pk_copy_data bs) = bs" "length (pk_frags (pk_copy_data bs)) = 1"
proof -
  let ?h = "internal_data_size - length bs"
  have "pk_wf (pk_copy_data bs) \<and> pk_bytes (pk_copy_data bs) = bs"
  proof (cases "length bs \<le> internal_data_size")
    case True
    have fit: "?h + length bs \<le> length (replicate internal_data_size (0 :: byte))" using True by simp
    show ?thesis using True put_bytes_at [OF fit] put_bytes_length [OF fit]
      by (simp add: pk_copy_data_def Let_def pk_wf_def2 pk_bytes_def impl_new_def default_nr_frags_def)
  next
    case False
    then show ?thesis
      by (simp add: pk_copy_data_def Let_def pk_wf_def2 pk_bytes_def impl_new_def default_nr_frags_def)
  qed
  then show "pk_wf (pk_copy_data bs)" "pk_bytes (pk_copy_data bs) = bs" by simp_all
  show "length (pk_frags (pk_copy_data bs)) = 1" by (simp add: pk_copy_data_def Let_def)
qed

lemma pk_of_fragments_wf:
  assumes "length bss < 2 ^ 16"
  shows "\<exists>p. pk_of_fragments bss = Some p \<and> pk_wf p \<and> pk_bytes p = concat bss \<and> length (pk_frags p) = length bss"
proof -
  have "impl_allocate (length bss) = Some (impl_new (max (length bss) 4))" using assms by (rule impl_allocate_some)
  moreover have "pk_wf ((impl_new (max (length bss) 4))\<lparr>pk_frags := map Ext bss, pk_len := sum_list (map length bss)\<rparr>)"
    by (cases bss) (auto simp: pk_wf_def2 impl_new_def comp_def)
  moreover have "map (frag_bytes d) (map Ext bss) = bss" for d by (induction bss) simp_all
  ultimately show ?thesis by (simp add: pk_of_fragments_def pk_bytes_def)
qed

section \<open>Properties\<close>

datatype pk_op = Op_append_copy "byte list" | Op_prepend "byte list" | Op_header "byte list" | Op_append "byte list list"
  | Op_trim_front nat | Op_linearize | Op_reserve nat | Op_get_header nat nat

fun pk_step :: "pk_op \<Rightarrow> packet \<Rightarrow> packet option" where
  "pk_step (Op_append_copy bs) p = pk_append_fragment p bs"
| "pk_step (Op_prepend bs) p = pk_prepend bs p"
| "pk_step (Op_header bs) p = prepend_header bs p"
| "pk_step (Op_append bss) p = Option.bind (pk_of_fragments bss) (pk_append p)"
| "pk_step (Op_trim_front n) p = pk_trim_front n p"
| "pk_step Op_linearize p = pk_linearize p"
| "pk_step (Op_reserve n) p = pk_reserve n p"
| "pk_step (Op_get_header off sz) p = map_option snd (pk_get_header off sz p)"

fun pk_run :: "pk_op list \<Rightarrow> packet \<Rightarrow> packet option" where
  "pk_run [] p = Some p"
| "pk_run (x # xs) p = Option.bind (pk_step x p) (pk_run xs)"

text \<open>The same operations on plain byte strings, their preconditions, and the fragments they may add.\<close>

fun bs_step :: "pk_op \<Rightarrow> byte list \<Rightarrow> byte list" where
  "bs_step (Op_append_copy bs) b = b @ bs"
| "bs_step (Op_prepend bs) b = bs @ b"
| "bs_step (Op_header bs) b = bs @ b"
| "bs_step (Op_append bss) b = b @ concat bss"
| "bs_step (Op_trim_front n) b = drop n b"
| "bs_step Op_linearize b = b"
| "bs_step (Op_reserve n) b = b"
| "bs_step (Op_get_header off sz) b = b"

fun bs_ok :: "pk_op \<Rightarrow> byte list \<Rightarrow> bool" where
  "bs_ok (Op_trim_front n) b \<longleftrightarrow> n \<le> length b"
| "bs_ok Op_linearize b \<longleftrightarrow> b \<noteq> []"
| "bs_ok (Op_reserve n) b \<longleftrightarrow> n < 2 ^ 15"
| "bs_ok (Op_get_header off sz) b \<longleftrightarrow> off + sz \<le> length b \<and> 0 < sz"
| "bs_ok _ b \<longleftrightarrow> True"

fun op_frags :: "pk_op \<Rightarrow> nat" where
  "op_frags (Op_append bss) = length bss"
| "op_frags (Op_append_copy bs) = 1"
| "op_frags (Op_prepend bs) = 1"
| "op_frags (Op_header bs) = 1"
| "op_frags _ = 0"

fun bs_run :: "pk_op list \<Rightarrow> byte list \<Rightarrow> byte list" where
  "bs_run [] b = b"
| "bs_run (x # xs) b = bs_run xs (bs_step x b)"

fun bs_run_ok :: "pk_op list \<Rightarrow> byte list \<Rightarrow> bool" where
  "bs_run_ok [] b \<longleftrightarrow> True"
| "bs_run_ok (x # xs) b \<longleftrightarrow> bs_ok x b \<and> bs_run_ok xs (bs_step x b)"

lemma pk_step_wf:
  assumes wf: "pk_wf p" and ok: "bs_ok x (pk_bytes p)" and small: "length (pk_frags p) + op_frags x < 2 ^ 15"
  shows "\<exists>q. pk_step x p = Some q \<and> pk_wf q \<and> pk_bytes q = bs_step x (pk_bytes p) \<and>
    length (pk_frags q) \<le> length (pk_frags p) + op_frags x"
proof (cases x)
  case (Op_append_copy bs)
  then show ?thesis using pk_append_fragment_wf [OF wf] small by fastforce
next
  case (Op_prepend bs)
  then show ?thesis using pk_prepend_wf [OF wf] small by fastforce
next
  case (Op_header bs)
  then show ?thesis using prepend_header_wf [OF wf] small by fastforce
next
  case (Op_append bss)
  then obtain r where r: "pk_of_fragments bss = Some r" "pk_wf r" "pk_bytes r = concat bss" "length (pk_frags r) = length bss"
    using pk_of_fragments_wf [of bss] small by auto
  then have "length (pk_frags p) + length (pk_frags r) < 2 ^ 15" using small Op_append by simp
  from pk_append_wf [OF wf r(2) this] show ?thesis using Op_append r by auto
next
  case (Op_trim_front n)
  then have "n \<le> pk_len p" using ok pk_len_bytes [OF wf] by simp
  from pk_trim_front_wf [OF wf this] show ?thesis using Op_trim_front by auto
next
  case Op_linearize
  then have ne: "pk_len p \<noteq> 0" using ok pk_len_bytes [OF wf] by simp
  then obtain q where "pk_linearize p = Some q" "pk_wf q" "pk_bytes q = pk_bytes p"
    "length (pk_frags q) \<le> length (pk_frags p)"
    using pk_linearize_wf [OF wf] by auto
  then show ?thesis using Op_linearize by simp
next
  case (Op_reserve n)
  show ?thesis
  proof (cases "length (pk_frags p) < n")
    case True
    then have "length (pk_frags p) + (n - length (pk_frags p)) < 2 ^ 15" using ok Op_reserve by simp
    from allocate_if_needed_wf [OF wf this] show ?thesis using True Op_reserve by (auto simp: pk_reserve_def)
  next
    case False
    then show ?thesis using wf Op_reserve by (simp add: pk_reserve_def)
  qed
next
  case (Op_get_header off sz)
  then have "off + sz \<le> pk_len p" "0 < sz" using ok pk_len_bytes [OF wf] by simp_all
  from pk_get_header_wf [OF wf this] obtain i o1 q where "pk_get_header off sz p = Some (Some (i, o1), q)" "pk_wf q"
    "pk_bytes q = pk_bytes p" "length (pk_frags q) \<le> length (pk_frags p)" by blast
  then show ?thesis using Op_get_header by simp
qed

lemma pk_run_aux:
  assumes "pk_wf p" and "bs_run_ok xs (pk_bytes p)" and "length (pk_frags p) + sum_list (map op_frags xs) < 2 ^ 15"
  shows "\<exists>q. pk_run xs p = Some q \<and> pk_wf q \<and> pk_bytes q = bs_run xs (pk_bytes p)"
  using assms
proof (induction xs arbitrary: p)
  case (Cons x xs)
  have "bs_ok x (pk_bytes p)" "length (pk_frags p) + op_frags x < 2 ^ 15" using Cons.prems(2,3) by simp_all
  from pk_step_wf [OF Cons.prems(1) this] obtain q where q: "pk_step x p = Some q" "pk_wf q"
    "pk_bytes q = bs_step x (pk_bytes p)" "length (pk_frags q) \<le> length (pk_frags p) + op_frags x" by blast
  then have "bs_run_ok xs (pk_bytes q)" "length (pk_frags q) + sum_list (map op_frags xs) < 2 ^ 15"
    using Cons.prems(2,3) by simp_all
  from Cons.IH [OF q(2) this] show ?case using q(1,3) by simp
qed simp

text \<open>
  C10. A packet made of copied data and then extended at both ends, given headers, appended to, trimmed in
  front, linearised, reallocated and inspected, in any order, always holds the bytes that the same
  operations give on byte strings, through internal storage, headroom, fragment arrays and copies.
\<close>

theorem pk_run_refines_bytes:
  assumes "bs_run_ok xs bs" and "1 + sum_list (map op_frags xs) < 2 ^ 15"
  shows "\<exists>p. pk_run xs (pk_copy_data bs) = Some p \<and> pk_wf p \<and> pk_bytes p = bs_run xs bs \<and> pk_len p = length (bs_run xs bs)"
  using pk_run_aux [OF pk_copy_data_wf(1), of xs bs] assms pk_copy_data_wf [of bs] pk_len_bytes by auto

theorem pk_run_refines_bytes_witness:
  "\<exists>p. pk_run [Op_prepend [1, 2], Op_append [[5], [6, 7]], Op_header [0], Op_trim_front 2, Op_get_header 1 3, Op_linearize]
        (pk_copy_data [3, 4]) = Some p \<and> pk_bytes p = [2, 3, 4, 5, 6, 7]"
  using pk_run_refines_bytes
    [where bs = "[3, 4]" and xs = "[Op_prepend [1, 2], Op_append [[5], [6, 7]], Op_header [0], Op_trim_front 2, Op_get_header 1 3, Op_linearize]"]
  by auto

text \<open>
  C39. \<open>get_header(offset, size)\<close> returns a pointer to that many bytes in a row, equal to the bytes of the
  packet at the offset, linearising if need be without changing the packet's contents; and a null pointer
  when the packet is too short.
\<close>

theorem pk_get_header_correct:
  assumes "pk_wf p" and "0 < sz"
  shows "(offset + sz \<le> pk_len p \<longrightarrow>
      (\<exists>i off q. pk_get_header offset sz p = Some (Some (i, off), q) \<and> pk_wf q \<and> pk_bytes q = pk_bytes p \<and>
        i < length (pk_frags q) \<and> off + sz \<le> frag_size (pk_frags q ! i) \<and>
        take sz (drop off (frag_bytes (pk_data q) (pk_frags q ! i))) = take sz (drop offset (pk_bytes p)))) \<and>
    (pk_len p < offset + sz \<longrightarrow> pk_get_header offset sz p = Some (None, p))"
proof (intro conjI impI)
  assume "offset + sz \<le> pk_len p"
  from pk_get_header_wf [OF assms(1) this assms(2)]
  show "\<exists>i off q. pk_get_header offset sz p = Some (Some (i, off), q) \<and> pk_wf q \<and> pk_bytes q = pk_bytes p \<and>
        i < length (pk_frags q) \<and> off + sz \<le> frag_size (pk_frags q ! i) \<and>
        take sz (drop off (frag_bytes (pk_data q) (pk_frags q ! i))) = take sz (drop offset (pk_bytes p))" by blast
qed (simp add: pk_get_header_def)

theorem pk_get_header_correct_witness:
  "\<exists>i off q. pk_get_header 1 2 (pk_copy_data [7, 8, 9]) = Some (Some (i, off), q) \<and> pk_bytes q = [7, 8, 9]"
  using pk_get_header_correct [OF pk_copy_data_wf(1), of 2 1 "[7, 8, 9]"] pk_copy_data_wf(2) [of "[7, 8, 9]"]
    pk_len_bytes [OF pk_copy_data_wf(1), of "[7, 8, 9]"]
  by auto

text \<open>
  \<open>share(offset, len)\<close> gives a packet with the bytes of the range, and leaves the contents of the original.
\<close>

theorem pk_share_correct:
  assumes "pk_wf p" and "length (pk_frags p) < 2 ^ 15" and "offset + len \<le> pk_len p"
  shows "\<exists>n q. pk_share offset len p = Some (n, q) \<and> pk_wf n \<and> pk_bytes n = take len (drop offset (pk_bytes p)) \<and>
    pk_wf q \<and> pk_bytes q = pk_bytes p"
  using pk_share_wf [OF assms] by blast

text \<open>
  C40. \<open>trim_back(n)\<close> removes the last \<open>n\<close> bytes, and keeps the packet well formed unless it cuts its first
  fragment while that is in the internal storage.
\<close>

theorem pk_trim_back_correct:
  assumes "pk_wf p" and "n \<le> pk_len p"
  shows "\<exists>q. pk_trim_back n p = Some q \<and> pk_bytes q = take (pk_len p - n) (pk_bytes p) \<and> pk_len q = pk_len p - n \<and>
    (\<not> using_internal_data p \<longrightarrow> pk_wf q)"
  using trim_back_bytes [OF assms] by blast

theorem pk_trim_back_correct_witness:
  "\<exists>q. pk_trim_back 1 (pk_copy_data [7, 8, 9]) = Some q \<and> pk_bytes q = [7, 8]"
  using pk_trim_back_correct [OF pk_copy_data_wf(1), of 1 "[7, 8, 9]"] pk_copy_data_wf(2) [of "[7, 8, 9]"]
    pk_len_bytes [OF pk_copy_data_wf(1), of "[7, 8, 9]"]
  by auto

text \<open>
  In that case a header prepended afterwards is written before the start of the internal storage: the
  bytes cut off at the end have been counted as room at the front.
\<close>

theorem pk_trim_back_corrupts:
  "Option.bind (pk_trim_back 50 (pk_copy_data (replicate 100 0))) (pk_prepend (replicate 40 0)) = None"
  by (simp add: pk_copy_data_def impl_new_def pk_trim_back_def Let_def internal_data_size_def
      default_nr_frags_def pk_prepend_def allocate_headroom_def using_internal_data_def)

end
