(* ===== verification/PacketMerger.thy ===== *)
theory PacketMerger
  imports Packet
begin

text \<open>
  \<open>net/packet-util.hh\<close>: the reassembly of a byte stream from segments that arrive in any order.

  The \<open>std::map\<close> from offsets to packets is the list of its entries in ascending order.  Offsets are
  numbers that do not wrap around.  \<open>None\<close> is the \<open>abort()\<close> of the code or a failure of a packet operation.
\<close>

section \<open>The merger\<close>

type_synonym seg_map = "(nat \<times> packet) list"

record packet_merger =
  pm_map :: seg_map
  pm_linearizations :: nat

datatype scan_result = Contained | Insert seg_map packet | Extended seg_map

text \<open>The first loop: the first segment that meets the new packet.\<close>

fun pm_scan :: "nat \<Rightarrow> packet \<Rightarrow> seg_map \<Rightarrow> scan_result option" where
  "pm_scan beg p [] = Some (Insert [] p)"
| "pm_scan beg p ((seg_beg, seg_pkt) # m) =
     (let fin = beg + pk_len p; seg_end = seg_beg + pk_len seg_pkt
      in if seg_beg \<le> beg \<and> fin \<le> seg_end then Some Contained
         else if beg \<le> seg_beg \<and> seg_end \<le> fin then Some (Insert m p)
         else if beg < seg_beg \<and> seg_beg \<le> fin \<and> fin \<le> seg_end then
           Option.bind (pk_trim_front (fin - seg_beg) seg_pkt) (\<lambda>seg.
             map_option (Insert m) (pk_append p seg))
         else if seg_beg \<le> beg \<and> beg \<le> seg_end \<and> seg_end < fin then
           Option.bind (pk_trim_front (seg_end - beg) p) (\<lambda>p.
             Option.bind (pk_append seg_pkt p) (\<lambda>seg.
               map_option (\<lambda>seg. Extended ((seg_beg, seg) # m)) (pk_linearize seg)))
         else
           map_option (\<lambda>r. case r of Contained \<Rightarrow> Contained
             | Insert m1 q \<Rightarrow> Insert ((seg_beg, seg_pkt) # m1) q
             | Extended m1 \<Rightarrow> Extended ((seg_beg, seg_pkt) # m1)) (pm_scan beg p m))"

text \<open>\<open>std::map::emplace\<close>: nothing happens when the key is there.\<close>

fun pm_emplace :: "nat \<Rightarrow> packet \<Rightarrow> seg_map \<Rightarrow> seg_map" where
  "pm_emplace k p [] = [(k, p)]"
| "pm_emplace k p ((j, q) # m) =
     (if k < j then (k, p) # (j, q) # m else if k = j then (j, q) # m else (j, q) # pm_emplace k p m)"

text \<open>The second loop: adjacent segments are joined.\<close>

function pm_join :: "seg_map \<Rightarrow> seg_map option" where
  "pm_join [] = Some []"
| "pm_join [x] = Some [x]"
| "pm_join ((seg_beg, seg_pkt) # (beg, p) # m) =
     (let seg_end = seg_beg + pk_len seg_pkt; fin = beg + pk_len p
      in if seg_beg \<le> beg \<and> beg \<le> seg_end \<and> seg_end < fin then
           Option.bind (pk_trim_front (seg_end - beg) p) (\<lambda>p.
             Option.bind (pk_append seg_pkt p) (\<lambda>seg. pm_join ((seg_beg, seg) # m)))
         else if fin \<le> seg_end then pm_join ((seg_beg, seg_pkt) # m)
         else if seg_end < beg then map_option (\<lambda>m. (seg_beg, seg_pkt) # m) (pm_join ((beg, p) # m))
         else None)"
  by pat_completeness auto
termination by (relation "measure length") auto

declare pm_join.simps(3) [simp del]

definition pm_merge :: "nat \<Rightarrow> packet \<Rightarrow> packet_merger \<Rightarrow> packet_merger option" where
  "pm_merge offset p pm =
     Option.bind (pm_scan offset p (pm_map pm)) (\<lambda>r.
       case r of
         Contained \<Rightarrow> Some pm
       | Insert m q \<Rightarrow>
           Option.bind (pk_linearize q) (\<lambda>q.
             map_option (\<lambda>m. \<lparr>pm_map = m, pm_linearizations = pm_linearizations pm + 1\<rparr>) (pm_join (pm_emplace offset q m)))
       | Extended m \<Rightarrow>
           map_option (\<lambda>m. \<lparr>pm_map = m, pm_linearizations = pm_linearizations pm + 1\<rparr>) (pm_join m))"

section \<open>Segments of a stream\<close>

text \<open>A segment that holds the bytes of the stream \<open>f\<close> at its place.\<close>

definition seg_ok :: "(nat \<Rightarrow> byte) \<Rightarrow> nat \<times> packet \<Rightarrow> bool" where
  "seg_ok f s \<longleftrightarrow> pk_wf (snd s) \<and> 0 < pk_len (snd s) \<and>
     pk_bytes (snd s) = map f [fst s..<fst s + pk_len (snd s)]"

definition seg_cover :: "nat \<times> packet \<Rightarrow> nat set" where
  "seg_cover s = {fst s..<fst s + pk_len (snd s)}"

definition pm_cover :: "seg_map \<Rightarrow> nat set" where
  "pm_cover m = (\<Union>s \<in> set m. seg_cover s)"

definition pm_frags :: "seg_map \<Rightarrow> nat" where
  "pm_frags m = sum_list (map (\<lambda>s. length (pk_frags (snd s))) m)"

fun pm_gaps :: "seg_map \<Rightarrow> bool" where
  "pm_gaps (s # t # m) \<longleftrightarrow> fst s + pk_len (snd s) < fst t \<and> pm_gaps (t # m)"
| "pm_gaps _ \<longleftrightarrow> True"

definition pm_wf :: "(nat \<Rightarrow> byte) \<Rightarrow> seg_map \<Rightarrow> bool" where
  "pm_wf f m \<longleftrightarrow> (\<forall>s \<in> set m. seg_ok f s) \<and> pm_gaps m"

abbreviation keys_sorted :: "seg_map \<Rightarrow> bool" where
  "keys_sorted m \<equiv> sorted_wrt (<) (map fst m)"

lemma pm_cover_simps [simp]:
  "pm_cover [] = {}" "pm_cover (s # m) = seg_cover s \<union> pm_cover m"
  by (simp_all add: pm_cover_def)

lemma pm_frags_simps [simp]: "pm_frags [] = 0" "pm_frags (s # m) = length (pk_frags (snd s)) + pm_frags m"
  by (simp_all add: pm_frags_def)

lemma pm_gaps_sorted: "pm_gaps m \<Longrightarrow> keys_sorted m"
proof (induction m rule: pm_gaps.induct)
  case (1 s t m)
  then have "fst s < fst t" "keys_sorted (t # m)" by auto
  then show ?case by auto
qed simp_all

text \<open>Trimming the front of a segment and appending the segment that follows it.\<close>

lemma seg_ok_trim:
  assumes "seg_ok f (b, p)" and "k < pk_len p"
  shows "\<exists>q. pk_trim_front k p = Some q \<and> seg_ok f (b + k, q) \<and> pk_len q = pk_len p - k \<and>
    length (pk_frags q) \<le> length (pk_frags p)"
proof -
  have wf: "pk_wf p" and b: "pk_bytes p = map f [b..<b + pk_len p]" using assms(1) by (simp_all add: seg_ok_def)
  obtain q where q: "pk_trim_front k p = Some q" "pk_wf q" "pk_bytes q = drop k (pk_bytes p)"
    "length (pk_frags q) \<le> length (pk_frags p)"
    using pk_trim_front_wf [OF wf, of k] assms(2) by auto
  have "pk_len q = pk_len p - k" using pk_len_bytes [OF q(2)] pk_len_bytes [OF wf] q(3) by simp
  then show ?thesis using q b assms(2) by (simp add: seg_ok_def drop_map)
qed

lemma seg_ok_append:
  assumes "seg_ok f (b, p)" and "seg_ok f (b + pk_len p, q)" and "length (pk_frags p) + length (pk_frags q) < 2 ^ 15"
  shows "\<exists>r. pk_append p q = Some r \<and> seg_ok f (b, r) \<and> pk_len r = pk_len p + pk_len q \<and>
    length (pk_frags r) \<le> length (pk_frags p) + length (pk_frags q)"
proof -
  have p: "pk_wf p" "pk_bytes p = map f [b..<b + pk_len p]" "0 < pk_len p"
    and q: "pk_wf q" "pk_bytes q = map f [b + pk_len p..<b + pk_len p + pk_len q]"
    using assms(1,2) by (simp_all add: seg_ok_def)
  obtain r where r: "pk_append p q = Some r" "pk_wf r" "pk_bytes r = pk_bytes p @ pk_bytes q"
    "length (pk_frags r) \<le> length (pk_frags p) + length (pk_frags q)"
    using pk_append_wf [OF p(1) q(1) assms(3)] by blast
  have l: "pk_len r = pk_len p + pk_len q"
    using pk_len_bytes [OF r(2)] r(3) pk_len_bytes [OF p(1)] pk_len_bytes [OF q(1)] by simp
  have "[b..<b + (pk_len p + pk_len q)] = [b..<b + pk_len p] @ [b + pk_len p..<b + pk_len p + pk_len q]"
    by (metis add.assoc le_add1 upt_add_eq_append)
  then have "pk_bytes r = map f [b..<b + pk_len r]" using r(3) p(2) q(2) l by simp
  then show ?thesis using r l p(3) by (simp add: seg_ok_def)
qed

lemma seg_ok_linearize:
  assumes "seg_ok f (b, p)"
  shows "\<exists>q. pk_linearize p = Some q \<and> seg_ok f (b, q) \<and> pk_len q = pk_len p \<and> length (pk_frags q) \<le> length (pk_frags p)"
  using pk_linearize_wf [of p] assms by (auto simp: seg_ok_def)

section \<open>The second loop\<close>

lemma pm_join_correct:
  assumes "\<forall>s \<in> set m. seg_ok f s" and "sorted (map fst m)" and "pm_frags m < 2 ^ 15"
  shows "\<exists>m'. pm_join m = Some m' \<and> pm_wf f m' \<and> pm_cover m' = pm_cover m \<and> pm_frags m' \<le> pm_frags m \<and>
    (m' = [] \<longleftrightarrow> m = []) \<and> (m \<noteq> [] \<longrightarrow> fst (hd m') = fst (hd m))"
  using assms
proof (induction m rule: pm_join.induct)
  case (3 sb sp b p m)
  let ?se = "sb + pk_len sp" and ?e = "b + pk_len p"
  have ok: "seg_ok f (sb, sp)" "seg_ok f (b, p)" "\<forall>s \<in> set m. seg_ok f s" and le: "sb \<le> b"
    and sm: "sorted (map fst m)" "\<forall>k \<in> set (map fst m). b \<le> k"
    using "3.prems" by auto
  consider (overlap) "b \<le> ?se" "?se < ?e" | (inside) "?e \<le> ?se" | (gap) "?se < b"
    by linarith
  then show ?case
  proof cases
    case overlap
    have "0 < pk_len p" using ok(2) by (simp add: seg_ok_def)
    have k: "?se - b < pk_len p" using overlap by linarith
    obtain q where q: "pk_trim_front (?se - b) p = Some q" "seg_ok f (b + (?se - b), q)" "pk_len q = pk_len p - (?se - b)"
      "length (pk_frags q) \<le> length (pk_frags p)"
      using seg_ok_trim [OF ok(2) k] by blast
    have q2: "seg_ok f (?se, q)" using q(2) overlap(1) by simp
    have "length (pk_frags sp) + length (pk_frags q) < 2 ^ 15" using "3.prems"(3) q(4) by simp
    then obtain r where r: "pk_append sp q = Some r" "seg_ok f (sb, r)" "pk_len r = pk_len sp + pk_len q"
      "length (pk_frags r) \<le> length (pk_frags sp) + length (pk_frags q)"
      using seg_ok_append [OF ok(1) q2] by blast
    have "sb + pk_len r = ?e" using r(3) q(3) overlap by simp
    then have cov: "seg_cover (sb, r) = seg_cover (sb, sp) \<union> seg_cover (b, p)"
      using le overlap by (auto simp: seg_cover_def)
    have s1: "sorted (map fst ((sb, r) # m))" using sm le by auto
    have f1: "pm_frags ((sb, r) # m) \<le> pm_frags ((sb, sp) # (b, p) # m)" using r(4) q(4) by simp
    from "3.IH"(1) [OF refl refl, of q r] overlap le q(1) r(1,2) ok(3) s1 f1 "3.prems"(3)
    obtain m' where m': "pm_join ((sb, r) # m) = Some m'" "pm_wf f m'" "pm_cover m' = pm_cover ((sb, r) # m)"
      "pm_frags m' \<le> pm_frags ((sb, r) # m)" "m' \<noteq> []" "fst (hd m') = sb"
      by auto
    have "pm_join ((sb, sp) # (b, p) # m) = Some m'"
      using overlap le q(1) r(1) m'(1) by (simp add: pm_join.simps(3) Let_def)
    then show ?thesis using m' cov f1 by auto
  next
    case inside
    have c: "seg_cover (b, p) \<subseteq> seg_cover (sb, sp)" using le inside by (auto simp: seg_cover_def)
    have s1: "sorted (map fst ((sb, sp) # m))" using sm le by auto
    from "3.IH"(2) [OF refl refl] inside le ok s1 "3.prems"(3)
    obtain m' where m': "pm_join ((sb, sp) # m) = Some m'" "pm_wf f m'" "pm_cover m' = pm_cover ((sb, sp) # m)"
      "pm_frags m' \<le> pm_frags ((sb, sp) # m)" "m' \<noteq> []" "fst (hd m') = sb"
      by auto
    have "pm_join ((sb, sp) # (b, p) # m) = Some m'"
      using inside m'(1) by (simp add: pm_join.simps(3) Let_def)
    then show ?thesis using m' c by auto
  next
    case gap
    have "\<not> (sb \<le> b \<and> b \<le> ?se \<and> ?se < ?e)" "\<not> ?e \<le> ?se" using gap by auto
    from "3.IH"(3) [OF refl refl this gap] "3.prems"
    obtain m' where m': "pm_join ((b, p) # m) = Some m'" "pm_wf f m'" "pm_cover m' = pm_cover ((b, p) # m)"
      "pm_frags m' \<le> pm_frags ((b, p) # m)" "m' \<noteq> []" "fst (hd m') = b"
      by auto
    have "pm_join ((sb, sp) # (b, p) # m) = Some ((sb, sp) # m')"
      using gap m'(1) by (simp add: pm_join.simps(3) Let_def)
    moreover have "pm_wf f ((sb, sp) # m')"
      using m'(2,5,6) gap ok(1) by (cases m') (auto simp: pm_wf_def)
    ultimately show ?thesis using m' by auto
  qed
qed (auto simp: pm_wf_def)

section \<open>The first loop\<close>

definition scan_ok :: "(nat \<Rightarrow> byte) \<Rightarrow> nat \<Rightarrow> packet \<Rightarrow> seg_map \<Rightarrow> scan_result \<Rightarrow> bool" where
  "scan_ok f beg p m r \<longleftrightarrow>
     (let new = seg_cover (beg, p) in
      case r of
        Contained \<Rightarrow> new \<subseteq> pm_cover m
      | Insert m1 q \<Rightarrow> (\<forall>s \<in> set m1. seg_ok f s) \<and> seg_ok f (beg, q) \<and> keys_sorted m1 \<and> set (map fst m1) \<subseteq> set (map fst m) \<and>
          beg \<notin> set (map fst m1) \<and> seg_cover (beg, q) \<union> pm_cover m1 = new \<union> pm_cover m \<and>
          length (pk_frags q) + pm_frags m1 \<le> length (pk_frags p) + pm_frags m
      | Extended m1 \<Rightarrow> (\<forall>s \<in> set m1. seg_ok f s) \<and> map fst m1 = map fst m \<and> pm_cover m1 = new \<union> pm_cover m \<and>
          pm_frags m1 \<le> length (pk_frags p) + pm_frags m)"

lemma pm_scan_correct:
  assumes "\<forall>s \<in> set m. seg_ok f s" and "keys_sorted m" and "seg_ok f (beg, p)"
    and "length (pk_frags p) + pm_frags m < 2 ^ 15"
  shows "\<exists>r. pm_scan beg p m = Some r \<and> scan_ok f beg p m r"
  using assms
proof (induction m)
  case Nil
  then show ?case by (auto simp: scan_ok_def)
next
  case (Cons s m)
  obtain sb sp where s: "s = (sb, sp)" by (cases s)
  let ?se = "sb + pk_len sp" and ?e = "beg + pk_len p"
  have ok: "seg_ok f (sb, sp)" "\<forall>s \<in> set m. seg_ok f s" and sm: "keys_sorted m" "\<forall>k \<in> set (map fst m). sb < k"
    using Cons.prems(1,2) s by auto
  have pos: "0 < pk_len p" "0 < pk_len sp" using ok(1) Cons.prems(3) by (simp_all add: seg_ok_def)
  have fr: "length (pk_frags p) + length (pk_frags sp) < 2 ^ 15" using Cons.prems(4) s by simp
  consider (c1) "sb \<le> beg" "?e \<le> ?se" | (c2) "\<not> (sb \<le> beg \<and> ?e \<le> ?se)" "beg \<le> sb" "?se \<le> ?e"
    | (c3) "beg < sb" "sb \<le> ?e" "?e < ?se" | (c4) "sb < beg" "beg \<le> ?se" "?se < ?e"
    | (c5) "?e < sb \<or> ?se < beg"
    by linarith
  then show ?case
  proof cases
    case c1
    then show ?thesis using s by (auto simp: scan_ok_def seg_cover_def)
  next
    case c2
    then have run: "pm_scan beg p (s # m) = Some (Insert m p)" using s by (simp add: Let_def)
    have "beg \<notin> set (map fst m)" using sm(2) c2(2) by fastforce
    moreover have "seg_cover (sb, sp) \<subseteq> seg_cover (beg, p)" using c2 by (auto simp: seg_cover_def)
    ultimately have "scan_ok f beg p (s # m) (Insert m p)"
      using ok(2) Cons.prems(3) sm(1) s by (auto simp: scan_ok_def)
    then show ?thesis using run by blast
  next
    case c3
    have k: "?e - sb < pk_len sp" using c3 by linarith
    obtain q where q: "pk_trim_front (?e - sb) sp = Some q" "seg_ok f (sb + (?e - sb), q)" "pk_len q = pk_len sp - (?e - sb)"
      "length (pk_frags q) \<le> length (pk_frags sp)"
      using seg_ok_trim [OF ok(1) k] by blast
    have "seg_ok f (beg + pk_len p, q)" using q(2) c3(2) by simp
    moreover have "length (pk_frags p) + length (pk_frags q) < 2 ^ 15" using fr q(4) by simp
    ultimately obtain r where r: "pk_append p q = Some r" "seg_ok f (beg, r)" "pk_len r = pk_len p + pk_len q"
      "length (pk_frags r) \<le> length (pk_frags p) + length (pk_frags q)"
      using seg_ok_append [OF Cons.prems(3)] by blast
    have run: "pm_scan beg p (s # m) = Some (Insert m r)"
      using c3 q(1) r(1) s by (simp add: Let_def)
    have "beg + pk_len r = ?se" using r(3) q(3) c3 by simp
    then have cov: "seg_cover (beg, r) = seg_cover (beg, p) \<union> seg_cover (sb, sp)"
      using c3 by (auto simp: seg_cover_def)
    have "beg \<notin> set (map fst m)" using sm(2) c3(1) by fastforce
    then have "scan_ok f beg p (s # m) (Insert m r)"
      using ok(2) r(2,4) q(4) sm(1) cov s by (auto simp: scan_ok_def)
    then show ?thesis using run by blast
  next
    case c4
    have k: "?se - beg < pk_len p" using c4 by linarith
    obtain q where q: "pk_trim_front (?se - beg) p = Some q" "seg_ok f (beg + (?se - beg), q)" "pk_len q = pk_len p - (?se - beg)"
      "length (pk_frags q) \<le> length (pk_frags p)"
      using seg_ok_trim [OF Cons.prems(3) k] by blast
    have "seg_ok f (sb + pk_len sp, q)" using q(2) c4(2) by simp
    moreover have "length (pk_frags sp) + length (pk_frags q) < 2 ^ 15" using fr q(4) by simp
    ultimately obtain r where r: "pk_append sp q = Some r" "seg_ok f (sb, r)" "pk_len r = pk_len sp + pk_len q"
      "length (pk_frags r) \<le> length (pk_frags sp) + length (pk_frags q)"
      using seg_ok_append [OF ok(1)] by blast
    obtain t where t: "pk_linearize r = Some t" "seg_ok f (sb, t)" "pk_len t = pk_len r" "length (pk_frags t) \<le> length (pk_frags r)"
      using seg_ok_linearize [OF r(2)] by blast
    have run: "pm_scan beg p (s # m) = Some (Extended ((sb, t) # m))"
      using c4 q(1) r(1) t(1) s by (simp add: Let_def)
    have "sb + pk_len t = ?e" using r(3) t(3) q(3) c4 by simp
    then have cov: "seg_cover (sb, t) = seg_cover (sb, sp) \<union> seg_cover (beg, p)"
      using c4 by (auto simp: seg_cover_def)
    have "scan_ok f beg p (s # m) (Extended ((sb, t) # m))"
      using ok(2) t(2,4) r(4) q(4) cov s by (auto simp: scan_ok_def)
    then show ?thesis using run by blast
  next
    case c5
    obtain r where r: "pm_scan beg p m = Some r" "scan_ok f beg p m r"
      using Cons.IH [OF ok(2) sm(1) Cons.prems(3)] Cons.prems(4) by auto
    have ne: "beg \<noteq> sb" using c5 pos by auto
    let ?g = "\<lambda>r. case r of Contained \<Rightarrow> Contained | Insert m1 q \<Rightarrow> Insert ((sb, sp) # m1) q
      | Extended m1 \<Rightarrow> Extended ((sb, sp) # m1)"
    have run: "pm_scan beg p (s # m) = Some (?g r)"
      using c5 pos r(1) s by (auto simp: Let_def)
    have sub: "\<forall>x \<in> set m1. sb < fst x" if "fst ` set m1 \<subseteq> fst ` set m" for m1 :: seg_map
    proof
      fix x assume "x \<in> set m1"
      then have "fst x \<in> set (map fst m)" using that by auto
      then show "sb < fst x" using sm(2) by blast
    qed
    have "scan_ok f beg p (s # m) (?g r)"
    proof (cases r)
      case (Insert m1 q)
      then have "\<forall>x \<in> set m1. sb < fst x" using r(2) by (intro sub) (simp add: scan_ok_def)
      then show ?thesis using Insert r(2) ok(1) ne s by (auto simp: scan_ok_def)
    qed (use r(2) ok(1) s in \<open>auto simp: scan_ok_def\<close>)
    then show ?thesis using run by blast
  qed
qed

lemma pm_emplace_correct:
  assumes "keys_sorted m" and "k \<notin> set (map fst m)"
  shows "set (pm_emplace k p m) = insert (k, p) (set m) \<and> keys_sorted (pm_emplace k p m) \<and>
    pm_cover (pm_emplace k p m) = seg_cover (k, p) \<union> pm_cover m \<and>
    pm_frags (pm_emplace k p m) = length (pk_frags p) + pm_frags m"
  using assms
proof (induction m)
  case (Cons s m)
  obtain j q where s: "s = (j, q)" by (cases s)
  show ?case
  proof (cases "k < j")
    case True
    then show ?thesis using Cons.prems s by auto
  next
    case False
    then have "j < k" using Cons.prems s by auto
    then show ?thesis using Cons s by auto
  qed
qed simp

lemma pm_merge_wf:
  assumes wf: "pm_wf f (pm_map pm)" and p: "seg_ok f (offset, p)"
    and small: "length (pk_frags p) + pm_frags (pm_map pm) < 2 ^ 15"
  shows "\<exists>pm'. pm_merge offset p pm = Some pm' \<and> pm_wf f (pm_map pm') \<and>
    pm_cover (pm_map pm') = {offset..<offset + pk_len p} \<union> pm_cover (pm_map pm) \<and>
    pm_frags (pm_map pm') \<le> length (pk_frags p) + pm_frags (pm_map pm)"
proof -
  let ?m = "pm_map pm"
  have ks: "keys_sorted ?m" using wf by (intro pm_gaps_sorted) (simp add: pm_wf_def)
  have new: "seg_cover (offset, p) = {offset..<offset + pk_len p}" by (simp add: seg_cover_def)
  obtain r where r: "pm_scan offset p ?m = Some r" "scan_ok f offset p ?m r"
    using pm_scan_correct [OF _ ks p small] wf by (auto simp: pm_wf_def)
  show ?thesis
  proof (cases r)
    case Contained
    then show ?thesis using r wf new by (auto simp: pm_merge_def scan_ok_def)
  next
    case (Insert m1 q)
    then have I: "\<forall>s \<in> set m1. seg_ok f s" "seg_ok f (offset, q)" "keys_sorted m1" "offset \<notin> set (map fst m1)"
      "seg_cover (offset, q) \<union> pm_cover m1 = seg_cover (offset, p) \<union> pm_cover ?m"
      "length (pk_frags q) + pm_frags m1 \<le> length (pk_frags p) + pm_frags ?m"
      using r(2) by (simp_all add: scan_ok_def)
    obtain t where t: "pk_linearize q = Some t" "seg_ok f (offset, t)" "pk_len t = pk_len q"
      "length (pk_frags t) \<le> length (pk_frags q)"
      using seg_ok_linearize [OF I(2)] by blast
    let ?m2 = "pm_emplace offset t m1"
    have E: "set ?m2 = insert (offset, t) (set m1)" "keys_sorted ?m2"
      "pm_cover ?m2 = seg_cover (offset, t) \<union> pm_cover m1" "pm_frags ?m2 = length (pk_frags t) + pm_frags m1"
      using pm_emplace_correct [OF I(3,4), of t] by simp_all
    have f2: "pm_frags ?m2 < 2 ^ 15" using E(4) t(4) I(6) small by simp
    have "\<forall>s \<in> set ?m2. seg_ok f s" using E(1) I(1) t(2) by simp
    moreover have "sorted (map fst ?m2)" using E(2) by (simp add: strict_sorted_imp_sorted)
    ultimately obtain m' where m': "pm_join ?m2 = Some m'" "pm_wf f m'" "pm_cover m' = pm_cover ?m2" "pm_frags m' \<le> pm_frags ?m2"
      using pm_join_correct [OF _ _ f2] by blast
    have "seg_cover (offset, t) = seg_cover (offset, q)" using t(3) by (simp add: seg_cover_def)
    then have "pm_cover m' = {offset..<offset + pk_len p} \<union> pm_cover ?m" using m'(3) E(3) I(5) new by simp
    moreover have "pm_frags m' \<le> length (pk_frags p) + pm_frags ?m" using m'(4) E(4) t(4) I(6) by simp
    ultimately show ?thesis using r(1) Insert t(1) m'(1,2) by (simp add: pm_merge_def)
  next
    case (Extended m1)
    then have I: "\<forall>s \<in> set m1. seg_ok f s" "map fst m1 = map fst ?m"
      "pm_cover m1 = seg_cover (offset, p) \<union> pm_cover ?m" "pm_frags m1 \<le> length (pk_frags p) + pm_frags ?m"
      using r(2) by (simp_all add: scan_ok_def)
    have "sorted (map fst m1)" using ks I(2) by (simp add: strict_sorted_imp_sorted)
    moreover have f1: "pm_frags m1 < 2 ^ 15" using I(4) small by simp
    ultimately obtain m' where m': "pm_join m1 = Some m'" "pm_wf f m'" "pm_cover m' = pm_cover m1" "pm_frags m' \<le> pm_frags m1"
      using pm_join_correct [OF I(1)] by blast
    then show ?thesis using r(1) Extended I(3,4) new by (simp add: pm_merge_def)
  qed
qed

text \<open>
  C12. Merging a segment of a byte stream into the map never aborts, keeps the map a set of segments of the
  stream with gaps between them, and makes it cover exactly what it covered and the new segment, however the
  segment overlaps the ones that are there.
\<close>

theorem pm_merge_correct:
  assumes wf: "pm_wf f (pm_map pm)" and p: "seg_ok f (offset, p)"
    and small: "length (pk_frags p) + pm_frags (pm_map pm) < 2 ^ 15"
  shows "\<exists>pm'. pm_merge offset p pm = Some pm' \<and> pm_wf f (pm_map pm') \<and>
    pm_cover (pm_map pm') = {offset..<offset + pk_len p} \<union> pm_cover (pm_map pm) \<and>
    pm_frags (pm_map pm') \<le> length (pk_frags p) + pm_frags (pm_map pm)"
  using assms by (rule pm_merge_wf)

theorem pm_merge_correct_witness:
  "\<exists>pm'. pm_merge 2 (pk_copy_data [2, 3, 4]) \<lparr>pm_map = [(0, pk_copy_data [0, 1, 2])], pm_linearizations = 0\<rparr> = Some pm' \<and>
     pm_cover (pm_map pm') = {0..<5}"
proof -
  have l: "pk_len (pk_copy_data bs) = length bs" for bs
    using pk_len_bytes [OF pk_copy_data_wf(1), of bs] by (simp add: pk_copy_data_wf)
  have "seg_ok of_nat (0, pk_copy_data [0, 1, 2])" "seg_ok of_nat (2, pk_copy_data [2, 3, 4])"
    by (simp_all add: seg_ok_def pk_copy_data_wf l upt_conv_Cons)
  then have "\<exists>pm'. pm_merge 2 (pk_copy_data [2, 3, 4]) \<lparr>pm_map = [(0, pk_copy_data [0, 1, 2])], pm_linearizations = 0\<rparr> = Some pm' \<and>
    pm_cover (pm_map pm') = {2..<2 + 3} \<union> {0..<0 + 3}"
    using pm_merge_correct [where f = of_nat and offset = 2 and p = "pk_copy_data [2, 3, 4]" and
        pm = "\<lparr>pm_map = [(0, pk_copy_data [0, 1, 2])], pm_linearizations = 0\<rparr>"]
    by (auto simp: pm_wf_def l seg_cover_def pk_copy_data_wf(3))
  moreover have "{2..<2 + 3} \<union> {0..<0 + 3} = {0..<5 :: nat}" by auto
  ultimately show ?thesis by simp
qed

text \<open>When an initial part of the stream is covered and nothing else, the map is one segment with its bytes.\<close>

lemma pm_gaps_end:
  assumes "pm_gaps (s # t # m)"
  shows "fst s + pk_len (snd s) \<notin> pm_cover (s # t # m)"
proof -
  have "\<forall>u \<in> set (t # m). fst s + pk_len (snd s) < fst u"
    using assms pm_gaps_sorted [of "t # m"] by auto
  then show ?thesis by (auto simp: pm_cover_def seg_cover_def)
qed

lemma pm_complete:
  assumes "pm_wf f m" and "pm_cover m = {0..<n}" and "0 < n"
  shows "\<exists>p. m = [(0, p)] \<and> pk_wf p \<and> pk_bytes p = map f [0..<n]"
proof -
  obtain s ms where m: "m = s # ms" using assms(2,3) by (cases m) auto
  have ok: "seg_ok f s" using assms(1) m by (simp add: pm_wf_def)
  then have pos: "0 < pk_len (snd s)" by (simp add: seg_ok_def)
  have "keys_sorted m" using assms(1) by (intro pm_gaps_sorted) (simp add: pm_wf_def)
  then have min: "\<forall>u \<in> set ms. fst s < fst u" using m by auto
  have "0 \<in> pm_cover m" using assms(2,3) by simp
  then have s0: "fst s = 0"
    using min m by (fastforce simp: pm_cover_def seg_cover_def)
  have "ms = []"
  proof (rule ccontr)
    assume "ms \<noteq> []"
    then obtain t ts where ms: "ms = t # ts" by (cases ms) auto
    have g: "pm_gaps (s # t # ts)" using assms(1) m ms by (simp add: pm_wf_def)
    have "fst t \<in> pm_cover m"
      using m ms assms(1) by (auto simp: pm_cover_def seg_cover_def pm_wf_def seg_ok_def)
    then have "fst s + pk_len (snd s) \<in> pm_cover m" using g assms(2) by simp
    then show False using pm_gaps_end [OF g] m ms by simp
  qed
  then have c: "{0..<pk_len (snd s)} = {0..<n}" using assms(2) m s0 by (simp add: seg_cover_def)
  then have "pk_len (snd s) = n" using pos by (metis card_atLeastLessThan diff_zero)
  then show ?thesis using ok m \<open>ms = []\<close> s0 by (cases s) (auto simp: seg_ok_def)
qed

end
