(* ===== verification/Ip.thy ===== *)
theory Ip
  imports PacketMerger Checksum "HOL-Library.AList"
begin

text \<open>
  \<open>net/ip.hh\<close>, \<open>net/ip.cc\<close>, with the constants of \<open>net/const.hh\<close> and the hash data of \<open>net/net.hh\<close>:
  sending, fragmentation, receiving and reassembly of IPv4 packets.

  The hash maps and the list of fragment ages are lists.  What lies outside of the layer is the record
  \<open>ip_env\<close> (the packet filter, the hashes of the upper protocols, the cpu of a hash, the clock); what the
  layer does to the outside is a list of events.  \<open>None\<close> is a failed assertion.
\<close>

section \<open>Headers\<close>

record ip_hdr =
  ih_ihl :: "4 word"
  ih_ver :: "4 word"
  ih_dscp :: "6 word"
  ih_ecn :: "2 word"
  ih_len :: "16 word"
  ih_id :: "16 word"
  ih_frag :: "16 word"
  ih_ttl :: "8 word"
  ih_proto :: "8 word"
  ih_csum :: "16 word"
  ih_src :: "32 word"
  ih_dst :: "32 word"

definition ipv4_hdr_len_min :: nat where "ipv4_hdr_len_min = 20"
definition ip_packet_len_max :: nat where "ip_packet_len_max = 65535"
definition eth_hdr_len :: nat where "eth_hdr_len = 14"
definition eth_proto_ipv4 :: "16 word" where "eth_proto_ipv4 = 0x0800"
definition ip_proto_icmp :: "8 word" where "ip_proto_icmp = 1"
definition ip_proto_tcp :: "8 word" where "ip_proto_tcp = 6"
definition ip_proto_udp :: "8 word" where "ip_proto_udp = 17"

text \<open>The object representation of the packed structure; the first of two bit fields has the low bits.\<close>

definition ip_hdr_store :: "ip_hdr \<Rightarrow> byte list" where
  "ip_hdr_store h =
     [ucast (ih_ihl h) OR push_bit 4 (ucast (ih_ver h)), ucast (ih_dscp h) OR push_bit 6 (ucast (ih_ecn h))] @
     unaligned_store (ih_len h) @ unaligned_store (ih_id h) @ unaligned_store (ih_frag h) @
     [ih_ttl h, ih_proto h] @ unaligned_store (ih_csum h) @ unaligned_store (ih_src h) @ unaligned_store (ih_dst h)"

definition ip_hdr_load :: "byte list \<Rightarrow> ip_hdr" where
  "ip_hdr_load b =
     \<lparr>ih_ihl = ucast (b ! 0), ih_ver = ucast (drop_bit 4 (b ! 0)),
      ih_dscp = ucast (b ! 1), ih_ecn = ucast (drop_bit 6 (b ! 1)),
      ih_len = unaligned_load (take 2 (drop 2 b)), ih_id = unaligned_load (take 2 (drop 4 b)),
      ih_frag = unaligned_load (take 2 (drop 6 b)), ih_ttl = b ! 8, ih_proto = b ! 9,
      ih_csum = unaligned_load (take 2 (drop 10 b)), ih_src = unaligned_load (take 4 (drop 12 b)),
      ih_dst = unaligned_load (take 4 (drop 16 b))\<rparr>"

definition ip_hdr_hton :: "ip_hdr \<Rightarrow> ip_hdr" where
  "ip_hdr_hton h = h\<lparr>ih_len := hton (ih_len h), ih_id := hton (ih_id h), ih_frag := hton (ih_frag h),
     ih_csum := hton (ih_csum h), ih_src := hton (ih_src h), ih_dst := hton (ih_dst h)\<rparr>"

definition ip_hdr_ntoh :: "ip_hdr \<Rightarrow> ip_hdr" where
  "ip_hdr_ntoh h = h\<lparr>ih_len := ntoh (ih_len h), ih_id := ntoh (ih_id h), ih_frag := ntoh (ih_frag h),
     ih_csum := ntoh (ih_csum h), ih_src := ntoh (ih_src h), ih_dst := ntoh (ih_dst h)\<rparr>"

definition ih_mf :: "ip_hdr \<Rightarrow> bool" where "ih_mf h \<longleftrightarrow> ih_frag h AND push_bit 13 1 \<noteq> 0"
definition ih_df :: "ip_hdr \<Rightarrow> bool" where "ih_df h \<longleftrightarrow> ih_frag h AND push_bit 14 1 \<noteq> 0"
definition ih_offset :: "ip_hdr \<Rightarrow> 16 word" where "ih_offset h = push_bit 3 (ih_frag h)"

text \<open>The data a forwarding hash is computed of.\<close>

definition fh_push8 :: "byte \<Rightarrow> byte list \<Rightarrow> byte list option" where
  "fh_push8 b fh = (if length fh < 64 then Some (fh @ [b]) else None)"

definition fh_push16 :: "16 word \<Rightarrow> byte list \<Rightarrow> byte list option" where
  "fh_push16 b fh = Option.bind (fh_push8 (ucast b) fh) (fh_push8 (ucast (drop_bit 8 b)))"

definition fh_push32 :: "32 word \<Rightarrow> byte list \<Rightarrow> byte list option" where
  "fh_push32 b fh = Option.bind (fh_push16 (ucast b) fh) (fh_push16 (ucast (drop_bit 16 b)))"

section \<open>State\<close>

type_synonym eth_addr = "byte list"
type_synonym frag_id = "32 word \<times> 32 word \<times> 16 word \<times> 8 word"

record hw_features =
  tx_csum_ip_offload :: bool
  rx_csum_offload :: bool
  tx_tso :: bool
  tx_ufo :: bool
  hw_mtu :: "16 word"

record ip_frag =
  fr_header :: packet
  fr_data :: packet_merger
  fr_rx_time :: int
  fr_mem_size :: "32 word"
  fr_last_received :: bool

record ipv4 =
  ip_host_address :: "32 word"
  ip_gw_address :: "32 word"
  ip_netmask :: "32 word"
  ip_hw :: hw_features
  ip_frags :: "(frag_id \<times> ip_frag) list"
  ip_frags_age :: "frag_id list"
  ip_frag_mem :: "32 word"
  ip_timer_armed :: bool
  ip_packetq :: "(eth_addr \<times> packet) list"
  ip_provider_idx :: nat

datatype ip_event = Arp_learn eth_addr "32 word" | Filter_handled | Received "8 word" packet "32 word" "32 word"
  | Cpu_forward nat packet | Arm_timer int

record ip_env =
  env_filter :: "packet \<Rightarrow> ip_hdr \<Rightarrow> eth_addr \<Rightarrow> (bool \<times> packet \<times> ip_hdr)"
  env_l4_forward :: "8 word \<Rightarrow> byte list \<Rightarrow> packet \<Rightarrow> (bool \<times> byte list \<times> packet)"
  env_rss_key :: "byte list"
  env_hash2cpu :: "32 word \<Rightarrow> nat"
  env_cpu :: nat
  env_hw_address :: eth_addr
  env_now :: int
  env_sizeof_impl :: nat

definition frag_timeout_seconds :: int where "frag_timeout_seconds = 30"
definition frag_low_thresh :: "32 word" where "frag_low_thresh = 3 * 1024 * 1024"
definition frag_high_thresh :: "32 word" where "frag_high_thresh = 4 * 1024 * 1024"

definition ip_has_l4 :: "8 word \<Rightarrow> bool" where
  "ip_has_l4 proto \<longleftrightarrow> proto = ip_proto_tcp \<or> proto = ip_proto_icmp \<or> proto = ip_proto_udp"

definition in_my_netmask :: "ipv4 \<Rightarrow> 32 word \<Rightarrow> bool" where
  "in_my_netmask ip a \<longleftrightarrow> (a XOR ip_host_address ip) AND ip_netmask ip = 0"

definition needs_frag :: "packet \<Rightarrow> 8 word \<Rightarrow> hw_features \<Rightarrow> bool" where
  "needs_frag p prot_num hw =
     (if pk_len p + ipv4_hdr_len_min \<le> unat (hw_mtu hw) then False
      else if (prot_num = ip_proto_tcp \<and> tx_tso hw) \<or> (prot_num = ip_proto_udp \<and> tx_ufo hw) then False
      else True)"

definition l2_dst_ip :: "ipv4 \<Rightarrow> 32 word \<Rightarrow> 32 word" where
  "l2_dst_ip ip dst = (if in_my_netmask ip dst then dst else ip_gw_address ip)"

section \<open>Sending\<close>

definition send_hdr :: "ipv4 \<Rightarrow> 32 word \<Rightarrow> 8 word \<Rightarrow> bool \<Rightarrow> nat \<Rightarrow> nat \<Rightarrow> nat \<Rightarrow> ip_hdr" where
  "send_hdr ip dst proto_num frag len remaining offset =
     \<lparr>ih_ihl = 5, ih_ver = 4, ih_dscp = 0, ih_ecn = 0, ih_len = of_nat len, ih_id = 0,
      ih_frag = (if frag then push_bit 13 (if 0 < remaining then 1 else 0) OR of_nat (offset div 8) else 0),
      ih_ttl = 64, ih_proto = proto_num, ih_csum = 0, ih_src = ip_host_address ip, ih_dst = dst\<rparr>"

definition send_pkt :: "32 word \<Rightarrow> 8 word \<Rightarrow> bool \<Rightarrow> eth_addr \<Rightarrow> packet \<Rightarrow> nat \<Rightarrow> nat \<Rightarrow> ipv4 \<Rightarrow> ipv4 option" where
  "send_pkt dst proto_num frag e_dst pkt remaining offset ip =
     (let raw = ip_hdr_store (ip_hdr_hton (send_hdr ip dst proto_num frag (pk_len pkt + 20) remaining offset))
      in if tx_csum_ip_offload (ip_hw ip) then
           map_option (\<lambda>q. ip\<lparr>ip_packetq := ip_packetq ip @ [(e_dst, q\<lparr>pk_offload := (pk_offload q)\<lparr>needs_ip_csum := True\<rparr>\<rparr>)]\<rparr>)
             (prepend_header raw pkt)
         else
           Option.bind (ip_checksum raw) (\<lambda>csum.
             map_option (\<lambda>q. ip\<lparr>ip_packetq := ip_packetq ip @ [(e_dst, q)]\<rparr>)
               (prepend_header (put_bytes 10 (unaligned_store csum) raw) pkt)))"

text \<open>The loop over the fragments.  With an MTU of 20 the fragments are empty and it does not end.\<close>

function send_loop :: "32 word \<Rightarrow> 8 word \<Rightarrow> eth_addr \<Rightarrow> nat \<Rightarrow> packet \<Rightarrow> nat \<Rightarrow> nat \<Rightarrow> ipv4 \<Rightarrow> ipv4 option" where
  "send_loop dst proto_num e_dst chunk p remaining offset ip =
     (if remaining = 0 then Some ip
      else
        let can_send = min chunk remaining
        in if can_send = 0 then None
           else
             Option.bind (pk_share offset can_send p) (\<lambda>(pkt, p).
               Option.bind (send_pkt dst proto_num True e_dst pkt (remaining - can_send) offset ip) (\<lambda>ip.
                 send_loop dst proto_num e_dst chunk p (remaining - can_send) (offset + can_send) ip)))"
  by pat_completeness auto
termination by (relation "measure (\<lambda>(dst, proto_num, e_dst, chunk, p, remaining, offset, ip). remaining)") auto

declare send_loop.simps [simp del]

definition ip_send :: "32 word \<Rightarrow> 8 word \<Rightarrow> packet \<Rightarrow> eth_addr \<Rightarrow> ipv4 \<Rightarrow> ipv4 option" where
  "ip_send dst proto_num p e_dst ip =
     (if needs_frag p proto_num (ip_hw ip) then
        send_loop dst proto_num e_dst (unat (hw_mtu (ip_hw ip) - of_nat ipv4_hdr_len_min)) p
          (unat (of_nat (pk_len p) :: 16 word)) 0 ip
      else send_pkt dst proto_num False e_dst p 0 0 ip)"

text \<open>The next packet to transmit.  When the queue is empty the packet providers, \<open>n\<close> functions outside of
  this layer, are asked in turn; each is called at most once, so what they would answer is a parameter.\<close>

fun ask_providers :: "nat \<Rightarrow> nat \<Rightarrow> (nat \<Rightarrow> (32 word \<times> 8 word \<times> packet \<times> eth_addr) option) \<Rightarrow> ipv4 \<Rightarrow> ipv4 option" where
  "ask_providers 0 n answer ip = Some ip"
| "ask_providers (Suc k) n answer ip =
     (let i = ip_provider_idx ip;
          ip = ip\<lparr>ip_provider_idx := if i + 1 = n then 0 else i + 1\<rparr>
      in case answer i of
           Some (dst, proto_num, p, e_dst) \<Rightarrow> ip_send dst proto_num p e_dst ip
         | None \<Rightarrow> ask_providers k n answer ip)"

definition get_packet :: "nat \<Rightarrow> (nat \<Rightarrow> (32 word \<times> 8 word \<times> packet \<times> eth_addr) option) \<Rightarrow> ipv4 \<Rightarrow>
    ((eth_addr \<times> packet) option \<times> ipv4) option" where
  "get_packet n answer ip =
     map_option (\<lambda>ip. case ip_packetq ip of [] \<Rightarrow> (None, ip) | x # q \<Rightarrow> (Some x, ip\<lparr>ip_packetq := q\<rparr>))
       (if ip_packetq ip = [] then ask_providers n n answer ip else Some ip)"

definition set_host_address :: "32 word \<Rightarrow> ipv4 \<Rightarrow> ipv4" where "set_host_address a ip = ip\<lparr>ip_host_address := a\<rparr>"
definition set_gw_address :: "32 word \<Rightarrow> ipv4 \<Rightarrow> ipv4" where "set_gw_address a ip = ip\<lparr>ip_gw_address := a\<rparr>"
definition set_netmask_address :: "32 word \<Rightarrow> ipv4 \<Rightarrow> ipv4" where "set_netmask_address a ip = ip\<lparr>ip_netmask := a\<rparr>"

section \<open>Fragments\<close>

definition frag_new :: ip_frag where
  "frag_new = \<lparr>fr_header = impl_new default_nr_frags, fr_data = \<lparr>pm_map = [], pm_linearizations = 0\<rparr>,
     fr_rx_time = 0, fr_mem_size = 0, fr_last_received = False\<rparr>"

definition frag_get :: "frag_id \<Rightarrow> (frag_id \<times> ip_frag) list \<Rightarrow> ip_frag" where
  "frag_get i frags = (case map_of frags i of None \<Rightarrow> frag_new | Some f \<Rightarrow> f)"

definition frag_memory :: "nat \<Rightarrow> ip_frag \<Rightarrow> 32 word" where
  "frag_memory sizeof_impl f =
     of_nat (pk_memory sizeof_impl (fr_header f)) +
     sum_list (map (\<lambda>(k, p). of_nat (pk_memory sizeof_impl p)) (pm_map (fr_data f)))"

definition frag_merge :: "nat \<Rightarrow> ip_hdr \<Rightarrow> nat \<Rightarrow> packet \<Rightarrow> ip_frag \<Rightarrow> (32 word \<times> ip_frag) option" where
  "frag_merge sizeof_impl h offset p f =
     (let hdr_len = unat (ih_ihl h) * 4
      in Option.bind (if offset = 0 then map_option (\<lambda>(hd, p). (p, f\<lparr>fr_header := hd\<rparr>)) (pk_share 0 hdr_len p)
                      else Some (p, f)) (\<lambda>(p, f).
         Option.bind (pk_trim_front hdr_len p) (\<lambda>p.
           Option.bind (pm_merge offset p (fr_data f)) (\<lambda>pm.
             let f1 = f\<lparr>fr_data := pm\<rparr>;
                 mem = frag_memory sizeof_impl f1
             in Some (mem - fr_mem_size f, f1\<lparr>fr_mem_size := mem\<rparr>)))))"

definition frag_is_complete :: "ip_frag \<Rightarrow> bool" where
  "frag_is_complete f =
     (case pm_map (fr_data f) of [] \<Rightarrow> False
      | (offset, p) # m \<Rightarrow> fr_last_received f \<and> length ((offset, p) # m) = 1 \<and> offset = 0)"

definition eth_header :: "eth_addr \<Rightarrow> eth_addr \<Rightarrow> byte list" where
  "eth_header from dest = dest @ from @ unaligned_store (hton eth_proto_ipv4)"

definition get_assembled_packet :: "eth_addr \<Rightarrow> eth_addr \<Rightarrow> ip_frag \<Rightarrow> packet option" where
  "get_assembled_packet from dest f =
     (case pm_map (fr_data f) of [] \<Rightarrow> None
      | (k, ip_data) # m \<Rightarrow>
         Option.bind (prepend_header (eth_header from dest) (fr_header f)) (\<lambda>hdr.
           Option.bind (pk_append hdr ip_data) (\<lambda>pkt.
             Option.bind (pk_get_header eth_hdr_len 20 pkt) (\<lambda>(pos, pkt).
               case pos of None \<Rightarrow> None
               | Some (i, off) \<Rightarrow>
                   let pkt = write_frag i (off + 2) (unaligned_store (hton (of_nat (pk_len pkt - eth_hdr_len) :: 16 word))) pkt;
                       pkt = write_frag i (off + 6) [0, 0] pkt
                   in Some (pkt\<lparr>pk_offload := offload_new\<lparr>reassembled := True\<rparr>\<rparr>)))))"

definition frag_drop :: "frag_id \<Rightarrow> 32 word \<Rightarrow> ipv4 \<Rightarrow> ipv4" where
  "frag_drop i dropped_size ip =
     ip\<lparr>ip_frags := AList.delete i (ip_frags ip), ip_frag_mem := ip_frag_mem ip - dropped_size\<rparr>"

fun limit_loop :: "32 word \<Rightarrow> frag_id list \<Rightarrow> ipv4 \<Rightarrow> ipv4" where
  "limit_loop drp [] ip = ip\<lparr>ip_frags_age := []\<rparr>"
| "limit_loop drp (i # age) ip =
     (if drp = 0 then ip\<lparr>ip_frags_age := i # age\<rparr>
      else
        let dropped_size = fr_mem_size (frag_get i (ip_frags ip))
        in limit_loop (drp - min drp dropped_size) age (frag_drop i dropped_size ip))"

definition frag_limit_mem :: "ipv4 \<Rightarrow> ipv4" where
  "frag_limit_mem ip =
     (if ip_frag_mem ip \<le> frag_high_thresh then ip
      else limit_loop (ip_frag_mem ip - frag_low_thresh) (ip_frags_age ip) ip)"

fun timeout_loop :: "int \<Rightarrow> frag_id list \<Rightarrow> ipv4 \<Rightarrow> ipv4" where
  "timeout_loop now [] ip = ip\<lparr>ip_frags_age := []\<rparr>"
| "timeout_loop now (i # age) ip =
     (let f = frag_get i (ip_frags ip)
      in if fr_rx_time f + frag_timeout_seconds < now
         then timeout_loop now age (frag_drop i (fr_mem_size f) ip)
         else ip\<lparr>ip_frags_age := i # age\<rparr>)"

text \<open>The callback of the timer, which is no longer armed when it runs.\<close>

definition ip_frag_timeout :: "int \<Rightarrow> ipv4 \<Rightarrow> ip_event list \<times> ipv4" where
  "ip_frag_timeout now ip =
     (let ip = ip\<lparr>ip_timer_armed := False\<rparr> in
      if ip_frags ip = [] then ([], ip)
      else
        let ip = timeout_loop now (ip_frags_age ip) ip
        in if ip_frags ip \<noteq> [] then ([Arm_timer (now + frag_timeout_seconds)], ip\<lparr>ip_timer_armed := True\<rparr>)
           else ([], ip\<lparr>ip_frag_mem := 0\<rparr>))"

section \<open>Receiving\<close>

text \<open>A fragmented datagram: it is merged, and passed on when it is complete.\<close>

definition deliver_assembled :: "ip_env \<Rightarrow> ip_hdr \<Rightarrow> eth_addr \<Rightarrow> ip_frag \<Rightarrow> ip_event list option" where
  "deliver_assembled env h from f =
     (case pm_map (fr_data f) of [] \<Rightarrow> None
      | (k, ip_data) # m \<Rightarrow>
        if \<not> ip_has_l4 (ih_proto h) then Some []
        else
          Option.bind (fh_push32 (hton (ih_src h)) []) (\<lambda>fh.
          Option.bind (fh_push32 (hton (ih_dst h)) fh) (\<lambda>fh.
            let (forwarded, fh, ip_data) = env_l4_forward env (ih_proto h) fh ip_data
            in if \<not> forwarded then Some []
               else Option.bind (toeplitz_hash (env_rss_key env) fh) (\<lambda>hash.
                 if env_hash2cpu env hash = env_cpu env
                 then Some [Received (ih_proto h) ip_data (ih_src h) (ih_dst h)]
                 else map_option (\<lambda>pkt. [Cpu_forward (env_hash2cpu env hash) pkt])
                        (get_assembled_packet from (env_hw_address env)
                          (f\<lparr>fr_data := (fr_data f)\<lparr>pm_map := (k, ip_data) # m\<rparr>\<rparr>))))))"

definition receive_fragment :: "ip_env \<Rightarrow> ip_hdr \<Rightarrow> eth_addr \<Rightarrow> packet \<Rightarrow> ipv4 \<Rightarrow> (ip_event list \<times> ipv4) option" where
  "receive_fragment env h from p ip0 =
     (let ip = frag_limit_mem ip0;
          i = (ih_src h, ih_dst h, ih_id h, ih_proto h);
          f = frag_get i (ip_frags ip);
          f = (if ih_mf h then f else f\<lparr>fr_last_received := True\<rparr>);
          is_new = (fr_mem_size f = 0);
          f = (if is_new then f\<lparr>fr_rx_time := env_now env\<rparr> else f);
          age = (if is_new then ip_frags_age ip @ [i] else ip_frags_age ip)
      in Option.bind (frag_merge (env_sizeof_impl env) h (unat (ih_offset h)) p f) (\<lambda>(added_size, f).
           let ip = ip\<lparr>ip_frags := AList.update i f (ip_frags ip), ip_frags_age := age,
                       ip_frag_mem := ip_frag_mem ip + added_size\<rparr>
           in if frag_is_complete f
              then map_option (\<lambda>ev.
                     let ip = frag_drop i (fr_mem_size f) ip
                     in (ev, ip\<lparr>ip_frags_age := filter (\<lambda>j. j \<noteq> i) (ip_frags_age ip)\<rparr>))
                     (deliver_assembled env h from f)
              else if \<not> ip_timer_armed ip
                   then Some ([Arm_timer (env_now env + frag_timeout_seconds)], ip\<lparr>ip_timer_armed := True\<rparr>)
                   else Some ([], ip)))"

definition handle_received_packet :: "ip_env \<Rightarrow> packet \<Rightarrow> eth_addr \<Rightarrow> ipv4 \<Rightarrow> (ip_event list \<times> ipv4) option" where
  "handle_received_packet env p from ip =
     Option.bind (pk_get_header 0 20 p) (\<lambda>(pos, p).
       case pos of None \<Rightarrow> Some ([], ip)
       | Some (i, off) \<Rightarrow>
         let raw = take 20 (drop off (frag_bytes (pk_data p) (pk_frags p ! i)))
         in if \<not> rx_csum_offload (ip_hw ip) \<and> \<not> reassembled (pk_offload p) \<and> ip_checksum raw \<noteq> Some 0 then Some ([], ip)
            else
              let h = ip_hdr_ntoh (ip_hdr_load raw);
                  ip_len = unat (ih_len h);
                  hdr_len = unat (ih_ihl h) * 4;
                  offset = unat (ih_offset h)
              in if pk_len p < ip_len then Some ([], ip)
                 else
                   Option.bind (if ip_len < pk_len p then pk_trim_back (pk_len p - ip_len) p else Some p) (\<lambda>p.
                     if ip_packet_len_max < offset + pk_len p then Some ([], ip)
                     else
                       let learn = (if in_my_netmask ip (ih_src h) \<and> ih_src h \<noteq> ip_host_address ip
                                    then [Arp_learn from (ih_src h)] else []);
                           (handled, p, h) = env_filter env p h from
                       in if handled then Some (learn @ [Filter_handled], ip)
                          else if ih_dst h \<noteq> ip_host_address ip then Some (learn, ip)
                          else if ih_mf h \<or> offset \<noteq> 0
                               then map_option (\<lambda>(ev, ip). (learn @ ev, ip)) (receive_fragment env h from p ip)
                               else if ip_has_l4 (ih_proto h)
                                    then map_option (\<lambda>p. (learn @ [Received (ih_proto h) p (ih_src h) (ih_dst h)], ip))
                                           (pk_trim_front hdr_len p)
                                    else Some (learn, ip)))"

text \<open>ICMP: an echo request is turned into its reply in place.  The checksum is taken over \<open>len()\<close> bytes
  from the pointer to the header, which are outside of the first fragment when there are others.\<close>

definition icmp_received :: "packet \<Rightarrow> packet option option" where
  "icmp_received p =
     (case pk_get_header 0 8 p of
        None \<Rightarrow> None
      | Some (None, p) \<Rightarrow> Some None
      | Some (Some (i, off), p) \<Rightarrow>
          let raw = drop off (frag_bytes (pk_data p) (pk_frags p ! i))
          in if raw ! 0 \<noteq> 8 then Some None
             else if length raw < pk_len p then None
             else
               let reply = [0, 0, 0, 0] @ drop 4 raw
               in map_option (\<lambda>csum. Some (write_frag i off (put_bytes 2 (unaligned_store csum) (take 4 reply)) p))
                    (ip_checksum (take (pk_len p) reply)))"

section \<open>Headers on the wire\<close>

lemma length_ip_hdr_store [simp]: "length (ip_hdr_store h) = 20"
  by (simp add: ip_hdr_store_def)

lemma load_store16: "unaligned_load (unaligned_store (w :: 16 word)) = w"
  by (rule load_store) simp

lemma load_store32: "unaligned_load (unaligned_store (w :: 32 word)) = w"
  by (rule load_store) simp

lemma nibbles:
  fixes x y :: "4 word"
  shows "(ucast (ucast x OR push_bit 4 (ucast y) :: 8 word) :: 4 word) = x"
    and "(ucast (drop_bit 4 (ucast x OR push_bit 4 (ucast y) :: 8 word)) :: 4 word) = y"
proof -
  have "bit (ucast (drop_bit 4 (ucast x OR push_bit 4 (ucast y) :: 8 word)) :: 4 word) n = bit y n"
    if "n < LENGTH(4)" for n
    using that bit_imp_le_length [of x "4 + n"]
    by (auto simp only: bit_ucast_iff bit_drop_bit_eq bit_or_iff bit_push_bit_iff comp_def possible_bit_word) auto
  then show "(ucast (drop_bit 4 (ucast x OR push_bit 4 (ucast y) :: 8 word)) :: 4 word) = y" by (rule bit_word_eqI)
qed (rule bit_word_eqI; auto simp: bit_simps; fail)

lemma bits_6_2:
  fixes x :: "6 word" and y :: "2 word"
  shows "(ucast (ucast x OR push_bit 6 (ucast y) :: 8 word) :: 6 word) = x"
    and "(ucast (drop_bit 6 (ucast x OR push_bit 6 (ucast y) :: 8 word)) :: 2 word) = y"
proof -
  have "bit (ucast (drop_bit 6 (ucast x OR push_bit 6 (ucast y) :: 8 word)) :: 2 word) n = bit y n"
    if "n < LENGTH(2)" for n
    using that bit_imp_le_length [of x "6 + n"]
    by (auto simp only: bit_ucast_iff bit_drop_bit_eq bit_or_iff bit_push_bit_iff comp_def possible_bit_word) auto
  then show "(ucast (drop_bit 6 (ucast x OR push_bit 6 (ucast y) :: 8 word)) :: 2 word) = y" by (rule bit_word_eqI)
qed (rule bit_word_eqI; auto simp: bit_simps; fail)

lemma store16: obtains a b where "unaligned_store (w :: 16 word) = [a, b]"
proof -
  have "length (unaligned_store w) = Suc (Suc 0)" by simp
  then show ?thesis using that unfolding length_Suc_conv length_0_conv by blast
qed

lemma store32: obtains a b c d where "unaligned_store (w :: 32 word) = [a, b, c, d]"
proof -
  have "length (unaligned_store w) = Suc (Suc (Suc (Suc 0)))" by simp
  then show ?thesis using that unfolding length_Suc_conv length_0_conv by blast
qed

lemma ip_hdr_load_store: "ip_hdr_load (ip_hdr_store h) = h"
proof -
  obtain l1 l2 where l: "unaligned_store (ih_len h) = [l1, l2]" by (rule store16)
  obtain i1 i2 where i: "unaligned_store (ih_id h) = [i1, i2]" by (rule store16)
  obtain f1 f2 where f: "unaligned_store (ih_frag h) = [f1, f2]" by (rule store16)
  obtain c1 c2 where c: "unaligned_store (ih_csum h) = [c1, c2]" by (rule store16)
  obtain s1 s2 s3 s4 where s: "unaligned_store (ih_src h) = [s1, s2, s3, s4]" by (rule store32)
  obtain d1 d2 d3 d4 where d: "unaligned_store (ih_dst h) = [d1, d2, d3, d4]" by (rule store32)
  let ?x = "ucast (ih_ihl h) OR push_bit 4 (ucast (ih_ver h)) :: 8 word"
  let ?y = "ucast (ih_dscp h) OR push_bit 6 (ucast (ih_ecn h)) :: 8 word"
  obtain b0 where b0: "?x = b0" "ucast b0 = ih_ihl h" "ucast (drop_bit 4 b0) = ih_ver h" using nibbles by blast
  obtain b1 where b1: "?y = b1" "ucast b1 = ih_dscp h" "ucast (drop_bit 6 b1) = ih_ecn h" using bits_6_2 by blast
  have st: "ip_hdr_store h = [b0, b1, l1, l2, i1, i2, f1, f2, ih_ttl h, ih_proto h, c1, c2, s1, s2, s3, s4, d1, d2, d3, d4]"
    unfolding ip_hdr_store_def l i f c s d b0(1) b1(1) by (simp only: append.simps)
  have ld: "unaligned_load [l1, l2] = ih_len h" "unaligned_load [i1, i2] = ih_id h" "unaligned_load [f1, f2] = ih_frag h"
    "unaligned_load [c1, c2] = ih_csum h" "unaligned_load [s1, s2, s3, s4] = ih_src h" "unaligned_load [d1, d2, d3, d4] = ih_dst h"
    using load_store16 load_store32 by (simp_all only: l [symmetric] i [symmetric] f [symmetric] c [symmetric] s [symmetric] d [symmetric])
  show ?thesis unfolding st ip_hdr_load_def
    by (simp add: ld b0 b1)
qed

lemma ntoh_hton: "8 dvd LENGTH('a::len) \<Longrightarrow> ntoh (hton (w :: 'a word)) = w"
  by (simp add: ntoh_def hton_def bswap_bswap)

lemma ip_hdr_ntoh_hton: "ip_hdr_ntoh (ip_hdr_hton h) = h"
  by (simp add: ip_hdr_ntoh_def ip_hdr_hton_def ntoh_hton)

text \<open>Two bit fields of one byte, the first in the low bits.\<close>

lemma unat_bit_fields:
  fixes lo :: "'a::len word" and hi :: "'b::len word"
  assumes "LENGTH('a) = k" and "LENGTH('b) + k = 8"
  shows "unat (ucast lo OR push_bit k (ucast hi) :: 8 word) = unat lo + 2 ^ k * unat hi"
proof -
  have b: "unat lo < 2 ^ k" "unat hi < 2 ^ LENGTH('b)" using unat_less_exp [of lo] unat_less_exp [of hi] assms(1) by simp_all
  have "2 ^ k * unat hi < 2 ^ k * 2 ^ LENGTH('b)" using b(2) by simp
  then have lt: "2 ^ k * unat hi < 2 ^ 8" unfolding power_add [symmetric] using assms(2) by (simp add: add.commute)
  have "(2::nat) ^ k \<le> 2 ^ 8" "(2::nat) ^ LENGTH('b) \<le> 2 ^ 8" using assms(2) by (intro power_increasing; simp)+
  then have "unat lo < 2 ^ 8" "unat hi < 2 ^ 8" using b by linarith+
  then have c: "unat (ucast lo :: 8 word) = unat lo" "unat (ucast hi :: 8 word) = unat hi"
    by (simp_all add: unsigned_ucast_eq take_bit_nat_eq_self)
  have d: "unat (push_bit k (ucast hi) :: 8 word) = push_bit k (unat hi)"
    using lt by (simp only: unsigned_push_bit_eq c(2)) (simp add: take_bit_nat_eq_self push_bit_eq_mult mult.commute)
  have "take_bit k (unat lo) = unat lo" using b(1) by (simp add: take_bit_nat_eq_self)
  then have "\<not> bit (unat lo) n" if "k \<le> n" for n using that by (metis bit_take_bit_iff leD)
  then have "unat lo OR push_bit k (unat hi) = unat lo + push_bit k (unat hi)"
    by (intro disjunctive_add_eq_or [symmetric] bit_eqI) (auto simp: bit_simps)
  then show ?thesis by (simp only: unsigned_or_eq c(1) d) (simp add: push_bit_eq_mult mult.commute)
qed
lemma ip_hdr_layout:
  assumes "b = ip_hdr_store (ip_hdr_hton h)"
  shows "unat (b ! 0) = unat (ih_ihl h) + 16 * unat (ih_ver h) \<and> unat (b ! 1) = unat (ih_dscp h) + 64 * unat (ih_ecn h) \<and>
     be_value (take 2 (drop 2 b)) = unat (ih_len h) \<and> be_value (take 2 (drop 4 b)) = unat (ih_id h) \<and>
     be_value (take 2 (drop 6 b)) = unat (ih_frag h) \<and> b ! 8 = ih_ttl h \<and> b ! 9 = ih_proto h \<and>
     be_value (take 2 (drop 10 b)) = unat (ih_csum h) \<and> be_value (take 4 (drop 12 b)) = unat (ih_src h) \<and>
     be_value (take 4 (drop 16 b)) = unat (ih_dst h)"
proof -
  let ?s = "\<lambda>w :: 16 word. unaligned_store (hton w)" and ?l = "\<lambda>w :: 32 word. unaligned_store (hton w)"
  let ?p = "[ucast (ih_ihl h) OR push_bit 4 (ucast (ih_ver h)), ucast (ih_dscp h) OR push_bit 6 (ucast (ih_ecn h))] :: byte list"
  have b: "b = ?p @ ?s (ih_len h) @ ?s (ih_id h) @ ?s (ih_frag h) @ [ih_ttl h, ih_proto h] @ ?s (ih_csum h) @
      ?l (ih_src h) @ ?l (ih_dst h)"
    by (simp add: assms ip_hdr_store_def ip_hdr_hton_def)
  have "take 2 (drop 2 b) = ?s (ih_len h)" "take 2 (drop 4 b) = ?s (ih_id h)" "take 2 (drop 6 b) = ?s (ih_frag h)"
    "b ! 8 = ih_ttl h" "b ! 9 = ih_proto h" "take 2 (drop 10 b) = ?s (ih_csum h)"
    "take 4 (drop 12 b) = ?l (ih_src h)" "take 4 (drop 16 b) = ?l (ih_dst h)" "b ! 0 = ?p ! 0" "b ! 1 = ?p ! 1"
    unfolding b by (simp_all add: nth_append)
  moreover have "unat (?p ! 0) = unat (ih_ihl h) + 16 * unat (ih_ver h)" "unat (?p ! 1) = unat (ih_dscp h) + 64 * unat (ih_ecn h)"
    using unat_bit_fields [where k = 4 and lo = "ih_ihl h" and hi = "ih_ver h"] unat_bit_fields [where k = 6 and lo = "ih_dscp h" and hi = "ih_ecn h"] by simp_all
  ultimately show ?thesis by (simp only: be_value_store_hton) (simp add: be_value_store_hton)
qed
text \<open>
  C26. An IPv4 header is written to memory as the 20 bytes of the wire format: the version above the header length in the
  first byte, the total length at 2, the identification at 4, the flags with the fragment offset at 6, the time to
  live at 8, the protocol at 9, the checksum at 10, the source address at 12 and the destination at 16, each number of
  several bytes with the most significant one first.  (\<open>ecn\<close> has the two high bits of the second byte and \<open>dscp\<close> the
  low ones, as the bit fields are declared.)  Read back, the bytes give the same header.
\<close>

theorem ip_hdr_roundtrip:
  "let b = ip_hdr_store (ip_hdr_hton h) in
     length b = 20 \<and>
     unat (b ! 0) = unat (ih_ihl h) + 16 * unat (ih_ver h) \<and> unat (b ! 1) = unat (ih_dscp h) + 64 * unat (ih_ecn h) \<and>
     be_value (take 2 (drop 2 b)) = unat (ih_len h) \<and> be_value (take 2 (drop 4 b)) = unat (ih_id h) \<and>
     be_value (take 2 (drop 6 b)) = unat (ih_frag h) \<and> b ! 8 = ih_ttl h \<and> b ! 9 = ih_proto h \<and>
     be_value (take 2 (drop 10 b)) = unat (ih_csum h) \<and> be_value (take 4 (drop 12 b)) = unat (ih_src h) \<and>
     be_value (take 4 (drop 16 b)) = unat (ih_dst h) \<and>
     ip_hdr_ntoh (ip_hdr_load b) = h"
  unfolding Let_def using ip_hdr_layout [OF refl, of h]
  by (simp only: length_ip_hdr_store ip_hdr_load_store ip_hdr_ntoh_hton simp_thms)

text \<open>Storing a checksum in the field of a header.\<close>

lemma ip_hdr_store_csum:
  "put_bytes 10 (unaligned_store c) (ip_hdr_store h) = ip_hdr_store (h\<lparr>ih_csum := c\<rparr>)"
proof -
  obtain l1 l2 where l: "unaligned_store (ih_len h) = [l1, l2]" by (rule store16)
  obtain i1 i2 where i: "unaligned_store (ih_id h) = [i1, i2]" by (rule store16)
  obtain f1 f2 where f: "unaligned_store (ih_frag h) = [f1, f2]" by (rule store16)
  obtain c1 c2 where c: "unaligned_store (ih_csum h) = [c1, c2]" by (rule store16)
  obtain n1 n2 where n: "unaligned_store c = [n1, n2]" by (rule store16)
  show ?thesis unfolding ip_hdr_store_def put_bytes_def by (simp add: l i f c n)
qed

lemma ip_hdr_split:
  "\<exists>a b. ip_hdr_store h = a @ unaligned_store (ih_csum h) @ b \<and> length a = 10 \<and> length b = 8 \<and>
     (\<forall>c. ip_hdr_store (h\<lparr>ih_csum := c\<rparr>) = a @ unaligned_store c @ b)"
proof -
  let ?a = "[ucast (ih_ihl h) OR push_bit 4 (ucast (ih_ver h)), ucast (ih_dscp h) OR push_bit 6 (ucast (ih_ecn h))] @
     unaligned_store (ih_len h) @ unaligned_store (ih_id h) @ unaligned_store (ih_frag h) @ [ih_ttl h, ih_proto h]"
  let ?b = "unaligned_store (ih_src h) @ unaligned_store (ih_dst h)"
  show ?thesis by (intro exI [of _ ?a] exI [of _ ?b]) (simp add: ip_hdr_store_def)
qed

lemma zero_store16: "unaligned_store (0 :: 16 word) = [0, 0]"
  by (simp add: unaligned_store_def numeral_2_eq_2)

lemma ip_checksum_some: "ip_checksum bs \<noteq> None"
  using cs_sum_same [of cs_new bs] by (auto simp: ip_checksum_def cs_new_def)

text \<open>The header that is sent with its checksum is accepted.\<close>

lemma ip_hdr_checksum:
  assumes "ih_csum h = 0"
  shows "\<exists>c. ip_checksum (ip_hdr_store h) = Some c \<and>
    ip_checksum (put_bytes 10 (unaligned_store c) (ip_hdr_store h)) = Some 0 \<and>
    ip_hdr_load (put_bytes 10 (unaligned_store c) (ip_hdr_store h)) = h\<lparr>ih_csum := c\<rparr>"
proof -
  obtain a b where ab: "ip_hdr_store h = a @ unaligned_store (ih_csum h) @ b" "length a = 10" "length b = 8"
    "\<And>c. ip_hdr_store (h\<lparr>ih_csum := c\<rparr>) = a @ unaligned_store c @ b"
    using ip_hdr_split [of h] by blast
  obtain c where c: "ip_checksum (ip_hdr_store h) = Some c" using ip_checksum_some [of "ip_hdr_store h"] by auto
  then have "ip_checksum (a @ [0, 0] @ b) = Some c" using ab(1) assms zero_store16 by simp
  then have "ip_checksum (a @ unaligned_store c @ b) = Some 0"
    using ab(2,3) by (intro stored_checksum_verifies) simp_all
  then have "ip_checksum (put_bytes 10 (unaligned_store c) (ip_hdr_store h)) = Some 0"
    unfolding ip_hdr_store_csum ab(4) .
  moreover have "ip_hdr_load (put_bytes 10 (unaligned_store c) (ip_hdr_store h)) = h\<lparr>ih_csum := c\<rparr>"
    by (simp only: ip_hdr_store_csum ip_hdr_load_store)
  ultimately show ?thesis using c by blast
qed

end
