(* ===== verification/IpReassembly.thy ===== *)
theory IpReassembly
  imports Ip "HOL-Library.Multiset"
begin

text \<open>
  What the IPv4 layer of one machine sends, the IPv4 layer of another one receives: fragmentation by
  \<open>ipv4::send\<close> composed with reassembly by \<open>ipv4::handle_received_packet\<close>, over a network that may
  reorder the fragments.
\<close>

section \<open>What is sent\<close>

text \<open>The fragments of a payload: offset, length, and how many bytes remain after it.\<close>

function frag_ranges :: "nat \<Rightarrow> nat \<Rightarrow> nat \<Rightarrow> (nat \<times> nat \<times> nat) list" where
  "frag_ranges chunk offset remaining =
     (if remaining = 0 \<or> chunk = 0 then []
      else (offset, min chunk remaining, remaining - min chunk remaining) #
           frag_ranges chunk (offset + min chunk remaining) (remaining - min chunk remaining))"
  by pat_completeness auto
termination by (relation "measure (\<lambda>(chunk, offset, remaining). remaining)") auto

declare frag_ranges.simps [simp del]

lemma frag_ranges_props:
  assumes "(o', l, r) \<in> set (frag_ranges chunk offset remaining)"
  shows "0 < l \<and> offset \<le> o' \<and> o' + l + r = offset + remaining \<and> l \<le> chunk"
  using assms
proof (induction chunk offset remaining rule: frag_ranges.induct)
  case (1 chunk offset remaining)
  show ?case
  proof (cases "remaining = 0 \<or> chunk = 0")
    case True
    then show ?thesis using 1(2) by (simp add: frag_ranges.simps [of chunk offset remaining])
  next
    case False
    then consider "(o', l, r) = (offset, min chunk remaining, remaining - min chunk remaining)"
      | "(o', l, r) \<in> set (frag_ranges chunk (offset + min chunk remaining) (remaining - min chunk remaining))"
      using 1(2) by (auto simp: frag_ranges.simps [of chunk offset remaining])
    then show ?thesis
    proof cases
      case 1
      then show ?thesis using False by auto
    next
      case 2
      from "1.IH" [OF False 2] show ?thesis by auto
    qed
  qed
qed

lemma frag_ranges_0 [simp]: "frag_ranges chunk offset 0 = []"
  by (simp add: frag_ranges.simps)

lemma frag_ranges_aligned:
  assumes "(o', l, r) \<in> set (frag_ranges chunk offset remaining)" and "8 dvd chunk" and "8 dvd offset"
  shows "8 dvd o'"
  using assms
proof (induction chunk offset remaining rule: frag_ranges.induct)
  case (1 chunk offset remaining)
  have ne: "\<not> (remaining = 0 \<or> chunk = 0)"
    using 1(2) by (auto simp: frag_ranges.simps [of chunk offset remaining] split: if_splits)
  show ?case
  proof (cases "(o', l, r) \<in> set (frag_ranges chunk (offset + min chunk remaining) (remaining - min chunk remaining))")
    case rest: True
    show ?thesis
    proof (cases "chunk \<le> remaining")
      case True
      then have "8 dvd offset + min chunk remaining" using dvd_add [OF 1(4) 1(3)] by (simp add: min_def)
      with "1.IH" [OF ne rest 1(3)] show ?thesis by blast
    next
      case False
      then show ?thesis using rest by simp
    qed
  next
    case False
    then show ?thesis using 1(2,4) ne by (simp add: frag_ranges.simps [of chunk offset remaining])
  qed
qed

definition range_of :: "nat \<times> nat \<times> nat \<Rightarrow> nat set" where
  "range_of t = {fst t..<fst t + fst (snd t)}"

lemma frag_ranges_cover:
  assumes "0 < chunk"
  shows "(\<Union>t \<in> set (frag_ranges chunk offset remaining). range_of t) = {offset..<offset + remaining}"
  using assms
proof (induction chunk offset remaining rule: frag_ranges.induct)
  case (1 chunk offset remaining)
  show ?case
  proof (cases "remaining = 0 \<or> chunk = 0")
    case True
    then show ?thesis using 1(2) by auto
  next
    case False
    then show ?thesis using "1.IH" [OF False] 1(2)
      by (auto simp: range_of_def frag_ranges.simps [of chunk offset remaining])
  qed
qed

lemma frag_ranges_disjoint:
  "distinct (frag_ranges chunk offset remaining) \<and>
   pairwise (\<lambda>x y. range_of x \<inter> range_of y = {}) (set (frag_ranges chunk offset remaining))"
proof (induction chunk offset remaining rule: frag_ranges.induct)
  case (1 chunk offset remaining)
  show ?case
  proof (cases "remaining = 0 \<or> chunk = 0")
    case True
    then show ?thesis by (simp add: frag_ranges.simps [of chunk offset remaining])
  next
    case False
    let ?c = "min chunk remaining"
    let ?rest = "frag_ranges chunk (offset + ?c) (remaining - ?c)"
    let ?x = "(offset, ?c, remaining - ?c)"
    have e: "frag_ranges chunk offset remaining = ?x # ?rest"
      using False by (simp add: frag_ranges.simps [of chunk offset remaining])
    have ge: "offset + ?c \<le> fst y" if "y \<in> set ?rest" for y
      using that frag_ranges_props [of "fst y" "fst (snd y)" "snd (snd y)" chunk "offset + ?c"] by simp
    have "?x \<notin> set ?rest" using ge [of ?x] False by auto
    moreover have "range_of ?x \<inter> range_of y = {} \<and> range_of y \<inter> range_of ?x = {}" if "y \<in> set ?rest" for y
      using ge [OF that] by (auto simp: range_of_def)
    ultimately show ?thesis using "1.IH" [OF False] unfolding e by (simp add: pairwise_insert)
  qed
qed

text \<open>The bytes of a fragment on the wire.\<close>

definition wire_hdr :: "ipv4 \<Rightarrow> 32 word \<Rightarrow> 8 word \<Rightarrow> nat \<times> nat \<times> nat \<Rightarrow> byte list" where
  "wire_hdr ip dst proto_num = (\<lambda>(offset, l, rest).
     let raw = ip_hdr_store (ip_hdr_hton (send_hdr ip dst proto_num True (l + 20) rest offset))
     in case ip_checksum raw of None \<Rightarrow> [] | Some c \<Rightarrow> put_bytes 10 (unaligned_store c) raw)"

definition wire_bytes :: "ipv4 \<Rightarrow> 32 word \<Rightarrow> 8 word \<Rightarrow> byte list \<Rightarrow> nat \<times> nat \<times> nat \<Rightarrow> byte list" where
  "wire_bytes ip dst proto_num bs t = wire_hdr ip dst proto_num t @ take (fst (snd t)) (drop (fst t) bs)"

lemma wire_hdr_props:
  "length (wire_hdr ip dst proto_num (offset, l, rest)) = 20"
  "ip_checksum (wire_hdr ip dst proto_num (offset, l, rest)) = Some 0"
  "\<exists>c. ip_hdr_ntoh (ip_hdr_load (wire_hdr ip dst proto_num (offset, l, rest))) =
     (send_hdr ip dst proto_num True (l + 20) rest offset)\<lparr>ih_csum := c\<rparr>"
proof -
  let ?h = "send_hdr ip dst proto_num True (l + 20) rest offset"
  have "ih_csum (ip_hdr_hton ?h) = 0"
    by (simp add: ip_hdr_hton_def send_hdr_def hton_def bswap_def zero_store16 unaligned_load_def)
  then obtain c where c: "ip_checksum (ip_hdr_store (ip_hdr_hton ?h)) = Some c"
    "ip_checksum (put_bytes 10 (unaligned_store c) (ip_hdr_store (ip_hdr_hton ?h))) = Some 0"
    "ip_hdr_load (put_bytes 10 (unaligned_store c) (ip_hdr_store (ip_hdr_hton ?h))) = (ip_hdr_hton ?h)\<lparr>ih_csum := c\<rparr>"
    using ip_hdr_checksum by blast
  have w: "wire_hdr ip dst proto_num (offset, l, rest) = put_bytes 10 (unaligned_store c) (ip_hdr_store (ip_hdr_hton ?h))"
    using c(1) by (simp add: wire_hdr_def Let_def)
  show "length (wire_hdr ip dst proto_num (offset, l, rest)) = 20" unfolding w by (simp add: ip_hdr_store_csum)
  show "ip_checksum (wire_hdr ip dst proto_num (offset, l, rest)) = Some 0" unfolding w by (rule c(2))
  have "ip_hdr_ntoh ((ip_hdr_hton ?h)\<lparr>ih_csum := c\<rparr>) = ?h\<lparr>ih_csum := ntoh c\<rparr>"
    by (simp add: ip_hdr_ntoh_def ip_hdr_hton_def ntoh_hton)
  then show "\<exists>c. ip_hdr_ntoh (ip_hdr_load (wire_hdr ip dst proto_num (offset, l, rest))) = ?h\<lparr>ih_csum := c\<rparr>"
    unfolding w c(3) by blast
qed

lemma send_pkt_correct:
  assumes off: "\<not> tx_csum_ip_offload (ip_hw ip)" and wf: "pk_wf pkt" and small: "length (pk_frags pkt) + 1 < 2 ^ 15"
  shows "\<exists>q. send_pkt dst proto_num True e_dst pkt rest offset ip = Some (ip\<lparr>ip_packetq := ip_packetq ip @ [(e_dst, q)]\<rparr>) \<and>
    pk_wf q \<and> pk_bytes q = wire_hdr ip dst proto_num (offset, pk_len pkt, rest) @ pk_bytes pkt \<and> pk_offload q = pk_offload pkt"
proof -
  let ?raw = "ip_hdr_store (ip_hdr_hton (send_hdr ip dst proto_num True (pk_len pkt + 20) rest offset))"
  obtain c where c: "ip_checksum ?raw = Some c" using ip_checksum_some by blast
  obtain q where "prepend_header (put_bytes 10 (unaligned_store c) ?raw) pkt = Some q" "pk_wf q"
    "pk_bytes q = put_bytes 10 (unaligned_store c) ?raw @ pk_bytes pkt" "pk_offload q = pk_offload pkt"
    using prepend_header_wf [OF wf small] by blast
  then show ?thesis using off c by (intro exI [of _ q]) (simp add: send_pkt_def wire_hdr_def Let_def)
qed

lemma wire_queue [simp]:
  "wire_hdr (ip\<lparr>ip_packetq := q\<rparr>) = wire_hdr ip" "wire_bytes (ip\<lparr>ip_packetq := q\<rparr>) = wire_bytes ip"
  by (simp_all add: wire_hdr_def wire_bytes_def send_hdr_def fun_eq_iff)

lemma send_loop_correct:
  assumes "\<not> tx_csum_ip_offload (ip_hw ip)" and "pk_wf p" and "pk_bytes p = bs" and "length (pk_frags p) + 1 < 2 ^ 15"
    and "0 < chunk" and "offset + remaining \<le> length bs"
  shows "\<exists>qs. send_loop dst proto_num e_dst chunk p remaining offset ip =
      Some (ip\<lparr>ip_packetq := ip_packetq ip @ map (Pair e_dst) qs\<rparr>) \<and>
    (\<forall>q \<in> set qs. pk_wf q \<and> pk_offload q = pk_offload p) \<and>
    map pk_bytes qs = map (wire_bytes ip dst proto_num bs) (frag_ranges chunk offset remaining)"
  using assms
proof (induction remaining arbitrary: p offset ip rule: less_induct)
  case (less remaining)
  show ?case
  proof (cases "remaining = 0")
    case True
    then show ?thesis by (simp add: send_loop.simps frag_ranges.simps)
  next
    case False
    let ?c = "min chunk remaining"
    have c: "0 < ?c" "?c \<le> remaining" using False less.prems(5) by simp_all
    have "offset + ?c \<le> pk_len p" using less.prems(3,6) pk_len_bytes [OF less.prems(2)] c(2) by simp
    then obtain n p1 where sh: "pk_share offset ?c p = Some (n, p1)" "pk_wf n" "pk_bytes n = take ?c (drop offset bs)"
      "length (pk_frags n) \<le> length (pk_frags p)" "pk_offload n = pk_offload p"
      "pk_wf p1" "pk_bytes p1 = bs" "length (pk_frags p1) = length (pk_frags p)" "pk_offload p1 = pk_offload p"
      using pk_share_wf [OF less.prems(2), of offset ?c] less.prems(3,4) by auto
    have nl: "pk_len n = ?c" using pk_len_bytes [OF sh(2)] sh(3) less.prems(6) c(2) by simp
    have sm: "length (pk_frags n) + 1 < 2 ^ 15" using sh(4) less.prems(4) by simp
    let ?rest = "remaining - ?c"
    obtain q where q: "send_pkt dst proto_num True e_dst n ?rest offset ip = Some (ip\<lparr>ip_packetq := ip_packetq ip @ [(e_dst, q)]\<rparr>)"
      "pk_wf q" "pk_bytes q = wire_hdr ip dst proto_num (offset, ?c, ?rest) @ pk_bytes n" "pk_offload q = pk_offload n"
      using send_pkt_correct [OF less.prems(1) sh(2) sm] nl by metis
    let ?ip = "ip\<lparr>ip_packetq := ip_packetq ip @ [(e_dst, q)]\<rparr>"
    have "?rest < remaining" using c by simp
    moreover have "\<not> tx_csum_ip_offload (ip_hw ?ip)" using less.prems(1) by simp
    moreover have "length (pk_frags p1) + 1 < 2 ^ 15" using sh(8) less.prems(4) by simp
    moreover have "offset + ?c + ?rest \<le> length bs" using less.prems(6) c by simp
    ultimately obtain qs where qs:
      "send_loop dst proto_num e_dst chunk p1 ?rest (offset + ?c) ?ip = Some (?ip\<lparr>ip_packetq := ip_packetq ?ip @ map (Pair e_dst) qs\<rparr>)"
      "\<forall>q \<in> set qs. pk_wf q \<and> pk_offload q = pk_offload p1"
      "map pk_bytes qs = map (wire_bytes ?ip dst proto_num bs) (frag_ranges chunk (offset + ?c) ?rest)"
      using less.IH [of ?rest ?ip p1 "offset + ?c"] sh(6,7) less.prems(5) by blast
    have "send_loop dst proto_num e_dst chunk p remaining offset ip =
      Some (ip\<lparr>ip_packetq := ip_packetq ip @ map (Pair e_dst) (q # qs)\<rparr>)"
      using False c(1) sh(1) q(1) qs(1) by (simp add: send_loop.simps [of _ _ _ _ _ remaining] Let_def)
    moreover have "map pk_bytes (q # qs) = map (wire_bytes ip dst proto_num bs) (frag_ranges chunk offset remaining)"
      using False less.prems(5) q(3) qs(3) sh(3)
      by (simp add: frag_ranges.simps [of chunk offset remaining] wire_bytes_def)
    moreover have "\<forall>q \<in> set (q # qs). pk_wf q \<and> pk_offload q = pk_offload p" using q(2,4) qs(2) sh(5,9) by simp
    ultimately show ?thesis by blast
  qed
qed

section \<open>The header of a fragment\<close>

lemma frag_field:
  assumes "offset < 2 ^ 16" and "8 dvd offset"
  shows "ih_offset (send_hdr ip dst proto_num True len rest offset) = of_nat offset"
    and "ih_mf (send_hdr ip dst proto_num True len rest offset) \<longleftrightarrow> 0 < rest"
proof -
  let ?m = "if 0 < rest then 1 else 0 :: 16 word"
  let ?o = "of_nat (offset div 8) :: 16 word"
  have e: "ih_frag (send_hdr ip dst proto_num True len rest offset) = push_bit 13 ?m OR ?o"
    by (simp add: send_hdr_def)
  have "push_bit 16 ?m = 0" by (rule bit_word_eqI) (simp add: bit_push_bit_iff)
  then have "push_bit 3 (push_bit 13 ?m OR ?o) = push_bit 3 ?o" by (simp only: push_bit_or push_bit_push_bit) simp
  also have "\<dots> = of_nat (offset div 8 * 2 ^ 3)" by (simp only: push_bit_eq_mult of_nat_mult of_nat_power of_nat_numeral)
  finally show "ih_offset (send_hdr ip dst proto_num True len rest offset) = of_nat offset"
    using assms(2) by (simp add: ih_offset_def e)
  have "\<not> bit (offset div 8) 13" using assms(1) by (simp add: bit_iff_odd)
  then have "\<not> bit ?o 13" by (simp add: bit_simps)
  then have "bit (push_bit 13 ?m OR ?o) 13 \<longleftrightarrow> 0 < rest" by (simp add: bit_or_iff bit_push_bit_iff)
  then show "ih_mf (send_hdr ip dst proto_num True len rest offset) \<longleftrightarrow> 0 < rest"
    unfolding ih_mf_def e bit_iff_and_push_bit_not_eq_0 .
qed

section \<open>Reassembly\<close>

lemma seg_sum_le:
  assumes "pm_gaps m" and "\<forall>s \<in> set m. 0 < pk_len (snd s)" and "pm_cover m \<subseteq> {..<n}"
  shows "sum_list (map (\<lambda>s. pk_len (snd s)) m) \<le> n \<and>
    (\<forall>s ms. m = s # ms \<longrightarrow> fst s + sum_list (map (\<lambda>s. pk_len (snd s)) m) \<le> n)"
  using assms
proof (induction m)
  case (Cons s m)
  show ?case
  proof (cases m)
    case Nil
    have "fst s + pk_len (snd s) - 1 \<in> seg_cover s" using Cons.prems(2) by (auto simp: seg_cover_def)
    then have "fst s + pk_len (snd s) - 1 < n" using Cons.prems(3) by auto
    then show ?thesis using Cons.prems(2) Nil by auto
  next
    case (Cons t m')
    then have "pm_gaps m" "\<forall>s \<in> set m. 0 < pk_len (snd s)" "pm_cover m \<subseteq> {..<n}" "fst s + pk_len (snd s) < fst t"
      using Cons.prems by simp_all
    then have "fst t + sum_list (map (\<lambda>s. pk_len (snd s)) m) \<le> n" using Cons.IH Cons by blast
    then show ?thesis using \<open>fst s + pk_len (snd s) < fst t\<close> by simp
  qed
qed simp

lemma pm_length_frags:
  assumes "\<forall>s \<in> set m. seg_ok f s"
  shows "length m \<le> pm_frags m"
  using assms
proof (induction m)
  case (Cons s m)
  then have "pk_frags (snd s) \<noteq> []" by (auto simp: seg_ok_def pk_wf_def2)
  then show ?case using Cons by (cases "pk_frags (snd s)") auto
qed simp

lemma frag_memory_nat:
  "frag_memory sz f = of_nat (pk_len (fr_header f) + sz +
     sum_list (map (\<lambda>s. pk_len (snd s)) (pm_map (fr_data f))) + length (pm_map (fr_data f)) * sz)"
proof -
  have "sum_list (map (\<lambda>(k, p). of_nat (pk_len p + sz)) m) =
    (of_nat (sum_list (map (\<lambda>s. pk_len (snd s)) m) + length m * sz) :: 32 word)" for m :: seg_map
    by (induction m) (simp_all add: case_prod_unfold algebra_simps)
  then show ?thesis by (simp add: frag_memory_def pk_memory_def)
qed

definition frag_ok :: "nat \<Rightarrow> nat \<times> nat \<times> nat \<Rightarrow> bool" where
  "frag_ok n t \<longleftrightarrow> 0 < fst (snd t) \<and> fst t + fst (snd t) + snd (snd t) = n"

definition frag_inv :: "byte list \<Rightarrow> (nat \<times> nat \<times> nat) set \<Rightarrow> nat \<Rightarrow> ip_frag \<Rightarrow> bool" where
  "frag_inv bs S k f \<longleftrightarrow> pm_wf ((!) bs) (pm_map (fr_data f)) \<and> pm_cover (pm_map (fr_data f)) = (\<Union>t \<in> S. range_of t) \<and>
     pm_frags (pm_map (fr_data f)) \<le> k \<and> pk_len (fr_header f) \<le> 20"

lemma frag_inv_new: "frag_inv bs {} 0 frag_new"
  by (simp add: frag_inv_def frag_new_def pm_wf_def pm_cover_def pm_frags_def impl_new_def)

lemma frag_inv_last: "frag_inv bs S k (f\<lparr>fr_last_received := b\<rparr>) = frag_inv bs S k f"
  "frag_inv bs S k (f\<lparr>fr_rx_time := x\<rparr>) = frag_inv bs S k f" "frag_inv bs S k (f\<lparr>fr_mem_size := y\<rparr>) = frag_inv bs S k f"
  by (simp_all add: frag_inv_def)

lemma slice_map_nth: "a + l \<le> length bs \<Longrightarrow> take l (drop a bs) = map ((!) bs) [a..<a + l]"
  by (rule nth_equalityI) simp_all

lemma frag_memory_bound:
  assumes inv: "frag_inv bs S k f" and ok: "\<forall>t \<in> S. frag_ok (length bs) t"
    and fits: "length bs + 20 + (k + 1) * sz < 2 ^ 22" and sz: "0 < sz"
  shows "frag_memory sz f \<le> frag_high_thresh" "frag_memory sz f \<noteq> 0"
proof -
  let ?m = "pm_map (fr_data f)"
  have wf: "pm_wf ((!) bs) ?m" and hd: "pk_len (fr_header f) \<le> 20" and fr: "pm_frags ?m \<le> k" using inv by (simp_all add: frag_inv_def)
  have "pm_cover ?m \<subseteq> {..<length bs}"
    using inv ok by (force simp: frag_inv_def frag_ok_def range_of_def)
  moreover have "pm_gaps ?m" "\<forall>s \<in> set ?m. seg_ok ((!) bs) s" using wf by (simp_all add: pm_wf_def)
  moreover have "\<forall>s \<in> set ?m. 0 < pk_len (snd s)" using wf by (simp add: pm_wf_def seg_ok_def)
  ultimately have sum: "sum_list (map (\<lambda>s. pk_len (snd s)) ?m) \<le> length bs" and len: "length ?m \<le> pm_frags ?m"
    using seg_sum_le pm_length_frags by blast+
  let ?n = "pk_len (fr_header f) + sz + sum_list (map (\<lambda>s. pk_len (snd s)) ?m) + length ?m * sz"
  have "length ?m * sz \<le> k * sz" using len fr by (intro mult_right_mono) simp_all
  moreover have "(k + 1) * sz = k * sz + sz" by (simp add: algebra_simps)
  ultimately have "?n \<le> length bs + 20 + (k + 1) * sz" using sum hd by linarith
  then have n: "?n < 2 ^ 22" using fits by linarith
  then have "unat (frag_memory sz f) = ?n" unfolding frag_memory_nat unat_of_nat by (intro mod_less) simp
  then show "frag_memory sz f \<le> frag_high_thresh" "frag_memory sz f \<noteq> 0"
    using n sz by (auto simp: word_le_nat_alt frag_high_thresh_def)
qed

lemma frag_merge_inv:
  assumes inv: "frag_inv bs S k f" and ok: "frag_ok (length bs) t" and ihl: "ih_ihl h = 5"
    and wf: "pk_wf p" and bytes: "pk_bytes p = hdr @ take (fst (snd t)) (drop (fst t) bs)" and hdr: "length hdr = 20"
    and small: "length (pk_frags p) + k < 2 ^ 15"
  shows "\<exists>f'. frag_merge sz h (fst t) p f = Some (frag_memory sz f' - fr_mem_size f, f') \<and>
    frag_inv bs (insert t S) (k + length (pk_frags p)) f' \<and> fr_mem_size f' = frag_memory sz f' \<and>
    fr_last_received f' = fr_last_received f"
proof -
  obtain off l r where t: "t = (off, l, r)" by (cases t)
  have fit: "off + l \<le> length bs" "0 < l" using ok by (simp_all add: frag_ok_def t)
  have pl: "pk_len p = 20 + l" using pk_len_bytes [OF wf] bytes hdr fit by (simp add: t)
  have "\<exists>p1 f1. (if off = 0 then map_option (\<lambda>(hd, p). (p, f\<lparr>fr_header := hd\<rparr>)) (pk_share 0 20 p) else Some (p, f)) = Some (p1, f1) \<and>
      pk_wf p1 \<and> pk_bytes p1 = pk_bytes p \<and> length (pk_frags p1) = length (pk_frags p) \<and>
      fr_data f1 = fr_data f \<and> fr_mem_size f1 = fr_mem_size f \<and> fr_last_received f1 = fr_last_received f \<and> pk_len (fr_header f1) \<le> 20"
  proof (cases "off = 0")
    case True
    have "0 + 20 \<le> pk_len p" using pl by simp
    then obtain n q where q: "pk_share 0 20 p = Some (n, q)" "pk_wf n" "pk_bytes n = take 20 (drop 0 (pk_bytes p))" "pk_wf q"
      "pk_bytes q = pk_bytes p" "length (pk_frags q) = length (pk_frags p)"
      using pk_share_wf [OF wf, of 0 20] small by auto
    have "pk_len n \<le> 20" using pk_len_bytes [OF q(2)] q(3) by simp
    then show ?thesis using True q by simp
  next
    case False
    then show ?thesis using inv wf by (simp add: frag_inv_def)
  qed
  then obtain p1 f1 where p1: "(if off = 0 then map_option (\<lambda>(hd, p). (p, f\<lparr>fr_header := hd\<rparr>)) (pk_share 0 20 p) else Some (p, f)) = Some (p1, f1)"
    "pk_wf p1" "pk_bytes p1 = pk_bytes p" "length (pk_frags p1) = length (pk_frags p)"
    "fr_data f1 = fr_data f" "fr_mem_size f1 = fr_mem_size f" "fr_last_received f1 = fr_last_received f" "pk_len (fr_header f1) \<le> 20"
    by blast
  have "20 \<le> pk_len p1" using pk_len_bytes [OF p1(2)] pk_len_bytes [OF wf] p1(3) pl by simp
  from pk_trim_front_wf [OF p1(2) this] obtain p2 where p2: "pk_trim_front 20 p1 = Some p2" "pk_wf p2"
    "pk_bytes p2 = drop 20 (pk_bytes p1)" "length (pk_frags p2) \<le> length (pk_frags p1)" by blast
  have b2: "pk_bytes p2 = take l (drop off bs)" using p2(3) p1(3) bytes hdr by (simp add: t)
  then have l2: "pk_len p2 = l" using pk_len_bytes [OF p2(2)] fit by simp
  have "seg_ok ((!) bs) (off, p2)" using p2(2) b2 l2 fit by (simp add: seg_ok_def slice_map_nth)
  moreover have "pm_wf ((!) bs) (pm_map (fr_data f))" using inv by (simp add: frag_inv_def)
  moreover have "length (pk_frags p2) + pm_frags (pm_map (fr_data f)) < 2 ^ 15"
    using inv small p2(4) p1(4) by (simp add: frag_inv_def)
  ultimately obtain pm where pm: "pm_merge off p2 (fr_data f) = Some pm" "pm_wf ((!) bs) (pm_map pm)"
    "pm_cover (pm_map pm) = {off..<off + l} \<union> pm_cover (pm_map (fr_data f))"
    "pm_frags (pm_map pm) \<le> length (pk_frags p2) + pm_frags (pm_map (fr_data f))"
    using pm_merge_wf [of "(!) bs" "fr_data f" off p2] l2 by auto
  let ?f = "f1\<lparr>fr_data := pm\<rparr>"
  let ?g = "?f\<lparr>fr_mem_size := frag_memory sz ?f\<rparr>"
  have mem: "frag_memory sz ?g = frag_memory sz ?f" by (simp add: frag_memory_def)
  have five: "unat (ih_ihl h) * 4 = 20" using ihl by simp
  have "frag_merge sz h (fst t) p f = Some (frag_memory sz ?g - fr_mem_size f, ?g)"
    unfolding frag_merge_def five Let_def mem using p1(1) by (simp add: t p2(1) p1(5,6) pm(1))
  moreover have "frag_inv bs (insert t S) (k + length (pk_frags p)) ?g"
    using inv pm(2,3,4) p1(4,8) p2(4) by (simp add: frag_inv_def t range_of_def)
  ultimately show ?thesis using mem p1(7) by (intro exI [of _ ?g]) simp
qed

lemma frag_complete_iff:
  assumes inv: "frag_inv bs S k f" and last: "fr_last_received f \<longleftrightarrow> (\<exists>t \<in> S. snd (snd t) = 0)"
    and ok: "\<forall>t \<in> S. frag_ok (length bs) t" and ne: "bs \<noteq> []"
  shows "frag_is_complete f \<longleftrightarrow> (\<Union>t \<in> S. range_of t) = {0..<length bs}"
proof -
  let ?m = "pm_map (fr_data f)" and ?n = "length bs"
  have wf: "pm_wf ((!) bs) ?m" and cover: "pm_cover ?m = (\<Union>t \<in> S. range_of t)" using inv by (simp_all add: frag_inv_def)
  have sub: "(\<Union>t \<in> S. range_of t) \<subseteq> {0..<?n}" using ok by (force simp: frag_ok_def range_of_def)
  show ?thesis
  proof
    assume "frag_is_complete f"
    then obtain q where q: "?m = [(0, q)]" "fr_last_received f"
      by (auto simp: frag_is_complete_def split: list.splits)
    then obtain t where t: "t \<in> S" "snd (snd t) = 0" using last by blast
    have "fst t + fst (snd t) = ?n" "0 < fst (snd t)" using ok t by (auto simp: frag_ok_def)
    then have "?n - 1 \<in> range_of t" by (auto simp: range_of_def)
    then have "?n - 1 \<in> {0..<pk_len q}" using t(1) cover q(1) by (auto simp: seg_cover_def)
    then have "{0..<?n} \<subseteq> {0..<pk_len q}" by auto
    moreover have "(\<Union>t \<in> S. range_of t) = {0..<pk_len q}" using cover q(1) by (simp add: seg_cover_def)
    ultimately have "{0..<?n} \<subseteq> (\<Union>t \<in> S. range_of t)" by simp
    then show "(\<Union>t \<in> S. range_of t) = {0..<?n}" using sub by blast
  next
    assume all: "(\<Union>t \<in> S. range_of t) = {0..<?n}"
    then obtain p where p: "?m = [(0, p)]" using pm_complete [OF wf, of ?n] cover ne by auto
    have "?n - 1 \<in> (\<Union>t \<in> S. range_of t)" using all ne by simp
    then obtain t where t: "t \<in> S" "?n - 1 \<in> range_of t" by blast
    then have "snd (snd t) = 0" using ok by (fastforce simp: frag_ok_def range_of_def)
    then show "frag_is_complete f" using p last t(1) by (auto simp: frag_is_complete_def)
  qed
qed

text \<open>The state of a receiver that has only part of one datagram: the fragments \<open>S\<close> have arrived.\<close>

definition rx_inv :: "byte list \<Rightarrow> frag_id \<Rightarrow> nat \<Rightarrow> (nat \<times> nat \<times> nat) set \<Rightarrow> nat \<Rightarrow> ipv4 \<Rightarrow> bool" where
  "rx_inv bs i sz S k rx \<longleftrightarrow>
     (if S = {} then k = 0 \<and> ip_frags rx = [] \<and> ip_frags_age rx = [] \<and> ip_frag_mem rx = 0
      else \<exists>f. ip_frags rx = [(i, f)] \<and> ip_frags_age rx = [i] \<and> ip_frag_mem rx = fr_mem_size f \<and>
        fr_mem_size f = frag_memory sz f \<and> frag_inv bs S k f \<and> (fr_last_received f \<longleftrightarrow> (\<exists>t \<in> S. snd (snd t) = 0)))"

lemma rx_inv_frag:
  assumes "rx_inv bs i sz S k rx" and "\<forall>t \<in> S. frag_ok (length bs) t" and "length bs + 20 + (k + 1) * sz < 2 ^ 22" and "0 < sz"
  shows "frag_limit_mem rx = rx"
    and "frag_inv bs S k (frag_get i (ip_frags rx))"
    and "fr_last_received (frag_get i (ip_frags rx)) \<longleftrightarrow> (\<exists>t \<in> S. snd (snd t) = 0)"
    and "fr_mem_size (frag_get i (ip_frags rx)) = ip_frag_mem rx"
    and "ip_frag_mem rx = 0 \<longleftrightarrow> S = {}"
    and "AList.update i g (ip_frags rx) = [(i, g)]"
    and "(if ip_frag_mem rx = 0 then ip_frags_age rx @ [i] else ip_frags_age rx) = [i]"
proof -
  have "frag_limit_mem rx = rx \<and> frag_inv bs S k (frag_get i (ip_frags rx)) \<and>
    (fr_last_received (frag_get i (ip_frags rx)) \<longleftrightarrow> (\<exists>t \<in> S. snd (snd t) = 0)) \<and>
    fr_mem_size (frag_get i (ip_frags rx)) = ip_frag_mem rx \<and> (ip_frag_mem rx = 0 \<longleftrightarrow> S = {}) \<and>
    AList.update i g (ip_frags rx) = [(i, g)] \<and> (if ip_frag_mem rx = 0 then ip_frags_age rx @ [i] else ip_frags_age rx) = [i]"
  proof (cases "S = {}")
    case True
    then have "k = 0" "ip_frags rx = []" "ip_frags_age rx = []" "ip_frag_mem rx = 0" using assms(1) by (simp_all add: rx_inv_def)
    then show ?thesis using True frag_inv_new by (simp add: frag_get_def frag_limit_mem_def) (simp add: frag_new_def)
  next
    case False
    then obtain f where f: "ip_frags rx = [(i, f)]" "ip_frags_age rx = [i]" "ip_frag_mem rx = fr_mem_size f"
      "fr_mem_size f = frag_memory sz f" "frag_inv bs S k f" "fr_last_received f \<longleftrightarrow> (\<exists>t \<in> S. snd (snd t) = 0)"
      using assms(1) unfolding rx_inv_def if_not_P [OF False] by blast
    note frag_memory_bound [OF f(5) assms(2-4)]
    then show ?thesis using False f by (simp add: frag_get_def frag_limit_mem_def)
  qed
  then show "frag_limit_mem rx = rx" "frag_inv bs S k (frag_get i (ip_frags rx))"
    "fr_last_received (frag_get i (ip_frags rx)) \<longleftrightarrow> (\<exists>t \<in> S. snd (snd t) = 0)"
    "fr_mem_size (frag_get i (ip_frags rx)) = ip_frag_mem rx" "ip_frag_mem rx = 0 \<longleftrightarrow> S = {}"
    "AList.update i g (ip_frags rx) = [(i, g)]"
    "(if ip_frag_mem rx = 0 then ip_frags_age rx @ [i] else ip_frags_age rx) = [i]" by blast+
qed

definition is_arming :: "ip_event list \<Rightarrow> bool" where
  "is_arming ev \<longleftrightarrow> (\<forall>e \<in> set ev. \<exists>at. e = Arm_timer at)"

text \<open>The environment of a receiver on one processor: no filter, and the protocol above takes what it gets.\<close>

definition single_cpu :: "ip_env \<Rightarrow> bool" where
  "single_cpu env \<longleftrightarrow> (\<forall>p h from. env_filter env p h from = (False, p, h)) \<and>
     (\<forall>proto fh p. \<exists>fh'. env_l4_forward env proto fh p = (True, fh', p)) \<and> 4 \<le> length (env_rss_key env) \<and>
     (\<forall>hash. env_hash2cpu env hash = env_cpu env)"

lemma deliver_single_cpu:
  assumes "single_cpu env" and "ip_has_l4 (ih_proto h)" and "pm_map (fr_data f) = [(0, q)]"
  shows "deliver_assembled env h from f = Some [Received (ih_proto h) q (ih_src h) (ih_dst h)]"
proof -
  have "fh_push32 a [] = Some [ucast (ucast a :: 16 word), ucast (drop_bit 8 (ucast a :: 16 word)),
      ucast (ucast (drop_bit 16 a) :: 16 word), ucast (drop_bit 8 (ucast (drop_bit 16 a) :: 16 word))]" for a
    by (simp add: fh_push32_def fh_push16_def fh_push8_def)
  then obtain fh0 where fh0: "fh_push32 (hton (ih_src h)) [] = Some fh0" "length fh0 = 4" by simp
  then obtain fh1 where fh1: "fh_push32 (hton (ih_dst h)) fh0 = Some fh1"
    by (simp add: fh_push32_def fh_push16_def fh_push8_def)
  obtain fh2 where "env_l4_forward env (ih_proto h) fh1 q = (True, fh2, q)"
    using assms(1) unfolding single_cpu_def by blast
  moreover obtain v where "toeplitz_hash (env_rss_key env) fh2 = Some v"
    using assms(1) by (simp add: single_cpu_def toeplitz_hash_def Let_def)
  ultimately show ?thesis using assms fh0(1) fh1 by (simp add: deliver_assembled_def single_cpu_def)
qed

lemma receive_fragment_step:
  assumes inv: "rx_inv bs i sz S k rx" and oks: "\<forall>t \<in> insert t S. frag_ok (length bs) t" and ne: "bs \<noteq> []"
    and fits: "length bs + 20 + (k + length (pk_frags p) + 1) * sz < 2 ^ 22" and sz: "0 < sz" "env_sizeof_impl env = sz"
    and h: "(ih_src h, ih_dst h, ih_id h, ih_proto h) = i" "unat (ih_offset h) = fst t" "ih_mf h \<longleftrightarrow> 0 < snd (snd t)" "ih_ihl h = 5"
    and p: "pk_wf p" "pk_bytes p = hdr @ take (fst (snd t)) (drop (fst t) bs)" "length hdr = 20" "length (pk_frags p) + k < 2 ^ 15"
    and env: "single_cpu env" "ip_has_l4 (ih_proto h)"
  shows "\<exists>ev rx'. receive_fragment env h from p rx = Some (ev, rx') \<and>
    ip_host_address rx' = ip_host_address rx \<and> ip_hw rx' = ip_hw rx \<and>
    (if (\<Union>t \<in> insert t S. range_of t) = {0..<length bs}
     then rx_inv bs i sz {} 0 rx' \<and> (\<exists>q. ev = [Received (ih_proto h) q (ih_src h) (ih_dst h)] \<and> pk_wf q \<and> pk_bytes q = bs)
     else rx_inv bs i sz (insert t S) (k + length (pk_frags p)) rx' \<and> is_arming ev)"
proof -
  have okS: "\<forall>t \<in> S. frag_ok (length bs) t" and okt: "frag_ok (length bs) t" using oks by simp_all
  have "(k + 1) * sz \<le> (k + length (pk_frags p) + 1) * sz" by (intro mult_right_mono) simp_all
  then have "length bs + 20 + (k + 1) * sz < 2 ^ 22" using fits by linarith
  note R = rx_inv_frag [OF inv okS this sz(1)]
  let ?f0 = "frag_get i (ip_frags rx)"
  let ?f1 = "if ih_mf h then ?f0 else ?f0\<lparr>fr_last_received := True\<rparr>"
  have m1: "fr_mem_size ?f1 = ip_frag_mem rx" using R(4) by simp
  let ?f2 = "if ip_frag_mem rx = 0 then ?f1\<lparr>fr_rx_time := env_now env\<rparr> else ?f1"
  have inv2: "frag_inv bs S k ?f2" using R(2) by (simp add: frag_inv_last)
  have m2: "fr_mem_size ?f2 = ip_frag_mem rx" using R(4) by simp
  have last2: "fr_last_received ?f2 \<longleftrightarrow> (\<exists>t \<in> insert t S. snd (snd t) = 0)" using R(3) h(3) by auto
  obtain f where f: "frag_merge sz h (fst t) p ?f2 = Some (frag_memory sz f - ip_frag_mem rx, f)"
    "frag_inv bs (insert t S) (k + length (pk_frags p)) f" "fr_mem_size f = frag_memory sz f"
    "fr_last_received f = fr_last_received ?f2"
    using frag_merge_inv [OF inv2 okt h(4) p, of sz] m2 by auto
  have last: "fr_last_received f \<longleftrightarrow> (\<exists>t \<in> insert t S. snd (snd t) = 0)" using f(4) last2 by simp
  note comp = frag_complete_iff [OF f(2) last oks ne]
  let ?ip = "rx\<lparr>ip_frags := [(i, f)], ip_frags_age := [i], ip_frag_mem := frag_memory sz f\<rparr>"
  have eq: "receive_fragment env h from p rx =
     (if frag_is_complete f
              then map_option (\<lambda>ev.
                     let ip = frag_drop i (fr_mem_size f) ?ip
                     in (ev, ip\<lparr>ip_frags_age := filter (\<lambda>j. j \<noteq> i) (ip_frags_age ip)\<rparr>))
                     (deliver_assembled env h from f)
              else if \<not> ip_timer_armed ?ip
                   then Some ([Arm_timer (env_now env + frag_timeout_seconds)], ?ip\<lparr>ip_timer_armed := True\<rparr>)
                   else Some ([], ?ip))"
    unfolding receive_fragment_def Let_def R(1) h(1) m1 sz(2) h(2) f(1) by (simp only: bind.bind_lunit prod.case R(6) R(7)) simp
  show ?thesis
  proof (cases "frag_is_complete f")
    case True
    have wf: "pm_wf ((!) bs) (pm_map (fr_data f))" and cover: "pm_cover (pm_map (fr_data f)) = {0..<length bs}"
      using f(2) True comp by (simp_all add: frag_inv_def)
    obtain q where q: "pm_map (fr_data f) = [(0, q)]" "pk_wf q" "pk_bytes q = map ((!) bs) [0..<length bs]"
      using pm_complete [OF wf cover] ne by auto
    show ?thesis using True comp eq q deliver_single_cpu [OF env(1,2) q(1)] f(3)
      by (simp add: rx_inv_def frag_drop_def map_nth Let_def)
  next
    case False
    then show ?thesis using comp eq f last
      by (simp add: rx_inv_def is_arming_def)
  qed
qed

section \<open>Receiving a fragment\<close>

definition wire_of :: "ipv4 \<Rightarrow> 32 word \<Rightarrow> 8 word \<Rightarrow> byte list \<Rightarrow> nat \<times> nat \<times> nat \<Rightarrow> packet \<Rightarrow> bool" where
  "wire_of ip dst proto_num bs t p \<longleftrightarrow> pk_wf p \<and> pk_bytes p = wire_bytes ip dst proto_num bs t"

definition no_delivery :: "ip_event list \<Rightarrow> bool" where
  "no_delivery ev \<longleftrightarrow> (\<forall>e \<in> set ev. (\<exists>at. e = Arm_timer at) \<or> (\<exists>from a. e = Arp_learn from a))"

definition fragment_id :: "ipv4 \<Rightarrow> 32 word \<Rightarrow> 8 word \<Rightarrow> frag_id" where
  "fragment_id tx dst proto_num = (ip_host_address tx, dst, 0, proto_num)"

lemma handle_fragment:
  assumes wire: "wire_of tx dst proto_num bs t p" and ok: "frag_ok (length bs) t" and off8: "8 dvd fst t"
    and frag: "fst t \<noteq> 0 \<or> 0 < snd (snd t)" and len: "length bs \<le> 65515"
    and env: "single_cpu env" and dst: "ip_host_address rx = dst"
  shows "\<exists>h q learn. handle_received_packet env p from rx =
      map_option (\<lambda>(ev, ip). (learn @ ev, ip)) (receive_fragment env h from q rx) \<and>
    no_delivery learn \<and> pk_wf q \<and> pk_bytes q = pk_bytes p \<and> length (pk_frags q) \<le> length (pk_frags p) \<and>
    (ih_src h, ih_dst h, ih_id h, ih_proto h) = fragment_id tx dst proto_num \<and>
    unat (ih_offset h) = fst t \<and> (ih_mf h \<longleftrightarrow> 0 < snd (snd t)) \<and> ih_ihl h = 5"
proof -
  obtain off l r where t: "t = (off, l, r)" by (cases t)
  have wf: "pk_wf p" and bytes: "pk_bytes p = wire_hdr tx dst proto_num (off, l, r) @ take l (drop off bs)"
    using wire by (simp_all add: wire_of_def wire_bytes_def t)
  note W = wire_hdr_props [of tx dst proto_num off l r]
  have fit: "off + l + r = length bs" "0 < l" using ok by (simp_all add: frag_ok_def t)
  have pl: "pk_len p = 20 + l" using pk_len_bytes [OF wf] bytes W(1) fit by simp
  have "0 + 20 \<le> pk_len p" using pl by simp
  from pk_get_header_wf [OF wf this] obtain i o' q where q: "pk_get_header 0 20 p = Some (Some (i, o'), q)" "pk_wf q" "pk_bytes q = pk_bytes p"
    "take 20 (drop o' (frag_bytes (pk_data q) (pk_frags q ! i))) = take 20 (drop 0 (pk_bytes p))"
    "length (pk_frags q) \<le> length (pk_frags p)" by auto
  have raw: "take 20 (drop o' (frag_bytes (pk_data q) (pk_frags q ! i))) = wire_hdr tx dst proto_num (off, l, r)"
    using q(4) bytes W(1) by simp
  obtain c where c: "ip_hdr_ntoh (ip_hdr_load (wire_hdr tx dst proto_num (off, l, r))) =
     (send_hdr tx dst proto_num True (l + 20) r off)\<lparr>ih_csum := c\<rparr>" using W(3) by blast
  let ?h = "(send_hdr tx dst proto_num True (l + 20) r off)\<lparr>ih_csum := c\<rparr>"
  have off: "off < 2 ^ 16" "8 dvd off" using fit len off8 by (simp_all add: t)
  have "ih_offset ?h = ih_offset (send_hdr tx dst proto_num True (l + 20) r off)"
    "ih_mf ?h = ih_mf (send_hdr tx dst proto_num True (l + 20) r off)" by (simp_all add: ih_offset_def ih_mf_def)
  then have ho: "ih_offset ?h = of_nat off" and hm: "ih_mf ?h \<longleftrightarrow> 0 < r"
    using frag_field [OF off] by simp_all
  have uo: "unat (ih_offset ?h) = off" unfolding ho unat_of_nat using off(1) by (intro mod_less) simp
  have ul: "unat (ih_len ?h) = pk_len q"
  proof -
    have "ih_len ?h = of_nat (l + 20)" by (simp add: send_hdr_def)
    then have "unat (ih_len ?h) = (l + 20) mod 2 ^ LENGTH(16)" by (simp only: unat_of_nat)
    also have "\<dots> = l + 20" using fit len by (intro mod_less) simp
    finally show ?thesis using pk_len_bytes [OF q(2)] pk_len_bytes [OF wf] q(3) pl by simp
  qed
  let ?learn = "if in_my_netmask rx (ih_src ?h) \<and> ih_src ?h \<noteq> ip_host_address rx then [Arp_learn from (ih_src ?h)] else []"
  have dsteq: "ih_dst ?h = ip_host_address rx" using dst by (simp add: send_hdr_def)
  have small: "\<not> ip_packet_len_max < off + pk_len q"
    using ul pk_len_bytes [OF q(2)] pk_len_bytes [OF wf] q(3) pl fit len by (simp add: ip_packet_len_max_def)
  have isfrag: "ih_mf ?h \<or> off \<noteq> 0" using frag hm by (auto simp: t)
  have filt: "env_filter env q ?h from = (False, q, ?h)" using env by (simp add: single_cpu_def)
  have "handle_received_packet env p from rx = map_option (\<lambda>(ev, ip). (?learn @ ev, ip)) (receive_fragment env ?h from q rx)"
  proof -
    obtain h where h: "?h = h" by blast
    show ?thesis using small isfrag filt ul uo dsteq c
      unfolding handle_received_packet_def q(1) h by (simp add: raw W(2) Let_def)
  qed
  moreover have "no_delivery ?learn" by (simp add: no_delivery_def)
  moreover have "(ih_src ?h, ih_dst ?h, ih_id ?h, ih_proto ?h) = fragment_id tx dst proto_num" "ih_ihl ?h = 5"
    by (simp_all add: send_hdr_def fragment_id_def)
  ultimately show ?thesis using q(2,3,5) uo hm by (intro exI [of _ ?h] exI [of _ q] exI [of _ ?learn]) (simp add: t)
qed

fun receive_all :: "ip_env \<Rightarrow> eth_addr \<Rightarrow> packet list \<Rightarrow> ipv4 \<Rightarrow> (ip_event list \<times> ipv4) option" where
  "receive_all env from [] ip = Some ([], ip)"
| "receive_all env from (p # ps) ip =
     Option.bind (handle_received_packet env p from ip) (\<lambda>(ev, ip).
       map_option (\<lambda>(evs, ip). (ev @ evs, ip)) (receive_all env from ps ip))"

lemma receive_all_fragments:
  assumes inv: "rx_inv bs (fragment_id tx dst proto_num) (env_sizeof_impl env) S k rx"
    and wires: "list_all2 (wire_of tx dst proto_num bs) ts ps"
    and dist: "distinct ts" "set ts \<inter> S = {}" "ts \<noteq> []" "S \<union> set ts = T"
    and T: "\<forall>t \<in> T. frag_ok (length bs) t \<and> 8 dvd fst t \<and> (fst t \<noteq> 0 \<or> 0 < snd (snd t))"
      "pairwise (\<lambda>x y. range_of x \<inter> range_of y = {}) T" "(\<Union>t \<in> T. range_of t) = {0..<length bs}"
    and len: "length bs \<le> 65515" and ne: "bs \<noteq> []"
    and fits: "length bs + 20 + (k + sum_list (map (\<lambda>p. length (pk_frags p)) ps) + 1) * env_sizeof_impl env < 2 ^ 22"
    and sz: "0 < env_sizeof_impl env" and small: "k + sum_list (map (\<lambda>p. length (pk_frags p)) ps) < 2 ^ 15"
    and env: "single_cpu env" "ip_has_l4 proto_num" and dst: "ip_host_address rx = dst"
  shows "\<exists>ev q rx'. receive_all env from ps rx = Some (ev @ [Received proto_num q (ip_host_address tx) dst], rx') \<and>
    no_delivery ev \<and> pk_wf q \<and> pk_bytes q = bs \<and>
    ip_frags rx' = [] \<and> ip_frags_age rx' = [] \<and> ip_frag_mem rx' = 0"
  using inv wires dist fits small dst
proof (induction ts arbitrary: ps S k rx)
  case Nil
  then show ?case by simp
next
  case (Cons t ts)
  obtain p ps' where ps: "ps = p # ps'" "wire_of tx dst proto_num bs t p" "list_all2 (wire_of tx dst proto_num bs) ts ps'"
    using Cons.prems(2) by (cases ps) auto
  have tT: "t \<in> T" "insert t S \<subseteq> T" unfolding Cons.prems(6) [symmetric] by auto
  have okt: "frag_ok (length bs) t" "8 dvd fst t" "fst t \<noteq> 0 \<or> 0 < snd (snd t)" using bspec [OF T(1) tT(1)] by simp_all
  obtain h q learn where H: "handle_received_packet env p from rx =
      map_option (\<lambda>(ev, ip). (learn @ ev, ip)) (receive_fragment env h from q rx)"
    "no_delivery learn" "pk_wf q" "pk_bytes q = pk_bytes p" "length (pk_frags q) \<le> length (pk_frags p)"
    "(ih_src h, ih_dst h, ih_id h, ih_proto h) = fragment_id tx dst proto_num"
    "unat (ih_offset h) = fst t" "ih_mf h \<longleftrightarrow> 0 < snd (snd t)" "ih_ihl h = 5"
    using handle_fragment [OF ps(2) okt(1-3) len env(1) Cons.prems(9), of "from"] by (elim exE conjE) (rule that; assumption)
  have hp: "ih_proto h = proto_num" "ih_src h = ip_host_address tx" "ih_dst h = dst" using H(6) by (simp_all add: fragment_id_def)
  have oks: "\<forall>u \<in> insert t S. frag_ok (length bs) u" using T(1) tT(2) by blast
  let ?N = "sum_list (map (\<lambda>p. length (pk_frags p)) ps')"
  have mono: "(a + 1) * env_sizeof_impl env \<le> (b + 1) * env_sizeof_impl env" if "a \<le> b" for a b
    using that by (intro mult_right_mono) simp_all
  have "k + length (pk_frags q) \<le> k + sum_list (map (\<lambda>p. length (pk_frags p)) ps)" using H(5) ps(1) by simp
  note mono [OF this]
  then have fits1: "length bs + 20 + (k + length (pk_frags q) + 1) * env_sizeof_impl env < 2 ^ 22"
    using Cons.prems(7) by linarith
  have q: "pk_bytes q = wire_hdr tx dst proto_num t @ take (fst (snd t)) (drop (fst t) bs)"
    "length (wire_hdr tx dst proto_num t) = 20" "length (pk_frags q) + k < 2 ^ 15"
    using H(4,5) ps(1,2) wire_hdr_props(1) Cons.prems(8) by (cases t; simp add: wire_of_def wire_bytes_def)+
  obtain ev rx1 where R: "receive_fragment env h from q rx = Some (ev, rx1)" "ip_host_address rx1 = dst"
    "if (\<Union>t \<in> insert t S. range_of t) = {0..<length bs}
     then rx_inv bs (fragment_id tx dst proto_num) (env_sizeof_impl env) {} 0 rx1 \<and>
       (\<exists>q. ev = [Received (ih_proto h) q (ih_src h) (ih_dst h)] \<and> pk_wf q \<and> pk_bytes q = bs)
     else rx_inv bs (fragment_id tx dst proto_num) (env_sizeof_impl env) (insert t S) (k + length (pk_frags q)) rx1 \<and> is_arming ev"
    using receive_fragment_step [OF Cons.prems(1) oks ne fits1 sz refl H(6-9) H(3) q env(1)] env(2) hp(1) Cons.prems(9) by blast
  show ?case
  proof (cases "ts = []")
    case True
    then have "insert t S = T" "ps' = []" using Cons.prems(6) ps(3) by auto
    then obtain q' where "ev = [Received (ih_proto h) q' (ih_src h) (ih_dst h)]" "pk_wf q'" "pk_bytes q' = bs"
      and "rx_inv bs (fragment_id tx dst proto_num) (env_sizeof_impl env) {} 0 rx1" using R(3) T(3) by auto
    then show ?thesis using H(1,2) R(1) ps(1) \<open>ps' = []\<close> hp
      by (intro exI [of _ learn] exI [of _ q'] exI [of _ rx1]) (simp add: rx_inv_def)
  next
    case False
    then obtain u where u: "u \<in> set ts" by (cases ts) auto
    then have "u \<in> T" "u \<notin> insert t S" using Cons.prems(3,4,6) by auto
    then have "range_of u \<inter> (\<Union>t \<in> insert t S. range_of t) = {}" using T(2) tT(2) by (fastforce simp: pairwise_def)
    moreover have "range_of u \<noteq> {}" "range_of u \<subseteq> {0..<length bs}" using T(1) \<open>u \<in> T\<close> by (force simp: range_of_def frag_ok_def)+
    ultimately have "(\<Union>t \<in> insert t S. range_of t) \<noteq> {0..<length bs}" by blast
    then have I: "rx_inv bs (fragment_id tx dst proto_num) (env_sizeof_impl env) (insert t S) (k + length (pk_frags q)) rx1" "is_arming ev"
      using R(3) by simp_all
    have "k + length (pk_frags q) + ?N \<le> k + sum_list (map (\<lambda>p. length (pk_frags p)) ps)" using H(5) ps(1) by simp
    note le = this mono [OF this]
    have f2: "length bs + 20 + (k + length (pk_frags q) + ?N + 1) * env_sizeof_impl env < 2 ^ 22"
      using le(2) Cons.prems(7) by linarith
    have s2: "k + length (pk_frags q) + ?N < 2 ^ 15" using le(1) Cons.prems(8) by linarith
    have "distinct ts" "set ts \<inter> insert t S = {}" "insert t S \<union> set ts = T" using Cons.prems(3,4,6) by auto
    from Cons.IH [OF I(1) ps(3) this(1,2) False this(3) f2 s2 R(2)]
    obtain evs q' rx' where E: "receive_all env from ps' rx1 = Some (evs @ [Received proto_num q' (ip_host_address tx) dst], rx')"
      "no_delivery evs" "pk_wf q'" "pk_bytes q' = bs" "ip_frags rx' = []" "ip_frags_age rx' = []" "ip_frag_mem rx' = 0" by blast
    have "no_delivery (learn @ ev @ evs)" using H(2) I(2) E(2) by (auto simp: no_delivery_def is_arming_def)
    then show ?thesis using H(1) R(1) E ps(1)
      by (intro exI [of _ "learn @ ev @ evs"] exI [of _ q'] exI [of _ rx']) simp
  qed
qed

lemma mset_eq_mapE:
  assumes "mset xs = mset (map f ys)"
  obtains zs where "mset zs = mset ys" "xs = map f zs"
proof -
  have "\<exists>zs. mset zs = mset ys \<and> xs = map f zs" using assms
  proof (induction ys arbitrary: xs)
    case (Cons y ys)
    have "f y \<in># mset xs" unfolding Cons.prems by simp
    then have "f y \<in> set xs" by simp
    then obtain a b where xs: "xs = a @ f y # b" by (meson split_list)
    then have "mset (a @ b) = mset (map f ys)" using Cons.prems by simp
    then obtain zs where zs: "mset zs = mset ys" "a @ b = map f zs" using Cons.IH by blast
    then obtain z1 z2 where "zs = z1 @ z2" "a = map f z1" "b = map f z2" by (metis append_eq_map_conv)
    then show ?case using xs zs(1) by (intro exI [of _ "z1 @ y # z2"]) simp
  qed simp
  then show ?thesis using that by blast
qed

section \<open>From one machine to another\<close>

lemma ip_send_fragments:
  assumes nf: "needs_frag p proto_num (ip_hw tx)" and off: "\<not> tx_csum_ip_offload (ip_hw tx)"
    and wf: "pk_wf p" and small: "length (pk_frags p) + 1 < 2 ^ 15" and len: "pk_len p \<le> 65515"
    and mtu: "20 < unat (hw_mtu (ip_hw tx))"
  shows "\<exists>qs. ip_send dst proto_num p e_dst tx = Some (tx\<lparr>ip_packetq := ip_packetq tx @ map (Pair e_dst) qs\<rparr>) \<and>
    (\<forall>q \<in> set qs. pk_wf q) \<and>
    map pk_bytes qs = map (wire_bytes tx dst proto_num (pk_bytes p))
      (frag_ranges (unat (hw_mtu (ip_hw tx)) - 20) 0 (length (pk_bytes p)))"
proof -
  have chunk: "unat (hw_mtu (ip_hw tx) - of_nat ipv4_hdr_len_min) = unat (hw_mtu (ip_hw tx)) - 20"
    using mtu by (simp add: ipv4_hdr_len_min_def unat_sub word_le_nat_alt)
  have rem: "unat (of_nat (pk_len p) :: 16 word) = pk_len p" using len unfolding unat_of_nat by (intro mod_less) simp
  have pl: "pk_len p = length (pk_bytes p)" by (rule pk_len_bytes [OF wf])
  have "0 < unat (hw_mtu (ip_hw tx)) - 20" using mtu by simp
  moreover have "0 + length (pk_bytes p) \<le> length (pk_bytes p)" by simp
  ultimately obtain qs where "send_loop dst proto_num e_dst (unat (hw_mtu (ip_hw tx)) - 20) p (length (pk_bytes p)) 0 tx =
      Some (tx\<lparr>ip_packetq := ip_packetq tx @ map (Pair e_dst) qs\<rparr>)" "\<forall>q \<in> set qs. pk_wf q \<and> pk_offload q = pk_offload p"
    "map pk_bytes qs = map (wire_bytes tx dst proto_num (pk_bytes p))
      (frag_ranges (unat (hw_mtu (ip_hw tx)) - 20) 0 (length (pk_bytes p)))"
    using send_loop_correct [OF off wf refl small] by blast
  then show ?thesis unfolding ip_send_def if_P [OF nf] chunk rem unfolding pl by blast
qed

lemma sent_fragments:
  assumes nf: "needs_frag p proto_num hw" and wf: "pk_wf p" and c: "0 < chunk" "8 dvd chunk" "chunk + 20 = unat (hw_mtu hw)"
    and t: "t \<in> set (frag_ranges chunk 0 (length (pk_bytes p)))"
  shows "frag_ok (length (pk_bytes p)) t \<and> 8 dvd fst t \<and> (fst t \<noteq> 0 \<or> 0 < snd (snd t))"
proof -
  obtain off l r where e: "t = (off, l, r)" by (cases t)
  have "chunk < length (pk_bytes p)"
    using nf c(3) pk_len_bytes [OF wf] by (simp add: needs_frag_def ipv4_hdr_len_min_def split: if_splits)
  then show ?thesis
    using frag_ranges_props [OF t [unfolded e]] frag_ranges_aligned [OF t [unfolded e] c(2)] by (auto simp: e frag_ok_def)
qed

text \<open>
  C1. A datagram sent in fragments, with an MTU that leaves a multiple of eight bytes for the payload, is
  received: \<open>ipv4::send\<close> queues fragments such that any packets with the same bytes, arriving in any order,
  make \<open>ipv4::handle_received_packet\<close> of the destination deliver the original payload, once, with the last of
  them, after which the receiver holds no fragments and accounts for no memory.
\<close>

theorem ip_fragments_reassemble:
  assumes "pk_wf p" and "length (pk_frags p) + 1 < 2 ^ 15" and "pk_len p \<le> 65515"
    and "needs_frag p proto_num (ip_hw tx)" and "\<not> tx_csum_ip_offload (ip_hw tx)"
    and "28 \<le> unat (hw_mtu (ip_hw tx))" and "8 dvd unat (hw_mtu (ip_hw tx)) - 20"
    and "ip_has_l4 proto_num" and "single_cpu env" and "0 < env_sizeof_impl env"
    and "ip_frags rx = []" and "ip_frags_age rx = []" and "ip_frag_mem rx = 0"
  shows "\<exists>tx' qs. ip_send (ip_host_address rx) proto_num p e_dst tx = Some tx' \<and>
    ip_packetq tx' = ip_packetq tx @ map (Pair e_dst) qs \<and> (\<forall>q \<in> set qs. pk_wf q) \<and>
    (\<forall>ps. mset (map pk_bytes ps) = mset (map pk_bytes qs) \<and> (\<forall>q \<in> set ps. pk_wf q) \<and>
       sum_list (map (\<lambda>q. length (pk_frags q)) ps) < 2 ^ 15 \<and>
       pk_len p + 20 + (sum_list (map (\<lambda>q. length (pk_frags q)) ps) + 1) * env_sizeof_impl env < 2 ^ 22 \<longrightarrow>
       (\<exists>ev q rx'. receive_all env from ps rx =
            Some (ev @ [Received proto_num q (ip_host_address tx) (ip_host_address rx)], rx') \<and>
          no_delivery ev \<and> pk_wf q \<and> pk_bytes q = pk_bytes p \<and>
          ip_frags rx' = [] \<and> ip_frags_age rx' = [] \<and> ip_frag_mem rx' = 0))"
proof -
  let ?bs = "pk_bytes p" and ?chunk = "unat (hw_mtu (ip_hw tx)) - 20" and ?dst = "ip_host_address rx"
  let ?ts = "frag_ranges ?chunk 0 (length ?bs)"
  have pl: "pk_len p = length ?bs" by (rule pk_len_bytes [OF assms(1)])
  have mtu: "20 < unat (hw_mtu (ip_hw tx))" using assms(6) by simp
  obtain qs where qs: "ip_send ?dst proto_num p e_dst tx = Some (tx\<lparr>ip_packetq := ip_packetq tx @ map (Pair e_dst) qs\<rparr>)"
    "\<forall>q \<in> set qs. pk_wf q" "map pk_bytes qs = map (wire_bytes tx ?dst proto_num ?bs) ?ts"
    using ip_send_fragments [OF assms(4,5,1-3) mtu, of ?dst e_dst] by (elim exE conjE) (rule that; assumption)
  have c: "0 < ?chunk" "?chunk + 20 = unat (hw_mtu (ip_hw tx))" using assms(6) by simp_all
  have ok: "\<forall>t \<in> set ?ts. frag_ok (length ?bs) t \<and> 8 dvd fst t \<and> (fst t \<noteq> 0 \<or> 0 < snd (snd t))"
    by (rule ballI, rule sent_fragments [OF assms(4,1) c(1) assms(7) c(2)])
  have ne: "?bs \<noteq> []" using assms(4,6) pl by (auto simp: needs_frag_def ipv4_hdr_len_min_def split: if_splits)
  have tsne: "?ts \<noteq> []" using ne c(1) by (simp add: frag_ranges.simps [of ?chunk 0])
  have cover: "(\<Union>t \<in> set ?ts. range_of t) = {0..<length ?bs}" using frag_ranges_cover [OF c(1), of 0] by simp
  have rx: "rx_inv ?bs (fragment_id tx ?dst proto_num) (env_sizeof_impl env) {} 0 rx" using assms(11-13) by (simp add: rx_inv_def)
  have "\<exists>ev q rx'. receive_all env from ps rx = Some (ev @ [Received proto_num q (ip_host_address tx) ?dst], rx') \<and>
      no_delivery ev \<and> pk_wf q \<and> pk_bytes q = ?bs \<and> ip_frags rx' = [] \<and> ip_frags_age rx' = [] \<and> ip_frag_mem rx' = 0"
    if ps: "mset (map pk_bytes ps) = mset (map pk_bytes qs)" "\<forall>q \<in> set ps. pk_wf q"
      "sum_list (map (\<lambda>q. length (pk_frags q)) ps) < 2 ^ 15"
      "pk_len p + 20 + (sum_list (map (\<lambda>q. length (pk_frags q)) ps) + 1) * env_sizeof_impl env < 2 ^ 22" for ps
  proof -
    obtain zs where zs: "mset zs = mset ?ts" "map pk_bytes ps = map (wire_bytes tx ?dst proto_num ?bs) zs"
      using mset_eq_mapE [OF ps(1) [unfolded qs(3)]] by blast
    have len: "length zs = length ps" using zs(2) map_eq_imp_length_eq by metis
    have "list_all2 (wire_of tx ?dst proto_num ?bs) zs ps"
    proof (rule list_all2_all_nthI [OF len])
      fix n assume n: "n < length zs"
      then have "pk_bytes (ps ! n) = wire_bytes tx ?dst proto_num ?bs (zs ! n)"
        using arg_cong [OF zs(2), of "\<lambda>xs. xs ! n"] len by simp
      then show "wire_of tx ?dst proto_num ?bs (zs ! n) (ps ! n)" using ps(2) n len by (simp add: wire_of_def)
    qed
    moreover have "distinct zs" "set zs = set ?ts" "zs \<noteq> []"
      using zs(1) tsne frag_ranges_disjoint [of ?chunk 0 "length ?bs"] mset_eq_imp_distinct_iff [OF zs(1)] mset_eq_setD [OF zs(1)] by auto
    ultimately show ?thesis
      using receive_all_fragments [OF rx, of zs ps "set ?ts" "from"] ok cover frag_ranges_disjoint [of ?chunk 0 "length ?bs"]
        assms(3,8-10) ne ps(3,4) pl by simp
  qed
  then show ?thesis using qs(1,2)
    by (intro exI [of _ "tx\<lparr>ip_packetq := ip_packetq tx @ map (Pair e_dst) qs\<rparr>"] exI [of _ qs]) simp
qed

definition sample_host :: "32 word \<Rightarrow> ipv4" where
  "sample_host a = \<lparr>ip_host_address = a, ip_gw_address = 0, ip_netmask = 0,
     ip_hw = \<lparr>tx_csum_ip_offload = False, rx_csum_offload = False, tx_tso = False, tx_ufo = False, hw_mtu = 36\<rparr>,
     ip_frags = [], ip_frags_age = [], ip_frag_mem = 0, ip_timer_armed = False, ip_packetq = [], ip_provider_idx = 0\<rparr>"

definition sample_env :: ip_env where
  "sample_env = \<lparr>env_filter = \<lambda>p h from. (False, p, h), env_l4_forward = \<lambda>proto fh p. (True, fh, p),
     env_rss_key = default_rsskey_40bytes, env_hash2cpu = \<lambda>hash. 0, env_cpu = 0, env_hw_address = [], env_now = 0,
     env_sizeof_impl = 200\<rparr>"

theorem ip_fragments_reassemble_witness:
  "\<exists>tx' qs. ip_send 2 ip_proto_udp (pk_copy_data (replicate 24 7)) [] (sample_host 1) = Some tx' \<and>
    ip_packetq tx' = map (Pair []) qs \<and> length qs = 2 \<and>
    (\<exists>ev q rx'. receive_all sample_env [] (map (\<lambda>q. pk_copy_data (pk_bytes q)) (rev qs)) (sample_host 2) =
         Some (ev @ [Received ip_proto_udp q 1 2], rx') \<and>
       no_delivery ev \<and> pk_wf q \<and> pk_bytes q = replicate 24 7 \<and>
       ip_frags rx' = [] \<and> ip_frags_age rx' = [] \<and> ip_frag_mem rx' = 0)"
proof -
  let ?p = "pk_copy_data (replicate 24 7)" and ?tx = "sample_host 1" and ?rx = "sample_host 2"
  have l: "pk_len ?p = 24" using pk_len_bytes [OF pk_copy_data_wf(1)] by (simp add: pk_copy_data_wf)
  have cpu: "single_cpu sample_env" by (simp add: single_cpu_def sample_env_def default_rsskey_40bytes_def)
  have nf: "needs_frag ?p ip_proto_udp (ip_hw ?tx)"
    by (simp add: needs_frag_def sample_host_def l ipv4_hdr_len_min_def)
  have l4: "ip_has_l4 ip_proto_udp" by (simp add: ip_has_l4_def)
  have H: "length (pk_frags ?p) + 1 < 2 ^ 15" "pk_len ?p \<le> 65515" "\<not> tx_csum_ip_offload (ip_hw ?tx)"
    "28 \<le> unat (hw_mtu (ip_hw ?tx))" "8 dvd unat (hw_mtu (ip_hw ?tx)) - 20" "20 < unat (hw_mtu (ip_hw ?tx))"
    "0 < env_sizeof_impl sample_env" "ip_frags ?rx = []" "ip_frags_age ?rx = []" "ip_frag_mem ?rx = 0"
    by (simp_all add: pk_copy_data_wf l sample_host_def sample_env_def)
  have host: "ip_host_address ?rx = 2" "ip_host_address ?tx = 1" "ip_packetq ?tx = []" by (simp_all add: sample_host_def)
  obtain tx' qs where T: "ip_send 2 ip_proto_udp ?p [] ?tx = Some tx'" "ip_packetq tx' = map (Pair []) qs"
    "\<And>ps. mset (map pk_bytes ps) = mset (map pk_bytes qs) \<Longrightarrow> \<forall>q \<in> set ps. pk_wf q \<Longrightarrow>
       sum_list (map (\<lambda>q. length (pk_frags q)) ps) < 2 ^ 15 \<Longrightarrow>
       pk_len ?p + 20 + (sum_list (map (\<lambda>q. length (pk_frags q)) ps) + 1) * env_sizeof_impl sample_env < 2 ^ 22 \<Longrightarrow>
       \<exists>ev q rx'. receive_all sample_env [] ps ?rx = Some (ev @ [Received ip_proto_udp q 1 2], rx') \<and>
          no_delivery ev \<and> pk_wf q \<and> pk_bytes q = pk_bytes ?p \<and>
          ip_frags rx' = [] \<and> ip_frags_age rx' = [] \<and> ip_frag_mem rx' = 0"
    using ip_fragments_reassemble [OF pk_copy_data_wf(1) H(1,2) nf H(3,4,5) l4 cpu H(7-10), of "[]" "[]", unfolded host append_Nil]
    by blast
  obtain qs' where Q: "ip_send 2 ip_proto_udp ?p [] ?tx = Some (?tx\<lparr>ip_packetq := ip_packetq ?tx @ map (Pair []) qs'\<rparr>)"
    "map pk_bytes qs' = map (wire_bytes ?tx 2 ip_proto_udp (pk_bytes ?p)) (frag_ranges (unat (hw_mtu (ip_hw ?tx)) - 20) 0 (length (pk_bytes ?p)))"
    using ip_send_fragments [OF nf H(3) pk_copy_data_wf(1) H(1,2,6), of 2 "[]"] by blast
  have "tx' = ?tx\<lparr>ip_packetq := ip_packetq ?tx @ map (Pair []) qs'\<rparr>" using T(1) Q(1) by simp
  then have "ip_packetq tx' = map (Pair []) qs'" by (simp add: host(3))
  then have "map (Pair []) qs = map (Pair ([] :: eth_addr)) qs'" using T(2) by simp
  then have qq: "qs = qs'" by (simp add: inj_map_eq_map inj_on_def)
  have "length (map pk_bytes qs') = 2" unfolding Q(2)
    by (simp add: pk_copy_data_wf sample_host_def frag_ranges.simps [of 16 0] frag_ranges.simps [of 16 16] frag_ranges.simps [of 16 8])
  then have two: "length qs = 2" using qq by simp
  let ?ps = "map (\<lambda>q. pk_copy_data (pk_bytes q)) (rev qs)"
  have "map (\<lambda>q. length (pk_frags q)) ?ps = replicate 2 1" "map pk_bytes ?ps = rev (map pk_bytes qs)"
    using two by (auto simp: pk_copy_data_wf rev_map comp_def intro!: nth_equalityI)
  then have S: "sum_list (map (\<lambda>q. length (pk_frags q)) ?ps) = 2" "mset (map pk_bytes ?ps) = mset (map pk_bytes qs)"
    by (simp_all only: sum_list_replicate mset_rev) simp
  have W: "\<forall>q \<in> set ?ps. pk_wf q" by (simp add: pk_copy_data_wf)
  have "\<exists>ev q rx'. receive_all sample_env [] ?ps ?rx = Some (ev @ [Received ip_proto_udp q 1 2], rx') \<and>
          no_delivery ev \<and> pk_wf q \<and> pk_bytes q = pk_bytes ?p \<and>
          ip_frags rx' = [] \<and> ip_frags_age rx' = [] \<and> ip_frag_mem rx' = 0"
    by (rule T(3) [OF S(2) W]; unfold S(1)) (simp_all add: l sample_env_def)
  then show ?thesis using T(1,2) two by (auto simp: pk_copy_data_wf)
qed

end
