(* ===== verification/Slab.thy ===== *)
theory Slab
  imports Bitops
begin

text \<open>
  The slab allocator (\<open>core/slab.hh\<close>).

  An object is its address, a page its index in the vector of pages, which holds \<open>None\<close> where the code holds a
  null pointer.  The intrusive lists are lists of addresses and of page indices with the front first; unlinking
  an element that is not linked, and linking one that is, are undefined (\<open>None\<close>), as is every failed
  assertion.  The fields of the item that the allocator uses are \<open>sl_item\<close>, the page index stored in a live
  item, and the parameter \<open>unlocked\<close> of the operations that assert it.  What the system allocator
  returns is the parameter \<open>mem\<close>.
\<close>

section \<open>Data\<close>

record slab_page_desc =
  sp_page :: nat
  sp_free :: "nat list"
  sp_refcnt :: "32 word"
  sp_index :: nat
  sp_class :: nat

record slab_class =
  sc_free_pages :: "nat list"
  sc_lru :: "nat list"
  sc_size :: nat

record slab =
  sl_sizes :: "nat list"
  sl_classes :: "slab_class list"
  sl_pages :: "slab_page_desc option list"
  sl_page_lru :: "nat list"
  sl_max :: nat
  sl_available :: nat
  sl_allocs :: "64 word"
  sl_frees :: "64 word"
  sl_reclaimer :: bool
  sl_reclaimed :: bool
  sl_has_erase :: bool
  sl_item :: "nat \<Rightarrow> nat option"

datatype slab_result = Bad_alloc | Null | Created nat "nat option"
datatype reclaiming_result = Reclaimed_nothing | Reclaimed_something "nat list"

definition il_erase :: "'a \<Rightarrow> 'a list \<Rightarrow> 'a list option" where
  "il_erase x xs = (if x \<in> set xs then Some (remove1 x xs) else None)"

definition il_push_front :: "'a \<Rightarrow> 'a list \<Rightarrow> 'a list option" where
  "il_push_front x xs = (if x \<in> set xs then None else Some (x # xs))"

definition il_push_back :: "'a \<Rightarrow> 'a list \<Rightarrow> 'a list option" where
  "il_push_back x xs = (if x \<in> set xs then None else Some (xs @ [x]))"

section \<open>Pages\<close>

definition slab_page_new :: "nat \<Rightarrow> nat \<Rightarrow> nat \<Rightarrow> nat \<Rightarrow> nat \<Rightarrow> slab_page_desc" where
  "slab_page_new page objects object_size class_id index =
     \<lparr>sp_page = page, sp_free = map (\<lambda>i. page + i * object_size) [1..<objects], sp_refcnt = 0,
      sp_index = index, sp_class = class_id\<rparr>"

definition allocate_object :: "slab_page_desc \<Rightarrow> (nat \<times> slab_page_desc) option" where
  "allocate_object desc =
     (if sp_free desc = [] then None
      else Some (last (sp_free desc), desc\<lparr>sp_free := butlast (sp_free desc)\<rparr>))"

definition free_object :: "nat \<Rightarrow> slab_page_desc \<Rightarrow> slab_page_desc" where
  "free_object object desc = desc\<lparr>sp_free := sp_free desc @ [object]\<rparr>"

abbreviation cls :: "slab \<Rightarrow> nat \<Rightarrow> slab_class" where "cls s c \<equiv> sl_classes s ! c"

definition page_at :: "slab \<Rightarrow> nat \<Rightarrow> slab_page_desc option" where
  "page_at s i = slot_get (sl_pages s) i"

definition set_page :: "nat \<Rightarrow> slab_page_desc option \<Rightarrow> slab \<Rightarrow> slab" where
  "set_page i p s = s\<lparr>sl_pages := (sl_pages s)[i := p]\<rparr>"

definition set_lru :: "nat \<Rightarrow> nat list \<Rightarrow> slab \<Rightarrow> slab" where
  "set_lru c l s = s\<lparr>sl_classes := (sl_classes s)[c := (cls s c)\<lparr>sc_lru := l\<rparr>]\<rparr>"

definition set_free_pages :: "nat \<Rightarrow> nat list \<Rightarrow> slab \<Rightarrow> slab" where
  "set_free_pages c l s = s\<lparr>sl_classes := (sl_classes s)[c := (cls s c)\<lparr>sc_free_pages := l\<rparr>]\<rparr>"

section \<open>Classes\<close>

definition create_item :: "nat \<Rightarrow> nat \<Rightarrow> nat \<Rightarrow> slab \<Rightarrow> slab option" where
  "create_item c object index s =
     map_option (\<lambda>l. (set_lru c l s)\<lparr>sl_item := (sl_item s)(object \<mapsto> index)\<rparr>)
       (il_push_front object (sc_lru (cls s c)))"

definition evict_lru_item :: "nat \<Rightarrow> (nat \<Rightarrow> bool) \<Rightarrow> slab \<Rightarrow> ((nat \<times> nat) option \<times> slab) option" where
  "evict_lru_item c unlocked s =
     (if sc_lru (cls s c) = [] then Some (None, s)
      else
        let victim = last (sc_lru (cls s c))
        in Option.bind (sl_item s victim) (\<lambda>index.
             if \<not> unlocked victim then None
             else Some (Some (victim, index), set_lru c (butlast (sc_lru (cls s c))) s)))"

definition class_create :: "nat \<Rightarrow> slab \<Rightarrow> (nat \<times> slab) option" where
  "class_create c s =
     (if sc_free_pages (cls s c) = [] then None
      else
        let i = last (sc_free_pages (cls s c))
        in Option.bind (page_at s i) (\<lambda>desc.
             Option.bind (allocate_object desc) (\<lambda>(object, desc).
               let s = set_page i (Some desc) s;
                   s = (if sp_free desc = [] then set_free_pages c (butlast (sc_free_pages (cls s c))) s else s)
               in map_option (Pair object) (create_item c object (sp_index desc) s))))"

definition create_from_new_page :: "nat \<Rightarrow> nat option \<Rightarrow> slab \<Rightarrow> (slab_result \<times> slab) option" where
  "create_from_new_page c mem s =
     (case mem of None \<Rightarrow> Some (Bad_alloc, s)
      | Some page \<Rightarrow>
          let index = length (sl_pages s);
              objects = sl_max s div sc_size (cls s c);
              desc = slab_page_new page objects (sc_size (cls s c)) c index
          in Option.bind (il_push_front index (sc_free_pages (cls s c))) (\<lambda>free_pages.
               let s = set_free_pages c free_pages s;
                   s = (if sl_reclaimer s then s\<lparr>sl_page_lru := index # sl_page_lru s\<rparr> else s);
                   s = s\<lparr>sl_pages := sl_pages s @ [Some desc]\<rparr>
               in map_option (Pair (Created page None)) (create_item c page index s)))"

definition create_from_lru :: "nat \<Rightarrow> (nat \<Rightarrow> bool) \<Rightarrow> slab \<Rightarrow> (slab_result \<times> slab) option" where
  "create_from_lru c unlocked s =
     Option.bind (evict_lru_item c unlocked s) (\<lambda>(ret, s).
       case ret of None \<Rightarrow> Some (Bad_alloc, s)
       | Some (victim, index) \<Rightarrow> map_option (Pair (Created victim (Some victim))) (create_item c victim index s))"

definition free_item :: "nat \<Rightarrow> nat \<Rightarrow> slab_page_desc \<Rightarrow> slab \<Rightarrow> slab option" where
  "free_item object i desc s =
     (let c = sp_class desc
      in Option.bind (il_erase object (sc_lru (cls s c))) (\<lambda>l.
           let s = set_lru c l s;
               desc = free_object object desc;
               s = (set_page i (Some desc) s)\<lparr>sl_item := (sl_item s)(object := None)\<rparr>
           in if length (sp_free desc) = 1
              then map_option (\<lambda>fp. set_free_pages c fp s) (il_push_back i (sc_free_pages (cls s c)))
              else Some s))"

definition touch_item :: "nat \<Rightarrow> nat \<Rightarrow> slab \<Rightarrow> slab option" where
  "touch_item object c s = map_option (\<lambda>l. set_lru c (object # l) s) (il_erase object (sc_lru (cls s c)))"

definition remove_item_from_lru :: "nat \<Rightarrow> nat \<Rightarrow> slab \<Rightarrow> slab option" where
  "remove_item_from_lru object c s = map_option (\<lambda>l. set_lru c l s) (il_erase object (sc_lru (cls s c)))"

definition insert_item_into_lru :: "nat \<Rightarrow> nat \<Rightarrow> slab \<Rightarrow> slab option" where
  "insert_item_into_lru object c s = map_option (\<lambda>l. set_lru c l s) (il_push_front object (sc_lru (cls s c)))"

section \<open>The allocator\<close>

text \<open>The sizes of the classes.  \<open>grow\<close> is the multiplication by the growth factor, a floating-point number;
  the class identifier is asserted to stay below 255.\<close>

fun slab_class_sizes :: "(nat \<Rightarrow> nat) \<Rightarrow> nat \<Rightarrow> nat \<Rightarrow> nat \<Rightarrow> nat \<Rightarrow> nat list option" where
  "slab_class_sizes grow alignment max_size k sz =
     (if 1 < max_size div sz then
        (case k of 0 \<Rightarrow> None
         | Suc k \<Rightarrow>
             let sz = unat (align_up (of_nat sz :: 64 word) (of_nat alignment))
             in map_option ((#) sz) (slab_class_sizes grow alignment max_size k (grow sz)))
      else Some [max_size])"

definition slab_new :: "(nat \<Rightarrow> nat) \<Rightarrow> nat \<Rightarrow> nat \<Rightarrow> nat \<Rightarrow> bool \<Rightarrow> slab option" where
  "slab_new grow alignment limit max_object_size has_erase =
     map_option (\<lambda>sizes.
       \<lparr>sl_sizes = sizes, sl_classes = map (\<lambda>sz. \<lparr>sc_free_pages = [], sc_lru = [], sc_size = sz\<rparr>) sizes,
        sl_pages = [], sl_page_lru = [], sl_max = max_object_size, sl_available = limit div max_object_size,
        sl_allocs = 0, sl_frees = 0, sl_reclaimer = (limit = 0), sl_reclaimed = False, sl_has_erase = has_erase,
        sl_item = \<lambda>_. None\<rparr>)
       (slab_class_sizes grow alignment max_object_size 255 96)"

definition get_slab_class :: "nat \<Rightarrow> slab \<Rightarrow> nat option" where
  "get_slab_class sz s =
     (let dist = length (takeWhile (\<lambda>x. x < sz) (sl_sizes s))
      in if dist = length (sl_sizes s) then None else Some dist)"

definition class_size :: "nat \<Rightarrow> slab \<Rightarrow> nat" where
  "class_size sz s = (case get_slab_class sz s of None \<Rightarrow> 0 | Some c \<Rightarrow> sc_size (cls s c))"

definition get_slab_page_desc :: "nat \<Rightarrow> slab \<Rightarrow> (nat \<times> slab_page_desc) option" where
  "get_slab_page_desc item s = Option.bind (sl_item s item) (\<lambda>i. map_option (Pair i) (page_at s i))"

definition can_allocate_page :: "nat \<Rightarrow> slab \<Rightarrow> bool" where
  "can_allocate_page c s \<longleftrightarrow>
     (sl_reclaimer s \<and> \<not> sl_reclaimed s) \<or> 0 < sl_available s \<or> sc_lru (cls s c) = []"

definition slab_create :: "nat \<Rightarrow> nat option \<Rightarrow> (nat \<Rightarrow> bool) \<Rightarrow> slab \<Rightarrow> (slab_result \<times> slab) option" where
  "slab_create sz mem unlocked s =
     (case get_slab_class sz s of None \<Rightarrow> Some (Bad_alloc, s)
      | Some c \<Rightarrow>
          if sc_free_pages (cls s c) \<noteq> [] then
            map_option (\<lambda>(object, s). (Created object None, s\<lparr>sl_allocs := sl_allocs s + 1\<rparr>)) (class_create c s)
          else if can_allocate_page c s then
            map_option (\<lambda>(r, s).
              if r = Bad_alloc then (r, s)
              else (r, s\<lparr>sl_available := sl_available s - 1, sl_allocs := sl_allocs s + 1\<rparr>))
              (create_from_new_page c mem s)
          else if sl_has_erase s then create_from_lru c unlocked s
          else Some (Null, s))"

definition lock_item :: "nat \<Rightarrow> slab \<Rightarrow> slab option" where
  "lock_item item s =
     Option.bind (get_slab_page_desc item s) (\<lambda>(i, desc).
       Option.bind
         (if sl_reclaimer s then
            let s = set_page i (Some (desc\<lparr>sp_refcnt := sp_refcnt desc + 1\<rparr>)) s
            in if sp_refcnt desc + 1 = 1
               then map_option (\<lambda>l. s\<lparr>sl_page_lru := l\<rparr>) (il_erase i (sl_page_lru s))
               else Some s
          else Some s)
         (remove_item_from_lru item (sp_class desc)))"

definition unlock_item :: "nat \<Rightarrow> slab \<Rightarrow> slab option" where
  "unlock_item item s =
     Option.bind (get_slab_page_desc item s) (\<lambda>(i, desc).
       Option.bind
         (if sl_reclaimer s then
            let s = set_page i (Some (desc\<lparr>sp_refcnt := sp_refcnt desc - 1\<rparr>)) s
            in if sp_refcnt desc - 1 = 0
               then map_option (\<lambda>l. s\<lparr>sl_page_lru := l\<rparr>) (il_push_front i (sl_page_lru s))
               else Some s
          else Some s)
         (insert_item_into_lru item (sp_class desc)))"

definition slab_free :: "nat \<Rightarrow> slab \<Rightarrow> slab option" where
  "slab_free item s =
     Option.bind (get_slab_page_desc item s) (\<lambda>(i, desc).
       map_option (\<lambda>s. s\<lparr>sl_frees := sl_frees s + 1\<rparr>) (free_item item i desc s))"

definition slab_touch :: "nat \<Rightarrow> slab \<Rightarrow> slab option" where
  "slab_touch item s =
     Option.bind (get_slab_page_desc item s) (\<lambda>(i, desc). touch_item item (sp_class desc) s)"

text \<open>Evicting a page: the items on it, in the order in which the erase function gets them.\<close>

fun evict_objects :: "nat list \<Rightarrow> nat list \<Rightarrow> nat \<Rightarrow> (nat \<Rightarrow> bool) \<Rightarrow> slab \<Rightarrow> (nat list \<times> slab) option" where
  "evict_objects [] free_objects c unlocked s = Some ([], s)"
| "evict_objects (object # objects) free_objects c unlocked s =
     (if object \<in> set free_objects then evict_objects objects free_objects c unlocked s
      else if \<not> unlocked object then None
      else
        Option.bind (remove_item_from_lru object c s) (\<lambda>s.
          map_option (\<lambda>(erased, s). (object # erased, s))
            (evict_objects objects free_objects c unlocked
              (s\<lparr>sl_item := (sl_item s)(object := None), sl_frees := sl_frees s + 1\<rparr>))))"

definition evict_lru_slab_page :: "(nat \<Rightarrow> bool) \<Rightarrow> slab \<Rightarrow> (reclaiming_result \<times> slab) option" where
  "evict_lru_slab_page unlocked s =
     (if sl_page_lru s = [] then Some (Reclaimed_nothing, s)
      else
        let i = last (sl_page_lru s)
        in Option.bind (page_at s i) (\<lambda>desc.
             if sp_refcnt desc \<noteq> 0 then None
             else
               let c = sp_class desc
               in Option.bind (if sp_free desc = [] then Some s
                               else map_option (\<lambda>fp. set_free_pages c fp s) (il_erase i (sc_free_pages (cls s c)))) (\<lambda>s.
                    let s = set_page i None (s\<lparr>sl_page_lru := butlast (sl_page_lru s)\<rparr>);
                        objects = map (\<lambda>k. sp_page desc + k * sc_size (cls s c)) [0..<sl_max s div sc_size (cls s c)]
                    in map_option (\<lambda>(erased, s). (Reclaimed_something erased, s))
                         (evict_objects objects (sp_free desc) c unlocked s))))"

definition slab_reclaim :: "(nat \<Rightarrow> bool) \<Rightarrow> slab \<Rightarrow> (reclaiming_result \<times> slab) option" where
  "slab_reclaim unlocked s = evict_lru_slab_page unlocked (s\<lparr>sl_reclaimed := True\<rparr>)"

section \<open>Well-formed allocators\<close>

definition slots :: "nat \<Rightarrow> nat \<Rightarrow> slab_page_desc \<Rightarrow> nat set" where
  "slots max_size sz p = (\<lambda>k. sp_page p + k * sz) ` {..<max_size div sz}"

definition region :: "nat \<Rightarrow> slab_page_desc \<Rightarrow> nat set" where
  "region max_size p = {sp_page p..<sp_page p + max_size}"

text \<open>The invariant, on the parts of the state: the number and sizes of the classes, the pages, the lists of
  the classes, the live items and the list of evictable pages.\<close>

record slab_view =
  vn :: nat
  vmax :: nat
  vsz :: "nat \<Rightarrow> nat"
  vpage :: "nat \<Rightarrow> slab_page_desc option"
  vfree :: "nat \<Rightarrow> nat list"
  vlru :: "nat \<Rightarrow> nat list"
  vitem :: "nat \<Rightarrow> nat option"
  vpl :: "nat list"
  vrec :: bool

definition vslots :: "slab_view \<Rightarrow> slab_page_desc \<Rightarrow> nat set" where
  "vslots v p = slots (vmax v) (vsz v (sp_class p)) p"

lemma vslots_simps [simp]:
  "vslots (v\<lparr>vpage := x1\<rparr>) = vslots v" "vslots (v\<lparr>vfree := x2\<rparr>) = vslots v" "vslots (v\<lparr>vlru := x3\<rparr>) = vslots v"
  "vslots (v\<lparr>vitem := x4\<rparr>) = vslots v" "vslots (v\<lparr>vpl := x5\<rparr>) = vslots v"
  "vslots v (p\<lparr>sp_free := x6\<rparr>) = vslots v p" "vslots v (p\<lparr>sp_refcnt := x7\<rparr>) = vslots v p"
  by (simp_all add: vslots_def slots_def fun_eq_iff)

definition vlocked :: "slab_view \<Rightarrow> slab_page_desc \<Rightarrow> nat set" where
  "vlocked v p = vslots v p - set (sp_free p) - set (vlru v (sp_class p))"

definition pages_ok :: "slab_view \<Rightarrow> bool" where
  "pages_ok v \<longleftrightarrow> (\<forall>i p. vpage v i = Some p \<longrightarrow> sp_index p = i \<and> sp_class p < vn v \<and>
     2 \<le> vmax v div vsz v (sp_class p) \<and> distinct (sp_free p) \<and> set (sp_free p) \<subseteq> vslots v p)"

definition regions_ok :: "slab_view \<Rightarrow> bool" where
  "regions_ok v \<longleftrightarrow> (\<forall>i j p q. vpage v i = Some p \<and> vpage v j = Some q \<and> i \<noteq> j \<longrightarrow>
     region (vmax v) p \<inter> region (vmax v) q = {})"

definition items_ok :: "slab_view \<Rightarrow> bool" where
  "items_ok v \<longleftrightarrow> (\<forall>a i. vitem v a = Some i \<longleftrightarrow> (\<exists>p. vpage v i = Some p \<and> a \<in> vslots v p - set (sp_free p)))"

definition free_ok :: "slab_view \<Rightarrow> bool" where
  "free_ok v \<longleftrightarrow> (\<forall>c < vn v. distinct (vfree v c) \<and>
     (\<forall>i. i \<in> set (vfree v c) \<longleftrightarrow> (\<exists>p. vpage v i = Some p \<and> sp_class p = c \<and> sp_free p \<noteq> [])))"

definition vclass :: "slab_view \<Rightarrow> nat \<Rightarrow> nat option" where
  "vclass v i = map_option sp_class (vpage v i)"

definition lru_ok :: "slab_view \<Rightarrow> bool" where
  "lru_ok v \<longleftrightarrow> (\<forall>c < vn v. distinct (vlru v c) \<and>
     (\<forall>a \<in> set (vlru v c). Option.bind (vitem v a) (vclass v) = Some c))"

definition refs_ok :: "slab_view \<Rightarrow> bool" where
  "refs_ok v \<longleftrightarrow> (vrec v \<longrightarrow> distinct (vpl v) \<and>
     (\<forall>i. i \<in> set (vpl v) \<longleftrightarrow> (\<exists>p. vpage v i = Some p \<and> sp_refcnt p = 0)) \<and>
     (\<forall>i p. vpage v i = Some p \<longrightarrow> sp_refcnt p = of_nat (card (vlocked v p))))"

definition view_ok :: "slab_view \<Rightarrow> bool" where
  "view_ok v \<longleftrightarrow> vmax v < 2 ^ 32 \<and> pages_ok v \<and> regions_ok v \<and> items_ok v \<and> free_ok v \<and> lru_ok v \<and> refs_ok v"

definition slab_view_of :: "slab \<Rightarrow> slab_view" where
  "slab_view_of s = \<lparr>vn = length (sl_classes s), vmax = sl_max s, vsz = \<lambda>c. sc_size (cls s c), vpage = page_at s,
     vfree = \<lambda>c. sc_free_pages (cls s c), vlru = \<lambda>c. sc_lru (cls s c), vitem = sl_item s, vpl = sl_page_lru s,
     vrec = sl_reclaimer s\<rparr>"

definition slab_wf :: "slab \<Rightarrow> bool" where
  "slab_wf s \<longleftrightarrow> view_ok (slab_view_of s) \<and> sl_sizes s = map sc_size (sl_classes s)"

section \<open>The updates of the operations, on views\<close>

lemma slots_mono: "a \<in> slots m sz p \<Longrightarrow> a \<in> region m p \<and> a + sz \<le> sp_page p + m"
proof -
  assume "a \<in> slots m sz p"
  then obtain k where k: "a = sp_page p + k * sz" "k < m div sz" by (auto simp: slots_def)
  then have pos: "0 < sz" by (cases sz) auto
  have "(k + 1) * sz \<le> m div sz * sz" using k(2) by (intro mult_right_mono) auto
  moreover have "(k + 1) * sz = k * sz + sz" by simp
  ultimately have "k * sz + sz \<le> m" using div_times_less_eq_dividend [of m sz] by linarith
  then show ?thesis using k(1) pos by (simp add: region_def)
qed

lemma vslots_page:
  assumes "view_ok v" and "vpage v i = Some p" and "vpage v j = Some q" and "a \<in> vslots v p" and "a \<in> vslots v q"
  shows "i = j"
proof (rule ccontr)
  assume "i \<noteq> j"
  then have "region (vmax v) p \<inter> region (vmax v) q = {}" using assms(1-3) unfolding view_ok_def regions_ok_def by blast
  then show False using assms(4,5) slots_mono unfolding vslots_def by blast
qed

lemma card_slots:
  assumes "view_ok v"
  shows "finite (vslots v p)" "card (vslots v p) < 2 ^ 32" "card (vlocked v p) < 2 ^ 32" "finite (vlocked v p)"
proof -
  show f: "finite (vslots v p)" by (simp add: vslots_def slots_def)
  have "card (vslots v p) \<le> vmax v div vsz v (sp_class p)"
    unfolding vslots_def slots_def using card_image_le [of "{..<vmax v div vsz v (sp_class p)}"] by fastforce
  also have "\<dots> \<le> vmax v" by simp
  also have "\<dots> < 2 ^ 32" using assms by (simp add: view_ok_def)
  finally show c: "card (vslots v p) < 2 ^ 32" .
  have "card (vlocked v p) \<le> card (vslots v p)" by (intro card_mono f) (auto simp: vlocked_def)
  then show "card (vlocked v p) < 2 ^ 32" using c by linarith
  show "finite (vlocked v p)" using f by (simp add: vlocked_def)
qed

lemma page_okD:
  assumes "view_ok v" and "vpage v i = Some p"
  shows "sp_index p = i" "sp_class p < vn v" "2 \<le> vmax v div vsz v (sp_class p)" "distinct (sp_free p)" "set (sp_free p) \<subseteq> vslots v p"
  using assms unfolding view_ok_def pages_ok_def by blast+

lemma lru_okD:
  assumes "view_ok v" and "c < vn v"
  shows "distinct (vlru v c)" "a \<in> set (vlru v c) \<Longrightarrow> Option.bind (vitem v a) (vclass v) = Some c"
  using assms unfolding view_ok_def lru_ok_def by blast+

lemma lru_item:
  assumes "view_ok v" and "c < vn v" and "a \<in> set (vlru v c)"
  shows "vitem v a \<noteq> None"
  using lru_okD(2) [OF assms] by (cases "vitem v a") simp_all

text \<open>Taking a free object of a page, or giving one back.\<close>

lemma view_take:
  assumes ok: "view_ok v" and p: "vpage v i = Some p" "sp_free p = fs @ [a]"
    and c: "c = sp_class p" and F: "set (vfree v c) = (if fs = [] then insert i (set F) else set F)" "distinct F" "fs = [] \<Longrightarrow> i \<notin> set F"
  shows "view_ok (v\<lparr>vpage := (vpage v)(i \<mapsto> p\<lparr>sp_free := fs\<rparr>), vfree := (vfree v)(c := F),
     vlru := (vlru v)(c := a # vlru v c), vitem := (vitem v)(a \<mapsto> i)\<rparr>)" (is "view_ok ?v")
    and "vitem v a = None" and "a \<notin> set (vlru v c)"
proof -
  have P: "sp_class p < vn v" "distinct (fs @ [a])" "set (fs @ [a]) \<subseteq> vslots v p" "2 \<le> vmax v div vsz v (sp_class p)" "sp_index p = i"
    using page_okD [OF ok p(1)] by (simp_all add: p(2))
  have slots: "vslots ?v = vslots v" by (simp add: vslots_def fun_eq_iff)
  have sp: "vslots v (p\<lparr>sp_free := fs\<rparr>) = vslots v p" by (simp add: vslots_def slots_def)
  show none: "vitem v a = None"
  proof (rule ccontr)
    assume "vitem v a \<noteq> None"
    then obtain j q where q: "vpage v j = Some q" "a \<in> vslots v q - set (sp_free q)"
      using ok unfolding view_ok_def items_ok_def by blast
    then have "j = i" using vslots_page [OF ok q(1) p(1)] P(3) by auto
    then show False using q p by simp
  qed
  then show lru: "a \<notin> set (vlru v c)" using lru_item [OF ok, of c a] P(1) c none by blast
  have "pages_ok ?v" using ok P sp p by (auto simp: view_ok_def pages_ok_def slots)
  moreover have "regions_ok ?v" using ok p unfolding view_ok_def regions_ok_def by (auto simp: region_def)
  moreover have "items_ok ?v"
    unfolding items_ok_def slots
  proof (intro allI)
    fix b j
    have old: "vitem v b = Some j \<longleftrightarrow> (\<exists>p. vpage v j = Some p \<and> b \<in> vslots v p - set (sp_free p))" for b j
      using ok by (simp add: view_ok_def items_ok_def)
    show "vitem ?v b = Some j \<longleftrightarrow> (\<exists>p. vpage ?v j = Some p \<and> b \<in> vslots v p - set (sp_free p))"
    proof (cases "j = i")
      case True
      have "(\<exists>p. vpage ?v j = Some p \<and> b \<in> vslots v p - set (sp_free p)) \<longleftrightarrow> b \<in> vslots v p - set fs"
        using True sp by simp
      moreover have "b \<in> vslots v p - set fs \<longleftrightarrow> b = a \<or> vitem v b = Some i"
        using P(2,3) p unfolding old by auto
      ultimately show ?thesis using True by auto
    next
      case False
      then have "b \<noteq> a" if "vpage v j = Some q" "b \<in> vslots v q" for q
        using vslots_page [OF ok that(1) p(1) that(2)] P(3) by auto
      then show ?thesis using False old [of b j] none by auto
    qed
  qed
  moreover have "free_ok ?v"
    using ok F p c P(1) unfolding view_ok_def free_ok_def by (auto split: if_splits)
  moreover have "lru_ok ?v"
  proof -
    have vc: "vclass ?v = vclass v" using p by (auto simp: vclass_def fun_eq_iff)
    have "vclass v i = Some c" using p c by (simp add: vclass_def)
    moreover have "a \<notin> set (vlru v c')" if "c' < vn v" for c'
      using lru_item [OF ok that, of a] none by blast
    ultimately show ?thesis using ok lru unfolding view_ok_def lru_ok_def vc by auto
  qed
  moreover have "refs_ok ?v"
  proof -
    have "vlocked ?v q = vlocked v q" if "vpage v j = Some q" "j \<noteq> i" for j q
    proof -
      have "a \<notin> vslots v q" using vslots_page [OF ok that(1) p(1)] that(2) P(3) by auto
      then show ?thesis by (auto simp: vlocked_def slots)
    qed
    moreover have "vlocked ?v (p\<lparr>sp_free := fs\<rparr>) = vlocked v p"
      using P p c lru by (auto simp: vlocked_def slots sp)
    ultimately show ?thesis using ok p unfolding view_ok_def refs_ok_def by auto
  qed
  ultimately show "view_ok ?v" using ok by (simp add: view_ok_def)
qed

lemma item_okD:
  assumes "view_ok v" and "vitem v a = Some i"
  obtains p where "vpage v i = Some p" "a \<in> vslots v p" "a \<notin> set (sp_free p)"
  using assms unfolding view_ok_def items_ok_def by blast

lemma view_put:
  assumes ok: "view_ok v" and p: "vpage v i = Some p" and a: "vitem v a = Some i" "c = sp_class p" "a \<in> set (vlru v c)"
    and F: "set F = insert i (set (vfree v c))" "distinct F"
  shows "view_ok (v\<lparr>vpage := (vpage v)(i \<mapsto> p\<lparr>sp_free := sp_free p @ [a]\<rparr>), vfree := (vfree v)(c := F),
     vlru := (vlru v)(c := remove1 a (vlru v c)), vitem := (vitem v)(a := None)\<rparr>)" (is "view_ok ?v")
proof -
  note P = page_okD [OF ok p]
  obtain q where "vpage v i = Some q" "a \<in> vslots v q" "a \<notin> set (sp_free q)" using item_okD [OF ok a(1)] .
  then have as: "a \<in> vslots v p" "a \<notin> set (sp_free p)" using p by simp_all
  have slots: "vslots ?v = vslots v" by (simp add: vslots_def fun_eq_iff)
  let ?p = "p\<lparr>sp_free := sp_free p @ [a]\<rparr>"
  have sp: "vslots v ?p = vslots v p" by (simp add: vslots_def slots_def)
  have d: "distinct (vlru v c)" using lru_okD(1) [OF ok, of c] P(2) a(2) by simp
  have other: "a \<notin> vslots v q" if "vpage v j = Some q" "j \<noteq> i" for j q
    using vslots_page [OF ok that(1) p _ as(1)] that(2) by blast
  have "pages_ok ?v" using ok P sp p as by (auto simp: view_ok_def pages_ok_def slots)
  moreover have "regions_ok ?v" using ok p unfolding view_ok_def regions_ok_def by (auto simp: region_def)
  moreover have "items_ok ?v"
    unfolding items_ok_def slots
  proof (intro allI)
    fix b j
    have old: "vitem v b = Some j \<longleftrightarrow> (\<exists>p. vpage v j = Some p \<and> b \<in> vslots v p - set (sp_free p))" for b j
      using ok by (simp add: view_ok_def items_ok_def)
    show "vitem ?v b = Some j \<longleftrightarrow> (\<exists>p. vpage ?v j = Some p \<and> b \<in> vslots v p - set (sp_free p))"
    proof (cases "j = i")
      case True
      have "(\<exists>p. vpage ?v j = Some p \<and> b \<in> vslots v p - set (sp_free p)) \<longleftrightarrow> b \<in> vslots v p - set (sp_free p) \<and> b \<noteq> a"
        using True sp by auto
      moreover have "b \<in> vslots v p - set (sp_free p) \<longleftrightarrow> vitem v b = Some i" using p unfolding old by auto
      ultimately show ?thesis using True by auto
    next
      case False
      then show ?thesis using old [of b j] other by auto
    qed
  qed
  moreover have "free_ok ?v"
    using ok F p a(2) P(2) unfolding view_ok_def free_ok_def by (auto split: if_splits)
  moreover have "lru_ok ?v"
  proof -
    have vc: "vclass ?v = vclass v" using p by (auto simp: vclass_def fun_eq_iff)
    have "vclass v i = Some c" using p a(2) by (simp add: vclass_def)
    then have "a \<notin> set (vlru v c')" if "c' < vn v" "c' \<noteq> c" for c'
      using lru_okD(2) [OF ok that(1), of a] a(1) that(2) by auto
    then show ?thesis using ok d unfolding view_ok_def lru_ok_def vc by auto
  qed
  moreover have "refs_ok ?v"
  proof -
    have "vlocked ?v q = vlocked v q" if "vpage v j = Some q" "j \<noteq> i" for j q
      using other [OF that] d by (auto simp: vlocked_def slots)
    moreover have "vlocked ?v ?p = vlocked v p"
      using as d a by (auto simp: vlocked_def slots sp)
    ultimately show ?thesis using ok p unfolding view_ok_def refs_ok_def by auto
  qed
  ultimately show ?thesis using ok by (simp add: view_ok_def)
qed

text \<open>Locking and unlocking an item.\<close>

lemma view_lru:
  assumes ok: "view_ok v" and p: "vpage v i = Some p" and a: "vitem v a = Some i" "c = sp_class p"
    and L: "set L \<union> {a} = set (vlru v c) \<union> {a}" "distinct L"
    and r: "vrec v \<Longrightarrow> r = of_nat (card (insert a (vlocked v p) - set L))"
    and PL: "vrec v \<Longrightarrow> distinct PL \<and> (\<forall>j. j \<noteq> i \<longrightarrow> (j \<in> set PL \<longleftrightarrow> j \<in> set (vpl v))) \<and> (i \<in> set PL \<longleftrightarrow> r = 0)"
  shows "view_ok (v\<lparr>vpage := (vpage v)(i \<mapsto> p\<lparr>sp_refcnt := r\<rparr>), vlru := (vlru v)(c := L), vpl := PL\<rparr>)" (is "view_ok ?v")
proof -
  note P = page_okD [OF ok p]
  obtain q where "vpage v i = Some q" "a \<in> vslots v q" "a \<notin> set (sp_free q)" using item_okD [OF ok a(1)] .
  then have as: "a \<in> vslots v p" "a \<notin> set (sp_free p)" using p by simp_all
  have slots: "vslots ?v = vslots v" by (simp add: vslots_def fun_eq_iff)
  let ?p = "p\<lparr>sp_refcnt := r\<rparr>"
  have sp: "vslots v ?p = vslots v p" by (simp add: vslots_def slots_def)
  have other: "a \<notin> vslots v q" if "vpage v j = Some q" "j \<noteq> i" for j q
    using vslots_page [OF ok that(1) p _ as(1)] that(2) by blast
  have "pages_ok ?v" using ok P sp p by (auto simp: view_ok_def pages_ok_def slots)
  moreover have "regions_ok ?v" using ok p unfolding view_ok_def regions_ok_def by (auto simp: region_def)
  moreover have "items_ok ?v" using ok p unfolding view_ok_def items_ok_def slots by (auto simp: sp)
  moreover have "free_ok ?v" using ok p unfolding view_ok_def free_ok_def by auto
  moreover have "lru_ok ?v"
  proof -
    have vc: "vclass ?v = vclass v" using p by (auto simp: vclass_def fun_eq_iff)
    have "vclass v i = Some c" using p a(2) by (simp add: vclass_def)
    then have "Option.bind (vitem v a) (vclass v) = Some c" using a(1) by simp
    moreover have "b \<in> set L \<Longrightarrow> b = a \<or> b \<in> set (vlru v c)" for b using L(1) by auto
    ultimately show ?thesis using ok L(2) P(2) a(2) unfolding view_ok_def lru_ok_def vc by auto
  qed
  moreover have "refs_ok ?v"
  proof -
    have "vlocked ?v q = vlocked v q" if "vpage v j = Some q" "j \<noteq> i" for j q
      using other [OF that] L(1) by (auto simp: vlocked_def slots)
    moreover have "vlocked ?v ?p = insert a (vlocked v p) - set L"
      using as L(1) a by (auto simp: vlocked_def slots sp)
    ultimately show ?thesis using ok p r PL unfolding view_ok_def refs_ok_def by auto
  qed
  ultimately show ?thesis using ok by (simp add: view_ok_def)
qed

text \<open>A new page, whose first object is taken at once.\<close>

lemma view_new_page:
  assumes ok: "view_ok v" and i: "vpage v i = None" and c: "c < vn v" "2 \<le> vmax v div vsz v c"
    and fresh: "\<And>j q. vpage v j = Some q \<Longrightarrow> {page..<page + vmax v} \<inter> region (vmax v) q = {}"
    and p: "p = slab_page_new page (vmax v div vsz v c) (vsz v c) c i"
    and F: "F = i # vfree v c" and PL: "vrec v \<Longrightarrow> PL = i # vpl v"
  shows "view_ok (v\<lparr>vpage := (vpage v)(i \<mapsto> p), vfree := (vfree v)(c := F),
     vlru := (vlru v)(c := page # vlru v c), vitem := (vitem v)(page \<mapsto> i), vpl := PL\<rparr>)" (is "view_ok ?v")
    and "vitem v page = None" and "page \<notin> set (vlru v c)" and "i \<notin> set (vfree v c)"
proof -
  have pos: "0 < vsz v c" using c(2) by (cases "vsz v c") auto
  have slots: "vslots ?v = vslots v" by (simp add: vslots_def fun_eq_iff)
  have P: "sp_page p = page" "sp_free p = map (\<lambda>k. page + k * vsz v c) [1..<vmax v div vsz v c]" "sp_refcnt p = 0"
    "sp_index p = i" "sp_class p = c" by (simp_all add: p slab_page_new_def)
  have sp: "vslots v p = (\<lambda>k. page + k * vsz v c) ` {..<vmax v div vsz v c}" by (simp add: vslots_def slots_def P)
  have first: "page \<in> vslots v p" "page \<notin> set (sp_free p)" "vslots v p - set (sp_free p) = {page}"
    using c(2) pos unfolding sp P by (auto simp: image_iff)
  have other: "b \<notin> vslots v p" if "vpage v j = Some q" "b \<in> vslots v q" for j q b
  proof
    assume "b \<in> vslots v p"
    then have "b \<in> region (vmax v) p" using slots_mono unfolding vslots_def by blast
    moreover have "b \<in> region (vmax v) q" using that(2) slots_mono unfolding vslots_def by blast
    ultimately show False using fresh [OF that(1)] by (auto simp: region_def P)
  qed
  show none: "vitem v page = None"
  proof (rule ccontr)
    assume "vitem v page \<noteq> None"
    then obtain j where "vitem v page = Some j" by blast
    then obtain q where "vpage v j = Some q" "page \<in> vslots v q" by (rule item_okD [OF ok])
    then show False using other first(1) by blast
  qed
  then show lru: "page \<notin> set (vlru v c)" using lru_item [OF ok c(1)] by blast
  show nf: "i \<notin> set (vfree v c)" using ok i c(1) unfolding view_ok_def free_ok_def by force
  have "pages_ok ?v"
  proof -
    have "distinct (sp_free p)" using pos by (simp add: P distinct_map inj_on_def)
    moreover have "set (sp_free p) \<subseteq> vslots v p" unfolding sp P by auto
    ultimately show ?thesis using ok c P by (auto simp: view_ok_def pages_ok_def slots)
  qed
  moreover have "regions_ok ?v" using ok fresh unfolding view_ok_def regions_ok_def by (auto simp: region_def P)
  moreover have "items_ok ?v"
    unfolding items_ok_def slots
  proof (intro allI)
    fix b j
    have old: "vitem v b = Some j \<longleftrightarrow> (\<exists>p. vpage v j = Some p \<and> b \<in> vslots v p - set (sp_free p))" for b j
      using ok by (simp add: view_ok_def items_ok_def)
    show "vitem ?v b = Some j \<longleftrightarrow> (\<exists>p. vpage ?v j = Some p \<and> b \<in> vslots v p - set (sp_free p))"
    proof (cases "j = i")
      case True
      then show ?thesis using first(3) i old [of b i] by auto
    next
      case False
      then show ?thesis using old [of b j] other first(1) by auto
    qed
  qed
  moreover have "free_ok ?v"
  proof -
    have "sp_free p \<noteq> []" using c(2) by (simp add: P)
    then show ?thesis using ok i nf unfolding F view_ok_def free_ok_def by (auto simp: P)
  qed
  moreover have "lru_ok ?v"
  proof -
    have "vclass ?v i = Some c" by (simp add: vclass_def P)
    moreover have "Option.bind (vitem ?v b) (vclass ?v) = Option.bind (vitem v b) (vclass v)" if "b \<noteq> page" for b
    proof -
      have "vitem v b \<noteq> Some i" using ok i unfolding view_ok_def items_ok_def by force
      then show ?thesis using that by (cases "vitem v b") (auto simp: vclass_def)
    qed
    moreover have "page \<notin> set (vlru v c')" if "c' < vn v" for c'
      using lru_item [OF ok that, of page] none by blast
    ultimately show ?thesis using ok lru unfolding view_ok_def lru_ok_def by auto
  qed
  moreover have "refs_ok ?v"
  proof -
    have "vlocked ?v q = vlocked v q" if "vpage v j = Some q" for j q
      using other [OF that] first(1) by (auto simp: vlocked_def slots)
    moreover have "vlocked ?v p = {}" using first(3) by (auto simp: vlocked_def slots P)
    moreover have "i \<notin> set (vpl v)" if "vrec v" using ok i that unfolding view_ok_def refs_ok_def by force
    ultimately show ?thesis using ok i PL P(3) unfolding view_ok_def refs_ok_def by auto
  qed
  ultimately show "view_ok ?v" using ok by (simp add: view_ok_def)
qed

text \<open>Dropping a page on which nothing is locked.\<close>

lemma view_drop:
  assumes ok: "view_ok v" and p: "vpage v i = Some p" "sp_refcnt p = 0" and rc: "vrec v" and c: "c = sp_class p"
    and F: "distinct F" "\<And>j. j \<in> set F \<longleftrightarrow> j \<in> set (vfree v c) \<and> j \<noteq> i"
    and PL: "distinct PL" "\<And>j. j \<in> set PL \<longleftrightarrow> j \<in> set (vpl v) \<and> j \<noteq> i"
    and L: "L = filter (\<lambda>a. a \<notin> vslots v p - set (sp_free p)) (vlru v c)"
    and X: "\<And>a. X a = (if a \<in> vslots v p - set (sp_free p) then None else vitem v a)"
  shows "view_ok (v\<lparr>vpage := (vpage v)(i := None), vfree := (vfree v)(c := F),
     vlru := (vlru v)(c := L), vitem := X, vpl := PL\<rparr>)" (is "view_ok ?v")
    and "vslots v p - set (sp_free p) \<subseteq> set (vlru v c)"
proof -
  note P = page_okD [OF ok p(1)]
  have "of_nat (card (vlocked v p)) = (0 :: 32 word)" using ok p rc unfolding view_ok_def refs_ok_def by auto
  then have "card (vlocked v p) = 0"
    using card_slots(3) [OF ok, of p] using unat_of_nat [where 'a = 32, of "card (vlocked v p)"] by simp
  then have "vlocked v p = {}" using card_slots(4) [OF ok] by simp
  then show "vslots v p - set (sp_free p) \<subseteq> set (vlru v c)" using c by (auto simp: vlocked_def)
  have other: "b \<notin> vslots v p" if "vpage v j = Some q" "j \<noteq> i" "b \<in> vslots v q" for j q b
    using vslots_page [OF ok that(1) p(1) that(3)] that(2) by blast
  have old: "vitem v b = Some j \<longleftrightarrow> (\<exists>p. vpage v j = Some p \<and> b \<in> vslots v p - set (sp_free p))" for b j
    using ok by (simp add: view_ok_def items_ok_def)
  have Xj: "X b = Some j \<longleftrightarrow> j \<noteq> i \<and> vitem v b = Some j" for b j
    using X [of b] old [of b i] old [of b j] other [of j _ b] p(1) by auto
  have "pages_ok ?v" using ok by (auto simp: view_ok_def pages_ok_def)
  moreover have "regions_ok ?v" using ok unfolding view_ok_def regions_ok_def by (auto simp: region_def)
  moreover have "items_ok ?v" unfolding items_ok_def using old Xj by auto
  moreover have "free_ok ?v" using ok F c P(2) p(1) unfolding view_ok_def free_ok_def by auto
  moreover have "lru_ok ?v"
  proof -
    have "Option.bind (X a) (vclass ?v) = Some c'" if "a \<in> set (vlru ?v c')" "c' < vn v" for a c'
    proof -
      have a: "a \<in> set (vlru v c')" "c' = c \<Longrightarrow> a \<notin> vslots v p - set (sp_free p)" using that(1) by (auto simp: L split: if_splits)
      have "Option.bind (vitem v a) (vclass v) = Some c'" by (rule lru_okD(2) [OF ok that(2) a(1)])
      then obtain j where j: "vitem v a = Some j" "vclass v j = Some c'" by (cases "vitem v a") auto
      have "j \<noteq> i"
      proof
        assume "j = i"
        then have "c' = c" "a \<in> vslots v p - set (sp_free p)" using j p(1) c old [of a i] by (auto simp: vclass_def)
        then show False using a(2) by blast
      qed
      then show ?thesis using j Xj [of a j] by (auto simp: vclass_def)
    qed
    moreover have "distinct (vlru ?v c')" if "c' < vn v" for c' using lru_okD(1) [OF ok that] by (auto simp: L)
    ultimately show ?thesis by (simp add: lru_ok_def)
  qed
  moreover have "refs_ok ?v"
  proof -
    have "vlocked ?v q = vlocked v q" if "vpage v j = Some q" "j \<noteq> i" for j q
      using other [OF that] L by (auto simp: vlocked_def)
    then show ?thesis using ok p PL unfolding view_ok_def refs_ok_def by auto
  qed
  ultimately show "view_ok ?v" using ok by (simp add: view_ok_def)
qed

section \<open>The operations on views\<close>

lemma nth_update_if: "xs[d := x] ! c = (if c = d \<and> d < length xs then x else xs ! c)"
  by (cases "d < length xs") (auto simp: list_update_beyond)

lemma cls_updates [simp]:
  "cls (set_page i p s) c = cls s c"
  "cls (set_lru d l s) c = (if c = d \<and> d < length (sl_classes s) then (cls s c)\<lparr>sc_lru := l\<rparr> else cls s c)"
  "cls (set_free_pages d l s) c = (if c = d \<and> d < length (sl_classes s) then (cls s c)\<lparr>sc_free_pages := l\<rparr> else cls s c)"
  by (simp_all add: set_page_def set_lru_def set_free_pages_def nth_update_if)

lemma slab_fields [simp]:
  "sl_classes (set_page i p s) = sl_classes s" "length (sl_classes (set_lru c l s)) = length (sl_classes s)"
  "length (sl_classes (set_free_pages c l s)) = length (sl_classes s)"
  "sl_pages (set_lru c l s) = sl_pages s" "sl_pages (set_free_pages c l s) = sl_pages s"
  "sl_item (set_page i p s) = sl_item s" "sl_item (set_lru c l s) = sl_item s" "sl_item (set_free_pages c l s) = sl_item s"
  "sl_page_lru (set_page i p s) = sl_page_lru s" "sl_page_lru (set_lru c l s) = sl_page_lru s"
  "sl_page_lru (set_free_pages c l s) = sl_page_lru s"
  "sl_max (set_page i p s) = sl_max s" "sl_max (set_lru c l s) = sl_max s" "sl_max (set_free_pages c l s) = sl_max s"
  "sl_reclaimer (set_page i p s) = sl_reclaimer s" "sl_reclaimer (set_lru c l s) = sl_reclaimer s"
  "sl_reclaimer (set_free_pages c l s) = sl_reclaimer s"
  "sl_sizes (set_page i p s) = sl_sizes s" "sl_sizes (set_lru c l s) = sl_sizes s" "sl_sizes (set_free_pages c l s) = sl_sizes s"
  "page_at (set_lru c l s) = page_at s" "page_at (set_free_pages c l s) = page_at s"
  by (simp_all add: set_page_def set_lru_def set_free_pages_def page_at_def fun_eq_iff)

lemma slab_frees [simp]: "sl_frees (set_lru c l s) = sl_frees s" "sl_frees (set_page i p s) = sl_frees s" "sl_frees (set_free_pages c l s) = sl_frees s"
  by (simp_all add: set_lru_def set_page_def set_free_pages_def)

lemma map_size [simp]: "map sc_size (sl_classes (set_lru c l s)) = map sc_size (sl_classes s)"
  "map sc_size (sl_classes (set_free_pages c l s)) = map sc_size (sl_classes s)"
  by (rule nth_equalityI; simp)+

lemma page_at_set_page: "i < length (sl_pages s) \<Longrightarrow> page_at (set_page i p s) = (page_at s)(i := p)"
  by (auto simp: page_at_def set_page_def slot_get_update fun_eq_iff)

lemma page_at_bound: "page_at s i = Some p \<Longrightarrow> i < length (sl_pages s)"
  by (auto simp: page_at_def dest: slot_get_SomeD)

lemma page_at_other [simp]: "page_at (s\<lparr>sl_item := x1\<rparr>) = page_at s" "page_at (s\<lparr>sl_page_lru := x2\<rparr>) = page_at s"
  "page_at (s\<lparr>sl_allocs := x3\<rparr>) = page_at s" "page_at (s\<lparr>sl_frees := x4\<rparr>) = page_at s" "page_at (s\<lparr>sl_available := x5\<rparr>) = page_at s"
  "page_at (s\<lparr>sl_reclaimed := x6\<rparr>) = page_at s"
  by (simp_all add: page_at_def fun_eq_iff)

lemma page_at_append [simp]:
  "page_at (r\<lparr>sl_pages := sl_pages s @ [x]\<rparr>) i = (if i = length (sl_pages s) then x else page_at s i)"
  by (simp add: page_at_def slot_get_def nth_append)

lemma view_simps [simp]:
  "vn (slab_view_of s) = length (sl_classes s)" "vmax (slab_view_of s) = sl_max s" "vsz (slab_view_of s) c = sc_size (cls s c)"
  "vpage (slab_view_of s) = page_at s" "vfree (slab_view_of s) c = sc_free_pages (cls s c)" "vlru (slab_view_of s) c = sc_lru (cls s c)"
  "vitem (slab_view_of s) = sl_item s" "vpl (slab_view_of s) = sl_page_lru s" "vrec (slab_view_of s) = sl_reclaimer s"
  by (simp_all add: slab_view_of_def)

lemma view_eqI:
  assumes "vn v = vn w" "vmax v = vmax w" "\<And>c. vsz v c = vsz w c" "\<And>i. vpage v i = vpage w i" "\<And>c. vfree v c = vfree w c"
    "\<And>c. vlru v c = vlru w c" "\<And>a. vitem v a = vitem w a" "vpl v = vpl w" "vrec v = vrec w"
  shows "v = (w :: slab_view)"
  using assms by (intro slab_view.equality) (simp_all add: fun_eq_iff)

definition live :: "slab \<Rightarrow> nat set" where
  "live s = {a. sl_item s a \<noteq> None}"

definition locked :: "slab \<Rightarrow> nat set" where
  "locked s = live s - (\<Union>c < length (sl_classes s). set (sc_lru (cls s c)))"

lemma locked_iff: "a \<in> locked s \<longleftrightarrow> a \<in> live s \<and> \<not> (\<exists>c < length (sl_classes s). a \<in> set (sc_lru (cls s c)))"
  by (auto simp: locked_def)

lemma lru_live: "slab_wf s \<Longrightarrow> c < length (sl_classes s) \<Longrightarrow> a \<in> set (sc_lru (cls s c)) \<Longrightarrow> a \<in> live s - locked s"
  using lru_item [of "slab_view_of s" c a] by (auto simp: slab_wf_def live_def locked_def)

text \<open>A live item, its page and its class.\<close>

lemma live_page:
  assumes "slab_wf s" and "a \<in> live s"
  obtains i p where "sl_item s a = Some i" "page_at s i = Some p" "i < length (sl_pages s)" "sp_class p < length (sl_classes s)"
    "sp_index p = i" "a \<in> locked s \<longleftrightarrow> a \<notin> set (sc_lru (cls s (sp_class p)))"
proof -
  have ok: "view_ok (slab_view_of s)" using assms(1) by (simp add: slab_wf_def)
  obtain i where i: "sl_item s a = Some i" using assms(2) by (auto simp: live_def)
  then have "vitem (slab_view_of s) a = Some i" by simp
  then obtain p where p: "page_at s i = Some p" using item_okD [OF ok] by (metis view_simps(4))
  then have P: "sp_class p < length (sl_classes s)" "sp_index p = i" using page_okD(1,2) [OF ok, of i p] by simp_all
  have "c = sp_class p" if "c < length (sl_classes s)" "a \<in> set (sc_lru (cls s c))" for c
    using lru_okD(2) [OF ok, of c a] that i p by (simp add: vclass_def)
  then have "a \<in> locked s \<longleftrightarrow> a \<notin> set (sc_lru (cls s (sp_class p)))" using P(1) assms(2) by (auto simp: locked_def)
  then show thesis using that i p P page_at_bound [OF p] by blast
qed

lemma get_desc: "sl_item s a = Some i \<Longrightarrow> page_at s i = Some p \<Longrightarrow> get_slab_page_desc a s = Some (i, p)"
  by (simp add: get_slab_page_desc_def)

lemma free_okD:
  assumes "view_ok v" and "c < vn v"
  shows "distinct (vfree v c)" "j \<in> set (vfree v c) \<longleftrightarrow> (\<exists>p. vpage v j = Some p \<and> sp_class p = c \<and> sp_free p \<noteq> [])"
  using assms unfolding view_ok_def free_ok_def by blast+

text \<open>Creating an item in a page with free objects.\<close>

lemma class_create_ok:
  assumes wf: "slab_wf s" and c: "c < length (sl_classes s)" and ne: "sc_free_pages (cls s c) \<noteq> []"
  shows "\<exists>a s'. class_create c s = Some (a, s') \<and> slab_wf s' \<and> a \<notin> live s \<and> live s' = insert a (live s) \<and> locked s' = locked s"
proof -
  let ?v = "slab_view_of s"
  have ok: "view_ok ?v" and sz: "sl_sizes s = map sc_size (sl_classes s)" using wf by (simp_all add: slab_wf_def)
  obtain gs i where gs: "sc_free_pages (cls s c) = gs @ [i]" using ne by (metis append_butlast_last_id)
  have F: "distinct (gs @ [i])" "\<And>j. j \<in> set (gs @ [i]) \<longleftrightarrow> (\<exists>p. page_at s j = Some p \<and> sp_class p = c \<and> sp_free p \<noteq> [])"
    using free_okD [OF ok, of c] c gs by simp_all
  obtain p where p: "page_at s i = Some p" "sp_class p = c" "sp_free p \<noteq> []" using F(2) [of i] by auto
  obtain fs a where fs: "sp_free p = fs @ [a]" using p(3) by (metis append_butlast_last_id)
  let ?p = "p\<lparr>sp_free := fs\<rparr>"
  obtain G where G: "G = (if fs = [] then gs else gs @ [i])" by blast
  have vp: "vpage ?v i = Some p" and cp: "c = sp_class p" using p by simp_all
  have idx: "sp_index p = i" by (rule page_okD(1) [OF ok vp])
  have F1: "set (vfree ?v c) = (if fs = [] then insert i (set G) else set G)" using gs by (auto simp: G)
  have F2: "distinct G" "fs = [] \<Longrightarrow> i \<notin> set G" using F(1) by (auto simp: G)
  note T = view_take [OF ok vp fs cp F1 F2]
  let ?s1 = "set_page i (Some ?p) s"
  let ?s2 = "if fs = [] then set_free_pages c gs ?s1 else ?s1"
  let ?s3 = "(set_lru c (a # sc_lru (cls s c)) ?s2)\<lparr>sl_item := (sl_item s)(a \<mapsto> i)\<rparr>"
  have cc: "class_create c s = Some (a, ?s3)"
    using gs p(1) fs idx T(3) c by (simp add: class_create_def allocate_object_def create_item_def il_push_front_def Let_def)
  have view: "slab_view_of ?s3 = ?v\<lparr>vpage := (vpage ?v)(i \<mapsto> ?p), vfree := (vfree ?v)(c := G),
     vlru := (vlru ?v)(c := a # vlru ?v c), vitem := (vitem ?v)(a \<mapsto> i)\<rparr>"
    using c page_at_bound [OF p(1)] gs by (intro view_eqI) (simp_all add: page_at_set_page G)
  have "sl_sizes ?s3 = map sc_size (sl_classes ?s3)" using sz by simp
  then have "slab_wf ?s3" using T(1) unfolding slab_wf_def view by blast
  moreover have "a \<notin> live s" using T(2) by (simp add: live_def)
  moreover have "live ?s3 = insert a (live s)" by (auto simp: live_def)
  moreover have "locked ?s3 = locked s"
    using c T(2) by (auto simp: locked_def live_def split: if_splits)
  ultimately show ?thesis using cc by blast
qed

text \<open>Creating an item in a new page.\<close>

lemma create_from_new_page_ok:
  assumes wf: "slab_wf s" and c: "c < length (sl_classes s)" "2 \<le> sl_max s div sc_size (cls s c)"
    and fresh: "\<And>j q. page_at s j = Some q \<Longrightarrow> {page..<page + sl_max s} \<inter> region (sl_max s) q = {}"
  shows "\<exists>s'. create_from_new_page c (Some page) s = Some (Created page None, s') \<and> slab_wf s' \<and>
    page \<notin> live s \<and> live s' = insert page (live s) \<and> locked s' = locked s"
proof -
  let ?v = "slab_view_of s" and ?i = "length (sl_pages s)"
  have ok: "view_ok ?v" and sz: "sl_sizes s = map sc_size (sl_classes s)" using wf by (simp_all add: slab_wf_def)
  have none: "vpage ?v ?i = None" using page_at_bound [of s ?i] by (cases "page_at s ?i") auto
  let ?p = "slab_page_new page (vmax ?v div vsz ?v c) (vsz ?v c) c ?i"
  let ?PL = "if sl_reclaimer s then ?i # sl_page_lru s else sl_page_lru s"
  have c': "c < vn ?v" "2 \<le> vmax ?v div vsz ?v c" using c by simp_all
  have fr: "{page..<page + vmax ?v} \<inter> region (vmax ?v) q = {}" if "vpage ?v j = Some q" for j q using fresh that by simp
  have PL: "?PL = ?i # vpl ?v" if "vrec ?v" using that by simp
  note T = view_new_page [OF ok none c' fr refl refl PL]
  let ?s1 = "set_free_pages c (?i # sc_free_pages (cls s c)) s"
  let ?s2 = "(if sl_reclaimer s then ?s1\<lparr>sl_page_lru := ?i # sl_page_lru s\<rparr> else ?s1)\<lparr>sl_pages := sl_pages s @ [Some ?p]\<rparr>"
  let ?s3 = "(set_lru c (page # sc_lru (cls s c)) ?s2)\<lparr>sl_item := (sl_item s)(page \<mapsto> ?i)\<rparr>"
  have cc: "create_from_new_page c (Some page) s = Some (Created page None, ?s3)"
    using T(3,4) c by (simp add: create_from_new_page_def create_item_def il_push_front_def Let_def)
  have view: "slab_view_of ?s3 = ?v\<lparr>vpage := (vpage ?v)(?i \<mapsto> ?p), vfree := (vfree ?v)(c := ?i # vfree ?v c),
     vlru := (vlru ?v)(c := page # vlru ?v c), vitem := (vitem ?v)(page \<mapsto> ?i), vpl := ?PL\<rparr>"
    using c by (intro view_eqI) (simp_all add: page_at_append)
  have "view_ok (slab_view_of ?s3)" unfolding view by (rule T(1))
  then have "slab_wf ?s3" using sz by (simp add: slab_wf_def)
  moreover have "page \<notin> live s" using T(2) by (simp add: live_def)
  moreover have "live ?s3 = insert page (live s)" by (auto simp: live_def)
  moreover have "locked ?s3 = locked s"
    using c T(2) by (auto simp: locked_def live_def split: if_splits)
  ultimately show ?thesis using cc by blast
qed

text \<open>Changing the lock state of an item, or its place in the list.\<close>

lemma lru_update_ok:
  assumes wf: "slab_wf s" and a: "sl_item s a = Some i" "page_at s i = Some p" "c = sp_class p"
    and L: "set L \<union> {a} = set (sc_lru (cls s c)) \<union> {a}" "distinct L"
    and r: "sl_reclaimer s \<Longrightarrow> r = of_nat (card (insert a (vlocked (slab_view_of s) p) - set L))"
    and PL: "sl_reclaimer s \<Longrightarrow> distinct PL \<and> (\<forall>j. j \<noteq> i \<longrightarrow> (j \<in> set PL \<longleftrightarrow> j \<in> set (sl_page_lru s))) \<and> (i \<in> set PL \<longleftrightarrow> r = 0)"
    and s': "s' = set_lru c L ((set_page i (Some (p\<lparr>sp_refcnt := r\<rparr>)) s)\<lparr>sl_page_lru := PL\<rparr>)"
  shows "slab_wf s' \<and> live s' = live s \<and> locked s' = (if a \<in> set L then locked s - {a} else insert a (locked s))"
proof -
  let ?v = "slab_view_of s"
  have ok: "view_ok ?v" and sz: "sl_sizes s = map sc_size (sl_classes s)" using wf by (simp_all add: slab_wf_def)
  have vp: "vpage ?v i = Some p" "vitem ?v a = Some i" using a by simp_all
  have c: "c < length (sl_classes s)" using page_okD(2) [OF ok vp(1)] a(3) by simp
  have view: "slab_view_of s' = ?v\<lparr>vpage := (vpage ?v)(i \<mapsto> p\<lparr>sp_refcnt := r\<rparr>), vlru := (vlru ?v)(c := L), vpl := PL\<rparr>"
    unfolding s' using c page_at_bound [OF a(2)] by (intro view_eqI) (simp_all add: page_at_set_page)
  have "view_ok (slab_view_of s')" unfolding view using L r PL by (intro view_lru [OF ok vp a(3)]) simp_all
  moreover have "sl_sizes s' = map sc_size (sl_classes s')" using sz by (simp add: s')
  moreover have "live s' = live s" by (simp add: live_def s')
  moreover have "locked s' = (if a \<in> set L then locked s - {a} else insert a (locked s))"
  proof -
    have none: "a \<notin> set (sc_lru (cls s d))" if "d < length (sl_classes s)" "d \<noteq> c" for d
      using lru_okD(2) [OF ok, of d a] that a by (auto simp: vclass_def)
    have key: "(\<exists>d < length (sl_classes s). b \<in> set (sc_lru (cls s' d))) \<longleftrightarrow>
      (if b = a then a \<in> set L else (\<exists>d < length (sl_classes s). b \<in> set (sc_lru (cls s d))))" for b
    proof (cases "b = a")
      case True
      then show ?thesis using none c by (auto simp: s')
    next
      case False
      then have "b \<in> set L \<longleftrightarrow> b \<in> set (sc_lru (cls s c))" using L(1) by auto
      then have "b \<in> set (sc_lru (cls s' d)) \<longleftrightarrow> b \<in> set (sc_lru (cls s d))" for d
        using c by (cases "d = c") (simp_all add: s')
      then show ?thesis using False by simp
    qed
    have len: "length (sl_classes s') = length (sl_classes s)" by (simp add: s')
    have al: "a \<in> live s" using a(1) by (simp add: live_def)
    have "b \<in> locked s' \<longleftrightarrow> b \<in> (if a \<in> set L then locked s - {a} else insert a (locked s))" for b
      using key [of b] len al \<open>live s' = live s\<close> by (cases "b = a"; cases "a \<in> set L") (simp_all add: locked_iff)
    then show ?thesis by blast
  qed
  ultimately show ?thesis by (simp add: slab_wf_def)
qed

lemma set_page_same: "page_at s i = Some p \<Longrightarrow> set_page i (Some p) s = s"
  by (auto simp: set_page_def page_at_def dest!: slot_get_SomeD) (metis list_update_id slab.surjective slab.update_convs(3))

lemma vlocked_class: "vlocked (slab_view_of s) p = vslots (slab_view_of s) p - set (sp_free p) - set (sc_lru (cls s (sp_class p)))"
  by (simp add: vlocked_def)

lemma item_slot:
  assumes "slab_wf s" and "sl_item s a = Some i" and "page_at s i = Some p"
  shows "a \<in> vslots (slab_view_of s) p" "a \<notin> set (sp_free p)"
proof -
  obtain q where "vpage (slab_view_of s) i = Some q" "a \<in> vslots (slab_view_of s) q" "a \<notin> set (sp_free q)"
    using item_okD [of "slab_view_of s" a i] assms(1,2) by (auto simp: slab_wf_def)
  then show "a \<in> vslots (slab_view_of s) p" "a \<notin> set (sp_free p)" using assms(3) by simp_all
qed

lemma page_refs:
  assumes "slab_wf s" and "sl_reclaimer s" and "page_at s i = Some p"
  shows "sp_refcnt p = of_nat (card (vlocked (slab_view_of s) p))" "i \<in> set (sl_page_lru s) \<longleftrightarrow> sp_refcnt p = 0" "distinct (sl_page_lru s)"
  using assms by (auto simp: slab_wf_def view_ok_def refs_ok_def)

lemma unat_refs:
  assumes "slab_wf s"
  shows "(of_nat (card (vlocked (slab_view_of s) p)) :: 32 word) = 0 \<longleftrightarrow> vlocked (slab_view_of s) p = {}"
    and "finite (vlocked (slab_view_of s) p)"
proof -
  have ok: "view_ok (slab_view_of s)" using assms by (simp add: slab_wf_def)
  have "unat (of_nat (card (vlocked (slab_view_of s) p)) :: 32 word) = card (vlocked (slab_view_of s) p)"
    using card_slots(3) [OF ok, of p] by (simp add: unat_of_nat)
  then have "(of_nat (card (vlocked (slab_view_of s) p)) :: 32 word) = 0 \<longleftrightarrow> card (vlocked (slab_view_of s) p) = 0"
    by (metis unat_0 unat_eq_zero)
  then show "(of_nat (card (vlocked (slab_view_of s) p)) :: 32 word) = 0 \<longleftrightarrow> vlocked (slab_view_of s) p = {}"
    using card_slots(4) [OF ok, of p] by simp
  show "finite (vlocked (slab_view_of s) p)" by (rule card_slots(4) [OF ok])
qed

lemma lock_item_ok:
  assumes wf: "slab_wf s" and a: "a \<in> live s" "a \<notin> locked s"
  shows "\<exists>s'. lock_item a s = Some s' \<and> slab_wf s' \<and> live s' = live s \<and> locked s' = insert a (locked s)"
proof -
  let ?v = "slab_view_of s"
  obtain i p where p: "sl_item s a = Some i" "page_at s i = Some p" "i < length (sl_pages s)" "sp_class p < length (sl_classes s)"
    "a \<in> locked s \<longleftrightarrow> a \<notin> set (sc_lru (cls s (sp_class p)))"
    by (rule live_page [OF wf a(1)])
  let ?c = "sp_class p" and ?r = "sp_refcnt p + 1"
  let ?L = "remove1 a (sc_lru (cls s ?c))"
  have inl: "a \<in> set (sc_lru (cls s ?c))" using p(5) a(2) by simp
  have d: "distinct (sc_lru (cls s ?c))" using lru_okD(1) [of ?v ?c] wf p(4) by (simp add: slab_wf_def)
  have L: "set ?L \<union> {a} = set (sc_lru (cls s ?c)) \<union> {a}" "distinct ?L" "a \<notin> set ?L" using d inl by auto
  note slot = item_slot [OF wf p(1,2)]
  have lk: "insert a (vlocked ?v p) - set ?L = insert a (vlocked ?v p)" using L(3) d by (auto simp: vlocked_class)
  have na: "a \<notin> vlocked ?v p" using inl by (simp add: vlocked_class)
  show ?thesis
  proof (cases "sl_reclaimer s")
    case True
    note R = page_refs [OF wf True p(2)]
    have r: "?r = of_nat (card (insert a (vlocked ?v p) - set ?L))"
      unfolding lk using R(1) na unat_refs(2) [OF wf] by simp
    let ?p = "p\<lparr>sp_refcnt := ?r\<rparr>"
    let ?PL = "if sp_refcnt p = 0 then remove1 i (sl_page_lru s) else sl_page_lru s"
    let ?s = "set_lru ?c ?L ((set_page i (Some ?p) s)\<lparr>sl_page_lru := ?PL\<rparr>)"
    have r0: "?r \<noteq> 0"
    proof -
      have "card (insert a (vlocked ?v p)) \<le> card (vslots ?v p)"
        using slot card_slots(1) wf by (intro card_mono) (auto simp: slab_wf_def vlocked_class)
      also have "\<dots> < 2 ^ 32" using card_slots(2) wf by (auto simp: slab_wf_def)
      finally have "unat (of_nat (card (insert a (vlocked ?v p))) :: 32 word) = card (insert a (vlocked ?v p))" by (simp add: unat_of_nat)
      then have "unat ?r \<noteq> 0" using r unat_refs(2) [OF wf, of p] unfolding lk by simp
      then show ?thesis by (metis unat_0)
    qed
    have PL: "distinct ?PL \<and> (\<forall>j. j \<noteq> i \<longrightarrow> (j \<in> set ?PL \<longleftrightarrow> j \<in> set (sl_page_lru s))) \<and> (i \<in> set ?PL \<longleftrightarrow> ?r = 0)"
      using R r0 by auto
    have "lock_item a s = Some ?s"
      using True R(2) inl p(1,2,4) r0 by (simp add: lock_item_def get_desc il_erase_def remove_item_from_lru_def Let_def) 
        (auto simp: set_page_def set_lru_def)
    moreover have "slab_wf ?s \<and> live ?s = live s \<and> locked ?s = insert a (locked s)"
      using lru_update_ok [OF wf p(1,2) refl L(1,2) r PL refl] L(3) by simp
    ultimately show ?thesis by blast
  next
    case False
    let ?s = "set_lru ?c ?L s"
    have s: "?s = set_lru ?c ?L ((set_page i (Some (p\<lparr>sp_refcnt := sp_refcnt p\<rparr>)) s)\<lparr>sl_page_lru := sl_page_lru s\<rparr>)"
      using set_page_same [OF p(2)] by simp
    have "lock_item a s = Some ?s"
      using False inl p(1,2) by (simp add: lock_item_def get_desc il_erase_def remove_item_from_lru_def)
    moreover have "slab_wf ?s \<and> live ?s = live s \<and> locked ?s = insert a (locked s)"
      using lru_update_ok [OF wf p(1,2) refl L(1,2) _ _ s] False L(3) by simp
    ultimately show ?thesis by blast
  qed
qed

lemma unlock_item_ok:
  assumes wf: "slab_wf s" and a: "a \<in> locked s"
  shows "\<exists>s'. unlock_item a s = Some s' \<and> slab_wf s' \<and> live s' = live s \<and> locked s' = locked s - {a}"
proof -
  let ?v = "slab_view_of s"
  have al: "a \<in> live s" using a by (simp add: locked_iff)
  obtain i p where p: "sl_item s a = Some i" "page_at s i = Some p" "i < length (sl_pages s)" "sp_class p < length (sl_classes s)"
    "a \<in> locked s \<longleftrightarrow> a \<notin> set (sc_lru (cls s (sp_class p)))"
    by (rule live_page [OF wf al])
  let ?c = "sp_class p" and ?r = "sp_refcnt p - 1"
  let ?L = "a # sc_lru (cls s ?c)"
  have inl: "a \<notin> set (sc_lru (cls s ?c))" using p(5) a by simp
  have d: "distinct (sc_lru (cls s ?c))" using lru_okD(1) [of ?v ?c] wf p(4) by (simp add: slab_wf_def)
  have L: "set ?L \<union> {a} = set (sc_lru (cls s ?c)) \<union> {a}" "distinct ?L" "a \<in> set ?L" using d inl by auto
  note slot = item_slot [OF wf p(1,2)]
  have na: "a \<in> vlocked ?v p" using inl slot by (simp add: vlocked_class)
  have lk: "insert a (vlocked ?v p) - set ?L = vlocked ?v p - {a}" by (auto simp: vlocked_class)
  show ?thesis
  proof (cases "sl_reclaimer s")
    case True
    note R = page_refs [OF wf True p(2)]
    have card: "card (vlocked ?v p) = Suc (card (vlocked ?v p - {a}))"
      using na unat_refs(2) [OF wf, of p] by (metis card_Suc_Diff1)
    have r: "?r = of_nat (card (insert a (vlocked ?v p) - set ?L))" unfolding lk R(1) card by simp
    have nz: "sp_refcnt p \<noteq> 0" unfolding R(1) unat_refs(1) [OF wf] using na by blast
    let ?p = "p\<lparr>sp_refcnt := ?r\<rparr>"
    let ?PL = "if ?r = 0 then i # sl_page_lru s else sl_page_lru s"
    let ?s = "set_lru ?c ?L ((set_page i (Some ?p) s)\<lparr>sl_page_lru := ?PL\<rparr>)"
    have nin: "i \<notin> set (sl_page_lru s)" using R(2) nz by simp
    have PL: "distinct ?PL \<and> (\<forall>j. j \<noteq> i \<longrightarrow> (j \<in> set ?PL \<longleftrightarrow> j \<in> set (sl_page_lru s))) \<and> (i \<in> set ?PL \<longleftrightarrow> ?r = 0)"
      using R(3) nin by auto
    have "unlock_item a s = Some ?s"
      using True nin inl p(1,2,4) by (simp add: unlock_item_def get_desc il_push_front_def insert_item_into_lru_def Let_def)
        (auto simp: set_page_def set_lru_def)
    moreover have "slab_wf ?s \<and> live ?s = live s \<and> locked ?s = locked s - {a}"
      using lru_update_ok [OF wf p(1,2) refl L(1,2) r PL refl] L(3) by simp
    ultimately show ?thesis by blast
  next
    case False
    let ?s = "set_lru ?c ?L s"
    have s: "?s = set_lru ?c ?L ((set_page i (Some (p\<lparr>sp_refcnt := sp_refcnt p\<rparr>)) s)\<lparr>sl_page_lru := sl_page_lru s\<rparr>)"
      using set_page_same [OF p(2)] by simp
    have "unlock_item a s = Some ?s"
      using False inl p(1,2) by (simp add: unlock_item_def get_desc il_push_front_def insert_item_into_lru_def)
    moreover have "slab_wf ?s \<and> live ?s = live s \<and> locked ?s = locked s - {a}"
      using lru_update_ok [OF wf p(1,2) refl L(1,2) _ _ s] False L(3) by simp
    ultimately show ?thesis by blast
  qed
qed

text \<open>Reordering the list of a class.\<close>

lemma lru_reorder_ok:
  assumes wf: "slab_wf s" and a: "sl_item s a = Some i" "page_at s i = Some p" "c = sp_class p" "a \<in> set (sc_lru (cls s c))"
    and L: "set L = set (sc_lru (cls s c))" "distinct L"
  shows "slab_wf (set_lru c L s) \<and> live (set_lru c L s) = live s \<and> locked (set_lru c L s) = locked s"
proof -
  let ?v = "slab_view_of s"
  have s: "set_lru c L s = set_lru c L ((set_page i (Some (p\<lparr>sp_refcnt := sp_refcnt p\<rparr>)) s)\<lparr>sl_page_lru := sl_page_lru s\<rparr>)"
    using set_page_same [OF a(2)] by simp
  have "insert a (vlocked ?v p) - set L = vlocked ?v p" using L(1) a(3,4) by (auto simp: vlocked_class)
  then have r: "sp_refcnt p = of_nat (card (insert a (vlocked ?v p) - set L))" if "sl_reclaimer s"
    using page_refs(1) [OF wf that a(2)] by simp
  have PL: "distinct (sl_page_lru s) \<and> (\<forall>j. j \<noteq> i \<longrightarrow> (j \<in> set (sl_page_lru s) \<longleftrightarrow> j \<in> set (sl_page_lru s))) \<and>
    (i \<in> set (sl_page_lru s) \<longleftrightarrow> sp_refcnt p = 0)" if "sl_reclaimer s"
    using page_refs [OF wf that a(2)] by simp
  have "c < length (sl_classes s)" using page_okD(2) [of ?v i p] wf a by (simp add: slab_wf_def)
  then have "a \<notin> locked s" using a(4) by (auto simp: locked_iff)
  moreover have "set L \<union> {a} = set (sc_lru (cls s c)) \<union> {a}" using L(1) by simp
  note lru_update_ok [OF wf a(1-3) this L(2) r PL s]
  ultimately show ?thesis using L(1) a(4) by simp
qed

lemma touch_item_ok:
  assumes wf: "slab_wf s" and a: "a \<in> live s" "a \<notin> locked s"
  shows "\<exists>s'. slab_touch a s = Some s' \<and> slab_wf s' \<and> live s' = live s \<and> locked s' = locked s"
proof -
  obtain i p where p: "sl_item s a = Some i" "page_at s i = Some p" "sp_class p < length (sl_classes s)"
    "a \<in> locked s \<longleftrightarrow> a \<notin> set (sc_lru (cls s (sp_class p)))"
    by (rule live_page [OF wf a(1)])
  let ?c = "sp_class p"
  have inl: "a \<in> set (sc_lru (cls s ?c))" using p(4) a(2) by simp
  have d: "distinct (sc_lru (cls s ?c))" using lru_okD(1) [of "slab_view_of s" ?c] wf p(3) by (simp add: slab_wf_def)
  have L: "set (a # remove1 a (sc_lru (cls s ?c))) = set (sc_lru (cls s ?c))" "distinct (a # remove1 a (sc_lru (cls s ?c)))"
    using d inl by auto
  have "slab_touch a s = Some (set_lru ?c (a # remove1 a (sc_lru (cls s ?c))) s)"
    using inl p(1,2) by (simp add: slab_touch_def get_desc touch_item_def il_erase_def)
  then show ?thesis using lru_reorder_ok [OF wf p(1,2) refl inl L] by blast
qed

lemma free_item_ok:
  assumes wf: "slab_wf s" and a: "a \<in> live s" "a \<notin> locked s"
  shows "\<exists>s'. slab_free a s = Some s' \<and> slab_wf s' \<and> live s' = live s - {a} \<and> locked s' = locked s"
proof -
  let ?v = "slab_view_of s"
  have ok: "view_ok ?v" and sz: "sl_sizes s = map sc_size (sl_classes s)" using wf by (simp_all add: slab_wf_def)
  obtain i p where p: "sl_item s a = Some i" "page_at s i = Some p" "i < length (sl_pages s)" "sp_class p < length (sl_classes s)"
    "a \<in> locked s \<longleftrightarrow> a \<notin> set (sc_lru (cls s (sp_class p)))"
    by (rule live_page [OF wf a(1)])
  let ?c = "sp_class p"
  have inl: "a \<in> set (sc_lru (cls s ?c))" using p(5) a(2) by simp
  have d: "distinct (sc_lru (cls s ?c))" using lru_okD(1) [OF ok] p(4) by simp
  have fd: "distinct (sc_free_pages (cls s ?c))" "i \<in> set (sc_free_pages (cls s ?c)) \<longleftrightarrow> sp_free p \<noteq> []"
    using free_okD [OF ok, of ?c] p(2,4) by auto
  obtain F where F: "F = (if sp_free p = [] then sc_free_pages (cls s ?c) @ [i] else sc_free_pages (cls s ?c))" by blast
  have F1: "set F = insert i (set (vfree ?v ?c))" "distinct F" using fd by (auto simp: F)
  have vp: "vpage ?v i = Some p" "vitem ?v a = Some i" "a \<in> set (vlru ?v ?c)" using p inl by simp_all
  note T = view_put [OF ok vp(1,2) refl vp(3) F1]
  let ?p = "p\<lparr>sp_free := sp_free p @ [a]\<rparr>"
  let ?s1 = "(set_page i (Some ?p) (set_lru ?c (remove1 a (sc_lru (cls s ?c))) s))\<lparr>sl_item := (sl_item s)(a := None)\<rparr>"
  let ?s2 = "if sp_free p = [] then set_free_pages ?c (sc_free_pages (cls s ?c) @ [i]) ?s1 else ?s1"
  let ?s3 = "?s2\<lparr>sl_frees := sl_frees s + 1\<rparr>"
  have f: "slab_free a s = Some ?s3"
    using inl p(1,2,4) fd(2) by (simp add: slab_free_def get_desc free_item_def il_erase_def il_push_back_def free_object_def Let_def)
  have view: "slab_view_of ?s3 = ?v\<lparr>vpage := (vpage ?v)(i \<mapsto> ?p), vfree := (vfree ?v)(?c := F),
     vlru := (vlru ?v)(?c := remove1 a (vlru ?v ?c)), vitem := (vitem ?v)(a := None)\<rparr>"
    using p(3,4) by (intro view_eqI) (simp_all add: page_at_set_page F)
  have "view_ok (slab_view_of ?s3)" unfolding view by (rule T)
  then have "slab_wf ?s3" using sz by (simp add: slab_wf_def)
  moreover have live: "live ?s3 = live s - {a}" by (auto simp: live_def)
  moreover have "b \<in> locked ?s3 \<longleftrightarrow> b \<in> locked s" for b
  proof -
    have "b \<in> set (sc_lru (cls ?s3 c)) \<longleftrightarrow> b \<in> set (sc_lru (cls s c)) \<and> \<not> (c = ?c \<and> b = a)" for c
      using d p(4) by auto
    then show ?thesis using a(2) live by (auto simp: locked_iff)
  qed
  then have "locked ?s3 = locked s" by blast
  ultimately show ?thesis using f by blast
qed

lemma create_from_lru_ok:
  assumes wf: "slab_wf s" and c: "c < length (sl_classes s)" and u: "\<And>a. a \<in> live s \<Longrightarrow> a \<notin> locked s \<Longrightarrow> unlocked a"
  shows "(sc_lru (cls s c) = [] \<and> create_from_lru c unlocked s = Some (Bad_alloc, s)) \<or>
    (\<exists>a s'. sc_lru (cls s c) \<noteq> [] \<and> a = last (sc_lru (cls s c)) \<and> create_from_lru c unlocked s = Some (Created a (Some a), s') \<and> slab_wf s' \<and>
       a \<in> live s - locked s \<and> live s' = live s \<and> locked s' = locked s)"
proof (cases "sc_lru (cls s c) = []")
  case True
  then show ?thesis by (simp add: create_from_lru_def evict_lru_item_def)
next
  case False
  then obtain l a where l: "sc_lru (cls s c) = l @ [a]" by (metis append_butlast_last_id)
  then have al: "a \<in> live s - locked s" using lru_live [OF wf c] by simp
  then obtain i p where p: "sl_item s a = Some i" "page_at s i = Some p" "i < length (sl_pages s)" "sp_class p < length (sl_classes s)"
    using live_page [OF wf, of a] by blast
  have ok: "view_ok (slab_view_of s)" using wf by (simp add: slab_wf_def)
  have cp: "c = sp_class p" using lru_okD(2) [OF ok, of c a] c p l by (simp add: vclass_def)
  have d: "distinct (l @ [a])" using lru_okD(1) [OF ok, of c] c l by simp
  let ?s = "set_lru c (a # l) s"
  have r: "slab_wf ?s \<and> live ?s = live s \<and> locked ?s = locked s"
    using l d by (intro lru_reorder_ok [OF wf p(1,2) cp]) auto
  have "(set_lru c (a # l) (set_lru c l s))\<lparr>sl_item := (sl_item s)(a \<mapsto> i)\<rparr> = ?s"
    using p(1) c by (simp add: set_lru_def fun_upd_idem)
  then have "create_from_lru c unlocked s = Some (Created a (Some a), ?s)"
    using l d u al p(1) c by (simp add: create_from_lru_def evict_lru_item_def create_item_def il_push_front_def Let_def)
  then show ?thesis using l al r by auto
qed

text \<open>Evicting a page.\<close>

lemma evict_objects_ok:
  assumes "distinct objects" and "\<forall>a \<in> set objects. a \<notin> set free \<longrightarrow> a \<in> set (sc_lru (cls s c)) \<and> unlocked a"
    and "distinct (sc_lru (cls s c))" and "c < length (sl_classes s)"
  shows "\<exists>s'. evict_objects objects free c unlocked s = Some (filter (\<lambda>a. a \<notin> set free) objects, s') \<and>
    s' = (set_lru c (filter (\<lambda>a. a \<in> set free \<or> a \<notin> set objects) (sc_lru (cls s c))) s)\<lparr>
      sl_item := (\<lambda>a. if a \<in> set objects \<and> a \<notin> set free then None else sl_item s a), sl_frees := sl_frees s'\<rparr>"
  using assms
proof (induction objects arbitrary: s)
  case Nil
  have "set_lru c (sc_lru (cls s c)) s = s"
    using Nil(4) by (simp add: set_lru_def)
  then show ?case by simp
next
  case (Cons a objects)
  show ?case
  proof (cases "a \<in> set free")
    case True
    have "\<forall>a \<in> set objects. a \<notin> set free \<longrightarrow> a \<in> set (sc_lru (cls s c)) \<and> unlocked a" "distinct objects" using Cons.prems by auto
    from Cons.IH [OF this(2,1) Cons.prems(3,4)] obtain s' where s': "evict_objects objects free c unlocked s = Some (filter (\<lambda>a. a \<notin> set free) objects, s')"
      "s' = (set_lru c (filter (\<lambda>a. a \<in> set free \<or> a \<notin> set objects) (sc_lru (cls s c))) s)\<lparr>
        sl_item := (\<lambda>a. if a \<in> set objects \<and> a \<notin> set free then None else sl_item s a), sl_frees := sl_frees s'\<rparr>" by blast
    have "filter (\<lambda>b. b \<in> set free \<or> b \<notin> set (a # objects)) xs = filter (\<lambda>b. b \<in> set free \<or> b \<notin> set objects) xs" for xs
      using True by (intro filter_cong) auto
    moreover have "(\<lambda>b. if b \<in> set (a # objects) \<and> b \<notin> set free then None else sl_item s b) =
      (\<lambda>b. if b \<in> set objects \<and> b \<notin> set free then None else sl_item s b)" using True by auto
    ultimately show ?thesis using True s' by (intro exI [of _ s']) simp
  next
    case False
    have a: "a \<in> set (sc_lru (cls s c))" "unlocked a" using Cons.prems(2) False by auto
    let ?s1 = "(set_lru c (remove1 a (sc_lru (cls s c))) s)\<lparr>sl_item := (sl_item s)(a := None), sl_frees := sl_frees s + 1\<rparr>"
    have l1: "sc_lru (cls ?s1 c) = remove1 a (sc_lru (cls s c))" using Cons.prems(4) by simp
    have "distinct objects" "\<forall>b \<in> set objects. b \<notin> set free \<longrightarrow> b \<in> set (sc_lru (cls ?s1 c)) \<and> unlocked b"
      "distinct (sc_lru (cls ?s1 c))" "c < length (sl_classes ?s1)"
      using Cons.prems unfolding l1 by auto
    from Cons.IH [OF this] obtain s' where s': "evict_objects objects free c unlocked ?s1 = Some (filter (\<lambda>a. a \<notin> set free) objects, s')"
      "s' = (set_lru c (filter (\<lambda>a. a \<in> set free \<or> a \<notin> set objects) (sc_lru (cls ?s1 c))) ?s1)\<lparr>
        sl_item := (\<lambda>a. if a \<in> set objects \<and> a \<notin> set free then None else sl_item ?s1 a), sl_frees := sl_frees s'\<rparr>" by blast
    have e: "evict_objects (a # objects) free c unlocked s = Some (filter (\<lambda>a. a \<notin> set free) (a # objects), s')"
      using False a s'(1) by (simp add: remove_item_from_lru_def il_erase_def)
    have f: "filter (\<lambda>b. b \<in> set free \<or> b \<notin> set objects) (remove1 a (sc_lru (cls s c))) =
      filter (\<lambda>b. b \<in> set free \<or> b \<notin> set (a # objects)) (sc_lru (cls s c))"
      using Cons.prems(1,3) False by (auto simp: distinct_remove1_removeAll removeAll_filter_not_eq intro!: filter_cong)
    have g: "(\<lambda>b. if b \<in> set objects \<and> b \<notin> set free then None else sl_item ?s1 b) =
      (\<lambda>b. if b \<in> set (a # objects) \<and> b \<notin> set free then None else sl_item s b)" using False by auto
    have twice: "set_lru c x ((set_lru c y s)\<lparr>sl_item := m, sl_frees := k\<rparr>) = (set_lru c x s)\<lparr>sl_item := m, sl_frees := k\<rparr>" for x y m k
      using Cons.prems(4) by (simp add: set_lru_def)
    have "s' = (set_lru c (filter (\<lambda>b. b \<in> set free \<or> b \<notin> set (a # objects)) (sc_lru (cls s c))) s)\<lparr>
        sl_item := (\<lambda>b. if b \<in> set (a # objects) \<and> b \<notin> set free then None else sl_item s b), sl_frees := sl_frees s'\<rparr>"
      using s'(2) unfolding l1 f twice g by simp
    then show ?thesis using e by blast
  qed
qed

lemma reclaim_ok:
  assumes wf: "slab_wf s" and rc: "sl_reclaimer s" and u: "\<And>a. a \<in> live s \<Longrightarrow> a \<notin> locked s \<Longrightarrow> unlocked a"
  shows "(sl_page_lru s = [] \<and> slab_reclaim unlocked s = Some (Reclaimed_nothing, s\<lparr>sl_reclaimed := True\<rparr>)) \<or>
    (\<exists>xs s' p. page_at s (last (sl_page_lru s)) = Some p \<and> slab_reclaim unlocked s = Some (Reclaimed_something xs, s') \<and> slab_wf s' \<and>
       distinct xs \<and> set xs = vslots (slab_view_of s) p - set (sp_free p) \<and> set xs \<subseteq> live s - locked s \<and>
       live s' = live s - set xs \<and> locked s' = locked s)"
proof (cases "sl_page_lru s = []")
  case True
  then show ?thesis by (simp add: slab_reclaim_def evict_lru_slab_page_def)
next
  case False
  let ?v = "slab_view_of s"
  have ok: "view_ok ?v" and sz: "sl_sizes s = map sc_size (sl_classes s)" using wf by (simp_all add: slab_wf_def)
  obtain pl i where pl: "sl_page_lru s = pl @ [i]" using False by (metis append_butlast_last_id)
  have "i \<in> set (vpl ?v)" using pl by simp
  then obtain p where p: "page_at s i = Some p" "sp_refcnt p = 0" using ok rc by (auto simp: view_ok_def refs_ok_def)
  have i: "i < length (sl_pages s)" by (rule page_at_bound [OF p(1)])
  let ?c = "sp_class p"
  have vp: "vpage ?v i = Some p" using p by simp
  note P = page_okD [OF ok vp]
  have c: "?c < length (sl_classes s)" using P(2) by simp
  have fd: "distinct (sc_free_pages (cls s ?c))" "i \<in> set (sc_free_pages (cls s ?c)) \<longleftrightarrow> sp_free p \<noteq> []"
    using free_okD [OF ok, of ?c] p(1) c by auto
  have d: "distinct (sc_lru (cls s ?c))" using lru_okD(1) [OF ok] c by simp
  have dpl: "distinct (pl @ [i])" using page_refs(3) [OF wf rc p(1)] pl by simp
  let ?F = "remove1 i (sc_free_pages (cls s ?c))"
  let ?objs = "map (\<lambda>k. sp_page p + k * sc_size (cls s ?c)) [0..<sl_max s div sc_size (cls s ?c)]"
  have pos: "0 < sc_size (cls s ?c)" using P(3) by (cases "sc_size (cls s ?c)") auto
  have objs: "distinct ?objs" "set ?objs = vslots ?v p"
    using pos by (auto simp: distinct_map inj_on_def vslots_def slots_def)
  let ?L = "filter (\<lambda>a. a \<notin> vslots ?v p - set (sp_free p)) (sc_lru (cls s ?c))"
  let ?X = "\<lambda>a. if a \<in> vslots ?v p - set (sp_free p) then None else sl_item s a"
  have Fx: "distinct ?F" "\<And>j. j \<in> set ?F \<longleftrightarrow> j \<in> set (vfree ?v ?c) \<and> j \<noteq> i" using fd(1) by auto
  have PLx: "distinct pl" "\<And>j. j \<in> set pl \<longleftrightarrow> j \<in> set (vpl ?v) \<and> j \<noteq> i" using dpl pl by auto
  have rv: "vrec ?v" using rc by simp
  have Lx: "?L = filter (\<lambda>a. a \<notin> vslots ?v p - set (sp_free p)) (vlru ?v ?c)" by simp
  have Xx: "?X a = (if a \<in> vslots ?v p - set (sp_free p) then None else vitem ?v a)" for a by simp
  note T = view_drop [OF ok vp p(2) rv refl Fx PLx Lx Xx]
  have sub: "vslots ?v p - set (sp_free p) \<subseteq> set (sc_lru (cls s ?c))" using T(2) by simp
  then have lv: "vslots ?v p - set (sp_free p) \<subseteq> live s - locked s" using lru_live [OF wf c] by blast
  let ?s0 = "s\<lparr>sl_reclaimed := True\<rparr>"
  let ?s1 = "set_page i None ((if sp_free p = [] then ?s0 else set_free_pages ?c ?F ?s0)\<lparr>sl_page_lru := pl\<rparr>)"
  have l1: "sc_lru (cls ?s1 ?c) = sc_lru (cls s ?c)" by simp
  have e: "\<forall>a \<in> set ?objs. a \<notin> set (sp_free p) \<longrightarrow> a \<in> set (sc_lru (cls ?s1 ?c)) \<and> unlocked a"
    using sub lv u unfolding l1 objs(2) by blast
  have d1: "distinct (sc_lru (cls ?s1 ?c))" unfolding l1 by (rule d)
  have c1: "?c < length (sl_classes ?s1)" using c by simp
  obtain s' where s': "evict_objects ?objs (sp_free p) ?c unlocked ?s1 = Some (filter (\<lambda>a. a \<notin> set (sp_free p)) ?objs, s')"
    "s' = (set_lru ?c (filter (\<lambda>a. a \<in> set (sp_free p) \<or> a \<notin> set ?objs) (sc_lru (cls ?s1 ?c))) ?s1)\<lparr>
      sl_item := (\<lambda>a. if a \<in> set ?objs \<and> a \<notin> set (sp_free p) then None else sl_item ?s1 a), sl_frees := sl_frees s'\<rparr>"
    using evict_objects_ok [OF objs(1) e d1 c1] by blast
  let ?xs = "filter (\<lambda>a. a \<notin> set (sp_free p)) ?objs"
  have r: "slab_reclaim unlocked s = Some (Reclaimed_something ?xs, s')"
    using p pl s'(1) fd(2)
    by (cases "sp_free p = []") (simp_all add: slab_reclaim_def evict_lru_slab_page_def Let_def il_erase_def)
  have m: "filter (\<lambda>a. a \<in> set (sp_free p) \<or> a \<notin> set ?objs) (sc_lru (cls ?s1 ?c)) = ?L"
    unfolding l1 objs(2) by (intro filter_cong) auto
  have x: "(\<lambda>a. if a \<in> set ?objs \<and> a \<notin> set (sp_free p) then None else sl_item ?s1 a) = ?X"
    unfolding objs(2) by auto
  have s2: "s' = (set_lru ?c ?L ?s1)\<lparr>sl_item := ?X, sl_frees := sl_frees s'\<rparr>" using s'(2) unfolding m x .
  have parts: "sl_classes s' = sl_classes (set_lru ?c ?L ?s1)" "sl_item s' = ?X" "sl_page_lru s' = pl" "sl_max s' = sl_max s"
    "sl_reclaimer s' = sl_reclaimer s" "sl_sizes s' = sl_sizes s" "page_at s' = page_at ?s1"
    by (subst s2; simp)+
  have view: "slab_view_of s' = ?v\<lparr>vpage := (vpage ?v)(i := None), vfree := (vfree ?v)(?c := ?F),
     vlru := (vlru ?v)(?c := ?L), vitem := ?X, vpl := pl\<rparr>"
    using c i fd(2) by (intro view_eqI) (auto simp: parts page_at_set_page remove1_idem)
  have "view_ok (slab_view_of s')" unfolding view by (rule T(1))
  moreover have "sl_sizes s' = map sc_size (sl_classes s')" using sz by (simp add: parts)
  ultimately have wf': "slab_wf s'" by (simp add: slab_wf_def)
  have xs: "set ?xs = vslots ?v p - set (sp_free p)" "distinct ?xs" using objs by auto
  have live: "live s' = live s - set ?xs" unfolding xs by (auto simp: live_def parts)
  have "b \<in> locked s' \<longleftrightarrow> b \<in> locked s" for b
  proof -
    have "b \<in> set (sc_lru (cls s' d)) \<longleftrightarrow> b \<in> set (sc_lru (cls s d)) \<and> \<not> (d = ?c \<and> b \<in> set ?xs)" for d
      using c xs(1) by (auto simp: parts)
    moreover have "length (sl_classes s') = length (sl_classes s)" by (simp add: parts)
    ultimately show ?thesis using live lv xs(1) by (auto simp: locked_iff)
  qed
  then have "locked s' = locked s" by blast
  then show ?thesis using p(1) pl r wf' xs lv live by (intro disjI2 exI [of _ ?xs] exI [of _ s'] exI [of _ p]) simp
qed

declare slab_class_sizes.simps [simp del]

section \<open>The allocator as its clients see it\<close>

text \<open>The operations of a client and of the memory reclaimer.\<close>

datatype slab_op = Sl_create nat "nat option" | Sl_lock nat | Sl_unlock nat | Sl_free nat | Sl_touch nat | Sl_reclaim
datatype slab_out = Out_create slab_result | Out_reclaim reclaiming_result | Out_unit

definition slab_step :: "slab_op \<Rightarrow> slab \<Rightarrow> (slab_out \<times> slab) option" where
  "slab_step x s =
     (let unlocked = (\<lambda>a. a \<notin> locked s)
      in case x of
        Sl_create sz mem \<Rightarrow> map_option (\<lambda>(r, s). (Out_create r, s)) (slab_create sz mem unlocked s)
      | Sl_lock a \<Rightarrow> map_option (Pair Out_unit) (lock_item a s)
      | Sl_unlock a \<Rightarrow> map_option (Pair Out_unit) (unlock_item a s)
      | Sl_free a \<Rightarrow> map_option (Pair Out_unit) (slab_free a s)
      | Sl_touch a \<Rightarrow> map_option (Pair Out_unit) (slab_touch a s)
      | Sl_reclaim \<Rightarrow> map_option (\<lambda>(r, s). (Out_reclaim r, s)) (slab_reclaim unlocked s))"

text \<open>What a client must respect: the system allocator returns memory that no page uses, classes have at least
  two objects per page, only a live item that is not locked is locked, freed or touched, and only a
  locked one is unlocked.\<close>

definition slab_valid :: "slab_op \<Rightarrow> slab \<Rightarrow> bool" where
  "slab_valid x s \<longleftrightarrow>
     (case x of
        Sl_create sz mem \<Rightarrow>
          (\<forall>c. get_slab_class sz s = Some c \<longrightarrow> 2 \<le> sl_max s div sc_size (cls s c)) \<and>
          (\<forall>page. mem = Some page \<longrightarrow> (\<forall>i < length (sl_pages s). \<forall>p. page_at s i = Some p \<longrightarrow>
             page + sl_max s \<le> sp_page p \<or> sp_page p + sl_max s \<le> page))
      | Sl_unlock a \<Rightarrow> a \<in> locked s
      | Sl_reclaim \<Rightarrow> sl_reclaimer s
      | Sl_lock a \<Rightarrow> a \<in> live s - locked s
      | Sl_free a \<Rightarrow> a \<in> live s - locked s
      | Sl_touch a \<Rightarrow> a \<in> live s - locked s)"

text \<open>What it gets, on the sets of live and of locked items.\<close>

fun slab_spec :: "slab_op \<Rightarrow> slab_out \<Rightarrow> nat set \<times> nat set \<Rightarrow> nat set \<times> nat set \<Rightarrow> bool" where
  "slab_spec (Sl_create sz mem) (Out_create (Created a None)) (A, L) (A', L') \<longleftrightarrow> a \<notin> A \<and> A' = insert a A \<and> L' = L"
| "slab_spec (Sl_create sz mem) (Out_create (Created a (Some v))) (A, L) (A', L') \<longleftrightarrow> v = a \<and> a \<in> A - L \<and> A' = A \<and> L' = L"
| "slab_spec (Sl_create sz mem) (Out_create _) (A, L) (A', L') \<longleftrightarrow> A' = A \<and> L' = L"
| "slab_spec (Sl_lock a) Out_unit (A, L) (A', L') \<longleftrightarrow> A' = A \<and> L' = insert a L"
| "slab_spec (Sl_unlock a) Out_unit (A, L) (A', L') \<longleftrightarrow> A' = A \<and> L' = L - {a}"
| "slab_spec (Sl_free a) Out_unit (A, L) (A', L') \<longleftrightarrow> A' = A - {a} \<and> L' = L"
| "slab_spec (Sl_touch a) Out_unit (A, L) (A', L') \<longleftrightarrow> A' = A \<and> L' = L"
| "slab_spec Sl_reclaim (Out_reclaim (Reclaimed_something xs)) (A, L) (A', L') \<longleftrightarrow>
     distinct xs \<and> set xs \<subseteq> A - L \<and> A' = A - set xs \<and> L' = L"
| "slab_spec Sl_reclaim (Out_reclaim Reclaimed_nothing) (A, L) (A', L') \<longleftrightarrow> A' = A \<and> L' = L"
| "slab_spec _ _ _ _ \<longleftrightarrow> False"

lemma wf_counters [simp]:
  "slab_wf (s\<lparr>sl_allocs := x1\<rparr>) = slab_wf s" "slab_wf (s\<lparr>sl_available := x2\<rparr>) = slab_wf s" "slab_wf (s\<lparr>sl_reclaimed := x3\<rparr>) = slab_wf s"
  "live (s\<lparr>sl_allocs := x1\<rparr>) = live s" "live (s\<lparr>sl_available := x2\<rparr>) = live s" "live (s\<lparr>sl_reclaimed := x3\<rparr>) = live s"
  "locked (s\<lparr>sl_allocs := x1\<rparr>) = locked s" "locked (s\<lparr>sl_available := x2\<rparr>) = locked s" "locked (s\<lparr>sl_reclaimed := x3\<rparr>) = locked s"
  by (simp_all add: slab_wf_def slab_view_of_def live_def locked_def)

lemma get_slab_class_props:
  assumes "sl_sizes s = map sc_size (sl_classes s)" and "get_slab_class sz s = Some c"
  shows "c < length (sl_classes s)" "sz \<le> sc_size (cls s c)"
proof -
  have c: "c = length (takeWhile (\<lambda>x. x < sz) (sl_sizes s))" "c \<noteq> length (sl_sizes s)"
    using assms(2) by (auto simp: get_slab_class_def Let_def split: if_splits)
  then have l: "c < length (sl_sizes s)" using length_takeWhile_le [of "\<lambda>x. x < sz" "sl_sizes s"] by linarith
  then show l': "c < length (sl_classes s)" using assms(1) by simp
  have "\<not> sl_sizes s ! c < sz" using nth_length_takeWhile l c(1) by blast
  then show "sz \<le> sc_size (cls s c)" using l' assms(1) by simp
qed

lemma slab_create_ok:
  assumes wf: "slab_wf s" and v: "slab_valid (Sl_create sz mem) s"
    and u: "\<And>a. a \<in> live s \<Longrightarrow> a \<notin> locked s \<Longrightarrow> unlocked a"
  shows "\<exists>r s'. slab_create sz mem unlocked s = Some (r, s') \<and> slab_wf s' \<and>
    slab_spec (Sl_create sz mem) (Out_create r) (live s, locked s) (live s', locked s')"
proof (cases "get_slab_class sz s")
  case None
  then show ?thesis using wf by (simp add: slab_create_def)
next
  case (Some c)
  have c: "c < length (sl_classes s)" using get_slab_class_props [OF _ Some] wf by (simp add: slab_wf_def)
  consider "sc_free_pages (cls s c) \<noteq> []" | "sc_free_pages (cls s c) = []" "can_allocate_page c s" "mem = None"
    | page where "sc_free_pages (cls s c) = []" "can_allocate_page c s" "mem = Some page"
    | "sc_free_pages (cls s c) = []" "\<not> can_allocate_page c s" "sl_has_erase s"
    | "sc_free_pages (cls s c) = []" "\<not> can_allocate_page c s" "\<not> sl_has_erase s" by blast
  then show ?thesis
  proof cases
    case 1
    then show ?thesis using class_create_ok [OF wf c 1] Some by (auto simp: slab_create_def)
  next
    case 2
    then show ?thesis using Some wf by (simp add: slab_create_def create_from_new_page_def)
  next
    case 3
    have two: "2 \<le> sl_max s div sc_size (cls s c)" using v Some by (simp add: slab_valid_def)
    have fr: "{page..<page + sl_max s} \<inter> region (sl_max s) q = {}" if "page_at s j = Some q" for j q
    proof -
      have "page + sl_max s \<le> sp_page q \<or> sp_page q + sl_max s \<le> page"
        using v 3(3) that page_at_bound [OF that] by (simp add: slab_valid_def)
      then show ?thesis by (auto simp: region_def)
    qed
    obtain s1 where
      "create_from_new_page c (Some page) s = Some (Created page None, s1)" "slab_wf s1" "page \<notin> live s"
      "live s1 = insert page (live s)" "locked s1 = locked s"
      using create_from_new_page_ok [OF wf c two] fr by blast
    then show ?thesis using 3 Some by (simp add: slab_create_def)
  next
    case 4
    have "(sc_lru (cls s c) = [] \<and> create_from_lru c unlocked s = Some (Bad_alloc, s)) \<or>
      (\<exists>a s'. create_from_lru c unlocked s = Some (Created a (Some a), s') \<and> slab_wf s' \<and>
         a \<in> live s - locked s \<and> live s' = live s \<and> locked s' = locked s)"
      using create_from_lru_ok [OF wf c, of unlocked] u by blast
    then show ?thesis using 4 Some wf by (auto simp: slab_create_def)
  next
    case 5
    then show ?thesis using Some wf by (simp add: slab_create_def)
  qed
qed

lemma slab_step_ok:
  assumes wf: "slab_wf s" and v: "slab_valid x s"
  shows "\<exists>r s'. slab_step x s = Some (r, s') \<and> slab_wf s' \<and> slab_spec x r (live s, locked s) (live s', locked s')"
proof (cases x)
  case (Sl_create sz mem)
  then show ?thesis using slab_create_ok [OF wf, of sz mem "\<lambda>a. a \<notin> locked s"] v by (auto simp: slab_step_def)
next
  case (Sl_lock a)
  then show ?thesis using lock_item_ok [OF wf, of a] v by (auto simp: slab_step_def slab_valid_def)
next
  case (Sl_unlock a)
  then show ?thesis using unlock_item_ok [OF wf, of a] v by (auto simp: slab_step_def slab_valid_def)
next
  case (Sl_free a)
  then show ?thesis using free_item_ok [OF wf, of a] v by (auto simp: slab_step_def slab_valid_def)
next
  case (Sl_touch a)
  then show ?thesis using touch_item_ok [OF wf, of a] v by (auto simp: slab_step_def slab_valid_def)
next
  case Sl_reclaim
  have rc: "sl_reclaimer s" using v Sl_reclaim by (simp add: slab_valid_def)
  from reclaim_ok [OF wf rc, of "\<lambda>a. a \<notin> locked s"] show ?thesis using Sl_reclaim wf by (auto simp: slab_step_def)
qed

text \<open>The states that a client can reach from a new allocator.\<close>

inductive slab_reach :: "slab \<Rightarrow> slab \<Rightarrow> bool" for s0 where
  Slab_start: "slab_reach s0 s0"
| Slab_step: "slab_reach s0 s \<Longrightarrow> slab_valid x s \<Longrightarrow> slab_step x s = Some (r, s') \<Longrightarrow> slab_reach s0 s'"

lemma slab_new_wf:
  assumes "slab_new grow alignment limit max_size has_erase = Some s" and "max_size < 2 ^ 32"
  shows "slab_wf s" and "live s = {}"
proof -
  obtain sizes where s: "s = \<lparr>sl_sizes = sizes, sl_classes = map (\<lambda>sz. \<lparr>sc_free_pages = [], sc_lru = [], sc_size = sz\<rparr>) sizes,
        sl_pages = [], sl_page_lru = [], sl_max = max_size, sl_available = limit div max_size,
        sl_allocs = 0, sl_frees = 0, sl_reclaimer = (limit = 0), sl_reclaimed = False, sl_has_erase = has_erase,
        sl_item = \<lambda>_. None\<rparr>"
    using assms(1) by (auto simp: slab_new_def)
  show "slab_wf s" using assms(2)
    by (simp add: s slab_wf_def view_ok_def pages_ok_def regions_ok_def items_ok_def free_ok_def lru_ok_def refs_ok_def
        slab_view_of_def page_at_def slot_get_def comp_def)
  show "live s = {}" by (simp add: s live_def)
qed

lemma slab_reach_wf:
  assumes "slab_reach s0 s" and "slab_wf s0"
  shows "slab_wf s"
  using assms
proof (induction rule: slab_reach.induct)
  case (Slab_step s x r s')
  then show ?case using slab_step_ok [of s x] by auto
qed simp

text \<open>Live items do not overlap.\<close>

definition item_size_at :: "slab \<Rightarrow> nat \<Rightarrow> nat" where
  "item_size_at s a = (case get_slab_page_desc a s of None \<Rightarrow> 0 | Some (i, p) \<Rightarrow> sc_size (cls s (sp_class p)))"

lemma slots_disjoint:
  assumes "a \<in> slots m sz p" and "b \<in> slots m sz p" and "a \<noteq> b"
  shows "a + sz \<le> b \<or> b + sz \<le> a"
proof -
  obtain j k where jk: "a = sp_page p + j * sz" "b = sp_page p + k * sz" using assms(1,2) by (auto simp: slots_def)
  then consider "Suc j \<le> k" | "Suc k \<le> j" using assms(3) by (metis nat_neq_iff Suc_leI)
  then show ?thesis
  proof cases
    case 1
    then have "Suc j * sz \<le> k * sz" by (rule mult_le_mono1)
    then show ?thesis using jk by simp
  next
    case 2
    then have "Suc k * sz \<le> j * sz" by (rule mult_le_mono1)
    then show ?thesis using jk by simp
  qed
qed

lemma items_disjoint:
  assumes wf: "slab_wf s" and ab: "a \<in> live s" "b \<in> live s" "a \<noteq> b"
  shows "a + item_size_at s a \<le> b \<or> b + item_size_at s b \<le> a"
proof -
  let ?v = "slab_view_of s"
  have ok: "view_ok ?v" using wf by (simp add: slab_wf_def)
  obtain i p where p: "sl_item s a = Some i" "page_at s i = Some p" by (rule live_page [OF wf ab(1)])
  obtain j q where q: "sl_item s b = Some j" "page_at s j = Some q" by (rule live_page [OF wf ab(2)])
  have A: "a \<in> slots (sl_max s) (sc_size (cls s (sp_class p))) p" "b \<in> slots (sl_max s) (sc_size (cls s (sp_class q))) q"
    using item_slot(1) [OF wf p] item_slot(1) [OF wf q] by (simp_all add: vslots_def)
  have sz: "item_size_at s a = sc_size (cls s (sp_class p))" "item_size_at s b = sc_size (cls s (sp_class q))"
    using p q by (simp_all add: item_size_at_def get_desc)
  show ?thesis
  proof (cases "i = j")
    case True
    then show ?thesis using slots_disjoint [OF A(1)] A(2) p q ab(3) sz by simp
  next
    case False
    then have d: "region (sl_max s) p \<inter> region (sl_max s) q = {}" using ok p(2) q(2) by (auto simp: view_ok_def regions_ok_def)
    note R = slots_mono [OF A(1)] slots_mono [OF A(2)]
    have "sp_page p + sl_max s \<le> sp_page q \<or> sp_page q + sl_max s \<le> sp_page p"
    proof (rule ccontr)
      assume "\<not> (sp_page p + sl_max s \<le> sp_page q \<or> sp_page q + sl_max s \<le> sp_page p)"
      then have "max (sp_page p) (sp_page q) \<in> region (sl_max s) p \<inter> region (sl_max s) q" by (auto simp: region_def)
      then show False using d by blast
    qed
    then show ?thesis using R sz by (auto simp: region_def)
  qed
qed

text \<open>
  C6. In every state that a client of a new slab allocator can reach by creating, locking, unlocking,
  freeing and touching items while the memory reclaimer evicts pages, live items do not overlap, every valid operation
  succeeds without failing an assertion, and does to the sets of live and of locked items what its
  specification says: an item is created at an address that was not live, or in place of an item that
  was not locked, and only items that are not locked are reclaimed.
\<close>

theorem slab_reach_safe:
  assumes "slab_new grow alignment limit max_size has_erase = Some s0" and "max_size < 2 ^ 32" and "slab_reach s0 s"
  shows "(\<forall>a \<in> live s. \<forall>b \<in> live s. a \<noteq> b \<longrightarrow> a + item_size_at s a \<le> b \<or> b + item_size_at s b \<le> a) \<and>
    (\<forall>x. slab_valid x s \<longrightarrow> (\<exists>r s'. slab_step x s = Some (r, s') \<and> slab_spec x r (live s, locked s) (live s', locked s')))"
proof -
  have wf: "slab_wf s" by (rule slab_reach_wf [OF assms(3) slab_new_wf(1) [OF assms(1,2)]])
  have "\<exists>r s'. slab_step x s = Some (r, s') \<and> slab_spec x r (live s, locked s) (live s', locked s')" if "slab_valid x s" for x
    using slab_step_ok [OF wf that] by (elim exE conjE) (intro exI conjI)
  then show ?thesis by (intro conjI ballI allI impI) (rule items_disjoint [OF wf]; assumption)+
qed

definition slab_sample :: slab where
  "slab_sample = \<lparr>sl_sizes = [96, 192, 384], sl_classes = [\<lparr>sc_free_pages = [], sc_lru = [], sc_size = 96\<rparr>,
      \<lparr>sc_free_pages = [], sc_lru = [], sc_size = 192\<rparr>, \<lparr>sc_free_pages = [], sc_lru = [], sc_size = 384\<rparr>],
      sl_pages = [], sl_page_lru = [], sl_max = 384, sl_available = 0, sl_allocs = 0, sl_frees = 0, sl_reclaimer = True,
      sl_reclaimed = False, sl_has_erase = True, sl_item = \<lambda>_. None\<rparr>"

lemma slab_sample_new: "slab_new (\<lambda>n. 2 * n) 8 0 384 True = Some slab_sample"
proof -
  have a: "align_up (96 :: 64 word) 8 = 96" "align_up (192 :: 64 word) 8 = 192" by (simp_all add: align_up_def)
  have 1: "slab_class_sizes (\<lambda>n. 2 * n) 8 384 253 384 = Some [384]" by (simp add: slab_class_sizes.simps [of _ _ _ _ 384])
  have 2: "slab_class_sizes (\<lambda>n. 2 * n) 8 384 (Suc 253) 192 = Some [192, 384]"
    using 1 by (simp add: slab_class_sizes.simps [of _ _ _ _ 192] a)
  have "slab_class_sizes (\<lambda>n. 2 * n) 8 384 (Suc (Suc 253)) 96 = Some [96, 192, 384]"
    using 2 by (simp add: slab_class_sizes.simps [of _ _ _ _ 96] a)
  then have "slab_class_sizes (\<lambda>n. 2 * n) 8 384 255 96 = Some [96, 192, 384]" by simp
  then show ?thesis unfolding slab_new_def by (simp only: option.map) (simp add: slab_sample_def)
qed

theorem slab_reach_safe_witness:
  "\<exists>r s'. slab_step (Sl_create 100 (Some 4096)) slab_sample = Some (r, s') \<and>
     slab_spec (Sl_create 100 (Some 4096)) r (live slab_sample, locked slab_sample) (live s', locked s')"
proof -
  have "slab_valid (Sl_create 100 (Some 4096)) slab_sample"
    by (simp add: slab_valid_def get_slab_class_def slab_sample_def)
  then show ?thesis using slab_reach_safe [OF slab_sample_new _ Slab_start] by simp
qed

text \<open>
  The last class holds one object per page.  Its page has no free object when it is created, yet it is
  linked into the list of pages with free objects: a second item of the class fails the assertion of
  \<open>slab_page_desc::allocate_object\<close>.
\<close>

theorem slab_second_big_item_aborts:
  assumes "c < length (sl_classes s)" and "get_slab_class sz s = Some c" and "sc_free_pages (cls s c) = []"
    and "sl_max s div sc_size (cls s c) = 1" and "can_allocate_page c s" and "page \<notin> set (sc_lru (cls s c))"
  shows "\<exists>s'. slab_create sz (Some page) unlocked s = Some (Created page None, s') \<and>
    (\<forall>mem. slab_create sz mem unlocked s' = None)"
proof -
  let ?i = "length (sl_pages s)"
  let ?p = "slab_page_new page 1 (sc_size (cls s c)) c ?i"
  let ?s1 = "set_free_pages c [?i] s"
  let ?s2 = "(if sl_reclaimer s then ?s1\<lparr>sl_page_lru := ?i # sl_page_lru s\<rparr> else ?s1)\<lparr>sl_pages := sl_pages s @ [Some ?p]\<rparr>"
  let ?s3 = "(set_lru c (page # sc_lru (cls s c)) ?s2)\<lparr>sl_item := (sl_item s)(page \<mapsto> ?i)\<rparr>"
  let ?s4 = "?s3\<lparr>sl_available := sl_available s - 1, sl_allocs := sl_allocs s + 1\<rparr>"
  have "create_from_new_page c (Some page) s = Some (Created page None, ?s3)"
    using assms by (simp add: create_from_new_page_def create_item_def il_push_front_def Let_def)
  moreover have "sl_available ?s3 = sl_available s" "sl_allocs ?s3 = sl_allocs s"
    by (cases "sl_reclaimer s"; simp add: set_lru_def set_free_pages_def)+
  ultimately have "slab_create sz (Some page) unlocked s = Some (Created page None, ?s4)"
    using assms(2,3,5) by (simp add: slab_create_def)
  moreover have "slab_create sz mem unlocked ?s4 = None" for mem
  proof -
    have g: "get_slab_class sz ?s4 = Some c" using assms(2) by (simp add: get_slab_class_def)
    have f: "sc_free_pages (cls ?s4 c) = [?i]" using assms(1) by (cases "sl_reclaimer s") simp_all
    have p: "page_at ?s4 ?i = Some ?p" by (cases "sl_reclaimer s") simp_all
    have "class_create c ?s4 = None" using f p
      unfolding class_create_def by (simp add: allocate_object_def slab_page_new_def)
    then show ?thesis using g f by (simp add: slab_create_def)
  qed
  ultimately show ?thesis by blast
qed

end
