(* ===== verification/Memcache.thy ===== *)
theory Memcache
  imports Slab TimerSet
begin

text \<open>
  The cache of memcached (\<open>apps/memcached/memcache.cc\<close>): items allocated by the slab allocator, linked in a hash
  set by key and, when they expire, in a timer set.

  An item is its address.  \<open>ca_mem\<close> holds the items that have been constructed, \<open>ca_set\<close> the addresses linked in
  the hash set (the order in a hash set is of no consequence, linking and unlinking are those of an
  intrusive container: unlinking an item that is not linked is undefined).  What is outside of the program is in
  \<open>mc_env\<close>: the hash function, the clocks, the size of an item without its data, the memory the
  system allocator has to offer, whether the new bucket array can be allocated, and Boost's
  \<open>lexical_cast\<close> from a string to an unsigned number.
\<close>

section \<open>Data\<close>

definition never_expire :: int where "never_expire = - (2 ^ 63)"
definition seconds_in_a_month :: nat where "seconds_in_a_month = 60 * 60 * 24 * 30"

record mc_env =
  me_hash :: "string \<Rightarrow> 64 word"
  me_now :: int
  me_wall :: int
  me_second :: int
  me_sizeof :: nat
  me_memory :: "nat option"
  me_rehash_ok :: bool
  me_lexical_cast :: "string \<Rightarrow> 64 word option"

definition expiration_of :: "mc_env \<Rightarrow> int \<Rightarrow> nat \<Rightarrow> int" where
  "expiration_of env delta s =
     (if s = 0 then never_expire
      else if s \<le> seconds_in_a_month then me_now env + int s * me_second env
      else int s * me_second env + delta)"

definition ever_expires :: "int \<Rightarrow> bool" where
  "ever_expires expiry \<longleftrightarrow> expiry \<noteq> never_expire"

record item =
  it_version :: "64 word"
  it_hash :: "64 word"
  it_expiry :: int
  it_key :: string
  it_prefix :: string
  it_value :: string
  it_ref :: "16 word"

record insertion =
  in_key :: string
  in_prefix :: string
  in_data :: string
  in_expiry :: int

text \<open>The sizes of the key and of the prefix are stored in a byte each, that of the value in 32 bits.\<close>

definition stored8 :: "string \<Rightarrow> string" where
  "stored8 s = take (unat (of_nat (length s) :: 8 word)) s"

definition stored32 :: "string \<Rightarrow> string" where
  "stored32 s = take (unat (of_nat (length s) :: 32 word)) s"

definition item_new :: "mc_env \<Rightarrow> insertion \<Rightarrow> 64 word \<Rightarrow> item" where
  "item_new env ins version =
     \<lparr>it_version = version, it_hash = me_hash env (in_key ins), it_expiry = in_expiry ins,
      it_key = stored8 (in_key ins), it_prefix = stored8 (in_prefix ins), it_value = stored32 (in_data ins), it_ref = 0\<rparr>"

definition item_eq :: "item \<Rightarrow> item \<Rightarrow> bool" where
  "item_eq a b \<longleftrightarrow> it_hash a = it_hash b \<and> it_key a = it_key b"

definition item_key_cmp :: "mc_env \<Rightarrow> string \<Rightarrow> item \<Rightarrow> bool" where
  "item_key_cmp env key it \<longleftrightarrow> it_hash it = me_hash env key \<and> it_key it = key"

definition strip_trailing_space :: "string \<Rightarrow> string" where
  "strip_trailing_space s = rev (dropWhile (\<lambda>c. c = CHR '' '') (rev s))"

definition value_integral :: "mc_env \<Rightarrow> string \<Rightarrow> 64 word option" where
  "value_integral env s = (if s \<noteq> [] \<and> hd s = CHR ''-'' then None else me_lexical_cast env (strip_trailing_space s))"

definition data_as_integral :: "mc_env \<Rightarrow> item \<Rightarrow> 64 word option" where
  "data_as_integral env it = value_integral env (it_value it)"

fun to_decimal :: "nat \<Rightarrow> string" where
  "to_decimal n = (if n < 10 then [char_of (48 + n)] else to_decimal (n div 10) @ [char_of (48 + n mod 10)])"

declare to_decimal.simps [simp del]

definition align8 :: "nat \<Rightarrow> nat" where
  "align8 n = unat (align_up (of_nat n :: 64 word) 8)"

definition item_size :: "mc_env \<Rightarrow> item \<Rightarrow> nat" where
  "item_size env it = me_sizeof env + align8 (length (it_key it)) + align8 (length (it_prefix it)) + length (it_value it)"

definition insertion_size :: "mc_env \<Rightarrow> insertion \<Rightarrow> nat" where
  "insertion_size env ins = me_sizeof env + align8 (length (in_key ins)) + align8 (length (in_prefix ins)) + length (in_data ins)"

record cache_stats =
  st_get_hits :: "64 word"
  st_get_misses :: "64 word"
  st_set_adds :: "64 word"
  st_set_replaces :: "64 word"
  st_cas_hits :: "64 word"
  st_cas_misses :: "64 word"
  st_cas_badval :: "64 word"
  st_delete_misses :: "64 word"
  st_delete_hits :: "64 word"
  st_incr_misses :: "64 word"
  st_incr_hits :: "64 word"
  st_decr_misses :: "64 word"
  st_decr_hits :: "64 word"
  st_expired :: "64 word"
  st_evicted :: "64 word"
  st_bytes :: "64 word"
  st_resize_failure :: "64 word"
  st_size :: "64 word"
  st_reclaims :: "64 word"

definition stats_zero :: cache_stats where
  "stats_zero = \<lparr>st_get_hits = 0, st_get_misses = 0, st_set_adds = 0, st_set_replaces = 0, st_cas_hits = 0, st_cas_misses = 0,
     st_cas_badval = 0, st_delete_misses = 0, st_delete_hits = 0, st_incr_misses = 0, st_incr_hits = 0, st_decr_misses = 0,
     st_decr_hits = 0, st_expired = 0, st_evicted = 0, st_bytes = 0, st_resize_failure = 0, st_size = 0, st_reclaims = 0\<rparr>"

definition stats_add :: "cache_stats \<Rightarrow> cache_stats \<Rightarrow> cache_stats" where
  "stats_add a o' = \<lparr>st_get_hits = st_get_hits a + st_get_hits o', st_get_misses = st_get_misses a + st_get_misses o',
     st_set_adds = st_set_adds a + st_set_adds o', st_set_replaces = st_set_replaces a + st_set_replaces o',
     st_cas_hits = st_cas_hits a + st_cas_hits o', st_cas_misses = st_cas_misses a + st_cas_misses o',
     st_cas_badval = st_cas_badval a + st_cas_badval o', st_delete_misses = st_delete_misses a + st_delete_misses o',
     st_delete_hits = st_delete_hits a + st_delete_hits o', st_incr_misses = st_incr_misses a + st_incr_misses o',
     st_incr_hits = st_incr_hits a + st_incr_hits o', st_decr_misses = st_decr_misses a + st_decr_misses o',
     st_decr_hits = st_decr_hits a + st_decr_hits o', st_expired = st_expired a + st_expired o',
     st_evicted = st_evicted a + st_evicted o', st_bytes = st_bytes a + st_bytes o',
     st_resize_failure = st_resize_failure a + st_resize_failure o', st_size = st_size a + st_size o',
     st_reclaims = st_reclaims a + st_reclaims o'\<rparr>"

record cache =
  ca_mem :: "nat \<Rightarrow> item option"
  ca_set :: "nat list"
  ca_slab :: slab
  ca_alive :: timer_set
  ca_timer :: "int option"
  ca_flush_timer :: "int option"
  ca_delta :: int
  ca_stats :: cache_stats
  ca_buckets :: nat
  ca_threshold :: nat

definition cache_new :: "mc_env \<Rightarrow> slab \<Rightarrow> cache" where
  "cache_new env sl = \<lparr>ca_mem = \<lambda>_. None, ca_set = [], ca_slab = sl, ca_alive = ts_new, ca_timer = None, ca_flush_timer = None,
     ca_delta = me_now env - me_wall env, ca_stats = stats_zero, ca_buckets = 1024, ca_threshold = 1024 * 3 div 4\<rparr>"

section \<open>References\<close>

abbreviation ca_unlocked :: "cache \<Rightarrow> nat \<Rightarrow> bool" where
  "ca_unlocked c a \<equiv> (case ca_mem c a of None \<Rightarrow> False | Some it \<Rightarrow> it_ref it = 1)"

definition set_item :: "nat \<Rightarrow> item option \<Rightarrow> cache \<Rightarrow> cache" where
  "set_item a it c = c\<lparr>ca_mem := (ca_mem c)(a := it)\<rparr>"

definition add_ref :: "nat \<Rightarrow> cache \<Rightarrow> cache option" where
  "add_ref a c =
     Option.bind (ca_mem c a) (\<lambda>it.
       let it = it\<lparr>it_ref := it_ref it + 1\<rparr>;
           c = set_item a (Some it) c
       in if it_ref it = 2 then map_option (\<lambda>sl. c\<lparr>ca_slab := sl\<rparr>) (lock_item a (ca_slab c)) else Some c)"

definition release :: "nat \<Rightarrow> cache \<Rightarrow> cache option" where
  "release a c =
     Option.bind (ca_mem c a) (\<lambda>it.
       let it = it\<lparr>it_ref := it_ref it - 1\<rparr>;
           c = set_item a (Some it) c
       in if it_ref it = 1 then map_option (\<lambda>sl. c\<lparr>ca_slab := sl\<rparr>) (unlock_item a (ca_slab c))
          else if it_ref it = 0 then map_option (\<lambda>sl. set_item a None (c\<lparr>ca_slab := sl\<rparr>)) (slab_free a (ca_slab c))
          else Some c)"

section \<open>Linking and unlinking\<close>

definition bump_bytes :: "64 word \<Rightarrow> cache \<Rightarrow> cache" where
  "bump_bytes n c = c\<lparr>ca_stats := (ca_stats c)\<lparr>st_bytes := st_bytes (ca_stats c) + n\<rparr>\<rparr>"

definition cache_erase :: "bool \<Rightarrow> bool \<Rightarrow> bool \<Rightarrow> mc_env \<Rightarrow> nat \<Rightarrow> cache \<Rightarrow> cache option" where
  "cache_erase in_cache in_timer_list do_release env a c =
     Option.bind (ca_mem c a) (\<lambda>it.
       Option.bind (if in_cache then map_option (\<lambda>s. c\<lparr>ca_set := s\<rparr>) (il_erase a (ca_set c)) else Some c) (\<lambda>c.
         let c = (if in_timer_list \<and> ever_expires (it_expiry it)
                  then c\<lparr>ca_alive := ts_remove (a, it_expiry it) (ca_alive c)\<rparr> else c);
             c = bump_bytes (- of_nat (item_size env it)) c
         in if do_release then release a c else Some c))"

definition cache_find :: "mc_env \<Rightarrow> string \<Rightarrow> cache \<Rightarrow> nat option" where
  "cache_find env key c =
     find (\<lambda>a. case ca_mem c a of None \<Rightarrow> False | Some it \<Rightarrow> item_key_cmp env key it) (ca_set c)"

text \<open>\<open>slab->create\<close>, with the erase function the cache gave to the allocator: the evicted item is unlinked, and its
  memory holds the new one.\<close>

definition create_in_slab :: "mc_env \<Rightarrow> nat \<Rightarrow> insertion \<Rightarrow> 64 word \<Rightarrow> cache \<Rightarrow> (nat option \<times> cache) option" where
  "create_in_slab env sz ins version c =
     Option.bind (slab_create sz (me_memory env) (ca_unlocked c) (ca_slab c)) (\<lambda>(r, sl).
       case r of
         Created a None \<Rightarrow> Some (Some a, set_item a (Some (item_new env ins version)) (c\<lparr>ca_slab := sl\<rparr>))
       | Created a (Some v) \<Rightarrow>
           Option.bind (cache_erase True True False env v c) (\<lambda>c.
             let c = c\<lparr>ca_stats := (ca_stats c)\<lparr>st_evicted := st_evicted (ca_stats c) + 1\<rparr>\<rparr>
             in Some (Some a, set_item a (Some (item_new env ins version)) (c\<lparr>ca_slab := sl\<rparr>)))
       | Bad_alloc \<Rightarrow> Some (None, c\<lparr>ca_slab := sl\<rparr>)
       | Null \<Rightarrow> None)"

text \<open>Inserting in the hash set, which holds no two equal items.\<close>

definition set_insert :: "nat \<Rightarrow> cache \<Rightarrow> (bool \<times> cache) option" where
  "set_insert a c =
     Option.bind (ca_mem c a) (\<lambda>it.
       if \<exists>b \<in> set (ca_set c). case ca_mem c b of None \<Rightarrow> False | Some it' \<Rightarrow> item_eq it it'
       then Some (False, c)
       else map_option (\<lambda>s. (True, c\<lparr>ca_set := s\<rparr>)) (il_push_front a (ca_set c)))"

definition arm_alive :: "nat \<Rightarrow> int \<Rightarrow> cache \<Rightarrow> cache" where
  "arm_alive a expiry c =
     (if ever_expires expiry then
        (case ts_insert (a, expiry) (ca_alive c) of (rearm, ts) \<Rightarrow>
           let c = c\<lparr>ca_alive := ts\<rparr> in if rearm then c\<lparr>ca_timer := Some expiry\<rparr> else c)
      else c)"

definition add_overriding :: "mc_env \<Rightarrow> nat \<Rightarrow> insertion \<Rightarrow> cache \<Rightarrow> (nat option \<times> cache) option" where
  "add_overriding env i ins c =
     Option.bind (ca_mem c i) (\<lambda>old.
       Option.bind (cache_erase True True True env i c) (\<lambda>c.
         let sz = insertion_size env ins
         in Option.bind (create_in_slab env sz ins (it_version old + 1) c) (\<lambda>(r, c).
              case r of None \<Rightarrow> Some (None, c)
              | Some a \<Rightarrow>
                  Option.bind (add_ref a c) (\<lambda>c.
                    Option.bind (set_insert a c) (\<lambda>(inserted, c).
                      if \<not> inserted then None
                      else Some (Some a, bump_bytes (of_nat sz) (arm_alive a (in_expiry ins) c)))))))"

definition maybe_rehash :: "mc_env \<Rightarrow> cache \<Rightarrow> cache" where
  "maybe_rehash env c =
     (if ca_threshold c \<le> length (ca_set c) then
        if me_rehash_ok env then c\<lparr>ca_buckets := ca_buckets c * 2, ca_threshold := ca_buckets c * 2 * 3 div 4\<rparr>
        else c\<lparr>ca_stats := (ca_stats c)\<lparr>st_resize_failure := st_resize_failure (ca_stats c) + 1\<rparr>\<rparr>
      else c)"

definition add_new :: "mc_env \<Rightarrow> insertion \<Rightarrow> cache \<Rightarrow> (nat option \<times> cache) option" where
  "add_new env ins c =
     (let sz = insertion_size env ins
      in Option.bind (create_in_slab env sz ins 1 c) (\<lambda>(r, c).
           case r of None \<Rightarrow> Some (None, c)
           | Some a \<Rightarrow>
               Option.bind (add_ref a c) (\<lambda>c.
                 map_option (\<lambda>(inserted, c). (Some a, maybe_rehash env (bump_bytes (of_nat sz) (arm_alive a (in_expiry ins) c))))
                   (set_insert a c))))"

section \<open>The operations\<close>

text \<open>\<open>std::bad_alloc\<close> is the result \<open>Inl ()\<close> of an operation.\<close>

definition bump_stats :: "(cache_stats \<Rightarrow> cache_stats) \<Rightarrow> cache \<Rightarrow> cache" where
  "bump_stats f c = c\<lparr>ca_stats := f (ca_stats c)\<rparr>"

definition cache_set :: "mc_env \<Rightarrow> insertion \<Rightarrow> cache \<Rightarrow> ((unit + bool) \<times> cache) option" where
  "cache_set env ins c =
     (case cache_find env (in_key ins) c of
        Some i \<Rightarrow> map_option (\<lambda>(r, c). case r of None \<Rightarrow> (Inl (), c)
            | Some _ \<Rightarrow> (Inr True, bump_stats (\<lambda>s. s\<lparr>st_set_replaces := st_set_replaces s + 1\<rparr>) c)) (add_overriding env i ins c)
      | None \<Rightarrow> map_option (\<lambda>(r, c). case r of None \<Rightarrow> (Inl (), c)
            | Some _ \<Rightarrow> (Inr False, bump_stats (\<lambda>s. s\<lparr>st_set_adds := st_set_adds s + 1\<rparr>) c)) (add_new env ins c))"

definition cache_add :: "mc_env \<Rightarrow> insertion \<Rightarrow> cache \<Rightarrow> ((unit + bool) \<times> cache) option" where
  "cache_add env ins c =
     (if cache_find env (in_key ins) c \<noteq> None then Some (Inr False, c)
      else map_option (\<lambda>(r, c). case r of None \<Rightarrow> (Inl (), c) | Some _ \<Rightarrow> (Inr True, c))
             (add_new env ins (bump_stats (\<lambda>s. s\<lparr>st_set_adds := st_set_adds s + 1\<rparr>) c)))"

definition cache_replace :: "mc_env \<Rightarrow> insertion \<Rightarrow> cache \<Rightarrow> ((unit + bool) \<times> cache) option" where
  "cache_replace env ins c =
     (case cache_find env (in_key ins) c of
        None \<Rightarrow> Some (Inr False, c)
      | Some i \<Rightarrow> map_option (\<lambda>(r, c). case r of None \<Rightarrow> (Inl (), c) | Some _ \<Rightarrow> (Inr True, c))
             (add_overriding env i ins (bump_stats (\<lambda>s. s\<lparr>st_set_replaces := st_set_replaces s + 1\<rparr>) c)))"

definition cache_remove :: "mc_env \<Rightarrow> string \<Rightarrow> cache \<Rightarrow> (bool \<times> cache) option" where
  "cache_remove env key c =
     (case cache_find env key c of
        None \<Rightarrow> Some (False, bump_stats (\<lambda>s. s\<lparr>st_delete_misses := st_delete_misses s + 1\<rparr>) c)
      | Some i \<Rightarrow> map_option (Pair True)
          (cache_erase True True True env i (bump_stats (\<lambda>s. s\<lparr>st_delete_hits := st_delete_hits s + 1\<rparr>) c)))"

text \<open>\<open>get\<close> returns a pointer that counts as a reference.\<close>

definition cache_get :: "mc_env \<Rightarrow> string \<Rightarrow> cache \<Rightarrow> (nat option \<times> cache) option" where
  "cache_get env key c =
     (case cache_find env key c of
        None \<Rightarrow> Some (None, bump_stats (\<lambda>s. s\<lparr>st_get_misses := st_get_misses s + 1\<rparr>) c)
      | Some i \<Rightarrow> map_option (Pair (Some i)) (add_ref i (bump_stats (\<lambda>s. s\<lparr>st_get_hits := st_get_hits s + 1\<rparr>) c)))"

datatype cas_result = Cas_not_found | Cas_stored | Cas_bad_version

definition cache_cas :: "mc_env \<Rightarrow> insertion \<Rightarrow> 64 word \<Rightarrow> cache \<Rightarrow> ((unit + cas_result) \<times> cache) option" where
  "cache_cas env ins version c =
     (case cache_find env (in_key ins) c of
        None \<Rightarrow> Some (Inr Cas_not_found, bump_stats (\<lambda>s. s\<lparr>st_cas_misses := st_cas_misses s + 1\<rparr>) c)
      | Some i \<Rightarrow>
          Option.bind (ca_mem c i) (\<lambda>it.
            if it_version it \<noteq> version then Some (Inr Cas_bad_version, bump_stats (\<lambda>s. s\<lparr>st_cas_badval := st_cas_badval s + 1\<rparr>) c)
            else map_option (\<lambda>(r, c). case r of None \<Rightarrow> (Inl (), c) | Some _ \<Rightarrow> (Inr Cas_stored, c))
                   (add_overriding env i ins (bump_stats (\<lambda>s. s\<lparr>st_cas_hits := st_cas_hits s + 1\<rparr>) c))))"

text \<open>\<open>incr\<close> and \<open>decr\<close>: the pointer, if the key was found, and whether the value was changed.\<close>

definition cache_update :: "mc_env \<Rightarrow> string \<Rightarrow> (64 word \<Rightarrow> 64 word) \<Rightarrow> nat \<Rightarrow> cache \<Rightarrow>
    ((unit + (nat option \<times> bool)) \<times> cache) option" where
  "cache_update env key f i c =
     Option.bind (ca_mem c i) (\<lambda>it.
       case data_as_integral env it of
         None \<Rightarrow> map_option (Pair (Inr (Some i, False))) (add_ref i c)
       | Some v \<Rightarrow>
           let ins = \<lparr>in_key = key, in_prefix = it_prefix it, in_data = to_decimal (unat (f v)), in_expiry = it_expiry it\<rparr>
           in Option.bind (add_overriding env i ins c) (\<lambda>(r, c).
                case r of None \<Rightarrow> Some (Inl (), c)
                | Some a \<Rightarrow> map_option (Pair (Inr (Some a, True))) (add_ref a c)))"

definition cache_incr :: "mc_env \<Rightarrow> string \<Rightarrow> 64 word \<Rightarrow> cache \<Rightarrow> ((unit + (nat option \<times> bool)) \<times> cache) option" where
  "cache_incr env key delta c =
     (case cache_find env key c of
        None \<Rightarrow> Some (Inr (None, False), bump_stats (\<lambda>s. s\<lparr>st_incr_misses := st_incr_misses s + 1\<rparr>) c)
      | Some i \<Rightarrow> cache_update env key (\<lambda>v. v + delta) i (bump_stats (\<lambda>s. s\<lparr>st_incr_hits := st_incr_hits s + 1\<rparr>) c))"

definition cache_decr :: "mc_env \<Rightarrow> string \<Rightarrow> 64 word \<Rightarrow> cache \<Rightarrow> ((unit + (nat option \<times> bool)) \<times> cache) option" where
  "cache_decr env key delta c =
     (case cache_find env key c of
        None \<Rightarrow> Some (Inr (None, False), bump_stats (\<lambda>s. s\<lparr>st_decr_misses := st_decr_misses s + 1\<rparr>) c)
      | Some i \<Rightarrow> cache_update env key (\<lambda>v. v - min v delta) i (bump_stats (\<lambda>s. s\<lparr>st_decr_hits := st_decr_hits s + 1\<rparr>) c))"

fun erase_all :: "bool \<Rightarrow> bool \<Rightarrow> (cache \<Rightarrow> cache) \<Rightarrow> mc_env \<Rightarrow> nat list \<Rightarrow> cache \<Rightarrow> cache option" where
  "erase_all in_cache in_timer_list after env [] c = Some c"
| "erase_all in_cache in_timer_list after env (a # as) c =
     Option.bind (cache_erase in_cache in_timer_list True env a c) (\<lambda>c.
       erase_all in_cache in_timer_list after env as (after c))"

definition flush_all :: "mc_env \<Rightarrow> cache \<Rightarrow> cache option" where
  "flush_all env c = erase_all False True id env (ca_set c) (c\<lparr>ca_flush_timer := None, ca_set := []\<rparr>)"

definition flush_at :: "mc_env \<Rightarrow> nat \<Rightarrow> cache \<Rightarrow> cache" where
  "flush_at env time c = c\<lparr>ca_flush_timer := Some (expiration_of env (ca_delta c) time)\<rparr>"

definition cache_expire :: "mc_env \<Rightarrow> cache \<Rightarrow> cache option" where
  "cache_expire env c0 =
     (let c = c0\<lparr>ca_delta := me_now env - me_wall env\<rparr>
      in Option.bind (ts_expire (me_now env) (ca_alive c)) (\<lambda>(exp, ts).
           map_option (\<lambda>c. c\<lparr>ca_timer := Some (ts_get_next_timeout (ca_alive c))\<rparr>)
             (erase_all True False (bump_stats (\<lambda>s. s\<lparr>st_expired := st_expired s + 1\<rparr>)) env (map fst exp) (c\<lparr>ca_alive := ts\<rparr>))))"

text \<open>Memory is reclaimed from the cache: the items of the evicted page are unlinked.\<close>

fun evict_all :: "mc_env \<Rightarrow> nat list \<Rightarrow> cache \<Rightarrow> cache option" where
  "evict_all env [] c = Some c"
| "evict_all env (a # as) c =
     Option.bind (cache_erase True True False env a c) (\<lambda>c.
       evict_all env as (set_item a None (bump_stats (\<lambda>s. s\<lparr>st_evicted := st_evicted s + 1\<rparr>) c)))"

definition cache_reclaim :: "mc_env \<Rightarrow> cache \<Rightarrow> cache option" where
  "cache_reclaim env c =
     Option.bind (slab_reclaim (ca_unlocked c) (ca_slab c)) (\<lambda>(r, sl).
       let c = c\<lparr>ca_slab := sl\<rparr>
       in case r of Reclaimed_nothing \<Rightarrow> Some c | Reclaimed_something as \<Rightarrow> evict_all env as c)"

definition cache_stats_of :: "cache \<Rightarrow> cache_stats" where
  "cache_stats_of c = (ca_stats c)\<lparr>st_size := of_nat (length (ca_set c))\<rparr>"

section \<open>Well-formed caches\<close>

definition item_timers :: "cache \<Rightarrow> nat \<Rightarrow> tm multiset" where
  "item_timers c a = (case ca_mem c a of None \<Rightarrow> {#}
     | Some it \<Rightarrow> if ever_expires (it_expiry it) then {#(a, it_expiry it)#} else {#})"

definition item_bytes :: "mc_env \<Rightarrow> cache \<Rightarrow> nat \<Rightarrow> 64 word" where
  "item_bytes env c a = (case ca_mem c a of None \<Rightarrow> 0 | Some it \<Rightarrow> of_nat (item_size env it))"

definition item_ok :: "mc_env \<Rightarrow> item \<Rightarrow> bool" where
  "item_ok env it \<longleftrightarrow> it_hash it = me_hash env (it_key it) \<and> it_expiry it < 2 ^ 63 \<and>
     length (it_key it) < 256 \<and> length (it_prefix it) < 256"

text \<open>Items in limbo, \<open>Z\<close>, have been allocated but are not linked.\<close>

definition cache_ok :: "mc_env \<Rightarrow> nat set \<Rightarrow> cache \<Rightarrow> bool" where
  "cache_ok env Z c \<longleftrightarrow>
     slab_wf (ca_slab c) \<and> live (ca_slab c) = set (ca_set c) \<union> Z \<and> locked (ca_slab c) = {} \<and>
     distinct (ca_set c) \<and> set (ca_set c) \<inter> Z = {} \<and> (\<forall>a. ca_mem c a \<noteq> None \<longleftrightarrow> a \<in> set (ca_set c) \<union> Z) \<and>
     (\<forall>a \<in> set (ca_set c). \<forall>it. ca_mem c a = Some it \<longrightarrow> it_ref it = 1 \<and> item_ok env it) \<and>
     (\<forall>a \<in> set (ca_set c). \<forall>b \<in> set (ca_set c). map_option it_key (ca_mem c a) = map_option it_key (ca_mem c b) \<longrightarrow> a = b) \<and>
     ts_wf (ca_alive c) \<and> ts_timers (ca_alive c) = sum_list (map (item_timers c) (ca_set c)) \<and>
     st_bytes (ca_stats c) = sum_list (map (item_bytes env c) (ca_set c))"

abbreviation cache_wf :: "mc_env \<Rightarrow> cache \<Rightarrow> bool" where
  "cache_wf env \<equiv> cache_ok env {}"

type_synonym entry = "string \<times> string \<times> int \<times> 64 word"

definition entry_of :: "item \<Rightarrow> entry" where
  "entry_of it = (it_value it, it_prefix it, it_expiry it, it_version it)"

definition cache_abs :: "cache \<Rightarrow> string \<Rightarrow> entry option" where
  "cache_abs c key =
     map_option entry_of (Option.bind (find (\<lambda>a. map_option it_key (ca_mem c a) = Some key) (ca_set c)) (ca_mem c))"

lemma cache_okD:
  assumes "cache_ok env Z c"
  shows "slab_wf (ca_slab c)" "live (ca_slab c) = set (ca_set c) \<union> Z" "locked (ca_slab c) = {}"
    "distinct (ca_set c)" "set (ca_set c) \<inter> Z = {}" "ca_mem c a \<noteq> None \<longleftrightarrow> a \<in> set (ca_set c) \<union> Z"
    "a \<in> set (ca_set c) \<Longrightarrow> ca_mem c a = Some it \<Longrightarrow> it_ref it = 1 \<and> item_ok env it"
    "a \<in> set (ca_set c) \<Longrightarrow> b \<in> set (ca_set c) \<Longrightarrow> map_option it_key (ca_mem c a) = map_option it_key (ca_mem c b) \<Longrightarrow> a = b"
    "ts_wf (ca_alive c)" "ts_timers (ca_alive c) = sum_list (map (item_timers c) (ca_set c))"
    "st_bytes (ca_stats c) = sum_list (map (item_bytes env c) (ca_set c))"
  using assms unfolding cache_ok_def by blast+

lemma find_iff:
  assumes "\<And>b. b \<in> set xs \<Longrightarrow> P b \<longleftrightarrow> b = a"
  shows "find P xs = (if a \<in> set xs then Some a else None)"
  using assms by (induction xs) auto

lemma cache_abs_Some:
  assumes ok: "cache_ok env Z c" and a: "a \<in> set (ca_set c)" "ca_mem c a = Some it"
  shows "cache_abs c (it_key it) = Some (entry_of it)"
proof -
  have "map_option it_key (ca_mem c b) = Some (it_key it) \<longleftrightarrow> b = a" if "b \<in> set (ca_set c)" for b
    using cache_okD(8) [OF ok that a(1)] a by auto
  then have "find (\<lambda>b. map_option it_key (ca_mem c b) = Some (it_key it)) (ca_set c) = Some a"
    using find_iff [of "ca_set c" "\<lambda>b. map_option it_key (ca_mem c b) = Some (it_key it)" a] a(1) by simp
  then show ?thesis using a(2) by (simp add: cache_abs_def)
qed

lemma cache_abs_None:
  "cache_abs c key = None \<longleftrightarrow> (\<forall>a \<in> set (ca_set c). map_option it_key (ca_mem c a) \<noteq> Some key)"
proof -
  let ?P = "\<lambda>a. map_option it_key (ca_mem c a) = Some key"
  have "Option.bind (find ?P xs) (ca_mem c) = None \<longleftrightarrow> find ?P xs = None" for xs
    by (induction xs) auto
  then show ?thesis by (auto simp: cache_abs_def find_None_iff)
qed

lemma cache_abs_key:
  assumes "cache_abs c k = Some e"
  shows "\<exists>b \<in> set (ca_set c). map_option it_key (ca_mem c b) = Some k"
proof (rule ccontr)
  assume "\<not> ?thesis"
  then have "\<forall>a \<in> set (ca_set c). map_option it_key (ca_mem c a) \<noteq> Some k" by blast
  then have "cache_abs c k = None" by (rule iffD2 [OF cache_abs_None])
  then show False using assms by (metis option.distinct(1))
qed

text \<open>The map of a cache, from the items that are linked.\<close>

lemma cache_abs_eqI:
  assumes ok: "cache_ok env Z c"
    and some: "\<And>a it. a \<in> set (ca_set c) \<Longrightarrow> ca_mem c a = Some it \<Longrightarrow> M (it_key it) = Some (entry_of it)"
    and none: "\<And>k e. M k = Some e \<Longrightarrow> \<exists>a \<in> set (ca_set c). map_option it_key (ca_mem c a) = Some k"
  shows "cache_abs c = M"
proof
  fix k
  show "cache_abs c k = M k"
  proof (cases "M k")
    case None
    have "map_option it_key (ca_mem c a) \<noteq> Some k" if "a \<in> set (ca_set c)" for a
      using some [OF that] None by (cases "ca_mem c a") auto
    then show ?thesis using None cache_abs_None by metis
  next
    case (Some e)
    then obtain a it where a: "a \<in> set (ca_set c)" "ca_mem c a = Some it" "it_key it = k" using none by fastforce
    show ?thesis using cache_abs_Some [OF ok a(1,2)] some [OF a(1,2)] a(3) by simp
  qed
qed

lemma cache_find_abs:
  assumes ok: "cache_ok env Z c"
  shows "cache_find env key c = None \<longleftrightarrow> cache_abs c key = None"
    and "cache_find env key c = Some a \<Longrightarrow> \<exists>it. a \<in> set (ca_set c) \<and> ca_mem c a = Some it \<and> it_key it = key \<and> cache_abs c key = Some (entry_of it)"
proof -
  have cmp: "(case ca_mem c b of None \<Rightarrow> False | Some it \<Rightarrow> item_key_cmp env key it) \<longleftrightarrow> map_option it_key (ca_mem c b) = Some key"
    if "b \<in> set (ca_set c)" for b
    using cache_okD(7) [OF ok that] by (cases "ca_mem c b") (auto simp: item_key_cmp_def item_ok_def)
  then show "cache_find env key c = None \<longleftrightarrow> cache_abs c key = None"
    by (auto simp: cache_find_def find_None_iff cache_abs_None)
  assume "cache_find env key c = Some a"
  then have a: "a \<in> set (ca_set c)" "case ca_mem c a of None \<Rightarrow> False | Some it \<Rightarrow> item_key_cmp env key it"
    by (auto simp: cache_find_def find_Some_iff)
  then obtain it where it: "ca_mem c a = Some it" "it_key it = key" using cmp [OF a(1)] by auto
  then show "\<exists>it. a \<in> set (ca_set c) \<and> ca_mem c a = Some it \<and> it_key it = key \<and> cache_abs c key = Some (entry_of it)"
    using a(1) cache_abs_Some [OF ok a(1) it(1)] by auto
qed

text \<open>Sums over the linked items.\<close>

lemma sums_cong:
  assumes "\<And>a. a \<in> set xs \<Longrightarrow> ca_mem c' a = ca_mem c a" and "me_sizeof env' = me_sizeof env"
  shows "sum_list (map (item_timers c') xs) = sum_list (map (item_timers c) xs)"
    and "sum_list (map (item_bytes env' c') xs) = sum_list (map (item_bytes env c) xs)"
proof -
  have "map (item_timers c') xs = map (item_timers c) xs" using assms by (intro map_cong) (simp_all add: item_timers_def)
  then show "sum_list (map (item_timers c') xs) = sum_list (map (item_timers c) xs)" by (rule arg_cong)
  have "map (item_bytes env' c') xs = map (item_bytes env c) xs" using assms
    by (intro map_cong) (auto simp: item_bytes_def item_size_def split: option.split)
  then show "sum_list (map (item_bytes env' c') xs) = sum_list (map (item_bytes env c) xs)" by (rule arg_cong)
qed

lemma sum_remove1:
  fixes f :: "nat \<Rightarrow> 'b::comm_monoid_add"
  shows "a \<in> set xs \<Longrightarrow> sum_list (map f xs) = f a + sum_list (map f (remove1 a xs))"
  by (rule sum_list_map_remove1)

text \<open>Unlinking an item, which is then in limbo.\<close>

definition unlink :: "mc_env \<Rightarrow> nat \<Rightarrow> item \<Rightarrow> cache \<Rightarrow> cache" where
  "unlink env a it c = bump_bytes (- of_nat (item_size env it))
     (c\<lparr>ca_set := remove1 a (ca_set c),
        ca_alive := if ever_expires (it_expiry it) then ts_remove (a, it_expiry it) (ca_alive c) else ca_alive c\<rparr>)"

lemma unlink_fields [simp]:
  "ca_mem (unlink env a it c) = ca_mem c" "ca_set (unlink env a it c) = remove1 a (ca_set c)" "ca_slab (unlink env a it c) = ca_slab c"
  "ca_alive (unlink env a it c) = (if ever_expires (it_expiry it) then ts_remove (a, it_expiry it) (ca_alive c) else ca_alive c)"
  "st_bytes (ca_stats (unlink env a it c)) = st_bytes (ca_stats c) - of_nat (item_size env it)"
  by (simp_all add: unlink_def bump_bytes_def)

lemma ts_remove_timers:
  assumes "ts_wf ts" and "t \<in># ts_timers ts"
  shows "ts_timers (ts_remove t ts) = ts_timers ts - {#t#}"
  using ts_wf_remove(2) [OF assms, symmetric] by simp

lemma unlink_ok:
  assumes ok: "cache_ok env Z c" and a: "a \<in> set (ca_set c)" "ca_mem c a = Some it"
  shows "cache_ok env (insert a Z) (unlink env a it c)" and "cache_abs (unlink env a it c) = (cache_abs c)(it_key it := None)"
proof -
  note K = cache_okD [OF ok]
  have d: "distinct (ca_set c)" by (rule K(4))
  have T: "ts_timers (ca_alive c) = item_timers c a + sum_list (map (item_timers c) (remove1 a (ca_set c)))"
    using K(10) sum_remove1 [OF a(1), of "item_timers c"] by simp
  have alive: "ts_wf (ca_alive (unlink env a it c)) \<and>
    ts_timers (ca_alive (unlink env a it c)) = sum_list (map (item_timers c) (remove1 a (ca_set c)))"
  proof (cases "ever_expires (it_expiry it)")
    case True
    then have i: "item_timers c a = {#(a, it_expiry it)#}" using a(2) by (simp add: item_timers_def)
    then have m: "(a, it_expiry it) \<in># ts_timers (ca_alive c)" using T by simp
    show ?thesis using True T ts_wf_remove(1) [OF K(9) m] ts_remove_timers [OF K(9) m] i by simp
  next
    case False
    then show ?thesis using T K(9) a(2) by (simp add: item_timers_def)
  qed
  have B: "st_bytes (ca_stats c) - of_nat (item_size env it) = sum_list (map (item_bytes env c) (remove1 a (ca_set c)))"
    using K(11) sum_remove1 [OF a(1), of "item_bytes env c"] a(2) by (simp add: item_bytes_def)
  have sums: "item_timers (unlink env a it c) = item_timers c" "item_bytes env (unlink env a it c) = item_bytes env c"
    by (simp_all add: item_timers_def item_bytes_def fun_eq_iff)
  have st: "set (remove1 a (ca_set c)) = set (ca_set c) - {a}" using d by simp
  show "cache_ok env (insert a Z) (unlink env a it c)"
    unfolding cache_ok_def sums using K(1-5) alive B a
    by (intro conjI) (use K(6) K(7) K(8) in \<open>auto simp: st\<close>)
  show "cache_abs (unlink env a it c) = (cache_abs c)(it_key it := None)"
  proof (rule cache_abs_eqI [OF \<open>cache_ok env (insert a Z) (unlink env a it c)\<close>])
    fix b itb
    assume "b \<in> set (ca_set (unlink env a it c))" and m: "ca_mem (unlink env a it c) b = Some itb"
    then have b: "b \<in> set (ca_set c)" "b \<noteq> a" "ca_mem c b = Some itb" using st by simp_all
    then have "it_key itb \<noteq> it_key it" using K(8) [OF b(1) a(1)] a(2) by auto
    then show "((cache_abs c)(it_key it := None)) (it_key itb) = Some (entry_of itb)"
      using cache_abs_Some [OF ok b(1,3)] by simp
  next
    fix k e
    assume "((cache_abs c)(it_key it := None)) k = Some e"
    then have k: "k \<noteq> it_key it" "cache_abs c k = Some e" by (simp_all split: if_splits)
    from cache_abs_key [OF k(2)] obtain b where b: "b \<in> set (ca_set c)" "map_option it_key (ca_mem c b) = Some k" ..
    have "b \<noteq> a"
    proof
      assume "b = a"
      then show False using a(2) b(2) k(1) by simp
    qed
    then have "b \<in> set (ca_set (unlink env a it c))" using b(1) by simp
    then show "\<exists>b \<in> set (ca_set (unlink env a it c)). map_option it_key (ca_mem (unlink env a it c) b) = Some k"
      using b(2) by (intro bexI [of _ b]) (simp_all only: unlink_fields)
  qed
qed

lemma cache_erase_unlink:
  assumes "a \<in> set (ca_set c)" and "ca_mem c a = Some it"
  shows "cache_erase True True rel env a c = (if rel then release a (unlink env a it c) else Some (unlink env a it c))"
  using assms by (simp add: cache_erase_def il_erase_def unlink_def Let_def)

section \<open>What the allocator keeps\<close>

lemma has_erase_updates [simp]:
  "sl_has_erase (set_page i p s) = sl_has_erase s" "sl_has_erase (set_lru c l s) = sl_has_erase s"
  "sl_has_erase (set_free_pages c l s) = sl_has_erase s"
  by (simp_all add: set_page_def set_lru_def set_free_pages_def)

lemma slab_free_frame:
  assumes "slab_free a s = Some s'"
  shows "sl_has_erase s' = sl_has_erase s" "slab_valid (Sl_create sz mem) s' = slab_valid (Sl_create sz mem) s"
proof -
  obtain i p l where p: "sl_item s a = Some i" "page_at s i = Some p"
    and s': "s' = (let s1 = (set_page i (Some (free_object a p)) (set_lru (sp_class p) l s))\<lparr>sl_item := (sl_item s)(a := None)\<rparr>
      in (if length (sp_free (free_object a p)) = 1
          then set_free_pages (sp_class p) (sc_free_pages (cls s (sp_class p)) @ [i]) s1 else s1)\<lparr>sl_frees := sl_frees s + 1\<rparr>)"
    using assms
    by (auto simp: slab_free_def get_slab_page_desc_def free_item_def il_erase_def il_push_back_def Let_def bind_eq_Some_conv
        split: if_splits)
  have i: "i < length (sl_pages s)" by (rule page_at_bound [OF p(2)])
  show "sl_has_erase s' = sl_has_erase s" by (simp add: s' Let_def)
  have f: "sl_sizes s' = sl_sizes s" "sl_max s' = sl_max s" "length (sl_pages s') = length (sl_pages s)"
    "sc_size (cls s' c) = sc_size (cls s c)" "page_at s' = (page_at s)(i \<mapsto> free_object a p)" for c
    using i by (auto simp: s' Let_def page_at_set_page) (auto simp: set_page_def set_lru_def set_free_pages_def)
  have m: "map_option sp_page (page_at s' j) = map_option sp_page (page_at s j)" for j
    using p(2) by (simp add: f free_object_def)
  have v: "slab_valid (Sl_create sz mem) u \<longleftrightarrow>
     (\<forall>c. get_slab_class sz u = Some c \<longrightarrow> 2 \<le> sl_max u div sc_size (cls u c)) \<and>
     (\<forall>page. mem = Some page \<longrightarrow> (\<forall>i < length (sl_pages u). \<forall>x. map_option sp_page (page_at u i) = Some x \<longrightarrow>
       page + sl_max u \<le> x \<or> x + sl_max u \<le> page))" for u
  proof -
    have "(\<forall>x. map_option sp_page (page_at u i) = Some x \<longrightarrow> Q x) \<longleftrightarrow> (\<forall>p. page_at u i = Some p \<longrightarrow> Q (sp_page p))" for i Q
      by (cases "page_at u i") simp_all
    then show ?thesis by (simp add: slab_valid_def)
  qed
  show "slab_valid (Sl_create sz mem) s' = slab_valid (Sl_create sz mem) s"
    unfolding v m by (simp only: get_slab_class_def f(1-4))
qed

lemma slab_create_frame:
  assumes "slab_create sz mem unlocked s = Some (r, s')"
  shows "sl_has_erase s' = sl_has_erase s" and "sl_has_erase s \<Longrightarrow> r \<noteq> Null"
proof -
  have "sl_has_erase s' = sl_has_erase s \<and> (sl_has_erase s \<longrightarrow> r \<noteq> Null)"
    using assms
    by (auto simp: slab_create_def class_create_def create_item_def create_from_new_page_def create_from_lru_def evict_lru_item_def
        Let_def bind_eq_Some_conv split: option.splits if_splits)
  then show "sl_has_erase s' = sl_has_erase s" "sl_has_erase s \<Longrightarrow> r \<noteq> Null" by blast+
qed

section \<open>Allocating and freeing\<close>

lemma cache_ok_mem:
  assumes ok: "cache_ok env Z c" and same: "ca_set c' = ca_set c" "ca_alive c' = ca_alive c" "st_bytes (ca_stats c') = st_bytes (ca_stats c)"
    and mem: "\<And>a. a \<in> set (ca_set c) \<Longrightarrow> ca_mem c' a = ca_mem c a"
    and sl: "slab_wf (ca_slab c')" "live (ca_slab c') = set (ca_set c) \<union> Z'" "locked (ca_slab c') = {}" "set (ca_set c) \<inter> Z' = {}"
    and dom: "\<And>a. ca_mem c' a \<noteq> None \<longleftrightarrow> a \<in> set (ca_set c) \<union> Z'"
  shows "cache_ok env Z' c' \<and> cache_abs c' = cache_abs c"
proof
  note K = cache_okD [OF ok]
  note S = sums_cong [of "ca_set c" c' c env env, OF mem refl]
  show "cache_ok env Z' c'"
    unfolding cache_ok_def same
  proof (intro conjI)
    show "\<forall>a \<in> set (ca_set c). \<forall>it. ca_mem c' a = Some it \<longrightarrow> it_ref it = 1 \<and> item_ok env it"
      using K(7) mem by simp
    show "\<forall>a \<in> set (ca_set c). \<forall>b \<in> set (ca_set c).
        map_option it_key (ca_mem c' a) = map_option it_key (ca_mem c' b) \<longrightarrow> a = b"
      using K(8) mem by simp
    show "\<forall>a. (ca_mem c' a \<noteq> None) = (a \<in> set (ca_set c) \<union> Z')" using dom by blast
    show "ts_timers (ca_alive c) = sum_list (map (item_timers c') (ca_set c))" using K(10) S(1) by simp
    show "st_bytes (ca_stats c) = sum_list (map (item_bytes env c') (ca_set c))" using K(11) S(2) by simp
  qed (rule sl K(4) K(9))+
  have "find (\<lambda>a. map_option it_key (ca_mem c' a) = Some k) (ca_set c) = find (\<lambda>a. map_option it_key (ca_mem c a) = Some k) (ca_set c)" for k
    using mem by (intro find_cong) simp_all
  moreover have "Option.bind (find P (ca_set c)) (ca_mem c') = Option.bind (find P (ca_set c)) (ca_mem c)" for P
  proof (cases "find P (ca_set c)")
    case (Some x)
    then have "x \<in> set (ca_set c)" by (auto simp: find_Some_iff)
    then show ?thesis using mem Some by simp
  qed simp
  ultimately show "cache_abs c' = cache_abs c" by (simp add: cache_abs_def same fun_eq_iff)
qed

lemma set_item_fields [simp]:
  "ca_mem (set_item a it c) = (ca_mem c)(a := it)" "ca_set (set_item a it c) = ca_set c" "ca_slab (set_item a it c) = ca_slab c"
  "ca_alive (set_item a it c) = ca_alive c" "ca_stats (set_item a it c) = ca_stats c"
  by (simp_all add: set_item_def)

lemma release_limbo:
  assumes ok: "cache_ok env (insert a Z) c" and a: "a \<notin> Z" "ca_mem c a = Some it" "it_ref it = 1"
  shows "\<exists>sl. slab_free a (ca_slab c) = Some sl \<and> release a c = Some (set_item a None (c\<lparr>ca_slab := sl\<rparr>)) \<and>
    cache_ok env Z (set_item a None (c\<lparr>ca_slab := sl\<rparr>)) \<and> cache_abs (set_item a None (c\<lparr>ca_slab := sl\<rparr>)) = cache_abs c"
proof -
  note K = cache_okD [OF ok]
  have "a \<in> live (ca_slab c)" "a \<notin> locked (ca_slab c)" using K(2,3) by simp_all
  then obtain sl where sl: "slab_free a (ca_slab c) = Some sl" "slab_wf sl" "live sl = live (ca_slab c) - {a}" "locked sl = locked (ca_slab c)"
    using free_item_ok [OF K(1)] by blast
  have "release a c = Some (set_item a None (c\<lparr>ca_slab := sl\<rparr>))"
    using a(2,3) sl(1) by (simp add: release_def set_item_def)
  moreover have "cache_ok env Z (set_item a None (c\<lparr>ca_slab := sl\<rparr>)) \<and> cache_abs (set_item a None (c\<lparr>ca_slab := sl\<rparr>)) = cache_abs c"
    using sl K(2,3,5) a(1) K(6) by (intro cache_ok_mem [OF ok]) auto
  ultimately show ?thesis using sl(1) by blast
qed

text \<open>Erasing a linked item of the cache.\<close>

lemma cache_erase_ok:
  assumes ok: "cache_wf env c" and a: "a \<in> set (ca_set c)" "ca_mem c a = Some it"
  shows "\<exists>c'. cache_erase True True True env a c = Some c' \<and> cache_wf env c' \<and> cache_abs c' = (cache_abs c)(it_key it := None) \<and>
    ca_set c' = remove1 a (ca_set c) \<and> ca_mem c' = (ca_mem c)(a := None) \<and>
    ts_timers (ca_alive c) = item_timers c a + ts_timers (ca_alive c') \<and> sl_has_erase (ca_slab c') = sl_has_erase (ca_slab c) \<and>
    (\<forall>sz mem. slab_valid (Sl_create sz mem) (ca_slab c') = slab_valid (Sl_create sz mem) (ca_slab c))"
proof -
  note U = unlink_ok [OF ok a]
  have "it_ref it = 1" using cache_okD(7) [OF ok a] by simp
  then obtain sl where sl: "slab_free a (ca_slab (unlink env a it c)) = Some sl"
    "release a (unlink env a it c) = Some (set_item a None ((unlink env a it c)\<lparr>ca_slab := sl\<rparr>))"
    "cache_wf env (set_item a None ((unlink env a it c)\<lparr>ca_slab := sl\<rparr>))"
    "cache_abs (set_item a None ((unlink env a it c)\<lparr>ca_slab := sl\<rparr>)) = cache_abs (unlink env a it c)"
    using release_limbo [OF U(1), of it] a(2) by auto
  have f: "slab_free a (ca_slab c) = Some sl" using sl(1) by simp
  have "ts_timers (ca_alive c) = item_timers c a + sum_list (map (item_timers c) (remove1 a (ca_set c)))"
    using cache_okD(10) [OF ok] sum_remove1 [OF a(1), of "item_timers c"] by simp
  moreover have "item_timers (unlink env a it c) = item_timers c" by (simp add: item_timers_def fun_eq_iff)
  ultimately have t: "ts_timers (ca_alive c) = item_timers c a + ts_timers (ca_alive (unlink env a it c))"
    using cache_okD(10) [OF U(1)] by simp
  show ?thesis using sl(2-4) U(2) t slab_free_frame [OF f] cache_erase_unlink [OF a, of True env]
    by (intro exI [of _ "set_item a None ((unlink env a it c)\<lparr>ca_slab := sl\<rparr>)"]) simp
qed

text \<open>Allocating an item, which is in limbo, at the cost of at most one other.\<close>

lemma create_in_slab_ok:
  assumes ok: "cache_wf env c" and v: "slab_valid (Sl_create sz (me_memory env)) (ca_slab c)" and he: "sl_has_erase (ca_slab c)"
  shows "\<exists>r c'. create_in_slab env sz ins version c = Some (r, c') \<and> sl_has_erase (ca_slab c') \<and>
    (case r of None \<Rightarrow> cache_wf env c' \<and> cache_abs c' = cache_abs c
     | Some a \<Rightarrow> cache_ok env {a} c' \<and> ca_mem c' a = Some (item_new env ins version) \<and>
         (\<exists>E. cache_abs c' = (cache_abs c) |` (- E) \<and> (\<exists>k. E \<subseteq> {k})))"
proof -
  note K = cache_okD [OF ok]
  have u: "ca_unlocked c a" if "a \<in> live (ca_slab c)" for a
  proof -
    have "a \<in> set (ca_set c)" "ca_mem c a \<noteq> None" using that K(2) K(6) by auto
    then show ?thesis using K(7) by auto
  qed
  obtain r sl where r: "slab_create sz (me_memory env) (ca_unlocked c) (ca_slab c) = Some (r, sl)" "slab_wf sl"
    "slab_spec (Sl_create sz (me_memory env)) (Out_create r) (live (ca_slab c), locked (ca_slab c)) (live sl, locked sl)"
    using slab_create_ok [OF K(1) v, of "ca_unlocked c"] u by blast
  note F = slab_create_frame [OF r(1)]
  show ?thesis
  proof (cases r)
    case Bad_alloc
    let ?c = "c\<lparr>ca_slab := sl\<rparr>"
    have "cache_wf env ?c \<and> cache_abs ?c = cache_abs c"
      using r K(2,3) K(6) Bad_alloc by (intro cache_ok_mem [OF ok]) auto
    then show ?thesis using r(1) Bad_alloc F he by (intro exI [of _ None] exI [of _ ?c]) (simp add: create_in_slab_def)
  next
    case Null
    then show ?thesis using F(2) he by simp
  next
    case (Created a o')
    show ?thesis
    proof (cases o')
      case None
      let ?c = "set_item a (Some (item_new env ins version)) (c\<lparr>ca_slab := sl\<rparr>)"
      have s: "a \<notin> live (ca_slab c)" "live sl = insert a (live (ca_slab c))" "locked sl = locked (ca_slab c)"
        using r(3) Created None by simp_all
      have "a \<notin> set (ca_set c)" using s(1) K(2) by simp
      then have "cache_ok env {a} ?c \<and> cache_abs ?c = cache_abs c"
        using r(2) s K(2,3) K(6) by (intro cache_ok_mem [OF ok]) auto
      moreover have "cache_abs c |` (- {}) = cache_abs c" by (simp add: restrict_map_def fun_eq_iff)
      ultimately show ?thesis using r(1) Created None F he
        by (intro exI [of _ "Some a"] exI [of _ ?c]) (auto simp: create_in_slab_def intro!: exI [of _ "{}"])
    next
      case (Some v)
      have s: "v = a" "a \<in> live (ca_slab c)" "live sl = live (ca_slab c)" "locked sl = locked (ca_slab c)"
        using r(3) Created Some by simp_all
      have a: "a \<in> set (ca_set c)" using s(2) K(2) by simp
      then obtain it where it: "ca_mem c a = Some it" using K(6) [of a] by auto
      let ?u = "unlink env a it c"
      let ?c = "set_item a (Some (item_new env ins version))
        (?u\<lparr>ca_stats := (ca_stats ?u)\<lparr>st_evicted := st_evicted (ca_stats ?u) + 1\<rparr>, ca_slab := sl\<rparr>)"
      note U = unlink_ok [OF ok a it]
      have st: "set (remove1 a (ca_set c)) = set (ca_set c) - {a}" using K(4) by simp
      have "cache_ok env {a} ?c \<and> cache_abs ?c = cache_abs ?u"
        using r(2) s K(2,3) K(6) a st by (intro cache_ok_mem [OF U(1)]) auto
      moreover have "cache_abs ?u = cache_abs c |` (- {it_key it})"
        unfolding U(2) by (auto simp: restrict_map_def fun_eq_iff)
      moreover have "create_in_slab env sz ins version c = Some (Some a, ?c)"
        using r(1) Created Some s(1) cache_erase_unlink [OF a it, of False env] by (simp add: create_in_slab_def Let_def)
      ultimately show ?thesis using F he by (intro exI [of _ "Some a"] exI [of _ ?c]) auto
    qed
  qed
qed

text \<open>Linking an item.\<close>

definition link :: "mc_env \<Rightarrow> nat \<Rightarrow> insertion \<Rightarrow> cache \<Rightarrow> cache" where
  "link env a ins c = bump_bytes (of_nat (insertion_size env ins)) (arm_alive a (in_expiry ins) (c\<lparr>ca_set := a # ca_set c\<rparr>))"

lemma link_fields [simp]:
  "ca_mem (link env a ins c) = ca_mem c" "ca_set (link env a ins c) = a # ca_set c" "ca_slab (link env a ins c) = ca_slab c"
  "ca_alive (link env a ins c) = (if ever_expires (in_expiry ins) then snd (ts_insert (a, in_expiry ins) (ca_alive c)) else ca_alive c)"
  "st_bytes (ca_stats (link env a ins c)) = st_bytes (ca_stats c) + of_nat (insertion_size env ins)"
  by (auto simp: link_def bump_bytes_def arm_alive_def Let_def split: prod.split)

definition ins_ok :: "insertion \<Rightarrow> bool" where
  "ins_ok ins \<longleftrightarrow> length (in_key ins) < 256 \<and> length (in_prefix ins) < 256 \<and> length (in_data ins) < 2 ^ 32 \<and> in_expiry ins < 2 ^ 63"

lemma stored_short:
  "length s < 256 \<Longrightarrow> stored8 s = s" "length s < 2 ^ 32 \<Longrightarrow> stored32 s = s"
  by (simp_all add: stored8_def stored32_def unat_of_nat take_bit_nat_eq_self)

lemma item_new_fields:
  assumes "ins_ok ins"
  shows "it_key (item_new env ins v) = in_key ins" "item_ok env (item_new env ins v)"
    "item_size env (item_new env ins v) = insertion_size env ins" "it_expiry (item_new env ins v) = in_expiry ins"
    "entry_of (item_new env ins v) = (in_data ins, in_prefix ins, in_expiry ins, v)"
  using assms by (simp_all add: ins_ok_def item_new_def stored_short item_ok_def item_size_def insertion_size_def entry_of_def)

lemma link_ok:
  assumes ok: "cache_ok env {a} c" and ins: "ins_ok ins" and a: "ca_mem c a = Some (item_new env ins v)"
    and new: "cache_abs c (in_key ins) = None"
  shows "\<exists>c1. add_ref a c = Some c1 \<and> set_insert a c1 = Some (True, c1\<lparr>ca_set := a # ca_set c1\<rparr>) \<and>
    cache_wf env (link env a ins c1) \<and>
    cache_abs (link env a ins c1) = (cache_abs c)(in_key ins \<mapsto> (in_data ins, in_prefix ins, in_expiry ins, v)) \<and>
    ca_slab (link env a ins c1) = ca_slab c"
proof -
  note K = cache_okD [OF ok]
  note I = item_new_fields [OF ins, of env v]
  let ?it = "(item_new env ins v)\<lparr>it_ref := 1\<rparr>"
  let ?c = "set_item a (Some ?it) c"
  have r: "add_ref a c = Some ?c" using a by (simp add: add_ref_def item_new_def Let_def)
  have na: "a \<notin> set (ca_set c)" using K(5) by simp
  have "cache_ok env {a} ?c \<and> cache_abs ?c = cache_abs c"
    using K(1,2,3,5,6) na by (intro cache_ok_mem [OF ok]) auto
  then have C: "cache_ok env {a} ?c" "cache_abs ?c = cache_abs c" by blast+
  note L = cache_okD [OF C(1)]
  have it: "ca_mem ?c a = Some ?it" "it_key ?it = in_key ins" "item_ok env ?it" "item_size env ?it = insertion_size env ins"
    "it_expiry ?it = in_expiry ins" "entry_of ?it = (in_data ins, in_prefix ins, in_expiry ins, v)"
    using I by (simp_all add: item_ok_def item_size_def entry_of_def)
  have nokey: "map_option it_key (ca_mem ?c b) \<noteq> Some (in_key ins)" if "b \<in> set (ca_set c)" for b
    using new that unfolding C(2) [symmetric] cache_abs_None by simp
  have nk: "it_key x \<noteq> in_key ins" if "b \<in> set (ca_set c)" "ca_mem ?c b = Some x" for b x
    using nokey [OF that(1)] that(2) by simp
  have "\<not> (\<exists>b \<in> set (ca_set ?c). case ca_mem ?c b of None \<Rightarrow> False | Some it' \<Rightarrow> item_eq ?it it')"
    using nk it(2) by (fastforce simp: item_eq_def simp del: set_item_fields(1) split: option.splits)
  then have s: "set_insert a ?c = Some (True, ?c\<lparr>ca_set := a # ca_set ?c\<rparr>)"
    using it(1) na unfolding set_insert_def it(1) bind.bind_lunit by (simp only: if_False) (simp add: il_push_front_def)
  let ?l = "link env a ins ?c"
  have sums: "item_timers ?l = item_timers ?c" "item_bytes env ?l = item_bytes env ?c"
    by (simp_all add: item_timers_def item_bytes_def fun_eq_iff)
  have t: "item_timers ?c a = (if ever_expires (in_expiry ins) then {#(a, in_expiry ins)#} else {#})"
    using it(1,5) by (simp add: item_timers_def)
  have b: "item_bytes env ?c a = of_nat (insertion_size env ins)" using it(1,4) by (simp add: item_bytes_def)
  have e: "in_expiry ins < 2 ^ 63" using ins by (simp add: ins_ok_def)
  have alive: "ts_wf (ca_alive ?l) \<and> ts_timers (ca_alive ?l) = sum_list (map (item_timers ?c) (a # ca_set ?c))"
    using L(9,10) ts_wf_insert [OF L(9), of "(a, in_expiry ins)"] e t by simp
  have bytes: "st_bytes (ca_stats ?l) = sum_list (map (item_bytes env ?c) (a # ca_set ?c))"
    using L(11) b by simp
  have keys: "x = y" if "x \<in> set (a # ca_set c)" "y \<in> set (a # ca_set c)" "map_option it_key (ca_mem ?c x) = map_option it_key (ca_mem ?c y)" for x y
  proof -
    have "map_option it_key (ca_mem ?c a) = Some (in_key ins)" using it(1,2) by simp
    then show ?thesis using that nokey [of x] nokey [of y] L(8) [of x y] by (cases "x = a"; cases "y = a") simp_all
  qed
  have m: "ca_mem ?l = ca_mem ?c" "ca_set ?l = a # ca_set c" "ca_set ?c = ca_set c" "ca_slab ?l = ca_slab ?c" by simp_all
  have ok1: "it_ref x = 1 \<and> item_ok env x" if "b \<in> set (a # ca_set c)" "ca_mem ?c b = Some x" for b x
  proof (cases "b = a")
    case True
    then have "x = ?it" using that(2) it(1) by simp
    then show ?thesis using it(3) by simp
  next
    case False
    then have "b \<in> set (ca_set ?c)" using that(1) by simp
    from L(7) [OF this that(2)] show ?thesis .
  qed
  have dom: "ca_mem ?c b \<noteq> None \<longleftrightarrow> b \<in> set (a # ca_set c) \<union> {}" for b
    using L(6) [of b] unfolding m(3) by auto
  have lv: "live (ca_slab ?c) = set (a # ca_set c) \<union> {}" using L(2) by simp
  have wf: "cache_wf env ?l"
    unfolding cache_ok_def sums m
  proof (intro conjI)
    show "distinct (a # ca_set c)" using L(4) na by simp
    show "\<forall>b. (ca_mem ?c b \<noteq> None) = (b \<in> set (a # ca_set c) \<union> {})" using dom by blast
    show "\<forall>b \<in> set (a # ca_set c). \<forall>it. ca_mem ?c b = Some it \<longrightarrow> it_ref it = 1 \<and> item_ok env it" using ok1 by blast
    show "\<forall>x \<in> set (a # ca_set c). \<forall>y \<in> set (a # ca_set c).
        map_option it_key (ca_mem ?c x) = map_option it_key (ca_mem ?c y) \<longrightarrow> x = y" using keys by blast
    show "ts_wf (ca_alive ?l)" "ts_timers (ca_alive ?l) = sum_list (map (item_timers ?c) (a # ca_set c))" using alive unfolding m(3) by blast+
    show "st_bytes (ca_stats ?l) = sum_list (map (item_bytes env ?c) (a # ca_set c))" using bytes unfolding m(3) .
  qed (rule L(1) L(3) lv Int_empty_right)+
  have "cache_abs ?l = (cache_abs c)(in_key ins \<mapsto> (in_data ins, in_prefix ins, in_expiry ins, v))"
  proof (rule cache_abs_eqI [OF wf])
    fix x itx
    assume "x \<in> set (ca_set ?l)" and m: "ca_mem ?l x = Some itx"
    then consider "x = a" | "x \<in> set (ca_set c)" "x \<noteq> a" by auto
    then show "((cache_abs c)(in_key ins \<mapsto> (in_data ins, in_prefix ins, in_expiry ins, v))) (it_key itx) = Some (entry_of itx)"
    proof cases
      case 1
      then have "itx = ?it" using m it(1) by simp
      then show ?thesis using it(2,6) by simp
    next
      case 2
      then have "cache_abs ?c (it_key itx) = Some (entry_of itx)" using m 2 by (intro cache_abs_Some [OF C(1)]) auto
      moreover have "it_key itx \<noteq> in_key ins" using nokey [OF 2(1)] m by simp
      ultimately show ?thesis using C(2) by simp
    qed
  next
    fix k x
    assume k: "((cache_abs c)(in_key ins \<mapsto> (in_data ins, in_prefix ins, in_expiry ins, v))) k = Some x"
    show "\<exists>b \<in> set (ca_set ?l). map_option it_key (ca_mem ?l b) = Some k"
    proof (cases "k = in_key ins")
      case True
      then show ?thesis using it(1,2) by (intro bexI [of _ a]) simp_all
    next
      case False
      then have "cache_abs ?c k = Some x" using k C(2) by simp
      from cache_abs_key [OF this] obtain b where "b \<in> set (ca_set ?c)" "map_option it_key (ca_mem ?c b) = Some k" ..
      then show ?thesis by (intro bexI [of _ b]) simp_all
    qed
  qed
  then show ?thesis using r s wf by (intro exI [of _ ?c]) simp
qed

section \<open>Operations on a well-formed cache\<close>

definition cache_inv :: "mc_env \<Rightarrow> cache \<Rightarrow> bool" where
  "cache_inv env c \<longleftrightarrow> cache_wf env c \<and> sl_has_erase (ca_slab c)"

text \<open>What the environment must respect when an item of \<open>sz\<close> bytes is allocated.\<close>

abbreviation alloc_ok :: "mc_env \<Rightarrow> nat \<Rightarrow> cache \<Rightarrow> bool" where
  "alloc_ok env sz c \<equiv> slab_valid (Sl_create sz (me_memory env)) (ca_slab c)"

lemma count_fields [simp]:
  "ca_mem (bump_stats f c) = ca_mem c" "ca_set (bump_stats f c) = ca_set c" "ca_slab (bump_stats f c) = ca_slab c"
  "ca_alive (bump_stats f c) = ca_alive c" "ca_stats (bump_stats f c) = f (ca_stats c)"
  by (simp_all add: bump_stats_def)

lemma cache_abs_cong:
  "ca_mem c' = ca_mem c \<Longrightarrow> ca_set c' = ca_set c \<Longrightarrow> cache_abs c' = cache_abs c"
  by (simp only: cache_abs_def [abs_def])

lemma cache_abs_count [simp]: "cache_abs (bump_stats f c) = cache_abs c"
  by (rule cache_abs_cong) simp_all

text \<open>What the invariant says of the slab and of the timer set concerns only the items they hold.\<close>

lemma cache_ok_swap:
  assumes ok: "cache_ok env Z c" and same: "ca_mem c' = ca_mem c" "ca_set c' = ca_set c"
    "st_bytes (ca_stats c') = st_bytes (ca_stats c)"
    and sl: "slab_wf (ca_slab c')" "live (ca_slab c') = live (ca_slab c)" "locked (ca_slab c') = locked (ca_slab c)"
    and ts: "ts_wf (ca_alive c')" "ts_timers (ca_alive c') = ts_timers (ca_alive c)"
  shows "cache_ok env Z c'"
proof -
  have "item_timers c' = item_timers c" "item_bytes env c' = item_bytes env c"
    by (simp_all add: item_timers_def item_bytes_def same(1) fun_eq_iff)
  then show ?thesis using ok unfolding cache_ok_def same sl(2,3) ts(2)
    by (elim conjE, intro conjI) (assumption | rule sl(1) ts(1) | simp only:)+
qed

lemma cache_inv_count [simp]:
  assumes "\<And>s. st_bytes (f s) = st_bytes s"
  shows "cache_inv env (bump_stats f c) = cache_inv env c"
proof
  assume "cache_inv env (bump_stats f c)"
  then have "cache_ok env {} (bump_stats f c)" "sl_has_erase (ca_slab c)" by (simp_all add: cache_inv_def)
  then show "cache_inv env c" unfolding cache_inv_def
    using cache_ok_swap [of env "{}" "bump_stats f c" c] cache_okD(1,9) [of env "{}" "bump_stats f c"] assms by simp
next
  assume "cache_inv env c"
  then have "cache_ok env {} c" "sl_has_erase (ca_slab c)" by (simp_all add: cache_inv_def)
  then show "cache_inv env (bump_stats f c)" unfolding cache_inv_def
    using cache_ok_swap [of env "{}" c "bump_stats f c"] cache_okD(1,9) [of env "{}" c] assms by simp
qed

text \<open>The key map after an allocation and an insertion: at most one other key is lost.\<close>

definition put_spec :: "(string \<Rightarrow> entry option) \<Rightarrow> string \<Rightarrow> entry \<Rightarrow> (string \<Rightarrow> entry option) \<Rightarrow> bool" where
  "put_spec M k e M' \<longleftrightarrow> (\<exists>E k'. E \<subseteq> {k'} \<and> M' = (M |` (- E))(k \<mapsto> e))"

definition new_entry :: "insertion \<Rightarrow> 64 word \<Rightarrow> entry" where
  "new_entry ins v = (in_data ins, in_prefix ins, in_expiry ins, v)"

lemma rehash_inv:
  "cache_inv env (maybe_rehash env c) = cache_inv env c" "cache_abs (maybe_rehash env c) = cache_abs c"
proof -
  have f: "ca_mem (maybe_rehash env c) = ca_mem c" "ca_set (maybe_rehash env c) = ca_set c" "ca_slab (maybe_rehash env c) = ca_slab c"
    "ca_alive (maybe_rehash env c) = ca_alive c" "st_bytes (ca_stats (maybe_rehash env c)) = st_bytes (ca_stats c)"
    by (simp_all add: maybe_rehash_def)
  show "cache_abs (maybe_rehash env c) = cache_abs c" by (rule cache_abs_cong) (simp_all add: f)
  have "cache_inv env c'" if "cache_inv env c''" "ca_mem c' = ca_mem c''" "ca_set c' = ca_set c''" "ca_slab c' = ca_slab c''"
    "ca_alive c' = ca_alive c''" "st_bytes (ca_stats c') = st_bytes (ca_stats c'')" for c' c''
  proof -
    have ok: "cache_ok env {} c''" "sl_has_erase (ca_slab c')" using that by (simp_all add: cache_inv_def)
    have "cache_ok env {} c'"
      by (rule cache_ok_swap [OF ok(1)]) (simp_all add: that cache_okD(1,9) [OF ok(1)])
    then show ?thesis using ok(2) by (simp add: cache_inv_def)
  qed
  from this [of "maybe_rehash env c" c] this [of c "maybe_rehash env c"]
  show "cache_inv env (maybe_rehash env c) = cache_inv env c" using f by auto
qed

text \<open>Allocating and linking, which both ways of adding an item do.\<close>

lemma create_link_ok:
  assumes inv: "cache_inv env c" and v: "alloc_ok env (insertion_size env ins) c" and ins: "ins_ok ins"
    and new: "cache_abs c (in_key ins) = None"
  shows "\<exists>r c1. create_in_slab env (insertion_size env ins) ins ver c = Some (r, c1) \<and>
    (case r of None \<Rightarrow> cache_inv env c1 \<and> cache_abs c1 = cache_abs c
     | Some a \<Rightarrow> \<exists>c2. add_ref a c1 = Some c2 \<and> set_insert a c2 = Some (True, c2\<lparr>ca_set := a # ca_set c2\<rparr>) \<and>
         (let c3 = link env a ins c2 in cache_inv env c3 \<and> a \<in> set (ca_set c3) \<and> map_option it_key (ca_mem c3 a) = Some (in_key ins) \<and>
           put_spec (cache_abs c) (in_key ins) (new_entry ins ver) (cache_abs c3)))"
proof -
  have ok: "cache_wf env c" "sl_has_erase (ca_slab c)" using inv by (simp_all add: cache_inv_def)
  from create_in_slab_ok [OF ok(1) v ok(2), of ins ver]
  obtain r c1 where c1: "create_in_slab env (insertion_size env ins) ins ver c = Some (r, c1)" "sl_has_erase (ca_slab c1)"
    "case r of None \<Rightarrow> cache_wf env c1 \<and> cache_abs c1 = cache_abs c
     | Some a \<Rightarrow> cache_ok env {a} c1 \<and> ca_mem c1 a = Some (item_new env ins ver) \<and>
         (\<exists>E. cache_abs c1 = (cache_abs c) |` (- E) \<and> (\<exists>k. E \<subseteq> {k}))" by (elim exE conjE)
  show ?thesis
  proof (cases r)
    case None
    then show ?thesis using c1 by (intro exI [of _ r] exI [of _ c1]) (simp add: cache_inv_def)
  next
    case (Some a)
    then obtain E k' where a: "cache_ok env {a} c1" "ca_mem c1 a = Some (item_new env ins ver)"
      "cache_abs c1 = (cache_abs c) |` (- E)" "E \<subseteq> {k'}" using c1(3) by auto
    have n: "cache_abs c1 (in_key ins) = None" using a(3) new by (simp add: restrict_map_def)
    from link_ok [OF a(1) ins a(2) n]
    obtain c2 where c2: "add_ref a c1 = Some c2" "set_insert a c2 = Some (True, c2\<lparr>ca_set := a # ca_set c2\<rparr>)"
      "cache_wf env (link env a ins c2)"
      "cache_abs (link env a ins c2) = (cache_abs c1)(in_key ins \<mapsto> (in_data ins, in_prefix ins, in_expiry ins, ver))"
      "ca_slab (link env a ins c2) = ca_slab c1" by (elim exE conjE)
    have "put_spec (cache_abs c) (in_key ins) (new_entry ins ver) (cache_abs (link env a ins c2))"
      unfolding put_spec_def c2(4) a(3) new_entry_def using a(4) by (intro exI [of _ E] exI [of _ k'] conjI refl)
    moreover have "map_option it_key (ca_mem c2 a) = Some (in_key ins)"
      using c2(1) a(2) item_new_fields(1) [OF ins]
      by (auto simp: add_ref_def Let_def split: if_splits)
    ultimately show ?thesis using c1(1,2) c2 Some unfolding Let_def cache_inv_def
      by (intro exI [of _ r] exI [of _ c1]) auto
  qed
qed

lemma add_new_ok:
  assumes inv: "cache_inv env c" and v: "alloc_ok env (insertion_size env ins) c" and ins: "ins_ok ins"
    and new: "cache_abs c (in_key ins) = None"
  shows "\<exists>r c'. add_new env ins c = Some (r, c') \<and> cache_inv env c' \<and>
    (if r = None then cache_abs c' = cache_abs c else put_spec (cache_abs c) (in_key ins) (new_entry ins 1) (cache_abs c'))"
proof -
  from create_link_ok [OF inv v ins new, of 1]
  obtain r c1 where c1: "create_in_slab env (insertion_size env ins) ins 1 c = Some (r, c1)"
    "case r of None \<Rightarrow> cache_inv env c1 \<and> cache_abs c1 = cache_abs c
     | Some a \<Rightarrow> \<exists>c2. add_ref a c1 = Some c2 \<and> set_insert a c2 = Some (True, c2\<lparr>ca_set := a # ca_set c2\<rparr>) \<and>
         (let c3 = link env a ins c2 in cache_inv env c3 \<and> a \<in> set (ca_set c3) \<and> map_option it_key (ca_mem c3 a) = Some (in_key ins) \<and>
           put_spec (cache_abs c) (in_key ins) (new_entry ins 1) (cache_abs c3))" by (elim exE conjE)
  show ?thesis
  proof (cases r)
    case None
    then show ?thesis using c1 by (intro exI [of _ r] exI [of _ c1]) (simp add: add_new_def)
  next
    case (Some a)
    with c1(2) obtain c2 where c2: "add_ref a c1 = Some c2" "set_insert a c2 = Some (True, c2\<lparr>ca_set := a # ca_set c2\<rparr>)"
      "cache_inv env (link env a ins c2)" "put_spec (cache_abs c) (in_key ins) (new_entry ins 1) (cache_abs (link env a ins c2))"
      by (auto simp: Let_def)
    have "add_new env ins c = Some (Some a, maybe_rehash env (link env a ins c2))"
      using c1(1) c2(1,2) Some by (simp add: add_new_def link_def)
    then show ?thesis using c2(3,4) by (intro exI [of _ "Some a"] exI [of _ "maybe_rehash env (link env a ins c2)"]) (simp add: rehash_inv)
  qed
qed

lemma add_overriding_ok:
  assumes inv: "cache_inv env c" and v: "alloc_ok env (insertion_size env ins) c" and ins: "ins_ok ins"
    and i: "i \<in> set (ca_set c)" "ca_mem c i = Some it" "it_key it = in_key ins"
  shows "\<exists>r c'. add_overriding env i ins c = Some (r, c') \<and> cache_inv env c' \<and>
    (case r of None \<Rightarrow> cache_abs c' = (cache_abs c)(in_key ins := None)
     | Some a \<Rightarrow> a \<in> set (ca_set c') \<and> map_option it_key (ca_mem c' a) = Some (in_key ins) \<and>
        put_spec ((cache_abs c)(in_key ins := None)) (in_key ins) (new_entry ins (it_version it + 1)) (cache_abs c'))"
proof -
  have ok: "cache_wf env c" using inv by (simp add: cache_inv_def)
  from cache_erase_ok [OF ok i(1,2)] obtain c0 where c0: "cache_erase True True True env i c = Some c0" "cache_wf env c0"
    "cache_abs c0 = (cache_abs c)(it_key it := None)" "sl_has_erase (ca_slab c0) = sl_has_erase (ca_slab c)"
    "\<forall>sz mem. slab_valid (Sl_create sz mem) (ca_slab c0) = slab_valid (Sl_create sz mem) (ca_slab c)" by (elim exE conjE)
  have inv0: "cache_inv env c0" and v0: "alloc_ok env (insertion_size env ins) c0" and new: "cache_abs c0 (in_key ins) = None"
    using c0 inv v i(3) by (simp_all add: cache_inv_def)
  from create_link_ok [OF inv0 v0 ins new, of "it_version it + 1"]
  obtain r c1 where c1: "create_in_slab env (insertion_size env ins) ins (it_version it + 1) c0 = Some (r, c1)"
    "case r of None \<Rightarrow> cache_inv env c1 \<and> cache_abs c1 = cache_abs c0
     | Some a \<Rightarrow> \<exists>c2. add_ref a c1 = Some c2 \<and> set_insert a c2 = Some (True, c2\<lparr>ca_set := a # ca_set c2\<rparr>) \<and>
         (let c3 = link env a ins c2 in cache_inv env c3 \<and> a \<in> set (ca_set c3) \<and> map_option it_key (ca_mem c3 a) = Some (in_key ins) \<and>
           put_spec (cache_abs c0) (in_key ins) (new_entry ins (it_version it + 1)) (cache_abs c3))" by (elim exE conjE)
  show ?thesis
  proof (cases r)
    case None
    then show ?thesis using c1 c0(1,3) i(2,3) by (intro exI [of _ r] exI [of _ c1]) (simp add: add_overriding_def Let_def)
  next
    case (Some a)
    with c1(2) obtain c2 where c2: "add_ref a c1 = Some c2" "set_insert a c2 = Some (True, c2\<lparr>ca_set := a # ca_set c2\<rparr>)"
      "cache_inv env (link env a ins c2)" "a \<in> set (ca_set (link env a ins c2))"
      "map_option it_key (ca_mem (link env a ins c2) a) = Some (in_key ins)"
      "put_spec (cache_abs c0) (in_key ins) (new_entry ins (it_version it + 1)) (cache_abs (link env a ins c2))"
      by (simp only: option.case Let_def) (elim exE conjE, simp only:)
    have "add_overriding env i ins c = Some (Some a, link env a ins c2)"
      using c0(1) c1(1) c2(1,2) i(2) Some by (simp add: add_overriding_def link_def Let_def)
    then show ?thesis using c2(3-6) c0(3) i(3)
      by (intro exI [of _ "Some a"] exI [of _ "link env a ins c2"]) (simp del: link_fields)
  qed
qed

end
