(* ===== verification/CacheRun.thy ===== *)
theory CacheRun
  imports Memcache
begin

text \<open>
  What the operations of the cache do to the map from keys to entries that it stands for: erasing several items (flush,
  expiry and reclaim), storing, replying, and any sequence of operations.
\<close>

section \<open>Erasing several items\<close>

definition keys_of :: "cache \<Rightarrow> nat list \<Rightarrow> string set" where
  "keys_of c as = {k. \<exists>a \<in> set as. map_option it_key (ca_mem c a) = Some k}"

lemma erase_all_ok:
  assumes "cache_inv env c" and "distinct as" and "set as \<subseteq> set (ca_set c)" and f: "\<And>s. st_bytes (f s) = st_bytes s"
  shows "\<exists>c'. erase_all True True (bump_stats f) env as c = Some c' \<and> cache_inv env c' \<and> cache_abs c' = cache_abs c |` (- keys_of c as) \<and>
    set (ca_set c') = set (ca_set c) - set as \<and> (\<forall>a. ca_mem c' a = (if a \<in> set as then None else ca_mem c a)) \<and>
    ts_timers (ca_alive c) = sum_list (map (item_timers c) as) + ts_timers (ca_alive c')"
  using assms(1-3)
proof (induction as arbitrary: c)
  case Nil
  then show ?case by (auto simp: keys_of_def restrict_map_def fun_eq_iff)
next
  case (Cons a as)
  have ok: "cache_wf env c" and he: "sl_has_erase (ca_slab c)" using Cons.prems(1) by (simp_all add: cache_inv_def)
  have a: "a \<in> set (ca_set c)" using Cons.prems(3) by simp
  then obtain it where it: "ca_mem c a = Some it" using cache_okD(6) [OF ok, of a] by auto
  from cache_erase_ok [OF ok a it] obtain c0 where c0: "cache_erase True True True env a c = Some c0" "cache_wf env c0"
    "cache_abs c0 = (cache_abs c)(it_key it := None)" "ca_set c0 = remove1 a (ca_set c)" "ca_mem c0 = (ca_mem c)(a := None)"
    "ts_timers (ca_alive c) = item_timers c a + ts_timers (ca_alive c0)" "sl_has_erase (ca_slab c0) = sl_has_erase (ca_slab c)"
    by (elim exE conjE)
  have st: "set (remove1 a (ca_set c)) = set (ca_set c) - {a}" using cache_okD(4) [OF ok] by simp
  have na: "a \<notin> set as" "distinct as" using Cons.prems(2) by simp_all
  have i0: "cache_inv env (bump_stats f c0)" using c0(2,7) he f by (simp add: cache_inv_def [of env c0])
  have "set as \<subseteq> set (ca_set (bump_stats f c0))" using Cons.prems(3) na(1) c0(4) st by auto
  from Cons.IH [OF i0 na(2) this] obtain c' where c': "erase_all True True (bump_stats f) env as (bump_stats f c0) = Some c'"
    "cache_inv env c'" "cache_abs c' = cache_abs (bump_stats f c0) |` (- keys_of (bump_stats f c0) as)"
    "set (ca_set c') = set (ca_set (bump_stats f c0)) - set as"
    "\<forall>b. ca_mem c' b = (if b \<in> set as then None else ca_mem (bump_stats f c0) b)"
    "ts_timers (ca_alive (bump_stats f c0)) = sum_list (map (item_timers (bump_stats f c0)) as) + ts_timers (ca_alive c')" by (elim exE conjE)
  have m: "map_option it_key (ca_mem c0 b) = map_option it_key (ca_mem c b)" if "b \<in> set as" for b
    using that na(1) c0(5) by auto
  have k: "keys_of c (a # as) = insert (it_key it) (keys_of (bump_stats f c0) as)"
    unfolding keys_of_def using m it by auto
  have t: "map (item_timers (bump_stats f c0)) as = map (item_timers c) as"
    using na(1) c0(5) by (intro map_cong) (auto simp: item_timers_def)
  have "erase_all True True (bump_stats f) env (a # as) c = Some c'" using c0(1) c'(1) by simp
  moreover have "cache_abs c' = cache_abs c |` (- keys_of c (a # as))"
    unfolding c'(3) k by (auto simp: c0(3) restrict_map_def fun_eq_iff)
  moreover have "set (ca_set c') = set (ca_set c) - set (a # as)" using c'(4) c0(4) st by auto
  moreover have "\<forall>b. ca_mem c' b = (if b \<in> set (a # as) then None else ca_mem c b)" using c'(5) c0(5) by auto
  moreover have "ts_timers (ca_alive c) = sum_list (map (item_timers c) (a # as)) + ts_timers (ca_alive c')"
    using c'(6) c0(6) t by (simp add: add.assoc)
  ultimately show ?case using c'(2) by (intro exI [of _ c'] conjI)
qed

text \<open>The other erasures do the same, except to the part of the cache their caller has already dealt with.\<close>

lemma release_cases:
  "release a c = (case ca_mem c a of None \<Rightarrow> None
     | Some it \<Rightarrow> if it_ref it = 2 then map_option (\<lambda>sl. set_item a (Some (it\<lparr>it_ref := 1\<rparr>)) (c\<lparr>ca_slab := sl\<rparr>)) (unlock_item a (ca_slab c))
       else if it_ref it = 1 then map_option (\<lambda>sl. set_item a None (c\<lparr>ca_slab := sl\<rparr>)) (slab_free a (ca_slab c))
       else Some (set_item a (Some (it\<lparr>it_ref := it_ref it - 1\<rparr>)) c))"
proof (cases "ca_mem c a")
  case (Some it)
  have e: "it_ref it - 1 = 1 \<longleftrightarrow> it_ref it = 2" "it_ref it - 1 = 0 \<longleftrightarrow> it_ref it = 1"
    using diff_eq_eq [of "it_ref it" 1 1] by simp_all
  show ?thesis using Some by (cases c) (simp add: release_def Let_def e set_item_def)
qed (simp add: release_def)

lemma release_frame:
  shows "release a (c\<lparr>ca_set := s\<rparr>) = map_option (\<lambda>c. c\<lparr>ca_set := s\<rparr>) (release a c)"
    and "release a (c\<lparr>ca_alive := ts\<rparr>) = map_option (\<lambda>c. c\<lparr>ca_alive := ts\<rparr>) (release a c)"
  by (cases c; simp add: release_cases set_item_def option.map_comp comp_def split: option.split)+

lemma cache_erase_set_frame:
  assumes "a \<in> set (ca_set c)"
  shows "cache_erase False True True env a (c\<lparr>ca_set := s\<rparr>) = map_option (\<lambda>c. c\<lparr>ca_set := s\<rparr>) (cache_erase True True True env a c)"
proof (cases "ca_mem c a")
  case (Some it)
  let ?u = "unlink env a it c"
  have "cache_erase False True True env a (c\<lparr>ca_set := s\<rparr>) = release a (?u\<lparr>ca_set := s\<rparr>)"
    using Some by (cases c) (simp add: cache_erase_def unlink_def bump_bytes_def Let_def)
  also have "\<dots> = map_option (\<lambda>c. c\<lparr>ca_set := s\<rparr>) (release a ?u)" by (rule release_frame)
  finally show ?thesis using cache_erase_unlink [OF assms Some, of True env] by simp
qed (simp add: cache_erase_def)

lemma erase_all_set_frame:
  assumes "cache_inv env c" and "distinct as" and "set as \<subseteq> set (ca_set c)"
  shows "erase_all False True id env as (c\<lparr>ca_set := s\<rparr>) = map_option (\<lambda>c. c\<lparr>ca_set := s\<rparr>) (erase_all True True (bump_stats id) env as c)"
  using assms
proof (induction as arbitrary: c)
  case (Cons a as)
  have ok: "cache_wf env c" and he: "sl_has_erase (ca_slab c)" using Cons.prems(1) by (simp_all add: cache_inv_def)
  have a: "a \<in> set (ca_set c)" using Cons.prems(3) by simp
  then obtain it where it: "ca_mem c a = Some it" using cache_okD(6) [OF ok, of a] by auto
  from cache_erase_ok [OF ok a it] obtain c0 where c0: "cache_erase True True True env a c = Some c0" "cache_wf env c0"
    "ca_set c0 = remove1 a (ca_set c)" "sl_has_erase (ca_slab c0) = sl_has_erase (ca_slab c)" by (elim exE conjE)
  have e: "bump_stats id c0 = c0" by (simp add: bump_stats_def)
  have "cache_inv env c0" using c0(2,4) he by (simp add: cache_inv_def)
  moreover have "set as \<subseteq> set (ca_set c0)" using Cons.prems(2,3) c0(3) cache_okD(4) [OF ok] by auto
  ultimately have "erase_all False True id env as (c0\<lparr>ca_set := s\<rparr>) =
      map_option (\<lambda>c. c\<lparr>ca_set := s\<rparr>) (erase_all True True (bump_stats id) env as c0)"
    using Cons.prems(2) by (intro Cons.IH) simp_all
  then show ?case using c0(1) e unfolding id_def by (simp add: cache_erase_set_frame [OF a])
qed simp

lemma flush_all_ok:
  assumes inv: "cache_inv env c"
  shows "\<exists>c'. flush_all env c = Some c' \<and> cache_inv env c' \<and> cache_abs c' = Map.empty"
proof -
  have ok: "cache_wf env c" using inv by (simp add: cache_inv_def)
  let ?c = "c\<lparr>ca_flush_timer := None\<rparr>"
  have i: "cache_inv env ?c"
    unfolding cache_inv_def using cache_ok_swap [OF ok, of ?c] cache_okD(1,9) [OF ok] inv by (simp add: cache_inv_def)
  have d: "distinct (ca_set ?c)" using cache_okD(4) [OF ok] by simp
  from erase_all_ok [OF i d, of id] obtain c' where c': "erase_all True True (bump_stats id) env (ca_set c) ?c = Some c'"
    "cache_inv env c'" "cache_abs c' = cache_abs ?c |` (- keys_of ?c (ca_set c))" "set (ca_set c') = {}" by auto
  have s: "ca_set c' = []" using c'(4) by simp
  have "flush_all env c = Some (c'\<lparr>ca_set := []\<rparr>)"
    using c'(1) erase_all_set_frame [OF i d, of "[]"] by (simp add: flush_all_def)
  moreover have "c'\<lparr>ca_set := []\<rparr> = c'" using s by (cases c') simp
  moreover have "cache_abs c' = Map.empty" using s by (simp add: cache_abs_def fun_eq_iff)
  ultimately show ?thesis using c'(2) by simp
qed

lemma cache_erase_alive_frame:
  "cache_erase True False True env a (c\<lparr>ca_alive := ts\<rparr>) = map_option (\<lambda>c. c\<lparr>ca_alive := ts\<rparr>) (cache_erase True True True env a c)"
proof (cases "a \<in> set (ca_set c) \<and> ca_mem c a \<noteq> None")
  case True
  then obtain it where a: "a \<in> set (ca_set c)" and it: "ca_mem c a = Some it" by blast
  let ?u = "unlink env a it c"
  have "cache_erase True False True env a (c\<lparr>ca_alive := ts\<rparr>) = release a (?u\<lparr>ca_alive := ts\<rparr>)"
    using it a by (cases c) (simp add: cache_erase_def il_erase_def unlink_def bump_bytes_def Let_def)
  also have "\<dots> = map_option (\<lambda>c. c\<lparr>ca_alive := ts\<rparr>) (release a ?u)" by (rule release_frame)
  finally show ?thesis using cache_erase_unlink [OF a it, of True env] by simp
next
  case False
  then show ?thesis by (cases "ca_mem c a") (simp_all add: cache_erase_def il_erase_def)
qed

lemma erase_all_alive_frame:
  "erase_all True False (bump_stats f) env as (c\<lparr>ca_alive := ts\<rparr>) =
   map_option (\<lambda>c. c\<lparr>ca_alive := ts\<rparr>) (erase_all True True (bump_stats f) env as c)"
proof (induction as arbitrary: c)
  case (Cons a as)
  have e: "bump_stats f (c\<lparr>ca_alive := ts\<rparr>) = (bump_stats f c)\<lparr>ca_alive := ts\<rparr>" for c by (simp add: bump_stats_def)
  show ?case
    by (cases "cache_erase True True True env a c") (simp_all add: cache_erase_alive_frame e Cons)
qed simp

section \<open>Expiring\<close>

definition expired :: "int \<Rightarrow> entry \<Rightarrow> bool" where
  "expired now e \<longleftrightarrow> (case e of (_, _, expiry, _) \<Rightarrow> ever_expires expiry \<and> expiry \<le> now)"

lemma timer_of_item: "t \<in># item_timers c a \<Longrightarrow> fst t = a \<and> item_timers c a = {#t#}"
  by (auto simp: item_timers_def split: option.splits if_splits)

lemma timers_in_sum: "t \<in># sum_list (map (item_timers c) xs) \<longleftrightarrow> fst t \<in> set xs \<and> item_timers c (fst t) = {#t#}"
proof (induction xs)
  case (Cons a xs)
  have "t \<in># item_timers c a \<longleftrightarrow> fst t = a \<and> item_timers c (fst t) = {#t#}"
    using timer_of_item [of t c a] by auto
  then show ?case using Cons by auto
qed simp

lemma count_timers: "distinct xs \<Longrightarrow> Multiset.count (image_mset fst (sum_list (map (item_timers c) xs))) a \<le> 1"
proof -
  assume "distinct xs"
  have "image_mset fst (sum_list (map (item_timers c) xs)) \<subseteq># mset xs" for xs
  proof (induction xs)
    case (Cons a xs)
    have "image_mset fst (item_timers c a) \<subseteq># {#a#}"
      by (auto simp: item_timers_def split: option.split)
    then have "image_mset fst (item_timers c a) + image_mset fst (sum_list (map (item_timers c) xs)) \<subseteq># {#a#} + mset xs"
      using Cons by (rule subset_mset.add_mono)
    then show ?case by simp
  qed simp
  then have "Multiset.count (image_mset fst (sum_list (map (item_timers c) xs))) a \<le> Multiset.count (mset xs) a"
    by (rule mset_subset_eq_count)
  also have "\<dots> \<le> 1" using \<open>distinct xs\<close> by (simp add: distinct_count_atmost_1)
  finally show ?thesis .
qed

lemma expire_ok:
  assumes inv: "cache_inv env c" and now: "ts_last (ca_alive c) \<le> me_now env" "me_now env < 2 ^ 63"
  shows "\<exists>c'. cache_expire env c = Some c' \<and> cache_inv env c' \<and>
    cache_abs c' = cache_abs c |` {k. \<forall>e. cache_abs c k = Some e \<longrightarrow> \<not> expired (me_now env) e}"
proof -
  let ?n = "me_now env"
  let ?f = "\<lambda>s. s\<lparr>st_expired := st_expired s + 1\<rparr>"
  have ok: "cache_wf env c" using inv by (simp add: cache_inv_def)
  note K = cache_okD [OF ok]
  obtain exp ts where e: "ts_expire ?n (ca_alive c) = Some (exp, ts)" "ts_wf ts"
    "mset exp = {#t \<in># ts_timers (ca_alive c). snd t \<le> ?n#}" "ts_timers ts = {#t \<in># ts_timers (ca_alive c). \<not> snd t \<le> ?n#}"
    by (rule ts_expire_aux [OF K(9) now])
  let ?as = "map fst exp"
  let ?c = "c\<lparr>ca_delta := ?n - me_wall env\<rparr>"
  have i: "cache_inv env ?c"
    unfolding cache_inv_def using cache_ok_swap [OF ok, of ?c] K(1,9) inv by (simp add: cache_inv_def)
  have t: "fst t \<in> set (ca_set c) \<and> item_timers c (fst t) = {#t#} \<and> snd t \<le> ?n" if "t \<in> set exp" for t
  proof -
    have "t \<in># mset exp" using that by simp
    then have "t \<in># ts_timers (ca_alive c)" "snd t \<le> ?n" unfolding e(3) by simp_all
    then show ?thesis using K(10) timers_in_sum [of t c "ca_set c"] by simp
  qed
  have sub: "set ?as \<subseteq> set (ca_set ?c)" using t by auto
  have d: "distinct ?as"
    unfolding distinct_count_atmost_1
  proof (intro allI)
    fix a
    have "mset ?as \<subseteq># image_mset fst (ts_timers (ca_alive c))"
      unfolding mset_map e(3) by (intro image_mset_subseteq_mono multiset_filter_subset)
    then have "Multiset.count (mset ?as) a \<le> Multiset.count (image_mset fst (ts_timers (ca_alive c))) a" by (rule mset_subset_eq_count)
    also have "\<dots> \<le> 1" using count_timers [OF K(4)] K(10) by simp
    finally have l: "Multiset.count (mset ?as) a \<le> 1" .
    show "Multiset.count (mset ?as) a = (if a \<in> set ?as then 1 else 0)"
    proof (cases "a \<in> set ?as")
      case True
      then have "0 < Multiset.count (mset ?as) a" by (simp only: count_greater_zero_iff set_mset_mset)
      then have "Multiset.count (mset ?as) a = 1" using l by linarith
      then show ?thesis using True by (simp only: if_True)
    next
      case False
      then have "a \<notin># mset ?as" by (simp only: set_mset_mset not_False_eq_True)
      then have "Multiset.count (mset ?as) a = 0" by (rule not_in_iff [THEN iffD1])
      then show ?thesis unfolding if_not_P [OF False] .
    qed
  qed
  from erase_all_ok [OF i d sub, of ?f] obtain c' where c': "erase_all True True (bump_stats ?f) env ?as ?c = Some c'"
    "cache_inv env c'" "cache_abs c' = cache_abs ?c |` (- keys_of ?c ?as)"
    "ts_timers (ca_alive ?c) = sum_list (map (item_timers ?c) ?as) + ts_timers (ca_alive c')" by auto
  have same: "item_timers ?c = item_timers c" "cache_abs ?c = cache_abs c" "keys_of ?c ?as = keys_of c ?as"
    by (simp_all add: item_timers_def fun_eq_iff cache_abs_def keys_of_def)
  have "sum_list (map (item_timers c) (map fst xs)) = mset xs" if "set xs \<subseteq> set exp" for xs
    using that t by (induction xs) auto
  then have "sum_list (map (item_timers ?c) ?as) = mset exp" unfolding same by simp
  then have "ts_timers (ca_alive c) = mset exp + ts_timers (ca_alive c')" using c'(4) by simp
  moreover have "ts_timers (ca_alive c) = mset exp + ts_timers ts" unfolding e(3,4) by (rule multiset_partition)
  ultimately have ts: "ts_timers ts = ts_timers (ca_alive c')" by (metis add_left_imp_eq)
  let ?r = "c'\<lparr>ca_alive := ts, ca_timer := Some (ts_get_next_timeout ts)\<rparr>"
  have "ca_alive (c'\<lparr>ca_alive := ts\<rparr>) = ts" by simp
  then have "cache_expire env c = Some ?r"
    using e(1) c'(1) erase_all_alive_frame [where f = ?f and env = env and as = ?as and c = ?c and ts = ts] by (simp add: cache_expire_def Let_def)
  moreover have "cache_inv env ?r"
  proof -
    have okc': "cache_ok env {} c'" "sl_has_erase (ca_slab c')" using c'(2) by (simp_all add: cache_inv_def)
    have "cache_ok env {} ?r" by (rule cache_ok_swap [OF okc'(1)]) (simp_all add: cache_okD(1) [OF okc'(1)] e(2) ts)
    then show ?thesis using okc'(2) by (simp add: cache_inv_def)
  qed
  moreover have "cache_abs ?r = cache_abs c'" by (rule cache_abs_cong) simp_all
  moreover have "cache_abs c |` (- keys_of c ?as) = cache_abs c |` {k. \<forall>e. cache_abs c k = Some e \<longrightarrow> \<not> expired ?n e}"
  proof
    fix k
    show "(cache_abs c |` (- keys_of c ?as)) k = (cache_abs c |` {k. \<forall>e. cache_abs c k = Some e \<longrightarrow> \<not> expired ?n e}) k"
    proof (cases "cache_abs c k")
      case None
      then show ?thesis by (simp add: restrict_map_def)
    next
      case (Some en)
      from cache_abs_key [OF Some] obtain a where a: "a \<in> set (ca_set c)" "map_option it_key (ca_mem c a) = Some k" ..
      then obtain it where it: "ca_mem c a = Some it" "it_key it = k" by auto
      have en: "en = entry_of it" using cache_abs_Some [OF ok a(1) it(1)] it(2) Some by simp
      have "k \<in> keys_of c ?as \<longleftrightarrow> a \<in> set ?as"
      proof
        assume "k \<in> keys_of c ?as"
        then obtain b where b: "b \<in> set ?as" "map_option it_key (ca_mem c b) = Some k" unfolding keys_of_def by blast
        have "b \<in> set (ca_set c)" using b(1) sub by auto
        then have "b = a" using K(8) [of b a] a b(2) by simp
        then show "a \<in> set ?as" using b(1) by simp
      next
        assume "a \<in> set ?as"
        then show "k \<in> keys_of c ?as" unfolding keys_of_def using a(2) by blast
      qed
      also have "\<dots> \<longleftrightarrow> (a, it_expiry it) \<in> set exp \<and> ever_expires (it_expiry it)"
      proof
        assume "a \<in> set ?as"
        then obtain x where x: "x \<in> set exp" "fst x = a" by auto
        then have "item_timers c a = {#x#}" using t [OF x(1)] by simp
        then show "(a, it_expiry it) \<in> set exp \<and> ever_expires (it_expiry it)"
          using it(1) x(1) by (simp add: item_timers_def split: if_splits)
      next
        assume "(a, it_expiry it) \<in> set exp \<and> ever_expires (it_expiry it)"
        then show "a \<in> set ?as" by force
      qed
      also have "\<dots> \<longleftrightarrow> expired ?n en"
      proof -
        have "(a, it_expiry it) \<in> set exp \<longleftrightarrow> (a, it_expiry it) \<in># mset exp" by simp
        also have "\<dots> \<longleftrightarrow> (a, it_expiry it) \<in># ts_timers (ca_alive c) \<and> it_expiry it \<le> ?n" unfolding e(3) by simp
        also have "(a, it_expiry it) \<in># ts_timers (ca_alive c) \<longleftrightarrow> ever_expires (it_expiry it)"
          using K(10) timers_in_sum [of "(a, it_expiry it)" c "ca_set c"] a(1) it(1) by (simp add: item_timers_def)
        finally show ?thesis unfolding en by (auto simp: expired_def entry_of_def)
      qed
      finally show ?thesis using Some by (cases en) (simp add: restrict_map_def)
    qed
  qed
  ultimately show ?thesis using c'(3) same by (intro exI [of _ ?r]) simp
qed

section \<open>Reclaiming memory\<close>

lemma evict_all_frame:
  assumes "cache_inv env c" and "distinct as" and "set as \<subseteq> set (ca_set c)"
  shows "evict_all env as (c\<lparr>ca_slab := sl\<rparr>) =
    map_option (\<lambda>c. c\<lparr>ca_slab := sl\<rparr>) (erase_all True True (bump_stats (\<lambda>s. s\<lparr>st_evicted := st_evicted s + 1\<rparr>)) env as c)"
  using assms
proof (induction as arbitrary: c)
  case (Cons a as)
  let ?f = "\<lambda>s. s\<lparr>st_evicted := st_evicted s + 1\<rparr>"
  have ok: "cache_wf env c" and he: "sl_has_erase (ca_slab c)" using Cons.prems(1) by (simp_all add: cache_inv_def)
  have a: "a \<in> set (ca_set c)" using Cons.prems(3) by simp
  then obtain it where it: "ca_mem c a = Some it" using cache_okD(6) [OF ok, of a] by auto
  from cache_erase_ok [OF ok a it] obtain c0 where c0: "cache_erase True True True env a c = Some c0" "cache_wf env c0"
    "ca_set c0 = remove1 a (ca_set c)" "ca_mem c0 = (ca_mem c)(a := None)" "sl_has_erase (ca_slab c0) = sl_has_erase (ca_slab c)"
    by (elim exE conjE)
  have i0: "cache_inv env (bump_stats ?f c0)" using c0(2,5) he by (simp add: cache_inv_def [of env c0])
  have s0: "set as \<subseteq> set (ca_set (bump_stats ?f c0))" using Cons.prems(2,3) c0(3) cache_okD(4) [OF ok] by auto
  have r: "it_ref it = 1" using cache_okD(7) [OF ok a it] by simp
  have rel: "release a (unlink env a it c) = Some c0" using c0(1) cache_erase_unlink [OF a it, of True env] by simp
  obtain sl' where sl': "c0 = set_item a None ((unlink env a it c)\<lparr>ca_slab := sl'\<rparr>)"
    using rel it r by (auto simp: release_cases)
  have "cache_erase True True False env a (c\<lparr>ca_slab := sl\<rparr>) = Some ((unlink env a it c)\<lparr>ca_slab := sl\<rparr>)"
    using it a by (cases c) (simp add: cache_erase_def il_erase_def unlink_def bump_bytes_def Let_def)
  moreover have "set_item a None (bump_stats ?f ((unlink env a it c)\<lparr>ca_slab := sl\<rparr>)) = (bump_stats ?f c0)\<lparr>ca_slab := sl\<rparr>"
    unfolding sl' by (cases "unlink env a it c") (simp add: bump_stats_def set_item_def)
  ultimately have "evict_all env (a # as) (c\<lparr>ca_slab := sl\<rparr>) = evict_all env as ((bump_stats ?f c0)\<lparr>ca_slab := sl\<rparr>)" by simp
  also have "\<dots> = map_option (\<lambda>c. c\<lparr>ca_slab := sl\<rparr>) (erase_all True True (bump_stats ?f) env as (bump_stats ?f c0))"
    using Cons.prems(2) by (intro Cons.IH i0 s0) simp
  finally show ?case using c0(1) by simp
qed simp

lemma evict_objects_frame:
  assumes "evict_objects as fs k unlocked s = Some (r, s')"
  shows "sl_has_erase s' = sl_has_erase s"
  using assms
proof (induction as fs k unlocked s arbitrary: r s' rule: evict_objects.induct)
  case (2 a as fs k unlocked s)
  show ?case
  proof (cases "a \<in> set fs")
    case True
    then show ?thesis using 2 by simp
  next
    case False
    with 2(3) obtain s1 r' where s1: "unlocked a" "remove_item_from_lru a k s = Some s1"
      "evict_objects as fs k unlocked (s1\<lparr>sl_item := (sl_item s1)(a := None), sl_frees := sl_frees s1 + 1\<rparr>) = Some (r', s')"
      by (auto simp: bind_eq_Some_conv split: if_splits)
    have "sl_has_erase s1 = sl_has_erase s" using s1(2) by (auto simp: remove_item_from_lru_def il_erase_def split: if_splits)
    then show ?thesis using 2(2) [OF False _ s1(2,3)] s1(1) by simp
  qed
qed simp

lemma slab_reclaim_frame:
  assumes "slab_reclaim unlocked s = Some (r, s')"
  shows "sl_has_erase s' = sl_has_erase s"
  using assms evict_objects_frame
  by (fastforce simp: slab_reclaim_def evict_lru_slab_page_def Let_def bind_eq_Some_conv split: if_splits)

lemma reclaim_cache_ok:
  assumes inv: "cache_inv env c" and rc: "sl_reclaimer (ca_slab c)"
  shows "\<exists>c' K. cache_reclaim env c = Some c' \<and> cache_inv env c' \<and> cache_abs c' = cache_abs c |` (- K) \<and>
    (sl_page_lru (ca_slab c) = [] \<longrightarrow> K = {})"
proof -
  have ok: "cache_wf env c" and he: "sl_has_erase (ca_slab c)" using inv by (simp_all add: cache_inv_def)
  note K = cache_okD [OF ok]
  have u: "ca_unlocked c a" if "a \<in> live (ca_slab c)" for a
  proof -
    have "a \<in> set (ca_set c)" "ca_mem c a \<noteq> None" using that K(2) K(6) by auto
    then show ?thesis using K(7) by auto
  qed
  show ?thesis
  proof (cases "sl_page_lru (ca_slab c) = []")
    case True
    let ?c = "c\<lparr>ca_slab := (ca_slab c)\<lparr>sl_reclaimed := True\<rparr>\<rparr>"
    have "cache_reclaim env c = Some ?c" using True by (simp add: cache_reclaim_def slab_reclaim_def evict_lru_slab_page_def)
    moreover have "cache_ok env {} ?c" by (rule cache_ok_swap [OF ok]) (simp_all add: K(1,9))
    moreover have "cache_abs ?c = cache_abs c |` (- {})"
      by (subst cache_abs_cong [of ?c c]) (simp_all add: restrict_map_def fun_eq_iff)
    ultimately show ?thesis using he by (intro exI [of _ ?c] exI [of _ "{}"]) (simp add: cache_inv_def)
  next
    case False
    from reclaim_ok [OF K(1) rc, of "ca_unlocked c"] u False
    obtain as sl where r: "slab_reclaim (ca_unlocked c) (ca_slab c) = Some (Reclaimed_something as, sl)" "slab_wf sl"
      "distinct as" "set as \<subseteq> live (ca_slab c) - locked (ca_slab c)" "live sl = live (ca_slab c) - set as"
      "locked sl = locked (ca_slab c)" by blast
    have sub: "set as \<subseteq> set (ca_set c)" using r(4) K(2) by auto
    let ?f = "\<lambda>s. s\<lparr>st_evicted := st_evicted s + 1\<rparr>"
    from erase_all_ok [OF inv r(3) sub, of ?f] obtain c' where c': "erase_all True True (bump_stats ?f) env as c = Some c'"
      "cache_inv env c'" "cache_abs c' = cache_abs c |` (- keys_of c as)" "set (ca_set c') = set (ca_set c) - set as" by auto
    have ok': "cache_ok env {} c'" using c'(2) by (simp add: cache_inv_def)
    let ?r = "c'\<lparr>ca_slab := sl\<rparr>"
    have "cache_reclaim env c = Some ?r"
      using r(1) evict_all_frame [OF inv r(3) sub, of sl] c'(1) by (simp add: cache_reclaim_def Let_def)
    moreover have "cache_ok env {} ?r"
      by (rule cache_ok_swap [OF ok']) (use r c'(4) K(2,3) cache_okD(2,3,9) [OF ok'] in simp_all)
    moreover have "sl_has_erase sl"
      using slab_reclaim_frame [OF r(1)] he by simp
    moreover have "cache_abs ?r = cache_abs c'" by (rule cache_abs_cong) simp_all
    ultimately show ?thesis using c'(3) False by (intro exI [of _ ?r] exI [of _ "keys_of c as"]) (simp add: cache_inv_def)
  qed
qed

section \<open>A reply from the cache\<close>

text \<open>The pointer that an operation returns is a reference to the item, which the client reads and releases.\<close>

definition read_release :: "nat option \<Rightarrow> cache \<Rightarrow> (entry option \<times> cache) option" where
  "read_release p c =
     (case p of None \<Rightarrow> Some (None, c)
      | Some a \<Rightarrow> Option.bind (ca_mem c a) (\<lambda>it. map_option (Pair (Some (entry_of it))) (release a c)))"

lemma lock_unlock_frame:
  "lock_item a s = Some s' \<Longrightarrow> sl_has_erase s' = sl_has_erase s"
  "unlock_item a s = Some s' \<Longrightarrow> sl_has_erase s' = sl_has_erase s"
  by (auto simp: lock_item_def unlock_item_def remove_item_from_lru_def insert_item_into_lru_def Let_def bind_eq_Some_conv split: if_splits)

lemma add_ref_release:
  assumes inv: "cache_inv env c" and a: "a \<in> set (ca_set c)" "ca_mem c a = Some it"
  shows "\<exists>c1 c2. add_ref a c = Some c1 \<and> read_release (Some a) c1 = Some (Some (entry_of it), c2) \<and>
    cache_inv env c2 \<and> cache_abs c2 = cache_abs c"
proof -
  have ok: "cache_wf env c" and he: "sl_has_erase (ca_slab c)" using inv by (simp_all add: cache_inv_def)
  note K = cache_okD [OF ok]
  have r: "it_ref it = 1" using K(7) [OF a] by simp
  have "a \<in> live (ca_slab c)" "a \<notin> locked (ca_slab c)" using K(2,3) a(1) by simp_all
  from lock_item_ok [OF K(1) this] obtain s1 where s1: "lock_item a (ca_slab c) = Some s1" "slab_wf s1"
    "live s1 = live (ca_slab c)" "locked s1 = insert a (locked (ca_slab c))" by (elim exE conjE)
  have "a \<in> locked s1" using s1(4) by simp
  from unlock_item_ok [OF s1(2) this] obtain s2 where s2: "unlock_item a s1 = Some s2" "slab_wf s2"
    "live s2 = live s1" "locked s2 = locked s1 - {a}" by (elim exE conjE)
  let ?c1 = "(set_item a (Some (it\<lparr>it_ref := 2\<rparr>)) c)\<lparr>ca_slab := s1\<rparr>"
  let ?c2 = "c\<lparr>ca_slab := s2\<rparr>"
  have "add_ref a c = Some ?c1" using a(2) r s1(1) by (simp add: add_ref_def Let_def)
  moreover have "it\<lparr>it_ref := 1\<rparr> = it" using r by (cases it) simp
  then have "release a ?c1 = Some ?c2"
    using a(2) s2(1) by (cases c) (simp add: release_cases set_item_def fun_upd_idem)
  then have "read_release (Some a) ?c1 = Some (Some (entry_of it), ?c2)" by (simp add: read_release_def entry_of_def)
  moreover have "cache_ok env {} ?c2"
    by (rule cache_ok_swap [OF ok]) (use s1 s2 K(3) in \<open>simp_all add: K(9)\<close>)
  moreover have "sl_has_erase s2" using he lock_unlock_frame(1) [OF s1(1)] lock_unlock_frame(2) [OF s2(1)] by simp
  moreover have "cache_abs ?c2 = cache_abs c" by (rule cache_abs_cong) simp_all
  ultimately show ?thesis by (intro exI [of _ ?c1] exI [of _ ?c2]) (simp add: cache_inv_def)
qed

section \<open>The operations as a step function\<close>

datatype mc_op =
  M_set insertion | M_add insertion | M_replace insertion | M_remove string | M_get string | M_cas insertion "64 word" |
  M_incr string "64 word" | M_decr string "64 word" | M_flush | M_expire | M_reclaim

datatype mc_reply = R_oom | R_bool bool | R_cas cas_result | R_entry "entry option" | R_num "entry option" bool | R_unit

definition bool_reply :: "(unit + bool) \<times> cache \<Rightarrow> mc_reply \<times> cache" where
  "bool_reply = (\<lambda>(r, c). (case r of Inl _ \<Rightarrow> R_oom | Inr b \<Rightarrow> R_bool b, c))"

definition num_reply :: "(unit + (nat option \<times> bool)) \<times> cache \<Rightarrow> (mc_reply \<times> cache) option" where
  "num_reply = (\<lambda>(r, c). case r of Inl _ \<Rightarrow> Some (R_oom, c)
     | Inr (p, ok) \<Rightarrow> map_option (\<lambda>(e, c). (R_num e ok, c)) (read_release p c))"

fun cache_step :: "mc_env \<Rightarrow> mc_op \<Rightarrow> cache \<Rightarrow> (mc_reply \<times> cache) option" where
  "cache_step env (M_set ins) c = map_option bool_reply (cache_set env ins c)"
| "cache_step env (M_add ins) c = map_option bool_reply (cache_add env ins c)"
| "cache_step env (M_replace ins) c = map_option bool_reply (cache_replace env ins c)"
| "cache_step env (M_remove key) c = map_option (\<lambda>(b, c). (R_bool b, c)) (cache_remove env key c)"
| "cache_step env (M_get key) c =
     Option.bind (cache_get env key c) (\<lambda>(p, c). map_option (\<lambda>(e, c). (R_entry e, c)) (read_release p c))"
| "cache_step env (M_cas ins version) c =
     map_option (\<lambda>(r, c). (case r of Inl _ \<Rightarrow> R_oom | Inr x \<Rightarrow> R_cas x, c)) (cache_cas env ins version c)"
| "cache_step env (M_incr key delta) c = Option.bind (cache_incr env key delta c) num_reply"
| "cache_step env (M_decr key delta) c = Option.bind (cache_decr env key delta c) num_reply"
| "cache_step env M_flush c = map_option (Pair R_unit) (flush_all env c)"
| "cache_step env M_expire c = map_option (Pair R_unit) (cache_expire env c)"
| "cache_step env M_reclaim c = map_option (Pair R_unit) (cache_reclaim env c)"

text \<open>What a client sees: a map from keys to entries, from which the cache may drop other keys when it
  allocates, and from which it has dropped the key itself when an allocation to replace it fails.\<close>

definition new_spec :: "(string \<Rightarrow> entry option) \<Rightarrow> insertion \<Rightarrow> mc_reply \<Rightarrow> mc_reply \<Rightarrow> (string \<Rightarrow> entry option) \<Rightarrow> bool" where
  "new_spec M ins ok r M' \<longleftrightarrow> (r = R_oom \<and> M' = M) \<or> (r = ok \<and> put_spec M (in_key ins) (new_entry ins 1) M')"

definition over_spec :: "(string \<Rightarrow> entry option) \<Rightarrow> entry \<Rightarrow> insertion \<Rightarrow> mc_reply \<Rightarrow> mc_reply \<Rightarrow> (string \<Rightarrow> entry option) \<Rightarrow> bool" where
  "over_spec M e ins ok r M' \<longleftrightarrow>
     (let M0 = M(in_key ins := None)
      in (r = R_oom \<and> M' = M0) \<or>
         (r = ok \<and> put_spec M0 (in_key ins) (new_entry ins (snd (snd (snd e)) + 1)) M'))"

definition num_insertion :: "string \<Rightarrow> entry \<Rightarrow> 64 word \<Rightarrow> insertion" where
  "num_insertion key e w =
     \<lparr>in_key = key, in_prefix = fst (snd e), in_data = to_decimal (unat w), in_expiry = fst (snd (snd e))\<rparr>"

definition num_spec :: "mc_env \<Rightarrow> (string \<Rightarrow> entry option) \<Rightarrow> string \<Rightarrow> (64 word \<Rightarrow> 64 word) \<Rightarrow> mc_reply \<Rightarrow>
    (string \<Rightarrow> entry option) \<Rightarrow> bool" where
  "num_spec env M key f r M' \<longleftrightarrow>
     (case M key of None \<Rightarrow> r = R_num None False \<and> M' = M
      | Some e \<Rightarrow> (case value_integral env (fst e) of None \<Rightarrow> r = R_num (Some e) False \<and> M' = M
          | Some v \<Rightarrow> over_spec M e (num_insertion key e (f v)) (R_num (M' key) True) r M'))"

fun cache_spec :: "mc_env \<Rightarrow> mc_op \<Rightarrow> (string \<Rightarrow> entry option) \<Rightarrow> mc_reply \<Rightarrow> (string \<Rightarrow> entry option) \<Rightarrow> bool" where
  "cache_spec env (M_set ins) M r M' \<longleftrightarrow>
     (case M (in_key ins) of None \<Rightarrow> new_spec M ins (R_bool False) r M' | Some e \<Rightarrow> over_spec M e ins (R_bool True) r M')"
| "cache_spec env (M_add ins) M r M' \<longleftrightarrow>
     (case M (in_key ins) of None \<Rightarrow> new_spec M ins (R_bool True) r M' | Some e \<Rightarrow> r = R_bool False \<and> M' = M)"
| "cache_spec env (M_replace ins) M r M' \<longleftrightarrow>
     (case M (in_key ins) of None \<Rightarrow> r = R_bool False \<and> M' = M | Some e \<Rightarrow> over_spec M e ins (R_bool True) r M')"
| "cache_spec env (M_remove key) M r M' \<longleftrightarrow> r = R_bool (M key \<noteq> None) \<and> M' = M(key := None)"
| "cache_spec env (M_get key) M r M' \<longleftrightarrow> r = R_entry (M key) \<and> M' = M"
| "cache_spec env (M_cas ins version) M r M' \<longleftrightarrow>
     (case M (in_key ins) of None \<Rightarrow> r = R_cas Cas_not_found \<and> M' = M
      | Some e \<Rightarrow> if snd (snd (snd e)) \<noteq> version then r = R_cas Cas_bad_version \<and> M' = M
                  else over_spec M e ins (R_cas Cas_stored) r M')"
| "cache_spec env (M_incr key delta) M r M' \<longleftrightarrow> num_spec env M key (\<lambda>v. v + delta) r M'"
| "cache_spec env (M_decr key delta) M r M' \<longleftrightarrow> num_spec env M key (\<lambda>v. v - min v delta) r M'"
| "cache_spec env M_flush M r M' \<longleftrightarrow> r = R_unit \<and> M' = Map.empty"
| "cache_spec env M_expire M r M' \<longleftrightarrow> r = R_unit \<and> M' = M |` {k. \<forall>e. M k = Some e \<longrightarrow> \<not> expired (me_now env) e}"
| "cache_spec env M_reclaim M r M' \<longleftrightarrow> r = R_unit \<and> (\<exists>K. M' = M |` (- K))"

definition num_ok :: "mc_env \<Rightarrow> string \<Rightarrow> (64 word \<Rightarrow> 64 word) \<Rightarrow> cache \<Rightarrow> bool" where
  "num_ok env key f c \<longleftrightarrow>
     (case cache_abs c key of None \<Rightarrow> True
      | Some e \<Rightarrow> (case value_integral env (fst e) of None \<Rightarrow> True
          | Some v \<Rightarrow> alloc_ok env (insertion_size env (num_insertion key e (f v))) c))"

text \<open>What the client and the environment must respect.\<close>

fun op_ok :: "mc_env \<Rightarrow> mc_op \<Rightarrow> cache \<Rightarrow> bool" where
  "op_ok env (M_set ins) c \<longleftrightarrow> ins_ok ins \<and> alloc_ok env (insertion_size env ins) c"
| "op_ok env (M_add ins) c \<longleftrightarrow> ins_ok ins \<and> alloc_ok env (insertion_size env ins) c"
| "op_ok env (M_replace ins) c \<longleftrightarrow> ins_ok ins \<and> alloc_ok env (insertion_size env ins) c"
| "op_ok env (M_cas ins version) c \<longleftrightarrow> ins_ok ins \<and> alloc_ok env (insertion_size env ins) c"
| "op_ok env (M_incr key delta) c \<longleftrightarrow> num_ok env key (\<lambda>v. v + delta) c"
| "op_ok env (M_decr key delta) c \<longleftrightarrow> num_ok env key (\<lambda>v. v - min v delta) c"
| "op_ok env M_expire c \<longleftrightarrow> ts_last (ca_alive c) \<le> me_now env \<and> me_now env < 2 ^ 63"
| "op_ok env M_reclaim c \<longleftrightarrow> sl_reclaimer (ca_slab c)"
| "op_ok env _ c \<longleftrightarrow> True"

lemma found_item:
  assumes inv: "cache_inv env c"
  shows "(cache_find env key c = None \<and> cache_abs c key = None) \<or>
    (\<exists>a it. cache_find env key c = Some a \<and> a \<in> set (ca_set c) \<and> ca_mem c a = Some it \<and> it_key it = key \<and>
       item_ok env it \<and> cache_abs c key = Some (entry_of it))"
proof -
  have ok: "cache_wf env c" using inv by (simp add: cache_inv_def)
  show ?thesis
  proof (cases "cache_find env key c")
    case None
    then show ?thesis using cache_find_abs(1) [OF ok] by metis
  next
    case (Some a)
    from cache_find_abs(2) [OF ok Some] obtain it where it: "a \<in> set (ca_set c)" "ca_mem c a = Some it" "it_key it = key"
      "cache_abs c key = Some (entry_of it)" by (elim exE conjE)
    have "item_ok env it" using cache_okD(7) [OF ok it(1,2)] by simp
    then show ?thesis using Some it by blast
  qed
qed

lemma version_of_entry [simp]: "snd (snd (snd (entry_of it))) = it_version it"
  by (simp add: entry_of_def)

lemma ins_ok_num:
  assumes "item_ok env it"
  shows "ins_ok (num_insertion (it_key it) (entry_of it) w)"
proof -
  have l: "0 < k \<Longrightarrow> n < 10 ^ k \<Longrightarrow> length (to_decimal n) \<le> k" for n k
  proof (induction k arbitrary: n)
    case (Suc k)
    show ?case
    proof (cases "n < 10")
      case True
      then show ?thesis by (simp add: to_decimal.simps)
    next
      case False
      then have "k \<noteq> 0" using Suc.prems(2) by (cases k) simp_all
      moreover have "n div 10 < 10 ^ k" using Suc.prems(2) by (simp add: less_mult_imp_div_less mult.commute)
      ultimately show ?thesis using Suc.IH [of "n div 10"] False by (subst to_decimal.simps) simp
    qed
  qed simp
  have "unat w < 2 ^ 64" using unsigned_less [of w] by simp
  then have "length (to_decimal (unat w)) \<le> 20" by (intro l) simp_all
  then show ?thesis using assms by (simp add: ins_ok_def num_insertion_def item_ok_def entry_of_def)
qed

lemma cache_update_ok:
  assumes inv: "cache_inv env c" and a: "a \<in> set (ca_set c)" "ca_mem c a = Some it" "it_key it = key"
    and abs: "cache_abs c key = Some (entry_of it)" and iok: "item_ok env it" and num: "num_ok env key f c"
  shows "\<exists>x r c'. cache_update env key f a c = Some x \<and> num_reply x = Some (r, c') \<and> cache_inv env c' \<and>
    num_spec env (cache_abs c) key f r (cache_abs c')"
proof (cases "value_integral env (it_value it)")
  case None
  from add_ref_release [OF inv a(1,2)] obtain c1 c2 where c: "add_ref a c = Some c1"
    "read_release (Some a) c1 = Some (Some (entry_of it), c2)" "cache_inv env c2" "cache_abs c2 = cache_abs c" by (elim exE conjE)
  have "cache_update env key f a c = Some (Inr (Some a, False), c1)"
    using a(2) None c(1) by (simp add: cache_update_def data_as_integral_def)
  moreover have "num_reply (Inr (Some a, False), c1) = Some (R_num (Some (entry_of it)) False, c2)"
    using c(2) by (simp add: num_reply_def)
  moreover have "num_spec env (cache_abs c) key f (R_num (Some (entry_of it)) False) (cache_abs c2)"
    using None abs c(4) by (simp add: num_spec_def entry_of_def)
  ultimately show ?thesis using c(3) by blast
next
  case (Some v)
  let ?ins = "num_insertion key (entry_of it) (f v)"
  have f: "fst (entry_of it) = it_value it" "?ins = \<lparr>in_key = key, in_prefix = it_prefix it, in_data = to_decimal (unat (f v)), in_expiry = it_expiry it\<rparr>"
    "in_key ?ins = key" by (simp_all add: entry_of_def num_insertion_def)
  have al: "alloc_ok env (insertion_size env ?ins) c" using num Some abs f(1) by (simp add: num_ok_def)
  have ins: "ins_ok ?ins" using ins_ok_num [OF iok, of "f v"] a(3) by simp
  have k: "it_key it = in_key ?ins" using a(3) f(3) by simp
  have u: "cache_update env key f a c = Option.bind (add_overriding env a ?ins c) (\<lambda>(r, c).
      case r of None \<Rightarrow> Some (Inl (), c) | Some a \<Rightarrow> map_option (Pair (Inr (Some a, True))) (add_ref a c))"
    using a(2) Some by (simp add: cache_update_def data_as_integral_def Let_def f(2))
  from add_overriding_ok [OF inv al ins a(1,2) k] obtain r c1 where c1: "add_overriding env a ?ins c = Some (r, c1)" "cache_inv env c1"
    "case r of None \<Rightarrow> cache_abs c1 = (cache_abs c)(in_key ?ins := None)
     | Some b \<Rightarrow> b \<in> set (ca_set c1) \<and> map_option it_key (ca_mem c1 b) = Some (in_key ?ins) \<and>
        put_spec ((cache_abs c)(in_key ?ins := None)) (in_key ?ins) (new_entry ?ins (it_version it + 1)) (cache_abs c1)"
    by (elim exE conjE)
  show ?thesis
  proof (cases r)
    case None
    have "num_spec env (cache_abs c) key f R_oom (cache_abs c1)"
      using None c1(3) Some abs f by (simp add: num_spec_def over_spec_def Let_def)
    then show ?thesis using u c1(1,2) None by (simp add: num_reply_def)
  next
    case b: (Some b)
    then have p: "b \<in> set (ca_set c1)" "map_option it_key (ca_mem c1 b) = Some key"
      "put_spec ((cache_abs c)(key := None)) key (new_entry ?ins (it_version it + 1)) (cache_abs c1)" using c1(3) f(3) by simp_all
    then obtain itb where itb: "ca_mem c1 b = Some itb" "it_key itb = key" by auto
    from add_ref_release [OF c1(2) p(1) itb(1)] obtain c2 c3 where c: "add_ref b c1 = Some c2"
      "read_release (Some b) c2 = Some (Some (entry_of itb), c3)" "cache_inv env c3" "cache_abs c3 = cache_abs c1" by (elim exE conjE)
    have "cache_ok env {} c1" using c1(2) by (simp add: cache_inv_def)
    then have e: "cache_abs c3 key = Some (entry_of itb)" using cache_abs_Some [OF _ p(1) itb(1)] itb(2) c(4) by simp
    have "num_spec env (cache_abs c) key f (R_num (Some (entry_of itb)) True) (cache_abs c3)"
      using Some abs f(1,3) e p(3) c(4) by (simp add: num_spec_def over_spec_def Let_def)
    then show ?thesis using u c1(1) b c(1-3) by (simp add: num_reply_def)
  qed
qed

text \<open>The two ways of storing an item, with the reply for each outcome.\<close>

lemma add_new_step:
  assumes inv: "cache_inv env c" and v: "alloc_ok env (insertion_size env ins) c" and ins: "ins_ok ins"
    and new: "cache_abs c (in_key ins) = None" and g: "\<And>s. st_bytes (g s) = st_bytes s"
    and r1: "\<And>c'. rep (None, c') = (R_oom, c')" and r2: "\<And>a c'. rep (Some a, c') = (ok, bump_stats g c')"
  shows "\<exists>r c'. map_option rep (add_new env ins c) = Some (r, c') \<and> cache_inv env c' \<and> new_spec (cache_abs c) ins ok r (cache_abs c')"
proof -
  from add_new_ok [OF inv v ins new] obtain r c' where c: "add_new env ins c = Some (r, c')" "cache_inv env c'"
    "if r = None then cache_abs c' = cache_abs c else put_spec (cache_abs c) (in_key ins) (new_entry ins 1) (cache_abs c')" by (elim exE conjE)
  show ?thesis
  proof (cases r)
    case None
    then show ?thesis using c r1 by (intro exI [of _ R_oom] exI [of _ c']) (simp add: new_spec_def)
  next
    case (Some a)
    then show ?thesis using c r2 cache_inv_count [OF g]
      by (intro exI [of _ ok] exI [of _ "bump_stats g c'"]) (simp add: new_spec_def)
  qed
qed

lemma add_overriding_step:
  assumes inv: "cache_inv env c" and v: "alloc_ok env (insertion_size env ins) c" and ins: "ins_ok ins"
    and i: "i \<in> set (ca_set c)" "ca_mem c i = Some it" "it_key it = in_key ins" and g: "\<And>s. st_bytes (g s) = st_bytes s"
    and r1: "\<And>c'. rep (None, c') = (R_oom, c')" and r2: "\<And>a c'. rep (Some a, c') = (ok, bump_stats g c')"
  shows "\<exists>r c'. map_option rep (add_overriding env i ins c) = Some (r, c') \<and> cache_inv env c' \<and>
    over_spec (cache_abs c) (entry_of it) ins ok r (cache_abs c')"
proof -
  from add_overriding_ok [OF inv v ins i] obtain r c' where c: "add_overriding env i ins c = Some (r, c')" "cache_inv env c'"
    "case r of None \<Rightarrow> cache_abs c' = (cache_abs c)(in_key ins := None)
     | Some a \<Rightarrow> a \<in> set (ca_set c') \<and> map_option it_key (ca_mem c' a) = Some (in_key ins) \<and>
        put_spec ((cache_abs c)(in_key ins := None)) (in_key ins) (new_entry ins (it_version it + 1)) (cache_abs c')" by (elim exE conjE)
  show ?thesis
  proof (cases r)
    case None
    then show ?thesis using c r1 by (intro exI [of _ R_oom] exI [of _ c']) (simp add: over_spec_def Let_def)
  next
    case (Some a)
    then show ?thesis using c r2 cache_inv_count [OF g]
      by (intro exI [of _ ok] exI [of _ "bump_stats g c'"]) (simp add: over_spec_def Let_def)
  qed
qed

lemma count_id: "bump_stats (\<lambda>s. s) c = c"
  by (simp add: bump_stats_def)

lemma cache_set_step:
  assumes inv: "cache_inv env c" and ok: "op_ok env (M_set ins) c"
  shows "\<exists>r c'. cache_step env (M_set ins) c = Some (r, c') \<and> cache_inv env c' \<and> cache_spec env (M_set ins) (cache_abs c) r (cache_abs c')"
proof -
  have ins: "ins_ok ins" and al: "alloc_ok env (insertion_size env ins) c" using ok by simp_all
  from found_item [OF inv, of "in_key ins"] show ?thesis
  proof (elim disjE exE conjE)
    assume n: "cache_find env (in_key ins) c = None" "cache_abs c (in_key ins) = None"
    let ?g = "\<lambda>s. s\<lparr>st_set_adds := st_set_adds s + 1\<rparr>"
    have "cache_step env (M_set ins) c =
        map_option (\<lambda>(r, c). case r of None \<Rightarrow> (R_oom, c) | Some _ \<Rightarrow> (R_bool False, bump_stats ?g c)) (add_new env ins c)"
      using n by (cases "add_new env ins c") (auto simp: cache_set_def bool_reply_def split: option.split)
    then show ?thesis using n(2) add_new_step [OF inv al ins n(2), of ?g
      "\<lambda>(r, c). case r of None \<Rightarrow> (R_oom, c) | Some _ \<Rightarrow> (R_bool False, bump_stats ?g c)" "R_bool False"] by simp
  next
    fix a it
    assume a: "cache_find env (in_key ins) c = Some a" "a \<in> set (ca_set c)" "ca_mem c a = Some it" "it_key it = in_key ins"
      "cache_abs c (in_key ins) = Some (entry_of it)"
    let ?g = "\<lambda>s. s\<lparr>st_set_replaces := st_set_replaces s + 1\<rparr>"
    have "cache_step env (M_set ins) c =
        map_option (\<lambda>(r, c). case r of None \<Rightarrow> (R_oom, c) | Some _ \<Rightarrow> (R_bool True, bump_stats ?g c)) (add_overriding env a ins c)"
      using a by (cases "add_overriding env a ins c") (auto simp: cache_set_def bool_reply_def split: option.split)
    then show ?thesis using a(5) add_overriding_step [OF inv al ins a(2-4), of ?g
      "\<lambda>(r, c). case r of None \<Rightarrow> (R_oom, c) | Some _ \<Rightarrow> (R_bool True, bump_stats ?g c)" "R_bool True"] by simp
  qed
qed

lemma cache_add_step:
  assumes inv: "cache_inv env c" and ok: "op_ok env (M_add ins) c"
  shows "\<exists>r c'. cache_step env (M_add ins) c = Some (r, c') \<and> cache_inv env c' \<and> cache_spec env (M_add ins) (cache_abs c) r (cache_abs c')"
proof -
  let ?g = "\<lambda>s. s\<lparr>st_set_adds := st_set_adds s + 1\<rparr>"
  have ins: "ins_ok ins" and al: "alloc_ok env (insertion_size env ins) (bump_stats ?g c)" and inv': "cache_inv env (bump_stats ?g c)"
    using ok inv by simp_all
  from found_item [OF inv, of "in_key ins"] show ?thesis
  proof (elim disjE exE conjE)
    assume n: "cache_find env (in_key ins) c = None" "cache_abs c (in_key ins) = None"
    have n': "cache_abs (bump_stats ?g c) (in_key ins) = None" using n(2) by simp
    have "cache_step env (M_add ins) c =
        map_option (\<lambda>(r, c). case r of None \<Rightarrow> (R_oom, c) | Some _ \<Rightarrow> (R_bool True, bump_stats (\<lambda>s. s) c)) (add_new env ins (bump_stats ?g c))"
      using n by (cases "add_new env ins (bump_stats ?g c)") (auto simp: cache_add_def bool_reply_def count_id split: option.split)
    then show ?thesis using n(2) add_new_step [OF inv' al ins n', of "\<lambda>s. s"
      "\<lambda>(r, c). case r of None \<Rightarrow> (R_oom, c) | Some _ \<Rightarrow> (R_bool True, bump_stats (\<lambda>s. s) c)" "R_bool True"] by simp
  next
    fix a it
    assume a: "cache_find env (in_key ins) c = Some a" "cache_abs c (in_key ins) = Some (entry_of it)"
    then show ?thesis using inv by (simp add: cache_add_def bool_reply_def)
  qed
qed

lemma cache_replace_step:
  assumes inv: "cache_inv env c" and ok: "op_ok env (M_replace ins) c"
  shows "\<exists>r c'. cache_step env (M_replace ins) c = Some (r, c') \<and> cache_inv env c' \<and>
    cache_spec env (M_replace ins) (cache_abs c) r (cache_abs c')"
proof -
  let ?g = "\<lambda>s. s\<lparr>st_set_replaces := st_set_replaces s + 1\<rparr>"
  have ins: "ins_ok ins" and al: "alloc_ok env (insertion_size env ins) (bump_stats ?g c)" and inv': "cache_inv env (bump_stats ?g c)"
    using ok inv by simp_all
  from found_item [OF inv, of "in_key ins"] show ?thesis
  proof (elim disjE exE conjE)
    assume "cache_find env (in_key ins) c = None" "cache_abs c (in_key ins) = None"
    then show ?thesis using inv by (simp add: cache_replace_def bool_reply_def)
  next
    fix a it
    assume a: "cache_find env (in_key ins) c = Some a" "a \<in> set (ca_set c)" "ca_mem c a = Some it" "it_key it = in_key ins"
      "cache_abs c (in_key ins) = Some (entry_of it)"
    then have a': "a \<in> set (ca_set (bump_stats ?g c))" "ca_mem (bump_stats ?g c) a = Some it" by simp_all
    have "cache_step env (M_replace ins) c =
        map_option (\<lambda>(r, c). case r of None \<Rightarrow> (R_oom, c) | Some _ \<Rightarrow> (R_bool True, bump_stats (\<lambda>s. s) c)) (add_overriding env a ins (bump_stats ?g c))"
      using a by (cases "add_overriding env a ins (bump_stats ?g c)") (auto simp: cache_replace_def bool_reply_def count_id split: option.split)
    then show ?thesis using a(5) add_overriding_step [OF inv' al ins a' a(4), of "\<lambda>s. s"
      "\<lambda>(r, c). case r of None \<Rightarrow> (R_oom, c) | Some _ \<Rightarrow> (R_bool True, bump_stats (\<lambda>s. s) c)" "R_bool True"] by simp
  qed
qed

lemma cache_cas_step:
  assumes inv: "cache_inv env c" and ok: "op_ok env (M_cas ins version) c"
  shows "\<exists>r c'. cache_step env (M_cas ins version) c = Some (r, c') \<and> cache_inv env c' \<and>
    cache_spec env (M_cas ins version) (cache_abs c) r (cache_abs c')"
proof -
  let ?g = "\<lambda>s. s\<lparr>st_cas_hits := st_cas_hits s + 1\<rparr>"
  have ins: "ins_ok ins" and al: "alloc_ok env (insertion_size env ins) (bump_stats ?g c)" and inv': "cache_inv env (bump_stats ?g c)"
    using ok inv by simp_all
  from found_item [OF inv, of "in_key ins"] show ?thesis
  proof (elim disjE exE conjE)
    assume "cache_find env (in_key ins) c = None" "cache_abs c (in_key ins) = None"
    then show ?thesis using inv by (simp add: cache_cas_def)
  next
    fix a it
    assume a: "cache_find env (in_key ins) c = Some a" "a \<in> set (ca_set c)" "ca_mem c a = Some it" "it_key it = in_key ins"
      "cache_abs c (in_key ins) = Some (entry_of it)"
    then have a': "a \<in> set (ca_set (bump_stats ?g c))" "ca_mem (bump_stats ?g c) a = Some it" by simp_all
    show ?thesis
    proof (cases "it_version it = version")
      case True
      have "cache_step env (M_cas ins version) c =
          map_option (\<lambda>(r, c). case r of None \<Rightarrow> (R_oom, c) | Some _ \<Rightarrow> (R_cas Cas_stored, bump_stats (\<lambda>s. s) c)) (add_overriding env a ins (bump_stats ?g c))"
        using a True by (cases "add_overriding env a ins (bump_stats ?g c)") (auto simp: cache_cas_def count_id split: option.split)
      then show ?thesis using a(5) True add_overriding_step [OF inv' al ins a' a(4), of "\<lambda>s. s"
        "\<lambda>(r, c). case r of None \<Rightarrow> (R_oom, c) | Some _ \<Rightarrow> (R_cas Cas_stored, bump_stats (\<lambda>s. s) c)" "R_cas Cas_stored"] by simp
    next
      case False
      then show ?thesis using a inv by (simp add: cache_cas_def)
    qed
  qed
qed

lemma cache_remove_step:
  assumes inv: "cache_inv env c"
  shows "\<exists>r c'. cache_step env (M_remove key) c = Some (r, c') \<and> cache_inv env c' \<and>
    cache_spec env (M_remove key) (cache_abs c) r (cache_abs c')"
proof -
  from found_item [OF inv, of key] show ?thesis
  proof (elim disjE exE conjE)
    assume "cache_find env key c = None" "cache_abs c key = None"
    then show ?thesis using inv by (simp add: cache_remove_def fun_upd_idem)
  next
    fix a it
    let ?c = "bump_stats (\<lambda>s. s\<lparr>st_delete_hits := st_delete_hits s + 1\<rparr>) c"
    assume a: "cache_find env key c = Some a" "a \<in> set (ca_set c)" "ca_mem c a = Some it" "it_key it = key"
      "cache_abs c key = Some (entry_of it)"
    have i: "cache_wf env ?c" "sl_has_erase (ca_slab ?c)" using inv cache_inv_count [of "\<lambda>s. s\<lparr>st_delete_hits := st_delete_hits s + 1\<rparr>" env c]
      by (simp_all add: cache_inv_def)
    have a': "a \<in> set (ca_set ?c)" "ca_mem ?c a = Some it" using a by simp_all
    from cache_erase_ok [OF i(1) a'] obtain c' where c': "cache_erase True True True env a ?c = Some c'" "cache_wf env c'"
      "cache_abs c' = (cache_abs ?c)(it_key it := None)" "sl_has_erase (ca_slab c') = sl_has_erase (ca_slab ?c)" by (elim exE conjE)
    then show ?thesis using a i(2) by (simp add: cache_remove_def cache_inv_def)
  qed
qed

lemma cache_get_step:
  assumes inv: "cache_inv env c"
  shows "\<exists>r c'. cache_step env (M_get key) c = Some (r, c') \<and> cache_inv env c' \<and>
    cache_spec env (M_get key) (cache_abs c) r (cache_abs c')"
proof -
  from found_item [OF inv, of key] show ?thesis
  proof (elim disjE exE conjE)
    assume "cache_find env key c = None" "cache_abs c key = None"
    then show ?thesis using inv by (simp add: cache_get_def read_release_def)
  next
    fix a it
    let ?c = "bump_stats (\<lambda>s. s\<lparr>st_get_hits := st_get_hits s + 1\<rparr>) c"
    assume a: "cache_find env key c = Some a" "a \<in> set (ca_set c)" "ca_mem c a = Some it" "it_key it = key"
      "cache_abs c key = Some (entry_of it)"
    have i: "cache_inv env ?c" using inv by simp
    have a': "a \<in> set (ca_set ?c)" "ca_mem ?c a = Some it" using a by simp_all
    from add_ref_release [OF i a'] obtain c1 c2 where "add_ref a ?c = Some c1"
      "read_release (Some a) c1 = Some (Some (entry_of it), c2)" "cache_inv env c2" "cache_abs c2 = cache_abs ?c" by (elim exE conjE)
    then show ?thesis using a by (simp add: cache_get_def)
  qed
qed

lemma num_ok_count [simp]: "num_ok env key f (bump_stats g c) = num_ok env key f c"
  by (simp add: num_ok_def split: option.split)

lemma cache_num_step:
  assumes inv: "cache_inv env c" and num: "num_ok env key f c"
    and g: "\<And>s. st_bytes (g s) = st_bytes s" and h: "\<And>s. st_bytes (h s) = st_bytes s"
    and op: "op c = (case cache_find env key c of None \<Rightarrow> Some (Inr (None, False), bump_stats h c)
      | Some i \<Rightarrow> cache_update env key f i (bump_stats g c))"
  shows "\<exists>r c'. Option.bind (op c) num_reply = Some (r, c') \<and> cache_inv env c' \<and> num_spec env (cache_abs c) key f r (cache_abs c')"
proof -
  from found_item [OF inv, of key] show ?thesis
  proof (elim disjE exE conjE)
    assume "cache_find env key c = None" "cache_abs c key = None"
    then show ?thesis using inv cache_inv_count [OF h] by (simp add: op num_reply_def read_release_def num_spec_def)
  next
    fix a it
    assume a: "cache_find env key c = Some a" "a \<in> set (ca_set c)" "ca_mem c a = Some it" "it_key it = key"
      "cache_abs c key = Some (entry_of it)" "item_ok env it"
    have i: "cache_inv env (bump_stats g c)" using inv cache_inv_count [OF g] by simp
    have a': "a \<in> set (ca_set (bump_stats g c))" "ca_mem (bump_stats g c) a = Some it" "cache_abs (bump_stats g c) key = Some (entry_of it)"
      "num_ok env key f (bump_stats g c)" using a num by simp_all
    from cache_update_ok [OF i a'(1,2) a(4) a'(3) a(6) a'(4)] show ?thesis using a(1) by (auto simp: op)
  qed
qed

lemma cache_step_ok:
  assumes inv: "cache_inv env c" and ok: "op_ok env x c"
  shows "\<exists>r c'. cache_step env x c = Some (r, c') \<and> cache_inv env c' \<and> cache_spec env x (cache_abs c) r (cache_abs c')"
proof (cases x)
  case (M_set ins) then show ?thesis using cache_set_step [OF inv] ok by blast
next
  case (M_add ins) then show ?thesis using cache_add_step [OF inv] ok by blast
next
  case (M_replace ins) then show ?thesis using cache_replace_step [OF inv] ok by blast
next
  case (M_remove key) then show ?thesis using cache_remove_step [OF inv] by blast
next
  case (M_get key) then show ?thesis using cache_get_step [OF inv] by blast
next
  case (M_cas ins version) then show ?thesis using cache_cas_step [OF inv] ok by blast
next
  case (M_incr key delta)
  then show ?thesis using ok
    cache_num_step [OF inv, of key "\<lambda>v. v + delta" "\<lambda>s. s\<lparr>st_incr_hits := st_incr_hits s + 1\<rparr>" "\<lambda>s. s\<lparr>st_incr_misses := st_incr_misses s + 1\<rparr>" "cache_incr env key delta"]
    by (simp add: cache_incr_def)
next
  case (M_decr key delta)
  then show ?thesis using ok
    cache_num_step [OF inv, of key "\<lambda>v. v - min v delta" "\<lambda>s. s\<lparr>st_decr_hits := st_decr_hits s + 1\<rparr>" "\<lambda>s. s\<lparr>st_decr_misses := st_decr_misses s + 1\<rparr>" "cache_decr env key delta"]
    by (simp add: cache_decr_def)
next
  case M_flush then show ?thesis using flush_all_ok [OF inv] by auto
next
  case M_expire then show ?thesis using expire_ok [OF inv] ok by auto
next
  case M_reclaim then show ?thesis using reclaim_cache_ok [OF inv] ok by auto
qed

section \<open>Runs\<close>

lemma cache_inv_env:
  assumes "cache_inv env c" and same: "me_hash env' = me_hash env" "me_sizeof env' = me_sizeof env"
  shows "cache_inv env' c"
proof -
  have "item_ok env' = item_ok env" by (simp add: item_ok_def same fun_eq_iff)
  moreover have "item_bytes env' c = item_bytes env c"
    by (simp add: item_bytes_def item_size_def same fun_eq_iff split: option.split)
  ultimately show ?thesis using assms(1) unfolding cache_inv_def cache_ok_def by simp
qed

fun cache_run :: "(mc_env \<times> mc_op) list \<Rightarrow> cache \<Rightarrow> (mc_reply list \<times> cache) option" where
  "cache_run [] c = Some ([], c)"
| "cache_run ((env, x) # xs) c =
     Option.bind (cache_step env x c) (\<lambda>(r, c). map_option (\<lambda>(rs, c). (r # rs, c)) (cache_run xs c))"

fun run_ok :: "mc_env \<Rightarrow> (mc_env \<times> mc_op) list \<Rightarrow> cache \<Rightarrow> bool" where
  "run_ok env0 [] c = True"
| "run_ok env0 ((env, x) # xs) c \<longleftrightarrow> me_hash env = me_hash env0 \<and> me_sizeof env = me_sizeof env0 \<and> op_ok env x c \<and>
     (case cache_step env x c of None \<Rightarrow> True | Some (r, c) \<Rightarrow> run_ok env0 xs c)"

fun run_spec :: "(mc_env \<times> mc_op) list \<Rightarrow> (string \<Rightarrow> entry option) \<Rightarrow> mc_reply list \<Rightarrow> (string \<Rightarrow> entry option) \<Rightarrow> bool" where
  "run_spec ((env, x) # xs) M (r # rs) M' \<longleftrightarrow> (\<exists>M1. cache_spec env x M r M1 \<and> run_spec xs M1 rs M')"
| "run_spec xs M rs M' \<longleftrightarrow> xs = [] \<and> rs = [] \<and> M' = M"

lemma cache_run_ok:
  assumes "cache_inv env0 c" and "run_ok env0 xs c"
  shows "\<exists>rs c'. cache_run xs c = Some (rs, c') \<and> cache_inv env0 c' \<and> run_spec xs (cache_abs c) rs (cache_abs c')"
  using assms
proof (induction xs arbitrary: c)
  case Nil
  then show ?case by simp
next
  case (Cons ex xs)
  obtain env x where ex: "ex = (env, x)" by fastforce
  have e: "me_hash env = me_hash env0" "me_sizeof env = me_sizeof env0" "op_ok env x c" using Cons.prems(2) ex by simp_all
  have inv: "cache_inv env c" by (rule cache_inv_env [OF Cons.prems(1) e(1,2)])
  from cache_step_ok [OF inv e(3)] obtain r c1 where c1: "cache_step env x c = Some (r, c1)" "cache_inv env c1"
    "cache_spec env x (cache_abs c) r (cache_abs c1)" by (elim exE conjE)
  have inv1: "cache_inv env0 c1" using cache_inv_env [OF c1(2)] e by simp
  have "run_ok env0 xs c1" using Cons.prems(2) ex c1(1) by simp
  from Cons.IH [OF inv1 this] obtain rs c' where c': "cache_run xs c1 = Some (rs, c')" "cache_inv env0 c'"
    "run_spec xs (cache_abs c1) rs (cache_abs c')" by (elim exE conjE)
  have "run_spec (ex # xs) (cache_abs c) (r # rs) (cache_abs c')"
    unfolding ex run_spec.simps by (intro exI [of _ "cache_abs c1"] conjI c1(3) c'(3))
  then show ?case using ex c1(1) c' by simp
qed

lemma cache_new_inv:
  assumes sl: "slab_new grow alignment limit max_size True = Some sl" and max: "max_size < 2 ^ 32"
  shows "cache_inv env (cache_new env sl)" and "cache_abs (cache_new env sl) = Map.empty"
proof -
  have h: "sl_has_erase sl" using sl by (auto simp: slab_new_def)
  have l: "locked sl = {}"
    using slab_new_wf(2) [OF sl max] by (auto simp: locked_def)
  have t: "ts_timers ts_new = {#}" by (simp add: ts_new_def ts_timers_def)
  show "cache_inv env (cache_new env sl)"
    unfolding cache_inv_def cache_ok_def using slab_new_wf [OF sl max] h l t ts_wf_new
    by (simp add: cache_new_def stats_zero_def)
  show "cache_abs (cache_new env sl) = Map.empty"
    by (simp add: cache_abs_def cache_new_def fun_eq_iff)
qed

text \<open>
  C2. Any sequence of set, add, replace, delete, get, cas, incr, decr, flush, expiry and memory reclaim on a new
  cache, each under its own clock and memory conditions, runs to its end without an abort, keeps the items, the
  hash set, the timers, the byte count and the slab consistent, and the replies are those of a map from keys to
  entries that may lose other keys to evictions, the old value when an overriding allocation fails, and the
  entries whose time has passed.
\<close>

theorem cache_run_refines_map:
  assumes "slab_new grow alignment limit max_size True = Some sl" and "max_size < 2 ^ 32"
    and "run_ok env0 xs (cache_new env0 sl)"
  shows "\<exists>rs c'. cache_run xs (cache_new env0 sl) = Some (rs, c') \<and> cache_inv env0 c' \<and>
    run_spec xs Map.empty rs (cache_abs c')"
  using cache_run_ok [OF cache_new_inv(1) [OF assms(1,2)] assms(3)] cache_new_inv(2) [OF assms(1,2)] by simp

definition mc_sample :: mc_env where
  "mc_sample = \<lparr>me_hash = \<lambda>s. of_nat (length s), me_now = 0, me_wall = 0, me_second = 1000, me_sizeof = 40,
     me_memory = Some 4096, me_rehash_ok = True, me_lexical_cast = \<lambda>_. None\<rparr>"

abbreviation mc_sample_ops :: "(mc_env \<times> mc_op) list" where
  "mc_sample_ops \<equiv> map (Pair mc_sample)
     [M_set \<lparr>in_key = ''key'', in_prefix = ''p'', in_data = ''value'', in_expiry = 5\<rparr>, M_get ''key'', M_remove ''key'', M_flush]"

theorem cache_run_refines_map_witness:
  "\<exists>rs c'. cache_run mc_sample_ops (cache_new mc_sample slab_sample) = Some (rs, c') \<and>
     run_spec mc_sample_ops Map.empty rs (cache_abs c')"
proof -
  have "align8 (Suc (Suc (Suc 0))) = 8" "align8 (Suc 0) = 8" by (simp_all add: align8_def align_up_def)
  then have "op_ok mc_sample (M_set \<lparr>in_key = ''key'', in_prefix = ''p'', in_data = ''value'', in_expiry = 5\<rparr>) (cache_new mc_sample slab_sample)"
    by (simp add: mc_sample_def ins_ok_def slab_valid_def get_slab_class_def slab_sample_def cache_new_def insertion_size_def)
  then have "run_ok mc_sample mc_sample_ops (cache_new mc_sample slab_sample)"
    by (simp del: cache_step.simps op_ok.simps(1) split: option.split)
  then show ?thesis using cache_run_refines_map [OF slab_sample_new, of mc_sample mc_sample_ops] by auto
qed

end
