(* ===== verification/PageList.thy ===== *)
theory PageList
  imports Bitops
begin

text \<open>
  The array of page descriptors of a core and the lists threaded through it (\<open>core/memory.cc\<close>, \<open>page\<close> and \<open>page_list\<close>).

  A link is the index of a page, 0 for none: page 0 is never in a list.  The array is a partial function, undefined
  beyond its end, so that an access out of bounds is \<open>None\<close>.  The intrusive free lists of objects are lists
  of addresses.
\<close>

record page =
  pg_free :: bool
  pg_offset :: nat
  pg_nr_small :: nat
  pg_span_size :: nat
  pg_prev :: nat
  pg_next :: nat
  pg_pool :: "nat option"
  pg_freelist :: "nat list"

type_synonym pages = "nat \<Rightarrow> page option"

record page_list =
  pl_front :: nat
  pl_back :: nat

definition pl_empty :: "page_list \<Rightarrow> bool" where
  "pl_empty l \<longleftrightarrow> pl_front l = 0"

definition upd_page :: "nat \<Rightarrow> (page \<Rightarrow> page) \<Rightarrow> pages \<Rightarrow> pages option" where
  "upd_page i f ps = map_option (\<lambda>p. ps(i \<mapsto> f p)) (ps i)"

definition pl_erase :: "nat \<Rightarrow> page_list \<Rightarrow> pages \<Rightarrow> (page_list \<times> pages) option" where
  "pl_erase i l ps =
     Option.bind (ps i) (\<lambda>span.
       Option.bind
         (if pg_next span \<noteq> 0 then map_option (Pair l) (upd_page (pg_next span) (\<lambda>p. p\<lparr>pg_prev := pg_prev span\<rparr>) ps)
          else Some (l\<lparr>pl_back := pg_prev span\<rparr>, ps)) (\<lambda>(l, ps).
       Option.bind (ps i) (\<lambda>span.
         if pg_prev span \<noteq> 0 then map_option (Pair l) (upd_page (pg_prev span) (\<lambda>p. p\<lparr>pg_next := pg_next span\<rparr>) ps)
         else Some (l\<lparr>pl_front := pg_next span\<rparr>, ps))))"

definition pl_push_front :: "nat \<Rightarrow> page_list \<Rightarrow> pages \<Rightarrow> (page_list \<times> pages) option" where
  "pl_push_front i l ps =
     Option.bind
       (if pl_front l \<noteq> 0 then map_option (Pair l) (upd_page (pl_front l) (\<lambda>p. p\<lparr>pg_prev := i\<rparr>) ps)
        else Some (l\<lparr>pl_back := i\<rparr>, ps)) (\<lambda>(l, ps).
     map_option (Pair (l\<lparr>pl_front := i\<rparr>)) (upd_page i (\<lambda>p. p\<lparr>pg_next := pl_front l, pg_prev := 0\<rparr>) ps))"

definition pl_pop_front :: "page_list \<Rightarrow> pages \<Rightarrow> (page_list \<times> pages) option" where
  "pl_pop_front l ps =
     Option.bind (ps (pl_front l)) (\<lambda>front.
       Option.bind
         (if pg_next front \<noteq> 0 then map_option (Pair l) (upd_page (pg_next front) (\<lambda>p. p\<lparr>pg_prev := 0\<rparr>) ps)
          else Some (l\<lparr>pl_back := 0\<rparr>, ps)) (\<lambda>(l, ps).
       map_option (\<lambda>front. (l\<lparr>pl_front := pg_next front\<rparr>, ps)) (ps (pl_front l))))"

section \<open>The list a page list stands for\<close>

definition hd0 :: "nat list \<Rightarrow> nat \<Rightarrow> nat" where
  "hd0 xs n = (case xs of [] \<Rightarrow> n | x # _ \<Rightarrow> x)"

definition last0 :: "nat list \<Rightarrow> nat \<Rightarrow> nat" where
  "last0 xs p = (if xs = [] then p else last xs)"

lemma hd0_simps [simp]: "hd0 [] n = n" "hd0 (x # xs) n = x" "hd0 (xs @ ys) n = hd0 xs (hd0 ys n)"
  by (simp_all add: hd0_def split: list.split)

lemma last0_simps [simp]: "last0 [] p = p" "last0 (x # xs) p = last0 xs x" "last0 (xs @ ys) p = last0 ys (last0 xs p)"
  by (simp_all add: last0_def)

text \<open>A doubly linked segment: the page before it is \<open>p\<close> and the one after it is \<open>n\<close>.\<close>

fun dseg :: "pages \<Rightarrow> nat \<Rightarrow> nat list \<Rightarrow> nat \<Rightarrow> bool" where
  "dseg ps p [] n \<longleftrightarrow> True"
| "dseg ps p (x # xs) n \<longleftrightarrow>
     (\<exists>pg. ps x = Some pg \<and> pg_prev pg = p \<and> pg_next pg = hd0 xs n) \<and> dseg ps x xs n"

definition dll :: "pages \<Rightarrow> page_list \<Rightarrow> nat list \<Rightarrow> bool" where
  "dll ps l xs \<longleftrightarrow> distinct xs \<and> 0 \<notin> set xs \<and> dseg ps 0 xs 0 \<and> pl_front l = hd0 xs 0 \<and> pl_back l = last0 xs 0"

lemma dseg_append: "dseg ps p (xs @ ys) n \<longleftrightarrow> dseg ps p xs (hd0 ys n) \<and> dseg ps (last0 xs p) ys n"
  by (induction xs arbitrary: p) auto

text \<open>Only the links of the pages in the list matter.\<close>

definition same_links :: "page option \<Rightarrow> page option \<Rightarrow> bool" where
  "same_links a b \<longleftrightarrow> map_option (\<lambda>p. (pg_prev p, pg_next p)) a = map_option (\<lambda>p. (pg_prev p, pg_next p)) b"

lemma dseg_cong:
  assumes "dseg ps p xs n" and "\<And>x. x \<in> set xs \<Longrightarrow> same_links (ps' x) (ps x)"
  shows "dseg ps' p xs n"
  using assms
proof (induction xs arbitrary: p)
  case (Cons x xs)
  have "same_links (ps' x) (ps x)" using Cons.prems(2) by simp
  then show ?case using Cons by (cases "ps' x"; cases "ps x") (auto simp: same_links_def)
qed simp

lemma dll_cong:
  assumes "dll ps l xs" and "\<And>x. x \<in> set xs \<Longrightarrow> same_links (ps' x) (ps x)"
  shows "dll ps' l xs"
  using assms dseg_cong [of ps 0 xs 0 ps'] by (simp add: dll_def)

lemma same_links_refl [simp]: "same_links a a"
  by (simp add: same_links_def)

lemma dll_empty: "dll ps l xs \<Longrightarrow> pl_empty l \<longleftrightarrow> xs = []"
  by (cases xs) (auto simp: dll_def pl_empty_def)

lemma dseg_dom: "dseg ps p xs n \<Longrightarrow> x \<in> set xs \<Longrightarrow> ps x \<noteq> None"
  by (induction xs arbitrary: p) auto

text \<open>What an operation on a list leaves of the array: only links of the list's own pages change.\<close>

definition same_but_links :: "page \<Rightarrow> page \<Rightarrow> bool" where
  "same_but_links a b \<longleftrightarrow> a\<lparr>pg_prev := 0, pg_next := 0\<rparr> = b\<lparr>pg_prev := 0, pg_next := 0\<rparr>"

lemma same_but_linksD:
  assumes "same_but_links a b"
  shows "pg_free a = pg_free b" "pg_offset a = pg_offset b" "pg_nr_small a = pg_nr_small b" "pg_span_size a = pg_span_size b"
    "pg_pool a = pg_pool b" "pg_freelist a = pg_freelist b"
  using assms by (cases a; cases b; simp add: same_but_links_def)+

lemma same_but_links_simps [simp]:
  "same_but_links a a" "same_but_links (a\<lparr>pg_prev := x\<rparr>) b = same_but_links a b" "same_but_links (a\<lparr>pg_next := x\<rparr>) b = same_but_links a b"
  by (simp_all add: same_but_links_def)

definition links_only :: "nat set \<Rightarrow> pages \<Rightarrow> pages \<Rightarrow> bool" where
  "links_only X ps ps' \<longleftrightarrow> (\<forall>i. (i \<notin> X \<longrightarrow> ps' i = ps i) \<and> rel_option same_but_links (ps' i) (ps i))"

lemma links_onlyD:
  assumes "links_only X ps ps'"
  shows "i \<notin> X \<Longrightarrow> ps' i = ps i" "map_option pg_free (ps' i) = map_option pg_free (ps i)"
    "map_option pg_span_size (ps' i) = map_option pg_span_size (ps i)" "map_option pg_pool (ps' i) = map_option pg_pool (ps i)"
    "map_option pg_offset (ps' i) = map_option pg_offset (ps i)" "map_option pg_nr_small (ps' i) = map_option pg_nr_small (ps i)"
    "map_option pg_freelist (ps' i) = map_option pg_freelist (ps i)" "ps' i = None \<longleftrightarrow> ps i = None"
proof -
  have a: "i \<notin> X \<longrightarrow> ps' i = ps i" and r: "rel_option same_but_links (ps' i) (ps i)" using assms by (simp_all add: links_only_def)
  show "i \<notin> X \<Longrightarrow> ps' i = ps i" using a by blast
  show "map_option pg_free (ps' i) = map_option pg_free (ps i)"
    "map_option pg_span_size (ps' i) = map_option pg_span_size (ps i)" "map_option pg_pool (ps' i) = map_option pg_pool (ps i)"
    "map_option pg_offset (ps' i) = map_option pg_offset (ps i)" "map_option pg_nr_small (ps' i) = map_option pg_nr_small (ps i)"
    "map_option pg_freelist (ps' i) = map_option pg_freelist (ps i)" "ps' i = None \<longleftrightarrow> ps i = None"
    using r by (cases "ps' i"; cases "ps i"; simp add: same_but_linksD)+
qed

lemma links_only_refl: "links_only X ps ps"
  by (simp add: links_only_def option.rel_refl)

lemma links_only_upd:
  assumes "links_only X ps ps'" and "ps' i = Some p" and "i \<in> X" and "\<And>q. same_but_links p q \<Longrightarrow> same_but_links p' q"
  shows "links_only X ps (ps'(i \<mapsto> p'))"
  using assms unfolding links_only_def by (auto elim!: option.rel_cases) (metis option.rel_inject(2) option.rel_cases option.distinct(1))

lemma pl_push_front_ok:
  assumes d: "dll ps l xs" and i: "ps i \<noteq> None" "i \<noteq> 0" "i \<notin> set xs"
  shows "\<exists>l' ps'. pl_push_front i l ps = Some (l', ps') \<and> dll ps' l' (i # xs) \<and> links_only (insert i (set xs)) ps ps'"
proof -
  obtain p where p: "ps i = Some p" using i(1) by blast
  show ?thesis
  proof (cases xs)
    case Nil
    have "pl_push_front i l ps = Some (l\<lparr>pl_back := i, pl_front := i\<rparr>, ps(i \<mapsto> p\<lparr>pg_next := 0, pg_prev := 0\<rparr>))"
      using d p Nil by (simp add: pl_push_front_def dll_def upd_page_def)
    moreover have "dll (ps(i \<mapsto> p\<lparr>pg_next := 0, pg_prev := 0\<rparr>)) (l\<lparr>pl_back := i, pl_front := i\<rparr>) (i # xs)"
      using Nil i(2) by (simp add: dll_def)
    moreover have "links_only (insert i (set xs)) ps (ps(i \<mapsto> p\<lparr>pg_next := 0, pg_prev := 0\<rparr>))"
      by (rule links_only_upd [where ps' = ps and i = i, OF links_only_refl p]) simp_all
    ultimately show ?thesis by blast
  next
    case (Cons x ys)
    obtain q where q: "ps x = Some q" "pg_next q = hd0 ys 0" and ys: "dseg ps x ys 0" using d Cons by (auto simp: dll_def)
    have x: "x \<noteq> 0" "x \<noteq> i" "x \<notin> set ys" "i \<notin> set ys" "pl_front l = x" "0 \<notin> set ys" "distinct ys" "pl_back l = last0 ys x"
      using d Cons i(3) by (auto simp: dll_def)
    let ?ps = "ps(x \<mapsto> q\<lparr>pg_prev := i\<rparr>)"
    let ?ps' = "?ps(i \<mapsto> p\<lparr>pg_next := x, pg_prev := 0\<rparr>)"
    have "pl_push_front i l ps = Some (l\<lparr>pl_front := i\<rparr>, ?ps')"
      using q(1) p x by (simp add: pl_push_front_def upd_page_def)
    moreover have "dseg ?ps' x ys 0" using x by (intro dseg_cong [OF ys]) auto
    then have "dll ?ps' (l\<lparr>pl_front := i\<rparr>) (i # xs)"
      using Cons q(2) x i(2) by (auto simp: dll_def)
    moreover have "links_only (insert i (set xs)) ps ?ps'"
    proof (rule links_only_upd)
      show "links_only (insert i (set xs)) ps ?ps" using Cons by (intro links_only_upd [where ps' = ps and i = x, OF links_only_refl q(1)]) simp_all
      show "?ps i = Some p" using p x(2) by simp
    qed simp_all
    ultimately show ?thesis by blast
  qed
qed

lemma dseg_set_last:
  assumes "dseg ps p xs i" and "xs \<noteq> []" and "distinct xs" and "ps (last xs) = Some q"
  shows "dseg (ps(last xs \<mapsto> q\<lparr>pg_next := n\<rparr>)) p xs n"
  using assms
proof (induction xs arbitrary: p)
  case (Cons x xs)
  show ?case
  proof (cases "xs = []")
    case True
    then show ?thesis using Cons.prems by simp
  next
    case False
    then have l: "last (x # xs) = last xs" by simp
    have "last xs \<noteq> x" using Cons.prems(3) False by auto
    then show ?thesis using Cons False l by (cases xs) auto
  qed
qed simp

lemma dseg_set_first:
  assumes "dseg ps i (x # xs) n" and "x \<notin> set xs" and "ps x = Some q"
  shows "dseg (ps(x \<mapsto> q\<lparr>pg_prev := p\<rparr>)) p (x # xs) n"
proof -
  have sx: "dseg ps x xs n" using assms(1) by simp
  have "dseg (ps(x \<mapsto> q\<lparr>pg_prev := p\<rparr>)) x xs n"
  proof (rule dseg_cong [OF sx])
    fix y assume "y \<in> set xs"
    then have "y \<noteq> x" using assms(2) by blast
    then show "same_links ((ps(x \<mapsto> q\<lparr>pg_prev := p\<rparr>)) y) (ps y)" by simp
  qed
  then show ?thesis using assms by simp
qed

lemma pl_erase_ok:
  assumes d: "dll ps l (xs @ i # ys)"
  shows "\<exists>l' ps'. pl_erase i l ps = Some (l', ps') \<and> dll ps' l' (xs @ ys) \<and> links_only (set xs \<union> set ys) ps ps'"
proof -
  have dist: "distinct xs" "distinct ys" "set xs \<inter> set ys = {}" "i \<notin> set xs" "i \<notin> set ys" and nz: "0 \<notin> set xs" "0 \<notin> set ys" "i \<noteq> 0"
    and fr: "pl_front l = hd0 xs i" and bk: "pl_back l = last0 ys i"
    and sx: "dseg ps 0 xs i" and si: "dseg ps (last0 xs 0) (i # ys) 0"
    using d by (auto simp: dll_def dseg_append)
  obtain p where p: "ps i = Some p" "pg_prev p = last0 xs 0" "pg_next p = hd0 ys 0" using si by auto
  have sy: "dseg ps i ys 0" using si by simp
  \<comment> \<open>the page after it, or the back of the list\<close>
  have "\<exists>l1 ps1. (if pg_next p \<noteq> 0 then map_option (Pair l) (upd_page (pg_next p) (\<lambda>q. q\<lparr>pg_prev := pg_prev p\<rparr>) ps)
      else Some (l\<lparr>pl_back := pg_prev p\<rparr>, ps)) = Some (l1, ps1) \<and> dseg ps1 (last0 xs 0) ys 0 \<and> links_only (set ys) ps ps1 \<and>
      pl_front l1 = pl_front l \<and> pl_back l1 = last0 ys (last0 xs 0)"
  proof (cases ys)
    case Nil
    then show ?thesis using p by (simp add: links_only_refl)
  next
    case (Cons y zs)
    obtain q where q: "ps y = Some q" using sy Cons by auto
    have y: "y \<noteq> 0" "y \<notin> set zs" using nz(2) dist(2) Cons by auto
    let ?ps1 = "ps(y \<mapsto> q\<lparr>pg_prev := last0 xs 0\<rparr>)"
    have "dseg ?ps1 (last0 xs 0) ys 0" using dseg_set_first [of ps i y zs 0 q] sy q y Cons by simp
    moreover have "links_only (set ys) ps ?ps1"
      using Cons by (intro links_only_upd [where ps' = ps and i = y, OF links_only_refl q]) simp_all
    moreover have "upd_page y (\<lambda>q. q\<lparr>pg_prev := last0 xs 0\<rparr>) ps = Some ?ps1" using q by (simp add: upd_page_def)
    ultimately show ?thesis using p y(1) Cons bk by simp
  qed
  then obtain l1 ps1 where s1: "(if pg_next p \<noteq> 0 then map_option (Pair l) (upd_page (pg_next p) (\<lambda>q. q\<lparr>pg_prev := pg_prev p\<rparr>) ps)
      else Some (l\<lparr>pl_back := pg_prev p\<rparr>, ps)) = Some (l1, ps1)" "dseg ps1 (last0 xs 0) ys 0" "links_only (set ys) ps ps1"
    "pl_front l1 = pl_front l" "pl_back l1 = last0 ys (last0 xs 0)" by (elim exE conjE)
  have p1: "ps1 i = Some p" using links_onlyD(1) [OF s1(3) dist(5)] p(1) by simp
  have sx1: "dseg ps1 0 xs i"
  proof (rule dseg_cong [OF sx])
    fix x assume "x \<in> set xs"
    then have "x \<notin> set ys" using dist(3) by blast
    then show "same_links (ps1 x) (ps x)" using links_onlyD(1) [OF s1(3)] by simp
  qed
  have e: "pl_erase i l ps = (if pg_prev p \<noteq> 0 then map_option (Pair l1) (upd_page (pg_prev p) (\<lambda>q. q\<lparr>pg_next := pg_next p\<rparr>) ps1)
      else Some (l1\<lparr>pl_front := pg_next p\<rparr>, ps1))"
    using p(1) p1 by (simp only: pl_erase_def s1(1) bind.bind_lunit split)
  show ?thesis
  proof (cases "xs = []")
    case True
    have "pl_erase i l ps = Some (l1\<lparr>pl_front := hd0 ys 0\<rparr>, ps1)" using e p True by simp
    moreover have "dll ps1 (l1\<lparr>pl_front := hd0 ys 0\<rparr>) (xs @ ys)" using s1 True dist nz by (simp add: dll_def)
    moreover have "links_only (set xs \<union> set ys) ps ps1" using s1(3) True by simp
    ultimately show ?thesis by blast
  next
    case False
    then have l0: "last0 xs 0 = last xs" "last xs \<in> set xs" by (simp_all add: last0_def)
    then have z: "last xs \<noteq> 0" "last xs \<notin> set ys" using nz(1) dist(3) by auto
    have "ps1 (last xs) \<noteq> None" using dseg_dom [OF sx1 l0(2)] .
    then obtain q where q: "ps1 (last xs) = Some q" by blast
    let ?ps2 = "ps1(last xs \<mapsto> q\<lparr>pg_next := hd0 ys 0\<rparr>)"
    have "pl_erase i l ps = Some (l1, ?ps2)" using e p l0(1) z(1) q by (simp add: upd_page_def)
    moreover have "dseg ?ps2 0 xs (hd0 ys 0)" by (rule dseg_set_last [OF sx1 False dist(1) q])
    moreover have "dseg ?ps2 (last xs) ys 0"
    proof (rule dseg_cong)
      show "dseg ps1 (last xs) ys 0" using s1(2) l0(1) by simp
      fix y assume "y \<in> set ys"
      then have "y \<noteq> last xs" using z(2) by blast
      then show "same_links (?ps2 y) (ps1 y)" by simp
    qed
    ultimately have e2: "pl_erase i l ps = Some (l1, ?ps2)" "dseg ?ps2 0 (xs @ ys) 0" using l0(1) by (simp_all add: dseg_append)
    have "hd0 xs i = hd0 xs (hd0 ys 0)" using False by (cases xs) simp_all
    then have "dll ?ps2 l1 (xs @ ys)" using e2(2) s1(4,5) fr dist nz by (simp add: dll_def)
    moreover have "links_only (set xs \<union> set ys) ps ?ps2"
    proof (rule links_only_upd)
      show "links_only (set xs \<union> set ys) ps ps1" using s1(3) by (auto simp: links_only_def)
    qed (use q l0(2) in simp_all)
    ultimately show ?thesis using e2(1) by blast
  qed
qed

lemma pl_pop_front_ok:
  assumes d: "dll ps l (i # ys)"
  shows "pl_front l = i" and "\<exists>l' ps'. pl_pop_front l ps = Some (l', ps') \<and> dll ps' l' ys \<and> links_only (set ys) ps ps'"
proof -
  have dist: "distinct ys" "i \<notin> set ys" and nz: "0 \<notin> set ys" "i \<noteq> 0" and fr: "pl_front l = i" and bk: "pl_back l = last0 ys i"
    and si: "dseg ps 0 (i # ys) 0" using d by (auto simp: dll_def)
  show "pl_front l = i" by (rule fr)
  obtain p where p: "ps i = Some p" "pg_next p = hd0 ys 0" using si by auto
  have sy: "dseg ps i ys 0" using si by simp
  show "\<exists>l' ps'. pl_pop_front l ps = Some (l', ps') \<and> dll ps' l' ys \<and> links_only (set ys) ps ps'"
  proof (cases ys)
    case Nil
    then show ?thesis using p fr bk by (simp add: pl_pop_front_def dll_def links_only_refl)
  next
    case (Cons y zs)
    obtain q where q: "ps y = Some q" using sy Cons by auto
    have y: "y \<noteq> 0" "y \<notin> set zs" "y \<noteq> i" using nz(1) dist Cons by auto
    let ?ps1 = "ps(y \<mapsto> q\<lparr>pg_prev := 0\<rparr>)"
    have "dseg ?ps1 0 ys 0" using dseg_set_first [of ps i y zs 0 q] sy q y Cons by simp
    then have "dll ?ps1 (l\<lparr>pl_front := y\<rparr>) ys" using bk dist nz Cons by (simp add: dll_def)
    moreover have "links_only (set ys) ps ?ps1"
      using Cons by (intro links_only_upd [where ps' = ps and i = y, OF links_only_refl q]) simp_all
    moreover have "pl_pop_front l ps = Some (l\<lparr>pl_front := y\<rparr>, ?ps1)"
      using p q y Cons fr by (simp add: pl_pop_front_def upd_page_def)
    ultimately show ?thesis by blast
  qed
qed

text \<open>Changing other fields, or other pages, leaves a list as it is.\<close>

lemma dll_upd_page:
  assumes "dll ps l xs" and "upd_page i f ps = Some ps'" and "i \<notin> set xs \<or> (\<forall>p. pg_prev (f p) = pg_prev p \<and> pg_next (f p) = pg_next p)"
  shows "dll ps' l xs"
  using assms by (auto simp: upd_page_def same_links_def intro!: dll_cong [OF assms(1)])

lemma dll_links_only:
  assumes "dll ps l xs" and "links_only X ps ps'" and "set xs \<inter> X = {}"
  shows "dll ps' l xs"
proof (rule dll_cong [OF assms(1)])
  fix x assume "x \<in> set xs"
  then have "x \<notin> X" using assms(3) by blast
  then show "same_links (ps' x) (ps x)" using links_onlyD(1) [OF assms(2)] by simp
qed

end
