(* ===== verification/PageAlloc.thy ===== *)
theory PageAlloc
  imports PageList
begin

text \<open>
  The page allocator of a core (\<open>core/memory.cc\<close>, the spans of \<open>cpu_pages\<close>): a buddy system.  Free spans have a size that is a
  power of two, begin at a multiple of it, and are linked in the list for their size.  The first and the last page of a
  span hold its size and whether it is free.
\<close>

section \<open>Definitions\<close>

record spans =
  sn_pages :: pages
  sn_nr_pages :: nat
  sn_nr_free :: nat
  sn_lists :: "page_list list"

definition nr_span_lists :: nat where "nr_span_lists = 32"
definition page_size :: nat where "page_size = 4096"
definition sizeof_page :: nat where "sizeof_page = 32"

definition index_of :: "nat \<Rightarrow> nat option" where
  "index_of n = (if n = 1 then Some 0 else map_option (\<lambda>z. 32 - z) (count_leading_zeros (of_nat n - 1 :: u32)))"

definition span_unlink :: "nat \<Rightarrow> nat \<Rightarrow> spans \<Rightarrow> spans option" where
  "span_unlink idx i s =
     (if idx < length (sn_lists s) then
        map_option (\<lambda>(l, ps). s\<lparr>sn_lists := (sn_lists s)[idx := l], sn_pages := ps\<rparr>) (pl_erase i (sn_lists s ! idx) (sn_pages s))
      else None)"

definition span_link :: "nat \<Rightarrow> nat \<Rightarrow> spans \<Rightarrow> spans option" where
  "span_link idx i s =
     (if idx < length (sn_lists s) then
        map_option (\<lambda>(l, ps). s\<lparr>sn_lists := (sn_lists s)[idx := l], sn_pages := ps\<rparr>) (pl_push_front i (sn_lists s ! idx) (sn_pages s))
      else None)"

definition set_ends :: "nat \<Rightarrow> nat \<Rightarrow> (page \<Rightarrow> page) \<Rightarrow> spans \<Rightarrow> spans option" where
  "set_ends start n f s =
     map_option (\<lambda>ps. s\<lparr>sn_pages := ps\<rparr>) (Option.bind (upd_page (start + n - 1) f (sn_pages s)) (upd_page start f))"

definition free_span_no_merge :: "nat \<Rightarrow> nat \<Rightarrow> spans \<Rightarrow> spans option" where
  "free_span_no_merge start n s =
     (if n = 0 then None
      else
        Option.bind (set_ends start n (\<lambda>p. p\<lparr>pg_free := True, pg_span_size := n\<rparr>) (s\<lparr>sn_nr_free := sn_nr_free s + n\<rparr>)) (\<lambda>s.
          Option.bind (index_of n) (\<lambda>idx. span_link idx start s)))"

definition grow_span :: "nat \<Rightarrow> nat \<Rightarrow> nat \<Rightarrow> spans \<Rightarrow> (bool \<times> nat \<times> nat \<times> spans) option" where
  "grow_span start n idx s =
     (let st = of_nat start :: u32;
          nr = of_nat n :: u32;
          which = drop_bit idx st AND 1;
          delta = push_bit idx (which XOR 1) OR - which;
          buddy = unat (st + delta)
      in Option.bind (sn_pages s buddy) (\<lambda>p.
           if pg_free p \<and> pg_span_size p = n then
             map_option (\<lambda>s. (True, unat (st AND NOT nr), unat (nr * 2), s\<lparr>sn_nr_free := sn_nr_free s - n\<rparr>))
               (span_unlink idx (unat (st XOR nr)) s)
           else Some (False, start, n, s)))"

partial_function (option) grow_loop :: "nat \<Rightarrow> nat \<Rightarrow> nat \<Rightarrow> spans \<Rightarrow> (nat \<times> nat \<times> spans) option" where
  "grow_loop start n idx s =
     Option.bind (grow_span start n idx s) (\<lambda>(grown, start, n, s).
       if grown then grow_loop start n (idx + 1) s else Some (start, n, s))"

definition free_span :: "nat \<Rightarrow> nat \<Rightarrow> spans \<Rightarrow> spans option" where
  "free_span start n s =
     Option.bind (index_of n) (\<lambda>idx.
       Option.bind (grow_loop start n idx s) (\<lambda>(start, n, s). free_span_no_merge start n s))"

function free_span_unaligned :: "nat \<Rightarrow> nat \<Rightarrow> spans \<Rightarrow> spans option" where
  "free_span_unaligned start n s =
     (if n = 0 then Some s
      else
        let start_bits = (case count_trailing_zeros (of_nat start :: u32) of None \<Rightarrow> 32 | Some z \<Rightarrow> z)
        in Option.bind (count_trailing_zeros (of_nat n :: u32)) (\<lambda>size_bits.
             let now = 2 ^ min start_bits size_bits
             in Option.bind (free_span start now s) (free_span_unaligned (start + now) (n - now))))"
  by pat_completeness auto
termination by (relation "measure (\<lambda>(start, n, s). n)") (auto simp: Let_def)

declare free_span_unaligned.simps [simp del]

definition first_list :: "nat \<Rightarrow> page_list list \<Rightarrow> nat" where
  "first_list idx ls = idx + length (takeWhile pl_empty (drop idx ls))"

definition pick_span :: "nat \<Rightarrow> spans \<Rightarrow> (nat option \<times> spans) option" where
  "pick_span idx s =
     (let j = first_list idx (sn_lists s)
      in if j = nr_span_lists then Some (None, s)
         else let i = pl_front (sn_lists s ! j) in map_option (Pair (Some i)) (span_unlink j i s))"

text \<open>The first memory of a core: 32 megabytes from the system, filled with zeros, whose first pages hold the array.\<close>

definition zero_page :: page where
  "zero_page = \<lparr>pg_free = False, pg_offset = 0, pg_nr_small = 0, pg_span_size = 0, pg_prev = 0, pg_next = 0, pg_pool = None, pg_freelist = []\<rparr>"

definition pages_for_array :: "nat \<Rightarrow> nat" where
  "pages_for_array n = unat (align_up (of_nat (sizeof_page * (n + 1)) :: size_t) (of_nat page_size)) div page_size"

definition spans_initialize :: "spans \<Rightarrow> spans option" where
  "spans_initialize s =
     (let n = 33554432 div page_size
      in Option.bind (log2ceil (of_nat (pages_for_array n) :: u32)) (\<lambda>b.
           free_span_unaligned (2 ^ b) (n - 2 ^ b)
             (s\<lparr>sn_pages := (\<lambda>i. if i \<le> n then Some zero_page else None), sn_nr_pages := n\<rparr>)))"

definition find_and_unlink_span :: "nat \<Rightarrow> spans \<Rightarrow> (nat option \<times> spans) option" where
  "find_and_unlink_span n s =
     Option.bind (index_of n) (\<lambda>idx.
       if 32 \<le> idx then None
       else if push_bit idx (2 :: u32) \<le> of_nat n then Some (None, s)
       else Option.bind (pick_span idx s) (\<lambda>(r, s').
              if r = None \<and> sn_nr_pages s' = 0 then Option.bind (spans_initialize s') (pick_span idx)
              else Some (r, s')))"

text \<open>Cutting a span down to the size asked for.\<close>

function split_span :: "nat \<Rightarrow> nat \<Rightarrow> nat \<Rightarrow> spans \<Rightarrow> (nat \<times> spans) option" where
  "split_span i sz n s =
     (if n * 2 \<le> sz then
        let sz = sz div 2 in Option.bind (free_span_no_merge (i + sz) sz s) (split_span i sz n)
      else Some (sz, s))"
  by pat_completeness auto
termination
  by (relation "measure (\<lambda>(i, sz, n, s). sz)") (auto simp: free_span_no_merge_def split: if_splits)

declare split_span.simps [simp del]

definition carve_span :: "nat \<Rightarrow> nat \<Rightarrow> spans \<Rightarrow> spans option" where
  "carve_span i n s =
     Option.bind (sn_pages s i) (\<lambda>span.
       Option.bind (split_span i (pg_span_size span) n (s\<lparr>sn_nr_free := sn_nr_free s - pg_span_size span\<rparr>)) (\<lambda>(sz, s).
         Option.bind (set_ends i sz (\<lambda>p. p\<lparr>pg_free := False, pg_span_size := sz\<rparr>) s) (\<lambda>s.
           map_option (\<lambda>ps. s\<lparr>sn_pages := ps\<rparr>) (upd_page i (\<lambda>p. p\<lparr>pg_pool := None\<rparr>) (sn_pages s)))))"

text \<open>Giving back the end of a span.\<close>

partial_function (option) shrink_size :: "nat \<Rightarrow> nat \<Rightarrow> nat option" where
  "shrink_size n new_size = (if new_size \<le> n div 2 * page_size then shrink_size (n div 2) new_size else Some n)"

definition shrink_span :: "nat \<Rightarrow> nat \<Rightarrow> spans \<Rightarrow> spans option" where
  "shrink_span i new_size s =
     Option.bind (sn_pages s i) (\<lambda>span.
       let old = pg_span_size span
       in Option.bind (shrink_size old new_size) (\<lambda>new.
          if new = old then Some s
          else
            Option.bind (upd_page i (\<lambda>p. p\<lparr>pg_span_size := new\<rparr>) (sn_pages s)) (\<lambda>ps.
              Option.bind (upd_page (i + new - 1) (\<lambda>p. p\<lparr>pg_free := False, pg_span_size := new\<rparr>) ps) (\<lambda>ps.
                free_span_unaligned (i + new) (old - new) (s\<lparr>sn_pages := ps\<rparr>)))))"

section \<open>Arithmetic of buddies\<close>

definition buddy :: "nat \<Rightarrow> nat \<Rightarrow> nat" where
  "buddy x k = (if even (x div 2 ^ k) then x + 2 ^ k else x - 2 ^ k)"

definition parent :: "nat \<Rightarrow> nat \<Rightarrow> nat" where
  "parent x k = (if even (x div 2 ^ k) then x else x - 2 ^ k)"

lemma pow31 [simp]: "(2::nat) ^ k < 2147483648 \<longleftrightarrow> k < 31" "(2::nat) ^ k < 4294967296 \<longleftrightarrow> k < 32"
proof -
  have "(2::nat) ^ k < 2 ^ 31 \<longleftrightarrow> k < 31" "(2::nat) ^ k < 2 ^ 32 \<longleftrightarrow> k < 32" by (rule power_strict_increasing_iff; simp)+
  moreover have "(2::nat) ^ 31 = 2147483648" "(2::nat) ^ 32 = 4294967296" by simp_all
  ultimately show "(2::nat) ^ k < 2147483648 \<longleftrightarrow> k < 31" "(2::nat) ^ k < 4294967296 \<longleftrightarrow> k < 32" by (simp_all only:)
qed

lemma unat_of_nat_u32: "n < 2 ^ 32 \<Longrightarrow> unat (of_nat n :: u32) = n"
  by (simp add: unat_of_nat take_bit_nat_eq_self)

lemma index_of_log2ceil: "n < 2 ^ 32 \<Longrightarrow> index_of n = log2ceil (of_nat n :: u32)"
proof -
  assume n: "n < 2 ^ 32"
  have "(of_nat n :: u32) = 1 \<longleftrightarrow> n = 1"
  proof
    assume "(of_nat n :: u32) = 1"
    then have "unat (of_nat n :: u32) = 1" by simp
    then show "n = 1" using unat_of_nat_u32 [OF n] by simp
  qed simp
  then show ?thesis by (simp add: index_of_def log2ceil_def)
qed

lemma index_of_least:
  assumes n: "0 < n" "n < 2 ^ 32"
  shows "\<exists>k. index_of n = Some k \<and> n \<le> 2 ^ k \<and> (\<forall>j. n \<le> 2 ^ j \<longrightarrow> k \<le> j) \<and> k \<le> 32"
proof -
  have nz: "(of_nat n :: u32) \<noteq> 0"
  proof
    assume "(of_nat n :: u32) = 0"
    then have "unat (of_nat n :: u32) = 0" by simp
    then show False using unat_of_nat_u32 [OF n(2)] n(1) by simp
  qed
  obtain k where k: "log2ceil (of_nat n :: u32) = Some k" by (metis log2ceil_eq)
  have "n \<le> 2 ^ k" "\<And>j. n \<le> 2 ^ j \<Longrightarrow> k \<le> j"
    using log2ceil_least [OF nz k] unat_of_nat_u32 [OF n(2)] by simp_all
  moreover have "k \<le> 32" using calculation(2) [of 32] n(2) by simp
  ultimately show ?thesis using k index_of_log2ceil [OF n(2)] by auto
qed

lemma index_of_pow: "k < 32 \<Longrightarrow> index_of (2 ^ k) = Some k"
proof -
  assume k: "k < 32"
  then have "(2::nat) ^ k < 2 ^ 32" by simp
  then obtain j where j: "index_of (2 ^ k) = Some j" "(2::nat) ^ k \<le> 2 ^ j" "\<forall>i. (2::nat) ^ k \<le> 2 ^ i \<longrightarrow> j \<le> i"
    using index_of_least [of "2 ^ k"] by auto
  have "k \<le> j" using j(2) by simp
  moreover have "j \<le> k" using j(3) by blast
  ultimately show ?thesis using j(1) by simp
qed

text \<open>The bit tricks of \<open>grow_span\<close>.\<close>

lemma grow_words:
  fixes st nr :: u32
  assumes x: "2 ^ k dvd x" and b: "x + 2 ^ k < 2 ^ 31"
    and st: "st = of_nat x" and nr: "nr = of_nat (2 ^ k)"
  defines "which \<equiv> drop_bit k st AND 1"
  shows "unat (st + (push_bit k (which XOR 1) OR - which)) = (if even (x div 2 ^ k) then x + 2 ^ k else x - 1)"
    and "unat (st XOR nr) = buddy x k" and "unat (st AND NOT nr) = parent x k" and "unat (nr * 2) = 2 ^ Suc k"
proof -
  obtain q where q: "x = 2 ^ k * q" using x by blast
  then have xq: "x div 2 ^ k = q" by simp
  have x31: "x < 2 ^ 31" "(2::nat) ^ k < 2 ^ 31" by (rule le_less_trans [OF _ b]; simp)+
  have k: "k < 31" using x31(2) by simp
  have ux: "unat st = x" using st x31(1) by (simp add: unat_of_nat take_bit_nat_eq_self)
  have nr2: "nr = 2 ^ k" using nr by simp
  have sp: "st = push_bit k (of_nat q)" using st q by (simp add: push_bit_eq_mult mult.commute)
  have bst: "bit st i \<longleftrightarrow> bit x i" for i
  proof -
    have "bit st i \<longleftrightarrow> bit (unat st) i" by (simp add: bit_unsigned_iff)
    then show ?thesis using ux by simp
  qed
  have bx: "bit x k \<longleftrightarrow> odd q" using xq by (simp add: bit_iff_odd)
  have "even (drop_bit k st) \<longleftrightarrow> even q" using bst [of k] bx bit_iff_odd_drop_bit [of st k] by simp
  then have w: "which = (if even q then 0 else 1)"
    unfolding which_def and_one_eq by (simp add: mod2_eq_if)
  show "unat (nr * 2) = 2 ^ Suc k"
  proof -
    have e: "nr * 2 = of_nat (2 ^ Suc k)" using nr by simp
    have "(2::nat) ^ Suc k < 2 ^ 32" using k by (simp del: power_Suc)
    then show ?thesis unfolding e by (rule unat_of_nat_u32)
  qed
  have 1: "st + 2 ^ k = of_nat (x + 2 ^ k)" using st by simp
  show "unat (st + (push_bit k (which XOR 1) OR - which)) = (if even (x div 2 ^ k) then x + 2 ^ k else x - 1)"
  proof (cases "even q")
    case True
    then have "st + (push_bit k (which XOR 1) OR - which) = of_nat (x + 2 ^ k)"
      using w 1 by (simp add: push_bit_eq_mult)
    then show ?thesis using True xq b by (simp add: unat_of_nat take_bit_nat_eq_self del: of_nat_add of_nat_power)
  next
    case False
    then have "0 < x" using q by (cases "q = 0") auto
    have "st + (push_bit k (which XOR 1) OR - which) = of_nat (x - 1)"
      using w False st \<open>0 < x\<close> by (simp add: of_nat_diff)
    then show ?thesis using False xq x31 by (simp add: unat_of_nat take_bit_nat_eq_self del: of_nat_diff)
  qed
  have bnr: "bit nr i \<longleftrightarrow> i = k" for i
    using k unfolding nr2 by (auto simp: bit_simps)
  have 2: "st - 2 ^ k = of_nat (x - 2 ^ k)" if "odd q"
  proof -
    have "2 ^ k \<le> x" using that q by (cases q) auto
    then show ?thesis using st by (simp add: of_nat_diff)
  qed
  have le: "2 ^ k \<le> x" if "odd q" using that q by (cases q) auto
  show "unat (st XOR nr) = buddy x k"
  proof (cases "even q")
    case True
    have "st AND nr = 0" using True bx bst by (intro bit_eqI) (auto simp: bit_simps bnr)
    then have "st XOR nr = of_nat (x + 2 ^ k)" using disjunctive_add_eq_xor [of st nr] 1 nr2 by simp
    then show ?thesis using True xq b by (simp add: buddy_def unat_of_nat take_bit_nat_eq_self del: of_nat_add of_nat_power)
  next
    case False
    have "NOT st AND nr = 0" using False bx bst by (intro bit_eqI) (auto simp: bit_simps bnr)
    then have "st XOR nr = of_nat (x - 2 ^ k)" using disjunctive_and_not_eq_xor [of st nr] disjunctive_diff_eq_and_not [of st nr] 2 False nr2 by simp
    then show ?thesis using False xq x31 by (simp add: buddy_def unat_of_nat take_bit_nat_eq_self del: of_nat_diff)
  qed
  show "unat (st AND NOT nr) = parent x k"
  proof (cases "even q")
    case True
    have "st AND NOT nr = st" using True bx bst by (intro bit_eqI) (auto simp: bit_simps bnr)
    then show ?thesis using True xq ux by (simp add: parent_def)
  next
    case False
    have "NOT st AND nr = 0" using False bx bst by (intro bit_eqI) (auto simp: bit_simps bnr)
    then have "st AND NOT nr = of_nat (x - 2 ^ k)" using disjunctive_diff_eq_and_not [of st nr] 2 False nr2 by simp
    then show ?thesis using False xq x31 by (simp add: parent_def unat_of_nat take_bit_nat_eq_self del: of_nat_diff)
  qed
qed

section \<open>The geometry of spans\<close>

type_synonym span = "nat \<times> nat"

definition ivl :: "span \<Rightarrow> nat set" where
  "ivl sp = {fst sp..<fst sp + 2 ^ snd sp}"

definition geo :: "nat \<Rightarrow> span set \<Rightarrow> bool" where
  "geo n S \<longleftrightarrow> (\<forall>x k. (x, k) \<in> S \<longrightarrow> 0 < x \<and> 2 ^ k dvd x \<and> x + 2 ^ k \<le> n) \<and>
     (\<forall>a \<in> S. \<forall>b \<in> S. a \<noteq> b \<longrightarrow> ivl a \<inter> ivl b = {})"

definition bpage :: "nat \<Rightarrow> nat \<Rightarrow> nat" where
  "bpage x k = (if even (x div 2 ^ k) then x + 2 ^ k else x - 1)"

lemma in_ivl [simp]: "i \<in> ivl (x, k) \<longleftrightarrow> x \<le> i \<and> i < x + 2 ^ k"
  by (simp add: ivl_def)

lemma geoD:
  assumes "geo n S"
  shows "(x, k) \<in> S \<Longrightarrow> 0 < x \<and> 2 ^ k dvd x \<and> x + 2 ^ k \<le> n"
    and "a \<in> S \<Longrightarrow> b \<in> S \<Longrightarrow> i \<in> ivl a \<Longrightarrow> i \<in> ivl b \<Longrightarrow> a = b"
  using assms unfolding geo_def by blast+

lemma geo_start:
  assumes "geo n S" and "(x, k) \<in> S" and "(x, j) \<in> S"
  shows "k = j"
  using geoD(2) [OF assms(1-3), of x] by simp

lemma dyadic_head:
  assumes "2 ^ j dvd y" and "j \<le> k" and "2 ^ k dvd b" and "y \<le> b" and "b < y + 2 ^ j"
  shows "b = (y::nat)"
proof -
  have "2 ^ j dvd b" using le_imp_power_dvd [OF assms(2), of "2::nat"] assms(3) by (rule dvd_trans)
  then have "2 ^ j dvd b - y" using assms(1) by (simp add: dvd_diff_nat)
  moreover have "b - y < 2 ^ j" using assms(4,5) by simp
  ultimately have "b - y = 0" using nat_dvd_not_less by (metis gr0I)
  then show ?thesis using assms(4) by simp
qed

lemma dyadic_tail:
  assumes "2 ^ j dvd y" and "j \<le> k" and "2 ^ k dvd x" and "0 < x" and "y \<le> x - 1" and "x - 1 < y + 2 ^ j"
  shows "x = y + (2::nat) ^ j"
proof -
  have "2 ^ j dvd x" using le_imp_power_dvd [OF assms(2), of "2::nat"] assms(3) by (rule dvd_trans)
  moreover have "2 ^ j dvd y + 2 ^ j" using assms(1) by simp
  ultimately have "2 ^ j dvd y + 2 ^ j - x" by (rule dvd_diff_nat [rotated])
  moreover have "y + 2 ^ j - x < 2 ^ j" using assms(4-6) by simp
  ultimately have "y + 2 ^ j - x = 0" using nat_dvd_not_less by (metis gr0I)
  then show ?thesis using assms(4-6) by simp
qed

lemma parity_split:
  assumes "2 ^ k dvd x"
  shows "even (x div 2 ^ k) \<longleftrightarrow> 2 ^ Suc k dvd (x::nat)"
    and "odd (x div 2 ^ k) \<Longrightarrow> \<exists>m. x = 2 ^ Suc k * m + 2 ^ k"
proof -
  obtain q where q: "x = 2 ^ k * q" using assms by blast
  then have d: "x div 2 ^ k = q" by simp
  show "even (x div 2 ^ k) \<longleftrightarrow> 2 ^ Suc k dvd x"
  proof
    assume "even (x div 2 ^ k)"
    then obtain r where "q = 2 * r" using d by blast
    then show "2 ^ Suc k dvd x" using q by simp
  next
    assume "2 ^ Suc k dvd x"
    then obtain r where "x = 2 ^ Suc k * r" by blast
    then have "2 ^ k * q = 2 ^ k * (2 * r)" using q by simp
    then have "q = 2 * r" by (simp only: mult_cancel1) simp
    then show "even (x div 2 ^ k)" using d by simp
  qed
  assume "odd (x div 2 ^ k)"
  then obtain r where "q = 2 * r + 1" using d by (metis oddE)
  then have "x = 2 ^ Suc k * r + 2 ^ k" using q by (simp add: algebra_simps)
  then show "\<exists>m. x = 2 ^ Suc k * m + 2 ^ k" by blast
qed

lemma dyadic_contains:
  assumes x: "2 ^ k dvd x" "0 < x" and y: "2 ^ j dvd y" "k < j" and b: "y \<le> bpage x k" "bpage x k < y + 2 ^ j"
  shows "y \<le> x \<and> x < y + 2 ^ j"
proof -
  have "2 ^ Suc k dvd y" using le_imp_power_dvd [of "Suc k" j "2::nat"] y by (metis Suc_leI dvd_trans)
  then obtain c where c: "y = 2 ^ Suc k * c" by blast
  have "2 ^ Suc k dvd y + 2 ^ j" using \<open>2 ^ Suc k dvd y\<close> le_imp_power_dvd [of "Suc k" j "2::nat"] y(2) by (simp add: Suc_leI)
  then obtain d where d: "y + 2 ^ j = 2 ^ Suc k * d" by blast
  show ?thesis
  proof (cases "even (x div 2 ^ k)")
    case True
    then obtain m where m: "x = 2 ^ Suc k * m" using parity_split(1) [OF x(1)] by blast
    have "2 ^ Suc k * c \<le> 2 ^ Suc k * m + 2 ^ k" using b(1) True c m by (simp add: bpage_def)
    also have "\<dots> < 2 ^ Suc k * (m + 1)" by simp
    finally have "c < m + 1" by (simp only: mult_less_cancel1)
    then have "y \<le> x" using c m by simp
    then show ?thesis using b(2) True by (simp add: bpage_def)
  next
    case False
    then obtain m where m: "x = 2 ^ Suc k * m + 2 ^ k" using parity_split(2) [OF x(1)] by blast
    have "x - 1 < 2 ^ Suc k * d" using b(2) False d by (simp add: bpage_def)
    moreover have "2 ^ Suc k * m \<le> x - 1" using m one_le_power [of "2::nat" k] by linarith
    ultimately have "2 ^ Suc k * m < 2 ^ Suc k * d" by linarith
    then have "m < d" by (simp only: mult_less_cancel1)
    then have "2 ^ Suc k * (m + 1) \<le> 2 ^ Suc k * d" by (intro mult_le_mono2) simp
    then have "2 ^ Suc k * m + 2 * 2 ^ k \<le> 2 ^ Suc k * d" by (simp add: algebra_simps)
    then have "x < 2 ^ Suc k * d" using m one_le_power [of "2::nat" k] by linarith
    moreover have "y \<le> x" using b(1) False by (simp add: bpage_def)
    ultimately show ?thesis using d by simp
  qed
qed

lemma parent_ivl:
  assumes x: "2 ^ k dvd x"
  shows "ivl (parent x k, Suc k) = ivl (x, k) \<union> ivl (buddy x k, k)" and "ivl (x, k) \<inter> ivl (buddy x k, k) = {}"
    and "2 ^ Suc k dvd parent x k" and "parent x k = min x (buddy x k)" and "buddy x k \<noteq> x" and "2 ^ k dvd buddy x k"
    and "buddy (buddy x k) k = x"
proof -
  have le: "2 ^ k \<le> x" if "odd (x div 2 ^ k)" using parity_split(2) [OF x that] by auto
  show p: "parent x k = min x (buddy x k)" using le by (auto simp: parent_def buddy_def)
  show d: "2 ^ Suc k dvd parent x k"
  proof (cases "even (x div 2 ^ k)")
    case True
    then show ?thesis using parity_split(1) [OF x] by (simp add: parent_def)
  next
    case False
    then obtain m where "x = 2 ^ Suc k * m + 2 ^ k" using parity_split(2) [OF x] by blast
    then show ?thesis using False by (simp add: parent_def)
  qed
  show "ivl (parent x k, Suc k) = ivl (x, k) \<union> ivl (buddy x k, k)" using le by (auto simp: parent_def buddy_def ivl_def)
  show "ivl (x, k) \<inter> ivl (buddy x k, k) = {}" using le by (auto simp: buddy_def ivl_def)
  show "buddy x k \<noteq> x"
  proof (cases "even (x div 2 ^ k)")
    case False
    then show ?thesis using le [OF False] one_le_power [of "2::nat" k] unfolding buddy_def by (simp only: if_False) linarith
  qed (simp add: buddy_def)
  show b: "2 ^ k dvd buddy x k" using x le by (auto simp: buddy_def dvd_diff_nat)
  show "buddy (buddy x k) k = x"
  proof (cases "even (x div 2 ^ k)")
    case True
    moreover have "(x + 2 ^ k) div 2 ^ k = x div 2 ^ k + 1" by (rule div_add_self2) simp
    ultimately have "odd ((x + 2 ^ k) div 2 ^ k)" by simp
    then show ?thesis using \<open>even (x div 2 ^ k)\<close> by (simp add: buddy_def)
  next
    case False
    have "x div 2 ^ k = (x - 2 ^ k) div 2 ^ k + 1" using le [OF False] by (metis add.commute le_add_diff_inverse2 div_add_self2 power_not_zero zero_neq_numeral)
    then have "even ((x - 2 ^ k) div 2 ^ k)" using False by simp
    then show ?thesis using False le [OF False] by (simp add: buddy_def)
  qed
qed

section \<open>Well-formed page allocators\<close>

definition frees :: "(nat \<Rightarrow> nat list) \<Rightarrow> span set" where
  "frees F = {(x, k). k < 32 \<and> x \<in> set (F k)}"

definition tagged :: "pages \<Rightarrow> bool \<Rightarrow> span \<Rightarrow> bool" where
  "tagged ps b a \<longleftrightarrow> (\<forall>i \<in> {fst a, fst a + 2 ^ snd a - 1}. \<exists>p. ps i = Some p \<and> pg_free p = b \<and> pg_span_size p = 2 ^ snd a)"

definition free_at :: "pages \<Rightarrow> nat \<Rightarrow> bool" where
  "free_at ps i \<longleftrightarrow> (\<exists>p. ps i = Some p \<and> pg_free p)"

text \<open>The spans are those that are allocated, \<open>A\<close>, those in the lists, \<open>F\<close>, and those about to be freed, \<open>H\<close>.\<close>

definition spans_ok :: "span set \<Rightarrow> span set \<Rightarrow> (nat \<Rightarrow> nat list) \<Rightarrow> spans \<Rightarrow> bool" where
  "spans_ok A H F s \<longleftrightarrow>
     (\<forall>i. sn_pages s i \<noteq> None \<longleftrightarrow> i \<le> sn_nr_pages s) \<and> sn_nr_pages s < 2 ^ 31 \<and> length (sn_lists s) = 32 \<and>
     (\<forall>k < 32. dll (sn_pages s) (sn_lists s ! k) (F k)) \<and>
     geo (sn_nr_pages s) (A \<union> H \<union> frees F) \<and> A \<inter> H = {} \<and> A \<inter> frees F = {} \<and> H \<inter> frees F = {} \<and>
     (\<forall>a \<in> frees F. tagged (sn_pages s) True a) \<and> (\<forall>a \<in> A. tagged (sn_pages s) False a) \<and>
     (\<forall>i. free_at (sn_pages s) i \<longrightarrow> (\<exists>a \<in> A \<union> H \<union> frees F. i \<in> ivl a)) \<and>
     sn_nr_free s = (\<Sum>k<32. length (F k) * 2 ^ k) \<and>
     (\<forall>x k. (x, k) \<in> frees F \<longrightarrow> (buddy x k, k) \<notin> frees F)"

lemma spans_okD:
  assumes "spans_ok A H F s"
  shows "sn_pages s i \<noteq> None \<longleftrightarrow> i \<le> sn_nr_pages s" "sn_nr_pages s < 2 ^ 31" "length (sn_lists s) = 32"
    "k < 32 \<Longrightarrow> dll (sn_pages s) (sn_lists s ! k) (F k)" "geo (sn_nr_pages s) (A \<union> H \<union> frees F)"
    "A \<inter> H = {}" "A \<inter> frees F = {}" "H \<inter> frees F = {}"
    "a \<in> frees F \<Longrightarrow> tagged (sn_pages s) True a" "a \<in> A \<Longrightarrow> tagged (sn_pages s) False a"
    "free_at (sn_pages s) i \<Longrightarrow> \<exists>a \<in> A \<union> H \<union> frees F. i \<in> ivl a"
    "sn_nr_free s = (\<Sum>k<32. length (F k) * 2 ^ k)" "(x, k) \<in> frees F \<Longrightarrow> (buddy x k, k) \<notin> frees F"
  using assms unfolding spans_ok_def by blast+

lemma taggedD:
  assumes "tagged ps b (x, k)"
  shows "\<exists>p. ps x = Some p \<and> pg_free p = b \<and> pg_span_size p = 2 ^ k"
    and "\<exists>p. ps (x + 2 ^ k - 1) = Some p \<and> pg_free p = b \<and> pg_span_size p = 2 ^ k"
  using assms by (simp_all add: tagged_def)

text \<open>What counts of a page, apart from the links.\<close>

definition same_tags :: "pages \<Rightarrow> pages \<Rightarrow> bool" where
  "same_tags ps ps' \<longleftrightarrow> (\<forall>i. map_option (\<lambda>p. (pg_free p, pg_span_size p)) (ps' i) = map_option (\<lambda>p. (pg_free p, pg_span_size p)) (ps i))"

lemma tagged_cong:
  assumes "tagged ps b a" and "\<And>i. i \<in> {fst a, fst a + 2 ^ snd a - 1} \<Longrightarrow>
    map_option (\<lambda>p. (pg_free p, pg_span_size p)) (ps' i) = map_option (\<lambda>p. (pg_free p, pg_span_size p)) (ps i)"
  shows "tagged ps' b a"
  unfolding tagged_def
proof
  fix i assume i: "i \<in> {fst a, fst a + 2 ^ snd a - 1}"
  obtain p where "ps i = Some p" "pg_free p = b" "pg_span_size p = 2 ^ snd a" using assms(1) i unfolding tagged_def by blast
  then show "\<exists>p. ps' i = Some p \<and> pg_free p = b \<and> pg_span_size p = 2 ^ snd a" using assms(2) [OF i] by (cases "ps' i") auto
qed

lemma same_tags_links_only: "links_only X ps ps' \<Longrightarrow> same_tags ps ps'"
proof -
  assume l: "links_only X ps ps'"
  show ?thesis unfolding same_tags_def
  proof
    fix i
    show "map_option (\<lambda>p. (pg_free p, pg_span_size p)) (ps' i) = map_option (\<lambda>p. (pg_free p, pg_span_size p)) (ps i)"
      using links_onlyD(2,3,8) [OF l, of i] by (cases "ps' i"; cases "ps i") auto
  qed
qed

lemma same_tags_free_at: "same_tags ps ps' \<Longrightarrow> free_at ps' i = free_at ps i"
proof -
  assume "same_tags ps ps'"
  then have "map_option (\<lambda>p. (pg_free p, pg_span_size p)) (ps' i) = map_option (\<lambda>p. (pg_free p, pg_span_size p)) (ps i)"
    by (simp add: same_tags_def)
  then show ?thesis by (cases "ps' i"; cases "ps i") (auto simp: free_at_def)
qed

lemma sum_list_upd:
  assumes "k < (32::nat)"
  shows "(\<Sum>j<32. length ((F(k := zs)) j) * 2 ^ j) + length (F k) * 2 ^ k = (\<Sum>j<32. length (F j) * (2::nat) ^ j) + length zs * 2 ^ k"
proof -
  have "(\<Sum>j<32. length ((F(k := zs)) j) * (2::nat) ^ j) = length zs * 2 ^ k + (\<Sum>j \<in> {..<32} - {k}. length ((F(k := zs)) j) * 2 ^ j)"
    using assms by (subst sum.remove [of _ k]) simp_all
  moreover have "(\<Sum>j \<in> {..<32} - {k}. length ((F(k := zs)) j) * (2::nat) ^ j) = (\<Sum>j \<in> {..<32} - {k}. length (F j) * 2 ^ j)"
    by (intro sum.cong) simp_all
  moreover have "(\<Sum>j<32. length (F j) * (2::nat) ^ j) = length (F k) * 2 ^ k + (\<Sum>j \<in> {..<32} - {k}. length (F j) * 2 ^ j)"
    using assms by (subst sum.remove [of _ k]) simp_all
  ultimately show ?thesis by simp
qed

lemma frees_upd:
  assumes "k < 32"
  shows "frees (F(k := zs)) = {(x, j) \<in> frees F. j \<noteq> k} \<union> (\<lambda>x. (x, k)) ` set zs"
  using assms by (auto simp: frees_def)

text \<open>The other lists do not share a page with a list.\<close>

lemma lists_disjoint:
  assumes ok: "spans_ok A H F s" and "k < 32" "j < 32" "j \<noteq> k"
  shows "set (F j) \<inter> set (F k) = {}"
proof -
  have "False" if "x \<in> set (F j)" "x \<in> set (F k)" for x
  proof -
    have "(x, j) \<in> A \<union> H \<union> frees F" "(x, k) \<in> A \<union> H \<union> frees F" using that assms by (auto simp: frees_def)
    then show False using geo_start [OF spans_okD(5) [OF ok]] assms(4) by blast
  qed
  then show ?thesis by blast
qed

text \<open>Taking a span out of its list: it is about to be used or merged.\<close>

lemma span_unlink_ok:
  assumes ok: "spans_ok A H F s" and k: "k < 32" and i: "i \<in> set (F k)"
  shows "\<exists>s' F'. span_unlink k i s = Some s' \<and> frees F' = frees F - {(i, k)} \<and>
    spans_ok A (insert (i, k) H) F' (s'\<lparr>sn_nr_free := sn_nr_free s - 2 ^ k\<rparr>) \<and> 2 ^ k \<le> sn_nr_free s \<and>
    same_tags (sn_pages s) (sn_pages s') \<and> links_only (set (F k) - {i}) (sn_pages s) (sn_pages s') \<and>
    sn_nr_free s' = sn_nr_free s \<and> sn_nr_pages s' = sn_nr_pages s"
proof -
  note K = spans_okD [OF ok]
  obtain xs ys where xy: "F k = xs @ i # ys" using i by (meson split_list)
  have d: "dll (sn_pages s) (sn_lists s ! k) (xs @ i # ys)" using K(4) [OF k] xy by simp
  then have dist: "distinct (xs @ i # ys)" by (simp add: dll_def)
  from pl_erase_ok [OF d] obtain l ps where l: "pl_erase i (sn_lists s ! k) (sn_pages s) = Some (l, ps)" "dll ps l (xs @ ys)"
    "links_only (set xs \<union> set ys) (sn_pages s) ps" by (elim exE conjE)
  let ?s = "s\<lparr>sn_lists := (sn_lists s)[k := l], sn_pages := ps\<rparr>"
  let ?F = "F(k := xs @ ys)"
  have u: "span_unlink k i s = Some ?s" using l(1) k K(3) by (simp add: span_unlink_def)
  have fr: "frees ?F = frees F - {(i, k)}"
    unfolding frees_upd [OF k] using xy dist k by (auto simp: frees_def)
  have ik: "(i, k) \<in> frees F" using i k by (simp add: frees_def)
  have tags: "same_tags (sn_pages s) ps" by (rule same_tags_links_only [OF l(3)])
  have tg: "tagged ps b a" if "tagged (sn_pages s) b a" for b a
    using tags unfolding same_tags_def by (intro tagged_cong [OF that]) blast
  have all: "A \<union> insert (i, k) H \<union> frees ?F = A \<union> H \<union> frees F" using fr ik by blast
  have n: "(\<Sum>j<32. length (?F j) * 2 ^ j) + 2 ^ k = sn_nr_free s"
    using sum_list_upd [OF k, of F "xs @ ys"] K(12) xy by simp
  have "spans_ok A (insert (i, k) H) ?F (?s\<lparr>sn_nr_free := sn_nr_free s - 2 ^ k\<rparr>)"
    unfolding spans_ok_def all
  proof (intro conjI allI ballI impI)
    fix j show "(sn_pages (?s\<lparr>sn_nr_free := sn_nr_free s - 2 ^ k\<rparr>) j \<noteq> None) = (j \<le> sn_nr_pages (?s\<lparr>sn_nr_free := sn_nr_free s - 2 ^ k\<rparr>))"
      using K(1) links_onlyD(8) [OF l(3), of j] by simp
  next
    fix j assume j: "j < (32::nat)"
    show "dll (sn_pages (?s\<lparr>sn_nr_free := sn_nr_free s - 2 ^ k\<rparr>)) (sn_lists (?s\<lparr>sn_nr_free := sn_nr_free s - 2 ^ k\<rparr>) ! j) (?F j)"
    proof (cases "j = k")
      case True
      then show ?thesis using l(2) K(3) k by simp
    next
      case False
      have "set (F j) \<inter> (set xs \<union> set ys) = {}" using lists_disjoint [OF ok k j False] xy by auto
      then have "dll ps (sn_lists s ! j) (F j)" by (rule dll_links_only [OF K(4) [OF j] l(3)])
      then show ?thesis using False by simp
    qed
  next
    fix a assume "a \<in> frees ?F"
    then have "a \<in> frees F" using fr by blast
    then show "tagged (sn_pages (?s\<lparr>sn_nr_free := sn_nr_free s - 2 ^ k\<rparr>)) True a" using tg K(9) by simp
  next
    fix a assume "a \<in> A"
    then show "tagged (sn_pages (?s\<lparr>sn_nr_free := sn_nr_free s - 2 ^ k\<rparr>)) False a" using tg K(10) by simp
  next
    fix j assume "free_at (sn_pages (?s\<lparr>sn_nr_free := sn_nr_free s - 2 ^ k\<rparr>)) j"
    then have "free_at (sn_pages s) j" using same_tags_free_at [OF tags] by simp
    then show "\<exists>a \<in> A \<union> H \<union> frees F. j \<in> ivl a" by (rule K(11))
  next
    fix x j assume "(x, j) \<in> frees ?F"
    then show "(buddy x j, j) \<notin> frees ?F" using fr K(13) by blast
  qed (use K(2,3,5-8) fr ik n in auto)
  then show ?thesis using u fr n l(3) tags xy dist by (intro exI [of _ ?s] exI [of _ ?F]) auto
qed

text \<open>Making a span free, without merging.\<close>

lemma set_ends_ok:
  assumes "sn_pages s x \<noteq> None" and "sn_pages s (x + n - 1) \<noteq> None" and "0 < n"
    and f: "\<And>p. pg_prev (f p) = pg_prev p \<and> pg_next (f p) = pg_next p" "\<And>p. f (f p) = f p"
  shows "\<exists>s'. set_ends x n f s = Some s' \<and> sn_lists s' = sn_lists s \<and> sn_nr_free s' = sn_nr_free s \<and> sn_nr_pages s' = sn_nr_pages s \<and>
    (\<forall>i. sn_pages s' i = (if i \<in> {x, x + n - 1} then map_option f (sn_pages s i) else sn_pages s i))"
proof -
  obtain p q where p: "sn_pages s x = Some p" "sn_pages s (x + n - 1) = Some q" using assms(1,2) by blast
  show ?thesis
  proof (cases "x = x + n - 1")
    case True
    then show ?thesis using p f(2) by (simp add: set_ends_def upd_page_def)
  next
    case False
    then show ?thesis using p by (auto simp: set_ends_def upd_page_def)
  qed
qed

lemma ivl_ends: "x \<in> ivl (x, k)" "x + 2 ^ k - 1 \<in> ivl (x, k)"
proof -
  have "0 < (2::nat) ^ k" by simp
  then show "x \<in> ivl (x, k)" "x + 2 ^ k - 1 \<in> ivl (x, k)" unfolding in_ivl by linarith+
qed

lemma no_merge_ok:
  assumes ok: "spans_ok A (insert (x, k) H) F s" and new: "(x, k) \<notin> H" and k: "k < 32" and b: "(buddy x k, k) \<notin> frees F"
  shows "\<exists>s'. free_span_no_merge x (2 ^ k) s = Some s' \<and> spans_ok A H (F(k := x # F k)) s' \<and> sn_nr_pages s' = sn_nr_pages s \<and>
    sn_nr_free s' = sn_nr_free s + 2 ^ k \<and>
    (\<forall>i. i \<notin> {x, x + 2 ^ k - 1} \<union> set (F k) \<longrightarrow> sn_pages s' i = sn_pages s i) \<and>
    (\<forall>i. i \<notin> {x, x + 2 ^ k - 1} \<longrightarrow> map_option (\<lambda>p. (pg_free p, pg_span_size p)) (sn_pages s' i) = map_option (\<lambda>p. (pg_free p, pg_span_size p)) (sn_pages s i))"
proof -
  note K = spans_okD [OF ok]
  let ?f = "\<lambda>p. p\<lparr>pg_free := True, pg_span_size := 2 ^ k\<rparr>"
  let ?E = "{x, x + 2 ^ k - 1}"
  have xS: "(x, k) \<in> A \<union> insert (x, k) H \<union> frees F" by simp
  have xk: "0 < x" "2 ^ k dvd x" "x + 2 ^ k \<le> sn_nr_pages s" using geoD(1) [OF K(5) xS] by simp_all
  have le: "x \<le> sn_nr_pages s" "x + 2 ^ k - 1 \<le> sn_nr_pages s" using xk(3) by linarith+
  have pg: "sn_pages s x \<noteq> None" "sn_pages s (x + 2 ^ k - 1) \<noteq> None" using K(1) le by blast+
  have n0: "0 < (2::nat) ^ k" by simp
  obtain s1 where s1: "set_ends x (2 ^ k) ?f (s\<lparr>sn_nr_free := sn_nr_free s + 2 ^ k\<rparr>) = Some s1" "sn_lists s1 = sn_lists s"
    "sn_nr_free s1 = sn_nr_free s + 2 ^ k" "sn_nr_pages s1 = sn_nr_pages s"
    "\<forall>i. sn_pages s1 i = (if i \<in> ?E then map_option ?f (sn_pages s i) else sn_pages s i)"
    using set_ends_ok [of "s\<lparr>sn_nr_free := sn_nr_free s + 2 ^ k\<rparr>" x "2 ^ k" ?f] pg n0 by auto
  have other: "i \<notin> ivl a" if "i \<in> ?E" "a \<in> A \<union> H \<union> frees F" for i a
  proof
    assume "i \<in> ivl a"
    moreover have "i \<in> ivl (x, k)" using that(1) ivl_ends [of x k] by blast
    moreover have "a \<in> A \<union> insert (x, k) H \<union> frees F" using that(2) by blast
    ultimately have "a = (x, k)" using geoD(2) [OF K(5) _ xS] by blast
    then show False using that(2) new K(6,8) by blast
  qed
  have xF: "x \<notin> set (F j)" "x + 2 ^ k - 1 \<notin> set (F j)" if "j < 32" for j
  proof -
    have "\<not> i \<in> set (F j)" if i: "i \<in> ?E" for i
    proof
      assume "i \<in> set (F j)"
      then have "(i, j) \<in> A \<union> H \<union> frees F" using \<open>j < 32\<close> by (simp add: frees_def)
      then show False using other [OF i, of "(i, j)"] ivl_ends(1) [of i j] by blast
    qed
    then show "x \<notin> set (F j)" "x + 2 ^ k - 1 \<notin> set (F j)" by blast+
  qed
  have links: "same_links (sn_pages s1 i) (sn_pages s i)" for i using s1(5) by (cases "sn_pages s i") (auto simp: same_links_def)
  have d1: "dll (sn_pages s1) (sn_lists s1 ! j) (F j)" if "j < 32" for j
    using dll_cong [OF K(4) [OF that]] links s1(2) by simp
  have x1: "sn_pages s1 x \<noteq> None" using s1(5) pg(1) by simp
  from pl_push_front_ok [OF d1 [OF k] x1] xk(1) xF(1) [OF k] obtain l ps where
    l: "pl_push_front x (sn_lists s1 ! k) (sn_pages s1) = Some (l, ps)" "dll ps l (x # F k)" "links_only (insert x (set (F k))) (sn_pages s1) ps" by auto
  let ?s = "s1\<lparr>sn_lists := (sn_lists s1)[k := l], sn_pages := ps\<rparr>"
  let ?F = "F(k := x # F k)"
  have run: "free_span_no_merge x (2 ^ k) s = Some ?s"
    using s1(1,2) l(1) k K(3) by (simp add: free_span_no_merge_def index_of_pow span_link_def)
  have fr: "frees ?F = insert (x, k) (frees F)" using k by (auto simp: frees_def)
  have all: "A \<union> H \<union> frees ?F = A \<union> insert (x, k) H \<union> frees F" using fr by blast
  have tags1: "map_option (\<lambda>p. (pg_free p, pg_span_size p)) (ps i) = map_option (\<lambda>p. (pg_free p, pg_span_size p)) (sn_pages s1 i)" for i
    using same_tags_links_only [OF l(3)] unfolding same_tags_def by blast
  have tags: "map_option (\<lambda>p. (pg_free p, pg_span_size p)) (ps i) = map_option (\<lambda>p. (pg_free p, pg_span_size p)) (sn_pages s i)"
    if "i \<notin> ?E" for i using tags1 [of i] s1(5) that by simp
  have tg: "tagged ps c a" if "tagged (sn_pages s) c a" "a \<in> A \<union> H \<union> frees F" for c a
  proof (rule tagged_cong [OF that(1)])
    fix i assume "i \<in> {fst a, fst a + 2 ^ snd a - 1}"
    then have "i \<in> ivl a" using ivl_ends [of "fst a" "snd a"] by auto
    then have "i \<notin> ?E" using other [of i a] that(2) by blast
    then show "map_option (\<lambda>p. (pg_free p, pg_span_size p)) (ps i) = map_option (\<lambda>p. (pg_free p, pg_span_size p)) (sn_pages s i)" by (rule tags)
  qed
  have tx: "tagged ps True (x, k)"
    unfolding tagged_def
  proof
    fix i assume i: "i \<in> {fst (x, k), fst (x, k) + 2 ^ snd (x, k) - 1}"
    then have "i \<in> ?E" by simp
    moreover have "sn_pages s i \<noteq> None" using i pg by auto
    ultimately have "map_option (\<lambda>p. (pg_free p, pg_span_size p)) (sn_pages s1 i) = Some (True, 2 ^ k)"
      using s1(5) by (cases "sn_pages s i") simp_all
    then have "map_option (\<lambda>p. (pg_free p, pg_span_size p)) (ps i) = Some (True, 2 ^ k)" using tags1 [of i] by simp
    then show "\<exists>p. ps i = Some p \<and> pg_free p = True \<and> pg_span_size p = 2 ^ snd (x, k)" by (cases "ps i") auto
  qed
  have "spans_ok A H ?F ?s"
    unfolding spans_ok_def all
  proof (intro conjI allI ballI impI)
    fix j show "(sn_pages ?s j \<noteq> None) = (j \<le> sn_nr_pages ?s)"
      using K(1) [of j] links_onlyD(8) [OF l(3), of j] s1(4,5) by (cases "sn_pages s j") auto
  next
    fix j assume j: "j < (32::nat)"
    show "dll (sn_pages ?s) (sn_lists ?s ! j) (?F j)"
    proof (cases "j = k")
      case True
      then show ?thesis using l(2) K(3) k s1(2) by simp
    next
      case False
      have "set (F j) \<inter> insert x (set (F k)) = {}" using lists_disjoint [OF ok k j False] xF(1) [OF j] by auto
      then have "dll ps (sn_lists s1 ! j) (F j)" by (rule dll_links_only [OF d1 [OF j] l(3)])
      then show ?thesis using False by simp
    qed
  next
    fix a assume "a \<in> frees ?F"
    then consider "a = (x, k)" | "a \<in> frees F" using fr by blast
    then show "tagged (sn_pages ?s) True a" using tx tg K(9) by cases simp_all
  next
    fix a assume "a \<in> A"
    then show "tagged (sn_pages ?s) False a" using tg K(10) by simp
  next
    fix i assume f: "free_at (sn_pages ?s) i"
    show "\<exists>a \<in> A \<union> insert (x, k) H \<union> frees F. i \<in> ivl a"
    proof (cases "i \<in> ?E")
      case True
      then have "i \<in> ivl (x, k)" using ivl_ends [of x k] by blast
      then show ?thesis by blast
    next
      case False
      have "free_at (sn_pages s) i" using f tags [OF False] by (cases "ps i"; cases "sn_pages s i") (auto simp: free_at_def)
      then show ?thesis by (rule K(11))
    qed
  next
    fix y j assume y: "(y, j) \<in> frees ?F"
    have bb: "buddy y j \<noteq> x" if "(y, j) \<in> frees F" "j = k"
    proof
      assume "buddy y j = x"
      have "2 ^ j dvd y" using geoD(1) [OF K(5), of y j] that(1) by blast
      then have "buddy x k = y" using \<open>buddy y j = x\<close> parent_ivl(7) [of j y] that(2) by simp
      then show False using b that by simp
    qed
    show "(buddy y j, j) \<notin> frees ?F"
    proof
      assume "(buddy y j, j) \<in> frees ?F"
      then consider "buddy y j = x" "j = k" | "(buddy y j, j) \<in> frees F" using fr by blast
      then show False
      proof cases
        case 1
        then have "(y, j) \<notin> frees F" using bb by blast
        then have "y = x" using y fr 1 by blast
        then show False using parent_ivl(5) [OF xk(2)] 1 by simp
      next
        case 2
        then have "(y, j) \<notin> frees F" using K(13) [of y j] by blast
        then have "(y, j) = (x, k)" using y fr by blast
        then show False using 2 b by simp
      qed
    qed
  next
    show "geo (sn_nr_pages ?s) (A \<union> insert (x, k) H \<union> frees F)" using K(5) s1(4) by simp
    show "A \<inter> H = {}" using K(6) by blast
    have "(x, k) \<notin> A" using K(6) by blast
    then show "A \<inter> frees ?F = {}" unfolding fr using K(7) by simp
    have "H \<inter> frees F = {}" using K(8) by blast
    then show "H \<inter> frees ?F = {}" unfolding fr using new by simp
    show "sn_nr_pages ?s < 2 ^ 31" using K(2) s1(4) by simp
    show "length (sn_lists ?s) = 32" using K(3) s1(2) by simp
    show "sn_nr_free ?s = (\<Sum>j<32. length (?F j) * 2 ^ j)" using sum_list_upd [OF k, of F "x # F k"] K(12) s1(3) by simp
  qed
  moreover have "sn_pages ?s i = sn_pages s i" if "i \<notin> ?E \<union> set (F k)" for i
    using links_onlyD(1) [OF l(3), of i] s1(5) that by simp
  ultimately show ?thesis using run tags s1(3,4) by (intro exI [of _ ?s]) simp
qed

section \<open>Merging\<close>

lemma holes_swap:
  assumes ok: "spans_ok A H F s" and g: "geo (sn_nr_pages s) (A \<union> H' \<union> frees F)" "A \<inter> H' = {}" "H' \<inter> frees F = {}"
    and cover: "\<And>a i. a \<in> H \<Longrightarrow> i \<in> ivl a \<Longrightarrow> \<exists>b \<in> H'. i \<in> ivl b"
  shows "spans_ok A H' F s"
proof -
  note K = spans_okD [OF ok]
  have "\<exists>a \<in> A \<union> H' \<union> frees F. i \<in> ivl a" if "free_at (sn_pages s) i" for i
  proof -
    from K(11) [OF that] obtain a where a: "a \<in> A \<union> H \<union> frees F" "i \<in> ivl a" ..
    then show ?thesis using cover [of a i] by blast
  qed
  then show ?thesis unfolding spans_ok_def using g by (intro conjI allI ballI impI) (rule K | blast)+
qed

lemma geo_insertI:
  assumes "geo n S" and "0 < x" "2 ^ k dvd x" "x + 2 ^ k \<le> n" and "\<And>a. a \<in> S \<Longrightarrow> ivl a \<inter> ivl (x, k) = {}"
  shows "geo n (insert (x, k) S)"
proof -
  have dis: "ivl (x, k) \<inter> ivl a = {}" if "a \<in> S" for a using assms(5) [OF that] by blast
  have S: "ivl a \<inter> ivl b = {}" if "a \<in> S" "b \<in> S" "a \<noteq> b" for a b using assms(1) that unfolding geo_def by blast
  show ?thesis
    unfolding geo_def
  proof (intro conjI allI impI ballI)
    fix y j assume "(y, j) \<in> insert (x, k) S"
    then show "0 < y" "2 ^ j dvd y" "y + 2 ^ j \<le> n" using assms(2-4) geoD(1) [OF assms(1)] by blast+
  next
    fix a b assume ab: "a \<in> insert (x, k) S" "b \<in> insert (x, k) S" "a \<noteq> b"
    then consider "a = (x, k)" "b \<in> S" | "b = (x, k)" "a \<in> S" | "a \<in> S" "b \<in> S" by blast
    then show "ivl a \<inter> ivl b = {}"
    proof cases
      case 1
      then show ?thesis using dis by blast
    next
      case 2
      then show ?thesis using assms(5) by blast
    next
      case 3
      then show ?thesis using S ab(3) by blast
    qed
  qed
qed

lemma geo_subset: "geo n S \<Longrightarrow> T \<subseteq> S \<Longrightarrow> geo n T"
  unfolding geo_def by blast

lemma geo_insertD:
  assumes "geo n (insert a S)" and "a \<notin> S" and "b \<in> S"
  shows "ivl b \<inter> ivl a = {}"
proof -
  have "b \<noteq> a" using assms(2,3) by blast
  then show ?thesis using assms(1,3) unfolding geo_def by blast
qed

lemma geo_merge:
  assumes g: "geo n (insert (x, k) (insert (buddy x k, k) S))" and new: "(x, k) \<notin> S" "(buddy x k, k) \<notin> S"
  shows "geo n (insert (parent x k, Suc k) S)" and "(parent x k, Suc k) \<notin> S"
proof -
  have x: "0 < x" "2 ^ k dvd x" "x + 2 ^ k \<le> n" and b: "0 < buddy x k" "2 ^ k dvd buddy x k" "buddy x k + 2 ^ k \<le> n"
    using geoD(1) [OF g, of x k] geoD(1) [OF g, of "buddy x k" k] by simp_all
  note P = parent_ivl [OF x(2)]
  have gx: "geo n (insert (x, k) S)" by (rule geo_subset [OF g]) blast
  have gb: "geo n (insert (buddy x k, k) S)" by (rule geo_subset [OF g]) blast
  have dis: "ivl a \<inter> ivl (parent x k, Suc k) = {}" if "a \<in> S" for a
    unfolding P(1) using geo_insertD [OF gx new(1) that] geo_insertD [OF gb new(2) that] by blast
  have top: "parent x k + 2 ^ Suc k \<le> n"
  proof (cases "even (x div 2 ^ k)")
    case True
    then show ?thesis using b(3) by (simp add: parent_def buddy_def)
  next
    case False
    obtain m where "x = 2 ^ Suc k * m + 2 ^ k" using parity_split(2) [OF x(2) False] by blast
    then show ?thesis using False x(3) by (simp add: parent_def)
  qed
  show "geo n (insert (parent x k, Suc k) S)"
    by (rule geo_insertI) (use geo_subset [OF gx] x(1) b(1) P(3,4) top dis in auto)
  show "(parent x k, Suc k) \<notin> S"
  proof
    assume "(parent x k, Suc k) \<in> S"
    then have "ivl (parent x k, Suc k) = {}" using dis by blast
    then show False using ivl_ends(1) [of "parent x k" "Suc k"] by blast
  qed
qed

lemma geo_split:
  assumes g: "geo n (insert (x, Suc k) S)" and new: "(x, Suc k) \<notin> S"
  shows "geo n (insert (x, k) (insert (x + 2 ^ k, k) S))" and "(x, k) \<notin> S" "(x + 2 ^ k, k) \<notin> S" "(x, k) \<noteq> (x + 2 ^ k, k)"
    "buddy (x + 2 ^ k) k = x" "ivl (x, Suc k) = ivl (x, k) \<union> ivl (x + 2 ^ k, k)"
proof -
  have x: "0 < x" "2 ^ Suc k dvd x" "x + 2 ^ Suc k \<le> n" using geoD(1) [OF g, of x "Suc k"] by simp_all
  have x': "2 ^ k dvd x" using x(2) le_imp_power_dvd [of k "Suc k" "2::nat"] by (metis dvd_trans le_SucI order_refl)
  show i: "ivl (x, Suc k) = ivl (x, k) \<union> ivl (x + 2 ^ k, k)" by (auto simp: ivl_def)
  have dis: "ivl a \<inter> ivl (x, Suc k) = {}" if "a \<in> S" for a by (rule geo_insertD [OF g new that])
  have e: "even (x div 2 ^ k)" using parity_split(1) [OF x'] x(2) by blast
  then have b: "buddy x k = x + 2 ^ k" by (simp add: buddy_def)
  show "buddy (x + 2 ^ k) k = x" using parent_ivl(7) [OF x'] b by simp
  have S: "geo n S" by (rule geo_subset [OF g]) blast
  have d1: "ivl a \<inter> ivl (x, k) = {}" "ivl a \<inter> ivl (x + 2 ^ k, k) = {}" if "a \<in> S" for a using dis [OF that] i by blast+
  have d2: "ivl (x + 2 ^ k, k) \<inter> ivl (x, k) = {}" by (auto simp: ivl_def)
  have "geo n (insert (x + 2 ^ k, k) S)"
    by (rule geo_insertI [OF S]) (use x x' d1(2) in simp_all)
  then show "geo n (insert (x, k) (insert (x + 2 ^ k, k) S))"
  proof (rule geo_insertI)
    fix a assume "a \<in> insert (x + 2 ^ k, k) S"
    then show "ivl a \<inter> ivl (x, k) = {}" using d1(1) d2 by blast
  qed (use x x' in simp_all)
  show "(x, k) \<noteq> (x + 2 ^ k, k)" by simp
  show "(x, k) \<notin> S"
  proof
    assume "(x, k) \<in> S"
    then show False using dis [of "(x, k)"] ivl_ends(1) [of x k] i by blast
  qed
  show "(x + 2 ^ k, k) \<notin> S"
  proof
    assume "(x + 2 ^ k, k) \<in> S"
    then show False using dis [of "(x + 2 ^ k, k)"] ivl_ends(1) [of "x + 2 ^ k" k] i by blast
  qed
qed

text \<open>The page \<open>grow_span\<close> looks at is the first or the last one of a span.\<close>

lemma buddy_page:
  assumes g: "geo n (insert (x, k) S)" and new: "(x, k) \<notin> S" and y: "(y, j) \<in> S" "bpage x k \<in> ivl (y, j)"
  shows "bpage x k \<in> {y, y + 2 ^ j - 1}" and "j = k \<Longrightarrow> y = buddy x k"
proof -
  have x: "0 < x" "2 ^ k dvd x" "x + 2 ^ k \<le> n" using geoD(1) [OF g, of x k] by simp_all
  have Y: "0 < y" "2 ^ j dvd y" using geoD(1) [OF g, of y j] y(1) by simp_all
  have b: "y \<le> bpage x k" "bpage x k < y + 2 ^ j" using y(2) by simp_all
  have "j \<le> k"
  proof (rule ccontr)
    assume "\<not> j \<le> k"
    then have "k < j" by simp
    then have "x \<in> ivl (y, j)" using dyadic_contains [OF x(2,1) Y(2) _ b] by simp
    then show False using geo_insertD [OF g new y(1)] ivl_ends(1) [of x k] by blast
  qed
  have "bpage x k \<in> {y, y + 2 ^ j - 1} \<and> (j = k \<longrightarrow> y = buddy x k)"
  proof (cases "even (x div 2 ^ k)")
    case True
    then have "bpage x k = y" using dyadic_head [OF Y(2) \<open>j \<le> k\<close> _ b] x(2) by (simp add: bpage_def)
    then show ?thesis using True by (simp add: bpage_def buddy_def)
  next
    case False
    then have "bpage x k = x - 1" "buddy x k = x - 2 ^ k" by (simp_all add: bpage_def buddy_def)
    moreover have "x = y + 2 ^ j" using dyadic_tail [OF Y(2) \<open>j \<le> k\<close> x(2,1)] b calculation(1) by simp
    moreover have "y = buddy x k" if "j = k" unfolding calculation(2) using calculation(3) that by simp
    ultimately show ?thesis by simp
  qed
  then show "bpage x k \<in> {y, y + 2 ^ j - 1}" "j = k \<Longrightarrow> y = buddy x k" by simp_all
qed

lemma grow_ok:
  assumes ok: "spans_ok A (insert (x, k) H) F s" and new: "(x, k) \<notin> H"
    and quiet: "\<forall>h \<in> H. bpage x k \<in> ivl h \<longrightarrow> \<not> free_at (sn_pages s) (bpage x k)"
  shows "(grow_span x (2 ^ k) k s = Some (False, x, 2 ^ k, s) \<and> (buddy x k, k) \<notin> frees F) \<or>
    (\<exists>s' F'. grow_span x (2 ^ k) k s = Some (True, parent x k, 2 ^ Suc k, s') \<and> (buddy x k, k) \<in> frees F \<and>
       frees F' = frees F - {(buddy x k, k)} \<and> spans_ok A (insert (parent x k, Suc k) H) F' s' \<and> (parent x k, Suc k) \<notin> H \<and>
       same_tags (sn_pages s) (sn_pages s') \<and> links_only (set (F k)) (sn_pages s) (sn_pages s') \<and>
       sn_nr_free s' + 2 ^ k = sn_nr_free s \<and> sn_nr_pages s' = sn_nr_pages s)"
proof -
  note K = spans_okD [OF ok]
  have xS: "(x, k) \<in> A \<union> insert (x, k) H \<union> frees F" by simp
  have xk: "0 < x" "2 ^ k dvd x" "x + 2 ^ k \<le> sn_nr_pages s" using geoD(1) [OF K(5) xS] by simp_all
  then have b31: "x + 2 ^ k < 2 ^ 31" using K(2) by linarith
  then have "(2::nat) ^ k < 2 ^ 31" by linarith
  then have k: "k < 32" by simp
  have G: "geo (sn_nr_pages s) (insert (x, k) (A \<union> H \<union> frees F))" using K(5) by simp
  have nS: "(x, k) \<notin> A \<union> H \<union> frees F" using K(6,8) new by blast
  have W: "unat ((of_nat x :: u32) + (push_bit k (drop_bit k (of_nat x) AND 1 XOR 1) OR - (drop_bit k (of_nat x) AND 1))) = bpage x k"
    "unat ((of_nat x :: u32) XOR of_nat (2 ^ k)) = buddy x k" "unat ((of_nat x :: u32) AND NOT (of_nat (2 ^ k))) = parent x k"
    "unat (of_nat (2 ^ k) * (2 :: u32)) = 2 ^ Suc k"
    using grow_words [OF xk(2) b31 refl refl] unfolding bpage_def by blast+
  have "bpage x k \<le> sn_nr_pages s" using xk(1,3) by (auto simp: bpage_def)
  then obtain p where p: "sn_pages s (bpage x k) = Some p" using K(1) by blast
  have e: "grow_span x (2 ^ k) k s = (if pg_free p \<and> pg_span_size p = 2 ^ k then
      map_option (\<lambda>s. (True, parent x k, 2 ^ Suc k, s\<lparr>sn_nr_free := sn_nr_free s - 2 ^ k\<rparr>)) (span_unlink k (buddy x k) s)
    else Some (False, x, 2 ^ k, s))"
    unfolding grow_span_def Let_def W p by simp
  show ?thesis
  proof (cases "pg_free p \<and> pg_span_size p = 2 ^ k")
    case True
    then have "free_at (sn_pages s) (bpage x k)" using p by (simp add: free_at_def)
    then obtain a where a: "a \<in> A \<union> insert (x, k) H \<union> frees F" "bpage x k \<in> ivl a" using K(11) by blast
    have "bpage x k \<notin> ivl (x, k)" using xk(1) by (auto simp: bpage_def)
    then have "a \<noteq> (x, k)" using a(2) by blast
    moreover have "a \<notin> H" using quiet a(2) True p by (auto simp: free_at_def)
    ultimately have a': "a \<in> A \<union> frees F" using a(1) by blast
    obtain y j where yj: "a = (y, j)" by fastforce
    have m: "(y, j) \<in> A \<union> H \<union> frees F" using a' yj by blast
    have ends: "bpage x k \<in> {y, y + 2 ^ j - 1}" using buddy_page(1) [OF G nS m] a(2) yj by simp
    have "a \<in> frees F \<and> 2 ^ j = (2::nat) ^ k"
    proof -
      consider "a \<in> A" | "a \<in> frees F" using a' by blast
      then show ?thesis
      proof cases
        case 1
        then have "\<exists>q. sn_pages s (bpage x k) = Some q \<and> \<not> pg_free q"
          using K(10) [OF 1] ends unfolding yj tagged_def by auto
        then show ?thesis using True p by simp
      next
        case 2
        then have "\<exists>q. sn_pages s (bpage x k) = Some q \<and> pg_span_size q = 2 ^ j"
          using K(9) [OF 2] ends unfolding yj tagged_def by auto
        then show ?thesis using True p 2 by simp
      qed
    qed
    then have "j = k" by simp
    have "y = buddy x k" using buddy_page(2) [OF G nS m] a(2) yj \<open>j = k\<close> by simp
    then have bF: "(buddy x k, k) \<in> frees F" using \<open>a \<in> frees F \<and> 2 ^ j = (2::nat) ^ k\<close> yj \<open>j = k\<close> by simp
    then have "buddy x k \<in> set (F k)" by (simp add: frees_def)
    from span_unlink_ok [OF ok k this] obtain s' F' where u: "span_unlink k (buddy x k) s = Some s'" "frees F' = frees F - {(buddy x k, k)}"
      "spans_ok A (insert (buddy x k, k) (insert (x, k) H)) F' (s'\<lparr>sn_nr_free := sn_nr_free s - 2 ^ k\<rparr>)" "2 ^ k \<le> sn_nr_free s"
      "same_tags (sn_pages s) (sn_pages s')" "links_only (set (F k) - {buddy x k}) (sn_pages s) (sn_pages s')"
      "sn_nr_free s' = sn_nr_free s" "sn_nr_pages s' = sn_nr_pages s" by (elim exE conjE)
    let ?s = "s'\<lparr>sn_nr_free := sn_nr_free s - 2 ^ k\<rparr>"
    have g1: "geo (sn_nr_pages s) (insert (x, k) (insert (buddy x k, k) (A \<union> H \<union> frees F')))"
      by (rule geo_subset [OF K(5)]) (use u(2) bF in blast)
    have n1: "(x, k) \<notin> A \<union> H \<union> frees F'" "(buddy x k, k) \<notin> A \<union> H \<union> frees F'" using nS u(2) bF K(7,8) by blast+
    note M = geo_merge [OF g1 n1]
    have "spans_ok A (insert (parent x k, Suc k) H) F' ?s"
    proof (rule holes_swap [OF u(3)])
      show "geo (sn_nr_pages ?s) (A \<union> insert (parent x k, Suc k) H \<union> frees F')" using M(1) u(8) by simp
      show "A \<inter> insert (parent x k, Suc k) H = {}" "insert (parent x k, Suc k) H \<inter> frees F' = {}" using M(2) K(6,8) u(2) by blast+
      fix a i assume "a \<in> insert (buddy x k, k) (insert (x, k) H)" "i \<in> ivl a"
      then show "\<exists>b \<in> insert (parent x k, Suc k) H. i \<in> ivl b" using parent_ivl(1) [OF xk(2)] by blast
    qed
    moreover have "links_only (set (F k)) (sn_pages s) (sn_pages s')" using u(6) by (auto simp: links_only_def)
    moreover have "grow_span x (2 ^ k) k s = Some (True, parent x k, 2 ^ Suc k, ?s)" using e True u(1,7) by simp
    ultimately show ?thesis using bF u(2,4,5,8) M(2) by (intro disjI2 exI [of _ ?s] exI [of _ F'] conjI) simp_all
  next
    case False
    have "(buddy x k, k) \<notin> frees F"
    proof
      assume b: "(buddy x k, k) \<in> frees F"
      have "bpage x k \<in> {buddy x k, buddy x k + 2 ^ k - 1}"
      proof (cases "even (x div 2 ^ k)")
        case True
        then show ?thesis by (simp add: bpage_def buddy_def)
      next
        case False
        then obtain m where "x = 2 ^ Suc k * m + 2 ^ k" using parity_split(2) [OF xk(2)] by blast
        then show ?thesis using False by (simp add: bpage_def buddy_def)
      qed
      then have "\<exists>q. sn_pages s (bpage x k) = Some q \<and> pg_free q = True \<and> pg_span_size q = 2 ^ k"
        using K(9) [OF b] unfolding tagged_def by auto
      then show False using False p by simp
    qed
    moreover have "grow_span x (2 ^ k) k s = Some (False, x, 2 ^ k, s)" using e by (simp only: False if_False)
    ultimately show ?thesis by blast
  qed
qed

section \<open>Freeing a span\<close>

definition free_pages :: "(nat \<Rightarrow> nat list) \<Rightarrow> nat set" where
  "free_pages F = (\<Union>a \<in> frees F. ivl a)"

lemma free_pages_start: "i \<in> set (F k) \<Longrightarrow> k < 32 \<Longrightarrow> i \<in> free_pages F"
  unfolding free_pages_def frees_def using ivl_ends(1) [of i k] by blast

lemma order_bound:
  assumes "spans_ok A H F s" and "(x, k) \<in> A \<union> H \<union> frees F"
  shows "k < 31" "x + 2 ^ k < 2 ^ 31" "0 < x" "2 ^ k dvd x" "x + 2 ^ k \<le> sn_nr_pages s"
proof -
  show x: "0 < x" "2 ^ k dvd x" "x + 2 ^ k \<le> sn_nr_pages s" using geoD(1) [OF spans_okD(5) [OF assms(1)] assms(2)] by simp_all
  then show b: "x + 2 ^ k < 2 ^ 31" using spans_okD(2) [OF assms(1)] by linarith
  then have "(2::nat) ^ k < 2 ^ 31" by linarith
  then show "k < 31" by simp
qed

lemma grow_loop_ok:
  assumes "spans_ok A (insert (x, k) H) F s" and "(x, k) \<notin> H" and "\<forall>h \<in> H. \<forall>i \<in> ivl h. \<not> free_at (sn_pages s) i"
  shows "\<exists>x' k' s' F'. grow_loop x (2 ^ k) k s = Some (x', 2 ^ k', s') \<and> spans_ok A (insert (x', k') H) F' s' \<and> (x', k') \<notin> H \<and>
    k' < 32 \<and> (buddy x' k', k') \<notin> frees F' \<and> same_tags (sn_pages s) (sn_pages s') \<and> sn_nr_free s' + 2 ^ k' = sn_nr_free s + 2 ^ k \<and>
    sn_nr_pages s' = sn_nr_pages s \<and> links_only (free_pages F) (sn_pages s) (sn_pages s') \<and>
    free_pages F' \<union> ivl (x', k') = free_pages F \<union> ivl (x, k)"
  using assms
proof (induction "31 - k" arbitrary: x k s F)
  case 0
  then show ?case using order_bound(1) [OF 0(2), of x k] by simp
next
  case (Suc m)
  note ok = Suc.prems(1)
  have k: "k < 31" "2 ^ k dvd x" using order_bound [OF ok, of x k] by simp_all
  have quiet: "\<forall>h \<in> H. bpage x k \<in> ivl h \<longrightarrow> \<not> free_at (sn_pages s) (bpage x k)" using Suc.prems(3) by blast
  from grow_ok [OF ok Suc.prems(2) quiet] show ?case
  proof (elim disjE exE conjE)
    assume "grow_span x (2 ^ k) k s = Some (False, x, 2 ^ k, s)" "(buddy x k, k) \<notin> frees F"
    then show ?thesis using ok Suc.prems(2) k(1)
      by (intro exI [of _ x] exI [of _ k] exI [of _ s] exI [of _ F]) (simp add: grow_loop.simps [of x "2 ^ k"] same_tags_def links_only_refl)
  next
    fix s1 F1
    assume g: "grow_span x (2 ^ k) k s = Some (True, parent x k, 2 ^ Suc k, s1)" and b: "(buddy x k, k) \<in> frees F"
      and F1: "frees F1 = frees F - {(buddy x k, k)}" and ok1: "spans_ok A (insert (parent x k, Suc k) H) F1 s1"
      and new1: "(parent x k, Suc k) \<notin> H" and tags: "same_tags (sn_pages s) (sn_pages s1)"
      and links: "links_only (set (F k)) (sn_pages s) (sn_pages s1)" and nf: "sn_nr_free s1 + 2 ^ k = sn_nr_free s"
      and np: "sn_nr_pages s1 = sn_nr_pages s"
    have q1: "\<forall>h \<in> H. \<forall>i \<in> ivl h. \<not> free_at (sn_pages s1) i"
      using Suc.prems(3) same_tags_free_at [OF tags] by blast
    have "m = 31 - Suc k" using Suc.hyps(2) by simp
    from Suc.hyps(1) [OF this ok1 new1 q1] obtain x' k' s' F' where r: "grow_loop (parent x k) (2 ^ Suc k) (Suc k) s1 = Some (x', 2 ^ k', s')"
      "spans_ok A (insert (x', k') H) F' s'" "(x', k') \<notin> H" "k' < 32" "(buddy x' k', k') \<notin> frees F'"
      "same_tags (sn_pages s1) (sn_pages s')" "sn_nr_free s' + 2 ^ k' = sn_nr_free s1 + 2 ^ Suc k" "sn_nr_pages s' = sn_nr_pages s1"
      "links_only (free_pages F1) (sn_pages s1) (sn_pages s')" "free_pages F' \<union> ivl (x', k') = free_pages F1 \<union> ivl (parent x k, Suc k)"
      by (elim exE conjE)
    have run: "grow_loop x (2 ^ k) k s = Some (x', 2 ^ k', s')"
      using r(1) by (subst grow_loop.simps) (simp add: g)
    have cov: "free_pages F1 \<union> ivl (parent x k, Suc k) = free_pages F \<union> ivl (x, k)"
    proof -
      have "frees F = insert (buddy x k, k) (frees F1)" using F1 b by blast
      then have "free_pages F = ivl (buddy x k, k) \<union> free_pages F1" by (simp add: free_pages_def)
      then show ?thesis using parent_ivl(1) [OF k(2)] by blast
    qed
    have "free_pages F1 \<subseteq> free_pages F" using F1 by (auto simp: free_pages_def)
    have "set (F k) \<subseteq> free_pages F" using free_pages_start k(1) by auto
    have lk: "links_only (free_pages F) (sn_pages s) (sn_pages s')"
      unfolding links_only_def
    proof (intro allI conjI impI)
      fix i
      show "sn_pages s' i = sn_pages s i" if "i \<notin> free_pages F"
      proof -
        have "i \<notin> free_pages F1" "i \<notin> set (F k)"
          using that \<open>free_pages F1 \<subseteq> free_pages F\<close> \<open>set (F k) \<subseteq> free_pages F\<close> by blast+
        then show ?thesis using links_onlyD(1) [OF links, of i] links_onlyD(1) [OF r(9), of i] by simp
      qed
      have "rel_option same_but_links (sn_pages s1 i) (sn_pages s i)" "rel_option same_but_links (sn_pages s' i) (sn_pages s1 i)"
        using links r(9) unfolding links_only_def by blast+
      then show "rel_option same_but_links (sn_pages s' i) (sn_pages s i)"
        by (cases "sn_pages s i"; cases "sn_pages s1 i"; cases "sn_pages s' i") (simp_all add: same_but_links_def)
    qed
    have "same_tags (sn_pages s) (sn_pages s')" using tags r(6) by (simp add: same_tags_def)
    moreover have "sn_nr_free s' + 2 ^ k' = sn_nr_free s + 2 ^ k" using r(7) nf by simp
    ultimately show ?thesis using run r(2-5,8,10) np lk cov
      by (intro exI [of _ x'] exI [of _ k'] exI [of _ s'] exI [of _ F']) simp
  qed
qed

lemma free_span_ok:
  assumes ok: "spans_ok A (insert (x, k) H) F s" and new: "(x, k) \<notin> H"
    and quiet: "\<forall>h \<in> H. \<forall>i \<in> ivl h. \<not> free_at (sn_pages s) i"
  shows "\<exists>s' F'. free_span x (2 ^ k) s = Some s' \<and> spans_ok A H F' s' \<and> sn_nr_free s' = sn_nr_free s + 2 ^ k \<and>
    sn_nr_pages s' = sn_nr_pages s \<and> free_pages F' = free_pages F \<union> ivl (x, k) \<and>
    (\<forall>i. i \<notin> free_pages F \<union> ivl (x, k) \<longrightarrow> sn_pages s' i = sn_pages s i)"
proof -
  have k: "k < 31" using order_bound(1) [OF ok, of x k] by simp
  from grow_loop_ok [OF ok new quiet] obtain x' k' s1 F1 where r: "grow_loop x (2 ^ k) k s = Some (x', 2 ^ k', s1)"
    "spans_ok A (insert (x', k') H) F1 s1" "(x', k') \<notin> H" "k' < 32" "(buddy x' k', k') \<notin> frees F1"
    "same_tags (sn_pages s) (sn_pages s1)" "sn_nr_free s1 + 2 ^ k' = sn_nr_free s + 2 ^ k" "sn_nr_pages s1 = sn_nr_pages s"
    "links_only (free_pages F) (sn_pages s) (sn_pages s1)" "free_pages F1 \<union> ivl (x', k') = free_pages F \<union> ivl (x, k)" by (elim exE conjE)
  from no_merge_ok [OF r(2-5)] obtain s' where s': "free_span_no_merge x' (2 ^ k') s1 = Some s'" "spans_ok A H (F1(k' := x' # F1 k')) s'"
    "sn_nr_pages s' = sn_nr_pages s1" "sn_nr_free s' = sn_nr_free s1 + 2 ^ k'"
    "\<forall>i. i \<notin> {x', x' + 2 ^ k' - 1} \<union> set (F1 k') \<longrightarrow> sn_pages s' i = sn_pages s1 i" by (elim exE conjE)
  have "free_span x (2 ^ k) s = Some s'" using k r(1) s'(1) by (simp add: free_span_def index_of_pow)
  moreover have fp: "free_pages (F1(k' := x' # F1 k')) = free_pages F \<union> ivl (x, k)"
  proof -
    have "frees (F1(k' := x' # F1 k')) = insert (x', k') (frees F1)" using r(4) by (auto simp: frees_def)
    then show ?thesis using r(10) by (simp add: free_pages_def Un_commute)
  qed
  moreover have "sn_pages s' i = sn_pages s i" if "i \<notin> free_pages F \<union> ivl (x, k)" for i
  proof -
    have i: "i \<notin> free_pages F1 \<union> ivl (x', k')" using that r(10) by blast
    then have "i \<notin> set (F1 k')" using free_pages_start [OF _ r(4)] by blast
    moreover have "i \<notin> {x', x' + 2 ^ k' - 1}" using i ivl_ends [of x' k'] by blast
    ultimately have "sn_pages s' i = sn_pages s1 i" using s'(5) by blast
    also have "\<dots> = sn_pages s i" using links_onlyD(1) [OF r(9), of i] that by blast
    finally show ?thesis .
  qed
  ultimately show ?thesis using s' r(7,8) by (intro exI [of _ s'] exI [of _ "F1(k' := x' # F1 k')"]) simp
qed

text \<open>Freeing what is allocated.\<close>

lemma spans_ok_release:
  assumes ok: "spans_ok A H F s" and a: "a \<in> A"
  shows "spans_ok (A - {a}) (insert a H) F s"
proof -
  note K = spans_okD [OF ok]
  have all: "A - {a} \<union> insert a H \<union> frees F = A \<union> H \<union> frees F" using a by blast
  show ?thesis unfolding spans_ok_def all
    using K(6-8) a by (intro conjI allI ballI impI) (rule K | blast)+
qed

lemma free_large_ok:
  assumes ok: "spans_ok A {} F s" and a: "(x, k) \<in> A"
  shows "\<exists>s' F'. free_span x (2 ^ k) s = Some s' \<and> spans_ok (A - {(x, k)}) {} F' s' \<and> sn_nr_free s' = sn_nr_free s + 2 ^ k \<and>
    sn_nr_pages s' = sn_nr_pages s \<and> free_pages F' = free_pages F \<union> ivl (x, k) \<and>
    (\<forall>i. i \<notin> free_pages F \<union> ivl (x, k) \<longrightarrow> sn_pages s' i = sn_pages s i)"
  by (rule free_span_ok [OF spans_ok_release [OF ok a]]) simp_all

end
