(* ===== verification/BuddyAlloc.thy ===== *)
theory BuddyAlloc
  imports PageAlloc
begin

text \<open>
  The page allocator of a core at work (\<open>core/memory.cc\<close>): unaligned ranges are cut into aligned spans, requests take the
  first span of the smallest list that is not empty and cut it down, allocated spans shrink.  Runs of such requests from
  the first memory of a core keep the invariant of \<open>PageAlloc\<close> and do to the set of allocated spans what
  \<open>pa_spec\<close> says.
\<close>

section \<open>Freeing an unaligned range\<close>

definition ladder :: "nat \<Rightarrow> nat \<Rightarrow> nat \<Rightarrow> span set" where
  "ladder x j k = (\<lambda>i. (x + 2 ^ i, i)) ` {j..<k}"

lemma ladder_step: "j < k \<Longrightarrow> ladder x j k = insert (x + 2 ^ j, j) (ladder x (Suc j) k)"
proof -
  assume "j < k"
  then have "{j..<k} = insert j {Suc j..<k}" by auto
  then show ?thesis by (simp add: ladder_def)
qed

lemma low_zeros_mult: "odd q \<Longrightarrow> low_zeros (2 ^ j * q) = j"
proof (induction j)
  case 0
  then show ?case by (simp add: low_zeros.simps)
next
  case (Suc j)
  have "q \<noteq> 0" using Suc.prems by (cases "q = 0") simp_all
  then have "low_zeros (2 ^ Suc j * q) = Suc (low_zeros (2 ^ Suc j * q div 2))" by (subst low_zeros.simps) simp_all
  also have "2 ^ Suc j * q div 2 = 2 ^ j * q" by simp
  finally show ?case using Suc by simp
qed

lemma ctz_u32:
  assumes "0 < n" and "n < 2 ^ 32"
  shows "count_trailing_zeros (of_nat n :: u32) = Some (low_zeros n)"
proof -
  have u: "unat (of_nat n :: u32) = n" by (rule unat_of_nat_u32 [OF assms(2)])
  then have "(of_nat n :: u32) \<noteq> 0" using assms(1) by (metis unat_0 less_irrefl)
  then show ?thesis using u by (simp add: count_trailing_zeros_def)
qed

lemma no_merge_free_span:
  assumes ok: "spans_ok A (insert (x, k) H) F s" and new: "(x, k) \<notin> H" and b: "(buddy x k, k) \<notin> frees F"
    and quiet: "\<forall>h \<in> H. bpage x k \<in> ivl h \<longrightarrow> \<not> free_at (sn_pages s) (bpage x k)"
  shows "\<exists>s'. free_span x (2 ^ k) s = Some s' \<and> spans_ok A H (F(k := x # F k)) s' \<and> sn_nr_pages s' = sn_nr_pages s \<and>
    sn_nr_free s' = sn_nr_free s + 2 ^ k \<and> (\<forall>i. i \<notin> ivl (x, k) \<union> free_pages F \<longrightarrow> sn_pages s' i = sn_pages s i)"
proof -
  have k: "k < 31" using order_bound(1) [OF ok, of x k] by simp
  then have k': "k < 32" by simp
  have "grow_span x (2 ^ k) k s = Some (False, x, 2 ^ k, s)" using grow_ok [OF ok new quiet] b by blast
  then have "grow_loop x (2 ^ k) k s = Some (x, 2 ^ k, s)" by (subst grow_loop.simps) simp
  then have e: "free_span x (2 ^ k) s = free_span_no_merge x (2 ^ k) s" using k by (simp add: free_span_def index_of_pow)
  from no_merge_ok [OF ok new k' b] obtain s' where s': "free_span_no_merge x (2 ^ k) s = Some s'" "spans_ok A H (F(k := x # F k)) s'"
    "sn_nr_pages s' = sn_nr_pages s" "sn_nr_free s' = sn_nr_free s + 2 ^ k"
    "\<forall>i. i \<notin> {x, x + 2 ^ k - 1} \<union> set (F k) \<longrightarrow> sn_pages s' i = sn_pages s i" by (elim exE conjE)
  have "sn_pages s' i = sn_pages s i" if "i \<notin> ivl (x, k) \<union> free_pages F" for i
  proof -
    have "i \<notin> set (F k)" using that free_pages_start [OF _ k'] by blast
    moreover have "i \<notin> {x, x + 2 ^ k - 1}" using that ivl_ends [of x k] by blast
    ultimately show ?thesis using s'(5) by blast
  qed
  then show ?thesis using e s' by auto
qed

lemma unaligned_ok:
  assumes "spans_ok A (ladder x j k) F s" and "2 ^ k dvd x" and "j \<le> k" and "x + 2 ^ k < 2 ^ 31"
    and "\<forall>i. (x, i) \<notin> frees F"
  shows "\<exists>s' F'. free_span_unaligned (x + 2 ^ j) (2 ^ k - 2 ^ j) s = Some s' \<and> spans_ok A {} F' s' \<and>
    frees F' = frees F \<union> ladder x j k \<and> sn_nr_pages s' = sn_nr_pages s \<and> sn_nr_free s' + 2 ^ j = sn_nr_free s + 2 ^ k \<and>
    (\<forall>i. i \<notin> free_pages F \<union> {x + 2 ^ j..<x + 2 ^ k} \<longrightarrow> sn_pages s' i = sn_pages s i)"
  using assms
proof (induction "k - j" arbitrary: j s F)
  case 0
  then have "j = k" by simp
  then show ?case using 0(2) by (intro exI [of _ s] exI [of _ F]) (simp add: free_span_unaligned.simps [of _ 0] ladder_def)
next
  case (Suc m)
  then have jk: "j < k" by simp
  have L: "ladder x j k = insert (x + 2 ^ j, j) (ladder x (Suc j) k)" by (rule ladder_step [OF jk])
  have new: "(x + 2 ^ j, j) \<notin> ladder x (Suc j) k" by (auto simp: ladder_def)
  obtain c where c: "x = 2 ^ k * c" using Suc.prems(2) by blast
  have pw: "(2::nat) ^ k = 2 ^ j * 2 ^ (k - j)" using jk by (simp flip: power_add)
  have "even ((2::nat) ^ (k - j))" using jk by simp
  then have odds: "odd (2 ^ (k - j) * c + 1)" "odd ((2::nat) ^ (k - j) - 1)" using jk by simp_all
  have xj: "x + 2 ^ j = 2 ^ j * (2 ^ (k - j) * c + 1)" using c pw by (simp add: algebra_simps)
  have nj: "2 ^ k - 2 ^ j = 2 ^ j * ((2::nat) ^ (k - j) - 1)" using pw by (simp add: algebra_simps)
  have lz: "low_zeros (x + 2 ^ j) = j" "low_zeros (2 ^ k - 2 ^ j) = j" unfolding xj nj by (rule low_zeros_mult, rule odds)+
  have jlt: "(2::nat) ^ j < 2 ^ k" using jk by simp
  have dj: "2 ^ j dvd x + 2 ^ j" using xj by simp
  have dv: "(x + 2 ^ j) div 2 ^ j = 2 ^ (k - j) * c + 1" using xj by simp
  have bud: "buddy (x + 2 ^ j) j = x" "bpage (x + 2 ^ j) j = x + 2 ^ j - 1" unfolding buddy_def bpage_def dv using odds(1) by simp_all
  have b: "(buddy (x + 2 ^ j) j, j) \<notin> frees F" using Suc.prems(5) bud(1) by simp
  have quiet: "\<forall>h \<in> ladder x (Suc j) k. bpage (x + 2 ^ j) j \<in> ivl h \<longrightarrow> \<not> free_at (sn_pages s) (bpage (x + 2 ^ j) j)"
  proof (intro ballI impI)
    fix h assume h: "h \<in> ladder x (Suc j) k" "bpage (x + 2 ^ j) j \<in> ivl h"
    then obtain i where i: "h = (x + 2 ^ i, i)" "Suc j \<le> i" by (auto simp: ladder_def)
    then have "(2::nat) ^ j < 2 ^ i" by simp
    moreover have "x + 2 ^ i \<le> x + 2 ^ j - 1" using h(2) bud(2) i(1) by simp
    ultimately have False by linarith
    then show "\<not> free_at (sn_pages s) (bpage (x + 2 ^ j) j)" ..
  qed
  from no_merge_free_span [OF Suc.prems(1) [unfolded L] new b quiet] obtain s1 where s1: "free_span (x + 2 ^ j) (2 ^ j) s = Some s1"
    "spans_ok A (ladder x (Suc j) k) (F(j := (x + 2 ^ j) # F j)) s1" "sn_nr_pages s1 = sn_nr_pages s"
    "sn_nr_free s1 = sn_nr_free s + 2 ^ j" "\<forall>i. i \<notin> ivl (x + 2 ^ j, j) \<union> free_pages F \<longrightarrow> sn_pages s1 i = sn_pages s i" by (elim exE conjE)
  let ?F = "F(j := (x + 2 ^ j) # F j)"
  have "k < 31" using Suc.prems(4) by (metis add_lessD1 add.commute pow31(1) one_less_numeral_iff power_strict_increasing_iff semiring_norm(76))
  then have frF: "frees ?F = insert (x + 2 ^ j, j) (frees F)" using jk by (auto simp: frees_def)
  have fpF: "free_pages ?F = ivl (x + 2 ^ j, j) \<union> free_pages F" unfolding free_pages_def frF by simp
  have nx: "\<forall>i. (x, i) \<notin> frees ?F" using Suc.prems(5) frF by simp
  have m: "m = k - Suc j" "Suc j \<le> k" using Suc.hyps(2) jk by simp_all
  from Suc.hyps(1) [OF m(1) s1(2) Suc.prems(2) m(2) Suc.prems(4) nx] obtain s' F' where r: "free_span_unaligned (x + 2 ^ Suc j) (2 ^ k - 2 ^ Suc j) s1 = Some s'" "spans_ok A {} F' s'"
    "frees F' = frees ?F \<union> ladder x (Suc j) k" "sn_nr_pages s' = sn_nr_pages s1" "sn_nr_free s' + 2 ^ Suc j = sn_nr_free s1 + 2 ^ k"
    "\<forall>i. i \<notin> free_pages ?F \<union> {x + 2 ^ Suc j..<x + 2 ^ k} \<longrightarrow> sn_pages s' i = sn_pages s1 i"
    by (elim exE conjE)
  have b32: "(2::nat) ^ 31 < 2 ^ 32" by simp
  have bounds: "0 < x + 2 ^ j" "x + 2 ^ j < 2 ^ 32" "0 < (2::nat) ^ k - 2 ^ j" "(2::nat) ^ k - 2 ^ j < 2 ^ 32"
  proof -
    show "0 < x + 2 ^ j" by simp
    show "x + 2 ^ j < 2 ^ 32" using b32 jlt Suc.prems(4) by linarith
    show "0 < (2::nat) ^ k - 2 ^ j" using jlt by simp
    show "(2::nat) ^ k - 2 ^ j < 2 ^ 32" using b32 jlt Suc.prems(4) by linarith
  qed
  have ctz: "count_trailing_zeros (of_nat (x + 2 ^ j) :: u32) = Some j" "count_trailing_zeros (of_nat (2 ^ k - 2 ^ j) :: u32) = Some j"
    using ctz_u32 [OF bounds(1,2)] ctz_u32 [OF bounds(3,4)] unfolding lz by blast+
  have rest: "x + 2 ^ j + 2 ^ j = x + 2 ^ Suc j" "2 ^ k - 2 ^ j - 2 ^ j = (2::nat) ^ k - 2 ^ Suc j" by simp_all
  have ne: "2 ^ k - 2 ^ j \<noteq> (0::nat)" using jlt by simp
  have run: "free_span_unaligned (x + 2 ^ j) (2 ^ k - 2 ^ j) s = Some s'"
    by (subst free_span_unaligned.simps) (simp only: ne if_False ctz option.case bind.bind_lunit Let_def min.idem s1(1) rest r(1))
  have fr: "sn_pages s' i = sn_pages s i" if "i \<notin> free_pages F \<union> {x + 2 ^ j..<x + 2 ^ k}" for i
  proof -
    have sj: "(2::nat) ^ Suc j \<le> 2 ^ k" using jk by (intro power_increasing) simp_all
    then have "i \<notin> ivl (x + 2 ^ j, j)" "i \<notin> {x + 2 ^ Suc j..<x + 2 ^ k}" using that by auto
    then have "i \<notin> free_pages ?F \<union> {x + 2 ^ Suc j..<x + 2 ^ k}" "i \<notin> ivl (x + 2 ^ j, j) \<union> free_pages F" using that fpF by blast+
    then show ?thesis using r(6) s1(5) by simp
  qed
  have "frees F' = frees F \<union> ladder x j k" unfolding r(3) frF L by blast
  then show ?case using run r(2,4,5) s1(3,4) fr by (intro exI [of _ s'] exI [of _ F']) simp
qed

section \<open>Allocating\<close>

lemma split_span_ok:
  assumes "spans_ok A (insert (x, k) H) F s" and "(x, k) \<notin> H" and "0 < n"
  shows "\<exists>j s' F'. split_span x (2 ^ k) n s = Some (2 ^ j, s') \<and> spans_ok A (insert (x, j) H) F' s' \<and> (x, j) \<notin> H \<and> j \<le> k \<and>
    (n \<le> 2 ^ k \<longrightarrow> n \<le> 2 ^ j) \<and> 2 ^ j < 2 * n \<and> sn_nr_pages s' = sn_nr_pages s \<and> sn_nr_free s' + 2 ^ j = sn_nr_free s + 2 ^ k \<and>
    free_pages F' \<union> ivl (x, j) = free_pages F \<union> ivl (x, k) \<and>
    (\<forall>i. i \<notin> free_pages F \<union> ivl (x, k) \<longrightarrow> sn_pages s' i = sn_pages s i)"
  using assms
proof (induction k arbitrary: s F)
  case 0
  then have "\<not> n * 2 \<le> 2 ^ 0" by simp
  then show ?case using 0 by (intro exI [of _ 0] exI [of _ s] exI [of _ F]) (simp add: split_span.simps [of x "Suc 0"])
next
  case (Suc k)
  note ok = Suc.prems(1) note K = spans_okD [OF ok]
  show ?case
  proof (cases "n * 2 \<le> 2 ^ Suc k")
    case False
    then show ?thesis using Suc.prems by (intro exI [of _ "Suc k"] exI [of _ s] exI [of _ F]) (simp add: split_span.simps [of x "2 ^ Suc k"] del: power_Suc)
  next
    case True
    have g: "geo (sn_nr_pages s) (insert (x, Suc k) (A \<union> H \<union> frees F))" using K(5) by simp
    have nS: "(x, Suc k) \<notin> A \<union> H \<union> frees F" using K(6,8) Suc.prems(2) by blast
    note G = geo_split [OF g nS]
    have k: "k < 32" using order_bound(1) [OF ok, of x "Suc k"] by simp
    have ok2: "spans_ok A (insert (x + 2 ^ k, k) (insert (x, k) H)) F s"
    proof (rule holes_swap [OF ok])
      show "geo (sn_nr_pages s) (A \<union> insert (x + 2 ^ k, k) (insert (x, k) H) \<union> frees F)"
        by (rule geo_subset [OF G(1)]) blast
      show "A \<inter> insert (x + 2 ^ k, k) (insert (x, k) H) = {}" "insert (x + 2 ^ k, k) (insert (x, k) H) \<inter> frees F = {}"
        using K(6,8) G(2,3) by blast+
      fix a i assume "a \<in> insert (x, Suc k) H" "i \<in> ivl a"
      then show "\<exists>b \<in> insert (x + 2 ^ k, k) (insert (x, k) H). i \<in> ivl b" using G(6) by blast
    qed
    have new2: "(x + 2 ^ k, k) \<notin> insert (x, k) H" using G(3,4) by simp
    have b: "(buddy (x + 2 ^ k) k, k) \<notin> frees F" using G(2,5) by simp
    from no_merge_ok [OF ok2 new2 k b] obtain s1 where s1: "free_span_no_merge (x + 2 ^ k) (2 ^ k) s = Some s1"
      "spans_ok A (insert (x, k) H) (F(k := (x + 2 ^ k) # F k)) s1" "sn_nr_pages s1 = sn_nr_pages s" "sn_nr_free s1 = sn_nr_free s + 2 ^ k"
      "\<forall>i. i \<notin> {x + 2 ^ k, x + 2 ^ k + 2 ^ k - 1} \<union> set (F k) \<longrightarrow> sn_pages s1 i = sn_pages s i" by (elim exE conjE)
    let ?F = "F(k := (x + 2 ^ k) # F k)"
    have fp: "free_pages ?F = ivl (x + 2 ^ k, k) \<union> free_pages F" using k by (auto simp: free_pages_def frees_def)
    have "(x, k) \<notin> H" using G(2) by blast
    from Suc.IH [OF s1(2) this Suc.prems(3)] obtain j s' F' where r: "split_span x (2 ^ k) n s1 = Some (2 ^ j, s')"
      "spans_ok A (insert (x, j) H) F' s'" "(x, j) \<notin> H" "j \<le> k" "n \<le> 2 ^ k \<longrightarrow> n \<le> 2 ^ j" "2 ^ j < 2 * n" "sn_nr_pages s' = sn_nr_pages s1"
      "sn_nr_free s' + 2 ^ j = sn_nr_free s1 + 2 ^ k" "free_pages F' \<union> ivl (x, j) = free_pages ?F \<union> ivl (x, k)"
      "\<forall>i. i \<notin> free_pages ?F \<union> ivl (x, k) \<longrightarrow> sn_pages s' i = sn_pages s1 i" by (elim exE conjE)
    have run: "split_span x (2 ^ Suc k) n s = Some (2 ^ j, s')"
      using True s1(1) r(1) by (subst split_span.simps) (simp add: Let_def)
    have fr: "sn_pages s' i = sn_pages s i" if "i \<notin> free_pages F \<union> ivl (x, Suc k)" for i
    proof -
      have a: "i \<notin> free_pages ?F \<union> ivl (x, k)" using that fp G(6) by blast
      have "i \<notin> set (F k)" using that free_pages_start [OF _ k] by blast
      moreover have "i \<notin> {x + 2 ^ k, x + 2 ^ k + 2 ^ k - 1}" using that G(6) ivl_ends [of "x + 2 ^ k" k] by blast
      ultimately show ?thesis using a r(10) s1(5) by simp
    qed
    have cov: "free_pages F' \<union> ivl (x, j) = free_pages F \<union> ivl (x, Suc k)" using r(9) fp G(6) by blast
    have "n \<le> 2 ^ j" using True r(5) by simp
    then show ?thesis using run r(2-4,6-8) s1(3,4) fr cov
      by (intro exI [of _ j] exI [of _ s'] exI [of _ F']) simp
  qed
qed

lemma alloc_tag_ok:
  assumes ok: "spans_ok A (insert (x, k) H) F s" and new: "(x, k) \<notin> H"
    and f: "\<And>p. pg_free (f p) = False \<and> pg_span_size (f p) = 2 ^ k \<and> pg_prev (f p) = pg_prev p \<and> pg_next (f p) = pg_next p"
    and s': "sn_lists s' = sn_lists s" "sn_nr_free s' = sn_nr_free s" "sn_nr_pages s' = sn_nr_pages s"
    and pg: "\<And>i. rel_option (\<lambda>p q. if i \<in> {x, x + 2 ^ k - 1} then \<not> pg_free q \<and> pg_span_size q = 2 ^ k \<and> pg_prev q = pg_prev p \<and> pg_next q = pg_next p else q = p)
        (sn_pages s i) (sn_pages s' i)"
  shows "spans_ok (insert (x, k) A) H F s'"
proof -
  note K = spans_okD [OF ok]
  let ?E = "{x, x + 2 ^ k - 1}"
  have xS: "(x, k) \<in> A \<union> insert (x, k) H \<union> frees F" by simp
  have xk: "0 < x" "2 ^ k dvd x" "x + 2 ^ k \<le> sn_nr_pages s" using geoD(1) [OF K(5) xS] by simp_all
  have le: "x \<le> sn_nr_pages s" "x + 2 ^ k - 1 \<le> sn_nr_pages s" using xk(3) by linarith+
  have all: "insert (x, k) A \<union> H \<union> frees F = A \<union> insert (x, k) H \<union> frees F" by blast
  have other: "i \<notin> ivl a" if "i \<in> ?E" "a \<in> A \<union> H \<union> frees F" for i a
  proof
    assume "i \<in> ivl a"
    moreover have "i \<in> ivl (x, k)" using that(1) ivl_ends [of x k] by blast
    moreover have "a \<in> A \<union> insert (x, k) H \<union> frees F" using that(2) by blast
    ultimately have "a = (x, k)" using geoD(2) [OF K(5) _ xS] by blast
    then show False using that(2) new K(6,8) by blast
  qed
  have none: "sn_pages s' i = None \<longleftrightarrow> sn_pages s i = None" for i using pg [of i] by (cases "sn_pages s i"; cases "sn_pages s' i") simp_all
  have same: "sn_pages s' i = sn_pages s i" if "i \<notin> ?E" for i
    using pg [of i] that by (cases "sn_pages s i"; cases "sn_pages s' i") simp_all
  have links: "same_links (sn_pages s' i) (sn_pages s i)" for i
    using pg [of i] by (cases "sn_pages s i"; cases "sn_pages s' i"; cases "i \<in> ?E") (simp_all add: same_links_def)
  have tg: "tagged (sn_pages s') c a" if "tagged (sn_pages s) c a" "a \<in> A \<union> H \<union> frees F" for c a
  proof (rule tagged_cong [OF that(1)])
    fix i assume "i \<in> {fst a, fst a + 2 ^ snd a - 1}"
    then have "i \<in> ivl a" using ivl_ends [of "fst a" "snd a"] by auto
    then have "i \<notin> ?E" using other [of i a] that(2) by blast
    then show "map_option (\<lambda>p. (pg_free p, pg_span_size p)) (sn_pages s' i) = map_option (\<lambda>p. (pg_free p, pg_span_size p)) (sn_pages s i)"
      using same by simp
  qed
  have tx: "tagged (sn_pages s') False (x, k)"
    unfolding tagged_def
  proof
    fix i assume "i \<in> {fst (x, k), fst (x, k) + 2 ^ snd (x, k) - 1}"
    then have i: "i \<in> ?E" by simp
    then have "i \<le> sn_nr_pages s" using le by auto
    then obtain p where p: "sn_pages s i = Some p" using K(1) by blast
    then obtain q where "sn_pages s' i = Some q" using none [of i] by (cases "sn_pages s' i") simp_all
    then show "\<exists>p. sn_pages s' i = Some p \<and> pg_free p = False \<and> pg_span_size p = 2 ^ snd (x, k)" using pg [of i] i p by simp
  qed
  show ?thesis
    unfolding spans_ok_def all
  proof (intro conjI allI ballI impI)
    fix j show "(sn_pages s' j \<noteq> None) = (j \<le> sn_nr_pages s')" using K(1) [of j] none [of j] s'(3) by simp
  next
    fix j assume j: "j < (32::nat)"
    show "dll (sn_pages s') (sn_lists s' ! j) (F j)" using dll_cong [OF K(4) [OF j]] links s'(1) by simp
  next
    fix a assume "a \<in> frees F"
    then show "tagged (sn_pages s') True a" using tg K(9) by simp
  next
    fix a assume "a \<in> insert (x, k) A"
    then consider "a = (x, k)" | "a \<in> A" by blast
    then show "tagged (sn_pages s') False a" using tx tg K(10) by cases simp_all
  next
    fix i assume f: "free_at (sn_pages s') i"
    have "i \<notin> ?E"
    proof
      assume "i \<in> ?E"
      then show False using f pg [of i] by (cases "sn_pages s i") (auto simp: free_at_def)
    qed
    then have "free_at (sn_pages s) i" using f same by (simp add: free_at_def)
    then show "\<exists>a \<in> A \<union> insert (x, k) H \<union> frees F. i \<in> ivl a" by (rule K(11))
  next
    fix y j assume "(y, j) \<in> frees F"
    then show "(buddy y j, j) \<notin> frees F" by (rule K(13))
  next
    show "insert (x, k) A \<inter> H = {}" using K(6) new by blast
    have "(x, k) \<notin> frees F" using K(8) by blast
    then show "insert (x, k) A \<inter> frees F = {}" using K(7) by simp
    show "H \<inter> frees F = {}" using K(8) by blast
  qed (use K(2,3,5,12) s' in simp_all)
qed

lemma carve_ok:
  assumes ok: "spans_ok A (insert (x, k) H) F (s\<lparr>sn_nr_free := sn_nr_free s - 2 ^ k\<rparr>)" and new: "(x, k) \<notin> H"
    and nf: "2 ^ k \<le> sn_nr_free s" and sz: "\<exists>p. sn_pages s x = Some p \<and> pg_span_size p = 2 ^ k" and n: "0 < n" "n \<le> 2 ^ k"
  shows "\<exists>j s' F'. carve_span x n s = Some s' \<and> spans_ok (insert (x, j) A) H F' s' \<and> n \<le> 2 ^ j \<and> 2 ^ j < 2 * n \<and> j \<le> k \<and>
    sn_nr_free s' + 2 ^ j = sn_nr_free s \<and> sn_nr_pages s' = sn_nr_pages s \<and> (x, j) \<notin> A \<and>
    free_pages F' \<union> ivl (x, j) = free_pages F \<union> ivl (x, k) \<and>
    (\<exists>p. sn_pages s' x = Some p \<and> pg_pool p = None \<and> pg_span_size p = 2 ^ j) \<and>
    (\<forall>i. i \<notin> free_pages F \<union> ivl (x, k) \<longrightarrow> sn_pages s' i = sn_pages s i)"
proof -
  obtain p where p: "sn_pages s x = Some p" "pg_span_size p = 2 ^ k" using sz by blast
  from split_span_ok [OF ok new n(1)] obtain j s1 F1 where r: "split_span x (2 ^ k) n (s\<lparr>sn_nr_free := sn_nr_free s - 2 ^ k\<rparr>) = Some (2 ^ j, s1)"
    "spans_ok A (insert (x, j) H) F1 s1" "(x, j) \<notin> H" "j \<le> k" "n \<le> 2 ^ k \<longrightarrow> n \<le> 2 ^ j" "2 ^ j < 2 * n"
    "sn_nr_pages s1 = sn_nr_pages (s\<lparr>sn_nr_free := sn_nr_free s - 2 ^ k\<rparr>)"
    "sn_nr_free s1 + 2 ^ j = sn_nr_free (s\<lparr>sn_nr_free := sn_nr_free s - 2 ^ k\<rparr>) + 2 ^ k"
    "free_pages F1 \<union> ivl (x, j) = free_pages F \<union> ivl (x, k)"
    "\<forall>i. i \<notin> free_pages F \<union> ivl (x, k) \<longrightarrow> sn_pages s1 i = sn_pages (s\<lparr>sn_nr_free := sn_nr_free s - 2 ^ k\<rparr>) i" by (elim exE conjE)
  note K = spans_okD [OF r(2)]
  have xk: "0 < x" "x + 2 ^ j \<le> sn_nr_pages s1" using order_bound(3,5) [OF r(2), of x j] by simp_all
  then have le: "x \<le> sn_nr_pages s1" "x + 2 ^ j - 1 \<le> sn_nr_pages s1" by linarith+
  have pg: "sn_pages s1 x \<noteq> None" "sn_pages s1 (x + 2 ^ j - 1) \<noteq> None" using K(1) le by blast+
  let ?f = "\<lambda>p. p\<lparr>pg_free := False, pg_span_size := 2 ^ j\<rparr>"
  obtain s2 where s2: "set_ends x (2 ^ j) ?f s1 = Some s2" "sn_lists s2 = sn_lists s1" "sn_nr_free s2 = sn_nr_free s1" "sn_nr_pages s2 = sn_nr_pages s1"
    "\<forall>i. sn_pages s2 i = (if i \<in> {x, x + 2 ^ j - 1} then map_option ?f (sn_pages s1 i) else sn_pages s1 i)"
    using set_ends_ok [OF pg, of ?f] by auto
  obtain q where q: "sn_pages s1 x = Some q" using pg(1) by blast
  then have q2: "sn_pages s2 x = Some (?f q)" using s2(5) by simp
  let ?s = "s2\<lparr>sn_pages := (sn_pages s2)(x \<mapsto> (?f q)\<lparr>pg_pool := None\<rparr>)\<rparr>"
  have run: "carve_span x n s = Some ?s"
    using p r(1) s2(1) q2 by (simp add: carve_span_def upd_page_def)
  have "spans_ok (insert (x, j) A) H F1 ?s"
  proof (rule alloc_tag_ok [OF r(2,3), of ?f])
    fix i
    have "rel_option (\<lambda>p q. if i \<in> {x, x + 2 ^ j - 1} then \<not> pg_free q \<and> pg_span_size q = 2 ^ j \<and> pg_prev q = pg_prev p \<and> pg_next q = pg_next p else q = p)
        (sn_pages s1 i) (sn_pages s2 i)" using s2(5) by (cases "sn_pages s1 i") (simp_all add: option.rel_map)
    then show "rel_option (\<lambda>p q. if i \<in> {x, x + 2 ^ j - 1} then \<not> pg_free q \<and> pg_span_size q = 2 ^ j \<and> pg_prev q = pg_prev p \<and> pg_next q = pg_next p else q = p)
        (sn_pages s1 i) (sn_pages ?s i)" using q2 q by (cases "i = x") simp_all
  qed (use s2 in simp_all)
  moreover have "(x, j) \<notin> A" using K(6) by blast
  moreover have "n \<le> 2 ^ j" using r(5) n(2) by blast
  moreover have "sn_nr_free ?s + 2 ^ j = sn_nr_free s" using r(8) nf s2(3) by simp
  moreover have "sn_pages ?s i = sn_pages s i" if "i \<notin> free_pages F \<union> ivl (x, k)" for i
  proof -
    have "i \<notin> ivl (x, j)" using that r(9) by blast
    then have "i \<notin> {x, x + 2 ^ j - 1}" using ivl_ends [of x j] by blast
    then show ?thesis using s2(5) r(10) that by simp
  qed
  ultimately show ?thesis using run r(4,6,7,9) s2(4) by (intro exI [of _ j] exI [of _ ?s] exI [of _ F1]) simp
qed

text \<open>When no list holds a span large enough, no aligned block of that size is free: free spans are merged.\<close>

lemma free_block:
  assumes ok: "spans_ok A H F s" and y: "2 ^ m dvd y" and sub: "{y..<y + 2 ^ m} \<subseteq> free_pages F"
  shows "\<exists>x k. (x, k) \<in> frees F \<and> m \<le> k"
proof (rule ccontr)
  assume no: "\<nexists>x k. (x, k) \<in> frees F \<and> m \<le> k"
  note K = spans_okD [OF ok]
  let ?P = "\<lambda>k. \<exists>x. (x, k) \<in> frees F \<and> ivl (x, k) \<inter> {y..<y + 2 ^ m} \<noteq> {}"
  have "y \<in> {y..<y + 2 ^ m}" by simp
  then obtain a where "a \<in> frees F" "y \<in> ivl a" using sub unfolding free_pages_def by blast
  then have "?P (snd a)" using \<open>y \<in> {y..<y + 2 ^ m}\<close> by (intro exI [of _ "fst a"]) auto
  then obtain k where k: "?P k" and least: "\<And>j. j < k \<Longrightarrow> \<not> ?P j" using exists_least_iff [of ?P] by metis
  then obtain x i where x: "(x, k) \<in> frees F" "i \<in> ivl (x, k)" "i \<in> {y..<y + 2 ^ m}" by blast
  have km: "k < m" using no x(1) by (meson not_le)
  have xd: "2 ^ k dvd x" "0 < x" using order_bound [OF ok, of x k] x(1) by simp_all
  note P = parent_ivl [OF xd(1)]
  \<comment> \<open>the pair of buddies lies in the block\<close>
  have "2 ^ Suc k dvd y" using le_imp_power_dvd [of "Suc k" m "2::nat"] km y by (metis Suc_leI dvd_trans)
  then obtain c where c: "y = 2 ^ Suc k * c" by blast
  have "2 ^ Suc k dvd y + 2 ^ m" using \<open>2 ^ Suc k dvd y\<close> le_imp_power_dvd [of "Suc k" m "2::nat"] km by (simp add: Suc_leI)
  then obtain d where d: "y + 2 ^ m = 2 ^ Suc k * d" by blast
  obtain e where e: "parent x k = 2 ^ Suc k * e" using P(3) by blast
  have ip: "parent x k \<le> i" "i < parent x k + 2 ^ Suc k" using x(2) P(1) by (auto simp: ivl_def)
  have "2 ^ Suc k * c < 2 ^ Suc k * (e + 1)" using ip(2) x(3) c e by simp
  then have "c \<le> e" by (simp only: mult_less_cancel1) simp
  have "i < y + 2 ^ m" using x(3) by simp
  then have "2 ^ Suc k * e < 2 ^ Suc k * d" unfolding e [symmetric] d [symmetric] using ip(1) by linarith
  then have "e + 1 \<le> d" by (simp only: mult_less_cancel1) simp
  have lo: "y \<le> parent x k" unfolding c e by (intro mult_le_mono2) (rule \<open>c \<le> e\<close>)
  have "2 ^ Suc k * (e + 1) \<le> 2 ^ Suc k * d" by (intro mult_le_mono2) (rule \<open>e + 1 \<le> d\<close>)
  then have hi: "parent x k + 2 ^ Suc k \<le> y + 2 ^ m" unfolding d e by simp
  have inb: "ivl (buddy x k, k) \<subseteq> {y..<y + 2 ^ m}"
  proof
    fix j assume "j \<in> ivl (buddy x k, k)"
    then have "j \<in> ivl (parent x k, Suc k)" using P(1) by blast
    then show "j \<in> {y..<y + 2 ^ m}" using lo hi by simp
  qed
  have "buddy x k \<in> ivl (buddy x k, k)" by (rule ivl_ends)
  then obtain b where b: "b \<in> frees F" "buddy x k \<in> ivl b" using inb sub unfolding free_pages_def by blast
  obtain z l where zl: "b = (z, l)" by fastforce
  have kl: "k \<le> l"
  proof (rule ccontr)
    assume "\<not> k \<le> l"
    then have "\<not> ?P l" by (intro least) simp
    moreover have "buddy x k \<in> {y..<y + 2 ^ m}" using inb \<open>buddy x k \<in> ivl (buddy x k, k)\<close> by blast
    ultimately show False using b zl by blast
  qed
  have zd: "2 ^ l dvd z" using order_bound [OF ok, of z l] b(1) zl by simp
  have "l = k"
  proof (rule ccontr)
    assume "l \<noteq> k"
    then have "k < l" using kl by simp
    \<comment> \<open>a larger span that holds the buddy holds the page itself\<close>
    have "2 ^ Suc k dvd z" using le_imp_power_dvd [of "Suc k" l "2::nat"] \<open>k < l\<close> zd by (metis Suc_leI dvd_trans)
    then obtain c' where c': "z = 2 ^ Suc k * c'" by blast
    have "2 ^ Suc k dvd z + 2 ^ l" using \<open>2 ^ Suc k dvd z\<close> le_imp_power_dvd [of "Suc k" l "2::nat"] \<open>k < l\<close> by (simp add: Suc_leI)
    then obtain d' where d': "z + 2 ^ l = 2 ^ Suc k * d'" by blast
    have bp: "parent x k \<le> buddy x k" "buddy x k < parent x k + 2 ^ Suc k" using P(1) ivl_ends(1) [of "buddy x k" k] by (auto simp: ivl_def)
    have "2 ^ Suc k * c' < 2 ^ Suc k * (e + 1)" using bp(2) b(2) zl c' e by simp
    then have "c' \<le> e" by (simp only: mult_less_cancel1) simp
    have "buddy x k < z + 2 ^ l" using b(2) zl by simp
    then have "2 ^ Suc k * e < 2 ^ Suc k * d'" unfolding e [symmetric] d' [symmetric] using bp(1) by linarith
    then have "e + 1 \<le> d'" by (simp only: mult_less_cancel1) simp
    have "z \<le> parent x k" unfolding c' e by (intro mult_le_mono2) (rule \<open>c' \<le> e\<close>)
    moreover have "2 ^ Suc k * (e + 1) \<le> 2 ^ Suc k * d'" by (intro mult_le_mono2) (rule \<open>e + 1 \<le> d'\<close>)
    then have "parent x k + 2 ^ Suc k \<le> z + 2 ^ l" unfolding d' e by simp
    moreover have "x \<in> ivl (parent x k, Suc k)" using P(1) ivl_ends(1) [of x k] by blast
    then have "parent x k \<le> x" "x < parent x k + 2 ^ Suc k" by simp_all
    ultimately have "x \<in> ivl (z, l)" unfolding in_ivl by linarith
    then have "(z, l) = (x, k)" using geoD(2) [OF K(5), of "(z, l)" "(x, k)" x] b(1) x(1) zl ivl_ends(1) [of x k] by blast
    then show False using \<open>l \<noteq> k\<close> by simp
  qed
  then have "z = buddy x k" using dyadic_head [OF zd _ P(6), of ] b(2) zl by simp
  then have "(buddy x k, k) \<in> frees F" using b(1) zl \<open>l = k\<close> by simp
  then show False using K(13) [OF x(1)] by blast
qed

lemma first_list_spec:
  assumes "idx \<le> length ls"
  shows "idx \<le> first_list idx ls" "first_list idx ls \<le> length ls" "j < first_list idx ls \<Longrightarrow> idx \<le> j \<Longrightarrow> pl_empty (ls ! j)"
    "first_list idx ls < length ls \<Longrightarrow> \<not> pl_empty (ls ! first_list idx ls)"
proof -
  let ?n = "length (takeWhile pl_empty (drop idx ls))"
  have n: "?n \<le> length ls - idx" using length_takeWhile_le [of pl_empty "drop idx ls"] by simp
  show "idx \<le> first_list idx ls" by (simp add: first_list_def)
  show "first_list idx ls \<le> length ls" using n assms by (simp add: first_list_def)
  show "pl_empty (ls ! j)" if j: "j < first_list idx ls" "idx \<le> j"
  proof -
    have l: "j - idx < ?n" using j by (simp add: first_list_def)
    then have "takeWhile pl_empty (drop idx ls) ! (j - idx) = drop idx ls ! (j - idx)" by (rule takeWhile_nth)
    moreover have "takeWhile pl_empty (drop idx ls) ! (j - idx) \<in> set (takeWhile pl_empty (drop idx ls))" using l by (rule nth_mem)
    then have "pl_empty (takeWhile pl_empty (drop idx ls) ! (j - idx))" by (blast dest: set_takeWhileD)
    ultimately show ?thesis using j n assms by simp
  qed
  assume "first_list idx ls < length ls"
  then have "?n < length (drop idx ls)" by (simp add: first_list_def)
  then have "\<not> pl_empty (drop idx ls ! ?n)" by (rule nth_length_takeWhile)
  then show "\<not> pl_empty (ls ! first_list idx ls)" using assms by (simp add: first_list_def)
qed

lemma pick_span_ok:
  assumes ok: "spans_ok A {} F s" and idx: "idx \<le> 32"
  shows "(pick_span idx s = Some (None, s) \<and> (\<forall>x k. (x, k) \<in> frees F \<longrightarrow> k < idx)) \<or>
    (\<exists>x k s' F'. pick_span idx s = Some (Some x, s') \<and> (x, k) \<in> frees F \<and> idx \<le> k \<and> frees F' = frees F - {(x, k)} \<and>
       spans_ok A {(x, k)} F' (s'\<lparr>sn_nr_free := sn_nr_free s' - 2 ^ k\<rparr>) \<and> 2 ^ k \<le> sn_nr_free s' \<and>
       (\<exists>p. sn_pages s' x = Some p \<and> pg_span_size p = 2 ^ k) \<and> sn_nr_free s' = sn_nr_free s \<and> sn_nr_pages s' = sn_nr_pages s \<and>
       (\<forall>i. i \<notin> free_pages F \<longrightarrow> sn_pages s' i = sn_pages s i))"
proof -
  note K = spans_okD [OF ok]
  let ?j = "first_list idx (sn_lists s)"
  have idx': "idx \<le> length (sn_lists s)" using idx K(3) by simp
  note L = first_list_spec [OF idx']
  have emp: "pl_empty (sn_lists s ! k) \<longleftrightarrow> F k = []" if "k < 32" for k using dll_empty [OF K(4) [OF that]] .
  show ?thesis
  proof (cases "?j = 32")
    case True
    then have "pick_span idx s = Some (None, s)" by (simp add: pick_span_def nr_span_lists_def)
    moreover have "k < idx" if "(x, k) \<in> frees F" for x k
    proof (rule ccontr)
      assume "\<not> k < idx"
      moreover have k: "k < 32" "x \<in> set (F k)" using that by (simp_all add: frees_def)
      ultimately have "pl_empty (sn_lists s ! k)" using L(3) [of k] True by simp
      then show False using emp [OF k(1)] k(2) by simp
    qed
    ultimately show ?thesis by blast
  next
    case False
    then have j: "?j < 32" using L(2) K(3) by simp
    then have "F ?j \<noteq> []" using L(4) K(3) emp by simp
    then obtain x ys where x: "F ?j = x # ys" by (cases "F ?j") simp_all
    have "pl_front (sn_lists s ! ?j) = x" using K(4) [OF j] x by (simp add: dll_def)
    moreover have "x \<in> set (F ?j)" using x by simp
    from span_unlink_ok [OF ok j this] obtain s' F' where u: "span_unlink ?j x s = Some s'" "frees F' = frees F - {(x, ?j)}"
      "spans_ok A {(x, ?j)} F' (s'\<lparr>sn_nr_free := sn_nr_free s - 2 ^ ?j\<rparr>)" "2 ^ ?j \<le> sn_nr_free s"
      "same_tags (sn_pages s) (sn_pages s')" "links_only (set (F ?j) - {x}) (sn_pages s) (sn_pages s')"
      "sn_nr_free s' = sn_nr_free s" "sn_nr_pages s' = sn_nr_pages s" by (elim exE conjE)
    ultimately have run: "pick_span idx s = Some (Some x, s')" using j by (simp add: pick_span_def nr_span_lists_def Let_def)
    have xF: "(x, ?j) \<in> frees F" using x j by (simp add: frees_def)
    obtain p where p: "sn_pages s x = Some p" "pg_span_size p = 2 ^ ?j" using taggedD(1) [OF K(9) [OF xF]] by blast
    have "map_option (\<lambda>p. (pg_free p, pg_span_size p)) (sn_pages s' x) = map_option (\<lambda>p. (pg_free p, pg_span_size p)) (sn_pages s x)"
      using u(5) unfolding same_tags_def by blast
    then have "\<exists>p. sn_pages s' x = Some p \<and> pg_span_size p = 2 ^ ?j" using p by (cases "sn_pages s' x") auto
    moreover have "sn_pages s' i = sn_pages s i" if "i \<notin> free_pages F" for i
    proof -
      have "i \<notin> set (F ?j) - {x}" using that free_pages_start [OF _ j] by blast
      then show ?thesis using links_onlyD(1) [OF u(6)] by blast
    qed
    ultimately show ?thesis using run xF L(1) u(2-4,7,8)
      by (intro disjI2 exI [of _ x] exI [of _ ?j] exI [of _ s'] exI [of _ F']) simp
  qed
qed

lemma find_span_ok:
  assumes ok: "spans_ok A {} F s" and n: "0 < n" "n < 2 ^ 31" and init: "sn_nr_pages s \<noteq> 0"
  shows "(find_and_unlink_span n s = Some (None, s) \<and>
      (\<forall>y m. n \<le> 2 ^ m \<longrightarrow> 2 ^ m dvd y \<longrightarrow> \<not> {y..<y + 2 ^ m} \<subseteq> free_pages F)) \<or>
    (\<exists>x k s' F'. find_and_unlink_span n s = Some (Some x, s') \<and> (x, k) \<in> frees F \<and> n \<le> 2 ^ k \<and> frees F' = frees F - {(x, k)} \<and>
       spans_ok A {(x, k)} F' (s'\<lparr>sn_nr_free := sn_nr_free s' - 2 ^ k\<rparr>) \<and> 2 ^ k \<le> sn_nr_free s' \<and>
       (\<exists>p. sn_pages s' x = Some p \<and> pg_span_size p = 2 ^ k) \<and> sn_nr_free s' = sn_nr_free s \<and> sn_nr_pages s' = sn_nr_pages s \<and>
       (\<forall>i. i \<notin> free_pages F \<longrightarrow> sn_pages s' i = sn_pages s i))"
proof -
  have n32: "n < 2 ^ 32" using n(2) by simp
  obtain idx where idx: "index_of n = Some idx" "n \<le> 2 ^ idx" "\<forall>j. n \<le> 2 ^ j \<longrightarrow> idx \<le> j"
    using index_of_least [OF n(1) n32] by blast
  have "n \<le> 2 ^ 31" using n(2) by simp
  then have i31: "idx \<le> 31" using idx(3) by blast
  have nofit: "\<forall>y m. n \<le> 2 ^ m \<longrightarrow> 2 ^ m dvd y \<longrightarrow> \<not> {y..<y + 2 ^ m} \<subseteq> free_pages F" if "\<forall>x k. (x, k) \<in> frees F \<longrightarrow> k < idx"
  proof (intro allI impI notI)
    fix y m assume m: "n \<le> 2 ^ m" "2 ^ m dvd y" "{y..<y + 2 ^ m} \<subseteq> free_pages F"
    from free_block [OF ok m(2,3)] obtain x k where "(x, k) \<in> frees F" "m \<le> k" by blast
    then show False using that idx(3) m(1) by (metis not_le order_trans)
  qed
  show ?thesis
  proof (cases "idx = 31")
    case True
    have "k < idx" if "(x, k) \<in> frees F" for x k
      using order_bound(1) [OF ok, of x k] that True by simp
    moreover have "push_bit 31 (2 :: u32) = 0" by (simp add: push_bit_eq_mult)
    then have le: "push_bit 31 (2 :: u32) \<le> of_nat n" by (simp only: word_zero_le)
    have "find_and_unlink_span n s = Some (None, s)"
      unfolding find_and_unlink_span_def idx(1) True bind.bind_lunit if_P [OF le] by simp
    ultimately show ?thesis using nofit by blast
  next
    case False
    then have i30: "idx < 31" using i31 by simp
    have "push_bit idx (2 :: u32) = of_nat (2 ^ Suc idx)" by (simp add: push_bit_eq_mult)
    moreover have "(2::nat) ^ Suc idx < 2 ^ 32" using i30 by (simp del: power_Suc)
    ultimately have "unat (push_bit idx (2 :: u32)) = 2 ^ Suc idx" by (simp only: unat_of_nat_u32)
    moreover have "unat (of_nat n :: u32) = n" by (rule unat_of_nat_u32 [OF n32])
    moreover have "n < 2 ^ Suc idx" using idx(2) one_le_power [of "2::nat" idx] by (simp only: power_Suc) linarith
    ultimately have le: "\<not> push_bit idx (2 :: u32) \<le> of_nat n" by (simp add: word_le_nat_alt)
    have e: "find_and_unlink_span n s = Option.bind (pick_span idx s) (\<lambda>(r, s').
        if r = None \<and> sn_nr_pages s' = 0 then Option.bind (spans_initialize s') (pick_span idx) else Some (r, s'))"
      using idx(1) i30 le by (simp add: find_and_unlink_span_def)
    have "idx \<le> 32" using i30 by simp
    from pick_span_ok [OF ok this] show ?thesis
    proof (elim disjE)
      assume "pick_span idx s = Some (None, s) \<and> (\<forall>x k. (x, k) \<in> frees F \<longrightarrow> k < idx)"
      then have "find_and_unlink_span n s = Some (None, s)" "\<forall>x k. (x, k) \<in> frees F \<longrightarrow> k < idx" using e init by simp_all
      then show ?thesis using nofit by blast
    next
      assume "\<exists>x k s' F'. pick_span idx s = Some (Some x, s') \<and> (x, k) \<in> frees F \<and> idx \<le> k \<and> frees F' = frees F - {(x, k)} \<and>
       spans_ok A {(x, k)} F' (s'\<lparr>sn_nr_free := sn_nr_free s' - 2 ^ k\<rparr>) \<and> 2 ^ k \<le> sn_nr_free s' \<and>
       (\<exists>p. sn_pages s' x = Some p \<and> pg_span_size p = 2 ^ k) \<and> sn_nr_free s' = sn_nr_free s \<and> sn_nr_pages s' = sn_nr_pages s \<and>
       (\<forall>i. i \<notin> free_pages F \<longrightarrow> sn_pages s' i = sn_pages s i)"
      then obtain x k s' F' where r: "pick_span idx s = Some (Some x, s')" "(x, k) \<in> frees F" "idx \<le> k" "frees F' = frees F - {(x, k)}"
       "spans_ok A {(x, k)} F' (s'\<lparr>sn_nr_free := sn_nr_free s' - 2 ^ k\<rparr>)" "2 ^ k \<le> sn_nr_free s'"
       "\<exists>p. sn_pages s' x = Some p \<and> pg_span_size p = 2 ^ k" "sn_nr_free s' = sn_nr_free s" "sn_nr_pages s' = sn_nr_pages s"
       "\<forall>i. i \<notin> free_pages F \<longrightarrow> sn_pages s' i = sn_pages s i" by blast
      have "n \<le> 2 ^ k" using idx(2) power_increasing [OF r(3), of "2::nat"] by (meson order_trans one_le_numeral)
      moreover have "find_and_unlink_span n s = Some (Some x, s')" using e r(1) by simp
      ultimately show ?thesis using r by (intro disjI2 exI [of _ x] exI [of _ k] exI [of _ s'] exI [of _ F']) simp
    qed
  qed
qed

text \<open>Finding a span and carving the pages asked for out of it.\<close>

lemma find_carve_ok:
  assumes ok: "spans_ok A {} F s" and n: "0 < n" "n < 2 ^ 31" and init: "sn_nr_pages s \<noteq> 0"
  shows "(find_and_unlink_span n s = Some (None, s) \<and>
      (\<forall>y m. n \<le> 2 ^ m \<longrightarrow> 2 ^ m dvd y \<longrightarrow> \<not> {y..<y + 2 ^ m} \<subseteq> free_pages F)) \<or>
    (\<exists>x j s1 s' F'. find_and_unlink_span n s = Some (Some x, s1) \<and> carve_span x n s1 = Some s' \<and>
       spans_ok (insert (x, j) A) {} F' s' \<and> n \<le> 2 ^ j \<and> 2 ^ j < 2 * n \<and> (x, j) \<notin> A \<and> ivl (x, j) \<subseteq> free_pages F \<and>
       free_pages F' = free_pages F - ivl (x, j) \<and> sn_nr_free s' + 2 ^ j = sn_nr_free s \<and> sn_nr_pages s' = sn_nr_pages s \<and>
       (\<exists>p. sn_pages s' x = Some p \<and> pg_pool p = None \<and> pg_span_size p = 2 ^ j) \<and>
       (\<forall>i. i \<notin> free_pages F \<longrightarrow> sn_pages s' i = sn_pages s i))"
  using find_span_ok [OF ok n init]
proof (elim disjE)
  assume "\<exists>x k s' F'. find_and_unlink_span n s = Some (Some x, s') \<and> (x, k) \<in> frees F \<and> n \<le> 2 ^ k \<and> frees F' = frees F - {(x, k)} \<and>
       spans_ok A {(x, k)} F' (s'\<lparr>sn_nr_free := sn_nr_free s' - 2 ^ k\<rparr>) \<and> 2 ^ k \<le> sn_nr_free s' \<and>
       (\<exists>p. sn_pages s' x = Some p \<and> pg_span_size p = 2 ^ k) \<and> sn_nr_free s' = sn_nr_free s \<and> sn_nr_pages s' = sn_nr_pages s \<and>
       (\<forall>i. i \<notin> free_pages F \<longrightarrow> sn_pages s' i = sn_pages s i)"
  then obtain x k s1 F1 where r: "find_and_unlink_span n s = Some (Some x, s1)" "(x, k) \<in> frees F" "n \<le> 2 ^ k" "frees F1 = frees F - {(x, k)}"
       "spans_ok A {(x, k)} F1 (s1\<lparr>sn_nr_free := sn_nr_free s1 - 2 ^ k\<rparr>)" "2 ^ k \<le> sn_nr_free s1"
       "\<exists>p. sn_pages s1 x = Some p \<and> pg_span_size p = 2 ^ k" "sn_nr_free s1 = sn_nr_free s" "sn_nr_pages s1 = sn_nr_pages s"
       "\<forall>i. i \<notin> free_pages F \<longrightarrow> sn_pages s1 i = sn_pages s i" by blast
  from carve_ok [OF r(5) _ r(6,7) n(1) r(3)] obtain j s' F' where c: "carve_span x n s1 = Some s'" "spans_ok (insert (x, j) A) {} F' s'"
    "n \<le> 2 ^ j" "2 ^ j < 2 * n" "j \<le> k" "sn_nr_free s' + 2 ^ j = sn_nr_free s1" "sn_nr_pages s' = sn_nr_pages s1" "(x, j) \<notin> A"
    "free_pages F' \<union> ivl (x, j) = free_pages F1 \<union> ivl (x, k)" "\<exists>p. sn_pages s' x = Some p \<and> pg_pool p = None \<and> pg_span_size p = 2 ^ j"
    "\<forall>i. i \<notin> free_pages F1 \<union> ivl (x, k) \<longrightarrow> sn_pages s' i = sn_pages s1 i" by auto
  have F: "free_pages F1 \<union> ivl (x, k) = free_pages F"
  proof -
    have "frees F = insert (x, k) (frees F1)" using r(2,4) by blast
    then show ?thesis by (simp add: free_pages_def Un_commute)
  qed
  have dis: "free_pages F' \<inter> ivl (x, j) = {}"
  proof -
    have "ivl a \<inter> ivl (x, j) = {}" if "a \<in> frees F'" for a
    proof -
      have "a \<noteq> (x, j)" using that spans_okD(7) [OF c(2)] by blast
      then show ?thesis using geoD(2) [OF spans_okD(5) [OF c(2)], of a "(x, j)"] that by blast
    qed
    then show ?thesis unfolding free_pages_def by blast
  qed
  have "free_pages F' = free_pages F - ivl (x, j)" using c(9) F dis by blast
  moreover have "ivl (x, j) \<subseteq> free_pages F" using c(9) F by blast
  moreover have "\<forall>i. i \<notin> free_pages F \<longrightarrow> sn_pages s' i = sn_pages s i" using c(11) r(10) F by simp
  ultimately show ?thesis using r(1,8,9) c
    by (intro disjI2 exI [of _ x] exI [of _ j] exI [of _ s1] exI [of _ s'] exI [of _ F']) simp
qed blast

section \<open>Shrinking\<close>

lemma shrink_size_ok:
  assumes "0 < new_size"
  shows "\<exists>j. shrink_size (2 ^ k) new_size = Some (2 ^ j) \<and> j \<le> k \<and> (new_size \<le> 2 ^ k * page_size \<longrightarrow> new_size \<le> 2 ^ j * page_size) \<and>
    (0 < j \<longrightarrow> 2 ^ (j - 1) * page_size < new_size)"
proof (induction k)
  case 0
  then show ?case using assms by (intro exI [of _ 0]) (simp add: shrink_size.simps [of "Suc 0"])
next
  case (Suc k)
  show ?case
  proof (cases "new_size \<le> 2 ^ k * page_size")
    case True
    then have "shrink_size (2 ^ Suc k) new_size = shrink_size (2 ^ k) new_size" by (subst shrink_size.simps) simp
    moreover obtain j where "shrink_size (2 ^ k) new_size = Some (2 ^ j)" "j \<le> k" "new_size \<le> 2 ^ j * page_size"
      "0 < j \<longrightarrow> 2 ^ (j - 1) * page_size < new_size" using Suc True by blast
    ultimately show ?thesis by (intro exI [of _ j]) simp
  next
    case False
    then have "shrink_size (2 ^ Suc k) new_size = Some (2 ^ Suc k)" by (subst shrink_size.simps) simp
    then show ?thesis using False by (intro exI [of _ "Suc k"]) simp
  qed
qed

lemma geo_ladder:
  assumes "geo n (insert (x, k) S)" and "(x, k) \<notin> S" and "j \<le> k"
  shows "geo n (insert (x, j) (ladder x j k \<union> S)) \<and> (x, j) \<notin> ladder x j k \<union> S \<and> ladder x j k \<inter> S = {} \<and>
    ivl (x, k) = ivl (x, j) \<union> (\<Union>a \<in> ladder x j k. ivl a)"
  using assms
proof (induction "k - j" arbitrary: j)
  case 0
  then show ?case by (simp add: ladder_def)
next
  case (Suc m)
  then have jk: "j < k" and m: "m = k - Suc j" "Suc j \<le> k" by simp_all
  have IH: "geo n (insert (x, Suc j) (ladder x (Suc j) k \<union> S))" "(x, Suc j) \<notin> ladder x (Suc j) k \<union> S" "ladder x (Suc j) k \<inter> S = {}"
    "ivl (x, k) = ivl (x, Suc j) \<union> (\<Union>a \<in> ladder x (Suc j) k. ivl a)"
    using Suc.hyps(1) [OF m(1) Suc.prems(1,2) m(2)] by blast+
  note G = geo_split [OF IH(1,2)]
  have L: "ladder x j k = insert (x + 2 ^ j, j) (ladder x (Suc j) k)" by (rule ladder_step [OF jk])
  have "insert (x, j) (ladder x j k \<union> S) = insert (x, j) (insert (x + 2 ^ j, j) (ladder x (Suc j) k \<union> S))" unfolding L by simp
  then have "geo n (insert (x, j) (ladder x j k \<union> S))" using G(1) by simp
  moreover have "(x, j) \<notin> ladder x j k \<union> S" using G(2,4) unfolding L by simp
  moreover have "ladder x j k \<inter> S = {}" using G(3) IH(3) unfolding L by blast
  moreover have "ivl (x, k) = ivl (x, j) \<union> (\<Union>a \<in> ladder x j k. ivl a)" using IH(4) G(6) unfolding L by auto
  ultimately show ?case by blast
qed

lemma shrink_span_ok:
  assumes ok: "spans_ok A {} F s" and a: "(x, k) \<in> A" and new: "0 < new_size"
  shows "\<exists>j s' F'. shrink_span x new_size s = Some s' \<and> spans_ok (insert (x, j) (A - {(x, k)})) {} F' s' \<and> j \<le> k \<and>
    (new_size \<le> 2 ^ k * page_size \<longrightarrow> new_size \<le> 2 ^ j * page_size) \<and> (0 < j \<longrightarrow> 2 ^ (j - 1) * page_size < new_size) \<and>
    free_pages F' = free_pages F \<union> (ivl (x, k) - ivl (x, j)) \<and> sn_nr_free s' + 2 ^ j = sn_nr_free s + 2 ^ k \<and> sn_nr_pages s' = sn_nr_pages s \<and>
    (\<forall>i. i \<notin> free_pages F \<union> ivl (x, k) \<longrightarrow> sn_pages s' i = sn_pages s i) \<and>
    map_option pg_pool (sn_pages s' x) = map_option pg_pool (sn_pages s x)"
proof -
  note K = spans_okD [OF ok]
  obtain p where p: "sn_pages s x = Some p" "\<not> pg_free p" "pg_span_size p = 2 ^ k" using taggedD(1) [OF K(10) [OF a]] by blast
  obtain j where j: "shrink_size (2 ^ k) new_size = Some (2 ^ j)" "j \<le> k" "new_size \<le> 2 ^ k * page_size \<longrightarrow> new_size \<le> 2 ^ j * page_size"
    "0 < j \<longrightarrow> 2 ^ (j - 1) * page_size < new_size" using shrink_size_ok [OF new, of k] by blast
  show ?thesis
  proof (cases "j = k")
    case True
    then have "shrink_span x new_size s = Some s" using p j(1) by (simp add: shrink_span_def)
    moreover have "insert (x, k) (A - {(x, k)}) = A" using a by blast
    ultimately show ?thesis using True ok j by (intro exI [of _ j] exI [of _ s] exI [of _ F]) simp
  next
    case False
    then have jk: "j < k" using j(2) by simp
    have xk: "k < 31" "x + 2 ^ k < 2 ^ 31" "0 < x" "2 ^ k dvd x" "x + 2 ^ k \<le> sn_nr_pages s" using order_bound [OF ok, of x k] a by simp_all
    have jlt: "(2::nat) ^ j < 2 ^ k" using jk by simp
    let ?A = "A - {(x, k)}"
    let ?L = "ladder x j k"
    have rel: "spans_ok ?A (insert (x, k) {}) F s" by (rule spans_ok_release [OF ok a])
    have g: "geo (sn_nr_pages s) (insert (x, k) (?A \<union> frees F))" "(x, k) \<notin> ?A \<union> frees F"
    proof -
      show "geo (sn_nr_pages s) (insert (x, k) (?A \<union> frees F))" by (rule geo_subset [OF K(5)]) (use a in blast)
      show "(x, k) \<notin> ?A \<union> frees F" using spans_okD(8) [OF rel] by simp
    qed
    have G: "geo (sn_nr_pages s) (insert (x, j) (?L \<union> (?A \<union> frees F)))" "(x, j) \<notin> ?L \<union> (?A \<union> frees F)" "?L \<inter> (?A \<union> frees F) = {}"
      "ivl (x, k) = ivl (x, j) \<union> (\<Union>a \<in> ?L. ivl a)" using geo_ladder [OF g j(2)] by blast+
    have ok1: "spans_ok ?A (insert (x, j) ?L) F s"
    proof (rule holes_swap [OF rel])
      show "geo (sn_nr_pages s) (?A \<union> insert (x, j) ?L \<union> frees F)" by (rule geo_subset [OF G(1)]) blast
      show "?A \<inter> insert (x, j) ?L = {}" "insert (x, j) ?L \<inter> frees F = {}" using G(2,3) by blast+
      fix b i assume "b \<in> insert (x, k) {}" "i \<in> ivl b"
      then show "\<exists>b \<in> insert (x, j) ?L. i \<in> ivl b" using G(4) by blast
    qed
    have newL: "(x, j) \<notin> ?L" using G(2) by blast
    let ?e = "x + 2 ^ j - 1"
    have le: "?e \<le> sn_nr_pages s" using xk(5) jlt by linarith
    let ?ps1 = "(sn_pages s)(x \<mapsto> p\<lparr>pg_span_size := 2 ^ j\<rparr>)"
    obtain q where q: "?ps1 ?e = Some q" using K(1) [of ?e] le by (cases "?e = x") auto
    let ?ps2 = "?ps1(?e \<mapsto> q\<lparr>pg_free := False, pg_span_size := 2 ^ j\<rparr>)"
    let ?s = "s\<lparr>sn_pages := ?ps2\<rparr>"
    have e: "shrink_span x new_size s = free_span_unaligned (x + 2 ^ j) (2 ^ k - 2 ^ j) ?s"
      using p(1,3) j(1) False q by (simp add: shrink_span_def upd_page_def)
    have ok2: "spans_ok (insert (x, j) ?A) ?L F ?s"
    proof (rule alloc_tag_ok [OF ok1 newL, of "\<lambda>p. p\<lparr>pg_free := False, pg_span_size := 2 ^ j\<rparr>"])
      fix i
      have q': "?e \<noteq> x \<Longrightarrow> sn_pages s ?e = Some q" "?e = x \<Longrightarrow> q = p\<lparr>pg_span_size := 2 ^ j\<rparr>" using q by auto
      show "rel_option (\<lambda>p q. if i \<in> {x, ?e} then \<not> pg_free q \<and> pg_span_size q = 2 ^ j \<and> pg_prev q = pg_prev p \<and> pg_next q = pg_next p else q = p)
        (sn_pages s i) (sn_pages ?s i)"
        using p q' by (cases "i = ?e"; cases "i = x") (auto simp: option.rel_refl)
    qed simp_all
    have nx: "\<forall>i. (x, i) \<notin> frees F"
    proof (intro allI notI)
      fix i assume i: "(x, i) \<in> frees F"
      then have "i = k" using geo_start [OF K(5), of x i k] a by blast
      then show False using i a K(7) by blast
    qed
    from unaligned_ok [OF ok2 xk(4) j(2) xk(2) nx] obtain s' F' where r: "free_span_unaligned (x + 2 ^ j) (2 ^ k - 2 ^ j) ?s = Some s'"
      "spans_ok (insert (x, j) ?A) {} F' s'" "frees F' = frees F \<union> ?L" "sn_nr_pages s' = sn_nr_pages ?s"
      "sn_nr_free s' + 2 ^ j = sn_nr_free ?s + 2 ^ k"
      "\<forall>i. i \<notin> free_pages F \<union> {x + 2 ^ j..<x + 2 ^ k} \<longrightarrow> sn_pages s' i = sn_pages ?s i" by (elim exE conjE)
    have dis: "ivl a \<inter> ivl (x, j) = {}" if "a \<in> ?L \<union> (?A \<union> frees F)" for a by (rule geo_insertD [OF G(1,2) that])
    have "(\<Union>a \<in> ?L. ivl a) = ivl (x, k) - ivl (x, j)" using G(4) dis by blast
    then have fp: "free_pages F' = free_pages F \<union> (ivl (x, k) - ivl (x, j))" unfolding free_pages_def r(3) by blast
    have iv: "{x + 2 ^ j..<x + 2 ^ k} \<subseteq> ivl (x, k)" by auto
    have fr: "sn_pages s' i = sn_pages s i" if "i \<notin> free_pages F \<union> ivl (x, k)" for i
    proof -
      have "x \<in> ivl (x, k)" "?e \<in> ivl (x, k)" using ivl_ends [of x j] G(4) by blast+
      then have "i \<noteq> x" "i \<noteq> ?e" using that by blast+
      moreover have "i \<notin> free_pages F \<union> {x + 2 ^ j..<x + 2 ^ k}" using that iv by blast
      ultimately show ?thesis using r(6) by simp
    qed
    have "x \<notin> free_pages F"
    proof
      assume "x \<in> free_pages F"
      then obtain b where "b \<in> frees F" "x \<in> ivl b" unfolding free_pages_def by blast
      then show False using dis [of b] ivl_ends(1) [of x j] by blast
    qed
    then have "sn_pages s' x = ?ps2 x" using r(6) jlt by simp
    moreover have "map_option pg_pool (?ps2 x) = map_option pg_pool (sn_pages s x)" using p(1) q by (cases "?e = x") auto
    ultimately have "map_option pg_pool (sn_pages s' x) = map_option pg_pool (sn_pages s x)" by simp
    then show ?thesis using e r(1,2,4,5) fp fr j by (intro exI [of _ j] exI [of _ s'] exI [of _ F']) simp
  qed
qed

section \<open>The first memory\<close>

definition spans_new :: spans where
  "spans_new = \<lparr>sn_pages = \<lambda>_. None, sn_nr_pages = 0, sn_nr_free = 0, sn_lists = replicate nr_span_lists \<lparr>pl_front = 0, pl_back = 0\<rparr>\<rparr>"

lemma pages_for_array_8192: "pages_for_array 8192 = 65" "log2ceil (65 :: u32) = Some 7"
proof -
  have "unat (of_nat (sizeof_page * (8192 + 1)) :: size_t) = 262176" by (simp add: sizeof_page_def)
  then have "unat (align_up (of_nat (sizeof_page * (8192 + 1)) :: size_t) (2 ^ 12)) = 266240"
    by (subst unat_align_up) simp_all
  then show "pages_for_array 8192 = 65" by (simp add: pages_for_array_def page_size_def)
  show "log2ceil (65 :: u32) = Some 7" by (simp add: log2ceil_eq bit_width.simps)
qed

lemma spans_initialize_ok:
  shows "\<exists>s F. spans_initialize spans_new = Some s \<and> spans_ok {} {} F s \<and> free_pages F = {128..<8192} \<and> sn_nr_free s = 8064 \<and>
    sn_nr_pages s = 8192"
proof -
  let ?F = "\<lambda>_. []"
  let ?s = "spans_new\<lparr>sn_pages := (\<lambda>i. if i \<le> 8192 then Some zero_page else None), sn_nr_pages := 8192\<rparr>"
  have fr: "frees ?F = {}" "free_pages ?F = {}" by (simp_all add: frees_def free_pages_def)
  have L: "0 < x \<and> 2 ^ k dvd x \<and> x + 2 ^ k \<le> 8192" if "(x, k) \<in> ladder 0 7 13" for x k
  proof -
    have x: "x = 2 ^ k" "k < 13" using that by (auto simp: ladder_def)
    have "(2::nat) ^ Suc k \<le> 2 ^ 13" using x(2) by (intro power_increasing) simp_all
    then show ?thesis using x by simp
  qed
  have dis: "ivl a \<inter> ivl b = {}" if ab: "a \<in> ladder 0 7 13" "b \<in> ladder 0 7 13" "a \<noteq> b" for a b
  proof -
    have *: "ivl (2 ^ i, i) \<inter> ivl (2 ^ j, j) = {}" if "i < j" for i j :: nat
    proof -
      have "(2::nat) ^ Suc i \<le> 2 ^ j" using that by (intro power_increasing) simp_all
      then show ?thesis by (auto simp: ivl_def)
    qed
    obtain i j where ij: "a = (2 ^ i, i)" "b = (2 ^ j, j)" using ab(1,2) by (auto simp: ladder_def)
    then have "i \<noteq> j" using ab(3) by blast
    then show ?thesis using *[of i j] *[of j i] ij by (cases "i < j") (auto simp: Int_commute)
  qed
  have ok: "spans_ok {} (ladder 0 7 13) ?F ?s"
    unfolding spans_ok_def fr
  proof (intro conjI allI ballI impI)
    show "geo (sn_nr_pages ?s) ({} \<union> ladder 0 7 13 \<union> {})" using L dis by (simp add: geo_def spans_new_def)
    fix i assume "free_at (sn_pages ?s) i"
    then show "\<exists>a \<in> {} \<union> ladder 0 7 13 \<union> {}. i \<in> ivl a" by (auto simp: free_at_def zero_page_def split: if_splits)
  qed (simp_all add: spans_new_def nr_span_lists_def dll_def)
  have d: "(2::nat) ^ 13 dvd 0" "(7::nat) \<le> 13" "(0::nat) + 2 ^ 13 < 2 ^ 31" "\<forall>i. (0, i) \<notin> frees ?F" using fr(1) by simp_all
  from unaligned_ok [OF ok d] obtain s F where r: "free_span_unaligned (0 + 2 ^ 7) (2 ^ 13 - 2 ^ 7) ?s = Some s" "spans_ok {} {} F s"
    "frees F = frees ?F \<union> ladder 0 7 13" "sn_nr_pages s = sn_nr_pages ?s" "sn_nr_free s + 2 ^ 7 = sn_nr_free ?s + 2 ^ 13" by (elim exE conjE)
  have "spans_initialize spans_new = free_span_unaligned (2 ^ 7) (8192 - 2 ^ 7) ?s"
    unfolding spans_initialize_def Let_def page_size_def using pages_for_array_8192 by simp
  then have "spans_initialize spans_new = Some s" using r(1) by simp
  moreover have "free_pages F = {128..<8192}"
  proof -
    have "ivl (2 ^ 7, 13) = {}" if False using that ..
    have "(\<Union>a \<in> ladder 0 j k. ivl a) = {2 ^ j..<2 ^ k}" if "j \<le> k" for j k :: nat
      using that
    proof (induction "k - j" arbitrary: j)
      case 0
      then show ?case by (simp add: ladder_def)
    next
      case (Suc m)
      then have jk: "j < k" and m: "m = k - Suc j" "Suc j \<le> k" by simp_all
      have "(2::nat) ^ Suc j \<le> 2 ^ k" using m(2) by (intro power_increasing) simp_all
      moreover have "(\<Union>a \<in> ladder 0 j k. ivl a) = ivl (2 ^ j, j) \<union> {2 ^ Suc j..<2 ^ k}"
        using Suc.hyps(1) [OF m] ladder_step [OF jk, of 0] by simp
      ultimately show ?case by (auto simp: ivl_def)
    qed
    then show ?thesis using r(3) fr(1) by (simp add: free_pages_def)
  qed
  moreover have "sn_nr_free s = 8064" using r(5) by (simp add: spans_new_def)
  moreover have "sn_nr_pages s = 8192" using r(4) by simp
  ultimately show ?thesis using r(2) by blast
qed

section \<open>Runs of the page allocator\<close>

datatype pa_op = Pa_alloc nat | Pa_free nat | Pa_shrink nat nat

definition alloc_pages :: "nat \<Rightarrow> spans \<Rightarrow> (nat option \<times> spans) option" where
  "alloc_pages n s =
     (if sn_nr_pages s \<noteq> 0 \<and> sn_nr_pages s \<le> n then Some (None, s)
      else Option.bind (find_and_unlink_span n s) (\<lambda>(r, s).
             case r of None \<Rightarrow> Some (None, s) | Some x \<Rightarrow> map_option (Pair (Some x)) (carve_span x n s)))"

definition free_large :: "nat \<Rightarrow> spans \<Rightarrow> spans option" where
  "free_large i s = Option.bind (sn_pages s i) (\<lambda>span. free_span i (pg_span_size span) s)"

fun pa_step :: "pa_op \<Rightarrow> spans \<Rightarrow> (nat option \<times> spans) option" where
  "pa_step (Pa_alloc n) s = alloc_pages n s"
| "pa_step (Pa_free x) s = map_option (Pair None) (free_large x s)"
| "pa_step (Pa_shrink x new_size) s = map_option (Pair None) (shrink_span x new_size s)"

definition pa_region :: "nat set" where "pa_region = {128..<8192}"

definition used :: "span set \<Rightarrow> nat set" where "used A = (\<Union>a \<in> A. ivl a)"

fun pa_valid :: "pa_op \<Rightarrow> span set \<Rightarrow> bool" where
  "pa_valid (Pa_alloc n) A \<longleftrightarrow> 0 < n \<and> n < 2 ^ 31"
| "pa_valid (Pa_free x) A \<longleftrightarrow> (\<exists>k. (x, k) \<in> A)"
| "pa_valid (Pa_shrink x new_size) A \<longleftrightarrow> (\<exists>k. (x, k) \<in> A \<and> new_size \<le> 2 ^ k * page_size) \<and> 0 < new_size"

text \<open>What the operations do to the set of allocated spans; a request fails only when no aligned block is free.\<close>

fun pa_spec :: "pa_op \<Rightarrow> nat option \<Rightarrow> span set \<Rightarrow> span set \<Rightarrow> bool" where
  "pa_spec (Pa_alloc n) (Some x) A A' \<longleftrightarrow>
     (\<exists>j. n \<le> 2 ^ j \<and> 2 ^ j < 2 * n \<and> 2 ^ j dvd x \<and> ivl (x, j) \<subseteq> pa_region - used A \<and> A' = insert (x, j) A)"
| "pa_spec (Pa_alloc n) None A A' \<longleftrightarrow>
     A' = A \<and> (\<forall>y m. n \<le> 2 ^ m \<longrightarrow> 2 ^ m dvd y \<longrightarrow> \<not> {y..<y + 2 ^ m} \<subseteq> pa_region - used A)"
| "pa_spec (Pa_free x) r A A' \<longleftrightarrow> r = None \<and> (\<exists>k. (x, k) \<in> A \<and> A' = A - {(x, k)})"
| "pa_spec (Pa_shrink x new_size) r A A' \<longleftrightarrow> r = None \<and>
     (\<exists>k j. (x, k) \<in> A \<and> j \<le> k \<and> new_size \<le> 2 ^ j * page_size \<and> (0 < j \<longrightarrow> 2 ^ (j - 1) * page_size < new_size) \<and>
        A' = insert (x, j) (A - {(x, k)}))"

definition pa_inv :: "span set \<Rightarrow> spans \<Rightarrow> bool" where
  "pa_inv A s \<longleftrightarrow> finite A \<and> sn_nr_pages s = 8192 \<and> sn_nr_free s + (\<Sum>a \<in> A. 2 ^ snd a) = 8064 \<and>
     (\<exists>F. spans_ok A {} F s \<and> free_pages F = pa_region - used A) \<and> used A \<subseteq> pa_region"

inductive pa_reach :: "span set \<Rightarrow> spans \<Rightarrow> bool" where
  Pa_start: "spans_initialize spans_new = Some s \<Longrightarrow> pa_reach {} s"
| Pa_step: "pa_reach A s \<Longrightarrow> pa_valid x A \<Longrightarrow> pa_step x s = Some (r, s') \<Longrightarrow> pa_spec x r A A' \<Longrightarrow> pa_reach A' s'"

lemma used_insert [simp]: "used (insert a A) = ivl a \<union> used A"
  by (simp add: used_def)

lemma used_remove:
  assumes ok: "spans_ok A H F s" and a: "a \<in> A"
  shows "used (A - {a}) = used A - ivl a"
proof -
  have "ivl b \<inter> ivl a = {}" if "b \<in> A - {a}" for b
  proof -
    have "b \<noteq> a" "b \<in> A" using that by blast+
    then show ?thesis using spans_okD(5) [OF ok] a unfolding geo_def by blast
  qed
  then show ?thesis using a unfolding used_def by blast
qed

lemma pa_step_ok:
  assumes inv: "pa_inv A s" and v: "pa_valid x A"
  shows "\<exists>r s' A'. pa_step x s = Some (r, s') \<and> pa_spec x r A A' \<and> pa_inv A' s'"
proof -
  obtain F where ok: "spans_ok A {} F s" and fp: "free_pages F = pa_region - used A" and fin: "finite A" and np: "sn_nr_pages s = 8192"
    and nf: "sn_nr_free s + (\<Sum>a \<in> A. 2 ^ snd a) = 8064" and us: "used A \<subseteq> pa_region"
    using inv unfolding pa_inv_def by blast
  show ?thesis
  proof (cases x)
    case (Pa_alloc n)
    then have n: "0 < n" "n < 2 ^ 31" using v by simp_all
    show ?thesis
    proof (cases "8192 \<le> n")
      case True
      have "\<not> {y..<y + 2 ^ m} \<subseteq> pa_region - used A" if "n \<le> 2 ^ m" for y m :: nat
      proof
        assume "{y..<y + 2 ^ m} \<subseteq> pa_region - used A"
        then have "{y..<y + 2 ^ m} \<subseteq> {128..<8192}" unfolding pa_region_def by blast
        then have "card {y..<y + 2 ^ m} \<le> card {128..<8192::nat}" by (intro card_mono) simp_all
        then show False using that True by simp
      qed
      then have "pa_spec x None A A" using Pa_alloc by simp
      moreover have "pa_step x s = Some (None, s)" using Pa_alloc True np by (simp add: alloc_pages_def)
      ultimately show ?thesis using inv by blast
    next
      case False
      have e: "pa_step x s = Option.bind (find_and_unlink_span n s) (\<lambda>(r, s).
             case r of None \<Rightarrow> Some (None, s) | Some x \<Rightarrow> map_option (Pair (Some x)) (carve_span x n s))"
        using Pa_alloc False np by (simp add: alloc_pages_def)
      have "sn_nr_pages s \<noteq> 0" using np by simp
      from find_carve_ok [OF ok n this] show ?thesis
      proof (elim disjE)
        assume a: "find_and_unlink_span n s = Some (None, s) \<and>
          (\<forall>y m. n \<le> 2 ^ m \<longrightarrow> 2 ^ m dvd y \<longrightarrow> \<not> {y..<y + 2 ^ m} \<subseteq> free_pages F)"
        then have "pa_step x s = Some (None, s)" using e by simp
        moreover have "pa_spec x None A A" using a Pa_alloc fp by simp
        ultimately show ?thesis using inv by blast
      next
        assume "\<exists>x j s1 s' F'. find_and_unlink_span n s = Some (Some x, s1) \<and> carve_span x n s1 = Some s' \<and>
          spans_ok (insert (x, j) A) {} F' s' \<and> n \<le> 2 ^ j \<and> 2 ^ j < 2 * n \<and> (x, j) \<notin> A \<and> ivl (x, j) \<subseteq> free_pages F \<and>
          free_pages F' = free_pages F - ivl (x, j) \<and> sn_nr_free s' + 2 ^ j = sn_nr_free s \<and> sn_nr_pages s' = sn_nr_pages s \<and>
          (\<exists>p. sn_pages s' x = Some p \<and> pg_pool p = None \<and> pg_span_size p = 2 ^ j) \<and>
          (\<forall>i. i \<notin> free_pages F \<longrightarrow> sn_pages s' i = sn_pages s i)"
        then obtain y j s1 s' F' where r: "find_and_unlink_span n s = Some (Some y, s1)" "carve_span y n s1 = Some s'"
          "spans_ok (insert (y, j) A) {} F' s'" "n \<le> 2 ^ j" "2 ^ j < 2 * n" "(y, j) \<notin> A" "ivl (y, j) \<subseteq> free_pages F"
          "free_pages F' = free_pages F - ivl (y, j)" "sn_nr_free s' + 2 ^ j = sn_nr_free s" "sn_nr_pages s' = sn_nr_pages s" by blast
        have "pa_step x s = Some (Some y, s')" using e r(1,2) by simp
        moreover have "2 ^ j dvd y" using order_bound(4) [OF r(3), of y j] by simp
        then have "pa_spec x (Some y) A (insert (y, j) A)" using Pa_alloc r(4,5,7) fp by (auto simp del: in_ivl)
        moreover have "pa_inv (insert (y, j) A) s'"
        proof -
          have "sn_nr_free s' + (\<Sum>a \<in> insert (y, j) A. 2 ^ snd a) = 8064" using fin r(6,9) nf by simp
          moreover have "free_pages F' = pa_region - used (insert (y, j) A)" using r(8) fp by auto
          moreover have "used (insert (y, j) A) \<subseteq> pa_region" using r(7) fp us by auto
          ultimately show ?thesis unfolding pa_inv_def using fin np r(3,10) by auto
        qed
        ultimately show ?thesis by blast
      qed
    qed
  next
    case (Pa_free y)
    then obtain k where a: "(y, k) \<in> A" using v by auto
    obtain p where p: "sn_pages s y = Some p" "pg_span_size p = 2 ^ k" using taggedD(1) [OF spans_okD(10) [OF ok a]] by blast
    from free_large_ok [OF ok a] obtain s' F' where r: "free_span y (2 ^ k) s = Some s'" "spans_ok (A - {(y, k)}) {} F' s'"
      "sn_nr_free s' = sn_nr_free s + 2 ^ k" "sn_nr_pages s' = sn_nr_pages s" "free_pages F' = free_pages F \<union> ivl (y, k)" by (elim exE conjE)
    have "pa_step x s = Some (None, s')" using Pa_free p r(1) by (simp add: free_large_def)
    moreover have "pa_spec x None A (A - {(y, k)})" using Pa_free a by auto
    moreover have "pa_inv (A - {(y, k)}) s'"
    proof -
      have "(\<Sum>a \<in> A. 2 ^ snd a) = 2 ^ k + (\<Sum>a \<in> A - {(y, k)}. (2::nat) ^ snd a)" using sum.remove [OF fin a, of "\<lambda>a. 2 ^ snd a"] by simp
      then have "sn_nr_free s' + (\<Sum>a \<in> A - {(y, k)}. 2 ^ snd a) = 8064" using nf r(3) by simp
      moreover have u: "used (A - {(y, k)}) = used A - ivl (y, k)" by (rule used_remove [OF ok a])
      moreover have "ivl (y, k) \<subseteq> used A" using a unfolding used_def by blast
      then have "free_pages F' = pa_region - used (A - {(y, k)})" unfolding r(5) fp u using us by blast
      ultimately show ?thesis unfolding pa_inv_def using fin np r(2,4) us by auto
    qed
    ultimately show ?thesis by blast
  next
    case (Pa_shrink y new_size)
    then obtain k where a: "(y, k) \<in> A" and new: "0 < new_size" and fit: "new_size \<le> 2 ^ k * page_size" using v by auto
    from shrink_span_ok [OF ok a new] obtain j s' F' where r: "shrink_span y new_size s = Some s'"
      "spans_ok (insert (y, j) (A - {(y, k)})) {} F' s'" "j \<le> k" "new_size \<le> 2 ^ k * page_size \<longrightarrow> new_size \<le> 2 ^ j * page_size"
      "0 < j \<longrightarrow> 2 ^ (j - 1) * page_size < new_size" "free_pages F' = free_pages F \<union> (ivl (y, k) - ivl (y, j))"
      "sn_nr_free s' + 2 ^ j = sn_nr_free s + 2 ^ k" "sn_nr_pages s' = sn_nr_pages s" by (elim exE conjE)
    have "pa_step x s = Some (None, s')" using Pa_shrink r(1) by simp
    moreover have "pa_spec x None A (insert (y, j) (A - {(y, k)}))" using Pa_shrink a r(3-5) fit by auto
    moreover have "pa_inv (insert (y, j) (A - {(y, k)})) s'"
    proof -
      have new': "(y, j) \<notin> A - {(y, k)}"
      proof
        assume "(y, j) \<in> A - {(y, k)}"
        then show False using geo_start [OF spans_okD(5) [OF ok], of y j k] a by blast
      qed
      have "(\<Sum>a \<in> A. 2 ^ snd a) = 2 ^ k + (\<Sum>a \<in> A - {(y, k)}. (2::nat) ^ snd a)" using sum.remove [OF fin a, of "\<lambda>a. 2 ^ snd a"] by simp
      then have "sn_nr_free s' + (\<Sum>a \<in> insert (y, j) (A - {(y, k)}). 2 ^ snd a) = 8064" using nf r(7) fin new' by simp
      moreover have u: "used (A - {(y, k)}) = used A - ivl (y, k)" by (rule used_remove [OF ok a])
      have "(2::nat) ^ j \<le> 2 ^ k" using r(3) by (intro power_increasing) simp_all
      then have sub: "ivl (y, j) \<subseteq> ivl (y, k)" unfolding ivl_def by simp
      have iv: "ivl (y, k) \<subseteq> used A" using a unfolding used_def by blast
      have "free_pages F' = pa_region - used (insert (y, j) (A - {(y, k)}))" unfolding r(6) fp used_insert u using us iv sub by blast
      moreover have "used (insert (y, j) (A - {(y, k)})) \<subseteq> pa_region" unfolding used_insert u using us iv sub by blast
      ultimately show ?thesis unfolding pa_inv_def using fin np r(2,8) by auto
    qed
    ultimately show ?thesis by blast
  qed
qed

lemma pa_start_inv:
  assumes "spans_initialize spans_new = Some s"
  shows "pa_inv {} s"
proof -
  obtain F where "spans_ok {} {} F s" "free_pages F = {128..<8192}" "sn_nr_free s = 8064" "sn_nr_pages s = 8192"
    using spans_initialize_ok assms by auto
  then show ?thesis unfolding pa_inv_def pa_region_def used_def by auto
qed

text \<open>The set of allocated spans is determined by the requests and their results.\<close>

lemma order_unique:
  assumes "n \<le> (2::nat) ^ j" and "2 ^ j < 2 * n" and "n \<le> 2 ^ i" and "2 ^ i < 2 * n"
  shows "i = j"
proof -
  have "(2::nat) ^ i < 2 ^ Suc j" "(2::nat) ^ j < 2 ^ Suc i" using assms by simp_all
  then have "i < Suc j" "j < Suc i" by (simp_all only: power_strict_increasing_iff one_less_numeral_iff semiring_norm)
  then show ?thesis by simp
qed

lemma shrink_order_unique:
  assumes "n \<le> 2 ^ j * page_size" and "0 < j \<longrightarrow> 2 ^ (j - 1) * page_size < n" and "n \<le> 2 ^ i * page_size" and "0 < i \<longrightarrow> 2 ^ (i - 1) * page_size < n"
  shows "i = (j::nat)"
proof -
  have le: "a \<le> b" if "0 < a \<longrightarrow> 2 ^ (a - 1) * page_size < n" "n \<le> 2 ^ b * page_size" for a b
  proof (rule ccontr)
    assume "\<not> a \<le> b"
    then have "0 < a" "b \<le> a - 1" by simp_all
    then have "2 ^ b * page_size \<le> 2 ^ (a - 1) * page_size" by (intro mult_le_mono1 power_increasing) simp_all
    moreover have "2 ^ (a - 1) * page_size < n" using that(1) \<open>0 < a\<close> by blast
    ultimately show False using that(2) by linarith
  qed
  show ?thesis using le [OF assms(2,3)] le [OF assms(4,1)] by simp
qed

lemma pa_spec_unique:
  assumes inv: "pa_inv A s" and "pa_spec x r A A'" and "pa_spec x r A A''"
  shows "A' = A''"
proof -
  obtain F where ok: "spans_ok A {} F s" using inv unfolding pa_inv_def by blast
  have k: "k = l" if "(y, k) \<in> A" "(y, l) \<in> A" for y k l using geo_start [OF spans_okD(5) [OF ok], of y k l] that by blast
  show ?thesis
  proof (cases x)
    case (Pa_alloc n)
    then show ?thesis using assms(2,3) order_unique by (cases r) auto
  next
    case (Pa_free y)
    then show ?thesis using assms(2,3) k by auto
  next
    case (Pa_shrink y sz)
    then obtain a b c d where "(y, a) \<in> A" "sz \<le> 2 ^ b * page_size" "0 < b \<longrightarrow> 2 ^ (b - 1) * page_size < sz" "A' = insert (y, b) (A - {(y, a)})"
      "(y, c) \<in> A" "sz \<le> 2 ^ d * page_size" "0 < d \<longrightarrow> 2 ^ (d - 1) * page_size < sz" "A'' = insert (y, d) (A - {(y, c)})" using assms(2,3) by auto
    then show ?thesis using k [of y a c] shrink_order_unique [of sz b d] by simp
  qed
qed

lemma pa_reach_inv: "pa_reach A s \<Longrightarrow> pa_inv A s"
proof (induction rule: pa_reach.induct)
  case (Pa_step A s x r s' A')
  from pa_step_ok [OF Pa_step.IH Pa_step.hyps(2)] obtain A'' where "pa_spec x r A A''" "pa_inv A'' s'" using Pa_step.hyps(3) by auto
  then show ?case using pa_spec_unique [OF Pa_step.IH Pa_step.hyps(4)] by blast
qed (rule pa_start_inv)

lemma pa_disjoint:
  assumes "pa_inv A s" and "a \<in> A" and "b \<in> A" and "a \<noteq> b"
  shows "ivl a \<inter> ivl b = {}"
proof -
  obtain F where ok: "spans_ok A {} F s" using assms(1) unfolding pa_inv_def by blast
  show ?thesis using spans_okD(5) [OF ok] assms(2-4) unfolding geo_def by blast
qed

text \<open>
  C5. In every reachable state of the page allocator the allocated spans do not overlap and lie within the memory,
  the count of free pages is what they leave, and every request runs to its end, merging and splitting included: it
  returns an aligned span of at least the pages asked for, none of them allocated, or fails, and then no aligned
  block of such a size is free; freeing and shrinking give pages back.
\<close>

theorem pa_reach_safe:
  assumes "pa_reach A s" and "pa_valid x A"
  shows "(\<forall>a \<in> A. ivl a \<subseteq> pa_region \<and> (\<forall>b \<in> A. a \<noteq> b \<longrightarrow> ivl a \<inter> ivl b = {})) \<and>
    sn_nr_free s + (\<Sum>a \<in> A. 2 ^ snd a) = 8064 \<and>
    (\<exists>r s' A'. pa_step x s = Some (r, s') \<and> pa_spec x r A A' \<and> pa_reach A' s')"
proof -
  have inv: "pa_inv A s" by (rule pa_reach_inv [OF assms(1)])
  have "ivl a \<subseteq> pa_region" if "a \<in> A" for a using inv that unfolding pa_inv_def used_def by blast
  moreover have "sn_nr_free s + (\<Sum>a \<in> A. 2 ^ snd a) = 8064" using inv unfolding pa_inv_def by blast
  moreover from pa_step_ok [OF inv assms(2)] obtain r s' A' where "pa_step x s = Some (r, s')" "pa_spec x r A A'" "pa_inv A' s'"
    by (elim exE conjE)
  then have "\<exists>r s' A'. pa_step x s = Some (r, s') \<and> pa_spec x r A A' \<and> pa_reach A' s'"
    using Pa_step [OF assms] by blast
  ultimately show ?thesis using pa_disjoint [OF inv] by blast
qed

theorem pa_reach_safe_witness:
  "\<exists>s r s' A'. pa_reach {} s \<and> pa_step (Pa_alloc 3) s = Some (r, s') \<and> pa_spec (Pa_alloc 3) r {} A'"
proof -
  obtain s where "spans_initialize spans_new = Some s" using spans_initialize_ok by blast
  then have "pa_reach {} s" by (rule Pa_start)
  moreover have "pa_valid (Pa_alloc 3) {}" by simp
  ultimately show ?thesis using pa_reach_safe [of "{}" s "Pa_alloc 3"] by blast
qed

text \<open>Cutting down ends for sizes above zero.\<close>

lemma shrink_size_positive: "shrink_size n m = Some y \<Longrightarrow> m \<noteq> 0"
  by (rule shrink_size.raw_induct [where P = "\<lambda>n m y. m \<noteq> 0"]) (auto split: if_splits)

lemma shrink_size_zero: "shrink_size n 0 = None"
  using shrink_size_positive [of n 0] by (cases "shrink_size n 0") blast+

lemma shrink_size_result:
  assumes "0 < m"
  shows "\<exists>j. shrink_size n m = Some (n div 2 ^ j) \<and> (0 < j \<longrightarrow> m \<le> n div 2 ^ j * page_size) \<and> n div 2 ^ Suc j * page_size < m"
proof (induction n rule: less_induct)
  case (less n)
  show ?case
  proof (cases "m \<le> n div 2 * page_size")
    case True
    then have "n \<noteq> 0" using assms by (cases n) simp_all
    then have "n div 2 < n" by simp
    from less.IH [OF this] obtain j where j: "shrink_size (n div 2) m = Some (n div 2 div 2 ^ j)"
      "0 < j \<longrightarrow> m \<le> n div 2 div 2 ^ j * page_size" "n div 2 div 2 ^ Suc j * page_size < m" by blast
    have e: "n div 2 div 2 ^ i = n div 2 ^ Suc i" for i by (simp add: div_mult2_eq)
    have "m \<le> n div 2 ^ Suc j * page_size" using j(2) True e [of j] by (cases j) simp_all
    moreover have "shrink_size n m = Some (n div 2 ^ Suc j)" using True j(1) unfolding e by (subst shrink_size.simps) simp
    moreover have "n div 2 ^ Suc (Suc j) * page_size < m" using j(3) unfolding e .
    ultimately show ?thesis by blast
  next
    case False
    then have "shrink_size n m = Some (n div 2 ^ 0)" by (subst shrink_size.simps) simp
    moreover have "n div 2 ^ Suc 0 * page_size < m" using False by simp
    ultimately show ?thesis by blast
  qed
qed

text \<open>
  C25. Cutting a span down ends for exactly the sizes above zero.  It halves the number of pages as often as the size
  still fits, and asked for a size of zero it halves for ever.
\<close>

theorem shrink_size_terminates:
  "shrink_size n 0 = None \<and>
   (0 < m \<longrightarrow> (\<exists>j. shrink_size n m = Some (n div 2 ^ j) \<and>
     (0 < j \<longrightarrow> m \<le> n div 2 ^ j * page_size) \<and> n div 2 ^ Suc j * page_size < m))"
  using shrink_size_zero shrink_size_result by blast

theorem shrink_size_terminates_witness: "shrink_size 8 0 = None \<and> shrink_size 8 5000 = Some 2"
proof -
  obtain j where j: "shrink_size 8 5000 = Some (8 div 2 ^ j)" "8 div 2 ^ Suc j * page_size < 5000" "0 < j \<longrightarrow> 5000 \<le> 8 div 2 ^ j * page_size"
    using shrink_size_terminates [of 8 5000] by auto
  have "j = 2"
  proof (rule ccontr)
    assume "j \<noteq> 2"
    then consider "j = 0" | "j = 1" | "3 \<le> j" by linarith
    then show False
    proof cases
      case 3
      then have "8 div 2 ^ j \<le> 8 div (2::nat) ^ 3" by (intro div_le_mono2 power_increasing) simp_all
      then have "8 div 2 ^ j * page_size \<le> 1 * page_size" by (intro mult_le_mono1) simp
      then show False using j(3) 3 by (simp add: page_size_def)
    qed (use j(2) in \<open>simp_all add: page_size_def\<close>)
  qed
  then show ?thesis using j(1) shrink_size_terminates [of 8 5000] by simp
qed

end
