(* ===== verification/SmallPool.thy ===== *)
theory SmallPool
  imports BuddyAlloc
begin

text \<open>
  The small pools of a core and its heap (\<open>core/memory.cc\<close>): objects of a size are cut from spans of pages.  A free object is
  in the free list of its pool, which serves requests, or in the list of its span, to which the pool gives objects back
  when it has too many; a span all of whose objects are back is freed.

  An address is the distance from the beginning of the memory of the core.  The lists threaded through free objects are
  lists of their addresses.  There are no reclaimers, so \<open>maybe_reclaim()\<close> has nothing to do, and no profiling
  (\<open>SEASTAR_HEAPPROF\<close> is not defined), so objects have the size asked for.
\<close>

section \<open>Sizes\<close>

definition max_small_allocation :: nat where "max_small_allocation = 16384"
definition nr_small_pools :: nat where "nr_small_pools = 57"

definition idx_to_size :: "u32 \<Rightarrow> u32" where
  "idx_to_size idx = drop_bit 2 (push_bit (unat (drop_bit 2 idx)) (push_bit 2 1 OR (idx AND (push_bit 2 1 - 1))))"

definition size_to_idx :: "u32 \<Rightarrow> u32 option" where
  "size_to_idx n =
     Option.bind (log2floor n) (\<lambda>l.
       if l < 2 then None
       else Some ((push_bit 2 (of_nat l) - (push_bit 2 1 - 1)) + drop_bit (l - 2) (n - 1)))"

section \<open>Pools\<close>

record small_pool =
  sp_object_size :: nat
  sp_preferred :: nat
  sp_fallback :: nat
  sp_free :: "nat list"
  sp_free_count :: nat
  sp_min_free :: nat
  sp_max_free :: nat
  sp_pages_in_use :: u32
  sp_span_list :: page_list

function fallback_size :: "nat \<Rightarrow> nat \<Rightarrow> nat" where
  "fallback_size osize n = (if n * page_size < osize then fallback_size osize (n + 1) else n)"
  by pat_completeness auto
termination by (relation "measure (\<lambda>(osize, n). osize - n)") (auto simp: page_size_def)

text \<open>The waste, a quotient of doubles compared with 0.05, in integers: the quotient is exact enough for these sizes.\<close>

definition wasteful :: "nat \<Rightarrow> nat \<Rightarrow> bool" where
  "wasteful osize n \<longleftrightarrow> n * page_size < 20 * (n * page_size mod osize)"

function preferred_size :: "nat \<Rightarrow> nat \<Rightarrow> nat" where
  "preferred_size osize n =
     (if 0 < osize \<and> (n * page_size < osize \<or> (n < 32 \<and> wasteful osize n) \<or> n * page_size div osize < 4)
      then preferred_size osize (n + 1) else n)"
  by pat_completeness auto
termination
proof (relation "measure (\<lambda>(osize, n). 4 * osize + 32 - n)")
  fix osize n
  assume a: "0 < osize \<and> (n * page_size < osize \<or> (n < 32 \<and> wasteful osize n) \<or> n * page_size div osize < 4)"
  have "n < 4 * osize + 32"
  proof (rule ccontr)
    assume c: "\<not> n < 4 * osize + 32"
    then have "osize * 4 \<le> n * page_size" by (simp add: page_size_def)
    then have "4 \<le> n * page_size div osize" using a by (simp add: less_eq_div_iff_mult_less_eq mult.commute)
    then show False using a c by (auto simp: page_size_def)
  qed
  then show "((osize, n + 1), osize, n) \<in> measure (\<lambda>(osize, n). 4 * osize + 32 - n)" by simp
qed simp

declare fallback_size.simps [simp del] preferred_size.simps [simp del]

definition pool_new :: "nat \<Rightarrow> small_pool" where
  "pool_new osize =
     (let n = preferred_size osize 1; max_free = max 100 (n * page_size * 2 div osize)
      in \<lparr>sp_object_size = osize, sp_preferred = n, sp_fallback = fallback_size osize 1, sp_free = [], sp_free_count = 0,
         sp_min_free = max_free div 2, sp_max_free = max_free, sp_pages_in_use = 0, sp_span_list = \<lparr>pl_front = 0, pl_back = 0\<rparr>\<rparr>)"

definition pool_goal :: "small_pool \<Rightarrow> nat" where
  "pool_goal sp = (sp_min_free sp + sp_max_free sp) div 2"

definition push_free :: "nat \<Rightarrow> small_pool \<Rightarrow> small_pool" where
  "push_free obj sp = sp\<lparr>sp_free := obj # sp_free sp, sp_free_count := sp_free_count sp + 1\<rparr>"

text \<open>Objects that spans have back.\<close>

fun take_objects :: "nat list \<Rightarrow> small_pool \<Rightarrow> page \<Rightarrow> small_pool \<times> page" where
  "take_objects [] sp span = (sp, span)"
| "take_objects (obj # rest) sp span =
     take_objects rest (push_free obj sp) (span\<lparr>pg_freelist := rest, pg_nr_small := pg_nr_small span + 1\<rparr>)"

definition take_span :: "small_pool \<Rightarrow> pages \<Rightarrow> (small_pool \<times> pages) option" where
  "take_span sp ps =
     (let i = pl_front (sp_span_list sp)
      in Option.bind (pl_pop_front (sp_span_list sp) ps) (\<lambda>(l, ps).
           map_option (\<lambda>span.
             case take_objects (pg_freelist span) (sp\<lparr>sp_span_list := l\<rparr>) span of (sp, span) \<Rightarrow> (sp, ps(i \<mapsto> span))) (ps i)))"

partial_function (option) take_spans :: "nat \<Rightarrow> small_pool \<Rightarrow> pages \<Rightarrow> (small_pool \<times> pages) option" where
  "take_spans goal sp ps =
     (if \<not> pl_empty (sp_span_list sp) \<and> sp_free_count sp < goal
      then Option.bind (take_span sp ps) (\<lambda>(sp, ps). take_spans goal sp ps) else Some (sp, ps))"

text \<open>New spans.\<close>

definition alloc_span :: "small_pool \<Rightarrow> spans \<Rightarrow> ((nat \<times> nat) option \<times> spans) option" where
  "alloc_span sp s =
     Option.bind (alloc_pages (sp_preferred sp) s) (\<lambda>(r, s).
       case r of
         Some x \<Rightarrow> Some (Some (sp_preferred sp, x), s)
       | None \<Rightarrow> map_option (\<lambda>(r, s). (map_option (Pair (sp_fallback sp)) r, s)) (alloc_pages (sp_fallback sp) s))"

fun own_pages :: "nat \<Rightarrow> nat \<Rightarrow> nat \<Rightarrow> pages \<Rightarrow> pages option" where
  "own_pages pool x 0 ps = Some ps"
| "own_pages pool x (Suc n) ps =
     Option.bind (own_pages pool x n ps) (upd_page (x + n) (\<lambda>p. p\<lparr>pg_offset := n, pg_pool := Some pool\<rparr>))"

definition object_offsets :: "nat \<Rightarrow> nat \<Rightarrow> nat list" where
  "object_offsets bytes osize = takeWhile (\<lambda>offset. offset \<le> bytes - osize) (map (\<lambda>k. k * osize) [0..<Suc bytes])"

definition add_span :: "nat \<Rightarrow> nat \<Rightarrow> nat \<Rightarrow> small_pool \<Rightarrow> pages \<Rightarrow> (small_pool \<times> pages) option" where
  "add_span pool x n sp ps =
     (let objs = map (\<lambda>offset. x * page_size + offset) (object_offsets (n * page_size) (sp_object_size sp))
      in Option.bind (own_pages pool x n ps) (\<lambda>ps.
           map_option (Pair (fold push_free objs (sp\<lparr>sp_pages_in_use := sp_pages_in_use sp + of_nat n\<rparr>)))
             (upd_page x (\<lambda>p. p\<lparr>pg_nr_small := length objs, pg_freelist := []\<rparr>) ps)))"

lemma object_offsets_nonempty: "object_offsets bytes osize \<noteq> []"
proof -
  have "[0..<Suc bytes] = 0 # [1..<Suc bytes]" by (subst upt_conv_Cons) simp_all
  then show ?thesis by (simp add: object_offsets_def del: upt_Suc)
qed

lemma fold_push_free:
  "fold push_free objs sp = sp\<lparr>sp_free := rev objs @ sp_free sp, sp_free_count := sp_free_count sp + length objs\<rparr>"
  by (induction objs arbitrary: sp) (simp_all add: push_free_def)

lemma add_span_count: "add_span pool x n sp ps = Some (sp', ps') \<Longrightarrow> sp_free_count sp < sp_free_count sp'"
  using object_offsets_nonempty by (auto simp: add_span_def fold_push_free Let_def bind_eq_Some_conv)

function fill_pool :: "nat \<Rightarrow> nat \<Rightarrow> small_pool \<Rightarrow> spans \<Rightarrow> (small_pool \<times> spans) option" where
  "fill_pool pool goal sp s =
     (if sp_free_count sp < goal then
        Option.bind (alloc_span sp s) (\<lambda>(r, s).
          case r of
            None \<Rightarrow> Some (sp, s)
          | Some (n, x) \<Rightarrow>
              Option.bind (add_span pool x n sp (sn_pages s)) (\<lambda>(sp, ps). fill_pool pool goal sp (s\<lparr>sn_pages := ps\<rparr>)))
      else Some (sp, s))"
  by pat_completeness auto
termination
proof (relation "measure (\<lambda>(pool, goal, sp, s). goal - sp_free_count sp)", goal_cases)
  case (2 pool goal sp s)
  then show ?case by (simp only: in_measure split) (metis add_span_count diff_less_mono2)
qed simp

declare fill_pool.simps [simp del]

definition add_more_objects :: "nat \<Rightarrow> small_pool \<Rightarrow> spans \<Rightarrow> (small_pool \<times> spans) option" where
  "add_more_objects pool sp s =
     Option.bind (take_spans (pool_goal sp) sp (sn_pages s)) (\<lambda>(sp, ps). fill_pool pool (pool_goal sp) sp (s\<lparr>sn_pages := ps\<rparr>))"

definition pool_allocate :: "nat \<Rightarrow> small_pool \<Rightarrow> spans \<Rightarrow> (nat option \<times> small_pool \<times> spans) option" where
  "pool_allocate pool sp s =
     Option.bind (if sp_free sp = [] then add_more_objects pool sp s else Some (sp, s)) (\<lambda>(sp, s).
       case sp_free sp of
         [] \<Rightarrow> Some (None, sp, s)
       | obj # rest \<Rightarrow> Some (Some obj, sp\<lparr>sp_free := rest, sp_free_count := sp_free_count sp - 1\<rparr>, s))"

text \<open>Giving objects back to their spans.\<close>

definition drop_empty_span :: "nat \<Rightarrow> small_pool \<Rightarrow> spans \<Rightarrow> (small_pool \<times> spans) option" where
  "drop_empty_span i sp s =
     Option.bind (sn_pages s i) (\<lambda>span.
       if pg_nr_small span = 0 then
         Option.bind (pl_erase i (sp_span_list sp) (sn_pages s)) (\<lambda>(l, ps).
           map_option (Pair (sp\<lparr>sp_span_list := l, sp_pages_in_use := sp_pages_in_use sp - of_nat (pg_span_size span)\<rparr>))
             (free_span i (pg_span_size span) (s\<lparr>sn_pages := ps\<rparr>)))
       else Some (sp, s))"

definition give_object :: "nat \<Rightarrow> small_pool \<Rightarrow> spans \<Rightarrow> (small_pool \<times> spans) option" where
  "give_object obj sp s =
     Option.bind (sn_pages s (obj div page_size)) (\<lambda>p.
       let i = obj div page_size - pg_offset p
       in Option.bind (sn_pages s i) (\<lambda>span.
            Option.bind (if pg_freelist span = [] then pl_push_front i (sp_span_list sp) (sn_pages s) else Some (sp_span_list sp, sn_pages s)) (\<lambda>(l, ps).
              Option.bind (upd_page i (\<lambda>span. span\<lparr>pg_freelist := obj # pg_freelist span, pg_nr_small := pg_nr_small span - 1\<rparr>) ps) (\<lambda>ps.
                drop_empty_span i (sp\<lparr>sp_span_list := l\<rparr>) (s\<lparr>sn_pages := ps\<rparr>)))))"

lemma drop_empty_span_free: "drop_empty_span i sp s = Some (sp', s') \<Longrightarrow> sp_free sp' = sp_free sp"
  unfolding drop_empty_span_def bind_eq_Some_conv by (auto simp: bind_eq_Some_conv split: if_splits)

lemma give_object_free: "give_object obj sp s = Some (sp', s') \<Longrightarrow> sp_free sp' = sp_free sp"
  unfolding give_object_def Let_def bind_eq_Some_conv split_paired_Ex split by (elim exE conjE) (drule drop_empty_span_free, simp)

function trim_loop :: "nat \<Rightarrow> small_pool \<Rightarrow> spans \<Rightarrow> (small_pool \<times> spans) option" where
  "trim_loop goal sp s =
     (case sp_free sp of
        [] \<Rightarrow> Some (sp, s)
      | obj # rest \<Rightarrow>
          if goal < sp_free_count sp then
            Option.bind (give_object obj (sp\<lparr>sp_free := rest, sp_free_count := sp_free_count sp - 1\<rparr>) s) (\<lambda>(sp, s). trim_loop goal sp s)
          else Some (sp, s))"
  by pat_completeness auto
termination
proof (relation "measure (\<lambda>(goal, sp, s). length (sp_free sp))", goal_cases)
  case (2 goal sp s obj rest)
  then show ?case
    by (simp only: in_measure split) (drule sym, drule sym, simp only:, drule give_object_free, simp, metis length_Cons lessI)
qed simp

declare trim_loop.simps [simp del]

definition trim_free_list :: "small_pool \<Rightarrow> spans \<Rightarrow> (small_pool \<times> spans) option" where
  "trim_free_list sp s = trim_loop (pool_goal sp) sp s"

definition pool_deallocate :: "nat \<Rightarrow> small_pool \<Rightarrow> spans \<Rightarrow> (small_pool \<times> spans) option" where
  "pool_deallocate obj sp s =
     (let sp = push_free obj sp
      in if sp_max_free sp \<le> sp_free_count sp then trim_free_list sp s else Some (sp, s))"

section \<open>Well-formed pools\<close>

type_synonym pool_spans = "nat \<Rightarrow> (nat \<times> nat) option"

text \<open>The spans of a pool: for each its order and the number of pages that were asked for.\<close>

definition pspans :: "pool_spans \<Rightarrow> span set" where
  "pspans T = {(x, k). \<exists>n. T x = Some (k, n)}"

definition slots_in :: "nat \<Rightarrow> nat \<Rightarrow> nat \<Rightarrow> nat set" where
  "slots_in z x n = {x * page_size + i * z |i. Suc i * z \<le> n * page_size}"

definition flist :: "pages \<Rightarrow> nat \<Rightarrow> nat list" where
  "flist ps x = (case ps x of None \<Rightarrow> [] | Some p \<Rightarrow> pg_freelist p)"

definition outside :: "pages \<Rightarrow> nat \<Rightarrow> nat \<Rightarrow> nat \<Rightarrow> nat set" where
  "outside ps z x n = slots_in z x n - set (flist ps x)"

definition span_ok :: "pages \<Rightarrow> nat \<Rightarrow> nat \<Rightarrow> nat \<Rightarrow> nat \<Rightarrow> nat \<Rightarrow> bool" where
  "span_ok ps pool z x k n \<longleftrightarrow>
     0 < x \<and> n \<le> 2 ^ k \<and> z \<le> n * page_size \<and> distinct (flist ps x) \<and> set (flist ps x) \<subset> slots_in z x n \<and>
     map_option pg_nr_small (ps x) = Some (card (outside ps z x n)) \<and>
     (\<forall>i < n. map_option (\<lambda>p. (pg_pool p, pg_offset p)) (ps (x + i)) = Some (Some pool, i))"

definition outs :: "pages \<Rightarrow> nat \<Rightarrow> pool_spans \<Rightarrow> nat set" where
  "outs ps z T = {a. \<exists>x k n. T x = Some (k, n) \<and> a \<in> outside ps z x n}"

text \<open>The live objects of a pool are \<open>L\<close>; \<open>W\<close> are its spans that have objects back.\<close>

definition pool_params :: "small_pool \<Rightarrow> bool" where
  "pool_params sp \<longleftrightarrow> 0 < sp_object_size sp \<and> sp_object_size sp \<le> sp_fallback sp * page_size \<and> sp_object_size sp \<le> sp_preferred sp * page_size \<and>
     sp_fallback sp < 2 ^ 31 \<and> sp_preferred sp < 2 ^ 31 \<and> 2 \<le> sp_min_free sp + sp_max_free sp"

definition pool_ok :: "pages \<Rightarrow> nat \<Rightarrow> small_pool \<Rightarrow> pool_spans \<Rightarrow> nat set \<Rightarrow> nat list \<Rightarrow> bool" where
  "pool_ok ps pool sp T L W \<longleftrightarrow>
     pool_params sp \<and> (\<forall>x k n. T x = Some (k, n) \<longrightarrow> span_ok ps pool (sp_object_size sp) x k n) \<and>
     distinct (sp_free sp) \<and> sp_free_count sp = length (sp_free sp) \<and> set (sp_free sp) \<inter> L = {} \<and>
     set (sp_free sp) \<union> L = outs ps (sp_object_size sp) T \<and>
     dll ps (sp_span_list sp) W \<and> set W = {x \<in> dom T. flist ps x \<noteq> []}"

lemma pool_okD:
  assumes "pool_ok ps pool sp T L W"
  shows "pool_params sp" "T x = Some (k, n) \<Longrightarrow> span_ok ps pool (sp_object_size sp) x k n"
    "distinct (sp_free sp)" "sp_free_count sp = length (sp_free sp)" "set (sp_free sp) \<inter> L = {}"
    "set (sp_free sp) \<union> L = outs ps (sp_object_size sp) T" "dll ps (sp_span_list sp) W" "set W = {x \<in> dom T. flist ps x \<noteq> []}"
  using assms unfolding pool_ok_def by blast+

lemma span_okD:
  assumes "span_ok ps pool z x k n"
  shows "0 < x" "n \<le> 2 ^ k" "z \<le> n * page_size" "distinct (flist ps x)" "set (flist ps x) \<subset> slots_in z x n"
    "map_option pg_nr_small (ps x) = Some (card (outside ps z x n))"
    "i < n \<Longrightarrow> map_option (\<lambda>p. (pg_pool p, pg_offset p)) (ps (x + i)) = Some (Some pool, i)"
  using assms unfolding span_ok_def by blast+

lemma pspansI: "T x = Some (k, n) \<Longrightarrow> (x, k) \<in> pspans T"
  by (auto simp: pspans_def)

text \<open>Objects lie in the pages of their span.\<close>

lemma slot_page:
  assumes "a \<in> slots_in z x n" and "0 < z" and "n \<le> 2 ^ k"
  shows "x \<le> a div page_size" "a div page_size < x + n" "a div page_size \<in> ivl (x, k)"
proof -
  obtain i where i: "a = x * page_size + i * z" "Suc i * z \<le> n * page_size" using assms(1) by (auto simp: slots_in_def)
  have d: "a div page_size = x + i * z div page_size" using i(1) by (simp add: page_size_def)
  then show "x \<le> a div page_size" by simp
  have "i * z < n * page_size" using i(2) assms(2) by simp
  then have "i * z div page_size < n" by (simp add: div_less_iff_less_mult page_size_def)
  then show "a div page_size < x + n" using d by simp
  then show "a div page_size \<in> ivl (x, k)" using assms(3) \<open>x \<le> a div page_size\<close> by simp
qed

lemma finite_slots: "0 < z \<Longrightarrow> finite (slots_in z x n)"
proof -
  assume z: "0 < z"
  have "slots_in z x n \<subseteq> (\<lambda>i. x * page_size + i * z) ` {..n * page_size}"
  proof
    fix a assume "a \<in> slots_in z x n"
    then obtain i where i: "a = x * page_size + i * z" "Suc i * z \<le> n * page_size" by (auto simp: slots_in_def)
    have "i * 1 \<le> Suc i * z" using z by (intro mult_le_mono) simp_all
    then have "i \<in> {..n * page_size}" using i(2) by simp
    then show "a \<in> (\<lambda>i. x * page_size + i * z) ` {..n * page_size}" using i(1) by blast
  qed
  then show ?thesis by (rule finite_subset) simp
qed

lemma object_offsets_eq:
  assumes "0 < z" and "z \<le> bytes"
  shows "object_offsets bytes z = map (\<lambda>k. k * z) [0..<bytes div z]"
proof -
  let ?P = "\<lambda>offset. offset \<le> bytes - z"
  have d: "bytes div z \<le> bytes" by simp
  then have split: "[0..<Suc bytes] = [0..<bytes div z] @ (bytes div z) # [Suc (bytes div z)..<Suc bytes]"
  proof -
    have "bytes div z + (Suc bytes - bytes div z) = Suc bytes" "bytes div z < Suc bytes" using d by linarith+
    then show ?thesis using upt_add_eq_append [of 0 "bytes div z" "Suc bytes - bytes div z"] upt_conv_Cons [of "bytes div z" "Suc bytes"]
      by (simp only: le0 simp_thms)
  qed
  have "k * z \<le> bytes - z" if "k < bytes div z" for k
  proof -
    have "Suc k * z \<le> bytes div z * z" using that by (intro mult_le_mono1) simp
    also have "\<dots> \<le> bytes" by (rule div_times_less_eq_dividend)
    finally show ?thesis by simp
  qed
  moreover have "\<not> bytes div z * z \<le> bytes - z"
  proof -
    have "bytes < Suc (bytes div z) * z" using div_mult_mod_eq [of bytes z] mod_less_divisor [OF assms(1), of bytes] unfolding mult_Suc by linarith
    then show ?thesis using assms(2) by simp
  qed
  ultimately show ?thesis unfolding object_offsets_def split map_append list.map
    by (subst takeWhile_append2) auto
qed

lemma set_object_offsets:
  assumes "0 < z" and "z \<le> n * page_size"
  shows "(\<lambda>offset. x * page_size + offset) ` set (object_offsets (n * page_size) z) = slots_in z x n"
    and "distinct (map (\<lambda>offset. x * page_size + offset) (object_offsets (n * page_size) z))"
proof -
  have "(\<lambda>offset. x * page_size + offset) ` set (object_offsets (n * page_size) z) = {x * page_size + i * z |i. i < n * page_size div z}"
    unfolding object_offsets_eq [OF assms] by (force simp: image_image)
  moreover have "i < n * page_size div z \<longleftrightarrow> Suc i * z \<le> n * page_size" for i
    using assms(1) by (metis Suc_le_eq less_eq_div_iff_mult_less_eq)
  ultimately show "(\<lambda>offset. x * page_size + offset) ` set (object_offsets (n * page_size) z) = slots_in z x n"
    by (simp add: slots_in_def)
  show "distinct (map (\<lambda>offset. x * page_size + offset) (object_offsets (n * page_size) z))"
    unfolding object_offsets_eq [OF assms] using assms(1) by (simp add: distinct_map inj_on_def)
qed

definition same_obj :: "page option \<Rightarrow> page option \<Rightarrow> bool" where
  "same_obj a b \<longleftrightarrow> map_option (\<lambda>p. (pg_pool p, pg_offset p, pg_nr_small p, pg_freelist p)) a =
     map_option (\<lambda>p. (pg_pool p, pg_offset p, pg_nr_small p, pg_freelist p)) b"

lemma same_objD:
  assumes "same_obj (ps' x) (ps x)"
  shows "flist ps' x = flist ps x" "map_option pg_nr_small (ps' x) = map_option pg_nr_small (ps x)"
    "map_option (\<lambda>p. (pg_pool p, pg_offset p)) (ps' x) = map_option (\<lambda>p. (pg_pool p, pg_offset p)) (ps x)"
  using assms by (cases "ps' x"; cases "ps x"; simp add: same_obj_def flist_def)+

lemma same_obj_refl [simp]: "same_obj a a"
  by (simp add: same_obj_def)

lemma links_only_same_obj:
  assumes "links_only X ps ps'"
  shows "same_obj (ps' i) (ps i)"
  using links_onlyD(4-8) [OF assms, of i] by (cases "ps' i"; cases "ps i") (auto simp: same_obj_def)

lemma span_ok_cong:
  assumes ok: "span_ok ps pool z x k n" and same: "\<And>i. i \<in> ivl (x, k) \<Longrightarrow> same_obj (ps' i) (ps i)"
  shows "span_ok ps' pool z x k n"
proof -
  note K = span_okD [OF ok]
  have x: "x \<in> ivl (x, k)" by simp
  have f: "flist ps' x = flist ps x" "map_option pg_nr_small (ps' x) = map_option pg_nr_small (ps x)"
    using same_objD(1,2) [of ps' x ps, OF same [OF x]] by simp_all
  have o: "outside ps' z x n = outside ps z x n" by (simp add: outside_def f)
  have "map_option (\<lambda>p. (pg_pool p, pg_offset p)) (ps' (x + i)) = Some (Some pool, i)" if "i < n" for i
    using K(7) [OF that] same_objD(3) [of ps' "x + i" ps, OF same] that K(2) by simp
  then show ?thesis using K(1-6) unfolding span_ok_def o f by blast
qed

lemma span_slots:
  assumes "span_ok ps pool z x k n" and "0 < z"
  shows "slots_in z x n \<noteq> {}" "finite (slots_in z x n)" "a \<in> slots_in z x n \<Longrightarrow> a div page_size \<in> ivl (x, k)"
proof -
  have "x * page_size + 0 * z \<in> slots_in z x n" using span_okD(3) [OF assms(1)] unfolding slots_in_def by fastforce
  then show "slots_in z x n \<noteq> {}" by blast
  show "finite (slots_in z x n)" using assms(2) by (rule finite_slots)
  show "a \<in> slots_in z x n \<Longrightarrow> a div page_size \<in> ivl (x, k)" using slot_page(3) [OF _ assms(2) span_okD(2) [OF assms(1)]] .
qed

lemma pspans_apart:
  assumes g: "geo m (pspans T)" and "T x = Some (k, n)" and "T y = Some (l, n')" and "x \<noteq> y"
  shows "ivl (x, k) \<inter> ivl (y, l) = {}"
  using geoD(2) [OF g pspansI pspansI] assms(2-4) by blast

lemma slots_apart:
  assumes g: "geo m (pspans T)" and z: "0 < z"
    and x: "T x = Some (k, n)" "span_ok ps pool z x k n" and y: "T y = Some (l, n')" "span_ok ps pool z y l n'" and ne: "x \<noteq> y"
  shows "slots_in z x n \<inter> slots_in z y n' = {}"
  using pspans_apart [OF g x(1) y(1) ne] span_slots(3) [OF x(2) z] span_slots(3) [OF y(2) z] by blast

lemma outs_cong:
  assumes "\<And>x k n. T x = Some (k, n) \<Longrightarrow> flist ps' x = flist ps x"
  shows "outs ps' z T = outs ps z T"
  using assms by (fastforce simp: outs_def outside_def)

lemma outs_split: "T i = Some (k, n) \<Longrightarrow> outs ps z T = outside ps z i n \<union> outs ps z (T(i := None))"
  unfolding outs_def by (intro set_eqI iffI; clarsimp split: if_splits) (metis option.inject prod.inject)+

lemma pool_ok_cong:
  assumes ok: "pool_ok ps pool sp T L W" and same: "\<And>i. i \<in> used (pspans T) \<Longrightarrow> ps' i = ps i"
  shows "pool_ok ps' pool sp T L W"
proof -
  note K = pool_okD [OF ok]
  have s: "ps' i = ps i" if "T x = Some (k, n)" "i \<in> ivl (x, k)" for x k n i
    using same [of i] bexI [of "\<lambda>a. i \<in> ivl a" "(x, k)"] pspansI [of T x k n] that unfolding used_def by blast
  have f: "flist ps' x = flist ps x" if "T x = Some (k, n)" for x k n using s [OF that, of x] by (simp add: flist_def)
  have "span_ok ps' pool (sp_object_size sp) x k n" if "T x = Some (k, n)" for x k n
    using span_ok_cong [OF K(2) [OF that], of ps'] s [OF that] by simp
  moreover have "outs ps' (sp_object_size sp) T = outs ps (sp_object_size sp) T" using f by (rule outs_cong)
  moreover have "set W = {x \<in> dom T. flist ps' x \<noteq> []}" using K(8) f by force
  moreover have "dll ps' (sp_span_list sp) W"
  proof (rule dll_cong [OF K(7)])
    fix x assume "x \<in> set W"
    then obtain k n where "T x = Some (k, n)" using K(8) by auto
    then show "same_links (ps' x) (ps x)" using s [of x k n x] by simp
  qed
  ultimately show ?thesis using K unfolding pool_ok_def by simp
qed

definition same_params :: "small_pool \<Rightarrow> small_pool \<Rightarrow> bool" where
  "same_params sp sp' \<longleftrightarrow> sp_object_size sp' = sp_object_size sp \<and> sp_preferred sp' = sp_preferred sp \<and> sp_fallback sp' = sp_fallback sp \<and>
     sp_min_free sp' = sp_min_free sp \<and> sp_max_free sp' = sp_max_free sp"

lemma same_paramsD:
  assumes "same_params sp sp'"
  shows "sp_object_size sp' = sp_object_size sp" "pool_goal sp' = pool_goal sp" "sp_max_free sp' = sp_max_free sp" "pool_params sp' = pool_params sp"
  using assms by (simp_all add: same_params_def pool_goal_def pool_params_def)

lemma same_params_trans: "same_params a b \<Longrightarrow> same_params b c \<Longrightarrow> same_params a c"
  by (simp add: same_params_def)

lemma same_params_simps [simp]: "same_params sp sp" "same_params (sp\<lparr>sp_free := f\<rparr>) sp' = same_params sp sp'"
  "same_params (sp\<lparr>sp_free_count := c\<rparr>) sp' = same_params sp sp'" "same_params (sp\<lparr>sp_span_list := l\<rparr>) sp' = same_params sp sp'"
  "same_params (sp\<lparr>sp_pages_in_use := u\<rparr>) sp' = same_params sp sp'" "same_params sp (sp'\<lparr>sp_free := f\<rparr>) = same_params sp sp'"
  "same_params sp (sp'\<lparr>sp_free_count := c\<rparr>) = same_params sp sp'" "same_params sp (sp'\<lparr>sp_span_list := l\<rparr>) = same_params sp sp'"
  "same_params sp (sp'\<lparr>sp_pages_in_use := u\<rparr>) = same_params sp sp'"
  by (simp_all add: same_params_def)

section \<open>Taking objects back from spans\<close>

lemma take_objects_eq:
  "pg_freelist span = objs \<Longrightarrow> take_objects objs sp span =
    (sp\<lparr>sp_free := rev objs @ sp_free sp, sp_free_count := sp_free_count sp + length objs\<rparr>,
     span\<lparr>pg_freelist := [], pg_nr_small := pg_nr_small span + length objs\<rparr>)"
proof (induction objs arbitrary: sp span)
  case Nil
  then show ?case by (cases span) simp
next
  case (Cons obj rest)
  then show ?case by (simp add: push_free_def)
qed

lemma take_span_ok:
  assumes ok: "pool_ok ps pool sp T L (i # W)" and g: "geo m (pspans T)"
  shows "\<exists>sp' ps'. take_span sp ps = Some (sp', ps') \<and> pool_ok ps' pool sp' T L W \<and> same_tags ps ps' \<and>
    (\<forall>j. j \<notin> dom T \<longrightarrow> ps' j = ps j) \<and> same_params sp sp'"
proof -
  note K = pool_okD [OF ok]
  let ?z = "sp_object_size sp"
  have z: "0 < ?z" using K(1) by (simp add: pool_params_def)
  have iW: "i \<notin> set W" using K(7) by (simp add: dll_def)
  have "i \<in> {x \<in> dom T. flist ps x \<noteq> []}" unfolding K(8) [symmetric] by simp
  then obtain k n where T: "T i = Some (k, n)" and fi: "flist ps i \<noteq> []" by auto
  note S = span_okD [OF K(2) [OF T]]
  from pl_pop_front_ok [OF K(7)] obtain l ps1 where p: "pl_front (sp_span_list sp) = i" "pl_pop_front (sp_span_list sp) ps = Some (l, ps1)"
    "dll ps1 l W" "links_only (set W) ps ps1" by blast
  have so: "same_obj (ps1 j) (ps j)" for j by (rule links_only_same_obj [OF p(4)])
  obtain q where q: "ps1 i = Some q" using so [of i] S(6) by (cases "ps1 i") (auto simp: same_obj_def)
  have fq: "pg_freelist q = flist ps i" "Some (pg_nr_small q) = map_option pg_nr_small (ps i)"
    using same_objD(1,2) [of ps1 i ps, OF so] q by (simp_all add: flist_def)
  define q' where "q' = q\<lparr>pg_freelist := [], pg_nr_small := pg_nr_small q + length (pg_freelist q)\<rparr>"
  define ps' where "ps' = ps1(i \<mapsto> q')"
  define sp' where "sp' = sp\<lparr>sp_span_list := l, sp_free := rev (flist ps i) @ sp_free sp, sp_free_count := sp_free_count sp + length (flist ps i)\<rparr>"
  have r: "take_span sp ps = Some (sp', ps')"
    using p(1,2) q take_objects_eq [of q "pg_freelist q" "sp\<lparr>sp_span_list := l\<rparr>"] fq(1)
    by (cases sp) (simp add: take_span_def sp'_def ps'_def q'_def)
  have f': "flist ps' x = (if x = i then [] else flist ps x)" for x
    using same_objD(1) [of ps1 x ps, OF so] by (simp add: ps'_def q'_def flist_def)
  have fin: "finite (slots_in ?z i n)" using finite_slots [OF z] .
  have oi: "outside ps ?z i n = slots_in ?z i n - set (flist ps i)" by (simp add: outside_def)
  have card: "card (outside ps ?z i n) + length (flist ps i) = card (slots_in ?z i n)"
  proof -
    have "set (flist ps i) \<subseteq> slots_in ?z i n" using S(5) by blast
    then have "card (slots_in ?z i n - set (flist ps i)) = card (slots_in ?z i n) - card (set (flist ps i))" "card (set (flist ps i)) \<le> card (slots_in ?z i n)"
      using fin by (simp_all add: card_Diff_subset card_mono)
    then show ?thesis using oi distinct_card [OF S(4)] by simp
  qed
  have spans: "span_ok ps' pool ?z x j n'" if x: "T x = Some (j, n')" for x j n'
  proof (cases "x = i")
    case True
    then have e: "j = k" "n' = n" using x T by simp_all
    have o: "outside ps' ?z i n = slots_in ?z i n" by (simp add: outside_def f')
    have "map_option pg_nr_small (ps' i) = Some (card (slots_in ?z i n))"
      using card fq S(6) by (simp add: ps'_def q'_def)
    moreover have "map_option (\<lambda>p. (pg_pool p, pg_offset p)) (ps' (i + a)) = Some (Some pool, a)" if "a < n" for a
      using S(7) [OF that] same_objD(3) [of ps1 "i + a" ps, OF so] q by (cases "a = 0") (auto simp: ps'_def q'_def)
    moreover have "{} \<subset> slots_in ?z i n" using span_slots(1) [OF K(2) [OF T] z] by blast
    ultimately show ?thesis unfolding True e span_ok_def o f' using S(1-3) by simp
  next
    case False
    have d: "i \<notin> ivl (x, j)" using pspans_apart [OF g x T False] by (metis IntI empty_iff in_ivl le_add1 less_add_same_cancel1 order_refl zero_less_numeral zero_less_power)
    then show ?thesis using span_ok_cong [OF K(2) [OF x], of ps'] so by (auto simp: ps'_def)
  qed
  have out: "outs ps' ?z T = outs ps ?z T \<union> set (flist ps i)"
  proof -
    have "outs ps' ?z (T(i := None)) = outs ps ?z (T(i := None))" by (rule outs_cong) (simp add: f' split: if_splits)
    then have "outs ps' ?z T = slots_in ?z i n \<union> outs ps ?z (T(i := None))" using outs_split [of T i k n ps' ?z, OF T] by (simp add: outside_def f')
    then show ?thesis using outs_split [of T i k n ps ?z, OF T] oi S(5) by blast
  qed
  have apart: "set (flist ps i) \<inter> outs ps ?z T = {}"
  proof (rule ccontr)
    assume "set (flist ps i) \<inter> outs ps ?z T \<noteq> {}"
    then obtain a x j n' where a: "a \<in> set (flist ps i)" "T x = Some (j, n')" "a \<in> outside ps ?z x n'" by (auto simp: outs_def)
    then have "x \<noteq> i" using T by (auto simp: outside_def)
    from slots_apart [OF g z a(2) K(2) [OF a(2)] T K(2) [OF T] this] show False using a S(5) by (auto simp: outside_def)
  qed
  have "pool_ok ps' pool sp' T L W"
    unfolding pool_ok_def
  proof (intro conjI allI impI)
    have [simp]: "sp_object_size sp' = ?z" by (simp add: sp'_def)
    show "pool_params sp'" using K(1) by (simp add: sp'_def pool_params_def)
    show "span_ok ps' pool (sp_object_size sp') x j n'" if "T x = Some (j, n')" for x j n' using spans [OF that] by simp
    have sub: "set (sp_free sp) \<subseteq> outs ps ?z T" "L \<subseteq> outs ps ?z T" using K(6) by blast+
    show "distinct (sp_free sp')" using K(3) S(4) apart sub(1) by (auto simp: sp'_def)
    show "sp_free_count sp' = length (sp_free sp')" using K(4) by (simp add: sp'_def)
    show "set (sp_free sp') \<inter> L = {}" using K(5) apart sub(2) by (auto simp: sp'_def)
    show "set (sp_free sp') \<union> L = outs ps' (sp_object_size sp') T" using K(6) out by (auto simp: sp'_def)
    show "dll ps' (sp_span_list sp') W"
    proof -
      have "same_links (ps' x) (ps1 x)" if "x \<in> set W" for x using that iW by (auto simp: ps'_def)
      then show ?thesis using dll_cong [OF p(3), of ps'] by (simp add: sp'_def)
    qed
    show "set W = {x \<in> dom T. flist ps' x \<noteq> []}" using K(8) iW f' by auto
  qed
  moreover have "same_tags ps ps'"
    using same_tags_links_only [OF p(4)] q by (simp add: same_tags_def ps'_def q'_def) (metis option.map(2))
  moreover have "ps' j = ps j" if "j \<notin> dom T" for j
  proof -
    have "j \<notin> set W" "j \<noteq> i" using that K(8) T by auto
    then show ?thesis using links_onlyD(1) [OF p(4)] by (simp add: ps'_def)
  qed
  moreover have "same_params sp sp'" by (simp add: sp'_def)
  ultimately show ?thesis using r by blast
qed

lemma same_tags_trans: "same_tags a b \<Longrightarrow> same_tags b c \<Longrightarrow> same_tags a c"
  by (simp add: same_tags_def)

lemma take_spans_ok:
  assumes "pool_ok ps pool sp T L W" and g: "geo m (pspans T)"
  shows "\<exists>sp' ps' W'. take_spans goal sp ps = Some (sp', ps') \<and> pool_ok ps' pool sp' T L W' \<and> same_tags ps ps' \<and>
    (\<forall>j. j \<notin> dom T \<longrightarrow> ps' j = ps j) \<and> same_params sp sp'"
  using assms(1)
proof (induction W arbitrary: ps sp)
  case Nil
  then have "pl_empty (sp_span_list sp)" using dll_empty [OF pool_okD(7) [OF Nil]] by simp
  then have "take_spans goal sp ps = Some (sp, ps)" by (subst take_spans.simps) simp
  moreover have "same_tags ps ps" by (simp add: same_tags_def)
  ultimately show ?case using Nil by (intro exI [of _ sp] exI [of _ ps] exI [of _ "[]"]) simp
next
  case (Cons i W)
  have ne: "\<not> pl_empty (sp_span_list sp)" using dll_empty [OF pool_okD(7) [OF Cons.prems]] by simp
  show ?case
  proof (cases "sp_free_count sp < goal")
    case False
    then have "take_spans goal sp ps = Some (sp, ps)" by (subst take_spans.simps) simp
    moreover have "same_tags ps ps" by (simp add: same_tags_def)
    ultimately show ?thesis using Cons.prems by (intro exI [of _ sp] exI [of _ ps] exI [of _ "i # W"]) simp
  next
    case True
    from take_span_ok [OF Cons.prems g] obtain sp1 ps1 where 1: "take_span sp ps = Some (sp1, ps1)" "pool_ok ps1 pool sp1 T L W"
      "same_tags ps ps1" "\<forall>j. j \<notin> dom T \<longrightarrow> ps1 j = ps j" "same_params sp sp1" by (elim exE conjE)
    from Cons.IH [OF 1(2)] obtain sp2 ps2 W' where 2: "take_spans goal sp1 ps1 = Some (sp2, ps2)" "pool_ok ps2 pool sp2 T L W'"
      "same_tags ps1 ps2" "\<forall>j. j \<notin> dom T \<longrightarrow> ps2 j = ps1 j" "same_params sp1 sp2" by (elim exE conjE)
    have "take_spans goal sp ps = Some (sp2, ps2)" using ne True 1(1) 2(1) by (subst take_spans.simps) simp
    moreover have "\<forall>j. j \<notin> dom T \<longrightarrow> ps2 j = ps j" using 1(4) 2(4) by simp
    ultimately show ?thesis using 2(2) same_tags_trans [OF 1(3) 2(3)] same_params_trans [OF 1(5) 2(5)] by blast
  qed
qed

section \<open>Changing the pages of allocated spans\<close>

lemma same_tags_free: "same_tags ps ps' \<Longrightarrow> tagged ps b a \<Longrightarrow> tagged ps' b a"
  using tagged_cong [of ps b a ps'] unfolding same_tags_def by blast

lemma head_in_ivl: "x \<in> ivl (x, k)"
  by simp

lemma spans_ok_upd:
  assumes ok: "spans_ok A H F s" and tags: "same_tags (sn_pages s) ps'" and frame: "\<And>i. i \<notin> used A \<Longrightarrow> ps' i = sn_pages s i"
  shows "spans_ok A H F (s\<lparr>sn_pages := ps'\<rparr>)"
proof -
  note K = spans_okD [OF ok]
  have t: "map_option (\<lambda>p. (pg_free p, pg_span_size p)) (ps' i) = map_option (\<lambda>p. (pg_free p, pg_span_size p)) (sn_pages s i)" for i
    using tags by (simp add: same_tags_def)
  have none: "ps' i \<noteq> None \<longleftrightarrow> i \<le> sn_nr_pages s" for i using t [of i] K(1) [of i] by (cases "ps' i"; cases "sn_pages s i") simp_all
  have fa: "free_at ps' i = free_at (sn_pages s) i" for i using same_tags_free_at [OF tags] by simp
  have lists: "dll ps' (sn_lists s ! k) (F k)" if k: "k < 32" for k
  proof (rule dll_cong [OF K(4) [OF k]])
    fix x assume x: "x \<in> set (F k)"
    have "x \<notin> used A"
    proof
      assume "x \<in> used A"
      then obtain a where a: "a \<in> A" "x \<in> ivl a" by (auto simp: used_def)
      have "(x, k) \<in> frees F" using x k by (simp add: frees_def)
      then have "a = (x, k)" using geoD(2) [OF K(5), of a "(x, k)" x] a by simp
      then show False using a(1) \<open>(x, k) \<in> frees F\<close> K(7) by blast
    qed
    then show "same_links (ps' x) (sn_pages s x)" using frame by simp
  qed
  have f: "sn_pages (s\<lparr>sn_pages := ps'\<rparr>) = ps'" "sn_nr_pages (s\<lparr>sn_pages := ps'\<rparr>) = sn_nr_pages s" "sn_lists (s\<lparr>sn_pages := ps'\<rparr>) = sn_lists s"
    "sn_nr_free (s\<lparr>sn_pages := ps'\<rparr>) = sn_nr_free s" by simp_all
  show ?thesis unfolding spans_ok_def f fa
    using none K(2,3,5-8,12) lists K(13)
    by (intro conjI allI impI ballI) (assumption | rule same_tags_free [OF tags] K | blast)+
qed

text \<open>A pool and the spans of the core: what a change may do.\<close>

definition pool_state :: "span set \<Rightarrow> (nat \<Rightarrow> nat list) \<Rightarrow> nat \<Rightarrow> small_pool \<Rightarrow> pool_spans \<Rightarrow> nat set \<Rightarrow> spans \<Rightarrow> bool" where
  "pool_state A F pool sp T L s \<longleftrightarrow>
     spans_ok A {} F s \<and> pspans T \<subseteq> A \<and> sn_nr_pages s \<noteq> 0 \<and> (\<exists>W. pool_ok (sn_pages s) pool sp T L W)"

definition pool_frame :: "span set \<Rightarrow> (nat \<Rightarrow> nat list) \<Rightarrow> small_pool \<Rightarrow> pool_spans \<Rightarrow> spans \<Rightarrow>
    span set \<Rightarrow> (nat \<Rightarrow> nat list) \<Rightarrow> small_pool \<Rightarrow> pool_spans \<Rightarrow> spans \<Rightarrow> bool" where
  "pool_frame A F sp T s A' F' sp' T' s' \<longleftrightarrow>
     A' = (A - pspans T) \<union> pspans T' \<and> (A - pspans T) \<inter> pspans T' = {} \<and>
     free_pages F' \<union> used (pspans T') = free_pages F \<union> used (pspans T) \<and> same_params sp sp' \<and> sn_nr_pages s' = sn_nr_pages s \<and>
     (\<forall>i. i \<notin> free_pages F \<union> used (pspans T) \<longrightarrow> sn_pages s' i = sn_pages s i)"

lemma pool_frame_refl [simp]: "pspans T \<subseteq> A \<Longrightarrow> pool_frame A F sp T s A F sp T s"
  by (auto simp: pool_frame_def)

lemma pool_frame_trans:
  assumes "pool_frame A F sp T s A1 F1 sp1 T1 s1" and "pool_frame A1 F1 sp1 T1 s1 A2 F2 sp2 T2 s2"
  shows "pool_frame A F sp T s A2 F2 sp2 T2 s2"
proof -
  have e: "A1 - pspans T1 = A - pspans T" using assms(1) unfolding pool_frame_def by blast
  show ?thesis using assms same_params_trans [of sp sp1 sp2] unfolding pool_frame_def e by simp
qed

lemma pool_stateD:
  assumes "pool_state A F pool sp T L s"
  shows "spans_ok A {} F s" "pspans T \<subseteq> A" "sn_nr_pages s \<noteq> 0" "\<exists>W. pool_ok (sn_pages s) pool sp T L W" "geo (sn_nr_pages s) (pspans T)"
    "pool_params sp"
proof -
  show 1: "spans_ok A {} F s" "pspans T \<subseteq> A" "sn_nr_pages s \<noteq> 0" "\<exists>W. pool_ok (sn_pages s) pool sp T L W"
    using assms unfolding pool_state_def by blast+
  show "geo (sn_nr_pages s) (pspans T)" using geo_subset [OF spans_okD(5) [OF 1(1)]] 1(2) by blast
  show "pool_params sp" using 1(4) pool_okD(1) by blast
qed

lemma used_mono: "A \<subseteq> B \<Longrightarrow> used A \<subseteq> used B"
  by (auto simp: used_def)

lemma dom_used: "x \<in> dom T \<Longrightarrow> x \<in> used (pspans T)"
  using head_in_ivl by (fastforce simp: used_def pspans_def)

lemma take_spans_state:
  assumes st: "pool_state A F pool sp T L s"
  shows "\<exists>sp' ps'. take_spans goal sp (sn_pages s) = Some (sp', ps') \<and> pool_state A F pool sp' T L (s\<lparr>sn_pages := ps'\<rparr>) \<and>
    pool_frame A F sp T s A F sp' T (s\<lparr>sn_pages := ps'\<rparr>)"
proof -
  note K = pool_stateD [OF st]
  obtain W where "pool_ok (sn_pages s) pool sp T L W" using K(4) by blast
  from take_spans_ok [OF this K(5), of goal] obtain sp' ps' W' where r: "take_spans goal sp (sn_pages s) = Some (sp', ps')" "pool_ok ps' pool sp' T L W'"
    "same_tags (sn_pages s) ps'" "\<forall>j. j \<notin> dom T \<longrightarrow> ps' j = sn_pages s j" "same_params sp sp'" by (elim exE conjE)
  have f: "ps' i = sn_pages s i" if "i \<notin> used (pspans T)" for i using that r(4) dom_used [of i T] by blast
  have "spans_ok A {} F (s\<lparr>sn_pages := ps'\<rparr>)" using f used_mono [OF K(2)] by (intro spans_ok_upd [OF K(1) r(3)]) blast
  then have "pool_state A F pool sp' T L (s\<lparr>sn_pages := ps'\<rparr>)" using r(2) K(2,3) unfolding pool_state_def by auto
  moreover have "pool_frame A F sp T s A F sp' T (s\<lparr>sn_pages := ps'\<rparr>)" using K(2) r(5) f unfolding pool_frame_def by auto
  ultimately show ?thesis using r(1) by blast
qed

section \<open>New spans for a pool\<close>

lemma used_free_apart:
  assumes "spans_ok A H F s"
  shows "used A \<inter> free_pages F = {}"
proof (rule ccontr)
  assume "used A \<inter> free_pages F \<noteq> {}"
  then obtain i a b where i: "a \<in> A" "i \<in> ivl a" "b \<in> frees F" "i \<in> ivl b" unfolding used_def free_pages_def by blast
  then have "a = b" using geoD(2) [OF spans_okD(5) [OF assms], of a b i] by simp
  then show False using i(1,3) spans_okD(7) [OF assms] by blast
qed

lemma alloc_pages_ok:
  assumes ok: "spans_ok A {} F s" and n: "0 < n" "n < 2 ^ 31" and init: "sn_nr_pages s \<noteq> 0"
  shows "alloc_pages n s = Some (None, s) \<or>
    (\<exists>x j s' F'. alloc_pages n s = Some (Some x, s') \<and> spans_ok (insert (x, j) A) {} F' s' \<and> n \<le> 2 ^ j \<and> 2 ^ j < 2 * n \<and> (x, j) \<notin> A \<and>
       ivl (x, j) \<subseteq> free_pages F \<and> free_pages F' = free_pages F - ivl (x, j) \<and> sn_nr_pages s' = sn_nr_pages s \<and>
       map_option pg_pool (sn_pages s' x) = Some None \<and> (\<forall>i. i \<notin> free_pages F \<longrightarrow> sn_pages s' i = sn_pages s i))"
proof (cases "sn_nr_pages s \<le> n")
  case True
  then show ?thesis using init by (simp add: alloc_pages_def)
next
  case False
  have e: "alloc_pages n s = Option.bind (find_and_unlink_span n s) (\<lambda>(r, s).
             case r of None \<Rightarrow> Some (None, s) | Some x \<Rightarrow> map_option (Pair (Some x)) (carve_span x n s))"
    using False by (simp add: alloc_pages_def)
  from find_carve_ok [OF ok n init] show ?thesis
  proof (elim disjE)
    assume "find_and_unlink_span n s = Some (None, s) \<and>
      (\<forall>y m. n \<le> 2 ^ m \<longrightarrow> 2 ^ m dvd y \<longrightarrow> \<not> {y..<y + 2 ^ m} \<subseteq> free_pages F)"
    then show ?thesis using e by simp
  next
    assume "\<exists>x j s1 s' F'. find_and_unlink_span n s = Some (Some x, s1) \<and> carve_span x n s1 = Some s' \<and>
      spans_ok (insert (x, j) A) {} F' s' \<and> n \<le> 2 ^ j \<and> 2 ^ j < 2 * n \<and> (x, j) \<notin> A \<and> ivl (x, j) \<subseteq> free_pages F \<and>
      free_pages F' = free_pages F - ivl (x, j) \<and> sn_nr_free s' + 2 ^ j = sn_nr_free s \<and> sn_nr_pages s' = sn_nr_pages s \<and>
      (\<exists>p. sn_pages s' x = Some p \<and> pg_pool p = None \<and> pg_span_size p = 2 ^ j) \<and>
      (\<forall>i. i \<notin> free_pages F \<longrightarrow> sn_pages s' i = sn_pages s i)"
    then obtain y j s1 s' F' p where r: "find_and_unlink_span n s = Some (Some y, s1)" "carve_span y n s1 = Some s'"
      "spans_ok (insert (y, j) A) {} F' s'" "n \<le> 2 ^ j" "2 ^ j < 2 * n" "(y, j) \<notin> A" "ivl (y, j) \<subseteq> free_pages F"
      "free_pages F' = free_pages F - ivl (y, j)" "sn_nr_free s' + 2 ^ j = sn_nr_free s" "sn_nr_pages s' = sn_nr_pages s"
      "sn_pages s' y = Some p" "pg_pool p = None" "pg_span_size p = 2 ^ j"
      "\<forall>i. i \<notin> free_pages F \<longrightarrow> sn_pages s' i = sn_pages s i" by (elim exE conjE)
    have "alloc_pages n s = Some (Some y, s')" using e r(1,2) by simp
    moreover have "map_option pg_pool (sn_pages s' y) = Some None" using r(11,12) by simp
    ultimately show ?thesis using r(3-8,10,14) by blast
  qed
qed

lemma own_pages_ok:
  assumes "\<forall>i < n. ps (x + i) \<noteq> None"
  shows "\<exists>ps'. own_pages pool x n ps = Some ps' \<and>
    (\<forall>i. ps' i = (if x \<le> i \<and> i < x + n then map_option (\<lambda>p. p\<lparr>pg_offset := i - x, pg_pool := Some pool\<rparr>) (ps i) else ps i))"
  using assms
proof (induction n)
  case (Suc n)
  from Suc.IH Suc.prems obtain ps1 where 1: "own_pages pool x n ps = Some ps1"
    "\<forall>i. ps1 i = (if x \<le> i \<and> i < x + n then map_option (\<lambda>p. p\<lparr>pg_offset := i - x, pg_pool := Some pool\<rparr>) (ps i) else ps i)" by auto
  obtain p where p: "ps (x + n) = Some p" using Suc.prems by blast
  then have p1: "ps1 (x + n) = Some p" using 1(2) by simp
  have "own_pages pool x (Suc n) ps = Some (ps1(x + n \<mapsto> p\<lparr>pg_offset := n, pg_pool := Some pool\<rparr>))"
    using 1(1) p1 by (simp add: upd_page_def)
  moreover have "(ps1(x + n \<mapsto> p\<lparr>pg_offset := n, pg_pool := Some pool\<rparr>)) i =
      (if x \<le> i \<and> i < x + Suc n then map_option (\<lambda>p. p\<lparr>pg_offset := i - x, pg_pool := Some pool\<rparr>) (ps i) else ps i)" for i
    using 1(2) p by (cases "i = x + n") (auto simp: less_Suc_eq)
  ultimately show ?case by blast
qed auto

lemma add_span_ok:
  assumes st: "spans_ok (insert (x, k) A) {} F s" and new: "(x, k) \<notin> A" and T: "pspans T \<subseteq> A" and p: "\<exists>W. pool_ok (sn_pages s) pool sp T L W"
    and n: "0 < n" "n \<le> 2 ^ k" "sp_object_size sp \<le> n * page_size" and init: "sn_nr_pages s \<noteq> 0"
  shows "\<exists>sp' ps'. add_span pool x n sp (sn_pages s) = Some (sp', ps') \<and>
    pool_state (insert (x, k) A) F pool sp' (T(x \<mapsto> (k, n))) L (s\<lparr>sn_pages := ps'\<rparr>) \<and> same_params sp sp' \<and>
    pspans (T(x \<mapsto> (k, n))) = insert (x, k) (pspans T) \<and> x \<notin> dom T \<and> (\<forall>i. i \<notin> ivl (x, k) \<longrightarrow> ps' i = sn_pages s i)"
proof -
  obtain W where ok: "pool_ok (sn_pages s) pool sp T L W" using p by blast
  note K = pool_okD [OF ok] and S = spans_okD [OF st]
  let ?z = "sp_object_size sp" and ?T = "T(x \<mapsto> (k, n))"
  have z: "0 < ?z" using K(1) by (simp add: pool_params_def)
  have g: "0 < x" "x + 2 ^ k \<le> sn_nr_pages s" using geoD(1) [OF S(5), of x k] by simp_all
  have "sn_pages s (x + i) \<noteq> None" if "i < n" for i using S(1) [of "x + i"] that n(2) g(2) by simp
  then obtain ps1 where ps1: "own_pages pool x n (sn_pages s) = Some ps1"
    "\<forall>i. ps1 i = (if x \<le> i \<and> i < x + n then map_option (\<lambda>p. p\<lparr>pg_offset := i - x, pg_pool := Some pool\<rparr>) (sn_pages s i) else sn_pages s i)"
    using own_pages_ok [of n "sn_pages s" x pool] by blast
  have xn: "x \<notin> dom T"
  proof
    assume "x \<in> dom T"
    then obtain j m where j: "(x, j) \<in> pspans T" using pspansI by fastforce
    then have "j = k" using geo_start [OF S(5), of x j k] T by blast
    then show False using j T new by blast
  qed
  have pT: "pspans ?T = insert (x, k) (pspans T)" using xn by (auto simp: pspans_def split: if_splits)
  define objs where "objs = map (\<lambda>offset. x * page_size + offset) (object_offsets (n * page_size) ?z)"
  have so: "set objs = slots_in ?z x n" "distinct objs" using set_object_offsets [OF z n(3), of x] by (simp_all add: objs_def)
  obtain q where q: "sn_pages s x = Some q" using S(1) [of x] g(2) by (metis le_add1 le_trans not_None_eq)
  define q' where "q' = q\<lparr>pg_offset := 0, pg_pool := Some pool, pg_nr_small := length objs, pg_freelist := []\<rparr>"
  define ps' where "ps' = ps1(x \<mapsto> q')"
  define sp' where "sp' = sp\<lparr>sp_pages_in_use := sp_pages_in_use sp + of_nat n, sp_free := rev objs @ sp_free sp, sp_free_count := sp_free_count sp + length objs\<rparr>"
  have q1: "ps1 x = Some (q\<lparr>pg_offset := 0, pg_pool := Some pool\<rparr>)" using ps1(2) q n(1) by simp
  have r: "add_span pool x n sp (sn_pages s) = Some (sp', ps')"
    using ps1(1) q1 by (simp add: add_span_def fold_push_free upd_page_def ps'_def q'_def sp'_def flip: objs_def)
  have other: "ps' i = sn_pages s i" if "i \<notin> ivl (x, k)" for i using that ps1(2) n(2) by (auto simp: ps'_def)
  have f': "flist ps' y = (if y = x then [] else flist (sn_pages s) y)" for y
  proof (cases "y = x")
    case False
    have "map_option pg_freelist (ps' y) = map_option pg_freelist (sn_pages s y)" using False ps1(2) by (cases "sn_pages s y") (auto simp: ps'_def)
    then show ?thesis using False by (cases "ps' y"; cases "sn_pages s y") (auto simp: flist_def)
  qed (simp add: ps'_def q'_def flist_def)
  have tags: "same_tags (sn_pages s) ps'"
    unfolding same_tags_def
  proof
    fix i show "map_option (\<lambda>p. (pg_free p, pg_span_size p)) (ps' i) = map_option (\<lambda>p. (pg_free p, pg_span_size p)) (sn_pages s i)"
      using ps1(2) q by (cases "sn_pages s i") (auto simp: ps'_def q'_def)
  qed
  have spok: "spans_ok (insert (x, k) A) {} F (s\<lparr>sn_pages := ps'\<rparr>)"
  proof (rule spans_ok_upd [OF st tags])
    fix i assume "i \<notin> used (insert (x, k) A)"
    then show "ps' i = sn_pages s i" using other by simp
  qed
  have oldok: "pool_ok ps' pool sp T L W"
  proof (rule pool_ok_cong [OF ok])
    fix i assume "i \<in> used (pspans T)"
    then obtain a where a: "a \<in> pspans T" "i \<in> ivl a" by (auto simp: used_def)
    have "i \<notin> ivl (x, k)"
    proof
      assume "i \<in> ivl (x, k)"
      then have "a = (x, k)" using geoD(2) [OF S(5), of a "(x, k)" i] a T by blast
      then show False using a(1) T new by blast
    qed
    then show "ps' i = sn_pages s i" by (rule other)
  qed
  note O = pool_okD [OF oldok]
  have span: "span_ok ps' pool ?z x k n"
  proof -
    have o: "outside ps' ?z x n = slots_in ?z x n" by (simp add: outside_def f')
    have "map_option pg_nr_small (ps' x) = Some (card (slots_in ?z x n))" using so distinct_card [OF so(2)] by (simp add: ps'_def q'_def)
    moreover have "map_option (\<lambda>p. (pg_pool p, pg_offset p)) (ps' (x + i)) = Some (Some pool, i)" if "i < n" for i
    proof -
      have "x + i \<le> sn_nr_pages s" using that n(2) g(2) by linarith
      then obtain p where "sn_pages s (x + i) = Some p" using S(1) [of "x + i"] by blast
      then show ?thesis using ps1(2) that q by (cases "i = 0") (simp_all add: ps'_def q'_def)
    qed
    moreover have "x * page_size + 0 * ?z \<in> slots_in ?z x n" using n(3) unfolding slots_in_def by fastforce
    then have "{} \<subset> slots_in ?z x n" by blast
    ultimately show ?thesis unfolding span_ok_def o f' using g(1) n(2,3) by simp
  qed
  have zz: "sp_object_size sp' = ?z" by (simp add: sp'_def)
  have gT: "geo (sn_nr_pages s) (pspans ?T)" using geo_subset [OF S(5)] T pT by auto
  have ox: "outs ps' ?z ?T = slots_in ?z x n \<union> outs ps' ?z T"
  proof -
    have "?T(x := None) = T" using xn by auto
    then show ?thesis using outs_split [of ?T x k n ps' ?z] by (simp add: outside_def f')
  qed
  have apart: "slots_in ?z x n \<inter> outs ps' ?z T = {}"
  proof (rule ccontr)
    assume "slots_in ?z x n \<inter> outs ps' ?z T \<noteq> {}"
    then obtain a y j m where a: "a \<in> slots_in ?z x n" "T y = Some (j, m)" "a \<in> outside ps' ?z y m" by (auto simp: outs_def)
    have y: "y \<noteq> x" using a(2) xn by auto
    have "?T y = Some (j, m)" "?T x = Some (k, n)" using a(2) y by simp_all
    from slots_apart [OF gT z this(1) O(2) [OF a(2)] this(2) span y] show False using a by (auto simp: outside_def)
  qed
  have "pool_ok ps' pool sp' ?T L W"
    unfolding pool_ok_def zz
  proof (intro conjI allI impI)
    show "pool_params sp'" using K(1) by (simp add: sp'_def pool_params_def)
    show "span_ok ps' pool ?z y j m" if "?T y = Some (j, m)" for y j m
      using that span O(2) [of y j m] by (cases "y = x") simp_all
    show "distinct (sp_free sp')" using O(3,6) so apart by (auto simp: sp'_def)
    show "sp_free_count sp' = length (sp_free sp')" using O(4) by (simp add: sp'_def)
    show "set (sp_free sp') \<inter> L = {}" using O(5,6) so apart by (auto simp: sp'_def)
    show "set (sp_free sp') \<union> L = outs ps' ?z ?T" unfolding ox O(6) [symmetric] using so(1) by (auto simp: sp'_def)
    show "dll ps' (sp_span_list sp') W" using O(7) by (simp add: sp'_def)
    show "set W = {y \<in> dom ?T. flist ps' y \<noteq> []}" using O(8) f' by auto
  qed
  then have "pool_state (insert (x, k) A) F pool sp' ?T L (s\<lparr>sn_pages := ps'\<rparr>)"
    using spok T pT init unfolding pool_state_def by auto
  moreover have "same_params sp sp'" by (simp add: sp'_def)
  ultimately show ?thesis using r pT xn other by blast
qed

definition pool_result :: "span set \<Rightarrow> (nat \<Rightarrow> nat list) \<Rightarrow> nat \<Rightarrow> small_pool \<Rightarrow> pool_spans \<Rightarrow> nat set \<Rightarrow> spans \<Rightarrow> nat set \<Rightarrow> small_pool \<Rightarrow> spans \<Rightarrow> bool" where
  "pool_result A F pool sp T L s L' sp' s' \<longleftrightarrow>
     (\<exists>A' F' T'. pool_state A' F' pool sp' T' L' s' \<and> pool_frame A F sp T s A' F' sp' T' s')"

lemma pool_result_trans:
  assumes "pool_frame A F sp T s A1 F1 sp1 T1 s1" and "pool_result A1 F1 pool sp1 T1 L1 s1 L' sp' s'"
  shows "pool_result A F pool sp T L s L' sp' s'"
  using assms pool_frame_trans unfolding pool_result_def by blast

lemma pool_result_refl: "pool_state A F pool sp' T L' s' \<Longrightarrow> pool_frame A F sp T s A F sp' T s' \<Longrightarrow> pool_result A F pool sp T L s L' sp' s'"
  unfolding pool_result_def by blast

lemma pool_params_pos:
  assumes "pool_params sp"
  shows "0 < sp_fallback sp" "0 < sp_preferred sp"
  using assms by (auto simp: pool_params_def intro!: Nat.gr0I)

lemma alloc_span_ok:
  assumes st: "pool_state A F pool sp T L s"
  shows "alloc_span sp s = Some (None, s) \<or>
    (\<exists>n x k s' F'. alloc_span sp s = Some (Some (n, x), s') \<and> n \<in> {sp_preferred sp, sp_fallback sp} \<and>
       spans_ok (insert (x, k) A) {} F' s' \<and> n \<le> 2 ^ k \<and> (x, k) \<notin> A \<and>
       ivl (x, k) \<subseteq> free_pages F \<and> free_pages F' = free_pages F - ivl (x, k) \<and> sn_nr_pages s' = sn_nr_pages s \<and>
       (\<forall>i. i \<notin> free_pages F \<longrightarrow> sn_pages s' i = sn_pages s i))"
proof -
  note K = pool_stateD [OF st]
  have p: "sp_fallback sp < 2 ^ 31" "sp_preferred sp < 2 ^ 31" using K(6) by (simp_all add: pool_params_def)
  note pos = pool_params_pos [OF K(6)]
  from alloc_pages_ok [OF K(1) pos(2) p(2) K(3)] show ?thesis
  proof (elim disjE)
    assume none: "alloc_pages (sp_preferred sp) s = Some (None, s)"
    from alloc_pages_ok [OF K(1) pos(1) p(1) K(3)] show ?thesis
    proof (elim disjE exE conjE)
      assume "alloc_pages (sp_fallback sp) s = Some (None, s)"
      then show ?thesis using none by (simp add: alloc_span_def)
    next
      fix x j s' F'
      assume "alloc_pages (sp_fallback sp) s = Some (Some x, s')"
      then have "alloc_span sp s = Some (Some (sp_fallback sp, x), s')" using none by (simp add: alloc_span_def)
      then show "spans_ok (insert (x, j) A) {} F' s' \<Longrightarrow> sp_fallback sp \<le> 2 ^ j \<Longrightarrow> (x, j) \<notin> A \<Longrightarrow> ivl (x, j) \<subseteq> free_pages F \<Longrightarrow>
        free_pages F' = free_pages F - ivl (x, j) \<Longrightarrow> sn_nr_pages s' = sn_nr_pages s \<Longrightarrow>
        \<forall>i. i \<notin> free_pages F \<longrightarrow> sn_pages s' i = sn_pages s i \<Longrightarrow> ?thesis" by blast
    qed
  next
    assume "\<exists>x j s' F'. alloc_pages (sp_preferred sp) s = Some (Some x, s') \<and> spans_ok (insert (x, j) A) {} F' s' \<and>
       sp_preferred sp \<le> 2 ^ j \<and> 2 ^ j < 2 * sp_preferred sp \<and> (x, j) \<notin> A \<and>
       ivl (x, j) \<subseteq> free_pages F \<and> free_pages F' = free_pages F - ivl (x, j) \<and> sn_nr_pages s' = sn_nr_pages s \<and>
       map_option pg_pool (sn_pages s' x) = Some None \<and> (\<forall>i. i \<notin> free_pages F \<longrightarrow> sn_pages s' i = sn_pages s i)"
    then obtain x j s' F' where "alloc_pages (sp_preferred sp) s = Some (Some x, s')" "spans_ok (insert (x, j) A) {} F' s'"
       "sp_preferred sp \<le> 2 ^ j" "(x, j) \<notin> A"
       "ivl (x, j) \<subseteq> free_pages F" "free_pages F' = free_pages F - ivl (x, j)" "sn_nr_pages s' = sn_nr_pages s"
       "\<forall>i. i \<notin> free_pages F \<longrightarrow> sn_pages s' i = sn_pages s i" by (elim exE conjE)
    moreover from this(1) have "alloc_span sp s = Some (Some (sp_preferred sp, x), s')" by (simp add: alloc_span_def)
    ultimately show ?thesis by blast
  qed
qed

lemma used_pspans_upd:
  assumes "pspans T' = insert a (pspans T)"
  shows "used (pspans T') = ivl a \<union> used (pspans T)"
  by (simp add: assms)

lemma grow_pool_ok:
  assumes st: "pool_state A F pool sp T L s"
  shows "alloc_span sp s = Some (None, s) \<or>
    (\<exists>n x s1 sp' ps'. alloc_span sp s = Some (Some (n, x), s1) \<and> add_span pool x n sp (sn_pages s1) = Some (sp', ps') \<and>
       (\<exists>A' F' T'. pool_state A' F' pool sp' T' L (s1\<lparr>sn_pages := ps'\<rparr>) \<and> pool_frame A F sp T s A' F' sp' T' (s1\<lparr>sn_pages := ps'\<rparr>)))"
proof -
  note K = pool_stateD [OF st]
  note free = used_free_apart [OF K(1)]
  from alloc_span_ok [OF st] show ?thesis
  proof (elim disjE)
    assume "\<exists>n x k s' F'. alloc_span sp s = Some (Some (n, x), s') \<and> n \<in> {sp_preferred sp, sp_fallback sp} \<and>
       spans_ok (insert (x, k) A) {} F' s' \<and> n \<le> 2 ^ k \<and> (x, k) \<notin> A \<and>
       ivl (x, k) \<subseteq> free_pages F \<and> free_pages F' = free_pages F - ivl (x, k) \<and> sn_nr_pages s' = sn_nr_pages s \<and>
       (\<forall>i. i \<notin> free_pages F \<longrightarrow> sn_pages s' i = sn_pages s i)"
    then obtain n x k s1 F1 where r: "alloc_span sp s = Some (Some (n, x), s1)" "n \<in> {sp_preferred sp, sp_fallback sp}"
       "spans_ok (insert (x, k) A) {} F1 s1" "n \<le> 2 ^ k" "(x, k) \<notin> A"
       "ivl (x, k) \<subseteq> free_pages F" "free_pages F1 = free_pages F - ivl (x, k)" "sn_nr_pages s1 = sn_nr_pages s"
       "\<forall>i. i \<notin> free_pages F \<longrightarrow> sn_pages s1 i = sn_pages s i" by (elim exE conjE)
    have n: "0 < n" "sp_object_size sp \<le> n * page_size" using r(2) pool_params_pos [OF K(6)] K(6) by (auto simp: pool_params_def)
    have T1: "\<exists>W. pool_ok (sn_pages s1) pool sp T L W"
    proof -
      obtain W where W: "pool_ok (sn_pages s) pool sp T L W" using K(4) by blast
      have "pool_ok (sn_pages s1) pool sp T L W"
      proof (rule pool_ok_cong [OF W])
        fix i assume "i \<in> used (pspans T)"
        then have "i \<notin> free_pages F" using used_mono [OF K(2)] free by blast
        then show "sn_pages s1 i = sn_pages s i" using r(9) by blast
      qed
      then show ?thesis by blast
    qed
    have "sn_nr_pages s1 \<noteq> 0" using r(8) K(3) by simp
    from add_span_ok [OF r(3,5) K(2) T1 n(1) r(4) n(2) this] obtain sp' ps' where a: "add_span pool x n sp (sn_pages s1) = Some (sp', ps')"
      "pool_state (insert (x, k) A) F1 pool sp' (T(x \<mapsto> (k, n))) L (s1\<lparr>sn_pages := ps'\<rparr>)" "same_params sp sp'"
      "pspans (T(x \<mapsto> (k, n))) = insert (x, k) (pspans T)" "\<forall>i. i \<notin> ivl (x, k) \<longrightarrow> ps' i = sn_pages s1 i" by (elim exE conjE)
    have "pool_frame A F sp T s (insert (x, k) A) F1 sp' (T(x \<mapsto> (k, n))) (s1\<lparr>sn_pages := ps'\<rparr>)"
      unfolding pool_frame_def a(4)
    proof (intro conjI allI impI)
      show "insert (x, k) A = A - pspans T \<union> insert (x, k) (pspans T)" using K(2) by blast
      show "(A - pspans T) \<inter> insert (x, k) (pspans T) = {}" using r(5) by blast
      show "free_pages F1 \<union> used (insert (x, k) (pspans T)) = free_pages F \<union> used (pspans T)" using r(6,7) unfolding used_insert by blast
      show "same_params sp sp'" by (rule a(3))
      show "sn_nr_pages (s1\<lparr>sn_pages := ps'\<rparr>) = sn_nr_pages s" using r(8) by simp
      show "sn_pages (s1\<lparr>sn_pages := ps'\<rparr>) i = sn_pages s i" if "i \<notin> free_pages F \<union> used (pspans T)" for i
        using that a(5) r(6,9) by (metis Un_iff spans.select_convs(1) spans.surjective spans.update_convs(1) subset_iff)
    qed
    then show ?thesis using r(1) a(1,2) by blast
  qed blast
qed

lemma fill_pool_ok:
  assumes "pool_state A F pool sp T L s"
  shows "\<exists>sp' s'. fill_pool pool goal sp s = Some (sp', s') \<and> pool_result A F pool sp T L s L sp' s' \<and>
    (goal \<le> sp_free_count sp' \<or> alloc_span sp' s' = Some (None, s'))"
  using assms
proof (induction pool goal sp s arbitrary: A F T rule: fill_pool.induct)
  case (1 pool goal sp s)
  show ?case
  proof (cases "sp_free_count sp < goal")
    case False
    then have "fill_pool pool goal sp s = Some (sp, s)" by (subst fill_pool.simps) simp
    then show ?thesis using pool_result_refl [OF 1(2)] pool_stateD(2) [OF 1(2)] False by simp
  next
    case True
    from grow_pool_ok [OF 1(2)] show ?thesis
    proof (elim disjE)
      assume none: "alloc_span sp s = Some (None, s)"
      then have "fill_pool pool goal sp s = Some (sp, s)" using True by (subst fill_pool.simps) simp
      then show ?thesis using none pool_result_refl [OF 1(2)] pool_stateD(2) [OF 1(2)] by simp
    next
      assume "\<exists>n x s1 sp' ps'. alloc_span sp s = Some (Some (n, x), s1) \<and> add_span pool x n sp (sn_pages s1) = Some (sp', ps') \<and>
       (\<exists>A' F' T'. pool_state A' F' pool sp' T' L (s1\<lparr>sn_pages := ps'\<rparr>) \<and> pool_frame A F sp T s A' F' sp' T' (s1\<lparr>sn_pages := ps'\<rparr>))"
      then obtain n x s1 sp1 ps1 A1 F1 T1 where r: "alloc_span sp s = Some (Some (n, x), s1)" "add_span pool x n sp (sn_pages s1) = Some (sp1, ps1)"
        "pool_state A1 F1 pool sp1 T1 L (s1\<lparr>sn_pages := ps1\<rparr>)" "pool_frame A F sp T s A1 F1 sp1 T1 (s1\<lparr>sn_pages := ps1\<rparr>)" by (elim exE conjE)
      from 1(1) [OF True r(1) refl refl refl r(2) refl r(3)] obtain sp' s' where s': "fill_pool pool goal sp1 (s1\<lparr>sn_pages := ps1\<rparr>) = Some (sp', s')"
        "pool_result A1 F1 pool sp1 T1 L (s1\<lparr>sn_pages := ps1\<rparr>) L sp' s'" "goal \<le> sp_free_count sp' \<or> alloc_span sp' s' = Some (None, s')" by (elim exE conjE)
      have "fill_pool pool goal sp s = Some (sp', s')" using True r(1,2) s'(1) by (subst fill_pool.simps) simp
      then show ?thesis using pool_result_trans [OF r(4) s'(2)] s'(3) by blast
    qed
  qed
qed

lemma add_more_objects_ok:
  assumes st: "pool_state A F pool sp T L s"
  shows "\<exists>sp' s'. add_more_objects pool sp s = Some (sp', s') \<and> pool_result A F pool sp T L s L sp' s' \<and>
    (pool_goal sp \<le> sp_free_count sp' \<or> alloc_span sp' s' = Some (None, s'))"
proof -
  from take_spans_state [OF st, of "pool_goal sp"] obtain sp1 ps1 where 1: "take_spans (pool_goal sp) sp (sn_pages s) = Some (sp1, ps1)"
    "pool_state A F pool sp1 T L (s\<lparr>sn_pages := ps1\<rparr>)" "pool_frame A F sp T s A F sp1 T (s\<lparr>sn_pages := ps1\<rparr>)" by (elim exE conjE)
  from fill_pool_ok [OF 1(2), of "pool_goal sp1"] obtain sp' s' where 2: "fill_pool pool (pool_goal sp1) sp1 (s\<lparr>sn_pages := ps1\<rparr>) = Some (sp', s')"
    "pool_result A F pool sp1 T L (s\<lparr>sn_pages := ps1\<rparr>) L sp' s'" "pool_goal sp1 \<le> sp_free_count sp' \<or> alloc_span sp' s' = Some (None, s')" by (elim exE conjE)
  have "pool_goal sp1 = pool_goal sp" using 1(3) same_paramsD(2) unfolding pool_frame_def by blast
  then have "pool_goal sp \<le> sp_free_count sp' \<or> alloc_span sp' s' = Some (None, s')" using 2(3) by simp
  moreover have "add_more_objects pool sp s = Some (sp', s')" using 1(1) 2(1) by (simp add: add_more_objects_def)
  ultimately show ?thesis using pool_result_trans [OF 1(3) 2(2)] by blast
qed

section \<open>Serving requests from a pool\<close>

lemma pool_ok_pop:
  assumes ok: "pool_ok ps pool sp T L W" and f: "sp_free sp = a # rest"
  shows "pool_ok ps pool (sp\<lparr>sp_free := rest, sp_free_count := sp_free_count sp - 1\<rparr>) T (insert a L) W" and "a \<notin> L"
proof -
  note K = pool_okD [OF ok]
  show "a \<notin> L" using K(5) f by auto
  then show "pool_ok ps pool (sp\<lparr>sp_free := rest, sp_free_count := sp_free_count sp - 1\<rparr>) T (insert a L) W"
    using K f unfolding pool_ok_def by (auto simp: pool_params_def)
qed

lemma pool_ok_push:
  assumes ok: "pool_ok ps pool sp T L W" and a: "a \<in> L"
  shows "pool_ok ps pool (push_free a sp) T (L - {a}) W"
proof -
  note K = pool_okD [OF ok]
  have "a \<notin> set (sp_free sp)" using K(5) a by blast
  then show ?thesis using K a unfolding pool_ok_def push_free_def by (auto simp: pool_params_def)
qed

lemma pool_state_pop:
  assumes st: "pool_state A F pool sp T L s" and f: "sp_free sp = a # rest"
  shows "pool_state A F pool (sp\<lparr>sp_free := rest, sp_free_count := sp_free_count sp - 1\<rparr>) T (insert a L) s" and "a \<notin> L"
  using st pool_ok_pop [OF _ f] unfolding pool_state_def by blast+

lemma pool_state_push:
  assumes st: "pool_state A F pool sp T L s" and a: "a \<in> L"
  shows "pool_state A F pool (push_free a sp) T (L - {a}) s"
  using st pool_ok_push [OF _ a] unfolding pool_state_def by blast

lemma pool_result_pop:
  assumes r: "pool_result A F pool sp T L s L' sp' s'" and f: "sp_free sp' = a # rest"
  shows "pool_result A F pool sp T L s (insert a L') (sp'\<lparr>sp_free := rest, sp_free_count := sp_free_count sp' - 1\<rparr>) s'" and "a \<notin> L'"
proof -
  obtain A' F' T' where 1: "pool_state A' F' pool sp' T' L' s'" "pool_frame A F sp T s A' F' sp' T' s'" using r unfolding pool_result_def by blast
  have "pool_frame A F sp T s A' F' (sp'\<lparr>sp_free := rest, sp_free_count := sp_free_count sp' - 1\<rparr>) T' s'"
    using 1(2) unfolding pool_frame_def by simp
  then show "pool_result A F pool sp T L s (insert a L') (sp'\<lparr>sp_free := rest, sp_free_count := sp_free_count sp' - 1\<rparr>) s'"
    using pool_state_pop(1) [OF 1(1) f] unfolding pool_result_def by blast
  show "a \<notin> L'" using pool_state_pop(2) [OF 1(1) f] .
qed

lemma pool_allocate_ok:
  assumes st: "pool_state A F pool sp T L s"
  shows "\<exists>r sp' s'. pool_allocate pool sp s = Some (r, sp', s') \<and>
    (case r of None \<Rightarrow> alloc_span sp' s' = Some (None, s') \<and> pool_result A F pool sp T L s L sp' s' | Some a \<Rightarrow> a \<notin> L \<and> pool_result A F pool sp T L s (insert a L) sp' s')"
proof -
  obtain sp1 s1 where 1: "(if sp_free sp = [] then add_more_objects pool sp s else Some (sp, s)) = Some (sp1, s1)"
    "pool_result A F pool sp T L s L sp1 s1" "sp_free sp1 = [] \<Longrightarrow> alloc_span sp1 s1 = Some (None, s1)"
  proof (cases "sp_free sp = []")
    case True
    from add_more_objects_ok [OF st] obtain sp1 s1 where r: "add_more_objects pool sp s = Some (sp1, s1)" "pool_result A F pool sp T L s L sp1 s1"
      "pool_goal sp \<le> sp_free_count sp1 \<or> alloc_span sp1 s1 = Some (None, s1)" by (elim exE conjE)
    obtain A' F' T' where "pool_state A' F' pool sp1 T' L s1" using r(2) unfolding pool_result_def by blast
    then obtain W where "pool_ok (sn_pages s1) pool sp1 T' L W" using pool_stateD(4) by blast
    then have c: "sp_free_count sp1 = length (sp_free sp1)" by (rule pool_okD(4))
    have "0 < pool_goal sp" using pool_stateD(6) [OF st] by (simp add: pool_params_def pool_goal_def)
    then have "alloc_span sp1 s1 = Some (None, s1)" if "sp_free sp1 = []" using r(3) c that by auto
    then show ?thesis using that r(1,2) True by auto
  next
    case False
    then show ?thesis using pool_result_refl [OF st] pool_stateD(2) [OF st] that by simp
  qed
  show ?thesis
  proof (cases "sp_free sp1")
    case Nil
    then have "pool_allocate pool sp s = Some (None, sp1, s1)" using 1(1) by (simp add: pool_allocate_def)
    then show ?thesis using 1(2,3) Nil by simp
  next
    case (Cons a rest)
    then have "pool_allocate pool sp s = Some (Some a, sp1\<lparr>sp_free := rest, sp_free_count := sp_free_count sp1 - 1\<rparr>, s1)"
      using 1(1) by (simp add: pool_allocate_def)
    then show ?thesis using pool_result_pop [OF 1(2) Cons] by simp
  qed
qed

section \<open>Giving objects back to their spans\<close>

lemma give_core:
  assumes ok: "pool_ok ps pool sp T L W" and g: "geo m (pspans T)" and a: "a \<in> L"
  shows "\<exists>x k n l ps1 ps2 W1 p. T x = Some (k, n) \<and> a \<in> outside ps (sp_object_size sp) x n \<and>
    map_option (\<lambda>p. a div page_size - pg_offset p) (ps (a div page_size)) = Some x \<and>
    (if flist ps x = [] then pl_push_front x (sp_span_list sp) ps else Some (sp_span_list sp, ps)) = Some (l, ps1) \<and>
    upd_page x (\<lambda>span. span\<lparr>pg_freelist := a # pg_freelist span, pg_nr_small := pg_nr_small span - 1\<rparr>) ps1 = Some ps2 \<and>
    ps2 x = Some p \<and> pg_freelist p = a # flist ps x \<and> pg_nr_small p = card (outside ps (sp_object_size sp) x n) - 1 \<and>
    dll ps2 l W1 \<and> set W1 = insert x (set W) \<and> same_tags ps ps2 \<and> (\<forall>j. j \<notin> dom T \<longrightarrow> ps2 j = ps j) \<and>
    (\<forall>j. j \<noteq> x \<longrightarrow> same_obj (ps2 j) (ps j)) \<and> map_option (\<lambda>p. (pg_pool p, pg_offset p)) (ps2 x) = map_option (\<lambda>p. (pg_pool p, pg_offset p)) (ps x)"
proof -
  note K = pool_okD [OF ok]
  let ?z = "sp_object_size sp"
  have z: "0 < ?z" using K(1) by (simp add: pool_params_def)
  have "a \<in> outs ps ?z T" using K(6) a by blast
  then obtain x k n where T: "T x = Some (k, n)" and ao: "a \<in> outside ps ?z x n" unfolding outs_def by blast
  note S = span_okD [OF K(2) [OF T]]
  have as: "a \<in> slots_in ?z x n" using ao by (simp add: outside_def)
  note pg = slot_page [OF as z S(2)]
  define i where "i = a div page_size - x"
  have i: "a div page_size = x + i" "i < n" using pg(1,2) by (simp_all add: i_def)
  have idx: "map_option (\<lambda>p. a div page_size - pg_offset p) (ps (a div page_size)) = Some x"
    using S(7) [OF i(2)] unfolding i(1) by (cases "ps (x + i)") simp_all
  obtain q where q: "ps x = Some q" using S(6) by auto
  obtain l ps1 W1 where 1: "(if flist ps x = [] then pl_push_front x (sp_span_list sp) ps else Some (sp_span_list sp, ps)) = Some (l, ps1)"
    "dll ps1 l W1" "set W1 = insert x (set W)" "links_only (insert x (set W)) ps ps1"
  proof (cases "flist ps x = []")
    case True
    then have "x \<notin> set W" using K(8) by blast
    then show ?thesis using pl_push_front_ok [OF K(7), of x] S(1) q True that [of _ _ "x # W"] by auto
  next
    case False
    then have "x \<in> set W" using K(8) T by auto
    then show ?thesis using False K(7) that [of _ _ W] links_only_refl by (simp add: insert_absorb)
  qed
  have so: "same_obj (ps1 j) (ps j)" for j by (rule links_only_same_obj [OF 1(4)])
  obtain q1 where q1: "ps1 x = Some q1" using so [of x] q by (cases "ps1 x") (auto simp: same_obj_def)
  have e: "pg_freelist q1 = flist ps x" "Some (pg_nr_small q1) = map_option pg_nr_small (ps x)"
    using same_objD(1,2) [of ps1 x ps, OF so] q1 by (simp_all add: flist_def)
  define p where "p = q1\<lparr>pg_freelist := a # pg_freelist q1, pg_nr_small := pg_nr_small q1 - 1\<rparr>"
  define ps2 where "ps2 = ps1(x \<mapsto> p)"
  have "upd_page x (\<lambda>span. span\<lparr>pg_freelist := a # pg_freelist span, pg_nr_small := pg_nr_small span - 1\<rparr>) ps1 = Some ps2"
    using q1 by (simp add: upd_page_def ps2_def p_def)
  moreover have "ps2 x = Some p" "pg_freelist p = a # flist ps x" "pg_nr_small p = card (outside ps ?z x n) - 1"
    using e S(6) by (simp_all add: ps2_def p_def)
  moreover have "dll ps2 l W1"
  proof (rule dll_cong [OF 1(2)])
    fix y show "same_links (ps2 y) (ps1 y)" using q1 by (simp add: ps2_def p_def same_links_def)
  qed
  moreover have "same_tags ps ps2"
    using same_tags_links_only [OF 1(4)] q1 by (simp add: same_tags_def ps2_def p_def) (metis option.map(2))
  moreover have "ps2 j = ps j" if "j \<notin> dom T" for j
  proof -
    have "j \<noteq> x" "j \<notin> insert x (set W)" using that T K(8) by auto
    then show ?thesis using links_onlyD(1) [OF 1(4)] by (simp add: ps2_def)
  qed
  moreover have "same_obj (ps2 j) (ps j)" if "j \<noteq> x" for j using so that by (simp add: ps2_def)
  moreover have "map_option (\<lambda>p. (pg_pool p, pg_offset p)) (ps2 x) = map_option (\<lambda>p. (pg_pool p, pg_offset p)) (ps x)"
    using same_objD(3) [of ps1 x ps, OF so] q1 by (simp add: ps2_def p_def)
  ultimately show ?thesis using T ao idx 1(1,3) by blast
qed

text \<open>After \<open>a\<close> was given back: the pool, or the pool without the span when nothing of it is left outside.\<close>

lemma give_object_ok:
  assumes st: "pool_state A F pool sp T L s" and a: "a \<in> L"
  shows "\<exists>sp' s'. give_object a sp s = Some (sp', s') \<and> pool_result A F pool sp T L s (L - {a}) sp' s' \<and>
    sp_free sp' = sp_free sp \<and> sp_free_count sp' = sp_free_count sp"
proof -
  note K0 = pool_stateD [OF st]
  obtain W where ok: "pool_ok (sn_pages s) pool sp T L W" using K0(4) by blast
  note K = pool_okD [OF ok]
  let ?z = "sp_object_size sp" and ?ps = "sn_pages s"
  have z: "0 < ?z" using K(1) by (simp add: pool_params_def)
  from give_core [OF ok K0(5) a] obtain x k n l ps1 ps2 W1 p where r: "T x = Some (k, n)" "a \<in> outside ?ps ?z x n"
    "map_option (\<lambda>p. a div page_size - pg_offset p) (?ps (a div page_size)) = Some x"
    "(if flist ?ps x = [] then pl_push_front x (sp_span_list sp) ?ps else Some (sp_span_list sp, ?ps)) = Some (l, ps1)"
    "upd_page x (\<lambda>span. span\<lparr>pg_freelist := a # pg_freelist span, pg_nr_small := pg_nr_small span - 1\<rparr>) ps1 = Some ps2"
    "ps2 x = Some p" "pg_freelist p = a # flist ?ps x" "pg_nr_small p = card (outside ?ps ?z x n) - 1"
    "dll ps2 l W1" "set W1 = insert x (set W)" "same_tags ?ps ps2" "\<forall>j. j \<notin> dom T \<longrightarrow> ps2 j = ?ps j"
    "\<forall>j. j \<noteq> x \<longrightarrow> same_obj (ps2 j) (?ps j)"
    "map_option (\<lambda>p. (pg_pool p, pg_offset p)) (ps2 x) = map_option (\<lambda>p. (pg_pool p, pg_offset p)) (?ps x)" by (elim exE conjE)
  note S = span_okD [OF K(2) [OF r(1)]]
  have xA: "(x, k) \<in> A" using K0(2) pspansI [of T x k n, OF r(1)] by blast
  define sp1 where "sp1 = sp\<lparr>sp_span_list := l\<rparr>"
  define s2 where "s2 = s\<lparr>sn_pages := ps2\<rparr>"
  have give: "give_object a sp s = drop_empty_span x sp1 s2"
  proof -
    obtain p0 where p0: "?ps (a div page_size) = Some p0" "a div page_size - pg_offset p0 = x" using r(3) by auto
    obtain q where q: "?ps x = Some q" using S(6) by auto
    then have "flist ?ps x = pg_freelist q" by (simp add: flist_def)
    then show ?thesis using p0 q r(4,5) by (simp add: give_object_def sp1_def s2_def)
  qed
  have framed: "ps2 i = ?ps i" if "i \<notin> used (pspans T)" for i using that r(12) dom_used [of i T] by blast
  have sok: "spans_ok A {} F s2"
    unfolding s2_def using framed used_mono [OF K0(2)] by (intro spans_ok_upd [OF K0(1) r(11)]) blast
  \<comment> \<open>the pages of the other spans are as before\<close>
  have other: "span_ok ps2 pool ?z y j m" if "T y = Some (j, m)" "y \<noteq> x" for y j m
  proof (rule span_ok_cong [OF K(2) [OF that(1)]])
    fix i assume i: "i \<in> ivl (y, j)"
    have "x \<notin> ivl (y, j)" using pspans_apart [OF K0(5) that(1) r(1) that(2)] head_in_ivl [of x k] by blast
    then have "i \<noteq> x" using i by blast
    then show "same_obj (ps2 i) (?ps i)" using r(13) by simp
  qed
  have fl: "flist ps2 y = (if y = x then a # flist ?ps x else flist ?ps y)" for y
    using r(6,7) r(13) same_objD(1) [of ps2 y ?ps] by (auto simp: flist_def)
  have o2: "outside ps2 ?z x n = outside ?ps ?z x n - {a}" by (auto simp: outside_def fl)
  have fino: "finite (outside ?ps ?z x n)" using finite_slots [OF z] by (simp add: outside_def)
  have cn: "pg_nr_small p = card (outside ps2 ?z x n)" using r(2,8) fino o2 by simp
  have asl: "a \<in> slots_in ?z x n" "a \<notin> set (flist ?ps x)" using r(2) by (simp_all add: outside_def)
  have rest: "outs ps2 ?z (T(x := None)) = outs ?ps ?z (T(x := None))" by (rule outs_cong) (simp add: fl split: if_splits)
  have a_rest: "a \<notin> outs ?ps ?z (T(x := None))"
  proof
    assume "a \<in> outs ?ps ?z (T(x := None))"
    then obtain y j m where y: "y \<noteq> x" "T y = Some (j, m)" "a \<in> outside ?ps ?z y m" by (auto simp: outs_def split: if_splits)
    from slots_apart [OF K0(5) z y(2) K(2) [OF y(2)] r(1) K(2) [OF r(1)] y(1)] show False using asl(1) y(3) by (auto simp: outside_def)
  qed
  have a_free: "a \<notin> set (sp_free sp)" using K(5) a by blast
  have out: "set (sp_free sp) \<union> (L - {a}) = (outside ?ps ?z x n - {a}) \<union> outs ?ps ?z (T(x := None))"
  proof -
    have "set (sp_free sp) \<union> L = outside ?ps ?z x n \<union> outs ?ps ?z (T(x := None))" using K(6) outs_split [of T x k n ?ps ?z, OF r(1)] by simp
    then show ?thesis using a_rest a_free by blast
  qed
  have free_disj: "set (sp_free sp) \<inter> (L - {a}) = {}" using K(5) by blast
  show ?thesis
  proof (cases "outside ps2 ?z x n = {}")
    case False
    have "pg_nr_small p \<noteq> 0" using cn False fino o2 by (metis card_0_eq finite_Diff)
    then have res: "give_object a sp s = Some (sp1, s2)" using give r(6) by (simp add: drop_empty_span_def s2_def)
    have "span_ok ps2 pool ?z x k n"
    proof -
      have "map_option pg_nr_small (ps2 x) = Some (card (outside ps2 ?z x n))" using r(6) cn by simp
      moreover have "map_option (\<lambda>p. (pg_pool p, pg_offset p)) (ps2 (x + i)) = Some (Some pool, i)" if "i < n" for i
        using S(7) [OF that] r(14) r(13) same_objD(3) [of ps2 "x + i" ?ps] by (cases "i = 0") auto
      moreover have "distinct (flist ps2 x)" using S(4) asl(2) by (simp add: fl)
      moreover have "set (flist ps2 x) \<subset> slots_in ?z x n" using S(5) asl(1) False unfolding outside_def fl by auto
      ultimately show ?thesis unfolding span_ok_def using S(1-3) by blast
    qed
    then have spans: "span_ok ps2 pool ?z y j m" if "T y = Some (j, m)" for y j m
      using other [OF that] that r(1) by (cases "y = x") auto
    have "pool_ok ps2 pool sp1 T (L - {a}) W1"
      unfolding pool_ok_def
    proof (intro conjI allI impI)
      have e: "sp_object_size sp1 = ?z" "sp_free sp1 = sp_free sp" "sp_span_list sp1 = l" by (simp_all add: sp1_def)
      show "pool_params sp1" using K(1) by (simp add: sp1_def pool_params_def)
      show "span_ok ps2 pool (sp_object_size sp1) y j m" if "T y = Some (j, m)" for y j m using spans [OF that] e(1) by simp
      show "distinct (sp_free sp1)" using K(3) e by simp
      show "sp_free_count sp1 = length (sp_free sp1)" using K(4) by (simp add: sp1_def)
      show "set (sp_free sp1) \<inter> (L - {a}) = {}" using free_disj e by simp
      show "set (sp_free sp1) \<union> (L - {a}) = outs ps2 (sp_object_size sp1) T"
        unfolding e out outs_split [of T x k n ps2 ?z, OF r(1)] rest o2 ..
      show "dll ps2 (sp_span_list sp1) W1" using r(9) e by simp
      show "set W1 = {y \<in> dom T. flist ps2 y \<noteq> []}" using r(10) K(8) r(1) by (auto simp: fl)
    qed
    then have "pool_state A F pool sp1 T (L - {a}) s2" using sok K0(2,3) unfolding pool_state_def s2_def by auto
    moreover have "pool_frame A F sp T s A F sp1 T s2"
      using K0(2) framed unfolding pool_frame_def by (auto simp: sp1_def s2_def)
    ultimately have "pool_result A F pool sp T L s (L - {a}) sp1 s2" by (rule pool_result_refl)
    then show ?thesis using res by (simp add: sp1_def)
  next
    case True
    have p0: "pg_nr_small p = 0" using cn True by simp
    have ps: "pg_span_size p = 2 ^ k" using taggedD(1) [OF spans_okD(10) [OF sok xA]] r(6) by (auto simp: s2_def)
    have "x \<in> set W1" using r(10) by simp
    then obtain xs ys where W1: "W1 = xs @ x # ys" by (meson split_list)
    from pl_erase_ok [OF r(9) [unfolded W1]] obtain l' ps3 where e: "pl_erase x l ps2 = Some (l', ps3)" "dll ps3 l' (xs @ ys)"
      "links_only (set xs \<union> set ys) ps2 ps3" by (elim exE conjE)
    have dW: "x \<notin> set xs \<union> set ys" using r(9) W1 by (auto simp: dll_def)
    define sp3 where "sp3 = sp1\<lparr>sp_span_list := l', sp_pages_in_use := sp_pages_in_use sp1 - of_nat (pg_span_size p)\<rparr>"
    have W1T: "set W1 \<subseteq> dom T" using r(1,10) K(8) by auto
    have f3: "ps3 i = ?ps i" if "i \<notin> used (pspans T)" for i
    proof -
      have "i \<notin> set xs \<union> set ys" using that W1T dom_used [of i T] W1 by auto
      then show ?thesis using links_onlyD(1) [OF e(3)] framed [OF that] by simp
    qed
    have s3: "spans_ok A {} F (s\<lparr>sn_pages := ps3\<rparr>)"
      using f3 used_mono [OF K0(2)] by (intro spans_ok_upd [OF K0(1) same_tags_trans [OF r(11) same_tags_links_only [OF e(3)]]]) blast
    from free_large_ok [OF s3 xA] obtain s' F' where f: "free_span x (2 ^ k) (s\<lparr>sn_pages := ps3\<rparr>) = Some s'" "spans_ok (A - {(x, k)}) {} F' s'"
      "sn_nr_pages s' = sn_nr_pages (s\<lparr>sn_pages := ps3\<rparr>)" "free_pages F' = free_pages F \<union> ivl (x, k)"
      "\<forall>i. i \<notin> free_pages F \<union> ivl (x, k) \<longrightarrow> sn_pages s' i = sn_pages (s\<lparr>sn_pages := ps3\<rparr>) i" by (elim exE conjE)
    have res: "give_object a sp s = Some (sp3, s')"
      using give r(6) p0 e(1) f(1) ps by (simp add: drop_empty_span_def s2_def sp3_def sp1_def)
    let ?T = "T(x := None)"
    have pT: "pspans ?T = pspans T - {(x, k)}" using r(1) by (auto simp: pspans_def split: if_splits)
    have far: "i \<notin> free_pages F \<union> ivl (x, k)" if "i \<in> used (pspans ?T)" for i
    proof -
      from that obtain b where b: "b \<in> pspans T" "b \<noteq> (x, k)" "i \<in> ivl b" unfolding pT used_def by blast
      have "i \<notin> ivl (x, k)" using geoD(2) [OF K0(5) b(1) pspansI [of T x k n, OF r(1)] b(3)] b(2) by blast
      moreover have "i \<notin> free_pages F" using used_free_apart [OF K0(1)] K0(2) b(1,3) unfolding used_def by blast
      ultimately show ?thesis by blast
    qed
    have so3: "same_obj (ps3 i) (ps2 i)" for i by (rule links_only_same_obj [OF e(3)])
    have fl3: "flist ps3 y = flist ps2 y" for y using same_objD(1) [of ps3 y ps2, OF so3] .
    have "pool_ok ps3 pool sp3 ?T (L - {a}) (xs @ ys)"
      unfolding pool_ok_def
    proof (intro conjI allI impI)
      have e': "sp_object_size sp3 = ?z" "sp_free sp3 = sp_free sp" "sp_span_list sp3 = l'" by (simp_all add: sp3_def sp1_def)
      show "pool_params sp3" using K(1) by (simp add: sp3_def sp1_def pool_params_def)
      show "span_ok ps3 pool (sp_object_size sp3) y j m" if "?T y = Some (j, m)" for y j m
      proof -
        have "T y = Some (j, m)" "y \<noteq> x" using that by (simp_all split: if_splits)
        from span_ok_cong [OF other [OF this] so3] show ?thesis using e'(1) by simp
      qed
      show "distinct (sp_free sp3)" using K(3) e' by simp
      show "sp_free_count sp3 = length (sp_free sp3)" using K(4) by (simp add: sp3_def sp1_def)
      show "set (sp_free sp3) \<inter> (L - {a}) = {}" using free_disj e' by simp
      have "outs ps3 ?z ?T = outs ps2 ?z ?T" by (rule outs_cong) (rule fl3)
      then show "set (sp_free sp3) \<union> (L - {a}) = outs ps3 (sp_object_size sp3) ?T" using out True rest unfolding e' o2 by simp
      show "dll ps3 (sp_span_list sp3) (xs @ ys)" using e(2) e' by simp
      have "set (xs @ ys) = set W1 - {x}" using dW W1 by auto
      then show "set (xs @ ys) = {y \<in> dom ?T. flist ps3 y \<noteq> []}" using r(10) K(8) by (auto simp: fl3 fl)
    qed
    then have ok': "pool_ok (sn_pages s') pool sp3 ?T (L - {a}) (xs @ ys)"
    proof (rule pool_ok_cong)
      fix i assume "i \<in> used (pspans ?T)"
      then show "sn_pages s' i = ps3 i" using far f(5) by simp
    qed
    have init: "sn_nr_pages s' \<noteq> 0" using f(3) K0(3) by simp
    have "pspans ?T \<subseteq> A - {(x, k)}" using K0(2) pT by blast
    then have "pool_state (A - {(x, k)}) F' pool sp3 ?T (L - {a}) s'" using f(2) ok' init unfolding pool_state_def by blast
    moreover have "pool_frame A F sp T s (A - {(x, k)}) F' sp3 ?T s'"
      unfolding pool_frame_def
    proof (intro conjI allI impI)
      show "A - {(x, k)} = A - pspans T \<union> pspans ?T" using K0(2) pT pspansI [of T x k n, OF r(1)] by blast
      show "(A - pspans T) \<inter> pspans ?T = {}" using pT by blast
      have "used (pspans T) = ivl (x, k) \<union> used (pspans ?T)" using pT pspansI [of T x k n, OF r(1)] unfolding used_def by blast
      then show "free_pages F' \<union> used (pspans ?T) = free_pages F \<union> used (pspans T)" using f(4) by blast
      show "same_params sp sp3" by (simp add: sp3_def sp1_def)
      show "sn_nr_pages s' = sn_nr_pages s" using f(3) by simp
      show "sn_pages s' i = sn_pages s i" if i: "i \<notin> free_pages F \<union> used (pspans T)" for i
      proof -
        have "i \<notin> ivl (x, k)" using i pspansI [of T x k n, OF r(1)] unfolding used_def by blast
        then show ?thesis using i f(5) f3 [of i] by simp
      qed
    qed
    ultimately have "pool_result A F pool sp T L s (L - {a}) sp3 s'" unfolding pool_result_def by blast
    then show ?thesis using res by (simp add: sp3_def sp1_def)
  qed
qed

lemma trim_loop_ok:
  assumes "pool_state A F pool sp T L s"
  shows "\<exists>sp' s'. trim_loop goal sp s = Some (sp', s') \<and> pool_result A F pool sp T L s L sp' s'"
  using assms
proof (induction goal sp s arbitrary: A F T rule: trim_loop.induct)
  case (1 goal sp s)
  show ?case
  proof (cases "sp_free sp")
    case Nil
    then have "trim_loop goal sp s = Some (sp, s)" by (subst trim_loop.simps) simp
    then show ?thesis using pool_result_refl [OF 1(2)] pool_stateD(2) [OF 1(2)] by simp
  next
    case (Cons a rest)
    show ?thesis
    proof (cases "goal < sp_free_count sp")
      case False
      then have "trim_loop goal sp s = Some (sp, s)" using Cons by (subst trim_loop.simps) simp
      then show ?thesis using pool_result_refl [OF 1(2)] pool_stateD(2) [OF 1(2)] by simp
    next
      case True
      let ?sp = "sp\<lparr>sp_free := rest, sp_free_count := sp_free_count sp - 1\<rparr>"
      note pop = pool_state_pop [OF 1(2) Cons]
      have L: "insert a L - {a} = L" using pop(2) by simp
      from give_object_ok [OF pop(1), of a, unfolded L] obtain sp1 s1 where g: "give_object a ?sp s = Some (sp1, s1)"
        "pool_result A F pool ?sp T (insert a L) s L sp1 s1" by auto
      obtain A1 F1 T1 where 2: "pool_state A1 F1 pool sp1 T1 L s1" "pool_frame A F ?sp T s A1 F1 sp1 T1 s1"
        using g(2) unfolding pool_result_def by blast
      have 3: "pool_frame A F sp T s A1 F1 sp1 T1 s1" using 2(2) unfolding pool_frame_def by simp
      from 1(1) [OF Cons True g(1) refl 2(1)] obtain sp' s' where s': "trim_loop goal sp1 s1 = Some (sp', s')"
        "pool_result A1 F1 pool sp1 T1 L s1 L sp' s'" by (elim exE conjE)
      have "trim_loop goal sp s = Some (sp', s')" using Cons True g(1) s'(1) by (subst trim_loop.simps) simp
      then show ?thesis using pool_result_trans [OF 3 s'(2)] by blast
    qed
  qed
qed

lemma pool_deallocate_ok:
  assumes st: "pool_state A F pool sp T L s" and a: "a \<in> L"
  shows "\<exists>sp' s'. pool_deallocate a sp s = Some (sp', s') \<and> pool_result A F pool sp T L s (L - {a}) sp' s'"
proof -
  note push = pool_state_push [OF st a]
  have fr: "pool_frame A F sp T s A F (push_free a sp) T s" using pool_stateD(2) [OF st] by (auto simp: pool_frame_def push_free_def)
  show ?thesis
  proof (cases "sp_max_free (push_free a sp) \<le> sp_free_count (push_free a sp)")
    case True
    from trim_loop_ok [OF push, of "pool_goal (push_free a sp)"] obtain sp' s' where
      t: "trim_loop (pool_goal (push_free a sp)) (push_free a sp) s = Some (sp', s')"
      "pool_result A F pool (push_free a sp) T (L - {a}) s (L - {a}) sp' s'" by (elim exE conjE)
    have "pool_deallocate a sp s = Some (sp', s')" using True t(1) by (simp add: pool_deallocate_def trim_free_list_def Let_def)
    moreover have "pool_result A F pool sp T L s (L - {a}) sp' s'" using pool_result_trans [OF fr t(2)] .
    ultimately show ?thesis by blast
  next
    case False
    then have "pool_deallocate a sp s = Some (push_free a sp, s)" by (simp add: pool_deallocate_def Let_def)
    then show ?thesis using pool_result_refl [OF push fr] by blast
  qed
qed

end
