(* ===== verification/CoreHeap.thy ===== *)
theory CoreHeap
  imports SmallPool
begin

text \<open>
  The heap of a core (\<open>core/memory.cc\<close>): requests up to 16 kilobytes go to the pool for their size, larger ones to the
  page allocator; objects freed by other cores wait in a list of their own.  Runs of requests keep the live objects
  disjoint.  The heap begins as \<open>initialize()\<close> leaves it; \<open>resize()\<close> is not modelled.
\<close>

section \<open>The heap\<close>

record heap =
  hp_spans :: spans
  hp_pools :: "small_pool list"
  hp_xcpu :: "nat list"

definition heap_new :: "spans \<Rightarrow> heap" where
  "heap_new s = \<lparr>hp_spans = s, hp_pools = map (\<lambda>i. pool_new (unat (idx_to_size (of_nat i)))) [0..<nr_small_pools], hp_xcpu = []\<rparr>"

definition allocate_small :: "u32 \<Rightarrow> heap \<Rightarrow> (nat option \<times> heap) option" where
  "allocate_small n h =
     Option.bind (map_option unat (size_to_idx n)) (\<lambda>j.
       if j < length (hp_pools h) \<and> unat n \<le> sp_object_size (hp_pools h ! j) then
         map_option (\<lambda>(r, sp, s). (r, h\<lparr>hp_pools := (hp_pools h)[j := sp], hp_spans := s\<rparr>))
           (pool_allocate j (hp_pools h ! j) (hp_spans h))
       else None)"

definition heap_deallocate :: "nat \<Rightarrow> nat \<Rightarrow> heap \<Rightarrow> heap option" where
  "heap_deallocate j a h =
     (if j < length (hp_pools h) then
        map_option (\<lambda>(sp, s). h\<lparr>hp_pools := (hp_pools h)[j := sp], hp_spans := s\<rparr>) (pool_deallocate a (hp_pools h ! j) (hp_spans h))
      else None)"

definition large_pages :: "nat \<Rightarrow> heap \<Rightarrow> (nat option \<times> heap) option" where
  "large_pages n h = map_option (\<lambda>(r, s). (map_option (\<lambda>x. x * page_size) r, h\<lparr>hp_spans := s\<rparr>)) (alloc_pages n (hp_spans h))"

definition size_in_pages :: "size_t \<Rightarrow> u32" where
  "size_in_pages n = ucast (drop_bit 12 (n + of_nat page_size - 1))"

definition allocate_large :: "size_t \<Rightarrow> heap \<Rightarrow> (nat option \<times> heap) option" where
  "allocate_large n h =
     (if n <s 0 then None
      else if push_bit 12 (ucast (size_in_pages n) :: size_t) < n then Some (None, h)
      else large_pages (unat (size_in_pages n)) h)"

definition allocate_large_aligned :: "size_t \<Rightarrow> size_t \<Rightarrow> heap \<Rightarrow> (nat option \<times> heap) option" where
  "allocate_large_aligned align n h = (if n <s 0 then None else large_pages (unat (size_in_pages n)) h)"

definition heap_allocate :: "size_t \<Rightarrow> heap \<Rightarrow> (nat option \<times> heap) option" where
  "heap_allocate n h =
     (let n = (if n \<le> 8 then 8 else n)
      in if unat n \<le> max_small_allocation then allocate_small (ucast n) h else allocate_large n h)"

definition heap_allocate_aligned :: "size_t \<Rightarrow> size_t \<Rightarrow> heap \<Rightarrow> (nat option \<times> heap) option" where
  "heap_allocate_aligned align n h =
     (let n = (if n \<le> 8 then max 8 align else n)
      in if unat n \<le> max_small_allocation \<and> unat align \<le> page_size then
           Option.bind (log2ceil n) (\<lambda>k. allocate_small (push_bit k 1) h)
         else allocate_large_aligned align n h)"

definition heap_free :: "nat \<Rightarrow> heap \<Rightarrow> heap option" where
  "heap_free a h =
     Option.bind (sn_pages (hp_spans h) (a div page_size)) (\<lambda>span.
       case pg_pool span of
         Some j \<Rightarrow> heap_deallocate j a h
       | None \<Rightarrow> map_option (\<lambda>s. h\<lparr>hp_spans := s\<rparr>) (free_large (a div page_size) (hp_spans h)))"

definition heap_free_sized :: "nat \<Rightarrow> size_t \<Rightarrow> heap \<Rightarrow> heap option" where
  "heap_free_sized a n h =
     (let n = (if n \<le> 8 then 8 else n)
      in if unat n \<le> max_small_allocation then
           Option.bind (size_to_idx (ucast n)) (\<lambda>j. heap_deallocate (unat j) a h)
         else map_option (\<lambda>s. h\<lparr>hp_spans := s\<rparr>) (free_large (a div page_size) (hp_spans h)))"

definition heap_object_size :: "nat \<Rightarrow> heap \<Rightarrow> nat option" where
  "heap_object_size a h =
     Option.bind (sn_pages (hp_spans h) (a div page_size)) (\<lambda>span.
       case pg_pool span of
         Some j \<Rightarrow> if j < length (hp_pools h) then Some (sp_object_size (hp_pools h ! j)) else None
       | None \<Rightarrow> Some (pg_span_size span * page_size))"

definition heap_shrink :: "nat \<Rightarrow> nat \<Rightarrow> heap \<Rightarrow> heap option" where
  "heap_shrink a n h =
     Option.bind (sn_pages (hp_spans h) (a div page_size)) (\<lambda>span.
       if pg_pool span \<noteq> None then Some h
       else map_option (\<lambda>s. h\<lparr>hp_spans := s\<rparr>) (shrink_span (a div page_size) n (hp_spans h)))"

text \<open>Objects freed by other cores are linked and wait for the core they belong to.\<close>

definition free_cross_cpu :: "nat \<Rightarrow> heap \<Rightarrow> heap" where
  "free_cross_cpu a h = h\<lparr>hp_xcpu := a # hp_xcpu h\<rparr>"

fun free_all :: "nat list \<Rightarrow> heap \<Rightarrow> heap option" where
  "free_all [] h = Some h"
| "free_all (a # as) h = Option.bind (heap_free a h) (free_all as)"

definition drain_cross_cpu_freelist :: "heap \<Rightarrow> (bool \<times> heap) option" where
  "drain_cross_cpu_freelist h =
     (if hp_xcpu h = [] then Some (False, h)
      else map_option (Pair True) (free_all (hp_xcpu h) (h\<lparr>hp_xcpu := []\<rparr>)))"

section \<open>Sizes and pools\<close>

lemma fallback_size_ok: "z \<le> fallback_size z n * page_size \<and> fallback_size z n \<le> max n z"
proof (induction z n rule: fallback_size.induct)
  case (1 z n)
  show ?case
  proof (cases "n * page_size < z")
    case True
    then have e: "fallback_size z n = fallback_size z (n + 1)" by (subst fallback_size.simps) simp
    have "n < z" using True by (simp add: page_size_def)
    then show ?thesis using 1 [OF True] unfolding e by simp
  next
    case False
    then have "fallback_size z n = n" by (subst fallback_size.simps) simp
    then show ?thesis using False by simp
  qed
qed

lemma preferred_size_ok: "0 < z \<Longrightarrow> z \<le> preferred_size z n * page_size \<and> preferred_size z n \<le> max n (4 * z + 32)"
proof (induction z n rule: preferred_size.induct)
  case (1 z n)
  let ?c = "0 < z \<and> (n * page_size < z \<or> (n < 32 \<and> wasteful z n) \<or> n * page_size div z < 4)"
  show ?case
  proof (cases ?c)
    case True
    then have e: "preferred_size z n = preferred_size z (n + 1)" by (subst preferred_size.simps) simp
    have "n < 4 * z + 32"
    proof (rule ccontr)
      assume c: "\<not> n < 4 * z + 32"
      then have "4 * z \<le> n * page_size" by (simp add: page_size_def)
      then have "4 \<le> n * page_size div z" using 1(2) by (simp add: less_eq_div_iff_mult_less_eq)
      then show False using True c by (auto simp: page_size_def)
    qed
    then show ?thesis using 1(1) [OF True 1(2)] unfolding e by simp
  next
    case False
    then have "preferred_size z n = n" by (subst preferred_size.simps) auto
    then show ?thesis using False 1(2) by auto
  qed
qed

lemma pool_new_ok:
  assumes "0 < z" and "z \<le> 16384"
  shows "pool_ok ps j (pool_new z) (\<lambda>_. None) {} []" and "sp_object_size (pool_new z) = z"
proof -
  have "pool_params (pool_new z)"
    using assms fallback_size_ok [of z 1] preferred_size_ok [OF assms(1), of 1] by (auto simp: pool_params_def pool_new_def Let_def)
  then show "pool_ok ps j (pool_new z) (\<lambda>_. None) {} []"
    by (auto simp: pool_ok_def pool_new_def Let_def outs_def dll_def)
  show "sp_object_size (pool_new z) = z" by (simp add: pool_new_def Let_def)
qed

definition pool_size :: "nat \<Rightarrow> nat" where "pool_size j = unat (idx_to_size (of_nat j))"

lemma four_or: "(4 :: nat) OR (j mod 4) = 4 + j mod 4"
proof -
  have "j mod 4 < 4" by simp
  then consider "j mod 4 = 0" | "j mod 4 = 1" | "j mod 4 = 2" | "j mod 4 = 3" by linarith
  then show ?thesis by cases simp_all
qed

lemma pool_size_eq:
  assumes "j < nr_small_pools"
  shows "pool_size j = (4 + j mod 4) * 2 ^ (j div 4) div 4"
proof -
  have j: "j < 57" using assms by (simp add: nr_small_pools_def)
  then have u: "unat (of_nat j :: u32) = j" by (simp add: unat_of_nat_u32)
  have d: "unat (drop_bit 2 (of_nat j :: u32)) = j div 4" by (simp only: unat_drop_bit_eq u) (simp add: drop_bit_eq_div)
  have m: "(push_bit 2 1 - 1 :: u32) = mask 2" by (simp add: mask_eq_exp_minus_1)
  have a: "unat (of_nat j AND mask 2 :: u32) = j mod 4" unfolding take_bit_eq_mask [symmetric] by (simp only: unsigned_take_bit_eq u) (simp add: take_bit_eq_mod)
  have o: "unat (push_bit 2 1 OR (of_nat j AND (push_bit 2 1 - 1)) :: u32) = 4 + j mod 4"
    unfolding m unsigned_or_eq a using four_or by simp
  have "j div 4 \<le> 14" "j mod 4 \<le> 3" using j by (simp_all add: less_Suc_eq_le)
  then have "(4 + j mod 4) * 2 ^ (j div 4) \<le> 7 * 2 ^ 14" by (intro mult_le_mono power_increasing) simp_all
  then have "(4 + j mod 4) * 2 ^ (j div 4) < 2 ^ 32" by simp
  then have e: "unat (push_bit (j div 4) (push_bit 2 1 OR (of_nat j AND (push_bit 2 1 - 1)) :: u32)) = (4 + j mod 4) * 2 ^ (j div 4)"
    unfolding unsigned_push_bit_eq o by (simp add: push_bit_eq_mult take_bit_nat_eq_self)
  have "pool_size j = drop_bit 2 (unat (push_bit (j div 4) (push_bit 2 1 OR (of_nat j AND (push_bit 2 1 - 1)) :: u32)))"
    by (simp only: pool_size_def idx_to_size_def d unat_drop_bit_eq [of 2 "push_bit a b" for a b])
  then show ?thesis unfolding e by (simp add: drop_bit_eq_div)
qed

lemma pool_sizes:
  assumes "j < nr_small_pools"
  shows "0 < pool_size j" "pool_size j \<le> 16384"
proof -
  have j: "j div 4 \<le> 14" "j mod 4 \<le> 3" "j < 57" using assms by (simp_all add: nr_small_pools_def less_Suc_eq_le)
  have "4 * 1 \<le> (4 + j mod 4) * 2 ^ (j div 4)" by (intro mult_le_mono) simp_all
  then show "0 < pool_size j" using pool_size_eq [OF assms] by simp
  show "pool_size j \<le> 16384"
  proof (cases "j div 4 = 14")
    case True
    then have "j mod 4 = 0" using j(3) by presburger
    then show ?thesis using pool_size_eq [OF assms] True by simp
  next
    case False
    have "(4 + j mod 4) * 2 ^ (j div 4) \<le> 7 * 2 ^ 13" using j False by (intro mult_le_mono power_increasing) simp_all
    then show ?thesis using pool_size_eq [OF assms] by simp
  qed
qed

text \<open>The pool for a size is one whose objects are big enough.\<close>

lemma size_to_idx_fits:
  assumes n: "8 \<le> n" "n \<le> 16384"
  shows "\<exists>j. size_to_idx (of_nat n) = Some j \<and> unat j < nr_small_pools \<and> n \<le> pool_size (unat j) \<and>
    (\<forall>k. n = 2 ^ k \<longrightarrow> pool_size (unat j) = n)"
proof -
  have u: "unat (of_nat n :: u32) = n" using n by (simp add: unat_of_nat_u32)
  define l where "l = bit_width n - 1"
  have n0: "n \<noteq> 0" "(of_nat n :: u32) \<noteq> 0" using n u by auto
  have b: "2 ^ l \<le> n" "n < 2 ^ Suc l"
  proof -
    show "2 ^ l \<le> n" using bit_width_bounds [of n] n0 by (simp add: l_def)
    have "bit_width n \<noteq> 0" using bit_width_bounds [of n] n0 by (cases "bit_width n") auto
    then show "n < 2 ^ Suc l" using bit_width_bounds [of n] by (simp add: l_def)
  qed
  have l: "3 \<le> l" "l \<le> 14"
  proof -
    show "3 \<le> l"
    proof (rule ccontr)
      assume "\<not> 3 \<le> l"
      then have "2 ^ Suc l \<le> (2::nat) ^ 3" by (intro power_increasing) simp_all
      then show False using b(2) n(1) by simp
    qed
    show "l \<le> 14"
    proof (rule ccontr)
      assume "\<not> l \<le> 14"
      then have "2 ^ 15 \<le> (2::nat) ^ l" by (intro power_increasing) simp_all
      then show False using b(1) n(2) by simp
    qed
  qed
  define q where "q = (n - 1) div 2 ^ (l - 2)"
  have p: "(2::nat) ^ l = 4 * 2 ^ (l - 2)"
  proof -
    have "l = 2 + (l - 2)" using l(1) by simp
    then have "(2::nat) ^ l = 2 ^ 2 * 2 ^ (l - 2)" using power_add [of "2::nat" 2 "l - 2"] by (simp only:)
    then show ?thesis by simp
  qed
  have q: "3 \<le> q" "q \<le> 7" "n \<le> (q + 1) * 2 ^ (l - 2)"
  proof -
    have "3 * 2 ^ (l - 2) \<le> n - 1" using b(1) p one_le_power [of "2::nat" "l - 2"] by linarith
    then show "3 \<le> q" unfolding q_def by (simp add: less_eq_div_iff_mult_less_eq)
    have "n - 1 < 8 * 2 ^ (l - 2)" using b(2) p n(1) by simp
    then have "q < 8" unfolding q_def by (simp add: div_less_iff_less_mult)
    then show "q \<le> 7" by simp
    have "q * 2 ^ (l - 2) + (n - 1) mod 2 ^ (l - 2) = n - 1" unfolding q_def by (rule div_mult_mod_eq)
    moreover have "(n - 1) mod 2 ^ (l - 2) < 2 ^ (l - 2)" by simp
    moreover have "(q + 1) * 2 ^ (l - 2) = q * 2 ^ (l - 2) + 2 ^ (l - 2)" by simp
    ultimately have "n - 1 < (q + 1) * 2 ^ (l - 2)" by linarith
    then show "n \<le> (q + 1) * 2 ^ (l - 2)" by linarith
  qed
  define j where "j = 4 * l + q - 3"
  have j57: "j < nr_small_pools"
  proof (cases "l = 14")
    case True
    then have "n = 16384" using b(1) n(2) by simp
    then show ?thesis using True by (simp add: j_def q_def nr_small_pools_def)
  qed (use l(2) q in \<open>simp add: j_def nr_small_pools_def\<close>)
  have size: "pool_size j = (q + 1) * 2 ^ (l - 2)"
  proof (cases "q = 7")
    case True
    then have "j = 4 * (l + 1)" using l by (simp add: j_def)
    then have "j mod 4 = 0" "j div 4 = l + 1" by simp_all
    then show ?thesis using pool_size_eq [OF j57] True p by simp
  next
    case False
    then have "j = 4 * l + (q - 3)" "q - 3 < 4" using q by (simp_all add: j_def)
    then have "j mod 4 = q - 3" "j div 4 = l" by simp_all
    then show ?thesis using pool_size_eq [OF j57] q(1) p by simp
  qed
  have idx: "size_to_idx (of_nat n) = Some (of_nat j)"
  proof -
    have lf: "log2floor (of_nat n :: u32) = Some l" using n0 u by (simp add: log2floor_eq l_def)
    have s: "(of_nat n - 1 :: u32) = of_nat (n - 1)" using n(1) by simp
    have "n - 1 < 2 ^ 32" using n(2) by simp
    then have "unat (of_nat (n - 1) :: u32) = n - 1" by (rule unat_of_nat_u32)
    then have "unat (drop_bit (l - 2) (of_nat n - 1 :: u32)) = q" unfolding s unat_drop_bit_eq by (simp add: q_def drop_bit_eq_div)
    then have d: "drop_bit (l - 2) (of_nat n - 1 :: u32) = of_nat q" by (metis of_nat_unat ucast_id)
    have "(of_nat j :: u32) = of_nat (4 * l + q) - of_nat 3" using q(1) l(1) by (simp add: j_def of_nat_diff)
    then have "(push_bit 2 (of_nat l) - (push_bit 2 1 - 1)) + of_nat q = (of_nat j :: u32)" by (simp add: push_bit_eq_mult)
    then show ?thesis using lf l(1) d by (simp add: size_to_idx_def)
  qed
  have uj: "unat (of_nat j :: u32) = j" using j57 by (simp add: unat_of_nat_u32 nr_small_pools_def)
  have "pool_size j = n" if "n = 2 ^ k" for k
  proof -
    have "l = k" using b that by (metis power_strict_increasing_iff one_less_numeral_iff semiring_norm(76) power_increasing_iff le_less_Suc_eq)
    then have n4: "n = 4 * 2 ^ (l - 2)" using that p by simp
    have "q = 3" 
    proof -
      have "n - 1 < 4 * 2 ^ (l - 2)" using n4 n(1) by simp
      then have "q < 4" unfolding q_def by (simp add: div_less_iff_less_mult)
      then show ?thesis using q(1) by simp
    qed
    then show ?thesis using size n4 by simp
  qed
  then show ?thesis using idx uj j57 size q(3) by auto
qed

section \<open>Well-formed heaps\<close>

definition all_spans :: "span set \<Rightarrow> (nat \<Rightarrow> pool_spans) \<Rightarrow> span set" where
  "all_spans B T = B \<union> (\<Union>j \<in> {..<nr_small_pools}. pspans (T j))"

text \<open>\<open>B\<close> are the large spans, \<open>T\<close> the spans and \<open>L\<close> the live objects of each pool.\<close>

definition heap_ok :: "span set \<Rightarrow> (nat \<Rightarrow> pool_spans) \<Rightarrow> (nat \<Rightarrow> nat list) \<Rightarrow> (nat \<Rightarrow> nat set) \<Rightarrow> heap \<Rightarrow> bool" where
  "heap_ok B T F L h \<longleftrightarrow>
     length (hp_pools h) = nr_small_pools \<and> sn_nr_pages (hp_spans h) = 8192 \<and>
     spans_ok (all_spans B T) {} F (hp_spans h) \<and> free_pages F \<union> used (all_spans B T) = pa_region \<and>
     (\<forall>j < nr_small_pools. B \<inter> pspans (T j) = {} \<and> (\<forall>i < nr_small_pools. i \<noteq> j \<longrightarrow> pspans (T i) \<inter> pspans (T j) = {})) \<and>
     (\<forall>a \<in> B. map_option pg_pool (sn_pages (hp_spans h) (fst a)) = Some None) \<and>
     (\<forall>j < nr_small_pools. sp_object_size (hp_pools h ! j) = pool_size j \<and> sp_fallback (hp_pools h ! j) = fallback_size (pool_size j) 1 \<and> (\<exists>W. pool_ok (sn_pages (hp_spans h)) j (hp_pools h ! j) (T j) (L j) W))"

lemma heap_okD:
  assumes "heap_ok B T F L h"
  shows "length (hp_pools h) = nr_small_pools" "sn_nr_pages (hp_spans h) = 8192" "spans_ok (all_spans B T) {} F (hp_spans h)"
    "free_pages F \<union> used (all_spans B T) = pa_region" "j < nr_small_pools \<Longrightarrow> B \<inter> pspans (T j) = {}"
    "i < nr_small_pools \<Longrightarrow> j < nr_small_pools \<Longrightarrow> i \<noteq> j \<Longrightarrow> pspans (T i) \<inter> pspans (T j) = {}"
    "a \<in> B \<Longrightarrow> map_option pg_pool (sn_pages (hp_spans h) (fst a)) = Some None"
    "j < nr_small_pools \<Longrightarrow> sp_object_size (hp_pools h ! j) = pool_size j"
    "j < nr_small_pools \<Longrightarrow> \<exists>W. pool_ok (sn_pages (hp_spans h)) j (hp_pools h ! j) (T j) (L j) W"
    "j < nr_small_pools \<Longrightarrow> sp_fallback (hp_pools h ! j) = fallback_size (pool_size j) 1"
  using assms unfolding heap_ok_def by blast+

lemma all_spansI: "a \<in> B \<Longrightarrow> a \<in> all_spans B T" "j < nr_small_pools \<Longrightarrow> pspans (T j) \<subseteq> all_spans B T"
  by (auto simp: all_spans_def)

lemma heap_pool_state:
  assumes ok: "heap_ok B T F L h" and j: "j < nr_small_pools"
  shows "pool_state (all_spans B T) F j (hp_pools h ! j) (T j) (L j) (hp_spans h)"
  using heap_okD(2,3) [OF ok] heap_okD(9) [OF ok j] all_spansI(2) [OF j, of T B] unfolding pool_state_def by simp

lemma used_apart:
  assumes g: "geo m S" and "A \<subseteq> S" and "B \<subseteq> S" and "A \<inter> B = {}"
  shows "used A \<inter> used B = {}"
proof (rule ccontr)
  assume "used A \<inter> used B \<noteq> {}"
  then obtain i a b where i: "a \<in> A" "b \<in> B" "i \<in> ivl a" "i \<in> ivl b" unfolding used_def by blast
  then have "a = b" using geoD(2) [OF g, of a b i] assms(2,3) by blast
  then show False using i(1,2) assms(4) by blast
qed

text \<open>An operation of one pool leaves the others and the large spans alone.\<close>

lemma heap_lift:
  assumes ok: "heap_ok B T F L h" and j: "j < nr_small_pools"
    and r: "pool_result (all_spans B T) F j (hp_pools h ! j) (T j) (L j) (hp_spans h) L' sp' s'"
  shows "\<exists>T' F'. heap_ok B T' F' (L(j := L')) (h\<lparr>hp_pools := (hp_pools h)[j := sp'], hp_spans := s'\<rparr>)"
proof -
  note K = heap_okD [OF ok]
  let ?A = "all_spans B T"
  obtain A' F' Tj where st: "pool_state A' F' j sp' Tj L' s'" and fr: "pool_frame ?A F (hp_pools h ! j) (T j) (hp_spans h) A' F' sp' Tj s'"
    using r unfolding pool_result_def by blast
  note S = pool_stateD [OF st]
  let ?T = "T(j := Tj)"
  have G: "geo (sn_nr_pages (hp_spans h)) ?A" using spans_okD(5) [OF K(3)] geo_subset by blast
  have F1: "A' = (?A - pspans (T j)) \<union> pspans Tj" "(?A - pspans (T j)) \<inter> pspans Tj = {}"
    "free_pages F' \<union> used (pspans Tj) = free_pages F \<union> used (pspans (T j))" "same_params (hp_pools h ! j) sp'" "sn_nr_pages s' = sn_nr_pages (hp_spans h)"
    "\<forall>i. i \<notin> free_pages F \<union> used (pspans (T j)) \<longrightarrow> sn_pages s' i = sn_pages (hp_spans h) i"
    using fr unfolding pool_frame_def by blast+
  have rest: "?A - pspans (T j) = B \<union> (\<Union>i \<in> {..<nr_small_pools} - {j}. pspans (T i))"
  proof
    show "?A - pspans (T j) \<subseteq> B \<union> (\<Union>i \<in> {..<nr_small_pools} - {j}. pspans (T i))" unfolding all_spans_def by blast
    show "B \<union> (\<Union>i \<in> {..<nr_small_pools} - {j}. pspans (T i)) \<subseteq> ?A - pspans (T j)"
      using K(5) [OF j] K(6) [OF _ j] unfolding all_spans_def by blast
  qed
  have A': "A' = all_spans B ?T"
  proof -
    have "all_spans B ?T = (B \<union> (\<Union>i \<in> {..<nr_small_pools} - {j}. pspans (T i))) \<union> pspans Tj"
      using j unfolding all_spans_def by (auto split: if_splits)
    then show ?thesis using F1(1) rest by simp
  qed
  have quiet: "sn_pages s' i = sn_pages (hp_spans h) i" if "i \<in> used C" "C \<subseteq> ?A" "C \<inter> pspans (T j) = {}" for i C
  proof -
    have "i \<notin> free_pages F" using used_free_apart [OF K(3)] used_mono [OF that(2)] that(1) by blast
    moreover have "i \<notin> used (pspans (T j))" using used_apart [OF G that(2) all_spansI(2) [OF j] that(3)] that(1) by blast
    ultimately show ?thesis using F1(6) by blast
  qed
  let ?h = "h\<lparr>hp_pools := (hp_pools h)[j := sp'], hp_spans := s'\<rparr>"
  have "heap_ok B ?T F' (L(j := L')) ?h"
    unfolding heap_ok_def
  proof (intro conjI allI impI ballI)
    show "length (hp_pools ?h) = nr_small_pools" using K(1) by simp
    show "sn_nr_pages (hp_spans ?h) = 8192" using K(2) F1(5) by simp
    show "spans_ok (all_spans B ?T) {} F' (hp_spans ?h)" using S(1) A' by simp
    have u: "used (X \<union> Y) = used X \<union> used Y" for X Y by (auto simp: used_def)
    have "used (all_spans B ?T) = used (?A - pspans (T j)) \<union> used (pspans Tj)" using A' F1(1) u by metis
    moreover have "used ?A = used (?A - pspans (T j)) \<union> used (pspans (T j))" using all_spansI(2) [OF j, of T B] u by (metis Diff_partition Un_commute)
    ultimately show "free_pages F' \<union> used (all_spans B ?T) = pa_region" using K(4) F1(3) by auto
    have nB: "B \<inter> pspans Tj = {}" "i < nr_small_pools \<Longrightarrow> i \<noteq> j \<Longrightarrow> pspans (T i) \<inter> pspans Tj = {}" for i
      using F1(2) unfolding rest by auto
    show "B \<inter> pspans (?T i) = {}" if "i < nr_small_pools" for i using nB(1) K(5) [OF that] by simp
    show "pspans (?T i) \<inter> pspans (?T i') = {}" if "i' < nr_small_pools" "i < nr_small_pools" "i \<noteq> i'" for i i'
      using nB(2) K(6) that by (cases "i = j"; cases "i' = j") (simp_all add: Int_commute)
    show "map_option pg_pool (sn_pages (hp_spans ?h) (fst a)) = Some None" if a: "a \<in> B" for a
    proof -
      have "fst a \<in> used {a}" using head_in_ivl [of "fst a" "snd a"] by (simp add: used_def)
      moreover have "{a} \<inter> pspans (T j) = {}" using K(5) [OF j] a by blast
      ultimately have "sn_pages s' (fst a) = sn_pages (hp_spans h) (fst a)" using quiet [of "fst a" "{a}"] all_spansI(1) [OF a] by blast
      then show ?thesis using K(7) [OF a] by simp
    qed
    fix i assume i: "i < nr_small_pools"
    show "sp_object_size (hp_pools ?h ! i) = pool_size i"
      using K(8) [OF i] same_paramsD(1) [OF F1(4)] K(1) j by (cases "i = j") simp_all
    show "sp_fallback (hp_pools ?h ! i) = fallback_size (pool_size i) 1"
      using K(10) [OF i] F1(4) K(1) j by (cases "i = j") (simp_all add: same_params_def)
    show "\<exists>W. pool_ok (sn_pages (hp_spans ?h)) i (hp_pools ?h ! i) (?T i) ((L(j := L')) i) W"
    proof (cases "i = j")
      case True
      then show ?thesis using S(4) K(1) j by simp
    next
      case False
      obtain W where W: "pool_ok (sn_pages (hp_spans h)) i (hp_pools h ! i) (T i) (L i) W" using K(9) [OF i] by blast
      have "pool_ok (sn_pages s') i (hp_pools h ! i) (T i) (L i) W"
        using quiet [OF _ all_spansI(2) [OF i] K(6) [OF i j False]] by (intro pool_ok_cong [OF W])
      then show ?thesis using False by auto
    qed
  qed
  then show ?thesis by blast
qed

section \<open>When pages run out\<close>

lemma dseg_unique: "dseg ps p xs 0 \<Longrightarrow> dseg ps p ys 0 \<Longrightarrow> 0 \<notin> set xs \<Longrightarrow> 0 \<notin> set ys \<Longrightarrow> hd0 xs 0 = hd0 ys 0 \<Longrightarrow> xs = ys"
proof (induction xs arbitrary: p ys)
  case Nil
  then show ?case by (cases ys) auto
next
  case (Cons x xs)
  then obtain zs where ys: "ys = x # zs" by (cases ys) auto
  have "dseg ps x xs 0" "dseg ps x zs 0" "hd0 xs 0 = hd0 zs 0" using Cons.prems ys by auto
  then show ?case using Cons.IH [of x zs] Cons.prems(3,4) ys by simp
qed

lemma dll_unique: "dll ps l xs \<Longrightarrow> dll ps l ys \<Longrightarrow> xs = ys"
  using dseg_unique [of ps 0 xs ys] by (simp add: dll_def)

text \<open>The pages of the spans that are linked in the lists.\<close>

definition free_page_set :: "spans \<Rightarrow> nat set" where
  "free_page_set s = (\<Union>k < 32. {i. \<exists>xs x. dll (sn_pages s) (sn_lists s ! k) xs \<and> x \<in> set xs \<and> i \<in> ivl (x, k)})"

lemma free_page_set_eq:
  assumes ok: "spans_ok A H F s"
  shows "free_page_set s = free_pages F"
proof -
  have "{i. \<exists>xs x. dll (sn_pages s) (sn_lists s ! k) xs \<and> x \<in> set xs \<and> i \<in> ivl (x, k)} = (\<Union>x \<in> set (F k). ivl (x, k))" if "k < 32" for k
    using spans_okD(4) [OF ok that] dll_unique by blast
  then have "free_page_set s = (\<Union>k < 32. \<Union>x \<in> set (F k). ivl (x, k))" unfolding free_page_set_def by simp
  also have "\<dots> = free_pages F" unfolding free_pages_def frees_def by blast
  finally show ?thesis .
qed

definition no_block :: "nat \<Rightarrow> spans \<Rightarrow> bool" where
  "no_block n s \<longleftrightarrow> (\<forall>y m. n \<le> 2 ^ m \<longrightarrow> 2 ^ m dvd y \<longrightarrow> \<not> {y..<y + 2 ^ m} \<subseteq> free_page_set s)"

lemma free_pages_bounds:
  assumes ok: "spans_ok A H F s" and i: "i \<in> free_pages F"
  shows "0 < i" "i < sn_nr_pages s"
proof -
  obtain a where "a \<in> frees F" "i \<in> ivl a" using i unfolding free_pages_def by blast
  moreover obtain x k where "a = (x, k)" by (cases a)
  ultimately show "0 < i" "i < sn_nr_pages s" using geoD(1) [OF spans_okD(5) [OF ok], of x k] by auto
qed

lemma alloc_pages_none:
  assumes ok: "spans_ok A {} F s" and n: "0 < n" "n < 2 ^ 31" and init: "sn_nr_pages s \<noteq> 0" and none: "alloc_pages n s = Some (None, s')"
  shows "s' = s" and "no_block n s"
proof -
  show s': "s' = s" using alloc_pages_ok [OF ok n init] none by auto
  show "no_block n s"
  proof (cases "sn_nr_pages s \<le> n")
    case True
    have no: "\<not> {y..<y + 2 ^ m} \<subseteq> free_pages F" if "n \<le> 2 ^ m" for y m :: nat
    proof
      assume a: "{y..<y + 2 ^ m} \<subseteq> free_pages F"
      have "y \<in> {y..<y + 2 ^ m}" "y + 2 ^ m - 1 \<in> {y..<y + 2 ^ m}"
        using ivl_ends(1) [of y m] ivl_ends(2) [of y m] unfolding ivl_def by (simp_all only: fst_conv snd_conv)
      then have "y + 2 ^ m - 1 \<in> free_pages F" "y \<in> free_pages F" using a by blast+
      then have "0 < y" "y + 2 ^ m - 1 < sn_nr_pages s" using free_pages_bounds [OF ok] by blast+
      then show False using that True by linarith
    qed
    show ?thesis unfolding no_block_def free_page_set_eq [OF ok] using no by blast
  next
    case False
    then have e: "alloc_pages n s = Option.bind (find_and_unlink_span n s) (\<lambda>(r, s).
             case r of None \<Rightarrow> Some (None, s) | Some x \<Rightarrow> map_option (Pair (Some x)) (carve_span x n s))"
      by (simp add: alloc_pages_def)
    from find_carve_ok [OF ok n init] have "\<forall>y m. n \<le> 2 ^ m \<longrightarrow> 2 ^ m dvd y \<longrightarrow> \<not> {y..<y + 2 ^ m} \<subseteq> free_pages F"
    proof (elim disjE)
      assume "\<exists>x j s1 s' F'. find_and_unlink_span n s = Some (Some x, s1) \<and> carve_span x n s1 = Some s' \<and>
        spans_ok (insert (x, j) A) {} F' s' \<and> n \<le> 2 ^ j \<and> 2 ^ j < 2 * n \<and> (x, j) \<notin> A \<and> ivl (x, j) \<subseteq> free_pages F \<and>
        free_pages F' = free_pages F - ivl (x, j) \<and> sn_nr_free s' + 2 ^ j = sn_nr_free s \<and> sn_nr_pages s' = sn_nr_pages s \<and>
        (\<exists>p. sn_pages s' x = Some p \<and> pg_pool p = None \<and> pg_span_size p = 2 ^ j) \<and>
        (\<forall>i. i \<notin> free_pages F \<longrightarrow> sn_pages s' i = sn_pages s i)"
      then obtain x s1 s2 where "find_and_unlink_span n s = Some (Some x, s1)" "carve_span x n s1 = Some s2" by blast
      then show ?thesis using e none by simp
    qed blast
    then show ?thesis unfolding no_block_def free_page_set_eq [OF ok] .
  qed
qed

lemma alloc_span_none:
  assumes st: "pool_state A F pool sp T L s" and none: "alloc_span sp s = Some (None, s)"
  shows "no_block (sp_fallback sp) s"
proof -
  note K = pool_stateD [OF st]
  have p: "sp_fallback sp < 2 ^ 31" "sp_preferred sp < 2 ^ 31" using K(6) by (simp_all add: pool_params_def)
  note pos = pool_params_pos [OF K(6)]
  obtain r s1 where 1: "alloc_pages (sp_preferred sp) s = Some (r, s1)" "r = None" using none by (auto simp: alloc_span_def bind_eq_Some_conv split: option.splits)
  then have "s1 = s" using alloc_pages_none(1) [OF K(1) pos(2) p(2) K(3)] by blast
  then obtain r2 where "alloc_pages (sp_fallback sp) s = Some (r2, s)" "r2 = None" using none 1 by (auto simp: alloc_span_def)
  then show ?thesis using alloc_pages_none(2) [OF K(1) pos(1) p(1) K(3)] by blast
qed

section \<open>The operations of the heap\<close>

fun large_block :: "span \<Rightarrow> nat \<times> nat \<times> nat option" where
  "large_block (x, k) = (x * page_size, 2 ^ k * page_size, None)"

definition live :: "span set \<Rightarrow> (nat \<Rightarrow> nat set) \<Rightarrow> (nat \<times> nat \<times> nat option) set" where
  "live B L = {(a, pool_size j, Some j) |a j. j < nr_small_pools \<and> a \<in> L j} \<union> large_block ` B"

lemma large_block_inj: "inj large_block"
proof (rule injI)
  fix a b :: span assume "large_block a = large_block b"
  then show "a = b" by (cases a; cases b) (simp add: page_size_def)
qed

lemma live_pool [simp]: "(a, c, Some j) \<in> live B L \<longleftrightarrow> j < nr_small_pools \<and> a \<in> L j \<and> c = pool_size j"
  by (auto simp: live_def)

lemma live_large: "(a, c, None) \<in> live B L \<longleftrightarrow> (\<exists>x k. (x, k) \<in> B \<and> a = x * page_size \<and> c = 2 ^ k * page_size)"
proof
  assume "(a, c, None) \<in> live B L"
  then obtain b where b: "b \<in> B" "(a, c, None) = large_block b" by (auto simp: live_def)
  moreover obtain x k where "b = (x, k)" by (cases b)
  ultimately show "\<exists>x k. (x, k) \<in> B \<and> a = x * page_size \<and> c = 2 ^ k * page_size" by auto
next
  assume "\<exists>x k. (x, k) \<in> B \<and> a = x * page_size \<and> c = 2 ^ k * page_size"
  then obtain x k where "(x, k) \<in> B" "(a, c, None) = large_block (x, k)" by auto
  then show "(a, c, None) \<in> live B L" unfolding live_def by blast
qed

lemma live_upd_pool:
  assumes "j < nr_small_pools"
  shows "live B (L(j := insert a (L j))) = insert (a, pool_size j, Some j) (live B L)"
    and "live B (L(j := L j - {a})) = live B L - {(a, pool_size j, Some j)}"
proof -
  have "v \<in> live B (L(j := insert a (L j))) \<longleftrightarrow> v \<in> insert (a, pool_size j, Some j) (live B L)" for v
    by (cases v rule: prod_cases3) (use assms in \<open>cases "snd (snd v)"; auto simp: live_large split: if_splits\<close>)
  then show "live B (L(j := insert a (L j))) = insert (a, pool_size j, Some j) (live B L)" by blast
  have "v \<in> live B (L(j := L j - {a})) \<longleftrightarrow> v \<in> live B L - {(a, pool_size j, Some j)}" for v
    by (cases v rule: prod_cases3) (use assms in \<open>cases "snd (snd v)"; auto simp: live_large split: if_splits\<close>)
  then show "live B (L(j := L j - {a})) = live B L - {(a, pool_size j, Some j)}" by blast
qed

text \<open>A live object lies in a page of its pool's.\<close>

lemma heap_object:
  assumes ok: "heap_ok B T F L h" and j: "j < nr_small_pools" and a: "a \<in> L j"
  shows "\<exists>x k n. T j x = Some (k, n) \<and> span_ok (sn_pages (hp_spans h)) j (pool_size j) x k n \<and> a \<in> slots_in (pool_size j) x n \<and>
    map_option pg_pool (sn_pages (hp_spans h) (a div page_size)) = Some (Some j)"
proof -
  obtain W where W: "pool_ok (sn_pages (hp_spans h)) j (hp_pools h ! j) (T j) (L j) W" using heap_okD(9) [OF ok j] by blast
  note K = pool_okD [OF W] and z = heap_okD(8) [OF ok j]
  have "a \<in> outs (sn_pages (hp_spans h)) (pool_size j) (T j)" using K(6) a z by auto
  then obtain x k n where x: "T j x = Some (k, n)" "a \<in> outside (sn_pages (hp_spans h)) (pool_size j) x n" unfolding outs_def by blast
  note s = K(2) [OF x(1), unfolded z]
  have as: "a \<in> slots_in (pool_size j) x n" using x(2) by (simp add: outside_def)
  note p = slot_page [OF as pool_sizes(1) [OF j] span_okD(2) [OF s]]
  have "a div page_size = x + (a div page_size - x)" "a div page_size - x < n" using p(1,2) by simp_all
  then have "map_option pg_pool (sn_pages (hp_spans h) (a div page_size)) = Some (Some j)"
    using span_okD(7) [OF s, of "a div page_size - x"] by (cases "sn_pages (hp_spans h) (a div page_size)") auto
  then show ?thesis using x(1) s as by blast
qed

lemma pool_result_none:
  assumes "pool_result A F pool sp T L s L' sp' s'" and "alloc_span sp' s' = Some (None, s')"
  shows "no_block (sp_fallback sp) s'"
proof -
  obtain A' F' T' where r: "pool_state A' F' pool sp' T' L' s'" "pool_frame A F sp T s A' F' sp' T' s'" using assms(1) unfolding pool_result_def by blast
  have "sp_fallback sp' = sp_fallback sp" using r(2) by (simp add: pool_frame_def same_params_def)
  then show ?thesis using alloc_span_none [OF r(1) assms(2)] by simp
qed

lemma allocate_small_ok:
  assumes ok: "heap_ok B T F L h" and n: "8 \<le> n" "n \<le> 16384"
  shows "\<exists>r h' j T' F' L'. allocate_small (of_nat n) h = Some (r, h') \<and> heap_ok B T' F' L' h' \<and> hp_xcpu h' = hp_xcpu h \<and>
    size_to_idx (of_nat n) = Some j \<and> unat j < nr_small_pools \<and> n \<le> pool_size (unat j) \<and> (\<forall>k. n = 2 ^ k \<longrightarrow> pool_size (unat j) = n) \<and>
    (case r of None \<Rightarrow> live B L' = live B L \<and> no_block (fallback_size (pool_size (unat j)) 1) (hp_spans h') | Some a \<Rightarrow> a \<notin> L (unat j) \<and> live B L' = insert (a, pool_size (unat j), Some (unat j)) (live B L))"
proof -
  obtain i where i: "size_to_idx (of_nat n) = Some i" "unat i < nr_small_pools" "n \<le> pool_size (unat i)" "\<forall>k. n = 2 ^ k \<longrightarrow> pool_size (unat i) = n"
    using size_to_idx_fits [OF n] by blast
  define j where "j = unat i"
  have j: "j < nr_small_pools" using i(2) by (simp add: j_def)
  have u: "unat (of_nat n :: u32) = n" using n by (simp add: unat_of_nat_u32)
  from pool_allocate_ok [OF heap_pool_state [OF ok j]] obtain r sp' s' where r: "pool_allocate j (hp_pools h ! j) (hp_spans h) = Some (r, sp', s')"
    "case r of None \<Rightarrow> alloc_span sp' s' = Some (None, s') \<and> pool_result (all_spans B T) F j (hp_pools h ! j) (T j) (L j) (hp_spans h) (L j) sp' s' |
     Some a \<Rightarrow> a \<notin> L j \<and> pool_result (all_spans B T) F j (hp_pools h ! j) (T j) (L j) (hp_spans h) (insert a (L j)) sp' s'" by (elim exE conjE)
  define h' where "h' = h\<lparr>hp_pools := (hp_pools h)[j := sp'], hp_spans := s'\<rparr>"
  have h': "allocate_small (of_nat n) h = Some (r, h')"
    using i j r(1) u heap_okD(1,8) [OF ok] by (simp add: allocate_small_def h'_def flip: j_def)
  show ?thesis
  proof (cases r)
    case None
    then have r2: "pool_result (all_spans B T) F j (hp_pools h ! j) (T j) (L j) (hp_spans h) (L j) sp' s'" "alloc_span sp' s' = Some (None, s')" using r(2) by simp_all
    from heap_lift [OF ok j r2(1)] obtain T' F' where "heap_ok B T' F' (L(j := L j)) h'" unfolding h'_def by blast
    moreover have "no_block (fallback_size (pool_size j) 1) (hp_spans h')" using pool_result_none [OF r2] heap_okD(10) [OF ok j] by (simp add: h'_def)
    moreover have "hp_xcpu h' = hp_xcpu h" by (simp add: h'_def)
    ultimately show ?thesis using h' i None unfolding j_def
      by (intro exI [of _ r] exI [of _ h'] exI [of _ i] exI [of _ T'] exI [of _ F'] exI [of _ "L(unat i := L (unat i))"]) simp
  next
    case (Some a)
    then have r2: "pool_result (all_spans B T) F j (hp_pools h ! j) (T j) (L j) (hp_spans h) (insert a (L j)) sp' s'" "a \<notin> L j" using r(2) by simp_all
    from heap_lift [OF ok j r2(1)] obtain T' F' where "heap_ok B T' F' (L(j := insert a (L j))) h'" unfolding h'_def by blast
    moreover have "hp_xcpu h' = hp_xcpu h" by (simp add: h'_def)
    ultimately show ?thesis using h' i Some r2(2) live_upd_pool(1) [OF j] unfolding j_def
      by (intro exI [of _ r] exI [of _ h'] exI [of _ i] exI [of _ T'] exI [of _ F'] exI [of _ "L(unat i := insert a (L (unat i)))"]) simp
  qed
qed

lemma heap_deallocate_ok:
  assumes ok: "heap_ok B T F L h" and j: "j < nr_small_pools" and a: "a \<in> L j"
  shows "\<exists>h' T' F' L'. heap_deallocate j a h = Some h' \<and> heap_ok B T' F' L' h' \<and> hp_xcpu h' = hp_xcpu h \<and> live B L' = live B L - {(a, pool_size j, Some j)}"
proof -
  from pool_deallocate_ok [OF heap_pool_state [OF ok j] a] obtain sp' s' where r: "pool_deallocate a (hp_pools h ! j) (hp_spans h) = Some (sp', s')"
    "pool_result (all_spans B T) F j (hp_pools h ! j) (T j) (L j) (hp_spans h) (L j - {a}) sp' s'" by (elim exE conjE)
  define h' where "h' = h\<lparr>hp_pools := (hp_pools h)[j := sp'], hp_spans := s'\<rparr>"
  have "heap_deallocate j a h = Some h'" using r(1) j heap_okD(1) [OF ok] by (simp add: heap_deallocate_def h'_def)
  moreover from heap_lift [OF ok j r(2)] obtain T' F' where "heap_ok B T' F' (L(j := L j - {a})) h'" unfolding h'_def by blast
  moreover have "hp_xcpu h' = hp_xcpu h" by (simp add: h'_def)
  ultimately show ?thesis using live_upd_pool(2) [OF j, of B L a] by blast
qed

section \<open>Large objects\<close>

lemma heap_large:
  assumes ok: "heap_ok B T F L h" and s: "spans_ok (all_spans B' T) {} F' s'" "sn_nr_pages s' = sn_nr_pages (hp_spans h)"
    "free_pages F' \<union> used (all_spans B' T) = pa_region" and B': "\<forall>j < nr_small_pools. B' \<inter> pspans (T j) = {}"
    "\<forall>a \<in> B'. map_option pg_pool (sn_pages s' (fst a)) = Some None"
    and quiet: "\<forall>j < nr_small_pools. \<forall>i \<in> used (pspans (T j)). sn_pages s' i = sn_pages (hp_spans h) i"
  shows "heap_ok B' T F' L (h\<lparr>hp_spans := s'\<rparr>)"
proof -
  note K = heap_okD [OF ok]
  have "\<exists>W. pool_ok (sn_pages s') j (hp_pools h ! j) (T j) (L j) W" if j: "j < nr_small_pools" for j
  proof -
    obtain W where W: "pool_ok (sn_pages (hp_spans h)) j (hp_pools h ! j) (T j) (L j) W" using K(9) [OF j] by blast
    have "pool_ok (sn_pages s') j (hp_pools h ! j) (T j) (L j) W" using quiet j by (intro pool_ok_cong [OF W]) blast
    then show ?thesis by blast
  qed
  then show ?thesis using K(1,2,6,8,10) s B' unfolding heap_ok_def by simp
qed

lemma used_Un: "used (X \<union> Y) = used X \<union> used Y"
  by (auto simp: used_def)

lemma no_block_big:
  assumes ok: "spans_ok A H F s" and n: "sn_nr_pages s \<le> n"
  shows "no_block n s"
proof -
  have "\<not> {y..<y + 2 ^ m} \<subseteq> free_pages F" if "n \<le> 2 ^ m" for y m :: nat
  proof
    assume "{y..<y + 2 ^ m} \<subseteq> free_pages F"
    then have "y \<in> free_pages F" "y + 2 ^ m - 1 \<in> free_pages F" using ivl_ends [of y m] unfolding ivl_def by auto
    then have "0 < y" "y + 2 ^ m - 1 < sn_nr_pages s" using free_pages_bounds [OF ok] by blast+
    then show False using that n by linarith
  qed
  then show ?thesis unfolding no_block_def free_page_set_eq [OF ok] by blast
qed

lemma pools_quiet:
  assumes ok: "heap_ok B T F L h" and j: "j < nr_small_pools" and i: "i \<in> used (pspans (T j))"
  shows "i \<notin> free_pages F" and "C \<subseteq> B \<Longrightarrow> i \<notin> used C"
proof -
  note K = heap_okD [OF ok]
  have s: "pspans (T j) \<subseteq> all_spans B T" using all_spansI(2) [OF j] .
  show "i \<notin> free_pages F" using used_free_apart [OF K(3)] used_mono [OF s] i by blast
  assume C: "C \<subseteq> B"
  have G: "geo (sn_nr_pages (hp_spans h)) (all_spans B T)" using spans_okD(5) [OF K(3)] geo_subset by blast
  have "C \<subseteq> all_spans B T" "C \<inter> pspans (T j) = {}" using C K(5) [OF j] unfolding all_spans_def by blast+
  then show "i \<notin> used C" using used_apart [OF G _ s] i by blast
qed

lemma live_insert: "live (insert b B) L = insert (large_block b) (live B L)"
  by (simp add: live_def)

lemma live_remove: "live (B - {b}) L = live B L - {large_block b}"
proof -
  have "large_block b \<notin> {(a, pool_size j, Some j) |a j. j < nr_small_pools \<and> a \<in> L j}" by (cases b) simp
  moreover have "large_block ` (B - {b}) = large_block ` B - {large_block b}" using image_set_diff [OF large_block_inj, of B "{b}"] by simp
  ultimately show ?thesis unfolding live_def by blast
qed

lemma large_pages_ok:
  assumes ok: "heap_ok B T F L h" and n: "0 < n"
  shows "\<exists>r h' B' F'. large_pages n h = Some (r, h') \<and> heap_ok B' T F' L h' \<and> hp_xcpu h' = hp_xcpu h \<and>
    (case r of None \<Rightarrow> live B' L = live B L \<and> no_block n (hp_spans h')
     | Some a \<Rightarrow> \<exists>x k. a = x * page_size \<and> n \<le> 2 ^ k \<and> 2 ^ k dvd x \<and> (x, k) \<in> B' \<and> (x, k) \<notin> B \<and> live B' L = insert (a, 2 ^ k * page_size, None) (live B L))"
proof (cases "8192 \<le> n")
  case True
  note K = heap_okD [OF ok]
  have "alloc_pages n (hp_spans h) = Some (None, hp_spans h)" using True K(2) by (simp add: alloc_pages_def)
  then have "large_pages n h = Some (None, h)" by (simp add: large_pages_def)
  moreover have "no_block n (hp_spans h)" using no_block_big [OF K(3)] True K(2) by simp
  ultimately show ?thesis using ok by (intro exI [of _ None] exI [of _ h] exI [of _ B] exI [of _ F]) simp
next
  case False
  note K = heap_okD [OF ok]
  have n31: "n < 2 ^ 31" using False by (rule_tac le_less_trans [of n 8192]) simp_all
  have init: "sn_nr_pages (hp_spans h) \<noteq> 0" using K(2) by simp
  from alloc_pages_ok [OF K(3) n n31 init] show ?thesis
  proof (elim disjE)
    assume a: "alloc_pages n (hp_spans h) = Some (None, hp_spans h)"
    then have "large_pages n h = Some (None, h)" by (simp add: large_pages_def)
    moreover have "no_block n (hp_spans h)" using alloc_pages_none(2) [OF K(3) n n31 init a] .
    ultimately show ?thesis using ok by (intro exI [of _ None] exI [of _ h] exI [of _ B] exI [of _ F]) simp
  next
    assume "\<exists>x j s' F'. alloc_pages n (hp_spans h) = Some (Some x, s') \<and> spans_ok (insert (x, j) (all_spans B T)) {} F' s' \<and>
       n \<le> 2 ^ j \<and> 2 ^ j < 2 * n \<and> (x, j) \<notin> all_spans B T \<and>
       ivl (x, j) \<subseteq> free_pages F \<and> free_pages F' = free_pages F - ivl (x, j) \<and> sn_nr_pages s' = sn_nr_pages (hp_spans h) \<and>
       map_option pg_pool (sn_pages s' x) = Some None \<and> (\<forall>i. i \<notin> free_pages F \<longrightarrow> sn_pages s' i = sn_pages (hp_spans h) i)"
    then obtain x k s' F' where r: "alloc_pages n (hp_spans h) = Some (Some x, s')" "spans_ok (insert (x, k) (all_spans B T)) {} F' s'"
       "n \<le> 2 ^ k" "2 ^ k < 2 * n" "(x, k) \<notin> all_spans B T" "ivl (x, k) \<subseteq> free_pages F" "free_pages F' = free_pages F - ivl (x, k)"
       "sn_nr_pages s' = sn_nr_pages (hp_spans h)" "map_option pg_pool (sn_pages s' x) = Some None"
       "\<forall>i. i \<notin> free_pages F \<longrightarrow> sn_pages s' i = sn_pages (hp_spans h) i" by (elim exE conjE)
    have e: "all_spans (insert (x, k) B) T = insert (x, k) (all_spans B T)" by (simp add: all_spans_def)
    have "heap_ok (insert (x, k) B) T F' L (h\<lparr>hp_spans := s'\<rparr>)"
    proof (rule heap_large [OF ok])
      show "spans_ok (all_spans (insert (x, k) B) T) {} F' s'" using r(2) e by simp
      show "sn_nr_pages s' = sn_nr_pages (hp_spans h)" by (rule r(8))
      show "free_pages F' \<union> used (all_spans (insert (x, k) B) T) = pa_region" using K(4) r(6,7) unfolding e used_insert by blast
      show "\<forall>j < nr_small_pools. insert (x, k) B \<inter> pspans (T j) = {}" using K(5) r(5) all_spansI(2) by blast
      show "\<forall>j < nr_small_pools. \<forall>i \<in> used (pspans (T j)). sn_pages s' i = sn_pages (hp_spans h) i"
        using pools_quiet(1) [OF ok] r(10) by blast
      show "\<forall>a \<in> insert (x, k) B. map_option pg_pool (sn_pages s' (fst a)) = Some None"
      proof
        fix a assume a: "a \<in> insert (x, k) B"
        show "map_option pg_pool (sn_pages s' (fst a)) = Some None"
        proof (cases "a \<in> B")
          case True
          have "fst a \<in> used (all_spans B T)" using head_in_ivl [of "fst a" "snd a"] all_spansI(1) [OF True, of T] unfolding used_def by auto
          then have "fst a \<notin> free_pages F" using used_free_apart [OF K(3)] by blast
          then show ?thesis using r(10) K(7) [OF True] by simp
        next
          case False
          then show ?thesis using a r(9) by simp
        qed
      qed
    qed
    moreover have "large_pages n h = Some (Some (x * page_size), h\<lparr>hp_spans := s'\<rparr>)" using r(1) by (simp add: large_pages_def)
    moreover have "2 ^ k dvd x" using geoD(1) [OF spans_okD(5) [OF r(2)], of x k] by simp
    moreover have "(x, k) \<notin> B" using r(5) all_spansI(1) by blast
    ultimately show ?thesis using r(3) live_insert [of "(x, k)" B L]
      by (intro exI [of _ "Some (x * page_size)"] exI [of _ "h\<lparr>hp_spans := s'\<rparr>"] exI [of _ "insert (x, k) B"] exI [of _ F']) auto
  qed
qed

lemma heap_geo: "heap_ok B T F L h \<Longrightarrow> geo 8192 (all_spans B T)"
  using spans_okD(5) [OF heap_okD(3)] heap_okD(2) geo_subset [of 8192 "all_spans B T \<union> {} \<union> frees F" "all_spans B T"] by fastforce

lemma large_quiet:
  assumes ok: "heap_ok B T F L h" and a: "(x, k) \<in> B" and q: "\<forall>i. i \<notin> free_pages F \<union> ivl (x, k) \<longrightarrow> sn_pages s' i = sn_pages (hp_spans h) i"
  shows "\<forall>j < nr_small_pools. \<forall>i \<in> used (pspans (T j)). sn_pages s' i = sn_pages (hp_spans h) i"
    and "\<forall>b \<in> B - {(x, k)}. map_option pg_pool (sn_pages s' (fst b)) = Some None"
proof -
  note K = heap_okD [OF ok]
  show "\<forall>j < nr_small_pools. \<forall>i \<in> used (pspans (T j)). sn_pages s' i = sn_pages (hp_spans h) i"
  proof (intro allI impI ballI)
    fix j i assume j: "j < nr_small_pools" "i \<in> used (pspans (T j))"
    have "{(x, k)} \<subseteq> B" using a by simp
    from pools_quiet(2) [OF ok j this] have "i \<notin> ivl (x, k)" unfolding used_def by blast
    then show "sn_pages s' i = sn_pages (hp_spans h) i" using pools_quiet(1) [OF ok j] q by blast
  qed
  show "\<forall>b \<in> B - {(x, k)}. map_option pg_pool (sn_pages s' (fst b)) = Some None"
  proof
    fix b assume b: "b \<in> B - {(x, k)}"
    have i: "fst b \<in> ivl b" using head_in_ivl [of "fst b" "snd b"] by simp
    have bA: "b \<in> all_spans B T" "(x, k) \<in> all_spans B T" using b a all_spansI(1) by blast+
    have "fst b \<notin> ivl (x, k)" using geoD(2) [OF heap_geo [OF ok] bA i] b by blast
    moreover have "fst b \<notin> free_pages F" using used_free_apart [OF K(3)] bA(1) i unfolding used_def by blast
    ultimately have "sn_pages s' (fst b) = sn_pages (hp_spans h) (fst b)" using q by blast
    then show "map_option pg_pool (sn_pages s' (fst b)) = Some None" using K(7) b by simp
  qed
qed

lemma all_spans_remove:
  assumes ok: "heap_ok B T F L h" and a: "a \<in> B"
  shows "all_spans (B - {a}) T = all_spans B T - {a}"
proof -
  have "a \<notin> (\<Union>j \<in> {..<nr_small_pools}. pspans (T j))" using heap_okD(5) [OF ok] a by blast
  then show ?thesis unfolding all_spans_def by blast
qed

lemma free_large_heap:
  assumes ok: "heap_ok B T F L h" and a: "(x, k) \<in> B"
  shows "\<exists>s' F'. free_large x (hp_spans h) = Some s' \<and> heap_ok (B - {(x, k)}) T F' L (h\<lparr>hp_spans := s'\<rparr>)"
proof -
  note K = heap_okD [OF ok]
  have A: "(x, k) \<in> all_spans B T" using a all_spansI(1) by blast
  obtain p where p: "sn_pages (hp_spans h) x = Some p" "pg_span_size p = 2 ^ k" using taggedD(1) [OF spans_okD(10) [OF K(3) A]] by blast
  from free_large_ok [OF K(3) A] obtain s' F' where r: "free_span x (2 ^ k) (hp_spans h) = Some s'" "spans_ok (all_spans B T - {(x, k)}) {} F' s'"
    "sn_nr_pages s' = sn_nr_pages (hp_spans h)" "free_pages F' = free_pages F \<union> ivl (x, k)"
    "\<forall>i. i \<notin> free_pages F \<union> ivl (x, k) \<longrightarrow> sn_pages s' i = sn_pages (hp_spans h) i" by (elim exE conjE)
  note e = all_spans_remove [OF ok a]
  have "used (all_spans B T) = ivl (x, k) \<union> used (all_spans B T - {(x, k)})" using A unfolding used_def by blast
  then have reg: "free_pages F' \<union> used (all_spans (B - {(x, k)}) T) = pa_region" using K(4) r(4) unfolding e by blast
  have "heap_ok (B - {(x, k)}) T F' L (h\<lparr>hp_spans := s'\<rparr>)"
    using r(2) K(5) unfolding e [symmetric]
    by (intro heap_large [OF ok _ r(3) reg _ large_quiet(2) [OF ok a r(5)] large_quiet(1) [OF ok a r(5)]]) (assumption | blast)+
  moreover have "free_large x (hp_spans h) = Some s'" using p r(1) by (simp add: free_large_def)
  ultimately show ?thesis by blast
qed

lemma shrink_heap:
  assumes ok: "heap_ok B T F L h" and a: "(x, k) \<in> B" and m: "0 < m" "m \<le> 2 ^ k * page_size"
  shows "\<exists>s' F' j. shrink_span x m (hp_spans h) = Some s' \<and> heap_ok (insert (x, j) (B - {(x, k)})) T F' L (h\<lparr>hp_spans := s'\<rparr>) \<and> m \<le> 2 ^ j * page_size"
proof -
  note K = heap_okD [OF ok]
  have A: "(x, k) \<in> all_spans B T" using a all_spansI(1) by blast
  from shrink_span_ok [OF K(3) A m(1)] obtain j s' F' where r: "shrink_span x m (hp_spans h) = Some s'"
    "spans_ok (insert (x, j) (all_spans B T - {(x, k)})) {} F' s'" "j \<le> k" "m \<le> 2 ^ k * page_size \<longrightarrow> m \<le> 2 ^ j * page_size"
    "free_pages F' = free_pages F \<union> (ivl (x, k) - ivl (x, j))" "sn_nr_pages s' = sn_nr_pages (hp_spans h)"
    "\<forall>i. i \<notin> free_pages F \<union> ivl (x, k) \<longrightarrow> sn_pages s' i = sn_pages (hp_spans h) i"
    "map_option pg_pool (sn_pages s' x) = map_option pg_pool (sn_pages (hp_spans h) x)" by (elim exE conjE)
  have e: "all_spans (insert (x, j) (B - {(x, k)})) T = insert (x, j) (all_spans B T - {(x, k)})"
    using all_spans_remove [OF ok a] by (simp add: all_spans_def)
  have "(2::nat) ^ j \<le> 2 ^ k" using r(3) by (intro power_increasing) simp_all
  then have sub: "ivl (x, j) \<subseteq> ivl (x, k)" unfolding ivl_def fst_conv snd_conv by (meson add_left_mono atLeastLessThan_iff less_le_trans subsetI)
  have "used (all_spans B T) = ivl (x, k) \<union> used (all_spans B T - {(x, k)})" using A unfolding used_def by blast
  then have reg: "free_pages F' \<union> used (all_spans (insert (x, j) (B - {(x, k)})) T) = pa_region"
    using K(4) r(5) sub unfolding e used_insert by blast
  have new: "(x, j) \<notin> pspans (T i)" if i: "i < nr_small_pools" for i
  proof
    assume "(x, j) \<in> pspans (T i)"
    then have x: "(x, j) \<in> all_spans B T" "(x, j) \<notin> B" using all_spansI(2) [OF i] K(5) [OF i] by blast+
    have "j = k" using geo_start [OF heap_geo [OF ok] x(1) A] .
    then show False using x(2) a by simp
  qed
  have "heap_ok (insert (x, j) (B - {(x, k)})) T F' L (h\<lparr>hp_spans := s'\<rparr>)"
  proof (rule heap_large [OF ok _ r(6) reg _ _ large_quiet(1) [OF ok a r(7)]])
    show "spans_ok (all_spans (insert (x, j) (B - {(x, k)})) T) {} F' s'" using r(2) e by simp
    show "\<forall>i < nr_small_pools. insert (x, j) (B - {(x, k)}) \<inter> pspans (T i) = {}" using new K(5) by blast
    show "\<forall>b \<in> insert (x, j) (B - {(x, k)}). map_option pg_pool (sn_pages s' (fst b)) = Some None"
    proof -
      have "map_option pg_pool (sn_pages s' x) = Some None" using r(8) K(7) [OF a] by (simp only: fst_conv)
      then show ?thesis using large_quiet(2) [OF ok a r(7)] by (metis fst_conv insert_iff)
    qed
  qed
  then show ?thesis using r(1,4) m(2) by blast
qed

section \<open>Live objects are disjoint\<close>

definition block :: "nat \<times> nat \<times> nat option \<Rightarrow> nat set" where
  "block v = {fst v..<fst v + fst (snd v)}"

text \<open>A live object lies in a span, at a place of its own.\<close>

definition lies_in :: "nat \<times> nat \<times> nat option \<Rightarrow> span \<Rightarrow> bool" where
  "lies_in v a \<longleftrightarrow> (\<forall>b \<in> block v. b div page_size \<in> ivl a)"

lemma large_lies: "lies_in (large_block a) a"
proof -
  obtain x k where a: "a = (x, k)" by (cases a)
  have "b div page_size \<in> ivl (x, k)" if b: "x * page_size \<le> b" "b < x * page_size + 2 ^ k * page_size" for b
  proof -
    have "x \<le> b div page_size" using b(1) by (simp add: less_eq_div_iff_mult_less_eq page_size_def)
    moreover have "b < (x + 2 ^ k) * page_size" using b(2) by (simp add: add_mult_distrib)
    then have "b div page_size < x + 2 ^ k" by (simp add: div_less_iff_less_mult page_size_def)
    ultimately show ?thesis by simp
  qed
  then show ?thesis unfolding lies_in_def block_def a by auto
qed

lemma slot_lies:
  assumes "a \<in> slots_in z x n" and "0 < z" and "n \<le> 2 ^ k"
  shows "lies_in (a, z, p) (x, k)"
proof -
  obtain i where i: "a = x * page_size + i * z" "Suc i * z \<le> n * page_size" using assms(1) by (auto simp: slots_in_def)
  have "b div page_size \<in> ivl (x, k)" if b: "a \<le> b" "b < a + z" for b
  proof -
    have "x * page_size \<le> b" using b(1) i(1) by simp
    then have "x \<le> b div page_size" by (simp add: less_eq_div_iff_mult_less_eq page_size_def)
    moreover have "n * page_size \<le> 2 ^ k * page_size" using assms(3) by (rule mult_le_mono1)
    then have "b < x * page_size + 2 ^ k * page_size" using b(2) i unfolding mult_Suc by linarith
    then have "b < (x + 2 ^ k) * page_size" unfolding add_mult_distrib .
    then have "b div page_size < x + 2 ^ k" by (simp add: div_less_iff_less_mult page_size_def)
    ultimately show ?thesis by simp
  qed
  then show ?thesis unfolding lies_in_def block_def by auto
qed

lemma object_slots_disjoint:
  assumes "a \<in> slots_in z x n" and "b \<in> slots_in z x n" and "a \<noteq> b"
  shows "{a..<a + z} \<inter> {b..<b + z} = {}"
proof -
  obtain i j where i: "a = x * page_size + i * z" "b = x * page_size + j * z" using assms(1,2) by (auto simp: slots_in_def)
  have "i \<noteq> j" using i assms(3) by blast
  then consider "Suc i \<le> j" | "Suc j \<le> i" by linarith
  then show ?thesis
  proof cases
    case 1
    then have "Suc i * z \<le> j * z" by (rule mult_le_mono1)
    then show ?thesis using i by auto
  next
    case 2
    then have "Suc j * z \<le> i * z" by (rule mult_le_mono1)
    then show ?thesis using i by auto
  qed
qed

lemma live_place:
  assumes ok: "heap_ok B T F L h" and v: "v \<in> live B L"
  shows "\<exists>a. lies_in v a \<and> ((v = large_block a \<and> a \<in> B) \<or>
    (\<exists>j n. j < nr_small_pools \<and> fst v \<in> L j \<and> v = (fst v, pool_size j, Some j) \<and> T j (fst a) = Some (snd a, n) \<and> fst v \<in> slots_in (pool_size j) (fst a) n))"
proof -
  obtain a c p where e: "v = (a, c, p)" by (cases v rule: prod_cases3)
  show ?thesis
  proof (cases p)
    case None
    then obtain x k where "(x, k) \<in> B" "v = large_block (x, k)" using v e live_large [of a c B L] by auto
    then show ?thesis using large_lies by blast
  next
    case (Some j)
    then have j: "j < nr_small_pools" "a \<in> L j" "c = pool_size j" using v e by simp_all
    obtain x k n where x: "T j x = Some (k, n)" "span_ok (sn_pages (hp_spans h)) j (pool_size j) x k n" "a \<in> slots_in (pool_size j) x n"
      using heap_object [OF ok j(1,2)] by blast
    have "lies_in v (x, k)" using slot_lies [OF x(3) pool_sizes(1) [OF j(1)] span_okD(2) [OF x(2)]] e j(3) by simp
    then show ?thesis using e Some j x(1,3) by (intro exI [of _ "(x, k)"]) auto
  qed
qed

lemma live_spans:
  assumes "heap_ok B T F L h" and "(v = large_block a \<and> a \<in> B) \<or>
    (\<exists>j n. j < nr_small_pools \<and> fst v \<in> L j \<and> v = (fst v, pool_size j, Some j) \<and> T j (fst a) = Some (snd a, n) \<and> fst v \<in> slots_in (pool_size j) (fst a) n)"
  shows "a \<in> all_spans B T"
  using assms(2)
proof (elim disjE)
  assume "v = large_block a \<and> a \<in> B"
  then show ?thesis using all_spansI(1) by blast
next
  assume "\<exists>j n. j < nr_small_pools \<and> fst v \<in> L j \<and> v = (fst v, pool_size j, Some j) \<and> T j (fst a) = Some (snd a, n) \<and> fst v \<in> slots_in (pool_size j) (fst a) n"
  then obtain j n where "j < nr_small_pools" "T j (fst a) = Some (snd a, n)" by blast
  then have "(fst a, snd a) \<in> pspans (T j)" "j < nr_small_pools" using pspansI [of "T j" "fst a" "snd a" n] by simp_all
  then show ?thesis using all_spansI(2) by (metis prod.collapse subsetD)
qed

lemma live_disjoint:
  assumes ok: "heap_ok B T F L h" and v: "v \<in> live B L" and w: "w \<in> live B L" and ne: "v \<noteq> w"
  shows "block v \<inter> block w = {}"
proof -
  obtain a where a: "lies_in v a" "(v = large_block a \<and> a \<in> B) \<or>
    (\<exists>j n. j < nr_small_pools \<and> fst v \<in> L j \<and> v = (fst v, pool_size j, Some j) \<and> T j (fst a) = Some (snd a, n) \<and> fst v \<in> slots_in (pool_size j) (fst a) n)"
    using live_place [OF ok v] by blast
  obtain b where b: "lies_in w b" "(w = large_block b \<and> b \<in> B) \<or>
    (\<exists>j n. j < nr_small_pools \<and> fst w \<in> L j \<and> w = (fst w, pool_size j, Some j) \<and> T j (fst b) = Some (snd b, n) \<and> fst w \<in> slots_in (pool_size j) (fst b) n)"
    using live_place [OF ok w] by blast
  have A: "a \<in> all_spans B T" "b \<in> all_spans B T" using live_spans [OF ok a(2)] live_spans [OF ok b(2)] .
  show ?thesis
  proof (cases "a = b")
    case False
    show ?thesis
    proof (rule ccontr)
      assume "block v \<inter> block w \<noteq> {}"
      then obtain i where "i \<in> block v" "i \<in> block w" by blast
      then have "i div page_size \<in> ivl a" "i div page_size \<in> ivl b" using a(1) b(1) unfolding lies_in_def by blast+
      then show False using geoD(2) [OF heap_geo [OF ok] A] False by blast
    qed
  next
    case True
    have inT: "a \<in> pspans (T j)" if "T j (fst a) = Some (snd a, n)" for j n using pspansI [of "T j" "fst a" "snd a" n] that by simp
    have "a \<notin> B"
    proof
      assume B: "a \<in> B"
      then have "a \<notin> pspans (T j)" if "j < nr_small_pools" for j using heap_okD(5) [OF ok that] by blast
      then have "v = large_block a" "w = large_block a" using a(2) b(2) True inT by blast+
      then show False using ne by simp
    qed
    then obtain j n i m where j: "j < nr_small_pools" "v = (fst v, pool_size j, Some j)" "T j (fst a) = Some (snd a, n)" "fst v \<in> slots_in (pool_size j) (fst a) n"
      and i: "i < nr_small_pools" "w = (fst w, pool_size i, Some i)" "T i (fst a) = Some (snd a, m)" "fst w \<in> slots_in (pool_size i) (fst a) m"
      using a(2) b(2) True by blast
    have "i = j" using heap_okD(6) [OF ok i(1) j(1)] inT i(3) j(3) by blast
    then have "m = n" using i(3) j(3) by simp
    have "fst v \<noteq> fst w" using ne i(2) j(2) \<open>i = j\<close> by metis
    from object_slots_disjoint [OF j(4) _ this] have "{fst v..<fst v + pool_size j} \<inter> {fst w..<fst w + pool_size j} = {}"
      using i(4) \<open>i = j\<close> \<open>m = n\<close> by blast
    moreover have "fst (snd v) = pool_size j" "fst (snd w) = pool_size j" using i(2) j(2) \<open>i = j\<close> by (metis fst_conv snd_conv)+
    ultimately show ?thesis unfolding block_def by simp
  qed
qed

lemma live_region:
  assumes ok: "heap_ok B T F L h" and v: "v \<in> live B L"
  shows "block v \<subseteq> {128 * page_size..<8192 * page_size}"
proof
  fix i assume i: "i \<in> block v"
  obtain a where a: "lies_in v a" "a \<in> all_spans B T" using live_place [OF ok v] live_spans [OF ok] by blast
  then have "i div page_size \<in> used (all_spans B T)" using i unfolding lies_in_def used_def by blast
  then have "i div page_size \<in> pa_region" using heap_okD(4) [OF ok] by blast
  then show "i \<in> {128 * page_size..<8192 * page_size}"
    by (simp add: pa_region_def less_eq_div_iff_mult_less_eq div_less_iff_less_mult page_size_def)
qed

lemma live_positive:
  assumes ok: "heap_ok B T F L h" and v: "(a, c, p) \<in> live B L"
  shows "0 < c"
proof (cases p)
  case None
  then show ?thesis using v live_large [of a c B L] by (auto simp: page_size_def)
next
  case (Some j)
  then show ?thesis using v pool_sizes(1) by simp
qed

lemma live_unique:
  assumes ok: "heap_ok B T F L h" and v: "(a, c, p) \<in> live B L" and w: "(a, d, q) \<in> live B L"
  shows "c = d \<and> p = q"
proof (rule ccontr)
  assume "\<not> (c = d \<and> p = q)"
  then have "(a, c, p) \<noteq> (a, d, q)" by simp
  from live_disjoint [OF ok v w this] show False using live_positive [OF ok v] live_positive [OF ok w] unfolding block_def by auto
qed

lemma live_object_size:
  assumes ok: "heap_ok B T F L h" and v: "(a, c, p) \<in> live B L"
  shows "heap_object_size a h = Some c" "map_option pg_pool (sn_pages (hp_spans h) (a div page_size)) = Some p"
proof -
  note K = heap_okD [OF ok]
  show "map_option pg_pool (sn_pages (hp_spans h) (a div page_size)) = Some p" and "heap_object_size a h = Some c"
  proof -
    show 1: "map_option pg_pool (sn_pages (hp_spans h) (a div page_size)) = Some p"
    proof (cases p)
      case None
      then obtain x k where x: "(x, k) \<in> B" "a = x * page_size" using v live_large [of a c B L] by auto
      then show ?thesis using K(7) [OF x(1)] None by (simp add: page_size_def)
    next
      case (Some j)
      then show ?thesis using v heap_object [OF ok, of j a] by auto
    qed
    then obtain q where q: "sn_pages (hp_spans h) (a div page_size) = Some q" "pg_pool q = p" by auto
    show "heap_object_size a h = Some c"
    proof (cases p)
      case None
      then obtain x k where x: "(x, k) \<in> B" "a = x * page_size" "c = 2 ^ k * page_size" using v live_large [of a c B L] by auto
      have "sn_pages (hp_spans h) x = Some q" using q(1) x(2) by (simp add: page_size_def)
      then have "pg_span_size q = 2 ^ k" using taggedD(1) [OF spans_okD(10) [OF K(3) all_spansI(1) [OF x(1)]]] by auto
      then show ?thesis using q None x(3) by (simp add: heap_object_size_def)
    next
      case (Some j)
      then show ?thesis using q v K(1,8) by (simp add: heap_object_size_def)
    qed
  qed
qed

section \<open>Runs of the heap\<close>

datatype hp_op = Hp_allocate size_t | Hp_allocate_aligned size_t size_t | Hp_free nat | Hp_free_sized nat size_t
  | Hp_shrink nat nat | Hp_free_remote nat | Hp_drain

fun hp_step :: "hp_op \<Rightarrow> heap \<Rightarrow> (nat option \<times> heap) option" where
  "hp_step (Hp_allocate n) h = heap_allocate n h"
| "hp_step (Hp_allocate_aligned align n) h = heap_allocate_aligned align n h"
| "hp_step (Hp_free a) h = map_option (Pair None) (heap_free a h)"
| "hp_step (Hp_free_sized a n) h = map_option (Pair None) (heap_free_sized a n h)"
| "hp_step (Hp_shrink a m) h = map_option (Pair None) (heap_shrink a m h)"
| "hp_step (Hp_free_remote a) h = Some (None, free_cross_cpu a h)"
| "hp_step Hp_drain h = map_option (\<lambda>(_, h). (None, h)) (drain_cross_cpu_freelist h)"

text \<open>The pool that serves a request, none for the page allocator.\<close>

definition rounded :: "size_t \<Rightarrow> nat" where "rounded n = max 8 (unat n)"

definition rounded_aligned :: "size_t \<Rightarrow> size_t \<Rightarrow> nat" where
  "rounded_aligned align n = (if n \<le> 8 then max 8 (unat align) else unat n)"

definition kind :: "size_t \<Rightarrow> nat option" where
  "kind n = (if rounded n \<le> max_small_allocation then map_option unat (size_to_idx (of_nat (rounded n))) else None)"

definition kind_aligned :: "size_t \<Rightarrow> size_t \<Rightarrow> nat option" where
  "kind_aligned align n =
     (if rounded_aligned align n \<le> max_small_allocation \<and> unat align \<le> page_size
      then map_option unat (Option.bind (log2ceil (of_nat (rounded_aligned align n) :: size_t)) (\<lambda>k. size_to_idx (push_bit k 1))) else None)"

definition pages_of :: "nat \<Rightarrow> nat" where "pages_of n = (n + (page_size - 1)) div page_size"

text \<open>The live objects, each with the size the allocator reports for it, after a request.\<close>

fun hp_live :: "hp_op \<Rightarrow> nat option \<Rightarrow> heap \<Rightarrow> (nat \<times> nat \<times> nat option) set \<Rightarrow> heap \<Rightarrow> (nat \<times> nat \<times> nat option) set" where
  "hp_live (Hp_allocate n) (Some a) h V h' = insert (a, the (heap_object_size a h'), kind n) V"
| "hp_live (Hp_allocate_aligned align n) (Some a) h V h' = insert (a, the (heap_object_size a h'), kind_aligned align n) V"
| "hp_live (Hp_free a) r h V h' = {v \<in> V. fst v \<noteq> a}"
| "hp_live (Hp_free_sized a n) r h V h' = {v \<in> V. fst v \<noteq> a}"
| "hp_live (Hp_shrink a m) r h V h' = {v \<in> V. fst v \<noteq> a} \<union> {(a, the (heap_object_size a h'), p) |p. \<exists>c. (a, c, p) \<in> V}"
| "hp_live Hp_drain r h V h' = {v \<in> V. fst v \<notin> set (hp_xcpu h)}"
| "hp_live x r h V h' = V"

fun hp_valid :: "hp_op \<Rightarrow> (nat \<times> nat \<times> nat option) set \<Rightarrow> nat list \<Rightarrow> bool" where
  "hp_valid (Hp_allocate n) V X \<longleftrightarrow> unat n < 2 ^ 63"
| "hp_valid (Hp_allocate_aligned align n) V X \<longleftrightarrow> rounded_aligned align n < 2 ^ 43"
| "hp_valid (Hp_free a) V X \<longleftrightarrow> a \<in> fst ` V \<and> a \<notin> set X"
| "hp_valid (Hp_free_sized a n) V X \<longleftrightarrow> (\<exists>c. (a, c, kind n) \<in> V) \<and> a \<notin> set X"
| "hp_valid (Hp_shrink a m) V X \<longleftrightarrow> (\<exists>c p. (a, c, p) \<in> V \<and> m \<le> c) \<and> 0 < m \<and> a \<notin> set X"
| "hp_valid (Hp_free_remote a) V X \<longleftrightarrow> a \<in> fst ` V \<and> a \<notin> set X"
| "hp_valid Hp_drain V X \<longleftrightarrow> True"

fun hp_post :: "hp_op \<Rightarrow> nat option \<Rightarrow> (nat \<times> nat \<times> nat option) set \<Rightarrow> heap \<Rightarrow> bool" where
  "hp_post (Hp_allocate n) (Some a) V h' \<longleftrightarrow> a \<notin> fst ` V \<and> (\<exists>c. heap_object_size a h' = Some c \<and> unat n \<le> c)"
| "hp_post (Hp_allocate n) None V h' \<longleftrightarrow>
     no_block (case kind n of None \<Rightarrow> pages_of (rounded n) | Some j \<Rightarrow> fallback_size (pool_size j) 1) (hp_spans h')"
| "hp_post (Hp_allocate_aligned align n) (Some a) V h' \<longleftrightarrow> a \<notin> fst ` V \<and>
     (\<exists>k. heap_object_size a h' = Some (2 ^ k) \<and> unat n \<le> 2 ^ k \<and> 2 ^ k dvd a \<and> (n \<le> 8 \<longrightarrow> unat align \<le> 2 ^ k))"
| "hp_post (Hp_allocate_aligned align n) None V h' \<longleftrightarrow>
     no_block (case kind_aligned align n of None \<Rightarrow> pages_of (rounded_aligned align n) | Some j \<Rightarrow> fallback_size (pool_size j) 1) (hp_spans h')"
| "hp_post (Hp_shrink a m) r V h' \<longleftrightarrow> (\<exists>c. heap_object_size a h' = Some c \<and> m \<le> c)"
| "hp_post x r V h' \<longleftrightarrow> True"

inductive hp_reach :: "(nat \<times> nat \<times> nat option) set \<Rightarrow> heap \<Rightarrow> bool" where
  Hp_start: "spans_initialize spans_new = Some s \<Longrightarrow> hp_reach {} (heap_new s)"
| Hp_step: "hp_reach V h \<Longrightarrow> hp_valid x V (hp_xcpu h) \<Longrightarrow> hp_step x h = Some (r, h') \<Longrightarrow> hp_reach (hp_live x r h V h') h'"

definition hp_inv :: "(nat \<times> nat \<times> nat option) set \<Rightarrow> heap \<Rightarrow> bool" where
  "hp_inv V h \<longleftrightarrow> (\<exists>B T F L. heap_ok B T F L h \<and> V = live B L) \<and> distinct (hp_xcpu h) \<and> set (hp_xcpu h) \<subseteq> fst ` V"

lemma rounded_eq: "rounded n = unat (if n \<le> 8 then 8 else n)"
  by (simp add: rounded_def word_le_nat_alt)

lemma rounded_aligned_eq: "rounded_aligned align n = unat (if n \<le> 8 then max 8 align else n)"
  by (simp add: rounded_aligned_def word_le_nat_alt max_def)

lemma not_negative:
  assumes "unat (n :: size_t) < 2 ^ 63"
  shows "\<not> n <s 0"
proof -
  have "int (unat n) < int (2 ^ 63)" using assms by (simp only: of_nat_less_iff)
  then have "uint n < 2 ^ 63" unfolding of_nat_unat by simp
  moreover have "- (2 ^ 63) \<le> uint n" by (rule order_trans [of _ 0]) simp_all
  ultimately have "signed_take_bit 63 (uint n) = uint n" unfolding signed_take_bit_int_eq_self_iff by blast
  then have "sint n = uint n" by (simp add: sint_uint)
  then show ?thesis by (simp add: word_sless_alt)
qed

lemma size_in_pages_eq:
  assumes "unat n < 2 ^ 63"
  shows "unat (size_in_pages n) = pages_of (unat n) mod 2 ^ 32"
proof -
  have e: "n + of_nat page_size - 1 = n + 4095" by (simp add: page_size_def)
  have u: "unat (n + 4095) = unat n + 4095" using assms by (simp add: unat_word_ariths)
  have "unat (drop_bit 12 (n + 4095)) = (unat n + 4095) div 4096" unfolding unat_drop_bit_eq u by (simp add: drop_bit_eq_div)
  then show ?thesis unfolding size_in_pages_def e pages_of_def
    by (simp add: unsigned_ucast_eq take_bit_eq_mod page_size_def)
qed

lemma pages_of_bounds: "n \<le> pages_of n * page_size" "0 < n \<Longrightarrow> (pages_of n - 1) * page_size < n" "0 < n \<Longrightarrow> 0 < pages_of n"
proof -
  have d: "n + 4095 = pages_of n * 4096 + (n + 4095) mod 4096" "(n + 4095) mod 4096 < 4096" by (simp_all add: pages_of_def page_size_def)
  then show "n \<le> pages_of n * page_size" by (simp add: page_size_def)
  assume n: "0 < n"
  have "4096 \<le> n + 4095" using n by simp
  then show p: "0 < pages_of n" by (simp add: pages_of_def page_size_def)
  then show "(pages_of n - 1) * page_size < n" using d n by (cases "pages_of n") (simp_all add: page_size_def)
qed

definition heap_to :: "heap \<Rightarrow> (nat \<times> nat \<times> nat option) set \<Rightarrow> heap \<Rightarrow> bool" where
  "heap_to h V h' \<longleftrightarrow> (\<exists>B T F L. heap_ok B T F L h' \<and> V = live B L) \<and> hp_xcpu h' = hp_xcpu h"

lemma heap_toI: "heap_ok B T F L h' \<Longrightarrow> V = live B L \<Longrightarrow> hp_xcpu h' = hp_xcpu h \<Longrightarrow> heap_to h V h'"
  unfolding heap_to_def by blast

lemma u32_of_size: "(ucast (n :: size_t) :: u32) = of_nat (unat n)"
  by simp

lemma fresh_pool:
  assumes "heap_ok B T F L h" and "heap_ok B' T' F' L' h'" and "live B' L' = insert (a, c, p) (live B L)" and new: "(a, c, p) \<notin> live B L"
  shows "a \<notin> fst ` live B L"
proof
  assume "a \<in> fst ` live B L"
  then obtain d q where w: "(a, d, q) \<in> live B L" by auto
  then have "(a, d, q) \<in> live B' L'" "(a, c, p) \<in> live B' L'" using assms(3) by simp_all
  from live_unique [OF assms(2) this] show False using w new by simp
qed

lemma small_ok:
  assumes ok: "heap_ok B T F L h" and n: "8 \<le> n" "n \<le> 16384"
  shows "\<exists>r h' j. allocate_small (of_nat n) h = Some (r, h') \<and> size_to_idx (of_nat n) = Some j \<and> n \<le> pool_size (unat j) \<and>
    (\<forall>k. n = 2 ^ k \<longrightarrow> pool_size (unat j) = n) \<and>
    (case r of None \<Rightarrow> heap_to h (live B L) h' \<and> no_block (fallback_size (pool_size (unat j)) 1) (hp_spans h')
     | Some a \<Rightarrow> a \<notin> fst ` live B L \<and> heap_to h (insert (a, pool_size (unat j), Some (unat j)) (live B L)) h' \<and>
        heap_object_size a h' = Some (pool_size (unat j)) \<and> (\<forall>k. pool_size (unat j) = 2 ^ k \<longrightarrow> 2 ^ k dvd a))"
proof -
  from allocate_small_ok [OF ok n] obtain r h' j T' F' L' where r: "allocate_small (of_nat n) h = Some (r, h')" "heap_ok B T' F' L' h'"
    "hp_xcpu h' = hp_xcpu h" "size_to_idx (of_nat n) = Some j" "unat j < nr_small_pools" "n \<le> pool_size (unat j)" "\<forall>k. n = 2 ^ k \<longrightarrow> pool_size (unat j) = n"
    "case r of None \<Rightarrow> live B L' = live B L \<and> no_block (fallback_size (pool_size (unat j)) 1) (hp_spans h')
      | Some a \<Rightarrow> a \<notin> L (unat j) \<and> live B L' = insert (a, pool_size (unat j), Some (unat j)) (live B L)" by (elim exE conjE)
  show ?thesis
  proof (cases r)
    case None
    then show ?thesis using r heap_toI [OF r(2), of "live B L" h] by (intro exI [of _ r] exI [of _ h'] exI [of _ j]) simp
  next
    case (Some a)
    then have l: "a \<notin> L (unat j)" "live B L' = insert (a, pool_size (unat j), Some (unat j)) (live B L)" using r(8) by simp_all
    then have new: "(a, pool_size (unat j), Some (unat j)) \<notin> live B L" by simp
    have me: "(a, pool_size (unat j), Some (unat j)) \<in> live B L'" using l(2) by simp
    have "2 ^ k dvd a" if k: "pool_size (unat j) = 2 ^ k" for k
    proof -
      have "a \<in> L' (unat j)" using me by simp
      from heap_object [OF r(2,5) this] obtain x m n' where x: "T' (unat j) x = Some (m, n')"
        "span_ok (sn_pages (hp_spans h')) (unat j) (pool_size (unat j)) x m n'" "a \<in> slots_in (pool_size (unat j)) x n'" by blast
      have "(x, m) \<in> all_spans B T'" using pspansI [of "T' (unat j)" x m n', OF x(1)] all_spansI(2) [OF r(5)] by blast
      then have dx: "2 ^ m dvd x" using geoD(1) [OF heap_geo [OF r(2)]] by blast
      have "2 ^ k \<le> n' * page_size" using span_okD(3) [OF x(2)] k by simp
      also have "\<dots> \<le> 2 ^ m * page_size" using span_okD(2) [OF x(2)] by (rule mult_le_mono1)
      also have "\<dots> = 2 ^ (m + 12)" by (simp add: power_add page_size_def)
      finally have "k \<le> m + 12" by (simp only: power_increasing_iff one_less_numeral_iff semiring_norm)
      then have "(2::nat) ^ k dvd 2 ^ (m + 12)" by (rule le_imp_power_dvd)
      moreover have "(2::nat) ^ (m + 12) dvd x * page_size" using dx by (simp add: power_add page_size_def)
      ultimately have "2 ^ k dvd x * page_size" by (rule dvd_trans)
      moreover obtain i where "a = x * page_size + i * 2 ^ k" using x(3) k by (auto simp: slots_in_def)
      ultimately show ?thesis by simp
    qed
    then show ?thesis using Some r(1,4,6,7) heap_toI [OF r(2) l(2) [symmetric] r(3)] fresh_pool [OF ok r(2) l(2) new] live_object_size(1) [OF r(2) me]
      by (intro exI [of _ r] exI [of _ h'] exI [of _ j]) simp
  qed
qed

lemma large_ok:
  assumes ok: "heap_ok B T F L h" and n: "0 < n"
  shows "\<exists>r h'. large_pages n h = Some (r, h') \<and>
    (case r of None \<Rightarrow> heap_to h (live B L) h' \<and> no_block n (hp_spans h')
     | Some a \<Rightarrow> a \<notin> fst ` live B L \<and> (\<exists>k. n \<le> 2 ^ k \<and> heap_to h (insert (a, 2 ^ (k + 12), None) (live B L)) h' \<and>
        heap_object_size a h' = Some (2 ^ (k + 12)) \<and> 2 ^ (k + 12) dvd a))"
proof -
  from large_pages_ok [OF ok n] obtain r h' B' F' where r: "large_pages n h = Some (r, h')" "heap_ok B' T F' L h'" "hp_xcpu h' = hp_xcpu h"
    "case r of None \<Rightarrow> live B' L = live B L \<and> no_block n (hp_spans h')
     | Some a \<Rightarrow> \<exists>x k. a = x * page_size \<and> n \<le> 2 ^ k \<and> 2 ^ k dvd x \<and> (x, k) \<in> B' \<and> (x, k) \<notin> B \<and> live B' L = insert (a, 2 ^ k * page_size, None) (live B L)"
    by (elim exE conjE)
  show ?thesis
  proof (cases r)
    case None
    then show ?thesis using r heap_toI [OF r(2), of "live B L" h] by (intro exI [of _ r] exI [of _ h']) simp
  next
    case (Some a)
    then obtain x k where x: "a = x * page_size" "n \<le> 2 ^ k" "2 ^ k dvd x" "(x, k) \<notin> B" "live B' L = insert (a, 2 ^ k * page_size, None) (live B L)"
      using r(4) by auto
    have p: "2 ^ k * page_size = 2 ^ (k + 12)" by (simp add: power_add page_size_def)
    have new: "(a, 2 ^ k * page_size, None) \<notin> live B L"
    proof
      assume "(a, 2 ^ k * page_size, None) \<in> live B L"
      then obtain x' k' where "(x', k') \<in> B" "large_block (x', k') = large_block (x, k)" using live_large [of a "2 ^ k * page_size" B L] x(1) by auto
      then show False using injD [OF large_block_inj] x(4) by blast
    qed
    have me: "(a, 2 ^ k * page_size, None) \<in> live B' L" using x(5) by simp
    have "2 ^ (k + 12) dvd a" using x(1,3) by (simp add: power_add page_size_def)
    then show ?thesis using Some r(1) x(2) heap_toI [OF r(2) x(5) [symmetric] r(3)] fresh_pool [OF ok r(2) x(5) new] live_object_size(1) [OF r(2) me]
      unfolding p by (intro exI [of _ r] exI [of _ h']) auto
  qed
qed

text \<open>Each request, on a well-formed heap.\<close>

lemma heap_allocate_ok:
  assumes ok: "heap_ok B T F L h" and n: "unat n < 2 ^ 63"
  shows "\<exists>r h'. heap_allocate n h = Some (r, h') \<and> heap_to h (hp_live (Hp_allocate n) r h (live B L) h') h' \<and> hp_post (Hp_allocate n) r (live B L) h'"
proof -
  define m where "m = (if n \<le> 8 then 8 else n)"
  have um: "unat m = rounded n" by (simp add: m_def rounded_eq)
  have r8: "8 \<le> rounded n" "unat n \<le> rounded n" by (simp_all add: rounded_def)
  show ?thesis
  proof (cases "rounded n \<le> 16384")
    case True
    have e: "heap_allocate n h = allocate_small (of_nat (rounded n)) h"
      using True um unfolding heap_allocate_def m_def [symmetric] Let_def u32_of_size max_small_allocation_def by simp
    from small_ok [OF ok r8(1) True] obtain r h' j where r: "allocate_small (of_nat (rounded n)) h = Some (r, h')" "size_to_idx (of_nat (rounded n)) = Some j"
      "rounded n \<le> pool_size (unat j)"
      "case r of None \<Rightarrow> heap_to h (live B L) h' \<and> no_block (fallback_size (pool_size (unat j)) 1) (hp_spans h')
       | Some a \<Rightarrow> a \<notin> fst ` live B L \<and> heap_to h (insert (a, pool_size (unat j), Some (unat j)) (live B L)) h' \<and>
          heap_object_size a h' = Some (pool_size (unat j)) \<and> (\<forall>k. pool_size (unat j) = 2 ^ k \<longrightarrow> 2 ^ k dvd a)" by (elim exE conjE)
    have k: "kind n = Some (unat j)" using True r(2) by (simp add: kind_def max_small_allocation_def)
    show ?thesis unfolding e using r k r8(2) by (intro exI [of _ r] exI [of _ h']) (simp split: option.splits)
  next
    case False
    have k: "kind n = None" using False by (simp add: kind_def max_small_allocation_def)
    have b: "unat m < 2 ^ 63" using n um by (simp add: rounded_def)
    note ps = size_in_pages_eq [OF b, unfolded um] and pb = pages_of_bounds [of "rounded n"]
    have e: "heap_allocate n h = (if push_bit 12 (ucast (size_in_pages m) :: size_t) < m then Some (None, h) else large_pages (unat (size_in_pages m)) h)"
      using False um not_negative [OF b] by (simp add: heap_allocate_def Let_def max_small_allocation_def allocate_large_def flip: m_def)
    have up: "unat (push_bit 12 (ucast (size_in_pages m) :: size_t)) = pages_of (rounded n) mod 2 ^ 32 * page_size"
    proof -
      have "pages_of (rounded n) mod 2 ^ 32 < 2 ^ 32" by (rule mod_less_divisor) simp
      then have "pages_of (rounded n) mod 2 ^ 32 * 4096 < 2 ^ 32 * 4096" by (rule mult_less_mono1) simp
      then have "pages_of (rounded n) mod 2 ^ 32 * 4096 < 2 ^ 64" by (rule less_trans) simp
      moreover have "unat (ucast (size_in_pages m) :: size_t) = pages_of (rounded n) mod 2 ^ 32"
        using ps by (simp add: unsigned_ucast_eq take_bit_nat_eq_self)
      moreover have "unat (push_bit 12 w) = take_bit 64 (unat w * 4096)" for w :: size_t
        unfolding unsigned_push_bit_eq by (simp add: push_bit_eq_mult)
      ultimately show ?thesis by (simp only: take_bit_nat_eq_self page_size_def)
    qed
    show ?thesis
    proof (cases "pages_of (rounded n) < 2 ^ 32")
      case True
      then have p: "pages_of (rounded n) mod 2 ^ 32 = pages_of (rounded n)" by (rule mod_less)
      have "\<not> push_bit 12 (ucast (size_in_pages m) :: size_t) < m" using up pb(1) um unfolding p word_less_nat_alt by simp
      then have e2: "heap_allocate n h = large_pages (pages_of (rounded n)) h" using e ps p by simp
      have "0 < pages_of (rounded n)" using pb(3) r8(1) by simp
      from large_ok [OF ok this] obtain r h' where r: "large_pages (pages_of (rounded n)) h = Some (r, h')"
        "case r of None \<Rightarrow> heap_to h (live B L) h' \<and> no_block (pages_of (rounded n)) (hp_spans h')
         | Some a \<Rightarrow> a \<notin> fst ` live B L \<and> (\<exists>k. pages_of (rounded n) \<le> 2 ^ k \<and> heap_to h (insert (a, 2 ^ (k + 12), None) (live B L)) h' \<and>
            heap_object_size a h' = Some (2 ^ (k + 12)) \<and> 2 ^ (k + 12) dvd a)" by (elim exE conjE)
      have big: "unat n \<le> 2 ^ (k + 12)" if "pages_of (rounded n) \<le> 2 ^ k" for k
      proof -
        have "unat n \<le> pages_of (rounded n) * page_size" using pb(1) r8(2) by (rule order_trans [rotated])
        also have "\<dots> \<le> 2 ^ k * page_size" using that by (rule mult_le_mono1)
        finally show ?thesis by (simp add: power_add page_size_def)
      qed
      show ?thesis
      proof (cases r)
        case None
        then show ?thesis using r k e2 by (intro exI [of _ r] exI [of _ h']) simp
      next
        case (Some a)
        then obtain k' where "a \<notin> fst ` live B L" "pages_of (rounded n) \<le> 2 ^ k'" "heap_to h (insert (a, 2 ^ (k' + 12), None) (live B L)) h'"
          "heap_object_size a h' = Some (2 ^ (k' + 12))" using r(2) by auto
        then show ?thesis using Some r(1) k e2 big [of k'] by (intro exI [of _ r] exI [of _ h']) simp
      qed
    next
      case False
      have "pages_of (rounded n) mod 2 ^ 32 * page_size \<le> (pages_of (rounded n) - 1) * page_size"
      proof (rule mult_le_mono1)
        have "pages_of (rounded n) mod 2 ^ 32 < 2 ^ 32" by (rule mod_less_divisor) simp
        then show "pages_of (rounded n) mod 2 ^ 32 \<le> pages_of (rounded n) - 1" using False by linarith
      qed
      also have "\<dots> < rounded n" using pb(2) r8(1) by simp
      finally have "push_bit 12 (ucast (size_in_pages m) :: size_t) < m" using up um unfolding word_less_nat_alt by simp
      then have e2: "heap_allocate n h = Some (None, h)" using e by simp
      have "sn_nr_pages (hp_spans h) \<le> pages_of (rounded n)" using False heap_okD(2) [OF ok] by simp
      then have "no_block (pages_of (rounded n)) (hp_spans h)" using no_block_big [OF heap_okD(3) [OF ok]] by blast
      then show ?thesis using e2 k heap_toI [OF ok refl refl] by (intro exI [of _ None] exI [of _ h]) simp
    qed
  qed
qed

lemma heap_allocate_aligned_ok:
  assumes ok: "heap_ok B T F L h" and n: "rounded_aligned align n < 2 ^ 43"
  shows "\<exists>r h'. heap_allocate_aligned align n h = Some (r, h') \<and> heap_to h (hp_live (Hp_allocate_aligned align n) r h (live B L) h') h' \<and>
    hp_post (Hp_allocate_aligned align n) r (live B L) h'"
proof -
  define m where "m = (if n \<le> 8 then max 8 align else n)"
  let ?R = "rounded_aligned align n"
  have um: "unat m = ?R" by (simp add: m_def rounded_aligned_eq)
  have r8: "8 \<le> ?R" "unat n \<le> ?R" "n \<le> 8 \<Longrightarrow> unat align \<le> ?R" by (simp_all add: rounded_aligned_def word_le_nat_alt le_max_iff_disj)
  have m0: "m \<noteq> 0" using r8(1) um by auto
  have mo: "(of_nat ?R :: size_t) = m" unfolding um [symmetric] by simp
  show ?thesis
  proof (cases "?R \<le> 16384 \<and> unat align \<le> page_size")
    case True
    obtain k where k: "log2ceil m = Some k" using m0 by (simp add: log2ceil_eq)
    have k1: "?R \<le> 2 ^ k" using log2ceil_least(1) [OF m0 k] um by simp
    have "k \<le> 14"
    proof (rule ccontr)
      assume "\<not> k \<le> 14"
      then have "\<not> unat m \<le> 2 ^ 14" using log2ceil_least(2) [OF m0 k, of 14] by blast
      then show False using True um by simp
    qed
    then have k2: "(2::nat) ^ k \<le> 16384" using power_increasing [of k 14 "2::nat"] by simp
    have pb: "(push_bit k 1 :: u32) = of_nat (2 ^ k)" by (simp add: push_bit_eq_mult)
    have e: "heap_allocate_aligned align n h = allocate_small (of_nat (2 ^ k)) h"
      using True um k pb unfolding heap_allocate_aligned_def m_def [symmetric] Let_def max_small_allocation_def by simp
    have "8 \<le> (2::nat) ^ k" using r8(1) k1 by linarith
    from small_ok [OF ok this k2] obtain r h' j where r: "allocate_small (of_nat (2 ^ k)) h = Some (r, h')" "size_to_idx (of_nat (2 ^ k)) = Some j"
      "\<forall>i. (2::nat) ^ k = 2 ^ i \<longrightarrow> pool_size (unat j) = 2 ^ k"
      "case r of None \<Rightarrow> heap_to h (live B L) h' \<and> no_block (fallback_size (pool_size (unat j)) 1) (hp_spans h')
       | Some a \<Rightarrow> a \<notin> fst ` live B L \<and> heap_to h (insert (a, pool_size (unat j), Some (unat j)) (live B L)) h' \<and>
          heap_object_size a h' = Some (pool_size (unat j)) \<and> (\<forall>k. pool_size (unat j) = 2 ^ k \<longrightarrow> 2 ^ k dvd a)" by (elim exE conjE)
    have sz: "pool_size (unat j) = 2 ^ k" using r(3) by blast
    have kd: "kind_aligned align n = Some (unat j)"
      using True r(2) k pb unfolding kind_aligned_def mo max_small_allocation_def by simp
    have ge: "unat n \<le> 2 ^ k" "n \<le> 8 \<Longrightarrow> unat align \<le> 2 ^ k" using r8(2,3) k1 by linarith+
    show ?thesis
    proof (cases r)
      case None
      then show ?thesis using e r(1,4) kd by (intro exI [of _ r] exI [of _ h']) simp
    next
      case (Some a)
      then have a: "a \<notin> fst ` live B L" "heap_to h (insert (a, 2 ^ k, Some (unat j)) (live B L)) h'" "heap_object_size a h' = Some (2 ^ k)" "2 ^ k dvd a"
        using r(4) sz by simp_all
      have "hp_post (Hp_allocate_aligned align n) r (live B L) h'" using Some a ge by auto
      then show ?thesis using e r(1) kd Some a(2,3) by (intro exI [of _ r] exI [of _ h']) simp
    qed
  next
    case False
    have kd: "kind_aligned align n = None" using False unfolding kind_aligned_def max_small_allocation_def by (simp only: if_False)
    have b: "unat m < 2 ^ 63" using n um by (rule_tac less_trans [of _ "2 ^ 43"]) simp_all
    note ps = size_in_pages_eq [OF b, unfolded um] and pb = pages_of_bounds [of ?R]
    have "pages_of ?R < 2 ^ 32"
    proof (rule ccontr)
      assume "\<not> pages_of ?R < 2 ^ 32"
      then have "(2 ^ 32 - 1) * page_size \<le> (pages_of ?R - 1) * page_size" by (intro mult_le_mono1) simp
      also have "\<dots> < ?R" using pb(2) r8(1) by simp
      finally show False using n by (simp add: page_size_def)
    qed
    then have "unat (size_in_pages m) = pages_of ?R" using ps by simp
    then have e: "heap_allocate_aligned align n h = large_pages (pages_of ?R) h"
      using False um not_negative [OF b] unfolding heap_allocate_aligned_def m_def [symmetric] Let_def max_small_allocation_def allocate_large_aligned_def
      by (simp only: if_False)
    have "0 < pages_of ?R" using pb(3) r8(1) by simp
    from large_ok [OF ok this] obtain r h' where r: "large_pages (pages_of ?R) h = Some (r, h')"
      "case r of None \<Rightarrow> heap_to h (live B L) h' \<and> no_block (pages_of ?R) (hp_spans h')
       | Some a \<Rightarrow> a \<notin> fst ` live B L \<and> (\<exists>k. pages_of ?R \<le> 2 ^ k \<and> heap_to h (insert (a, 2 ^ (k + 12), None) (live B L)) h' \<and>
          heap_object_size a h' = Some (2 ^ (k + 12)) \<and> 2 ^ (k + 12) dvd a)" by (elim exE conjE)
    show ?thesis
    proof (cases r)
      case None
      then show ?thesis using e r kd by (intro exI [of _ r] exI [of _ h']) simp
    next
      case (Some a)
      then obtain k where a: "a \<notin> fst ` live B L" "pages_of ?R \<le> 2 ^ k" "heap_to h (insert (a, 2 ^ (k + 12), None) (live B L)) h'"
        "heap_object_size a h' = Some (2 ^ (k + 12))" "2 ^ (k + 12) dvd a" using r(2) by auto
      have "?R \<le> 2 ^ (k + 12)"
      proof -
        have "?R \<le> pages_of ?R * page_size" by (rule pb(1))
        also have "\<dots> \<le> 2 ^ k * page_size" using a(2) by (rule mult_le_mono1)
        finally show ?thesis by (simp add: power_add page_size_def)
      qed
      then have "unat n \<le> 2 ^ (k + 12)" "n \<le> 8 \<longrightarrow> unat align \<le> 2 ^ (k + 12)" using r8(2,3) by linarith+
      then have "hp_post (Hp_allocate_aligned align n) r (live B L) h'" unfolding Some hp_post.simps using a(1,4,5) by blast
      then show ?thesis using e r(1) kd Some a(3,4) by (intro exI [of _ r] exI [of _ h']) simp
    qed
  qed
qed

lemma live_minus:
  assumes ok: "heap_ok B T F L h" and v: "(a, c, p) \<in> live B L"
  shows "live B L - {(a, c, p)} = {v \<in> live B L. fst v \<noteq> a}"
proof -
  have u: "v = (a, c, p)" if "v \<in> live B L" "fst v = a" for v
    using live_unique [OF ok v, of "fst (snd v)" "snd (snd v)"] that by (metis prod.collapse)
  show ?thesis
  proof (intro set_eqI iffI)
    fix w assume "w \<in> live B L - {(a, c, p)}"
    then show "w \<in> {v \<in> live B L. fst v \<noteq> a}" using u [of w] by blast
  next
    fix w assume "w \<in> {v \<in> live B L. fst v \<noteq> a}"
    then have w: "w \<in> live B L" "fst w \<noteq> a" by blast+
    then have "w \<noteq> (a, c, p)" by (cases w) simp
    then show "w \<in> live B L - {(a, c, p)}" using w(1) by blast
  qed
qed

lemma pool_free_ok:
  assumes ok: "heap_ok B T F L h" and v: "(a, c, Some j) \<in> live B L"
  shows "\<exists>h'. heap_deallocate j a h = Some h' \<and> heap_to h {v \<in> live B L. fst v \<noteq> a} h'"
proof -
  have j: "j < nr_small_pools" "a \<in> L j" "c = pool_size j" using v by simp_all
  from heap_deallocate_ok [OF ok j(1,2)] obtain h' T' F' L' where r: "heap_deallocate j a h = Some h'" "heap_ok B T' F' L' h'"
    "hp_xcpu h' = hp_xcpu h" "live B L' = live B L - {(a, pool_size j, Some j)}" by (elim exE conjE)
  have "live B L' = {v \<in> live B L. fst v \<noteq> a}" using r(4) live_minus [OF ok v] j(3) by simp
  then show ?thesis using r(1) heap_toI [OF r(2) _ r(3), of "{v \<in> live B L. fst v \<noteq> a}"] by simp
qed

lemma large_free_ok:
  assumes ok: "heap_ok B T F L h" and v: "(a, c, None) \<in> live B L"
  shows "\<exists>s'. free_large (a div page_size) (hp_spans h) = Some s' \<and> heap_to h {v \<in> live B L. fst v \<noteq> a} (h\<lparr>hp_spans := s'\<rparr>)"
proof -
  obtain x k where x: "(x, k) \<in> B" "a = x * page_size" "c = 2 ^ k * page_size" using v live_large [of a c B L] by auto
  have d: "a div page_size = x" using x(2) by (simp add: page_size_def)
  from free_large_heap [OF ok x(1)] obtain s' F' where r: "free_large x (hp_spans h) = Some s'" "heap_ok (B - {(x, k)}) T F' L (h\<lparr>hp_spans := s'\<rparr>)" by blast
  have "live (B - {(x, k)}) L = {v \<in> live B L. fst v \<noteq> a}" using live_remove [of B "(x, k)" L] live_minus [OF ok v] x(2,3) by simp
  then show ?thesis using r(1) heap_toI [OF r(2), of "{v \<in> live B L. fst v \<noteq> a}" h] d by simp
qed

lemma heap_free_ok:
  assumes ok: "heap_ok B T F L h" and v: "(a, c, p) \<in> live B L"
  shows "\<exists>h'. heap_free a h = Some h' \<and> heap_to h {v \<in> live B L. fst v \<noteq> a} h'"
proof -
  obtain q where q: "sn_pages (hp_spans h) (a div page_size) = Some q" "pg_pool q = p" using live_object_size(2) [OF ok v] by auto
  show ?thesis
  proof (cases p)
    case None
    then show ?thesis using q large_free_ok [OF ok, of a c] v by (auto simp: heap_free_def)
  next
    case (Some j)
    then show ?thesis using q pool_free_ok [OF ok, of a c j] v by (simp add: heap_free_def)
  qed
qed

lemma heap_free_sized_ok:
  assumes ok: "heap_ok B T F L h" and v: "(a, c, kind n) \<in> live B L"
  shows "\<exists>h'. heap_free_sized a n h = Some h' \<and> heap_to h {v \<in> live B L. fst v \<noteq> a} h'"
proof -
  define m where "m = (if n \<le> 8 then 8 else n)"
  have um: "unat m = rounded n" by (simp add: m_def rounded_eq)
  show ?thesis
  proof (cases "rounded n \<le> 16384")
    case True
    have "8 \<le> rounded n" by (simp add: rounded_def)
    from size_to_idx_fits [OF this True] obtain j where j: "size_to_idx (of_nat (rounded n)) = Some j" by blast
    then have k: "kind n = Some (unat j)" using True by (simp add: kind_def max_small_allocation_def)
    have "heap_free_sized a n h = heap_deallocate (unat j) a h"
      using True um j unfolding heap_free_sized_def m_def [symmetric] Let_def u32_of_size max_small_allocation_def by simp
    then show ?thesis using pool_free_ok [OF ok, of a c "unat j"] v k by simp
  next
    case False
    then have k: "kind n = None" by (simp add: kind_def max_small_allocation_def)
    have "heap_free_sized a n h = map_option (\<lambda>s. h\<lparr>hp_spans := s\<rparr>) (free_large (a div page_size) (hp_spans h))"
      using False um unfolding heap_free_sized_def m_def [symmetric] Let_def max_small_allocation_def by simp
    then show ?thesis using large_free_ok [OF ok, of a c] v k by auto
  qed
qed

lemma heap_shrink_ok:
  assumes ok: "heap_ok B T F L h" and v: "(a, c, p) \<in> live B L" and m: "0 < m" "m \<le> c"
  shows "\<exists>h' d. heap_shrink a m h = Some h' \<and> heap_to h (insert (a, d, p) {v \<in> live B L. fst v \<noteq> a}) h' \<and> heap_object_size a h' = Some d \<and> m \<le> d"
proof -
  obtain q where q: "sn_pages (hp_spans h) (a div page_size) = Some q" "pg_pool q = p" using live_object_size(2) [OF ok v] by auto
  have ins: "insert (a, c, p) {v \<in> live B L. fst v \<noteq> a} = live B L" using live_minus [OF ok v] v by blast
  show ?thesis
  proof (cases p)
    case (Some j)
    then have "heap_shrink a m h = Some h" using q by (simp add: heap_shrink_def)
    moreover have "heap_to h (insert (a, c, p) {v \<in> live B L. fst v \<noteq> a}) h" unfolding ins using heap_toI [OF ok refl refl] .
    ultimately show ?thesis using live_object_size(1) [OF ok v] m(2) by blast
  next
    case None
    then obtain x k where x: "(x, k) \<in> B" "a = x * page_size" "c = 2 ^ k * page_size" using v live_large [of a c B L] by auto
    have d: "a div page_size = x" using x(2) by (simp add: page_size_def)
    from shrink_heap [OF ok x(1) m(1)] m(2) x(3) obtain s' F' j where r: "shrink_span x m (hp_spans h) = Some s'"
      "heap_ok (insert (x, j) (B - {(x, k)})) T F' L (h\<lparr>hp_spans := s'\<rparr>)" "m \<le> 2 ^ j * page_size" by auto
    have l: "live (insert (x, j) (B - {(x, k)})) L = insert (a, 2 ^ j * page_size, None) {v \<in> live B L. fst v \<noteq> a}"
      using live_insert [of "(x, j)" "B - {(x, k)}" L] live_remove [of B "(x, k)" L] live_minus [OF ok v] x(2,3) None by simp
    then have me: "(a, 2 ^ j * page_size, None) \<in> live (insert (x, j) (B - {(x, k)})) L" by simp
    have "heap_shrink a m h = Some (h\<lparr>hp_spans := s'\<rparr>)" using q None r(1) d by (simp add: heap_shrink_def)
    moreover have "heap_to h (insert (a, 2 ^ j * page_size, p) {v \<in> live B L. fst v \<noteq> a}) (h\<lparr>hp_spans := s'\<rparr>)"
      using heap_toI [OF r(2) l [symmetric]] None by simp
    ultimately show ?thesis using live_object_size(1) [OF r(2) me] r(3) by blast
  qed
qed

lemma free_all_ok:
  assumes "heap_ok B T F L h" and "distinct as" and "set as \<subseteq> fst ` live B L"
  shows "\<exists>h'. free_all as h = Some h' \<and> heap_to h {v \<in> live B L. fst v \<notin> set as} h'"
  using assms
proof (induction as arbitrary: B T F L h)
  case Nil
  then show ?case using heap_toI [OF Nil(1), of "live B L" h] by simp
next
  case (Cons a as)
  obtain c p where v: "(a, c, p) \<in> live B L" using Cons.prems(3) by auto
  from heap_free_ok [OF Cons.prems(1) v] obtain h1 where h1: "heap_free a h = Some h1" "heap_to h {v \<in> live B L. fst v \<noteq> a} h1" by blast
  then obtain B1 T1 F1 L1 where 1: "heap_ok B1 T1 F1 L1 h1" "live B1 L1 = {v \<in> live B L. fst v \<noteq> a}" "hp_xcpu h1 = hp_xcpu h"
    unfolding heap_to_def by auto
  have "set as \<subseteq> fst ` live B1 L1" using Cons.prems(2,3) unfolding 1(2) by force
  from Cons.IH [OF 1(1) _ this] Cons.prems(2) obtain h2 where 2: "free_all as h1 = Some h2" "heap_to h1 {v \<in> live B1 L1. fst v \<notin> set as} h2" by auto
  have "{v \<in> live B1 L1. fst v \<notin> set as} = {v \<in> live B L. fst v \<notin> set (a # as)}" unfolding 1(2) by auto
  then have "heap_to h {v \<in> live B L. fst v \<notin> set (a # as)} h2" using 2(2) 1(3) unfolding heap_to_def by simp
  then show ?case using h1(1) 2(1) by simp
qed

lemma heap_to_inv:
  assumes "heap_to h V h'" and "distinct (hp_xcpu h)" and "set (hp_xcpu h) \<subseteq> fst ` V"
  shows "hp_inv V h'"
  using assms unfolding heap_to_def hp_inv_def by simp

lemma hp_step_ok:
  assumes inv: "hp_inv V h" and valid: "hp_valid x V (hp_xcpu h)"
  shows "\<exists>r h'. hp_step x h = Some (r, h') \<and> hp_post x r V h' \<and> hp_inv (hp_live x r h V h') h'"
proof -
  obtain B T F L where ok: "heap_ok B T F L h" and V: "V = live B L" using inv unfolding hp_inv_def by blast
  have X: "distinct (hp_xcpu h)" "set (hp_xcpu h) \<subseteq> fst ` V" using inv unfolding hp_inv_def by blast+
  have without: "hp_inv {v \<in> V. fst v \<noteq> a} h'" if "heap_to h {v \<in> V. fst v \<noteq> a} h'" "a \<notin> set (hp_xcpu h)" for a h'
  proof (rule heap_to_inv [OF that(1) X(1)])
    show "set (hp_xcpu h) \<subseteq> fst ` {v \<in> V. fst v \<noteq> a}" using X(2) that(2) by force
  qed
  show ?thesis
  proof (cases x)
    case (Hp_allocate n)
    then have "unat n < 2 ^ 63" using valid by simp
    from heap_allocate_ok [OF ok this] obtain r h' where r: "heap_allocate n h = Some (r, h')" "heap_to h (hp_live x r h V h') h'" "hp_post x r V h'"
      unfolding V Hp_allocate by blast
    have "V \<subseteq> hp_live x r h V h'" unfolding Hp_allocate by (cases r) auto
    then have "set (hp_xcpu h) \<subseteq> fst ` hp_live x r h V h'" using X(2) by blast
    then show ?thesis using r heap_to_inv [OF r(2) X(1)] Hp_allocate by auto
  next
    case (Hp_allocate_aligned align n)
    then have "rounded_aligned align n < 2 ^ 43" using valid by simp
    from heap_allocate_aligned_ok [OF ok this] obtain r h' where r: "heap_allocate_aligned align n h = Some (r, h')" "heap_to h (hp_live x r h V h') h'" "hp_post x r V h'"
      unfolding V Hp_allocate_aligned by blast
    have "V \<subseteq> hp_live x r h V h'" unfolding Hp_allocate_aligned by (cases r) auto
    then have "set (hp_xcpu h) \<subseteq> fst ` hp_live x r h V h'" using X(2) by blast
    then show ?thesis using r heap_to_inv [OF r(2) X(1)] Hp_allocate_aligned by auto
  next
    case (Hp_free a)
    then obtain c p where a: "(a, c, p) \<in> live B L" "a \<notin> set (hp_xcpu h)" using valid V by auto
    from heap_free_ok [OF ok a(1)] obtain h' where "heap_free a h = Some h'" "heap_to h {v \<in> V. fst v \<noteq> a} h'" unfolding V by blast
    then show ?thesis using without [of a h'] a(2) Hp_free by simp
  next
    case (Hp_free_sized a n)
    then obtain c where a: "(a, c, kind n) \<in> live B L" "a \<notin> set (hp_xcpu h)" using valid V by auto
    from heap_free_sized_ok [OF ok a(1)] obtain h' where "heap_free_sized a n h = Some h'" "heap_to h {v \<in> V. fst v \<noteq> a} h'" unfolding V by blast
    then show ?thesis using without [of a h'] a(2) Hp_free_sized by simp
  next
    case (Hp_shrink a m)
    then obtain c p where a: "(a, c, p) \<in> live B L" "m \<le> c" "0 < m" "a \<notin> set (hp_xcpu h)" using valid V by auto
    from heap_shrink_ok [OF ok a(1,3,2)] obtain h' d where r: "heap_shrink a m h = Some h'" "heap_to h (insert (a, d, p) {v \<in> V. fst v \<noteq> a}) h'"
      "heap_object_size a h' = Some d" "m \<le> d" unfolding V by blast
    have "(\<exists>c. (a, c, p') \<in> V) \<longleftrightarrow> p' = p" for p' using live_unique [OF ok a(1)] a(1) unfolding V by blast
    then have "{(a, the (heap_object_size a h'), p') |p'. \<exists>c. (a, c, p') \<in> V} = {(a, d, p)}" using r(3) by simp
    then have e: "hp_live x None h V h' = insert (a, d, p) {v \<in> V. fst v \<noteq> a}" using Hp_shrink by simp
    have "set (hp_xcpu h) \<subseteq> fst ` {v \<in> V. fst v \<noteq> a}" using X(2) a(4) by force
    then have "hp_inv (hp_live x None h V h') h'" unfolding e by (intro heap_to_inv [OF r(2) X(1)]) auto
    then show ?thesis using r Hp_shrink by auto
  next
    case (Hp_free_remote a)
    then have a: "a \<in> fst ` V" "a \<notin> set (hp_xcpu h)" using valid by simp_all
    have "heap_ok B T F L (free_cross_cpu a h)" using ok by (simp add: heap_ok_def free_cross_cpu_def)
    then have "hp_inv V (free_cross_cpu a h)" using V a X unfolding hp_inv_def by (auto simp: free_cross_cpu_def)
    then show ?thesis using Hp_free_remote by simp
  next
    case Hp_drain
    show ?thesis
    proof (cases "hp_xcpu h = []")
      case True
      then have "hp_step x h = Some (None, h)" using Hp_drain by (simp add: drain_cross_cpu_freelist_def)
      moreover have "hp_live x None h V h = V" using True Hp_drain by simp
      ultimately show ?thesis using inv Hp_drain by auto
    next
      case False
      let ?h = "h\<lparr>hp_xcpu := []\<rparr>"
      have ok': "heap_ok B T F L ?h" using ok by (simp add: heap_ok_def)
      from free_all_ok [OF ok' X(1)] X(2) obtain h' where r: "free_all (hp_xcpu h) ?h = Some h'" "heap_to ?h {v \<in> V. fst v \<notin> set (hp_xcpu h)} h'"
        unfolding V by blast
      then have "hp_step x h = Some (None, h')" using False Hp_drain by (simp add: drain_cross_cpu_freelist_def)
      moreover have "hp_inv (hp_live x None h V h') h'" using heap_to_inv [OF r(2)] Hp_drain by simp
      ultimately show ?thesis using Hp_drain by auto
    qed
  qed
qed

lemma heap_new_inv:
  assumes "spans_initialize spans_new = Some s"
  shows "hp_inv {} (heap_new s)"
proof -
  obtain F where ok: "spans_ok {} {} F s" "free_pages F = {128..<8192}" "sn_nr_pages s = 8192" using spans_initialize_ok assms by auto
  have L: "live {} (\<lambda>_. {}) = {}" by (simp add: live_def)
  have p: "pspans (\<lambda>_. None) = {}" by (simp add: pspans_def)
  have A: "all_spans {} (\<lambda>_ _. None) = {}" by (simp add: all_spans_def p)
  have pool: "hp_pools (heap_new s) ! j = pool_new (pool_size j)" if "j < nr_small_pools" for j
    using that by (simp add: heap_new_def pool_size_def)
  have "heap_ok {} (\<lambda>_ _. None) F (\<lambda>_. {}) (heap_new s)"
    unfolding heap_ok_def A p
  proof (intro conjI allI impI ballI)
    show "length (hp_pools (heap_new s)) = nr_small_pools" "sn_nr_pages (hp_spans (heap_new s)) = 8192" "spans_ok {} {} F (hp_spans (heap_new s))"
      "free_pages F \<union> used {} = pa_region" using ok by (simp_all add: heap_new_def used_def pa_region_def)
    fix j assume j: "j < nr_small_pools"
    note ps = pool_sizes [OF j]
    show "sp_object_size (hp_pools (heap_new s) ! j) = pool_size j" using pool [OF j] pool_new_ok(2) [OF ps] by simp
    show "sp_fallback (hp_pools (heap_new s) ! j) = fallback_size (pool_size j) 1" using pool [OF j] by (simp add: pool_new_def Let_def)
    show "\<exists>W. pool_ok (sn_pages (hp_spans (heap_new s))) j (hp_pools (heap_new s) ! j) (\<lambda>_. None) {} W"
      using pool [OF j] pool_new_ok(1) [OF ps] by auto
  qed simp_all
  then have "\<exists>B T F L. heap_ok B T F L (heap_new s) \<and> {} = live B L" using L [symmetric] by blast
  moreover have "hp_xcpu (heap_new s) = []" by (simp add: heap_new_def)
  ultimately show ?thesis unfolding hp_inv_def by simp
qed

lemma hp_reach_inv: "hp_reach V h \<Longrightarrow> hp_inv V h"
proof (induction rule: hp_reach.induct)
  case (Hp_step V h x r h')
  from hp_step_ok [OF Hp_step.IH Hp_step.hyps(2)] show ?case using Hp_step.hyps(3) by auto
qed (rule heap_new_inv)

text \<open>
  C4. In every reachable state of the heap of a core the live objects are disjoint and lie in the memory behind the page
  array, and the allocator reports their sizes.  Every request for which the caller keeps the rules succeeds: an object
  is new and at least as large as asked for, an aligned one is a power of two long and aligned to it, and a request
  fails only when no aligned run of free pages is left that would do.  Freed objects go back to their pool or to the
  pages, also from other cores and in bulk.
\<close>

theorem hp_reach_safe:
  assumes "hp_reach V h" and "hp_valid x V (hp_xcpu h)"
  shows "(\<forall>v \<in> V. block v \<subseteq> {128 * page_size..<8192 * page_size} \<and> heap_object_size (fst v) h = Some (fst (snd v)) \<and>
      (\<forall>w \<in> V. v \<noteq> w \<longrightarrow> block v \<inter> block w = {})) \<and>
    (\<exists>r h'. hp_step x h = Some (r, h') \<and> hp_post x r V h' \<and> hp_reach (hp_live x r h V h') h')"
proof
  note inv = hp_reach_inv [OF assms(1)]
  obtain B T F L where ok: "heap_ok B T F L h" and V: "V = live B L" using inv unfolding hp_inv_def by blast
  show "\<forall>v \<in> V. block v \<subseteq> {128 * page_size..<8192 * page_size} \<and> heap_object_size (fst v) h = Some (fst (snd v)) \<and>
      (\<forall>w \<in> V. v \<noteq> w \<longrightarrow> block v \<inter> block w = {})"
  proof (intro ballI conjI impI)
    fix v assume v: "v \<in> V"
    show "block v \<subseteq> {128 * page_size..<8192 * page_size}" using live_region [OF ok] v unfolding V by blast
    show "heap_object_size (fst v) h = Some (fst (snd v))" using live_object_size(1) [OF ok, of "fst v" "fst (snd v)" "snd (snd v)"] v unfolding V by simp
    show "block v \<inter> block w = {}" if "w \<in> V" "v \<noteq> w" for w using live_disjoint [OF ok] v that unfolding V by blast
  qed
  from hp_step_ok [OF inv assms(2)] obtain r h' where "hp_step x h = Some (r, h')" "hp_post x r V h'" by blast
  then show "\<exists>r h'. hp_step x h = Some (r, h') \<and> hp_post x r V h' \<and> hp_reach (hp_live x r h V h') h'"
    using Hp_step [OF assms] by blast
qed

theorem hp_reach_safe_witness:
  "\<exists>s r h'. spans_initialize spans_new = Some s \<and> hp_step (Hp_allocate 100) (heap_new s) = Some (r, h') \<and> hp_post (Hp_allocate 100) r {} h'"
proof -
  obtain s where s: "spans_initialize spans_new = Some s" using spans_initialize_ok by blast
  have "hp_valid (Hp_allocate 100) {} (hp_xcpu (heap_new s))" by simp
  then show ?thesis using hp_reach_safe [OF Hp_start [OF s], of "Hp_allocate 100"] s by blast
qed

end
