(* ===== verification/Futures.thy ===== *)
theory Futures
  imports Prelude
begin

text \<open>
  Promises, futures and continuations (\<open>core/future.hh\<close>) with the pointers between them.

  A promise and its future maintain one value, which is in the promise, in the continuation once one is attached, or in
  the future when there is no promise any more.  Objects have an address and may move.  A continuation is a task that
  waits for its value or is in the queue of the reactor; what its function does are the operations after it ran.  A
  failed assertion or a dangling pointer is \<open>None\<close>.
\<close>

section \<open>States\<close>

datatype ('v, 'e) value_state = Fs_invalid | Fs_future | Fs_result 'v | Fs_exception 'e

fun fs_available :: "('v, 'e) value_state \<Rightarrow> bool" where
  "fs_available (Fs_result v) \<longleftrightarrow> True"
| "fs_available (Fs_exception e) \<longleftrightarrow> True"
| "fs_available s \<longleftrightarrow> False"

fun fs_failed :: "('v, 'e) value_state \<Rightarrow> bool" where
  "fs_failed (Fs_exception e) \<longleftrightarrow> True"
| "fs_failed s \<longleftrightarrow> False"

definition fs_set :: "'v \<Rightarrow> ('v, 'e) value_state \<Rightarrow> ('v, 'e) value_state option" where
  "fs_set v s = (case s of Fs_future \<Rightarrow> Some (Fs_result v) | _ \<Rightarrow> None)"

definition fs_set_exception :: "'e \<Rightarrow> ('v, 'e) value_state \<Rightarrow> ('v, 'e) value_state option" where
  "fs_set_exception e s = (case s of Fs_future \<Rightarrow> Some (Fs_exception e) | _ \<Rightarrow> None)"

text \<open>The value or the exception that \<open>get()\<close> returns or throws.\<close>

definition fs_get :: "('v, 'e) value_state \<Rightarrow> ('e + 'v) option" where
  "fs_get s = (case s of Fs_result v \<Rightarrow> Some (Inr v) | Fs_exception e \<Rightarrow> Some (Inl e) | _ \<Rightarrow> None)"

section \<open>Objects\<close>

text \<open>Where the value of a promise is: in its own object, in that of another promise or in a continuation.\<close>

datatype loc = Loc_promise nat | Loc_task nat

record ('v, 'e) promise =
  prm_future :: "nat option"
  prm_local :: "('v, 'e) value_state"
  prm_state :: "loc option"
  prm_task :: "nat option"

record ('v, 'e) future =
  fut_promise :: "nat option"
  fut_local :: "('v, 'e) value_state"

record ('v, 'e) world =
  w_promises :: "nat \<Rightarrow> ('v, 'e) promise option"
  w_futures :: "nat \<Rightarrow> ('v, 'e) future option"
  w_tasks :: "nat \<Rightarrow> ('v, 'e) value_state option"
  w_ready :: "nat list"
  w_reports :: "'e list"

definition world_new :: "('v, 'e) world" where
  "world_new = \<lparr>w_promises = \<lambda>_. None, w_futures = \<lambda>_. None, w_tasks = \<lambda>_. None, w_ready = [], w_reports = []\<rparr>"

definition upd_promise :: "nat \<Rightarrow> (('v, 'e) promise \<Rightarrow> ('v, 'e) promise) \<Rightarrow> ('v, 'e) world \<Rightarrow> ('v, 'e) world option" where
  "upd_promise p f w = map_option (\<lambda>x. w\<lparr>w_promises := (w_promises w)(p \<mapsto> f x)\<rparr>) (w_promises w p)"

definition upd_future :: "nat \<Rightarrow> (('v, 'e) future \<Rightarrow> ('v, 'e) future) \<Rightarrow> ('v, 'e) world \<Rightarrow> ('v, 'e) world option" where
  "upd_future f g w = map_option (\<lambda>x. w\<lparr>w_futures := (w_futures w)(f \<mapsto> g x)\<rparr>) (w_futures w f)"

fun load :: "loc \<Rightarrow> ('v, 'e) world \<Rightarrow> ('v, 'e) value_state option" where
  "load (Loc_promise p) w = map_option prm_local (w_promises w p)"
| "load (Loc_task t) w = w_tasks w t"

fun store :: "loc \<Rightarrow> ('v, 'e) value_state \<Rightarrow> ('v, 'e) world \<Rightarrow> ('v, 'e) world option" where
  "store (Loc_promise p) s w = upd_promise p (\<lambda>x. x\<lparr>prm_local := s\<rparr>) w"
| "store (Loc_task t) s w = map_option (\<lambda>_. w\<lparr>w_tasks := (w_tasks w)(t \<mapsto> s)\<rparr>) (w_tasks w t)"

definition report :: "('v, 'e) value_state \<Rightarrow> ('v, 'e) world \<Rightarrow> ('v, 'e) world" where
  "report s w = (case s of Fs_exception e \<Rightarrow> w\<lparr>w_reports := w_reports w @ [e]\<rparr> | _ \<Rightarrow> w)"

section \<open>Promises\<close>

definition promise_construct :: "nat \<Rightarrow> ('v, 'e) world \<Rightarrow> ('v, 'e) world option" where
  "promise_construct p w =
     (if w_promises w p \<noteq> None then None
      else Some (w\<lparr>w_promises := (w_promises w)(p \<mapsto> \<lparr>prm_future = None, prm_local = Fs_future, prm_state = Some (Loc_promise p), prm_task = None\<rparr>)\<rparr>))"

definition migrated :: "nat \<Rightarrow> ('v, 'e) world \<Rightarrow> ('v, 'e) world option" where
  "migrated p w =
     Option.bind (w_promises w p) (\<lambda>x.
       case prm_future x of None \<Rightarrow> Some w | Some f \<Rightarrow> upd_future f (\<lambda>y. y\<lparr>fut_promise := Some p\<rparr>) w)"

definition promise_move :: "nat \<Rightarrow> nat \<Rightarrow> ('v, 'e) world \<Rightarrow> ('v, 'e) world option" where
  "promise_move q p w =
     (if w_promises w q \<noteq> None then None
      else Option.bind (w_promises w p) (\<lambda>x.
        let here = prm_state x = Some (Loc_promise p);
            y = \<lparr>prm_future = prm_future x, prm_local = (if here then prm_local x else Fs_future),
                 prm_state = (if here then Some (Loc_promise q) else prm_state x), prm_task = prm_task x\<rparr>;
            x' = x\<lparr>prm_future := None, prm_local := (if here then Fs_invalid else prm_local x), prm_state := None, prm_task := None\<rparr>
        in migrated q (w\<lparr>w_promises := (w_promises w)(p \<mapsto> x', q \<mapsto> y)\<rparr>)))"

definition abandoned :: "nat \<Rightarrow> ('v, 'e) world \<Rightarrow> ('v, 'e) world option" where
  "abandoned p w =
     Option.bind (w_promises w p) (\<lambda>x.
       case prm_future x of
         Some f \<Rightarrow>
           Option.bind (prm_state x) (\<lambda>l. Option.bind (load l w) (\<lambda>s.
             if fs_available s \<or> prm_task x = None then
               Option.bind (upd_future f (\<lambda>y. y\<lparr>fut_local := s, fut_promise := None\<rparr>) w) (store l Fs_invalid)
             else None))
       | None \<Rightarrow> (case prm_state x of None \<Rightarrow> Some w | Some l \<Rightarrow> map_option (\<lambda>s. report s w) (load l w)))"

definition promise_destroy :: "nat \<Rightarrow> ('v, 'e) world \<Rightarrow> ('v, 'e) world option" where
  "promise_destroy p w =
     Option.bind (abandoned p w) (\<lambda>w. Option.bind (w_promises w p) (\<lambda>x.
       Some (w\<lparr>w_tasks := (case prm_task x of None \<Rightarrow> w_tasks w | Some t \<Rightarrow> (w_tasks w)(t := None)), w_promises := (w_promises w)(p := None)\<rparr>)))"

definition promise_assign :: "nat \<Rightarrow> nat \<Rightarrow> ('v, 'e) world \<Rightarrow> ('v, 'e) world option" where
  "promise_assign q p w = (if q = p then Some w else Option.bind (promise_destroy q w) (promise_move q p))"

definition get_future :: "nat \<Rightarrow> nat \<Rightarrow> ('v, 'e) world \<Rightarrow> ('v, 'e) world option" where
  "get_future p f w =
     (if w_futures w f \<noteq> None then None
      else Option.bind (w_promises w p) (\<lambda>x.
        if prm_future x = None \<and> prm_state x \<noteq> None \<and> prm_task x = None then
          upd_promise p (\<lambda>x. x\<lparr>prm_future := Some f\<rparr>) (w\<lparr>w_futures := (w_futures w)(f \<mapsto> \<lparr>fut_promise = Some p, fut_local = Fs_future\<rparr>)\<rparr>)
        else None))"

definition make_ready :: "bool \<Rightarrow> bool \<Rightarrow> nat \<Rightarrow> ('v, 'e) world \<Rightarrow> ('v, 'e) world option" where
  "make_ready urgent need_preempt p w =
     Option.bind (w_promises w p) (\<lambda>x.
       case prm_task x of
         None \<Rightarrow> Some w
       | Some t \<Rightarrow>
           map_option (\<lambda>w. w\<lparr>w_ready := (if urgent \<and> \<not> need_preempt then t # w_ready w else w_ready w @ [t])\<rparr>)
             (upd_promise p (\<lambda>x. x\<lparr>prm_state := None, prm_task := None\<rparr>) w))"

definition set_value :: "bool \<Rightarrow> bool \<Rightarrow> nat \<Rightarrow> 'v \<Rightarrow> ('v, 'e) world \<Rightarrow> ('v, 'e) world option" where
  "set_value urgent need_preempt p v w =
     Option.bind (w_promises w p) (\<lambda>x. Option.bind (prm_state x) (\<lambda>l.
       Option.bind (Option.bind (load l w) (fs_set v)) (\<lambda>s. Option.bind (store l s w) (make_ready urgent need_preempt p))))"

definition set_exception :: "bool \<Rightarrow> bool \<Rightarrow> nat \<Rightarrow> 'e \<Rightarrow> ('v, 'e) world \<Rightarrow> ('v, 'e) world option" where
  "set_exception urgent need_preempt p e w =
     Option.bind (w_promises w p) (\<lambda>x. Option.bind (prm_state x) (\<lambda>l.
       Option.bind (Option.bind (load l w) (fs_set_exception e)) (\<lambda>s. Option.bind (store l s w) (make_ready urgent need_preempt p))))"

text \<open>\<open>schedule()\<close>: the promise owns the continuation, which holds the value from now on.\<close>

definition promise_schedule :: "nat \<Rightarrow> nat \<Rightarrow> ('v, 'e) world \<Rightarrow> ('v, 'e) world option" where
  "promise_schedule p t w =
     Option.bind (w_promises w p) (\<lambda>x.
       Some (w\<lparr>w_tasks := (case prm_task x of None \<Rightarrow> w_tasks w | Some u \<Rightarrow> (w_tasks w)(u := None))(t \<mapsto> Fs_future),
         w_promises := (w_promises w)(p \<mapsto> x\<lparr>prm_state := Some (Loc_task t), prm_task := Some t\<rparr>)\<rparr>))"

section \<open>Futures\<close>

definition make_ready_future :: "nat \<Rightarrow> 'v \<Rightarrow> ('v, 'e) world \<Rightarrow> ('v, 'e) world option" where
  "make_ready_future f v w =
     (if w_futures w f \<noteq> None then None
      else Some (w\<lparr>w_futures := (w_futures w)(f \<mapsto> \<lparr>fut_promise = None, fut_local = Fs_result v\<rparr>)\<rparr>))"

definition make_exception_future :: "nat \<Rightarrow> 'e \<Rightarrow> ('v, 'e) world \<Rightarrow> ('v, 'e) world option" where
  "make_exception_future f e w =
     (if w_futures w f \<noteq> None then None
      else Some (w\<lparr>w_futures := (w_futures w)(f \<mapsto> \<lparr>fut_promise = None, fut_local = Fs_exception e\<rparr>)\<rparr>))"

text \<open>\<open>state()\<close>: the place of the value, \<open>None\<close> for the future's own object.\<close>

definition fut_loc :: "nat \<Rightarrow> ('v, 'e) world \<Rightarrow> loc option option" where
  "fut_loc f w =
     Option.bind (w_futures w f) (\<lambda>y.
       case fut_promise y of
         None \<Rightarrow> Some None
       | Some p \<Rightarrow> Option.bind (w_promises w p) (\<lambda>x. map_option Some (prm_state x)))"

definition fut_value :: "nat \<Rightarrow> ('v, 'e) world \<Rightarrow> ('v, 'e) value_state option" where
  "fut_value f w =
     Option.bind (fut_loc f w) (\<lambda>l. case l of None \<Rightarrow> map_option fut_local (w_futures w f) | Some l \<Rightarrow> load l w)"

definition fut_store :: "nat \<Rightarrow> ('v, 'e) value_state \<Rightarrow> ('v, 'e) world \<Rightarrow> ('v, 'e) world option" where
  "fut_store f s w =
     Option.bind (fut_loc f w) (\<lambda>l. case l of None \<Rightarrow> upd_future f (\<lambda>y. y\<lparr>fut_local := s\<rparr>) w | Some l \<Rightarrow> store l s w)"

text \<open>The future and its promise forget each other.\<close>

definition detach :: "nat \<Rightarrow> ('v, 'e) world \<Rightarrow> ('v, 'e) world option" where
  "detach f w =
     Option.bind (w_futures w f) (\<lambda>y.
       case fut_promise y of
         None \<Rightarrow> Some w
       | Some p \<Rightarrow> Option.bind (upd_promise p (\<lambda>x. x\<lparr>prm_future := None\<rparr>) w) (upd_future f (\<lambda>y. y\<lparr>fut_promise := None\<rparr>)))"

definition future_move :: "nat \<Rightarrow> nat \<Rightarrow> ('v, 'e) world \<Rightarrow> ('v, 'e) world option" where
  "future_move g f w =
     (if w_futures w g \<noteq> None then None
      else Option.bind (w_futures w f) (\<lambda>y.
        case fut_promise y of
          None \<Rightarrow> Some (w\<lparr>w_futures := (w_futures w)(f \<mapsto> y\<lparr>fut_local := Fs_invalid\<rparr>, g \<mapsto> \<lparr>fut_promise = None, fut_local = fut_local y\<rparr>)\<rparr>)
        | Some p \<Rightarrow>
            upd_promise p (\<lambda>x. x\<lparr>prm_future := Some g\<rparr>)
              (w\<lparr>w_futures := (w_futures w)(f \<mapsto> y\<lparr>fut_promise := None\<rparr>, g \<mapsto> \<lparr>fut_promise = Some p, fut_local = Fs_future\<rparr>)\<rparr>)))"

definition future_destroy :: "nat \<Rightarrow> ('v, 'e) world \<Rightarrow> ('v, 'e) world option" where
  "future_destroy f w =
     Option.bind (w_futures w f) (\<lambda>y.
       Option.bind (case fut_promise y of None \<Rightarrow> Some w | Some p \<Rightarrow> upd_promise p (\<lambda>x. x\<lparr>prm_future := None\<rparr>) w) (\<lambda>w.
         map_option (\<lambda>s. (report s w)\<lparr>w_futures := (w_futures w)(f := None)\<rparr>) (fut_value f w)))"

definition future_assign :: "nat \<Rightarrow> nat \<Rightarrow> ('v, 'e) world \<Rightarrow> ('v, 'e) world option" where
  "future_assign g f w = (if g = f then Some w else Option.bind (future_destroy g w) (future_move g f))"

definition get_available_state :: "nat \<Rightarrow> ('v, 'e) world \<Rightarrow> (('v, 'e) value_state \<times> ('v, 'e) world) option" where
  "get_available_state f w =
     Option.bind (fut_value f w) (\<lambda>s. Option.bind (fut_store f Fs_invalid w) (\<lambda>w. map_option (Pair s) (detach f w)))"

definition future_get :: "nat \<Rightarrow> ('v, 'e) world \<Rightarrow> (('e + 'v) \<times> ('v, 'e) world) option" where
  "future_get f w =
     Option.bind (fut_value f w) (\<lambda>s.
       if fs_available s then
         Option.bind (get_available_state f w) (\<lambda>(s, w). map_option (\<lambda>r. (r, w)) (fs_get s))
       else None)"

definition ignore_ready_future :: "nat \<Rightarrow> ('v, 'e) world \<Rightarrow> ('v, 'e) world option" where
  "ignore_ready_future f w = Option.bind (fut_value f w) (\<lambda>s. if s = Fs_future then None else fut_store f Fs_invalid w)"

text \<open>The continuation \<open>t\<close> waits in the promise, which loses its future.\<close>

definition future_wait :: "nat \<Rightarrow> nat \<Rightarrow> ('v, 'e) world \<Rightarrow> ('v, 'e) world option" where
  "future_wait f t w =
     Option.bind (w_futures w f) (\<lambda>y. Option.bind (fut_promise y) (\<lambda>p.
       Option.bind (promise_schedule p t w) (detach f)))"

text \<open>\<open>schedule()\<close> of a future, which \<open>then()\<close> ends in, and \<open>set_callback()\<close>: the continuation \<open>t\<close> is ready or waits.\<close>

definition future_schedule :: "nat \<Rightarrow> nat \<Rightarrow> ('v, 'e) world \<Rightarrow> ('v, 'e) world option" where
  "future_schedule f t w =
     (if w_tasks w t \<noteq> None then None
      else Option.bind (fut_value f w) (\<lambda>s.
        if fs_available s then
          map_option (\<lambda>w. w\<lparr>w_tasks := (w_tasks w)(t \<mapsto> s), w_ready := w_ready w @ [t]\<rparr>) (fut_store f Fs_invalid w)
        else future_wait f t w))"

definition future_set_callback :: "nat \<Rightarrow> nat \<Rightarrow> ('v, 'e) world \<Rightarrow> ('v, 'e) world option" where
  "future_set_callback f t w =
     (if w_tasks w t \<noteq> None then None
      else Option.bind (fut_value f w) (\<lambda>s.
        if fs_available s then
          map_option (\<lambda>(s, w). w\<lparr>w_tasks := (w_tasks w)(t \<mapsto> s), w_ready := w_ready w @ [t]\<rparr>) (get_available_state f w)
        else future_wait f t w))"

text \<open>A thread waits with a continuation of its own, which stores the value in the future.\<close>

definition future_do_wait :: "nat \<Rightarrow> nat \<Rightarrow> ('v, 'e) world \<Rightarrow> ('v, 'e) world option" where
  "future_do_wait f t w = (if w_tasks w t \<noteq> None then None else future_wait f t w)"

text \<open>\<open>forward_to()\<close>: the value goes to the promise \<open>q\<close>, or the promise of the future becomes \<open>q\<close>.\<close>

definition future_forward_to :: "bool \<Rightarrow> nat \<Rightarrow> nat \<Rightarrow> ('v, 'e) world \<Rightarrow> ('v, 'e) world option" where
  "future_forward_to need_preempt f q w =
     Option.bind (fut_value f w) (\<lambda>s.
       case s of
         Fs_result v \<Rightarrow> Option.bind (set_value True need_preempt q v w) (fut_store f Fs_invalid)
       | Fs_exception e \<Rightarrow> Option.bind (set_exception True need_preempt q e w) (fut_store f Fs_invalid)
       | _ \<Rightarrow>
           Option.bind (w_futures w f) (\<lambda>y. Option.bind (fut_promise y) (\<lambda>p.
             Option.bind (upd_promise p (\<lambda>x. x\<lparr>prm_future := None\<rparr>) w) (\<lambda>w.
               Option.bind (promise_assign p q w) (upd_future f (\<lambda>y. y\<lparr>fut_promise := None\<rparr>))))))"

section \<open>The reactor\<close>

text \<open>The first task of the queue runs with its value and is deleted.\<close>

definition run_task :: "('v, 'e) world \<Rightarrow> ((nat \<times> ('v, 'e) value_state) \<times> ('v, 'e) world) option" where
  "run_task w =
     (case w_ready w of
        [] \<Rightarrow> None
      | t # rest \<Rightarrow> map_option (\<lambda>s. ((t, s), w\<lparr>w_ready := rest, w_tasks := (w_tasks w)(t := None)\<rparr>)) (w_tasks w t))"

text \<open>The wake-up task of a thread that waits for the future \<open>f\<close>.\<close>

definition thread_wake :: "nat \<Rightarrow> ('v, 'e) world \<Rightarrow> (nat \<times> ('v, 'e) world) option" where
  "thread_wake f w = Option.bind (run_task w) (\<lambda>((t, s), w). map_option (Pair t) (fut_store f s w))"

section \<open>Operations\<close>

datatype ('v, 'e) operation =
    Promise_new nat | Promise_move nat nat | Promise_destroy nat | Promise_assign nat nat
  | Get_future nat nat | Set_value nat 'v | Set_exception nat 'e
  | Ready_future nat 'v | Exception_future nat 'e
  | Future_move nat nat | Future_destroy nat | Future_assign nat nat
  | Future_get nat | Future_ignore nat | Future_then nat nat | Future_callback nat nat
  | Future_forward bool nat nat | Future_wait nat nat | Run_task | Thread_wake nat

datatype ('v, 'e) outcome = Done | Got "'e + 'v" | Ran nat "('v, 'e) value_state"

fun exec :: "('v, 'e) operation \<Rightarrow> ('v, 'e) world \<Rightarrow> (('v, 'e) outcome \<times> ('v, 'e) world) option" where
  "exec (Promise_new p) w = map_option (Pair Done) (promise_construct p w)"
| "exec (Promise_move q p) w = map_option (Pair Done) (promise_move q p w)"
| "exec (Promise_destroy p) w = map_option (Pair Done) (promise_destroy p w)"
| "exec (Promise_assign q p) w = map_option (Pair Done) (promise_assign q p w)"
| "exec (Get_future p f) w = map_option (Pair Done) (get_future p f w)"
| "exec (Set_value p v) w = map_option (Pair Done) (set_value False False p v w)"
| "exec (Set_exception p e) w = map_option (Pair Done) (set_exception False False p e w)"
| "exec (Ready_future f v) w = map_option (Pair Done) (make_ready_future f v w)"
| "exec (Exception_future f e) w = map_option (Pair Done) (make_exception_future f e w)"
| "exec (Future_move g f) w = map_option (Pair Done) (future_move g f w)"
| "exec (Future_destroy f) w = map_option (Pair Done) (future_destroy f w)"
| "exec (Future_assign g f) w = map_option (Pair Done) (future_assign g f w)"
| "exec (Future_get f) w = map_option (\<lambda>(r, w). (Got r, w)) (future_get f w)"
| "exec (Future_ignore f) w = map_option (Pair Done) (ignore_ready_future f w)"
| "exec (Future_then f t) w = map_option (Pair Done) (future_schedule f t w)"
| "exec (Future_callback f t) w = map_option (Pair Done) (future_set_callback f t w)"
| "exec (Future_forward n f q) w = map_option (Pair Done) (future_forward_to n f q w)"
| "exec (Future_wait f t) w = map_option (Pair Done) (future_do_wait f t w)"
| "exec Run_task w = map_option (\<lambda>((t, s), w). (Ran t s, w)) (run_task w)"
| "exec (Thread_wake f) w = map_option (\<lambda>(t, w). (Done, w)) (thread_wake f w)"

section \<open>The specification\<close>

text \<open>
  Who receives the value of a promise, and the value so far.  A promise whose value went to a continuation, or which
  has been moved, is \<open>Spent\<close>.  A future without a promise has its value itself.
\<close>

datatype consumer = Nobody | Fut nat | Waiting nat | Spent

record ('v, 'e) spec =
  sp_promise :: "nat \<Rightarrow> (consumer \<times> ('v, 'e) value_state) option"
  sp_future :: "nat \<Rightarrow> ('v, 'e) value_state option"
  sp_ready :: "(nat \<times> ('v, 'e) value_state) list"
  sp_reports :: "'e list"

definition spec_new :: "('v, 'e) spec" where
  "spec_new = \<lparr>sp_promise = \<lambda>_. None, sp_future = \<lambda>_. None, sp_ready = [], sp_reports = []\<rparr>"

definition fresh_future :: "nat \<Rightarrow> ('v, 'e) spec \<Rightarrow> bool" where
  "fresh_future f a \<longleftrightarrow> sp_future a f = None \<and> (\<forall>p s. sp_promise a p \<noteq> Some (Fut f, s))"

definition fresh_task :: "nat \<Rightarrow> ('v, 'e) spec \<Rightarrow> bool" where
  "fresh_task t a \<longleftrightarrow> t \<notin> fst ` set (sp_ready a) \<and> (\<forall>p s. sp_promise a p \<noteq> Some (Waiting t, s))"

definition failures :: "('v, 'e) value_state \<Rightarrow> 'e list" where
  "failures s = (case s of Fs_exception e \<Rightarrow> [e] | _ \<Rightarrow> [])"

text \<open>A value arrives: a waiting continuation is queued with it, first when it is urgent.\<close>

definition arrive :: "bool \<Rightarrow> nat \<Rightarrow> consumer \<Rightarrow> ('v, 'e) value_state \<Rightarrow> ('v, 'e) spec \<Rightarrow> ('v, 'e) spec" where
  "arrive front p c s a =
     (case c of
        Waiting t \<Rightarrow> a\<lparr>sp_promise := (sp_promise a)(p \<mapsto> (Spent, Fs_invalid)), sp_ready := (if front then (t, s) # sp_ready a else sp_ready a @ [(t, s)])\<rparr>
      | _ \<Rightarrow> a\<lparr>sp_promise := (sp_promise a)(p \<mapsto> (c, s))\<rparr>)"

inductive step :: "('v, 'e) operation \<Rightarrow> ('v, 'e) spec \<Rightarrow> ('v, 'e) outcome \<Rightarrow> ('v, 'e) spec \<Rightarrow> bool" where
  New: "sp_promise a p = None \<Longrightarrow> step (Promise_new p) a Done (a\<lparr>sp_promise := (sp_promise a)(p \<mapsto> (Nobody, Fs_future))\<rparr>)"
| Move: "\<lbrakk>sp_promise a p = Some cs; sp_promise a q = None\<rbrakk> \<Longrightarrow>
    step (Promise_move q p) a Done (a\<lparr>sp_promise := (sp_promise a)(p \<mapsto> (Spent, Fs_invalid), q \<mapsto> cs)\<rparr>)"
| Destroy_future: "sp_promise a p = Some (Fut f, s) \<Longrightarrow>
    step (Promise_destroy p) a Done (a\<lparr>sp_promise := (sp_promise a)(p := None), sp_future := (sp_future a)(f \<mapsto> s)\<rparr>)"
| Destroy: "\<lbrakk>sp_promise a p = Some (c, s); \<forall>f. c \<noteq> Fut f\<rbrakk> \<Longrightarrow>
    step (Promise_destroy p) a Done (a\<lparr>sp_promise := (sp_promise a)(p := None), sp_reports := sp_reports a @ failures s\<rparr>)"
| Assign_self: "sp_promise a p = Some cs \<Longrightarrow> step (Promise_assign p p) a Done a"
| Assign: "\<lbrakk>p \<noteq> q; step (Promise_destroy q) a Done b; step (Promise_move q p) b Done c\<rbrakk> \<Longrightarrow> step (Promise_assign q p) a Done c"
| Get_future: "\<lbrakk>sp_promise a p = Some (Nobody, s); fresh_future f a\<rbrakk> \<Longrightarrow>
    step (Get_future p f) a Done (a\<lparr>sp_promise := (sp_promise a)(p \<mapsto> (Fut f, s))\<rparr>)"
| Set_value: "sp_promise a p = Some (c, Fs_future) \<Longrightarrow> step (Set_value p v) a Done (arrive False p c (Fs_result v) a)"
| Set_exception: "sp_promise a p = Some (c, Fs_future) \<Longrightarrow> step (Set_exception p e) a Done (arrive False p c (Fs_exception e) a)"
| Ready_future: "fresh_future f a \<Longrightarrow> step (Ready_future f v) a Done (a\<lparr>sp_future := (sp_future a)(f \<mapsto> Fs_result v)\<rparr>)"
| Exception_future: "fresh_future f a \<Longrightarrow> step (Exception_future f e) a Done (a\<lparr>sp_future := (sp_future a)(f \<mapsto> Fs_exception e)\<rparr>)"
| Future_move: "\<lbrakk>sp_future a f = Some s; fresh_future g a\<rbrakk> \<Longrightarrow>
    step (Future_move g f) a Done (a\<lparr>sp_future := (sp_future a)(f \<mapsto> Fs_invalid, g \<mapsto> s)\<rparr>)"
| Future_move_promise: "\<lbrakk>sp_promise a p = Some (Fut f, s); fresh_future g a\<rbrakk> \<Longrightarrow>
    step (Future_move g f) a Done (a\<lparr>sp_promise := (sp_promise a)(p \<mapsto> (Fut g, s)), sp_future := (sp_future a)(f \<mapsto> Fs_future)\<rparr>)"
| Future_destroy: "sp_future a f = Some s \<Longrightarrow>
    step (Future_destroy f) a Done (a\<lparr>sp_future := (sp_future a)(f := None), sp_reports := sp_reports a @ failures s\<rparr>)"
| Future_destroy_promise: "sp_promise a p = Some (Fut f, s) \<Longrightarrow>
    step (Future_destroy f) a Done (a\<lparr>sp_promise := (sp_promise a)(p \<mapsto> (Nobody, s)), sp_reports := sp_reports a @ failures s\<rparr>)"
| Future_assign_self: "step (Future_assign f f) a Done a"
| Future_assign: "\<lbrakk>f \<noteq> g; step (Future_destroy g) a Done b; step (Future_move g f) b Done c\<rbrakk> \<Longrightarrow> step (Future_assign g f) a Done c"
| Get: "\<lbrakk>sp_future a f = Some s; fs_get s = Some r\<rbrakk> \<Longrightarrow> step (Future_get f) a (Got r) (a\<lparr>sp_future := (sp_future a)(f \<mapsto> Fs_invalid)\<rparr>)"
| Get_promise: "\<lbrakk>sp_promise a p = Some (Fut f, s); fs_get s = Some r\<rbrakk> \<Longrightarrow>
    step (Future_get f) a (Got r) (a\<lparr>sp_promise := (sp_promise a)(p \<mapsto> (Nobody, Fs_invalid)), sp_future := (sp_future a)(f \<mapsto> Fs_future)\<rparr>)"
| Ignore: "\<lbrakk>sp_future a f = Some s; s \<noteq> Fs_future\<rbrakk> \<Longrightarrow> step (Future_ignore f) a Done (a\<lparr>sp_future := (sp_future a)(f \<mapsto> Fs_invalid)\<rparr>)"
| Ignore_promise: "\<lbrakk>sp_promise a p = Some (Fut f, s); s \<noteq> Fs_future\<rbrakk> \<Longrightarrow>
    step (Future_ignore f) a Done (a\<lparr>sp_promise := (sp_promise a)(p \<mapsto> (Fut f, Fs_invalid))\<rparr>)"
| Then: "\<lbrakk>sp_future a f = Some s; fs_available s; fresh_task t a\<rbrakk> \<Longrightarrow>
    step (Future_then f t) a Done (a\<lparr>sp_future := (sp_future a)(f \<mapsto> Fs_invalid), sp_ready := sp_ready a @ [(t, s)]\<rparr>)"
| Then_promise: "\<lbrakk>sp_promise a p = Some (Fut f, s); fs_available s; fresh_task t a\<rbrakk> \<Longrightarrow>
    step (Future_then f t) a Done (a\<lparr>sp_promise := (sp_promise a)(p \<mapsto> (Fut f, Fs_invalid)), sp_ready := sp_ready a @ [(t, s)]\<rparr>)"
| Callback: "\<lbrakk>sp_future a f = Some s; fs_available s; fresh_task t a\<rbrakk> \<Longrightarrow>
    step (Future_callback f t) a Done (a\<lparr>sp_future := (sp_future a)(f \<mapsto> Fs_invalid), sp_ready := sp_ready a @ [(t, s)]\<rparr>)"
| Callback_promise: "\<lbrakk>sp_promise a p = Some (Fut f, s); fs_available s; fresh_task t a\<rbrakk> \<Longrightarrow>
    step (Future_callback f t) a Done
      (a\<lparr>sp_promise := (sp_promise a)(p \<mapsto> (Nobody, Fs_invalid)), sp_future := (sp_future a)(f \<mapsto> Fs_future), sp_ready := sp_ready a @ [(t, s)]\<rparr>)"
| Wait: "\<lbrakk>sp_promise a p = Some (Fut f, Fs_future); fresh_task t a; op \<in> {Future_then f t, Future_callback f t, Future_wait f t}\<rbrakk> \<Longrightarrow>
    step op a Done (a\<lparr>sp_promise := (sp_promise a)(p \<mapsto> (Waiting t, Fs_future)), sp_future := (sp_future a)(f \<mapsto> Fs_future)\<rparr>)"
| Forward: "\<lbrakk>sp_future a f = Some s; fs_available s; sp_promise a q = Some (c, Fs_future)\<rbrakk> \<Longrightarrow>
    step (Future_forward n f q) a Done (arrive (\<not> n) q c s (a\<lparr>sp_future := (sp_future a)(f \<mapsto> Fs_invalid)\<rparr>))"
| Forward_promise: "\<lbrakk>sp_promise a p = Some (Fut f, s); fs_available s; sp_promise a q = Some (c, Fs_future)\<rbrakk> \<Longrightarrow>
    step (Future_forward n f q) a Done (arrive (\<not> n) q c s (a\<lparr>sp_promise := (sp_promise a)(p \<mapsto> (Fut f, Fs_invalid))\<rparr>))"
| Forward_later: "\<lbrakk>sp_promise a p = Some (Fut f, Fs_future); p \<noteq> q; sp_promise a q = Some cs\<rbrakk> \<Longrightarrow>
    step (Future_forward n f q) a Done
      (a\<lparr>sp_promise := (sp_promise a)(q \<mapsto> (Spent, Fs_invalid), p \<mapsto> cs), sp_future := (sp_future a)(f \<mapsto> Fs_future)\<rparr>)"
| Run: "sp_ready a = (t, s) # rest \<Longrightarrow> step Run_task a (Ran t s) (a\<lparr>sp_ready := rest\<rparr>)"
| Wake: "\<lbrakk>sp_ready a = (t, s) # rest; sp_future a f = Some r\<rbrakk> \<Longrightarrow>
    step (Thread_wake f) a Done (a\<lparr>sp_ready := rest, sp_future := (sp_future a)(f \<mapsto> s)\<rparr>)"

section \<open>The pointers are consistent\<close>

definition fut_of :: "(nat \<Rightarrow> ('v, 'e) promise option) \<Rightarrow> nat \<Rightarrow> nat option" where
  "fut_of m p = Option.bind (m p) prm_future"

definition task_of :: "(nat \<Rightarrow> ('v, 'e) promise option) \<Rightarrow> nat \<Rightarrow> nat option" where
  "task_of m p = Option.bind (m p) prm_task"

definition prom_of :: "(nat \<Rightarrow> ('v, 'e) future option) \<Rightarrow> nat \<Rightarrow> nat option" where
  "prom_of m f = Option.bind (m f) fut_promise"

definition promise_ok :: "nat \<Rightarrow> ('v, 'e) promise \<Rightarrow> bool" where
  "promise_ok p x \<longleftrightarrow>
     (case prm_task x of
        Some t \<Rightarrow> prm_state x = Some (Loc_task t) \<and> prm_future x = None
      | None \<Rightarrow> prm_state x = Some (Loc_promise p) \<or> prm_state x = None \<and> prm_future x = None)"

definition future_ok :: "('v, 'e) future \<Rightarrow> bool" where
  "future_ok y \<longleftrightarrow> (fut_promise y \<noteq> None \<longrightarrow> fut_local y = Fs_future)"

text \<open>
  A promise and its future know each other; a continuation waits in one promise, with no value, or is once in the queue.
\<close>

definition linked :: "(nat \<Rightarrow> nat option) \<Rightarrow> (nat \<Rightarrow> nat option) \<Rightarrow> bool" where
  "linked m n \<longleftrightarrow> (\<forall>p f. m p = Some f \<longleftrightarrow> n f = Some p)"

definition owned :: "(nat \<Rightarrow> nat option) \<Rightarrow> (nat \<Rightarrow> 's option) \<Rightarrow> 's \<Rightarrow> nat list \<Rightarrow> bool" where
  "owned k ts z r \<longleftrightarrow>
     (\<forall>p t. k p = Some t \<longrightarrow> ts t = Some z) \<and>
     (\<forall>p t. k p = Some t \<longrightarrow> t \<notin> set r) \<and> (\<forall>p q t. k p = Some t \<longrightarrow> k q = Some t \<longrightarrow> p = q) \<and>
     (\<forall>t. ts t \<noteq> None \<longrightarrow> t \<in> set r \<or> (\<exists>p. k p = Some t)) \<and> (\<forall>t \<in> set r. ts t \<noteq> None) \<and> distinct r"

definition world_ok :: "('v, 'e) world \<Rightarrow> bool" where
  "world_ok w \<longleftrightarrow>
     (\<forall>p x. w_promises w p = Some x \<longrightarrow> promise_ok p x) \<and> (\<forall>f y. w_futures w f = Some y \<longrightarrow> future_ok y) \<and>
     linked (fut_of (w_promises w)) (prom_of (w_futures w)) \<and> owned (task_of (w_promises w)) (w_tasks w) Fs_future (w_ready w)"

definition abs_promise :: "('v, 'e) promise \<Rightarrow> consumer \<times> ('v, 'e) value_state" where
  "abs_promise x =
     (case prm_state x of
        None \<Rightarrow> (Spent, Fs_invalid)
      | Some (Loc_promise _) \<Rightarrow> (case prm_future x of None \<Rightarrow> Nobody | Some f \<Rightarrow> Fut f, prm_local x)
      | Some (Loc_task t) \<Rightarrow> (Waiting t, Fs_future))"

definition abs_future :: "('v, 'e) future \<Rightarrow> ('v, 'e) value_state option" where
  "abs_future y = (if fut_promise y = None then Some (fut_local y) else None)"

definition abs_world :: "('v, 'e) world \<Rightarrow> ('v, 'e) spec" where
  "abs_world w =
     \<lparr>sp_promise = \<lambda>p. map_option abs_promise (w_promises w p), sp_future = \<lambda>f. Option.bind (w_futures w f) abs_future,
      sp_ready = List.map (\<lambda>t. (t, the (w_tasks w t))) (w_ready w), sp_reports = w_reports w\<rparr>"


lemma abs_world_simps [simp]:
  "sp_promise (abs_world w) p = map_option abs_promise (w_promises w p)"
  "sp_future (abs_world w) f = Option.bind (w_futures w f) abs_future"
  "sp_reports (abs_world w) = w_reports w"
  "sp_ready (abs_world w) = List.map (\<lambda>t. (t, the (w_tasks w t))) (w_ready w)"
  by (simp_all add: abs_world_def)

lemma of_upd [simp]:
  "fut_of (m(p \<mapsto> x)) = (fut_of m)(p := prm_future x)" "fut_of (m(p := None)) = (fut_of m)(p := None)"
  "task_of (m(p \<mapsto> x)) = (task_of m)(p := prm_task x)" "task_of (m(p := None)) = (task_of m)(p := None)"
  by (simp_all add: fun_eq_iff fut_of_def task_of_def)

lemma prom_of_upd [simp]:
  "prom_of (m(f \<mapsto> y)) = (prom_of m)(f := fut_promise y)" "prom_of (m(f := None)) = (prom_of m)(f := None)"
  by (simp_all add: fun_eq_iff prom_of_def)

lemma linkedD: "linked m n \<Longrightarrow> m p = Some f \<longleftrightarrow> n f = Some p" by (simp add: linked_def)
lemma linkedI: "(\<And>p f. m p = Some f \<longleftrightarrow> n f = Some p) \<Longrightarrow> linked m n" by (simp add: linked_def)

lemma linked_cut: assumes l: "linked m n" and p: "m p = Some f" shows "linked (m(p := None)) (n(f := None))"
proof (rule linkedI)
  fix q g
  have "n f = Some p" using p linkedD [OF l] by simp
  then show "(m(p := None)) q = Some g \<longleftrightarrow> (n(f := None)) g = Some q"
    using linkedD [OF l, of q g] p by auto
qed

lemma linked_join: assumes l: "linked m n" and "m p = None" "n f = None" shows "linked (m(p \<mapsto> f)) (n(f \<mapsto> p))"
proof (rule linkedI)
  fix q g
  show "(m(p \<mapsto> f)) q = Some g \<longleftrightarrow> (n(f \<mapsto> p)) g = Some q"
    using linkedD [OF l, of q g] linkedD [OF l, of p g] linkedD [OF l, of q f] assms by auto
qed

lemma ownedD:
  assumes "owned k ts z r" 
  shows "k p = Some t \<Longrightarrow> ts t = Some z" and "k p = Some t \<Longrightarrow> t \<notin> set r" and "k p = Some t \<Longrightarrow> k q = Some t \<Longrightarrow> p = q"
    and "ts t \<noteq> None \<Longrightarrow> t \<in> set r \<or> (\<exists>p. k p = Some t)" and "t \<in> set r \<Longrightarrow> ts t \<noteq> None" and "distinct r"
  using assms unfolding owned_def by blast+
lemma ownedI:
  assumes "\<And>p t. k p = Some t \<Longrightarrow> ts t = Some z" and "\<And>p t. k p = Some t \<Longrightarrow> t \<notin> set r" and "\<And>p q t. k p = Some t \<Longrightarrow> k q = Some t \<Longrightarrow> p = q"
    and "\<And>t. ts t \<noteq> None \<Longrightarrow> t \<in> set r \<or> (\<exists>p. k p = Some t)" and "\<And>t. t \<in> set r \<Longrightarrow> ts t \<noteq> None" and "distinct r"
  shows "owned k ts z r"
  using assms unfolding owned_def by blast

lemma owned_move: assumes o: "owned k ts z r" and p: "k p = Some t" and q: "k q = None" shows "owned (k(p := None, q \<mapsto> t)) ts z r"
proof -
  note D = ownedD [OF o]
  have "p \<noteq> q" using p q by auto
  show ?thesis
  proof (rule ownedI)
    fix u assume "ts u \<noteq> None"
    from D(4) [OF this] show "u \<in> set r \<or> (\<exists>x. (k(p := None, q \<mapsto> t)) x = Some u)"
      using p q \<open>p \<noteq> q\<close> by (metis fun_upd_apply option.inject option.distinct(1))
  qed (use D(1,2,3,5,6) p q in \<open>auto split: if_splits\<close>)
qed
lemma owned_wait: assumes o: "owned k ts z r" and p: "k p = None" and t: "ts t = None" shows "owned (k(p \<mapsto> t)) (ts(t \<mapsto> z)) z r"
proof -
  note D = ownedD [OF o]
  have t': "t \<notin> set r" "k q \<noteq> Some t" for q using D(5) [of t] D(1) [of q t] t by auto
  show ?thesis
  proof (rule ownedI)
    fix u assume "(ts(t \<mapsto> z)) u \<noteq> None"
    then have "u = t \<or> u \<in> set r \<or> (\<exists>x. k x = Some u)" using D(4) by (auto split: if_splits)
    then show "u \<in> set r \<or> (\<exists>x. (k(p \<mapsto> t)) x = Some u)"
      using p by (metis fun_upd_apply option.distinct(1))
  qed (use D(1,2,3,5,6) p t' in \<open>auto split: if_splits\<close>)
qed

lemma owned_release:
  assumes o: "owned k ts z r" and p: "k p = Some t" and r: "set r' = (if s = None then set r else insert t (set r))" "distinct r'"
  shows "owned (k(p := None)) (ts(t := s)) z r'"
proof -
  note D = ownedD [OF o]
  have t': "t \<notin> set r" "q \<noteq> p \<Longrightarrow> k q \<noteq> Some t" for q using D(2,3) p by auto
  show ?thesis
  proof (rule ownedI)
    fix u assume u: "(ts(t := s)) u \<noteq> None"
    then have "u = t \<and> s \<noteq> None \<or> u \<noteq> t \<and> (u \<in> set r \<or> (\<exists>x. k x = Some u))" using D(4) by (auto split: if_splits)
    then show "u \<in> set r' \<or> (\<exists>x. (k(p := None)) x = Some u)"
      using p r by (metis fun_upd_apply insertCI option.inject)
  next
    show "\<And>q u. (k(p := None)) q = Some u \<Longrightarrow> u \<notin> set r'" using D(2) t' r by (auto split: if_splits)
    show "\<And>u. u \<in> set r' \<Longrightarrow> (ts(t := s)) u \<noteq> None" using D(5) t' r by (auto split: if_splits)
  qed (use D(1,3) p r t' in \<open>auto split: if_splits\<close>)
qed

lemma owned_push: assumes o: "owned k ts z r" and t: "ts t = None" shows "owned k (ts(t \<mapsto> s)) z (r @ [t])"
proof -
  note D = ownedD [OF o]
  have t': "t \<notin> set r" "k q \<noteq> Some t" for q using D(5) [of t] D(1) [of q t] t by auto
  show ?thesis
  proof (rule ownedI)
    fix u assume "(ts(t \<mapsto> s)) u \<noteq> None"
    then have "u = t \<or> ts u \<noteq> None" by (auto split: if_splits)
    then show "u \<in> set (r @ [t]) \<or> (\<exists>x. k x = Some u)" using D(4) [of u] by auto
  qed (use D(1,2,3,5,6) t' t in \<open>auto split: if_splits\<close>)
qed

lemma owned_pop: assumes o: "owned k ts z (t # r)" shows "owned k (ts(t := None)) z r"
proof -
  note D = ownedD [OF o]
  show ?thesis
  proof (rule ownedI)
    fix u assume "(ts(t := None)) u \<noteq> None"
    then have "u \<noteq> t" "ts u \<noteq> None" by (auto split: if_splits)
    then show "u \<in> set r \<or> (\<exists>x. k x = Some u)" using D(4) [of u] by auto
  qed (use D(1,2,3,5,6) in \<open>auto split: if_splits\<close>)
qed

lemma world_okD:
  assumes "world_ok w"
  shows world_ok_promise: "w_promises w p = Some x \<Longrightarrow> promise_ok p x"
    and world_ok_future: "w_futures w f = Some y \<Longrightarrow> future_ok y"
    and world_ok_linked: "linked (fut_of (w_promises w)) (prom_of (w_futures w))"
    and world_ok_owned: "owned (task_of (w_promises w)) (w_tasks w) Fs_future (w_ready w)"
    and world_ok_link: "fut_of (w_promises w) p = Some f \<longleftrightarrow> prom_of (w_futures w) f = Some p"
    and world_ok_task: "task_of (w_promises w) p = Some t \<Longrightarrow> w_tasks w t = Some Fs_future \<and> t \<notin> set (w_ready w)"
    and world_ok_tasks: "w_tasks w t \<noteq> None \<Longrightarrow> t \<in> set (w_ready w) \<or> (\<exists>p. task_of (w_promises w) p = Some t)"
    and world_ok_ready: "t \<in> set (w_ready w) \<Longrightarrow> w_tasks w t \<noteq> None"
  using assms unfolding world_ok_def owned_def linked_def by blast+

lemma world_okI:
  assumes "\<And>p x. w_promises w p = Some x \<Longrightarrow> promise_ok p x" and "\<And>f y. w_futures w f = Some y \<Longrightarrow> future_ok y"
    and "linked (fut_of (w_promises w)) (prom_of (w_futures w))" and "owned (task_of (w_promises w)) (w_tasks w) Fs_future (w_ready w)"
  shows "world_ok w"
  unfolding world_ok_def using assms by blast

lemma promise_cases:
  assumes ok: "world_ok w" and p: "w_promises w p = Some x"
  obtains (spent) l where "x = \<lparr>prm_future = None, prm_local = l, prm_state = None, prm_task = None\<rparr>"
  | (nobody) s where "x = \<lparr>prm_future = None, prm_local = s, prm_state = Some (Loc_promise p), prm_task = None\<rparr>"
  | (future) s f where "x = \<lparr>prm_future = Some f, prm_local = s, prm_state = Some (Loc_promise p), prm_task = None\<rparr>"
      "w_futures w f = Some \<lparr>fut_promise = Some p, fut_local = Fs_future\<rparr>"
  | (waiting) l t where "x = \<lparr>prm_future = None, prm_local = l, prm_state = Some (Loc_task t), prm_task = Some t\<rparr>"
      "w_tasks w t = Some Fs_future" "t \<notin> set (w_ready w)"
proof (cases "prm_task x")
  case None
  note good = world_ok_promise [OF ok p]
  show thesis
  proof (cases "prm_future x")
    case None
    with \<open>prm_task x = None\<close> good show thesis
      using spent nobody by (cases x) (auto simp: promise_ok_def)
  next
    case (Some f)
    then have "fut_of (w_promises w) p = Some f" using p by (simp add: fut_of_def)
    then have "prom_of (w_futures w) f = Some p" using world_ok_link [OF ok] by blast
    then obtain y where y: "w_futures w f = Some y" "fut_promise y = Some p"
      by (auto simp: prom_of_def bind_eq_Some_conv)
    then have "y = \<lparr>fut_promise = Some p, fut_local = Fs_future\<rparr>"
      using world_ok_future [OF ok y(1)] by (cases y) (simp add: future_ok_def)
    with y Some \<open>prm_task x = None\<close> good show thesis
      using future by (cases x) (auto simp: promise_ok_def)
  qed
next
  case (Some t)
  then have "task_of (w_promises w) p = Some t" using p by (simp add: task_of_def)
  from world_ok_task [OF ok this] Some world_ok_promise [OF ok p] show thesis
    using waiting by (cases x) (auto simp: promise_ok_def)
qed

lemma abs_fut:
  assumes "world_ok w" and "sp_promise (abs_world w) p = Some (Fut f, s)"
  shows "w_promises w p = Some \<lparr>prm_future = Some f, prm_local = s, prm_state = Some (Loc_promise p), prm_task = None\<rparr>"
    and "w_futures w f = Some \<lparr>fut_promise = Some p, fut_local = Fs_future\<rparr>"
proof -
  obtain x where x: "w_promises w p = Some x" "abs_promise x = (Fut f, s)" using assms by auto
  show "w_promises w p = Some \<lparr>prm_future = Some f, prm_local = s, prm_state = Some (Loc_promise p), prm_task = None\<rparr>"
    using assms(1) x(1) by (rule promise_cases) (use x in \<open>simp_all add: abs_promise_def\<close>)
  show "w_futures w f = Some \<lparr>fut_promise = Some p, fut_local = Fs_future\<rparr>"
    using assms(1) x(1) by (rule promise_cases) (use x in \<open>simp_all add: abs_promise_def\<close>)
qed

lemma abs_nobody:
  assumes "world_ok w" and "sp_promise (abs_world w) p = Some (Nobody, s)"
  shows "w_promises w p = Some \<lparr>prm_future = None, prm_local = s, prm_state = Some (Loc_promise p), prm_task = None\<rparr>"
proof -
  obtain x where x: "w_promises w p = Some x" "abs_promise x = (Nobody, s)" using assms by auto
  show ?thesis
    using assms(1) x(1) by (rule promise_cases) (use x in \<open>simp_all add: abs_promise_def\<close>)
qed

lemma abs_spent:
  assumes "world_ok w" and "sp_promise (abs_world w) p = Some (Spent, s)"
  shows "s = Fs_invalid \<and> (\<exists>l. w_promises w p = Some \<lparr>prm_future = None, prm_local = l, prm_state = None, prm_task = None\<rparr>)"
proof -
  obtain x where x: "w_promises w p = Some x" "abs_promise x = (Spent, s)" using assms by auto
  show ?thesis
    using assms(1) x(1) by (rule promise_cases) (use x in \<open>simp_all add: abs_promise_def\<close>)
qed

lemma abs_waiting:
  assumes "world_ok w" and "sp_promise (abs_world w) p = Some (Waiting t, s)"
  shows "s = Fs_future \<and> (\<exists>l. w_promises w p = Some \<lparr>prm_future = None, prm_local = l, prm_state = Some (Loc_task t), prm_task = Some t\<rparr>) \<and>
    w_tasks w t = Some Fs_future \<and> t \<notin> set (w_ready w)"
proof -
  obtain x where x: "w_promises w p = Some x" "abs_promise x = (Waiting t, s)" using assms by auto
  show ?thesis
    using assms(1) x(1) by (rule promise_cases) (use x in \<open>auto simp: abs_promise_def\<close>)
qed

lemma abs_own: "sp_future (abs_world w) f = Some s \<Longrightarrow> w_futures w f = Some \<lparr>fut_promise = None, fut_local = s\<rparr>"
  by (cases "w_futures w f"; cases "the (w_futures w f)") (auto simp: abs_future_def split: if_splits)

lemma fresh_future_abs:
  assumes "world_ok w"
  shows "fresh_future f (abs_world w) \<longleftrightarrow> w_futures w f = None"
proof
  assume "w_futures w f = None"
  then show "fresh_future f (abs_world w)"
    using abs_fut(2) [OF assms] by (fastforce simp: fresh_future_def abs_world_def)
next
  assume fresh: "fresh_future f (abs_world w)"
  show "w_futures w f = None"
  proof (rule ccontr)
    assume "w_futures w f \<noteq> None"
    then obtain y where y: "w_futures w f = Some y" by auto
    then obtain p where "fut_promise y = Some p"
      using fresh by (cases "fut_promise y") (auto simp: fresh_future_def abs_future_def)
    then have "prom_of (w_futures w) f = Some p" using y by (simp add: prom_of_def)
    then have "fut_of (w_promises w) p = Some f" using world_ok_link [OF assms] by blast
    then obtain x where x: "w_promises w p = Some x" "prm_future x = Some f"
      by (auto simp: fut_of_def bind_eq_Some_conv)
    then have "abs_promise x = (Fut f, prm_local x)"
      using world_ok_promise [OF assms x(1)] by (auto simp: promise_ok_def abs_promise_def split: option.splits)
    with x fresh show False by (auto simp: fresh_future_def abs_world_def)
  qed
qed

lemma fresh_task_abs:
  assumes "world_ok w"
  shows "fresh_task t (abs_world w) \<longleftrightarrow> w_tasks w t = None"
proof
  assume none: "w_tasks w t = None"
  then have "t \<notin> set (w_ready w)" using none world_ok_ready [OF assms, of t] by auto
  with none show "fresh_task t (abs_world w)"
    using abs_waiting [OF assms] by (fastforce simp: fresh_task_def abs_world_def)
next
  assume fresh: "fresh_task t (abs_world w)"
  then have nr: "t \<notin> set (w_ready w)" by (force simp: fresh_task_def abs_world_def)
  show "w_tasks w t = None"
  proof (rule ccontr)
    assume "w_tasks w t \<noteq> None"
    then obtain p where t: "task_of (w_promises w) p = Some t"
      using world_ok_tasks [OF assms] nr by blast
    then obtain x where x: "w_promises w p = Some x" "prm_task x = Some t"
      by (auto simp: task_of_def bind_eq_Some_conv)
    then have "abs_promise x = (Waiting t, Fs_future)"
      using world_ok_promise [OF assms x(1)] by (simp add: promise_ok_def abs_promise_def)
    with x fresh show False by (auto simp: fresh_task_def abs_world_def)
  qed
qed

end
