(* ===== verification/FutureRun.thy ===== *)
theory FutureRun
  imports Futures
begin

text \<open>
  Every operation on promises and futures implements its step of the specification (\<open>Futures\<close>), from which follow
  the refinement for all sequences of operations and the arrival of values at their continuations.
\<close>

section \<open>One step\<close>

definition goes_to :: "('v, 'e) world option \<Rightarrow> ('v, 'e) spec \<Rightarrow> bool" where
  "goes_to r a \<longleftrightarrow> (\<exists>w. r = Some w \<and> world_ok w \<and> abs_world w = a)"

lemma goes_toI: "r = Some w \<Longrightarrow> world_ok w \<Longrightarrow> abs_world w = a \<Longrightarrow> goes_to r a"
  by (auto simp: goes_to_def)

lemma goes_to_bind:
  assumes "goes_to r b" and "\<And>w. world_ok w \<Longrightarrow> abs_world w = b \<Longrightarrow> goes_to (g w) a"
  shows "goes_to (Option.bind r g) a"
  using assms by (auto simp: goes_to_def)

lemma world_ext:
  assumes "\<And>p. map_option abs_promise (w_promises w p) = sp_promise a p" and "\<And>f. Option.bind (w_futures w f) abs_future = sp_future a f"
    and "List.map (\<lambda>t. (t, the (w_tasks w t))) (w_ready w) = sp_ready a" and "w_reports w = sp_reports a"
  shows "abs_world w = a"
  using assms by (cases a) (auto simp: abs_world_def fun_eq_iff)

lemmas world_ops = upd_promise_def upd_future_def report_def failures_def
lemmas abs_defs = abs_promise_def abs_future_def


lemmas of_defs = fut_of_def task_of_def prom_of_def
lemmas ok_defs = promise_ok_def future_ok_def

lemma world_ok_step:
  assumes "world_ok w" and "\<And>p x. w_promises w' p = Some x \<Longrightarrow> w_promises w p = Some x \<or> promise_ok p x"
    and "\<And>f y. w_futures w' f = Some y \<Longrightarrow> w_futures w f = Some y \<or> future_ok y"
    and "linked (fut_of (w_promises w')) (prom_of (w_futures w'))" and "owned (task_of (w_promises w')) (w_tasks w') Fs_future (w_ready w')"
  shows "world_ok w'"
  using assms unfolding world_ok_def by blast

text \<open>How the parts of a consistent state follow from its specification.\<close>

lemma link_fut:
  assumes ok: "world_ok w" and p: "sp_promise (abs_world w) p = Some (Fut f, s)"
  shows "fut_of (w_promises w) p = Some f" "prom_of (w_futures w) f = Some p" "task_of (w_promises w) p = None"
  using abs_fut [OF ok p] by (simp_all add: of_defs)

lemma link_none:
  assumes p: "sp_promise (abs_world w) p = None"
  shows "w_promises w p = None" "fut_of (w_promises w) p = None" "task_of (w_promises w) p = None"
  using p by (simp_all add: of_defs)

lemma link_fresh:
  assumes ok: "world_ok w" and f: "fresh_future f (abs_world w)"
  shows "w_futures w f = None" "prom_of (w_futures w) f = None"
  using f by (simp_all add: fresh_future_abs [OF ok] of_defs)

lemma link_own:
  assumes f: "sp_future (abs_world w) f = Some s"
  shows "w_futures w f = Some \<lparr>fut_promise = None, fut_local = s\<rparr>" "prom_of (w_futures w) f = None"
  using abs_own [OF f] by (simp_all add: of_defs)

lemma link_nobody:
  assumes ok: "world_ok w" and p: "sp_promise (abs_world w) p = Some (Nobody, s)"
  shows "w_promises w p = Some \<lparr>prm_future = None, prm_local = s, prm_state = Some (Loc_promise p), prm_task = None\<rparr>"
    "fut_of (w_promises w) p = None" "task_of (w_promises w) p = None"
  using abs_nobody [OF ok p] by (simp_all add: of_defs)

lemma promise_construct_step:
  assumes ok: "world_ok w" and p: "sp_promise (abs_world w) p = None"
  shows "goes_to (promise_construct p w) ((abs_world w)\<lparr>sp_promise := (sp_promise (abs_world w))(p \<mapsto> (Nobody, Fs_future))\<rparr>)"
proof (rule goes_toI)
  note none = link_none [OF p]
  let ?w = "w\<lparr>w_promises := (w_promises w)(p \<mapsto> \<lparr>prm_future = None, prm_local = Fs_future, prm_state = Some (Loc_promise p), prm_task = None\<rparr>)\<rparr>"
  show "promise_construct p w = Some ?w" using p by (simp add: promise_construct_def)
  show "world_ok ?w"
    using world_ok_linked [OF ok] world_ok_owned [OF ok] none
    by (intro world_ok_step [OF ok]) (auto simp: ok_defs fun_upd_idem split: if_splits)
  show "abs_world ?w = (abs_world w)\<lparr>sp_promise := (sp_promise (abs_world w))(p \<mapsto> (Nobody, Fs_future))\<rparr>"
    by (rule world_ext) (simp_all add: abs_defs)
qed

lemma promise_move_to:
  assumes ok: "world_ok w" and x: "w_promises w p = Some x"
    and eq: "promise_move q p w = Some (w\<lparr>w_promises := (w_promises w)(p \<mapsto> x', q \<mapsto> y), w_futures := m\<rparr>)"
    and good: "promise_ok p x'" "promise_ok q y" "\<And>f z. m f = Some z \<Longrightarrow> w_futures w f = Some z \<or> future_ok z"
    and linked: "linked ((fut_of (w_promises w))(p := prm_future x', q := prm_future y)) (prom_of m)"
    and owned: "owned ((task_of (w_promises w))(p := prm_task x', q := prm_task y)) (w_tasks w) Fs_future (w_ready w)"
    and abs: "abs_promise x' = (Spent, Fs_invalid)" "abs_promise y = abs_promise x" "\<And>f. Option.bind (m f) abs_future = Option.bind (w_futures w f) abs_future"
  shows "goes_to (promise_move q p w) ((abs_world w)\<lparr>sp_promise := (sp_promise (abs_world w))(p \<mapsto> (Spent, Fs_invalid), q \<mapsto> abs_promise x)\<rparr>)"
proof (rule goes_toI [OF eq])
  show "world_ok (w\<lparr>w_promises := (w_promises w)(p \<mapsto> x', q \<mapsto> y), w_futures := m\<rparr>)"
    using good linked owned by (intro world_ok_step [OF ok]) (auto split: if_splits)
  show "abs_world (w\<lparr>w_promises := (w_promises w)(p \<mapsto> x', q \<mapsto> y), w_futures := m\<rparr>) =
    (abs_world w)\<lparr>sp_promise := (sp_promise (abs_world w))(p \<mapsto> (Spent, Fs_invalid), q \<mapsto> abs_promise x)\<rparr>"
    using abs by (intro world_ext) simp_all
qed

lemma promise_move_step:
  assumes ok: "world_ok w" and p: "sp_promise (abs_world w) p = Some cs" and q: "sp_promise (abs_world w) q = None"
  shows "goes_to (promise_move q p w) ((abs_world w)\<lparr>sp_promise := (sp_promise (abs_world w))(p \<mapsto> (Spent, Fs_invalid), q \<mapsto> cs)\<rparr>)"
proof -
  obtain x where x: "w_promises w p = Some x" and cs: "cs = abs_promise x" using p by auto
  note none = link_none [OF q]
  have ne: "q \<noteq> p" "p \<noteq> q" using x none by auto
  note L = world_ok_linked [OF ok] and O = world_ok_owned [OF ok] and to = promise_move_to [OF ok x]
  note defs = promise_move_def migrated_def upd_future_def ok_defs abs_defs
  show ?thesis
    unfolding cs using ok x
  proof (cases rule: promise_cases)
    case (spent l)
    have "fut_of (w_promises w) p = None" "task_of (w_promises w) p = None" using x spent by (simp_all add: of_defs)
    then show "goes_to (promise_move q p w) ((abs_world w)\<lparr>sp_promise := (sp_promise (abs_world w))(p \<mapsto> (Spent, Fs_invalid), q \<mapsto> abs_promise x)\<rparr>)"
      using L O none x spent by (intro to [where x' = "\<lparr>prm_future = None, prm_local = l, prm_state = None, prm_task = None\<rparr>"
        and y = "\<lparr>prm_future = None, prm_local = Fs_future, prm_state = None, prm_task = None\<rparr>" and m = "w_futures w"]) (auto simp: defs fun_upd_idem)
  next
    case (nobody s)
    have "fut_of (w_promises w) p = None" "task_of (w_promises w) p = None" using x nobody by (simp_all add: of_defs)
    then show "goes_to (promise_move q p w) ((abs_world w)\<lparr>sp_promise := (sp_promise (abs_world w))(p \<mapsto> (Spent, Fs_invalid), q \<mapsto> abs_promise x)\<rparr>)"
      using L O none x nobody by (intro to [where x' = "\<lparr>prm_future = None, prm_local = Fs_invalid, prm_state = None, prm_task = None\<rparr>"
        and y = "\<lparr>prm_future = None, prm_local = s, prm_state = Some (Loc_promise q), prm_task = None\<rparr>" and m = "w_futures w"]) (auto simp: defs fun_upd_idem)
  next
    case (future s f)
    have t: "fut_of (w_promises w) p = Some f" "task_of (w_promises w) p = None" using x future by (simp_all add: of_defs)
    have "linked ((fut_of (w_promises w))(p := None, q \<mapsto> f)) ((prom_of (w_futures w))(f := None, f \<mapsto> q))"
      by (intro linked_join linked_cut L t) (simp_all add: none ne)
    with t show "goes_to (promise_move q p w) ((abs_world w)\<lparr>sp_promise := (sp_promise (abs_world w))(p \<mapsto> (Spent, Fs_invalid), q \<mapsto> abs_promise x)\<rparr>)"
      using O none x future ne
      by (intro to [where x' = "\<lparr>prm_future = None, prm_local = Fs_invalid, prm_state = None, prm_task = None\<rparr>"
        and y = "\<lparr>prm_future = Some f, prm_local = s, prm_state = Some (Loc_promise q), prm_task = None\<rparr>" and m = "(w_futures w)(f \<mapsto> \<lparr>fut_promise = Some q, fut_local = Fs_future\<rparr>)"]) (auto simp: defs fun_upd_idem split: if_splits)
  next
    case (waiting l t)
    have t: "fut_of (w_promises w) p = None" "task_of (w_promises w) p = Some t" using x waiting by (simp_all add: of_defs)
    have "owned ((task_of (w_promises w))(p := None, q \<mapsto> t)) (w_tasks w) Fs_future (w_ready w)"
      by (intro owned_move O t none)
    with t show "goes_to (promise_move q p w) ((abs_world w)\<lparr>sp_promise := (sp_promise (abs_world w))(p \<mapsto> (Spent, Fs_invalid), q \<mapsto> abs_promise x)\<rparr>)"
      using L none x waiting by (intro to [where x' = "\<lparr>prm_future = None, prm_local = l, prm_state = None, prm_task = None\<rparr>"
        and y = "\<lparr>prm_future = None, prm_local = Fs_future, prm_state = Some (Loc_task t), prm_task = Some t\<rparr>" and m = "w_futures w"]) (auto simp: defs fun_upd_idem)
  qed
qed

lemma promise_destroy_future_step:
  assumes ok: "world_ok w" and p: "sp_promise (abs_world w) p = Some (Fut f, s)"
  shows "goes_to (promise_destroy p w)
    ((abs_world w)\<lparr>sp_promise := (sp_promise (abs_world w))(p := None), sp_future := (sp_future (abs_world w))(f \<mapsto> s)\<rparr>)"
proof (rule goes_toI)
  note F = abs_fut [OF ok p] link_fut [OF ok p]
  let ?w = "w\<lparr>w_futures := (w_futures w)(f \<mapsto> \<lparr>fut_promise = None, fut_local = s\<rparr>), w_promises := (w_promises w)(p := None)\<rparr>"
  show "promise_destroy p w = Some ?w"
    using F by (simp add: promise_destroy_def abandoned_def world_ops)
  show "world_ok ?w"
    using linked_cut [OF world_ok_linked [OF ok] F(3)] world_ok_owned [OF ok] F
    by (intro world_ok_step [OF ok]) (auto simp: ok_defs fun_upd_idem split: if_splits)
  show "abs_world ?w = (abs_world w)\<lparr>sp_promise := (sp_promise (abs_world w))(p := None), sp_future := (sp_future (abs_world w))(f \<mapsto> s)\<rparr>"
    by (rule world_ext) (simp_all add: abs_defs)
qed

lemma promise_destroy_step:
  assumes ok: "world_ok w" and p: "sp_promise (abs_world w) p = Some (c, s)" and c: "\<forall>f. c \<noteq> Fut f"
  shows "goes_to (promise_destroy p w)
    ((abs_world w)\<lparr>sp_promise := (sp_promise (abs_world w))(p := None), sp_reports := sp_reports (abs_world w) @ failures s\<rparr>)"
proof -
  obtain x where x: "w_promises w p = Some x" and cs: "abs_promise x = (c, s)" using p by auto
  note L = world_ok_linked [OF ok] and O = world_ok_owned [OF ok]
  show ?thesis
    using ok x
  proof (cases rule: promise_cases)
    case (future s' f)
    with cs c show ?thesis by (auto simp: abs_promise_def)
  next
    case (waiting l t)
    have t: "fut_of (w_promises w) p = None" "task_of (w_promises w) p = Some t" using x waiting by (simp_all add: of_defs)
    let ?w = "w\<lparr>w_tasks := (w_tasks w)(t := None), w_promises := (w_promises w)(p := None)\<rparr>"
    have s: "s = Fs_future" using cs waiting by (simp add: abs_promise_def)
    have "owned ((task_of (w_promises w))(p := None)) ((w_tasks w)(t := None)) Fs_future (w_ready w)"
      using O by (intro owned_release [OF O t(2)]) (auto simp: owned_def)
    then have "world_ok ?w"
      using L t by (intro world_ok_step [OF ok]) (auto simp: ok_defs fun_upd_idem split: if_splits)
    moreover have "promise_destroy p w = Some ?w"
      using waiting x by (simp add: promise_destroy_def abandoned_def world_ops)
    moreover have "abs_world ?w = (abs_world w)\<lparr>sp_promise := (sp_promise (abs_world w))(p := None), sp_reports := sp_reports (abs_world w) @ failures s\<rparr>"
      using waiting s by (intro world_ext) (auto simp: abs_defs failures_def)
    ultimately show ?thesis by (intro goes_toI)
  next
    case (spent l)
    have t: "fut_of (w_promises w) p = None" "task_of (w_promises w) p = None" using x spent by (simp_all add: of_defs)
    let ?w = "w\<lparr>w_promises := (w_promises w)(p := None)\<rparr>"
    have "s = Fs_invalid" using cs spent by (simp add: abs_promise_def)
    then have "abs_world ?w = (abs_world w)\<lparr>sp_promise := (sp_promise (abs_world w))(p := None), sp_reports := sp_reports (abs_world w) @ failures s\<rparr>"
      by (intro world_ext) (simp_all add: abs_defs failures_def)
    moreover have "world_ok ?w"
      using L O t by (intro world_ok_step [OF ok]) (auto simp: ok_defs fun_upd_idem split: if_splits)
    moreover have "promise_destroy p w = Some ?w"
      using spent x by (simp add: promise_destroy_def abandoned_def world_ops)
    ultimately show ?thesis by (intro goes_toI)
  next
    case (nobody s')
    have t: "fut_of (w_promises w) p = None" "task_of (w_promises w) p = None" using x nobody by (simp_all add: of_defs)
    let ?w = "w\<lparr>w_reports := w_reports w @ failures s, w_promises := (w_promises w)(p := None)\<rparr>"
    have s: "s' = s" using cs nobody by (simp add: abs_promise_def)
    have "abs_world ?w = (abs_world w)\<lparr>sp_promise := (sp_promise (abs_world w))(p := None), sp_reports := sp_reports (abs_world w) @ failures s\<rparr>"
      by (intro world_ext) (simp_all add: abs_defs)
    moreover have "world_ok ?w"
      using L O t by (intro world_ok_step [OF ok]) (auto simp: ok_defs fun_upd_idem split: if_splits)
    moreover have "promise_destroy p w = Some ?w"
      using nobody x s by (cases s) (simp_all add: promise_destroy_def abandoned_def world_ops)
    ultimately show ?thesis by (intro goes_toI)
  qed
qed

lemma get_future_step:
  assumes ok: "world_ok w" and p: "sp_promise (abs_world w) p = Some (Nobody, s)" and f: "fresh_future f (abs_world w)"
  shows "goes_to (get_future p f w) ((abs_world w)\<lparr>sp_promise := (sp_promise (abs_world w))(p \<mapsto> (Fut f, s))\<rparr>)"
proof (rule goes_toI)
  note N = link_nobody [OF ok p] and F = link_fresh [OF ok f]
  let ?w = "w\<lparr>w_futures := (w_futures w)(f \<mapsto> \<lparr>fut_promise = Some p, fut_local = Fs_future\<rparr>),
    w_promises := (w_promises w)(p \<mapsto> \<lparr>prm_future = Some f, prm_local = s, prm_state = Some (Loc_promise p), prm_task = None\<rparr>)\<rparr>"
  show "get_future p f w = Some ?w" using N F by (simp add: get_future_def world_ops)
  show "world_ok ?w"
    using linked_join [OF world_ok_linked [OF ok] N(2) F(2)] world_ok_owned [OF ok] N
    by (intro world_ok_step [OF ok]) (auto simp: ok_defs fun_upd_idem split: if_splits)
  show "abs_world ?w = (abs_world w)\<lparr>sp_promise := (sp_promise (abs_world w))(p \<mapsto> (Fut f, s))\<rparr>"
    using F by (intro world_ext) (auto simp: abs_defs)
qed

lemma new_future_step:
  assumes ok: "world_ok w" and f: "fresh_future f (abs_world w)"
  shows "goes_to (Some (w\<lparr>w_futures := (w_futures w)(f \<mapsto> \<lparr>fut_promise = None, fut_local = s\<rparr>)\<rparr>))
    ((abs_world w)\<lparr>sp_future := (sp_future (abs_world w))(f \<mapsto> s)\<rparr>)"
proof (rule goes_toI [OF refl])
  note F = link_fresh [OF ok f]
  let ?w = "w\<lparr>w_futures := (w_futures w)(f \<mapsto> \<lparr>fut_promise = None, fut_local = s\<rparr>)\<rparr>"
  show "world_ok ?w"
    using world_ok_linked [OF ok] world_ok_owned [OF ok] F
    by (intro world_ok_step [OF ok]) (auto simp: ok_defs fun_upd_idem split: if_splits)
  show "abs_world ?w = (abs_world w)\<lparr>sp_future := (sp_future (abs_world w))(f \<mapsto> s)\<rparr>"
    by (intro world_ext) (auto simp: abs_defs)
qed

lemma future_move_own_step:
  assumes ok: "world_ok w" and f: "sp_future (abs_world w) f = Some s" and g: "fresh_future g (abs_world w)"
  shows "goes_to (future_move g f w) ((abs_world w)\<lparr>sp_future := (sp_future (abs_world w))(f \<mapsto> Fs_invalid, g \<mapsto> s)\<rparr>)"
proof (rule goes_toI)
  note F = link_own [OF f] and G = link_fresh [OF ok g]
  let ?w = "w\<lparr>w_futures := (w_futures w)(f \<mapsto> \<lparr>fut_promise = None, fut_local = Fs_invalid\<rparr>, g \<mapsto> \<lparr>fut_promise = None, fut_local = s\<rparr>)\<rparr>"
  show "future_move g f w = Some ?w" using F G by (simp add: future_move_def)
  show "world_ok ?w"
    using world_ok_linked [OF ok] world_ok_owned [OF ok] F G
    by (intro world_ok_step [OF ok]) (auto simp: ok_defs fun_upd_idem split: if_splits)
  show "abs_world ?w = (abs_world w)\<lparr>sp_future := (sp_future (abs_world w))(f \<mapsto> Fs_invalid, g \<mapsto> s)\<rparr>"
    by (intro world_ext) (auto simp: abs_defs)
qed

lemma future_move_promise_step:
  assumes ok: "world_ok w" and p: "sp_promise (abs_world w) p = Some (Fut f, s)" and g: "fresh_future g (abs_world w)"
  shows "goes_to (future_move g f w)
    ((abs_world w)\<lparr>sp_promise := (sp_promise (abs_world w))(p \<mapsto> (Fut g, s)), sp_future := (sp_future (abs_world w))(f \<mapsto> Fs_future)\<rparr>)"
proof (rule goes_toI)
  note F = abs_fut [OF ok p] link_fut [OF ok p] and G = link_fresh [OF ok g]
  let ?w = "w\<lparr>w_futures := (w_futures w)(f \<mapsto> \<lparr>fut_promise = None, fut_local = Fs_future\<rparr>, g \<mapsto> \<lparr>fut_promise = Some p, fut_local = Fs_future\<rparr>),
    w_promises := (w_promises w)(p \<mapsto> \<lparr>prm_future = Some g, prm_local = s, prm_state = Some (Loc_promise p), prm_task = None\<rparr>)\<rparr>"
  have ne: "f \<noteq> g" using F G by auto
  show "future_move g f w = Some ?w" using F G by (simp add: future_move_def world_ops)
  have "linked ((fut_of (w_promises w))(p := None, p \<mapsto> g)) ((prom_of (w_futures w))(f := None, g \<mapsto> p))"
    by (intro linked_join linked_cut world_ok_linked ok F) (simp_all add: G ne)
  then show "world_ok ?w"
    using world_ok_owned [OF ok] F
    by (intro world_ok_step [OF ok]) (auto simp: ok_defs fun_upd_idem split: if_splits)
  show "abs_world ?w = (abs_world w)\<lparr>sp_promise := (sp_promise (abs_world w))(p \<mapsto> (Fut g, s)), sp_future := (sp_future (abs_world w))(f \<mapsto> Fs_future)\<rparr>"
    using G ne by (intro world_ext) (auto simp: abs_defs)
qed

lemma future_destroy_own_step:
  assumes ok: "world_ok w" and f: "sp_future (abs_world w) f = Some s"
  shows "goes_to (future_destroy f w)
    ((abs_world w)\<lparr>sp_future := (sp_future (abs_world w))(f := None), sp_reports := sp_reports (abs_world w) @ failures s\<rparr>)"
proof (rule goes_toI)
  note F = link_own [OF f]
  let ?w = "w\<lparr>w_reports := w_reports w @ failures s, w_futures := (w_futures w)(f := None)\<rparr>"
  show "future_destroy f w = Some ?w"
    using F by (cases s) (simp_all add: future_destroy_def fut_value_def fut_loc_def world_ops)
  show "world_ok ?w"
    using world_ok_linked [OF ok] world_ok_owned [OF ok] F
    by (intro world_ok_step [OF ok]) (auto simp: ok_defs fun_upd_idem split: if_splits)
  show "abs_world ?w = (abs_world w)\<lparr>sp_future := (sp_future (abs_world w))(f := None), sp_reports := sp_reports (abs_world w) @ failures s\<rparr>"
    by (intro world_ext) (auto simp: abs_defs)
qed

lemma future_destroy_promise_step:
  assumes ok: "world_ok w" and p: "sp_promise (abs_world w) p = Some (Fut f, s)"
  shows "goes_to (future_destroy f w)
    ((abs_world w)\<lparr>sp_promise := (sp_promise (abs_world w))(p \<mapsto> (Nobody, s)), sp_reports := sp_reports (abs_world w) @ failures s\<rparr>)"
proof (rule goes_toI)
  note F = abs_fut [OF ok p] link_fut [OF ok p]
  let ?w = "w\<lparr>w_promises := (w_promises w)(p \<mapsto> \<lparr>prm_future = None, prm_local = s, prm_state = Some (Loc_promise p), prm_task = None\<rparr>),
    w_reports := w_reports w @ failures s, w_futures := (w_futures w)(f := None)\<rparr>"
  show "future_destroy f w = Some ?w"
    using F by (cases s) (simp_all add: future_destroy_def fut_value_def fut_loc_def world_ops)
  show "world_ok ?w"
    using linked_cut [OF world_ok_linked [OF ok] F(3)] world_ok_owned [OF ok] F
    by (intro world_ok_step [OF ok]) (auto simp: ok_defs fun_upd_idem split: if_splits)
  show "abs_world ?w = (abs_world w)\<lparr>sp_promise := (sp_promise (abs_world w))(p \<mapsto> (Nobody, s)), sp_reports := sp_reports (abs_world w) @ failures s\<rparr>"
    using F by (intro world_ext) (auto simp: abs_defs)
qed

lemma fut_value_own: "sp_future (abs_world w) f = Some s \<Longrightarrow> fut_value f w = Some s \<and> fut_loc f w = Some None"
  by (drule abs_own) (simp add: fut_value_def fut_loc_def)

lemma fut_value_promise:
  assumes ok: "world_ok w" and p: "sp_promise (abs_world w) p = Some (Fut f, s)"
  shows "fut_value f w = Some s" "fut_loc f w = Some (Some (Loc_promise p))"
  using abs_fut [OF assms] by (simp_all add: fut_value_def fut_loc_def)

lemma fut_store_own_step:
  assumes ok: "world_ok w" and f: "sp_future (abs_world w) f = Some s"
  shows "goes_to (fut_store f s' w) ((abs_world w)\<lparr>sp_future := (sp_future (abs_world w))(f \<mapsto> s')\<rparr>)"
proof (rule goes_toI)
  note F = link_own [OF f] fut_value_own [OF f]
  let ?w = "w\<lparr>w_futures := (w_futures w)(f \<mapsto> \<lparr>fut_promise = None, fut_local = s'\<rparr>)\<rparr>"
  show "fut_store f s' w = Some ?w" using F by (simp add: fut_store_def world_ops)
  show "world_ok ?w"
    using world_ok_linked [OF ok] world_ok_owned [OF ok] F
    by (intro world_ok_step [OF ok]) (auto simp: ok_defs fun_upd_idem split: if_splits)
  show "abs_world ?w = (abs_world w)\<lparr>sp_future := (sp_future (abs_world w))(f \<mapsto> s')\<rparr>"
    by (intro world_ext) (auto simp: abs_defs)
qed

lemma fut_store_promise_step:
  assumes ok: "world_ok w" and p: "sp_promise (abs_world w) p = Some (Fut f, s)"
  shows "goes_to (fut_store f s' w) ((abs_world w)\<lparr>sp_promise := (sp_promise (abs_world w))(p \<mapsto> (Fut f, s'))\<rparr>)"
proof (rule goes_toI)
  note F = abs_fut [OF ok p] link_fut [OF ok p] fut_value_promise [OF ok p]
  let ?w = "w\<lparr>w_promises := (w_promises w)(p \<mapsto> \<lparr>prm_future = Some f, prm_local = s', prm_state = Some (Loc_promise p), prm_task = None\<rparr>)\<rparr>"
  show "fut_store f s' w = Some ?w" using F by (simp add: fut_store_def world_ops)
  show "world_ok ?w"
    using world_ok_linked [OF ok] world_ok_owned [OF ok] F
    by (intro world_ok_step [OF ok]) (auto simp: ok_defs fun_upd_idem split: if_splits)
  show "abs_world ?w = (abs_world w)\<lparr>sp_promise := (sp_promise (abs_world w))(p \<mapsto> (Fut f, s'))\<rparr>"
    by (intro world_ext) (auto simp: abs_defs)
qed

lemma detach_step:
  assumes ok: "world_ok w" and p: "sp_promise (abs_world w) p = Some (Fut f, s)"
  shows "goes_to (detach f w)
    ((abs_world w)\<lparr>sp_promise := (sp_promise (abs_world w))(p \<mapsto> (Nobody, s)), sp_future := (sp_future (abs_world w))(f \<mapsto> Fs_future)\<rparr>)"
proof (rule goes_toI)
  note F = abs_fut [OF ok p] link_fut [OF ok p]
  let ?w = "w\<lparr>w_promises := (w_promises w)(p \<mapsto> \<lparr>prm_future = None, prm_local = s, prm_state = Some (Loc_promise p), prm_task = None\<rparr>),
    w_futures := (w_futures w)(f \<mapsto> \<lparr>fut_promise = None, fut_local = Fs_future\<rparr>)\<rparr>"
  show "detach f w = Some ?w" using F by (simp add: detach_def world_ops)
  show "world_ok ?w"
    using linked_cut [OF world_ok_linked [OF ok] F(3)] world_ok_owned [OF ok] F
    by (intro world_ok_step [OF ok]) (auto simp: ok_defs fun_upd_idem split: if_splits)
  show "abs_world ?w = (abs_world w)\<lparr>sp_promise := (sp_promise (abs_world w))(p \<mapsto> (Nobody, s)), sp_future := (sp_future (abs_world w))(f \<mapsto> Fs_future)\<rparr>"
    by (intro world_ext) (auto simp: abs_defs)
qed

text \<open>Queueing a continuation with its value.\<close>

lemma push_step:
  assumes ok: "world_ok w" and t: "fresh_task t (abs_world w)"
  shows "goes_to (Some (w\<lparr>w_tasks := (w_tasks w)(t \<mapsto> s), w_ready := w_ready w @ [t]\<rparr>)) ((abs_world w)\<lparr>sp_ready := sp_ready (abs_world w) @ [(t, s)]\<rparr>)"
proof (rule goes_toI [OF refl])
  have t': "w_tasks w t = None" using t by (simp add: fresh_task_abs [OF ok])
  then have nr: "u \<in> set (w_ready w) \<Longrightarrow> u \<noteq> t" for u using world_ok_ready [OF ok] by blast
  let ?w = "w\<lparr>w_tasks := (w_tasks w)(t \<mapsto> s), w_ready := w_ready w @ [t]\<rparr>"
  show "world_ok ?w"
    using world_ok_linked [OF ok] owned_push [OF world_ok_owned [OF ok] t']
    by (intro world_ok_step [OF ok]) auto
  show "abs_world ?w = (abs_world w)\<lparr>sp_ready := sp_ready (abs_world w) @ [(t, s)]\<rparr>"
    using nr by (intro world_ext) auto
qed

lemma future_wait_step:
  assumes ok: "world_ok w" and p: "sp_promise (abs_world w) p = Some (Fut f, s)" and t: "fresh_task t (abs_world w)"
  shows "goes_to (future_wait f t w)
    ((abs_world w)\<lparr>sp_promise := (sp_promise (abs_world w))(p \<mapsto> (Waiting t, Fs_future)), sp_future := (sp_future (abs_world w))(f \<mapsto> Fs_future)\<rparr>)"
proof (rule goes_toI)
  note F = abs_fut [OF ok p] link_fut [OF ok p]
  have t': "w_tasks w t = None" using t by (simp add: fresh_task_abs [OF ok])
  then have nr: "u \<in> set (w_ready w) \<Longrightarrow> u \<noteq> t" for u using world_ok_ready [OF ok] by blast
  let ?w = "w\<lparr>w_tasks := (w_tasks w)(t \<mapsto> Fs_future),
    w_promises := (w_promises w)(p \<mapsto> \<lparr>prm_future = None, prm_local = s, prm_state = Some (Loc_task t), prm_task = Some t\<rparr>),
    w_futures := (w_futures w)(f \<mapsto> \<lparr>fut_promise = None, fut_local = Fs_future\<rparr>)\<rparr>"
  show "future_wait f t w = Some ?w" using F by (simp add: future_wait_def promise_schedule_def detach_def world_ops)
  show "world_ok ?w"
    using linked_cut [OF world_ok_linked [OF ok] F(3)] owned_wait [OF world_ok_owned [OF ok] F(5) t']
    by (intro world_ok_step [OF ok]) (auto simp: ok_defs split: if_splits)
  show "abs_world ?w = (abs_world w)\<lparr>sp_promise := (sp_promise (abs_world w))(p \<mapsto> (Waiting t, Fs_future)), sp_future := (sp_future (abs_world w))(f \<mapsto> Fs_future)\<rparr>"
    using nr by (intro world_ext) (auto simp: abs_defs)
qed

lemma available_iff: "fs_available s \<longleftrightarrow> (\<exists>v. s = Fs_result v) \<or> (\<exists>e. s = Fs_exception e)"
  by (cases s) auto

text \<open>The arrival of a value.\<close>

definition deliver :: "bool \<Rightarrow> bool \<Rightarrow> nat \<Rightarrow> ('v, 'e) value_state \<Rightarrow> ('v, 'e) world \<Rightarrow> ('v, 'e) world option" where
  "deliver urgent need_preempt p s w =
     Option.bind (w_promises w p) (\<lambda>x. Option.bind (prm_state x) (\<lambda>l.
       Option.bind (load l w) (\<lambda>r. if r = Fs_future then Option.bind (store l s w) (make_ready urgent need_preempt p) else None)))"

lemma fs_set_if:
  "fs_set v s = (if s = Fs_future then Some (Fs_result v) else None)"
  "fs_set_exception e s = (if s = Fs_future then Some (Fs_exception e) else None)"
  by (cases s; simp add: fs_set_def fs_set_exception_def)+

lemma set_deliver:
  "set_value u n p v w = deliver u n p (Fs_result v) w" "set_exception u n p e w = deliver u n p (Fs_exception e) w"
  by (cases "w_promises w p"; cases "prm_state (the (w_promises w p))"; cases "load (the (prm_state (the (w_promises w p)))) w";
      simp add: set_value_def set_exception_def deliver_def fs_set_if)+

lemma deliver_step:
  assumes ok: "world_ok w" and p: "sp_promise (abs_world w) p = Some (c, Fs_future)"
  shows "goes_to (deliver u n p s w) (arrive (u \<and> \<not> n) p c s (abs_world w))"
proof -
  obtain x where x: "w_promises w p = Some x" and cs: "abs_promise x = (c, Fs_future)" using p by auto
  note L = world_ok_linked [OF ok] and O = world_ok_owned [OF ok]
  show ?thesis
    using ok x
  proof (cases rule: promise_cases)
    case (spent l)
    with cs show ?thesis by (simp add: abs_promise_def)
  next
    case (nobody s')
    have t: "fut_of (w_promises w) p = None" "task_of (w_promises w) p = None" using x nobody by (simp_all add: of_defs)
    let ?w = "w\<lparr>w_promises := (w_promises w)(p \<mapsto> \<lparr>prm_future = None, prm_local = s, prm_state = Some (Loc_promise p), prm_task = None\<rparr>)\<rparr>"
    have "deliver u n p s w = Some ?w" using nobody x cs by (simp add: deliver_def make_ready_def world_ops abs_defs)
    moreover have "world_ok ?w"
      using L O t by (intro world_ok_step [OF ok]) (auto simp: ok_defs fun_upd_idem split: if_splits)
    moreover have "abs_world ?w = arrive (u \<and> \<not> n) p c s (abs_world w)"
      using nobody cs by (intro world_ext) (auto simp: abs_defs arrive_def)
    ultimately show ?thesis by (rule goes_toI)
  next
    case (future s' f)
    have t: "fut_of (w_promises w) p = Some f" "task_of (w_promises w) p = None" using x future by (simp_all add: of_defs)
    let ?w = "w\<lparr>w_promises := (w_promises w)(p \<mapsto> \<lparr>prm_future = Some f, prm_local = s, prm_state = Some (Loc_promise p), prm_task = None\<rparr>)\<rparr>"
    have "deliver u n p s w = Some ?w" using future x cs by (simp add: deliver_def make_ready_def world_ops abs_defs)
    moreover have "world_ok ?w"
      using L O t by (intro world_ok_step [OF ok]) (auto simp: ok_defs fun_upd_idem split: if_splits)
    moreover have "abs_world ?w = arrive (u \<and> \<not> n) p c s (abs_world w)"
      using future cs by (intro world_ext) (auto simp: abs_defs arrive_def)
    ultimately show ?thesis by (rule goes_toI)
  next
    case (waiting l t)
    have t: "fut_of (w_promises w) p = None" "task_of (w_promises w) p = Some t" using x waiting by (simp_all add: of_defs)
    let ?r = "if u \<and> \<not> n then t # w_ready w else w_ready w @ [t]"
    let ?w = "w\<lparr>w_tasks := (w_tasks w)(t \<mapsto> s), w_promises := (w_promises w)(p \<mapsto> \<lparr>prm_future = None, prm_local = l, prm_state = None, prm_task = None\<rparr>), w_ready := ?r\<rparr>"
    have nr: "v \<in> set (w_ready w) \<Longrightarrow> v \<noteq> t" for v using waiting by blast
    have "deliver u n p s w = Some ?w" using waiting x by (simp add: deliver_def make_ready_def world_ops)
    moreover have "world_ok ?w"
      using L t owned_release [OF O t(2), of ?r "Some s"] waiting(3) ownedD(6) [OF O]
      by (intro world_ok_step [OF ok]) (auto simp: ok_defs fun_upd_idem split: if_splits)
    moreover have "abs_world ?w = arrive (u \<and> \<not> n) p c s (abs_world w)"
      using waiting cs nr by (intro world_ext) (auto simp: abs_defs arrive_def)
    ultimately show ?thesis by (rule goes_toI)
  qed
qed

lemma detach_own: "sp_future (abs_world w) f = Some s \<Longrightarrow> detach f w = Some w"
  by (drule abs_own) (simp add: detach_def)

lemma get_available_own:
  assumes ok: "world_ok w" and f: "sp_future (abs_world w) f = Some s"
  shows "\<exists>w'. get_available_state f w = Some (s, w') \<and> world_ok w' \<and> abs_world w' = (abs_world w)\<lparr>sp_future := (sp_future (abs_world w))(f \<mapsto> Fs_invalid)\<rparr>"
proof -
  obtain w' where w': "fut_store f Fs_invalid w = Some w'" "world_ok w'"
    "abs_world w' = (abs_world w)\<lparr>sp_future := (sp_future (abs_world w))(f \<mapsto> Fs_invalid)\<rparr>"
    using fut_store_own_step [OF ok f, of Fs_invalid] by (auto simp: goes_to_def)
  then have "detach f w' = Some w'" by (intro detach_own [of _ _ Fs_invalid]) (simp only:, simp)
  with w' show ?thesis using fut_value_own [OF f] by (simp add: get_available_state_def)
qed

lemma get_available_promise:
  assumes ok: "world_ok w" and p: "sp_promise (abs_world w) p = Some (Fut f, s)"
  shows "\<exists>w'. get_available_state f w = Some (s, w') \<and> world_ok w' \<and> abs_world w' =
    (abs_world w)\<lparr>sp_promise := (sp_promise (abs_world w))(p \<mapsto> (Nobody, Fs_invalid)), sp_future := (sp_future (abs_world w))(f \<mapsto> Fs_future)\<rparr>"
proof -
  obtain w' where w': "fut_store f Fs_invalid w = Some w'" "world_ok w'"
    "abs_world w' = (abs_world w)\<lparr>sp_promise := (sp_promise (abs_world w))(p \<mapsto> (Fut f, Fs_invalid))\<rparr>"
    using fut_store_promise_step [OF ok p, of Fs_invalid] by (auto simp: goes_to_def)
  then have "sp_promise (abs_world w') p = Some (Fut f, Fs_invalid)" by (simp only:) simp
  from detach_step [OF w'(2) this] w' show ?thesis
    using fut_value_promise [OF ok p] by (auto simp: get_available_state_def goes_to_def)
qed

lemma promise_move_commute:
  assumes "w_promises w q = Some x" and "prm_future x \<noteq> Some f" and "p \<noteq> q"
  shows "promise_move p q (w\<lparr>w_futures := (w_futures w)(f \<mapsto> y)\<rparr>) =
    map_option (\<lambda>w. w\<lparr>w_futures := (w_futures w)(f \<mapsto> y)\<rparr>) (promise_move p q w)"
proof (cases "prm_future x")
  case None
  then show ?thesis using assms by (simp add: promise_move_def migrated_def Let_def)
next
  case (Some g)
  with assms have "f \<noteq> g" by auto
  then show ?thesis
    using assms Some by (cases "w_futures w g") (simp_all add: promise_move_def migrated_def Let_def upd_future_def fun_upd_twist)
qed

lemma forward_later_step:
  assumes ok: "world_ok w" and p: "sp_promise (abs_world w) p = Some (Fut f, Fs_future)" and ne: "p \<noteq> q" and q: "sp_promise (abs_world w) q = Some cs"
  shows "goes_to (future_forward_to n f q w)
    ((abs_world w)\<lparr>sp_promise := (sp_promise (abs_world w))(q \<mapsto> (Spent, Fs_invalid), p \<mapsto> cs), sp_future := (sp_future (abs_world w))(f \<mapsto> Fs_future)\<rparr>)"
proof -
  note F = abs_fut [OF ok p] link_fut [OF ok p] fut_value_promise [OF ok p]
  obtain x where x: "w_promises w q = Some x" "cs = abs_promise x" using q by auto
  have xf: "prm_future x \<noteq> Some f"
  proof
    assume "prm_future x = Some f"
    then have "fut_of (w_promises w) q = Some f" using x by (simp add: of_defs)
    then show False using F ne world_ok_link [OF ok] by auto
  qed
  let ?v = "w\<lparr>w_promises := (w_promises w)(p := None), w_futures := (w_futures w)(f \<mapsto> \<lparr>fut_promise = None, fut_local = Fs_future\<rparr>)\<rparr>"
  have v: "world_ok ?v"
    using linked_cut [OF world_ok_linked [OF ok] F(3)] world_ok_owned [OF ok] F
    by (intro world_ok_step [OF ok]) (auto simp: ok_defs fun_upd_idem split: if_splits)
  have av: "abs_world ?v = (abs_world w)\<lparr>sp_promise := (sp_promise (abs_world w))(p := None), sp_future := (sp_future (abs_world w))(f \<mapsto> Fs_future)\<rparr>"
    by (rule world_ext) (simp_all add: abs_defs)
  have "goes_to (promise_move p q ?v) ((abs_world ?v)\<lparr>sp_promise := (sp_promise (abs_world ?v))(q \<mapsto> (Spent, Fs_invalid), p \<mapsto> cs)\<rparr>)"
    by (rule promise_move_step [OF v]) (use ne q in \<open>simp_all add: x\<close>)
  then obtain u where u: "promise_move p q ?v = Some u" "world_ok u"
    "abs_world u = (abs_world ?v)\<lparr>sp_promise := (sp_promise (abs_world ?v))(q \<mapsto> (Spent, Fs_invalid), p \<mapsto> cs)\<rparr>"
    unfolding goes_to_def by blast
  have "sp_future (abs_world u) f = Some Fs_future" unfolding u(3) av by simp
  then have uf: "w_futures u f = Some \<lparr>fut_promise = None, fut_local = Fs_future\<rparr>" by (rule abs_own)
  let ?y = "\<lparr>fut_promise = Some p, fut_local = Fs_future\<rparr>"
  have w1: "?v\<lparr>w_futures := (w_futures ?v)(f \<mapsto> ?y)\<rparr> = w\<lparr>w_promises := (w_promises w)(p := None)\<rparr>"
  proof -
    have "(w_futures w)(f \<mapsto> ?y) = w_futures w" by (rule fun_upd_idem) (rule F(2))
    then show ?thesis by (cases w) simp
  qed
  have "promise_move p q (?v\<lparr>w_futures := (w_futures ?v)(f \<mapsto> ?y)\<rparr>) = map_option (\<lambda>w. w\<lparr>w_futures := (w_futures w)(f \<mapsto> ?y)\<rparr>) (promise_move p q ?v)"
    by (rule promise_move_commute [of _ _ x]) (use x xf ne in simp_all)
  then have "promise_move p q (w\<lparr>w_promises := (w_promises w)(p := None)\<rparr>) = Some (u\<lparr>w_futures := (w_futures u)(f \<mapsto> ?y)\<rparr>)"
    unfolding w1 u(1) by simp
  moreover have "u\<lparr>w_futures := (w_futures u)(f \<mapsto> \<lparr>fut_promise = None, fut_local = Fs_future\<rparr>)\<rparr> = u"
    using uf by (cases u) (simp add: fun_upd_idem)
  moreover have "promise_destroy p (w\<lparr>w_promises := (w_promises w)(p \<mapsto> \<lparr>prm_future = None, prm_local = Fs_future, prm_state = Some (Loc_promise p), prm_task = None\<rparr>)\<rparr>) =
      Some (w\<lparr>w_promises := (w_promises w)(p := None)\<rparr>)"
    by (simp add: promise_destroy_def abandoned_def report_def)
  moreover have "upd_future f (\<lambda>y. y\<lparr>fut_promise := None\<rparr>) (u\<lparr>w_futures := (w_futures u)(f \<mapsto> ?y)\<rparr>) =
      Some (u\<lparr>w_futures := (w_futures u)(f \<mapsto> \<lparr>fut_promise = None, fut_local = Fs_future\<rparr>)\<rparr>)"
    by (simp add: upd_future_def)
  ultimately have "future_forward_to n f q w = Some u"
    using F(1,2,6) ne by (simp add: future_forward_to_def promise_assign_def upd_promise_def del: fun_upd_apply)
  then show ?thesis
    using u(2,3) unfolding av by (intro goes_toI) (assumption, assumption, cases "abs_world w", simp)
qed

definition refines :: "('v, 'e) operation \<Rightarrow> ('v, 'e) world \<Rightarrow> ('v, 'e) outcome \<Rightarrow> ('v, 'e) spec \<Rightarrow> bool" where
  "refines op w r a \<longleftrightarrow> (\<exists>w'. exec op w = Some (r, w') \<and> world_ok w' \<and> abs_world w' = a)"

lemma refines_done:
  assumes "goes_to m a" and "exec op w = map_option (Pair Done) m"
  shows "refines op w Done a"
  using assms by (auto simp: refines_def goes_to_def)

lemma future_then_step:
  assumes ok: "world_ok w" and s: "fut_value f w = Some s" "fs_available s" and t: "fresh_task t (abs_world w)"
    and st: "goes_to (fut_store f Fs_invalid w) b" and b: "sp_ready b = sp_ready (abs_world w)" "\<And>p s. sp_promise b p = Some (Waiting t, s) \<Longrightarrow> \<exists>s. sp_promise (abs_world w) p = Some (Waiting t, s)"
  shows "goes_to (future_schedule f t w) (b\<lparr>sp_ready := sp_ready b @ [(t, s)]\<rparr>)"
proof -
  obtain v where v: "fut_store f Fs_invalid w = Some v" "world_ok v" "abs_world v = b" using st by (auto simp: goes_to_def)
  have "fresh_task t (abs_world v)" using t b unfolding v(3) fresh_task_def by metis
  from push_step [OF v(2) this, of s] show ?thesis
    using s t v by (simp add: future_schedule_def fresh_task_abs [OF ok])
qed

lemma future_callback_step:
  assumes ok: "world_ok w" and s: "fut_value f w = Some s" "fs_available s" and t: "fresh_task t (abs_world w)"
    and v: "get_available_state f w = Some (s, v)" "world_ok v" "abs_world v = b"
    and b: "sp_ready b = sp_ready (abs_world w)" "\<And>p s. sp_promise b p = Some (Waiting t, s) \<Longrightarrow> \<exists>s. sp_promise (abs_world w) p = Some (Waiting t, s)"
  shows "goes_to (future_set_callback f t w) (b\<lparr>sp_ready := sp_ready b @ [(t, s)]\<rparr>)"
proof -
  have "fresh_task t (abs_world v)" using t b unfolding v(3) fresh_task_def by metis
  from push_step [OF v(2) this, of s] show ?thesis
    using s t v by (simp add: future_set_callback_def fresh_task_abs [OF ok])
qed

lemma future_get_step:
  assumes "fut_value f w = Some s" and "fs_get s = Some r" and "get_available_state f w = Some (s, v)" "world_ok v" "abs_world v = b"
  shows "refines (Future_get f) w (Got r) b"
proof -
  have "fs_available s" using assms(2) by (cases s) (simp_all add: fs_get_def)
  then show ?thesis using assms by (simp add: refines_def future_get_def)
qed

lemma forward_now_step:
  assumes ok: "world_ok w" and s: "fut_value f w = Some s" "fs_available s" and q: "sp_promise (abs_world w) q = Some (c, Fs_future)"
    and st: "\<And>v. world_ok v \<Longrightarrow> abs_world v = arrive (\<not> n) q c s (abs_world w) \<Longrightarrow> goes_to (fut_store f Fs_invalid v) b"
  shows "goes_to (future_forward_to n f q w) b"
proof -
  have "future_forward_to n f q w = Option.bind (deliver True n q s w) (fut_store f Fs_invalid)"
    using s by (cases s) (simp_all add: future_forward_to_def set_deliver)
  moreover have "goes_to (Option.bind (deliver True n q s w) (fut_store f Fs_invalid)) b"
    by (rule goes_to_bind [OF deliver_step [OF ok q]]) (use st in simp)
  ultimately show ?thesis by simp
qed

lemma run_task_step:
  assumes ok: "world_ok w" and r: "sp_ready (abs_world w) = (t, s) # rest"
  shows "\<exists>v. run_task w = Some ((t, s), v) \<and> world_ok v \<and> abs_world v = (abs_world w)\<lparr>sp_ready := rest\<rparr>"
proof -
  obtain us where us: "w_ready w = t # us" "the (w_tasks w t) = s" "rest = List.map (\<lambda>t. (t, the (w_tasks w t))) us"
    using r by (auto simp: Cons_eq_map_conv map_eq_Cons_conv)
  have "w_tasks w t \<noteq> None" using world_ok_ready [OF ok, of t] us by simp
  then have ts: "w_tasks w t = Some s" using us by auto
  let ?w = "w\<lparr>w_ready := us, w_tasks := (w_tasks w)(t := None)\<rparr>"
  have O: "owned (task_of (w_promises w)) (w_tasks w) Fs_future (t # us)" using world_ok_owned [OF ok] us by simp
  have nt: "u \<in> set us \<Longrightarrow> u \<noteq> t" for u using ownedD(6) [OF O] by auto
  have "world_ok ?w"
    using world_ok_linked [OF ok] owned_pop [OF O] by (intro world_ok_step [OF ok]) auto
  moreover have "abs_world ?w = (abs_world w)\<lparr>sp_ready := rest\<rparr>"
    using us nt by (intro world_ext) auto
  ultimately show ?thesis using ts us by (simp add: run_task_def)
qed

lemma step_refines: "step op a r a' \<Longrightarrow> world_ok w \<Longrightarrow> abs_world w = a \<Longrightarrow> refines op w r a'"
proof (induction op a r a' arbitrary: w rule: step.induct)
  case (New a p)
  then show ?case by (auto intro!: refines_done [OF promise_construct_step])
next
  case (Move a p cs q)
  then show ?case by (auto intro!: refines_done [OF promise_move_step])
next
  case (Destroy_future a p f s)
  then show ?case by (auto intro!: refines_done [OF promise_destroy_future_step])
next
  case (Destroy a p c s)
  then show ?case by (auto intro!: refines_done [OF promise_destroy_step])
next
  case (Assign_self a p cs)
  then show ?case by (auto simp: refines_def promise_assign_def)
next
  case (Assign p q a b c)
  from Assign.IH(1) [OF Assign.prems] obtain v where v: "promise_destroy q w = Some v" "world_ok v" "abs_world v = b"
    by (auto simp: refines_def)
  from Assign.IH(2) [OF v(2,3)] v(1) Assign.hyps show ?case by (auto simp: refines_def promise_assign_def)
next
  case (Get_future a p s f)
  then show ?case by (auto intro!: refines_done [OF get_future_step])
next
  case (Set_value a p c v)
  then show ?case using deliver_step [of w p c False False "Fs_result v"] by (auto simp: set_deliver intro!: refines_done)
next
  case (Set_exception a p c e)
  then show ?case using deliver_step [of w p c False False "Fs_exception e"] by (auto simp: set_deliver intro!: refines_done)
next
  case (Ready_future f a v)
  then show ?case using link_fresh [of w f] by (auto simp: make_ready_future_def intro!: refines_done [OF new_future_step])
next
  case (Exception_future f a e)
  then show ?case using link_fresh [of w f] by (auto simp: make_exception_future_def intro!: refines_done [OF new_future_step])
next
  case (Future_move a f s g)
  then show ?case by (auto intro!: refines_done [OF future_move_own_step])
next
  case (Future_move_promise a p f s g)
  then show ?case by (auto intro!: refines_done [OF future_move_promise_step])
next
  case (Future_destroy a f s)
  then show ?case by (auto intro!: refines_done [OF future_destroy_own_step])
next
  case (Future_destroy_promise a p f s)
  then show ?case by (auto intro!: refines_done [OF future_destroy_promise_step])
next
  case (Future_assign_self f a)
  then show ?case by (auto simp: refines_def future_assign_def)
next
  case (Future_assign f g a b c)
  from Future_assign.IH(1) [OF Future_assign.prems] obtain v where v: "future_destroy g w = Some v" "world_ok v" "abs_world v = b"
    by (auto simp: refines_def)
  from Future_assign.IH(2) [OF v(2,3)] v(1) Future_assign.hyps show ?case by (auto simp: refines_def future_assign_def)
next
  case (Get a f s r)
  then show ?case
    using get_available_own [of w f s] fut_value_own [of w f s] by (auto intro: future_get_step)
next
  case (Get_promise a p f s r)
  then show ?case
    using get_available_promise [of w p f s] fut_value_promise [of w p f s] by (auto intro: future_get_step)
next
  case (Ignore a f s)
  then show ?case
    using fut_store_own_step [of w f s Fs_invalid] fut_value_own [of w f s] by (auto simp: ignore_ready_future_def intro: refines_done)
next
  case (Ignore_promise a p f s)
  then show ?case
    using fut_store_promise_step [of w p f s Fs_invalid] fut_value_promise [of w p f s] by (auto simp: ignore_ready_future_def intro: refines_done)
next
  case (Then a f s t)
  then have "goes_to (future_schedule f t w) (a\<lparr>sp_future := (sp_future a)(f \<mapsto> Fs_invalid), sp_ready := sp_ready a @ [(t, s)]\<rparr>)"
    using future_then_step [OF _ _ _ _ fut_store_own_step [of w f s Fs_invalid]] fut_value_own [of w f s] by auto
  then show ?case by (simp add: refines_done)
next
  case (Then_promise a p f s t)
  then have ok: "world_ok w" and p: "sp_promise (abs_world w) p = Some (Fut f, s)" and t: "fresh_task t (abs_world w)" by simp_all
  have keep: "(if q = p then Some (Fut f, Fs_invalid) else sp_promise (abs_world w) q) = Some (Waiting t, r) \<Longrightarrow>
      \<exists>r. sp_promise (abs_world w) q = Some (Waiting t, r)" for q r
    by (auto split: if_splits)
  have "goes_to (future_schedule f t w) ((abs_world w)\<lparr>sp_promise := (sp_promise (abs_world w))(p \<mapsto> (Fut f, Fs_invalid)), sp_ready := sp_ready (abs_world w) @ [(t, s)]\<rparr>)"
    using future_then_step [OF ok fut_value_promise(1) [OF ok p] Then_promise(2) t fut_store_promise_step [OF ok p, of Fs_invalid]] keep
    by simp
  then show ?case using Then_promise by (simp add: refines_done)
next
  case (Callback a f s t)
  then obtain v where "get_available_state f w = Some (s, v)" "world_ok v" "abs_world v = a\<lparr>sp_future := (sp_future a)(f \<mapsto> Fs_invalid)\<rparr>"
    using get_available_own [of w f s] by auto
  from future_callback_step [OF _ _ _ _ this] Callback have "goes_to (future_set_callback f t w) (a\<lparr>sp_future := (sp_future a)(f \<mapsto> Fs_invalid), sp_ready := sp_ready a @ [(t, s)]\<rparr>)"
    using fut_value_own [of w f s] by auto
  then show ?case by (simp add: refines_done)
next
  case (Callback_promise a p f s t)
  then obtain v where "get_available_state f w = Some (s, v)" "world_ok v"
    "abs_world v = a\<lparr>sp_promise := (sp_promise a)(p \<mapsto> (Nobody, Fs_invalid)), sp_future := (sp_future a)(f \<mapsto> Fs_future)\<rparr>"
    using get_available_promise [of w p f s] by auto
  note v = this
  from Callback_promise have ok: "world_ok w" and p: "sp_promise (abs_world w) p = Some (Fut f, s)" and t: "fresh_task t (abs_world w)" by simp_all
  have keep: "(if q = p then Some (Nobody, Fs_invalid) else sp_promise a q) = Some (Waiting t, r) \<Longrightarrow>
      \<exists>r. sp_promise a q = Some (Waiting t, r)" for q r
    by (auto split: if_splits)
  have "goes_to (future_set_callback f t w)
    (a\<lparr>sp_promise := (sp_promise a)(p \<mapsto> (Nobody, Fs_invalid)), sp_future := (sp_future a)(f \<mapsto> Fs_future), sp_ready := sp_ready a @ [(t, s)]\<rparr>)"
    using future_callback_step [OF ok fut_value_promise(1) [OF ok p] Callback_promise(2) t v] keep Callback_promise(5) by simp
  then show ?case by (simp add: refines_done)
next
  case (Wait a p f t op)
  have "w_tasks w t = None" using Wait fresh_task_abs [of w t] by simp
  moreover have "fut_value f w = Some Fs_future" using Wait fut_value_promise [of w p f] by simp
  moreover have "goes_to (future_wait f t w) (a\<lparr>sp_promise := (sp_promise a)(p \<mapsto> (Waiting t, Fs_future)), sp_future := (sp_future a)(f \<mapsto> Fs_future)\<rparr>)"
    using future_wait_step [of w p f] Wait by simp
  ultimately show ?case using Wait(3)
    by (auto simp: future_schedule_def future_set_callback_def future_do_wait_def intro: refines_done)
next
  case (Forward a f s q c n)
  show ?case
  proof (rule refines_done [OF forward_now_step])
    fix v assume v: "world_ok v" "abs_world v = arrive (\<not> n) q c s (abs_world w)"
    then have "sp_future (abs_world v) f = Some s" using Forward by (simp add: arrive_def del: abs_world_simps split: consumer.splits)
    from fut_store_own_step [OF v(1) this, of Fs_invalid]
    show "goes_to (fut_store f Fs_invalid v) (arrive (\<not> n) q c s (a\<lparr>sp_future := (sp_future a)(f \<mapsto> Fs_invalid)\<rparr>))"
      unfolding v(2) Forward(5) by (cases a; cases c; cases n) (simp_all add: arrive_def)
  qed (use Forward fut_value_own [of w f s] in auto)
next
  case (Forward_promise a p f s q c n)
  have pq: "p \<noteq> q" using Forward_promise by auto
  show ?case
  proof (rule refines_done [OF forward_now_step])
    fix v assume v: "world_ok v" "abs_world v = arrive (\<not> n) q c s (abs_world w)"
    then have "sp_promise (abs_world v) p = Some (Fut f, s)" using Forward_promise pq by (simp add: arrive_def del: abs_world_simps split: consumer.splits)
    from fut_store_promise_step [OF v(1) this, of Fs_invalid]
    show "goes_to (fut_store f Fs_invalid v) (arrive (\<not> n) q c s (a\<lparr>sp_promise := (sp_promise a)(p \<mapsto> (Fut f, Fs_invalid))\<rparr>))"
      unfolding v(2) Forward_promise(5) using pq by (cases a; cases c; cases n) (simp_all add: arrive_def fun_upd_twist)
  qed (use Forward_promise fut_value_promise [of w p f s] in auto)
next
  case (Forward_later a p f q cs n)
  then show ?case using forward_later_step [of w p f q cs n] by (auto intro: refines_done)
next
  case (Run a t s rest)
  then show ?case using run_task_step [of w t s rest] by (auto simp: refines_def)
next
  case (Wake a t s rest f r)
  then obtain v where v: "run_task w = Some ((t, s), v)" "world_ok v" "abs_world v = a\<lparr>sp_ready := rest\<rparr>"
    using run_task_step [of w t s rest] by auto
  then have "sp_future (abs_world v) f = Some r" using Wake by (simp del: abs_world_simps)
  from fut_store_own_step [OF v(2) this, of s] v Wake show ?case
    by (auto simp: refines_def thread_wake_def goes_to_def)
qed


section \<open>Runs\<close>

fun run_ops :: "('v, 'e) operation list \<Rightarrow> ('v, 'e) world \<Rightarrow> (('v, 'e) outcome list \<times> ('v, 'e) world) option" where
  "run_ops [] w = Some ([], w)"
| "run_ops (op # ops) w = Option.bind (exec op w) (\<lambda>(r, w). map_option (\<lambda>(rs, w). (r # rs, w)) (run_ops ops w))"

inductive steps :: "('v, 'e) operation list \<Rightarrow> ('v, 'e) spec \<Rightarrow> ('v, 'e) outcome list \<Rightarrow> ('v, 'e) spec \<Rightarrow> bool" where
  Nil: "steps [] a [] a"
| Cons: "\<lbrakk>step op a r b; steps ops b rs c\<rbrakk> \<Longrightarrow> steps (op # ops) a (r # rs) c"

inductive_cases steps_NilE [elim!]: "steps [] a rs b"
inductive_cases steps_ConsE: "steps (op # ops) a rs c"

lemma world_new_ok: "world_ok world_new"
  by (simp add: world_ok_def world_new_def linked_def owned_def of_defs)

lemma abs_world_new: "abs_world world_new = spec_new"
  by (simp add: abs_world_def world_new_def spec_new_def)

lemma steps_refine: "steps ops a rs a' \<Longrightarrow> world_ok w \<Longrightarrow> abs_world w = a \<Longrightarrow> \<exists>w'. run_ops ops w = Some (rs, w') \<and> world_ok w' \<and> abs_world w' = a'"
proof (induction ops a rs a' arbitrary: w rule: steps.induct)
  case (Cons op a r b ops rs c)
  obtain v where v: "exec op w = Some (r, v)" "world_ok v" "abs_world v = b"
    using step_refines [OF Cons(1,4,5)] by (auto simp: refines_def)
  from Cons.IH [OF v(2,3)] show ?case using v(1) by auto
qed simp

text \<open>Operations that queue at the back, and the number of continuations a sequence runs.\<close>

fun patient :: "('v, 'e) operation \<Rightarrow> bool" where
  "patient (Future_forward n f q) \<longleftrightarrow> n"
| "patient (Thread_wake f) \<longleftrightarrow> False"
| "patient op \<longleftrightarrow> True"

fun runs :: "('v, 'e) operation list \<Rightarrow> nat" where
  "runs [] = 0"
| "runs (Run_task # ops) = Suc (runs ops)"
| "runs (op # ops) = runs ops"

lemma step_ready: "step op a r b \<Longrightarrow> patient op \<Longrightarrow> (op = Run_task \<longrightarrow> (\<exists>t s. r = Ran t s \<and> sp_ready a = (t, s) # sp_ready b)) \<and> (op \<noteq> Run_task \<longrightarrow> (\<exists>ys. sp_ready b = sp_ready a @ ys))"
  by (induction op a r b rule: step.induct) (auto simp: arrive_def split: consumer.splits)

lemma runs_Cons: "runs (op # ops) = (if op = Run_task then Suc (runs ops) else runs ops)"
  by (cases op) simp_all

lemma steps_fifo: "steps ops a rs b \<Longrightarrow> list_all patient ops \<Longrightarrow> i < length (sp_ready a) \<Longrightarrow> i < runs ops \<Longrightarrow> Ran (fst (sp_ready a ! i)) (snd (sp_ready a ! i)) \<in> set rs"
proof (induction ops a rs b arbitrary: i rule: steps.induct)
  case (Cons op a r b ops rs c)
  show ?case
  proof (cases "op = Run_task")
    case True
    with step_ready [OF Cons(1)] obtain t s where ts: "r = Ran t s" "sp_ready a = (t, s) # sp_ready b" by auto
    show ?thesis
    proof (cases i)
      case (Suc j)
      with Cons.IH [of j] Cons.prems ts True show ?thesis by simp
    qed (simp add: ts)
  next
    case False
    with step_ready [OF Cons(1)] Cons.prems obtain ys where ys: "sp_ready b = sp_ready a @ ys" by auto
    with Cons.IH [of i] Cons.prems False show ?thesis by (simp add: nth_append runs_Cons)
  qed
qed simp


lemma run_ops_append: "run_ops (ops @ ops') w = Option.bind (run_ops ops w) (\<lambda>(rs, w). map_option (\<lambda>(rs', w). (rs @ rs', w)) (run_ops ops' w))"
proof (induction ops arbitrary: w)
  case Nil
  then show ?case by (cases "run_ops ops' w") auto
next
  case (Cons op ops)
  show ?case
  proof (cases "exec op w")
    case (Some x)
    obtain r v where x: "x = (r, v)" by (cases x)
    show ?thesis
      by (cases "run_ops ops v") (auto simp: Some x Cons.IH option.map_comp comp_def split_beta)
  qed simp
qed

section \<open>Properties\<close>

text \<open>
  C3. Promises, futures and continuations implement the specification: whatever sequence of operations the
  specification allows from the empty state, on objects that are moved, assigned, waited for and destroyed in any order,
  the code executes it without a failed assertion or a dangling pointer, with the outcomes of the specification, and the
  pointers between the objects stay consistent.
\<close>

theorem future_run_refines:
  assumes "steps ops spec_new rs a"
  shows "\<exists>w. run_ops ops world_new = Some (rs, w) \<and> world_ok w \<and> abs_world w = a"
  using steps_refine [OF assms world_new_ok abs_world_new] .

definition example_state :: "(nat, nat) spec" where
  "example_state = \<lparr>sp_promise = [0 \<mapsto> (Waiting 2, Fs_future)], sp_future = [1 \<mapsto> Fs_future], sp_ready = [], sp_reports = []\<rparr>"

lemma step_eq: "step op a r b \<Longrightarrow> b = c \<Longrightarrow> step op a r c"
  by simp

lemma example_wait: "steps [Promise_new 0, Get_future 0 1, Future_then 1 2] spec_new [Done, Done, Done] example_state"
proof -
  have a: "step (Promise_new 0) spec_new Done \<lparr>sp_promise = [0 \<mapsto> (Nobody, Fs_future)], sp_future = Map.empty, sp_ready = [], sp_reports = []\<rparr>"
    using step.New [of spec_new 0] by (simp add: spec_new_def)
  have b: "step (Get_future 0 1) \<lparr>sp_promise = [0 \<mapsto> (Nobody, Fs_future)], sp_future = Map.empty, sp_ready = [], sp_reports = []\<rparr> Done
      \<lparr>sp_promise = [0 \<mapsto> (Fut 1, Fs_future)], sp_future = Map.empty, sp_ready = [], sp_reports = []\<rparr>"
    by (rule step.Get_future [where s = Fs_future and p = 0, THEN step_eq]) (auto simp: fresh_future_def split: if_splits)
  have c: "step (Future_then 1 2) \<lparr>sp_promise = [0 \<mapsto> (Fut 1, Fs_future)], sp_future = Map.empty, sp_ready = [], sp_reports = []\<rparr> Done example_state"
    by (rule step.Wait [where f = 1 and t = 2 and p = 0, THEN step_eq]) (auto simp: fresh_task_def example_state_def split: if_splits)
  show ?thesis by (rule steps.Cons [OF a steps.Cons [OF b steps.Cons [OF c steps.Nil]]])
qed

lemma example_value: "\<exists>b. steps [Set_value 0 7, Run_task] example_state [Done, Ran 2 (Fs_result 7)] b"
proof -
  have a: "step (Set_value 0 7) example_state Done (example_state\<lparr>sp_promise := [0 \<mapsto> (Spent, Fs_invalid)], sp_ready := [(2, Fs_result 7)]\<rparr>)"
    using step.Set_value [of example_state 0 "Waiting 2" 7] by (simp add: example_state_def arrive_def)
  have b: "step Run_task (example_state\<lparr>sp_promise := [0 \<mapsto> (Spent, Fs_invalid)], sp_ready := [(2, Fs_result 7)]\<rparr>) (Ran 2 (Fs_result 7))
      (example_state\<lparr>sp_promise := [0 \<mapsto> (Spent, Fs_invalid)], sp_ready := []\<rparr>)"
    using step.Run [of "example_state\<lparr>sp_promise := [0 \<mapsto> (Spent, Fs_invalid)], sp_ready := [(2, Fs_result 7)]\<rparr>" 2 "Fs_result 7" "[]"] by simp
  show ?thesis using steps.Cons [OF a steps.Cons [OF b steps.Nil]] by blast
qed

theorem future_run_refines_witness:
  "\<exists>w. run_ops [Promise_new 0, Get_future 0 1, Future_then 1 2] (world_new :: (nat, nat) world) = Some ([Done, Done, Done], w) \<and>
     world_ok w \<and> abs_world w = example_state"
  by (rule future_run_refines [OF example_wait])

text \<open>
  C7. A value reaches its continuation: after any sequence of operations that leaves the continuation \<open>t\<close> waiting in
  the promise \<open>p\<close>, once \<open>p\<close> is given the value \<open>v\<close>, the reactor runs \<open>t\<close> with \<open>v\<close> no later than it has
  run as many tasks as were queued and one, whatever else is queued at the back meanwhile.
\<close>

theorem value_reaches_continuation:
  assumes "steps pre spec_new rs a" and "sp_promise a p = Some (Waiting t, Fs_future)"
    and "steps (Set_value p v # ops) a rs' b" and "list_all patient ops" and "length (sp_ready a) < runs ops"
  shows "\<exists>w. run_ops (pre @ Set_value p v # ops) world_new = Some (rs @ rs', w) \<and> Ran t (Fs_result v) \<in> set rs'"
proof -
  from assms(3) obtain r c rs'' where c: "step (Set_value p v) a r c" "steps ops c rs'' b" "rs' = r # rs''"
    by (rule steps_ConsE)
  from c(1) have "sp_ready c = sp_ready a @ [(t, Fs_result v)]"
    using assms(2) by (cases rule: step.cases) (auto simp: arrive_def)
  with steps_fifo [OF c(2) assms(4), of "length (sp_ready a)"] assms(5) have ran: "Ran t (Fs_result v) \<in> set rs'"
    by (simp add: nth_append c(3))
  obtain w where w: "run_ops pre world_new = Some (rs, w)" "world_ok w" "abs_world w = a"
    using steps_refine [OF assms(1) world_new_ok abs_world_new] by blast
  obtain w' where "run_ops (Set_value p v # ops) w = Some (rs', w')"
    using steps_refine [OF assms(3) w(2,3)] by blast
  with w ran show ?thesis by (auto simp: run_ops_append)
qed

theorem value_reaches_continuation_witness:
  "\<exists>w. run_ops ([Promise_new 0, Get_future 0 1, Future_then 1 2] @ [Set_value 0 7, Run_task]) (world_new :: (nat, nat) world) =
       Some ([Done, Done, Done] @ [Done, Ran 2 (Fs_result 7)], w) \<and> Ran 2 (Fs_result 7) \<in> set [Done, Ran 2 (Fs_result 7 :: (nat, nat) value_state)]"
proof -
  obtain b where "steps [Set_value 0 7, Run_task] example_state [Done, Ran 2 (Fs_result 7)] b" using example_value by blast
  from value_reaches_continuation [OF example_wait _ this] show ?thesis by (simp add: example_state_def)
qed

end
