(* ===== verification/Spec2Isabelle.thy ===== *)
theory Spec2Isabelle
  imports Prelude Bitops Fifo CircularBuffer ChunkedFifo FixedCapacity ExpiringFifo Semaphore Rwlock SharedMutex Gate BoundedQueue TimerSet Byteorder Checksum Packet PacketMerger Ip IpReassembly Slab Memcache CacheRun PageList PageAlloc BuddyAlloc SmallPool CoreHeap Futures FutureRun
begin

text \<open>
  Verification library for the core of Seastar 18.08, the C++ framework under
  \<open>rpc/seastar/seastar-18.08-branch\<close>.  Paths below are relative to that directory.

  \<^bold>\<open>The program.\<close>  Seastar runs one reactor per core.  Fibers on a core share its memory without locks and
  wait for one another through futures, so the parts whose state matters are the containers the reactor and the
  fibers keep (\<open>core/circular_buffer.hh\<close>, \<open>core/chunked_fifo.hh\<close>, \<open>core/circular_buffer_fixed_capacity.hh\<close>,
  \<open>core/expiring_fifo.hh\<close>), the synchronisation built on them (\<open>core/semaphore.hh\<close>, \<open>core/rwlock.hh\<close>,
  \<open>core/shared_mutex.hh\<close>, \<open>core/gate.hh\<close>, \<open>core/queue.hh\<close>), the timers (\<open>core/timer-set.hh\<close>), the allocators of
  pages (\<open>core/memory.cc\<close>) and of objects (\<open>core/slab.hh\<close>), the native network stack (\<open>net/packet.hh\<close>, \<open>net/ip.cc\<close> and what they call) and, as the
  application that uses most of these, the cache of memcached (\<open>apps/memcached/memcache.cc\<close>).

  \<^bold>\<open>Conventions.\<close>  An operation is a function from the state to the new state and the result; \<open>None\<close> is what the code
  leaves undefined or aborts on (a failed assertion, a dereferenced null pointer, an intrusive list element that is
  not linked), \<open>Inl\<close> an exception.  Machine integers are words of their width (\<open>size_t\<close> is \<open>64 word\<close>) wherever they can wrap
  around in the code's own use, and natural numbers for sizes and addresses bounded by memory.  A callback, a
  clock, the system allocator, a hash function are arguments.  A promise is its identity, and an operation returns the
  promises it resolves: what runs after is a step of its own.  Raw memory is explicit where object lifetime matters
  (\<open>CircularBuffer\<close>, \<open>ChunkedFifo\<close>, \<open>FixedCapacity\<close>), elsewhere an object is its value or its address.

  \<^bold>\<open>The theories.\<close>

  \<^item> \<open>Prelude\<close>: the machine types, the promise states, lemma collections, facts on lists, options and words.
  \<^item> \<open>Bitops\<close>: \<open>core/bitops.hh\<close>, \<open>core/align.hh\<close>, \<open>core/bitset-iter.hh\<close>: powers of two, alignment, iteration over the set
    bits of a word; \<open>for_each_set\<close> visits exactly these, in order.
  \<^item> \<open>Fifo\<close>: the locales of the queue containers (a state, a well-formedness predicate, the contents and laws for push,
    pop, front, empty), with the run lemmas proved once; each container interprets them.
  \<^item> \<open>CircularBuffer\<close>: \<open>core/circular_buffer.hh\<close> with \<open>core/transfer.hh\<close>: raw storage, indices that wrap around at 64
    bits, growth with constructors that throw; the container is a double-ended queue, and no object is
    left alive outside of its window or in a block it gives back.
  \<^item> \<open>ChunkedFifo\<close>: \<open>core/chunked_fifo.hh\<close>: an explicit store of chunks, the free list, reserve, allocation failures.
  \<^item> \<open>FixedCapacity\<close>: \<open>core/circular_buffer_fixed_capacity.hh\<close>: masked indices within a capacity that is a power of two.
  \<^item> \<open>ExpiringFifo\<close>: \<open>core/expiring_fifo.hh\<close> on \<open>ChunkedFifo\<close>: expiry empties an entry in the middle and drops empty fronts.
  \<^item> \<open>Semaphore\<close>, \<open>Rwlock\<close>, \<open>SharedMutex\<close>, \<open>Gate\<close>, \<open>BoundedQueue\<close>: the synchronisation primitives as step relations over
    fibers, with mutual exclusion, conservation of units, no lost wake-up, and the interleavings in which the
    continuations of \<open>queue\<close> misbehave.
  \<^item> \<open>TimerSet\<close>: \<open>core/timer-set.hh\<close>: buckets by the highest bit in which a timeout differs from the last expiry; the set
    is a multiset of timers from which expiry takes exactly those due.
  \<^item> \<open>Byteorder\<close>, \<open>Checksum\<close>: \<open>core/byteorder.hh\<close>, \<open>net/byteorder.hh\<close>, \<open>core/unaligned.hh\<close>, \<open>net/ip_checksum.hh\<close>, \<open>net/ip_checksum.cc\<close>,
    \<open>net/toeplitz.hh\<close>: conversions and the two hashes against their reference definitions.
  \<^item> \<open>Packet\<close>: \<open>net/packet.hh\<close>, \<open>net/packet.cc\<close>: fragments, internal storage and headroom; operations refine byte strings.
  \<^item> \<open>PacketMerger\<close>: \<open>net/packet-util.hh\<close>: merging a segment into a map of disjoint segments.
  \<^item> \<open>Ip\<close>, \<open>IpReassembly\<close>: \<open>net/ip.hh\<close>, \<open>net/ip.cc\<close> and the constants of \<open>net/const.hh\<close>, \<open>net/net.hh\<close>: headers, fragmentation,
    reassembly with its memory limit and timeout, ICMP echo; what one machine sends in fragments another
    delivers whole, in any order of arrival.
  \<^item> \<open>Slab\<close>: \<open>core/slab.hh\<close>: classes, pages, the lists of free pages and the least recently used items; in every
    reachable state live items are disjoint and only items that are not locked are evicted.
  \<^item> \<open>Memcache\<close>, \<open>CacheRun\<close>: the class \<open>cache\<close> of \<open>apps/memcached/memcache.cc\<close> on \<open>Slab\<close> and \<open>TimerSet\<close>: items, reference counts,
    the hash set, expiry, eviction, reclaim; any sequence of operations answers as a map from keys to entries.
  \<^item> \<open>PageList\<close>, \<open>PageAlloc\<close>, \<open>BuddyAlloc\<close>: the page allocator of \<open>core/memory.cc\<close>: lists threaded through the array of page
    descriptors, buddies that split and merge; in every reachable state spans are disjoint and every request ends.
  \<^item> \<open>SmallPool\<close>, \<open>CoreHeap\<close>: the small pools and the heap of a core in \<open>core/memory.cc\<close> on top of these: objects move between
    the caller, the free list of the pool and the lists of the spans; in every reachable state live objects are disjoint.
  \<^item> \<open>Futures\<close>, \<open>FutureRun\<close>: \<open>core/future.hh\<close>: promises, futures and continuations as objects with addresses that point
    to one another and move, and the queue of tasks; every sequence of operations implements a specification in
    which a promise has a value so far and a consumer, and a value reaches its continuation.

  \<^bold>\<open>Lemmas.\<close>  Each theory proves that its operations keep the invariant of its state (\<open>..._wf\<close>, \<open>..._ok\<close>, \<open>..._inv\<close>), then
  what an operation does to the abstraction of the state (a list, a multiset, a byte string, a map, a set of
  items), and from both the properties, which are the theorems after a text that names a claim.  Each property with
  hypotheses is applied to a concrete input by the theorem of the same name with the suffix \<open>_witness\<close>.

  \<^bold>\<open>Loops.\<close>  No definition uses fuel: a loop is a structural recursion, a function with a measure, the library's
  \<open>while\<close> with a proof that it ends (\<open>TimerSet\<close>, where each step shortens a bucket), or, where the code's loop need not
  end (\<open>grow_loop\<close> and \<open>shrink_size\<close> in \<open>PageAlloc\<close>, \<open>take_spans\<close> in \<open>SmallPool\<close>), a partial function into options with a proof of when it does.

  \<^bold>\<open>Simplifications.\<close>  Unbounded where the code has a machine integer: the length of a packet and the sum of offset and size
  in \<open>get_header\<close> (\<open>Packet\<close>), the offsets of \<open>packet_merger\<close>, the counter of \<open>toeplitz_hash\<close>.  Not in the model because the
  states and arguments it is used with exclude them: the assertions on the page size and the alignment in \<open>create_from_new_page\<close> and on the index in \<open>get_index\<close>,
  and the wrap-around of \<open>count_leading_zeros\<close> on a \<open>long\<close> with the top bit set.  A failing allocation of a slab page descriptor is left out.  \<open>Futures\<close> has one queue of
  ready tasks, where the reactor has one for each scheduling group, and what a destroyed closure had captured is outside of it.

  \<^bold>\<open>Not modelled.\<close>  The reactor, the devices (DPDK, virtio), system calls, TLS, DNS, metrics export, threads and the
  combinators over futures: their effects are scheduling, I/O or calls to code outside of the repository or to closures.
  The synchronisation theories use the small promise store of \<open>Prelude\<close>, in which a promise is enough of a future.  Single omissions inside a modelled part (a printing function, a
  destructor that calls back) are named in the opening text of its theory.
\<close>

end
